(* ===== verification/Comex_Prelude.thy ===== *)
theory Comex_Prelude
  imports Main "HOL-Library.Word" "HOL-Library.Monad_Syntax" "HOL-Library.Signed_Division"
begin

text \<open>
  The prelude: what every component of the development shares.

  Conventions of the model.  A C function that reads and writes global state takes the state as
  its last argument and returns it with the result.  A run that the C language gives no meaning
  to, or that never comes back (an access outside an array, a dereferenced null pointer, a lock
  taken twice by one thread), is \<^term>\<open>None\<close>; every other run is \<^term>\<open>Some\<close> of a value and a
  state.  The error codes and sentinels the code itself returns (\<open>-1\<close>, \<open>NULL\<close>, \<open>-ENOMEM\<close>)
  are ordinary values.  Such functions are written with the option monad's do notation.

  C's \<open>int\<close> is \<^typ>\<open>int\<close>; \<open>i32\<close> and \<open>i16\<close> wrap a result to its width where the code can
  leave it.  \<open>%\<close> is \<open>smod\<close> of the library's Signed_Division, which rounds towards zero as C
  does.  Unsigned long and pointer sized values are words.
\<close>

named_theorems arr_simps \<open>reads and writes of C arrays\<close>
named_theorems comex_defs \<open>small helper definitions that proofs unfold freely\<close>

type_synonym u64 = "64 word"
type_synonym byte = "8 word"

section \<open>Fixed-width signed arithmetic\<close>

definition i32 :: "int \<Rightarrow> int" where
  "i32 x = signed_take_bit 31 x"

definition i16 :: "int \<Rightarrow> int" where
  "i16 x = signed_take_bit 15 x"

lemma i32_id [simp]: "- (2 ^ 31) \<le> x \<Longrightarrow> x < 2 ^ 31 \<Longrightarrow> i32 x = x"
  by (simp add: i32_def signed_take_bit_int_eq_self)

lemma i16_id [simp]: "- (2 ^ 15) \<le> x \<Longrightarrow> x < 2 ^ 15 \<Longrightarrow> i16 x = x"
  by (simp add: i16_def signed_take_bit_int_eq_self)

lemma i32_range: "- (2 ^ 31) \<le> i32 x \<and> i32 x < 2 ^ 31"
  unfolding i32_def by (intro conjI signed_take_bit_int_greater_eq_minus_exp signed_take_bit_int_less_exp)

lemma smod_nonneg: "0 \<le> (a :: int) \<Longrightarrow> 0 < n \<Longrightarrow> a smod n = a mod n"
  by (cases "a = 0") (simp_all add: smod_int_alt_def)

lemma smod_bounds: "0 \<le> (a :: int) \<Longrightarrow> 0 < n \<Longrightarrow> 0 \<le> a smod n \<and> a smod n < n"
  by (simp add: smod_nonneg)

section \<open>C arrays\<close>

text \<open>
  An array of known length is a list; an index outside it has no value.
\<close>

definition arr_get :: "'a list \<Rightarrow> int \<Rightarrow> 'a option" where
  "arr_get xs i = (if 0 \<le> i \<and> i < int (length xs) then Some (xs ! nat i) else None)"

definition arr_set :: "'a list \<Rightarrow> int \<Rightarrow> 'a \<Rightarrow> 'a list option" where
  "arr_set xs i v = (if 0 \<le> i \<and> i < int (length xs) then Some (xs[nat i := v]) else None)"

definition arr_upd :: "'a list \<Rightarrow> int \<Rightarrow> ('a \<Rightarrow> 'a) \<Rightarrow> 'a list option" where
  "arr_upd xs i f = do { v \<leftarrow> arr_get xs i; arr_set xs i (f v) }"

lemma arr_get_in [arr_simps]: "0 \<le> i \<Longrightarrow> i < int (length xs) \<Longrightarrow> arr_get xs i = Some (xs ! nat i)"
  by (simp add: arr_get_def)

lemma arr_set_in [arr_simps]: "0 \<le> i \<Longrightarrow> i < int (length xs) \<Longrightarrow> arr_set xs i v = Some (xs[nat i := v])"
  by (simp add: arr_set_def)

lemma arr_upd_in [arr_simps]:
  "0 \<le> i \<Longrightarrow> i < int (length xs) \<Longrightarrow> arr_upd xs i f = Some (xs[nat i := f (xs ! nat i)])"
  by (simp add: arr_upd_def arr_simps)

lemma arr_get_out: "i < 0 \<or> int (length xs) \<le> i \<Longrightarrow> arr_get xs i = None"
  by (auto simp: arr_get_def)

lemma arr_get_Some: "arr_get xs i = Some v \<longleftrightarrow> 0 \<le> i \<and> i < int (length xs) \<and> v = xs ! nat i"
  by (auto simp: arr_get_def)

lemma arr_set_Some: "arr_set xs i v = Some ys \<longleftrightarrow> 0 \<le> i \<and> i < int (length xs) \<and> ys = xs[nat i := v]"
  by (auto simp: arr_set_def)

lemma arr_upd_Some:
  "arr_upd xs i f = Some ys \<longleftrightarrow> 0 \<le> i \<and> i < int (length xs) \<and> ys = xs[nat i := f (xs ! nat i)]"
  by (auto simp: arr_upd_def arr_get_def arr_set_def)

section \<open>Powers of two and aligned blocks\<close>

lemma pow2_dvd_mono: "j \<le> k \<Longrightarrow> 2 ^ k dvd (p :: int) \<Longrightarrow> 2 ^ j dvd p"
  by (meson dvd_trans le_imp_power_dvd)

lemma flip_bit_dvd_add:
  fixes p :: int
  assumes "2 ^ k dvd p" and "\<not> bit p k"
  shows "flip_bit k p = p + 2 ^ k"
  using assms by (simp add: flip_bit_eq_if set_bit_eq)

section \<open>C loops\<close>

text \<open>
  \<open>for (i = a; i < b; i++)\<close> over a body that may have no value, and the rule that proves such a
  loop: an invariant that may mention the loop counter.
\<close>

function for_up :: "int \<Rightarrow> int \<Rightarrow> (int \<Rightarrow> 's \<Rightarrow> 's option) \<Rightarrow> 's \<Rightarrow> 's option" where
  "for_up i n body s = (if i < n then do { s \<leftarrow> body i s; for_up (i + 1) n body s } else Some s)"
  by pat_completeness auto
termination
  by (relation "measure (\<lambda>(i, n, body, s). nat (n - i))") auto

declare for_up.simps [simp del]

lemma for_up_done [simp]: "n \<le> i \<Longrightarrow> for_up i n body s = Some s"
  by (simp add: for_up.simps)

lemma for_up_step: "i < n \<Longrightarrow> for_up i n body s = do { s \<leftarrow> body i s; for_up (i + 1) n body s }"
  by (subst for_up.simps) simp

lemma for_up_rule:
  assumes "P a s" and "a \<le> b"
    and "\<And>i s. a \<le> i \<Longrightarrow> i < b \<Longrightarrow> P i s \<Longrightarrow> \<exists>s'. body i s = Some s' \<and> P (i + 1) s'"
  shows "\<exists>s'. for_up a b body s = Some s' \<and> P b s'"
  using assms
proof (induction "nat (b - a)" arbitrary: a s)
  case 0
  then show ?case by simp
next
  case (Suc d)
  then have ab: "a < b" "d = nat (b - (a + 1))" by simp_all
  obtain s' where s': "body a s = Some s'" "P (a + 1) s'" using Suc.prems(3) [of a s] Suc.prems(1) ab by auto
  have "\<exists>t. for_up (a + 1) b body s' = Some t \<and> P b t"
    using ab s'(2) Suc.prems(3) by (intro Suc.hyps(1)) auto
  then show ?case using ab s'(1) by (simp add: for_up_step)
qed

end
