(* ===== verification/Buddy_Blocks.thy ===== *)
theory Buddy_Blocks
  imports Comex_Prelude
begin

text \<open>
  The mathematics of the buddy allocator, apart from its code: blocks of \<open>2 ^ k\<close> pages at page
  numbers that are multiples of \<open>2 ^ k\<close>, buddies, and the invariant of the family of free blocks
  (\<open>areas\<close>): aligned, inside the pool, pairwise disjoint, and with no two buddies both free
  below the largest order.
\<close>

section \<open>Blocks\<close>

definition blk :: "nat \<Rightarrow> int \<Rightarrow> int set" where
  "blk k p = {p ..< p + 2 ^ k}"

lemma blk_0 [simp]: "blk 0 p = {p}"
  by (auto simp: blk_def)

lemma blk_self [simp, intro]: "p \<in> blk k p"
  by (simp add: blk_def)

lemma blk_nonempty [simp]: "blk k p \<noteq> {}"
  using blk_self by blast

lemma finite_blk [simp]: "finite (blk k p)"
  by (simp add: blk_def)

lemma blk_eq_div:
  assumes "2 ^ k dvd p"
  shows "blk k p = {x. x div 2 ^ k = p div 2 ^ k}"
proof -
  obtain m where p: "p = 2 ^ k * m" using assms by blast
  have "x div 2 ^ k = m \<longleftrightarrow> 2 ^ k * m \<le> x \<and> x < 2 ^ k * m + 2 ^ k" for x :: int
  proof
    assume m: "x div 2 ^ k = m"
    have "x = 2 ^ k * m + x mod 2 ^ k" by (simp add: m [symmetric])
    moreover have "0 \<le> x mod 2 ^ k" "x mod 2 ^ k < 2 ^ k" by simp_all
    ultimately show "2 ^ k * m \<le> x \<and> x < 2 ^ k * m + 2 ^ k" by linarith
  next
    assume b: "2 ^ k * m \<le> x \<and> x < 2 ^ k * m + 2 ^ k"
    have "(x - 2 ^ k * m) div 2 ^ k = 0" using b by (intro div_pos_pos_trivial) auto
    then show "x div 2 ^ k = m" using div_mult_self4 [of "2 ^ k :: int" m "x - 2 ^ k * m"] by simp
  qed
  moreover have "p div 2 ^ k = m" by (simp add: p)
  ultimately show ?thesis by (simp add: blk_def set_eq_iff p)
qed

lemma div_pow_mono: "j \<le> k \<Longrightarrow> (x :: int) div 2 ^ j = y div 2 ^ j \<Longrightarrow> x div 2 ^ k = y div 2 ^ k"
  by (metis div_exp_eq le_add_diff_inverse)

text \<open>Two aligned blocks are nested or disjoint.\<close>

lemma blk_nested:
  assumes "2 ^ j dvd q" and "2 ^ k dvd p" and "j \<le> k" and "blk j q \<inter> blk k p \<noteq> {}"
  shows "blk j q \<subseteq> blk k p"
proof -
  obtain z where "z div 2 ^ j = q div 2 ^ j" "z div 2 ^ k = p div 2 ^ k"
    using assms(4) by (auto simp: blk_eq_div assms)
  then have "x div 2 ^ k = p div 2 ^ k" if "x div 2 ^ j = q div 2 ^ j" for x
    using div_pow_mono [OF assms(3), of x z] that by simp
  then show ?thesis by (auto simp: blk_eq_div assms)
qed

lemma blk_eq_iff:
  assumes "2 ^ k dvd p" and "2 ^ k dvd q" and "blk k p \<inter> blk k q \<noteq> {}"
  shows "p = q"
proof -
  have "p div 2 ^ k = q div 2 ^ k" using assms by (auto simp: blk_eq_div)
  then show ?thesis using assms(1,2) by (metis dvd_div_mult_self)
qed

section \<open>Buddies\<close>

abbreviation buddy_of :: "nat \<Rightarrow> int \<Rightarrow> int" where
  "buddy_of k p \<equiv> flip_bit k p"

abbreviation merged :: "nat \<Rightarrow> int \<Rightarrow> int" where
  "merged k p \<equiv> unset_bit k p"

lemma aligned_cases:
  assumes "2 ^ k dvd (p :: int)"
  obtains (lo) "2 ^ Suc k dvd p" and "buddy_of k p = p + 2 ^ k" and "merged k p = p"
    | (hi) "2 ^ Suc k dvd p - 2 ^ k" and "buddy_of k p = p - 2 ^ k" and "merged k p = p - 2 ^ k"
proof (cases "bit p k")
  case False
  then have "even (p div 2 ^ k)" by (simp add: bit_iff_odd)
  then have "2 ^ Suc k dvd p" using assms by (metis dvd_div_mult_self mult.commute mult_dvd_mono dvd_refl power_Suc2)
  moreover have "buddy_of k p = p + 2 ^ k" using False by (simp add: flip_bit_eq_if set_bit_eq)
  moreover have "merged k p = p" using False by (simp add: unset_bit_eq)
  ultimately show ?thesis by (rule lo)
next
  case True
  then have "odd (p div 2 ^ k)" by (simp add: bit_iff_odd)
  moreover obtain m where p: "p = 2 ^ k * m" using assms by blast
  ultimately have "odd m" by simp
  then obtain n where "m = 2 * n + 1" by (elim oddE)
  then have "p - 2 ^ k = 2 ^ Suc k * n" by (simp add: p algebra_simps)
  then have "2 ^ Suc k dvd p - 2 ^ k" by simp
  moreover have "buddy_of k p = p - 2 ^ k" using True by (simp add: flip_bit_eq_if unset_bit_eq)
  moreover have "merged k p = p - 2 ^ k" using True by (simp add: unset_bit_eq)
  ultimately show ?thesis by (rule hi)
qed

lemma buddy_aligned: "2 ^ k dvd (p :: int) \<Longrightarrow> 2 ^ k dvd buddy_of k p"
  by (erule aligned_cases) (auto intro: dvd_diff dest: power_le_dvd [of _ "Suc k" _ k])

lemma merged_aligned: "2 ^ k dvd (p :: int) \<Longrightarrow> 2 ^ Suc k dvd merged k p"
  by (erule aligned_cases) auto

lemma buddy_neq: "buddy_of k p \<noteq> p"
  by (simp add: flip_bit_eq_if set_bit_eq unset_bit_eq)

lemma buddy_buddy [simp]: "buddy_of k (buddy_of k p) = (p :: int)"
  by (rule bit_eqI) (auto simp: bit_flip_bit_iff)

lemma blk_Suc: "blk (Suc k) p = blk k p \<union> blk k (p + 2 ^ k)"
  by (auto simp: blk_def)

lemma blk_Suc_disjoint: "blk k p \<inter> blk k (p + 2 ^ k) = {}"
  by (auto simp: blk_def)

lemma blk_merged: "2 ^ k dvd (p :: int) \<Longrightarrow> blk (Suc k) (merged k p) = blk k p \<union> blk k (buddy_of k p)"
  by (erule aligned_cases) (auto simp: blk_Suc)

lemma blk_buddy_disjoint: "2 ^ k dvd (p :: int) \<Longrightarrow> blk k p \<inter> blk k (buddy_of k p) = {}"
  by (erule aligned_cases) (auto simp: blk_def)

text \<open>The index arithmetic of \<open>COMEX_free_page\<close>: the buddy and the merged block as offsets.\<close>

lemma take_bit_flip_offset:
  assumes "k < n"
  shows "flip_bit k (take_bit n p) - take_bit n p = flip_bit k p - (p :: int)"
  using assms by (simp add: flip_bit_eq_if set_bit_eq unset_bit_eq bit_take_bit_iff)

lemma take_bit_unset_offset:
  assumes "k < n"
  shows "unset_bit k (take_bit n p) - take_bit n p = unset_bit k p - (p :: int)"
  using assms by (simp add: unset_bit_eq bit_take_bit_iff)

section \<open>Families of free blocks\<close>

text \<open>The largest order is \<open>COMEX_MAX_ORDER - 1 = 10\<close>.\<close>

definition free_pages :: "(nat \<Rightarrow> int set) \<Rightarrow> int set" where
  "free_pages S = (\<Union>k\<in>{..<11}. \<Union>p\<in>S k. blk k p)"

definition areas :: "int \<Rightarrow> (nat \<Rightarrow> int set) \<Rightarrow> bool" where
  "areas N S \<longleftrightarrow>
     (\<forall>k<11. \<forall>p\<in>S k. 0 \<le> p \<and> 2 ^ k dvd p \<and> p + 2 ^ k \<le> N) \<and>
     (\<forall>k<11. \<forall>j<11. \<forall>p\<in>S k. \<forall>q\<in>S j. (k, p) \<noteq> (j, q) \<longrightarrow> blk k p \<inter> blk j q = {}) \<and>
     (\<forall>k<10. \<forall>p\<in>S k. buddy_of k p \<notin> S k)"

text \<open>A block that belongs to no area: being allocated, or being given back.\<close>

definition loose :: "int \<Rightarrow> (nat \<Rightarrow> int set) \<Rightarrow> nat \<Rightarrow> int \<Rightarrow> bool" where
  "loose N S k p \<longleftrightarrow>
     areas N S \<and> k < 11 \<and> 0 \<le> p \<and> 2 ^ k dvd p \<and> p + 2 ^ k \<le> N \<and> blk k p \<inter> free_pages S = {}"

lemma free_pages_iff: "x \<in> free_pages S \<longleftrightarrow> (\<exists>k<11. \<exists>p\<in>S k. x \<in> blk k p)"
  by (auto simp: free_pages_def)

lemma areas_disjoint:
  "areas N S \<Longrightarrow> k < 11 \<Longrightarrow> j < 11 \<Longrightarrow> p \<in> S k \<Longrightarrow> q \<in> S j \<Longrightarrow> (k, p) \<noteq> (j, q) \<Longrightarrow>
     blk k p \<inter> blk j q = {}"
  by (simp add: areas_def)

lemma areas_range: "areas N S \<Longrightarrow> x \<in> free_pages S \<Longrightarrow> 0 \<le> x \<and> x < N"
  by (fastforce simp: areas_def free_pages_iff blk_def)

lemma areas_member:
  assumes "areas N S" and "k < 11" and "p \<in> S k"
  shows "0 \<le> p" and "p < N" and "p + 2 ^ k \<le> N" and "2 ^ k dvd p"
proof -
  show "0 \<le> p" "p + 2 ^ k \<le> N" "2 ^ k dvd p" using assms by (simp_all add: areas_def)
  then show "p < N" using zero_less_power [of "2 :: int" k] by linarith
qed

lemma free_pages_insert: "k < 11 \<Longrightarrow> free_pages (S(k := insert p (S k))) = free_pages S \<union> blk k p"
  unfolding set_eq_iff free_pages_iff Un_iff fun_upd_apply by (metis insert_iff)

lemma free_pages_remove:
  assumes "areas N S" and "k < 11" and "p \<in> S k"
  shows "free_pages (S(k := S k - {p})) = free_pages S - blk k p"
proof -
  have dis: "blk j q \<inter> blk k p = {}" if "j < 11" "q \<in> S j" "(j, q) \<noteq> (k, p)" for j q
    using that assms by (auto simp: areas_def)
  show ?thesis
  proof (intro set_eqI iffI)
    fix x assume "x \<in> free_pages (S(k := S k - {p}))"
    then obtain j q where "j < 11" "q \<in> S j" "(j, q) \<noteq> (k, p)" "x \<in> blk j q"
      by (auto simp: free_pages_iff split: if_splits)
    then show "x \<in> free_pages S - blk k p"
      using dis [of j q] by (auto simp: free_pages_iff)
  next
    fix x assume "x \<in> free_pages S - blk k p"
    then show "x \<in> free_pages (S(k := S k - {p}))"
      unfolding Diff_iff free_pages_iff fun_upd_apply by (metis Diff_iff singletonD)
  qed
qed

lemma loose_take:
  assumes "areas N S" and "k < 11" and "p \<in> S k"
  shows "loose N (S(k := S k - {p})) k p"
  unfolding loose_def
proof (intro conjI)
  show "areas N (S(k := S k - {p}))"
    using assms unfolding areas_def by (auto split: if_splits)
  show "blk k p \<inter> free_pages (S(k := S k - {p})) = {}"
    by (auto simp: free_pages_remove [OF assms])
qed (use assms in \<open>auto simp: areas_def\<close>)

lemma loose_disjoint: "loose N S k p \<Longrightarrow> j < 11 \<Longrightarrow> q \<in> S j \<Longrightarrow> blk k p \<inter> blk j q = {}"
  by (fastforce simp: loose_def free_pages_iff)

lemma loose_not_in: "loose N S k p \<Longrightarrow> j < 11 \<Longrightarrow> p \<notin> S j"
  using loose_disjoint [of N S k p j p] blk_self by blast

lemma areas_put:
  assumes "loose N S k p" and "k < 10 \<longrightarrow> buddy_of k p \<notin> S k"
  shows "areas N (S(k := insert p (S k)))"
proof -
  have a: "areas N S" and k: "k < 11" and p: "0 \<le> p" "2 ^ k dvd p" "p + 2 ^ k \<le> N"
    using assms(1) by (auto simp: loose_def)
  note dis = loose_disjoint [OF assms(1)]
  have co: "buddy_of j q \<noteq> p" if "j = k" "k < 10" "q \<in> S k" for j q
    using assms(2) that by auto
  show ?thesis
    unfolding areas_def
  proof (intro conjI allI impI ballI)
    fix j i q r
    assume h: "j < 11" "i < 11" "q \<in> (S(k := insert p (S k))) j" "r \<in> (S(k := insert p (S k))) i"
      "(j, q) \<noteq> (i, r)"
    show "blk j q \<inter> blk i r = {}"
      using h areas_disjoint [OF a h(1,2), of q r] dis [of i r] dis [of j q]
      by (auto simp: Int_commute split: if_splits)
  next
    fix j q assume h: "j < 10" "q \<in> (S(k := insert p (S k))) j"
    show "buddy_of j q \<notin> (S(k := insert p (S k))) j"
      using h a assms(2) co [of j q] unfolding areas_def by (auto split: if_splits simp: buddy_neq)
  qed (use a p in \<open>auto simp: areas_def split: if_splits\<close>)
qed

lemma loose_split:
  assumes "loose N S (Suc h) p"
  shows "loose N (S(h := insert (p + 2 ^ h) (S h))) h p"
proof -
  have al: "2 ^ Suc h dvd p" and h: "h < 10" using assms by (auto simp: loose_def)
  have al': "2 ^ h dvd p" using al by (rule power_le_dvd) simp
  have "(2 :: int) ^ Suc h = 2 ^ h + 2 ^ h" by simp
  then have room: "p + 2 ^ h \<le> N" using assms zero_less_power [of "2 :: int" h] unfolding loose_def by linarith
  have dis: "blk h p \<inter> free_pages S = {}" "blk h (p + 2 ^ h) \<inter> free_pages S = {}"
    using assms by (auto simp: loose_def blk_Suc)
  have upper: "loose N S h (p + 2 ^ h)"
    using assms dis al' by (auto simp: loose_def)
  have "buddy_of h p = p + 2 ^ h"
    using al' by (rule aligned_cases) (use al in \<open>auto dest: dvd_diff_right_iff [THEN iffD1, rotated]\<close>)
  then have "buddy_of h (p + 2 ^ h) = p" by (metis buddy_buddy)
  moreover have "p \<notin> S h" using dis(1) h by (force simp: free_pages_iff)
  ultimately have "areas N (S(h := insert (p + 2 ^ h) (S h)))"
    using upper by (intro areas_put) auto
  then show ?thesis
    using assms al' h dis room blk_Suc_disjoint [of h p]
    by (auto simp: loose_def free_pages_insert)
qed

lemma loose_merge:
  assumes "loose N S k p" and "k < 10" and "buddy_of k p \<in> S k"
  shows "loose N (S(k := S k - {buddy_of k p})) (Suc k) (merged k p)"
proof -
  let ?b = "buddy_of k p" and ?S = "S(k := S k - {buddy_of k p})"
  have a: "areas N S" and al: "2 ^ k dvd p" using assms by (auto simp: loose_def)
  have t: "loose N ?S k ?b" using loose_take [OF a _ assms(3)] assms(2) by simp
  have f: "free_pages ?S = free_pages S - blk k ?b"
    using free_pages_remove [OF a _ assms(3)] assms(2) by simp
  have "blk (Suc k) (merged k p) \<inter> free_pages ?S = {}"
    using assms(1) by (auto simp: blk_merged [OF al] f loose_def)
  moreover have "0 \<le> merged k p \<and> merged k p + 2 ^ Suc k \<le> N"
    using al by (rule aligned_cases) (use t assms(1) in \<open>auto simp: loose_def\<close>)
  ultimately show ?thesis
    using t assms(2) merged_aligned [OF al] by (auto simp: loose_def)
qed

text \<open>
  With no two buddies both free, an aligned block all of whose pages are free lies inside one
  free block: the areas cannot be fragmented so that a request fails that has room.
\<close>

lemma areas_complete:
  assumes a: "areas N S" and al: "2 ^ k dvd p" and k: "k < 11" and fr: "blk k p \<subseteq> free_pages S"
  shows "\<exists>j q. k \<le> j \<and> j < 11 \<and> q \<in> S j \<and> blk k p \<subseteq> blk j q"
proof (rule ccontr)
  assume no: "\<not> ?thesis"
  have small: "j < k \<and> blk j q \<subseteq> blk k p"
    if "j < 11" "q \<in> S j" "blk j q \<inter> blk k p \<noteq> {}" for j q
  proof -
    have alq: "2 ^ j dvd q" using a that by (auto simp: areas_def)
    show ?thesis
    proof (cases "j < k")
      case True
      then show ?thesis using blk_nested [OF alq al] that by auto
    next
      case False
      then have "blk k p \<subseteq> blk j q" using blk_nested [OF al alq] that by (auto simp: Int_commute)
      then show ?thesis using no that False by auto
    qed
  qed
  let ?P = "\<lambda>j. j < 11 \<and> (\<exists>q\<in>S j. blk j q \<inter> blk k p \<noteq> {})"
  obtain j0 q0 where "j0 < 11" "q0 \<in> S j0" "p \<in> blk j0 q0"
    using fr blk_self [of p k] unfolding subset_iff free_pages_iff by meson
  then have ex: "?P j0" by auto
  define j where "j = (LEAST j. ?P j)"
  have "?P j" unfolding j_def using ex by (rule LeastI)
  then obtain q where q: "j < 11" "q \<in> S j" "blk j q \<inter> blk k p \<noteq> {}" by auto
  have jk: "j < k" "blk j q \<subseteq> blk k p" using small [OF q] by auto
  have alq: "2 ^ j dvd q" using a q by (auto simp: areas_def)
  let ?b = "buddy_of j q"
  have alb: "2 ^ j dvd ?b" using alq by (rule buddy_aligned)
  have "blk (Suc j) (merged j q) \<inter> blk k p \<noteq> {}" using q(3) by (auto simp: blk_merged [OF alq])
  then have "blk (Suc j) (merged j q) \<subseteq> blk k p"
    using blk_nested [OF merged_aligned [OF alq] al] jk by auto
  then have bsub: "blk j ?b \<subseteq> blk k p" by (auto simp: blk_merged [OF alq])
  then obtain i r where r: "i < 11" "r \<in> S i" "?b \<in> blk i r"
    using fr bsub blk_self [of ?b j] unfolding subset_iff free_pages_iff by meson
  have "blk i r \<inter> blk k p \<noteq> {}" using r(3) bsub by auto
  then have "?P i" using r by auto
  then have ji: "j \<le> i" unfolding j_def by (rule Least_le)
  have alr: "2 ^ i dvd r" using a r by (auto simp: areas_def)
  have bi: "blk j ?b \<subseteq> blk i r" using blk_nested [OF alb alr ji] r(3) by auto
  show False
  proof (cases "i = j")
    case True
    then have "r = ?b" using blk_eq_iff [of j r ?b] alr alb r(3) by auto
    then show False using a q r True jk k by (auto simp: areas_def)
  next
    case False
    have "blk (Suc j) (merged j q) \<inter> blk i r \<noteq> {}"
      using bi by (auto simp: blk_merged [OF alq])
    then have "blk (Suc j) (merged j q) \<subseteq> blk i r"
      using blk_nested [OF merged_aligned [OF alq] alr] False ji by auto
    then have "blk j q \<inter> blk i r \<noteq> {}" by (auto simp: blk_merged [OF alq])
    then show False using a q r False by (auto simp: areas_def)
  qed
qed

end
