(* ===== verification/Comex_Dlist.thy ===== *)
theory Comex_Dlist
  imports Comex_Prelude
begin

text \<open>
  The circular doubly linked lists of \<open>comex_buddy.h\<close> (\<open>COMEX_list_head\<close> and its operations):
  the two pointer fields as maps over nodes, the operations in the order the code assigns the
  fields, and the proof that on a family of lists, each with a head, they are the functional
  operations on HOL lists.  The locale \<open>list_family\<close> is that contract, for the allocator.
\<close>

section \<open>The code\<close>

text \<open>A node is the head of a free area or the \<open>lru\<close> field of a page.\<close>

datatype ('h, 'p) lnode = Head 'h | Lru 'p

record 'n COMEX_list_head =
  nxt :: "'n \<Rightarrow> 'n"
  prv :: "'n \<Rightarrow> 'n"

definition INIT_LIST_COMEX :: "'n \<Rightarrow> 'n COMEX_list_head \<Rightarrow> 'n COMEX_list_head" where
  "INIT_LIST_COMEX l L = L\<lparr>nxt := (nxt L)(l := l), prv := (prv L)(l := l)\<rparr>"

definition COMEX_list_empty :: "'n \<Rightarrow> 'n COMEX_list_head \<Rightarrow> bool" where
  "COMEX_list_empty head L \<longleftrightarrow> nxt L head = head"

definition COMEX_list_add_between :: "'n \<Rightarrow> 'n \<Rightarrow> 'n \<Rightarrow> 'n COMEX_list_head \<Rightarrow> 'n COMEX_list_head" where
  "COMEX_list_add_between new p n L =
     (let L1 = L\<lparr>prv := (prv L)(n := new)\<rparr>;
          L2 = L1\<lparr>nxt := (nxt L1)(new := n)\<rparr>;
          L3 = L2\<lparr>prv := (prv L2)(new := p)\<rparr>
      in L3\<lparr>nxt := (nxt L3)(p := new)\<rparr>)"

definition COMEX_list_add :: "'n \<Rightarrow> 'n \<Rightarrow> 'n COMEX_list_head \<Rightarrow> 'n COMEX_list_head" where
  "COMEX_list_add new head L = COMEX_list_add_between new head (nxt L head) L"

definition COMEX_list_add_tail :: "'n \<Rightarrow> 'n \<Rightarrow> 'n COMEX_list_head \<Rightarrow> 'n COMEX_list_head" where
  "COMEX_list_add_tail new head L = COMEX_list_add_between new (prv L head) head L"

definition COMEX_list_del_between :: "'n \<Rightarrow> 'n \<Rightarrow> 'n COMEX_list_head \<Rightarrow> 'n COMEX_list_head" where
  "COMEX_list_del_between p n L =
     (let L1 = L\<lparr>prv := (prv L)(n := p)\<rparr> in L1\<lparr>nxt := (nxt L1)(p := n)\<rparr>)"

definition COMEX_list_del :: "'n \<Rightarrow> 'n COMEX_list_head \<Rightarrow> 'n COMEX_list_head" where
  "COMEX_list_del entry L =
     (let L1 = COMEX_list_del_between (prv L entry) (nxt L entry) L
      in L1\<lparr>nxt := (nxt L1)(entry := entry), prv := (prv L1)(entry := entry)\<rparr>)"

text \<open>
  \<open>COMEX_list_entry(head->next, COMEX_page, lru)\<close>: the page whose \<open>lru\<close> field the head's
  \<open>next\<close> is; there is none when \<open>next\<close> is a list head.
\<close>

fun COMEX_list_entry :: "('h, 'p) lnode \<Rightarrow> 'p option" where
  "COMEX_list_entry (Lru p) = Some p"
| "COMEX_list_entry (Head h) = None"

section \<open>One list\<close>

definition linked :: "'n COMEX_list_head \<Rightarrow> 'n \<Rightarrow> 'n \<Rightarrow> bool" where
  "linked L a b \<longleftrightarrow> nxt L a = b \<and> prv L b = a"

definition dlist :: "'n COMEX_list_head \<Rightarrow> 'n \<Rightarrow> 'n list \<Rightarrow> bool" where
  "dlist L h xs \<longleftrightarrow> distinct (h # xs) \<and> successively (linked L) (h # xs @ [h])"

lemma successively_linked_frame:
  "(\<And>u. u \<in> set (butlast xs) \<Longrightarrow> nxt L' u = nxt L u) \<Longrightarrow>
   (\<And>u. u \<in> set (tl xs) \<Longrightarrow> prv L' u = prv L u) \<Longrightarrow>
     successively (linked L') xs = successively (linked L) xs"
proof (induction xs rule: induct_list012)
  case (3 x y zs)
  have "successively (linked L') (y # zs) = successively (linked L) (y # zs)"
    using "3.prems" by (intro "3.IH"(2)) (auto dest: list.set_sel(2) [rotated])
  then show ?case
    using "3.prems" by (simp add: linked_def)
qed simp_all

lemma dlist_cong:
  assumes "\<And>u. u \<in> set (h # xs) \<Longrightarrow> nxt L' u = nxt L u \<and> prv L' u = prv L u"
  shows "dlist L' h xs = dlist L h xs"
proof -
  have "successively (linked L') (h # xs @ [h]) = successively (linked L) (h # xs @ [h])"
    by (rule successively_linked_frame) (use assms in \<open>auto simp: butlast_append split: if_splits\<close>)
  then show ?thesis by (simp add: dlist_def)
qed

lemma dlist_split:
  assumes "dlist L h (us @ vs)"
  shows "successively (linked L) (h # us)" and "successively (linked L) (vs @ [h])"
    and "linked L (last (h # us)) (hd (vs @ [h]))"
proof -
  have "successively (linked L) ((h # us) @ (vs @ [h]))"
    using assms by (simp add: dlist_def)
  then show "successively (linked L) (h # us)" and "successively (linked L) (vs @ [h])"
    and "linked L (last (h # us)) (hd (vs @ [h]))"
    unfolding successively_append_iff by auto
qed

lemma dlist_nxt_head: "dlist L h xs \<Longrightarrow> nxt L h = hd (xs @ [h])"
  using dlist_split(3) [of L h "[]" xs] by (simp add: linked_def)

lemma dlist_prv_head: "dlist L h xs \<Longrightarrow> prv L h = last (h # xs)"
  using dlist_split(3) [of L h xs "[]"] by (simp add: linked_def)

lemma dlist_neighbours:
  assumes "dlist L h (us @ x # vs)"
  shows "prv L x = last (h # us)" and "nxt L x = hd (vs @ [h])"
  using dlist_split(3) [of L h us "x # vs"] dlist_split(3) [of L h "us @ [x]" vs] assms
  by (simp_all add: linked_def)

lemma dlist_glue:
  assumes "distinct (h # us @ vs)" and "successively (linked L) (h # us)"
    and "successively (linked L) (vs @ [h])" and "linked L (last (h # us)) (hd (vs @ [h]))"
  shows "dlist L h (us @ vs)"
proof -
  have "successively (linked L) ((h # us) @ (vs @ [h]))"
    by (subst successively_append_iff) (use assms in blast)
  then show ?thesis using assms(1) by (simp add: dlist_def)
qed

text \<open>Linking a new node between two neighbours, and unlinking a node.\<close>

lemma nxt_add_between: "nxt (COMEX_list_add_between x a b L) = (nxt L)(x := b, a := x)"
  and prv_add_between: "prv (COMEX_list_add_between x a b L) = (prv L)(b := x, x := a)"
  by (simp_all add: COMEX_list_add_between_def Let_def)

lemma nxt_list_del:
  "nxt (COMEX_list_del x L) = (nxt L)(prv L x := nxt L x, x := x)"
  and prv_list_del: "prv (COMEX_list_del x L) = (prv L)(nxt L x := prv L x, x := x)"
  by (simp_all add: COMEX_list_del_def COMEX_list_del_between_def Let_def)

text \<open>
  The node before a gap and the node after it, with what distinctness says of them.
\<close>

lemma dlist_gap:
  assumes "distinct (h # us @ vs)"
  obtains as a b bs where "h # us = as @ [a]" and "vs @ [h] = b # bs"
    and "last (h # us) = a" and "hd (vs @ [h]) = b"
    and "a \<notin> set as" and "a \<notin> set vs" and "b \<notin> set us" and "b \<notin> set bs"
    and "tl (as @ [a]) = us" and "butlast (b # bs) = vs"
proof -
  obtain as a where a: "h # us = as @ [a]" by (metis append_butlast_last_id list.distinct(1))
  obtain b bs where b: "vs @ [h] = b # bs" by (metis append_is_Nil_conv list.exhaust list.distinct(1))
  have "distinct (as @ [a] @ vs)" using assms a by (metis append.assoc append_Cons)
  moreover have "distinct (us @ b # bs)" using assms b by (metis distinct.simps(2) distinct_append
        distinct1_rotate rotate1.simps(2) append.assoc)
  moreover have "tl (as @ [a]) = us" using a by (metis list.sel(3))
  moreover have "butlast (b # bs) = vs" using b by (metis butlast_snoc)
  ultimately show ?thesis using a b by (intro that [of as a b bs]) auto
qed

lemma dlist_add_between:
  assumes d: "dlist L h (us @ vs)" and x: "x \<notin> set (h # us @ vs)"
  shows "dlist (COMEX_list_add_between x (last (h # us)) (hd (vs @ [h])) L) h (us @ x # vs)"
proof -
  have dist: "distinct (h # us @ vs)" using d by (simp add: dlist_def)
  obtain as a b bs where g: "h # us = as @ [a]" "vs @ [h] = b # bs" "last (h # us) = a"
    "hd (vs @ [h]) = b" "a \<notin> set as" "a \<notin> set vs" "b \<notin> set us" "b \<notin> set bs" "tl (as @ [a]) = us"
    "butlast (b # bs) = vs"
    using dlist_gap [OF dist] by blast
  let ?L = "COMEX_list_add_between x a b L"
  have x': "x \<noteq> a" "x \<noteq> b" "x \<notin> set as" "x \<notin> set us" "x \<notin> set vs" "x \<notin> set bs"
    using x g(1,2) by (metis (no_types) in_set_conv_decomp Un_iff append_Cons list.set_intros set_append
        rotate1.simps(2) set_rotate1 set_ConsD)+
  have "successively (linked ?L) (h # us) = successively (linked L) (h # us)"
    by (rule successively_linked_frame)
      (use g x' in \<open>auto simp del: butlast.simps simp: nxt_add_between prv_add_between\<close>)
  moreover have "successively (linked ?L) (vs @ [h]) = successively (linked L) (vs @ [h])"
    by (rule successively_linked_frame)
      (use g x' in \<open>auto simp del: butlast.simps simp: nxt_add_between prv_add_between\<close>)
  moreover have "linked ?L a x" "linked ?L x b"
    using x' by (auto simp: linked_def nxt_add_between prv_add_between)
  ultimately have "dlist ?L h (us @ x # vs)"
    using dlist_split(1,2) [OF d] dist x g(3,4)
    by (intro dlist_glue) (auto simp: successively_Cons)
  then show ?thesis by (simp only: g(3,4))
qed

lemma dlist_del:
  assumes d: "dlist L h (us @ x # vs)"
  shows "dlist (COMEX_list_del x L) h (us @ vs)"
proof -
  have dist: "distinct (h # us @ vs)" "x \<notin> set (h # us @ vs)" using d by (auto simp: dlist_def)
  obtain as a b bs where g: "h # us = as @ [a]" "vs @ [h] = b # bs" "last (h # us) = a"
    "hd (vs @ [h]) = b" "a \<notin> set as" "a \<notin> set vs" "b \<notin> set us" "b \<notin> set bs" "tl (as @ [a]) = us"
    "butlast (b # bs) = vs"
    using dlist_gap [OF dist(1)] by blast
  have n: "prv L x = a" "nxt L x = b"
    using dlist_neighbours [OF d] g(3,4) by simp_all
  have x': "x \<noteq> a" "x \<noteq> b" "x \<notin> set as" "x \<notin> set us" "x \<notin> set vs" "x \<notin> set bs"
    using dist(2) g(1,2) by (metis (no_types) in_set_conv_decomp Un_iff append_Cons list.set_intros
        set_append rotate1.simps(2) set_rotate1 set_ConsD)+
  let ?L = "COMEX_list_del x L"
  have "successively (linked ?L) (h # us) = successively (linked L) (h # us)"
    by (rule successively_linked_frame) (use g x' in \<open>auto simp del: butlast.simps simp: nxt_list_del prv_list_del n\<close>)
  moreover have "successively (linked ?L) (vs @ [h]) = successively (linked L) (vs @ [h])"
    by (rule successively_linked_frame) (use g x' in \<open>auto simp del: butlast.simps simp: nxt_list_del prv_list_del n\<close>)
  moreover have "linked ?L a b"
    using x' by (auto simp: linked_def nxt_list_del prv_list_del n)
  ultimately show ?thesis
    using dlist_split(1) [OF d] dlist_split(2) [of L h "us @ [x]" vs] d dist g(3,4)
    by (intro dlist_glue) auto
qed

section \<open>Families of lists\<close>

text \<open>
  \<open>lists_hold H L A\<close>: for every head in \<open>H\<close> the pointers of \<open>L\<close> are a circular list of the pages
  \<open>A h\<close>, and no page is in two lists.
\<close>

definition lists_hold :: "'h set \<Rightarrow> ('h, 'p) lnode COMEX_list_head \<Rightarrow> ('h \<Rightarrow> 'p list) \<Rightarrow> bool" where
  "lists_hold H L A \<longleftrightarrow>
     (\<forall>h\<in>H. dlist L (Head h) (map Lru (A h))) \<and>
     (\<forall>h\<in>H. \<forall>g\<in>H. h \<noteq> g \<longrightarrow> set (A h) \<inter> set (A g) = {})"

lemma Lru_map_iff [simp]: "Lru x \<in> set (map Lru xs) \<longleftrightarrow> x \<in> set xs" "Head h \<notin> set (map Lru xs)"
  by auto

text \<open>The contract the allocator uses: a family of lists with pairwise different elements.\<close>

locale list_family =
  fixes H :: "'h set"
    and holds :: "'l \<Rightarrow> ('h \<Rightarrow> 'p list) \<Rightarrow> bool"
    and push :: "'p \<Rightarrow> 'h \<Rightarrow> 'l \<Rightarrow> 'l"
    and push_tail :: "'p \<Rightarrow> 'h \<Rightarrow> 'l \<Rightarrow> 'l"
    and unlink :: "'p \<Rightarrow> 'l \<Rightarrow> 'l"
    and is_nil :: "'h \<Rightarrow> 'l \<Rightarrow> bool"
    and front :: "'h \<Rightarrow> 'l \<Rightarrow> 'p option"
  assumes push: "holds L A \<Longrightarrow> h \<in> H \<Longrightarrow> (\<forall>g\<in>H. x \<notin> set (A g)) \<Longrightarrow>
      holds (push x h L) (A(h := x # A h))"
    and push_tail: "holds L A \<Longrightarrow> h \<in> H \<Longrightarrow> (\<forall>g\<in>H. x \<notin> set (A g)) \<Longrightarrow>
      holds (push_tail x h L) (A(h := A h @ [x]))"
    and unlink: "holds L A \<Longrightarrow> h \<in> H \<Longrightarrow> x \<in> set (A h) \<Longrightarrow>
      holds (unlink x L) (A(h := remove1 x (A h)))"
    and is_nil: "holds L A \<Longrightarrow> h \<in> H \<Longrightarrow> is_nil h L \<longleftrightarrow> A h = []"
    and front: "holds L A \<Longrightarrow> h \<in> H \<Longrightarrow> A h \<noteq> [] \<Longrightarrow> front h L = Some (hd (A h))"
    and distinct: "holds L A \<Longrightarrow> h \<in> H \<Longrightarrow> distinct (A h)"
    and disjoint: "holds L A \<Longrightarrow> h \<in> H \<Longrightarrow> g \<in> H \<Longrightarrow> h \<noteq> g \<Longrightarrow> set (A h) \<inter> set (A g) = {}"
begin

lemma pop:
  assumes "holds L A" and "h \<in> H" and "A h = x # xs"
  shows "front h L = Some x" and "holds (unlink x L) (A(h := xs))"
  using front [OF assms(1,2)] unlink [OF assms(1,2), of x] assms(3) by auto

lemma move:
  assumes "holds L A" and "h \<in> H" and "g \<in> H" and "x \<in> set (A h)"
  shows "holds (push x g (unlink x L))
      ((A(h := remove1 x (A h)))(g := x # (A(h := remove1 x (A h))) g))"
proof (rule push [OF unlink [OF assms(1,2,4)] assms(3)])
  show "\<forall>g\<in>H. x \<notin> set ((A(h := remove1 x (A h))) g)"
    using assms distinct [OF assms(1,2)] disjoint [OF assms(1,2)] by (auto simp: set_remove1_eq)
qed

lemma unlink_fresh:
  assumes "holds L A" and "h \<in> H" and "x \<in> set (A h)" and "g \<in> H"
  shows "x \<notin> set ((A(h := remove1 x (A h))) g)"
  using assms distinct [OF assms(1,2)] disjoint [OF assms(1,2,4)] by (auto simp: set_remove1_eq)

end

lemma lists_hold_init:
  assumes "\<And>h. h \<in> H \<Longrightarrow> nxt L (Head h) = Head h \<and> prv L (Head h) = Head h"
  shows "lists_hold H L (\<lambda>_. [])"
  using assms by (auto simp: lists_hold_def dlist_def linked_def successively_Cons)

lemma lists_hold_disjoint:
  "lists_hold H L A \<Longrightarrow> h \<in> H \<Longrightarrow> g \<in> H \<Longrightarrow> g \<noteq> h \<Longrightarrow> set (A h) \<inter> set (A g) = {}"
  by (auto simp: lists_hold_def)

lemma lists_hold_frame:
  assumes "lists_hold H L A" and "h \<in> H" and "dlist L' (Head h) (map Lru xs)"
    and "\<And>g. g \<in> H \<Longrightarrow> g \<noteq> h \<Longrightarrow> set xs \<inter> set (A g) = {}"
    and "\<And>u g. g \<in> H \<Longrightarrow> g \<noteq> h \<Longrightarrow> u \<in> insert (Head g) (Lru ` set (A g)) \<Longrightarrow>
       nxt L' u = nxt L u \<and> prv L' u = prv L u"
  shows "lists_hold H L' (A(h := xs))"
proof -
  have "dlist L' (Head g) (map Lru (A g))" if "g \<in> H" "g \<noteq> h" for g
    using that assms(1) assms(5) [OF that] by (subst dlist_cong [of _ _ L' L]) (auto simp: lists_hold_def)
  then show ?thesis
    using assms by (auto simp: lists_hold_def)
qed

lemma lists_hold_insert:
  assumes "lists_hold H L A" and "h \<in> H" and "\<forall>g\<in>H. x \<notin> set (A g)" and "A h = us @ vs"
  shows "lists_hold H (COMEX_list_add_between (Lru x) (last (Head h # map Lru us))
            (hd (map Lru vs @ [Head h])) L) (A(h := us @ x # vs))" (is "lists_hold H ?L _")
proof (rule lists_hold_frame [OF assms(1,2)])
  have d: "dlist L (Head h) (map Lru us @ map Lru vs)"
    using assms by (auto simp: lists_hold_def)
  show "dlist ?L (Head h) (map Lru (us @ x # vs))"
    using dlist_add_between [OF d, of "Lru x"] bspec [OF assms(3,2)] assms(4) by (simp add: image_iff)
  show "set (us @ x # vs) \<inter> set (A g) = {}" if "g \<in> H" "g \<noteq> h" for g
    using that assms(3,4) lists_hold_disjoint [OF assms(1,2) that] by auto
  have ends: "last (Head h # map Lru us) \<in> insert (Head h) (Lru ` set (A h))"
    "hd (map Lru vs @ [Head h]) \<in> insert (Head h) (Lru ` set (A h))"
    using assms(4) by (cases us rule: rev_cases; cases vs; simp)+
  show "nxt ?L u = nxt L u \<and> prv ?L u = prv L u"
    if "g \<in> H" "g \<noteq> h" "u \<in> insert (Head g) (Lru ` set (A g))" for u g
  proof -
    have "set (A h) \<inter> set (A g) = {}" "x \<notin> set (A g)"
      using that assms(1-3) by (auto simp: lists_hold_def)
    then have "u \<noteq> Lru x" "u \<notin> insert (Head h) (Lru ` set (A h))" using that by auto
    then show ?thesis using ends by (auto simp: nxt_add_between prv_add_between)
  qed
qed

lemma lists_hold_del:
  assumes "lists_hold H L A" and "h \<in> H" and "x \<in> set (A h)"
  shows "lists_hold H (COMEX_list_del (Lru x) L) (A(h := remove1 x (A h)))" (is "lists_hold H ?L _")
proof (rule lists_hold_frame [OF assms(1,2)])
  have d0: "dlist L (Head h) (map Lru (A h))" and dis: "distinct (A h)"
    using assms by (auto simp: lists_hold_def dlist_def distinct_map)
  obtain us vs where A: "A h = us @ x # vs" using assms(3) by (meson split_list)
  have d: "dlist L (Head h) (map Lru us @ Lru x # map Lru vs)" using d0 A by simp
  have r: "remove1 x (A h) = us @ vs" using A dis by (simp add: remove1_append)
  show "dlist ?L (Head h) (map Lru (remove1 x (A h)))"
    using dlist_del [OF d] r by simp
  show "set (remove1 x (A h)) \<inter> set (A g) = {}" if "g \<in> H" "g \<noteq> h" for g
    using lists_hold_disjoint [OF assms(1,2) that] set_remove1_subset [of x "A h"] by blast
  have "prv L (Lru x) \<in> insert (Head h) (Lru ` set (A h))"
    "nxt L (Lru x) \<in> insert (Head h) (Lru ` set (A h))"
    using dlist_neighbours [OF d] A by (cases us rule: rev_cases; cases vs; simp)+
  then show "nxt ?L u = nxt L u \<and> prv ?L u = prv L u"
    if "g \<in> H" "g \<noteq> h" "u \<in> insert (Head g) (Lru ` set (A g))" for u g
  proof -
    have "set (A h) \<inter> set (A g) = {}" using that assms(1,2) by (auto simp: lists_hold_def)
    then have "u \<noteq> Lru x" "u \<notin> insert (Head h) (Lru ` set (A h))" using that assms(3) by auto
    then show ?thesis
      using \<open>prv L (Lru x) \<in> _\<close> \<open>nxt L (Lru x) \<in> _\<close> by (auto simp: nxt_list_del prv_list_del)
  qed
qed

section \<open>The pointer lists provide the contract\<close>

interpretation clist: list_family H "lists_hold H"
    "\<lambda>x h. COMEX_list_add (Lru x) (Head h)" "\<lambda>x h. COMEX_list_add_tail (Lru x) (Head h)"
    "\<lambda>x. COMEX_list_del (Lru x)" "\<lambda>h. COMEX_list_empty (Head h)"
    "\<lambda>h L. COMEX_list_entry (nxt L (Head h))"
  for H :: "'h set"
proof unfold_locales
  fix L :: "('h, 'p) lnode COMEX_list_head" and A h x g
  assume hold: "lists_hold H L A" and h: "h \<in> H"
  then have d: "dlist L (Head h) (map Lru (A h))" by (simp add: lists_hold_def)
  note ends = dlist_nxt_head [OF d] dlist_prv_head [OF d]
  show "lists_hold H (COMEX_list_add (Lru x) (Head h) L) (A(h := x # A h))"
    if "\<forall>g\<in>H. x \<notin> set (A g)"
    using lists_hold_insert [OF hold h that, of "[]" "A h"] ends by (simp add: COMEX_list_add_def)
  show "lists_hold H (COMEX_list_add_tail (Lru x) (Head h) L) (A(h := A h @ [x]))"
    if "\<forall>g\<in>H. x \<notin> set (A g)"
    using lists_hold_insert [OF hold h that, of "A h" "[]"] ends by (simp add: COMEX_list_add_tail_def)
  show "lists_hold H (COMEX_list_del (Lru x) L) (A(h := remove1 x (A h)))" if "x \<in> set (A h)"
    using hold h that by (rule lists_hold_del)
  show "COMEX_list_empty (Head h) L \<longleftrightarrow> A h = []"
    using ends by (cases "A h") (auto simp: COMEX_list_empty_def)
  show "COMEX_list_entry (nxt L (Head h)) = Some (hd (A h))" if "A h \<noteq> []"
    using ends that by (cases "A h") auto
  show "distinct (A h)" using d by (auto simp: dlist_def distinct_map)
  show "set (A h) \<inter> set (A g) = {}" if "g \<in> H" "h \<noteq> g"
    using hold h that by (simp add: lists_hold_def)
qed

end
