(* ===== verification/Comex_Buddy.thy ===== *)
theory Comex_Buddy
  imports Buddy_Blocks Comex_Dlist
begin

unbundle bit_operations_syntax

text \<open>
  The page pool of a node: \<open>comex_buddy.h\<close>.  The first section is the code, function by function
  over the page array, the free areas and the pointers of the free lists; the second the
  representation invariant (lists, order tags, counters and blocks agree); the third the contract
  of allocation and release, as a locale that the clients of the pool use and that the code's own
  functions interpret.
\<close>

section \<open>The code\<close>

text \<open>
  \<open>Dummy_page\<close>: the \<open>lru\<close> field is the node \<open>Lru i\<close> of the pointer maps; \<open>private\<close> is a
  keyword of Isabelle and is called \<open>priv\<close>.
\<close>

record COMEX_page =
  pageNO :: int
  priv :: int
  mapcount :: int
  CMX_cntr :: int

text \<open>
  \<open>COMEX_free_area\<close> with its lists, \<open>COMEX_Buddy_page\<close> with its length, \<open>COMEX_buddy_spin\<close>.
\<close>

record comex_buddy =
  links :: "(nat, int) lnode COMEX_list_head"
  nr_free :: "nat \<Rightarrow> int"
  pages :: "int \<Rightarrow> COMEX_page"
  npages :: int
  buddy_spin :: bool

definition COMEX_MAX_ORDER :: nat where
  "COMEX_MAX_ORDER = 11"

definition page_at :: "int \<Rightarrow> comex_buddy \<Rightarrow> COMEX_page option" where
  "page_at i s = (if 0 \<le> i \<and> i < npages s then Some (pages s i) else None)"

definition page_upd :: "int \<Rightarrow> (COMEX_page \<Rightarrow> COMEX_page) \<Rightarrow> comex_buddy \<Rightarrow> comex_buddy option" where
  "page_upd i f s =
     (if 0 \<le> i \<and> i < npages s then Some (s\<lparr>pages := (pages s)(i := f (pages s i))\<rparr>) else None)"

definition spin_lock_buddy :: "comex_buddy \<Rightarrow> comex_buddy option" where
  "spin_lock_buddy s = (if buddy_spin s then None else Some (s\<lparr>buddy_spin := True\<rparr>))"

definition spin_unlock_buddy :: "comex_buddy \<Rightarrow> comex_buddy" where
  "spin_unlock_buddy s = s\<lparr>buddy_spin := False\<rparr>"

definition COMEX_set_page_order :: "int \<Rightarrow> nat \<Rightarrow> comex_buddy \<Rightarrow> comex_buddy option" where
  "COMEX_set_page_order page order = page_upd page (\<lambda>p. p\<lparr>priv := int order, mapcount := -128\<rparr>)"

definition COMEX_rmv_page_order :: "int \<Rightarrow> comex_buddy \<Rightarrow> comex_buddy option" where
  "COMEX_rmv_page_order page = page_upd page (\<lambda>p. p\<lparr>priv := 0, mapcount := -1\<rparr>)"

definition COMEX_page_is_buddy :: "int \<Rightarrow> nat \<Rightarrow> comex_buddy \<Rightarrow> int option" where
  "COMEX_page_is_buddy buddy order s = do {
     p \<leftarrow> page_at buddy s;
     Some (if mapcount p = -128 \<and> priv p = int order then 1 else 0)
   }"

definition nr_free_add :: "nat \<Rightarrow> int \<Rightarrow> comex_buddy \<Rightarrow> comex_buddy" where
  "nr_free_add k d s = s\<lparr>nr_free := (nr_free s)(k := nr_free s k + d)\<rparr>"

text \<open>\<open>COMEX_expand\<close>: \<open>area\<close> is the index of the area the C pointer stands at.\<close>

function expand_loop :: "int \<Rightarrow> nat \<Rightarrow> nat \<Rightarrow> nat \<Rightarrow> nat \<Rightarrow> comex_buddy \<Rightarrow> comex_buddy option" where
  "expand_loop page low high area sz s =
     (if high > low then do {
        let area = area - 1;
        let high = high - 1;
        let sz = sz div 2;
        let s = s\<lparr>links := COMEX_list_add (Lru (page + int sz)) (Head area) (links s)\<rparr>;
        let s = nr_free_add area 1 s;
        s \<leftarrow> COMEX_set_page_order (page + int sz) high s;
        expand_loop page low high area sz s
      } else Some s)"
  by pat_completeness auto
termination
  by (relation "measure (\<lambda>(page, low, high, area, sz, s). high)") auto

declare expand_loop.simps [simp del]

definition COMEX_expand :: "int \<Rightarrow> nat \<Rightarrow> nat \<Rightarrow> nat \<Rightarrow> comex_buddy \<Rightarrow> comex_buddy option" where
  "COMEX_expand page low high area s = expand_loop page low high area (2 ^ high) s"

function checkCtr_loop :: "int \<Rightarrow> nat \<Rightarrow> nat \<Rightarrow> int \<Rightarrow> comex_buddy \<Rightarrow> (int \<times> comex_buddy) option" where
  "checkCtr_loop page n i val s =
     (if i < n then do {
        s \<leftarrow> page_upd (page + int i) (\<lambda>p. p\<lparr>CMX_cntr := CMX_cntr p + val\<rparr>) s;
        p \<leftarrow> page_at (page + int i) s;
        if val = 1 \<and> CMX_cntr p \<noteq> 1 then Some (0, s)
        else if val = -1 \<and> CMX_cntr p \<noteq> 0 then Some (0, s)
        else checkCtr_loop page n (Suc i) val s
      } else Some (1, s))"
  by pat_completeness auto
termination
  by (relation "measure (\<lambda>(page, n, i, val, s). n - i)") auto

declare checkCtr_loop.simps [simp del]

definition COMEX_checkCtr :: "int \<Rightarrow> nat \<Rightarrow> int \<Rightarrow> comex_buddy \<Rightarrow> (int \<times> comex_buddy) option" where
  "COMEX_checkCtr page order val s = checkCtr_loop page (2 ^ order) 0 val s"

function rmqueue_loop :: "nat \<Rightarrow> nat \<Rightarrow> comex_buddy \<Rightarrow> (int \<times> comex_buddy) option" where
  "rmqueue_loop order current s =
     (if current < COMEX_MAX_ORDER then
        if COMEX_list_empty (Head current) (links s) then rmqueue_loop order (Suc current) s
        else do {
          page \<leftarrow> COMEX_list_entry (nxt (links s) (Head current));
          let s = s\<lparr>links := COMEX_list_del (Lru page) (links s)\<rparr>;
          s \<leftarrow> COMEX_rmv_page_order page s;
          let s = nr_free_add current (-1) s;
          s \<leftarrow> COMEX_expand page order current current s;
          p \<leftarrow> page_at page s;
          (ok, s) \<leftarrow> COMEX_checkCtr (pageNO p) order 1 s;
          if ok = 0 then Some (-1, spin_unlock_buddy s)
          else do {
            p \<leftarrow> page_at page s;
            Some (pageNO p, spin_unlock_buddy s)
          }
        }
      else Some (-1, spin_unlock_buddy s))"
  by pat_completeness auto
termination
  by (relation "measure (\<lambda>(order, current, s). COMEX_MAX_ORDER - current)") auto

declare rmqueue_loop.simps [simp del]

definition COMEX_rmqueue_smallest :: "nat \<Rightarrow> comex_buddy \<Rightarrow> (int \<times> comex_buddy) option" where
  "COMEX_rmqueue_smallest order s = do {
     s \<leftarrow> spin_lock_buddy s;
     rmqueue_loop order order s
   }"

function free_loop :: "int \<Rightarrow> int \<Rightarrow> nat \<Rightarrow> comex_buddy \<Rightarrow> (int \<times> nat \<times> comex_buddy) option" where
  "free_loop page page_idx order s =
     (if order < COMEX_MAX_ORDER - 1 then do {
        let buddy_idx = page_idx XOR 2 ^ order;
        let buddy = page + (buddy_idx - page_idx);
        b \<leftarrow> COMEX_page_is_buddy buddy order s;
        if b = 0 then Some (page, order, s)
        else do {
          let s = s\<lparr>links := COMEX_list_del (Lru buddy) (links s)\<rparr>;
          s \<leftarrow> COMEX_rmv_page_order buddy s;
          s \<leftarrow> COMEX_rmv_page_order page s;
          let s = nr_free_add order (-1) s;
          let combined_idx = page_idx AND NOT (2 ^ order);
          let page = page + (combined_idx - page_idx);
          free_loop page combined_idx (Suc order) s
        }
      } else Some (page, order, s))"
  by pat_completeness auto
termination
  by (relation "measure (\<lambda>(page, page_idx, order, s). COMEX_MAX_ORDER - 1 - order)") auto

declare free_loop.simps [simp del]

definition COMEX_free_page :: "int \<Rightarrow> nat \<Rightarrow> comex_buddy \<Rightarrow> comex_buddy option" where
  "COMEX_free_page inPageNO order s = do {
     s \<leftarrow> spin_lock_buddy s;
     (ok, s) \<leftarrow> COMEX_checkCtr inPageNO order (-1) s;
     if ok = 0 then Some (spin_unlock_buddy s)
     else do {
       p \<leftarrow> page_at inPageNO s;
       let page_idx = pageNO p AND (2 ^ COMEX_MAX_ORDER - 1);
       (page, order, s) \<leftarrow> free_loop inPageNO page_idx order s;
       s \<leftarrow> COMEX_set_page_order page order s;
       let s = s\<lparr>links := COMEX_list_add_tail (Lru page) (Head order) (links s)\<rparr>;
       let s = nr_free_add order 1 s;
       Some (spin_unlock_buddy s)
     }
   }"

section \<open>The representation\<close>

text \<open>
  \<open>core L nr pg N A\<close>: the free list of every order \<open>k\<close> is \<open>A k\<close>, \<open>nr_free\<close> counts it, a page
  carries the order tag \<open>(-128, k)\<close> exactly when it is in \<open>A k\<close>, and page \<open>i\<close> has number \<open>i\<close>.
\<close>

definition tagged :: "COMEX_page \<Rightarrow> nat \<Rightarrow> bool" where
  "tagged p k \<longleftrightarrow> mapcount p = -128 \<and> priv p = int k"

definition core :: "(nat, int) lnode COMEX_list_head \<Rightarrow> (nat \<Rightarrow> int) \<Rightarrow> (int \<Rightarrow> COMEX_page) \<Rightarrow> int \<Rightarrow>
    (nat \<Rightarrow> int list) \<Rightarrow> bool" where
  "core L nr pg N A \<longleftrightarrow>
     lists_hold {..<11} L A \<and> (\<forall>k<11. nr k = int (length (A k))) \<and>
     (\<forall>i. 0 \<le> i \<longrightarrow> i < N \<longrightarrow> pageNO (pg i) = i \<and> (\<forall>k<11. tagged (pg i) k \<longleftrightarrow> i \<in> set (A k)))"

definition asets :: "(nat \<Rightarrow> int list) \<Rightarrow> nat \<Rightarrow> int set" where
  "asets A = (\<lambda>k. set (A k))"

lemma asets_apply [simp]: "asets A k = set (A k)"
  by (simp add: asets_def)

lemma asets_upd [simp]: "asets (A(h := xs)) = (asets A)(h := set xs)"
  by (rule ext) simp

definition counters :: "(int \<Rightarrow> COMEX_page) \<Rightarrow> int \<Rightarrow> int set \<Rightarrow> bool" where
  "counters pg N F \<longleftrightarrow> (\<forall>i. 0 \<le> i \<longrightarrow> i < N \<longrightarrow> CMX_cntr (pg i) = (if i \<in> F then 0 else 1))"

definition buddy_rep :: "comex_buddy \<Rightarrow> (nat \<Rightarrow> int list) \<Rightarrow> bool" where
  "buddy_rep s A \<longleftrightarrow>
     core (links s) (nr_free s) (pages s) (npages s) A \<and> areas (npages s) (asets A) \<and>
     counters (pages s) (npages s) (free_pages (asets A)) \<and>
     1024 dvd npages s \<and> \<not> buddy_spin s"

text \<open>
  What the rest of the node sees of the pool: the invariant, and the set of free pages, which the
  counters record.
\<close>

definition buddy_inv :: "comex_buddy \<Rightarrow> bool" where
  "buddy_inv s \<longleftrightarrow> (\<exists>A. buddy_rep s A)"

definition free_set :: "comex_buddy \<Rightarrow> int set" where
  "free_set s = {i. 0 \<le> i \<and> i < npages s \<and> CMX_cntr (pages s i) = 0}"

lemma free_set_rep: "buddy_rep s A \<Longrightarrow> free_set s = free_pages (asets A)"
  using areas_range [of "npages s" "asets A"]
  by (auto simp: free_set_def buddy_rep_def counters_def split: if_splits)

text \<open>The list operations with their bookkeeping keep \<open>core\<close>.\<close>

lemma core_push:
  assumes "core L nr pg N A" and "h < 11" and "\<forall>g<11. q \<notin> set (A g)"
  shows "core (COMEX_list_add (Lru q) (Head h) L) (nr(h := nr h + 1))
           (pg(q := (pg q)\<lparr>priv := int h, mapcount := -128\<rparr>)) N (A(h := q # A h))"
  using assms clist.push [of "{..<11}" L A h q] by (auto simp: core_def tagged_def)

lemma core_push_tail:
  assumes "core L nr pg N A" and "h < 11" and "\<forall>g<11. q \<notin> set (A g)"
  shows "core (COMEX_list_add_tail (Lru q) (Head h) L) (nr(h := nr h + 1))
           (pg(q := (pg q)\<lparr>priv := int h, mapcount := -128\<rparr>)) N (A(h := A h @ [q]))"
  using assms clist.push_tail [of "{..<11}" L A h q] by (auto simp: core_def tagged_def)

lemma core_unlink:
  assumes "core L nr pg N A" and "h < 11" and "q \<in> set (A h)"
  shows "core (COMEX_list_del (Lru q) L) (nr(h := nr h - 1))
           (pg(q := (pg q)\<lparr>priv := 0, mapcount := -1\<rparr>)) N (A(h := remove1 q (A h)))"
proof -
  have L: "lists_hold {..<11} L A" using assms(1) by (simp add: core_def)
  have fresh: "\<forall>g<11. q \<notin> set ((A(h := remove1 q (A h))) g)"
    using clist.unlink_fresh [OF L _ assms(3)] assms(2) by auto
  have len: "int (length (A h) - Suc 0) = int (length (A h)) - 1"
    using assms(3) by (cases "A h") auto
  have dis: "distinct (A h)" using clist.distinct [OF L] assms(2) by simp
  show ?thesis
    using assms clist.unlink [OF L, of h q] fresh len dis
    by (auto simp: core_def tagged_def length_remove1 set_remove1_eq of_nat_diff)
qed

lemma core_untag:
  assumes "core L nr pg N A" and "\<forall>g<11. q \<notin> set (A g)"
  shows "core L nr (pg(q := (pg q)\<lparr>priv := 0, mapcount := -1\<rparr>)) N A"
  using assms by (auto simp: core_def tagged_def)

lemma core_distinct: "core L nr pg N A \<Longrightarrow> k < 11 \<Longrightarrow> distinct (A k)"
  using clist.distinct [of "{..<11}" L A k] by (auto simp: core_def)

text \<open>The loops.\<close>

definition frame :: "comex_buddy \<Rightarrow> comex_buddy \<Rightarrow> bool" where
  "frame s s' \<longleftrightarrow> npages s' = npages s \<and> buddy_spin s' = buddy_spin s \<and>
     (\<forall>i. CMX_cntr (pages s' i) = CMX_cntr (pages s i))"

lemma frame_refl [simp]: "frame s s"
  and frame_trans: "frame s t \<Longrightarrow> frame t u \<Longrightarrow> frame s u"
  by (simp_all add: frame_def)

abbreviation core_of :: "comex_buddy \<Rightarrow> (nat \<Rightarrow> int list) \<Rightarrow> bool" where
  "core_of s A \<equiv> core (links s) (nr_free s) (pages s) (npages s) A"

lemma expand_loop_correct:
  assumes "core_of s A" and "loose (npages s) (asets A) high p" and "low \<le> high"
  shows "\<exists>s' A'. expand_loop p low high high (2 ^ high) s = Some s' \<and> core_of s' A' \<and>
     loose (npages s) (asets A') low p \<and> frame s s' \<and>
     free_pages (asets A') = free_pages (asets A) \<union> (blk high p - blk low p)"
  using assms
proof (induction "high - low" arbitrary: high s A)
  case 0
  then show ?case by (intro exI [of _ s] exI [of _ A]) (simp add: expand_loop.simps)
next
  case (Suc d)
  then obtain h where h: "high = Suc h" "low \<le> h" by (cases high) auto
  have lo: "loose (npages s) (asets A) (Suc h) p" using Suc.prems h by simp
  let ?q = "p + 2 ^ h"
  have h10: "h < 10" and q0: "0 \<le> ?q" using lo by (auto simp: loose_def)
  have "(2 :: int) ^ Suc h = 2 ^ h + 2 ^ h" by simp
  then have q: "0 \<le> ?q" "?q < npages s"
    using lo q0 zero_less_power [of "2 :: int" h] unfolding loose_def by linarith+
  have qA: "\<forall>g<11. ?q \<notin> set (A g)"
    using loose_disjoint [OF lo] by (fastforce simp: blk_Suc)
  let ?s = "s\<lparr>links := COMEX_list_add (Lru ?q) (Head h) (links s), nr_free := (nr_free s)(h := nr_free s h + 1),
      pages := (pages s)(?q := (pages s ?q)\<lparr>priv := int h, mapcount := -128\<rparr>)\<rparr>"
  let ?A = "A(h := ?q # A h)"
  have step: "expand_loop p low high high (2 ^ high) s = expand_loop p low h h (2 ^ h) ?s"
    using h q by (subst expand_loop.simps) (simp add: COMEX_set_page_order_def page_upd_def nr_free_add_def)
  have c: "core_of ?s ?A" using core_push [OF Suc.prems(1) _ qA] h10 by simp
  have l: "loose (npages ?s) (asets ?A) h p" using loose_split [OF lo] by simp
  have fr: "frame s ?s" by (simp add: frame_def)
  have "d = h - low" using Suc.hyps(2) h by simp
  from Suc.hyps(1) [OF this c l h(2)] obtain s' A' where
    "expand_loop p low h h (2 ^ h) ?s = Some s'" "core_of s' A'" "loose (npages ?s) (asets A') low p"
    "frame ?s s'" "free_pages (asets A') = free_pages (asets ?A) \<union> (blk h p - blk low p)"
    by blast
  moreover have "free_pages (asets ?A) = free_pages (asets A) \<union> blk h ?q"
    using free_pages_insert [of h "asets A" ?q] h10 by simp
  moreover have "blk low p \<subseteq> blk h p" using h(2) by (auto simp: blk_def intro: order.strict_trans2 power_increasing)
  ultimately show ?case
    using fr frame_trans [of s ?s s'] blk_Suc_disjoint [of h p] step
    by (intro exI [of _ s'] exI [of _ A']) (auto simp: h(1) blk_Suc)
qed

lemma dvd_room: "(m :: int) dvd a \<Longrightarrow> m dvd n \<Longrightarrow> a < n \<Longrightarrow> a + m \<le> n"
  using zdvd_imp_le [of m "n - a"] by simp

lemma buddy_in_range:
  assumes "loose N S k p" and "k < 10" and "1024 dvd N"
  shows "0 \<le> buddy_of k p \<and> buddy_of k p < N"
proof -
  have al: "2 ^ k dvd p" and p: "0 \<le> p" "p < N"
    using assms(1) zero_less_power [of "2 :: int" k] unfolding loose_def by linarith+
  have "(2 :: int) ^ Suc k dvd 2 ^ 10" using assms(2) by (intro le_imp_power_dvd) simp
  then have N: "2 ^ Suc k dvd N" using assms(3) by (auto intro: dvd_trans)
  have pow: "(2 :: int) ^ Suc k = 2 ^ k + 2 ^ k" "(0 :: int) < 2 ^ k" by simp_all
  from al show ?thesis
  proof (cases rule: aligned_cases)
    case lo
    then show ?thesis using dvd_room [OF lo(1) N p(2)] p pow by linarith
  next
    case hi
    have "0 \<le> p - 2 ^ k"
    proof (rule ccontr)
      assume "\<not> 0 \<le> p - 2 ^ k"
      then have "p - 2 ^ k + 2 ^ Suc k \<le> 0" using dvd_room [OF hi(1), of 0] by simp
      then show False using p pow by linarith
    qed
    then show ?thesis using hi p pow by linarith
  qed
qed

lemma xor_pow: "x XOR 2 ^ k = flip_bit k (x :: int)"
  by (simp add: flip_bit_eq_xor push_bit_eq_mult)

lemma and_not_pow: "x AND NOT (2 ^ k) = unset_bit k (x :: int)"
  by (simp add: unset_bit_eq_and_not push_bit_eq_mult)

lemma is_buddy_core:
  assumes "core_of s A" and "k < 11" and "0 \<le> b" and "b < npages s"
  shows "COMEX_page_is_buddy b k s = Some (if b \<in> set (A k) then 1 else 0)"
  using assms by (auto simp: COMEX_page_is_buddy_def page_at_def core_def tagged_def)

lemma free_loop_correct:
  assumes "core_of s A" and "loose (npages s) (asets A) k p" and "1024 dvd npages s"
  shows "\<exists>p' k' s' A'. free_loop p (take_bit 11 p) k s = Some (p', k', s') \<and> core_of s' A' \<and>
     loose (npages s) (asets A') k' p' \<and> (k' < 10 \<longrightarrow> buddy_of k' p' \<notin> set (A' k')) \<and> frame s s' \<and>
     free_pages (asets A') \<union> blk k' p' = free_pages (asets A) \<union> blk k p"
  using assms
proof (induction "10 - k" arbitrary: k p s A)
  case 0
  then have "k = 10" by (simp add: loose_def)
  then show ?case using 0
    by (intro exI [of _ p] exI [of _ k] exI [of _ s] exI [of _ A])
      (simp add: free_loop.simps COMEX_MAX_ORDER_def)
next
  case (Suc d)
  have k: "k < 10" using Suc.hyps(2) by simp
  let ?b = "buddy_of k p"
  have b: "0 \<le> ?b" "?b < npages s" using buddy_in_range [OF Suc.prems(2) k Suc.prems(3)] by simp_all
  have k11: "k < 11" using k by simp
  have idx: "p + ((take_bit 11 p XOR 2 ^ k) - take_bit 11 p) = ?b"
    "p + ((take_bit 11 p AND NOT (2 ^ k)) - take_bit 11 p) = merged k p"
    "take_bit 11 p AND NOT (2 ^ k) = take_bit 11 (merged k p)"
    unfolding xor_pow and_not_pow take_bit_flip_offset [OF k11] take_bit_unset_offset [OF k11]
    using k by (simp_all add: take_bit_unset_bit_eq)
  note idx = idx idx(2) [unfolded idx(3)]
  have isb: "COMEX_page_is_buddy ?b k s = Some (if ?b \<in> set (A k) then 1 else 0)"
    using is_buddy_core [OF Suc.prems(1) _ b] k by simp
  show ?case
  proof (cases "?b \<in> set (A k)")
    case False
    then have "free_loop p (take_bit 11 p) k s = Some (p, k, s)"
      using k isb by (subst free_loop.simps) (simp add: COMEX_MAX_ORDER_def Let_def idx)
    then show ?thesis using Suc.prems False
      by (intro exI [of _ p] exI [of _ k] exI [of _ s] exI [of _ A]) simp
  next
    case True
    have p: "0 \<le> p" "p < npages s"
      using Suc.prems(2) zero_less_power [of "2 :: int" k] unfolding loose_def by linarith+
    let ?pg = "(pages s)(?b := (pages s ?b)\<lparr>priv := 0, mapcount := -1\<rparr>)"
    let ?s = "s\<lparr>links := COMEX_list_del (Lru ?b) (links s),
        pages := ?pg(p := (?pg p)\<lparr>priv := 0, mapcount := -1\<rparr>),
        nr_free := (nr_free s)(k := nr_free s k - 1)\<rparr>"
    let ?A = "A(k := remove1 ?b (A k))"
    have setA: "set (remove1 ?b (A k)) = set (A k) - {?b}"
      using core_distinct [OF Suc.prems(1)] k by (simp add: set_remove1_eq)
    have step: "free_loop p (take_bit 11 p) k s = free_loop (merged k p) (take_bit 11 (merged k p)) (Suc k) ?s"
      using k isb True b p buddy_neq [of k p]
      by (subst free_loop.simps)
        (simp add: COMEX_MAX_ORDER_def Let_def idx COMEX_rmv_page_order_def page_upd_def nr_free_add_def)
    have l: "loose (npages ?s) (asets ?A) (Suc k) (merged k p)"
      using loose_merge [OF Suc.prems(2) k] True by (simp add: setA)
    have pA: "\<forall>g<11. p \<notin> set (?A g)"
      using loose_not_in [OF Suc.prems(2)] by (auto dest: in_set_remove1 [THEN iffD1, rotated] set_remove1_subset [THEN subsetD])
    have c1: "core (COMEX_list_del (Lru ?b) (links s)) ((nr_free s)(k := nr_free s k - 1)) ?pg (npages s) ?A"
      using core_unlink [OF Suc.prems(1) k11 True] by simp
    have c: "core_of ?s ?A"
      using core_untag [OF c1 pA] by (simp del: fun_upd_apply)
    have "d = 10 - Suc k" using Suc.hyps(2) by simp
    from Suc.hyps(1) [OF this c l] Suc.prems(3) obtain p' k' s' A' where r:
      "free_loop (merged k p) (take_bit 11 (merged k p)) (Suc k) ?s = Some (p', k', s')"
      "core_of s' A'" "loose (npages s) (asets A') k' p'" "k' < 10 \<longrightarrow> buddy_of k' p' \<notin> set (A' k')"
      "frame ?s s'"
      "free_pages (asets A') \<union> blk k' p' = free_pages (asets ?A) \<union> blk (Suc k) (merged k p)"
      by auto
    have a: "areas (npages s) (asets A)" and al: "2 ^ k dvd p" using Suc.prems(2) by (auto simp: loose_def)
    have "blk k ?b \<subseteq> free_pages (asets A)" using True k11 by (fastforce simp: free_pages_iff)
    then have "free_pages (asets ?A) \<union> blk (Suc k) (merged k p) = free_pages (asets A) \<union> blk k p"
      using free_pages_remove [OF a, of k ?b] True k by (auto simp: setA blk_merged [OF al])
    moreover have "frame s ?s" by (simp add: frame_def)
    ultimately show ?thesis
      using r frame_trans [of s ?s s'] step
      by (intro exI [of _ p'] exI [of _ k'] exI [of _ s'] exI [of _ A']) auto
  qed
qed

text \<open>The counters.\<close>

definition bump :: "int \<Rightarrow> int \<Rightarrow> int \<Rightarrow> (int \<Rightarrow> COMEX_page) \<Rightarrow> int \<Rightarrow> COMEX_page" where
  "bump a b val pg x =
     (if a \<le> x \<and> x < b then (pg x)\<lparr>CMX_cntr := CMX_cntr (pg x) + val\<rparr> else pg x)"

lemma bump_empty [simp]: "b \<le> a \<Longrightarrow> bump a b val pg = pg"
  by (auto simp: bump_def)

lemma bump_step:
  "a < b \<Longrightarrow> bump (a + 1) b val (pg(a := (pg a)\<lparr>CMX_cntr := CMX_cntr (pg a) + val\<rparr>)) = bump a b val pg"
  by (auto simp: bump_def fun_eq_iff)

lemma bump_same [simp]:
  "pageNO (bump a b val pg x) = pageNO (pg x)" "priv (bump a b val pg x) = priv (pg x)"
  "mapcount (bump a b val pg x) = mapcount (pg x)"
  by (simp_all add: bump_def)

lemma checkCtr_loop_ok:
  assumes "0 \<le> p" and "p + int n \<le> npages s" and "i \<le> n" and "val = 1 \<or> val = -1"
    and "\<And>x. p + int i \<le> x \<Longrightarrow> x < p + int n \<Longrightarrow> CMX_cntr (pages s x) = (if val = 1 then 0 else 1)"
  shows "checkCtr_loop p n i val s =
    Some (1, s\<lparr>pages := bump (p + int i) (p + int n) val (pages s)\<rparr>)"
  using assms
proof (induction "n - i" arbitrary: i s)
  case 0
  then show ?case by (subst checkCtr_loop.simps) simp
next
  case (Suc d)
  let ?x = "p + int i"
  let ?s = "s\<lparr>pages := (pages s)(?x := (pages s ?x)\<lparr>CMX_cntr := CMX_cntr (pages s ?x) + val\<rparr>)\<rparr>"
  have i: "i < n" using Suc.hyps(2) by simp
  have x: "0 \<le> ?x" "?x < npages s" and cx: "CMX_cntr (pages s ?x) = (if val = 1 then 0 else 1)"
    using Suc.prems i by auto
  have "checkCtr_loop p n i val s = checkCtr_loop p n (Suc i) val ?s"
    using i x cx Suc.prems(4) by (subst checkCtr_loop.simps) (auto simp: page_upd_def page_at_def)
  also have "\<dots> = Some (1, ?s\<lparr>pages := bump (p + int (Suc i)) (p + int n) val (pages ?s)\<rparr>)"
    using Suc.hyps(2) i Suc.prems by (intro Suc.hyps(1)) auto
  also have "\<dots> = Some (1, s\<lparr>pages := bump ?x (p + int n) val (pages s)\<rparr>)"
    using bump_step [of ?x "p + int n" val "pages s"] i by (simp add: add.commute add.left_commute)
  finally show ?case .
qed

lemma core_cntr:
  assumes "core L nr pg N A"
    and "\<And>x. pageNO (pg' x) = pageNO (pg x) \<and> priv (pg' x) = priv (pg x) \<and> mapcount (pg' x) = mapcount (pg x)"
  shows "core L nr pg' N A"
  using assms by (auto simp: core_def tagged_def)

section \<open>Allocation and release\<close>

text \<open>
  Allocation from a non-empty pool: the outcome as seen through the representation.
\<close>

lemma rmqueue_loop_correct:
  assumes rep: "core_of s A" "areas (npages s) (asets A)"
      "counters (pages s) (npages s) (free_pages (asets A))" "1024 dvd npages s"
    and "order < 11" and "order \<le> cur" and "\<forall>j. order \<le> j \<longrightarrow> j < cur \<longrightarrow> A j = []"
  shows "(\<forall>j. order \<le> j \<longrightarrow> j < 11 \<longrightarrow> A j = []) \<and>
           rmqueue_loop order cur s = Some (-1, spin_unlock_buddy s) \<or>
         (\<exists>r s' A'. rmqueue_loop order cur s = Some (r, s') \<and> buddy_rep s' A' \<and> npages s' = npages s \<and>
           0 \<le> r \<and> r + 2 ^ order \<le> npages s \<and> 2 ^ order dvd r \<and> blk order r \<subseteq> free_pages (asets A) \<and>
           free_pages (asets A') = free_pages (asets A) - blk order r)"
  using assms(6,7)
proof (induction "11 - cur" arbitrary: cur)
  case 0
  then show ?case by (subst rmqueue_loop.simps) (auto simp: COMEX_MAX_ORDER_def)
next
  case (Suc d)
  have cur: "cur < 11" using Suc.hyps(2) by simp
  have L: "lists_hold {..<11} (links s) A" using rep(1) by (simp add: core_def)
  have em: "COMEX_list_empty (Head cur) (links s) \<longleftrightarrow> A cur = []"
    using clist.is_nil [OF L] cur by simp
  show ?case
  proof (cases "A cur = []")
    case True
    then have "rmqueue_loop order cur s = rmqueue_loop order (Suc cur) s"
      using em cur by (subst rmqueue_loop.simps) (simp add: COMEX_MAX_ORDER_def)
    moreover have "\<forall>j. order \<le> j \<longrightarrow> j < Suc cur \<longrightarrow> A j = []"
      using Suc.prems True by (auto simp: less_Suc_eq)
    moreover have "d = 11 - Suc cur" using Suc.hyps(2) by simp
    ultimately show ?thesis using Suc.hyps(1) [of "Suc cur"] Suc.prems by simp
  next
    case False
    then obtain p xs where A: "A cur = p # xs" by (cases "A cur") auto
    then have pin: "p \<in> set (A cur)" by simp
    have p: "0 \<le> p" "p < npages s" "p + 2 ^ cur \<le> npages s"
      using areas_member [OF rep(2) cur, of p] pin by simp_all
    let ?s = "s\<lparr>links := COMEX_list_del (Lru p) (links s),
        pages := (pages s)(p := (pages s p)\<lparr>priv := 0, mapcount := -1\<rparr>),
        nr_free := (nr_free s)(cur := nr_free s cur - 1)\<rparr>"
    let ?A = "A(cur := remove1 p (A cur))"
    have setA: "set (remove1 p (A cur)) = set (A cur) - {p}"
      using core_distinct [OF rep(1) cur] by (simp add: set_remove1_eq)
    have c: "core_of ?s ?A"
      using core_unlink [OF rep(1) cur pin] by (simp del: fun_upd_apply)
    have l: "loose (npages ?s) (asets ?A) cur p"
      using loose_take [OF rep(2) cur, of p] pin by (simp add: setA)
    have f: "free_pages (asets ?A) = free_pages (asets A) - blk cur p"
      using free_pages_remove [OF rep(2) cur, of p] pin by (simp add: setA)
    have sub: "blk cur p \<subseteq> free_pages (asets A)" using pin cur by (fastforce simp: free_pages_iff)
    obtain s1 A1 where e: "expand_loop p order cur cur (2 ^ cur) ?s = Some s1" "core_of s1 A1"
      "loose (npages s) (asets A1) order p" "frame ?s s1"
      "free_pages (asets A1) = free_pages (asets ?A) \<union> (blk cur p - blk order p)"
      using expand_loop_correct [OF c l Suc.prems(1)] by auto
    have sub': "blk order p \<subseteq> blk cur p"
      using Suc.prems(1) by (auto simp: blk_def intro: order.strict_trans2 power_increasing)
    have f1: "free_pages (asets A1) = free_pages (asets A) - blk order p"
      using e(5) f sub sub' by auto
    have n1: "npages s1 = npages s" and cn: "\<And>x. CMX_cntr (pages s1 x) = CMX_cntr (pages s x)"
      using e(4) by (auto simp: frame_def)
    have no: "pageNO (pages s1 p) = p" using e(2) p n1 by (simp add: core_def)
    have pw: "p + 2 ^ order \<le> npages s1" and al: "2 ^ order dvd p"
      using e(3) n1 by (auto simp: loose_def)
    let ?s2 = "s1\<lparr>pages := bump p (p + 2 ^ order) 1 (pages s1)\<rparr>"
    have free0: "CMX_cntr (pages s1 x) = 0" if "p \<le> x" "x < p + 2 ^ order" for x
    proof -
      have "x \<in> blk order p" using that by (simp add: blk_def)
      then have "x \<in> free_pages (asets A)" using sub sub' by blast
      then show ?thesis using rep(3) p pw n1 that cn by (auto simp: counters_def)
    qed
    have ck: "COMEX_checkCtr p order 1 s1 = Some (1, ?s2)"
      unfolding COMEX_checkCtr_def using checkCtr_loop_ok [of p "2 ^ order" s1 0 1] p pw free0 by simp
    have run: "rmqueue_loop order cur s = Some (p, spin_unlock_buddy ?s2)"
      using cur em False clist.front [OF L, of cur] A p e(1) n1 no ck
      by (subst rmqueue_loop.simps)
        (simp add: COMEX_MAX_ORDER_def COMEX_rmv_page_order_def page_upd_def page_at_def
          nr_free_add_def COMEX_expand_def)
    have "core_of ?s2 A1" using core_cntr [OF e(2)] by simp
    moreover have "counters (pages ?s2) (npages s) (free_pages (asets A1))"
      using rep(3) free0 cn by (auto simp: counters_def f1 blk_def bump_def)
    ultimately have "buddy_rep (spin_unlock_buddy ?s2) A1"
      using e(3) n1 rep(4) by (simp add: buddy_rep_def spin_unlock_buddy_def loose_def)
    then show ?thesis
      using run f1 sub sub' p n1 pw al by (auto simp: spin_unlock_buddy_def)
  qed
qed

end
