(* ===== verification/Comex_Memory.thy ===== *)
theory Comex_Memory
  imports Comex_Prelude
begin

unbundle bit_operations_syntax

text \<open>
  Byte memory, the page copies the node makes in it, and \<open>comex_util.h\<close>: the checksums of a page
  and the owner of an anonymous page.  Memory maps 64-bit addresses to bytes; address arithmetic
  wraps as it does on the machine.
\<close>

section \<open>Bytes and copies\<close>

type_synonym mem = "u64 \<Rightarrow> byte"

definition X86PageSize :: u64 where
  "X86PageSize = 4096"

text \<open>
  \<open>memcpy(dst, src, n)\<close>, within one memory or from another one (the memory of the node at the
  other end of a connection).
\<close>

definition copy_from :: "mem \<Rightarrow> u64 \<Rightarrow> u64 \<Rightarrow> u64 \<Rightarrow> mem \<Rightarrow> mem" where
  "copy_from other src dst n m = (\<lambda>a. if a - dst < n then other (src + (a - dst)) else m a)"

definition memcpy :: "u64 \<Rightarrow> u64 \<Rightarrow> u64 \<Rightarrow> mem \<Rightarrow> mem" where
  "memcpy dst src n m = copy_from m src dst n m"

text \<open>The contents of the page at an address, by offset.\<close>

definition page_data :: "mem \<Rightarrow> u64 \<Rightarrow> u64 \<Rightarrow> byte" where
  "page_data m a = (\<lambda>i. if i < X86PageSize then m (a + i) else 0)"

definition disj_pages :: "u64 \<Rightarrow> u64 \<Rightarrow> bool" where
  "disj_pages a b \<longleftrightarrow> \<not> a - b < X86PageSize \<and> \<not> b - a < X86PageSize"

lemma disj_pages_sym: "disj_pages a b \<longleftrightarrow> disj_pages b a"
  by (auto simp: disj_pages_def)

lemma disj_pages_offset:
  assumes "disj_pages a b" and "i < X86PageSize"
  shows "\<not> a + i - b < X86PageSize"
  using assms unfolding disj_pages_def X86PageSize_def by uint_arith

lemma page_data_copy [simp]: "page_data (copy_from other src dst X86PageSize m) dst = page_data other src"
  by (auto simp: page_data_def copy_from_def fun_eq_iff)

lemma page_data_frame:
  assumes "disj_pages a dst"
  shows "page_data (copy_from other src dst X86PageSize m) a = page_data m a"
  using disj_pages_offset [OF assms] by (auto simp: page_data_def copy_from_def fun_eq_iff)

lemma page_data_memcpy [simp]: "page_data (memcpy dst src X86PageSize m) dst = page_data m src"
  by (simp add: memcpy_def)

lemma page_data_memcpy_frame:
  "disj_pages a dst \<Longrightarrow> page_data (memcpy dst src X86PageSize m) a = page_data m a"
  by (simp add: memcpy_def page_data_frame)

text \<open>A copy of \<open>n\<close> pages at once, as an RDMA transfer makes it.\<close>

lemma page_data_copy_run:
  assumes "k < n" and "n \<le> 1024"
  shows "page_data (copy_from other src dst (of_nat n * X86PageSize) m) (dst + of_nat k * X86PageSize)
    = page_data other (src + of_nat k * X86PageSize)"
proof (rule ext)
  fix i :: u64
  have u: "uint (of_nat j * X86PageSize :: u64) = int j * 4096" if "j \<le> 1024" for j
    using that unfolding X86PageSize_def by (simp add: uint_mult_lem uint_nat [symmetric] unsigned_of_nat
        take_bit_nat_eq_self uint_word_ariths)
  have "of_nat k * X86PageSize + i < of_nat n * X86PageSize" if "i < X86PageSize"
    using u [of k] u [of n] assms that unfolding word_less_def X86PageSize_def
    by (simp add: uint_word_ariths)
  then show "page_data (copy_from other src dst (of_nat n * X86PageSize) m) (dst + of_nat k * X86PageSize) i
    = page_data other (src + of_nat k * X86PageSize) i"
    by (auto simp: page_data_def copy_from_def add.assoc)
qed

section \<open>Checksums\<close>

definition checkSum_Vpage :: "u64 \<Rightarrow> mem \<Rightarrow> u64" where
  "checkSum_Vpage chrPtr m = fold (\<lambda>i ret. ret + ucast (m (chrPtr + of_nat i))) [0..<4096] 0"

text \<open>\<open>kmap\<close> is the kernel's map from page frames to addresses.\<close>

definition checkSum_page :: "('p \<Rightarrow> u64) \<Rightarrow> 'p \<Rightarrow> mem \<Rightarrow> u64" where
  "checkSum_page kmap page m =
     (let chrPtr = kmap page in fold (\<lambda>i ret. ret + ucast (m (chrPtr + of_nat i))) [0..<4096] 0)"

lemma checkSum_page_Vpage: "checkSum_page kmap page m = checkSum_Vpage (kmap page) m"
  by (simp add: checkSum_page_def checkSum_Vpage_def)

lemma checkSum_sum: "checkSum_Vpage a m = of_nat (\<Sum>i<4096. unat (m (a + of_nat i)))"
proof -
  have "fold (\<lambda>i ret. ret + ucast (m (a + of_nat i))) [0..<n] (0 :: u64)
    = of_nat (\<Sum>i<n. unat (m (a + of_nat i)))" for n
    by (induction n) (simp_all add: of_nat_unat)
  then show ?thesis by (simp only: checkSum_Vpage_def)
qed

lemma checkSum_page_data:
  assumes "page_data m a = page_data m' b"
  shows "checkSum_Vpage a m = checkSum_Vpage b m'"
proof -
  have "m (a + of_nat i) = m' (b + of_nat i)" if "i < 4096" for i
  proof -
    have "(of_nat i :: u64) < X86PageSize"
      using that unfolding X86PageSize_def word_less_nat_alt by (simp add: unat_of_nat take_bit_nat_eq_self)
    then show ?thesis using fun_cong [OF assms, of "of_nat i"] by (simp add: page_data_def)
  qed
  then show ?thesis by (simp add: checkSum_sum)
qed

section \<open>The owner of a page\<close>

text \<open>
  The kernel structures behind \<open>page_lock_anon_vma_read\<close> and the interval tree: the areas that map
  the page, each with its \<open>mm\<close> and the task that owns it; every pointer may be null.
\<close>

record 't vm_area = vm_mm :: "'t option option"

record 't anon_vma_chain = vma :: "'t vm_area option"

text \<open>\<open>anon_vma_interval_tree_foreach\<close> with its breaks: it looks at the first entry only.\<close>

fun first_owner :: "'t anon_vma_chain option list \<Rightarrow> 't option" where
  "first_owner [] = None"
| "first_owner (None # _) = None"
| "first_owner (Some avc # _) =
     (case vma avc of
        None \<Rightarrow> None
      | Some area \<Rightarrow> (case vm_mm area of None \<Rightarrow> None | Some owner \<Rightarrow> owner))"

definition get_taskStruct :: "'t anon_vma_chain option list option \<Rightarrow> 't option" where
  "get_taskStruct anon_vma =
     (case anon_vma of None \<Rightarrow> None | Some tree \<Rightarrow> (let myTask = first_owner tree in myTask))"

text \<open>The result is \<^term>\<open>None\<close> where the code dereferences the null \<open>myTask\<close>.\<close>

definition get_page_PID :: "('t \<Rightarrow> int) \<Rightarrow> 't anon_vma_chain option list option \<Rightarrow> int option" where
  "get_page_PID pid anon_vma =
     (case anon_vma of
        None \<Rightarrow> Some (-1)
      | Some tree \<Rightarrow>
          (let myTask = first_owner tree in
           case myTask of None \<Rightarrow> None | Some t \<Rightarrow> Some (pid t)))"

lemma get_page_PID_null: "get_page_PID pid (Some []) = None" "get_page_PID pid None = Some (-1)"
  by (simp_all add: get_page_PID_def)

end
