(* ===== verification/Comex_State.thy ===== *)
theory Comex_State
  imports Comex_Buddy Comex_Memory
begin

text \<open>
  The state of a node: the constants and messages of \<open>linux/mm.h\<close>, the globals of
  \<open>comex_structure.h\<close>, \<open>comex_buddy.h\<close> and \<open>comex_remote.h\<close>, the control blocks and the shared
  space of \<open>krping.c\<close>, and what the node uses of the kernel and of the RDMA verbs, as a record of
  functions that every operation takes as its first argument.
\<close>

section \<open>Constants and messages\<close>

definition SHIFT_PAGE :: nat where "SHIFT_PAGE = 12"

definition MAX_FREE :: nat where "MAX_FREE = 16"

definition CODE_COMEX_PAGE_RQST :: int where "CODE_COMEX_PAGE_RQST = 10010"
definition CODE_COMEX_PAGE_RPLY :: int where "CODE_COMEX_PAGE_RPLY = 10011"
definition CODE_COMEX_PAGE_WRTE :: int where "CODE_COMEX_PAGE_WRTE = 10100"
definition CODE_COMEX_PAGE_READ :: int where "CODE_COMEX_PAGE_READ = 10200"
definition CODE_COMEX_PAGE_FREE :: int where "CODE_COMEX_PAGE_FREE = 10300"
definition CODE_COMEX_PAGE_CKSM :: int where "CODE_COMEX_PAGE_CKSM = 19000"

lemmas comex_codes = CODE_COMEX_PAGE_RQST_def CODE_COMEX_PAGE_RPLY_def CODE_COMEX_PAGE_WRTE_def
  CODE_COMEX_PAGE_READ_def CODE_COMEX_PAGE_FREE_def CODE_COMEX_PAGE_CKSM_def

record reply_pages_t =
  src_node :: int
  page_no :: int
  rsize :: int

record COMEX_address_t =
  local_off :: u64
  remote_off :: u64
  asize :: int
  bufIDX :: int

record free_struct_t =
  fpageNO :: "int list"
  fcount :: "int list"

record buffer_info =
  bi_buf :: u64
  bi_rkey :: u64
  bi_size :: int
  bi_instanceno :: int

text \<open>
  What the \<open>void *\<close> arguments and the \<open>piggy\<close> buffers hold: the command number says which
  structure it is.
\<close>

datatype payload =
    Node_id int
  | Reply reply_pages_t
  | Address COMEX_address_t
  | Free_runs free_struct_t
  | Chksm u64
  | Buffer_info buffer_info
  | Unset

text \<open>\<open>sizeof\<close> of the structures and of \<open>union bufferx\<close> (162 bytes, padded to a multiple of 8).\<close>

definition sizeof_bufferx :: int where "sizeof_bufferx = 168"

fun sizeof :: "payload \<Rightarrow> int" where
  "sizeof (Node_id _) = 4"
| "sizeof (Reply _) = 12"
| "sizeof (Address _) = 24"
| "sizeof (Free_runs _) = 96"
| "sizeof (Chksm _) = 8"
| "sizeof (Buffer_info _) = 24"
| "sizeof Unset = 0"

section \<open>The kernel side\<close>

record COMEX_conf =
  COMEX_ID :: int
  COMEX_total_nodes :: int
  COMEX_total_pages :: int
  COMEX_total_writeOut :: int
  COMEX_total_readIn :: int
  COMEX_threshold :: int
  COMEX_refill :: int
  COMEX_nMemNodes :: int
  COMEX_nComNodes :: int
  proc_name :: string

record COMEX_stats =
  SWAP_total :: u64
  SWAP_to_Disk :: u64
  SWAP_to_COMEX :: u64
  COMEX_in_total :: u64
  COMEX_in_preF :: u64
  COMEX_in_buff :: u64
  COMEX_in_RDMA :: u64
  COMEX_in_Local :: u64

text \<open>
  \<open>free_group\<close>: the list of \<open>free_group_t\<close>, each a range from \<open>page_start\<close> to \<open>page_end\<close>.  Locks are
  booleans, true when held.
\<close>

record COMEX_R_free_group_t =
  total_page :: int
  back_off :: int
  mutex_FG :: bool
  free_group :: "(int \<times> int) list"

record buff_desc_t =
  status :: int
  nodeID :: int
  bpageNO :: int
  mutex_buff :: bool

record buff_pos_t =
  head :: int
  tail :: int
  pos_mutex :: bool

section \<open>The module side\<close>

datatype test_state =
  IDLE | CONNECT_REQUEST | ADDR_RESOLVED | ROUTE_RESOLVED | CONNECTED | RECV_INFO | RDMA_READY | ERROR

text \<open>
  An address of 0 in \<open>bufferpages\<close> is a null pointer; \<open>sg\<close> holds what \<open>sg_set_buf\<close> put into the
  scatter list (0 where nothing was), \<open>sg_dma\<close> the bus address of each entry once mapped.
\<close>

record krping_sharedspace =
  sg :: "u64 list"
  sg_dma :: "u64 list"
  bufferpages :: "u64 list"
  dmapages :: "u64 list"
  numbigpages :: int

text \<open>The semaphores of control block \<open>i\<close> and the one on the stack of a write.\<close>

datatype sem =
    Sem_write int
  | Sem_read int
  | Sem_read_able int
  | Sem_verb_ack int
  | Sem_verb_mutex int
  | Sem_ready int

datatype wr_id = Wr_no u64 | Wr_sem sem

datatype wr_opcode = IB_WR_RDMA_WRITE | IB_WR_RDMA_READ | IB_WR_SEND_WITH_IMM

record ib_send_wr =
  wr_op :: wr_opcode
  wr_id :: wr_id
  wr_signaled :: bool
  wr_inline :: bool
  wr_rkey :: u64
  wr_remote_addr :: u64
  wr_imm :: int
  sge_addr :: u64
  sge_length :: u64
  sge_lkey :: u64

text \<open>
  \<open>struct krping_cb\<close>: the fields of the data path.  \<open>dma_rkey\<close> is \<open>dma_mr->rkey\<close>; \<open>sq_wr\<close> and
  \<open>send_sgl\<close> are one record per slot; the semaphores belong to the kernel (\<^term>\<open>Sem_read i\<close>, ...).
\<close>

record krping_cb =
  cb_server :: int
  cb_state :: test_state
  exitstatus :: int
  cbindex :: int
  mynodeID :: int
  remotenodeID :: int
  remote_rkey :: u64
  remote_pcount :: int
  remote_dmabuf_ptr :: u64
  remote_dmabuf_addr :: u64
  ptable_dma_addr :: u64
  dma_rkey :: u64
  remote_addr :: "u64 list"
  vslotusing :: int
  sq_wr :: "ib_send_wr list"
  send_buf :: "payload list"
  recv_buf :: "payload list"

definition VERB_RECV_SLOT :: int where "VERB_RECV_SLOT = 64"

definition VERB_SEND_SLOT :: int where "VERB_SEND_SLOT = 24"

definition RPING_BUFSIZE :: u64 where "RPING_BUFSIZE = 4 * 1024 * 1024"

record work_content =
  CMD_num :: int
  args :: payload

section \<open>The node\<close>

text \<open>
  \<open>hooked\<close>: the function pointers \<open>COMEX_RDMA\<close>, \<open>COMEX_offset_to_addr\<close> and \<open>COMEX_module_echo\<close>
  have been set by the module.  \<open>io\<close> is the state of everything outside the node's own memory and
  variables: devices, other nodes, kernel semaphores, free memory.
\<close>

record 'r node =
  conf :: COMEX_conf
  COMEX_Ready :: int
  stats :: COMEX_stats
  pool :: comex_buddy
  COMEX_free_group :: "COMEX_R_free_group_t list"
  buff_pos :: "buff_pos_t list"
  COMEX_writeOut_buff :: "buff_desc_t list list"
  COMEX_readIn_buff :: "buff_desc_t list"
  COMEX_free_struct :: "free_struct_t list"
  freePage_spin :: bool
  mutex_PF :: bool
  hooked :: bool
  remote_shift_offset :: u64
  localpagecount :: int
  bigspace :: krping_sharedspace
  cbs :: "krping_cb list"
  COMEX_wq :: "work_content list"
  mem :: mem
  io :: 'r

text \<open>
  The functions of the kernel and of the verbs layer.  Page frames are numbered; \<open>anon_tree\<close> is what
  the reverse map holds for a page, with process ids for tasks; \<open>kmalloc\<close> (and \<open>kzalloc\<close>) answers
  0 when there is no memory.  \<open>ib_post_send qp wr data\<close> may
  transfer at once or leave that to a later wait; \<open>down_killable\<close> sleeps until the semaphore is
  raised or the thread is killed; both may change the memory through DMA.
\<close>

record 'r ext =
  kmap :: "int \<Rightarrow> u64"
  anon_tree :: "int \<Rightarrow> int anon_vma_chain option list option"
  kmalloc :: "u64 \<Rightarrow> 'r \<Rightarrow> u64 \<times> 'r"
  ib_post_send :: "int \<Rightarrow> ib_send_wr \<Rightarrow> payload \<Rightarrow> mem \<times> 'r \<Rightarrow> int \<times> mem \<times> 'r"
  ib_post_recv :: "int \<Rightarrow> int \<Rightarrow> 'r \<Rightarrow> int \<times> 'r"
  down_killable :: "sem \<Rightarrow> mem \<times> 'r \<Rightarrow> int \<times> mem \<times> 'r"
  up_sem :: "sem \<Rightarrow> 'r \<Rightarrow> 'r"

text \<open>Updates of one element of an array of the node.\<close>

definition fg_upd :: "int \<Rightarrow> (COMEX_R_free_group_t \<Rightarrow> COMEX_R_free_group_t) \<Rightarrow> 'r node \<Rightarrow> 'r node option" where
  "fg_upd i f s = do { xs \<leftarrow> arr_upd (COMEX_free_group s) i f; Some (s\<lparr>COMEX_free_group := xs\<rparr>) }"

definition pos_upd :: "int \<Rightarrow> (buff_pos_t \<Rightarrow> buff_pos_t) \<Rightarrow> 'r node \<Rightarrow> 'r node option" where
  "pos_upd i f s = do { xs \<leftarrow> arr_upd (buff_pos s) i f; Some (s\<lparr>buff_pos := xs\<rparr>) }"

definition wo_get :: "int \<Rightarrow> int \<Rightarrow> 'r node \<Rightarrow> buff_desc_t option" where
  "wo_get n i s = do { row \<leftarrow> arr_get (COMEX_writeOut_buff s) n; arr_get row i }"

definition wo_upd :: "int \<Rightarrow> int \<Rightarrow> (buff_desc_t \<Rightarrow> buff_desc_t) \<Rightarrow> 'r node \<Rightarrow> 'r node option" where
  "wo_upd n i f s = do {
     row \<leftarrow> arr_get (COMEX_writeOut_buff s) n;
     row \<leftarrow> arr_upd row i f;
     rows \<leftarrow> arr_set (COMEX_writeOut_buff s) n row;
     Some (s\<lparr>COMEX_writeOut_buff := rows\<rparr>)
   }"

definition ri_upd :: "int \<Rightarrow> (buff_desc_t \<Rightarrow> buff_desc_t) \<Rightarrow> 'r node \<Rightarrow> 'r node option" where
  "ri_upd i f s = do { xs \<leftarrow> arr_upd (COMEX_readIn_buff s) i f; Some (s\<lparr>COMEX_readIn_buff := xs\<rparr>) }"

definition fs_upd :: "int \<Rightarrow> (free_struct_t \<Rightarrow> free_struct_t) \<Rightarrow> 'r node \<Rightarrow> 'r node option" where
  "fs_upd i f s = do { xs \<leftarrow> arr_upd (COMEX_free_struct s) i f; Some (s\<lparr>COMEX_free_struct := xs\<rparr>) }"

definition cb_upd :: "int \<Rightarrow> (krping_cb \<Rightarrow> krping_cb) \<Rightarrow> 'r node \<Rightarrow> 'r node option" where
  "cb_upd i f s = do { xs \<leftarrow> arr_upd (cbs s) i f; Some (s\<lparr>cbs := xs\<rparr>) }"

lemmas upd_defs = fg_upd_def pos_upd_def wo_get_def wo_upd_def ri_upd_def fs_upd_def cb_upd_def

end
