(* ===== verification/Krping_Space.thy ===== *)
theory Krping_Space
  imports Comex_State
begin

unbundle bit_operations_syntax

text \<open>
  The shared space of a node (\<open>krping.c\<close>: \<open>regis_bigspace\<close>, \<open>translate_useraddr\<close>;
  \<open>COMEX_module_lib.h\<close>: \<open>COMEX_offset_to_addr_fn\<close>): big pages of 4 MB, and the address of each
  4 KB page in it.
\<close>

section \<open>The code\<close>

text \<open>
  An array whose allocation failed has no elements, so that the first access to it has no value.
\<close>

definition alloc_array :: "'r ext \<Rightarrow> u64 \<Rightarrow> int \<Rightarrow> 'a \<Rightarrow> 'r \<Rightarrow> 'a list \<times> 'r" where
  "alloc_array X elem n v r =
     (let (p, r) = kmalloc X (elem * of_int n) r in (if p = 0 then [] else replicate (nat n) v, r))"

function regis_loop :: "'r ext \<Rightarrow> int \<Rightarrow> int \<Rightarrow> krping_sharedspace \<Rightarrow> 'r \<Rightarrow>
    (int \<times> krping_sharedspace \<times> 'r) option" where
  "regis_loop X i n b r =
     (if i < n then do {
        let (p, r) = kmalloc X RPING_BUFSIZE r;
        bp \<leftarrow> arr_set (bufferpages b) i p;
        let b = b\<lparr>bufferpages := bp\<rparr>;
        if p = 0 then Some (-1, b, r)
        else do {
          sgl \<leftarrow> arr_set (sg b) i p;
          regis_loop X (i + 1) n (b\<lparr>sg := sgl\<rparr>) r
        }
      } else Some (0, b, r))"
  by pat_completeness auto
termination
  by (relation "measure (\<lambda>(X, i, n, b, r). nat (n - i))") auto

declare regis_loop.simps [simp del]

definition regis_bigspace :: "'r ext \<Rightarrow> int \<Rightarrow> 'r \<Rightarrow> (int \<times> krping_sharedspace \<times> 'r) option" where
  "regis_bigspace X num_bigpages r = do {
     let (sgl, r) = alloc_array X 32 num_bigpages 0 r;
     let (bp, r) = alloc_array X 8 num_bigpages 0 r;
     let (dp, r) = alloc_array X 8 num_bigpages 0 r;
     let b = \<lparr>sg = sgl, sg_dma = map (\<lambda>_. 0) sgl, bufferpages = bp, dmapages = dp, numbigpages = num_bigpages\<rparr>;
     b \<leftarrow> for_up 0 num_bigpages (\<lambda>i b. do {
         bp \<leftarrow> arr_set (bufferpages b) i 0;
         Some (b\<lparr>bufferpages := bp\<rparr>) }) b;
     regis_loop X 0 num_bigpages b r
   }"

definition translate_useraddr :: "krping_sharedspace \<Rightarrow> u64 \<Rightarrow> u64 option" where
  "translate_useraddr b offset = do {
     p \<leftarrow> arr_get (bufferpages b) (uint (offset div RPING_BUFSIZE));
     if p = 0 then Some 0
     else Some (p + offset mod RPING_BUFSIZE)
   }"

text \<open>An offset past the space is reported and used all the same.\<close>

definition COMEX_offset_to_addr_fn :: "u64 \<Rightarrow> 'r node \<Rightarrow> u64 option" where
  "COMEX_offset_to_addr_fn offset s = do {
     cb \<leftarrow> arr_get (cbs s) 0;
     translate_useraddr (bigspace s) offset
   }"

text \<open>The call through the function pointer that the module sets.\<close>

definition COMEX_offset_to_addr :: "u64 \<Rightarrow> 'r node \<Rightarrow> u64 option" where
  "COMEX_offset_to_addr offset s = (if hooked s then COMEX_offset_to_addr_fn offset s else None)"

section \<open>Pages of the space\<close>

text \<open>The offset of page \<open>p\<close>, and the address it has in a table of big pages.\<close>

definition page_off :: "int \<Rightarrow> u64" where
  "page_off p = of_int (p * 4096)"

definition big_addr :: "u64 list \<Rightarrow> int \<Rightarrow> u64" where
  "big_addr table p = table ! nat (p div 1024) + page_off (p mod 1024)"

definition page_ok :: "int \<Rightarrow> bool" where
  "page_ok p \<longleftrightarrow> 0 \<le> p \<and> p < 2 ^ 40"

lemma page_off_shift: "page_off p = push_bit 12 (of_int p)"
  by (simp add: page_off_def push_bit_eq_mult)

lemma uint_of_int64: "0 \<le> x \<Longrightarrow> x < 2 ^ 64 \<Longrightarrow> uint (of_int x :: u64) = x"
  by (simp add: unsigned_of_int take_bit_int_eq_self)

lemma page_off_uint: "page_ok p \<Longrightarrow> uint (page_off p) = p * 4096"
  unfolding page_off_def page_ok_def by (rule uint_of_int64) auto

lemma page_off_div: "page_ok p \<Longrightarrow> uint (page_off p div RPING_BUFSIZE) = p div 1024"
  by (simp add: uint_div_distrib page_off_uint RPING_BUFSIZE_def)

lemma page_ok_in [simp]: "page_ok (p mod 1024)"
  using pos_mod_bound [of 1024 p] by (simp add: page_ok_def del: pos_mod_bound)

lemma uint_page_in [simp]: "uint (page_off (p mod 1024)) = p mod 1024 * 4096"
  by (rule page_off_uint) simp

lemma page_off_mod: "page_ok p \<Longrightarrow> page_off p mod RPING_BUFSIZE = page_off (p mod 1024)"
  unfolding word_uint_eq_iff
  by (simp add: uint_mod_distrib page_off_uint RPING_BUFSIZE_def mod_mult_mult2 [of p 4096 1024, simplified])

lemma translate_page:
  assumes "page_ok p" and "p div 1024 < int (length (bufferpages b))"
  shows "translate_useraddr b (page_off p)
    = Some (if bufferpages b ! nat (p div 1024) = 0 then 0 else big_addr (bufferpages b) p)"
  using assms by (simp add: translate_useraddr_def page_off_div page_off_mod arr_get_def big_addr_def page_ok_def pos_imp_zdiv_nonneg_iff)

text \<open>
  Addresses of two big pages never meet: what \<open>kmalloc\<close> promises.  Then different pages of the
  space lie at disjoint addresses.
\<close>

definition apart :: "u64 list \<Rightarrow> bool" where
  "apart table \<longleftrightarrow> (\<forall>i < length table. \<forall>j < length table. i \<noteq> j \<longrightarrow> table ! i \<noteq> 0 \<longrightarrow> table ! j \<noteq> 0 \<longrightarrow>
     (\<forall>x < RPING_BUFSIZE. \<not> table ! i + x - table ! j < RPING_BUFSIZE))"

lemma page_in_big:
  assumes "i < X86PageSize"
  shows "page_off (p mod 1024) + i < RPING_BUFSIZE"
proof -
  have "uint i < 4096" using assms unfolding word_less_def X86PageSize_def by simp
  then show ?thesis
    unfolding word_less_def using pos_mod_bound [of 1024 p] pos_mod_sign [of 1024 p]
    by (simp add: RPING_BUFSIZE_def uint_word_ariths del: pos_mod_bound pos_mod_sign)
qed

lemma big_addr_disjoint:
  assumes "apart table" and "0 \<le> p" and "0 \<le> q" and "p \<noteq> q"
    and "p div 1024 < int (length table)" and "q div 1024 < int (length table)"
    and "table ! nat (p div 1024) \<noteq> 0" and "table ! nat (q div 1024) \<noteq> 0"
  shows "disj_pages (big_addr table p) (big_addr table q)"
proof (cases "p div 1024 = q div 1024")
  case True
  let ?x = "page_off (p mod 1024)" and ?y = "page_off (q mod 1024)"
  have u: "uint ?x = p mod 1024 * 4096" "uint ?y = q mod 1024 * 4096" by simp_all
  have "p mod 1024 \<noteq> q mod 1024" using True assms(4) by (metis div_mod_decomp_int)
  then have "\<not> ?x - ?y < X86PageSize \<and> \<not> ?y - ?x < X86PageSize"
    unfolding word_less_def uint_sub_if' X86PageSize_def u by auto
  then show ?thesis using True by (simp add: disj_pages_def big_addr_def)
next
  case False
  have sep: "\<not> big_addr table a - big_addr table b < X86PageSize"
    if ab: "a div 1024 \<noteq> b div 1024" "0 \<le> a" "0 \<le> b" "a div 1024 < int (length table)"
      "b div 1024 < int (length table)" "table ! nat (a div 1024) \<noteq> 0" "table ! nat (b div 1024) \<noteq> 0" for a b
  proof
    let ?A = "table ! nat (a div 1024)" and ?B = "table ! nat (b div 1024)"
    let ?x = "page_off (a mod 1024)" and ?y = "page_off (b mod 1024)"
    assume l: "big_addr table a - big_addr table b < X86PageSize"
    have "?y + (big_addr table a - big_addr table b) < RPING_BUFSIZE" using l by (rule page_in_big)
    moreover have "?y + (big_addr table a - big_addr table b) = ?A + ?x - ?B" by (simp add: big_addr_def)
    moreover have "?x < RPING_BUFSIZE" using page_in_big [of 0 a] by (simp add: X86PageSize_def)
    moreover have "nat (a div 1024) \<noteq> nat (b div 1024)" using ab(1-3) by (simp add: eq_nat_nat_iff pos_imp_zdiv_nonneg_iff)
    ultimately show False using assms(1) ab unfolding apart_def by (metis nat_less_iff pos_imp_zdiv_nonneg_iff zero_less_numeral)
  qed
  show ?thesis unfolding disj_pages_def using sep [of p q] sep [of q p] False assms by auto
qed

end
