(* ===== verification/Krping_Verbs.thy ===== *)
theory Krping_Verbs
  imports Krping_Space
begin

unbundle bit_operations_syntax

text \<open>
  The data path of \<open>krping.c\<close>: one-sided writes and reads (\<open>do_write\<close>, \<open>do_read\<close>) and messages
  (\<open>universal_send\<close>), down to the work request that is handed to the verbs layer.  What the verbs
  layer then does is a hypothesis, \<open>rdma_transfers\<close>.
\<close>

section \<open>The code\<close>

definition ID_to_CB :: "int \<Rightarrow> 'r node \<Rightarrow> int" where
  "ID_to_CB node s =
     (case List.find (\<lambda>i. remotenodeID (cbs s ! i) = node) [0..<length (cbs s)] of
        Some i \<Rightarrow> int i
      | None \<Rightarrow> -1)"

text \<open>The address in a table of big pages at an offset: \<open>table[offset/SIZE] + offset%SIZE\<close>.\<close>

definition table_addr :: "u64 list \<Rightarrow> u64 \<Rightarrow> u64 option" where
  "table_addr table offset = do {
     b \<leftarrow> arr_get table (uint (offset div RPING_BUFSIZE));
     Some (b + offset mod RPING_BUFSIZE)
   }"

definition rdma_request :: "wr_opcode \<Rightarrow> sem \<Rightarrow> krping_cb \<Rightarrow> u64 \<Rightarrow> u64 \<Rightarrow> u64 \<Rightarrow> ib_send_wr" where
  "rdma_request opc sm cb local remote sz =
     \<lparr>wr_op = opc, wr_id = Wr_sem sm, wr_signaled = True, wr_inline = False, wr_rkey = remote_rkey cb,
      wr_remote_addr = remote, wr_imm = 0, sge_addr = local, sge_length = sz, sge_lkey = dma_rkey cb\<rparr>"

definition do_write :: "'r ext \<Rightarrow> int \<Rightarrow> u64 \<Rightarrow> u64 \<Rightarrow> u64 \<Rightarrow> 'r node \<Rightarrow> (int \<times> 'r node) option" where
  "do_write X i local_offset remote_offset sz s = do {
     cb \<leftarrow> arr_get (cbs s) i;
     if local_offset mod RPING_BUFSIZE + sz > RPING_BUFSIZE \<or> remote_offset mod RPING_BUFSIZE + sz > RPING_BUFSIZE
     then Some (1, s)
     else if uint (remote_offset div RPING_BUFSIZE) > remote_pcount cb then Some (1, s)
     else do {
       local \<leftarrow> table_addr (dmapages (bigspace s)) local_offset;
       remote \<leftarrow> table_addr (remote_addr cb) remote_offset;
       let wr = rdma_request IB_WR_RDMA_WRITE (Sem_write i) cb local remote sz;
       let (ret, m, r) = ib_post_send X i wr Unset (mem s, io s);
       if ret \<noteq> 0 then Some (ret, s\<lparr>mem := m, io := r\<rparr>)
       else do {
         let (ret, m, r) = down_killable X (Sem_write i) (m, r);
         Some (0, s\<lparr>mem := m, io := r\<rparr>)
       }
     }
   }"

definition do_read :: "'r ext \<Rightarrow> int \<Rightarrow> u64 \<Rightarrow> u64 \<Rightarrow> u64 \<Rightarrow> 'r node \<Rightarrow> (int \<times> 'r node) option" where
  "do_read X i local_offset remote_offset sz s = do {
     cb \<leftarrow> arr_get (cbs s) i;
     if local_offset mod RPING_BUFSIZE + sz > RPING_BUFSIZE \<or> remote_offset mod RPING_BUFSIZE + sz > RPING_BUFSIZE
     then Some (1, s)
     else if uint (remote_offset div RPING_BUFSIZE) > remote_pcount cb then Some (1, s)
     else do {
       local \<leftarrow> table_addr (dmapages (bigspace s)) local_offset;
       remote \<leftarrow> table_addr (remote_addr cb) remote_offset;
       let wr = rdma_request IB_WR_RDMA_READ (Sem_read i) cb local remote sz;
       let (ret, m, r) = ib_post_send X i wr Unset (mem s, io s);
       if ret \<noteq> 0 then Some (ret, s\<lparr>mem := m, io := r\<rparr>)
       else do {
         let (ret, m, r) = down_killable X (Sem_read i) (m, r);
         Some (0, s\<lparr>mem := m, io := r\<rparr>)
       }
     }
   }"

text \<open>
  A message takes the next of the 24 slots, whatever became of the message that used it before.
  The copy of more than \<open>sizeof(union bufferx)\<close> bytes would run into the next slot.
\<close>

definition universal_send :: "'r ext \<Rightarrow> int \<Rightarrow> int \<Rightarrow> payload \<Rightarrow> int \<Rightarrow> 'r node \<Rightarrow> (int \<times> 'r node) option" where
  "universal_send X i imm addr sz s = do {
     cb \<leftarrow> arr_get (cbs s) i;
     let (ret, m, r) = down_killable X (Sem_verb_mutex i) (mem s, io s);
     let slot = vslotusing cb;
     let cb = cb\<lparr>vslotusing := (vslotusing cb + 1) smod VERB_SEND_SLOT\<rparr>;
     let r = up_sem X (Sem_verb_mutex i) r;
     wr \<leftarrow> arr_get (sq_wr cb) slot;
     if sz > sizeof_bufferx then None
     else do {
       sb \<leftarrow> arr_set (send_buf cb) slot addr;
       let wr = wr\<lparr>sge_length := of_int sz, wr_imm := imm\<rparr>;
       wrs \<leftarrow> arr_set (sq_wr cb) slot wr;
       cs \<leftarrow> arr_set (cbs s) i (cb\<lparr>send_buf := sb, sq_wr := wrs\<rparr>);
       let (ret, m, r) = ib_post_send X i wr addr (m, r);
       let (m, r) = (if wr_signaled wr then snd (down_killable X (Sem_verb_ack i) (m, r)) else (m, r));
       Some (0, s\<lparr>cbs := cs, mem := m, io := r\<rparr>)
     }
   }"

section \<open>What the verbs layer promises\<close>

text \<open>
  \<open>rdma_transfers X virt rem up\<close>: on a connection that is \<open>up\<close>, a signalled write or read has
  moved its bytes when the wait on its semaphore returns, and has changed nothing else.
  \<open>virt\<close> is the address behind a bus address, \<open>rem r i\<close> the memory of the node at the far end of
  connection \<open>i\<close>.
\<close>

definition rdma_transfers :: "'r ext \<Rightarrow> (u64 \<Rightarrow> u64) \<Rightarrow> ('r \<Rightarrow> int \<Rightarrow> mem) \<Rightarrow> ('r \<Rightarrow> int \<Rightarrow> bool) \<Rightarrow> bool" where
  "rdma_transfers X virt rem up \<longleftrightarrow>
     (\<forall>i wr sm m r. up r i \<longrightarrow> wr_id wr = Wr_sem sm \<longrightarrow> wr_signaled wr \<longrightarrow>
        (\<exists>m1 r1 k m2 r2. ib_post_send X i wr Unset (m, r) = (0, m1, r1) \<and>
           down_killable X sm (m1, r1) = (k, m2, r2) \<and> up r2 = up r \<and>
           (wr_op wr = IB_WR_RDMA_WRITE \<longrightarrow> m2 = m \<and>
              rem r2 = (rem r)(i := copy_from m (virt (sge_addr wr)) (wr_remote_addr wr) (sge_length wr) (rem r i))) \<and>
           (wr_op wr = IB_WR_RDMA_READ \<longrightarrow> rem r2 = rem r \<and>
              m2 = copy_from (rem r i) (wr_remote_addr wr) (virt (sge_addr wr)) (sge_length wr) m)))"

text \<open>
  The space of the node is registered: every big page has memory (no part of it at address 0), and its bus address stands for it.
\<close>

definition registered :: "(u64 \<Rightarrow> u64) \<Rightarrow> krping_sharedspace \<Rightarrow> bool" where
  "registered virt b \<longleftrightarrow> length (dmapages b) = length (bufferpages b) \<and> apart (bufferpages b) \<and>
     0 \<notin> set (bufferpages b) \<and>
     (\<forall>i < length (bufferpages b). \<forall>x < RPING_BUFSIZE. bufferpages b ! i + x \<noteq> 0) \<and>
     (\<forall>i < length (dmapages b). \<forall>x < RPING_BUFSIZE. virt (dmapages b ! i + x) = bufferpages b ! i + x)"

definition in_space :: "krping_sharedspace \<Rightarrow> int \<Rightarrow> bool" where
  "in_space b p \<longleftrightarrow> page_ok p \<and> p div 1024 < int (length (bufferpages b))"

text \<open>A run of \<open>n\<close> pages inside one big page.\<close>

definition run_ok :: "int \<Rightarrow> nat \<Rightarrow> bool" where
  "run_ok p n \<longleftrightarrow> page_ok p \<and> p mod 1024 + int n \<le> 1024"

lemma table_addr_page:
  assumes "page_ok p" and "p div 1024 < int (length table)"
  shows "table_addr table (page_off p) = Some (big_addr table p)"
  using assms by (simp add: table_addr_def page_off_div page_off_mod arr_get_def big_addr_def
      page_ok_def pos_imp_zdiv_nonneg_iff)

lemma uint_run: "n \<le> 1024 \<Longrightarrow> uint (of_nat n * X86PageSize) = int n * 4096"
  unfolding X86PageSize_def by (simp add: uint_word_ariths unsigned_of_nat take_bit_nat_eq_self)

lemma run_fits:
  assumes "run_ok p n"
  shows "\<not> page_off p mod RPING_BUFSIZE + of_nat n * X86PageSize > RPING_BUFSIZE"
proof -
  have n: "n \<le> 1024" "p mod 1024 + int n \<le> 1024"
    using assms pos_mod_sign [of 1024 p] unfolding run_ok_def by linarith+
  have "uint (page_off p mod RPING_BUFSIZE + of_nat n * X86PageSize) = (p mod 1024 + int n) * 4096"
    using assms n pos_mod_sign [of 1024 p] by (simp add: run_ok_def page_off_mod uint_word_ariths(1) uint_run distrib_right)
  then show ?thesis using n(2) by (simp add: word_less_def RPING_BUFSIZE_def)
qed

lemma big_addr_run:
  assumes "0 \<le> p" and "p mod 1024 + int k < 1024"
  shows "big_addr table (p + int k) = big_addr table p + of_nat k * X86PageSize"
proof -
  have "(p + int k) div 1024 = p div 1024" and "(p + int k) mod 1024 = p mod 1024 + int k"
  proof -
    have e: "p + int k = 1024 * (p div 1024) + (p mod 1024 + int k)" and z: "0 \<le> p mod 1024 + int k"
      by simp_all
    show "(p + int k) div 1024 = p div 1024" by (rule int_div_pos_eq [OF e z assms(2)])
    show "(p + int k) mod 1024 = p mod 1024 + int k" by (rule int_mod_pos_eq [OF e z assms(2)])
  qed
  then show ?thesis by (simp add: big_addr_def page_off_def X86PageSize_def algebra_simps)
qed

lemma node_same [simp]: "s\<lparr>mem := mem s, io := r\<rparr> = s\<lparr>io := r\<rparr>"
  by (cases s) simp

lemma registered_virt:
  assumes "registered virt b" and "in_space b p"
  shows "virt (big_addr (dmapages b) p) = big_addr (bufferpages b) p"
    and "table_addr (dmapages b) (page_off p) = Some (big_addr (dmapages b) p)"
proof -
  have k: "nat (p div 1024) < length (dmapages b)"
    using assms by (auto simp: registered_def in_space_def page_ok_def pos_imp_zdiv_nonneg_iff nat_less_iff)
  have "page_off (p mod 1024) < RPING_BUFSIZE" using page_in_big [of 0 p] by (simp add: X86PageSize_def)
  then show "virt (big_addr (dmapages b) p) = big_addr (bufferpages b) p"
    using assms(1) k by (simp add: registered_def big_addr_def)
  show "table_addr (dmapages b) (page_off p) = Some (big_addr (dmapages b) p)"
    using assms by (intro table_addr_page) (auto simp: registered_def in_space_def)
qed

text \<open>The far end of a connection: its table of big pages has been read (\<open>do_read_bufferptr\<close>).\<close>

definition linked_up :: "krping_cb \<Rightarrow> bool" where
  "linked_up cb \<longleftrightarrow> remote_pcount cb = int (length (remote_addr cb))"

definition transfer_ok :: "('r \<Rightarrow> int \<Rightarrow> bool) \<Rightarrow> (u64 \<Rightarrow> u64) \<Rightarrow> int \<Rightarrow> int \<Rightarrow> int \<Rightarrow> nat \<Rightarrow> 'r node \<Rightarrow> bool" where
  "transfer_ok up virt i lp rp n s \<longleftrightarrow>
     0 \<le> i \<and> i < int (length (cbs s)) \<and> up (io s) i \<and> registered virt (bigspace s) \<and>
     linked_up (cbs s ! nat i) \<and> in_space (bigspace s) lp \<and> run_ok lp n \<and> run_ok rp n \<and>
     rp div 1024 < int (length (remote_addr (cbs s ! nat i)))"

lemma do_write_run:
  assumes X: "rdma_transfers X virt rem up" and t: "transfer_ok up virt i lp rp n s"
  shows "\<exists>r. do_write X i (page_off lp) (page_off rp) (of_nat n * X86PageSize) s = Some (0, s\<lparr>io := r\<rparr>) \<and>
    up r = up (io s) \<and>
    rem r = (rem (io s))(i := copy_from (mem s) (big_addr (bufferpages (bigspace s)) lp)
      (big_addr (remote_addr (cbs s ! nat i)) rp) (of_nat n * X86PageSize) (rem (io s) i))"
proof -
  let ?cb = "cbs s ! nat i" and ?b = "bigspace s"
  let ?wr = "rdma_request IB_WR_RDMA_WRITE (Sem_write i) ?cb (big_addr (dmapages ?b) lp)
      (big_addr (remote_addr ?cb) rp) (of_nat n * X86PageSize)"
  have t': "0 \<le> i" "i < int (length (cbs s))" "up (io s) i" "registered virt ?b" "linked_up ?cb"
    "in_space ?b lp" "run_ok lp n" "run_ok rp n" "page_ok rp" "rp div 1024 < int (length (remote_addr ?cb))"
    using t by (simp_all add: transfer_ok_def run_ok_def)
  have b: "\<not> uint (page_off rp div RPING_BUFSIZE) > remote_pcount ?cb"
    using t' by (simp add: page_off_div linked_up_def)
  obtain m1 r1 k r2 where w: "ib_post_send X i ?wr Unset (mem s, io s) = (0, m1, r1)"
    "down_killable X (Sem_write i) (m1, r1) = (k, mem s, r2)" "up r2 = up (io s)"
    "rem r2 = (rem (io s))(i := copy_from (mem s) (virt (big_addr (dmapages ?b) lp))
      (big_addr (remote_addr ?cb) rp) (of_nat n * X86PageSize) (rem (io s) i))"
    using X t'(3) unfolding rdma_transfers_def
    by (elim allE [of _ i] allE [of _ ?wr] allE [of _ "Sem_write i"] allE [of _ "mem s"] allE [of _ "io s"])
      (auto simp: rdma_request_def)
  have "do_write X i (page_off lp) (page_off rp) (of_nat n * X86PageSize) s = Some (0, s\<lparr>io := r2\<rparr>)"
    unfolding do_write_def
    using t'(1,2) b run_fits [OF t'(7)] run_fits [OF t'(8)] registered_virt(2) [OF t'(4,6)]
      table_addr_page [OF t'(9,10)] w(1,2)
    by (simp add: arr_simps Let_def)
  then show ?thesis using w(3,4) registered_virt(1) [OF t'(4,6)] by auto
qed

lemma do_read_run:
  assumes X: "rdma_transfers X virt rem up" and t: "transfer_ok up virt i lp rp n s"
  shows "\<exists>r. do_read X i (page_off lp) (page_off rp) (of_nat n * X86PageSize) s =
      Some (0, s\<lparr>mem := copy_from (rem (io s) i) (big_addr (remote_addr (cbs s ! nat i)) rp)
        (big_addr (bufferpages (bigspace s)) lp) (of_nat n * X86PageSize) (mem s), io := r\<rparr>) \<and>
    up r = up (io s) \<and> rem r = rem (io s)"
proof -
  let ?cb = "cbs s ! nat i" and ?b = "bigspace s"
  let ?wr = "rdma_request IB_WR_RDMA_READ (Sem_read i) ?cb (big_addr (dmapages ?b) lp)
      (big_addr (remote_addr ?cb) rp) (of_nat n * X86PageSize)"
  have t': "0 \<le> i" "i < int (length (cbs s))" "up (io s) i" "registered virt ?b" "linked_up ?cb"
    "in_space ?b lp" "run_ok lp n" "run_ok rp n" "page_ok rp" "rp div 1024 < int (length (remote_addr ?cb))"
    using t by (simp_all add: transfer_ok_def run_ok_def)
  have b: "\<not> uint (page_off rp div RPING_BUFSIZE) > remote_pcount ?cb"
    using t' by (simp add: page_off_div linked_up_def)
  obtain m1 r1 k m2 r2 where w: "ib_post_send X i ?wr Unset (mem s, io s) = (0, m1, r1)"
    "down_killable X (Sem_read i) (m1, r1) = (k, m2, r2)" "up r2 = up (io s)" "rem r2 = rem (io s)"
    "m2 = copy_from (rem (io s) i) (big_addr (remote_addr ?cb) rp) (virt (big_addr (dmapages ?b) lp))
      (of_nat n * X86PageSize) (mem s)"
    using X t'(3) unfolding rdma_transfers_def
    by (elim allE [of _ i] allE [of _ ?wr] allE [of _ "Sem_read i"] allE [of _ "mem s"] allE [of _ "io s"])
      (auto simp: rdma_request_def)
  have "do_read X i (page_off lp) (page_off rp) (of_nat n * X86PageSize) s = Some (0, s\<lparr>mem := m2, io := r2\<rparr>)"
    unfolding do_read_def
    using t'(1,2) b run_fits [OF t'(7)] run_fits [OF t'(8)] registered_virt(2) [OF t'(4,6)]
      table_addr_page [OF t'(9,10)] w(1,2)
    by (simp add: arr_simps Let_def)
  then show ?thesis using w(3,4,5) registered_virt(1) [OF t'(4,6)] by auto
qed

section \<open>Requests that are refused\<close>

text \<open>A transfer that crosses the end of a big page, at either side, is refused and does nothing.\<close>

lemma transfer_crossing:
  assumes "0 \<le> i" and "i < int (length (cbs s))" and "page_ok p" and "n \<le> 1024" and "p mod 1024 + int n > 1024"
    and "p \<in> {lp, rp}"
  shows "do_write X i (page_off lp) (page_off rp) (of_nat n * X86PageSize) s = Some (1, s)"
    and "do_read X i (page_off lp) (page_off rp) (of_nat n * X86PageSize) s = Some (1, s)"
proof -
  have "uint (page_off p mod RPING_BUFSIZE + of_nat n * X86PageSize) = (p mod 1024 + int n) * 4096"
    using assms(3,4) pos_mod_bound [of 1024 p]
    by (simp add: page_off_mod uint_word_ariths(1) uint_run distrib_right del: pos_mod_bound)
  then have "page_off p mod RPING_BUFSIZE + of_nat n * X86PageSize > RPING_BUFSIZE"
    using assms(5) by (simp add: word_less_def RPING_BUFSIZE_def)
  then show "do_write X i (page_off lp) (page_off rp) (of_nat n * X86PageSize) s = Some (1, s)"
    and "do_read X i (page_off lp) (page_off rp) (of_nat n * X86PageSize) s = Some (1, s)"
    using assms(1,2,6) by (auto simp: do_write_def do_read_def arr_simps)
qed

text \<open>
  The test for the end of the remote space lets the first big page after it pass, and the table of
  remote addresses is then read behind its end.
\<close>

lemma transfer_past_end:
  assumes "0 \<le> i" and "i < int (length (cbs s))" and "linked_up (cbs s ! nat i)"
    and "run_ok lp n" and "run_ok rp n" and "rp div 1024 = int (length (remote_addr (cbs s ! nat i)))"
  shows "do_write X i (page_off lp) (page_off rp) (of_nat n * X86PageSize) s = None"
    and "do_read X i (page_off lp) (page_off rp) (of_nat n * X86PageSize) s = None"
proof -
  have "page_ok rp" using assms(5) by (simp add: run_ok_def)
  then have "table_addr (remote_addr (cbs s ! nat i)) (page_off rp) = None"
    using assms(6) by (simp add: table_addr_def page_off_div arr_get_out)
  moreover have "\<not> uint (page_off rp div RPING_BUFSIZE) > remote_pcount (cbs s ! nat i)"
    using assms(3,6) \<open>page_ok rp\<close> by (simp add: page_off_div linked_up_def)
  ultimately show "do_write X i (page_off lp) (page_off rp) (of_nat n * X86PageSize) s = None"
    and "do_read X i (page_off lp) (page_off rp) (of_nat n * X86PageSize) s = None"
    using assms(1,2) run_fits [OF assms(4)] run_fits [OF assms(5)]
    by (auto simp: do_write_def do_read_def arr_simps split: option.split bind_split)
qed

end
