(* ===== verification/Comex_Rdma.thy ===== *)
theory Comex_Rdma
  imports Krping_Verbs
begin

unbundle bit_operations_syntax

text \<open>
  The commands a node sends (\<open>COMEX_module_lib.h\<close>: \<open>COMEX_RDMA_fn\<close>), the addresses of the write-out
  and read-in slots and the release of write-out slots (\<open>comex_remote.h\<close>), and the layout of the
  shared space: write-out slots of every node, then read-in slots, then the pages of the pool.
\<close>

section \<open>Where the slots are\<close>

abbreviation total_writeOut :: "'r node \<Rightarrow> int" where "total_writeOut s \<equiv> COMEX_total_writeOut (conf s)"
abbreviation total_readIn :: "'r node \<Rightarrow> int" where "total_readIn s \<equiv> COMEX_total_readIn (conf s)"
abbreviation total_nodes :: "'r node \<Rightarrow> int" where "total_nodes s \<equiv> COMEX_total_nodes (conf s)"

definition get_writeOut_buff :: "int \<Rightarrow> int \<Rightarrow> 'r node \<Rightarrow> u64" where
  "get_writeOut_buff node_ID buff_slot s =
     (let address = 0;
          address = address + of_int (i32 (node_ID * total_writeOut s));
          address = address + of_int buff_slot
      in address * X86PageSize)"

definition get_readIn_buff :: "int \<Rightarrow> 'r node \<Rightarrow> u64" where
  "get_readIn_buff buff_slot s =
     (let address = 0;
          address = address + of_int (i32 (total_writeOut s * total_nodes s));
          address = address + of_int buff_slot
      in address * X86PageSize)"

text \<open>The page of the shared space where each slot and each page of the pool is.\<close>

definition wo_page :: "int \<Rightarrow> int \<Rightarrow> 'r node \<Rightarrow> int" where
  "wo_page n k s = n * total_writeOut s + k"

definition ri_page :: "int \<Rightarrow> 'r node \<Rightarrow> int" where
  "ri_page k s = total_writeOut s * total_nodes s + k"

definition pool_page :: "int \<Rightarrow> 'r node \<Rightarrow> int" where
  "pool_page p s = total_writeOut s * total_nodes s + total_readIn s + p"

text \<open>Sizes that the arithmetic of the code can hold.\<close>

definition conf_ok :: "'r node \<Rightarrow> bool" where
  "conf_ok s \<longleftrightarrow> 0 < total_writeOut s \<and> total_writeOut s < 2 ^ 15 \<and> 0 < total_nodes s \<and>
     total_writeOut s * total_nodes s < 2 ^ 30 \<and> 0 < total_readIn s \<and> total_readIn s < 2 ^ 15"

lemma node_times_bound:
  assumes "conf_ok s" and "0 \<le> n" and "n < total_nodes s"
  shows "0 \<le> n * total_writeOut s" and "n * total_writeOut s + total_writeOut s \<le> total_writeOut s * total_nodes s"
proof -
  have "(n + 1) * total_writeOut s \<le> total_nodes s * total_writeOut s"
    using assms by (intro mult_right_mono) (simp_all add: conf_ok_def)
  then show "n * total_writeOut s + total_writeOut s \<le> total_writeOut s * total_nodes s"
    by (simp only: distrib_right mult_1 mult.commute [of "total_nodes s"])
  show "0 \<le> n * total_writeOut s" using assms by (simp add: conf_ok_def)
qed

lemma get_writeOut_buff_page:
  assumes "conf_ok s" and "0 \<le> n" and "n < total_nodes s"
  shows "get_writeOut_buff n k s = page_off (wo_page n k s)"
proof -
  have "n * total_writeOut s < 2 ^ 31" using node_times_bound [OF assms] assms(1) by (simp add: conf_ok_def)
  then have "i32 (n * total_writeOut s) = n * total_writeOut s" using node_times_bound(1) [OF assms] by simp
  then show ?thesis by (simp add: get_writeOut_buff_def page_off_def wo_page_def X86PageSize_def)
qed

lemma get_readIn_buff_page:
  assumes "conf_ok s"
  shows "get_readIn_buff k s = page_off (ri_page k s)"
proof -
  have "0 \<le> total_writeOut s * total_nodes s" "total_writeOut s * total_nodes s < 2 ^ 30"
    using assms by (auto simp: conf_ok_def)
  then have "i32 (total_writeOut s * total_nodes s) = total_writeOut s * total_nodes s" by simp
  then show ?thesis by (simp add: get_readIn_buff_def page_off_def ri_page_def X86PageSize_def)
qed

text \<open>No two slots share a page.\<close>

lemma wo_page_inj:
  assumes "wo_page n k s = wo_page m j s" and "0 \<le> k" and "k < total_writeOut s" and "0 \<le> j" and "j < total_writeOut s"
  shows "n = m \<and> k = j"
proof -
  have "wo_page n k s div total_writeOut s = n" "wo_page m j s div total_writeOut s = m"
    unfolding wo_page_def using assms(2-5) by (subst div_mult_self3; simp add: div_pos_pos_trivial)+
  then have "n = m" using assms(1) by metis
  moreover from this have "k = j" using assms(1) by (simp add: wo_page_def)
  ultimately show ?thesis ..
qed

lemma wo_page_bounds:
  assumes "conf_ok s" and "0 \<le> n" and "n < total_nodes s" and "0 \<le> k" and "k < total_writeOut s"
  shows "0 \<le> wo_page n k s" and "wo_page n k s < total_writeOut s * total_nodes s"
  using node_times_bound [OF assms(1-3)] assms(4,5) by (simp_all add: wo_page_def)

section \<open>Commands\<close>

definition COMEX_free_buff :: "int \<Rightarrow> int \<Rightarrow> int \<Rightarrow> 'r node \<Rightarrow> 'r node option" where
  "COMEX_free_buff node slot con_page s =
     for_up slot (slot + con_page)
       (\<lambda>i. wo_upd node i (\<lambda>d. d\<lparr>nodeID := -1, bpageNO := -1, status := -1\<rparr>)) s"

definition send_checked :: "'r ext \<Rightarrow> int \<Rightarrow> int \<Rightarrow> payload \<Rightarrow> int \<Rightarrow> 'r node \<Rightarrow> 'r node option" where
  "send_checked X i imm ptr sz s = do { (ret, s) \<leftarrow> universal_send X i imm ptr sz s; Some s }"

definition COMEX_RDMA_fn :: "'r ext \<Rightarrow> int \<Rightarrow> int \<Rightarrow> payload \<Rightarrow> int \<Rightarrow> 'r node \<Rightarrow> 'r node option" where
  "COMEX_RDMA_fn X target CMD ptr struct_size s =
     (if CMD = CODE_COMEX_PAGE_RQST then send_checked X target CMD ptr struct_size s
      else if CMD = CODE_COMEX_PAGE_RPLY then
        (case ptr of
           Reply p \<Rightarrow>
             if rsize p < 0 \<or> 31 \<le> rsize p then None
             else send_checked X (ID_to_CB target s) CMD ptr struct_size s
         | _ \<Rightarrow> None)
      else if CMD = CODE_COMEX_PAGE_WRTE then
        (case ptr of
           Address p \<Rightarrow> do {
             (ret, s) \<leftarrow> do_write X target (local_off p) (remote_off p + remote_shift_offset s)
               (of_int (asize p * 4096)) s;
             if ret \<noteq> 0 then Some s
             else COMEX_free_buff target (bufIDX p) (asize p) s
           }
         | _ \<Rightarrow> None)
      else if CMD = CODE_COMEX_PAGE_READ then
        (case ptr of
           Address p \<Rightarrow> do {
             (ret, s) \<leftarrow> do_read X target (local_off p) (remote_off p + remote_shift_offset s)
               (of_int (asize p * 4096)) s;
             Some s
           }
         | _ \<Rightarrow> None)
      else if CMD = CODE_COMEX_PAGE_FREE then send_checked X target CMD ptr struct_size s
      else if CMD = CODE_COMEX_PAGE_CKSM then send_checked X target CMD ptr struct_size s
      else Some s)"

text \<open>The call through the function pointer of the kernel.\<close>

definition COMEX_RDMA :: "'r ext \<Rightarrow> int \<Rightarrow> int \<Rightarrow> payload \<Rightarrow> int \<Rightarrow> 'r node \<Rightarrow> 'r node option" where
  "COMEX_RDMA X target CMD ptr struct_size s =
     (if hooked s then COMEX_RDMA_fn X target CMD ptr struct_size s else None)"

text \<open>The write-out slots after \<open>COMEX_free_buff\<close>.\<close>

definition no_desc :: "buff_desc_t \<Rightarrow> buff_desc_t" where
  "no_desc d = d\<lparr>nodeID := -1, bpageNO := -1, status := -1\<rparr>"

definition row_ok :: "int \<Rightarrow> 'r node \<Rightarrow> bool" where
  "row_ok n s \<longleftrightarrow> 0 \<le> n \<and> n < int (length (COMEX_writeOut_buff s)) \<and>
     length (COMEX_writeOut_buff s ! nat n) = nat (total_writeOut s)"

definition wo_at :: "int \<Rightarrow> int \<Rightarrow> 'r node \<Rightarrow> buff_desc_t" where
  "wo_at n k s = COMEX_writeOut_buff s ! nat n ! nat k"

definition set_row :: "int \<Rightarrow> buff_desc_t list \<Rightarrow> 'r node \<Rightarrow> 'r node" where
  "set_row n row s = s\<lparr>COMEX_writeOut_buff := (COMEX_writeOut_buff s)[nat n := row]\<rparr>"

lemma set_row_simps [simp]:
  "conf (set_row n row s) = conf s" "pool (set_row n row s) = pool s" "mem (set_row n row s) = mem s"
  "io (set_row n row s) = io s" "cbs (set_row n row s) = cbs s" "bigspace (set_row n row s) = bigspace s"
  "buff_pos (set_row n row s) = buff_pos s" "hooked (set_row n row s) = hooked s"
  "COMEX_free_group (set_row n row s) = COMEX_free_group s"
  "remote_shift_offset (set_row n row s) = remote_shift_offset s"
  "COMEX_readIn_buff (set_row n row s) = COMEX_readIn_buff s"
  "length (COMEX_writeOut_buff (set_row n row s)) = length (COMEX_writeOut_buff s)"
  by (simp_all add: set_row_def)

lemma row_ok_set_row [simp]:
  "row_ok n s \<Longrightarrow> length row = nat (total_writeOut s) \<Longrightarrow> row_ok m (set_row n row s) = row_ok m s"
  by (cases "nat m = nat n") (auto simp: row_ok_def set_row_def nth_list_update)

lemma wo_at_set_row:
  "row_ok n s \<Longrightarrow> 0 \<le> m \<Longrightarrow> wo_at m k (set_row n row s) = (if m = n then row ! nat k else wo_at m k s)"
  by (auto simp: row_ok_def wo_at_def set_row_def nth_list_update nat_eq_iff)

lemma wo_get_ok:
  assumes "row_ok n s" and "0 \<le> k" and "k < total_writeOut s"
  shows "wo_get n k s = Some (wo_at n k s)"
  using assms by (simp add: wo_get_def row_ok_def wo_at_def arr_simps)

lemma wo_upd_ok:
  assumes "row_ok n s" and "0 \<le> k" and "k < total_writeOut s"
  shows "wo_upd n k f s = Some (set_row n ((COMEX_writeOut_buff s ! nat n)[nat k := f (wo_at n k s)]) s)"
  using assms by (simp add: wo_upd_def row_ok_def wo_at_def arr_simps set_row_def)

definition clear_row :: "int \<Rightarrow> int \<Rightarrow> buff_desc_t list \<Rightarrow> buff_desc_t list" where
  "clear_row k c row = map (\<lambda>j. if k \<le> int j \<and> int j < k + c then no_desc (row ! j) else row ! j) [0..<length row]"

lemma length_clear_row [simp]: "length (clear_row k c row) = length row"
  by (simp add: clear_row_def)

lemma nth_clear_row [simp]:
  "j < length row \<Longrightarrow> clear_row k c row ! j = (if k \<le> int j \<and> int j < k + c then no_desc (row ! j) else row ! j)"
  by (simp add: clear_row_def)

lemma clear_row_none [simp]: "clear_row k 0 row = row"
  by (rule nth_equalityI) auto

lemma clear_row_step:
  "0 \<le> k \<Longrightarrow> 0 \<le> c \<Longrightarrow> k + c < int (length row) \<Longrightarrow>
     (clear_row k c row)[nat (k + c) := no_desc (row ! nat (k + c))] = clear_row k (c + 1) row"
proof (rule nth_equalityI)
  fix j assume h: "0 \<le> k" "0 \<le> c" "k + c < int (length row)"
    and "j < length ((clear_row k c row)[nat (k + c) := no_desc (row ! nat (k + c))])"
  then show "(clear_row k c row)[nat (k + c) := no_desc (row ! nat (k + c))] ! j = clear_row k (c + 1) row ! j"
    by (cases "int j = k + c") (auto simp: nth_list_update)
qed simp

lemma set_row_same [simp]: "row_ok n s \<Longrightarrow> set_row n (COMEX_writeOut_buff s ! nat n) s = s"
  by (simp add: set_row_def row_ok_def)

lemma set_row_set_row [simp]: "set_row n r2 (set_row n r1 s) = set_row n r2 s"
  by (simp add: set_row_def)

lemma row_set_row [simp]: "row_ok n s \<Longrightarrow> COMEX_writeOut_buff (set_row n row s) ! nat n = row"
  by (simp add: set_row_def row_ok_def nat_less_iff)

lemma COMEX_free_buff_ok:
  assumes "row_ok n s" and "0 \<le> k" and "0 \<le> c" and "k + c \<le> total_writeOut s"
  shows "COMEX_free_buff n k c s = Some (set_row n (clear_row k c (COMEX_writeOut_buff s ! nat n)) s)"
proof -
  let ?row = "COMEX_writeOut_buff s ! nat n"
  let ?P = "\<lambda>i t. t = set_row n (clear_row k (i - k) ?row) s"
  have len: "int (length ?row) = total_writeOut s" using assms by (simp add: row_ok_def)
  have "\<exists>t. for_up k (k + c) (\<lambda>i. wo_upd n i (\<lambda>d. d\<lparr>nodeID := -1, bpageNO := -1, status := -1\<rparr>)) s = Some t \<and>
      ?P (k + c) t"
  proof (rule for_up_rule [where P = ?P])
    fix i t assume i: "k \<le> i" "i < k + c" and t: "?P i t"
    have row: "row_ok n t" using assms(1) t len by (simp add: row_ok_def)
    have "wo_at n i t = ?row ! nat i"
      using i t assms len by (simp add: wo_at_def)
    then show "\<exists>t'. wo_upd n i (\<lambda>d. d\<lparr>nodeID := -1, bpageNO := -1, status := -1\<rparr>) t = Some t' \<and> ?P (i + 1) t'"
      using wo_upd_ok [OF row, of i] i t assms len clear_row_step [of k "i - k" ?row]
      by (simp add: no_desc_def algebra_simps)
  qed (use assms in simp_all)
  then show ?thesis by (simp add: COMEX_free_buff_def)
qed

section \<open>A write command that goes through\<close>

text \<open>The far space of connection \<open>n\<close>, and the address page \<open>p\<close> of the lender has there.\<close>

definition far_ok :: "int \<Rightarrow> 'r node \<Rightarrow> bool" where
  "far_ok n s \<longleftrightarrow> 0 \<le> n \<and> n < int (length (cbs s)) \<and> linked_up (cbs s ! nat n) \<and>
     apart (remote_addr (cbs s ! nat n)) \<and> 0 \<notin> set (remote_addr (cbs s ! nat n))"

definition shift_pages :: "'r node \<Rightarrow> int" where
  "shift_pages s = uint (remote_shift_offset s) div 4096"

definition far_addr :: "int \<Rightarrow> int \<Rightarrow> 'r node \<Rightarrow> u64" where
  "far_addr n p s = big_addr (remote_addr (cbs s ! nat n)) (p + shift_pages s)"

definition in_far :: "int \<Rightarrow> int \<Rightarrow> 'r node \<Rightarrow> bool" where
  "in_far n p s \<longleftrightarrow> 0 \<le> p \<and> page_ok (p + shift_pages s) \<and>
     (p + shift_pages s) div 1024 < int (length (remote_addr (cbs s ! nat n)))"

text \<open>The shift is whole big pages, as \<open>COMEX_init\<close> computes it.\<close>

definition shift_ok :: "'r node \<Rightarrow> bool" where
  "shift_ok s \<longleftrightarrow> remote_shift_offset s = page_off (shift_pages s) \<and> 1024 dvd shift_pages s \<and> 0 \<le> shift_pages s"

lemma shift_off: "shift_ok s \<Longrightarrow> push_bit 12 (of_int p) + remote_shift_offset s = page_off (p + shift_pages s)"
  by (simp add: shift_ok_def page_off_shift [symmetric]) (simp add: page_off_def distrib_right)

lemma shift_mod: "shift_ok s \<Longrightarrow> (p + shift_pages s) mod 1024 = p mod 1024"
  unfolding shift_ok_def by (auto elim!: dvdE)

lemma far_addr_run:
  assumes "shift_ok s" and "0 \<le> p" and "p mod 1024 + int k < 1024"
  shows "far_addr n (p + int k) s = far_addr n p s + of_nat k * X86PageSize"
  using big_addr_run [of "p + shift_pages s" k "remote_addr (cbs s ! nat n)"] assms shift_mod [OF assms(1), of p]
  by (simp add: far_addr_def shift_ok_def algebra_simps)

text \<open>
  The node after its initialisation: the module's functions are installed, the whole space has
  memory and is registered, and the slots lie inside it.
\<close>

definition ready :: "(u64 \<Rightarrow> u64) \<Rightarrow> 'r node \<Rightarrow> bool" where
  "ready virt s \<longleftrightarrow> hooked s \<and> conf_ok s \<and> shift_ok s \<and> cbs s \<noteq> [] \<and> registered virt (bigspace s) \<and>
     total_writeOut s * total_nodes s + total_readIn s \<le> 1024 * int (length (bufferpages (bigspace s))) \<and>
     1024 * int (length (bufferpages (bigspace s))) < 2 ^ 40"

definition here_addr :: "int \<Rightarrow> 'r node \<Rightarrow> u64" where
  "here_addr p s = big_addr (bufferpages (bigspace s)) p"

lemma ready_in_space:
  assumes "ready virt s" and "0 \<le> p" and "p < 1024 * int (length (bufferpages (bigspace s)))"
  shows "in_space (bigspace s) p"
  using assms by (simp add: ready_def in_space_def page_ok_def div_less_iff_less_mult mult.commute)

lemma ready_wo:
  assumes "ready virt s" and "0 \<le> n" and "n < total_nodes s" and "0 \<le> k" and "k < total_writeOut s"
  shows "in_space (bigspace s) (wo_page n k s)" and "get_writeOut_buff n k s = page_off (wo_page n k s)"
proof -
  have c: "conf_ok s" using assms(1) by (simp add: ready_def)
  show "get_writeOut_buff n k s = page_off (wo_page n k s)"
    using get_writeOut_buff_page [OF c assms(2,3)] .
  have "wo_page n k s < 1024 * int (length (bufferpages (bigspace s)))"
    using wo_page_bounds [OF c assms(2-5)] assms(1) by (simp add: ready_def conf_ok_def)
  then show "in_space (bigspace s) (wo_page n k s)"
    using ready_in_space [OF assms(1)] wo_page_bounds [OF c assms(2-5)] by simp
qed

lemma ready_ri:
  assumes "ready virt s" and "0 \<le> k" and "k < total_readIn s"
  shows "in_space (bigspace s) (ri_page k s)" and "get_readIn_buff k s = page_off (ri_page k s)"
proof -
  have c: "conf_ok s" using assms(1) by (simp add: ready_def)
  then have z: "0 \<le> total_writeOut s * total_nodes s" by (simp add: conf_ok_def)
  have "ri_page k s < 1024 * int (length (bufferpages (bigspace s)))"
    using assms by (simp add: ready_def ri_page_def)
  then show "in_space (bigspace s) (ri_page k s)"
    using ready_in_space [OF assms(1), of "ri_page k s"] z assms(2) by (simp add: ri_page_def)
  show "get_readIn_buff k s = page_off (ri_page k s)" using get_readIn_buff_page [OF c] .
qed

lemma offset_to_addr_page:
  assumes "ready virt s" and "in_space (bigspace s) p"
  shows "COMEX_offset_to_addr (page_off p) s = Some (here_addr p s)"
proof -
  have b: "p div 1024 < int (length (bufferpages (bigspace s)))" "page_ok p" using assms(2) by (simp_all add: in_space_def)
  then have "nat (p div 1024) < length (bufferpages (bigspace s))"
    by (simp add: page_ok_def nat_less_iff pos_imp_zdiv_nonneg_iff)
  then have "bufferpages (bigspace s) ! nat (p div 1024) \<noteq> 0"
    using assms(1) by (metis nth_mem ready_def registered_def)
  then show ?thesis
    using translate_page [OF b(2,1)] assms(1)
    by (simp add: COMEX_offset_to_addr_def COMEX_offset_to_addr_fn_def ready_def here_addr_def arr_get_def)
qed

lemma here_nonzero:
  assumes "ready virt s" and "in_space (bigspace s) p"
  shows "here_addr p s \<noteq> 0"
proof -
  have "nat (p div 1024) < length (bufferpages (bigspace s))"
    using assms(2) by (simp add: in_space_def page_ok_def nat_less_iff pos_imp_zdiv_nonneg_iff)
  moreover have "page_off (p mod 1024) < RPING_BUFSIZE" using page_in_big [of 0 p] by (simp add: X86PageSize_def)
  moreover have "\<forall>i < length (bufferpages (bigspace s)). \<forall>x < RPING_BUFSIZE. bufferpages (bigspace s) ! i + x \<noteq> 0"
    using assms(1) by (simp add: ready_def registered_def)
  ultimately show ?thesis by (simp add: here_addr_def big_addr_def)
qed

lemma here_disjoint:
  assumes "ready virt s" and "in_space (bigspace s) p" and "in_space (bigspace s) q" and "p \<noteq> q"
  shows "disj_pages (here_addr p s) (here_addr q s)"
proof -
  have n0: "bufferpages (bigspace s) ! nat (x div 1024) \<noteq> 0" if "in_space (bigspace s) x" for x
  proof -
    have "nat (x div 1024) < length (bufferpages (bigspace s))"
      using that by (simp add: in_space_def page_ok_def nat_less_iff pos_imp_zdiv_nonneg_iff)
    then show ?thesis using assms(1) by (metis nth_mem ready_def registered_def)
  qed
  show ?thesis
    unfolding here_addr_def using assms n0 [of p] n0 [of q]
    by (intro big_addr_disjoint) (simp_all add: ready_def registered_def in_space_def page_ok_def)
qed

lemma far_disjoint:
  assumes "far_ok n s" and "in_far n p s" and "in_far n q s" and "p \<noteq> q"
  shows "disj_pages (far_addr n p s) (far_addr n q s)"
proof -
  let ?t = "remote_addr (cbs s ! nat n)"
  have n0: "?t ! nat ((x + shift_pages s) div 1024) \<noteq> 0" if "in_far n x s" for x
  proof -
    have "nat ((x + shift_pages s) div 1024) < length ?t"
      using that by (simp add: in_far_def page_ok_def nat_less_iff pos_imp_zdiv_nonneg_iff)
    then show ?thesis using assms(1) by (metis nth_mem far_ok_def)
  qed
  show ?thesis
    unfolding far_addr_def using assms n0 [of p] n0 [of q]
    by (intro big_addr_disjoint) (simp_all add: far_ok_def in_far_def page_ok_def)
qed

lemma RDMA_write_run:
  assumes X: "rdma_transfers X virt rem up" and s: "ready virt s" and n: "far_ok n s" "row_ok n s" "n < total_nodes s"
    and up: "up (io s) n" and k: "0 \<le> k" "0 < c" "k + int c \<le> total_writeOut s"
    and run: "wo_page n k s mod 1024 + int c \<le> 1024" "p mod 1024 + int c \<le> 1024" and far: "in_far n p s"
  shows "\<exists>r. COMEX_RDMA X n CODE_COMEX_PAGE_WRTE
      (Address \<lparr>local_off = get_writeOut_buff n k s, remote_off = push_bit 12 (of_int p), asize = int c, bufIDX = k\<rparr>) sz s
     = Some (set_row n (clear_row k (int c) (COMEX_writeOut_buff s ! nat n)) (s\<lparr>io := r\<rparr>)) \<and>
    up r = up (io s) \<and>
    rem r = (rem (io s))(n := copy_from (mem s) (here_addr (wo_page n k s) s) (far_addr n p s)
      (of_nat c * X86PageSize) (rem (io s) n))"
proof -
  have n': "0 \<le> n" "n < int (length (cbs s))" using n(1) by (simp_all add: far_ok_def)
  have kw: "k < total_writeOut s" using k by simp
  note w = ready_wo [OF s n'(1) n(3) k(1) kw]
  have sh: "shift_ok s" "hooked s" using s by (simp_all add: ready_def)
  have t: "transfer_ok up virt n (wo_page n k s) (p + shift_pages s) c s"
    using n n' up s w(1) run far shift_mod [OF sh(1), of p]
    by (simp add: transfer_ok_def far_ok_def ready_def run_ok_def in_far_def in_space_def)
  have sz: "of_int (int c * 4096) = (of_nat c * X86PageSize :: u64)" by (simp add: X86PageSize_def)
  obtain r where r: "do_write X n (page_off (wo_page n k s)) (page_off (p + shift_pages s)) (of_nat c * X86PageSize) s
      = Some (0, s\<lparr>io := r\<rparr>)" "up r = up (io s)"
    "rem r = (rem (io s))(n := copy_from (mem s) (here_addr (wo_page n k s) s) (far_addr n p s)
      (of_nat c * X86PageSize) (rem (io s) n))"
    using do_write_run [OF X t] by (auto simp: here_addr_def far_addr_def)
  have "row_ok n (s\<lparr>io := r\<rparr>)" using n(2) by (simp add: row_ok_def)
  then have "COMEX_free_buff n k (int c) (s\<lparr>io := r\<rparr>) =
      Some (set_row n (clear_row k (int c) (COMEX_writeOut_buff s ! nat n)) (s\<lparr>io := r\<rparr>))"
    using COMEX_free_buff_ok [of n "s\<lparr>io := r\<rparr>" k "int c"] k by simp
  then show ?thesis
    using r sh(2) w(2) shift_off [OF sh(1), of p] sz
    by (intro exI [of _ r]) (simp add: COMEX_RDMA_def COMEX_RDMA_fn_def comex_codes)
qed

end
