(* ===== verification/Comex_Pool.thy ===== *)
theory Comex_Pool
  imports Comex_Buddy
begin

text \<open>
  The contract of the page pool.  The first section proves what \<open>COMEX_rmqueue_smallest\<close> and
  \<open>COMEX_free_page\<close> do to the set of free pages; the second states that contract as the locale
  \<open>page_allocator\<close>, proves in it what the clients need (draining the pool, giving back a list of
  pages, giving back what was taken) and interprets it on the code.
\<close>

section \<open>Allocation and release\<close>

lemma buddy_rep_frame:
  assumes "buddy_rep s A"
  shows "free_set s = free_pages (asets A)" and "buddy_inv s"
  using assms free_set_rep by (auto simp: buddy_inv_def)

lemma rmqueue_correct:
  assumes "buddy_rep s A" and "k < 11"
  shows "(\<forall>j. k \<le> j \<longrightarrow> j < 11 \<longrightarrow> A j = []) \<and> COMEX_rmqueue_smallest k s = Some (-1, s) \<or>
         (\<exists>r s' A'. COMEX_rmqueue_smallest k s = Some (r, s') \<and> buddy_rep s' A' \<and> npages s' = npages s \<and>
           0 \<le> r \<and> r + 2 ^ k \<le> npages s \<and> 2 ^ k dvd r \<and> blk k r \<subseteq> free_set s \<and>
           free_set s' = free_set s - blk k r)"
proof -
  let ?s = "s\<lparr>buddy_spin := True\<rparr>"
  have run: "COMEX_rmqueue_smallest k s = rmqueue_loop k k ?s"
    using assms(1) by (simp add: COMEX_rmqueue_smallest_def spin_lock_buddy_def buddy_rep_def)
  have un: "spin_unlock_buddy ?s = s"
    using assms(1) by (simp add: spin_unlock_buddy_def buddy_rep_def)
  have rep: "core_of ?s A" "areas (npages ?s) (asets A)"
    "counters (pages ?s) (npages ?s) (free_pages (asets A))" "1024 dvd npages ?s"
    using assms(1) by (simp_all add: buddy_rep_def)
  from rmqueue_loop_correct [OF rep assms(2), of k] show ?thesis
  proof
    assume "(\<forall>j. k \<le> j \<longrightarrow> j < 11 \<longrightarrow> A j = []) \<and> rmqueue_loop k k ?s = Some (-1, spin_unlock_buddy ?s)"
    then show ?thesis by (simp add: run un)
  next
    assume "\<exists>r s' A'. rmqueue_loop k k ?s = Some (r, s') \<and> buddy_rep s' A' \<and> npages s' = npages ?s \<and>
      0 \<le> r \<and> r + 2 ^ k \<le> npages ?s \<and> 2 ^ k dvd r \<and> blk k r \<subseteq> free_pages (asets A) \<and>
      free_pages (asets A') = free_pages (asets A) - blk k r"
    then obtain r s' A' where "rmqueue_loop k k ?s = Some (r, s')" "buddy_rep s' A'" "npages s' = npages s"
      "0 \<le> r" "r + 2 ^ k \<le> npages s" "2 ^ k dvd r" "blk k r \<subseteq> free_pages (asets A)"
      "free_pages (asets A') = free_pages (asets A) - blk k r" by auto
    then have "COMEX_rmqueue_smallest k s = Some (r, s') \<and> buddy_rep s' A' \<and> npages s' = npages s \<and>
        0 \<le> r \<and> r + 2 ^ k \<le> npages s \<and> 2 ^ k dvd r \<and> blk k r \<subseteq> free_set s \<and>
        free_set s' = free_set s - blk k r"
      using free_set_rep [OF assms(1)] free_set_rep [of s' A'] run by simp
    then show ?thesis by blast
  qed simp_all
qed

text \<open>
  When every list from order \<open>k\<close> on is empty, no aligned block of that order is free: two free
  buddies never stay apart.
\<close>

lemma no_block:
  assumes "buddy_rep s A" and "k < 11" and "\<forall>j. k \<le> j \<longrightarrow> j < 11 \<longrightarrow> A j = []" and "2 ^ k dvd p"
  shows "\<not> blk k p \<subseteq> free_set s"
proof
  assume "blk k p \<subseteq> free_set s"
  then have "blk k p \<subseteq> free_pages (asets A)" using free_set_rep [OF assms(1)] by simp
  moreover have "areas (npages s) (asets A)" using assms(1) by (simp add: buddy_rep_def)
  ultimately obtain j q where "k \<le> j" "j < 11" "q \<in> asets A j"
    using areas_complete [OF _ assms(4,2)] by blast
  then show False using assms(3) by simp
qed

lemma alloc_contract:
  assumes "buddy_inv s" and "k < 11"
  obtains (none) "COMEX_rmqueue_smallest k s = Some (-1, s)"
      and "\<And>p. 2 ^ k dvd p \<Longrightarrow> \<not> blk k p \<subseteq> free_set s"
    | (page) r s' where "COMEX_rmqueue_smallest k s = Some (r, s')" and "buddy_inv s'"
      and "npages s' = npages s" and "0 \<le> r" and "r + 2 ^ k \<le> npages s" and "2 ^ k dvd r"
      and "blk k r \<subseteq> free_set s" and "free_set s' = free_set s - blk k r"
proof -
  obtain A where A: "buddy_rep s A" using assms(1) by (auto simp: buddy_inv_def)
  from rmqueue_correct [OF A assms(2)] show thesis
    using no_block [OF A assms(2)] none page by (auto simp: buddy_inv_def) metis
qed

lemma counters_free:
  assumes "counters pg N F" and "0 \<le> p" and "p + 2 ^ k \<le> N" and "blk k p \<inter> F = {}"
  shows "p \<le> x \<Longrightarrow> x < p + 2 ^ k \<Longrightarrow> CMX_cntr (pg x) = 1"
  using assms by (auto simp: counters_def blk_def)

lemma free_page_correct:
  assumes A: "buddy_rep s A" and k: "k < 11" and p: "0 \<le> p" "p + 2 ^ k \<le> npages s" "2 ^ k dvd p"
    and dis: "blk k p \<inter> free_set s = {}"
  shows "\<exists>s' A'. COMEX_free_page p k s = Some s' \<and> buddy_rep s' A' \<and> npages s' = npages s \<and>
           free_set s' = free_set s \<union> blk k p"
proof -
  have F: "free_set s = free_pages (asets A)" using free_set_rep [OF A] .
  have rep: "core_of s A" "areas (npages s) (asets A)"
    "counters (pages s) (npages s) (free_pages (asets A))" "1024 dvd npages s" "\<not> buddy_spin s"
    using A by (simp_all add: buddy_rep_def)
  let ?s0 = "s\<lparr>buddy_spin := True\<rparr>"
  let ?s1 = "?s0\<lparr>pages := bump p (p + 2 ^ k) (-1) (pages s)\<rparr>"
  have c1: "CMX_cntr (pages s x) = 1" if "p \<le> x" "x < p + 2 ^ k" for x
    using counters_free [OF rep(3) p(1,2)] dis F that by simp
  have pN: "p < npages s" using p zero_less_power [of "2 :: int" k] by linarith
  have ck: "COMEX_checkCtr p k (-1) ?s0 = Some (1, ?s1)"
    unfolding COMEX_checkCtr_def using checkCtr_loop_ok [of p "2 ^ k" ?s0 0 "-1"] p c1 by simp
  have core1: "core_of ?s1 A" using core_cntr [OF rep(1)] by simp
  have l: "loose (npages ?s1) (asets A) k p" using rep(2) k p dis F by (simp add: loose_def)
  obtain p' k' s2 A2 where w: "free_loop p (take_bit 11 p) k ?s1 = Some (p', k', s2)" "core_of s2 A2"
    "loose (npages s) (asets A2) k' p'" "k' < 10 \<longrightarrow> buddy_of k' p' \<notin> set (A2 k')" "frame ?s1 s2"
    "free_pages (asets A2) \<union> blk k' p' = free_pages (asets A) \<union> blk k p"
    using free_loop_correct [OF core1 l] rep(4) by auto
  have n2: "npages s2 = npages s" and cn: "\<And>x. CMX_cntr (pages s2 x) = CMX_cntr (pages ?s1 x)"
    using w(5) by (auto simp: frame_def)
  have k': "k' < 11" and p': "0 \<le> p'" "p' < npages s"
    using w(3) zero_less_power [of "2 :: int" k'] unfolding loose_def by linarith+
  let ?s3 = "s2\<lparr>pages := (pages s2)(p' := (pages s2 p')\<lparr>priv := int k', mapcount := -128\<rparr>),
      links := COMEX_list_add_tail (Lru p') (Head k') (links s2),
      nr_free := (nr_free s2)(k' := nr_free s2 k' + 1), buddy_spin := False\<rparr>"
  let ?A = "A2(k' := A2 k' @ [p'])"
  have no: "pageNO (bump p (p + 2 ^ k) (-1) (pages s) p) = p" using rep(1) pN p by (simp add: core_def)
  have mask: "p AND (2 ^ COMEX_MAX_ORDER - 1) = take_bit 11 p"
    by (simp add: take_bit_eq_mask mask_eq_exp_minus_1 COMEX_MAX_ORDER_def)
  have run: "COMEX_free_page p k s = Some ?s3"
    unfolding COMEX_free_page_def
    using ck rep(5) p pN no mask w(1) p' n2
    by (simp add: spin_lock_buddy_def page_at_def Let_def COMEX_set_page_order_def page_upd_def
        nr_free_add_def spin_unlock_buddy_def)
  have fresh: "\<forall>g<11. p' \<notin> set (A2 g)" using loose_not_in [OF w(3)] by simp
  have core3: "core_of ?s3 ?A" using core_push_tail [OF w(2) k' fresh] by (simp del: fun_upd_apply)
  have sets: "asets ?A = (asets A2)(k' := insert p' (asets A2 k'))" by simp
  have ar3: "areas (npages ?s3) (asets ?A)"
    unfolding sets using areas_put [OF w(3)] w(4) n2 by simp
  have F3: "free_pages (asets ?A) = free_pages (asets A) \<union> blk k p"
    unfolding sets using free_pages_insert [OF k', of "asets A2" p'] w(6) by simp
  have "counters (pages ?s3) (npages s) (free_pages (asets A) \<union> blk k p)"
    using rep(3) c1 cn by (auto simp: counters_def bump_def blk_def)
  then have "buddy_rep ?s3 ?A"
    using core3 ar3 F3 rep(4) n2 by (simp add: buddy_rep_def)
  then show ?thesis
    using run n2 F3 F free_set_rep [of ?s3 ?A] by (intro exI [of _ ?s3] exI [of _ ?A]) simp
qed

lemma free_contract:
  assumes "buddy_inv s" and "k < 11" and "0 \<le> p" and "p + 2 ^ k \<le> npages s" and "2 ^ k dvd p"
    and "blk k p \<inter> free_set s = {}"
  obtains s' where "COMEX_free_page p k s = Some s'" and "buddy_inv s'" and "npages s' = npages s"
    and "free_set s' = free_set s \<union> blk k p"
proof -
  obtain A where "buddy_rep s A" using assms(1) by (auto simp: buddy_inv_def)
  from free_page_correct [OF this assms(2-6)] show thesis
    using that by (auto simp: buddy_inv_def)
qed

section \<open>The contract and its clients\<close>

text \<open>
  \<open>while (ret >= 0) ret = COMEX_rmqueue_smallest(0);\<close> of \<open>COMEX_init_ENV\<close>: \<^term>\<open>None\<close> if it
  never ends.
\<close>

partial_function (option) drain_loop :: "('s \<Rightarrow> (int \<times> 's) option) \<Rightarrow> int \<Rightarrow> 's \<Rightarrow> 's option" where
  "drain_loop alloc ret s =
     (if 0 \<le> ret then Option.bind (alloc s) (\<lambda>(ret, s). drain_loop alloc ret s) else Some s)"

locale page_allocator =
  fixes inv :: "'s \<Rightarrow> bool"
    and free_of :: "'s \<Rightarrow> int set"
    and total :: "'s \<Rightarrow> int"
    and alloc :: "nat \<Rightarrow> 's \<Rightarrow> (int \<times> 's) option"
    and release :: "int \<Rightarrow> nat \<Rightarrow> 's \<Rightarrow> 's option"
  assumes range: "inv s \<Longrightarrow> free_of s \<subseteq> {0..<total s}"
    and alloc: "inv s \<Longrightarrow> k < 11 \<Longrightarrow>
      alloc k s = Some (-1, s) \<and> (\<forall>p. 2 ^ k dvd p \<longrightarrow> \<not> blk k p \<subseteq> free_of s) \<or>
      (\<exists>r s'. alloc k s = Some (r, s') \<and> inv s' \<and> total s' = total s \<and> 0 \<le> r \<and> r + 2 ^ k \<le> total s \<and>
        2 ^ k dvd r \<and> blk k r \<subseteq> free_of s \<and> free_of s' = free_of s - blk k r)"
    and release: "inv s \<Longrightarrow> k < 11 \<Longrightarrow> 0 \<le> p \<Longrightarrow> p + 2 ^ k \<le> total s \<Longrightarrow> 2 ^ k dvd p \<Longrightarrow>
      blk k p \<inter> free_of s = {} \<Longrightarrow>
      \<exists>s'. release p k s = Some s' \<and> inv s' \<and> total s' = total s \<and> free_of s' = free_of s \<union> blk k p"
begin

lemma alloc_finds:
  assumes "inv s" and "k < 11" and "2 ^ k dvd p" and "blk k p \<subseteq> free_of s"
  shows "\<exists>r s'. alloc k s = Some (r, s') \<and> inv s' \<and> total s' = total s \<and> 0 \<le> r \<and>
     blk k r \<subseteq> free_of s \<and> free_of s' = free_of s - blk k r"
  using alloc [OF assms(1,2)] assms(3,4) by blast

lemma alloc_some:
  assumes "inv s" and "k < 11" and "alloc k s = Some (r, s')" and "0 \<le> r"
  shows "inv s'" and "total s' = total s" and "r + 2 ^ k \<le> total s" and "2 ^ k dvd r"
    and "blk k r \<subseteq> free_of s" and "free_of s' = free_of s - blk k r"
  using alloc [OF assms(1,2)] assms(3,4) by auto

lemma alloc_none:
  assumes "inv s" and "k < 11" and "alloc k s = Some (r, s')" and "r < 0"
  shows "s' = s" and "r = -1" and "2 ^ k dvd p \<Longrightarrow> \<not> blk k p \<subseteq> free_of s"
  using alloc [OF assms(1,2)] assms(3,4) by auto

lemma alloc_sign:
  assumes "inv s" and "k < 11" and "alloc k s = Some (r, s')"
  shows "r = -1 \<or> 0 \<le> r"
  using alloc [OF assms(1,2)] assms(3) by auto

lemma alloc_fails_iff:
  assumes "inv s" and "k < 11" and "alloc k s = Some (r, s')"
  shows "r = -1 \<longleftrightarrow> (\<forall>p. 2 ^ k dvd p \<longrightarrow> \<not> blk k p \<subseteq> free_of s)"
proof (cases "0 \<le> r")
  case True
  then show ?thesis using alloc_some(4,5) [OF assms] by (intro iffI) (simp, blast)
next
  case False
  then have r: "r < 0" by simp
  show ?thesis using alloc_none(2,3) [OF assms r] by blast
qed

lemma alloc_total: "inv s \<Longrightarrow> k < 11 \<Longrightarrow> \<exists>r s'. alloc k s = Some (r, s') \<and> inv s' \<and> total s' = total s"
  using alloc [of s k] by blast

lemma alloc_release:
  assumes "inv s" and "k < 11" and "alloc k s = Some (r, s')" and "0 \<le> r"
  shows "\<exists>t. release r k s' = Some t \<and> inv t \<and> total t = total s \<and> free_of t = free_of s"
  using release [of s' k r] alloc_some [OF assms] assms(2,4) by auto

lemma finite_free: "inv s \<Longrightarrow> finite (free_of s)"
  using range [of s] finite_subset [of "free_of s" "{0..<total s}"] by simp

lemma drain:
  assumes "inv s" and "0 \<le> ret"
  shows "\<exists>t. drain_loop (alloc 0) ret s = Some t \<and> inv t \<and> total t = total s \<and> free_of t = {}"
  using assms
proof (induction "card (free_of s)" arbitrary: s ret rule: less_induct)
  case less
  show ?case
  proof (cases "alloc 0 s = Some (-1, s)")
    case True
    then have "free_of s = {}" using alloc_none(3) [OF less.prems(1) _ True] by auto
    moreover have "drain_loop (alloc 0) ret s = Some s"
      using True less.prems(2) by (subst drain_loop.simps) (simp add: drain_loop.simps)
    ultimately show ?thesis using less.prems by simp
  next
    case False
    then obtain r s' where r: "alloc 0 s = Some (r, s')" "inv s'" "total s' = total s" "0 \<le> r"
      "r \<in> free_of s" "free_of s' = free_of s - {r}"
      using alloc [OF less.prems(1), of 0] by auto
    have "card (free_of s') < card (free_of s)"
      using r finite_free [OF less.prems(1)] by (metis card_Diff1_less)
    then obtain t where "drain_loop (alloc 0) r s' = Some t" "inv t" "total t = total s'" "free_of t = {}"
      using less.hyps r(2,4) by blast
    then show ?thesis using r less.prems by (subst drain_loop.simps) simp
  qed
qed

lemma release_each:
  assumes "inv s" and "0 \<le> a" and "a \<le> b" and "b \<le> total s" and "{a..<b} \<inter> free_of s = {}"
  shows "\<exists>t. for_up a b (\<lambda>i u. if Q i then release i 0 u else Some u) s = Some t \<and> inv t \<and>
     total t = total s \<and> free_of t = free_of s \<union> {i. a \<le> i \<and> i < b \<and> Q i}"
proof -
  let ?P = "\<lambda>j u. inv u \<and> total u = total s \<and> free_of u = free_of s \<union> {i. a \<le> i \<and> i < j \<and> Q i}"
  show ?thesis
  proof (rule for_up_rule [where P = ?P])
    fix i u assume i: "a \<le> i" "i < b" and u: "?P i u"
    have ext: "{j. a \<le> j \<and> j < i + 1 \<and> Q j} = {j. a \<le> j \<and> j < i \<and> Q j} \<union> (if Q i then {i} else {})"
      using i by (auto simp: less_le)
    have "i \<notin> free_of u" using u i assms(5) by auto
    then show "\<exists>u'. (if Q i then release i 0 u else Some u) = Some u' \<and> ?P (i + 1) u'"
      using release [of u 0 i] u i assms(2,4) by (auto simp: ext)
  qed (use assms in auto)
qed

end

interpretation cpool: page_allocator buddy_inv free_set npages COMEX_rmqueue_smallest COMEX_free_page
proof
  fix s :: comex_buddy
  show "free_set s \<subseteq> {0..<npages s}" by (auto simp: free_set_def)
next
  fix s k assume "buddy_inv s" and "k < (11 :: nat)"
  then show "COMEX_rmqueue_smallest k s = Some (-1, s) \<and> (\<forall>p. 2 ^ k dvd p \<longrightarrow> \<not> blk k p \<subseteq> free_set s) \<or>
      (\<exists>r s'. COMEX_rmqueue_smallest k s = Some (r, s') \<and> buddy_inv s' \<and> npages s' = npages s \<and> 0 \<le> r \<and>
        r + 2 ^ k \<le> npages s \<and> 2 ^ k dvd r \<and> blk k r \<subseteq> free_set s \<and> free_set s' = free_set s - blk k r)"
    by (rule alloc_contract) auto
next
  fix s k p assume "buddy_inv s" and "k < (11 :: nat)" and "0 \<le> p" and "p + 2 ^ k \<le> npages s"
    and "2 ^ k dvd p" and "blk k p \<inter> free_set s = {}"
  then show "\<exists>s'. COMEX_free_page p k s = Some s' \<and> buddy_inv s' \<and> npages s' = npages s \<and>
      free_set s' = free_set s \<union> blk k p"
    by (rule free_contract) auto
qed

section \<open>Properties\<close>

text \<open>A pool with every page in use, as \<open>COMEX_init_ENV\<close> sets it up.\<close>

definition pool_used :: "int \<Rightarrow> comex_buddy" where
  "pool_used n = \<lparr>links = \<lparr>nxt = \<lambda>x. x, prv = \<lambda>x. x\<rparr>, nr_free = \<lambda>_. 0,
     pages = (\<lambda>i. \<lparr>pageNO = i, priv = 0, mapcount = -1, CMX_cntr = 1\<rparr>), npages = n, buddy_spin = False\<rparr>"

lemma free_pages_empty [simp]: "free_pages (asets (\<lambda>_. [])) = {}"
  by (simp add: free_pages_def)

lemma buddy_inv_used:
  assumes "\<And>k. k < 11 \<Longrightarrow> nxt (links s) (Head k) = Head k \<and> prv (links s) (Head k) = Head k"
    and "\<And>k. k < 11 \<Longrightarrow> nr_free s k = 0"
    and "\<And>i. 0 \<le> i \<Longrightarrow> i < npages s \<Longrightarrow> pages s i = \<lparr>pageNO = i, priv = 0, mapcount = -1, CMX_cntr = 1\<rparr>"
    and "1024 dvd npages s" and "\<not> buddy_spin s"
  shows "buddy_inv s" and "free_set s = {}"
proof -
  have "buddy_rep s (\<lambda>_. [])"
    using assms lists_hold_init [of "{..<11}" "links s"]
    by (simp add: buddy_rep_def core_def areas_def counters_def tagged_def)
  then show "buddy_inv s" and "free_set s = {}"
    using buddy_rep_frame by auto
qed

lemma pool_used: "1024 dvd n \<Longrightarrow> buddy_inv (pool_used n) \<and> free_set (pool_used n) = {} \<and> npages (pool_used n) = n"
  using buddy_inv_used [of "pool_used n"] by (simp add: pool_used_def)

lemma pool_one_block:
  obtains s where "COMEX_free_page 0 10 (pool_used 1024) = Some s" and "buddy_inv s" and "npages s = 1024"
    and "free_set s = blk 10 0"
proof -
  have "blk 10 0 \<inter> free_set (pool_used 1024) = {}" "0 + 2 ^ 10 \<le> npages (pool_used 1024)"
    using pool_used [of 1024] by simp_all
  with pool_used [of 1024] obtain s where "COMEX_free_page 0 10 (pool_used 1024) = Some s" "buddy_inv s"
    "npages s = npages (pool_used 1024)" "free_set s = free_set (pool_used 1024) \<union> blk 10 0"
    by (auto elim: free_contract [of "pool_used 1024" 10 0])
  then show thesis using pool_used [of 1024] that [of s] by simp
qed

text \<open>
  C8: from a well-formed pool an allocation of any order below 11 always returns; it either answers
  \<open>-1\<close> and changes nothing, or takes exactly one aligned block out of the free pages, and the pool
  stays well-formed (lists, tags, counters, coalescing, lock released).
\<close>

theorem alloc_takes_one_block:
  assumes "buddy_inv s" and "order < 11"
  shows "\<exists>r s'. COMEX_rmqueue_smallest order s = Some (r, s') \<and> buddy_inv s' \<and> npages s' = npages s \<and>
    (r = -1 \<and> s' = s \<or>
     0 \<le> r \<and> r + 2 ^ order \<le> npages s \<and> 2 ^ order dvd r \<and> blk order r \<subseteq> free_set s \<and>
       free_set s' = free_set s - blk order r)"
  using cpool.alloc [OF assms] assms(1) by blast

theorem alloc_takes_one_block_witness:
  "\<exists>s r s'. free_set s = {0..<1024} \<and> COMEX_rmqueue_smallest 3 s = Some (r, s') \<and> buddy_inv s'"
proof -
  obtain s where "buddy_inv s" "free_set s = blk 10 0" by (rule pool_one_block)
  then show ?thesis using alloc_takes_one_block [of s 3] by (auto simp: blk_def)
qed

text \<open>
  C10: an allocation fails only when there is no room: the answer is \<open>-1\<close> exactly when no aligned
  block of the order is entirely free.  Fragmentation never hides a free block, because
  \<open>COMEX_free_page\<close> merges every pair of free buddies.
\<close>

theorem alloc_fails_only_without_room:
  assumes "buddy_inv s" and "order < 11" and "COMEX_rmqueue_smallest order s = Some (r, s')"
  shows "r = -1 \<longleftrightarrow> (\<forall>p. 2 ^ order dvd p \<longrightarrow> \<not> blk order p \<subseteq> free_set s)"
  by (rule cpool.alloc_fails_iff [OF assms])

theorem alloc_fails_only_without_room_witness:
  "\<exists>s s'. COMEX_rmqueue_smallest 10 s = Some (-1, s') \<and> (\<forall>p. 2 ^ 10 dvd p \<longrightarrow> \<not> blk 10 p \<subseteq> free_set s)"
proof -
  have u: "buddy_inv (pool_used 1024)" "free_set (pool_used 1024) = {}" using pool_used [of 1024] by simp_all
  obtain r s' where r: "COMEX_rmqueue_smallest 10 (pool_used 1024) = Some (r, s')"
    using cpool.alloc_total [OF u(1), of 10] by auto
  then have "r = -1" using alloc_fails_only_without_room [OF u(1) _ r] u(2) blk_self by auto
  then show ?thesis using r u(2) blk_self by (metis empty_iff subset_empty)
qed

text \<open>
  C9: giving back an aligned block none of whose pages is free adds exactly that block to the free
  pages and keeps the pool well-formed, whatever merging it triggers.
\<close>

theorem free_returns_block:
  assumes "buddy_inv s" and "order < 11" and "0 \<le> p" and "p + 2 ^ order \<le> npages s"
    and "2 ^ order dvd p" and "blk order p \<inter> free_set s = {}"
  shows "\<exists>s'. COMEX_free_page p order s = Some s' \<and> buddy_inv s' \<and> npages s' = npages s \<and>
    free_set s' = free_set s \<union> blk order p"
  by (rule cpool.release [OF assms])

theorem free_returns_block_witness:
  "\<exists>s'. COMEX_free_page 8 3 (pool_used 1024) = Some s' \<and> buddy_inv s' \<and> free_set s' = {8..<16}"
  using free_returns_block [of "pool_used 1024" 3 8] pool_used [of 1024] by (auto simp: blk_def)

text \<open>
  A block that was allocated and is given back with the same order leaves the pool with the
  free pages it had before.
\<close>

theorem alloc_free_roundtrip:
  assumes "buddy_inv s" and "order < 11" and "COMEX_rmqueue_smallest order s = Some (p, s')" and "p \<noteq> -1"
  shows "\<exists>t. COMEX_free_page p order s' = Some t \<and> buddy_inv t \<and> npages t = npages s \<and> free_set t = free_set s"
proof (rule cpool.alloc_release [OF assms(1-3)])
  show "0 \<le> p" using cpool.alloc_sign [OF assms(1-3)] assms(4) by simp
qed

theorem alloc_free_roundtrip_witness:
  "\<exists>s p s' t. COMEX_rmqueue_smallest 4 s = Some (p, s') \<and> COMEX_free_page p 4 s' = Some t \<and>
     free_set t = {0..<1024}"
proof -
  obtain s where s: "buddy_inv s" "free_set s = blk 10 0" by (rule pool_one_block)
  have "blk 4 0 \<subseteq> free_set s" unfolding s(2) by (auto simp: blk_def)
  then obtain p s' where p: "COMEX_rmqueue_smallest 4 s = Some (p, s')" "0 \<le> p"
    using cpool.alloc_finds [OF s(1), of 4 0] by auto
  then have "p \<noteq> -1" by simp
  from alloc_free_roundtrip [OF s(1) _ p(1) this] show ?thesis
    using p(1) s(2) by (auto simp: blk_def)
qed

lemma free_twice:
  assumes "buddy_inv s" and "p \<in> free_set s"
  shows "\<exists>s'. COMEX_free_page p 0 s = Some s' \<and> links s' = links s \<and> nr_free s' = nr_free s \<and>
    CMX_cntr (pages s' p) = -1 \<and> \<not> buddy_inv s'"
proof -
  obtain A where A: "buddy_rep s A" using assms(1) by (auto simp: buddy_inv_def)
  have p: "0 \<le> p" "p < npages s" "CMX_cntr (pages s p) = 0" using assms(2) by (simp_all add: free_set_def)
  let ?s = "s\<lparr>buddy_spin := False, pages := (pages s)(p := (pages s p)\<lparr>CMX_cntr := -1\<rparr>)\<rparr>"
  have "COMEX_free_page p 0 s = Some ?s"
    using A p by (simp add: COMEX_free_page_def spin_lock_buddy_def buddy_rep_def COMEX_checkCtr_def
        checkCtr_loop.simps page_upd_def page_at_def spin_unlock_buddy_def)
  moreover have "\<not> buddy_inv ?s"
  proof
    assume "buddy_inv ?s"
    then obtain B where "counters (pages ?s) (npages ?s) (free_pages (asets B))"
      by (auto simp: buddy_inv_def buddy_rep_def)
    then have "CMX_cntr (pages ?s p) = (if p \<in> free_pages (asets B) then 0 else 1)"
      using p unfolding counters_def by (elim allE [of _ p]) simp
    then show False by (simp split: if_splits)
  qed
  ultimately show ?thesis by (intro exI [of _ ?s]) simp
qed

text \<open>
  A page that is given back twice is not entered twice in the lists, but the refused release
  has already decremented its counter: it is left at \<open>-1\<close>, the pool is no longer well-formed, and
  nothing in the code ever repairs the counter.
\<close>

theorem double_free_breaks_counter:
  assumes "buddy_inv s" and "p \<in> free_set s"
  shows "\<exists>s'. COMEX_free_page p 0 s = Some s' \<and> links s' = links s \<and> nr_free s' = nr_free s \<and>
    CMX_cntr (pages s' p) = -1 \<and> \<not> buddy_inv s'"
  using assms by (rule free_twice)

theorem double_free_breaks_counter_witness:
  "\<exists>s s'. COMEX_free_page 0 10 (pool_used 1024) = Some s \<and> COMEX_free_page 5 0 s = Some s' \<and>
     CMX_cntr (pages s' 5) = -1 \<and> \<not> buddy_inv s'"
proof -
  obtain s where s: "COMEX_free_page 0 10 (pool_used 1024) = Some s" "buddy_inv s" "free_set s = blk 10 0"
    by (rule pool_one_block)
  have "5 \<in> free_set s" by (simp add: s(3) blk_def)
  from double_free_breaks_counter [OF s(2) this] show ?thesis using s(1) by auto
qed

end
