(* ===== verification/Comex_Lend.thy ===== *)
theory Comex_Lend
  imports Comex_Rdma Comex_Pool
begin

unbundle bit_operations_syntax

text \<open>
  Lending pages (\<open>comex_remote.h\<close>): a node asks the others for pages (\<open>CODE_COMEX_PAGE_RQST\<close>), a
  lender takes a block out of its pool and replies (\<open>COMEX_pages_request\<close>), the borrower files the
  block (\<open>COMEX_page_receive\<close>) and takes single pages out of it (\<open>COMEX_freelist_getpage\<close>).  The
  ranges filed for a lender are shown to be a queue of page numbers.
\<close>

section \<open>The code\<close>

definition COMEX_page_receive :: "'r ext \<Rightarrow> int \<Rightarrow> int \<Rightarrow> int \<Rightarrow> 'r node \<Rightarrow> 'r node option" where
  "COMEX_page_receive X n pg group_size s = do {
     fg \<leftarrow> arr_get (COMEX_free_group s) n;
     if mutex_FG fg then None
     else do {
       s \<leftarrow> fg_upd n (\<lambda>g. g\<lparr>mutex_FG := True\<rparr>) s;
       let (oom, s) = (if pg \<ge> 0
         then (let (p, r) = kmalloc X 24 (io s) in (p = 0, s\<lparr>io := r\<rparr>))
         else (False, s));
       if oom then Some s
       else do {
         s \<leftarrow> (if pg \<ge> 0 then
             if group_size < 0 \<or> 31 \<le> group_size then None
             else fg_upd n (\<lambda>g. g\<lparr>free_group := free_group g @ [(pg, pg + 2 ^ nat group_size - 1)],
                 total_page := total_page g + 2 ^ nat group_size, back_off := 0\<rparr>) s
           else Some s);
         s \<leftarrow> (if group_size \<le> COMEX_refill (conf s) - 2 \<or> pg < 0
           then fg_upd n (\<lambda>g. g\<lparr>back_off := 100000\<rparr>) s else Some s);
         fg_upd n (\<lambda>g. g\<lparr>mutex_FG := False\<rparr>) s
       }
     }
   }"

text \<open>
  \<open>list_entry\<close> of an empty list is the list head taken for a \<open>free_group_t\<close>: no value.
\<close>

definition COMEX_freelist_getpage :: "int \<Rightarrow> 'r node \<Rightarrow> (int \<times> 'r node) option" where
  "COMEX_freelist_getpage list_ID s = do {
     fg \<leftarrow> arr_get (COMEX_free_group s) list_ID;
     case free_group fg of
       [] \<Rightarrow> None
     | (page_start, page_end) # rest \<Rightarrow> do {
         let ret_pageNO = page_start;
         let page_start = page_start + 1;
         s \<leftarrow> fg_upd list_ID (\<lambda>g. g\<lparr>free_group :=
             (if page_start > page_end then rest else (page_start, page_end) # rest)\<rparr>) s;
         s \<leftarrow> fg_upd list_ID (\<lambda>g. g\<lparr>total_page := total_page g - 1\<rparr>) s;
         Some (ret_pageNO, s)
       }
   }"

text \<open>The pool of the node under an operation of \<open>comex_buddy.h\<close>.\<close>

definition node_alloc :: "nat \<Rightarrow> 'r node \<Rightarrow> (int \<times> 'r node) option" where
  "node_alloc order s = do { (r, b) \<leftarrow> COMEX_rmqueue_smallest order (pool s); Some (r, s\<lparr>pool := b\<rparr>) }"

definition node_free :: "int \<Rightarrow> nat \<Rightarrow> 'r node \<Rightarrow> 'r node option" where
  "node_free pg order s = do { b \<leftarrow> COMEX_free_page pg order (pool s); Some (s\<lparr>pool := b\<rparr>) }"

function request_loop :: "int \<Rightarrow> int \<Rightarrow> 'r node \<Rightarrow> (int \<times> int \<times> 'r node) option" where
  "request_loop pno i s =
     (if pno < 0 \<and> i > 5 then do {
        let i = i - 1;
        (pno, s) \<leftarrow> node_alloc (nat i) s;
        request_loop pno i s
      } else Some (pno, i, s))"
  by pat_completeness auto
termination
  by (relation "measure (\<lambda>(pno, i, s). nat i)") auto

declare request_loop.simps [simp del]

text \<open>The loop with the first attempt, up to the reply.\<close>

definition pick_block :: "'r node \<Rightarrow> (int \<times> int \<times> 'r node) option" where
  "pick_block s = do {
     let i = COMEX_refill (conf s);
     (pno, s) \<leftarrow> node_alloc (nat i) s;
     request_loop pno i s
   }"

definition COMEX_pages_request :: "'r ext \<Rightarrow> int \<Rightarrow> 'r node \<Rightarrow> 'r node option" where
  "COMEX_pages_request X target s = do {
     let src = COMEX_ID (conf s);
     (pno, i, s) \<leftarrow> pick_block s;
     COMEX_RDMA X target CODE_COMEX_PAGE_RPLY (Reply \<lparr>src_node = src, page_no = pno, rsize = i\<rparr>) 12 s
   }"

section \<open>A queue of borrowed pages\<close>

definition pages_of :: "(int \<times> int) list \<Rightarrow> int list" where
  "pages_of gs = concat (map (\<lambda>(a, b). [a..b]) gs)"

definition lend_ok :: "COMEX_R_free_group_t \<Rightarrow> bool" where
  "lend_ok g \<longleftrightarrow> total_page g = int (length (pages_of (free_group g))) \<and>
     (\<forall>(a, b) \<in> set (free_group g). 0 \<le> a \<and> a \<le> b)"

lemma pages_of_simps [simp]:
  "pages_of [] = []" "pages_of ((a, b) # gs) = [a..b] @ pages_of gs" "pages_of (gs @ hs) = pages_of gs @ pages_of hs"
  by (simp_all add: pages_of_def)

text \<open>
  A family of queues, one per lender: what the borrower relies on when it files a block and takes
  pages.
\<close>

locale page_queues =
  fixes ok :: "'s \<Rightarrow> int \<Rightarrow> bool"
    and queue :: "'s \<Rightarrow> int \<Rightarrow> int list"
    and avail :: "'s \<Rightarrow> int \<Rightarrow> int"
    and put :: "int \<Rightarrow> int \<Rightarrow> int \<Rightarrow> 's \<Rightarrow> 's option"
    and take :: "int \<Rightarrow> 's \<Rightarrow> (int \<times> 's) option"
  assumes avail: "ok s n \<Longrightarrow> avail s n = int (length (queue s n))"
    and valid: "ok s n \<Longrightarrow> p \<in> set (queue s n) \<Longrightarrow> 0 \<le> p"
    and put: "ok s n \<Longrightarrow> 0 \<le> p \<Longrightarrow> 0 \<le> k \<Longrightarrow> k < 31 \<Longrightarrow> put n p k s = Some s' \<Longrightarrow>
      queue s' n = queue s n \<or> queue s' n = queue s n @ [p..p + 2 ^ nat k - 1] \<and> ok s' n"
    and take: "ok s n \<Longrightarrow> queue s n = p # ps \<Longrightarrow>
      \<exists>s'. take n s = Some (p, s') \<and> ok s' n \<and> queue s' n = ps \<and> (\<forall>m. 0 \<le> m \<longrightarrow> m \<noteq> n \<longrightarrow> queue s' m = queue s m \<and> ok s' m = ok s m)"
begin

lemma take_total:
  assumes "ok s n" and "avail s n > 0"
  shows "\<exists>p s'. take n s = Some (p, s') \<and> 0 \<le> p \<and> ok s' n \<and> queue s n = p # queue s' n"
proof -
  obtain p ps where q: "queue s n = p # ps" using assms avail by (cases "queue s n") auto
  then show ?thesis using take [OF assms(1) q] valid [OF assms(1), of p] by auto
qed

lemma take_each_once:
  assumes "ok s n" and "distinct (queue s n)" and "avail s n > 0"
  shows "\<exists>p s'. take n s = Some (p, s') \<and> p \<notin> set (queue s' n) \<and> distinct (queue s' n)"
  using take_total [OF assms(1,3)] assms(2) by auto

end

definition lent_ok :: "'r node \<Rightarrow> int \<Rightarrow> bool" where
  "lent_ok s n \<longleftrightarrow> 0 \<le> n \<and> n < int (length (COMEX_free_group s)) \<and> lend_ok (COMEX_free_group s ! nat n)"

definition lent_queue :: "'r node \<Rightarrow> int \<Rightarrow> int list" where
  "lent_queue s n = pages_of (free_group (COMEX_free_group s ! nat n))"

definition lent_total :: "'r node \<Rightarrow> int \<Rightarrow> int" where
  "lent_total s n = total_page (COMEX_free_group s ! nat n)"

definition set_group :: "int \<Rightarrow> COMEX_R_free_group_t \<Rightarrow> 'r node \<Rightarrow> 'r node" where
  "set_group n g s = s\<lparr>COMEX_free_group := (COMEX_free_group s)[nat n := g]\<rparr>"

lemma set_group_simps [simp]:
  "conf (set_group n g s) = conf s" "pool (set_group n g s) = pool s" "mem (set_group n g s) = mem s"
  "io (set_group n g s) = io s" "cbs (set_group n g s) = cbs s" "bigspace (set_group n g s) = bigspace s"
  "buff_pos (set_group n g s) = buff_pos s" "hooked (set_group n g s) = hooked s"
  "COMEX_writeOut_buff (set_group n g s) = COMEX_writeOut_buff s"
  "COMEX_readIn_buff (set_group n g s) = COMEX_readIn_buff s"
  "remote_shift_offset (set_group n g s) = remote_shift_offset s"
  "length (COMEX_free_group (set_group n g s)) = length (COMEX_free_group s)"
  "set_group n g (set_group n h s) = set_group n g s"
  by (simp_all add: set_group_def)

lemma fg_upd_ok:
  "0 \<le> n \<Longrightarrow> n < int (length (COMEX_free_group s)) \<Longrightarrow>
     fg_upd n f s = Some (set_group n (f (COMEX_free_group s ! nat n)) s)"
  by (simp add: fg_upd_def arr_simps set_group_def)

lemma set_group_nth [simp]:
  "0 \<le> n \<Longrightarrow> n < int (length (COMEX_free_group s)) \<Longrightarrow> COMEX_free_group (set_group n g s) ! nat n = g"
  by (simp add: set_group_def nat_less_iff)

lemma set_group_other [simp]:
  "0 \<le> n \<Longrightarrow> 0 \<le> m \<Longrightarrow> m \<noteq> n \<Longrightarrow> COMEX_free_group (set_group n g s) ! nat m = COMEX_free_group s ! nat m"
  by (simp add: set_group_def nat_eq_iff)

text \<open>The head of a non-empty queue is the first page of the first range.\<close>

lemma lend_head:
  assumes "lend_ok g" and "pages_of (free_group g) = p # ps"
  obtains b rest where "free_group g = (p, b) # rest" and "p \<le> b" and "ps = [p + 1..b] @ pages_of rest"
proof -
  obtain a b rest where f: "free_group g = (a, b) # rest" using assms(2) by (cases "free_group g") auto
  then have "a \<le> b" using assms(1) by (auto simp: lend_ok_def)
  then show thesis using that [of b rest] assms(2) f by (auto simp: upto_rec1)
qed

lemma lend_take:
  assumes "lent_ok s n" and "lent_queue s n = p # ps"
  shows "\<exists>g. COMEX_freelist_getpage n s = Some (p, set_group n g s) \<and> lend_ok g \<and> pages_of (free_group g) = ps \<and>
     mutex_FG g = mutex_FG (COMEX_free_group s ! nat n) \<and> back_off g = back_off (COMEX_free_group s ! nat n)"
proof -
  let ?g = "COMEX_free_group s ! nat n"
  have n: "0 \<le> n" "n < int (length (COMEX_free_group s))" and g: "lend_ok ?g"
    using assms(1) by (simp_all add: lent_ok_def)
  obtain b rest where f: "free_group ?g = (p, b) # rest" "p \<le> b" "ps = [p + 1..b] @ pages_of rest"
    using lend_head [OF g] assms(2) by (auto simp: lent_queue_def)
  let ?h = "?g\<lparr>free_group := (if p + 1 > b then rest else (p + 1, b) # rest), total_page := total_page ?g - 1\<rparr>"
  have "COMEX_freelist_getpage n s = Some (p, set_group n ?h s)"
    using n f(1) by (simp add: COMEX_freelist_getpage_def arr_simps fg_upd_ok)
  moreover have "pages_of (free_group ?h) = ps" using f(3) by simp
  moreover have "lend_ok ?h" using g f by (auto simp: lend_ok_def)
  ultimately show ?thesis by (intro exI [of _ ?h]) simp
qed

lemma lend_put:
  assumes "lent_ok s n" and "0 \<le> p" and "0 \<le> k" and "k < 31" and "COMEX_page_receive X n p k s = Some s'"
  shows "lent_ok s' n \<and> (lent_queue s' n = lent_queue s n \<or> lent_queue s' n = lent_queue s n @ [p..p + 2 ^ nat k - 1])"
proof -
  let ?g = "COMEX_free_group s ! nat n"
  have n: "0 \<le> n" "n < int (length (COMEX_free_group s))" and g: "lend_ok ?g"
    using assms(1) by (simp_all add: lent_ok_def)
  have pw: "(1 :: int) \<le> 2 ^ nat k" by simp
  obtain q r where kz: "kmalloc X 24 (io s) = (q, r)" by (cases "kmalloc X 24 (io s)")
  show ?thesis
    using assms(5) n g assms(2-4) pw kz
    by (auto simp: COMEX_page_receive_def arr_simps fg_upd_ok Let_def lent_ok_def lend_ok_def lent_queue_def
        split: if_splits)
qed

interpretation lent: page_queues lent_ok lent_queue lent_total "COMEX_page_receive X" COMEX_freelist_getpage
proof
  fix s :: "'a node" and n assume "lent_ok s n"
  then show "lent_total s n = int (length (lent_queue s n))"
    by (simp add: lent_ok_def lend_ok_def lent_total_def lent_queue_def)
next
  fix s :: "'a node" and n p assume "lent_ok s n" and "p \<in> set (lent_queue s n)"
  then show "0 \<le> p" by (fastforce simp: lent_ok_def lend_ok_def lent_queue_def pages_of_def)
next
  fix s s' :: "'a node" and n p k
  assume "lent_ok s n" and "0 \<le> p" and "0 \<le> k" and "k < 31" and "COMEX_page_receive X n p k s = Some s'"
  from lend_put [OF this] show "lent_queue s' n = lent_queue s n \<or>
      lent_queue s' n = lent_queue s n @ [p..p + 2 ^ nat k - 1] \<and> lent_ok s' n" by auto
next
  fix s :: "'a node" and n p ps assume s: "lent_ok s n" and q: "lent_queue s n = p # ps"
  obtain g where g: "COMEX_freelist_getpage n s = Some (p, set_group n g s)" "lend_ok g" "pages_of (free_group g) = ps"
    using lend_take [OF s q] by auto
  have n: "0 \<le> n" "n < int (length (COMEX_free_group s))" using s by (simp_all add: lent_ok_def)
  have "lent_queue (set_group n g s) m = lent_queue s m \<and> lent_ok (set_group n g s) m = lent_ok s m" if "0 \<le> m" "m \<noteq> n" for m
    using that n by (auto simp: lent_queue_def lent_ok_def set_group_def nth_list_update)
  then show "\<exists>s'. COMEX_freelist_getpage n s = Some (p, s') \<and> lent_ok s' n \<and> lent_queue s' n = ps \<and>
      (\<forall>m. 0 \<le> m \<longrightarrow> m \<noteq> n \<longrightarrow> lent_queue s' m = lent_queue s m \<and> lent_ok s' m = lent_ok s m)"
    using g n by (intro exI [of _ "set_group n g s"]) (simp add: lent_ok_def lent_queue_def)
qed

section \<open>Picking a block to lend\<close>

definition pool_ok :: "'r node \<Rightarrow> bool" where
  "pool_ok s \<longleftrightarrow> buddy_inv (pool s)"

definition pool_free :: "'r node \<Rightarrow> int set" where
  "pool_free s = free_set (pool s)"

definition pool_total :: "'r node \<Rightarrow> int" where
  "pool_total s = npages (pool s)"

lemma node_alloc_iff:
  "node_alloc k s = Some (r, s') \<longleftrightarrow> (\<exists>b. COMEX_rmqueue_smallest k (pool s) = Some (r, b) \<and> s' = s\<lparr>pool := b\<rparr>)"
  by (auto simp: node_alloc_def split: bind_splits)

interpretation npool: page_allocator pool_ok pool_free pool_total node_alloc node_free
proof
  fix s :: "'a node"
  assume "pool_ok s" then show "pool_free s \<subseteq> {0..<pool_total s}"
    using cpool.range by (simp add: pool_ok_def pool_free_def pool_total_def)
next
  fix s :: "'a node" and k assume s: "pool_ok s" and k: "k < (11 :: nat)"
  have inv: "buddy_inv (pool s)" using s by (simp add: pool_ok_def)
  have same: "s\<lparr>pool := pool s\<rparr> = s" by (cases s) simp
  from cpool.alloc [OF inv k]
  show "node_alloc k s = Some (-1, s) \<and> (\<forall>p. 2 ^ k dvd p \<longrightarrow> \<not> blk k p \<subseteq> pool_free s) \<or>
      (\<exists>r s'. node_alloc k s = Some (r, s') \<and> pool_ok s' \<and> pool_total s' = pool_total s \<and> 0 \<le> r \<and>
        r + 2 ^ k \<le> pool_total s \<and> 2 ^ k dvd r \<and> blk k r \<subseteq> pool_free s \<and> pool_free s' = pool_free s - blk k r)"
  proof (rule disj_forward)
    assume "COMEX_rmqueue_smallest k (pool s) = Some (-1, pool s) \<and> (\<forall>p. 2 ^ k dvd p \<longrightarrow> \<not> blk k p \<subseteq> free_set (pool s))"
    then show "node_alloc k s = Some (-1, s) \<and> (\<forall>p. 2 ^ k dvd p \<longrightarrow> \<not> blk k p \<subseteq> pool_free s)"
      by (simp add: node_alloc_def same pool_free_def)
  next
    assume "\<exists>r b. COMEX_rmqueue_smallest k (pool s) = Some (r, b) \<and> buddy_inv b \<and> npages b = npages (pool s) \<and> 0 \<le> r \<and>
      r + 2 ^ k \<le> npages (pool s) \<and> 2 ^ k dvd r \<and> blk k r \<subseteq> free_set (pool s) \<and> free_set b = free_set (pool s) - blk k r"
    then obtain r b where "COMEX_rmqueue_smallest k (pool s) = Some (r, b)" "buddy_inv b" "npages b = npages (pool s)"
      "0 \<le> r" "r + 2 ^ k \<le> npages (pool s)" "2 ^ k dvd r" "blk k r \<subseteq> free_set (pool s)"
      "free_set b = free_set (pool s) - blk k r" by blast
    then show "\<exists>r s'. node_alloc k s = Some (r, s') \<and> pool_ok s' \<and> pool_total s' = pool_total s \<and> 0 \<le> r \<and>
        r + 2 ^ k \<le> pool_total s \<and> 2 ^ k dvd r \<and> blk k r \<subseteq> pool_free s \<and> pool_free s' = pool_free s - blk k r"
      by (intro exI [of _ r] exI [of _ "s\<lparr>pool := b\<rparr>"]) (simp add: node_alloc_def pool_ok_def pool_free_def pool_total_def)
  qed
next
  fix s :: "'a node" and k p assume "pool_ok s" and "k < (11 :: nat)" and "0 \<le> p" and "p + 2 ^ k \<le> pool_total s"
    and "2 ^ k dvd p" and "blk k p \<inter> pool_free s = {}"
  then obtain b where "COMEX_free_page p k (pool s) = Some b" "buddy_inv b" "npages b = npages (pool s)"
    "free_set b = free_set (pool s) \<union> blk k p"
    using cpool.release [of "pool s" k p] by (auto simp: pool_ok_def pool_free_def pool_total_def)
  then show "\<exists>s'. node_free p k s = Some s' \<and> pool_ok s' \<and> pool_total s' = pool_total s \<and>
      pool_free s' = pool_free s \<union> blk k p"
    by (intro exI [of _ "s\<lparr>pool := b\<rparr>"]) (simp add: node_free_def pool_ok_def pool_free_def pool_total_def)
qed

definition room :: "int \<Rightarrow> 'r node \<Rightarrow> bool" where
  "room k s \<longleftrightarrow> (\<exists>p. 2 ^ nat k dvd p \<and> blk (nat k) p \<subseteq> pool_free s)"

lemma node_alloc_form: "node_alloc k s = Some (r, t) \<Longrightarrow> t = s\<lparr>pool := pool t\<rparr>"
  by (auto simp: node_alloc_def split: bind_splits)

lemma request_loop_correct:
  assumes "pool_ok s" and "i < 11" and "pno = -1" and "\<not> room i s"
    and "\<forall>j. i < j \<longrightarrow> j \<le> mx \<longrightarrow> \<not> room j s"
  shows "\<exists>r k s'. request_loop pno i s = Some (r, k, s') \<and> pool_ok s' \<and> pool_total s' = pool_total s \<and> s' = s\<lparr>pool := pool s'\<rparr> \<and>
    (\<forall>j. k < j \<longrightarrow> j \<le> mx \<longrightarrow> \<not> room j s) \<and>
    (r = -1 \<and> s' = s \<and> k = min i 5 \<and> \<not> room k s \<or>
     0 \<le> r \<and> 5 \<le> k \<and> k \<le> i \<and> 2 ^ nat k dvd r \<and> blk (nat k) r \<subseteq> pool_free s \<and>
       pool_free s' = pool_free s - blk (nat k) r)"
  using assms
proof (induction "nat i" arbitrary: i pno rule: less_induct)
  case less
  show ?case
  proof (cases "i > 5")
    case False
    then show ?thesis using less.prems by (subst request_loop.simps) auto
  next
    case True
    have k: "nat (i - 1) < 11" using less.prems by simp
    from npool.alloc [OF less.prems(1) k] show ?thesis
    proof
      assume a: "node_alloc (nat (i - 1)) s = Some (-1, s) \<and> (\<forall>p. 2 ^ nat (i - 1) dvd p \<longrightarrow> \<not> blk (nat (i - 1)) p \<subseteq> pool_free s)"
      have "\<not> room (i - 1) s" using a by (simp add: room_def)
      moreover have "\<forall>j. i - 1 < j \<longrightarrow> j \<le> mx \<longrightarrow> \<not> room j s"
      proof (intro allI impI)
        fix j assume "i - 1 < j" "j \<le> mx"
        then show "\<not> room j s" using less.prems(4,5) by (cases "j = i") auto
      qed
      moreover have "request_loop pno i s = request_loop (-1) (i - 1) s"
        using a True less.prems(3) by (subst request_loop.simps) simp
      ultimately show ?thesis
        using less.hyps [of "i - 1" "-1"] True less.prems(1,2) by (fastforce simp: min_def)
    next
      assume "\<exists>r s'. node_alloc (nat (i - 1)) s = Some (r, s') \<and> pool_ok s' \<and> pool_total s' = pool_total s \<and> 0 \<le> r \<and>
        r + 2 ^ nat (i - 1) \<le> pool_total s \<and> 2 ^ nat (i - 1) dvd r \<and> blk (nat (i - 1)) r \<subseteq> pool_free s \<and>
        pool_free s' = pool_free s - blk (nat (i - 1)) r"
      then obtain r s' where a: "node_alloc (nat (i - 1)) s = Some (r, s')" "pool_ok s'" "pool_total s' = pool_total s"
        "0 \<le> r" "2 ^ nat (i - 1) dvd r" "blk (nat (i - 1)) r \<subseteq> pool_free s"
        "pool_free s' = pool_free s - blk (nat (i - 1)) r" by blast
      note form = node_alloc_form [OF a(1)]
      have "request_loop pno i s = Some (r, i - 1, s')"
        using a True less.prems(3) by (subst request_loop.simps) (simp add: request_loop.simps)
      moreover have "\<forall>j. i - 1 < j \<longrightarrow> j \<le> mx \<longrightarrow> \<not> room j s"
      proof (intro allI impI)
        fix j assume "i - 1 < j" "j \<le> mx"
        then show "\<not> room j s" using less.prems(4,5) by (cases "j = i") auto
      qed
      ultimately show ?thesis using a True form by (intro exI [of _ r] exI [of _ "i - 1"] exI [of _ s']) simp
    qed
  qed
qed

lemma pick_block_correct:
  assumes "pool_ok s" and "0 \<le> COMEX_refill (conf s)" and "COMEX_refill (conf s) < 11"
  shows "\<exists>r k s'. pick_block s = Some (r, k, s') \<and> pool_ok s' \<and> pool_total s' = pool_total s \<and> s' = s\<lparr>pool := pool s'\<rparr> \<and>
    (\<forall>j. k < j \<longrightarrow> j \<le> COMEX_refill (conf s) \<longrightarrow> \<not> room j s) \<and>
    (r = -1 \<and> s' = s \<and> k = min (COMEX_refill (conf s)) 5 \<and> \<not> room k s \<or>
     0 \<le> r \<and> min (COMEX_refill (conf s)) 5 \<le> k \<and> k \<le> COMEX_refill (conf s) \<and> 2 ^ nat k dvd r \<and>
       blk (nat k) r \<subseteq> pool_free s \<and> pool_free s' = pool_free s - blk (nat k) r)"
proof -
  let ?i = "COMEX_refill (conf s)"
  have k: "nat ?i < 11" using assms by simp
  from npool.alloc [OF assms(1) k] show ?thesis
  proof
    assume a: "node_alloc (nat ?i) s = Some (-1, s) \<and> (\<forall>p. 2 ^ nat ?i dvd p \<longrightarrow> \<not> blk (nat ?i) p \<subseteq> pool_free s)"
    have "\<not> room ?i s" using a by (simp add: room_def)
    from request_loop_correct [OF assms(1,3) _ this, of "-1" ?i] a show ?thesis
      by (fastforce simp: pick_block_def)
  next
    assume "\<exists>r s'. node_alloc (nat ?i) s = Some (r, s') \<and> pool_ok s' \<and> pool_total s' = pool_total s \<and> 0 \<le> r \<and>
      r + 2 ^ nat ?i \<le> pool_total s \<and> 2 ^ nat ?i dvd r \<and> blk (nat ?i) r \<subseteq> pool_free s \<and>
      pool_free s' = pool_free s - blk (nat ?i) r"
    then obtain r s' where a: "node_alloc (nat ?i) s = Some (r, s')" "pool_ok s'" "pool_total s' = pool_total s"
      "0 \<le> r" "2 ^ nat ?i dvd r" "blk (nat ?i) r \<subseteq> pool_free s" "pool_free s' = pool_free s - blk (nat ?i) r" by blast
    have "pick_block s = Some (r, ?i, s')"
      using a by (simp add: pick_block_def request_loop.simps)
    then show ?thesis using a node_alloc_form [OF a(1)] by (intro exI [of _ r] exI [of _ ?i] exI [of _ s']) simp
  qed
qed

section \<open>Properties\<close>

text \<open>A kernel that always has memory (one address for everything: only null matters here).\<close>

definition plain_ext :: "'r ext" where
  "plain_ext = \<lparr>kmap = (\<lambda>_. 0), anon_tree = (\<lambda>_. None), kmalloc = (\<lambda>_ r. (4096, r)),
     ib_post_send = (\<lambda>_ _ _ w. (0, w)), ib_post_recv = (\<lambda>_ _ r. (0, r)), down_killable = (\<lambda>_ w. (0, w)),
     up_sem = (\<lambda>_ r. r)\<rparr>"

text \<open>A node with a pool of its own and nothing else, for the concrete instances.\<close>

definition plain_conf :: COMEX_conf where
  "plain_conf = \<lparr>COMEX_ID = 1, COMEX_total_nodes = 2, COMEX_total_pages = 1024, COMEX_total_writeOut = 64,
     COMEX_total_readIn = 64, COMEX_threshold = 1024, COMEX_refill = 10, COMEX_nMemNodes = 1,
     COMEX_nComNodes = 1, proc_name = ''app''\<rparr>"

definition plain_group :: COMEX_R_free_group_t where
  "plain_group = \<lparr>total_page = 0, back_off = 0, mutex_FG = False, free_group = []\<rparr>"

definition plain_node :: "comex_buddy \<Rightarrow> 'r \<Rightarrow> 'r node" where
  "plain_node b r = \<lparr>conf = plain_conf, COMEX_Ready = 1,
     stats = \<lparr>SWAP_total = 0, SWAP_to_Disk = 0, SWAP_to_COMEX = 0, COMEX_in_total = 0, COMEX_in_preF = 0,
       COMEX_in_buff = 0, COMEX_in_RDMA = 0, COMEX_in_Local = 0\<rparr>,
     pool = b, COMEX_free_group = replicate 2 plain_group,
     buff_pos = replicate 2 \<lparr>head = 0, tail = 0, pos_mutex = False\<rparr>,
     COMEX_writeOut_buff = replicate 2 (replicate 64 \<lparr>status = -1, nodeID = -1, bpageNO = -1, mutex_buff = False\<rparr>),
     COMEX_readIn_buff = replicate 64 \<lparr>status = -1, nodeID = -1, bpageNO = -1, mutex_buff = False\<rparr>,
     COMEX_free_struct = replicate 2 \<lparr>fpageNO = replicate 16 (-1), fcount = replicate 16 0\<rparr>,
     freePage_spin = False, mutex_PF = False, hooked = True, remote_shift_offset = 4194304,
     localpagecount = 2,
     bigspace = \<lparr>sg = [4194304, 8388608], sg_dma = [4194304, 8388608], bufferpages = [4194304, 8388608],
       dmapages = [4194304, 8388608], numbigpages = 2\<rparr>,
     cbs = [], COMEX_wq = [], mem = (\<lambda>_. 0), io = r\<rparr>"

lemma plain_node_pool [simp]: "pool (plain_node b r) = b" "conf (plain_node b r) = plain_conf"
  by (simp_all add: plain_node_def)

text \<open>
  the ranges a borrower holds for a lender are a queue: \<open>COMEX_page_receive\<close> files the pages of
  the block behind the ones already there and counts them, every other lender's pages are
  untouched and the lock is released; a block of order \<open>COMEX_refill - 2\<close> or less also backs off
  from asking again.
\<close>

theorem receive_files_block:
  assumes "lent_ok s n" and "\<not> mutex_FG (COMEX_free_group s ! nat n)" and "fst (kmalloc X 24 (io s)) \<noteq> 0"
    and "0 \<le> p" and "0 \<le> k" and "k < 31"
  shows "\<exists>s'. COMEX_page_receive X n p k s = Some s' \<and> lent_ok s' n \<and>
    lent_queue s' n = lent_queue s n @ [p..p + 2 ^ nat k - 1] \<and> lent_total s' n = lent_total s n + 2 ^ nat k \<and>
    back_off (COMEX_free_group s' ! nat n) = (if k \<le> COMEX_refill (conf s) - 2 then 100000 else 0) \<and>
    \<not> mutex_FG (COMEX_free_group s' ! nat n) \<and>
    (\<forall>m. 0 \<le> m \<longrightarrow> m \<noteq> n \<longrightarrow> COMEX_free_group s' ! nat m = COMEX_free_group s ! nat m)"
proof -
  let ?g = "COMEX_free_group s ! nat n"
  let ?h = "?g\<lparr>free_group := free_group ?g @ [(p, p + 2 ^ nat k - 1)], total_page := total_page ?g + 2 ^ nat k,
      back_off := (if k \<le> COMEX_refill (conf s) - 2 then 100000 else 0), mutex_FG := False\<rparr>"
  have n: "0 \<le> n" "n < int (length (COMEX_free_group s))" and g: "lend_ok ?g"
    using assms(1) by (simp_all add: lent_ok_def)
  have pw: "(1 :: int) \<le> 2 ^ nat k" by simp
  obtain q r where kz: "kmalloc X 24 (io s) = (q, r)" by (cases "kmalloc X 24 (io s)")
  have s': "COMEX_page_receive X n p k s = Some (set_group n ?h (s\<lparr>io := r\<rparr>))"
    using assms n kz by (auto simp: COMEX_page_receive_def arr_simps fg_upd_ok Let_def set_group_def nat_less_iff)
  have "lend_ok ?h" using g assms(4) pw by (auto simp: lend_ok_def)
  then have "lent_ok (set_group n ?h (s\<lparr>io := r\<rparr>)) n \<and>
      lent_queue (set_group n ?h (s\<lparr>io := r\<rparr>)) n = lent_queue s n @ [p..p + 2 ^ nat k - 1]"
    using n by (simp add: lent_ok_def lent_queue_def)
  then show ?thesis
    using n by (intro exI [of _ "set_group n ?h (s\<lparr>io := r\<rparr>)"]) (simp add: s' lent_total_def)
qed

lemma lent_plain: "0 \<le> n \<Longrightarrow> n < 2 \<Longrightarrow> lent_ok (plain_node b z) n \<and> lent_queue (plain_node b z) n = [] \<and>
    COMEX_free_group (plain_node b z) ! nat n = plain_group"
  by (simp add: lent_ok_def lent_queue_def plain_node_def lend_ok_def plain_group_def nat_less_iff)

theorem receive_files_block_witness:
  "\<exists>s'. COMEX_page_receive plain_ext 0 32 5 (plain_node (pool_used 1024) ()) = Some s' \<and> lent_queue s' 0 = [32..63] \<and>
     lent_total s' 0 = 32"
  using receive_files_block [of "plain_node (pool_used 1024) ()" 0 plain_ext 32 5] lent_plain [of 0 "pool_used 1024" "()"]
  by (auto simp: plain_group_def plain_ext_def lent_total_def)

text \<open>
  the borrower takes the pages of a lender one by one, each once and in the order they were
  filed: on a non-empty queue \<open>COMEX_freelist_getpage\<close> returns its head and leaves its tail, and the
  counter \<open>total_page\<close> that the callers test is the length of the queue.
\<close>

theorem getpage_takes_head:
  assumes "lent_ok s n" and "lent_total s n > 0"
  shows "\<exists>p s'. COMEX_freelist_getpage n s = Some (p, s') \<and> 0 \<le> p \<and> lent_ok s' n \<and>
    lent_queue s n = p # lent_queue s' n \<and> lent_total s' n = lent_total s n - 1 \<and>
    (\<forall>m. 0 \<le> m \<longrightarrow> m \<noteq> n \<longrightarrow> lent_queue s' m = lent_queue s m)"
proof -
  obtain p ps where q: "lent_queue s n = p # ps"
    using assms lent.avail [OF assms(1)] by (cases "lent_queue s n") auto
  obtain s' where s': "COMEX_freelist_getpage n s = Some (p, s')" "lent_ok s' n" "lent_queue s' n = ps"
    "\<forall>m. 0 \<le> m \<longrightarrow> m \<noteq> n \<longrightarrow> lent_queue s' m = lent_queue s m" using lent.take [OF assms(1) q] by auto
  have "0 \<le> p" using lent.valid [OF assms(1)] q by simp
  moreover have "lent_total s' n = lent_total s n - 1"
    using lent.avail [OF assms(1)] lent.avail [OF s'(2)] q s'(3) by simp
  ultimately show ?thesis using s' q by auto
qed

theorem getpage_takes_head_witness:
  "\<exists>s p s'. lent_queue s 0 = [32..63] \<and> COMEX_freelist_getpage 0 (s :: unit node) = Some (p, s') \<and>
     [32..63] = p # lent_queue s' 0"
proof -
  let ?g = "\<lparr>total_page = 32, back_off = 0, mutex_FG = False, free_group = [(32, 63)]\<rparr>"
  let ?s = "set_group 0 ?g (plain_node (pool_used 1024) ())"
  have "length (COMEX_free_group (plain_node (pool_used 1024) ())) = 2" by (simp add: plain_node_def)
  then have "lent_ok ?s 0" "lent_queue ?s 0 = [32..63]" "lent_total ?s 0 = 32"
    by (simp_all add: lent_ok_def lent_queue_def lent_total_def lend_ok_def set_group_def)
  then show ?thesis using getpage_takes_head [of ?s 0] by fastforce
qed

text \<open>
  When the kernel has no memory for the list entry, \<open>COMEX_page_receive\<close> returns with the
  lender's lock held: the block is lost, and the next reply of that lender waits for ever.
\<close>

theorem receive_oom_keeps_lock:
  assumes "0 \<le> n" and "n < int (length (COMEX_free_group s))" and "\<not> mutex_FG (COMEX_free_group s ! nat n)"
    and "fst (kmalloc X 24 (io s)) = 0" and "0 \<le> p"
  shows "\<exists>s'. COMEX_page_receive X n p k s = Some s' \<and> lent_queue s' n = lent_queue s n \<and>
    mutex_FG (COMEX_free_group s' ! nat n) \<and> COMEX_page_receive X n q j s' = None"
proof -
  let ?g = "COMEX_free_group s ! nat n"
  obtain r where kz: "kmalloc X 24 (io s) = (0, r)" using assms(4) by (cases "kmalloc X 24 (io s)") auto
  let ?s = "(set_group n (?g\<lparr>mutex_FG := True\<rparr>) s)\<lparr>io := r\<rparr>"
  have "COMEX_page_receive X n p k s = Some ?s"
    using assms kz by (simp add: COMEX_page_receive_def arr_simps fg_upd_ok Let_def)
  moreover have g: "COMEX_free_group ?s ! nat n = ?g\<lparr>mutex_FG := True\<rparr>" "n < int (length (COMEX_free_group ?s))"
    using assms(1,2) by simp_all
  moreover have "COMEX_page_receive X n q j ?s = None"
    using g assms(1) by (simp add: COMEX_page_receive_def arr_get_def)
  ultimately show ?thesis by (intro exI [of _ ?s]) (simp add: lent_queue_def)
qed

theorem receive_oom_keeps_lock_witness:
  "\<exists>s'. COMEX_page_receive (plain_ext\<lparr>kmalloc := (\<lambda>_ r. (0, r))\<rparr>) 0 32 5 (plain_node (pool_used 1024) ()) = Some s' \<and>
     COMEX_page_receive (plain_ext\<lparr>kmalloc := (\<lambda>_ r. (0, r))\<rparr>) 0 64 5 s' = None"
  using receive_oom_keeps_lock [of 0 "plain_node (pool_used 1024) ()" "plain_ext\<lparr>kmalloc := (\<lambda>_ r. (0, r))\<rparr>" 32 5 64 5]
    lent_plain [of 0 "pool_used 1024" "()"]
  by (auto simp: plain_group_def lent_ok_def)

end
