(* ===== verification/Comex_WriteOut.thy ===== *)
theory Comex_WriteOut
  imports Comex_Lend
begin

unbundle bit_operations_syntax

text \<open>
  Writing pages out (\<open>comex_remote.h\<close>): the write-out ring of each lender, its flush
  (\<open>COMEX_flush_buff\<close>), the choice of a lender and the store of a page (\<open>COMEX_move_to_Remote\<close>), and
  the read of a page that is still in the ring (\<open>COMEX_read_from_buffer\<close>).
\<close>

section \<open>The code\<close>

definition FLUSH :: int where "FLUSH = 32"

definition COMEX_hash :: "int \<Rightarrow> int \<Rightarrow> 'r node \<Rightarrow> int option" where
  "COMEX_hash seed node s =
     (if COMEX_nMemNodes (conf s) = 0 then None
      else Some (i32 (i32 (seed * node) + 1) smod COMEX_nMemNodes (conf s)))"

text \<open>The loop of \<open>COMEX_flush_buff\<close>: it returns the number of slots it has claimed (status 3).\<close>

function flush_loop :: "int \<Rightarrow> int \<Rightarrow> int \<Rightarrow> int \<Rightarrow> 'r node \<Rightarrow> (int \<times> 'r node) option" where
  "flush_loop n h tw count s = do {
     d \<leftarrow> wo_get n (h + count) s;
     if status d = 2 then do {
       s \<leftarrow> wo_upd n (h + count) (\<lambda>d. d\<lparr>status := 3\<rparr>) s;
       let count = count + 1;
       if h + count \<ge> tw then Some (count, s)
       else do {
         nx \<leftarrow> wo_get n (h + count) s;
         pv \<leftarrow> wo_get n (h + count - 1) s;
         if bpageNO nx smod 1024 - 1 \<noteq> bpageNO pv smod 1024 \<and> status nx = 2 then Some (count, s)
         else flush_loop n h tw count s
       }
     } else Some (count, s)
   }"
  by pat_completeness auto
termination
  by (relation "measure (\<lambda>(n, h, tw, count, s). nat (tw - (h + count)))") auto

declare flush_loop.simps [simp del]

definition COMEX_flush_buff :: "'r ext \<Rightarrow> int \<Rightarrow> 'r node \<Rightarrow> 'r node option" where
  "COMEX_flush_buff X n s = do {
     pos \<leftarrow> arr_get (buff_pos s) n;
     if pos_mutex pos then None
     else do {
       s \<leftarrow> pos_upd n (\<lambda>p. p\<lparr>pos_mutex := True\<rparr>) s;
       (count, s) \<leftarrow> flush_loop n (head pos) (total_writeOut s) 0 s;
       if count = 0 then pos_upd n (\<lambda>p. p\<lparr>pos_mutex := False\<rparr>) s
       else do {
         d \<leftarrow> wo_get n (head pos) s;
         let addr_struct = \<lparr>local_off = get_writeOut_buff n (head pos) s,
           remote_off = push_bit 12 (of_int (bpageNO d)), asize = count, bufIDX = head pos\<rparr>;
         s \<leftarrow> pos_upd n (\<lambda>p. p\<lparr>head := i16 (head p + count)\<rparr>) s;
         s \<leftarrow> (if total_writeOut s = 0 then None
           else pos_upd n (\<lambda>p. p\<lparr>head := head p smod total_writeOut s\<rparr>) s);
         s \<leftarrow> COMEX_RDMA X n CODE_COMEX_PAGE_WRTE (Address addr_struct) 24 s;
         pos_upd n (\<lambda>p. p\<lparr>pos_mutex := False\<rparr>) s
       }
     }
   }"

definition COMEX_flush_one :: "'r ext \<Rightarrow> int \<Rightarrow> int \<Rightarrow> 'r node \<Rightarrow> 'r node option" where
  "COMEX_flush_one X n slot s = do {
     d \<leftarrow> wo_get n slot s;
     COMEX_RDMA X n CODE_COMEX_PAGE_WRTE
       (Address \<lparr>local_off = get_writeOut_buff n slot s, remote_off = push_bit 12 (of_int (bpageNO d)),
          asize = 1, bufIDX = slot\<rparr>) 24 s
   }"

definition COMEX_void_preFetch :: "int \<Rightarrow> int \<Rightarrow> 'r node \<Rightarrow> 'r node option" where
  "COMEX_void_preFetch n pg s = do {
     d \<leftarrow> (if total_readIn s = 0 then None else arr_get (COMEX_readIn_buff s) (pg smod total_readIn s));
     if nodeID d = n \<and> bpageNO d = pg
     then ri_upd (pg smod total_readIn s) (\<lambda>d. d\<lparr>status := -1, nodeID := -1, bpageNO := -1\<rparr>) s
     else Some s
   }"

text \<open>Asking the lender for more pages when few are left.\<close>

definition ask_more :: "'r ext \<Rightarrow> int \<Rightarrow> 'r node \<Rightarrow> 'r node option" where
  "ask_more X dest s = do {
     g \<leftarrow> arr_get (COMEX_free_group s) dest;
     if total_page g \<le> COMEX_threshold (conf s) then
       if back_off g \<le> 0 then do {
         s \<leftarrow> fg_upd dest (\<lambda>g. g\<lparr>back_off := 10000\<rparr>) s;
         COMEX_RDMA X dest CODE_COMEX_PAGE_RQST (Node_id (COMEX_ID (conf s))) 4 s
       }
       else fg_upd dest (\<lambda>g. g\<lparr>back_off := back_off g - 1\<rparr>) s
     else Some s
   }"

text \<open>Copy the page into the claimed slot, describe it, flush after every 32nd slot.\<close>

definition fill_slot :: "'r ext \<Rightarrow> int \<Rightarrow> int \<Rightarrow> int \<Rightarrow> int \<Rightarrow> 'r node \<Rightarrow> 'r node option" where
  "fill_slot X old_page dest slot pg s = do {
     s \<leftarrow> COMEX_void_preFetch dest pg s;
     let buf_vAddr = get_writeOut_buff dest slot s;
     let old_vAddr = kmap X old_page;
     a \<leftarrow> COMEX_offset_to_addr buf_vAddr s;
     s \<leftarrow> (if a = 0 then None else Some (s\<lparr>mem := memcpy a old_vAddr X86PageSize (mem s)\<rparr>));
     s \<leftarrow> wo_upd dest slot (\<lambda>d. d\<lparr>nodeID := dest\<rparr>) s;
     s \<leftarrow> wo_upd dest slot (\<lambda>d. d\<lparr>bpageNO := pg\<rparr>) s;
     s \<leftarrow> wo_upd dest slot (\<lambda>d. d\<lparr>status := 2\<rparr>) s;
     if slot smod FLUSH = 0 \<and> slot \<noteq> 0 then COMEX_flush_buff X dest s else Some s
   }"

text \<open>Claim the tail slot, release the lender's lock, fill the slot.\<close>

definition claim :: "'r ext \<Rightarrow> int \<Rightarrow> int \<Rightarrow> int \<Rightarrow> int \<Rightarrow> 'r node \<Rightarrow> 'r node option" where
  "claim X old n slot pg s = do {
     s \<leftarrow> (if total_writeOut s = 0 then None
       else pos_upd n (\<lambda>p. p\<lparr>tail := i16 (tail p + 1) smod total_writeOut s\<rparr>) s);
     s \<leftarrow> wo_upd n slot (\<lambda>d. d\<lparr>status := 1\<rparr>) s;
     s \<leftarrow> fg_upd n (\<lambda>g. g\<lparr>mutex_FG := False\<rparr>) s;
     fill_slot X old n slot pg s
   }"

text \<open>
  The loop over the lenders; the result is the return value, \<open>*retNodeID\<close>, \<open>*retPageNO\<close> and the
  state.  \<open>m\<close> is \<open>COMEX_nMemNodes\<close>.
\<close>

function move_loop :: "'r ext \<Rightarrow> int \<Rightarrow> int \<Rightarrow> int \<Rightarrow> int \<Rightarrow> int \<Rightarrow> int \<Rightarrow> 'r node \<Rightarrow>
    (int \<times> int \<times> int \<times> 'r node) option" where
  "move_loop X old_page m i dest retN retP s =
     (if i < m then do {
        g \<leftarrow> arr_get (COMEX_free_group s) dest;
        if mutex_FG g then Some (-1, retN, retP, s)
        else do {
          s1 \<leftarrow> fg_upd dest (\<lambda>g. g\<lparr>mutex_FG := True\<rparr>) s;
          s1 \<leftarrow> ask_more X dest s1;
          pos \<leftarrow> arr_get (buff_pos s1) dest;
          d \<leftarrow> wo_get dest (tail pos) s1;
          s1 \<leftarrow> (if status d = 2 then COMEX_flush_buff X dest s1 else Some s1);
          g \<leftarrow> arr_get (COMEX_free_group s1) dest;
          pos \<leftarrow> arr_get (buff_pos s1) dest;
          d \<leftarrow> wo_get dest (tail pos) s1;
          if total_page g > 0 \<and> status d = -1 then do {
            (pg, s1) \<leftarrow> COMEX_freelist_getpage dest s1;
            if pg = -1 then do {
              dest \<leftarrow> COMEX_hash dest (COMEX_ID (conf s1)) s1;
              s1 \<leftarrow> fg_upd dest (\<lambda>g. g\<lparr>mutex_FG := False\<rparr>) s1;
              move_loop X old_page m (i + 1) dest retN pg s1
            }
            else do {
              let slot = tail pos;
              s1 \<leftarrow> claim X old_page dest slot pg s1;
              Some (1, dest, pg, s1)
            }
          }
          else do {
            s1 \<leftarrow> fg_upd dest (\<lambda>g. g\<lparr>mutex_FG := False\<rparr>) s1;
            dest \<leftarrow> COMEX_hash dest (COMEX_ID (conf s1)) s1;
            move_loop X old_page m (i + 1) dest retN retP s1
          }
        }
      }
      else Some (-1, 0, 0, s))"
  by pat_completeness auto
termination
  by (relation "measure (\<lambda>(X, old_page, m, i, dest, retN, retP, s). nat (m - i))") auto

declare move_loop.simps [simp del]

definition COMEX_move_to_Remote :: "'r ext \<Rightarrow> int \<Rightarrow> int \<Rightarrow> int \<Rightarrow> 'r node \<Rightarrow> (int \<times> int \<times> int \<times> 'r node) option" where
  "COMEX_move_to_Remote X old_page retN retP s = do {
     pid \<leftarrow> get_page_PID id (anon_tree X old_page);
     dest_node \<leftarrow> COMEX_hash pid (COMEX_ID (conf s)) s;
     move_loop X old_page (COMEX_nMemNodes (conf s)) 0 dest_node retN retP s
   }"

function buffer_loop :: "'r ext \<Rightarrow> int \<Rightarrow> int \<Rightarrow> int \<Rightarrow> int \<Rightarrow> 'r node \<Rightarrow> (int \<times> 'r node) option" where
  "buffer_loop X new_page n pg i s =
     (if i < total_writeOut s then do {
        d \<leftarrow> wo_get n i s;
        if bpageNO d = pg \<and> status d = 2 then do {
          let buf_vAddr = get_writeOut_buff n i s;
          let new_vAddr = kmap X new_page;
          a \<leftarrow> COMEX_offset_to_addr buf_vAddr s;
          if a = 0 then None
          else Some (1, s\<lparr>mem := memcpy new_vAddr a X86PageSize (mem s),
            stats := (stats s)\<lparr>COMEX_in_buff := COMEX_in_buff (stats s) + 1\<rparr>\<rparr>)
        }
        else buffer_loop X new_page n pg (i + 1) s
      } else Some (0, s))"
  by pat_completeness auto
termination
  by (relation "measure (\<lambda>(X, new_page, n, pg, i, s). nat (total_writeOut s - i))") auto

declare buffer_loop.simps [simp del]

definition COMEX_read_from_buffer :: "'r ext \<Rightarrow> int \<Rightarrow> int \<Rightarrow> int \<Rightarrow> 'r node \<Rightarrow> (int \<times> 'r node) option" where
  "COMEX_read_from_buffer X new_page n pg s = buffer_loop X new_page n pg 0 s"

end
