(* ===== verification/Comex_Flush.thy ===== *)
theory Comex_Flush
  imports Comex_WriteOut
begin

unbundle bit_operations_syntax

text \<open>
  The write-out ring and its flush.  \<open>stored\<close> is what a lender will deliver for a page: the copy in
  the ring when there is one, else the bytes in the lender's memory.  A flush moves bytes and frees
  slots and changes nothing of that.
\<close>

section \<open>Transfers leave other pages alone\<close>

lemma page_data_run_frame:
  assumes "n \<le> 1024" and "\<And>j. j < n \<Longrightarrow> disj_pages a (dst + of_nat j * X86PageSize)"
  shows "page_data (copy_from other src dst (of_nat n * X86PageSize) m) a = page_data m a"
proof (rule ext)
  fix i :: u64
  show "page_data (copy_from other src dst (of_nat n * X86PageSize) m) a i = page_data m a i"
  proof (cases "i < X86PageSize \<and> a + i - dst < of_nat n * X86PageSize")
    case True
    define x where "x = uint (a + i - dst)"
    define j where "j = nat (x div 4096)"
    have x: "0 \<le> x" "x < int n * 4096"
      using True uint_run [OF assms(1)] by (auto simp: x_def word_less_def)
    have j: "j < n" using x by (simp add: j_def nat_less_iff pos_imp_zdiv_nonneg_iff div_less_iff_less_mult)
    have uj: "uint (of_nat j * X86PageSize :: u64) = int j * 4096" using j assms(1) by (intro uint_run) simp
    have jx: "int j * 4096 = x - x mod 4096" using x(1) by (simp add: j_def pos_imp_zdiv_nonneg_iff minus_mod_eq_div_mult)
    have "uint (a + i - dst - of_nat j * X86PageSize) = x - int j * 4096"
      using jx x(1) by (subst uint_sub_lem [THEN iffD1]) (simp_all add: uj x_def [symmetric])
    then have "a + i - dst - of_nat j * X86PageSize < X86PageSize"
      using jx by (simp add: word_less_def X86PageSize_def)
    then have "a + i - (dst + of_nat j * X86PageSize) < X86PageSize" by (simp add: algebra_simps)
    then show ?thesis using disj_pages_offset [OF assms(2) [OF j], of i] True by simp
  qed (auto simp: page_data_def copy_from_def)
qed

section \<open>The loop\<close>

definition mark_row :: "int \<Rightarrow> int \<Rightarrow> buff_desc_t list \<Rightarrow> buff_desc_t list" where
  "mark_row k c row = map (\<lambda>j. if k \<le> int j \<and> int j < k + c then (row ! j)\<lparr>status := 3\<rparr> else row ! j) [0..<length row]"

lemma length_mark_row [simp]: "length (mark_row k c row) = length row"
  by (simp add: mark_row_def)

lemma nth_mark_row [simp]:
  "j < length row \<Longrightarrow> mark_row k c row ! j = (if k \<le> int j \<and> int j < k + c then (row ! j)\<lparr>status := 3\<rparr> else row ! j)"
  by (simp add: mark_row_def)

lemma mark_row_none [simp]: "mark_row k 0 row = row"
  by (rule nth_equalityI) auto

lemma mark_row_first:
  assumes "0 \<le> k" and "k < int (length row)" and "1 \<le> c"
  shows "mark_row (k + 1) (c - 1) (row[nat k := (row ! nat k)\<lparr>status := 3\<rparr>]) = mark_row k c row"
proof (rule nth_equalityI)
  fix j assume "j < length (mark_row (k + 1) (c - 1) (row[nat k := (row ! nat k)\<lparr>status := 3\<rparr>]))"
  then show "mark_row (k + 1) (c - 1) (row[nat k := (row ! nat k)\<lparr>status := 3\<rparr>]) ! j = mark_row k c row ! j"
    using assms by (cases "int j = k") (auto simp: nth_list_update)
qed simp

lemma clear_mark_row [simp]: "clear_row k c (mark_row k c row) = clear_row k c row"
  by (rule nth_equalityI) (auto simp: no_desc_def)

text \<open>What the loop has found when it stops after \<open>r\<close> slots.\<close>

definition run_at :: "int \<Rightarrow> int \<Rightarrow> int \<Rightarrow> 'r node \<Rightarrow> bool" where
  "run_at n k r s \<longleftrightarrow> 0 \<le> r \<and> k + r \<le> total_writeOut s \<and>
     (\<forall>j. k \<le> j \<longrightarrow> j < k + r \<longrightarrow> status (wo_at n j s) = 2) \<and>
     (\<forall>j. k < j \<longrightarrow> j < k + r \<longrightarrow> bpageNO (wo_at n j s) smod 1024 - 1 = bpageNO (wo_at n (j - 1) s) smod 1024) \<and>
     (status (wo_at n k s) = 2 \<longrightarrow> 0 < r)"

lemma run_at_bounds:
  assumes "run_at n k r s"
  shows "0 \<le> r" and "k + r \<le> total_writeOut s" and "status (wo_at n k s) = 2 \<Longrightarrow> 0 < r"
    and "k \<le> j \<Longrightarrow> j < k + r \<Longrightarrow> status (wo_at n j s) = 2"
  using assms unfolding run_at_def by blast+

lemma run_at_Suc:
  assumes "status (wo_at n k s) = 2" and "0 \<le> r" and "k + 1 + r \<le> total_writeOut s"
    and "\<forall>j. k + 1 \<le> j \<longrightarrow> j < k + 1 + r \<longrightarrow> status (wo_at n j s) = 2"
    and "\<forall>j. k + 1 < j \<longrightarrow> j < k + 1 + r \<longrightarrow> bpageNO (wo_at n j s) smod 1024 - 1 = bpageNO (wo_at n (j - 1) s) smod 1024"
    and "0 < r \<longrightarrow> bpageNO (wo_at n (k + 1) s) smod 1024 - 1 = bpageNO (wo_at n k s) smod 1024"
  shows "run_at n k (r + 1) s"
  unfolding run_at_def
proof (intro conjI allI impI)
  fix j assume j: "k \<le> j" "j < k + (r + 1)"
  show "status (wo_at n j s) = 2" using assms(1,4) j by (cases "j = k") auto
next
  fix j assume j: "k < j" "j < k + (r + 1)"
  show "bpageNO (wo_at n j s) smod 1024 - 1 = bpageNO (wo_at n (j - 1) s) smod 1024"
    using assms(5,6) j by (cases "j = k + 1") auto
qed (use assms in auto)

lemma flush_loop_correct:
  assumes "row_ok n s" and "0 \<le> h" and "0 \<le> c" and "h + c < total_writeOut s"
  shows "\<exists>r. flush_loop n h (total_writeOut s) c s =
      Some (c + r, set_row n (mark_row (h + c) r (COMEX_writeOut_buff s ! nat n)) s) \<and> run_at n (h + c) r s"
  using assms
proof (induction "nat (total_writeOut s - (h + c))" arbitrary: c s rule: less_induct)
  case less
  let ?k = "h + c" and ?row = "COMEX_writeOut_buff s ! nat n" and ?tw = "total_writeOut s"
  have k: "0 \<le> ?k" "?k < ?tw" using less.prems by auto
  have len: "int (length ?row) = ?tw" using less.prems(1) k by (simp add: row_ok_def)
  note g = wo_get_ok [OF less.prems(1)]
  show ?case
  proof (cases "status (wo_at n ?k s) = 2")
    case False
    then show ?thesis using g [OF k] less.prems k
      by (intro exI [of _ 0]) (simp add: flush_loop.simps run_at_def)
  next
    case True
    let ?s = "set_row n (?row[nat ?k := (?row ! nat ?k)\<lparr>status := 3\<rparr>]) s"
    have u: "wo_upd n ?k (\<lambda>d. d\<lparr>status := 3\<rparr>) s = Some ?s"
      using wo_upd_ok [OF less.prems(1) k] by (simp add: wo_at_def)
    have row': "row_ok n ?s" using less.prems(1) len by (simp add: row_ok_def)
    have n0: "0 \<le> n" using less.prems(1) by (simp add: row_ok_def)
    have at: "wo_at n j ?s = (if j = ?k then (wo_at n j s)\<lparr>status := 3\<rparr> else wo_at n j s)" if "0 \<le> j" "j < ?tw" for j
      using that len k wo_at_set_row [OF less.prems(1) n0] by (auto simp: wo_at_def nth_list_update nat_eq_iff)
    have one: "set_row n (mark_row ?k 1 ?row) s = ?s"
      using mark_row_first [of ?k ?row 1] k len by simp
    show ?thesis
    proof (cases "?k + 1 \<ge> ?tw")
      case last: True
      have "flush_loop n h ?tw c s = Some (c + 1, ?s)"
        using True u g [OF k] last by (subst flush_loop.simps) (simp add: algebra_simps)
      moreover have "run_at n ?k 1 s" using True k by (auto simp: run_at_def)
      ultimately show ?thesis using one by (intro exI [of _ 1]) simp
    next
      case False
      have gn: "wo_get n (?k + 1) ?s = Some (wo_at n (?k + 1) s)" "wo_get n ?k ?s = Some ((wo_at n ?k s)\<lparr>status := 3\<rparr>)"
        using wo_get_ok [OF row', of "?k + 1"] wo_get_ok [OF row', of ?k] at [of "?k + 1"] at [of ?k] k False by simp_all
      let ?stop = "bpageNO (wo_at n (?k + 1) s) smod 1024 - 1 \<noteq> bpageNO (wo_at n ?k s) smod 1024 \<and>
          status (wo_at n (?k + 1) s) = 2"
      have step: "flush_loop n h ?tw c s = (if ?stop then Some (c + 1, ?s) else flush_loop n h ?tw (c + 1) ?s)"
        using True u g [OF k] gn False by (subst flush_loop.simps) (simp add: add.assoc)
      show ?thesis
      proof (cases ?stop)
        case st: True
        have "flush_loop n h ?tw c s = Some (c + 1, ?s)" by (rule trans [OF step if_P [OF st]])
        moreover have "run_at n ?k 1 s" using True k by (auto simp: run_at_def)
        ultimately show ?thesis using one by (intro exI [of _ 1]) simp
      next
        case st: False
        have "nat (total_writeOut ?s - (h + (c + 1))) < nat (?tw - ?k)" using k by simp
        then obtain r where r: "flush_loop n h ?tw (c + 1) ?s =
            Some (c + 1 + r, set_row n (mark_row (h + (c + 1)) r (COMEX_writeOut_buff ?s ! nat n)) ?s)"
          "run_at n (h + (c + 1)) r ?s"
          using less.hyps [of ?s "c + 1"] row' less.prems(2,3) False by auto
        have r0: "0 \<le> r" "?k + 1 + r \<le> ?tw" using r(2) by (auto simp: run_at_def)
        have row1: "COMEX_writeOut_buff ?s ! nat n = ?row[nat ?k := (?row ! nat ?k)\<lparr>status := 3\<rparr>]"
          using less.prems(1) by simp
        have "set_row n (mark_row (h + (c + 1)) r (COMEX_writeOut_buff ?s ! nat n)) ?s
          = set_row n (mark_row ?k (r + 1) ?row) s"
          unfolding row1 using mark_row_first [of ?k ?row "r + 1"] k len r0(1) by (simp add: add.assoc)
        moreover have "run_at n ?k (r + 1) s"
        proof (rule run_at_Suc [OF True r0])
          show "\<forall>j. ?k + 1 \<le> j \<longrightarrow> j < ?k + 1 + r \<longrightarrow> status (wo_at n j s) = 2"
            using r(2) at r0 k by (auto simp: run_at_def)
          show "\<forall>j. ?k + 1 < j \<longrightarrow> j < ?k + 1 + r \<longrightarrow> bpageNO (wo_at n j s) smod 1024 - 1 = bpageNO (wo_at n (j - 1) s) smod 1024"
            using r(2) at r0 k by (auto simp: run_at_def)
          show "0 < r \<longrightarrow> bpageNO (wo_at n (?k + 1) s) smod 1024 - 1 = bpageNO (wo_at n ?k s) smod 1024"
          proof
            assume "0 < r"
            then have "status (wo_at n (?k + 1) ?s) = 2" using r(2) by (simp add: run_at_def add.assoc)
            then show "bpageNO (wo_at n (?k + 1) s) smod 1024 - 1 = bpageNO (wo_at n ?k s) smod 1024"
              using st at [of "?k + 1"] k False by (simp split: if_splits)
          qed
        qed
        moreover have "flush_loop n h ?tw c s = flush_loop n h ?tw (c + 1) ?s"
          by (rule trans [OF step if_not_P [OF st]])
        ultimately show ?thesis using r(1) by (intro exI [of _ "r + 1"]) simp
      qed
    qed
  qed
qed

section \<open>The ring\<close>

definition pos_at :: "int \<Rightarrow> 'r node \<Rightarrow> buff_pos_t" where
  "pos_at n s = buff_pos s ! nat n"

definition set_pos :: "int \<Rightarrow> buff_pos_t \<Rightarrow> 'r node \<Rightarrow> 'r node" where
  "set_pos n p s = s\<lparr>buff_pos := (buff_pos s)[nat n := p]\<rparr>"

lemma set_pos_simps [simp]:
  "conf (set_pos n p s) = conf s" "pool (set_pos n p s) = pool s" "mem (set_pos n p s) = mem s"
  "io (set_pos n p s) = io s" "cbs (set_pos n p s) = cbs s" "bigspace (set_pos n p s) = bigspace s"
  "hooked (set_pos n p s) = hooked s" "COMEX_free_group (set_pos n p s) = COMEX_free_group s"
  "COMEX_writeOut_buff (set_pos n p s) = COMEX_writeOut_buff s"
  "COMEX_readIn_buff (set_pos n p s) = COMEX_readIn_buff s"
  "remote_shift_offset (set_pos n p s) = remote_shift_offset s"
  "length (buff_pos (set_pos n p s)) = length (buff_pos s)"
  "set_pos n p (set_pos n q s) = set_pos n p s"
  by (simp_all add: set_pos_def)

lemma pos_upd_ok:
  "0 \<le> n \<Longrightarrow> n < int (length (buff_pos s)) \<Longrightarrow> pos_upd n f s = Some (set_pos n (f (pos_at n s)) s)"
  by (simp add: pos_upd_def arr_simps set_pos_def pos_at_def)

lemma pos_at_set_pos [simp]:
  "0 \<le> n \<Longrightarrow> n < int (length (buff_pos s)) \<Longrightarrow> pos_at n (set_pos n p s) = p"
  by (simp add: set_pos_def pos_at_def nat_less_iff)

lemma set_pos_row: "set_pos n p (set_row m row s) = set_row m row (set_pos n p s)"
  "set_pos n p (s\<lparr>io := r\<rparr>) = (set_pos n p s)\<lparr>io := r\<rparr>"
  "set_row m row (s\<lparr>io := r\<rparr>) = (set_row m row s)\<lparr>io := r\<rparr>"
  by (simp_all add: set_pos_def set_row_def)

lemma pos_order [simp]: "(p :: buff_pos_t)\<lparr>pos_mutex := b, head := h\<rparr> = p\<lparr>head := h, pos_mutex := b\<rparr>"
  by (cases p) simp

text \<open>Predicates that read only part of the state.\<close>

lemma env_cong:
  assumes "conf t = conf s" and "bigspace t = bigspace s" and "hooked t = hooked s" and "cbs t = cbs s"
    and "remote_shift_offset t = remote_shift_offset s"
  shows "ready virt t = ready virt s" and "far_ok n t = far_ok n s" and "in_far n p t = in_far n p s"
    and "far_addr n p t = far_addr n p s" and "here_addr p t = here_addr p s" and "wo_page n k t = wo_page n k s"
    and "shift_ok t = shift_ok s" and "get_writeOut_buff n k t = get_writeOut_buff n k s"
  using assms by (simp_all add: ready_def far_ok_def in_far_def far_addr_def here_addr_def wo_page_def shift_ok_def
      shift_pages_def conf_ok_def get_writeOut_buff_def)

lemmas env_set_pos [simp] = env_cong [where t = "set_pos n p s" and s = s for n p s, simplified]
lemmas env_set_row [simp] = env_cong [where t = "set_row n p s" and s = s for n p s, simplified]
lemmas env_set_group [simp] = env_cong [where t = "set_group n p s" and s = s for n p s, simplified]
lemmas env_io [simp] = env_cong [where t = "s\<lparr>io := r\<rparr>" and s = s for r s, simplified]
lemmas env_mem [simp] = env_cong [where t = "s\<lparr>mem := m\<rparr>" and s = s for m s, simplified]

lemma pos_at_frames [simp]: "pos_at n (set_row m row s) = pos_at n s" "pos_at n (s\<lparr>io := r\<rparr>) = pos_at n s"
    "pos_at n (s\<lparr>mem := x\<rparr>) = pos_at n s" "pos_at n (set_group m g s) = pos_at n s"
  by (simp_all add: pos_at_def)

lemma set_pos_same [simp]: "set_pos n (pos_at n s) s = s"
  by (simp add: set_pos_def pos_at_def)

lemma set_row_set_pos_same [simp]:
  "row_ok n s \<Longrightarrow> set_row n (COMEX_writeOut_buff s ! nat n) (set_pos m p s) = set_pos m p s"
  by (simp add: set_row_def set_pos_def row_ok_def)

lemma row_ok_set_pos [simp]: "row_ok n (set_pos m p s) = row_ok n s" "row_ok n (s\<lparr>io := r\<rparr>) = row_ok n s"
  by (simp_all add: row_ok_def)

lemma wo_at_frames [simp]: "wo_at n k (set_pos m p s) = wo_at n k s" "wo_at n k (s\<lparr>io := r\<rparr>) = wo_at n k s"
  by (simp_all add: wo_at_def)

text \<open>
  \<open>c\<close> pages are pending: the slots from \<open>head\<close> on, round the ring, up to \<open>tail\<close>.
\<close>

definition ring_ok :: "int \<Rightarrow> int \<Rightarrow> 'r node \<Rightarrow> bool" where
  "ring_ok n c s \<longleftrightarrow> row_ok n s \<and> n < int (length (buff_pos s)) \<and> \<not> pos_mutex (pos_at n s) \<and>
     0 \<le> head (pos_at n s) \<and> head (pos_at n s) < total_writeOut s \<and>
     0 \<le> c \<and> c \<le> total_writeOut s \<and> tail (pos_at n s) = (head (pos_at n s) + c) mod total_writeOut s \<and>
     (\<forall>k. 0 \<le> k \<longrightarrow> k < total_writeOut s \<longrightarrow>
        status (wo_at n k s) = (if (k - head (pos_at n s)) mod total_writeOut s < c then 2 else -1))"

definition pend_page :: "int \<Rightarrow> int \<Rightarrow> 'r node \<Rightarrow> int" where
  "pend_page n j s = bpageNO (wo_at n ((head (pos_at n s) + j) mod total_writeOut s) s)"

definition pending :: "int \<Rightarrow> int \<Rightarrow> 'r node \<Rightarrow> int list" where
  "pending n c s = map (\<lambda>j. pend_page n j s) [0..c - 1]"

text \<open>
  The pages of a lender in the order they are written: the pending ones, then those still to be
  handed out.  Each is in the lender's space; two neighbours that look contiguous within a block
  of 1024 are contiguous.
\<close>

definition seq_ok :: "int \<Rightarrow> 'r node \<Rightarrow> int list \<Rightarrow> bool" where
  "seq_ok n s ps \<longleftrightarrow> distinct ps \<and> (\<forall>p \<in> set ps. in_far n p s) \<and>
     successively (\<lambda>p q. p mod 1024 + 1 = q mod 1024 \<longrightarrow> q = p + 1) ps"

lemma nth_pending: "0 \<le> c \<Longrightarrow> j < nat c \<Longrightarrow> pending n c s ! j = pend_page n (int j) s"
  by (simp add: pending_def)

lemma length_pending [simp]: "0 \<le> c \<Longrightarrow> length (pending n c s) = nat c"
  by (simp add: pending_def)

lemma pend_page_run:
  assumes "ring_ok n c s" and "0 \<le> j" and "head (pos_at n s) + j < total_writeOut s"
  shows "pend_page n j s = bpageNO (wo_at n (head (pos_at n s) + j) s)"
    and "status (wo_at n (head (pos_at n s) + j) s) = 2 \<longleftrightarrow> j < c"
  using assms by (auto simp: pend_page_def ring_ok_def)

lemma run_pages:
  assumes ring: "ring_ok n c s" and sq: "seq_ok n s (pending n c s)" and run: "run_at n (head (pos_at n s)) r s"
    and j: "0 \<le> j" "j < r"
  shows "j < c \<and> pend_page n j s = pend_page n 0 s + j \<and> pend_page n 0 s mod 1024 + j < 1024"
  using j
proof (induction "nat j" arbitrary: j)
  case 0
  then have "j = 0" by simp
  then show ?case using pend_page_run(2) [OF ring, of 0] run 0 ring by (auto simp: run_at_def)
next
  case (Suc i)
  let ?h = "head (pos_at n s)" and ?c = "\<lambda>i. pend_page n i s"
  have tw: "?h + r \<le> total_writeOut s" using run by (simp add: run_at_def)
  have j: "0 < j" "j < r" "i = nat (j - 1)" using Suc by auto
  then have IH: "j - 1 < c \<and> ?c (j - 1) = ?c 0 + (j - 1) \<and> ?c 0 mod 1024 + (j - 1) < 1024"
    using Suc.hyps(1) [of "j - 1"] by simp
  have jc: "j < c" using pend_page_run(2) [OF ring, of j] run j tw by (auto simp: run_at_def)
  have c0: "0 \<le> c" using ring by (simp add: ring_ok_def)
  have mem: "pending n c s ! nat x = ?c x" "?c x \<in> set (pending n c s)" if "0 \<le> x" "x < c" for x
    using that c0 by (simp add: nth_pending, simp add: pending_def)
  have nonneg: "0 \<le> ?c x" if "0 \<le> x" "x < c" for x
    using mem(2) [OF that] sq by (simp add: seq_ok_def in_far_def)
  have "bpageNO (wo_at n (?h + j) s) smod 1024 - 1 = bpageNO (wo_at n (?h + (j - 1)) s) smod 1024"
    using run j unfolding run_at_def by (auto simp: add_diff_eq)
  then have md: "?c (j - 1) mod 1024 + 1 = ?c j mod 1024"
    using nonneg [of j] nonneg [of "j - 1"] jc j tw pend_page_run(1) [OF ring, of j] pend_page_run(1) [OF ring, of "j - 1"]
    by (simp add: smod_nonneg)
  have "successively (\<lambda>p q. p mod 1024 + 1 = q mod 1024 \<longrightarrow> q = p + 1) (pending n c s)"
    using sq by (simp add: seq_ok_def)
  moreover have "Suc (nat (j - 1)) < length (pending n c s)" using jc j c0 by simp
  ultimately have "pending n c s ! nat (j - 1) mod 1024 + 1 = pending n c s ! Suc (nat (j - 1)) mod 1024 \<longrightarrow>
      pending n c s ! Suc (nat (j - 1)) = pending n c s ! nat (j - 1) + 1"
    by (simp add: successively_conv_nth)
  moreover have "Suc (nat (j - 1)) = nat j" using j by simp
  ultimately have "?c j = ?c (j - 1) + 1" using md mem(1) [of j] mem(1) [of "j - 1"] jc j by simp
  moreover have "?c 0 mod 1024 + j < 1024"
  proof -
    have "?c (j - 1) mod 1024 = ?c 0 mod 1024 + (j - 1)"
      using IH by (metis (no_types, opaque_lifting) add_nonneg_nonneg j(1) mod_add_left_eq mod_pos_pos_trivial pos_mod_sign zero_less_numeral zle_diff1_eq)
    then show ?thesis using md pos_mod_bound [of 1024 "?c j"] by simp
  qed
  ultimately show ?case using IH jc by simp
qed

section \<open>The flush\<close>

lemma local_run:
  assumes "total_writeOut s dvd 1024" and "0 \<le> k" and "0 < r" and "k + r \<le> total_writeOut s"
  shows "wo_page n k s mod 1024 + r \<le> 1024"
proof -
  let ?tw = "total_writeOut s"
  obtain m where m: "1024 = ?tw * m" using assms(1) by blast
  have tw: "0 < ?tw" using assms by simp
  then have m0: "0 < m" using m by (metis zero_less_mult_pos zero_less_numeral)
  have e: "wo_page n k s = ?tw * n + k" by (simp add: wo_page_def mult.commute)
  have "wo_page n k s div ?tw = n" "wo_page n k s mod ?tw = k"
    using int_div_pos_eq [OF e] int_mod_pos_eq [OF e] assms by simp_all
  then have "wo_page n k s mod (?tw * m) = ?tw * (n mod m) + k"
    using m0 by (subst zmod_zmult2_eq) simp_all
  then have "wo_page n k s mod 1024 = ?tw * (n mod m) + k" by (simp only: m)
  moreover have "?tw * (n mod m) + ?tw \<le> ?tw * m"
  proof -
    have "n mod m + 1 \<le> m" using m0 by (simp add: zless_imp_add1_zle)
    then have "?tw * (n mod m + 1) \<le> ?tw * m" using tw by (intro mult_left_mono) simp_all
    then show ?thesis by (simp add: distrib_left)
  qed
  ultimately show ?thesis using assms(4) m by simp
qed

lemma flush_buff_correct:
  assumes X: "rdma_transfers X virt rem up" and s: "ready virt s" and tw: "total_writeOut s dvd 1024"
    and n: "far_ok n s" "n < total_nodes s" "up (io s) n"
    and ring: "ring_ok n c s" and sq: "seq_ok n s (pending n c s)"
  obtains r t where "COMEX_flush_buff X n s = Some (set_pos n ((pos_at n s)\<lparr>head := (head (pos_at n s) + r) mod total_writeOut s\<rparr>)
      (set_row n (clear_row (head (pos_at n s)) r (COMEX_writeOut_buff s ! nat n)) (s\<lparr>io := t\<rparr>)))"
    and "run_at n (head (pos_at n s)) r s" and "0 < c \<Longrightarrow> 0 < r" and "up t = up (io s)"
    and "r = 0 \<Longrightarrow> t = io s"
    and "0 < r \<Longrightarrow> rem t = (rem (io s))(n := copy_from (mem s) (here_addr (wo_page n (head (pos_at n s)) s) s)
      (far_addr n (pend_page n 0 s) s) (of_nat (nat r) * X86PageSize) (rem (io s) n))"
proof -
  let ?p = "pos_at n s" and ?tw = "total_writeOut s" and ?row = "COMEX_writeOut_buff s ! nat n"
  let ?h = "head ?p"
  let ?s1 = "set_pos n (?p\<lparr>pos_mutex := True\<rparr>) s"
  have n0: "0 \<le> n" "n < int (length (buff_pos s))" and h: "0 \<le> ?h" "?h < ?tw" and row: "row_ok n s"
    and mx: "\<not> pos_mutex ?p"
    using ring n(1) by (simp_all add: ring_ok_def far_ok_def)
  have row1: "row_ok n ?s1" using row by simp
  have h1: "?h + 0 < total_writeOut ?s1" using h by simp
  obtain r where r: "flush_loop n ?h ?tw 0 ?s1 = Some (r, set_row n (mark_row ?h r ?row) ?s1)" "run_at n ?h r ?s1"
    using flush_loop_correct [OF row1 h(1) order_refl h1] by auto
  have run: "run_at n ?h r s" using r(2) by (simp add: run_at_def)
  have cr: "0 < r" if "0 < c"
    using run_at_bounds(3) [OF run] that pend_page_run(2) [OF ring, of 0] h by simp
  have get: "arr_get (buff_pos s) n = Some ?p" using n0 by (simp add: arr_simps pos_at_def)
  have lock: "pos_upd n (\<lambda>p. p\<lparr>pos_mutex := True\<rparr>) s = Some ?s1" using n0 by (simp add: pos_upd_ok)
  have same: "?p\<lparr>pos_mutex := False\<rparr> = ?p" using mx by (cases ?p) simp
  have same2: "?p\<lparr>head := x, pos_mutex := False\<rparr> = ?p\<lparr>head := x\<rparr>" for x using mx by (cases ?p) simp
  have start: "COMEX_flush_buff X n s = (let s2 = set_row n (mark_row ?h r ?row) ?s1 in
      if r = 0 then pos_upd n (\<lambda>p. p\<lparr>pos_mutex := False\<rparr>) s2
      else do {
         d \<leftarrow> wo_get n ?h s2;
         let addr_struct = \<lparr>local_off = get_writeOut_buff n ?h s2,
           remote_off = push_bit 12 (of_int (bpageNO d)), asize = r, bufIDX = ?h\<rparr>;
         s \<leftarrow> pos_upd n (\<lambda>p. p\<lparr>head := i16 (head p + r)\<rparr>) s2;
         s \<leftarrow> (if total_writeOut s = 0 then None
           else pos_upd n (\<lambda>p. p\<lparr>head := head p smod total_writeOut s\<rparr>) s);
         s \<leftarrow> COMEX_RDMA X n CODE_COMEX_PAGE_WRTE (Address addr_struct) 24 s;
         pos_upd n (\<lambda>p. p\<lparr>pos_mutex := False\<rparr>) s
       })"
    unfolding COMEX_flush_buff_def using get mx lock r(1) by (simp add: Let_def)
  show thesis
  proof (cases "r = 0")
    case True
    have "COMEX_flush_buff X n s = Some (set_pos n (?p\<lparr>head := (?h + r) mod ?tw\<rparr>)
        (set_row n (clear_row ?h r ?row) (s\<lparr>io := io s\<rparr>)))"
      using start True n0 row1 row h same by (simp add: pos_upd_ok)
    then show thesis using that [of r "io s"] run True cr by auto
  next
    case False
    then have r0: "0 < r" using run_at_bounds(1) [OF run] by simp
    have hr: "?h + r \<le> ?tw" using run_at_bounds(2) [OF run] .
    have len: "int (length ?row) = ?tw" using row h by (simp add: row_ok_def)
    let ?s2 = "set_row n (mark_row ?h r ?row) ?s1"
    let ?q = "?p\<lparr>head := (?h + r) mod ?tw, pos_mutex := True\<rparr>"
    let ?s3 = "set_row n (mark_row ?h r ?row) (set_pos n ?q s)"
    have row2: "row_ok n ?s2" "row_ok n ?s3" using row1 row len by simp_all
    have d2: "wo_get n ?h ?s2 = Some ((wo_at n ?h s)\<lparr>status := 3\<rparr>)"
      using wo_get_ok [OF row2(1), of ?h] h wo_at_set_row [OF row1 n0(1), of ?h] len r0 by (simp add: wo_at_def)
    have rc: "0 < c" using run_pages [OF ring sq run, of 0] r0 by simp
    then have p0: "bpageNO (wo_at n ?h s) = pend_page n 0 s" using pend_page_run(1) [OF ring, of 0] h by simp
    have far: "in_far n (pend_page n 0 s) s"
      using sq rc by (auto simp: seq_ok_def pending_def)
    have "?tw < 2 ^ 15" using s by (simp add: ready_def conf_ok_def)
    then have i16: "i16 (?h + r) = ?h + r" using hr h(1) r0 by simp
    have q: "set_pos n ((pos_at n ?s2)\<lparr>head := ?h + r\<rparr>) ?s2 = set_row n (mark_row ?h r ?row) (set_pos n (?p\<lparr>head := ?h + r, pos_mutex := True\<rparr>) s)"
      using n0 by (simp add: set_pos_row)
    have pr: "pend_page n 0 s mod 1024 + r \<le> 1024"
      using run_pages [OF ring sq run, of "r - 1"] r0 by simp
    have wr: "wo_page n ?h ?s3 mod 1024 + int (nat r) \<le> 1024"
      using local_run [OF tw h(1) r0 hr, of n] r0 by simp
    have rdy3: "ready virt ?s3" "far_ok n ?s3" "n < total_nodes ?s3" "up (io ?s3) n" "?h + int (nat r) \<le> total_writeOut ?s3"
      "pend_page n 0 s mod 1024 + int (nat r) \<le> 1024" "in_far n (pend_page n 0 s) ?s3"
      using s n hr r0 far pr by simp_all
    have nr: "0 < nat r" using r0 by simp
    obtain t where t: "COMEX_RDMA X n CODE_COMEX_PAGE_WRTE
        (Address \<lparr>local_off = get_writeOut_buff n ?h ?s3, remote_off = push_bit 12 (of_int (pend_page n 0 s)),
           asize = int (nat r), bufIDX = ?h\<rparr>) 24 ?s3
        = Some (set_row n (clear_row ?h (int (nat r)) (COMEX_writeOut_buff ?s3 ! nat n)) (?s3\<lparr>io := t\<rparr>))"
      "up t = up (io ?s3)"
      "rem t = (rem (io ?s3))(n := copy_from (mem ?s3) (here_addr (wo_page n ?h ?s3) ?s3) (far_addr n (pend_page n 0 s) ?s3)
        (of_nat (nat r) * X86PageSize) (rem (io ?s3) n))"
      using RDMA_write_run [OF X rdy3(1,2) row2(2) rdy3(3,4) h(1) nr rdy3(5) wr rdy3(6,7), of 24] by auto
    have fin: "set_row n (clear_row ?h (int (nat r)) (COMEX_writeOut_buff ?s3 ! nat n)) (?s3\<lparr>io := t\<rparr>)
        = set_row n (clear_row ?h r ?row) ((set_pos n ?q s)\<lparr>io := t\<rparr>)"
      using row r0 by (simp add: set_pos_row)
    let ?s4 = "set_row n (clear_row ?h r ?row) ((set_pos n ?q s)\<lparr>io := t\<rparr>)"
    have s3: "set_pos n ((?p\<lparr>head := ?h + r, pos_mutex := True\<rparr>)\<lparr>head := (?h + r) smod ?tw\<rparr>)
        (set_row n (mark_row ?h r ?row) (set_pos n (?p\<lparr>head := ?h + r, pos_mutex := True\<rparr>) s)) = ?s3"
      using h r0 by (simp add: set_pos_row smod_nonneg)
    have unl: "pos_upd n (\<lambda>p. p\<lparr>pos_mutex := False\<rparr>) ?s4 = Some (set_pos n (?p\<lparr>head := (?h + r) mod ?tw\<rparr>)
        (set_row n (clear_row ?h r ?row) (s\<lparr>io := t\<rparr>)))"
      using n0 same mx by (simp add: pos_upd_ok set_pos_row) (simp add: pos_at_def set_pos_def set_row_def same2 [unfolded pos_at_def])
    have "COMEX_flush_buff X n s = Some (set_pos n (?p\<lparr>head := (?h + r) mod ?tw\<rparr>)
        (set_row n (clear_row ?h r ?row) (s\<lparr>io := t\<rparr>)))"
      using start False d2 n0 h p0 i16 q t(1) fin s3 unl r0
      by (simp add: pos_upd_ok Let_def set_pos_row smod_nonneg)
    then show thesis using that [of r t] run t r0 by simp
  qed
qed

section \<open>What a lender will deliver\<close>

definition slot_of :: "int \<Rightarrow> int \<Rightarrow> 'r node \<Rightarrow> nat option" where
  "slot_of n p s = List.find (\<lambda>k. bpageNO (wo_at n (int k) s) = p \<and> status (wo_at n (int k) s) = 2)
     [0..<nat (total_writeOut s)]"

definition stored :: "('r \<Rightarrow> int \<Rightarrow> mem) \<Rightarrow> int \<Rightarrow> int \<Rightarrow> 'r node \<Rightarrow> u64 \<Rightarrow> byte" where
  "stored rem n p s =
     (case slot_of n p s of
        Some k \<Rightarrow> page_data (mem s) (here_addr (wo_page n (int k) s) s)
      | None \<Rightarrow> page_data (rem (io s) n) (far_addr n p s))"

definition holds_page :: "int \<Rightarrow> int \<Rightarrow> int \<Rightarrow> 'r node \<Rightarrow> bool" where
  "holds_page n p k s \<longleftrightarrow> 0 \<le> k \<and> k < total_writeOut s \<and> bpageNO (wo_at n k s) = p \<and> status (wo_at n k s) = 2"

lemma slot_of_None: "slot_of n p s = None \<longleftrightarrow> (\<forall>k. \<not> holds_page n p k s)"
proof -
  have "(\<exists>k. holds_page n p k s) \<longleftrightarrow> (\<exists>k < nat (total_writeOut s). holds_page n p (int k) s)"
  proof
    assume "\<exists>k. holds_page n p k s"
    then obtain k where "holds_page n p k s" by blast
    then show "\<exists>k < nat (total_writeOut s). holds_page n p (int k) s"
      by (intro exI [of _ "nat k"]) (simp add: holds_page_def)
  qed auto
  then show ?thesis
    by (auto simp: slot_of_def find_None_iff holds_page_def)
qed

lemma slot_of_SomeD: "slot_of n p s = Some k \<Longrightarrow> holds_page n p (int k) s"
  by (auto simp: slot_of_def find_Some_iff holds_page_def)

definition one_slot :: "int \<Rightarrow> 'r node \<Rightarrow> bool" where
  "one_slot n s \<longleftrightarrow> (\<forall>p k j. holds_page n p k s \<longrightarrow> holds_page n p j s \<longrightarrow> k = j)"

lemma slot_of_unique: "one_slot n s \<Longrightarrow> holds_page n p k s \<Longrightarrow> slot_of n p s = Some (nat k)"
proof -
  assume u: "one_slot n s" and h: "holds_page n p k s"
  then obtain j where j: "slot_of n p s = Some j" using slot_of_None [of n p s] by (cases "slot_of n p s") auto
  then have "int j = k" using slot_of_SomeD [OF j] u h unfolding one_slot_def by blast
  then show ?thesis using j by auto
qed

lemma stored_here: "one_slot n s \<Longrightarrow> holds_page n p k s \<Longrightarrow>
    stored rem n p s = page_data (mem s) (here_addr (wo_page n k s) s)"
  using slot_of_unique [of n s p k] by (simp add: stored_def holds_page_def)

lemma stored_far: "(\<And>k. \<not> holds_page n p k s) \<Longrightarrow> stored rem n p s = page_data (rem (io s) n) (far_addr n p s)"
  using slot_of_None [of n p s] by (simp add: stored_def)

text \<open>A slot of the ring by its distance from \<open>head\<close>.\<close>

lemma ring_slot:
  assumes "ring_ok n c s" and "holds_page n p k s"
  shows "0 \<le> (k - head (pos_at n s)) mod total_writeOut s" and "(k - head (pos_at n s)) mod total_writeOut s < c"
    and "pend_page n ((k - head (pos_at n s)) mod total_writeOut s) s = p"
proof -
  have tw: "0 < total_writeOut s" using assms(2) by (simp add: holds_page_def)
  then show "0 \<le> (k - head (pos_at n s)) mod total_writeOut s" by simp
  show "(k - head (pos_at n s)) mod total_writeOut s < c"
    using assms by (auto simp: ring_ok_def holds_page_def split: if_splits)
  have "(head (pos_at n s) + (k - head (pos_at n s)) mod total_writeOut s) mod total_writeOut s = k"
    using assms(2) by (simp add: mod_add_right_eq holds_page_def)
  then show "pend_page n ((k - head (pos_at n s)) mod total_writeOut s) s = p"
    using assms(2) by (simp add: pend_page_def holds_page_def)
qed

lemma ring_one_slot:
  assumes "ring_ok n c s" and "distinct (pending n c s)"
  shows "one_slot n s"
  unfolding one_slot_def
proof (intro allI impI)
  fix p k j assume h: "holds_page n p k s" "holds_page n p j s"
  let ?d = "\<lambda>k. (k - head (pos_at n s)) mod total_writeOut s"
  note rk = ring_slot [OF assms(1) h(1)] and rj = ring_slot [OF assms(1) h(2)]
  have c: "0 \<le> c" using assms(1) by (simp add: ring_ok_def)
  have "pending n c s ! nat (?d k) = pending n c s ! nat (?d j)"
    using rk rj c by (simp add: nth_pending)
  then have "nat (?d k) = nat (?d j)"
    using assms(2) rk rj c by (subst (asm) nth_eq_iff_index_eq) (simp_all)
  then have "?d k = ?d j" using rk(1) rj(1) by simp
  then have "k mod total_writeOut s = j mod total_writeOut s"
    by (metis add.commute diff_add_cancel mod_add_right_eq)
  then show "k = j" using h by (simp add: holds_page_def)
qed

lemma holds_cleared:
  assumes "row_ok n s" and "0 \<le> n" and "0 \<le> h"
  shows "holds_page n p k (set_pos n q (set_row n (clear_row h r (COMEX_writeOut_buff s ! nat n)) (s\<lparr>io := t\<rparr>)))
    \<longleftrightarrow> holds_page n p k s \<and> \<not> (h \<le> k \<and> k < h + r)"
proof (cases "0 \<le> k \<and> k < total_writeOut s")
  case True
  have len: "nat k < length (COMEX_writeOut_buff s ! nat n)" using assms(1) True by (simp add: row_ok_def nat_less_iff)
  have "row_ok n (s\<lparr>io := t\<rparr>)" using assms(1) by simp
  from wo_at_set_row [OF this assms(2), of k] show ?thesis
    using True len by (simp add: holds_page_def wo_at_def no_desc_def)
qed (auto simp: holds_page_def)

lemma here_run:
  assumes "wo_page n h s mod 1024 + int k < 1024" and "0 \<le> wo_page n h s"
  shows "here_addr (wo_page n (h + int k) s) s = here_addr (wo_page n h s) s + of_nat k * X86PageSize"
  using big_addr_run [OF assms(2,1)] by (simp add: here_addr_def wo_page_def algebra_simps)

text \<open>
  The flush keeps what the lender will deliver: the pages it moves are then in the lender's memory,
  every other page is where it was.
\<close>

lemma flush_stored:
  assumes s: "ready virt s" and tw: "total_writeOut s dvd 1024" and n: "far_ok n s" "n < total_nodes s"
    and ring: "ring_ok n c s" and sq: "seq_ok n s (pending n c s)"
    and run: "run_at n (head (pos_at n s)) r s" and t: "r = 0 \<Longrightarrow> rem t = rem (io s)"
    "0 < r \<Longrightarrow> rem t = (rem (io s))(n := copy_from (mem s) (here_addr (wo_page n (head (pos_at n s)) s) s)
      (far_addr n (pend_page n 0 s) s) (of_nat (nat r) * X86PageSize) (rem (io s) n))"
    and s': "s' = set_pos n q (set_row n (clear_row (head (pos_at n s)) r (COMEX_writeOut_buff s ! nat n)) (s\<lparr>io := t\<rparr>))"
    and p: "in_far n p s"
  shows "stored rem n p s' = stored rem n p s"
proof -
  let ?h = "head (pos_at n s)"
  have n0: "0 \<le> n" and row: "row_ok n s" and h: "0 \<le> ?h" using n(1) ring by (simp_all add: far_ok_def ring_ok_def)
  have hr: "?h + r \<le> total_writeOut s" "0 \<le> r" using run_at_bounds [OF run] by simp_all
  have hold: "holds_page n p k s' \<longleftrightarrow> holds_page n p k s \<and> \<not> (?h \<le> k \<and> k < ?h + r)" for p k
    unfolding s' by (rule holds_cleared [OF row n0 h])
  have one: "one_slot n s" using ring_one_slot [OF ring] sq by (simp add: seq_ok_def)
  then have one': "one_slot n s'" using hold unfolding one_slot_def by metis
  have view: "mem s' = mem s" "here_addr (wo_page n k s') s' = here_addr (wo_page n k s) s" "far_addr n p s' = far_addr n p s"
    "io s' = t" for k by (simp_all add: s')
  show ?thesis
  proof (cases "\<exists>k. holds_page n p k s")
    case False
    then have f: "stored rem n p s = page_data (rem (io s) n) (far_addr n p s)"
      "stored rem n p s' = page_data (rem t n) (far_addr n p s)"
      using stored_far [of n p s rem] stored_far [of n p s' rem] hold view by auto
    show ?thesis
    proof (cases "r = 0")
      case True
      then show ?thesis using f t(1) by simp
    next
      case r: False
      have "disj_pages (far_addr n p s) (far_addr n (pend_page n 0 s) s + of_nat j * X86PageSize)" if j: "j < nat r" for j
      proof -
        have rp: "int j < c \<and> pend_page n (int j) s = pend_page n 0 s + int j \<and> pend_page n 0 s mod 1024 + int j < 1024"
          using run_pages [OF ring sq run, of "int j"] j by simp
        then have c0: "0 < c" by simp
        have st: "status (wo_at n (?h + int j) s) = 2" using run_at_bounds(4) [OF run, of "?h + int j"] j by simp
        have "holds_page n (pend_page n 0 s + int j) (?h + int j) s"
          using pend_page_run(1) [OF ring, of "int j"] rp st h hr j by (simp add: holds_page_def)
        then have "p \<noteq> pend_page n 0 s + int j" using False by auto
        moreover have "in_far n (pend_page n 0 s) s" "in_far n (pend_page n 0 s + int j) s"
          using sq rp c0 by (auto simp: seq_ok_def pending_def dest: bspec [where x = "int j"])
        moreover have "shift_ok s" using s by (simp add: ready_def)
        ultimately show ?thesis
          using far_disjoint [OF n(1) p, of "pend_page n 0 s + int j"] far_addr_run [of s "pend_page n 0 s" j n] rp
          by (simp add: in_far_def)
      qed
      moreover have "nat r \<le> 1024" using hr h tw by (auto dest!: zdvd_imp_le)
      ultimately show ?thesis using f t(2) r hr(2) by (simp add: page_data_run_frame del: of_nat_nat)
    qed
  next
    case True
    then obtain k where k: "holds_page n p k s" by auto
    show ?thesis
    proof (cases "?h \<le> k \<and> k < ?h + r")
      case False
      then have "holds_page n p k s'" using hold k by simp
      then show ?thesis using stored_here [OF one k] stored_here [OF one'] view by simp
    next
      case in_run: True
      obtain j where j: "k = ?h + int j" "j < nat r"
        using in_run by (intro that [of "nat (k - ?h)"]) auto
      have rp: "pend_page n (int j) s = pend_page n 0 s + int j" "pend_page n 0 s mod 1024 + int j < 1024" "int j < c"
        using run_pages [OF ring sq run, of "int j"] j by simp_all
      have pk: "p = pend_page n 0 s + int j"
        using k pend_page_run(1) [OF ring, of "int j"] j in_run hr rp(1) by (simp add: holds_page_def)
      have "\<not> holds_page n p i s'" for i
        using hold [of p i] one k in_run unfolding one_slot_def by blast
      then have "stored rem n p s' = page_data (rem t n) (far_addr n p s)"
        using stored_far [of n p s' rem] view by simp
      also have "far_addr n p s = far_addr n (pend_page n 0 s) s + of_nat j * X86PageSize"
      proof -
        have "0 < c" using rp(3) by linarith
        then have "in_far n (pend_page n 0 s) s" using sq by (simp add: seq_ok_def pending_def)
        then show ?thesis using far_addr_run [of s "pend_page n 0 s" j n] s rp(2) pk by (simp add: ready_def in_far_def)
      qed
      also have "page_data (rem t n) (far_addr n (pend_page n 0 s) s + of_nat j * X86PageSize)
          = page_data (mem s) (here_addr (wo_page n ?h s) s + of_nat j * X86PageSize)"
      proof -
        have "nat r \<le> 1024" using hr h tw by (auto dest!: zdvd_imp_le)
        then show ?thesis using t(2) j(2) page_data_copy_run [OF j(2)] by (simp del: of_nat_nat)
      qed
      also have "here_addr (wo_page n ?h s) s + of_nat j * X86PageSize = here_addr (wo_page n k s) s"
      proof -
        have "wo_page n ?h s mod 1024 + r \<le> 1024" using local_run [OF tw h _ hr(1), of n] j(2) by simp
        moreover have "0 \<le> wo_page n ?h s"
          using wo_page_bounds [of s n ?h] s n0 n(2) h ring by (simp add: ready_def ring_ok_def)
        ultimately show ?thesis using here_run [of n ?h s j] j by simp
      qed
      finally show ?thesis using stored_here [OF one k] by simp
    qed
  qed
qed

end
