(* ===== verification/Comex_Store.thy ===== *)
theory Comex_Store
  imports Comex_Flush
begin

text \<open>
  Storing a page with a lender, whole: \<open>COMEX_move_to_Remote\<close> with its requests for more pages, its
  flushes, its search for a lender with free pages.  The invariant of the sending side is kept, the
  stored page can be read back, and no other stored page changes.
\<close>

section \<open>Messages\<close>

text \<open>
  Sending a message and waiting for its completion does not touch the memory of the node or of the
  lenders (nor, in this sequential view, does anybody else meanwhile).
\<close>

definition rdma_messages :: "'r ext \<Rightarrow> ('r \<Rightarrow> int \<Rightarrow> mem) \<Rightarrow> ('r \<Rightarrow> int \<Rightarrow> bool) \<Rightarrow> bool" where
  "rdma_messages X rem up \<longleftrightarrow>
     (\<forall>i wr pl m r. wr_op wr = IB_WR_SEND_WITH_IMM \<longrightarrow>
        (\<exists>k r'. ib_post_send X i wr pl (m, r) = (k, m, r') \<and> rem r' = rem r \<and> up r' = up r)) \<and>
     (\<forall>i sm m r. sm \<in> {Sem_verb_mutex i, Sem_verb_ack i} \<longrightarrow>
        (\<exists>k r'. down_killable X sm (m, r) = (k, m, r') \<and> rem r' = rem r \<and> up r' = up r)) \<and>
     (\<forall>sm r. rem (up_sem X sm r) = rem r \<and> up (up_sem X sm r) = up r)"

lemma messages_down:
  assumes "rdma_messages X rem up" and "sm \<in> {Sem_verb_mutex i, Sem_verb_ack i}"
  obtains k r' where "down_killable X sm (m, r) = (k, m, r')" and "rem r' = rem r" and "up r' = up r"
  using assms unfolding rdma_messages_def by meson

lemma messages_post:
  assumes "rdma_messages X rem up" and "wr_op wr = IB_WR_SEND_WITH_IMM"
  obtains k r' where "ib_post_send X i wr pl (m, r) = (k, m, r')" and "rem r' = rem r" and "up r' = up r"
  using assms unfolding rdma_messages_def by meson

definition send_ok :: "krping_cb \<Rightarrow> bool" where
  "send_ok cb \<longleftrightarrow> length (sq_wr cb) = 24 \<and> length (send_buf cb) = 24 \<and> 0 \<le> vslotusing cb \<and> vslotusing cb < 24 \<and>
     (\<forall>wr \<in> set (sq_wr cb). wr_op wr = IB_WR_SEND_WITH_IMM)"

definition same_links :: "krping_cb list \<Rightarrow> krping_cb list \<Rightarrow> bool" where
  "same_links cs ds \<longleftrightarrow> length ds = length cs \<and>
     (\<forall>j < length cs. remote_addr (ds ! j) = remote_addr (cs ! j) \<and> remote_pcount (ds ! j) = remote_pcount (cs ! j) \<and>
        (send_ok (cs ! j) \<longrightarrow> send_ok (ds ! j)))"

lemma same_links_refl [simp]: "same_links cs cs"
  by (simp add: same_links_def)

lemma same_links_trans: "same_links cs ds \<Longrightarrow> same_links ds es \<Longrightarrow> same_links cs es"
  by (simp add: same_links_def)

lemma same_links_upd:
  assumes "i < length cs" and "remote_addr cb = remote_addr (cs ! i)" and "remote_pcount cb = remote_pcount (cs ! i)"
    and "send_ok (cs ! i) \<longrightarrow> send_ok cb"
  shows "same_links cs (cs[i := cb])"
  using assms by (auto simp: same_links_def nth_list_update)

lemma universal_send_ok:
  assumes X: "rdma_messages X rem up" and i: "0 \<le> i" "i < int (length (cbs s))" and cb: "send_ok (cbs s ! nat i)"
    and sz: "sz \<le> 168"
  shows "\<exists>cs r. universal_send X i imm pl sz s = Some (0, s\<lparr>cbs := cs, io := r\<rparr>) \<and> same_links (cbs s) cs \<and>
    rem r = rem (io s) \<and> up r = up (io s)"
proof -
  let ?cb = "cbs s ! nat i"
  let ?wr = "(sq_wr ?cb ! nat (vslotusing ?cb))\<lparr>sge_length := of_int sz, wr_imm := imm\<rparr>"
  let ?cb2 = "?cb\<lparr>vslotusing := (vslotusing ?cb + 1) smod VERB_SEND_SLOT,
      send_buf := (send_buf ?cb)[nat (vslotusing ?cb) := pl], sq_wr := (sq_wr ?cb)[nat (vslotusing ?cb) := ?wr]\<rparr>"
  have v: "0 \<le> vslotusing ?cb" "vslotusing ?cb < 24" "length (sq_wr ?cb) = 24" "length (send_buf ?cb) = 24"
    "nat (vslotusing ?cb) < length (sq_wr ?cb)"
    using cb by (auto simp: send_ok_def)
  have op: "wr_op ?wr = IB_WR_SEND_WITH_IMM" using cb v(5) by (simp add: send_ok_def)
  have v2: "(vslotusing ?cb + 1) smod VERB_SEND_SLOT = (vslotusing ?cb + 1) mod 24"
    using v by (simp add: smod_nonneg VERB_SEND_SLOT_def)
  have links: "same_links (cbs s) ((cbs s)[nat i := ?cb2])"
  proof (rule same_links_upd)
    show "send_ok (cbs s ! nat i) \<longrightarrow> send_ok ?cb2"
    proof
      have "set ((sq_wr ?cb)[nat (vslotusing ?cb) := ?wr]) \<subseteq> insert ?wr (set (sq_wr ?cb))"
        by (rule set_update_subset_insert)
      moreover have "\<forall>wr \<in> set (sq_wr ?cb). wr_op wr = IB_WR_SEND_WITH_IMM" using cb by (simp add: send_ok_def)
      ultimately have "\<forall>wr \<in> set ((sq_wr ?cb)[nat (vslotusing ?cb) := ?wr]). wr_op wr = IB_WR_SEND_WITH_IMM"
        using op by blast
      then show "send_ok ?cb2" using v(3,4) by (simp add: send_ok_def v2)
    qed
  qed (use i in \<open>simp_all add: nat_less_iff\<close>)
  obtain k1 r1 where d1: "down_killable X (Sem_verb_mutex i) (mem s, io s) = (k1, mem s, r1)" "rem r1 = rem (io s)" "up r1 = up (io s)"
    using messages_down [OF X, of "Sem_verb_mutex i" i "mem s" "io s"] by auto
  let ?r = "up_sem X (Sem_verb_mutex i) r1"
  have r: "rem ?r = rem (io s)" "up ?r = up (io s)" using X d1 by (simp_all add: rdma_messages_def)
  obtain k2 r2 where p: "ib_post_send X i ?wr pl (mem s, ?r) = (k2, mem s, r2)" "rem r2 = rem (io s)" "up r2 = up (io s)"
    using messages_post [OF X op, of i pl "mem s" ?r] r by auto
  obtain k3 r3 where d3: "down_killable X (Sem_verb_ack i) (mem s, r2) = (k3, mem s, r3)" "rem r3 = rem (io s)" "up r3 = up (io s)"
    using messages_down [OF X, of "Sem_verb_ack i" i "mem s" r2] p by auto
  have same: "s\<lparr>cbs := cs, mem := mem s, io := t\<rparr> = s\<lparr>cbs := cs, io := t\<rparr>" for cs t by (cases s) simp
  have "universal_send X i imm pl sz s =
      Some (0, s\<lparr>cbs := (cbs s)[nat i := ?cb2], mem := mem s, io := (if wr_signaled ?wr then r3 else r2)\<rparr>)"
    unfolding universal_send_def arr_get_in [OF i]
    using sz i v d1(1) p(1) d3(1) by (simp add: Let_def arr_get_in arr_set_in sizeof_bufferx_def)
  then show ?thesis
    unfolding same using links p(2,3) d3(2,3)
    by (intro exI [of _ "(cbs s)[nat i := ?cb2]"] exI [of _ "if wr_signaled ?wr then r3 else r2"]) simp
qed

section \<open>Steps that the stored pages do not notice\<close>

definition core_eq :: "('r \<Rightarrow> int \<Rightarrow> mem) \<Rightarrow> ('r \<Rightarrow> int \<Rightarrow> bool) \<Rightarrow> 'r node \<Rightarrow> 'r node \<Rightarrow> bool" where
  "core_eq rem up s t \<longleftrightarrow> conf t = conf s \<and> bigspace t = bigspace s \<and> hooked t = hooked s \<and>
     remote_shift_offset t = remote_shift_offset s \<and> same_links (cbs s) (cbs t) \<and> mem t = mem s \<and>
     COMEX_writeOut_buff t = COMEX_writeOut_buff s \<and> buff_pos t = buff_pos s \<and>
     length (COMEX_free_group t) = length (COMEX_free_group s) \<and>
     (\<forall>j < length (COMEX_free_group s). free_group (COMEX_free_group t ! j) = free_group (COMEX_free_group s ! j) \<and>
        total_page (COMEX_free_group t ! j) = total_page (COMEX_free_group s ! j)) \<and>
     rem (io t) = rem (io s) \<and> up (io t) = up (io s)"

lemma core_eq_refl [simp]: "core_eq rem up s s"
  by (simp add: core_eq_def)

lemma core_eq_trans: "core_eq rem up s t \<Longrightarrow> core_eq rem up t u \<Longrightarrow> core_eq rem up s u"
  by (auto simp: core_eq_def intro: same_links_trans)

text \<open>The sending side of one lender, apart from its lock.\<close>

definition lender_ok :: "('r \<Rightarrow> int \<Rightarrow> bool) \<Rightarrow> int \<Rightarrow> int \<Rightarrow> 'r node \<Rightarrow> bool" where
  "lender_ok up n c s \<longleftrightarrow> far_ok n s \<and> n < total_nodes s \<and> up (io s) n \<and> ring_ok n c s \<and> lent_ok s n \<and>
     send_ok (cbs s ! nat n) \<and> seq_ok n s (pending n c s @ lent_queue s n)"

lemma core_eq_views:
  assumes e: "core_eq rem up s t"
  shows "ready virt t = ready virt s" and "here_addr p t = here_addr p s" and "wo_page n k t = wo_page n k s"
    and "wo_at n k t = wo_at n k s" and "pos_at n t = pos_at n s" and "slot_of n p t = slot_of n p s"
    and "ring_ok n c t = ring_ok n c s" and "pending n c t = pending n c s" and "row_ok n t = row_ok n s"
    and "conf t = conf s" and "mem t = mem s"
proof -
  have c: "conf t = conf s" "bigspace t = bigspace s" "hooked t = hooked s"
    "remote_shift_offset t = remote_shift_offset s" "mem t = mem s" "COMEX_writeOut_buff t = COMEX_writeOut_buff s"
    "buff_pos t = buff_pos s" "(cbs t = []) = (cbs s = [])"
    using e by (auto simp: core_eq_def same_links_def)
  show "ready virt t = ready virt s" and "here_addr p t = here_addr p s" and "wo_page n k t = wo_page n k s"
    and wo: "\<And>n k. wo_at n k t = wo_at n k s" and po: "\<And>n. pos_at n t = pos_at n s" and ro: "row_ok n t = row_ok n s"
    and "conf t = conf s" and "mem t = mem s"
    using c by (simp_all add: ready_def conf_ok_def shift_ok_def shift_pages_def here_addr_def wo_page_def wo_at_def
        pos_at_def row_ok_def)
  show "slot_of n p t = slot_of n p s" "ring_ok n c t = ring_ok n c s" "pending n c t = pending n c s"
    using c wo po ro by (simp_all add: slot_of_def ring_ok_def pending_def pend_page_def)
qed

lemma core_eq_far:
  assumes e: "core_eq rem up s t" and n: "0 \<le> n" "n < int (length (cbs s))"
  shows "far_ok n t = far_ok n s" and "far_addr n p t = far_addr n p s" and "in_far n p t = in_far n p s"
    and "stored rem n p t = stored rem n p s"
proof -
  have k: "nat n < length (cbs s)" using n by (simp add: nat_less_iff)
  have c: "remote_addr (cbs t ! nat n) = remote_addr (cbs s ! nat n)" "remote_pcount (cbs t ! nat n) = remote_pcount (cbs s ! nat n)"
    "length (cbs t) = length (cbs s)" "remote_shift_offset t = remote_shift_offset s" "rem (io t) = rem (io s)"
    using e k by (auto simp: core_eq_def same_links_def)
  show "far_ok n t = far_ok n s" and far: "far_addr n p t = far_addr n p s" and "in_far n p t = in_far n p s"
    using c by (simp_all add: far_ok_def far_addr_def in_far_def shift_pages_def linked_up_def)
  show "stored rem n p t = stored rem n p s"
    using core_eq_views [OF e] far c(5) by (simp add: stored_def split: option.split)
qed

lemma core_eq_lender:
  assumes e: "core_eq rem up s t" and l: "lender_ok up n c s"
  shows "lender_ok up n c t" and "lent_queue t n = lent_queue s n" and "lent_total t n = lent_total s n"
proof -
  have n: "0 \<le> n" "n < int (length (cbs s))" using l by (simp_all add: lender_ok_def far_ok_def)
  have g: "0 \<le> n" "n < int (length (COMEX_free_group s))" using l by (simp_all add: lender_ok_def lent_ok_def)
  then have k: "nat n < length (COMEX_free_group s)" "nat n < length (cbs s)" using n by (simp_all add: nat_less_iff)
  show q: "lent_queue t n = lent_queue s n" and "lent_total t n = lent_total s n"
    using e k by (simp_all add: core_eq_def lent_queue_def lent_total_def)
  have "lent_ok t n" using l e k by (simp add: lender_ok_def lent_ok_def core_eq_def lend_ok_def)
  moreover have "send_ok (cbs t ! nat n)" using l e k by (simp add: lender_ok_def core_eq_def same_links_def)
  moreover have "seq_ok n t ps = seq_ok n s ps" for ps using core_eq_far(3) [OF e n] by (simp add: seq_ok_def)
  moreover have "up (io t) n = up (io s) n" using e by (simp add: core_eq_def)
  ultimately show "lender_ok up n c t"
    using l q core_eq_views [OF e] core_eq_far(1) [OF e n] by (simp add: lender_ok_def)
qed

section \<open>The sending side as a whole\<close>

abbreviation nMem :: "'r node \<Rightarrow> int" where "nMem s \<equiv> COMEX_nMemNodes (conf s)"

definition store_inv :: "(u64 \<Rightarrow> u64) \<Rightarrow> ('r \<Rightarrow> int \<Rightarrow> bool) \<Rightarrow> 'r node \<Rightarrow> bool" where
  "store_inv virt up s \<longleftrightarrow> ready virt s \<and> total_writeOut s dvd 1024 \<and>
     int (length (COMEX_readIn_buff s)) = total_readIn s \<and>
     (\<forall>n. 0 \<le> n \<longrightarrow> n < nMem s \<longrightarrow> (\<exists>c. lender_ok up n c s))"

definition locks :: "'r node \<Rightarrow> bool list" where
  "locks s = map mutex_FG (COMEX_free_group s)"

text \<open>Nothing that the lenders will deliver has changed.\<close>

definition keeps :: "('r \<Rightarrow> int \<Rightarrow> mem) \<Rightarrow> 'r node \<Rightarrow> 'r node \<Rightarrow> bool" where
  "keeps rem s t \<longleftrightarrow> conf t = conf s \<and> bigspace t = bigspace s \<and>
     (\<forall>n. 0 \<le> n \<longrightarrow> n < nMem s \<longrightarrow> (\<forall>p. in_far n p t = in_far n p s)) \<and>
     (\<forall>n p. 0 \<le> n \<longrightarrow> n < nMem s \<longrightarrow> in_far n p s \<longrightarrow> stored rem n p t = stored rem n p s)"

lemma keeps_refl [simp]: "keeps rem s s"
  by (simp add: keeps_def)

lemma keeps_trans: "keeps rem s t \<Longrightarrow> keeps rem t u \<Longrightarrow> keeps rem s u"
  by (simp add: keeps_def)

lemma store_inv_lender:
  assumes "store_inv virt up s" and "0 \<le> n" and "n < nMem s"
  obtains c where "lender_ok up n c s"
  using assms by (auto simp: store_inv_def)

lemma core_eq_store:
  assumes e: "core_eq rem up s t" and i: "store_inv virt up s"
    and r: "length (COMEX_readIn_buff t) = length (COMEX_readIn_buff s)"
  shows "store_inv virt up t" and "keeps rem s t"
proof -
  have c: "conf t = conf s" "bigspace t = bigspace s" using e by (simp_all add: core_eq_def)
  show "store_inv virt up t"
    using i r c core_eq_views(1) [OF e] core_eq_lender(1) [OF e] by (simp add: store_inv_def) blast
  show "keeps rem s t"
    unfolding keeps_def
  proof (intro conjI allI impI)
    fix n p assume n: "0 \<le> n" "n < nMem s"
    obtain d where "lender_ok up n d s" using store_inv_lender [OF i n] by auto
    then have k: "n < int (length (cbs s))" by (simp add: lender_ok_def far_ok_def)
    show "in_far n p t = in_far n p s" using core_eq_far(3) [OF e n(1) k] .
    show "stored rem n p t = stored rem n p s" using core_eq_far(4) [OF e n(1) k] .
  qed (use c in simp_all)
qed

lemma core_eq_group:
  assumes "free_group g = free_group (COMEX_free_group s ! nat n)" and "total_page g = total_page (COMEX_free_group s ! nat n)"
  shows "core_eq rem up s (set_group n g s)"
proof -
  have "free_group (COMEX_free_group (set_group n g s) ! j) = free_group (COMEX_free_group s ! j) \<and>
      total_page (COMEX_free_group (set_group n g s) ! j) = total_page (COMEX_free_group s ! j)"
    if "j < length (COMEX_free_group s)" for j
    using assms that by (cases "j = nat n") (simp_all add: set_group_def)
  then show ?thesis by (simp add: core_eq_def)
qed

lemma core_eq_cbs_io:
  assumes "same_links (cbs s) cs" and "rem r = rem (io s)" and "up r = up (io s)"
  shows "core_eq rem up s (s\<lparr>cbs := cs, io := r\<rparr>)"
  using assms by (simp add: core_eq_def)

text \<open>Asking for more pages.\<close>

lemma ask_more_ok:
  assumes X: "rdma_messages X rem up" and l: "lender_ok up n c s" and h: "hooked s"
  shows "\<exists>t. ask_more X n s = Some t \<and> core_eq rem up s t \<and> locks t = locks s \<and>
    COMEX_readIn_buff t = COMEX_readIn_buff s \<and> pool t = pool s"
proof -
  let ?g = "COMEX_free_group s ! nat n"
  have n: "0 \<le> n" "n < int (length (COMEX_free_group s))" "n < int (length (cbs s))" "send_ok (cbs s ! nat n)"
    using l by (simp_all add: lender_ok_def lent_ok_def far_ok_def)
  have lk: "locks (set_group n (?g\<lparr>back_off := b\<rparr>) s) = locks s" for b
  proof (rule nth_equalityI)
    fix j assume "j < length (locks (set_group n (?g\<lparr>back_off := b\<rparr>) s))"
    then show "locks (set_group n (?g\<lparr>back_off := b\<rparr>) s) ! j = locks s ! j"
      by (cases "j = nat n") (simp_all add: locks_def set_group_def)
  qed (simp add: locks_def)
  have ce: "core_eq rem up s (set_group n (?g\<lparr>back_off := b\<rparr>) s)" for b
    by (rule core_eq_group) simp_all
  have same: "COMEX_readIn_buff (set_group n g s) = COMEX_readIn_buff s" for g by simp
  show ?thesis
  proof (cases "total_page ?g \<le> COMEX_threshold (conf s)")
    case False
    then show ?thesis using n by (intro exI [of _ s]) (simp add: ask_more_def arr_simps)
  next
    case tp: True
    show ?thesis
    proof (cases "back_off ?g \<le> 0")
      case False
      then have "ask_more X n s = Some (set_group n (?g\<lparr>back_off := back_off ?g - 1\<rparr>) s)"
        using tp n by (simp add: ask_more_def arr_simps fg_upd_ok)
      then show ?thesis using ce [of "back_off ?g - 1"] lk by simp
    next
      case True
      let ?s = "set_group n (?g\<lparr>back_off := 10000\<rparr>) s"
      have s: "n < int (length (cbs ?s))" "send_ok (cbs ?s ! nat n)" using n by simp_all
      obtain cs r where u: "universal_send X n CODE_COMEX_PAGE_RQST (Node_id (COMEX_ID (conf s))) 4 ?s
          = Some (0, ?s\<lparr>cbs := cs, io := r\<rparr>)" "same_links (cbs ?s) cs" "rem r = rem (io ?s)" "up r = up (io ?s)"
        using universal_send_ok [OF X n(1) s, of 4 CODE_COMEX_PAGE_RQST "Node_id (COMEX_ID (conf s))"] by auto
      have "ask_more X n s = Some (?s\<lparr>cbs := cs, io := r\<rparr>)"
        using tp True n h u(1)
        by (simp add: ask_more_def arr_simps fg_upd_ok COMEX_RDMA_def COMEX_RDMA_fn_def send_checked_def)
      moreover have "core_eq rem up s (?s\<lparr>cbs := cs, io := r\<rparr>)"
        by (rule core_eq_trans [OF ce core_eq_cbs_io [OF u(2-4)]])
      moreover have "locks (?s\<lparr>cbs := cs, io := r\<rparr>) = locks s" using lk by (simp add: locks_def)
      ultimately show ?thesis by (intro exI [of _ "?s\<lparr>cbs := cs, io := r\<rparr>"]) simp
    qed
  qed
qed

section \<open>A flush in place\<close>

lemma ring_cleared:
  assumes ring: "ring_ok n c s" and run: "run_at n (head (pos_at n s)) r s" and r: "0 < r" and rc: "r \<le> c" and n: "0 \<le> n"
    and t: "t = set_pos n ((pos_at n s)\<lparr>head := (head (pos_at n s) + r) mod total_writeOut s\<rparr>)
      (set_row n (clear_row (head (pos_at n s)) r (COMEX_writeOut_buff s ! nat n)) (s\<lparr>io := x\<rparr>))"
  shows "ring_ok n (c - r) t" and "\<And>j. 0 \<le> j \<Longrightarrow> j < c - r \<Longrightarrow> pend_page n j t = pend_page n (j + r) s"
proof -
  let ?h = "head (pos_at n s)" and ?tw = "total_writeOut s" and ?row = "COMEX_writeOut_buff s ! nat n"
  have R: "row_ok n s" "n < int (length (buff_pos s))" "0 \<le> ?h" "?h < ?tw" "c \<le> ?tw" "0 \<le> c"
    "tail (pos_at n s) = (?h + c) mod ?tw" "\<not> pos_mutex (pos_at n s)"
    using ring by (simp_all add: ring_ok_def)
  have st: "status (wo_at n k s) = (if (k - ?h) mod ?tw < c then 2 else -1)" if "0 \<le> k" "k < ?tw" for k
    using ring that by (simp add: ring_ok_def)
  have len: "int (length ?row) = ?tw" using R by (simp add: row_ok_def)
  have hr: "?h + r \<le> ?tw" using run_at_bounds(2) [OF run] .
  have pos: "pos_at n t = (pos_at n s)\<lparr>head := (?h + r) mod ?tw\<rparr>" "conf t = conf s"
    using t n R(2) by simp_all
  have row: "row_ok n t" using R(1) len t by (simp add: row_ok_def)
  have at: "wo_at n k t = (if ?h \<le> k \<and> k < ?h + r then no_desc (wo_at n k s) else wo_at n k s)" if "0 \<le> k" "k < ?tw" for k
    using that R(1) len n t wo_at_set_row [of n "s\<lparr>io := x\<rparr>" n k "clear_row ?h r ?row"]
    by (simp add: wo_at_def [of n k s] nat_less_iff)
  have shift: "(k - (?h + r) mod ?tw) mod ?tw = ((k - ?h) mod ?tw - r) mod ?tw" for k
    by (simp add: mod_diff_left_eq mod_diff_right_eq diff_diff_eq)
  have tw: "0 < ?tw" using R by simp
  have split: "(((k - ?h) mod ?tw - r) mod ?tw < c - r) = ((k - ?h) mod ?tw < c \<and> \<not> (k - ?h) mod ?tw < r)" for k
  proof (cases "(k - ?h) mod ?tw < r")
    case True
    have "((k - ?h) mod ?tw - r) mod ?tw = ((k - ?h) mod ?tw - r + ?tw) mod ?tw" by simp
    also have "\<dots> = (k - ?h) mod ?tw - r + ?tw" 
    proof (rule mod_pos_pos_trivial)
      have "0 \<le> (k - ?h) mod ?tw" using tw by simp
      then show "0 \<le> (k - ?h) mod ?tw - r + ?tw" and "(k - ?h) mod ?tw - r + ?tw < ?tw"
        using True hr R(3) by linarith+
    qed
    finally show ?thesis using True R(5) tw pos_mod_sign [of ?tw "k - ?h"] by (simp del: pos_mod_sign)
  next
    case False
    have "((k - ?h) mod ?tw - r) mod ?tw = (k - ?h) mod ?tw - r"
      using False r tw pos_mod_bound [of ?tw "k - ?h"] by (intro mod_pos_pos_trivial) (auto simp del: pos_mod_bound)
    then show ?thesis using False by simp
  qed
  have inrun: "(k - ?h) mod ?tw < r \<longleftrightarrow> ?h \<le> k \<and> k < ?h + r" if "0 \<le> k" "k < ?tw" for k
  proof (cases "?h \<le> k")
    case True
    then show ?thesis using that R(3) by (simp add: diff_less_eq add.commute)
  next
    case False
    have "(k - ?h) mod ?tw = (k - ?h + ?tw) mod ?tw" by simp
    also have "\<dots> = k - ?h + ?tw" using False that R by (intro mod_pos_pos_trivial) auto
    finally show ?thesis using False that hr by simp
  qed
  show "ring_ok n (c - r) t"
    unfolding ring_ok_def pos
  proof (intro conjI allI impI)
    fix k assume k: "0 \<le> k" "k < ?tw"
    show "status (wo_at n k t) = (if (k - head ((pos_at n s)\<lparr>head := (?h + r) mod ?tw\<rparr>)) mod ?tw < c - r then 2 else -1)"
      using at [OF k] st [OF k] inrun [OF k] shift [of k] split [of k] rc by (simp add: no_desc_def)
  qed (use row R tw rc r t n in \<open>auto simp: mod_add_left_eq\<close>)
  fix j assume j: "0 \<le> j" "j < c - r"
  let ?k = "(?h + (j + r)) mod ?tw"
  have k: "0 \<le> ?k" "?k < ?tw" using tw by simp_all
  have "(?k - ?h) mod ?tw = j + r"
    using j r R(5) by (simp add: mod_diff_left_eq)
  then have "\<not> (?h \<le> ?k \<and> ?k < ?h + r)" using inrun [OF k] j by simp
  then have "wo_at n ?k t = wo_at n ?k s" using at [OF k] by auto
  moreover have "((?h + r) mod ?tw + j) mod ?tw = ?k" unfolding mod_add_left_eq by (simp add: ac_simps)
  ultimately show "pend_page n j t = pend_page n (j + r) s" by (simp add: pend_page_def pos)
qed

lemma pending_split:
  assumes "0 \<le> r" and "r \<le> c" and "0 < r"
    and "\<And>j. 0 \<le> j \<Longrightarrow> j < c - r \<Longrightarrow> pend_page n j t = pend_page n (j + r) s"
  shows "pending n c s = map (\<lambda>j. pend_page n j s) [0..r - 1] @ pending n (c - r) t"
proof (rule nth_equalityI)
  fix i assume "i < length (pending n c s)"
  then have i: "i < nat c" using assms by simp
  show "pending n c s ! i = (map (\<lambda>j. pend_page n j s) [0..r - 1] @ pending n (c - r) t) ! i"
  proof (cases "int i < r")
    case True
    then show ?thesis using assms(1,2) i by (simp add: nth_pending nth_append zless_nat_eq_int_zless)
  next
    case False
    then have "pending n (c - r) t ! (i - nat r) = pend_page n (int i - r + r) s"
      using assms i by (simp add: nth_pending of_nat_diff)
    then show ?thesis using assms i False by (simp add: nth_pending nth_append zless_nat_eq_int_zless)
  qed
qed (use assms in simp)

lemma seq_ok_suffix: "seq_ok n s (ps @ qs) \<Longrightarrow> seq_ok n s qs"
  by (auto simp: seq_ok_def successively_append_iff)

lemma seq_ok_prefix: "seq_ok n s (ps @ qs) \<Longrightarrow> seq_ok n s ps"
  by (auto simp: seq_ok_def successively_append_iff)

text \<open>What a flush of lender \<open>n\<close> leaves alone.\<close>

definition flushed :: "('r \<Rightarrow> int \<Rightarrow> mem) \<Rightarrow> ('r \<Rightarrow> int \<Rightarrow> bool) \<Rightarrow> int \<Rightarrow> 'r node \<Rightarrow> 'r node \<Rightarrow> bool" where
  "flushed rem up n s t \<longleftrightarrow> conf t = conf s \<and> bigspace t = bigspace s \<and> hooked t = hooked s \<and>
     remote_shift_offset t = remote_shift_offset s \<and> cbs t = cbs s \<and> mem t = mem s \<and> pool t = pool s \<and>
     COMEX_free_group t = COMEX_free_group s \<and> COMEX_readIn_buff t = COMEX_readIn_buff s \<and> up (io t) = up (io s) \<and>
     tail (pos_at n t) = tail (pos_at n s) \<and>
     (\<forall>m. 0 \<le> m \<longrightarrow> m \<noteq> n \<longrightarrow> rem (io t) m = rem (io s) m \<and> pos_at m t = pos_at m s \<and>
        (\<forall>k. wo_at m k t = wo_at m k s) \<and> row_ok m t = row_ok m s) \<and> length (buff_pos t) = length (buff_pos s)"

lemma flushed_env:
  assumes "flushed rem up n s t"
  shows "ready virt t = ready virt s" and "far_ok m t = far_ok m s" and "in_far m p t = in_far m p s"
    and "far_addr m p t = far_addr m p s" and "here_addr p t = here_addr p s" and "wo_page m k t = wo_page m k s"
    and "lent_queue t m = lent_queue s m" and "lent_ok t m = lent_ok s m"
  using assms env_cong [of t s] by (simp_all add: flushed_def lent_queue_def lent_ok_def)

lemma flushed_other:
  assumes f: "flushed rem up n s t" and m: "0 \<le> m" "m \<noteq> n"
  shows "lender_ok up m c t = lender_ok up m c s" and "stored rem m p t = stored rem m p s"
proof -
  have v: "\<And>k. wo_at m k t = wo_at m k s" "pos_at m t = pos_at m s" "row_ok m t = row_ok m s"
    "rem (io t) m = rem (io s) m" "conf t = conf s" "mem t = mem s" "length (buff_pos t) = length (buff_pos s)"
    "up (io t) = up (io s)" "cbs t = cbs s"
    using f m by (simp_all add: flushed_def)
  have pe: "pending m c t = pending m c s" using v by (simp add: pending_def pend_page_def)
  have "seq_ok m t ps = seq_ok m s ps" for ps using flushed_env(3) [OF f] by (simp add: seq_ok_def)
  then show "lender_ok up m c t = lender_ok up m c s"
    using v pe flushed_env [OF f] by (simp add: lender_ok_def ring_ok_def)
  have "slot_of m p t = slot_of m p s" using v by (simp add: slot_of_def)
  then show "stored rem m p t = stored rem m p s"
    using v flushed_env [OF f] by (simp add: stored_def split: option.split)
qed

lemma flush_step:
  assumes X: "rdma_transfers X virt rem up" and i: "store_inv virt up s" and n: "0 \<le> n" "n < nMem s"
    and l: "lender_ok up n c s"
  shows "\<exists>t c'. COMEX_flush_buff X n s = Some t \<and> flushed rem up n s t \<and> lender_ok up n c' t \<and>
    c' \<le> c \<and> (0 < c \<longrightarrow> c' < c) \<and> store_inv virt up t \<and> keeps rem s t"
proof -
  let ?h = "head (pos_at n s)" and ?row = "COMEX_writeOut_buff s ! nat n" and ?tw = "total_writeOut s"
  have rdy: "ready virt s" and tw: "?tw dvd 1024" using i by (simp_all add: store_inv_def)
  have L: "far_ok n s" "n < total_nodes s" "up (io s) n" "ring_ok n c s" "lent_ok s n" "send_ok (cbs s ! nat n)"
    "seq_ok n s (pending n c s @ lent_queue s n)"
    using l by (simp_all add: lender_ok_def)
  have row: "row_ok n s" "n < int (length (buff_pos s))" "0 \<le> c" using L(4) by (simp_all add: ring_ok_def)
  have sq: "seq_ok n s (pending n c s)" using seq_ok_prefix [OF L(7)] .
  obtain r x where f: "COMEX_flush_buff X n s = Some (set_pos n ((pos_at n s)\<lparr>head := (?h + r) mod ?tw\<rparr>)
      (set_row n (clear_row ?h r ?row) (s\<lparr>io := x\<rparr>)))" "run_at n ?h r s" "0 < c \<Longrightarrow> 0 < r" "up x = up (io s)"
      "r = 0 \<Longrightarrow> x = io s"
      "0 < r \<Longrightarrow> rem x = (rem (io s))(n := copy_from (mem s) (here_addr (wo_page n ?h s) s)
        (far_addr n (pend_page n 0 s) s) (of_nat (nat r) * X86PageSize) (rem (io s) n))"
    using flush_buff_correct [OF X rdy tw L(1-4) sq] by blast
  let ?t = "set_pos n ((pos_at n s)\<lparr>head := (?h + r) mod ?tw\<rparr>) (set_row n (clear_row ?h r ?row) (s\<lparr>io := x\<rparr>))"
  have rx: "rem x m = rem (io s) m" if "m \<noteq> n" for m using f(5,6) that run_at_bounds(1) [OF f(2)] by (cases "r = 0") auto
  have wo: "wo_at m k ?t = wo_at m k s" if "0 \<le> m" "m \<noteq> n" for m k
    using wo_at_set_row [of n "s\<lparr>io := x\<rparr>" m k] row(1) that by simp
  have len: "length ?row = nat ?tw" using row(1) by (simp add: row_ok_def)
  have ro: "row_ok m ?t = row_ok m s" for m using row(1) len by simp
  have fl: "flushed rem up n s ?t"
    using n row(2) rx wo ro f(4)
    by (simp add: flushed_def) (simp add: set_pos_def set_row_def pos_at_def nat_eq_iff)
  have st: "stored rem n p ?t = stored rem n p s" if "in_far n p s" for p
  proof (rule flush_stored [OF rdy tw L(1,2,4) sq f(2) _ _ refl that])
    show "rem x = rem (io s)" if "r = 0" using f(5) that by simp
    show "rem x = (rem (io s))(n := copy_from (mem s) (here_addr (wo_page n ?h s) s)
        (far_addr n (pend_page n 0 s) s) (of_nat (nat r) * X86PageSize) (rem (io s) n))" if "0 < r" using f(6) that .
  qed
  have k: "keeps rem s ?t"
    unfolding keeps_def
  proof (intro conjI allI impI)
    fix m p assume m: "0 \<le> m" "m < nMem s"
    show "in_far m p ?t = in_far m p s" by simp
    assume "in_far m p s"
    then show "stored rem m p ?t = stored rem m p s"
      using st flushed_other(2) [OF fl m(1)] by (cases "m = n") auto
  qed simp_all
  have rc: "r \<le> c" if "0 < r" using run_pages [OF L(4) sq f(2), of "r - 1"] that by simp
  let ?c = "c - r"
  have "lender_ok up n ?c ?t"
  proof (cases "r = 0")
    case True
    have "clear_row ?h 0 ?row = ?row" by simp
    moreover have "?h mod ?tw = ?h" using L(4) by (simp add: ring_ok_def)
    ultimately have "?t = s\<lparr>io := x\<rparr>" using True row(1) by (simp add: set_pos_row set_pos_def pos_at_def)
    then show ?thesis using True l f(5) by simp
  next
    case False
    then have r: "0 < r" using run_at_bounds(1) [OF f(2)] by simp
    note ring = ring_cleared [where x = x, OF L(4) f(2) r rc [OF r] n(1) refl]
    have "pending n c s = map (\<lambda>j. pend_page n j s) [0..r - 1] @ pending n ?c ?t"
      using r rc ring(2) by (intro pending_split) auto
    then have "seq_ok n s (pending n ?c ?t @ lent_queue s n)" using L(7) seq_ok_suffix by simp
    then show ?thesis
      using L f(4) ring(1) by (simp add: lender_ok_def seq_ok_def lent_queue_def lent_ok_def)
  qed
  moreover have "store_inv virt up ?t"
  proof -
    have "\<exists>d. lender_ok up m d ?t" if m: "0 \<le> m" "m < nMem s" for m
      using \<open>lender_ok up n ?c ?t\<close> flushed_other(1) [OF fl m(1)] store_inv_lender [OF i m] by (cases "m = n") metis+
    then show ?thesis using i by (simp add: store_inv_def)
  qed
  moreover have "?c \<le> c \<and> (0 < c \<longrightarrow> ?c < c)" using f(3) run_at_bounds(1) [OF f(2)] by auto
  ultimately show ?thesis using f(1) fl k by blast
qed

section \<open>A slot filled\<close>

text \<open>
  \<open>t\<close> is \<open>s\<close> after the head \<open>p\<close> of lender \<open>n\<close>'s queue has been taken, the tail slot filled with the page
  at address \<open>a\<close>, and the tail advanced.
\<close>

text \<open>The read-in buffer claims to hold page \<open>p\<close> of node \<open>n\<close>.\<close>

definition pre_hit :: "int \<Rightarrow> int \<Rightarrow> 'r node \<Rightarrow> bool" where
  "pre_hit n p s \<longleftrightarrow> (let d = COMEX_readIn_buff s ! nat (p smod total_readIn s)
     in status d = 2 \<and> nodeID d = n \<and> bpageNO d = p)"

lemma pre_hit_cong: "COMEX_readIn_buff t = COMEX_readIn_buff s \<Longrightarrow> conf t = conf s \<Longrightarrow> pre_hit n p t = pre_hit n p s"
  by (simp add: pre_hit_def)

text \<open>Nobody is filling a slot of the read-in buffer.\<close>

definition ri_quiet :: "'r node \<Rightarrow> bool" where
  "ri_quiet s \<longleftrightarrow> (\<forall>d \<in> set (COMEX_readIn_buff s). \<not> mutex_buff d)"

lemma ri_quiet_upd: "ri_quiet s \<Longrightarrow> \<not> mutex_buff d \<Longrightarrow> ri_quiet (s\<lparr>COMEX_readIn_buff := (COMEX_readIn_buff s)[i := d]\<rparr>)"
  using set_update_subset_insert [of "COMEX_readIn_buff s" i d] by (auto simp: ri_quiet_def)

definition filled :: "int \<Rightarrow> int \<Rightarrow> u64 \<Rightarrow> 'r node \<Rightarrow> 'r node \<Rightarrow> bool" where
  "filled n p a s t \<longleftrightarrow> conf t = conf s \<and> bigspace t = bigspace s \<and> hooked t = hooked s \<and>
     remote_shift_offset t = remote_shift_offset s \<and> cbs t = cbs s \<and> io t = io s \<and> pool t = pool s \<and>
     length (COMEX_readIn_buff t) = length (COMEX_readIn_buff s) \<and>
     (\<exists>d. status d = 2 \<and> bpageNO d = p \<and> COMEX_writeOut_buff t = (COMEX_writeOut_buff s)
        [nat n := (COMEX_writeOut_buff s ! nat n)[nat (tail (pos_at n s)) := d]]) \<and>
     buff_pos t = (buff_pos s)[nat n := (pos_at n s)\<lparr>tail := (tail (pos_at n s) + 1) mod total_writeOut s\<rparr>] \<and>
     mem t = memcpy (here_addr (wo_page n (tail (pos_at n s)) s) s) a X86PageSize (mem s) \<and>
     lent_ok t n \<and> lent_queue s n = p # lent_queue t n \<and> \<not> pre_hit n p t \<and> (ri_quiet s \<longrightarrow> ri_quiet t) \<and>
     (\<forall>m. 0 \<le> m \<longrightarrow> m \<noteq> n \<longrightarrow> lent_queue t m = lent_queue s m \<and> lent_ok t m = lent_ok s m)"

definition keeps_except :: "('r \<Rightarrow> int \<Rightarrow> mem) \<Rightarrow> int \<Rightarrow> int \<Rightarrow> 'r node \<Rightarrow> 'r node \<Rightarrow> bool" where
  "keeps_except rem n p s t \<longleftrightarrow> conf t = conf s \<and> bigspace t = bigspace s \<and>
     (\<forall>m. 0 \<le> m \<longrightarrow> m < nMem s \<longrightarrow> (\<forall>q. in_far m q t = in_far m q s)) \<and>
     (\<forall>m q. 0 \<le> m \<longrightarrow> m < nMem s \<longrightarrow> (m, q) \<noteq> (n, p) \<longrightarrow> in_far m q s \<longrightarrow> stored rem m q t = stored rem m q s)"

lemma keeps_except_trans:
  "keeps rem s t \<Longrightarrow> keeps_except rem n p t u \<Longrightarrow> keeps_except rem n p s u"
  "keeps_except rem n p s t \<Longrightarrow> keeps rem t u \<Longrightarrow> keeps_except rem n p s u"
  by (simp_all add: keeps_def keeps_except_def)

lemma filled_ring:
  assumes f: "filled n p a s t" and ring: "ring_ok n c s" and c: "c < total_writeOut s" and n: "0 \<le> n"
  shows "ring_ok n (c + 1) t" and "pending n (c + 1) t = pending n c s @ [p]"
    and "\<And>k. 0 \<le> k \<Longrightarrow> k < total_writeOut s \<Longrightarrow> k \<noteq> tail (pos_at n s) \<Longrightarrow> wo_at n k t = wo_at n k s"
    and "0 \<le> tail (pos_at n s) \<and> tail (pos_at n s) < total_writeOut s"
    and "holds_page n p (tail (pos_at n s)) t" and "status (wo_at n (tail (pos_at n s)) s) = -1"
proof -
  let ?h = "head (pos_at n s)" and ?tw = "total_writeOut s" and ?t = "tail (pos_at n s)"
  let ?row = "COMEX_writeOut_buff s ! nat n"
  have R: "row_ok n s" "n < int (length (buff_pos s))" "0 \<le> ?h" "?h < ?tw" "0 \<le> c"
    "?t = (?h + c) mod ?tw" "\<not> pos_mutex (pos_at n s)"
    using ring by (simp_all add: ring_ok_def)
  have st: "status (wo_at n k s) = (if (k - ?h) mod ?tw < c then 2 else -1)" if "0 \<le> k" "k < ?tw" for k
    using ring that by (simp add: ring_ok_def)
  have tw: "0 < ?tw" using R by simp
  show t: "0 \<le> ?t \<and> ?t < ?tw" using R(6) tw by simp
  have tc: "(?t - ?h) mod ?tw = c" unfolding R(6) using c R(5) by (simp add: mod_diff_left_eq)
  then show "status (wo_at n ?t s) = -1" using st [of ?t] t by simp
  obtain d where d: "status d = 2" "bpageNO d = p"
    "COMEX_writeOut_buff t = (COMEX_writeOut_buff s)[nat n := ?row[nat ?t := d]]"
    using f by (auto simp: filled_def)
  have k: "nat n < length (COMEX_writeOut_buff s)" "nat n < length (buff_pos s)" "nat ?t < length ?row"
    using R(1,2) n t by (auto simp: row_ok_def)
  have at: "wo_at n j t = (if j = ?t then d else wo_at n j s)" if "0 \<le> j" "j < ?tw" for j
    using that t k d(3) by (auto simp: wo_at_def nth_list_update nat_eq_iff)
  show "wo_at n j t = wo_at n j s" if "0 \<le> j" "j < ?tw" "j \<noteq> ?t" for j using at [OF that(1,2)] that(3) by simp
  have cf: "conf t = conf s" using f by (simp add: filled_def)
  have pos: "pos_at n t = (pos_at n s)\<lparr>tail := (?t + 1) mod ?tw\<rparr>"
    using f k(2) by (simp add: filled_def pos_at_def)
  show "holds_page n p ?t t" using at [of ?t] t d cf by (simp add: holds_page_def)
  have row: "row_ok n t" using R(1) k(1) d(3) cf by (simp add: row_ok_def)
  have lp: "length (buff_pos t) = length (buff_pos s)" using f by (simp add: filled_def)
  have far: "(j - ?h) mod ?tw = c \<longleftrightarrow> j = ?t" if "0 \<le> j" "j < ?tw" for j
  proof
    assume "(j - ?h) mod ?tw = c"
    then have "(j - ?h + ?h) mod ?tw = (c + ?h) mod ?tw" by (metis mod_add_left_eq)
    then show "j = ?t" using that R(6) by (simp add: add.commute)
  qed (use tc in simp)
  show "ring_ok n (c + 1) t"
    unfolding ring_ok_def pos cf
  proof (intro conjI allI impI)
    fix j assume j: "0 \<le> j" "j < ?tw"
    show "status (wo_at n j t) = (if (j - head ((pos_at n s)\<lparr>tail := (?t + 1) mod ?tw\<rparr>)) mod ?tw < c + 1 then 2 else -1)"
      using at [OF j] st [OF j] d(1) far [OF j] by auto
  next
    show "tail ((pos_at n s)\<lparr>tail := (?t + 1) mod ?tw\<rparr>) = (head ((pos_at n s)\<lparr>tail := (?t + 1) mod ?tw\<rparr>) + (c + 1)) mod ?tw"
      unfolding R(6) by (simp add: mod_add_left_eq add.assoc)
  qed (use row R c lp n in simp_all)
  have pp: "pend_page n j t = (if j = c then p else pend_page n j s)" if "0 \<le> j" "j < c + 1" for j
  proof -
    let ?k = "(?h + j) mod ?tw"
    have k: "0 \<le> ?k" "?k < ?tw" using tw by simp_all
    have "(?k - ?h) mod ?tw = j" using that c by (simp add: mod_diff_left_eq)
    then have "?k = ?t \<longleftrightarrow> j = c" using far [OF k] by simp
    then show ?thesis using at [OF k] d(2) by (simp add: pend_page_def pos cf)
  qed
  have "pending n (c + 1) t = map (\<lambda>j. pend_page n j t) [0..c - 1] @ [pend_page n c t]"
    using R(5) by (simp add: pending_def upto_rec2)
  also have "map (\<lambda>j. pend_page n j t) [0..c - 1] = pending n c s"
    unfolding pending_def by (rule map_cong) (auto simp: pp)
  finally show "pending n (c + 1) t = pending n c s @ [p]" using pp [of c] R(5) by simp
qed

lemma filled_correct:
  assumes f: "filled n p a s t" and i: "store_inv virt up s" and n: "0 \<le> n" "n < nMem s"
    and l: "lender_ok up n c s" and c: "c < total_writeOut s"
  shows "lender_ok up n (c + 1) t" and "store_inv virt up t" and "stored rem n p t = page_data (mem s) a"
    and "keeps_except rem n p s t"
proof -
  let ?t = "tail (pos_at n s)"
  have L: "far_ok n s" "n < total_nodes s" "up (io s) n" "ring_ok n c s" "send_ok (cbs s ! nat n)"
    "seq_ok n s (pending n c s @ lent_queue s n)"
    using l by (simp_all add: lender_ok_def)
  note R = filled_ring [OF f L(4) c n(1)]
  have F: "conf t = conf s" "bigspace t = bigspace s" "hooked t = hooked s" "remote_shift_offset t = remote_shift_offset s"
    "cbs t = cbs s" "io t = io s" "lent_ok t n" "lent_queue s n = p # lent_queue t n"
    "length (COMEX_readIn_buff t) = length (COMEX_readIn_buff s)"
    "mem t = memcpy (here_addr (wo_page n ?t s) s) a X86PageSize (mem s)"
    using f by (simp_all add: filled_def)
  note env = env_cong [OF F(1-3,5,4)]
  have sq: "seq_ok m t ps = seq_ok m s ps" for m ps using env(3) by (simp add: seq_ok_def)
  show lt: "lender_ok up n (c + 1) t"
    using L R(1,2) F env(2) sq by (simp add: lender_ok_def)
  have row: "row_ok n s" using L(4) by (simp add: ring_ok_def)
  have wo: "wo_at m k t = wo_at m k s" if "0 \<le> m" "m \<noteq> n" for m k
    using f that n(1) by (auto simp: filled_def wo_at_def nat_eq_iff)
  have ro: "row_ok m t = row_ok m s" for m
  proof -
    have "\<exists>row. COMEX_writeOut_buff t = (COMEX_writeOut_buff s)[nat n := row] \<and> length row = length (COMEX_writeOut_buff s ! nat n)"
      using f by (auto simp: filled_def)
    then obtain row where row: "COMEX_writeOut_buff t = (COMEX_writeOut_buff s)[nat n := row]"
      "length row = length (COMEX_writeOut_buff s ! nat n)" by auto
    then have "length (COMEX_writeOut_buff t ! nat m) = length (COMEX_writeOut_buff s ! nat m)"
      by (cases "nat m = nat n \<and> nat n < length (COMEX_writeOut_buff s)")
        (auto simp: nth_list_update list_update_beyond not_less)
    then show ?thesis using row(1) F(1) by (simp add: row_ok_def)
  qed
  have po: "pos_at m t = pos_at m s" if "0 \<le> m" "m \<noteq> n" for m
    using f that n(1) by (auto simp: filled_def pos_at_def nat_eq_iff)
  have lp: "length (buff_pos t) = length (buff_pos s)" using f by (simp add: filled_def)
  have other: "lender_ok up m d t = lender_ok up m d s" if m: "0 \<le> m" "m \<noteq> n" for m d
  proof -
    have "pending m d t = pending m d s" using wo [OF m] po [OF m] F(1) by (simp add: pending_def pend_page_def)
    moreover have "lent_queue t m = lent_queue s m \<and> lent_ok t m = lent_ok s m" using f m by (simp add: filled_def)
    ultimately show ?thesis
      using wo [OF m] po [OF m] ro [of m] lp F env(2) [of m] sq by (simp add: lender_ok_def ring_ok_def)
  qed
  show "store_inv virt up t"
  proof -
    have "\<exists>d. lender_ok up m d t" if m: "0 \<le> m" "m < nMem s" for m
      using lt other [OF m(1)] store_inv_lender [OF i m] by (cases "m = n") metis+
    then show ?thesis using i env(1) F by (simp add: store_inv_def)
  qed
  have rdy: "ready virt s" "ready virt t" using i env(1) by (simp_all add: store_inv_def)
  have one_t: "one_slot m t" and one_s: "one_slot m s" if m: "0 \<le> m" "m < nMem s" for m
  proof -
    obtain d where d: "lender_ok up m d s" using store_inv_lender [OF i m] by auto
    then show "one_slot m s" using ring_one_slot by (auto simp: lender_ok_def seq_ok_def)
    obtain d where "lender_ok up m d t"
      using lt d other [OF m(1)] by (cases "m = n") auto
    then show "one_slot m t" using ring_one_slot by (auto simp: lender_ok_def seq_ok_def)
  qed
  show "stored rem n p t = page_data (mem s) a"
    using stored_here [OF one_t [OF n] R(5)] F(10) env(5,6) by simp
  have kt: "0 \<le> ?t" "?t < total_writeOut s" using R(4) by simp_all
  have hold: "holds_page m q k t \<longleftrightarrow> holds_page m q k s" if "0 \<le> m" "(m, q) \<noteq> (n, p)" for m q k
  proof (cases "m = n")
    case True
    show ?thesis
    proof (cases "k = ?t")
      case kt': True
      then have "\<not> holds_page n q k s" using R(6) by (simp add: holds_page_def)
      moreover have "\<not> holds_page n q k t" using R(5) kt' that True by (auto simp: holds_page_def)
      ultimately show ?thesis using True by simp
    next
      case False
      then show ?thesis using R(3) [of k] True F(1) by (auto simp: holds_page_def)
    qed
  next
    case False
    then show ?thesis using wo [OF that(1) False] F(1) by (simp add: holds_page_def)
  qed
  have slot_far: "page_data (mem t) (here_addr (wo_page m k s) s) = page_data (mem s) (here_addr (wo_page m k s) s)"
    if m: "0 \<le> m" "m < total_nodes s" and k: "0 \<le> k" "k < total_writeOut s" and ne: "(m, k) \<noteq> (n, ?t)" for m k
  proof -
    have "wo_page m k s \<noteq> wo_page n ?t s" using wo_page_inj [of m k s n ?t] k kt ne by auto
    then have "disj_pages (here_addr (wo_page m k s) s) (here_addr (wo_page n ?t s) s)"
      using here_disjoint [OF rdy(1)] ready_wo(1) [OF rdy(1) m k] ready_wo(1) [OF rdy(1) n(1) L(2) kt] by simp
    then show ?thesis using F(10) by (simp add: page_data_memcpy_frame)
  qed
  show "keeps_except rem n p s t"
    unfolding keeps_except_def
  proof (intro conjI allI impI)
    fix m q assume m: "0 \<le> m" "m < nMem s"
    show "in_far m q t = in_far m q s" using env(3) .
    assume ne: "(m, q) \<noteq> (n, p)"
    show "stored rem m q t = stored rem m q s"
    proof (cases "\<exists>k. holds_page m q k s")
      case False
      then have "stored rem m q s = page_data (rem (io s) m) (far_addr m q s)"
        "stored rem m q t = page_data (rem (io t) m) (far_addr m q t)"
        using stored_far [of m q s rem] stored_far [of m q t rem] hold [OF m(1) ne] by auto
      then show ?thesis using F(6) env(4) by simp
    next
      case True
      then obtain k where k: "holds_page m q k s" by auto
      then have kt: "holds_page m q k t" using hold [OF m(1) ne] by simp
      have "(m, k) \<noteq> (n, ?t)" using k R(6) by (auto simp: holds_page_def)
      moreover have "m < total_nodes s" using store_inv_lender [OF i m] by (metis lender_ok_def)
      ultimately have "page_data (mem t) (here_addr (wo_page m k s) s) = page_data (mem s) (here_addr (wo_page m k s) s)"
        using slot_far m(1) k by (simp add: holds_page_def)
      then show ?thesis
        using stored_here [OF one_s [OF m] k] stored_here [OF one_t [OF m] kt] env(5,6) by simp
    qed
  qed (use F in simp_all)
qed

section \<open>The code that fills a slot\<close>

lemma void_preFetch_ok:
  assumes "0 \<le> p" and "int (length (COMEX_readIn_buff s)) = total_readIn s" and "0 < total_readIn s"
  shows "\<exists>ri. COMEX_void_preFetch n p s = Some (s\<lparr>COMEX_readIn_buff := ri\<rparr>) \<and> length ri = length (COMEX_readIn_buff s) \<and>
    \<not> pre_hit n p (s\<lparr>COMEX_readIn_buff := ri\<rparr>) \<and> (ri_quiet s \<longrightarrow> ri_quiet (s\<lparr>COMEX_readIn_buff := ri\<rparr>))"
proof -
  let ?i = "p smod total_readIn s"
  have i: "0 \<le> ?i" "?i < int (length (COMEX_readIn_buff s))" using assms smod_bounds by simp_all
  have same: "s\<lparr>COMEX_readIn_buff := COMEX_readIn_buff s\<rparr> = s" by (cases s) simp
  show ?thesis
  proof (cases "nodeID (COMEX_readIn_buff s ! nat ?i) = n \<and> bpageNO (COMEX_readIn_buff s ! nat ?i) = p")
    case True
    let ?d = "(COMEX_readIn_buff s ! nat ?i)\<lparr>status := -1, nodeID := -1, bpageNO := -1\<rparr>"
    have "ri_quiet s \<longrightarrow> ri_quiet (s\<lparr>COMEX_readIn_buff := (COMEX_readIn_buff s)[nat ?i := ?d]\<rparr>)"
      using i by (intro impI ri_quiet_upd) (simp_all add: ri_quiet_def nat_less_iff)
    then show ?thesis using True i assms(3)
      by (intro exI [of _ "(COMEX_readIn_buff s)[nat ?i := ?d]"])
        (simp add: COMEX_void_preFetch_def arr_simps ri_upd_def pre_hit_def nat_less_iff)
  next
    case False
    then have "COMEX_void_preFetch n p s = Some (s\<lparr>COMEX_readIn_buff := COMEX_readIn_buff s\<rparr>)"
      unfolding same using i assms(3) by (auto simp: COMEX_void_preFetch_def arr_simps)
    moreover have "\<not> pre_hit n p s" using False by (auto simp: pre_hit_def)
    ultimately show ?thesis unfolding same by (intro exI [of _ "COMEX_readIn_buff s"]) (simp add: same)
  qed
qed

lemma set_row_frames:
  "set_row n row (s\<lparr>COMEX_readIn_buff := ri\<rparr>) = (set_row n row s)\<lparr>COMEX_readIn_buff := ri\<rparr>"
  "set_row n row (s\<lparr>mem := m\<rparr>) = (set_row n row s)\<lparr>mem := m\<rparr>"
  by (simp_all add: set_row_def)

lemma fill_slot_ok:
  assumes rdy: "ready virt s" and ri: "int (length (COMEX_readIn_buff s)) = total_readIn s" and p: "0 \<le> p"
    and n: "0 \<le> n" "n < total_nodes s" and row: "row_ok n s" and k: "0 \<le> k" "k < total_writeOut s"
  shows "\<exists>r t. length r = length (COMEX_readIn_buff s) \<and> \<not> pre_hit n p (s\<lparr>COMEX_readIn_buff := r\<rparr>) \<and>
    (ri_quiet s \<longrightarrow> ri_quiet (s\<lparr>COMEX_readIn_buff := r\<rparr>)) \<and>
    t = (set_row n ((COMEX_writeOut_buff s ! nat n)[nat k := (wo_at n k s)\<lparr>nodeID := n, bpageNO := p, status := 2\<rparr>]) s)
      \<lparr>COMEX_readIn_buff := r, mem := memcpy (here_addr (wo_page n k s) s) (kmap X old) X86PageSize (mem s)\<rparr> \<and>
    fill_slot X old n k p s = (if k smod FLUSH = 0 \<and> k \<noteq> 0 then COMEX_flush_buff X n t else Some t)"
proof -
  have "0 < total_readIn s" using rdy by (simp add: ready_def conf_ok_def)
  then obtain r where r: "COMEX_void_preFetch n p s = Some (s\<lparr>COMEX_readIn_buff := r\<rparr>)"
    "length r = length (COMEX_readIn_buff s)" "\<not> pre_hit n p (s\<lparr>COMEX_readIn_buff := r\<rparr>)"
    "ri_quiet s \<longrightarrow> ri_quiet (s\<lparr>COMEX_readIn_buff := r\<rparr>)"
    using void_preFetch_ok [OF p ri] by auto
  let ?s1 = "s\<lparr>COMEX_readIn_buff := r\<rparr>"
  have env: "ready virt ?s1" "get_writeOut_buff n k ?s1 = page_off (wo_page n k s)" "in_space (bigspace ?s1) (wo_page n k s)"
    "here_addr q ?s1 = here_addr q s" for q
    using env_cong [of ?s1 s] rdy ready_wo [OF rdy n k] by simp_all
  have a: "COMEX_offset_to_addr (page_off (wo_page n k s)) ?s1 = Some (here_addr (wo_page n k s) s)"
    using offset_to_addr_page [OF env(1,3)] env(4) by simp
  have a0: "here_addr (wo_page n k s) s \<noteq> 0" using here_nonzero [OF env(1,3)] env(4) by simp
  let ?m = "memcpy (here_addr (wo_page n k s) s) (kmap X old) X86PageSize (mem s)"
  let ?s2 = "?s1\<lparr>mem := ?m\<rparr>"
  let ?row = "COMEX_writeOut_buff s ! nat n"
  have len: "nat k < length ?row" using row k by (simp add: row_ok_def)
  have ro: "row_ok n ?s2" using row by (simp add: row_ok_def)
  have w: "wo_upd n k f (set_row n (?row[nat k := d]) ?s2) = Some (set_row n (?row[nat k := f d]) ?s2)" for f d
    using wo_upd_ok [of n "set_row n (?row[nat k := d]) ?s2" k f] ro row k len wo_at_set_row [OF ro n(1), of k]
    by (simp add: row_ok_def)
  have w0: "wo_upd n k f ?s2 = Some (set_row n (?row[nat k := f (wo_at n k s)]) ?s2)" for f
    using wo_upd_ok [OF ro, of k f] k by (simp add: wo_at_def)
  let ?t = "set_row n (?row[nat k := (wo_at n k s)\<lparr>nodeID := n, bpageNO := p, status := 2\<rparr>]) ?s2"
  have "fill_slot X old n k p s = (if k smod FLUSH = 0 \<and> k \<noteq> 0 then COMEX_flush_buff X n ?t else Some ?t)"
    unfolding fill_slot_def using r(1) env(2) a a0 by (simp add: Let_def w w0)
  moreover have "?t = (set_row n (?row[nat k := (wo_at n k s)\<lparr>nodeID := n, bpageNO := p, status := 2\<rparr>]) s)
      \<lparr>COMEX_readIn_buff := r, mem := ?m\<rparr>" by (simp add: set_row_frames)
  ultimately show ?thesis using r(2-4) by blast
qed

end
