(* ===== verification/Comex_Move.thy ===== *)
theory Comex_Move
  imports Comex_Store
begin

text \<open>
  \<open>COMEX_move_to_Remote\<close> as a whole: the loop over the lenders on top of the steps of
  \<open>Comex_Store\<close>, and the properties of storing a page and reading it back from the ring.
\<close>

lemma store_inv_ready: "store_inv virt up s \<Longrightarrow> ready virt s"
  by (simp add: store_inv_def)

lemma locks_set_group:
  "0 \<le> n \<Longrightarrow> n < int (length (COMEX_free_group s)) \<Longrightarrow> locks (set_group n g s) = (locks s)[nat n := mutex_FG g]"
  by (simp add: locks_def set_group_def map_update)

lemma store_inv_group:
  assumes "store_inv virt up s" and "free_group g = free_group (COMEX_free_group s ! nat n)"
    and "total_page g = total_page (COMEX_free_group s ! nat n)"
  shows "store_inv virt up (set_group n g s)" and "keeps rem s (set_group n g s)"
    and "lender_ok up m c s \<Longrightarrow> lender_ok up m c (set_group n g s)"
proof -
  have e: "core_eq r up s (set_group n g s)" for r :: "'a \<Rightarrow> int \<Rightarrow> mem" using core_eq_group [OF assms(2,3)] .
  show "store_inv virt up (set_group n g s)" and "keeps rem s (set_group n g s)"
    using core_eq_store [OF e assms(1)] by simp_all
  show "lender_ok up m c s \<Longrightarrow> lender_ok up m c (set_group n g s)" using core_eq_lender(1) [OF e] .
qed

lemma claim_ok:
  assumes i: "store_inv virt up s" and n: "0 \<le> n" "n < nMem s" and l: "lender_ok up n c s"
    and c: "c < total_writeOut s" and q: "lent_queue s n = p # ps"
  shows "\<exists>u t. COMEX_freelist_getpage n s = Some (p, u) \<and> p \<noteq> -1 \<and> filled n p (kmap X old) s t \<and>
    locks t = (locks s)[nat n := False] \<and>
    claim X old n (tail (pos_at n s)) p u =
      (if tail (pos_at n s) smod FLUSH = 0 \<and> tail (pos_at n s) \<noteq> 0 then COMEX_flush_buff X n t else Some t)"
proof -
  let ?k = "tail (pos_at n s)" and ?tw = "total_writeOut s"
  have L: "far_ok n s" "n < total_nodes s" "ring_ok n c s" "lent_ok s n" "seq_ok n s (pending n c s @ lent_queue s n)"
    using l by (simp_all add: lender_ok_def)
  have p: "0 \<le> p" using L(5) q by (simp add: seq_ok_def in_far_def)
  have R: "row_ok n s" "n < int (length (buff_pos s))" "0 < ?tw" "?k = (head (pos_at n s) + c) mod ?tw"
    using L(3) by (simp_all add: ring_ok_def)
  have k: "0 \<le> ?k" "?k < ?tw" unfolding R(4) using R(3) by simp_all
  have tw: "?tw < 2 ^ 15" using i by (simp add: store_inv_def ready_def conf_ok_def)
  have g: "n < int (length (COMEX_free_group s))" using L(4) by (simp add: lent_ok_def)
  obtain h where h: "COMEX_freelist_getpage n s = Some (p, set_group n h s)" "lend_ok h" "pages_of (free_group h) = ps"
    using lend_take [OF L(4) q] by auto
  let ?u = "set_group n h s"
  have len: "nat ?k < length (COMEX_writeOut_buff s ! nat n)" using R(1) k by (simp add: row_ok_def)
  let ?pos = "(pos_at n s)\<lparr>tail := (?k + 1) mod ?tw\<rparr>"
  let ?d1 = "(wo_at n ?k s)\<lparr>status := 1\<rparr>"
  let ?s2 = "set_row n ((COMEX_writeOut_buff s ! nat n)[nat ?k := ?d1]) (set_pos n ?pos ?u)"
  let ?s3 = "set_group n (h\<lparr>mutex_FG := False\<rparr>) ?s2"
  have ru: "row_ok n (set_pos n ?pos ?u)" using R(1) by (simp add: row_ok_def)
  have lenr: "length (COMEX_writeOut_buff s ! nat n) = nat ?tw" using R(1) by (simp add: row_ok_def)
  have w2: "wo_upd n ?k (\<lambda>d. d\<lparr>status := 1\<rparr>) (set_pos n ?pos ?u) = Some ?s2"
    using wo_upd_ok [OF ru, of ?k] k by (simp add: wo_at_def)
  have pu: "pos_upd n (\<lambda>p. p\<lparr>tail := i16 (tail p + 1) smod ?tw\<rparr>) ?u = Some (set_pos n ?pos ?u)"
    using n(1) R(2) k tw by (simp add: pos_upd_ok smod_nonneg)
  have g3: "fg_upd n (\<lambda>g. g\<lparr>mutex_FG := False\<rparr>) ?s2 = Some ?s3"
    using n(1) g by (simp add: fg_upd_ok)
  have cl: "claim X old n ?k p ?u = fill_slot X old n ?k p ?s3"
    unfolding claim_def using R(3) pu w2 g3 by simp
  have env3: "ready virt ?s3" "row_ok n ?s3" "wo_page n ?k ?s3 = wo_page n ?k s"
    "here_addr (wo_page n ?k s) ?s3 = here_addr (wo_page n ?k s) s" "int (length (COMEX_readIn_buff ?s3)) = total_readIn ?s3"
    "n < total_nodes ?s3" "?k < total_writeOut ?s3"
    using i R(1) L(2) k lenr by (simp_all add: store_inv_def row_ok_def)
  have at3: "wo_at n ?k ?s3 = ?d1"
    using wo_at_set_row [OF ru n(1), of ?k] len by (simp add: wo_at_def set_group_def)
  have row3: "COMEX_writeOut_buff ?s3 ! nat n = (COMEX_writeOut_buff s ! nat n)[nat ?k := ?d1]"
    using ru by simp
  obtain r t where t: "length r = length (COMEX_readIn_buff s)"
    "t = (set_row n ((COMEX_writeOut_buff s ! nat n)[nat ?k := ?d1\<lparr>nodeID := n, bpageNO := p, status := 2\<rparr>]) ?s3)
      \<lparr>COMEX_readIn_buff := r, mem := memcpy (here_addr (wo_page n ?k s) s) (kmap X old) X86PageSize (mem s)\<rparr>"
    "fill_slot X old n ?k p ?s3 = (if ?k smod FLUSH = 0 \<and> ?k \<noteq> 0 then COMEX_flush_buff X n t else Some t)"
    "\<not> pre_hit n p (?s3\<lparr>COMEX_readIn_buff := r\<rparr>)" "ri_quiet ?s3 \<longrightarrow> ri_quiet (?s3\<lparr>COMEX_readIn_buff := r\<rparr>)"
    using fill_slot_ok [OF env3(1,5) p n(1) env3(6,2) k(1) env3(7), of X old] at3 row3 env3(3,4) by auto
  have gt: "COMEX_free_group t = (COMEX_free_group s)[nat n := h\<lparr>mutex_FG := False\<rparr>]"
    using t(2) by (simp add: set_row_def set_group_def set_pos_def)
  have "filled n p (kmap X old) s t"
    unfolding filled_def
  proof (intro conjI)
    show "lent_ok t n" "lent_queue s n = p # lent_queue t n"
      using gt n(1) g h(2,3) q by (simp_all add: lent_ok_def lent_queue_def lend_ok_def nat_less_iff)
    have "COMEX_readIn_buff t = r" "conf t = conf s" using t(2) by (simp_all add: set_row_def set_group_def set_pos_def)
    then show "\<not> pre_hit n p t" "ri_quiet s \<longrightarrow> ri_quiet t" using t(4,5) by (simp_all add: pre_hit_def ri_quiet_def)
    show "\<forall>m. 0 \<le> m \<longrightarrow> m \<noteq> n \<longrightarrow> lent_queue t m = lent_queue s m \<and> lent_ok t m = lent_ok s m"
      using gt n(1) by (auto simp: lent_ok_def lent_queue_def nat_eq_iff)
    show "\<exists>d. status d = 2 \<and> bpageNO d = p \<and> COMEX_writeOut_buff t = (COMEX_writeOut_buff s)
        [nat n := (COMEX_writeOut_buff s ! nat n)[nat ?k := d]]"
      using t(2) by (intro exI [of _ "?d1\<lparr>nodeID := n, bpageNO := p, status := 2\<rparr>"])
        (simp add: set_row_def set_group_def set_pos_def)
  qed (simp_all add: t(1) t(2), simp_all add: set_row_def set_group_def set_pos_def)
  moreover have "locks t = (locks s)[nat n := False]" using gt by (simp add: locks_def map_update)
  ultimately show ?thesis using h(1) cl t(3) p by auto
qed

section \<open>One lender\<close>

lemma tail_status:
  assumes "ring_ok n c s"
  shows "status (wo_at n (tail (pos_at n s)) s) = (if c < total_writeOut s then -1 else 2)"
    and "0 \<le> tail (pos_at n s)" and "tail (pos_at n s) < total_writeOut s"
proof -
  let ?h = "head (pos_at n s)" and ?tw = "total_writeOut s" and ?t = "tail (pos_at n s)"
  have R: "0 \<le> ?h" "?h < ?tw" "0 \<le> c" "c \<le> ?tw" "?t = (?h + c) mod ?tw"
    using assms by (simp_all add: ring_ok_def)
  show t: "0 \<le> ?t" "?t < ?tw" unfolding R(5) using R by simp_all
  have "(?t - ?h) mod ?tw = c mod ?tw" unfolding R(5) by (simp add: mod_diff_left_eq)
  then show "status (wo_at n ?t s) = (if c < ?tw then -1 else 2)"
    using assms t R by (auto simp: ring_ok_def)
qed

lemma lender_codes:
  assumes "lender_ok up n c s"
  shows "arr_get (buff_pos s) n = Some (pos_at n s)"
    and "arr_get (COMEX_free_group s) n = Some (COMEX_free_group s ! nat n)"
    and "wo_get n (tail (pos_at n s)) s = Some (wo_at n (tail (pos_at n s)) s)"
    and "fg_upd n f s = Some (set_group n (f (COMEX_free_group s ! nat n)) s)"
proof -
  have L: "0 \<le> n" "ring_ok n c s" "n < int (length (COMEX_free_group s))"
    using assms by (simp_all add: lender_ok_def far_ok_def lent_ok_def)
  then show "arr_get (buff_pos s) n = Some (pos_at n s)"
    and "arr_get (COMEX_free_group s) n = Some (COMEX_free_group s ! nat n)"
    by (simp_all add: arr_get_def pos_at_def ring_ok_def)
  show "wo_get n (tail (pos_at n s)) s = Some (wo_at n (tail (pos_at n s)) s)"
  proof (rule wo_get_ok)
    show "row_ok n s" using L(2) by (simp add: ring_ok_def)
  qed (rule tail_status [OF L(2)])+
  show "fg_upd n f s = Some (set_group n (f (COMEX_free_group s ! nat n)) s)" using fg_upd_ok [OF L(1,3)] .
qed

text \<open>The part of an iteration before the test for a free page.\<close>

definition prepared :: "'r ext \<Rightarrow> int \<Rightarrow> 'r node \<Rightarrow> 'r node option" where
  "prepared X n s = do {
     s1 \<leftarrow> fg_upd n (\<lambda>g. g\<lparr>mutex_FG := True\<rparr>) s;
     s1 \<leftarrow> ask_more X n s1;
     pos \<leftarrow> arr_get (buff_pos s1) n;
     d \<leftarrow> wo_get n (tail pos) s1;
     if status d = 2 then COMEX_flush_buff X n s1 else Some s1
   }"

lemma prepared_ok:
  assumes X: "rdma_transfers X virt rem up" "rdma_messages X rem up" and i: "store_inv virt up s"
    and n: "0 \<le> n" "n < nMem s"
  shows "\<exists>t c. prepared X n s = Some t \<and> store_inv virt up t \<and> lender_ok up n c t \<and> c < total_writeOut t \<and>
    keeps rem s t \<and> locks t = (locks s)[nat n := True] \<and> mem t = mem s \<and> pool t = pool s \<and>
    lent_queue t n = lent_queue s n \<and> COMEX_readIn_buff t = COMEX_readIn_buff s"
proof -
  obtain c where l: "lender_ok up n c s" using store_inv_lender [OF i n] by auto
  let ?g = "COMEX_free_group s ! nat n"
  let ?s0 = "set_group n (?g\<lparr>mutex_FG := True\<rparr>) s"
  have ng: "n < int (length (COMEX_free_group s))" using l by (simp add: lender_ok_def lent_ok_def)
  note s0 = store_inv_group [OF i, of "?g\<lparr>mutex_FG := True\<rparr>" n, simplified]
  have l0: "lender_ok up n c ?s0" using s0(3) [OF l] .
  have hk: "hooked ?s0" using i by (simp add: store_inv_def ready_def)
  obtain s1 where s1: "ask_more X n ?s0 = Some s1" "core_eq rem up ?s0 s1" "locks s1 = locks ?s0"
    "COMEX_readIn_buff s1 = COMEX_readIn_buff ?s0" "pool s1 = pool ?s0"
    using ask_more_ok [OF X(2) l0 hk] by auto
  have l1: "lender_ok up n c s1" "lent_queue s1 n = lent_queue ?s0 n" using core_eq_lender [OF s1(2) l0] by simp_all
  have i1: "store_inv virt up s1" "keeps rem ?s0 s1" using core_eq_store [OF s1(2) s0(1)] s1(4) by simp_all
  have m1: "mem s1 = mem s" "nMem s1 = nMem s" using s1(2) by (simp_all add: core_eq_def)
  have q1: "lent_queue s1 n = lent_queue s n" using l1(2) n(1) ng by (simp add: lent_queue_def)
  have k1: "keeps rem s s1" using keeps_trans [OF s0(2) i1(2)] .
  have lk: "locks s1 = (locks s)[nat n := True]" using s1(3) locks_set_group [OF n(1) ng] by simp
  have r1: "ring_ok n c s1" "c \<le> total_writeOut s1" "0 < total_writeOut s1" using l1(1) by (simp_all add: lender_ok_def ring_ok_def)
  have start: "prepared X n s = (if c < total_writeOut s1 then Some s1 else COMEX_flush_buff X n s1)"
    unfolding prepared_def lender_codes(4) [OF l] using s1(1) lender_codes [OF l1(1)] tail_status [OF r1(1)]
    by simp
  show ?thesis
  proof (cases "c < total_writeOut s1")
    case True
    then show ?thesis
      using start i1(1) l1(1) k1 lk m1(1) s1(4,5) q1 by (intro exI [of _ s1] exI [of _ c]) simp
  next
    case False
    obtain t c' where t: "COMEX_flush_buff X n s1 = Some t" "flushed rem up n s1 t" "lender_ok up n c' t" "c' \<le> c"
      "0 < c \<longrightarrow> c' < c" "store_inv virt up t" "keeps rem s1 t"
      using flush_step [OF X(1) i1(1) n(1) _ l1(1)] n(2) m1(2) by auto
    have "c' < total_writeOut t" using t(2,5) r1 False by (simp add: flushed_def)
    moreover have "locks t = (locks s)[nat n := True]" using t(2) lk by (simp add: flushed_def locks_def)
    moreover have "mem t = mem s \<and> pool t = pool s \<and> COMEX_readIn_buff t = COMEX_readIn_buff s"
      using t(2) m1(1) s1(4,5) by (simp add: flushed_def)
    moreover have "lent_queue t n = lent_queue s n" using flushed_env(7) [OF t(2)] q1 by simp
    ultimately show ?thesis
      using start False t keeps_trans [OF k1 t(7)] by (intro exI [of _ t] exI [of _ c']) simp
  qed
qed

section \<open>The loop over the lenders\<close>

lemma COMEX_hash_ok:
  assumes "0 \<le> seed" and "0 \<le> node" and "seed * node + 1 < 2 ^ 31" and "0 < nMem s"
  shows "COMEX_hash seed node s = Some ((seed * node + 1) mod nMem s)"
proof -
  have z: "0 \<le> seed * node" using assms by simp
  have "i32 (i32 (seed * node) + 1) = seed * node + 1" using z assms(3) by simp
  then show ?thesis using assms(4) z by (simp add: COMEX_hash_def smod_nonneg)
qed

definition hash_ok :: "'r node \<Rightarrow> bool" where
  "hash_ok s \<longleftrightarrow> 0 < nMem s \<and> 0 \<le> COMEX_ID (conf s) \<and> nMem s * COMEX_ID (conf s) + 1 < 2 ^ 31"

lemma next_lender:
  assumes "hash_ok s" and "0 \<le> n" and "n < nMem s"
  shows "COMEX_hash n (COMEX_ID (conf s)) s = Some ((n * COMEX_ID (conf s) + 1) mod nMem s)"
proof -
  have "n * COMEX_ID (conf s) \<le> nMem s * COMEX_ID (conf s)"
    using assms by (intro mult_right_mono) (simp_all add: hash_ok_def)
  then show ?thesis using assms by (intro COMEX_hash_ok) (auto simp: hash_ok_def)
qed

definition unlocked :: "'r node \<Rightarrow> bool" where
  "unlocked s \<longleftrightarrow> True \<notin> set (locks s)"

lemma unlockedD:
  assumes "unlocked s" and "0 \<le> n" and "n < int (length (COMEX_free_group s))"
  shows "\<not> mutex_FG (COMEX_free_group s ! nat n)"
proof -
  have "mutex_FG (COMEX_free_group s ! nat n) \<in> set (locks s)" using assms(2,3) by (simp add: locks_def nat_less_iff)
  then show ?thesis using assms(1) unfolding unlocked_def by metis
qed

lemma unlocked_lock: "unlocked s \<Longrightarrow> (locks s)[n := True, n := False] = locks s"
proof (rule nth_equalityI)
  fix j assume u: "unlocked s" and "j < length ((locks s)[n := True, n := False])"
  then have "locks s ! j = False" by (metis (full_types) length_list_update nth_mem unlocked_def)
  then show "(locks s)[n := True, n := False] ! j = locks s ! j"
    using \<open>j < length ((locks s)[n := True, n := False])\<close> by (cases "j = n") simp_all
qed simp

lemma move_step:
  assumes X: "rdma_transfers X virt rem up" "rdma_messages X rem up" and i: "store_inv virt up s" and u: "unlocked s"
    and n: "0 \<le> n" "n < nMem s" and j: "j < m"
  shows "(lent_total s n > 0 \<and> (\<exists>t. move_loop X old m j n rn rp s = Some (1, n, hd (lent_queue s n), t) \<and>
        store_inv virt up t \<and> unlocked t \<and> in_far n (hd (lent_queue s n)) s \<and>
        stored rem n (hd (lent_queue s n)) t = page_data (mem s) (kmap X old) \<and> \<not> pre_hit n (hd (lent_queue s n)) t \<and> (ri_quiet s \<longrightarrow> ri_quiet t) \<and>
        keeps_except rem n (hd (lent_queue s n)) s t)) \<or>
     (\<not> lent_total s n > 0 \<and> (\<exists>t. store_inv virt up t \<and> unlocked t \<and> keeps rem s t \<and> mem t = mem s \<and> (ri_quiet s \<longrightarrow> ri_quiet t) \<and>
        move_loop X old m j n rn rp s = do {
          n' \<leftarrow> COMEX_hash n (COMEX_ID (conf s)) t;
          move_loop X old m (j + 1) n' rn rp t }))"
proof -
  obtain c0 where l0: "lender_ok up n c0 s" using store_inv_lender [OF i n] by auto
  have ng: "n < int (length (COMEX_free_group s))" using l0 by (simp add: lender_ok_def lent_ok_def)
  have nl: "\<not> mutex_FG (COMEX_free_group s ! nat n)"
    using unlockedD [OF u n(1) ng] .
  obtain t c where t: "prepared X n s = Some t" "store_inv virt up t" "lender_ok up n c t" "c < total_writeOut t"
    "keeps rem s t" "locks t = (locks s)[nat n := True]" "mem t = mem s" "lent_queue t n = lent_queue s n"
    "COMEX_readIn_buff t = COMEX_readIn_buff s"
    using prepared_ok [OF X i n] by auto
  have rq: "ri_quiet t = ri_quiet s" using t(9) by (simp add: ri_quiet_def)
  let ?g = "COMEX_free_group t ! nat n" and ?k = "tail (pos_at n t)"
  have ring: "ring_ok n c t" and lt: "lent_ok t n" using t(3) by (simp_all add: lender_ok_def)
  have st: "status (wo_at n ?k t) = -1" using tail_status(1) [OF ring] t(4) by simp
  have lo: "lent_ok s n" using l0 by (simp add: lender_ok_def)
  have tot: "total_page ?g = lent_total s n"
    using lent.avail [OF lt] lent.avail [OF lo] t(8) by (simp add: lent_total_def)
  have cf: "conf t = conf s" using t(5) by (simp add: keeps_def)
  have pre: "move_loop X old m j n rn rp s = Option.bind (prepared X n s) (\<lambda>s1. do {
          g \<leftarrow> arr_get (COMEX_free_group s1) n;
          pos \<leftarrow> arr_get (buff_pos s1) n;
          d \<leftarrow> wo_get n (tail pos) s1;
          if total_page g > 0 \<and> status d = -1 then do {
            (pg, s1) \<leftarrow> COMEX_freelist_getpage n s1;
            if pg = -1 then do {
              dest \<leftarrow> COMEX_hash n (COMEX_ID (conf s1)) s1;
              s1 \<leftarrow> fg_upd dest (\<lambda>g. g\<lparr>mutex_FG := False\<rparr>) s1;
              move_loop X old m (j + 1) dest rn pg s1
            }
            else do {
              let slot = tail pos;
              s1 \<leftarrow> claim X old n slot pg s1;
              Some (1, n, pg, s1)
            }
          }
          else do {
            s1 \<leftarrow> fg_upd n (\<lambda>g. g\<lparr>mutex_FG := False\<rparr>) s1;
            dest \<leftarrow> COMEX_hash n (COMEX_ID (conf s1)) s1;
            move_loop X old m (j + 1) dest rn rp s1
          } })"
    unfolding prepared_def bind_assoc
    by (subst move_loop.simps) (simp only: j nl if_True if_False lender_codes(2) [OF l0] bind.bind_lunit)
  have body: "move_loop X old m j n rn rp s =
     (if total_page ?g > 0 then do {
            (pg, s1) \<leftarrow> COMEX_freelist_getpage n t;
            if pg = -1 then do {
              dest \<leftarrow> COMEX_hash n (COMEX_ID (conf s1)) s1;
              s1 \<leftarrow> fg_upd dest (\<lambda>g. g\<lparr>mutex_FG := False\<rparr>) s1;
              move_loop X old m (j + 1) dest rn pg s1
            }
            else do {
              let slot = ?k;
              s1 \<leftarrow> claim X old n slot pg s1;
              Some (1, n, pg, s1)
            }
          }
          else do {
            s1 \<leftarrow> fg_upd n (\<lambda>g. g\<lparr>mutex_FG := False\<rparr>) t;
            dest \<leftarrow> COMEX_hash n (COMEX_ID (conf s1)) s1;
            move_loop X old m (j + 1) dest rn rp s1
          })"
    unfolding pre t(1) by (simp add: lender_codes [OF t(3)] st)
  show ?thesis
  proof (cases "lent_total s n > 0")
    case True
    obtain p ps where q: "lent_queue t n = p # ps"
      using True tot lent.avail [OF lt] by (cases "lent_queue t n") (auto simp: lent_total_def)
    have n': "n < nMem t" using n(2) cf by simp
    obtain v w where v: "COMEX_freelist_getpage n t = Some (p, v)" "p \<noteq> -1" "filled n p (kmap X old) t w"
      "locks w = (locks t)[nat n := False]"
      "claim X old n ?k p v = (if ?k smod FLUSH = 0 \<and> ?k \<noteq> 0 then COMEX_flush_buff X n w else Some w)"
      using claim_ok [OF t(2) n(1) n' t(3,4) q, of X old] by auto
    note F = filled_correct [OF v(3) t(2) n(1) n' t(3,4)]
    have lw: "locks w = locks s" using v(4) t(6) unlocked_lock [OF u] by simp
    have pin: "in_far n p s"
    proof -
      have "in_far n p t" using t(3) q by (simp add: lender_ok_def seq_ok_def)
      then show ?thesis using t(5) n by (simp add: keeps_def)
    qed
    obtain z where z: "claim X old n ?k p v = Some z" "store_inv virt up z" "keeps rem w z" "locks z = locks s"
      "\<not> pre_hit n p z" "ri_quiet s \<longrightarrow> ri_quiet z"
    proof (cases "?k smod FLUSH = 0 \<and> ?k \<noteq> 0")
      case False
      then show thesis using that [of w] v(3,5) F(2) lw rq by (auto simp: filled_def)
    next
      case fl: True
      have nw: "n < nMem w" using n' v(3) by (simp add: filled_def)
      obtain z c' where "COMEX_flush_buff X n w = Some z" "flushed rem up n w z" "store_inv virt up z" "keeps rem w z"
        using flush_step [OF X(1) F(2) n(1) nw F(1)] by auto
      moreover from this have "\<not> pre_hit n p z" using v(3) pre_hit_cong [of z w n p] by (simp add: flushed_def filled_def)
      moreover have "ri_quiet s \<longrightarrow> ri_quiet z"
        using v(3) rq calculation by (simp add: flushed_def filled_def ri_quiet_def)
      ultimately show thesis using that [of z] v(5) fl lw by (simp add: flushed_def locks_def)
    qed
    have "keeps_except rem n p s z"
      by (rule keeps_except_trans(2) [OF keeps_except_trans(1) [OF t(5) F(4)] z(3)])
    moreover have "stored rem n p z = page_data (mem s) (kmap X old)"
    proof -
      have "in_far n p w" "conf w = conf t"
        using pin t(5) F(4) n n' by (simp_all add: keeps_def keeps_except_def)
      then have "stored rem n p z = stored rem n p w" using z(3) n(1) n' by (simp add: keeps_def)
      then show ?thesis using F(3) t(7) by simp
    qed
    moreover have "unlocked z" using u z(4) by (simp add: unlocked_def)
    ultimately show ?thesis
      using True body tot v(1,2) z(1,2,5,6) pin q t(8) by simp
  next
    case False
    let ?w = "set_group n (?g\<lparr>mutex_FG := False\<rparr>) t"
    note S = store_inv_group [OF t(2), of "?g\<lparr>mutex_FG := False\<rparr>" n, simplified]
    have ngt: "n < int (length (COMEX_free_group t))" using lt by (simp add: lent_ok_def)
    have "locks ?w = locks s" using locks_set_group [OF n(1) ngt] t(6) unlocked_lock [OF u] by simp
    then have "unlocked ?w" using u by (simp add: unlocked_def)
    moreover have "keeps rem s ?w" using keeps_trans [OF t(5) S(2)] .
    moreover have "ri_quiet ?w = ri_quiet s" using rq by (simp add: ri_quiet_def set_group_def)
    ultimately show ?thesis
      using False body tot lender_codes(4) [OF t(3)] S(1) t(7) cf
      by (intro disjI2 conjI exI [of _ ?w]) simp_all
  qed
qed

lemma move_loop_correct:
  assumes X: "rdma_transfers X virt rem up" "rdma_messages X rem up" and "store_inv virt up s" and "unlocked s"
    and "hash_ok s" and "0 \<le> n" and "n < nMem s" and "j < m"
  shows "(\<exists>d p t. move_loop X old m j n rn rp s = Some (1, d, p, t) \<and> 0 \<le> d \<and> d < nMem s \<and> in_far d p s \<and>
        store_inv virt up t \<and> unlocked t \<and> stored rem d p t = page_data (mem s) (kmap X old) \<and> \<not> pre_hit d p t \<and> (ri_quiet s \<longrightarrow> ri_quiet t) \<and>
        keeps_except rem d p s t \<and> (lent_total s n > 0 \<longrightarrow> d = n \<and> p = hd (lent_queue s n))) \<or>
     (\<not> lent_total s n > 0 \<and> (\<exists>t. move_loop X old m j n rn rp s = Some (-1, 0, 0, t) \<and>
        store_inv virt up t \<and> unlocked t \<and> keeps rem s t))"
  using assms(3-)
proof (induction "nat (m - j)" arbitrary: j n s)
  case 0
  then show ?case by simp
next
  case (Suc x)
  from move_step [OF X Suc.prems(1,2,4-6), of old rn rp] show ?case
  proof
    assume "lent_total s n > 0 \<and> (\<exists>t. move_loop X old m j n rn rp s = Some (1, n, hd (lent_queue s n), t) \<and>
        store_inv virt up t \<and> unlocked t \<and> in_far n (hd (lent_queue s n)) s \<and>
        stored rem n (hd (lent_queue s n)) t = page_data (mem s) (kmap X old) \<and> \<not> pre_hit n (hd (lent_queue s n)) t \<and> (ri_quiet s \<longrightarrow> ri_quiet t) \<and>
        keeps_except rem n (hd (lent_queue s n)) s t)"
    then show ?case using Suc.prems(4,5) by blast
  next
    assume "\<not> lent_total s n > 0 \<and> (\<exists>t. store_inv virt up t \<and> unlocked t \<and> keeps rem s t \<and> mem t = mem s \<and> (ri_quiet s \<longrightarrow> ri_quiet t) \<and>
        move_loop X old m j n rn rp s = do {
          n' \<leftarrow> COMEX_hash n (COMEX_ID (conf s)) t;
          move_loop X old m (j + 1) n' rn rp t })"
    then obtain t where none: "\<not> lent_total s n > 0" and t: "store_inv virt up t" "unlocked t" "keeps rem s t" "mem t = mem s"
      "ri_quiet s \<longrightarrow> ri_quiet t"
      and st: "move_loop X old m j n rn rp s = do {
          n' \<leftarrow> COMEX_hash n (COMEX_ID (conf s)) t;
          move_loop X old m (j + 1) n' rn rp t }" by blast
    have cf: "conf t = conf s" using t(3) by (simp add: keeps_def)
    let ?n = "(n * COMEX_ID (conf s) + 1) mod nMem s"
    have n': "0 \<le> ?n" "?n < nMem t" using Suc.prems(3) cf by (simp_all add: hash_ok_def)
    have h: "hash_ok t" using Suc.prems(3) cf by (simp add: hash_ok_def)
    have "COMEX_hash n (COMEX_ID (conf s)) t = Some ?n"
      using next_lender [of t n] h Suc.prems(4,5) cf by simp
    then have st: "move_loop X old m j n rn rp s = move_loop X old m (j + 1) ?n rn rp t" using st by simp
    show ?case
    proof (cases "j + 1 < m")
      case False
      then have "move_loop X old m (j + 1) ?n rn rp t = Some (-1, 0, 0, t)" by (simp add: move_loop.simps)
      then show ?thesis using st none t by auto
    next
      case True
      have "x = nat (m - (j + 1))" using Suc.hyps(2) by simp
      from Suc.hyps(1) [OF this t(1,2) h n' True] show ?thesis
      proof
        assume "\<exists>d p w. move_loop X old m (j + 1) ?n rn rp t = Some (1, d, p, w) \<and> 0 \<le> d \<and> d < nMem t \<and> in_far d p t \<and>
          store_inv virt up w \<and> unlocked w \<and> stored rem d p w = page_data (mem t) (kmap X old) \<and> \<not> pre_hit d p w \<and> (ri_quiet t \<longrightarrow> ri_quiet w) \<and>
          keeps_except rem d p t w \<and> (lent_total t ?n > 0 \<longrightarrow> d = ?n \<and> p = hd (lent_queue t ?n))"
        then obtain d p w where w: "move_loop X old m (j + 1) ?n rn rp t = Some (1, d, p, w)" "0 \<le> d" "d < nMem t"
          "in_far d p t" "store_inv virt up w" "unlocked w" "stored rem d p w = page_data (mem t) (kmap X old)"
          "keeps_except rem d p t w" "\<not> pre_hit d p w" "ri_quiet t \<longrightarrow> ri_quiet w" by blast
        have "in_far d p s" using w(2-4) t(3) cf by (simp add: keeps_def)
        then show ?thesis
          using st none w t(4,5) cf keeps_except_trans(1) [OF t(3) w(8)] by simp
      next
        assume "\<not> lent_total t ?n > 0 \<and> (\<exists>w. move_loop X old m (j + 1) ?n rn rp t = Some (-1, 0, 0, w) \<and>
          store_inv virt up w \<and> unlocked w \<and> keeps rem t w)"
        then obtain w where "move_loop X old m (j + 1) ?n rn rp t = Some (-1, 0, 0, w)" "store_inv virt up w"
          "unlocked w" "keeps rem t w" by blast
        then show ?thesis using st none keeps_trans [OF t(3)] by auto
      qed
    qed
  qed
qed

end
