(* ===== verification/Comex_ReadIn.thy ===== *)
theory Comex_ReadIn
  imports Comex_Move
begin

unbundle bit_operations_syntax

text \<open>
  Reading pages back (\<open>comex_remote.h\<close>): from the write-out ring, from the read-in buffer, and over
  RDMA in groups of 16 pages (\<open>COMEX_read_from_remote\<close>).
\<close>

section \<open>The code\<close>

definition PreF_SIZE :: int where "PreF_SIZE = 16"

definition PreF_MASK :: int where "PreF_MASK = NOT (PreF_SIZE - 1)"

text \<open>The slot of the read-in buffer for a page.\<close>

definition ri_index :: "int \<Rightarrow> 'r node \<Rightarrow> int option" where
  "ri_index pg s = (if total_readIn s = 0 then None else Some (pg smod total_readIn s))"

text \<open>Copy a slot of the read-in buffer to a page.\<close>

definition copy_in :: "'r ext \<Rightarrow> int \<Rightarrow> int \<Rightarrow> 'r node \<Rightarrow> 'r node option" where
  "copy_in X new_page slot s = do {
     let buf_vAddr = get_readIn_buff slot s;
     let new_vAddr = kmap X new_page;
     a \<leftarrow> COMEX_offset_to_addr buf_vAddr s;
     if a = 0 then None else Some (s\<lparr>mem := memcpy new_vAddr a X86PageSize (mem s)\<rparr>)
   }"

definition COMEX_read_from_preFetch :: "'r ext \<Rightarrow> int \<Rightarrow> int \<Rightarrow> int \<Rightarrow> 'r node \<Rightarrow> (int \<times> 'r node) option" where
  "COMEX_read_from_preFetch X new_page n pg s = do {
     index \<leftarrow> ri_index pg s;
     d \<leftarrow> arr_get (COMEX_readIn_buff s) index;
     if status d = 2 \<and> nodeID d = n \<and> bpageNO d = pg then do {
       s \<leftarrow> copy_in X new_page index s;
       Some (1, s\<lparr>stats := (stats s)\<lparr>COMEX_in_preF := COMEX_in_preF (stats s) + 1\<rparr>\<rparr>)
     }
     else Some (0, s)
   }"

definition COMEX_read_from_remote :: "'r ext \<Rightarrow> int \<Rightarrow> int \<Rightarrow> int \<Rightarrow> 'r node \<Rightarrow> 'r node option" where
  "COMEX_read_from_remote X new_page n pg s = do {
     buff_IDX \<leftarrow> ri_index pg s;
     let buff_FLR = buff_IDX AND PreF_MASK;
     let page_FLR = pg AND PreF_MASK;
     let buf_vAddr = get_readIn_buff buff_FLR s;
     d \<leftarrow> arr_get (COMEX_readIn_buff s) buff_FLR;
     if mutex_buff d then None
     else do {
       s \<leftarrow> ri_upd buff_FLR (\<lambda>d. d\<lparr>mutex_buff := True\<rparr>) s;
       s \<leftarrow> for_up 0 PreF_SIZE (\<lambda>i. ri_upd (buff_FLR + i) (\<lambda>d. d\<lparr>status := -1, nodeID := -1, bpageNO := -1\<rparr>)) s;
       s \<leftarrow> COMEX_RDMA X n CODE_COMEX_PAGE_READ
         (Address \<lparr>local_off = buf_vAddr, remote_off = push_bit SHIFT_PAGE (of_int page_FLR), asize = PreF_SIZE,
            bufIDX = i16 buff_FLR\<rparr>) 24 s;
       s \<leftarrow> copy_in X new_page buff_IDX s;
       s \<leftarrow> for_up 0 PreF_SIZE (\<lambda>i. ri_upd (buff_FLR + i) (\<lambda>d. d\<lparr>status := 2, nodeID := n, bpageNO := page_FLR + i\<rparr>)) s;
       s \<leftarrow> ri_upd buff_FLR (\<lambda>d. d\<lparr>mutex_buff := False\<rparr>) s;
       Some (s\<lparr>stats := (stats s)\<lparr>COMEX_in_RDMA := COMEX_in_RDMA (stats s) + 1\<rparr>\<rparr>)
     }
   }"

definition COMEX_read_from_remote_one :: "'r ext \<Rightarrow> int \<Rightarrow> int \<Rightarrow> int \<Rightarrow> 'r node \<Rightarrow> 'r node option" where
  "COMEX_read_from_remote_one X new_page n pg s = do {
     buff_IDX \<leftarrow> ri_index pg s;
     let buf_vAddr = get_readIn_buff buff_IDX s;
     if mutex_PF s then None
     else do {
       let s = s\<lparr>mutex_PF := True\<rparr>;
       s \<leftarrow> COMEX_RDMA X n CODE_COMEX_PAGE_READ
         (Address \<lparr>local_off = buf_vAddr, remote_off = push_bit SHIFT_PAGE (of_int pg), asize = 1,
            bufIDX = i16 buff_IDX\<rparr>) 24 s;
       s \<leftarrow> copy_in X new_page buff_IDX s;
       let s = s\<lparr>mutex_PF := False\<rparr>;
       Some (s\<lparr>stats := (stats s)\<lparr>COMEX_in_RDMA := COMEX_in_RDMA (stats s) + 1\<rparr>\<rparr>)
     }
   }"

section \<open>Reading from the ring\<close>

lemma buffer_loop_correct:
  assumes rdy: "ready virt s" and row: "row_ok n s" and n: "0 \<le> n" "n < total_nodes s" and i: "0 \<le> i"
    and before: "\<And>j. 0 \<le> j \<Longrightarrow> j < i \<Longrightarrow> \<not> holds_page n p j s"
  shows "buffer_loop X new n p i s =
    (case slot_of n p s of
       None \<Rightarrow> Some (0, s)
     | Some k \<Rightarrow> Some (1, s\<lparr>mem := memcpy (kmap X new) (here_addr (wo_page n (int k) s) s) X86PageSize (mem s),
         stats := (stats s)\<lparr>COMEX_in_buff := COMEX_in_buff (stats s) + 1\<rparr>\<rparr>))"
  using i before
proof (induction "nat (total_writeOut s - i)" arbitrary: i)
  case 0
  then have e: "\<not> i < total_writeOut s" by simp
  have "\<not> holds_page n p j s" for j
    using 0(3) [of j] e by (auto simp: holds_page_def)
  then have "slot_of n p s = None" using slot_of_None by blast
  then show ?case using e by (subst buffer_loop.simps) simp
next
  case (Suc x)
  have i: "0 \<le> i" "i < total_writeOut s" using Suc by auto
  have g: "wo_get n i s = Some (wo_at n i s)" using wo_get_ok [OF row i] .
  show ?case
  proof (cases "holds_page n p i s")
    case False
    then have "buffer_loop X new n p i s = buffer_loop X new n p (i + 1) s"
      using g i by (subst buffer_loop.simps) (auto simp: holds_page_def)
    also have "\<dots> = (case slot_of n p s of
       None \<Rightarrow> Some (0, s)
     | Some k \<Rightarrow> Some (1, s\<lparr>mem := memcpy (kmap X new) (here_addr (wo_page n (int k) s) s) X86PageSize (mem s),
         stats := (stats s)\<lparr>COMEX_in_buff := COMEX_in_buff (stats s) + 1\<rparr>\<rparr>))"
    proof (rule Suc.hyps(1))
      show "x = nat (total_writeOut s - (i + 1))" using Suc.hyps(2) by simp
      show "\<not> holds_page n p j s" if "0 \<le> j" "j < i + 1" for j
        using Suc.prems(2) [of j] False that by (cases "j = i") auto
    qed (use i in simp)
    finally show ?thesis .
  next
    case True
    have a: "COMEX_offset_to_addr (page_off (wo_page n i s)) s = Some (here_addr (wo_page n i s) s)"
      "here_addr (wo_page n i s) s \<noteq> 0" "get_writeOut_buff n i s = page_off (wo_page n i s)"
      using offset_to_addr_page [OF rdy] here_nonzero [OF rdy] ready_wo [OF rdy n i] by auto
    have "slot_of n p s = Some (nat i)"
      unfolding slot_of_def find_Some_iff
    proof (intro exI [of _ "nat i"] conjI allI impI)
      fix j assume "j < nat i"
      then have "\<not> holds_page n p (int j) s" using Suc.prems(2) [of "int j"] by auto
      then show "\<not> (bpageNO (wo_at n (int ([0..<nat (total_writeOut s)] ! j)) s) = p \<and>
          status (wo_at n (int ([0..<nat (total_writeOut s)] ! j)) s) = 2)"
        using \<open>j < nat i\<close> i by (auto simp: holds_page_def)
    qed (use True i in \<open>auto simp: holds_page_def\<close>)
    then show ?thesis
      using True i g a by (subst buffer_loop.simps) (simp add: holds_page_def Let_def)
  qed
qed

lemma read_from_buffer_correct:
  assumes "ready virt s" and "row_ok n s" and "0 \<le> n" and "n < total_nodes s"
  shows "COMEX_read_from_buffer X new n p s =
    (case slot_of n p s of
       None \<Rightarrow> Some (0, s)
     | Some k \<Rightarrow> Some (1, s\<lparr>mem := memcpy (kmap X new) (here_addr (wo_page n (int k) s) s) X86PageSize (mem s),
         stats := (stats s)\<lparr>COMEX_in_buff := COMEX_in_buff (stats s) + 1\<rparr>\<rparr>))"
  unfolding COMEX_read_from_buffer_def by (rule buffer_loop_correct [OF assms]) auto

section \<open>The slots of a group\<close>

lemma mask_16: "x AND PreF_MASK = x - x mod 16" for x :: int
proof -
  have m: "PreF_MASK = NOT (mask 4)" by (simp add: PreF_MASK_def PreF_SIZE_def mask_eq_exp_minus_1)
  have "x AND PreF_MASK = push_bit 4 (drop_bit 4 x)"
    unfolding m by (rule bit_eqI) (auto simp: bit_simps)
  then show ?thesis by (simp add: push_bit_eq_mult drop_bit_eq_div minus_mod_eq_div_mult)
qed

definition set_range :: "int \<Rightarrow> (int \<Rightarrow> buff_desc_t \<Rightarrow> buff_desc_t) \<Rightarrow> int \<Rightarrow> buff_desc_t list \<Rightarrow> buff_desc_t list" where
  "set_range a f c xs = map (\<lambda>j. if a \<le> int j \<and> int j < a + c then f (int j - a) (xs ! j) else xs ! j) [0..<length xs]"

lemma length_set_range [simp]: "length (set_range a f c xs) = length xs"
  by (simp add: set_range_def)

lemma nth_set_range [simp]:
  "j < length xs \<Longrightarrow> set_range a f c xs ! j = (if a \<le> int j \<and> int j < a + c then f (int j - a) (xs ! j) else xs ! j)"
  by (simp add: set_range_def)

lemma ri_range_ok:
  assumes "0 \<le> a" and "0 \<le> c" and "a + c \<le> int (length (COMEX_readIn_buff s))"
  shows "for_up 0 c (\<lambda>i. ri_upd (a + i) (f i)) s = Some (s\<lparr>COMEX_readIn_buff := set_range a f c (COMEX_readIn_buff s)\<rparr>)"
proof -
  let ?xs = "COMEX_readIn_buff s"
  let ?P = "\<lambda>i t. t = s\<lparr>COMEX_readIn_buff := set_range a f i ?xs\<rparr>"
  have "\<exists>t. for_up 0 c (\<lambda>i. ri_upd (a + i) (f i)) s = Some t \<and> ?P c t"
  proof (rule for_up_rule [where P = ?P])
    have "set_range a f 0 ?xs = ?xs" by (rule nth_equalityI) auto
    then show "?P 0 s" by (cases s) simp
  next
    fix i t assume i: "0 \<le> i" "i < c" and t: "?P i t"
    have "(set_range a f i ?xs)[nat (a + i) := f i (?xs ! nat (a + i))] = set_range a f (i + 1) ?xs"
    proof (rule nth_equalityI)
      fix j assume "j < length ((set_range a f i ?xs)[nat (a + i) := f i (?xs ! nat (a + i))])"
      then show "(set_range a f i ?xs)[nat (a + i) := f i (?xs ! nat (a + i))] ! j = set_range a f (i + 1) ?xs ! j"
        using assms i by (cases "int j = a + i") (auto simp: nth_list_update)
    qed simp
    then show "\<exists>t'. ri_upd (a + i) (f i) t = Some t' \<and> ?P (i + 1) t'"
      using t assms i by (simp add: ri_upd_def arr_simps)
  qed (use assms in simp)
  then show ?thesis by blast
qed


section \<open>A read command that goes through\<close>

lemma RDMA_read_run:
  assumes X: "rdma_transfers X virt rem up" and s: "ready virt s" and n: "far_ok n s" and up: "up (io s) n"
    and k: "0 \<le> k" "k + int c \<le> total_readIn s" "0 < c"
    and run: "ri_page k s mod 1024 + int c \<le> 1024" "p mod 1024 + int c \<le> 1024" and far: "in_far n p s"
  shows "\<exists>r. COMEX_RDMA X n CODE_COMEX_PAGE_READ
      (Address \<lparr>local_off = get_readIn_buff k s, remote_off = push_bit 12 (of_int p), asize = int c, bufIDX = b\<rparr>) sz s
     = Some (s\<lparr>mem := copy_from (rem (io s) n) (far_addr n p s) (here_addr (ri_page k s) s)
          (of_nat c * X86PageSize) (mem s), io := r\<rparr>) \<and> up r = up (io s) \<and> rem r = rem (io s)"
proof -
  have n': "0 \<le> n" "n < int (length (cbs s))" using n by (simp_all add: far_ok_def)
  have "k < total_readIn s" using k by simp
  note w = ready_ri [OF s k(1) this]
  have sh: "shift_ok s" "hooked s" using s by (simp_all add: ready_def)
  have t: "transfer_ok up virt n (ri_page k s) (p + shift_pages s) c s"
    using n n' up s w(1) run far shift_mod [OF sh(1), of p]
    by (simp add: transfer_ok_def far_ok_def ready_def run_ok_def in_far_def in_space_def)
  have sz: "of_int (int c * 4096) = (of_nat c * X86PageSize :: u64)" by (simp add: X86PageSize_def)
  obtain r where r: "do_read X n (page_off (ri_page k s)) (page_off (p + shift_pages s)) (of_nat c * X86PageSize) s
      = Some (0, s\<lparr>mem := copy_from (rem (io s) n) (far_addr n p s) (here_addr (ri_page k s) s)
          (of_nat c * X86PageSize) (mem s), io := r\<rparr>)" "up r = up (io s)" "rem r = rem (io s)"
    using do_read_run [OF X t] by (auto simp: here_addr_def far_addr_def)
  then show ?thesis
    using sh(2) w(2) shift_off [OF sh(1), of p] sz
    by (intro exI [of _ r]) (simp add: COMEX_RDMA_def COMEX_RDMA_fn_def comex_codes)
qed

lemma copy_in_ok:
  assumes "ready virt s" and "0 \<le> k" and "k < total_readIn s"
  shows "copy_in X new k s = Some (s\<lparr>mem := memcpy (kmap X new) (here_addr (ri_page k s) s) X86PageSize (mem s)\<rparr>)"
  using ready_ri [OF assms] offset_to_addr_page [OF assms(1)] here_nonzero [OF assms(1)]
  by (simp add: copy_in_def Let_def)

lemma ri_index_ok: "ready virt s \<Longrightarrow> 0 \<le> p \<Longrightarrow> ri_index p s = Some (p mod total_readIn s)"
  by (simp add: ri_index_def ready_def conf_ok_def smod_nonneg)

text \<open>Slots \<open>k\<close> to \<open>k + c\<close> of the read-in buffer describe the pages of node \<open>n\<close> from \<open>p\<close> on.\<close>

definition group_desc :: "int \<Rightarrow> int \<Rightarrow> int \<Rightarrow> buff_desc_t \<Rightarrow> buff_desc_t" where
  "group_desc n p i d = d\<lparr>status := 2, nodeID := n, bpageNO := p + i\<rparr>"

lemma group_desc_fn: "(\<lambda>d. d\<lparr>status := 2, nodeID := n, bpageNO := p + i\<rparr>) = group_desc n p i"
  by (simp add: group_desc_def fun_eq_iff)

text \<open>Voiding a group under its lock and describing it anew.\<close>

lemma refill:
  assumes k: "0 \<le> k" "k < int (length xs)" and free: "\<not> mutex_buff (xs ! nat k)"
    and ys: "ys = set_range k (group_desc n p) c (set_range k (\<lambda>i d. d\<lparr>status := -1, nodeID := -1, bpageNO := -1\<rparr>) c
      (xs[nat k := (xs ! nat k)\<lparr>mutex_buff := True\<rparr>]))" and c: "0 < c"
  shows "ys[nat k := (ys ! nat k)\<lparr>mutex_buff := False\<rparr>] = set_range k (group_desc n p) c xs"
proof (rule nth_equalityI)
  fix j assume j: "j < length (ys[nat k := (ys ! nat k)\<lparr>mutex_buff := False\<rparr>])"
  show "ys[nat k := (ys ! nat k)\<lparr>mutex_buff := False\<rparr>] ! j = set_range k (group_desc n p) c xs ! j"
  proof (cases "j = nat k")
    case True
    then show ?thesis using k c j ys free by (intro buff_desc_t.equality) (simp_all add: group_desc_def)
  next
    case False
    then show ?thesis using k j ys by (simp add: group_desc_def)
  qed
qed (simp add: ys)

lemma div_mult_le_int: "(x :: int) div 16 * 16 \<le> x"
  using minus_mod_eq_div_mult [of x 16] pos_mod_sign [of 16 x] by linarith

lemma group_run:
  fixes k :: int
  assumes "16 dvd b" and "16 dvd k"
  shows "(b + k) mod 1024 + 16 \<le> 1024"
proof -
  obtain x where x: "b + k = 16 * x" using assms by (meson dvd_add dvd_def)
  show ?thesis unfolding x using pos_mod_bound [of 64 x] by (simp add: mod_mult_mult1 [of 16 x 64, simplified] del: pos_mod_bound)
qed

lemma big_addr_run': "p mod 1024 + int k < 1024 \<Longrightarrow> 0 \<le> p \<Longrightarrow>
    here_addr (p + int k) s = here_addr p s + of_nat k * X86PageSize"
  using big_addr_run [of p k] by (simp add: here_addr_def)

lemma read_group:
  assumes X: "rdma_transfers X virt rem up" and s: "ready virt s" and n: "far_ok n s" and up: "up (io s) n"
    and len: "int (length (COMEX_readIn_buff s)) = total_readIn s" and al: "16 dvd total_writeOut s * total_nodes s"
    and p: "0 \<le> p" "in_far n (p - p mod 16) s"
    and fit: "p mod total_readIn s div 16 * 16 + 16 \<le> total_readIn s"
    and free: "\<not> mutex_buff (COMEX_readIn_buff s ! nat (p mod total_readIn s div 16 * 16))"
  shows "\<exists>m r. COMEX_read_from_remote X new n p s = Some (s\<lparr>
      COMEX_readIn_buff := set_range (p mod total_readIn s div 16 * 16) (group_desc n (p - p mod 16)) 16 (COMEX_readIn_buff s),
      mem := memcpy (kmap X new) (here_addr (ri_page (p mod total_readIn s) s) s) X86PageSize m, io := r,
      stats := (stats s)\<lparr>COMEX_in_RDMA := COMEX_in_RDMA (stats s) + 1\<rparr>\<rparr>) \<and>
    m = copy_from (rem (io s) n) (far_addr n (p - p mod 16) s) (here_addr (ri_page (p mod total_readIn s div 16 * 16) s) s)
          (16 * X86PageSize) (mem s) \<and> up r = up (io s) \<and> rem r = rem (io s)"
proof -
  let ?i = "p mod total_readIn s" and ?f = "p mod total_readIn s div 16 * 16" and ?pf = "p - p mod 16"
  let ?xs = "COMEX_readIn_buff s"
  let ?x1 = "?xs[nat ?f := (?xs ! nat ?f)\<lparr>mutex_buff := True\<rparr>]"
  let ?x2 = "set_range ?f (\<lambda>i d. d\<lparr>status := -1, nodeID := -1, bpageNO := -1\<rparr>) 16 ?x1"
  let ?x3 = "set_range ?f (group_desc n ?pf) 16 ?x2"
  have tr: "0 < total_readIn s" using s by (simp add: ready_def conf_ok_def)
  have i: "0 \<le> ?i" "?i < total_readIn s" using tr by simp_all
  have f: "0 \<le> ?f" "?f \<le> ?i" using i(1) div_mult_le_int [of "?i"] by (simp add: pos_imp_zdiv_nonneg_iff, simp)
  have fl: "0 \<le> ?f" "?f < int (length ?xs)" using f i len by simp_all
  have idx: "ri_index p s = Some ?i" using ri_index_ok [OF s p(1)] .
  have msk: "?i AND PreF_MASK = ?f" "p AND PreF_MASK = ?pf" by (simp_all add: mask_16 minus_mod_eq_div_mult)
  define s2 where "s2 = s\<lparr>COMEX_readIn_buff := ?x2\<rparr>"
  have g1: "ri_upd ?f (\<lambda>d. d\<lparr>mutex_buff := True\<rparr>) s = Some (s\<lparr>COMEX_readIn_buff := ?x1\<rparr>)"
    using fl by (simp add: ri_upd_def arr_simps)
  have g2: "for_up 0 PreF_SIZE (\<lambda>i. ri_upd (?f + i) (\<lambda>d. d\<lparr>status := -1, nodeID := -1, bpageNO := -1\<rparr>))
      (s\<lparr>COMEX_readIn_buff := ?x1\<rparr>) = Some s2"
    using ri_range_ok [where a = ?f and c = 16 and s = "s\<lparr>COMEX_readIn_buff := ?x1\<rparr>" and f = "\<lambda>i d. d\<lparr>status := -1, nodeID := -1, bpageNO := -1\<rparr>"] f(1) fit len
    by (simp add: PreF_SIZE_def s2_def)
  have env: "ready virt s2" "far_ok n s2" "in_far n ?pf s2" "conf s2 = conf s" "io s2 = io s" "mem s2 = mem s"
    "far_addr n q s2 = far_addr n q s" "here_addr q s2 = here_addr q s" "ri_page k s2 = ri_page k s"
    "get_readIn_buff k s2 = get_readIn_buff k s" for q k
  proof -
    have c: "conf s2 = conf s" "bigspace s2 = bigspace s" "hooked s2 = hooked s" "cbs s2 = cbs s"
      "remote_shift_offset s2 = remote_shift_offset s" "io s2 = io s" "mem s2 = mem s"
      by (simp_all add: s2_def)
    show "conf s2 = conf s" "io s2 = io s" "mem s2 = mem s" "ri_page k s2 = ri_page k s"
      "get_readIn_buff k s2 = get_readIn_buff k s"
      using c by (simp_all add: ri_page_def get_readIn_buff_def)
    show "far_addr n q s2 = far_addr n q s" "here_addr q s2 = here_addr q s" using env_cong(4,5) [OF c(1-5)] .
    show "ready virt s2" "far_ok n s2" "in_far n ?pf s2"
      using env_cong(1-3) [OF c(1-5)] s n p(2) by (simp_all only:)
  qed
  have d16: "16 dvd ?f" by simp
  have pf: "?pf mod 1024 + int 16 \<le> 1024"
    using group_run [of 0 ?pf] by (simp add: minus_mod_eq_div_mult)
  have frun: "ri_page ?f s2 mod 1024 + int 16 \<le> 1024" using group_run [OF al d16] env(9) by (simp add: ri_page_def)
  have upn: "up (io s2) n" and fit': "?f + int 16 \<le> total_readIn s2" "0 < (16::nat)" using up env(4,5) fit by simp_all
  obtain m r where rd: "COMEX_RDMA X n CODE_COMEX_PAGE_READ
      (Address \<lparr>local_off = get_readIn_buff ?f s, remote_off = push_bit SHIFT_PAGE (of_int ?pf), asize = PreF_SIZE,
        bufIDX = i16 ?f\<rparr>) 24 s2 = Some (s2\<lparr>mem := m, io := r\<rparr>)" "up r = up (io s)" "rem r = rem (io s)"
    "m = copy_from (rem (io s) n) (far_addr n ?pf s) (here_addr (ri_page ?f s) s) (16 * X86PageSize) (mem s)"
    using RDMA_read_run [OF X env(1,2) upn f(1) fit' frun pf env(3), of "i16 ?f" 24]
    unfolding env(4-10) SHIFT_PAGE_def PreF_SIZE_def by auto
  have env3: "ready virt (s2\<lparr>mem := m, io := r\<rparr>)" "ri_page ?i (s2\<lparr>mem := m, io := r\<rparr>) = ri_page ?i s"
    "here_addr q (s2\<lparr>mem := m, io := r\<rparr>) = here_addr q s" "total_readIn (s2\<lparr>mem := m, io := r\<rparr>) = total_readIn s" for q
    using env_cong [of "s2\<lparr>mem := m, io := r\<rparr>" s2] env(1,4,8,9) by (simp_all add: ri_page_def)
  define s4 where "s4 = s2\<lparr>mem := memcpy (kmap X new) (here_addr (ri_page ?i s) s) X86PageSize m, io := r\<rparr>"
  have cp: "copy_in X new ?i (s2\<lparr>mem := m, io := r\<rparr>) = Some s4"
    using copy_in_ok [OF env3(1), of ?i X new] i env3 by (simp add: s4_def)
  have l2: "int (length ?x2) = total_readIn s" using len by simp
  have l4: "COMEX_readIn_buff s4 = ?x2" by (simp add: s4_def s2_def)
  have g5: "for_up 0 PreF_SIZE (\<lambda>i. ri_upd (?f + i) (\<lambda>d. d\<lparr>status := 2, nodeID := n, bpageNO := ?pf + i\<rparr>)) s4
      = Some (s4\<lparr>COMEX_readIn_buff := ?x3\<rparr>)"
    using ri_range_ok [where a = ?f and c = 16 and s = s4 and f = "group_desc n ?pf"] f(1) fit l2 l4
    by (simp add: PreF_SIZE_def group_desc_fn)
  have fin: "?x3[nat ?f := (?x3 ! nat ?f)\<lparr>mutex_buff := False\<rparr>] = set_range ?f (group_desc n ?pf) 16 ?xs"
    using refill [OF fl free] by simp
  have g6: "ri_upd ?f (\<lambda>d. d\<lparr>mutex_buff := False\<rparr>) (s4\<lparr>COMEX_readIn_buff := ?x3\<rparr>)
      = Some (s4\<lparr>COMEX_readIn_buff := set_range ?f (group_desc n ?pf) 16 ?xs\<rparr>)"
    using fl fin by (simp add: ri_upd_def arr_simps)
  have "COMEX_read_from_remote X new n p s = Some (s4\<lparr>COMEX_readIn_buff := set_range ?f (group_desc n ?pf) 16 ?xs,
      stats := (stats s)\<lparr>COMEX_in_RDMA := COMEX_in_RDMA (stats s) + 1\<rparr>\<rparr>)"
    unfolding COMEX_read_from_remote_def idx bind.bind_lunit Let_def msk arr_get_in [OF fl]
    by (simp only: free if_False g1 g2 rd(1) cp g5 g6 bind.bind_lunit) (simp add: s4_def s2_def)
  then show ?thesis
    using rd(2-4) by (intro exI [of _ m] exI [of _ r]) (simp add: s4_def s2_def)
qed


section \<open>What a read delivers\<close>

lemma group_data:
  assumes s: "ready virt s" and al: "16 dvd total_writeOut s * total_nodes s" and f: "16 dvd f" "0 \<le> f"
    and p: "16 dvd p" "in_far n p s" and k: "k < 16"
    and m: "m = copy_from other (far_addr n p s) (here_addr (ri_page f s) s) (16 * X86PageSize) m0"
  shows "page_data m (here_addr (ri_page (f + int k) s) s) = page_data other (far_addr n (p + int k) s)"
proof -
  have w: "0 \<le> total_writeOut s * total_nodes s" using s by (simp add: ready_def conf_ok_def)
  have r: "ri_page f s mod 1024 + 16 \<le> 1024" "p mod 1024 + 16 \<le> 1024"
    using group_run [OF al f(1)] group_run [of 0 p] p(1) by (simp_all add: ri_page_def)
  have "here_addr (ri_page (f + int k) s) s = here_addr (ri_page f s) s + of_nat k * X86PageSize"
    using big_addr_run' [of "ri_page f s" k s] r(1) k w f(2) by (simp add: ri_page_def add.assoc)
  moreover have "far_addr n (p + int k) s = far_addr n p s + of_nat k * X86PageSize"
    using r(2) k p(2) s by (intro far_addr_run) (simp_all add: ready_def in_far_def)
  ultimately show ?thesis
    using page_data_copy_run [of k 16 other "far_addr n p s" "here_addr (ri_page f s) s" m0] k m by simp
qed

lemma mod_split_16: "(x :: int) = x div 16 * 16 + x mod 16"
  by simp

text \<open>
  The page that is read is that of the group which has the position in the group of the slot: it is
  page \<open>p\<close> when the number of slots is a multiple of 16.
\<close>

definition page_read :: "int \<Rightarrow> 'r node \<Rightarrow> int" where
  "page_read p s = p - p mod 16 + p mod total_readIn s mod 16"

lemma page_read_same: "16 dvd total_readIn s \<Longrightarrow> page_read p s = p"
  by (simp add: page_read_def mod_mod_cancel)

lemma fit_16:
  assumes "16 dvd (r :: int)" and "0 < r"
  shows "p mod r div 16 * 16 + 16 \<le> r"
proof -
  obtain k where k: "r = 16 * k" using assms(1) by (elim dvdE)
  have lt: "x div 16 < k" if "x < 16 * k" for x using that by presburger
  have "p mod r div 16 < k" using lt [of "p mod r"] assms(2) k by simp
  then show ?thesis unfolding k by simp
qed

lemma read_from_remote_correct:
  assumes X: "rdma_transfers X virt rem up" and s: "ready virt s" and n: "far_ok n s" and up: "up (io s) n"
    and len: "int (length (COMEX_readIn_buff s)) = total_readIn s" and al: "16 dvd total_writeOut s * total_nodes s"
    and p: "0 \<le> p" "in_far n (p - p mod 16) s"
    and fit: "p mod total_readIn s div 16 * 16 + 16 \<le> total_readIn s"
    and free: "\<not> mutex_buff (COMEX_readIn_buff s ! nat (p mod total_readIn s div 16 * 16))"
  obtains t where "COMEX_read_from_remote X new n p s = Some t"
    and "page_data (mem t) (kmap X new) = page_data (rem (io s) n) (far_addr n (page_read p s) s)"
    and "conf t = conf s" and "bigspace t = bigspace s" and "cbs t = cbs s" and "COMEX_writeOut_buff t = COMEX_writeOut_buff s"
    and "buff_pos t = buff_pos s" and "COMEX_free_group t = COMEX_free_group s" and "pool t = pool s"
    and "hooked t = hooked s" and "remote_shift_offset t = remote_shift_offset s"
    and "up (io t) = up (io s)" and "rem (io t) = rem (io s)"
    and "COMEX_readIn_buff t = set_range (p mod total_readIn s div 16 * 16) (group_desc n (p - p mod 16)) 16 (COMEX_readIn_buff s)"
    and "mem t = memcpy (kmap X new) (here_addr (ri_page (p mod total_readIn s) s) s) X86PageSize
      (copy_from (rem (io s) n) (far_addr n (p - p mod 16) s) (here_addr (ri_page (p mod total_readIn s div 16 * 16) s) s)
          (16 * X86PageSize) (mem s))"
proof -
  let ?i = "p mod total_readIn s" and ?pf = "p - p mod 16"
  from read_group [OF X s n up len al p fit free, of new]
  obtain m r where t: "COMEX_read_from_remote X new n p s = Some (s\<lparr>
      COMEX_readIn_buff := set_range (?i div 16 * 16) (group_desc n ?pf) 16 (COMEX_readIn_buff s),
      mem := memcpy (kmap X new) (here_addr (ri_page ?i s) s) X86PageSize m, io := r,
      stats := (stats s)\<lparr>COMEX_in_RDMA := COMEX_in_RDMA (stats s) + 1\<rparr>\<rparr>)"
    "m = copy_from (rem (io s) n) (far_addr n ?pf s) (here_addr (ri_page (?i div 16 * 16) s) s)
          (16 * X86PageSize) (mem s)" "up r = up (io s)" "rem r = rem (io s)"
    by (elim exE conjE) (rule that)
  have tr: "0 < total_readIn s" using s by (simp add: ready_def conf_ok_def)
  have i0: "0 \<le> ?i div 16 * 16" using tr by (simp add: pos_imp_zdiv_nonneg_iff)
  have k: "nat (?i mod 16) < 16" by (simp add: nat_less_iff)
  have d: "16 dvd ?i div 16 * 16" "16 dvd ?pf" by (simp_all add: minus_mod_eq_div_mult)
  have sp: "?i div 16 * 16 + int (nat (?i mod 16)) = ?i" "?pf + int (nat (?i mod 16)) = page_read p s"
    by (simp_all add: page_read_def)
  have "page_data m (here_addr (ri_page ?i s) s) = page_data (rem (io s) n) (far_addr n (page_read p s) s)"
    using group_data [OF s al d(1) i0 d(2) p(2) k t(2)] unfolding sp .
  then show thesis using that [OF t(1)] t(2-4) by simp
qed

lemma read_from_preFetch_correct:
  assumes s: "ready virt s" and len: "int (length (COMEX_readIn_buff s)) = total_readIn s" and p: "0 \<le> p"
  shows "COMEX_read_from_preFetch X new n p s = Some (if pre_hit n p s
     then (1, s\<lparr>mem := memcpy (kmap X new) (here_addr (ri_page (p mod total_readIn s) s) s) X86PageSize (mem s),
       stats := (stats s)\<lparr>COMEX_in_preF := COMEX_in_preF (stats s) + 1\<rparr>\<rparr>)
     else (0, s))"
proof -
  have tr: "0 < total_readIn s" using s by (simp add: ready_def conf_ok_def)
  have i: "0 \<le> p mod total_readIn s" "p mod total_readIn s < int (length (COMEX_readIn_buff s))"
    using tr len by simp_all
  show ?thesis
    using copy_in_ok [OF s, of "p mod total_readIn s" X new] i len p tr
    by (auto simp: COMEX_read_from_preFetch_def ri_index_ok [OF s p] arr_get_in pre_hit_def Let_def smod_nonneg)
qed

end
