(* ===== verification/Comex_Ideal.thy ===== *)
theory Comex_Ideal
  imports Comex_ReadIn
begin

unbundle bit_operations_syntax

text \<open>
  A concrete node and concrete verbs: every request is carried out at once, the memories of the other
  nodes are the state of the world.  The hypotheses of the properties hold here.
\<close>

section \<open>Verbs that work\<close>

definition ideal_send :: "int \<Rightarrow> ib_send_wr \<Rightarrow> payload \<Rightarrow> mem \<times> (int \<Rightarrow> mem) \<Rightarrow> int \<times> mem \<times> (int \<Rightarrow> mem)" where
  "ideal_send i wr pl w = (case w of (m, r) \<Rightarrow> (case wr_op wr of
     IB_WR_RDMA_WRITE \<Rightarrow> (0, m, r(i := copy_from m (sge_addr wr) (wr_remote_addr wr) (sge_length wr) (r i)))
   | IB_WR_RDMA_READ \<Rightarrow> (0, copy_from (r i) (wr_remote_addr wr) (sge_addr wr) (sge_length wr) m, r)
   | IB_WR_SEND_WITH_IMM \<Rightarrow> (0, m, r)))"

text \<open>Every page frame is mapped at its own address, every page has one owner, process 1.\<close>

definition ideal_ext :: "(int \<Rightarrow> mem) ext" where
  "ideal_ext = \<lparr>kmap = (\<lambda>p. 16777216 + page_off p),
     anon_tree = (\<lambda>_. Some [Some \<lparr>vma = Some \<lparr>vm_mm = Some (Some 1)\<rparr>\<rparr>]), kmalloc = (\<lambda>_ r. (4096, r)),
     ib_post_send = ideal_send, ib_post_recv = (\<lambda>_ _ r. (0, r)), down_killable = (\<lambda>_ w. (0, w)),
     up_sem = (\<lambda>_ r. r)\<rparr>"

lemma ideal_transfers: "rdma_transfers ideal_ext id id (\<lambda>_ _. True)"
  by (simp add: rdma_transfers_def ideal_ext_def ideal_send_def split: wr_opcode.split)

lemma ideal_messages: "rdma_messages ideal_ext id (\<lambda>_ _. True)"
  by (simp add: rdma_messages_def ideal_ext_def ideal_send_def)

section \<open>A node with one lender\<close>

definition ideal_cb :: krping_cb where
  "ideal_cb = \<lparr>cb_server = 1, cb_state = RDMA_READY, exitstatus = 0, cbindex = 0, mynodeID = 1, remotenodeID = 0,
     remote_rkey = 7, remote_pcount = 2, remote_dmabuf_ptr = 0, remote_dmabuf_addr = 0, ptable_dma_addr = 0,
     dma_rkey = 5, remote_addr = [4194304, 8388608], vslotusing = 0,
     sq_wr = replicate 24 \<lparr>wr_op = IB_WR_SEND_WITH_IMM, wr_id = Wr_no 0, wr_signaled = False, wr_inline = False,
       wr_rkey = 0, wr_remote_addr = 0, wr_imm = 0, sge_addr = 0, sge_length = 0, sge_lkey = 0\<rparr>,
     send_buf = replicate 24 Unset, recv_buf = replicate 64 Unset\<rparr>"

definition ideal_node :: "(int \<Rightarrow> mem) \<Rightarrow> (int \<Rightarrow> mem) node" where
  "ideal_node r = (plain_node (pool_used 1024) r)\<lparr>
     COMEX_free_group := [\<lparr>total_page = 1024, back_off = 0, mutex_FG = False, free_group = [(0, 1023)]\<rparr>, plain_group],
     cbs := [ideal_cb, ideal_cb]\<rparr>"

lemma ideal_apart: "apart [4194304, 8388608]"
proof -
  have "\<not> (4194304 :: u64) + x - 8388608 < 4194304 \<and> \<not> (8388608 :: u64) + x - 4194304 < 4194304"
    if "x < 4194304" for x
  proof -
    define k where "k = uint x"
    have "0 \<le> k" "k < 4194304" using that by (simp_all add: k_def word_less_def)
    then show ?thesis unfolding word_less_def uint_sub_if' uint_plus_if' by (simp flip: k_def)
  qed
  then show ?thesis by (auto simp: apart_def RPING_BUFSIZE_def less_Suc_eq nth_Cons split: nat.splits)
qed

lemma ideal_registered: "registered id (bigspace (ideal_node r))"
proof -
  have "(4194304 :: u64) + x \<noteq> 0 \<and> (8388608 :: u64) + x \<noteq> 0" if "x < 4194304" for x
  proof -
    define k where "k = uint x"
    have "0 \<le> k" "k < 4194304" using that by (simp_all add: k_def word_less_def)
    then show ?thesis unfolding word_uint_eq_iff uint_plus_if' by (simp flip: k_def)
  qed
  then show ?thesis
    using ideal_apart by (auto simp: registered_def ideal_node_def plain_node_def RPING_BUFSIZE_def less_Suc_eq)
qed

lemma ideal_shift: "shift_pages (ideal_node r) = 1024" "page_off 1024 = 4194304"
  by (simp_all add: shift_pages_def ideal_node_def plain_node_def page_off_def)

lemma ideal_conf [simp]: "conf (ideal_node r) = plain_conf" "io (ideal_node r) = r"
  by (simp_all add: ideal_node_def plain_node_def)

lemma ideal_ready: "ready id (ideal_node r)"
proof -
  have "bufferpages (bigspace (ideal_node r)) = [4194304, 8388608]" "hooked (ideal_node r)" "cbs (ideal_node r) \<noteq> []"
    "remote_shift_offset (ideal_node r) = 4194304"
    by (simp_all add: ideal_node_def plain_node_def)
  then show ?thesis
    using ideal_registered [of r] ideal_shift
    by (simp add: ready_def conf_ok_def shift_ok_def plain_conf_def)
qed

lemma successively_upto:
  assumes "\<And>i. a \<le> i \<Longrightarrow> i < b \<Longrightarrow> P i (i + 1)"
  shows "successively P [a..b]"
proof -
  have "P (a + int i) (a + int i + 1)" if "Suc i < nat (1 + b - a)" for i using that by (intro assms) auto
  then show ?thesis unfolding successively_conv_nth by (auto simp: algebra_simps)
qed

lemma ideal_lender: "lender_ok (\<lambda>_ _. True) 0 0 (ideal_node r)"
proof -
  let ?s = "ideal_node r"
  have c: "length (cbs ?s) = 2" "cbs ?s ! 0 = ideal_cb" "COMEX_free_group ?s ! 0 =
      \<lparr>total_page = 1024, back_off = 0, mutex_FG = False, free_group = [(0, 1023)]\<rparr>" "length (COMEX_free_group ?s) = 2"
    "buff_pos ?s ! 0 = \<lparr>head = 0, tail = 0, pos_mutex = False\<rparr>" "length (buff_pos ?s) = 2"
    "length (COMEX_writeOut_buff ?s) = 2"
    "COMEX_writeOut_buff ?s ! 0 = replicate 64 \<lparr>status = -1, nodeID = -1, bpageNO = -1, mutex_buff = False\<rparr>"
    by (simp_all add: ideal_node_def plain_node_def)
  have cb: "remote_addr ideal_cb = [4194304, 8388608]" "linked_up ideal_cb" "send_ok ideal_cb"
    by (simp_all add: ideal_cb_def linked_up_def send_ok_def)
  have far: "in_far 0 p ?s" if "p \<in> {0..1023}" for p
  proof -
    have "(p + 1024) div 1024 < 2" "0 \<le> p" using that by auto
    then show ?thesis using that unfolding in_far_def ideal_shift(1) by (simp add: c(2) cb(1) page_ok_def)
  qed
  have seq: "seq_ok 0 ?s [0..1023]"
    using far successively_upto [of 0 1023 "\<lambda>p q. p mod 1024 + 1 = q mod 1024 \<longrightarrow> q = p + 1"]
    by (simp add: seq_ok_def)
  have "ring_ok 0 0 ?s"
    using c by (simp add: ring_ok_def row_ok_def pos_at_def wo_at_def plain_conf_def)
  moreover have "lent_ok ?s 0" "lent_queue ?s 0 = [0..1023]"
    using c by (simp_all add: lent_ok_def lend_ok_def lent_queue_def)
  moreover have "far_ok 0 ?s" using c cb ideal_apart by (simp add: far_ok_def)
  ultimately show ?thesis using seq c cb by (simp add: lender_ok_def plain_conf_def pending_def)
qed

lemma ideal_inv: "store_inv id (\<lambda>_ _. True) (ideal_node r)"
proof -
  have "length (COMEX_readIn_buff (ideal_node r)) = 64" by (simp add: ideal_node_def plain_node_def)
  moreover have "\<exists>c. lender_ok (\<lambda>_ _. True) n c (ideal_node r)" if "0 \<le> n" "n < 1" for n
  proof -
    have "n = 0" using that by simp
    then show ?thesis using ideal_lender [of r] by blast
  qed
  ultimately show ?thesis using ideal_ready [of r] by (simp add: store_inv_def plain_conf_def)
qed

lemma ideal_unlocked: "unlocked (ideal_node r)"
  by (simp add: unlocked_def locks_def ideal_node_def plain_group_def)

lemma ideal_hash: "hash_ok (ideal_node r)"
  by (simp add: hash_ok_def plain_conf_def)

end
