(* ===== verification/Comex_Free.thy ===== *)
theory Comex_Free
  imports Comex_Ideal
begin

unbundle bit_operations_syntax

text \<open>
  Giving borrowed pages back (\<open>comex_remote.h\<close>: \<open>COMEX_free_to_remote\<close>) and the work queue of a
  node (\<open>COMEX_module_lib.h\<close>: \<open>COMEX_do_verb\<close>, \<open>COMEX_do_work\<close>).  The borrower collects runs of
  freed pages; a full record goes to the lender, which cuts the runs into aligned blocks for its pool.
  At the end, the answer of a lender to a request, with the message it sends.
\<close>

section \<open>The code\<close>

definition set_run :: "int \<Rightarrow> int \<Rightarrow> int \<Rightarrow> int \<Rightarrow> 'r node \<Rightarrow> 'r node option" where
  "set_run n i p c s = do {
     fs \<leftarrow> arr_get (COMEX_free_struct s) n;
     ps \<leftarrow> arr_set (fpageNO fs) i p;
     cs \<leftarrow> arr_set (fcount fs) i c;
     fs_upd n (\<lambda>f. f\<lparr>fpageNO := ps, fcount := cs\<rparr>) s
   }"

definition clean_free_struct :: "int \<Rightarrow> 'r node \<Rightarrow> 'r node option" where
  "clean_free_struct n s = for_up 0 (int MAX_FREE) (\<lambda>i. set_run n i (-1) 0) s"

text \<open>The loop over the runs: true when it returned with the page recorded.\<close>

function add_run :: "int \<Rightarrow> int \<Rightarrow> int \<Rightarrow> 'r node \<Rightarrow> (bool \<times> 'r node) option" where
  "add_run n pg i s =
     (if i < int MAX_FREE then do {
        fs \<leftarrow> arr_get (COMEX_free_struct s) n;
        p \<leftarrow> arr_get (fpageNO fs) i;
        c \<leftarrow> arr_get (fcount fs) i;
        if p + c = pg \<and> c < 16383 then do { s \<leftarrow> set_run n i p (c + 1) s; Some (True, s) }
        else if p - 1 = pg \<and> c < 16383 then do { s \<leftarrow> set_run n i (p - 1) (c + 1) s; Some (True, s) }
        else if p = -1 then do { s \<leftarrow> set_run n i pg 1 s; Some (True, s) }
        else add_run n pg (i + 1) s
      } else Some (False, s))"
  by pat_completeness auto
termination
  by (relation "measure (\<lambda>(n, pg, i, s). nat (int MAX_FREE - i))") auto

declare add_run.simps [simp del]

definition COMEX_free_to_remote :: "'r ext \<Rightarrow> int \<Rightarrow> int \<Rightarrow> 'r node \<Rightarrow> 'r node option" where
  "COMEX_free_to_remote X n pg s =
     (if freePage_spin s then None
      else do {
        let s = s\<lparr>freePage_spin := True\<rparr>;
        (found, s) \<leftarrow> add_run n pg 0 s;
        if found then Some (s\<lparr>freePage_spin := False\<rparr>)
        else do {
          fs \<leftarrow> arr_get (COMEX_free_struct s) n;
          s \<leftarrow> COMEX_RDMA X n CODE_COMEX_PAGE_FREE (Free_runs fs) 96 s;
          s \<leftarrow> clean_free_struct n s;
          s \<leftarrow> set_run n 0 pg 1 s;
          Some (s\<lparr>freePage_spin := False\<rparr>)
        }
      })"

text \<open>The size of the next block of a run: \<open>page_idx\<close> is the page within its block of 1024.\<close>

primrec pick_pow :: "nat \<Rightarrow> int \<Rightarrow> int \<Rightarrow> nat option" where
  "pick_pow 0 page_idx c = (if 1 > c then None else Some 0)"
| "pick_pow (Suc k) page_idx c =
     (if 2 ^ Suc k > c \<or> page_idx smod 2 ^ Suc k \<noteq> 0 then pick_pow k page_idx c else Some (Suc k))"

function free_run :: "int \<Rightarrow> int \<Rightarrow> 'r node \<Rightarrow> 'r node option" where
  "free_run p c s =
     (if c > 0 then do {
        let page_idx = p AND (push_bit (COMEX_MAX_ORDER - 1) 1 - 1);
        pow \<leftarrow> pick_pow (COMEX_MAX_ORDER - 1) page_idx c;
        s \<leftarrow> node_free p pow s;
        free_run (p + 2 ^ pow) (c - 2 ^ pow) s
      } else Some s)"
  by pat_completeness auto
termination
  by (relation "measure (\<lambda>(p, c, s). nat c)") (auto simp: zless_nat_conj)

declare free_run.simps [simp del]

definition COMEX_do_work :: "'r ext \<Rightarrow> work_content \<Rightarrow> 'r node \<Rightarrow> 'r node option" where
  "COMEX_do_work X w s =
     (if CMD_num w = CODE_COMEX_PAGE_RQST then
        (case args w of Node_id target \<Rightarrow> COMEX_pages_request X target s | _ \<Rightarrow> None)
      else if CMD_num w = CODE_COMEX_PAGE_RPLY then
        (case args w of
           Reply m \<Rightarrow> COMEX_page_receive X (ID_to_CB (src_node m) s) (page_no m) (rsize m) s
         | _ \<Rightarrow> None)
      else if CMD_num w = CODE_COMEX_PAGE_FREE then
        (case args w of
           Free_runs fs \<Rightarrow> for_up 0 (int MAX_FREE) (\<lambda>i s. do {
             p \<leftarrow> arr_get (fpageNO fs) i;
             c \<leftarrow> arr_get (fcount fs) i;
             free_run p c s }) s
         | _ \<Rightarrow> None)
      else Some s)"

text \<open>
  A message that has arrived in receive slot \<open>slot\<close> of control block \<open>i\<close> is copied and queued.  The
  checksum of \<open>CODE_COMEX_PAGE_CKSM\<close> is only printed, but it reads the page.
\<close>

definition queue_args :: "'r ext \<Rightarrow> int \<Rightarrow> payload \<Rightarrow> u64 \<Rightarrow> 'r node \<Rightarrow> 'r node option" where
  "queue_args X CMD piggy sz s =
     (let (q, r) = kmalloc X sz (io s); s = s\<lparr>io := r\<rparr>
      in if q = 0 then Some s else Some (s\<lparr>COMEX_wq := COMEX_wq s @ [\<lparr>CMD_num = CMD, args = piggy\<rparr>]\<rparr>))"

definition COMEX_do_verb :: "'r ext \<Rightarrow> int \<Rightarrow> int \<Rightarrow> int \<Rightarrow> 'r node \<Rightarrow> 'r node option" where
  "COMEX_do_verb X CMD i slot s = do {
     cb \<leftarrow> arr_get (cbs s) i;
     piggy \<leftarrow> arr_get (recv_buf cb) slot;
     let (p, r) = kmalloc X 48 (io s);
     let s = s\<lparr>io := r\<rparr>;
     if p = 0 then Some s
     else if CMD = CODE_COMEX_PAGE_RQST then
       (case piggy of Node_id _ \<Rightarrow> queue_args X CMD piggy 4 s | _ \<Rightarrow> None)
     else if CMD = CODE_COMEX_PAGE_RPLY then
       (case piggy of Reply _ \<Rightarrow> queue_args X CMD piggy 12 s | _ \<Rightarrow> None)
     else if CMD = CODE_COMEX_PAGE_CKSM then
       (case piggy of Chksm offset \<Rightarrow> do { a \<leftarrow> COMEX_offset_to_addr_fn offset s; if a = 0 then None else Some s } | _ \<Rightarrow> None)
     else if CMD = CODE_COMEX_PAGE_FREE then
       (case piggy of Free_runs _ \<Rightarrow> queue_args X CMD piggy 96 s | _ \<Rightarrow> None)
     else Some s
   }"

section \<open>The record of freed pages\<close>

definition run_of :: "free_struct_t \<Rightarrow> nat \<Rightarrow> int set" where
  "run_of fs i = {fpageNO fs ! i ..< fpageNO fs ! i + fcount fs ! i}"

definition runs :: "free_struct_t \<Rightarrow> int set" where
  "runs fs = (\<Union>i<16. run_of fs i)"

definition fs_ok :: "free_struct_t \<Rightarrow> bool" where
  "fs_ok fs \<longleftrightarrow> length (fpageNO fs) = 16 \<and> length (fcount fs) = 16 \<and>
     (\<forall>i<16. fpageNO fs ! i = -1 \<and> fcount fs ! i = 0 \<or>
        0 \<le> fpageNO fs ! i \<and> 0 < fcount fs ! i \<and> fcount fs ! i \<le> 16383) \<and>
     (\<forall>i<16. \<forall>j<16. i \<noteq> j \<longrightarrow> run_of fs i \<inter> run_of fs j = {})"

definition put_run :: "nat \<Rightarrow> int \<Rightarrow> int \<Rightarrow> free_struct_t \<Rightarrow> free_struct_t" where
  "put_run i p c fs = fs\<lparr>fpageNO := (fpageNO fs)[i := p], fcount := (fcount fs)[i := c]\<rparr>"

definition set_fs :: "int \<Rightarrow> free_struct_t \<Rightarrow> 'r node \<Rightarrow> 'r node" where
  "set_fs n fs s = s\<lparr>COMEX_free_struct := (COMEX_free_struct s)[nat n := fs]\<rparr>"

abbreviation fs_at :: "int \<Rightarrow> 'r node \<Rightarrow> free_struct_t" where
  "fs_at n s \<equiv> COMEX_free_struct s ! nat n"

lemma set_run_ok:
  assumes "0 \<le> n" and "n < int (length (COMEX_free_struct s))" and "length (fpageNO (fs_at n s)) = 16"
    and "length (fcount (fs_at n s)) = 16" and "0 \<le> i" and "i < 16"
  shows "set_run n i p c s = Some (set_fs n (put_run (nat i) p c (fs_at n s)) s)"
  using assms by (simp add: set_run_def arr_simps fs_upd_def put_run_def set_fs_def)

lemma run_of_put:
  assumes "length (fpageNO fs) = 16" and "length (fcount fs) = 16" and "i < 16"
  shows "run_of (put_run i p c fs) j = (if j = i then {p ..< p + c} else run_of fs j)"
  using assms by (simp add: run_of_def put_run_def nth_list_update)

text \<open>Enlarging a run by one page outside all runs keeps the record in order.\<close>

lemma fs_ok_put:
  assumes fs: "fs_ok fs" and i: "i < 16" and c: "0 \<le> p" "0 < c" "c \<le> 16383"
    and e: "{p ..< p + c} = insert pg (run_of fs i)" and pg: "pg \<notin> runs fs"
  shows "fs_ok (put_run i p c fs)" and "runs (put_run i p c fs) = insert pg (runs fs)"
proof -
  have L: "length (fpageNO fs) = 16" "length (fcount fs) = 16" using fs by (simp_all add: fs_ok_def)
  note R = run_of_put [OF L i, of p c]
  have other: "pg \<notin> run_of fs j" if "j < 16" for j using pg that by (auto simp: runs_def)
  show "runs (put_run i p c fs) = insert pg (runs fs)"
    unfolding runs_def R e using i by (auto split: if_splits)
  have "run_of (put_run i p c fs) j \<inter> run_of (put_run i p c fs) k = {}" if "j < 16" "k < 16" "j \<noteq> k" for j k
    using that other fs unfolding R e fs_ok_def by (auto split: if_splits)
  moreover have "length (fpageNO (put_run i p c fs)) = 16" "length (fcount (put_run i p c fs)) = 16"
    using L by (simp_all add: put_run_def)
  moreover have "fpageNO (put_run i p c fs) ! j = -1 \<and> fcount (put_run i p c fs) ! j = 0 \<or>
      0 \<le> fpageNO (put_run i p c fs) ! j \<and> 0 < fcount (put_run i p c fs) ! j \<and> fcount (put_run i p c fs) ! j \<le> 16383"
    if "j < 16" for j
    using fs that c L unfolding fs_ok_def by (cases "j = i") (simp_all add: put_run_def)
  ultimately show "fs_ok (put_run i p c fs)" by (simp add: fs_ok_def)
qed

lemma add_run_correct:
  assumes n: "0 \<le> n" "n < int (length (COMEX_free_struct s))" and fs: "fs_ok (fs_at n s)"
    and pg: "0 \<le> pg" "pg \<notin> runs (fs_at n s)" and i: "0 \<le> i" "i \<le> 16"
    and used: "\<forall>j < nat i. fpageNO (fs_at n s) ! j \<noteq> -1"
  shows "(\<exists>fs'. add_run n pg i s = Some (True, set_fs n fs' s) \<and> fs_ok fs' \<and> runs fs' = insert pg (runs (fs_at n s))) \<or>
    add_run n pg i s = Some (False, s) \<and> (\<forall>j < 16. fpageNO (fs_at n s) ! j \<noteq> -1)"
  using i used
proof (induction "nat (16 - i)" arbitrary: i)
  case 0
  then show ?case by (subst add_run.simps) (auto simp: MAX_FREE_def)
next
  case (Suc x)
  let ?fs = "fs_at n s"
  have i: "0 \<le> i" "i < 16" "nat i < 16" using Suc by auto
  have L: "length (fpageNO ?fs) = 16" "length (fcount ?fs) = 16" using fs by (simp_all add: fs_ok_def)
  let ?p = "fpageNO ?fs ! nat i" and ?c = "fcount ?fs ! nat i"
  have pc: "?p = -1 \<and> ?c = 0 \<or> 0 \<le> ?p \<and> 0 < ?c \<and> ?c \<le> 16383" using fs i(3) unfolding fs_ok_def by blast
  have step: "add_run n pg i s =
     (if ?p + ?c = pg \<and> ?c < 16383 then Some (True, set_fs n (put_run (nat i) ?p (?c + 1) ?fs) s)
      else if ?p - 1 = pg \<and> ?c < 16383 then Some (True, set_fs n (put_run (nat i) (?p - 1) (?c + 1) ?fs) s)
      else if ?p = -1 then Some (True, set_fs n (put_run (nat i) pg 1 ?fs) s)
      else add_run n pg (i + 1) s)"
    using n i L by (subst add_run.simps) (simp add: MAX_FREE_def arr_get_in set_run_ok)
  consider (after) "?p + ?c = pg \<and> ?c < 16383" | (before) "\<not> (?p + ?c = pg \<and> ?c < 16383)" "?p - 1 = pg \<and> ?c < 16383"
    | (fresh) "\<not> (?p + ?c = pg \<and> ?c < 16383)" "\<not> (?p - 1 = pg \<and> ?c < 16383)" "?p = -1"
    | (next_run) "\<not> (?p + ?c = pg \<and> ?c < 16383)" "\<not> (?p - 1 = pg \<and> ?c < 16383)" "?p \<noteq> -1" by blast
  then show ?case
  proof cases
    case after
    then have "0 \<le> ?p" "0 \<le> ?c" using pc pg(1) by auto
    moreover from this have "{?p ..< ?p + (?c + 1)} = insert pg (run_of ?fs (nat i))"
      using after by (auto simp: run_of_def)
    ultimately show ?thesis using after step fs_ok_put [OF fs i(3), of ?p "?c + 1" pg] pg(2) by auto
  next
    case before
    then have "0 \<le> ?p - 1" "0 \<le> ?c" using pc pg(1) by auto
    moreover from this have "{?p - 1 ..< ?p - 1 + (?c + 1)} = insert pg (run_of ?fs (nat i))"
      using before by (auto simp: run_of_def)
    ultimately show ?thesis using before step fs_ok_put [OF fs i(3), of "?p - 1" "?c + 1" pg] pg(2) by auto
  next
    case fresh
    then have "{pg ..< pg + 1} = insert pg (run_of ?fs (nat i))" using pc by (auto simp: run_of_def)
    then show ?thesis using fresh step fs_ok_put [OF fs i(3), of pg 1 pg] pg by auto
  next
    case next_run
    have "\<forall>j < nat (i + 1). fpageNO ?fs ! j \<noteq> -1"
      using Suc.prems(3) next_run(3) i by (auto simp: less_Suc_eq nat_add_distrib)
    then have "(\<exists>fs'. add_run n pg (i + 1) s = Some (True, set_fs n fs' s) \<and> fs_ok fs' \<and> runs fs' = insert pg (runs ?fs)) \<or>
      add_run n pg (i + 1) s = Some (False, s) \<and> (\<forall>j < 16. fpageNO ?fs ! j \<noteq> -1)"
      using Suc.hyps(2) i by (intro Suc.hyps(1)) auto
    then show ?thesis unfolding step using next_run by auto
  qed
qed


lemma set_fs_simps [simp]:
  "COMEX_free_struct (set_fs n fs s) = (COMEX_free_struct s)[nat n := fs]" "set_fs n gs (set_fs n fs s) = set_fs n gs s"
  "io (set_fs n fs s) = io s" "cbs (set_fs n fs s) = cbs s" "pool (set_fs n fs s) = pool s" "mem (set_fs n fs s) = mem s"
  by (simp_all add: set_fs_def)

definition blank :: free_struct_t where
  "blank = \<lparr>fpageNO = replicate 16 (-1), fcount = replicate 16 0\<rparr>"

lemma blank_ok: "fs_ok blank" "runs blank = {}"
  by (auto simp: fs_ok_def runs_def run_of_def blank_def)

lemma clean_ok:
  assumes n: "0 \<le> n" "n < int (length (COMEX_free_struct s))" and L: "length (fpageNO (fs_at n s)) = 16" "length (fcount (fs_at n s)) = 16"
  shows "clean_free_struct n s = Some (set_fs n blank s)"
proof -
  let ?fs = "fs_at n s"
  let ?g = "\<lambda>i. \<lparr>fpageNO = map (\<lambda>j. if j < nat i then -1 else fpageNO ?fs ! j) [0..<16],
    fcount = map (\<lambda>j. if j < nat i then 0 else fcount ?fs ! j) [0..<16]\<rparr>"
  let ?P = "\<lambda>i t. t = set_fs n (?g i) s"
  have k: "nat n < length (COMEX_free_struct s)" using n by (simp add: nat_less_iff)
  have "\<exists>t. for_up 0 16 (\<lambda>i. set_run n i (-1) 0) s = Some t \<and> ?P 16 t"
  proof (rule for_up_rule [where P = ?P])
    have "?g 0 = ?fs" using L by (intro free_struct_t.equality) (auto intro: nth_equalityI)
    then show "?P 0 s" using k by (simp add: set_fs_def)
  next
    fix i t assume i: "0 \<le> i" "i < 16" and t: "?P i t"
    have at: "fs_at n t = ?g i" using t k by simp
    have "put_run (nat i) (-1) 0 (?g i) = ?g (i + 1)"
      using i unfolding put_run_def
      by (intro free_struct_t.equality nth_equalityI) (auto simp: nth_list_update nat_add_distrib)
    then show "\<exists>t'. set_run n i (-1) 0 t = Some t' \<and> ?P (i + 1) t'"
      using set_run_ok [of n t i "-1" 0] n i t at by simp
  qed simp
  moreover have "?g 16 = blank" by (auto simp: blank_def intro!: nth_equalityI)
  ultimately show ?thesis by (simp add: clean_free_struct_def MAX_FREE_def)
qed

lemma single_run:
  assumes "0 \<le> pg"
  shows "fs_ok (put_run 0 pg 1 blank)" and "runs (put_run 0 pg 1 blank) = {pg}"
proof -
  have "{pg ..< pg + 1} = insert pg (run_of blank 0)" by (auto simp: run_of_def blank_def)
  then show "fs_ok (put_run 0 pg 1 blank)" and "runs (put_run 0 pg 1 blank) = {pg}"
    using fs_ok_put [OF blank_ok(1), of 0 pg 1 pg] blank_ok assms by auto
qed

section \<open>The work of a lender\<close>

lemma pick_pow_ok:
  assumes "0 < c" and "0 \<le> x"
  shows "\<exists>j. pick_pow k x c = Some j \<and> j \<le> k \<and> 2 ^ j \<le> c \<and> 2 ^ j dvd x"
proof (induction k)
  case (Suc k)
  then show ?case
    using assms by (auto simp: smod_nonneg intro: le_SucI) 
qed (use assms in simp)

lemma ivl_split:
  fixes a b c :: int
  assumes "1 \<le> b" and "b \<le> c"
  shows "{a + b ..< a + c} \<subseteq> {a ..< a + c}" and "{a ..< a + c} = {a ..< a + b} \<union> {a + b ..< a + c}"
  using assms by auto

lemma free_run_correct:
  assumes "pool_ok s" and "0 \<le> p" and "0 \<le> c" and "p + c \<le> pool_total s" and "{p ..< p + c} \<inter> pool_free s = {}"
  shows "\<exists>b. free_run p c s = Some (s\<lparr>pool := b\<rparr>) \<and> pool_ok (s\<lparr>pool := b\<rparr>) \<and> npages b = pool_total s \<and>
    free_set b = pool_free s \<union> {p ..< p + c}"
  using assms
proof (induction "nat c" arbitrary: p c s rule: less_induct)
  case less
  show ?case
  proof (cases "c > 0")
    case False
    then have "free_run p c s = Some (s\<lparr>pool := pool s\<rparr>)" by (subst free_run.simps) simp
    then show ?thesis using less.prems False by (intro exI [of _ "pool s"]) (simp add: pool_free_def pool_total_def)
  next
    case True
    let ?x = "p AND (push_bit (COMEX_MAX_ORDER - 1) 1 - 1)"
    have x: "?x = p mod 1024"
    proof -
      have "(push_bit (COMEX_MAX_ORDER - 1) 1 - 1 :: int) = mask 10"
        by (simp add: COMEX_MAX_ORDER_def push_bit_eq_mult mask_eq_exp_minus_1)
      then show ?thesis by (simp add: take_bit_eq_mod flip: take_bit_eq_mask)
    qed
    have x0: "0 \<le> ?x" unfolding x by simp
    obtain j where j: "pick_pow (COMEX_MAX_ORDER - 1) ?x c = Some j" "j \<le> 10" "2 ^ j \<le> c" "2 ^ j dvd ?x"
      using pick_pow_ok [OF True x0, of "COMEX_MAX_ORDER - 1"] COMEX_MAX_ORDER_def by auto
    have d: "2 ^ j dvd p"
    proof -
      have "2 ^ j dvd (1024 :: int)" using pow2_dvd_mono [OF j(2), of 1024] by simp
      then show ?thesis using j(4) unfolding x by (simp add: dvd_mod_iff)
    qed
    have "blk j p \<subseteq> {p ..< p + c}" using j(3) by (auto simp: blk_def)
    then have "blk j p \<inter> pool_free s = {}" "p + 2 ^ j \<le> pool_total s"
      using less.prems(4,5) j(3) by (blast, linarith)
    then obtain t where t: "node_free p j s = Some t" "pool_ok t" "pool_total t = pool_total s"
      "pool_free t = pool_free s \<union> blk j p"
      using npool.release [OF less.prems(1), of j p] j(2) less.prems(2) d by auto
    obtain b where b: "t = s\<lparr>pool := b\<rparr>" using t(1) by (auto simp: node_free_def split: bind_splits)
    have p2: "(1 :: int) \<le> 2 ^ j" by simp
    have "{p + 2 ^ j ..< p + 2 ^ j + (c - 2 ^ j)} \<inter> pool_free t = {}"
    proof -
      have "{p + 2 ^ j ..< p + c} \<subseteq> {p ..< p + c}"
        by (rule ivl_split(1) [OF p2 j(3)])
      then have "{p + 2 ^ j ..< p + c} \<inter> pool_free s = {}" using less.prems(5) by blast
      moreover have "{p + 2 ^ j ..< p + c} \<inter> blk j p = {}" by (auto simp: blk_def)
      ultimately show ?thesis unfolding t(4) by auto
    qed
    then obtain b' where b': "free_run (p + 2 ^ j) (c - 2 ^ j) t = Some (t\<lparr>pool := b'\<rparr>)" "pool_ok (t\<lparr>pool := b'\<rparr>)"
      "npages b' = pool_total t" "free_set b' = pool_free t \<union> {p + 2 ^ j ..< p + 2 ^ j + (c - 2 ^ j)}"
      using less.hyps [of "c - 2 ^ j" t "p + 2 ^ j"] t(2,3) less.prems(2,4) j(3) p2 True by auto
    have u: "{p ..< p + c} = blk j p \<union> {p + 2 ^ j ..< p + 2 ^ j + (c - 2 ^ j)}"
      unfolding blk_def using ivl_split(2) [OF p2 j(3), of p] by simp
    have "free_run p c s = Some (s\<lparr>pool := b'\<rparr>)"
      using True j(1) t(1) b'(1) b by (subst free_run.simps) simp
    then show ?thesis using b' t(3,4) b u by (intro exI [of _ b']) auto
  qed
qed

lemma free_work_correct:
  assumes s: "pool_ok s" and fs: "fs_ok fs" and r: "runs fs \<subseteq> {0..<pool_total s}" and d: "runs fs \<inter> pool_free s = {}"
    and w: "CMD_num w = CODE_COMEX_PAGE_FREE" "args w = Free_runs fs"
  shows "\<exists>b. COMEX_do_work X w s = Some (s\<lparr>pool := b\<rparr>) \<and> pool_ok (s\<lparr>pool := b\<rparr>) \<and> npages b = pool_total s \<and>
    free_set b = pool_free s \<union> runs fs"
proof -
  let ?body = "\<lambda>i s. do { p \<leftarrow> arr_get (fpageNO fs) i; c \<leftarrow> arr_get (fcount fs) i; free_run p c s }"
  let ?P = "\<lambda>i t. \<exists>b. t = s\<lparr>pool := b\<rparr> \<and> pool_ok t \<and> npages b = pool_total s \<and>
    free_set b = pool_free s \<union> (\<Union>j<nat i. run_of fs j)"
  have L: "length (fpageNO fs) = 16" "length (fcount fs) = 16" using fs by (simp_all add: fs_ok_def)
  have "\<exists>t. for_up 0 16 ?body s = Some t \<and> ?P 16 t"
  proof (rule for_up_rule [where P = ?P])
    show "?P 0 s" using s by (intro exI [of _ "pool s"]) (simp add: pool_free_def pool_total_def)
  next
    fix i t assume i: "0 \<le> i" "i < 16" and "?P i t"
    then obtain b where b: "t = s\<lparr>pool := b\<rparr>" "pool_ok t" "npages b = pool_total s"
      "free_set b = pool_free s \<union> (\<Union>j<nat i. run_of fs j)" by blast
    let ?p = "fpageNO fs ! nat i" and ?c = "fcount fs ! nat i"
    have k: "nat i < 16" using i by simp
    have sub: "run_of fs j \<subseteq> runs fs" if "j < 16" for j using that by (auto simp: runs_def)
    have dis: "run_of fs (nat i) \<inter> run_of fs j = {}" if "j < nat i" for j
      using fs k that unfolding fs_ok_def by (metis less_trans nat_neq_iff)
    have pt: "pool_total t = pool_total s" "pool_free t = free_set b" using b by (simp_all add: pool_total_def pool_free_def)
    have a: "\<exists>b'. free_run ?p ?c t = Some (t\<lparr>pool := b'\<rparr>) \<and> pool_ok (t\<lparr>pool := b'\<rparr>) \<and> npages b' = pool_total t \<and>
        free_set b' = pool_free t \<union> run_of fs (nat i)"
    proof (cases "?c = 0")
      case True
      then have "free_run ?p ?c t = Some (t\<lparr>pool := pool t\<rparr>)" by (subst free_run.simps) simp
      then show ?thesis using b True by (intro exI [of _ "pool t"]) (simp add: pool_free_def pool_total_def run_of_def)
    next
      case False
      then have c: "0 \<le> ?p" "0 < ?c" using fs k unfolding fs_ok_def by auto
      have "?p + ?c - 1 \<in> run_of fs (nat i)" using c by (simp add: run_of_def)
      then have "?p + ?c \<le> pool_total t" using sub [OF k] r pt by fastforce
      moreover have "{?p ..< ?p + ?c} \<inter> pool_free t = {}"
        using d sub [OF k] dis unfolding pt(2) b(4) run_of_def [symmetric] by blast
      ultimately show ?thesis using free_run_correct [OF b(2), of ?p ?c] c by (simp add: run_of_def)
    qed
    have un: "(\<Union>j<nat (i + 1). run_of fs j) = (\<Union>j<nat i. run_of fs j) \<union> run_of fs (nat i)"
      using i by (simp add: nat_add_distrib lessThan_Suc Un_commute)
    show "\<exists>t'. ?body i t = Some t' \<and> ?P (i + 1) t'"
      using a b i L pt by (fastforce simp: arr_get_in un)
  qed simp
  then show ?thesis using w by (auto simp: COMEX_do_work_def comex_codes MAX_FREE_def runs_def)
qed


text \<open>What the hand-over of one freed page does to the node, whole.\<close>

lemma free_to_remote_form:
  assumes "rdma_messages X rem up" and "0 \<le> n" and "n < int (length (COMEX_free_struct s))"
    and "n < int (length (cbs s))" and "send_ok (cbs s ! nat n)" and "hooked s" and "\<not> freePage_spin s"
    and "fs_ok (fs_at n s)" and "0 \<le> pg" and "pg \<notin> runs (fs_at n s)"
  shows "\<exists>fs' cs r. COMEX_free_to_remote X n pg s = Some ((set_fs n fs' s)\<lparr>cbs := cs, io := r\<rparr>) \<and> fs_ok fs' \<and> same_links (cbs s) cs \<and>
    (runs fs' = insert pg (runs (fs_at n s)) \<and> cs = cbs s \<and> r = io s \<or>
     runs fs' = {pg} \<and> (\<forall>j < 16. run_of (fs_at n s) j \<noteq> {}) \<and>
       universal_send X n CODE_COMEX_PAGE_FREE (Free_runs (fs_at n s)) 96 (s\<lparr>freePage_spin := True\<rparr>) =
         Some (0, s\<lparr>freePage_spin := True, cbs := cs, io := r\<rparr>))"
proof -
  let ?s = "s\<lparr>freePage_spin := True\<rparr>" and ?fs = "fs_at n s"
  have n: "0 \<le> n" "n < int (length (COMEX_free_struct ?s))" "nat n < length (COMEX_free_struct s)" using assms(2,3) by auto
  have L: "length (fpageNO ?fs) = 16" "length (fcount ?fs) = 16" using assms(8) by (simp_all add: fs_ok_def)
  have spin: "(set_fs n f ?s)\<lparr>freePage_spin := False\<rparr> = set_fs n f s" "(set_fs n f (?s\<lparr>cbs := c, io := r\<rparr>))\<lparr>freePage_spin := False\<rparr> = (set_fs n f s)\<lparr>cbs := c, io := r\<rparr>"
    for f c r using assms(7) by (cases s; simp add: set_fs_def)+
  have "(\<exists>fs'. add_run n pg 0 ?s = Some (True, set_fs n fs' ?s) \<and> fs_ok fs' \<and> runs fs' = insert pg (runs ?fs)) \<or>
    add_run n pg 0 ?s = Some (False, ?s) \<and> (\<forall>j < 16. fpageNO ?fs ! j \<noteq> -1)"
    using add_run_correct [OF n(1,2), of pg 0] assms(8-10) by simp
  then show ?thesis
  proof
    assume "\<exists>fs'. add_run n pg 0 ?s = Some (True, set_fs n fs' ?s) \<and> fs_ok fs' \<and> runs fs' = insert pg (runs ?fs)"
    then obtain fs' where f: "add_run n pg 0 ?s = Some (True, set_fs n fs' ?s)" "fs_ok fs'" "runs fs' = insert pg (runs ?fs)"
      by blast
    have "COMEX_free_to_remote X n pg s = Some ((set_fs n fs' s)\<lparr>cbs := cbs s, io := io s\<rparr>)"
      using f(1) assms(7) spin(1) by (simp add: COMEX_free_to_remote_def)
    then show ?thesis using f(2,3) by (intro exI [of _ fs'] exI [of _ "cbs s"] exI [of _ "io s"]) (simp add: same_links_def)
  next
    assume a: "add_run n pg 0 ?s = Some (False, ?s) \<and> (\<forall>j < 16. fpageNO ?fs ! j \<noteq> -1)"
    obtain cs r where u: "universal_send X n CODE_COMEX_PAGE_FREE (Free_runs ?fs) 96 ?s = Some (0, ?s\<lparr>cbs := cs, io := r\<rparr>)" "same_links (cbs s) cs"
      using universal_send_ok [OF assms(1), of n ?s 96 CODE_COMEX_PAGE_FREE "Free_runs ?fs"] assms(2,4,5) by auto
    let ?u = "?s\<lparr>cbs := cs, io := r\<rparr>"
    have cl: "clean_free_struct n ?u = Some (set_fs n blank ?u)" using clean_ok [of n ?u] n L by simp
    have sr: "set_run n 0 pg 1 (set_fs n blank ?u) = Some (set_fs n (put_run 0 pg 1 blank) ?u)"
      using set_run_ok [of n "set_fs n blank ?u" 0 pg 1] n by (simp add: blank_def)
    have "COMEX_free_to_remote X n pg s = Some ((set_fs n (put_run 0 pg 1 blank) ?u)\<lparr>freePage_spin := False\<rparr>)"
      using a assms(6,7) n u(1) cl sr
      by (simp add: COMEX_free_to_remote_def arr_get_in COMEX_RDMA_def COMEX_RDMA_fn_def comex_codes send_checked_def)
    moreover have "run_of ?fs j \<noteq> {}" if "j < 16" for j
      using a assms(8) that unfolding fs_ok_def run_of_def by fastforce
    ultimately show ?thesis
      using single_run [OF assms(9)] u unfolding spin(2) by (intro exI [of _ "put_run 0 pg 1 blank"] exI [of _ cs] exI [of _ r]) auto
  qed
qed

section \<open>Properties\<close>

text \<open>
  C19: no freed page is lost or doubled by the borrower: \<open>COMEX_free_to_remote\<close> either adds the page
  to the runs it keeps for the lender (extending a run at either end, or opening one), or, when all
  16 runs are in use and none can take the page, sends exactly the runs it has to the lender and
  starts a new record that holds just this page.  The record stays in order (disjoint runs, counts
  that fit 16 bits) and the lock is released.
\<close>

theorem free_to_remote_records:
  assumes "rdma_messages X rem up" and "0 \<le> n" and "n < int (length (COMEX_free_struct s))"
    and "n < int (length (cbs s))" and "send_ok (cbs s ! nat n)" and "hooked s" and "\<not> freePage_spin s"
    and "fs_ok (fs_at n s)" and "0 \<le> pg" and "pg \<notin> runs (fs_at n s)"
  shows "\<exists>t. COMEX_free_to_remote X n pg s = Some t \<and> \<not> freePage_spin t \<and> fs_ok (fs_at n t) \<and>
    (runs (fs_at n t) = insert pg (runs (fs_at n s)) \<and> cbs t = cbs s \<and> io t = io s \<or>
     runs (fs_at n t) = {pg} \<and> (\<forall>j < 16. run_of (fs_at n s) j \<noteq> {}) \<and>
       (\<exists>u. universal_send X n CODE_COMEX_PAGE_FREE (Free_runs (fs_at n s)) 96 (s\<lparr>freePage_spin := True\<rparr>) = Some (0, u) \<and>
          cbs t = cbs u \<and> io t = io u))"
proof -
  have "nat n < length (COMEX_free_struct s)" using assms(2,3) by auto
  with free_to_remote_form [OF assms] show ?thesis
    using assms(7) by (elim exE conjE) (rule exI, erule conjI, force simp: set_fs_def)
qed

theorem free_to_remote_records_witness:
  "\<exists>t. COMEX_free_to_remote ideal_ext 0 7 (ideal_node (\<lambda>_ _. 0)) = Some t \<and> runs (fs_at 0 t) = {7}"
proof -
  let ?s = "ideal_node (\<lambda>_ _. 0)"
  have c: "COMEX_free_struct ?s = replicate 2 blank" "length (cbs ?s) = 2" "cbs ?s ! 0 = ideal_cb" "hooked ?s" "\<not> freePage_spin ?s"
    by (simp_all add: ideal_node_def plain_node_def blank_def)
  have "send_ok ideal_cb" by (simp add: ideal_cb_def send_ok_def)
  then obtain t where "COMEX_free_to_remote ideal_ext 0 7 ?s = Some t" "runs (fs_at 0 t) = insert 7 {} \<or> runs (fs_at 0 t) = {7}"
    using free_to_remote_records [OF ideal_messages, of 0 ?s 7] c blank_ok by auto
  then show ?thesis by auto
qed

text \<open>
  C24: a request for pages is answered with the largest block there is: \<open>COMEX_pages_request\<close> sends the
  node that asked one reply; it names an aligned block of order \<open>k\<close> that has been taken out of the pool, where no order
  above \<open>k\<close> up to \<open>COMEX_refill\<close> has a free block; or it is \<open>-1\<close>, when not even order 5 (or \<open>COMEX_refill\<close>, when
  that is smaller) has one, and then the pool is unchanged.
\<close>

theorem request_lends_largest_block:
  assumes "rdma_messages X rem up" and "hooked s" and "0 \<le> ID_to_CB target s" and "send_ok (cbs s ! nat (ID_to_CB target s))"
    and "pool_ok s" and "0 \<le> COMEX_refill (conf s)" and "COMEX_refill (conf s) < 11"
  shows "\<exists>r k t. COMEX_pages_request X target s = Some t \<and>
    universal_send X (ID_to_CB target s) CODE_COMEX_PAGE_RPLY (Reply \<lparr>src_node = COMEX_ID (conf s), page_no = r, rsize = k\<rparr>) 12
      (s\<lparr>pool := pool t\<rparr>) = Some (0, t) \<and> pool_ok t \<and> pool_total t = pool_total s \<and>
    (\<forall>j. k < j \<longrightarrow> j \<le> COMEX_refill (conf s) \<longrightarrow> \<not> room j s) \<and>
    (r = -1 \<and> pool t = pool s \<and> \<not> room (min (COMEX_refill (conf s)) 5) s \<or>
     0 \<le> r \<and> 0 \<le> k \<and> k \<le> COMEX_refill (conf s) \<and> 2 ^ nat k dvd r \<and> blk (nat k) r \<subseteq> pool_free s \<and>
       pool_free t = pool_free s - blk (nat k) r)"
proof -
  obtain r k s' where p: "pick_block s = Some (r, k, s')" "pool_ok s'" "pool_total s' = pool_total s" "s' = s\<lparr>pool := pool s'\<rparr>"
    "\<forall>j. k < j \<longrightarrow> j \<le> COMEX_refill (conf s) \<longrightarrow> \<not> room j s" "min (COMEX_refill (conf s)) 5 \<le> k" "k \<le> COMEX_refill (conf s)"
    "r = -1 \<and> s' = s \<and> k = min (COMEX_refill (conf s)) 5 \<and> \<not> room k s \<or>
     0 \<le> r \<and> 2 ^ nat k dvd r \<and> blk (nat k) r \<subseteq> pool_free s \<and> pool_free s' = pool_free s - blk (nat k) r"
    using pick_block_correct [OF assms(5-7)] by auto
  define b where "b = pool s'"
  have s': "s' = s\<lparr>pool := b\<rparr>" using p(4) by (simp add: b_def)
  let ?m = "Reply \<lparr>src_node = COMEX_ID (conf s), page_no = r, rsize = k\<rparr>" and ?i = "ID_to_CB target s"
  have i: "?i < int (length (cbs s))" "ID_to_CB target s' = ?i"
    by (auto simp: ID_to_CB_def s' find_Some_iff2 find_Some_iff split: option.splits)
  obtain cs r' where u: "universal_send X ?i CODE_COMEX_PAGE_RPLY ?m 12 s' = Some (0, s'\<lparr>cbs := cs, io := r'\<rparr>)"
    using universal_send_ok [OF assms(1,3), of s' 12 CODE_COMEX_PAGE_RPLY ?m] i(1) assms(4) by (auto simp: s')
  define t where "t = s'\<lparr>cbs := cs, io := r'\<rparr>"
  have k: "0 \<le> k" "k < 31" using p(6,7) assms(6,7) by auto
  have run: "COMEX_pages_request X target s = Some t"
    using p(1) i(2) u k assms(2) by (simp add: COMEX_pages_request_def COMEX_RDMA_def COMEX_RDMA_fn_def comex_codes send_checked_def s' t_def)
  have t: "pool_ok t" "pool_free t = pool_free s'" "pool_total t = pool_total s" "pool t = pool s'" "s\<lparr>pool := pool t\<rparr> = s'"
    using p(2,3) by (simp_all add: pool_ok_def pool_free_def pool_total_def t_def s')
  have d: "r = -1 \<and> pool t = pool s \<and> \<not> room (min (COMEX_refill (conf s)) 5) s \<or>
     0 \<le> r \<and> 0 \<le> k \<and> k \<le> COMEX_refill (conf s) \<and> 2 ^ nat k dvd r \<and> blk (nat k) r \<subseteq> pool_free s \<and> pool_free t = pool_free s - blk (nat k) r"
    unfolding t(2,4) using p(7,8) k(1) by blast
  show ?thesis
    by (rule exI [of _ r], rule exI [of _ k], rule exI [of _ t], intro conjI) (rule run, unfold t(5), rule u [folded t_def], fact t(1), fact t(3), fact p(5), rule d)
qed

theorem request_lends_largest_block_witness:
  "\<exists>s t. pool_free s = {0..<1024} \<and> COMEX_pages_request ideal_ext 0 s = Some t \<and> pool_free t = {} \<and>
     send_buf (cbs t ! 0) ! 0 = Reply \<lparr>src_node = 1, page_no = 0, rsize = 10\<rparr>"
proof -
  obtain b where b: "buddy_inv b" "npages b = 1024" "free_set b = blk 10 0" by (rule pool_one_block)
  let ?s = "(ideal_node (\<lambda>_ _. 0))\<lparr>pool := b\<rparr>"
  have c: "cbs (ideal_node r) = [ideal_cb, ideal_cb]" "hooked ?s" "conf ?s = plain_conf" for r
    by (simp_all add: ideal_node_def plain_node_def)
  have i: "ID_to_CB 0 ?s = 0" by (simp add: ID_to_CB_def c ideal_cb_def)
  have ok: "pool_ok ?s" "pool_free ?s = blk 10 0" using b by (simp_all add: pool_ok_def pool_free_def plain_conf_def c)
  have so: "send_ok ideal_cb" by (simp add: ideal_cb_def send_ok_def)
  obtain r k t where t: "COMEX_pages_request ideal_ext 0 ?s = Some t"
    "universal_send ideal_ext 0 CODE_COMEX_PAGE_RPLY (Reply \<lparr>src_node = 1, page_no = r, rsize = k\<rparr>) 12 (?s\<lparr>pool := pool t\<rparr>) = Some (0, t)"
    "\<forall>j. k < j \<longrightarrow> j \<le> 10 \<longrightarrow> \<not> room j ?s"
    "r = -1 \<and> \<not> room 5 ?s \<or> 0 \<le> r \<and> 0 \<le> k \<and> k \<le> 10 \<and> 2 ^ nat k dvd r \<and> blk (nat k) r \<subseteq> blk 10 0 \<and> pool_free t = blk 10 0 - blk (nat k) r"
    using request_lends_largest_block [OF ideal_messages c(2), of 0] i so ok by (auto simp: c plain_conf_def)
  have rm: "room 10 ?s" "room 5 ?s" using ok(2) by (auto simp: room_def blk_def intro!: exI [of _ 0])
  then have k: "k = 10" "0 \<le> r" "1024 dvd r" "blk 10 r \<subseteq> blk 10 0" "pool_free t = blk 10 0 - blk 10 r"
    using t(3,4) by force+
  have "r \<in> blk 10 0" using k(4) by (auto simp: blk_def)
  then have r: "r = 0" using k(2,3) by (auto simp: blk_def dest: zdvd_imp_le)
  have sent: "map_option (\<lambda>x. send_buf (cbs (snd x) ! 0) ! 0) (universal_send ideal_ext 0 CODE_COMEX_PAGE_RPLY (Reply m) 12 (?s\<lparr>pool := b'\<rparr>)) = Some (Reply m)" for m b'
    by (simp add: universal_send_def c arr_get_def arr_set_def ideal_cb_def sizeof_bufferx_def Let_def split: prod.splits)
  have "send_buf (cbs t ! 0) ! 0 = Reply \<lparr>src_node = 1, page_no = r, rsize = k\<rparr>"
    using sent [of "\<lparr>src_node = 1, page_no = r, rsize = k\<rparr>" "pool t"] unfolding t(2) by simp
  then show ?thesis using r t(1) k ok(2) by (intro exI [of _ ?s] exI [of _ t]) (simp add: blk_def)
qed

text \<open>
  C20: what a borrower frees comes back to the lender's pool, page for page: \<open>COMEX_do_work\<close> on the
  record of a \<open>CODE_COMEX_PAGE_FREE\<close> message cuts its runs into aligned blocks, adds exactly the
  recorded pages to the free pages of the pool, keeps the pool well-formed and touches nothing else.
\<close>

theorem freed_runs_return:
  assumes "pool_ok s" and "fs_ok fs" and "runs fs \<subseteq> {0..<pool_total s}" and "runs fs \<inter> pool_free s = {}"
  shows "\<exists>b. COMEX_do_work X \<lparr>CMD_num = CODE_COMEX_PAGE_FREE, args = Free_runs fs\<rparr> s = Some (s\<lparr>pool := b\<rparr>) \<and>
    pool_ok (s\<lparr>pool := b\<rparr>) \<and> npages b = pool_total s \<and> free_set b = pool_free s \<union> runs fs"
  by (rule free_work_correct [OF assms]) simp_all

theorem freed_runs_return_witness:
  "\<exists>b. COMEX_do_work plain_ext \<lparr>CMD_num = CODE_COMEX_PAGE_FREE, args = Free_runs (put_run 0 5 100 blank)\<rparr>
      (plain_node (pool_used 1024) ()) = Some ((plain_node (pool_used 1024) ())\<lparr>pool := b\<rparr>) \<and> free_set b = {5..<105}"
proof -
  let ?s = "plain_node (pool_used 1024) ()" and ?fs = "put_run 0 5 100 blank"
  have p: "pool_ok ?s" "pool_free ?s = {}" "pool_total ?s = 1024"
    using pool_used [of 1024] by (simp_all add: pool_ok_def pool_free_def pool_total_def)
  have r: "run_of ?fs j = (if j = 0 then {5..<105} else {})" if "j < 16" for j
    using that by (auto simp: run_of_def put_run_def blank_def nth_list_update)
  have "runs ?fs = (\<Union>j<16::nat. if j = 0 then {5..<105} else {})" unfolding runs_def using r by (intro SUP_cong) simp_all
  then have "runs ?fs = {5..<105}" by (auto split: if_splits)
  moreover have "fs_ok ?fs"
  proof -
    have "run_of ?fs i \<inter> run_of ?fs j = {}" if "i < 16" "j < 16" "i \<noteq> j" for i j
      using that r [of i] r [of j] by auto
    then show ?thesis by (auto simp: fs_ok_def put_run_def blank_def nth_list_update)
  qed
  ultimately show ?thesis using freed_runs_return [of ?s ?fs plain_ext] p by auto
qed

text \<open>
  A message that arrives while the kernel is out of memory is dropped without a trace:
  \<open>COMEX_do_verb\<close> returns with an unchanged work queue, so the pages of a \<open>CODE_COMEX_PAGE_FREE\<close>
  message never return to the pool, and the block of a \<open>CODE_COMEX_PAGE_RPLY\<close> is never used.
\<close>

theorem verb_oom_drops_message:
  assumes "arr_get (cbs s) i = Some cb" and "arr_get (recv_buf cb) slot = Some pl" and "fst (kmalloc X 48 (io s)) = 0"
  shows "\<exists>r. COMEX_do_verb X CMD i slot s = Some (s\<lparr>io := r\<rparr>)"
  using assms by (cases "kmalloc X 48 (io s)") (simp add: COMEX_do_verb_def, blast)

theorem verb_oom_drops_message_witness:
  "\<exists>r'. COMEX_do_verb (ideal_ext\<lparr>kmalloc := (\<lambda>_ r. (0, r))\<rparr>) CODE_COMEX_PAGE_FREE 0 3 (ideal_node (\<lambda>_ _. 0)) =
     Some ((ideal_node (\<lambda>_ _. 0))\<lparr>io := r'\<rparr>)"
  using verb_oom_drops_message [of "ideal_node (\<lambda>_ _. 0)" 0 ideal_cb 3 Unset "ideal_ext\<lparr>kmalloc := (\<lambda>_ r. (0, r))\<rparr>" CODE_COMEX_PAGE_FREE]
  by (simp add: ideal_node_def plain_node_def arr_get_def ideal_cb_def)

end
