(* ===== verification/Comex_Lib.thy ===== *)
theory Comex_Lib
  imports Comex_Free
begin

unbundle bit_operations_syntax

text \<open>
  Setting a node up and its own pages (\<open>comex_lib.h\<close>; \<open>COMEX_module_lib.h\<close>: \<open>COMEX_init\<close>): the
  tables of the remote side, the pool with the pages that have memory, and the store and load of a
  page in the node's own pool.
\<close>

section \<open>The code\<close>

text \<open>
  Memory from \<open>vmalloc\<close> holds anything; each field that is read later is written by the loops, so
  the contents chosen here do not matter.  An array whose allocation failed has no elements.
\<close>

definition junk_desc :: buff_desc_t where
  "junk_desc = \<lparr>status = 0, nodeID = 0, bpageNO = 0, mutex_buff = False\<rparr>"

definition init_groups :: "'r ext \<Rightarrow> 'r node \<Rightarrow> 'r node option" where
  "init_groups X s = do {
     let (fg, r) = alloc_array X 56 (total_nodes s) \<lparr>total_page = 0, back_off = 0, mutex_FG = False, free_group = []\<rparr> (io s);
     let s = s\<lparr>COMEX_free_group := fg, io := r\<rparr>;
     s \<leftarrow> for_up 0 (total_nodes s) (\<lambda>i. fg_upd i
       (\<lambda>g. g\<lparr>total_page := 0, back_off := 0, mutex_FG := False, free_group := []\<rparr>)) s;
     let (bp, r) = alloc_array X 40 (total_nodes s) \<lparr>head = 0, tail = 0, pos_mutex = False\<rparr> (io s);
     let s = s\<lparr>buff_pos := bp, io := r\<rparr>;
     for_up 0 (total_nodes s) (\<lambda>i. pos_upd i (\<lambda>p. p\<lparr>head := 0, tail := 0, pos_mutex := False\<rparr>)) s
   }"

definition init_writeOut :: "'r ext \<Rightarrow> 'r node \<Rightarrow> 'r node option" where
  "init_writeOut X s = do {
     let (rows, r) = alloc_array X 8 (total_nodes s) [] (io s);
     let s = s\<lparr>COMEX_writeOut_buff := rows, io := r\<rparr>;
     for_up 0 (total_nodes s) (\<lambda>i s. do {
       let (row, r) = alloc_array X 48 (total_writeOut s) junk_desc (io s);
       rows \<leftarrow> arr_set (COMEX_writeOut_buff s) i row;
       for_up 0 (total_writeOut s) (\<lambda>j. wo_upd i j (\<lambda>d. d\<lparr>status := -1, nodeID := -1, bpageNO := -1\<rparr>))
         (s\<lparr>COMEX_writeOut_buff := rows, io := r\<rparr>) }) s
   }"

definition init_readIn :: "'r ext \<Rightarrow> 'r node \<Rightarrow> 'r node option" where
  "init_readIn X s = do {
     let (ri, r) = alloc_array X 48 (total_readIn s) junk_desc (io s);
     let s = s\<lparr>COMEX_readIn_buff := ri, io := r\<rparr>;
     for_up 0 (total_readIn s) (\<lambda>i. ri_upd i
       (\<lambda>d. d\<lparr>status := -1, nodeID := -1, bpageNO := -1, mutex_buff := False\<rparr>)) s
   }"

definition init_free_struct :: "'r ext \<Rightarrow> 'r node \<Rightarrow> 'r node option" where
  "init_free_struct X s = do {
     let (fs, r) = alloc_array X 96 (total_nodes s) \<lparr>fpageNO = replicate 16 0, fcount = replicate 16 0\<rparr> (io s);
     let s = s\<lparr>COMEX_free_struct := fs, io := r\<rparr>;
     for_up 0 (total_nodes s) (\<lambda>i. for_up 0 (int MAX_FREE) (\<lambda>j. set_run i j (-1) 0)) s
   }"

definition COMEX_init_Remote :: "'r ext \<Rightarrow> 'r node \<Rightarrow> 'r node option" where
  "COMEX_init_Remote X s = do {
     s \<leftarrow> init_groups X s;
     s \<leftarrow> init_writeOut X s;
     s \<leftarrow> init_readIn X s;
     init_free_struct X s
   }"

definition pool_step :: "(comex_buddy \<Rightarrow> comex_buddy option) \<Rightarrow> 'r node \<Rightarrow> 'r node option" where
  "pool_step f s = do { b \<leftarrow> f (pool s); Some (s\<lparr>pool := b\<rparr>) }"

definition init_area :: "int \<Rightarrow> comex_buddy \<Rightarrow> comex_buddy option" where
  "init_area i b = Some (b\<lparr>nr_free := (nr_free b)(nat i := 0), links := INIT_LIST_COMEX (Head (nat i)) (links b)\<rparr>)"

definition init_page :: "int \<Rightarrow> comex_buddy \<Rightarrow> comex_buddy option" where
  "init_page i b = do {
     b \<leftarrow> page_upd i (\<lambda>p. \<lparr>pageNO = i, priv = 0, mapcount = -1, CMX_cntr = 1\<rparr>) b;
     Some (b\<lparr>links := INIT_LIST_COMEX (Lru i) (links b)\<rparr>)
   }"

text \<open>The address of a page of the pool in the node's own memory.\<close>

definition pool_addr :: "int \<Rightarrow> 'r node \<Rightarrow> u64 option" where
  "pool_addr p s = (let offsetNO = i32 (i32 (p + i32 (total_writeOut s * total_nodes s)) + total_readIn s)
     in COMEX_offset_to_addr (push_bit SHIFT_PAGE (of_int offsetNO)) s)"

text \<open>Everything is freed once, drained, and the pages with memory are freed again.\<close>

definition init_pool :: "'r ext \<Rightarrow> int \<Rightarrow> 'r node \<Rightarrow> 'r node option" where
  "init_pool X n s = do {
     s \<leftarrow> for_up 0 (int COMEX_MAX_ORDER) (\<lambda>i. pool_step (init_area i)) s;
     let (p, r) = kmalloc X (40 * of_int n) (io s);
     let s = s\<lparr>pool := (pool s)\<lparr>npages := (if p = 0 then 0 else n)\<rparr>, io := r\<rparr>;
     s \<leftarrow> for_up 0 n (\<lambda>i. pool_step (init_page i)) s;
     s \<leftarrow> for_up 0 n (\<lambda>i. node_free i 0) s;
     s \<leftarrow> drain_loop (node_alloc 0) 0 s;
     for_up 0 n (\<lambda>i s. do {
       new_vAddr \<leftarrow> pool_addr i s;
       if new_vAddr \<noteq> 0 then node_free i 0 s else Some s }) s
   }"

definition COMEX_init_ENV :: "'r ext \<Rightarrow> int \<Rightarrow> int \<Rightarrow> int \<Rightarrow> int \<Rightarrow> int \<Rightarrow> int \<Rightarrow> int \<Rightarrow> int \<Rightarrow> string \<Rightarrow> 'r node \<Rightarrow>
    'r node option" where
  "COMEX_init_ENV X node_ID n_nodes writeOut_buff readIn_buff total_pages threshold refill nComNodes namePtr s = do {
     let s = s\<lparr>conf := \<lparr>COMEX_ID = node_ID, COMEX_total_nodes = n_nodes, COMEX_total_pages = total_pages,
       COMEX_total_writeOut = writeOut_buff, COMEX_total_readIn = readIn_buff, COMEX_threshold = threshold,
       COMEX_refill = refill, COMEX_nMemNodes = n_nodes - nComNodes, COMEX_nComNodes = nComNodes, proc_name = namePtr\<rparr>,
       pool := (pool s)\<lparr>buddy_spin := False\<rparr>, freePage_spin := False, mutex_PF := False\<rparr>;
     s \<leftarrow> init_pool X total_pages s;
     s \<leftarrow> COMEX_init_Remote X s;
     if hooked s then Some (s\<lparr>COMEX_Ready := 1\<rparr>) else None
   }"

text \<open>
  The entry from the module: the parameters of the module, the number of this node and the number
  of control blocks.
\<close>

definition COMEX_init :: "'r ext \<Rightarrow> int \<Rightarrow> int \<Rightarrow> int \<Rightarrow> int \<Rightarrow> int \<Rightarrow> string \<Rightarrow> 'r node \<Rightarrow> 'r node option" where
  "COMEX_init X CONF_nodeID CONF_totalCB writeOut_buff readIn_buff total_pages name s = do {
     let shift = 0;
     let shift = shift + of_int (i32 (writeOut_buff * CONF_totalCB));
     let shift = shift + of_int readIn_buff;
     let shift = drop_bit 10 shift;
     let shift = shift + 1;
     let shift = push_bit 10 shift;
     let shift = push_bit 12 shift;
     let s = s\<lparr>hooked := True, remote_shift_offset := shift, COMEX_wq := []\<rparr>;
     COMEX_init_ENV X CONF_nodeID CONF_totalCB writeOut_buff readIn_buff total_pages 1024 10 9 name s
   }"

text \<open>The result is the return value, \<open>*retNodeID\<close> and \<open>*retPageNO\<close>.\<close>

definition COMEX_move_to_COMEX :: "'r ext \<Rightarrow> int \<Rightarrow> int \<Rightarrow> int \<Rightarrow> 'r node \<Rightarrow> (int \<times> int \<times> int \<times> 'r node) option" where
  "COMEX_move_to_COMEX X old_page retN retP s = do {
     (pno, s) \<leftarrow> node_alloc 0 s;
     if pno < 0 \<or> pno \<ge> COMEX_total_pages (conf s) then Some (-1, retN, retP, s)
     else do {
       new_vAddr \<leftarrow> pool_addr pno s;
       let old_vAddr = kmap X old_page;
       if new_vAddr = 0 then None
       else Some (1, -11, pno, s\<lparr>mem := memcpy new_vAddr old_vAddr X86PageSize (mem s)\<rparr>)
     }
   }"

definition COMEX_read_from_local :: "'r ext \<Rightarrow> int \<Rightarrow> int \<Rightarrow> 'r node \<Rightarrow> 'r node option" where
  "COMEX_read_from_local X new_page pno s =
     (if pno < 0 \<or> pno \<ge> COMEX_total_pages (conf s) then Some s
      else do {
        old_vAddr \<leftarrow> pool_addr pno s;
        let new_vAddr = kmap X new_page;
        if old_vAddr = 0 then None else Some (s\<lparr>mem := memcpy new_vAddr old_vAddr X86PageSize (mem s)\<rparr>)
      })"

section \<open>The pool after the initialisation\<close>

text \<open>A loop whose steps are those of another loop on every state that the other one reaches.\<close>

lemma for_up_cong:
  assumes "P a s" and "\<And>i s. a \<le> i \<Longrightarrow> i < b \<Longrightarrow> P i s \<Longrightarrow> f i s = g i s"
    and "\<And>i s t. a \<le> i \<Longrightarrow> i < b \<Longrightarrow> P i s \<Longrightarrow> g i s = Some t \<Longrightarrow> P (i + 1) t"
  shows "for_up a b f s = for_up a b g s"
  using assms
proof (induction "nat (b - a)" arbitrary: a s)
  case 0
  then show ?case by simp
next
  case (Suc d)
  then have ab: "a < b" "d = nat (b - (a + 1))" by simp_all
  have e: "f a s = g a s" using Suc.prems(1,2) ab by simp
  have "for_up (a + 1) b f t = for_up (a + 1) b g t" if "g a s = Some t" for t
    using Suc.prems ab that by (intro Suc.hyps(1)) auto
  then show ?case using ab e by (cases "g a s") (simp_all add: for_up_step)
qed

definition fresh_page :: "int \<Rightarrow> COMEX_page" where
  "fresh_page i = \<lparr>pageNO = i, priv = 0, mapcount = -1, CMX_cntr = 1\<rparr>"

lemma pool_io: "s\<lparr>pool := b, io := r\<rparr> = s\<lparr>io := r, pool := b\<rparr>"
  by (cases s) simp

lemma init_pages_correct:
  assumes p: "fst (kmalloc X (40 * of_int n) (io s)) \<noteq> 0" and n: "0 \<le> n" "1024 dvd n" and sp: "\<not> buddy_spin (pool s)"
  shows "\<exists>b r. do {
     s \<leftarrow> for_up 0 (int COMEX_MAX_ORDER) (\<lambda>i. pool_step (init_area i)) s;
     let (p, r) = kmalloc X (40 * of_int n) (io s);
     let s = s\<lparr>pool := (pool s)\<lparr>npages := (if p = 0 then 0 else n)\<rparr>, io := r\<rparr>;
     for_up 0 n (\<lambda>i. pool_step (init_page i)) s } = Some (s\<lparr>io := r, pool := b\<rparr>) \<and>
     buddy_inv b \<and> free_set b = {} \<and> npages b = n \<and> r = snd (kmalloc X (40 * of_int n) (io s))"
proof -
  let ?H = "\<lambda>i b. nr_free b i = 0 \<and> nxt (links b) (Head i) = Head i \<and> prv (links b) (Head i) = Head i"
  let ?P = "\<lambda>i t. \<exists>b. t = s\<lparr>pool := b\<rparr> \<and> \<not> buddy_spin b \<and> (\<forall>k < nat i. ?H k b)"
  have "\<exists>t. for_up 0 11 (\<lambda>i. pool_step (init_area i)) s = Some t \<and> ?P 11 t"
  proof (rule for_up_rule [where P = ?P])
    show "?P 0 s" using sp by (intro exI [of _ "pool s"]) simp
    fix i t assume i: "0 \<le> (i :: int)" "i < 11" and "?P i t"
    then obtain b where b: "t = s\<lparr>pool := b\<rparr>" "\<not> buddy_spin b" "\<forall>k < nat i. ?H k b" by blast
    obtain c where c: "init_area i b = Some c" by (simp add: init_area_def)
    have "?H k c" if "k < nat (i + 1)" for k
      using that b(3) i c by (auto simp: init_area_def INIT_LIST_COMEX_def nat_add_distrib less_Suc_eq)
    moreover have "\<not> buddy_spin c" using c b(2) by (auto simp: init_area_def)
    ultimately show "\<exists>t'. pool_step (init_area i) t = Some t' \<and> ?P (i + 1) t'"
      using b(1) c by (simp add: pool_step_def) blast
  qed simp
  then obtain b where b: "for_up 0 (int COMEX_MAX_ORDER) (\<lambda>i. pool_step (init_area i)) s = Some (s\<lparr>pool := b\<rparr>)"
    "\<not> buddy_spin b" "\<forall>k < 11. ?H k b"
    by (auto simp: COMEX_MAX_ORDER_def)
  obtain q r where q: "kmalloc X (40 * of_int n) (io s) = (q, r)" "q \<noteq> 0" using p by (cases "kmalloc X (40 * of_int n) (io s)") auto
  let ?s1 = "s\<lparr>io := r, pool := b\<lparr>npages := n\<rparr>\<rparr>"
  let ?Q = "\<lambda>i t. \<exists>c. t = s\<lparr>io := r, pool := c\<rparr> \<and> \<not> buddy_spin c \<and> (\<forall>k < 11. ?H k c) \<and> npages c = n \<and>
    (\<forall>j. 0 \<le> j \<longrightarrow> j < i \<longrightarrow> pages c j = fresh_page j)"
  have "\<exists>t. for_up 0 n (\<lambda>i. pool_step (init_page i)) ?s1 = Some t \<and> ?Q n t"
  proof (rule for_up_rule [where P = ?Q])
    show "?Q 0 ?s1" using b by (intro exI [of _ "b\<lparr>npages := n\<rparr>"]) simp
    fix i t assume i: "0 \<le> i" "i < n" and "?Q i t"
    then obtain c where c: "t = s\<lparr>io := r, pool := c\<rparr>" "\<not> buddy_spin c" "\<forall>k < 11. ?H k c" "npages c = n"
      "\<forall>j. 0 \<le> j \<longrightarrow> j < i \<longrightarrow> pages c j = fresh_page j" by blast
    obtain d where d: "d = c\<lparr>pages := (pages c)(i := fresh_page i), links := INIT_LIST_COMEX (Lru i) (links c)\<rparr>" by simp
    have "init_page i c = Some d" using i c(4) d by (simp add: init_page_def page_upd_def fresh_page_def)
    moreover have "\<not> buddy_spin d \<and> (\<forall>k < 11. ?H k d) \<and> npages d = n \<and> (\<forall>j. 0 \<le> j \<longrightarrow> j < i + 1 \<longrightarrow> pages d j = fresh_page j)"
      using c(2-5) d by (auto simp: INIT_LIST_COMEX_def)
    ultimately show "\<exists>t'. pool_step (init_page i) t = Some t' \<and> ?Q (i + 1) t'"
      using c(1) by (simp add: pool_step_def) blast
  qed (use n in simp)
  then obtain c where c: "for_up 0 n (\<lambda>i. pool_step (init_page i)) ?s1 = Some (s\<lparr>io := r, pool := c\<rparr>)"
    "\<not> buddy_spin c" "\<forall>k < 11. ?H k c" "npages c = n" "\<forall>j. 0 \<le> j \<longrightarrow> j < n \<longrightarrow> pages c j = fresh_page j"
    by blast
  have inv: "buddy_inv c" "free_set c = {}"
    using buddy_inv_used [of c] c(2-5) n(2) by (auto simp: fresh_page_def)
  then show ?thesis using b(1) q c(1,4) by (intro exI [of _ c] exI [of _ r]) (simp add: pool_io)
qed


text \<open>A loop on a part of the state, and the whole loop.\<close>

lemma for_up_lift:
  assumes "\<And>i s. body i s = do { x \<leftarrow> g i (get s); Some (put x s) }"
    and "\<And>x s. get (put x s) = x" and "\<And>x y s. put x (put y s) = put x s" and "\<And>s. put (get s) s = s"
  shows "for_up a b body s = do { x \<leftarrow> for_up a b g (get s); Some (put x s) }"
proof (induction "nat (b - a)" arbitrary: a s)
  case 0
  then show ?case using assms(4) by simp
next
  case (Suc d)
  then have ab: "a < b" "d = nat (b - (a + 1))" by simp_all
  show ?case
  proof (cases "g a (get s)")
    case None
    then show ?thesis using ab assms(1) by (simp add: for_up_step)
  next
    case (Some x)
    have "for_up (a + 1) b body (put x s) = do { y \<leftarrow> for_up (a + 1) b g (get (put x s)); Some (put y (put x s)) }"
      using Suc.hyps(1) ab(2) by blast
    then show ?thesis using ab Some assms(1-3) by (simp add: for_up_step)
  qed
qed

lemma free_each_lift:
  "for_up a b (\<lambda>i t. if Q i then node_free i 0 t else Some t) s =
     do { x \<leftarrow> for_up a b (\<lambda>i b. if Q i then COMEX_free_page i 0 b else Some b) (pool s); Some (s\<lparr>pool := x\<rparr>) }"
proof (rule for_up_lift [where get = pool and put = "\<lambda>x s. s\<lparr>pool := x\<rparr>"])
  fix i and t :: "'a node"
  have "t\<lparr>pool := pool t\<rparr> = t" by (cases t) simp
  then show "(if Q i then node_free i 0 t else Some t) =
      do { x \<leftarrow> (if Q i then COMEX_free_page i 0 (pool t) else Some (pool t)); Some (t\<lparr>pool := x\<rparr>) }"
    by (simp add: node_free_def)
qed simp_all

lemma drain_lift:
  assumes "drain_loop (COMEX_rmqueue_smallest 0) ret b = Some b'" and "pool s = b"
  shows "drain_loop (node_alloc 0) ret s = Some (s\<lparr>pool := b'\<rparr>)"
proof -
  let ?P = "\<lambda>alloc ret b b'. alloc = COMEX_rmqueue_smallest 0 \<longrightarrow>
    (\<forall>s :: 'a node. pool s = b \<longrightarrow> drain_loop (node_alloc 0) ret s = Some (s\<lparr>pool := b'\<rparr>))"
  have "?P (COMEX_rmqueue_smallest 0) ret b b'"
  proof (rule drain_loop.raw_induct [where P = ?P, OF _ assms(1)], intro impI allI)
    fix f alloc and ret :: int and b b' :: comex_buddy and s :: "'a node"
    assume ih: "\<And>alloc ret b b'. f alloc ret b = Some b' \<Longrightarrow> ?P alloc ret b b'"
      and st: "(if 0 \<le> ret then Option.bind (alloc b) (\<lambda>(ret, s). f alloc ret s) else Some b) = Some b'"
      and al: "alloc = COMEX_rmqueue_smallest 0" and s: "pool s = b"
    show "drain_loop (node_alloc 0) ret s = Some (s\<lparr>pool := b'\<rparr>)"
    proof (cases "0 \<le> ret")
      case False
      moreover have "s\<lparr>pool := pool s\<rparr> = s" by (cases s) simp
      ultimately show ?thesis using st s by (subst drain_loop.simps) auto
    next
      case True
      then obtain r c where r: "alloc b = Some (r, c)" "f alloc r c = Some b'"
        using st by (auto split: bind_splits)
      have "drain_loop (node_alloc 0) r (s\<lparr>pool := c\<rparr>) = Some ((s\<lparr>pool := c\<rparr>)\<lparr>pool := b'\<rparr>)"
        using ih [OF r(2)] al by simp
      then show ?thesis using True r(1) al s by (subst drain_loop.simps) (simp add: node_alloc_def)
    qed
  qed
  then show ?thesis using assms(2) by simp
qed

lemma pool_addr_env [simp]: "pool_addr i (s\<lparr>pool := b\<rparr>) = pool_addr i s" "pool_addr i (s\<lparr>io := r\<rparr>) = pool_addr i s"
  "pool_addr i (s\<lparr>mem := m\<rparr>) = pool_addr i s"
  by (simp_all add: pool_addr_def COMEX_offset_to_addr_def COMEX_offset_to_addr_fn_def)

lemma init_pool_correct:
  assumes k: "fst (kmalloc X (40 * of_int n) (io s)) \<noteq> 0" and n: "0 \<le> n" "1024 dvd n" and sp: "\<not> buddy_spin (pool s)"
    and addr: "\<And>i. 0 \<le> i \<Longrightarrow> i < n \<Longrightarrow> pool_addr i s \<noteq> None"
  shows "\<exists>b r. init_pool X n s = Some (s\<lparr>io := r, pool := b\<rparr>) \<and> buddy_inv b \<and> npages b = n \<and>
    free_set b = {i. 0 \<le> i \<and> i < n \<and> pool_addr i s \<noteq> Some 0}"
proof -
  obtain b r where b: "do {
     s \<leftarrow> for_up 0 (int COMEX_MAX_ORDER) (\<lambda>i. pool_step (init_area i)) s;
     let (p, r) = kmalloc X (40 * of_int n) (io s);
     let s = s\<lparr>pool := (pool s)\<lparr>npages := (if p = 0 then 0 else n)\<rparr>, io := r\<rparr>;
     for_up 0 n (\<lambda>i. pool_step (init_page i)) s } = Some (s\<lparr>io := r, pool := b\<rparr>)"
    "buddy_inv b" "free_set b = {}" "npages b = n"
    using init_pages_correct [OF k n sp] by auto
  let ?s = "s\<lparr>io := r, pool := b\<rparr>"
  obtain c where c: "for_up 0 n (\<lambda>i b. if True then COMEX_free_page i 0 b else Some b) b = Some c" "buddy_inv c" "npages c = n"
    using cpool.release_each [OF b(2), of 0 n "\<lambda>_. True"] b(3,4) n(1) by auto
  obtain d where d: "drain_loop (COMEX_rmqueue_smallest 0) 0 c = Some d" "buddy_inv d" "npages d = n" "free_set d = {}"
    using cpool.drain [OF c(2), of 0] c(3) by auto
  let ?Q = "\<lambda>i. pool_addr i s \<noteq> Some 0"
  obtain e where e: "for_up 0 n (\<lambda>i b. if ?Q i then COMEX_free_page i 0 b else Some b) d = Some e" "buddy_inv e" "npages e = n"
    "free_set e = {i. 0 \<le> i \<and> i < n \<and> ?Q i}"
    using cpool.release_each [OF d(2), of 0 n ?Q] d(3,4) n(1) by auto
  have s1: "for_up 0 n (\<lambda>i. node_free i 0) ?s = Some (?s\<lparr>pool := c\<rparr>)"
    using free_each_lift [of 0 n "\<lambda>_. True" ?s] c(1) by simp
  have s2: "drain_loop (node_alloc 0) 0 (?s\<lparr>pool := c\<rparr>) = Some (?s\<lparr>pool := d\<rparr>)"
    using drain_lift [OF d(1), of "?s\<lparr>pool := c\<rparr>"] by simp
  let ?body = "\<lambda>i t. do { new_vAddr \<leftarrow> pool_addr i t; if new_vAddr \<noteq> 0 then node_free i 0 t else Some t }"
  have "for_up 0 n ?body (?s\<lparr>pool := d\<rparr>) = for_up 0 n (\<lambda>i t. if ?Q i then node_free i 0 t else Some t) (?s\<lparr>pool := d\<rparr>)"
  proof (rule for_up_cong [where P = "\<lambda>_ t. \<forall>i. pool_addr i t = pool_addr i s"])
    fix i t assume i: "0 \<le> i" "i < n" and t: "\<forall>i. pool_addr i t = pool_addr i s"
    obtain a where "pool_addr i s = Some a" using addr [OF i] by auto
    then show "?body i t = (if ?Q i then node_free i 0 t else Some t)" using t by simp
  next
    fix i t u assume "\<forall>i. pool_addr i t = pool_addr i s" "(if ?Q i then node_free i 0 t else Some t) = Some u"
    then show "\<forall>i. pool_addr i u = pool_addr i s" by (auto simp: node_free_def split: if_splits bind_splits)
  qed simp
  then have s3: "for_up 0 n ?body (?s\<lparr>pool := d\<rparr>) = Some (?s\<lparr>pool := e\<rparr>)"
    using free_each_lift [of 0 n ?Q "?s\<lparr>pool := d\<rparr>"] e(1) by simp
  have "init_pool X n s = Option.bind (Some ?s) (\<lambda>s. do {
     s \<leftarrow> for_up 0 n (\<lambda>i. node_free i 0) s;
     s \<leftarrow> drain_loop (node_alloc 0) 0 s;
     for_up 0 n ?body s })"
    unfolding init_pool_def b(1) [symmetric] by (simp add: Let_def case_prod_unfold)
  then have "init_pool X n s = Some (s\<lparr>io := r, pool := e\<rparr>)" using s1 s2 s3 by simp
  then show ?thesis using e(2-4) by blast
qed


section \<open>The tables of the remote side\<close>

lemma for_up_arr_upd: "for_up 0 (int (length xs)) (\<lambda>i ys. arr_upd ys i f) xs = Some (map f xs)"
proof -
  let ?P = "\<lambda>i ys. ys = map f (take (nat i) xs) @ drop (nat i) xs"
  have "\<exists>ys. for_up 0 (int (length xs)) (\<lambda>i ys. arr_upd ys i f) xs = Some ys \<and> ?P (int (length xs)) ys"
  proof (rule for_up_rule [where P = ?P])
    fix i ys assume i: "0 \<le> i" "i < int (length xs)" and ys: "?P i ys"
    have k: "nat i < length xs" using i by simp
    have "ys ! nat i = xs ! nat i" using ys k by (simp add: nth_append)
    moreover have "ys[nat i := f (xs ! nat i)] = map f (take (nat (i + 1)) xs) @ drop (nat (i + 1)) xs"
      using ys k i by (simp add: list_update_append nat_add_distrib take_Suc_conv_app_nth Cons_nth_drop_Suc [symmetric])
    ultimately show "\<exists>ys'. arr_upd ys i f = Some ys' \<and> ?P (i + 1) ys'"
      using i ys k by (intro exI) (auto simp: arr_upd_def arr_get_def arr_set_def)
  qed simp_all
  then show ?thesis by simp
qed

lemma fill_groups:
  assumes "0 \<le> m" and "length (COMEX_free_group s) = nat m"
  shows "for_up 0 m (\<lambda>i. fg_upd i f) s = Some (s\<lparr>COMEX_free_group := map f (COMEX_free_group s)\<rparr>)"
proof -
  have "for_up 0 m (\<lambda>i. fg_upd i f) s = do { x \<leftarrow> for_up 0 m (\<lambda>i ys. arr_upd ys i f) (COMEX_free_group s);
      Some (s\<lparr>COMEX_free_group := x\<rparr>) }"
    by (rule for_up_lift) (simp_all add: fg_upd_def)
  then show ?thesis using for_up_arr_upd [of "COMEX_free_group s" f] assms by simp
qed

lemma fill_pos:
  assumes "0 \<le> m" and "length (buff_pos s) = nat m"
  shows "for_up 0 m (\<lambda>i. pos_upd i f) s = Some (s\<lparr>buff_pos := map f (buff_pos s)\<rparr>)"
proof -
  have "for_up 0 m (\<lambda>i. pos_upd i f) s = do { x \<leftarrow> for_up 0 m (\<lambda>i ys. arr_upd ys i f) (buff_pos s);
      Some (s\<lparr>buff_pos := x\<rparr>) }"
    by (rule for_up_lift) (simp_all add: pos_upd_def)
  then show ?thesis using for_up_arr_upd [of "buff_pos s" f] assms by simp
qed

lemma fill_readIn:
  assumes "0 \<le> m" and "length (COMEX_readIn_buff s) = nat m"
  shows "for_up 0 m (\<lambda>i. ri_upd i f) s = Some (s\<lparr>COMEX_readIn_buff := map f (COMEX_readIn_buff s)\<rparr>)"
proof -
  have "for_up 0 m (\<lambda>i. ri_upd i f) s = do { x \<leftarrow> for_up 0 m (\<lambda>i ys. arr_upd ys i f) (COMEX_readIn_buff s);
      Some (s\<lparr>COMEX_readIn_buff := x\<rparr>) }"
    by (rule for_up_lift) (simp_all add: ri_upd_def)
  then show ?thesis using for_up_arr_upd [of "COMEX_readIn_buff s" f] assms by simp
qed

text \<open>A kernel that does not run out of memory.\<close>

definition has_memory :: "'r ext \<Rightarrow> bool" where
  "has_memory X \<longleftrightarrow> (\<forall>sz r. fst (kmalloc X sz r) \<noteq> 0)"

lemma alloc_array_ok: "has_memory X \<Longrightarrow> alloc_array X e n v r = (replicate (nat n) v, snd (kmalloc X (e * of_int n) r))"
  by (cases "kmalloc X (e * of_int n) r") (simp add: alloc_array_def has_memory_def, metis fst_conv)

definition empty_desc :: buff_desc_t where
  "empty_desc = \<lparr>status = -1, nodeID = -1, bpageNO = -1, mutex_buff = False\<rparr>"

lemma io_last:
  "s\<lparr>io := r, COMEX_free_group := x1\<rparr> = s\<lparr>COMEX_free_group := x1, io := r\<rparr>"
  "s\<lparr>io := r, buff_pos := x2\<rparr> = s\<lparr>buff_pos := x2, io := r\<rparr>"
  "s\<lparr>io := r, COMEX_writeOut_buff := x3\<rparr> = s\<lparr>COMEX_writeOut_buff := x3, io := r\<rparr>"
  "s\<lparr>io := r, COMEX_readIn_buff := x4\<rparr> = s\<lparr>COMEX_readIn_buff := x4, io := r\<rparr>"
  "s\<lparr>io := r, COMEX_free_struct := x5\<rparr> = s\<lparr>COMEX_free_struct := x5, io := r\<rparr>"
  by (cases s; simp)+

lemma init_groups_ok:
  assumes X: "has_memory X" and n: "0 \<le> total_nodes s"
  shows "\<exists>r. init_groups X s = Some (s\<lparr>COMEX_free_group := replicate (nat (total_nodes s)) plain_group,
     buff_pos := replicate (nat (total_nodes s)) \<lparr>head = 0, tail = 0, pos_mutex = False\<rparr>, io := r\<rparr>)"
  unfolding init_groups_def alloc_array_ok [OF X] plain_group_def
  using n by (simp add: fill_groups fill_pos io_last del: node.unfold_congs) blast

lemma init_readIn_ok:
  assumes X: "has_memory X" and n: "0 \<le> total_readIn s"
  shows "\<exists>r. init_readIn X s = Some (s\<lparr>COMEX_readIn_buff := replicate (nat (total_readIn s)) empty_desc, io := r\<rparr>)"
  unfolding init_readIn_def alloc_array_ok [OF X] empty_desc_def junk_desc_def
  using n by (simp add: fill_readIn io_last) blast

lemma init_free_struct_ok:
  assumes X: "has_memory X" and n: "0 \<le> total_nodes s"
  shows "\<exists>r. init_free_struct X s = Some (s\<lparr>COMEX_free_struct := replicate (nat (total_nodes s)) blank, io := r\<rparr>)"
proof -
  let ?n = "nat (total_nodes s)"
  let ?junk = "\<lparr>fpageNO = replicate 16 0, fcount = replicate 16 0\<rparr>"
  define r where "r = snd (kmalloc X (96 * of_int (total_nodes s)) (io s))"
  let ?s = "\<lambda>xs. s\<lparr>COMEX_free_struct := xs, io := r\<rparr>"
  let ?P = "\<lambda>i t. t = ?s (replicate (nat i) blank @ replicate (?n - nat i) ?junk)"
  have "\<exists>t. for_up 0 (total_nodes s) (\<lambda>i. for_up 0 (int MAX_FREE) (\<lambda>j. set_run i j (-1) 0)) (?s (replicate ?n ?junk)) = Some t \<and>
      ?P (total_nodes s) t"
  proof (rule for_up_rule [where P = ?P])
    fix i t assume i: "0 \<le> i" "i < total_nodes s" and t: "?P i t"
    have k: "nat i < ?n" using i by simp
    then obtain m where m: "?n - nat i = Suc m" "?n - nat (i + 1) = m" using i by (cases "?n - nat i") auto
    have at: "fs_at i t = ?junk" using t k by (simp add: nth_append m)
    have len: "i < int (length (COMEX_free_struct t))" using t k by simp
    have "clean_free_struct i t = Some (set_fs i blank t)" using clean_ok [OF i(1) len] at by simp
    moreover have "set_fs i blank t = ?s (replicate (nat (i + 1)) blank @ replicate (?n - nat (i + 1)) ?junk)"
      using t i m by (simp add: set_fs_def list_update_append nat_add_distrib replicate_app_Cons_same io_last)
    ultimately show "\<exists>t'. for_up 0 (int MAX_FREE) (\<lambda>j. set_run i j (-1) 0) t = Some t' \<and> ?P (i + 1) t'"
      by (simp add: clean_free_struct_def)
  qed (use n in auto)
  then show ?thesis
    using n unfolding init_free_struct_def alloc_array_ok [OF X] by (simp add: r_def [symmetric]) blast
qed

lemma init_writeOut_ok:
  assumes X: "has_memory X" and n: "0 \<le> total_nodes s" "0 \<le> total_writeOut s"
  shows "\<exists>r. init_writeOut X s = Some (s\<lparr>COMEX_writeOut_buff :=
     replicate (nat (total_nodes s)) (replicate (nat (total_writeOut s)) empty_desc), io := r\<rparr>)"
proof -
  let ?n = "nat (total_nodes s)" and ?w = "nat (total_writeOut s)"
  let ?row = "replicate ?w empty_desc"
  let ?P = "\<lambda>i t. \<exists>r. t = s\<lparr>COMEX_writeOut_buff := replicate (nat i) ?row @ replicate (?n - nat i) [], io := r\<rparr>"
  let ?body = "\<lambda>i s. do {
       let (row, r) = alloc_array X 48 (total_writeOut s) junk_desc (io s);
       rows \<leftarrow> arr_set (COMEX_writeOut_buff s) i row;
       for_up 0 (total_writeOut s) (\<lambda>j. wo_upd i j (\<lambda>d. d\<lparr>status := -1, nodeID := -1, bpageNO := -1\<rparr>))
         (s\<lparr>COMEX_writeOut_buff := rows, io := r\<rparr>) }"
  have f: "(\<lambda>d. d\<lparr>status := -1, nodeID := -1, bpageNO := -1\<rparr>) = (\<lambda>d. d\<lparr>nodeID := -1, bpageNO := -1, status := -1\<rparr>)"
    by (rule ext) simp
  have "\<exists>t. for_up 0 (total_nodes s) ?body (s\<lparr>COMEX_writeOut_buff := replicate ?n [], io := r0\<rparr>) = Some t \<and> ?P (total_nodes s) t" for r0
  proof (rule for_up_rule [where P = ?P])
    fix i t assume i: "0 \<le> i" "i < total_nodes s" and "?P i t"
    then obtain r where t: "t = s\<lparr>COMEX_writeOut_buff := replicate (nat i) ?row @ replicate (?n - nat i) [], io := r\<rparr>" by blast
    have k: "nat i < ?n" using i by simp
    then obtain m where m: "?n - nat i = Suc m" "?n - nat (i + 1) = m" using i by (cases "?n - nat i") auto
    let ?r = "snd (kmalloc X (48 * of_int (total_writeOut s)) r)"
    let ?rows = "replicate (nat i) ?row @ replicate ?w junk_desc # replicate m []"
    let ?u = "s\<lparr>COMEX_writeOut_buff := ?rows, io := ?r\<rparr>"
    have set: "arr_set (COMEX_writeOut_buff t) i (replicate ?w junk_desc) = Some ?rows"
      using t i k m by (simp add: arr_set_def list_update_append)
    have ro: "row_ok i ?u" using i k m by (simp add: row_ok_def nth_append)
    have "COMEX_free_buff i 0 (total_writeOut s) ?u = Some (set_row i (clear_row 0 (total_writeOut s) (replicate ?w junk_desc)) ?u)"
      using COMEX_free_buff_ok [OF ro, of 0 "total_writeOut s"] n i by (simp add: nth_append)
    moreover have "clear_row 0 (total_writeOut s) (replicate ?w junk_desc) = ?row"
      by (rule nth_equalityI) (auto simp: no_desc_def junk_desc_def empty_desc_def)
    moreover have "set_row i ?row ?u = s\<lparr>COMEX_writeOut_buff := replicate (nat (i + 1)) ?row @ replicate (?n - nat (i + 1)) [], io := ?r\<rparr>"
      using i m by (simp add: set_row_def list_update_append nat_add_distrib replicate_app_Cons_same io_last)
    ultimately have "?body i t = Some (s\<lparr>COMEX_writeOut_buff := replicate (nat (i + 1)) ?row @ replicate (?n - nat (i + 1)) [], io := ?r\<rparr>)"
      unfolding f using set t by (simp add: alloc_array_ok [OF X] COMEX_free_buff_def)
    then show "\<exists>t'. ?body i t = Some t' \<and> ?P (i + 1) t'" by blast
  qed (use n in auto)
  then show ?thesis
    using n unfolding init_writeOut_def alloc_array_ok [OF X] by simp blast
qed

lemma init_Remote_ok:
  assumes X: "has_memory X" and n: "0 \<le> total_nodes s" "0 \<le> total_writeOut s" "0 \<le> total_readIn s"
  shows "\<exists>r. COMEX_init_Remote X s = Some (s\<lparr>COMEX_free_group := replicate (nat (total_nodes s)) plain_group,
     buff_pos := replicate (nat (total_nodes s)) \<lparr>head = 0, tail = 0, pos_mutex = False\<rparr>,
     COMEX_writeOut_buff := replicate (nat (total_nodes s)) (replicate (nat (total_writeOut s)) empty_desc),
     COMEX_readIn_buff := replicate (nat (total_readIn s)) empty_desc,
     COMEX_free_struct := replicate (nat (total_nodes s)) blank, io := r\<rparr>)"
proof -
  obtain r1 where 1: "init_groups X s = Some (s\<lparr>COMEX_free_group := replicate (nat (total_nodes s)) plain_group,
     buff_pos := replicate (nat (total_nodes s)) \<lparr>head = 0, tail = 0, pos_mutex = False\<rparr>, io := r1\<rparr>)" (is "_ = Some ?a")
    using init_groups_ok [OF X n(1)] by blast
  obtain r2 where 2: "init_writeOut X ?a = Some (?a\<lparr>COMEX_writeOut_buff :=
     replicate (nat (total_nodes s)) (replicate (nat (total_writeOut s)) empty_desc), io := r2\<rparr>)" (is "_ = Some ?b")
    using init_writeOut_ok [OF X, of ?a] n by auto
  obtain r3 where 3: "init_readIn X ?b = Some (?b\<lparr>COMEX_readIn_buff := replicate (nat (total_readIn s)) empty_desc, io := r3\<rparr>)"
    (is "_ = Some ?c")
    using init_readIn_ok [OF X, of ?b] n by auto
  obtain r4 where 4: "init_free_struct X ?c = Some (?c\<lparr>COMEX_free_struct := replicate (nat (total_nodes s)) blank, io := r4\<rparr>)"
    using init_free_struct_ok [OF X, of ?c] n by auto
  show ?thesis
    unfolding COMEX_init_Remote_def 1 bind.bind_lunit 2 3 4 by (intro exI [of _ r4]) (simp add: io_last)
qed


section \<open>Addresses of pool pages\<close>

definition mapped :: "'r node \<Rightarrow> int \<Rightarrow> bool" where
  "mapped s p \<longleftrightarrow> bufferpages (bigspace s) ! nat (pool_page p s div 1024) \<noteq> 0"

definition pool_fits :: "'r node \<Rightarrow> int \<Rightarrow> bool" where
  "pool_fits s p \<longleftrightarrow> hooked s \<and> cbs s \<noteq> [] \<and> conf_ok s \<and> 0 \<le> p \<and>
     pool_page p s < 1024 * int (length (bufferpages (bigspace s))) \<and> pool_page p s < 2 ^ 31"

lemma pool_addr_page:
  assumes "pool_fits s p"
  shows "pool_addr p s = Some (if mapped s p then here_addr (pool_page p s) s else 0)"
proof -
  let ?q = "pool_page p s"
  have c: "0 \<le> total_writeOut s * total_nodes s" "total_writeOut s * total_nodes s < 2 ^ 30" "0 < total_readIn s"
    "0 \<le> p" "?q < 2 ^ 31"
    using assms by (auto simp: pool_fits_def conf_ok_def)
  have i: "i32 (i32 (p + i32 (total_writeOut s * total_nodes s)) + total_readIn s) = ?q"
    using c by (simp add: pool_page_def)
  have q: "page_ok ?q" "?q div 1024 < int (length (bufferpages (bigspace s)))"
    using c assms by (auto simp: pool_page_def page_ok_def pool_fits_def div_less_iff_less_mult mult.commute)
  show ?thesis
    using translate_page [OF q] assms
    by (simp add: pool_addr_def i SHIFT_PAGE_def page_off_shift [symmetric] COMEX_offset_to_addr_def
        COMEX_offset_to_addr_fn_def pool_fits_def arr_get_def mapped_def here_addr_def)
qed

lemma round_up_less: "(x :: int) < (x div 1024 + 1) * 1024"
  by presburger

text \<open>No big page contains address 0.\<close>

definition no_null :: "krping_sharedspace \<Rightarrow> bool" where
  "no_null b \<longleftrightarrow> (\<forall>a \<in> set (bufferpages b). a \<noteq> 0 \<longrightarrow> (\<forall>x < RPING_BUFSIZE. a + x \<noteq> 0))"

lemma div_mult_le_int': "(x :: int) div 1024 * 1024 \<le> x"
  using minus_mod_eq_div_mult [of x 1024] pos_mod_sign [of 1024 x] by linarith

lemma here_no_null:
  assumes "no_null (bigspace s)" and "0 \<le> q" and "q div 1024 < int (length (bufferpages (bigspace s)))"
    and "bufferpages (bigspace s) ! nat (q div 1024) \<noteq> 0"
  shows "here_addr q s \<noteq> 0"
proof -
  have "nat (q div 1024) < length (bufferpages (bigspace s))" using assms(2,3) by (simp add: nat_less_iff pos_imp_zdiv_nonneg_iff)
  then have "bufferpages (bigspace s) ! nat (q div 1024) \<in> set (bufferpages (bigspace s))" by simp
  moreover have "page_off (q mod 1024) < RPING_BUFSIZE" using page_in_big [of 0 q] by (simp add: X86PageSize_def)
  ultimately show ?thesis using assms(1,4) by (simp add: no_null_def here_addr_def big_addr_def)
qed

section \<open>Properties\<close>

text \<open>
  C16: the initialisation from the module leaves the node ready: the pool is well-formed and its free
  pages are exactly the pages whose big page has memory, whatever the state before; every lender has
  an empty ring and an empty queue of pages, the records of freed pages are blank, and the shift of
  remote addresses is the first multiple of 1024 pages above the slots.
\<close>

theorem init_sets_up:
  assumes "has_memory X" and "cbs s \<noteq> []" and "0 < CB" and "0 < wo" and "wo < 2 ^ 15" and "wo * CB < 2 ^ 30"
    and "0 < ri" and "ri < 2 ^ 15" and "0 \<le> tp" and "1024 dvd tp" and "wo * CB + ri + tp < 2 ^ 31"
    and "wo * CB + ri + tp \<le> 1024 * int (length (bufferpages (bigspace s)))"
    and "no_null (bigspace s)"
  shows "\<exists>t. COMEX_init X ID CB wo ri tp name s = Some t \<and> COMEX_Ready t = 1 \<and> hooked t \<and> conf_ok t \<and>
    pool_ok t \<and> pool_total t = tp \<and>
    pool_free t = {p. 0 \<le> p \<and> p < tp \<and> bufferpages (bigspace s) ! nat ((wo * CB + ri + p) div 1024) \<noteq> 0} \<and>
    shift_ok t \<and> shift_pages t = ((wo * CB + ri) div 1024 + 1) * 1024 \<and>
    (\<forall>n. 0 \<le> n \<longrightarrow> n < CB \<longrightarrow> ring_ok n 0 t \<and> lent_ok t n \<and> lent_queue t n = [] \<and> runs (fs_at n t) = {}) \<and>
    unlocked t \<and> total_nodes t = CB \<and> nMem t = CB - 9 \<and> int (length (COMEX_readIn_buff t)) = ri \<and>
    total_writeOut t = wo \<and> total_readIn t = ri \<and>
    bigspace t = bigspace s \<and> cbs t = cbs s \<and> mem t = mem s"
proof -
  let ?base = "wo * CB + ri"
  have b: "0 \<le> wo * CB" "0 \<le> ?base" "?base < 2 ^ 31" using assms by auto
  let ?sh = "push_bit 12 (push_bit 10 (drop_bit 10 (0 + of_int (i32 (wo * CB)) + of_int ri) + 1)) :: u64"
  have iw: "i32 (wo * CB) = wo * CB" using b(1) assms(6) by simp
  have shp: "?sh = page_off ((?base div 1024 + 1) * 1024)"
  proof -
    have "(0 + of_int (wo * CB) + of_int ri :: u64) = of_int ?base" by simp
    moreover have "drop_bit 10 (of_int ?base :: u64) = of_int (?base div 1024)"
    proof -
      have "?base div 1024 < 2 ^ 64" "0 \<le> ?base div 1024"
        using b(2,3) by (simp_all add: div_less_iff_less_mult pos_imp_zdiv_nonneg_iff)
      then show ?thesis
        unfolding word_uint_eq_iff using b(2,3)
        by (simp add: drop_bit_eq_div uint_div_distrib uint_of_int64 del: of_int_add of_int_mult)
    qed
    ultimately show ?thesis unfolding iw by (simp add: page_off_def push_bit_eq_mult)
  qed
  let ?s1 = "s\<lparr>hooked := True, remote_shift_offset := ?sh, COMEX_wq := []\<rparr>"
  let ?conf = "\<lparr>COMEX_ID = ID, COMEX_total_nodes = CB, COMEX_total_pages = tp, COMEX_total_writeOut = wo,
    COMEX_total_readIn = ri, COMEX_threshold = 1024, COMEX_refill = 10, COMEX_nMemNodes = CB - 9,
    COMEX_nComNodes = 9, proc_name = name\<rparr>"
  let ?s2 = "?s1\<lparr>conf := ?conf, pool := (pool s)\<lparr>buddy_spin := False\<rparr>, freePage_spin := False, mutex_PF := False\<rparr>"
  define s2 where "s2 = ?s2"
  have S: "conf s2 = ?conf" "bigspace s2 = bigspace s" "cbs s2 = cbs s" "hooked s2" "mem s2 = mem s"
    "\<not> buddy_spin (pool s2)" "remote_shift_offset s2 = ?sh"
    by (simp_all add: s2_def)
  have co: "conf_ok s2" using assms(3-8) S by (simp add: conf_ok_def)
  have fits: "pool_fits s2 p" if "0 \<le> p" "p < tp" for p
    using that assms(2,11,12) co S by (simp add: pool_fits_def pool_page_def)
  have pg: "pool_page p s2 = ?base + p" for p by (simp add: pool_page_def S)
  have adr: "pool_addr p s2 \<noteq> None"
    "pool_addr p s2 \<noteq> Some 0 \<longleftrightarrow> bufferpages (bigspace s) ! nat ((?base + p) div 1024) \<noteq> 0"
    if "0 \<le> p" "p < tp" for p
  proof -
    have q: "0 \<le> ?base + p" "(?base + p) div 1024 < int (length (bufferpages (bigspace s)))"
      using that b assms(12) by (auto simp: div_less_iff_less_mult mult.commute)
    show "pool_addr p s2 \<noteq> None"
      "pool_addr p s2 \<noteq> Some 0 \<longleftrightarrow> bufferpages (bigspace s) ! nat ((?base + p) div 1024) \<noteq> 0"
      using pool_addr_page [OF fits [OF that]] here_no_null [OF assms(13) q]
      by (auto simp: mapped_def pg here_addr_def S)
  qed
  have km: "fst (kmalloc X (40 * of_int tp) (io s2)) \<noteq> 0" using assms(1) by (simp add: has_memory_def)
  obtain c r where ip: "init_pool X tp s2 = Some (s2\<lparr>io := r, pool := c\<rparr>)" "buddy_inv c" "npages c = tp"
    "free_set c = {i. 0 \<le> i \<and> i < tp \<and> pool_addr i s2 \<noteq> Some 0}"
    using init_pool_correct [of X tp s2, OF km assms(9,10) S(6) adr(1)] by auto
  let ?s3 = "s2\<lparr>io := r, pool := c\<rparr>"
  let ?N = "nat CB"
  obtain r' where rm: "COMEX_init_Remote X ?s3 = Some (?s3\<lparr>COMEX_free_group := replicate ?N plain_group,
     buff_pos := replicate ?N \<lparr>head = 0, tail = 0, pos_mutex = False\<rparr>,
     COMEX_writeOut_buff := replicate ?N (replicate (nat wo) empty_desc),
     COMEX_readIn_buff := replicate (nat ri) empty_desc,
     COMEX_free_struct := replicate ?N blank, io := r'\<rparr>)" (is "_ = Some ?t")
    using init_Remote_ok [OF assms(1), of ?s3] assms(3,4,7) S(1) by auto
  let ?u = "?t\<lparr>COMEX_Ready := 1\<rparr>"
  have run: "COMEX_init X ID CB wo ri tp name s = Some ?u"
  proof -
    have "COMEX_init X ID CB wo ri tp name s = do {
        s \<leftarrow> init_pool X tp s2; s \<leftarrow> COMEX_init_Remote X s; if hooked s then Some (s\<lparr>COMEX_Ready := 1\<rparr>) else None }"
      unfolding s2_def by (simp add: COMEX_init_def COMEX_init_ENV_def Let_def)
    then show ?thesis unfolding ip(1) bind.bind_lunit rm by (simp add: S)
  qed
  have rings: "ring_ok n 0 ?u \<and> lent_ok ?u n \<and> lent_queue ?u n = [] \<and> runs (fs_at n ?u) = {}" if "0 \<le> n" "n < CB" for n
    using that assms(4) blank_ok(2)
    by (simp add: S ring_ok_def row_ok_def pos_at_def wo_at_def lent_ok_def lend_ok_def lent_queue_def plain_group_def
        empty_desc_def nat_less_iff)
  have sh: "remote_shift_offset ?u = page_off ((?base div 1024 + 1) * 1024)" using shp S(7) by simp
  have pk: "page_ok ((?base div 1024 + 1) * 1024)"
    using b(2,3) div_mult_le_int' [of ?base] by (simp add: page_ok_def)
  have sp: "shift_pages ?u = (?base div 1024 + 1) * 1024"
    unfolding shift_pages_def sh page_off_uint [OF pk] by simp
  have "shift_ok ?u" unfolding shift_ok_def sp sh using pk by (simp add: page_ok_def)
  moreover have "unlocked ?u" by (auto simp: unlocked_def locks_def plain_group_def)
  moreover have "pool_free ?u = {p. 0 \<le> p \<and> p < tp \<and> bufferpages (bigspace s) ! nat ((?base + p) div 1024) \<noteq> 0}"
    using ip(4) adr(2) by (auto simp: pool_free_def)
  moreover have "conf_ok ?u" using co by (simp add: conf_ok_def)
  moreover have "hooked ?u" "nMem ?u = CB - 9" "total_nodes ?u = CB" "total_writeOut ?u = wo" "total_readIn ?u = ri"
    "bigspace ?u = bigspace s" "cbs ?u = cbs s" "mem ?u = mem s" by (simp_all add: S)
  ultimately show ?thesis
    using run rings sp ip(2,3) assms(7) by (intro exI [of _ ?u]) (simp add: pool_ok_def pool_total_def)
qed


theorem init_sets_up_witness:
  "\<exists>t. COMEX_init ideal_ext 1 2 64 64 1024 ''app'' (ideal_node (\<lambda>_ _. 0)) = Some t \<and> pool_free t = {0..<1024} \<and>
     shift_pages t = 1024"
proof -
  let ?s = "ideal_node (\<lambda>_ _. 0)"
  have b: "bufferpages (bigspace ?s) = [4194304, 8388608]" "cbs ?s \<noteq> []" by (simp_all add: ideal_node_def plain_node_def)
  have m: "has_memory ideal_ext" by (simp add: has_memory_def ideal_ext_def)
  have z: "no_null (bigspace ?s)"
    using ideal_registered [of "\<lambda>_ _. 0"] by (auto simp: no_null_def registered_def in_set_conv_nth)
  have n: "[4194304, 8388608 :: u64] ! nat ((192 + p) div 1024) \<noteq> 0" if "0 \<le> p" "p < 1024" for p :: int
  proof -
    have "(192 + p) div 1024 \<in> {0, 1}" using that by auto
    then show ?thesis by auto
  qed
  show ?thesis
    using init_sets_up [OF m b(2), of 2 64 64 1024 1 "''app''"] z n by (auto simp: b)
qed

text \<open>
  C17: once initialised, a node whose connections are up satisfies the invariant that the store of
  pages needs, with every ring empty and every lock free.
\<close>

theorem init_ready_to_store:
  assumes "has_memory X" and "cbs s \<noteq> []" and "0 < CB" and "0 < wo" and "wo dvd 1024" and "wo * CB < 2 ^ 30"
    and "0 < ri" and "ri < 2 ^ 15" and "0 \<le> tp" and "1024 dvd tp" and "wo * CB + ri + tp < 2 ^ 31"
    and "wo * CB + ri + tp \<le> 1024 * int (length (bufferpages (bigspace s)))"
    and "1024 * int (length (bufferpages (bigspace s))) < 2 ^ 40" and "registered virt (bigspace s)"
    and "\<And>n. 0 \<le> n \<Longrightarrow> n < CB - 9 \<Longrightarrow> far_ok n s \<and> send_ok (cbs s ! nat n) \<and> (\<forall>r. up r n)"
  shows "\<exists>t. COMEX_init X ID CB wo ri tp name s = Some t \<and> store_inv virt up t \<and> unlocked t"
proof -
  have wo: "wo < 2 ^ 15" using zdvd_imp_le [OF assms(5)] by simp
  have "no_null (bigspace s)" using assms(14) by (auto simp: no_null_def registered_def in_set_conv_nth)
  then obtain t where t: "COMEX_init X ID CB wo ri tp name s = Some t" "hooked t" "conf_ok t" "shift_ok t"
    "\<forall>n. 0 \<le> n \<longrightarrow> n < CB \<longrightarrow> ring_ok n 0 t \<and> lent_ok t n \<and> lent_queue t n = [] \<and> runs (fs_at n t) = {}"
    "unlocked t" "total_nodes t = CB" "nMem t = CB - 9" "int (length (COMEX_readIn_buff t)) = ri"
    "total_writeOut t = wo" "total_readIn t = ri" "bigspace t = bigspace s" "cbs t = cbs s"
    using init_sets_up [OF assms(1-4) wo assms(6-12)] by blast
  have "lender_ok up n 0 t" if n: "0 \<le> n" "n < CB - 9" for n
  proof -
    have "far_ok n t" using assms(15) [OF n] t(13) by (simp add: far_ok_def)
    then show ?thesis
      using assms(15) [OF n] t(5,7,13) n by (simp add: lender_ok_def pending_def seq_ok_def)
  qed
  then have "store_inv virt up t"
    using t assms(2,5,9,12-14) by (auto simp: store_inv_def ready_def)
  then show ?thesis using t(1,6) by blast
qed

theorem init_ready_to_store_witness:
  "\<exists>t. COMEX_init ideal_ext 1 10 64 64 1024 ''app'' (ideal_node (\<lambda>_ _. 0)) = Some t \<and> store_inv id (\<lambda>_ _. True) t \<and> nMem t = 1"
proof -
  let ?s = "ideal_node (\<lambda>_ _. 0)"
  have b: "bufferpages (bigspace ?s) = [4194304, 8388608]" "cbs ?s \<noteq> []" by (simp_all add: ideal_node_def plain_node_def)
  have m: "has_memory ideal_ext" by (simp add: has_memory_def ideal_ext_def)
  have l: "far_ok n ?s \<and> send_ok (cbs ?s ! nat n) \<and> (\<forall>r. True)" if "0 \<le> n" "n < 10 - 9" for n
  proof -
    have "n = 0" using that by simp
    then show ?thesis using ideal_lender [of "\<lambda>_ _. 0"] by (simp add: lender_ok_def)
  qed
  obtain t where t: "COMEX_init ideal_ext 1 10 64 64 1024 ''app'' ?s = Some t" "store_inv id (\<lambda>_ _. True) t"
    using init_ready_to_store [OF m b(2), of 10 64 64 1024 id "\<lambda>_ _. True" 1 "''app''"] l ideal_registered [of "\<lambda>_ _. 0"] by (auto simp: b)
  have z: "no_null (bigspace ?s)"
    using ideal_registered [of "\<lambda>_ _. 0"] by (auto simp: no_null_def registered_def in_set_conv_nth)
  have "nMem t = 1" using init_sets_up [OF m b(2), of 10 64 64 1024 1 "''app''"] z t(1) by (auto simp: b)
  then show ?thesis using t by blast
qed

section \<open>The node's own pages\<close>

definition own_ok :: "(u64 \<Rightarrow> u64) \<Rightarrow> 'r node \<Rightarrow> bool" where
  "own_ok virt s \<longleftrightarrow> ready virt s \<and> pool_ok s \<and> pool_total s = COMEX_total_pages (conf s) \<and>
     total_writeOut s * total_nodes s + total_readIn s + pool_total s \<le> 1024 * int (length (bufferpages (bigspace s))) \<and>
     total_writeOut s * total_nodes s + total_readIn s + pool_total s < 2 ^ 31"

lemma own_page:
  assumes "own_ok virt s" and "0 \<le> p" and "p < pool_total s"
  shows "pool_addr p s = Some (here_addr (pool_page p s) s)" and "here_addr (pool_page p s) s \<noteq> 0"
    and "in_space (bigspace s) (pool_page p s)"
proof -
  have r: "ready virt s" "conf_ok s" using assms(1) by (simp_all add: own_ok_def ready_def)
  have q: "0 \<le> pool_page p s" "pool_page p s < 1024 * int (length (bufferpages (bigspace s)))"
    using assms r(2) by (simp_all add: own_ok_def pool_page_def conf_ok_def)
  show i: "in_space (bigspace s) (pool_page p s)" using ready_in_space [OF r(1) q] .
  show n: "here_addr (pool_page p s) s \<noteq> 0" using here_nonzero [OF r(1) i] .
  have f: "pool_fits s p" using assms r q by (simp add: pool_fits_def own_ok_def ready_def pool_page_def)
  have "mapped s p"
  proof -
    have "nat (pool_page p s div 1024) < length (bufferpages (bigspace s))"
      using i by (simp add: in_space_def page_ok_def nat_less_iff pos_imp_zdiv_nonneg_iff)
    then show ?thesis using r(1) by (metis mapped_def nth_mem ready_def registered_def)
  qed
  then show "pool_addr p s = Some (here_addr (pool_page p s) s)" using pool_addr_page [OF f] by simp
qed

text \<open>The store of an own page, and the load of one.\<close>

lemma own_store:
  assumes s: "own_ok virt s" and free: "pool_free s \<noteq> {}"
  shows "\<exists>p b. COMEX_move_to_COMEX X old rn rp s = Some (1, -11, p,
      s\<lparr>pool := b, mem := memcpy (here_addr (pool_page p s) s) (kmap X old) X86PageSize (mem s)\<rparr>) \<and>
    p \<in> pool_free s \<and> 0 \<le> p \<and> p < pool_total s \<and> buddy_inv b \<and> npages b = pool_total s \<and> free_set b = pool_free s - {p}"
proof -
  have po: "pool_ok s" using s by (simp add: own_ok_def)
  obtain q where "q \<in> pool_free s" using free by blast
  then obtain p v where a: "node_alloc 0 s = Some (p, v)" "pool_ok v" "pool_total v = pool_total s" "0 \<le> p"
    "p \<in> pool_free s" "pool_free v = pool_free s - {p}"
    using npool.alloc_finds [OF po, of 0 q] by auto
  obtain b where v: "v = s\<lparr>pool := b\<rparr>" using a(1) by (auto simp: node_alloc_def split: bind_splits)
  have p: "p < pool_total s" using npool.range [OF po] a(5) by auto
  note P = own_page [OF s a(4) p]
  have pv: "pool_addr p v = Some (here_addr (pool_page p s) s)" using P(1) by (simp add: v)
  have tot: "COMEX_total_pages (conf s) = pool_total s" using s by (simp add: own_ok_def)
  have "COMEX_move_to_COMEX X old rn rp s = Some (1, -11, p,
      s\<lparr>pool := b, mem := memcpy (here_addr (pool_page p s) s) (kmap X old) X86PageSize (mem s)\<rparr>)"
    using a(1,4) p pv P(2) tot by (simp add: COMEX_move_to_COMEX_def v)
  moreover have "buddy_inv b" "npages b = pool_total s" "free_set b = pool_free s - {p}"
    using a(2,3,6) v by (simp_all add: pool_ok_def pool_total_def pool_free_def)
  ultimately show ?thesis using a(4,5) p by blast
qed

lemma own_load:
  assumes "own_ok virt s" and "0 \<le> p" and "p < pool_total s"
  shows "COMEX_read_from_local X new p s =
    Some (s\<lparr>mem := memcpy (kmap X new) (here_addr (pool_page p s) s) X86PageSize (mem s)\<rparr>)"
proof -
  have "COMEX_total_pages (conf s) = pool_total s" using assms(1) by (simp add: own_ok_def)
  then show ?thesis using own_page [OF assms] assms(2,3) by (simp add: COMEX_read_from_local_def)
qed

lemma own_same:
  assumes "own_ok virt s" and "conf t = conf s" and "bigspace t = bigspace s" and "hooked t = hooked s" and "cbs t = cbs s"
    and "remote_shift_offset t = remote_shift_offset s" and "buddy_inv (pool t)" and "npages (pool t) = pool_total s"
  shows "own_ok virt t" and "pool_total t = pool_total s" and "here_addr k t = here_addr k s" and "pool_page p t = pool_page p s"
  using assms env_cong(1,5) [OF assms(2-6)] by (simp_all add: own_ok_def pool_ok_def pool_total_def pool_page_def)

text \<open>
  C18: a page stored in the node's own pool is read back unchanged: \<open>COMEX_move_to_COMEX\<close> takes one
  free page (or fails without a trace when there is none), the other pages of the pool keep their
  contents, and \<open>COMEX_read_from_local\<close> of the returned page number delivers the stored data.
\<close>

theorem local_store_load:
  assumes s: "own_ok virt s" and free: "pool_free s \<noteq> {}"
  shows "\<exists>p t. COMEX_move_to_COMEX X old rn rp s = Some (1, -11, p, t) \<and> p \<in> pool_free s \<and>
    pool_free t = pool_free s - {p} \<and> own_ok virt t \<and>
    (\<exists>u. COMEX_read_from_local X new p t = Some u \<and>
       page_data (mem u) (kmap X new) = page_data (mem s) (kmap X old)) \<and>
    (\<forall>q. 0 \<le> q \<longrightarrow> q < pool_total s \<longrightarrow> q \<noteq> p \<longrightarrow>
       page_data (mem t) (here_addr (pool_page q s) s) = page_data (mem s) (here_addr (pool_page q s) s))"
proof -
  obtain p b where p: "COMEX_move_to_COMEX X old rn rp s = Some (1, -11, p,
      s\<lparr>pool := b, mem := memcpy (here_addr (pool_page p s) s) (kmap X old) X86PageSize (mem s)\<rparr>)"
    "p \<in> pool_free s" "0 \<le> p" "p < pool_total s" "buddy_inv b" "npages b = pool_total s" "free_set b = pool_free s - {p}"
    using own_store [OF s free] by blast
  let ?A = "here_addr (pool_page p s) s"
  let ?t = "s\<lparr>pool := b, mem := memcpy ?A (kmap X old) X86PageSize (mem s)\<rparr>"
  have own: "own_ok virt ?t" "pool_total ?t = pool_total s" "here_addr k ?t = here_addr k s" "pool_page q ?t = pool_page q s" for k q
    using own_same [OF s, of ?t] p(5,6) by simp_all
  have rd: "COMEX_read_from_local X new p ?t = Some (?t\<lparr>mem := memcpy (kmap X new) ?A X86PageSize (mem ?t)\<rparr>)"
    using own_load [OF own(1), of p X new] own p(3,4) by simp
  have other: "page_data (mem ?t) (here_addr (pool_page q s) s) = page_data (mem s) (here_addr (pool_page q s) s)"
    if "0 \<le> q" "q < pool_total s" "q \<noteq> p" for q
  proof -
    have "disj_pages (here_addr (pool_page q s) s) ?A"
      using own_page(3) [OF s] p(3,4) that s by (intro here_disjoint) (auto simp: own_ok_def pool_page_def)
    then show ?thesis by (simp add: page_data_memcpy_frame)
  qed
  have fr: "pool_free ?t = pool_free s - {p}" using p(7) by (simp add: pool_free_def)
  show ?thesis using p(1,2) fr own(1) rd other by (intro exI [of _ p] exI [of _ ?t]) simp
qed


text \<open>The concrete node with one free page.\<close>

lemma ideal_own_exists:
  obtains b where "own_ok id ((ideal_node r)\<lparr>pool := b\<rparr>)" and "pool_free ((ideal_node r)\<lparr>pool := b\<rparr>) = {900}"
proof -
  have u: "buddy_inv (pool_used 1024)" "free_set (pool_used 1024) = {}" "npages (pool_used 1024) = 1024"
    using pool_used [of 1024] by simp_all
  obtain b where b: "buddy_inv b" "npages b = 1024" "free_set b = {900}"
    using cpool.release [OF u(1), of 0 900] u(2,3) by auto
  let ?s = "(ideal_node r)\<lparr>pool := b\<rparr>"
  have "ready id ?s" using ideal_ready [of r] env_cong(1) [of ?s "ideal_node r"] by simp
  moreover have "length (bufferpages (bigspace ?s)) = 2" by (simp add: ideal_node_def plain_node_def)
  ultimately have "own_ok id ?s" and "pool_free ?s = {900}"
    using b by (simp_all add: own_ok_def pool_ok_def pool_total_def pool_free_def plain_conf_def)
  then show thesis by (rule that)
qed

theorem local_store_load_witness:
  "\<exists>s p t u. COMEX_move_to_COMEX ideal_ext 3 0 0 s = Some (1, -11, p, t) \<and> COMEX_read_from_local ideal_ext 4 p t = Some u \<and>
     page_data (mem u) (kmap ideal_ext 4) = page_data (mem s) (kmap ideal_ext 3)"
proof -
  obtain b where b: "own_ok id ((ideal_node (\<lambda>_ _. 0))\<lparr>pool := b\<rparr>)"
    "pool_free ((ideal_node (\<lambda>_ _. 0))\<lparr>pool := b\<rparr>) = {900}" using ideal_own_exists .
  have "pool_free ((ideal_node (\<lambda>_ _. 0))\<lparr>pool := b\<rparr>) \<noteq> {}" using b(2) by auto
  from local_store_load [OF b(1) this, of ideal_ext 3 0 0 4] show ?thesis by blast
qed

text \<open>
  C33: the node's own pages and the pages it lends overlap.  Its own page \<open>p\<close> lies behind the slots,
  at \<open>total_writeOut * total_nodes + total_readIn + p\<close>, but a borrower reaches page \<open>q\<close> at
  \<open>q + shift_pages\<close>, and the shift is rounded up past the slots.  So the own page
  \<open>p = q + (shift - slots)\<close> is the same memory as the lent page \<open>q\<close>: a store of \<open>p\<close> by
  \<open>COMEX_move_to_COMEX\<close> overwrites what a borrower keeps in page \<open>q\<close>, although the pool has handed out
  two different pages.
\<close>

theorem own_store_overwrites_lent_page:
  assumes s: "own_ok virt s"
    and sh: "shift_pages s = ((total_writeOut s * total_nodes s + total_readIn s) div 1024 + 1) * 1024"
    and mv: "COMEX_move_to_COMEX X old rn rp s = Some (1, n, p, t)"
    and q: "q = p - (shift_pages s - (total_writeOut s * total_nodes s + total_readIn s))" "0 \<le> q"
  shows "q < p \<and> COMEX_offset_to_addr (push_bit 12 (of_int q) + remote_shift_offset s) s = Some (here_addr (q + shift_pages s) s) \<and>
      page_data (mem t) (here_addr (q + shift_pages s) s) = page_data (mem s) (kmap X old)"
proof -
  let ?base = "total_writeOut s * total_nodes s + total_readIn s"
  have "?base < (?base div 1024 + 1) * 1024"
    by (rule round_up_less)
  then have qp: "q < p" using sh q(1) by simp
  have po: "pool_ok s" "ready virt s" "shift_ok s" using s by (simp_all add: own_ok_def ready_def)
  obtain x v where a: "node_alloc 0 s = Some (x, v)" using npool.alloc_total [OF po(1), of 0] by auto
  obtain b where v: "v = s\<lparr>pool := b\<rparr>" using a by (auto simp: node_alloc_def split: bind_splits)
  have x: "0 \<le> x" "x < COMEX_total_pages (conf s)" "p = x"
    using mv a by (auto simp: COMEX_move_to_COMEX_def v split: if_splits bind_splits)
  then have pl: "0 \<le> p" "p < pool_total s" using s by (simp_all add: own_ok_def)
  have e: "pool_page p s = q + shift_pages s" using q(1) by (simp add: pool_page_def)
  note P = own_page [OF s pl, unfolded e]
  have off: "COMEX_offset_to_addr (push_bit 12 (of_int q) + remote_shift_offset s) s = Some (here_addr (q + shift_pages s) s)"
    unfolding shift_off [OF po(3)] by (rule offset_to_addr_page [OF po(2) P(3)])
  have "mem t = memcpy (here_addr (q + shift_pages s) s) (kmap X old) X86PageSize (mem s)"
    using mv a x P(1,2) by (auto simp: COMEX_move_to_COMEX_def v split: if_splits)
  then have "page_data (mem t) (here_addr (q + shift_pages s) s) = page_data (mem s) (kmap X old)" by simp
  with qp off show ?thesis by simp
qed


theorem own_store_overwrites_lent_page_witness:
  "\<exists>s t. COMEX_move_to_COMEX ideal_ext 3 0 0 s = Some (1, -11, 900, t) \<and>
     COMEX_offset_to_addr (push_bit 12 (of_int 68) + remote_shift_offset s) s = Some (here_addr 1092 s) \<and>
     page_data (mem t) (here_addr 1092 s) = page_data (mem s) (kmap ideal_ext 3)"
proof -
  obtain b where b: "own_ok id ((ideal_node (\<lambda>_ _. 0))\<lparr>pool := b\<rparr>)"
    "pool_free ((ideal_node (\<lambda>_ _. 0))\<lparr>pool := b\<rparr>) = {900}" using ideal_own_exists .
  let ?s = "(ideal_node (\<lambda>_ _. 0))\<lparr>pool := b\<rparr>"
  have "pool_free ?s \<noteq> {}" using b(2) by simp
  from local_store_load [OF b(1) this, of ideal_ext 3 0 0 4] obtain t
    where t: "COMEX_move_to_COMEX ideal_ext 3 0 0 ?s = Some (1, -11, 900, t)" unfolding b(2) by auto
  have sh: "shift_pages ?s = 1024" using ideal_shift(1) [of "\<lambda>_ _. 0"] by (simp add: shift_pages_def)
  show ?thesis
    using own_store_overwrites_lent_page [OF b(1) _ t, of 68] t sh
    by (intro exI [of _ ?s] exI [of _ t]) (simp add: plain_conf_def)
qed

end
