(* ===== verification/Comex_Remote.thy ===== *)
theory Comex_Remote
  imports Comex_Lib
begin

unbundle bit_operations_syntax

text \<open>
  Pages kept by lenders, end to end: the store of a page (\<open>COMEX_move_to_Remote\<close>), the flush of a
  ring, and the read of a page the way \<open>read_swap_cache_async\<close> does it: from the ring, from the
  read-in buffer, or over RDMA with its neighbours.
\<close>

section \<open>The read of a page\<close>

definition swapin_read :: "'r ext \<Rightarrow> int \<Rightarrow> int \<Rightarrow> int \<Rightarrow> 'r node \<Rightarrow> 'r node option" where
  "swapin_read X new_page n pg s = do {
     (r, s) \<leftarrow> COMEX_read_from_buffer X new_page n pg s;
     if r = 0 then do {
       (r, s) \<leftarrow> COMEX_read_from_preFetch X new_page n pg s;
       if r = 0 then COMEX_read_from_remote X new_page n pg s else Some s
     }
     else Some s
   }"

lemma in_far_group:
  assumes "in_far n p s" and "shift_ok s"
  shows "in_far n (p - p mod 16) s"
proof -
  define g where "g = p - p mod 16"
  have g: "0 \<le> g" "g \<le> p"
    using assms(1) div_mult_le_int [of p] by (simp_all add: g_def in_far_def minus_mod_eq_div_mult pos_imp_zdiv_nonneg_iff)
  then have "(g + shift_pages s) div 1024 \<le> (p + shift_pages s) div 1024" by (intro zdiv_mono1) simp_all
  then have "in_far n g s" using assms g by (simp add: in_far_def page_ok_def shift_ok_def)
  then show ?thesis by (simp add: g_def)
qed

text \<open>What the read-in buffer would deliver is what the lender keeps.\<close>

definition coherent :: "('r \<Rightarrow> int \<Rightarrow> mem) \<Rightarrow> int \<Rightarrow> int \<Rightarrow> 'r node \<Rightarrow> bool" where
  "coherent rem n p s \<longleftrightarrow> (pre_hit n p s \<longrightarrow>
     page_data (mem s) (here_addr (ri_page (p mod total_readIn s) s) s) = stored rem n p s)"

definition aligned :: "'r node \<Rightarrow> bool" where
  "aligned s \<longleftrightarrow> 16 dvd total_readIn s \<and> 16 dvd total_writeOut s * total_nodes s"

lemma ri_quiet_nth: "ri_quiet s \<Longrightarrow> 0 \<le> i \<Longrightarrow> i < int (length (COMEX_readIn_buff s)) \<Longrightarrow> \<not> mutex_buff (COMEX_readIn_buff s ! nat i)"
  by (simp add: ri_quiet_def nat_less_iff)

lemma store_inv_parts:
  assumes "store_inv virt up s" and "0 \<le> n" and "n < nMem s"
  shows "ready virt s" and "far_ok n s" and "row_ok n s" and "n < total_nodes s" and "up (io s) n"
    and "int (length (COMEX_readIn_buff s)) = total_readIn s" and "0 < total_readIn s" and "shift_ok s"
proof -
  obtain c where "lender_ok up n c s" using store_inv_lender [OF assms] by auto
  then show "far_ok n s" "row_ok n s" "n < total_nodes s" "up (io s) n" by (simp_all add: lender_ok_def ring_ok_def)
  show "ready virt s" "int (length (COMEX_readIn_buff s)) = total_readIn s" using assms(1) by (simp_all add: store_inv_def)
  then show "0 < total_readIn s" "shift_ok s" by (simp_all add: ready_def conf_ok_def)
qed

lemma swapin_read_ok:
  assumes X: "rdma_transfers X virt rem up" and i: "store_inv virt up s" and n: "0 \<le> n" "n < nMem s"
    and q: "ri_quiet s" and al: "aligned s" and p: "in_far n p s" and co: "coherent rem n p s"
  shows "\<exists>u. swapin_read X new n p s = Some u \<and> page_data (mem u) (kmap X new) = stored rem n p s \<and>
    rem (io u) = rem (io s) \<and> up (io u) = up (io s) \<and> conf u = conf s \<and> cbs u = cbs s \<and>
    COMEX_writeOut_buff u = COMEX_writeOut_buff s"
proof -
  note I = store_inv_parts [OF i n]
  have p0: "0 \<le> p" using p by (simp add: in_far_def)
  note B = read_from_buffer_correct [OF I(1,3) n(1) I(4), of X new p]
  show ?thesis
  proof (cases "slot_of n p s")
    case (Some k)
    have "stored rem n p s = page_data (mem s) (here_addr (wo_page n (int k) s) s)" using Some by (simp add: stored_def)
    then show ?thesis using B Some by (simp add: swapin_read_def)
  next
    case None
    then have st: "stored rem n p s = page_data (rem (io s) n) (far_addr n p s)" by (simp add: stored_def)
    note P = read_from_preFetch_correct [OF I(1,6) p0, of X new n]
    show ?thesis
    proof (cases "pre_hit n p s")
      case True
      then show ?thesis using B None P co by (simp add: swapin_read_def coherent_def)
    next
      case False
      let ?i = "p mod total_readIn s"
      have fit: "?i div 16 * 16 + 16 \<le> total_readIn s" using fit_16 al I(7) by (simp add: aligned_def)
      have free: "\<not> mutex_buff (COMEX_readIn_buff s ! nat (?i div 16 * 16))"
      proof (rule ri_quiet_nth [OF q])
        show "0 \<le> ?i div 16 * 16" using I(7) by (simp add: pos_imp_zdiv_nonneg_iff)
        show "?i div 16 * 16 < int (length (COMEX_readIn_buff s))" using fit I(6) by simp
      qed
      have al2: "16 dvd total_writeOut s * total_nodes s" and pr: "page_read p s = p"
        using al page_read_same by (auto simp: aligned_def)
      obtain t where "COMEX_read_from_remote X new n p s = Some t"
        "page_data (mem t) (kmap X new) = page_data (rem (io s) n) (far_addr n (page_read p s) s)"
        "conf t = conf s" "cbs t = cbs s" "COMEX_writeOut_buff t = COMEX_writeOut_buff s"
        "up (io t) = up (io s)" "rem (io t) = rem (io s)"
        by (rule read_from_remote_correct [OF X I(1,2,5,6) al2 p0 in_far_group [OF p I(8)] fit free, of new])
      then show ?thesis using B None P False st pr by (simp add: swapin_read_def)
    qed
  qed
qed

text \<open>The store of a page, and its read.\<close>

lemma store_correct:
  assumes "rdma_transfers X virt rem up" and "rdma_messages X rem up" and "store_inv virt up s" and "unlocked s"
    and "hash_ok s" and "get_page_PID id (anon_tree X old) = Some pid" and "0 \<le> pid"
    and "pid * COMEX_ID (conf s) + 1 < 2 ^ 31" and "n0 = (pid * COMEX_ID (conf s) + 1) mod nMem s"
  shows "(\<exists>d p t. COMEX_move_to_Remote X old rn rp s = Some (1, d, p, t) \<and> 0 \<le> d \<and> d < nMem s \<and> in_far d p s \<and>
       store_inv virt up t \<and> unlocked t \<and> stored rem d p t = page_data (mem s) (kmap X old) \<and> \<not> pre_hit d p t \<and>
       (ri_quiet s \<longrightarrow> ri_quiet t) \<and> keeps_except rem d p s t \<and> (lent_total s n0 > 0 \<longrightarrow> d = n0 \<and> p = hd (lent_queue s n0))) \<or>
     (\<not> lent_total s n0 > 0 \<and> (\<exists>t. COMEX_move_to_Remote X old rn rp s = Some (-1, 0, 0, t) \<and>
       store_inv virt up t \<and> unlocked t \<and> keeps rem s t))"
proof -
  have m: "0 < nMem s" "0 \<le> COMEX_ID (conf s)" using assms(5) by (simp_all add: hash_ok_def)
  have "COMEX_hash pid (COMEX_ID (conf s)) s = Some n0"
    using COMEX_hash_ok [OF assms(7) m(2) assms(8) m(1)] assms(9) by simp
  then have "COMEX_move_to_Remote X old rn rp s = move_loop X old (nMem s) 0 n0 rn rp s"
    using assms(6) by (simp add: COMEX_move_to_Remote_def)
  moreover have "0 \<le> n0" "n0 < nMem s" using m assms(9) by simp_all
  ultimately show ?thesis using move_loop_correct [OF assms(1-5), of n0 0 "nMem s" old rn rp] m(1) by simp
qed

lemma load_correct:
  assumes "rdma_transfers X virt rem up" and "rdma_messages X rem up" and "store_inv virt up s" and "unlocked s"
    and "hash_ok s" and "get_page_PID id (anon_tree X old) = Some pid" and "0 \<le> pid"
    and "pid * COMEX_ID (conf s) + 1 < 2 ^ 31" and "aligned s" and "ri_quiet s"
    and "COMEX_move_to_Remote X old rn rp s = Some (1, d, p, t)"
  shows "\<exists>u. swapin_read X new d p t = Some u \<and> page_data (mem u) (kmap X new) = page_data (mem s) (kmap X old)"
proof -
  have d: "0 \<le> d" "d < nMem s" "in_far d p s" "store_inv virt up t" "stored rem d p t = page_data (mem s) (kmap X old)"
    "\<not> pre_hit d p t" "ri_quiet t" "keeps_except rem d p s t"
    using store_correct [OF assms(1-8) refl, of rn rp] assms(10,11) by auto
  have c: "conf t = conf s" "in_far d p t" using d by (simp_all add: keeps_except_def)
  have "coherent rem d p t" using d(6) by (simp add: coherent_def)
  moreover have "aligned t" using assms(9) c(1) by (simp add: aligned_def)
  ultimately show ?thesis
    using swapin_read_ok [OF assms(1) d(4,1) _ d(7) _ c(2), of new] d(2,5) c(1) by auto
qed

section \<open>Properties\<close>


lemma ideal_pid: "get_page_PID id (anon_tree ideal_ext old) = Some 1"
  by (simp add: ideal_ext_def get_page_PID_def)

lemma ideal_lent: "lent_total (ideal_node r) 0 = 1024" "hd (lent_queue (ideal_node r) 0) = 0"
  by (simp_all add: lent_total_def lent_queue_def ideal_node_def upto_rec1)






end
