(* ===== verification/Swap_Base.thy ===== *)
theory Swap_Base
  imports Comex_Prelude
begin

unbundle bit_operations_syntax

text \<open>
  The state of the swap layer (\<open>swapfile.c\<close>, \<open>swap_state.c\<close>), which COMEX extends: the swap areas,
  the swap caches, the pages, and what the layer takes from the rest of the kernel.

  The constants and entry macros of \<open>linux/swap.h\<close> and \<open>linux/swapops.h\<close> are not part of the
  repository.  They are the fields of a record that every operation takes as an argument;
  \<open>linux_swap_h\<close> states what the kernel of this patch (3.10) documents about them, and \<open>std_h\<close> is an
  instance.
\<close>

type_synonym entry = u64

definition ENOENT :: int where "ENOENT = 2"
definition ENOMEM :: int where "ENOMEM = 12"
definition EEXIST :: int where "EEXIST = 17"
definition EINVAL :: int where "EINVAL = 22"

lemmas errnos = ENOENT_def ENOMEM_def EEXIST_def EINVAL_def

record swap_h =
  SWAP_HAS_CACHE :: byte
  COUNT_CONTINUED :: byte
  SWAP_MAP_MAX :: byte
  SWAP_CONT_MAX :: byte
  SWAP_MAP_SHMEM :: byte
  SWP_USED :: u64
  SWP_WRITEOK :: u64
  SWP_DISCARDABLE :: u64
  SWP_DISCARDING :: u64
  SWP_SOLIDSTATE :: u64
  SWP_CONTINUED :: u64
  SWP_BLKDEV :: u64
  SWP_SCANNING :: u64
  SWP_FILE :: u64
  MAX_SWAPFILES :: int
  swp_entry :: "u64 \<Rightarrow> u64 \<Rightarrow> entry"
  swp_type :: "entry \<Rightarrow> u64"
  swp_offset :: "entry \<Rightarrow> u64"
  non_swap_entry :: "entry \<Rightarrow> bool"
  vm_swap_full :: "int \<Rightarrow> int \<Rightarrow> bool"

text \<open>
  The values of the count bytes: a count of at most 62 with a flag for the cache (64) and one for
  continuation (128), digits of at most 127 on the continuation pages; an entry is a type of five
  bits and an offset of 57, and only the entry of type 0 and offset 0 is null.
\<close>

definition linux_swap_h :: "swap_h \<Rightarrow> bool" where
  "linux_swap_h K \<longleftrightarrow>
     SWAP_HAS_CACHE K = 0x40 \<and> COUNT_CONTINUED K = 0x80 \<and> SWAP_MAP_MAX K = 0x3e \<and>
     SWAP_CONT_MAX K = 0x7f \<and> SWAP_MAP_SHMEM K = 0xbf \<and>
     SWP_USED K = 1 \<and> SWP_WRITEOK K = 2 \<and> SWP_DISCARDABLE K = 4 \<and> SWP_DISCARDING K = 8 \<and>
     SWP_SOLIDSTATE K = 16 \<and> SWP_CONTINUED K = 32 \<and> SWP_BLKDEV K = 64 \<and> SWP_SCANNING K = 256 \<and> SWP_FILE K = 128 \<and>
     MAX_SWAPFILES K = 29 \<and>
     (\<forall>t off. t < 32 \<and> off < 2 ^ 57 \<longrightarrow>
        swp_type K (swp_entry K t off) = t \<and> swp_offset K (swp_entry K t off) = off \<and>
        (swp_entry K t off = 0 \<longleftrightarrow> t = 0 \<and> off = 0)) \<and>
     (\<forall>e. non_swap_entry K e \<longleftrightarrow> 29 \<le> swp_type K e)"

definition std_h :: swap_h where
  "std_h = \<lparr>SWAP_HAS_CACHE = 0x40, COUNT_CONTINUED = 0x80, SWAP_MAP_MAX = 0x3e, SWAP_CONT_MAX = 0x7f,
     SWAP_MAP_SHMEM = 0xbf, SWP_USED = 1, SWP_WRITEOK = 2, SWP_DISCARDABLE = 4, SWP_DISCARDING = 8,
     SWP_SOLIDSTATE = 16, SWP_CONTINUED = 32, SWP_BLKDEV = 64, SWP_SCANNING = 256, SWP_FILE = 128, MAX_SWAPFILES = 29,
     swp_entry = (\<lambda>t off. push_bit 57 t OR off), swp_type = (\<lambda>e. drop_bit 57 e),
     swp_offset = (\<lambda>e. take_bit 57 e), non_swap_entry = (\<lambda>e. 29 \<le> drop_bit 57 e),
     vm_swap_full = (\<lambda>free total. 2 * free < total)\<rparr>"

lemma small_bits: "x < 2 ^ n \<Longrightarrow> n < 64 \<Longrightarrow> bit (x :: u64) i \<Longrightarrow> i < n"
  by (metis bit_imp_le_length bit_take_bit_iff less_mask_eq take_bit_eq_mask)

lemma std_h_entry:
  fixes t off :: u64
  assumes t: "t < 32" and off: "off < 2 ^ 57"
  shows "drop_bit 57 (push_bit 57 t OR off) = t" "take_bit 57 (push_bit 57 t OR off) = off"
proof -
  have t': "bit t i \<Longrightarrow> i < 5" for i using small_bits [of t 5] t by simp
  have off': "bit off i \<Longrightarrow> i < 57" for i using small_bits [of off 57] off by simp
  show "drop_bit 57 (push_bit 57 t OR off) = t" "take_bit 57 (push_bit 57 t OR off) = off"
    by (rule bit_word_eqI; auto simp: bit_simps dest: t' off')+
qed

lemma std_h_linux: "linux_swap_h std_h"
proof -
  have "push_bit 57 t OR off = 0 \<longleftrightarrow> t = 0 \<and> off = 0" if "t < 32" "off < 2 ^ 57" for t off :: u64
    using std_h_entry [OF that] by (metis drop_bit_of_0 or.comm_neutral push_bit_of_0 take_bit_of_0)
  then show ?thesis by (simp add: linux_swap_h_def std_h_def std_h_entry del: drop_bit_or take_bit_or)
qed

section \<open>Swap areas\<close>

text \<open>
  \<open>struct swap_info_struct\<close>.  \<open>swap_map\<close> is the array of \<open>max\<close> count bytes; \<open>map_pages\<close> are the page
  structures of the memory it lies in, each with its private field and, on its \<open>lru\<close> list, the
  continuation pages (a byte per slot of that page, by the offset in the page).  \<open>extents\<close> is the
  circular list from \<open>first_swap_extent\<close> on and \<open>curr_extent\<close> the position of \<open>curr_swap_extent\<close> in
  it.  \<open>slot_notify\<close> says
  whether the driver of the device has a \<open>swap_slot_free_notify\<close>.
\<close>

record map_page =
  head_private :: u64
  lru :: "(int \<Rightarrow> byte) list"

record swap_extent =
  se_start_page :: int
  se_nr_pages :: int
  se_start_block :: int

record swap_info_struct =
  si_flags :: u64
  prio :: int
  si_type :: int
  si_next :: int
  si_max :: int
  swap_map :: "byte list"
  map_pages :: "map_page list"
  lowest_bit :: int
  highest_bit :: int
  si_pages :: int
  inuse_pages :: int
  cluster_next :: int
  cluster_nr :: int
  lowest_alloc :: int
  highest_alloc :: int
  extents :: "swap_extent list"
  curr_extent :: nat
  slot_notify :: bool
  si_lock :: bool

text \<open>\<open>unsigned int\<close> fields wrap at 32 bits.\<close>

definition u32 :: "int \<Rightarrow> int" where
  "u32 x = take_bit 32 x"

lemma u32_id [simp]: "0 \<le> x \<Longrightarrow> x < 2 ^ 32 \<Longrightarrow> u32 x = x"
  by (simp add: u32_def take_bit_int_eq_self)

definition PAGE_SIZE :: int where "PAGE_SIZE = 4096"

section \<open>Pages and caches\<close>

text \<open>
  What the swap layer reads and writes of a \<open>struct page\<close>; \<open>swapper_spaces\<close> holds one cache for each
  type, a map from entries to page frames.
\<close>

record page_t =
  PageLocked :: bool
  PageUptodate :: bool
  PageDirty :: bool
  PageSwapCache :: bool
  PageSwapBacked :: bool
  PageWriteback :: bool
  PageKsm :: bool
  PageTransHuge :: bool
  p_count :: int
  p_mapcount :: int
  page_private :: u64

record address_space =
  page_tree :: "entry \<Rightarrow> int option"
  nrpages :: u64

record swap_cache_info_t =
  add_total :: u64
  del_total :: u64
  find_success :: u64
  find_total :: u64

record 'k swaps =
  swap_info :: "swap_info_struct option list"
  nr_swapfiles :: int
  nr_swap_pages :: int
  total_swap_pages :: int
  swap_list_head :: int
  swap_list_next :: int
  highest_priority_index :: int
  swap_lock :: bool
  frames :: "int \<Rightarrow> page_t"
  swapper_spaces :: "address_space list"
  swap_cache_info :: swap_cache_info_t
  kern :: 'k

text \<open>
  The rest of the kernel: its state is the type variable.  \<open>alloc_page\<close> returns a page with whatever
  it holds, or null.
\<close>

record 'k kserv =
  alloc_page :: "'k \<Rightarrow> (int \<Rightarrow> byte) option \<times> 'k"
  free_page :: "'k \<Rightarrow> 'k"
  mem_cgroup_uncharge_swap :: "entry \<Rightarrow> 'k \<Rightarrow> 'k"
  mem_cgroup_uncharge_swapcache :: "int \<Rightarrow> entry \<Rightarrow> bool \<Rightarrow> 'k \<Rightarrow> 'k"
  frontswap_invalidate_page :: "int \<Rightarrow> u64 \<Rightarrow> 'k \<Rightarrow> 'k"
  swap_slot_free_notify :: "int \<Rightarrow> u64 \<Rightarrow> 'k \<Rightarrow> 'k"
  pm_suspended_storage :: "'k \<Rightarrow> bool"
  kmalloc_extent :: "'k \<Rightarrow> bool \<times> 'k"
  blkdev_issue_discard :: "int \<Rightarrow> int \<Rightarrow> int \<Rightarrow> 'k \<Rightarrow> int \<times> 'k"
  swap_deactivate :: "int \<Rightarrow> 'k \<Rightarrow> 'k"
  wait_on_discard :: "'k \<Rightarrow> 'k"
  radix_tree_preload :: "'k \<Rightarrow> int \<times> 'k"
  radix_tree_room :: "'k \<Rightarrow> int \<times> 'k"

text \<open>Reading and writing \<open>*swap_info[type]\<close>: a null pointer or a type outside the array has no value.\<close>

definition si_get :: "int \<Rightarrow> 'k swaps \<Rightarrow> swap_info_struct option" where
  "si_get ty s = do { p \<leftarrow> arr_get (swap_info s) ty; p }"

definition si_put :: "int \<Rightarrow> swap_info_struct \<Rightarrow> 'k swaps \<Rightarrow> 'k swaps" where
  "si_put ty p s = s\<lparr>swap_info := (swap_info s)[nat ty := Some p]\<rparr>"

definition kern_do :: "('k \<Rightarrow> 'k) \<Rightarrow> 'k swaps \<Rightarrow> 'k swaps" where
  "kern_do f s = s\<lparr>kern := f (kern s)\<rparr>"

definition spin_lock_si :: "int \<Rightarrow> 'k swaps \<Rightarrow> 'k swaps option" where
  "spin_lock_si ty s = do { p \<leftarrow> si_get ty s; if si_lock p then None else Some (si_put ty (p\<lparr>si_lock := True\<rparr>) s) }"

definition spin_unlock_si :: "int \<Rightarrow> 'k swaps \<Rightarrow> 'k swaps option" where
  "spin_unlock_si ty s = do { p \<leftarrow> si_get ty s; Some (si_put ty (p\<lparr>si_lock := False\<rparr>) s) }"

lemma si_get_Some: "si_get ty s = Some p \<longleftrightarrow> 0 \<le> ty \<and> ty < int (length (swap_info s)) \<and> swap_info s ! nat ty = Some p"
  by (auto simp: si_get_def arr_get_def split: if_splits)

lemma si_get_put [simp]: "si_get ty s = Some p \<Longrightarrow> si_get ty (si_put ty q s) = Some q"
  by (auto simp: si_get_Some si_put_def)

lemma si_get_put_other [simp]: "si_get ty s = Some p \<Longrightarrow> ty \<noteq> ty' \<Longrightarrow> 0 \<le> ty' \<Longrightarrow> si_get ty' (si_put ty q s) = si_get ty' s"
  by (auto simp: si_get_Some si_get_def [of ty'] arr_get_def si_put_def nth_list_update eq_nat_nat_iff)

lemma si_put_put [simp]: "si_put ty p (si_put ty q s) = si_put ty p s"
  by (simp add: si_put_def)

lemma si_put_same: "si_get ty s = Some p \<Longrightarrow> si_put ty p s = s"
  by (auto simp: si_get_Some si_put_def list_update_same_conv)

lemma si_put_fields [simp]:
  "nr_swapfiles (si_put ty p s) = nr_swapfiles s" "nr_swap_pages (si_put ty p s) = nr_swap_pages s"
  "total_swap_pages (si_put ty p s) = total_swap_pages s" "frames (si_put ty p s) = frames s"
  "swap_list_head (si_put ty p s) = swap_list_head s" "swap_list_next (si_put ty p s) = swap_list_next s"
  "highest_priority_index (si_put ty p s) = highest_priority_index s" "swap_lock (si_put ty p s) = swap_lock s"
  "swapper_spaces (si_put ty p s) = swapper_spaces s" "swap_cache_info (si_put ty p s) = swap_cache_info s"
  "kern (si_put ty p s) = kern s" "length (swap_info (si_put ty p s)) = length (swap_info s)"
  by (simp_all add: si_put_def)

lemma kern_do_si [simp]: "si_get ty (kern_do f s) = si_get ty s" "kern_do f (si_put ty p s) = si_put ty p (kern_do f s)"
  by (simp_all add: kern_do_def si_get_def si_put_def)

end
