(* ===== verification/Swap_Count.thy ===== *)
theory Swap_Count
  imports Swap_Base
begin

text \<open>
  Swap counts (\<open>swapfile.c\<close>, 70-73 and 2347-2545).  The number of page table entries that refer to a
  swap slot is kept as a little-endian number: a digit of at most 62 in the byte of \<open>swap_map\<close>, further
  digits of at most 127 in the byte of the same offset on the continuation pages, each byte with a
  flag that says whether a next digit counts.  \<open>swap_count_continued\<close> carries into and borrows from
  the continuation; here it is shown to add and subtract one on the number it stands for.
\<close>

section \<open>The code\<close>

definition swap_count :: "swap_h \<Rightarrow> byte \<Rightarrow> byte" where
  "swap_count K ent = ent AND NOT (SWAP_HAS_CACHE K)"

text \<open>
  The loops of \<open>swap_count_continued\<close> walk the list of continuation pages from \<open>head->lru.next\<close>
  forwards and back to \<open>head\<close>; \<open>i\<close> is the position of \<open>page\<close> in the list and \<open>off\<close> the offset in the
  page.  A forward walk that reaches \<open>head\<close> is a \<open>BUG_ON\<close>.
\<close>

definition set_map :: "nat \<Rightarrow> int \<Rightarrow> byte \<Rightarrow> (int \<Rightarrow> byte) list \<Rightarrow> (int \<Rightarrow> byte) list" where
  "set_map i off v ps = ps[i := (ps ! i)(off := v)]"

function walk_while :: "byte \<Rightarrow> int \<Rightarrow> (int \<Rightarrow> byte) list \<Rightarrow> nat \<Rightarrow> nat option" where
  "walk_while v off ps i =
     (if i < length ps then if (ps ! i) off = v then walk_while v off ps (Suc i) else Some i else None)"
  by pat_completeness auto
termination
  by (relation "measure (\<lambda>(v, off, ps, i). length ps - i)") auto

declare walk_while.simps [simp del]

fun carry_back :: "swap_h \<Rightarrow> int \<Rightarrow> (int \<Rightarrow> byte) list \<Rightarrow> nat \<Rightarrow> (int \<Rightarrow> byte) list" where
  "carry_back K off ps 0 = ps"
| "carry_back K off ps (Suc i) = carry_back K off (set_map i off (COUNT_CONTINUED K) ps) i"

fun borrow_back :: "swap_h \<Rightarrow> int \<Rightarrow> byte \<Rightarrow> (int \<Rightarrow> byte) list \<Rightarrow> nat \<Rightarrow> byte \<times> (int \<Rightarrow> byte) list" where
  "borrow_back K off count ps 0 = (count, ps)"
| "borrow_back K off count ps (Suc i) =
     borrow_back K off (COUNT_CONTINUED K) (set_map i off (SWAP_CONT_MAX K OR count) ps) i"

definition bump :: "swap_h \<Rightarrow> int \<Rightarrow> (int \<Rightarrow> byte) list \<Rightarrow> nat \<Rightarrow> (int \<Rightarrow> byte) list" where
  "bump K off ps i = carry_back K off (set_map i off ((ps ! i) off + 1) ps) i"

definition continued_pages ::
  "swap_h \<Rightarrow> int \<Rightarrow> byte \<Rightarrow> (int \<Rightarrow> byte) list \<Rightarrow> (bool \<times> (int \<Rightarrow> byte) list) option" where
  "continued_pages K off count ps =
     (if ps = [] then None
      else if count = SWAP_MAP_MAX K then Some (True, bump K off (set_map 0 off 0 ps) 0)
      else if count = SWAP_MAP_MAX K OR COUNT_CONTINUED K then do {
        i \<leftarrow> walk_while (SWAP_CONT_MAX K OR COUNT_CONTINUED K) off ps 0;
        if (ps ! i) off = SWAP_CONT_MAX K then
          if Suc i = length ps then Some (False, ps)
          else Some (True, bump K off (set_map (Suc i) off 0 ps) (Suc i))
        else Some (True, bump K off ps i)
      }
      else if count \<noteq> COUNT_CONTINUED K then None
      else do {
        i \<leftarrow> walk_while (COUNT_CONTINUED K) off ps 0;
        if (ps ! i) off = 0 then None
        else do {
          let ps = set_map i off ((ps ! i) off - 1) ps;
          let count = (if (ps ! i) off = 0 then 0 else count);
          let (count, ps) = borrow_back K off count ps i;
          Some (count = COUNT_CONTINUED K, ps)
        }
      })"

definition swap_count_continued ::
  "swap_h \<Rightarrow> swap_info_struct \<Rightarrow> int \<Rightarrow> byte \<Rightarrow> (bool \<times> swap_info_struct) option" where
  "swap_count_continued K si offset count = do {
     head \<leftarrow> arr_get (map_pages si) (offset div PAGE_SIZE);
     if head_private head \<noteq> SWP_CONTINUED K
     then if count AND COUNT_CONTINUED K \<noteq> 0 then None else Some (False, si)
     else do {
       (r, ps) \<leftarrow> continued_pages K (offset mod PAGE_SIZE) count (lru head);
       hs \<leftarrow> arr_set (map_pages si) (offset div PAGE_SIZE) (head\<lparr>lru := ps\<rparr>);
       Some (r, si\<lparr>map_pages := hs\<rparr>)
     }
   }"

text \<open>
  The part of \<open>add_swap_count_continuation\<close> that runs under the lock, for the page it has allocated:
  whether the page was linked, and the new structure; \<open>space_ahead\<close> is the loop over the pages that
  are there, true when it finds room for a carry (\<open>goto out\<close>).
\<close>

fun space_ahead :: "swap_h \<Rightarrow> int \<Rightarrow> byte \<Rightarrow> (int \<Rightarrow> byte) list \<Rightarrow> bool" where
  "space_ahead K off count [] \<longleftrightarrow> False"
| "space_ahead K off count (m # ms) \<longleftrightarrow>
     count AND COUNT_CONTINUED K = 0 \<or> m off AND NOT (COUNT_CONTINUED K) \<noteq> SWAP_CONT_MAX K \<or>
     space_ahead K off (m off) ms"

definition link_continuation ::
  "swap_h \<Rightarrow> swap_info_struct \<Rightarrow> int \<Rightarrow> byte \<Rightarrow> (int \<Rightarrow> byte) \<Rightarrow> (bool \<times> swap_info_struct) option" where
  "link_continuation K si offset count page = do {
     head \<leftarrow> arr_get (map_pages si) (offset div PAGE_SIZE);
     (head, si) \<leftarrow> (if head_private head = 0
       then if count AND COUNT_CONTINUED K \<noteq> 0 then None
            else Some (head\<lparr>head_private := SWP_CONTINUED K, lru := []\<rparr>,
                       si\<lparr>si_flags := si_flags si OR SWP_CONTINUED K\<rparr>)
       else Some (head, si));
     let linked = \<not> space_ahead K (offset mod PAGE_SIZE) count (lru head);
     hs \<leftarrow> arr_set (map_pages si) (offset div PAGE_SIZE)
        (if linked then head\<lparr>lru := lru head @ [page]\<rparr> else head);
     Some (linked, si\<lparr>map_pages := hs\<rparr>)
   }"

text \<open>\<open>swapoff\<close> returns the continuation pages to the kernel before the map itself
  is freed; the lists end empty.\<close>

definition free_swap_count_continuations :: "'k kserv \<Rightarrow> swap_info_struct \<Rightarrow> 'k \<Rightarrow> (swap_info_struct \<times> 'k) option" where
  "free_swap_count_continuations X si k =
     for_up 0 ((si_max si + PAGE_SIZE - 1) div PAGE_SIZE) (\<lambda>j (si, k). do {
       head \<leftarrow> arr_get (map_pages si) j;
       if head_private head \<noteq> 0 then do {
         hs \<leftarrow> arr_set (map_pages si) j (head\<lparr>lru := []\<rparr>);
         Some (si\<lparr>map_pages := hs\<rparr>, ((free_page X) ^^ length (lru head)) k)
       } else Some (si, k)
     }) (si, k)"

section \<open>The number a column of digits stands for\<close>

definition column :: "int \<Rightarrow> (int \<Rightarrow> byte) list \<Rightarrow> nat list" where
  "column off ps = map (\<lambda>m. unat (m off)) ps"

fun cont_val :: "nat list \<Rightarrow> nat" where
  "cont_val [] = 0"
| "cont_val (b # bs) = b mod 128 + (if 128 \<le> b then 128 * cont_val bs else 0)"

text \<open>A column is proper when the last digit its flags reach is there and is not zero.\<close>

fun cont_ok :: "nat list \<Rightarrow> bool" where
  "cont_ok [] \<longleftrightarrow> False"
| "cont_ok (b # bs) \<longleftrightarrow> b < 256 \<and> (if 128 \<le> b then cont_ok bs else 0 < b)"

lemma cont_val_pos: "cont_ok bs \<Longrightarrow> 0 < cont_val bs"
  by (induction bs) (auto split: if_splits)

lemma cont_val_full: "cont_val (replicate i 255 @ bs) + 1 = 128 ^ i * (cont_val bs + 1)"
  by (induction i) (simp_all add: algebra_simps)

lemma cont_val_zeros: "cont_val (replicate i 128 @ bs) = 128 ^ i * cont_val bs"
  by (induction i) simp_all

lemma cont_ok_flags: "128 \<le> b \<Longrightarrow> b < 256 \<Longrightarrow> cont_ok (replicate i b @ bs) = cont_ok bs"
  by (induction i) simp_all

lemma column_set_map:
  "i < length ps \<Longrightarrow> column off' (set_map i off v ps) =
     (if off' = off then (column off ps)[i := unat v] else column off' ps)"
  by (auto simp: column_def set_map_def map_update nth_list_update intro!: nth_equalityI)

lemma length_set_map [simp]: "length (set_map i off v ps) = length ps"
  by (simp add: set_map_def)

lemma length_column [simp]: "length (column off ps) = length ps"
  by (simp add: column_def)

lemma column_nth: "i < length ps \<Longrightarrow> column off ps ! i = unat ((ps ! i) off)"
  by (simp add: column_def)


section \<open>The walks\<close>

lemma walk_while_spec:
  "walk_while v off ps i = Some j \<Longrightarrow>
     i \<le> j \<and> j < length ps \<and> (ps ! j) off \<noteq> v \<and> (\<forall>k. i \<le> k \<and> k < j \<longrightarrow> (ps ! k) off = v)"
proof (induction v off ps i rule: walk_while.induct)
  case (1 v off ps i)
  have u: "walk_while v off ps i =
     (if i < length ps then if (ps ! i) off = v then walk_while v off ps (Suc i) else Some i else None)"
    by (rule walk_while.simps)
  show ?case
  proof (cases "i < length ps \<and> (ps ! i) off = v")
    case True
    then have "walk_while v off ps (Suc i) = Some j" using "1.prems" u by simp
    with "1.IH" True have IH: "Suc i \<le> j" "j < length ps" "(ps ! j) off \<noteq> v"
      "\<forall>k. Suc i \<le> k \<and> k < j \<longrightarrow> (ps ! k) off = v" by blast+
    then have "\<forall>k. i \<le> k \<and> k < j \<longrightarrow> (ps ! k) off = v"
      using True by (metis le_neq_implies_less less_eq_Suc_le)
    then show ?thesis using IH by simp
  next
    case False
    then show ?thesis using "1.prems" u by (auto split: if_splits)
  qed
qed

lemma walk_while_finds:
  "i \<le> j \<Longrightarrow> j < length ps \<Longrightarrow> (ps ! j) off \<noteq> v \<Longrightarrow> \<exists>k. walk_while v off ps i = Some k"
proof (induction v off ps i rule: walk_while.induct)
  case (1 v off ps i)
  have "(ps ! i) off = v \<Longrightarrow> Suc i \<le> j" using "1.prems" by (cases "i = j") auto
  then show ?case using "1.IH" "1.prems" by (subst walk_while.simps) auto
qed

text \<open>A forward walk splits the column into the digits passed, the digit it stops at and the rest.\<close>

lemma walk_while_column:
  assumes "walk_while v off ps 0 = Some i"
  shows "column off ps = replicate i (unat v) @ unat ((ps ! i) off) # drop (Suc i) (column off ps)"
    "i < length ps" "unat ((ps ! i) off) \<noteq> unat v"
proof -
  note w = walk_while_spec [OF assms]
  have "take i (column off ps) = replicate i (unat v)"
    using w by (intro nth_equalityI) (auto simp: column_nth)
  moreover have "column off ps = take i (column off ps) @ column off ps ! i # drop (Suc i) (column off ps)"
    using w by (intro id_take_nth_drop) simp
  ultimately show "column off ps = replicate i (unat v) @ unat ((ps ! i) off) # drop (Suc i) (column off ps)"
    using w by (simp add: column_nth)
  show "i < length ps" "unat ((ps ! i) off) \<noteq> unat v" using w by (simp_all add: word_unat_eq_iff)
qed

lemma carry_back_column:
  "i \<le> length ps \<Longrightarrow> column off (carry_back K off ps i) =
     replicate i (unat (COUNT_CONTINUED K)) @ drop i (column off ps)"
proof (induction K off ps i rule: carry_back.induct)
  case (2 K off ps i)
  then show ?case
    by (simp add: column_set_map drop_update_cancel Cons_nth_drop_Suc [symmetric] replicate_app_Cons_same
        flip: replicate_Suc)
qed simp

lemma carry_back_other: "i \<le> length ps \<Longrightarrow> off' \<noteq> off \<Longrightarrow> column off' (carry_back K off ps i) = column off' ps"
  by (induction K off ps i rule: carry_back.induct) (simp_all add: column_set_map)

lemma borrow_back_column:
  "Suc i \<le> length ps \<Longrightarrow> column off (snd (borrow_back K off count ps (Suc i))) =
     replicate i (unat (SWAP_CONT_MAX K OR COUNT_CONTINUED K)) @
     unat (SWAP_CONT_MAX K OR count) # drop (Suc i) (column off ps)"
proof (induction i arbitrary: count ps)
  case 0
  then show ?case by (cases ps) (auto simp: column_set_map column_def set_map_def)
next
  case (Suc i)
  let ?ps = "set_map (Suc i) off (SWAP_CONT_MAX K OR count) ps"
  have "column off (snd (borrow_back K off (COUNT_CONTINUED K) ?ps (Suc i))) =
      replicate i (unat (SWAP_CONT_MAX K OR COUNT_CONTINUED K)) @
      unat (SWAP_CONT_MAX K OR COUNT_CONTINUED K) # drop (Suc i) (column off ?ps)"
    using Suc.IH [of ?ps "COUNT_CONTINUED K"] Suc.prems by simp
  also have "drop (Suc i) (column off ?ps) = unat (SWAP_CONT_MAX K OR count) # drop (Suc (Suc i)) (column off ps)"
    using Suc.prems by (simp add: column_set_map Cons_nth_drop_Suc [symmetric])
  finally show ?case by (simp add: replicate_app_Cons_same)
qed

lemma borrow_back_other:
  "i \<le> length ps \<Longrightarrow> off' \<noteq> off \<Longrightarrow> column off' (snd (borrow_back K off count ps i)) = column off' ps"
  by (induction K off count ps i rule: borrow_back.induct) (simp_all add: column_set_map)

lemma borrow_back_count: "fst (borrow_back K off count ps i) = (if i = 0 then count else COUNT_CONTINUED K)"
  by (induction K off count ps i rule: borrow_back.induct) simp_all

lemma length_carry_back [simp]: "length (carry_back K off ps i) = length ps"
  by (induction K off ps i rule: carry_back.induct) simp_all

lemma length_borrow_back [simp]: "length (snd (borrow_back K off count ps i)) = length ps"
  by (induction K off count ps i rule: borrow_back.induct) simp_all


section \<open>Carrying adds one, borrowing subtracts one\<close>

lemmas linux_counts = linux_swap_h_def [THEN iffD1, THEN conjunct1]
  linux_swap_h_def [THEN iffD1, THEN conjunct2, THEN conjunct1]
  linux_swap_h_def [THEN iffD1, THEN conjunct2, THEN conjunct2, THEN conjunct1]
  linux_swap_h_def [THEN iffD1, THEN conjunct2, THEN conjunct2, THEN conjunct2, THEN conjunct1]
  linux_swap_h_def [THEN iffD1, THEN conjunct2, THEN conjunct2, THEN conjunct2, THEN conjunct2, THEN conjunct1]

lemma byte_less: "unat (b :: byte) < 256"
proof -
  have "unat b < 2 ^ LENGTH(8)" by (rule unsigned_less)
  then show ?thesis by simp
qed

lemma unat_inc: "unat (b :: byte) \<noteq> 255 \<Longrightarrow> unat (b + 1) = unat b + 1"
  using byte_less [of b] by (simp add: unat_word_ariths)

lemma digit_inc: "d < 256 \<Longrightarrow> d \<noteq> 127 \<Longrightarrow> d \<noteq> 255 \<Longrightarrow> (d + 1) mod 128 = d mod 128 + (1 :: nat)"
  by (cases "d < 128") (simp_all add: le_mod_geq)

lemma unat_dec: "(b :: byte) \<noteq> 0 \<Longrightarrow> unat (b - 1) = unat b - 1"
  by (simp add: unat_minus_one)

lemma bump_column:
  assumes K: "COUNT_CONTINUED K = 0x80" and i: "i < length ps" and d: "unat ((ps ! i) off) \<noteq> 255"
    and c: "column off ps = xs @ d # ys" "length xs = i"
  shows "column off (bump K off ps i) = replicate i 128 @ (d + 1) # ys"
proof -
  have d': "unat ((ps ! i) off) = d" using i c by (simp add: nth_append flip: column_nth)
  have "column off (set_map i off ((ps ! i) off + 1) ps) = xs @ (d + 1) # ys"
    using i c d d' by (simp add: column_set_map unat_inc list_update_append)
  then show ?thesis
    using i c K by (simp add: bump_def carry_back_column)
qed

lemma bump_other: "i < length ps \<Longrightarrow> off' \<noteq> off \<Longrightarrow> column off' (bump K off ps i) = column off' ps"
  by (simp add: bump_def carry_back_other column_set_map)

lemma length_bump [simp]: "length (bump K off ps i) = length ps"
  by (simp add: bump_def)

lemma continued_first:
  assumes K: "linux_swap_h K" and ps: "ps \<noteq> []"
  shows "\<exists>ps'. continued_pages K off 0x3e ps = Some (True, ps') \<and> length ps' = length ps \<and>
    cont_ok (column off ps') \<and> cont_val (column off ps') = 1 \<and> (\<forall>off'. off' \<noteq> off \<longrightarrow> column off' ps' = column off' ps)"
proof -
  let ?ps = "set_map 0 off 0 ps"
  obtain p qs where p: "ps = p # qs" using ps by (cases ps) auto
  have c: "column off ?ps = [] @ 0 # column off qs" by (simp add: p set_map_def column_def)
  have z: "unat ((?ps ! 0) off) = 0" using p by (simp add: set_map_def)
  have "column off (bump K off ?ps 0) = 1 # column off qs"
    using bump_column [OF _ _ _ c, of K] K ps z by (simp add: linux_counts)
  then show ?thesis
    using K ps by (auto simp: continued_pages_def linux_counts bump_other column_set_map)
qed

lemma continued_inc:
  assumes K: "linux_swap_h K" and ok: "cont_ok (column off ps)"
  shows "continued_pages K off 0xbe ps = Some (False, ps) \<and> (\<exists>i. column off ps = replicate i 255 @ [127]) \<or>
    (\<exists>ps'. continued_pages K off 0xbe ps = Some (True, ps') \<and> length ps' = length ps \<and> cont_ok (column off ps') \<and>
      cont_val (column off ps') = cont_val (column off ps) + 1 \<and> (\<forall>off'. off' \<noteq> off \<longrightarrow> column off' ps' = column off' ps))"
proof -
  have ne: "ps \<noteq> []" using ok by (auto simp: column_def)
  have stop: "\<exists>j < length ps. (ps ! j) off \<noteq> 0xff"
  proof (rule ccontr)
    assume "\<not> ?thesis"
    then have "column off ps = replicate (length ps) 255" by (auto intro!: nth_equalityI simp: column_nth)
    then show False using ok cont_ok_flags [of 255 "length ps" "[]"] by simp
  qed
  then obtain i where w: "walk_while 0xff off ps 0 = Some i" using walk_while_finds [of 0] by blast
  define d where "d = unat ((ps ! i) off)"
  define ys where "ys = drop (Suc i) (column off ps)"
  have c: "column off ps = replicate i 255 @ d # ys" and il: "i < length ps" and d: "d \<noteq> 255"
    using walk_while_column [OF w] by (simp_all add: d_def ys_def)
  have okd: "cont_ok (d # ys)" using ok cont_ok_flags [of 255 i "d # ys"] by (simp add: c)
  have k: "continued_pages K off 0xbe ps = (if d = 127 then if Suc i = length ps then Some (False, ps)
       else Some (True, bump K off (set_map (Suc i) off 0 ps) (Suc i)) else Some (True, bump K off ps i))"
    using K w ne by (simp add: continued_pages_def linux_counts d_def word_unat_eq_iff)
  consider "d = 127" "Suc i = length ps" | "d = 127" "Suc i < length ps" | "d \<noteq> 127" using il by linarith
  then show ?thesis
  proof cases
    case 1
    then have "ys = []" by (simp add: ys_def)
    then show ?thesis using k c 1 by auto
  next
    case 2
    let ?ps = "set_map (Suc i) off 0 ps"
    obtain e zs where y: "ys = e # zs" using 2 by (cases ys) (auto simp: ys_def)
    have c': "column off ?ps = (replicate i 255 @ [127]) @ 0 # zs"
      using 2 c y by (simp add: column_set_map list_update_append)
    have e0: "unat ((?ps ! Suc i) off) = 0" using 2 by (simp add: set_map_def)
    have b: "column off (bump K off ?ps (Suc i)) = replicate (Suc i) 128 @ 1 # zs"
      using bump_column [OF _ _ _ c', of K] K 2 e0 by (simp add: linux_counts)
    have "cont_val (column off ps) + 1 = 128 ^ i * (127 + 1)"
      using cont_val_full [of i "d # ys"] 2 by (simp add: c)
    then have "cont_val (column off (bump K off ?ps (Suc i))) = cont_val (column off ps) + 1"
      unfolding b by (simp add: cont_val_zeros del: replicate_Suc)
    moreover have "cont_ok (column off (bump K off ?ps (Suc i)))"
      unfolding b by (simp add: cont_ok_flags del: replicate_Suc)
    ultimately show ?thesis using k 2 by (auto simp: bump_other column_set_map)
  next
    case 3
    have b: "column off (bump K off ps i) = replicate i 128 @ (d + 1) # ys"
      using bump_column [OF _ il _ c, of K] K d by (simp add: linux_counts d_def)
    have "d < 256" using okd by simp
    then have m: "(d + 1) mod 128 = d mod 128 + 1" "128 \<le> d + 1 \<longleftrightarrow> 128 \<le> d"
      using d 3 digit_inc [of d] by auto
    have "cont_val ((d + 1) # ys) = cont_val (d # ys) + 1" using m by simp
    then have "cont_val (column off (bump K off ps i)) = cont_val (column off ps) + 1"
      unfolding b c using cont_val_full [of i "d # ys"] by (simp add: cont_val_zeros algebra_simps)
    moreover have "cont_ok (column off (bump K off ps i))"
      unfolding b using okd m(2) d by (auto simp: cont_ok_flags split: if_splits)
    ultimately show ?thesis using k 3 il by (auto simp: bump_other)
  qed
qed

lemma digit_dec:
  assumes "cont_ok (d # ys)" "d \<noteq> 128"
  shows "d - 1 \<noteq> 0 \<Longrightarrow> cont_ok ((d - 1) # ys) \<and> cont_val ((d - 1) # ys) + 1 = cont_val (d # ys)"
    and "d - 1 = 0 \<longleftrightarrow> cont_val (d # ys) = 1"
proof -
  have d: "0 < d" "d < 256" using assms by (auto split: if_splits)
  consider "d < 128" | "128 < d" using assms(2) by linarith
  then have "(d - 1 \<noteq> 0 \<longrightarrow> cont_ok ((d - 1) # ys) \<and> cont_val ((d - 1) # ys) + 1 = cont_val (d # ys)) \<and>
      (d - 1 = 0 \<longleftrightarrow> cont_val (d # ys) = 1)"
  proof cases
    case 2
    then have "0 < cont_val ys" using assms(1) cont_val_pos by simp
    moreover have "d mod 128 = (d - 1) mod 128 + 1" using digit_inc [of "d - 1"] d 2 by simp
    ultimately show ?thesis using assms(1) d 2 by auto
  qed (use d in auto)
  then show "d - 1 \<noteq> 0 \<Longrightarrow> cont_ok ((d - 1) # ys) \<and> cont_val ((d - 1) # ys) + 1 = cont_val (d # ys)"
    and "d - 1 = 0 \<longleftrightarrow> cont_val (d # ys) = 1" by blast+
qed

lemma continued_dec:
  assumes K: "linux_swap_h K" and ok: "cont_ok (column off ps)"
  shows "\<exists>ps'. continued_pages K off 0x80 ps = Some (cont_val (column off ps) \<noteq> 1, ps') \<and> length ps' = length ps \<and>
    (cont_val (column off ps) \<noteq> 1 \<longrightarrow> cont_ok (column off ps') \<and> cont_val (column off ps') + 1 = cont_val (column off ps)) \<and>
    (\<forall>off'. off' \<noteq> off \<longrightarrow> column off' ps' = column off' ps)"
proof -
  have ne: "ps \<noteq> []" using ok by (auto simp: column_def)
  have stop: "\<exists>j < length ps. (ps ! j) off \<noteq> 0x80"
  proof (rule ccontr)
    assume "\<not> ?thesis"
    then have "column off ps = replicate (length ps) 128" by (auto intro!: nth_equalityI simp: column_nth)
    then show False using ok cont_ok_flags [of 128 "length ps" "[]"] by simp
  qed
  then obtain i where w: "walk_while 0x80 off ps 0 = Some i" using walk_while_finds [of 0] by blast
  define d where "d = unat ((ps ! i) off)"
  define ys where "ys = drop (Suc i) (column off ps)"
  have c: "column off ps = replicate i 128 @ d # ys" and il: "i < length ps" and d: "d \<noteq> 128"
    using walk_while_column [OF w] by (simp_all add: d_def ys_def)
  have okd: "cont_ok (d # ys)" using ok cont_ok_flags [of 128 i "d # ys"] by (simp add: c)
  then have d0: "(ps ! i) off \<noteq> 0" by (auto simp: d_def unat_eq_0 split: if_splits)
  define ps1 where "ps1 = set_map i off ((ps ! i) off - 1) ps"
  define count where "count = (if d - 1 = 0 then 0 else 0x80 :: byte)"
  have v: "unat ((ps1 ! i) off) = d - 1" using il d0 by (simp add: ps1_def set_map_def d_def unat_dec)
  have c1: "column off ps1 = replicate i 128 @ (d - 1) # ys"
    using il d0 by (simp add: ps1_def column_set_map c unat_dec list_update_append flip: d_def)
  have o1: "off' \<noteq> off \<Longrightarrow> column off' ps1 = column off' ps" for off' using il by (simp add: ps1_def column_set_map)
  have l1: "length ps1 = length ps" by (simp add: ps1_def)
  have z: "(ps1 ! i) off = 0 \<longleftrightarrow> d - 1 = 0" using v by (metis unat_eq_0)
  have k: "continued_pages K off 0x80 ps = Some (fst (borrow_back K off count ps1 i) = 0x80, snd (borrow_back K off count ps1 i))"
    using K w ne d0 by (simp add: continued_pages_def linux_counts Let_def z count_def flip: ps1_def split: prod.split)
  have other: "off' \<noteq> off \<Longrightarrow> column off' (snd (borrow_back K off count ps1 i)) = column off' ps" for off'
    using borrow_back_other [of i ps1 off' off K count] il l1 o1 by simp
  have len: "length (snd (borrow_back K off count ps1 i)) = length ps" using l1 by simp
  note dd = digit_dec [OF okd d]
  show ?thesis
  proof (cases i)
    case 0
    have "cont_val (column off ps) = cont_val (d # ys)" "column off ps1 = (d - 1) # ys" using c c1 0 by simp_all
    then show ?thesis using k dd other len l1 0 K by (auto simp: count_def borrow_back_count linux_counts)
  next
    case (Suc j)
    have cv: "cont_val (column off ps) = 128 ^ i * cont_val (d # ys)" by (simp add: c cont_val_zeros del: cont_val.simps)
    then have n1: "cont_val (column off ps) \<noteq> 1" using Suc by simp
    have b: "column off (snd (borrow_back K off count ps1 i)) = replicate j 255 @ unat (0x7f OR count) # (d - 1) # ys"
      using borrow_back_column [of j ps1 off K count] il l1 c1 K Suc by (simp add: linux_counts)
    have "cont_ok (replicate j 255 @ unat (0x7f OR count) # (d - 1) # ys) \<and>
        cont_val (replicate j 255 @ unat (0x7f OR count) # (d - 1) # ys) + 1 = 128 ^ i * cont_val (d # ys)"
    proof (cases "d - 1 = 0")
      case True
      then have "cont_val (d # ys) = 1" using dd(2) by simp
      then show ?thesis using True cont_val_full [of j "127 # 0 # ys"] Suc
        by (simp add: count_def cont_ok_flags del: cont_val.simps(2)) simp
    next
      case False
      have e: "replicate j 255 @ unat (0x7f OR count) # (d - 1) # ys = replicate i 255 @ (d - 1) # ys"
        using False Suc by (simp add: count_def replicate_app_Cons_same)
      show ?thesis unfolding e using dd(1) [OF False] cont_val_full [of i "(d - 1) # ys"]
        by (simp add: cont_ok_flags del: cont_val.simps cont_ok.simps)
    qed
    then show ?thesis using k other len n1 cv b Suc K by (auto simp: borrow_back_count linux_counts)
  qed
qed

section \<open>Room for a carry\<close>

fun has_room :: "nat list \<Rightarrow> bool" where
  "has_room [] \<longleftrightarrow> False"
| "has_room (b # bs) \<longleftrightarrow> b \<noteq> 127 \<and> b \<noteq> 255 \<or> bs \<noteq> [] \<and> (b = 127 \<or> has_room bs)"

lemma no_room_full: "\<not> has_room (replicate i 255 @ [127])"
  by (induction i) simp_all

lemma continued_inc_room:
  assumes "linux_swap_h K" "cont_ok (column off ps)" "has_room (column off ps)"
  shows "\<exists>ps'. continued_pages K off 0xbe ps = Some (True, ps')"
  using continued_inc [OF assms(1,2)] assms(3) no_room_full by metis

text \<open>A page linked at the end gives room, and no proper column notices it.\<close>

lemma linked_room: "cont_ok bs \<Longrightarrow> \<not> has_room bs \<Longrightarrow> has_room (bs @ [g])"
  by (induction bs) (auto split: if_splits)

lemma cont_ok_append: "cont_ok bs \<Longrightarrow> cont_ok (bs @ xs) \<and> cont_val (bs @ xs) = cont_val bs"
  by (induction bs) (auto split: if_splits)

end
