(* ===== verification/Swap_Map.thy ===== *)
theory Swap_Map
  imports Swap_Count
begin

text \<open>
  The reference counts of swap entries (\<open>swapfile.c\<close>, 507-673 and 2213-2430): taking the structure
  of an entry's area, dropping and adding references, the flag of the swap cache, and the checks of
  COMEX, whose entries (types 8 and 9) have no area and no count.
\<close>

section \<open>The code\<close>

text \<open>
  \<open>swap_info_get\<close> returns a pointer into \<open>swap_info\<close>, here the type, with the lock of the area held,
  or null.  For a COMEX entry it returns the pointer of the type without the lock and without a check.
\<close>

definition swap_info_get :: "swap_h \<Rightarrow> entry \<Rightarrow> 'k swaps \<Rightarrow> (int option \<times> 'k swaps) option" where
  "swap_info_get K entry s =
     (if entry = 0 then Some (None, s)
      else do {
        let type = uint (swp_type K entry);
        if type = 8 \<or> type = 9 then do {
          p \<leftarrow> arr_get (swap_info s) type;
          Some (if p = None then None else Some type, s)
        }
        else if nr_swapfiles s \<le> type then Some (None, s)
        else do {
          p \<leftarrow> si_get type s;
          if si_flags p AND SWP_USED K = 0 then Some (None, s)
          else do {
            let offset = uint (swp_offset K entry);
            if si_max p \<le> offset then Some (None, s)
            else do {
              m \<leftarrow> arr_get (swap_map p) offset;
              if m = 0 then Some (None, s)
              else do { s \<leftarrow> spin_lock_si type s; Some (Some type, s) }
            }
          }
        }
      })"

definition set_highest_priority_index :: "int \<Rightarrow> 'k swaps \<Rightarrow> 'k swaps option" where
  "set_highest_priority_index type s = do {
     let old = highest_priority_index s;
     if old \<noteq> -1 then do {
       q \<leftarrow> si_get old s;
       p \<leftarrow> si_get type s;
       Some (if prio p \<le> prio q then s else s\<lparr>highest_priority_index := type\<rparr>)
     } else Some (s\<lparr>highest_priority_index := type\<rparr>)
   }"

text \<open>The count byte after a reference of kind \<open>usage\<close> is dropped.\<close>

definition drop_usage ::
  "swap_h \<Rightarrow> swap_info_struct \<Rightarrow> int \<Rightarrow> byte \<Rightarrow> (byte \<times> byte \<times> swap_info_struct) option" where
  "drop_usage K p offset usage = do {
     m \<leftarrow> arr_get (swap_map p) offset;
     let has_cache = m AND SWAP_HAS_CACHE K;
     let count = m AND NOT (SWAP_HAS_CACHE K);
     if usage = SWAP_HAS_CACHE K then if has_cache = 0 then None else Some (count, 0, p)
     else if count = SWAP_MAP_SHMEM K then Some (0, has_cache, p)
     else if count AND NOT (COUNT_CONTINUED K) \<le> SWAP_MAP_MAX K then
       if count = COUNT_CONTINUED K then do {
         (more, p) \<leftarrow> swap_count_continued K p offset count;
         Some (if more then SWAP_MAP_MAX K OR COUNT_CONTINUED K else SWAP_MAP_MAX K, has_cache, p)
       } else Some (count - 1, has_cache, p)
     else Some (count, has_cache, p)
   }"

text \<open>The slot is free: the bounds of the scan, the counters, and who is told.\<close>

definition slot_freed :: "swap_h \<Rightarrow> 'k kserv \<Rightarrow> int \<Rightarrow> u64 \<Rightarrow> 'k swaps \<Rightarrow> 'k swaps option" where
  "slot_freed K X ty off s = do {
     p \<leftarrow> si_get ty s;
     let offset = uint off;
     let p = p\<lparr>lowest_bit := (if offset < lowest_bit p then offset else lowest_bit p),
               highest_bit := (if highest_bit p < offset then offset else highest_bit p)\<rparr>;
     s \<leftarrow> set_highest_priority_index (si_type p) (si_put ty p s);
     let s = s\<lparr>nr_swap_pages := nr_swap_pages s + 1\<rparr>;
     let p = p\<lparr>inuse_pages := u32 (inuse_pages p - 1)\<rparr>;
     let s = kern_do (frontswap_invalidate_page X (si_type p) off) (si_put ty p s);
     Some (if si_flags p AND SWP_BLKDEV K \<noteq> 0 \<and> slot_notify p
           then kern_do (swap_slot_free_notify X ty off) s else s)
   }"

definition swap_entry_free ::
  "swap_h \<Rightarrow> 'k kserv \<Rightarrow> int \<Rightarrow> entry \<Rightarrow> byte \<Rightarrow> 'k swaps \<Rightarrow> (byte \<times> 'k swaps) option" where
  "swap_entry_free K X ty entry usage s = do {
     let off = swp_offset K entry;
     p \<leftarrow> si_get ty s;
     (count, has_cache, p) \<leftarrow> drop_usage K p (uint off) usage;
     let s = (if count = 0 then kern_do (mem_cgroup_uncharge_swap X entry) s else s);
     let usage = count OR has_cache;
     m \<leftarrow> arr_set (swap_map p) (uint off) usage;
     let s = si_put ty (p\<lparr>swap_map := m\<rparr>) s;
     s \<leftarrow> (if usage = 0 then slot_freed K X ty off s else Some s);
     Some (usage, s)
   }"

definition swap_free :: "swap_h \<Rightarrow> 'k kserv \<Rightarrow> entry \<Rightarrow> 'k swaps \<Rightarrow> 'k swaps option" where
  "swap_free K X entry s = do {
     (p, s) \<leftarrow> swap_info_get K entry s;
     case p of None \<Rightarrow> Some s
     | Some ty \<Rightarrow> do { (_, s) \<leftarrow> swap_entry_free K X ty entry 1 s; spin_unlock_si ty s }
   }"

definition swapcache_free :: "swap_h \<Rightarrow> 'k kserv \<Rightarrow> entry \<Rightarrow> int option \<Rightarrow> 'k swaps \<Rightarrow> 'k swaps option" where
  "swapcache_free K X entry page s = do {
     (p, s) \<leftarrow> swap_info_get K entry s;
     case p of None \<Rightarrow> Some s
     | Some ty \<Rightarrow> do {
         (count, s) \<leftarrow> swap_entry_free K X ty entry (SWAP_HAS_CACHE K) s;
         let s = (case page of None \<Rightarrow> s
                  | Some q \<Rightarrow> kern_do (mem_cgroup_uncharge_swapcache X q entry (count \<noteq> 0)) s);
         spin_unlock_si ty s
       }
   }"

definition page_swapcount :: "swap_h \<Rightarrow> int \<Rightarrow> 'k swaps \<Rightarrow> (int \<times> 'k swaps) option" where
  "page_swapcount K page s = do {
     let entry = page_private (frames s page);
     (p, s) \<leftarrow> swap_info_get K entry s;
     case p of None \<Rightarrow> Some (0, s)
     | Some ty \<Rightarrow> do {
         q \<leftarrow> si_get ty s;
         m \<leftarrow> arr_get (swap_map q) (uint (swp_offset K entry));
         s \<leftarrow> spin_unlock_si ty s;
         Some (uint (swap_count K m), s)
       }
   }"

text \<open>The count byte after a reference of kind \<open>usage\<close> is added, with the error.\<close>

definition add_usage ::
  "swap_h \<Rightarrow> swap_info_struct \<Rightarrow> int \<Rightarrow> byte \<Rightarrow> (int \<times> swap_info_struct) option" where
  "add_usage K p offset usage = do {
     m \<leftarrow> arr_get (swap_map p) offset;
     let has_cache = m AND SWAP_HAS_CACHE K;
     let count = m AND NOT (SWAP_HAS_CACHE K);
     (err, count, has_cache, p) \<leftarrow>
       (if usage = SWAP_HAS_CACHE K then
          if has_cache = 0 \<and> count \<noteq> 0 then Some (0, count, SWAP_HAS_CACHE K, p)
          else if has_cache \<noteq> 0 then Some (- EEXIST, count, has_cache, p)
          else Some (- ENOENT, count, has_cache, p)
        else if count \<noteq> 0 \<or> has_cache \<noteq> 0 then
          if count AND NOT (COUNT_CONTINUED K) < SWAP_MAP_MAX K then Some (0, count + usage, has_cache, p)
          else if SWAP_MAP_MAX K < count AND NOT (COUNT_CONTINUED K) then Some (- EINVAL, count, has_cache, p)
          else do {
            (carried, p) \<leftarrow> swap_count_continued K p offset count;
            if carried then Some (0, COUNT_CONTINUED K, has_cache, p) else Some (- ENOMEM, count, has_cache, p)
          }
        else Some (- ENOENT, count, has_cache, p));
     m \<leftarrow> arr_set (swap_map p) offset (count OR has_cache);
     Some (err, p\<lparr>swap_map := m\<rparr>)
   }"

definition swap_duplicate_usage :: "swap_h \<Rightarrow> entry \<Rightarrow> byte \<Rightarrow> 'k swaps \<Rightarrow> (int \<times> 'k swaps) option" where
  "swap_duplicate_usage K entry usage s =
     (if non_swap_entry K entry then Some (- EINVAL, s)
      else do {
        let type = uint (swp_type K entry);
        if type = 8 \<or> type = 9 then Some (0, s)
        else if nr_swapfiles s \<le> type then Some (- EINVAL, s)
        else do {
          let offset = uint (swp_offset K entry);
          s \<leftarrow> spin_lock_si type s;
          p \<leftarrow> si_get type s;
          if si_max p \<le> offset then do { s \<leftarrow> spin_unlock_si type s; Some (- EINVAL, s) }
          else do {
            (err, p) \<leftarrow> add_usage K p offset usage;
            s \<leftarrow> spin_unlock_si type (si_put type p s);
            Some (err, s)
          }
        }
      })"

definition swap_shmem_alloc :: "swap_h \<Rightarrow> entry \<Rightarrow> 'k swaps \<Rightarrow> 'k swaps option" where
  "swap_shmem_alloc K entry s = do { (_, s) \<leftarrow> swap_duplicate_usage K entry (SWAP_MAP_SHMEM K) s; Some s }"

definition swapcache_prepare :: "swap_h \<Rightarrow> entry \<Rightarrow> 'k swaps \<Rightarrow> (int \<times> 'k swaps) option" where
  "swapcache_prepare K entry s = swap_duplicate_usage K entry (SWAP_HAS_CACHE K) s"

definition add_swap_count_continuation :: "swap_h \<Rightarrow> 'k kserv \<Rightarrow> entry \<Rightarrow> 'k swaps \<Rightarrow> (int \<times> 'k swaps) option" where
  "add_swap_count_continuation K X entry s = do {
     let (page, k) = alloc_page X (kern s);
     let give_back = (\<lambda>s. case page of None \<Rightarrow> s | Some _ \<Rightarrow> kern_do (free_page X) s);
     (g, s) \<leftarrow> swap_info_get K entry (s\<lparr>kern := k\<rparr>);
     case g of None \<Rightarrow> Some (0, give_back s)
     | Some ty \<Rightarrow> do {
         si \<leftarrow> si_get ty s;
         let offset = uint (swp_offset K entry);
         m \<leftarrow> arr_get (swap_map si) offset;
         let count = m AND NOT (SWAP_HAS_CACHE K);
         if count AND NOT (COUNT_CONTINUED K) \<noteq> SWAP_MAP_MAX K then do {
           s \<leftarrow> spin_unlock_si ty s;
           Some (0, give_back s)
         }
         else case page of
           None \<Rightarrow> do { s \<leftarrow> spin_unlock_si ty s; Some (- ENOMEM, s) }
         | Some pg \<Rightarrow> do {
             (linked, si) \<leftarrow> link_continuation K si offset count pg;
             s \<leftarrow> spin_unlock_si ty (si_put ty si s);
             Some (0, if linked then s else give_back s)
           }
       }
   }"

partial_function (option) swap_duplicate :: "swap_h \<Rightarrow> 'k kserv \<Rightarrow> entry \<Rightarrow> 'k swaps \<Rightarrow> (int \<times> 'k swaps) option" where
  "swap_duplicate K X entry s = do {
     (r, s) \<leftarrow> swap_duplicate_usage K entry 1 s;
     if r = - ENOMEM then do {
       (err, s) \<leftarrow> add_swap_count_continuation K X entry s;
       if err = 0 then swap_duplicate K X entry s else Some (err, s)
     } else Some (0, s)
   }"


section \<open>Count bytes\<close>

text \<open>A count byte is a digit of six bits, the flag of the cache and the flag of the continuation.\<close>

definition mkb :: "byte \<Rightarrow> bool \<Rightarrow> bool \<Rightarrow> byte" where
  "mkb l h f = l OR (if h then 0x40 else 0) OR (if f then 0x80 else 0)"

lemma bit_flags [simp]:
  "bit (0x40 :: int) n \<longleftrightarrow> n = 6" "bit (0x80 :: int) n \<longleftrightarrow> n = 7"
  "bit (- 0x41 :: int) n \<longleftrightarrow> n \<noteq> 6" "bit (- 0x81 :: int) n \<longleftrightarrow> n \<noteq> 7"
  using bit_exp_iff [where 'a = int, of 6 n] bit_exp_iff [where 'a = int, of 7 n]
    bit_not_iff [where 'a = int, of "0x40" n] bit_not_iff [where 'a = int, of "0x80" n] by simp_all

lemma low_bits: assumes "l < 0x40" "bit (l :: byte) n" shows "n < 6"
proof -
  have "take_bit 6 l = l" using less_mask_eq [of l 6] assms(1) by (simp add: take_bit_eq_mask)
  then show ?thesis using assms(2) by (metis bit_take_bit_iff)
qed

lemma mkb_bit: "l < 0x40 \<Longrightarrow> bit (mkb l h f) n \<longleftrightarrow> n < 6 \<and> bit l n \<or> n = 6 \<and> h \<or> n = 7 \<and> f"
  using low_bits [of l n] by (auto simp: mkb_def bit_or_iff)

lemma mkb_ex: "\<exists>l h f. l < 0x40 \<and> m = mkb l h f"
proof -
  have "m AND 0x3f \<le> 0x3f" by (metis and.commute word_and_le1)
  then have l: "m AND 0x3f < 0x40" by (rule le_less_trans) simp
  have "m = mkb (m AND 0x3f) (bit m 6) (bit m 7)"
  proof (rule bit_word_eqI)
    fix n assume "n < LENGTH(8)"
    then have "n < 6 \<or> n = 6 \<or> n = 7" by auto
    moreover have "bit (0x3f :: byte) n \<longleftrightarrow> n < 6"
      using bit_mask_iff [where 'a = byte, of 6 n] by (auto simp: mask_eq_exp_minus_1)
    ultimately show "bit m n \<longleftrightarrow> bit (mkb (m AND 0x3f) (bit m 6) (bit m 7)) n"
      unfolding mkb_bit [OF l] by (auto simp: bit_and_iff)
  qed
  then show ?thesis using l by blast
qed

lemma mkb_count: "l < 0x40 \<Longrightarrow> mkb l h f AND NOT 0x40 = mkb l False f"
  by (rule bit_word_eqI) (auto simp: mkb_bit bit_and_iff bit_not_iff)

lemma mkb_cache: "l < 0x40 \<Longrightarrow> mkb l h f AND 0x40 = mkb 0 h False"
  by (rule bit_word_eqI) (auto simp: mkb_bit bit_and_iff)

lemma mkb_cont: "l < 0x40 \<Longrightarrow> mkb l h f AND 0x80 = mkb 0 False f"
  by (rule bit_word_eqI) (auto simp: mkb_bit bit_and_iff)

lemma mkb_digit: "l < 0x40 \<Longrightarrow> mkb l False f AND NOT 0x80 = l"
  by (rule bit_word_eqI) (auto simp: mkb_bit bit_and_iff bit_not_iff dest: low_bits)

lemma mkb_join: "l < 0x40 \<Longrightarrow> mkb l False f OR mkb 0 h False = mkb l h f"
  by (rule bit_word_eqI) (auto simp: mkb_bit bit_or_iff)

lemma mkb_join_cache: "l < 0x40 \<Longrightarrow> mkb l False f OR 0x40 = mkb l True f"
  by (rule bit_word_eqI) (auto simp: mkb_bit bit_or_iff)

lemma mkb_inj:
  assumes "l < 0x40" "l' < 0x40"
  shows "mkb l h f = mkb l' h' f' \<longleftrightarrow> l = l' \<and> h = h' \<and> f = f'"
proof
  assume e: "mkb l h f = mkb l' h' f'"
  have b: "bit (mkb l h f) n \<longleftrightarrow> bit (mkb l' h' f') n" for n by (simp add: e)
  have "l = l'"
  proof (rule bit_word_eqI)
    fix n show "bit l n \<longleftrightarrow> bit l' n"
      using b [of n] assms low_bits [OF assms(1), of n] low_bits [OF assms(2), of n] by (auto simp: mkb_bit)
  qed
  then show "l = l' \<and> h = h' \<and> f = f'" using b [of 6] b [of 7] assms by (simp add: mkb_bit)
qed simp

lemma mkb_numerals:
  "mkb 0 False False = 0" "mkb 0 True False = 0x40" "mkb 0 False True = 0x80" "mkb 0x3e False False = 0x3e"
  "mkb 0x3f False True = 0xbf" "mkb 0x3e False True = 0xbe" "mkb 0 True True = 0xc0"
  by (simp_all add: mkb_def)

lemma mkb_eq:
  assumes "l < 0x40"
  shows "mkb l h f = 0 \<longleftrightarrow> l = 0 \<and> \<not> h \<and> \<not> f" "mkb l h f = 0x80 \<longleftrightarrow> l = 0 \<and> \<not> h \<and> f"
    "mkb l h f = 0xbf \<longleftrightarrow> l = 0x3f \<and> \<not> h \<and> f" "mkb l h f = 0x40 \<longleftrightarrow> l = 0 \<and> h \<and> \<not> f"
  using mkb_inj [OF assms, of 0 h f False False] mkb_inj [OF assms, of 0 h f False True]
    mkb_inj [OF assms, of "0x3f" h f False True] mkb_inj [OF assms, of 0 h f True False]
  unfolding mkb_numerals by simp_all

lemma mkb_sum: assumes "l < 0x40" shows "mkb l False f = l + (if f then 0x80 else 0)"
proof -
  have "l AND 0x80 = 0" by (rule bit_word_eqI) (use low_bits [OF assms, of 7] in \<open>auto simp: bit_and_iff\<close>)
  then have "l OR 0x80 = l + 0x80" by (simp add: disjunctive_add_eq_or)
  then show ?thesis by (simp add: mkb_def)
qed

end
