(* ===== verification/Swap_Slots.thy ===== *)
theory Swap_Slots
  imports Swap_Map
begin

text \<open>
  Swap slots as reference counts.  A slot stands for a number of references and a flag for the swap
  cache; the operations on the count bytes and the continuation pages are shown to be the operations
  on that pair, for the slot they name, and to leave every other slot as it was.
\<close>

section \<open>The abstract slot\<close>

definition slot_head :: "swap_info_struct \<Rightarrow> int \<Rightarrow> map_page" where
  "slot_head si off = map_pages si ! nat (off div PAGE_SIZE)"

definition slot_conts :: "swap_info_struct \<Rightarrow> int \<Rightarrow> nat list" where
  "slot_conts si off = column (off mod PAGE_SIZE) (lru (slot_head si off))"

definition slot_byte :: "swap_info_struct \<Rightarrow> int \<Rightarrow> byte" where
  "slot_byte si off = swap_map si ! nat off"

definition refs_of :: "byte \<Rightarrow> nat list \<Rightarrow> nat" where
  "refs_of m cs = unat (m AND 0x3f) + (if m AND 0x80 = 0 then 0 else 63 * cont_val cs)"

definition slot_refs :: "swap_info_struct \<Rightarrow> int \<Rightarrow> nat" where
  "slot_refs si off = refs_of (slot_byte si off) (slot_conts si off)"

definition slot_cached :: "swap_info_struct \<Rightarrow> int \<Rightarrow> bool" where
  "slot_cached si off \<longleftrightarrow> slot_byte si off AND 0x40 \<noteq> 0"

text \<open>A slot in use by pages (63 marks the slots of shared memory and the bad ones).\<close>

definition slot_ok :: "swap_info_struct \<Rightarrow> int \<Rightarrow> bool" where
  "slot_ok si off \<longleftrightarrow> slot_byte si off AND 0x3f \<le> 62 \<and>
     (slot_byte si off AND 0x80 \<noteq> 0 \<longrightarrow> head_private (slot_head si off) = 32 \<and> cont_ok (slot_conts si off))"

definition area_wf :: "swap_info_struct \<Rightarrow> bool" where
  "area_wf si \<longleftrightarrow> int (length (swap_map si)) = si_max si \<and>
     int (length (map_pages si)) = (si_max si + PAGE_SIZE - 1) div PAGE_SIZE \<and>
     (\<forall>h \<in> set (map_pages si). head_private h = 0 \<or> head_private h = 32 \<and> lru h \<noteq> [])"

text \<open>Nothing but the slot at \<open>off\<close> changes, as far as the other slots can tell.\<close>

definition others_kept :: "int \<Rightarrow> swap_info_struct \<Rightarrow> swap_info_struct \<Rightarrow> bool" where
  "others_kept off p q \<longleftrightarrow>
     (\<forall>o'. o' \<noteq> off \<longrightarrow> 0 \<le> o' \<longrightarrow> o' < si_max p \<longrightarrow> slot_byte q o' = slot_byte p o' \<and>
       (slot_ok p o' \<longrightarrow> slot_ok q o' \<and> slot_refs q o' = slot_refs p o'))"

definition same_area :: "swap_info_struct \<Rightarrow> swap_info_struct \<Rightarrow> bool" where
  "same_area p q \<longleftrightarrow> (\<exists>m hs f. f \<in> {si_flags p, si_flags p OR 32} \<and> q = p\<lparr>swap_map := m, map_pages := hs, si_flags := f\<rparr>)"

lemma page_in_area:
  assumes "area_wf si" "0 \<le> off" "off < si_max si"
  shows "0 \<le> off div PAGE_SIZE" "off div PAGE_SIZE < int (length (map_pages si))"
    "slot_head si off \<in> set (map_pages si)" "off < int (length (swap_map si))"
proof -
  have "(off + 1 * 4096) div 4096 \<le> (si_max si + 4095) div 4096" using assms(3) by (intro zdiv_mono1) simp_all
  then have "off div 4096 < (si_max si + 4095) div 4096" by simp
  then show 1: "0 \<le> off div PAGE_SIZE" "off div PAGE_SIZE < int (length (map_pages si))"
    using assms by (simp_all add: area_wf_def PAGE_SIZE_def add.commute)
  then show "slot_head si off \<in> set (map_pages si)" by (simp add: slot_head_def nat_less_iff)
  show "off < int (length (swap_map si))" using assms by (simp add: area_wf_def)
qed

lemma same_page_other_column:
  "off \<noteq> o' \<Longrightarrow> off div PAGE_SIZE = o' div PAGE_SIZE \<Longrightarrow> off mod PAGE_SIZE \<noteq> o' mod PAGE_SIZE"
  by (metis div_mult_mod_eq)

lemma mkb_parts:
  assumes "l < 0x40"
  shows "mkb l h f AND 0x3f = l" "mkb l h f AND 0x40 = 0 \<longleftrightarrow> \<not> h" "mkb l h f AND 0x80 = 0 \<longleftrightarrow> \<not> f"
proof -
  show "mkb l h f AND 0x3f = l"
  proof (rule bit_word_eqI)
    fix n assume "n < LENGTH(8)"
    moreover have "bit (0x3f :: byte) n \<longleftrightarrow> n < 6" using bit_mask_iff [where 'a = byte, of 6 n] by (auto simp: mask_eq_exp_minus_1)
    ultimately show "bit (mkb l h f AND 0x3f) n \<longleftrightarrow> bit l n"
      unfolding bit_and_iff mkb_bit [OF assms] using low_bits [OF assms, of n] by (cases "n < 6") auto
  qed
  show "mkb l h f AND 0x40 = 0 \<longleftrightarrow> \<not> h" "mkb l h f AND 0x80 = 0 \<longleftrightarrow> \<not> f"
    unfolding mkb_cache [OF assms] mkb_cont [OF assms] by (simp_all add: mkb_eq)
qed

lemma slot_mkb:
  assumes ok: "slot_ok si off"
  obtains l h f where "l < 0x3f" "slot_byte si off = mkb l h f" "slot_cached si off = h"
    "slot_refs si off = unat l + (if f then 63 * cont_val (slot_conts si off) else 0)"
    "f \<Longrightarrow> head_private (slot_head si off) = 32 \<and> cont_ok (slot_conts si off)"
proof -
  obtain l h f where m: "l < 0x40" "slot_byte si off = mkb l h f" using mkb_ex by blast
  note p = mkb_parts [OF m(1), of h f]
  have "l \<le> 62" using ok unfolding slot_ok_def m(2) p by simp
  then have "l < 0x3f" by (simp add: word_le_nat_alt word_less_nat_alt)
  moreover have "slot_cached si off = h" unfolding slot_cached_def m(2) p by simp
  moreover have "slot_refs si off = unat l + (if f then 63 * cont_val (slot_conts si off) else 0)"
    unfolding slot_refs_def refs_of_def m(2) p by simp
  moreover have "f \<Longrightarrow> head_private (slot_head si off) = 32 \<and> cont_ok (slot_conts si off)"
    using ok unfolding slot_ok_def m(2) p by simp
  ultimately show thesis using m(2) that by blast
qed

text \<open>The other way round: what a count byte put into the slot makes of it.\<close>

lemma slot_of_mkb:
  assumes m: "slot_byte si off = mkb l h f" and l: "l < 0x3f"
    and f: "f \<Longrightarrow> head_private (slot_head si off) = 32 \<and> cont_ok (slot_conts si off)"
  shows "slot_ok si off" "slot_cached si off = h"
    "slot_refs si off = unat l + (if f then 63 * cont_val (slot_conts si off) else 0)"
proof -
  have "l < 0x40" using l by (simp add: word_less_nat_alt)
  note p = mkb_parts [OF this, of h f]
  have "l \<le> 62" using l by (simp add: word_le_nat_alt word_less_nat_alt)
  then show "slot_ok si off" using f unfolding slot_ok_def m p by simp
  show "slot_cached si off = h" unfolding slot_cached_def m p by simp
  show "slot_refs si off = unat l + (if f then 63 * cont_val (slot_conts si off) else 0)"
    unfolding slot_refs_def refs_of_def m p by simp
qed

section \<open>One slot changed\<close>

lemma slot_ok_cong:
  assumes "slot_byte q o' = slot_byte p o'"
    and "slot_ok p o' \<Longrightarrow> slot_byte p o' AND 0x80 \<noteq> 0 \<Longrightarrow>
      head_private (slot_head q o') = 32 \<and> cont_ok (slot_conts q o') \<and> cont_val (slot_conts q o') = cont_val (slot_conts p o')"
  shows "slot_ok p o' \<longrightarrow> slot_ok q o' \<and> slot_refs q o' = slot_refs p o'"
  using assms by (auto simp: slot_ok_def slot_refs_def refs_of_def)

text \<open>A count byte and the column of its continuation are written; the other columns stay.\<close>

lemma slot_update:
  assumes wf: "area_wf p" and off: "0 \<le> off" "off < si_max p"
    and len: "length ps = length (lru (slot_head p off))"
    and cols: "\<forall>o'. o' \<noteq> off mod PAGE_SIZE \<longrightarrow> column o' ps = column o' (lru (slot_head p off))"
    and q: "q = p\<lparr>map_pages := (map_pages p)[nat (off div PAGE_SIZE) := (slot_head p off)\<lparr>lru := ps\<rparr>],
                 swap_map := (swap_map p)[nat off := v]\<rparr>"
  shows "area_wf q" "others_kept off p q" "same_area p q" "slot_byte q off = v"
    "slot_conts q off = column (off mod PAGE_SIZE) ps" "head_private (slot_head q off) = head_private (slot_head p off)"
proof -
  note in_p = page_in_area [OF wf off]
  have h: "slot_head p off \<in> set (map_pages p)" by (rule in_p)
  have "head_private (slot_head p off) = 0 \<or> head_private (slot_head p off) = 32 \<and> ps \<noteq> []"
    using wf h len by (auto simp: area_wf_def)
  then show "area_wf q" using wf by (auto simp: q area_wf_def dest!: set_update_subset_insert [THEN subsetD])
  have "q = p\<lparr>swap_map := swap_map q, map_pages := map_pages q, si_flags := si_flags p\<rparr>" unfolding q by (cases p) simp
  then show "same_area p q" unfolding same_area_def by blast
  show b: "slot_byte q off = v" using in_p off by (simp add: slot_byte_def q nat_less_iff)
  have hd: "slot_head q o' = (if o' div PAGE_SIZE = off div PAGE_SIZE then (slot_head p off)\<lparr>lru := ps\<rparr> else slot_head p o')"
    if "0 \<le> o'" for o'
  proof -
    have "0 \<le> o' div PAGE_SIZE" using that by (simp add: PAGE_SIZE_def)
    then show ?thesis using in_p by (auto simp: slot_head_def q nth_list_update nat_less_iff eq_nat_nat_iff)
  qed
  show "slot_conts q off = column (off mod PAGE_SIZE) ps" "head_private (slot_head q off) = head_private (slot_head p off)"
    using hd [OF off(1)] by (simp_all add: slot_conts_def)
  have "slot_byte q o' = slot_byte p o' \<and> (slot_ok p o' \<longrightarrow> slot_ok q o' \<and> slot_refs q o' = slot_refs p o')"
    if o': "o' \<noteq> off" "0 \<le> o'" for o'
  proof -
    have e: "slot_byte q o' = slot_byte p o'" using o' off by (simp add: slot_byte_def q nth_list_update eq_nat_nat_iff)
    have "slot_conts q o' = slot_conts p o' \<and> head_private (slot_head q o') = head_private (slot_head p o')"
    proof (cases "o' div PAGE_SIZE = off div PAGE_SIZE")
      case True
      then have "o' mod PAGE_SIZE \<noteq> off mod PAGE_SIZE" "slot_head p o' = slot_head p off"
        using same_page_other_column o'(1) by (auto simp: slot_head_def)
      then show ?thesis using cols hd [OF o'(2)] True by (simp add: slot_conts_def)
    next
      case False
      then show ?thesis using hd [OF o'(2)] by (simp add: slot_conts_def)
    qed
    then show ?thesis using e slot_ok_cong [of q o' p] by (auto simp: slot_ok_def)
  qed
  then show "others_kept off p q" unfolding others_kept_def by blast
qed

lemma slot_update_byte:
  assumes "area_wf p" "0 \<le> off" "off < si_max p" "q = p\<lparr>swap_map := (swap_map p)[nat off := v]\<rparr>"
  shows "area_wf q" "others_kept off p q" "same_area p q" "slot_byte q off = v"
    "slot_conts q off = slot_conts p off" "head_private (slot_head q off) = head_private (slot_head p off)"
proof -
  have "(map_pages p)[nat (off div PAGE_SIZE) := slot_head p off] = map_pages p"
    by (simp add: slot_head_def)
  then have "q = p\<lparr>map_pages := (map_pages p)[nat (off div PAGE_SIZE) := (slot_head p off)\<lparr>lru := lru (slot_head p off)\<rparr>],
                 swap_map := (swap_map p)[nat off := v]\<rparr>" using assms(4) by simp
  note u = slot_update [OF assms(1-3) refl _ this]
  show "area_wf q" "others_kept off p q" "same_area p q" "slot_byte q off = v"
    "slot_conts q off = slot_conts p off" "head_private (slot_head q off) = head_private (slot_head p off)"
    using u by (simp_all add: slot_conts_def)
qed

section \<open>References are added and dropped one by one\<close>

lemmas mkb_ands = mkb_count mkb_cache mkb_digit mkb_count [simplified] mkb_digit [simplified]

text \<open>What an operation that changes the slot at \<open>off\<close> of the area leaves.\<close>

definition slot_step :: "int \<Rightarrow> swap_info_struct \<Rightarrow> nat \<Rightarrow> bool \<Rightarrow> swap_info_struct \<Rightarrow> bool" where
  "slot_step off p n h q \<longleftrightarrow> area_wf q \<and> others_kept off p q \<and> same_area p q \<and>
     slot_ok q off \<and> slot_refs q off = n \<and> slot_cached q off = h"

lemma slot_stepI:
  assumes "area_wf q" "others_kept off p q" "same_area p q" "slot_byte q off = mkb l h f" "l < 0x3f"
    "f \<Longrightarrow> head_private (slot_head q off) = 32 \<and> cont_ok (slot_conts q off)"
    "n = unat l + (if f then 63 * cont_val (slot_conts q off) else 0)"
  shows "slot_step off p n h q"
  using slot_of_mkb [OF assms(4-6)] assms(1-3,7) unfolding slot_step_def by simp

lemma slot_step_byte:
  assumes wf: "area_wf p" "0 \<le> off" "off < si_max p" and q: "q = p\<lparr>swap_map := (swap_map p)[nat off := mkb l h f]\<rparr>"
    and l: "l < 0x3f" and f: "f \<Longrightarrow> head_private (slot_head p off) = 32 \<and> cont_ok (slot_conts p off)"
    and n: "n = unat l + (if f then 63 * cont_val (slot_conts p off) else 0)"
  shows "slot_step off p n h q"
proof -
  note u = slot_update_byte [OF wf q]
  show ?thesis by (rule slot_stepI [OF u(1-4) l]) (use f n in \<open>simp_all add: u(5,6)\<close>)
qed

lemma low_le: "l < 0x3f \<Longrightarrow> l < (0x40 :: byte)"
  by (simp add: word_less_nat_alt)

text \<open>The carry and the borrow of a count byte into the column of its slot.\<close>

lemma carried_into:
  assumes K: "linux_swap_h K" and wf: "area_wf p" and off: "0 \<le> off" "off < si_max p"
    and m: "slot_byte p off = mkb 0x3e h f" and ok: "slot_ok p off"
  shows "swap_count_continued K p off (mkb 0x3e False f) = Some (False, p) \<or>
    (\<exists>p'. swap_count_continued K p off (mkb 0x3e False f) = Some (True, p') \<and>
      slot_step off p (slot_refs p off + 1) h (p'\<lparr>swap_map := (swap_map p')[nat off := mkb 0 h True]\<rparr>) \<and>
      swap_map p' = swap_map p)"
proof -
  note in_p = page_in_area [OF wf off]
  let ?h = "slot_head p off" let ?o = "off mod PAGE_SIZE" let ?i = "nat (off div PAGE_SIZE)"
  have get: "arr_get (map_pages p) (off div PAGE_SIZE) = Some ?h" using in_p by (simp add: arr_get_in slot_head_def)
  obtain l h' f' where s: "l < 0x3f" "slot_byte p off = mkb l h' f'"
      "slot_refs p off = unat l + (if f' then 63 * cont_val (slot_conts p off) else 0)"
      "f' \<Longrightarrow> head_private ?h = 32 \<and> cont_ok (slot_conts p off)" using slot_mkb [OF ok] by metis
  have eq: "l = 0x3e" "h' = h" "f' = f" using mkb_inj [OF low_le [OF s(1)], of "0x3e" h' f' h f] s(2) m by auto
  have cont: "mkb 0x3e False f AND 0x80 = 0 \<longleftrightarrow> \<not> f" by (simp add: mkb_parts)
  have u: "unat (0x3e :: byte) = 62" by simp
  have r: "slot_refs p off + 1 = 63 * (if f then cont_val (slot_conts p off) + 1 else 1)"
    unfolding s(3) eq u by simp
  have fin: "slot_step off p (slot_refs p off + 1) h (q\<lparr>swap_map := (swap_map q)[nat off := mkb 0 h True]\<rparr>)"
    if ps: "length ps = length (lru ?h)" "cont_ok (column ?o ps)" "head_private ?h = 32"
      "cont_val (column ?o ps) = (if f then cont_val (slot_conts p off) + 1 else 1)"
      "\<forall>o'. o' \<noteq> ?o \<longrightarrow> column o' ps = column o' (lru ?h)"
      and q: "q = p\<lparr>map_pages := (map_pages p)[?i := ?h\<lparr>lru := ps\<rparr>]\<rparr>" for ps q
  proof -
    have "q\<lparr>swap_map := (swap_map q)[nat off := mkb 0 h True]\<rparr> =
        p\<lparr>map_pages := (map_pages p)[?i := ?h\<lparr>lru := ps\<rparr>], swap_map := (swap_map p)[nat off := mkb 0 h True]\<rparr>"
      unfolding q by (cases p) simp
    note u = slot_update [OF wf off ps(1,5) this]
    show ?thesis
      by (rule slot_stepI [OF u(1-4)]) (use r in \<open>simp_all add: u(5,6) ps split: if_splits\<close>)
  qed
  show ?thesis
  proof (cases "head_private ?h = 32")
    case False
    then have "\<not> f" using s(4) eq by auto
    then show ?thesis using False K get cont
      by (simp add: swap_count_continued_def linux_swap_h_def)
  next
    case True
    have ne: "lru ?h \<noteq> []" using wf in_p(3) True by (auto simp: area_wf_def)
    have step: "swap_count_continued K p off (mkb 0x3e False f) =
       do { (r, ps) \<leftarrow> continued_pages K ?o (mkb 0x3e False f) (lru ?h);
            Some (r, p\<lparr>map_pages := (map_pages p)[?i := ?h\<lparr>lru := ps\<rparr>]\<rparr>) }"
      using K get in_p True by (simp add: swap_count_continued_def linux_swap_h_def arr_set_in)
    have same: "p\<lparr>map_pages := (map_pages p)[?i := ?h\<lparr>lru := lru ?h\<rparr>]\<rparr> = p"
      by (simp add: slot_head_def)
    show ?thesis
    proof (cases f)
      case False
      then obtain ps where "continued_pages K ?o 0x3e (lru ?h) = Some (True, ps)" "length ps = length (lru ?h)"
          "cont_ok (column ?o ps)" "cont_val (column ?o ps) = 1" "\<forall>o'. o' \<noteq> ?o \<longrightarrow> column o' ps = column o' (lru ?h)"
        using continued_first [OF K ne] by blast
      then show ?thesis using step fin [of ps] False True by (auto simp: mkb_numerals)
    next
      case f: True
      have "continued_pages K ?o 0xbe (lru ?h) = Some (False, lru ?h) \<or>
          (\<exists>ps. continued_pages K ?o 0xbe (lru ?h) = Some (True, ps) \<and> length ps = length (lru ?h) \<and>
            cont_ok (column ?o ps) \<and> cont_val (column ?o ps) = cont_val (slot_conts p off) + 1 \<and>
            (\<forall>o'. o' \<noteq> ?o \<longrightarrow> column o' ps = column o' (lru ?h)))"
        using continued_inc [OF K, of ?o "lru ?h"] s(4) eq f unfolding slot_conts_def by blast
      then show ?thesis using step fin f True same by (fastforce simp: mkb_numerals)
    qed
  qed
qed

lemma borrowed_from:
  assumes K: "linux_swap_h K" and wf: "area_wf p" and off: "0 \<le> off" "off < si_max p"
    and m: "slot_byte p off = mkb 0 h True" and ok: "slot_ok p off"
  shows "\<exists>more p'. swap_count_continued K p off 0x80 = Some (more, p') \<and> swap_map p' = swap_map p \<and>
      slot_step off p (slot_refs p off - 1) h (p'\<lparr>swap_map := (swap_map p')[nat off := mkb 0x3e h more]\<rparr>)"
proof -
  note in_p = page_in_area [OF wf off]
  let ?h = "slot_head p off" let ?o = "off mod PAGE_SIZE" let ?i = "nat (off div PAGE_SIZE)"
  have get: "arr_get (map_pages p) (off div PAGE_SIZE) = Some ?h" using in_p by (simp add: arr_get_in slot_head_def)
  have z: "(0 :: byte) < 0x3f" by simp
  obtain l h' f' where s: "l < 0x3f" "slot_byte p off = mkb l h' f'"
      "slot_refs p off = unat l + (if f' then 63 * cont_val (slot_conts p off) else 0)"
      "f' \<Longrightarrow> head_private ?h = 32 \<and> cont_ok (slot_conts p off)" using slot_mkb [OF ok] by metis
  have eq: "l = 0" "h' = h" f' using mkb_inj [OF low_le [OF s(1)] low_le [OF z], of h' f' h True] s(2) m by auto
  have cv: "cont_ok (slot_conts p off)" "0 < cont_val (slot_conts p off)" using s(4) eq(3) cont_val_pos by auto
  have u: "unat (0x3e :: byte) = 62" by simp
  have r: "slot_refs p off = 63 * cont_val (slot_conts p off)" unfolding s(3) using eq by simp
  obtain ps where ps: "continued_pages K ?o 0x80 (lru ?h) = Some (cont_val (slot_conts p off) \<noteq> 1, ps)"
      "length ps = length (lru ?h)" "cont_val (slot_conts p off) \<noteq> 1 \<Longrightarrow> cont_ok (column ?o ps) \<and>
        cont_val (column ?o ps) + 1 = cont_val (slot_conts p off)" "\<forall>o'. o' \<noteq> ?o \<longrightarrow> column o' ps = column o' (lru ?h)"
    using continued_dec [OF K, of ?o "lru ?h"] cv(1) unfolding slot_conts_def by blast
  define q where "q = p\<lparr>map_pages := (map_pages p)[?i := ?h\<lparr>lru := ps\<rparr>]\<rparr>"
  have step: "swap_count_continued K p off 0x80 = Some (cont_val (slot_conts p off) \<noteq> 1, q)"
    using K get in_p s(4) [OF eq(3)] ps(1) by (simp add: swap_count_continued_def linux_swap_h_def arr_set_in q_def)
  let ?m = "cont_val (slot_conts p off) \<noteq> 1"
  define q2 where "q2 = q\<lparr>swap_map := (swap_map q)[nat off := mkb 0x3e h ?m]\<rparr>"
  have "q2 =
      p\<lparr>map_pages := (map_pages p)[?i := ?h\<lparr>lru := ps\<rparr>], swap_map := (swap_map p)[nat off := mkb 0x3e h ?m]\<rparr>"
    unfolding q2_def q_def by (cases p) simp
  note u2 = slot_update [OF wf off ps(2,4) this]
  have val: "slot_refs p off - 1 = 62 + (if ?m then 63 * cont_val (column ?o ps) else 0)"
    using r cv(2) ps(3) by (cases ?m) auto
  have "slot_step off p (slot_refs p off - 1) h q2"
    by (rule slot_stepI [OF u2(1-4)]) (use val s(4) eq(3) ps(3) in \<open>simp_all add: u2(5,6) u\<close>)
  moreover have "swap_map q = swap_map p" by (simp add: q_def)
  ultimately show ?thesis using step unfolding q2_def by blast
qed

lemma byte_inc: "l < 0x3e \<Longrightarrow> unat (l + 1 :: byte) = unat l + 1" "l < 0x3e \<Longrightarrow> l + 1 < (0x3f :: byte)"
  using unat_inc [of l] by (simp_all add: word_less_nat_alt)

lemma byte_dec: "0 < l \<Longrightarrow> unat (l - 1 :: byte) = unat l - 1" "0 < l \<Longrightarrow> l < 0x3f \<Longrightarrow> l - 1 < (0x3f :: byte)"
  using unat_dec [of l] by (auto simp: word_less_nat_alt unat_gt_0)

lemma add_usage_refs:
  assumes K: "linux_swap_h K" and wf: "area_wf p" and off: "0 \<le> off" "off < si_max p" and ok: "slot_ok p off"
    and used: "0 < slot_refs p off \<or> slot_cached p off"
  shows "add_usage K p off 1 = Some (- ENOMEM, p) \<and> (\<exists>h f. slot_byte p off = mkb 0x3e h f \<and>
      swap_count_continued K p off (mkb 0x3e False f) = Some (False, p)) \<or>
    (\<exists>q. add_usage K p off 1 = Some (0, q) \<and> slot_step off p (slot_refs p off + 1) (slot_cached p off) q)"
proof -
  note in_p = page_in_area [OF wf off]
  obtain l h f where s: "l < 0x3f" "slot_byte p off = mkb l h f" "slot_cached p off = h"
      "slot_refs p off = unat l + (if f then 63 * cont_val (slot_conts p off) else 0)"
      "f \<Longrightarrow> head_private (slot_head p off) = 32 \<and> cont_ok (slot_conts p off)" using slot_mkb [OF ok] by metis
  have l6: "l < 0x40" using s(1) by (rule low_le)
  have get: "arr_get (swap_map p) off = Some (mkb l h f)" using in_p off s(2) by (simp add: arr_get_in slot_byte_def)
  have set: "arr_set (swap_map p') off v = Some ((swap_map p')[nat off := v])" if "swap_map p' = swap_map p" for p' v
    using that in_p(4) off by (simp add: arr_set_in)
  have nz: "mkb l False f \<noteq> 0 \<or> mkb 0 h False \<noteq> 0"
    using used s(3,4) mkb_eq(1) [OF l6, of False f] mkb_eq(1) [of 0 h False] by (auto split: if_splits)
  have same: "p\<lparr>swap_map := (swap_map p)[nat off := mkb l h f]\<rparr> = p"
    using s(2) by (simp flip: s(2) add: slot_byte_def)
  show ?thesis
  proof (cases "l = 0x3e")
    case False
    then have l: "l < 0x3e" using s(1) by (simp add: word_less_nat_alt word_unat_eq_iff)
    let ?q = "p\<lparr>swap_map := (swap_map p)[nat off := mkb (l + 1) h f]\<rparr>"
    have l1: "l + 1 < 0x40" using byte_inc(2) [OF l] by (rule low_le)
    have "mkb l False f + 1 = mkb (l + 1) False f" by (simp add: mkb_sum [OF l6] mkb_sum [OF l1])
    then have "add_usage K p off 1 = Some (0, ?q)"
      using K nz get l l6 l1 by (simp add: add_usage_def Let_def linux_counts mkb_ands set mkb_join)
    moreover have "slot_step off p (slot_refs p off + 1) h ?q"
      by (rule slot_step_byte [OF wf off refl]) (use s(4,5) byte_inc [OF l] in simp_all)
    ultimately show ?thesis using s(3) by blast
  next
    case True
    have m: "slot_byte p off = mkb 0x3e h f" using s(2) True by simp
    have j: "0x80 OR mkb 0 h False = mkb 0 h True" using mkb_join [of 0 True h] by (simp add: mkb_numerals)
    have nl: "\<not> (0x3e :: byte) < 0x3e" by simp
    from carried_into [OF K wf off m ok] show ?thesis
    proof (elim disjE exE conjE)
      assume c: "swap_count_continued K p off (mkb 0x3e False f) = Some (False, p)"
      have "add_usage K p off 1 = Some (- ENOMEM, p)"
        using K nz get True l6 c same set [OF refl]
        by (simp add: add_usage_def Let_def linux_counts mkb_ands mkb_join)
      then show ?thesis using m c by blast
    next
      fix p' assume c: "swap_count_continued K p off (mkb 0x3e False f) = Some (True, p')"
        "slot_step off p (slot_refs p off + 1) h (p'\<lparr>swap_map := (swap_map p')[nat off := mkb 0 h True]\<rparr>)"
        "swap_map p' = swap_map p"
      have "add_usage K p off 1 = Some (0, p'\<lparr>swap_map := (swap_map p')[nat off := mkb 0 h True]\<rparr>)"
        using K nz get True l6 c(1) j set [OF c(3)]
        by (simp add: add_usage_def Let_def linux_counts mkb_ands)
      then show ?thesis using c(2) s(3) by blast
    qed
  qed
qed

text \<open>A slot and its count byte, for the proofs below.\<close>

lemma slot_cases:
  assumes "area_wf p" "0 \<le> off" "off < si_max p" "slot_ok p off"
  obtains l h f where "l < 0x3f" "l < 0x40" "slot_byte p off = mkb l h f" "slot_cached p off = h"
    "slot_refs p off = unat l + (if f then 63 * cont_val (slot_conts p off) else 0)"
    "f \<Longrightarrow> head_private (slot_head p off) = 32 \<and> cont_ok (slot_conts p off)"
    "arr_get (swap_map p) off = Some (mkb l h f)"
    "\<And>(p' :: swap_info_struct) v. swap_map p' = swap_map p \<Longrightarrow> arr_set (swap_map p') off v = Some ((swap_map p')[nat off := v])"
    "p\<lparr>swap_map := (swap_map p)[nat off := mkb l h f]\<rparr> = p"
proof -
  note in_p = page_in_area [OF assms(1-3)]
  obtain l h f where s: "l < 0x3f" "slot_byte p off = mkb l h f" "slot_cached p off = h"
      "slot_refs p off = unat l + (if f then 63 * cont_val (slot_conts p off) else 0)"
      "f \<Longrightarrow> head_private (slot_head p off) = 32 \<and> cont_ok (slot_conts p off)" using slot_mkb [OF assms(4)] by metis
  have "arr_get (swap_map p) off = Some (mkb l h f)" using in_p assms s(2) by (simp add: arr_get_in slot_byte_def)
  moreover have "arr_set (swap_map p') off v = Some ((swap_map p')[nat off := v])" if "swap_map p' = swap_map p"
    for p' :: swap_info_struct and v
    using that in_p(4) assms by (simp add: arr_set_in)
  moreover have "p\<lparr>swap_map := (swap_map p)[nat off := mkb l h f]\<rparr> = p"
    using s(2) by (simp flip: s(2) add: slot_byte_def)
  ultimately show thesis using that [OF s(1) low_le [OF s(1)] s(2-4)] s(5) by blast
qed

lemma slot_refs_zero:
  assumes "slot_refs p off = unat l + (if f then 63 * cont_val (slot_conts p off) else 0)"
    and "f \<Longrightarrow> head_private (slot_head p off) = 32 \<and> cont_ok (slot_conts p off)"
  shows "slot_refs p off = 0 \<longleftrightarrow> l = 0 \<and> \<not> f"
  using assms cont_val_pos by (auto simp: unat_eq_0)

lemma add_usage_cache:
  assumes K: "linux_swap_h K" and wf: "area_wf p" and off: "0 \<le> off" "off < si_max p" and ok: "slot_ok p off"
  shows "slot_cached p off \<Longrightarrow> add_usage K p off 0x40 = Some (- EEXIST, p)"
    and "\<not> slot_cached p off \<Longrightarrow> slot_refs p off = 0 \<Longrightarrow> add_usage K p off 0x40 = Some (- ENOENT, p)"
    and "\<not> slot_cached p off \<Longrightarrow> 0 < slot_refs p off \<Longrightarrow>
      \<exists>q. add_usage K p off 0x40 = Some (0, q) \<and> slot_step off p (slot_refs p off) True q"
proof -
  obtain l h f where s: "l < 0x3f" "l < 0x40" "slot_byte p off = mkb l h f" "slot_cached p off = h"
    "slot_refs p off = unat l + (if f then 63 * cont_val (slot_conts p off) else 0)"
    "f \<Longrightarrow> head_private (slot_head p off) = 32 \<and> cont_ok (slot_conts p off)"
    "arr_get (swap_map p) off = Some (mkb l h f)"
    "\<And>(p' :: swap_info_struct) v. swap_map p' = swap_map p \<Longrightarrow> arr_set (swap_map p') off v = Some ((swap_map p')[nat off := v])"
    "p\<lparr>swap_map := (swap_map p)[nat off := mkb l h f]\<rparr> = p" by (rule slot_cases [OF wf off ok]) blast
  have h0: "mkb 0 h False = 0 \<longleftrightarrow> \<not> h" using mkb_eq(1) [of 0 h False] by simp
  have c0: "mkb l False f = 0 \<longleftrightarrow> slot_refs p off = 0"
    using mkb_eq(1) [OF s(2), of False f] slot_refs_zero [OF s(5,6)] by simp
  show "slot_cached p off \<Longrightarrow> add_usage K p off 0x40 = Some (- EEXIST, p)"
    using K s(2,4,7,9) s(8) [OF refl] h0 by (simp add: add_usage_def Let_def linux_counts mkb_ands mkb_join)
  show "\<not> slot_cached p off \<Longrightarrow> slot_refs p off = 0 \<Longrightarrow> add_usage K p off 0x40 = Some (- ENOENT, p)"
    using K s(2,4,7,9) s(8) [OF refl] h0 c0 mkb_join [OF s(2), of f h]
    by (simp add: add_usage_def Let_def linux_counts mkb_ands)
  let ?q = "p\<lparr>swap_map := (swap_map p)[nat off := mkb l True f]\<rparr>"
  have st: "slot_step off p (slot_refs p off) True ?q" by (rule slot_step_byte [OF wf off refl s(1)]) (use s(5,6) in simp_all)
  show "\<exists>q. add_usage K p off 0x40 = Some (0, q) \<and> slot_step off p (slot_refs p off) True q"
    if n: "\<not> slot_cached p off" "0 < slot_refs p off"
  proof (intro exI [of _ ?q] conjI st)
    show "add_usage K p off 0x40 = Some (0, ?q)"
      using K s(2,4,7) s(8) [OF refl] h0 c0 n
      by (simp add: add_usage_def Let_def linux_counts mkb_ands mkb_join_cache)
  qed
qed

lemma drop_usage_cache:
  assumes K: "linux_swap_h K" and wf: "area_wf p" and off: "0 \<le> off" "off < si_max p" and ok: "slot_ok p off"
    and c: "slot_cached p off"
  shows "\<exists>v. drop_usage K p off 0x40 = Some (v, 0, p) \<and> (v = 0 \<longleftrightarrow> slot_refs p off = 0) \<and>
    slot_step off p (slot_refs p off) False (p\<lparr>swap_map := (swap_map p)[nat off := v]\<rparr>)"
proof -
  obtain l h f where s: "l < 0x3f" "l < 0x40" "slot_byte p off = mkb l h f" "slot_cached p off = h"
    "slot_refs p off = unat l + (if f then 63 * cont_val (slot_conts p off) else 0)"
    "f \<Longrightarrow> head_private (slot_head p off) = 32 \<and> cont_ok (slot_conts p off)"
    "arr_get (swap_map p) off = Some (mkb l h f)"
    "\<And>(p' :: swap_info_struct) v. swap_map p' = swap_map p \<Longrightarrow> arr_set (swap_map p') off v = Some ((swap_map p')[nat off := v])"
    "p\<lparr>swap_map := (swap_map p)[nat off := mkb l h f]\<rparr> = p" by (rule slot_cases [OF wf off ok]) blast
  have h0: "mkb 0 h False \<noteq> 0" using mkb_eq(1) [of 0 h False] s(4) c by simp
  have d: "drop_usage K p off 0x40 = Some (mkb l False f, 0, p)"
    using K s(2,7) h0 by (simp add: drop_usage_def Let_def linux_counts mkb_ands)
  have z: "mkb l False f = 0 \<longleftrightarrow> slot_refs p off = 0"
    using mkb_eq(1) [OF s(2), of False f] slot_refs_zero [OF s(5,6)] by simp
  have st: "slot_step off p (slot_refs p off) False (p\<lparr>swap_map := (swap_map p)[nat off := mkb l False f]\<rparr>)"
    by (rule slot_step_byte [OF wf off refl s(1)]) (use s(5,6) in simp_all)
  show ?thesis by (rule exI [of _ "mkb l False f"]) (intro conjI d z st)
qed

lemma drop_usage_refs:
  assumes K: "linux_swap_h K" and wf: "area_wf p" and off: "0 \<le> off" "off < si_max p" and ok: "slot_ok p off"
    and used: "0 < slot_refs p off"
  shows "\<exists>v h p'. drop_usage K p off 1 = Some (v, h, p') \<and> swap_map p' = swap_map p \<and>
    (v = 0 \<longleftrightarrow> slot_refs p off = 1) \<and> (v OR h = 0 \<longleftrightarrow> slot_refs p off = 1 \<and> \<not> slot_cached p off) \<and>
    slot_step off p (slot_refs p off - 1) (slot_cached p off) (p'\<lparr>swap_map := (swap_map p')[nat off := v OR h]\<rparr>)"
proof -
  obtain l h f where s: "l < 0x3f" "l < 0x40" "slot_byte p off = mkb l h f" "slot_cached p off = h"
    "slot_refs p off = unat l + (if f then 63 * cont_val (slot_conts p off) else 0)"
    "f \<Longrightarrow> head_private (slot_head p off) = 32 \<and> cont_ok (slot_conts p off)"
    "arr_get (swap_map p) off = Some (mkb l h f)"
    "\<And>(p' :: swap_info_struct) v. swap_map p' = swap_map p \<Longrightarrow> arr_set (swap_map p') off v = Some ((swap_map p')[nat off := v])"
    "p\<lparr>swap_map := (swap_map p)[nat off := mkb l h f]\<rparr> = p" by (rule slot_cases [OF wf off ok]) blast
  have nsh: "mkb l False f \<noteq> 0xbf" using mkb_eq(3) [OF s(2), of False f] s(1) by auto
  have le: "l \<le> 0x3e" using s(1) by (simp add: word_less_nat_alt word_le_nat_alt)
  have c8: "mkb l False f = 0x80 \<longleftrightarrow> l = 0 \<and> f" using mkb_eq(2) [OF s(2), of False f] by simp
  show ?thesis
  proof (cases "l = 0 \<and> f")
    case True
    then have m: "slot_byte p off = mkb 0 h True" using s(3) by simp
    obtain more p' where b: "swap_count_continued K p off 0x80 = Some (more, p')" "swap_map p' = swap_map p"
        "slot_step off p (slot_refs p off - 1) h (p'\<lparr>swap_map := (swap_map p')[nat off := mkb 0x3e h more]\<rparr>)"
      using borrowed_from [OF K wf off m ok] by blast
    let ?v = "mkb 0x3e False more"
    have v: "?v = (if more then 0xbe else 0x3e)" by (cases more) (simp_all only: mkb_numerals if_True if_False)
    have d: "drop_usage K p off 1 = Some (?v, mkb 0 h False, p')"
      using K s(2,7) nsh le True c8 b(1) by (simp add: drop_usage_def Let_def linux_counts mkb_ands v)
    have j: "?v OR mkb 0 h False = mkb 0x3e h more" by (simp add: mkb_join)
    have nz: "?v \<noteq> 0" "mkb 0x3e h more \<noteq> 0" by (simp_all add: mkb_eq)
    have "63 * 1 \<le> 63 * cont_val (slot_conts p off)" using s(6) True cont_val_pos by (intro mult_le_mono2) (simp add: Suc_leI)
    then have "slot_refs p off \<noteq> 1" unfolding s(5) using True by simp
    then show ?thesis using d b(2,3) j nz s(4) by metis
  next
    case False
    have l0: "0 < l"
      using used False slot_refs_zero [OF s(5,6)] by (auto simp: word_gt_0)
    have l1: "l - 1 < 0x3f" "unat (l - 1) = unat l - 1" using byte_dec [OF l0] s(1) by simp_all
    let ?v = "mkb (l - 1) False f"
    have c80: "mkb l False f \<noteq> 0x80" using c8 False by simp
    have "mkb l False f - 1 = ?v" by (simp add: mkb_sum [OF s(2)] mkb_sum [OF low_le [OF l1(1)]])
    then have d: "drop_usage K p off 1 = Some (?v, mkb 0 h False, p)"
      using K s(2,7) nsh le c80 by (simp add: drop_usage_def Let_def linux_counts mkb_ands)
    have j: "?v OR mkb 0 h False = mkb (l - 1) h f" by (rule mkb_join [OF low_le [OF l1(1)]])
    have lu: "0 < unat l" using l0 by (simp add: word_less_nat_alt)
    have "l - 1 = 0 \<longleftrightarrow> unat l = 1" using l1(2) lu by (metis One_nat_def Suc_pred' diff_0_eq_0 diff_is_0_eq le_Suc_eq less_numeral_extra(3) unat_eq_0 le_eq_less_or_eq Suc_leI)
    moreover have "f \<Longrightarrow> 0 < cont_val (slot_conts p off)" using s(6) cont_val_pos by blast
    ultimately have z: "l - 1 = 0 \<and> \<not> f \<longleftrightarrow> slot_refs p off = 1" unfolding s(5) using lu by (cases f) auto
    have "slot_step off p (slot_refs p off - 1) h (p\<lparr>swap_map := (swap_map p)[nat off := mkb (l - 1) h f]\<rparr>)"
      by (rule slot_step_byte [OF wf off refl l1(1)]) (use s(5,6) l1(2) lu in simp_all)
    then show ?thesis using d j z s(4) mkb_eq(1) [OF low_le [OF l1(1)]] by auto
  qed
qed

section \<open>A continuation page makes room\<close>

lemma byte_low7: "unat (b AND NOT 0x80 :: byte) = unat b mod 128"
proof -
  have "b AND NOT 0x80 = take_bit 7 b"
    by (rule bit_word_eqI) (auto simp: bit_and_iff bit_not_iff bit_take_bit_iff)
  moreover have "unat (take_bit 7 b) = take_bit 7 (unat b)" by (rule unsigned_take_bit_eq)
  ultimately show ?thesis by (simp only: take_bit_eq_mod) simp
qed

lemma byte_top: "(b AND 0x80 :: byte) = 0 \<longleftrightarrow> unat b < 128"
proof -
  have "b AND 0x80 = 0 \<longleftrightarrow> \<not> bit b 7"
  proof
    assume z: "b AND 0x80 = 0"
    show "\<not> bit b 7" using arg_cong [OF z, of "\<lambda>w. bit w 7"] by (simp add: bit_and_iff)
  next
    assume "\<not> bit b 7"
    then show "b AND 0x80 = 0" by (intro bit_word_eqI) (auto simp: bit_and_iff)
  qed
  also have "bit b 7 \<longleftrightarrow> odd (unat b div 128)"
  proof -
    have "bit (unat b) 7 \<longleftrightarrow> bit b 7" by (simp add: bit_unsigned_iff)
    then show ?thesis by (simp add: bit_iff_odd)
  qed
  finally show ?thesis using byte_less [of b] by (cases "unat b < 128") (auto simp: div_nat_eqI [where q = 1])
qed

lemma space_ahead_room:
  assumes K: "linux_swap_h K" and c: "c AND 0x80 \<noteq> 0"
  shows "space_ahead K o' c ps \<longleftrightarrow> has_room (column o' ps)"
  using c
proof (induction ps arbitrary: c)
  case (Cons m ms)
  let ?b = "unat (m o')"
  have b: "m o' AND NOT 0x80 \<noteq> 0x7f \<longleftrightarrow> ?b \<noteq> 127 \<and> ?b \<noteq> 255"
    unfolding word_unat_eq_iff byte_low7 using byte_less [of "m o'"] by (cases "?b < 128") (auto simp: le_mod_geq)
  have e: "space_ahead K o' c (m # ms) \<longleftrightarrow> ?b \<noteq> 127 \<and> ?b \<noteq> 255 \<or> space_ahead K o' (m o') ms"
    using K Cons.prems b by (simp add: linux_counts)
  have n: "m o' AND 0x80 = 0 \<Longrightarrow> space_ahead K o' (m o') ms \<longleftrightarrow> ms \<noteq> []"
    using K by (cases ms) (simp_all add: linux_counts)
  consider "?b \<noteq> 127" "?b \<noteq> 255" | "?b = 127" | "?b = 255" by blast
  then show ?case
  proof cases
    case 1
    then show ?thesis unfolding e by (simp add: column_def)
  next
    case 2
    then show ?thesis unfolding e using n byte_top [of "m o'"] by (simp add: column_def)
  next
    case 3
    then have "m o' AND 0x80 \<noteq> 0" using byte_top [of "m o'"] by simp
    then show ?thesis unfolding e using Cons.IH [of "m o'"] 3 by (cases ms) (auto simp: column_def)
  qed
qed (simp add: column_def)

text \<open>Room for one more reference: the digit is below 62 or the carry succeeds.\<close>

definition slot_room :: "swap_info_struct \<Rightarrow> int \<Rightarrow> bool" where
  "slot_room p off \<longleftrightarrow> head_private (slot_head p off) = 32 \<and>
     (slot_byte p off AND 0x80 = 0 \<or> has_room (slot_conts p off))"

lemma room_carries:
  assumes K: "linux_swap_h K" and wf: "area_wf p" and off: "0 \<le> off" "off < si_max p"
    and m: "slot_byte p off = mkb 0x3e h f" and ok: "slot_ok p off" and room: "slot_room p off"
  shows "\<exists>p'. swap_count_continued K p off (mkb 0x3e False f) = Some (True, p')"
proof -
  note in_p = page_in_area [OF wf off]
  let ?h = "slot_head p off" let ?o = "off mod PAGE_SIZE"
  have get: "arr_get (map_pages p) (off div PAGE_SIZE) = Some ?h" using in_p by (simp add: arr_get_in slot_head_def)
  have h: "head_private ?h = 32" "\<not> f \<or> has_room (column ?o (lru ?h))"
    using room mkb_parts(3) [of "0x3e" h f] m by (auto simp: slot_room_def slot_conts_def)
  have ne: "lru ?h \<noteq> []" using wf in_p(3) h by (auto simp: area_wf_def)
  have "\<exists>ps. continued_pages K ?o (mkb 0x3e False f) (lru ?h) = Some (True, ps)"
  proof (cases f)
    case True
    have "cont_ok (column ?o (lru ?h))"
      using ok m mkb_parts(3) [of "0x3e" h f] True by (simp add: slot_ok_def slot_conts_def)
    then show ?thesis using continued_inc_room [OF K] h(2) True by (simp add: mkb_numerals)
  next
    case False
    then show ?thesis using continued_first [OF K ne] by (auto simp: mkb_numerals)
  qed
  then show ?thesis using K get in_p h(1) by (auto simp: swap_count_continued_def linux_swap_h_def arr_set_in)
qed

lemma link_slot:
  assumes K: "linux_swap_h K" and wf: "area_wf p" and off: "0 \<le> off" "off < si_max p"
    and m: "slot_byte p off = mkb 0x3e h f" and ok: "slot_ok p off"
  shows "\<exists>linked q. link_continuation K p off (mkb 0x3e False f) page = Some (linked, q) \<and> area_wf q \<and> same_area p q \<and>
    swap_map q = swap_map p \<and> (\<forall>o'. 0 \<le> o' \<longrightarrow> slot_ok p o' \<longrightarrow> slot_ok q o' \<and> slot_refs q o' = slot_refs p o') \<and>
    slot_room q off"
proof -
  note in_p = page_in_area [OF wf off]
  let ?h = "slot_head p off" let ?o = "off mod PAGE_SIZE" let ?i = "nat (off div PAGE_SIZE)"
  have get: "arr_get (map_pages p) (off div PAGE_SIZE) = Some ?h" using in_p by (simp add: arr_get_in slot_head_def)
  have cont: "mkb 0x3e False f AND 0x80 = 0 \<longleftrightarrow> \<not> f" by (simp add: mkb_parts)
  have m80: "slot_byte p off AND 0x80 = 0 \<longleftrightarrow> \<not> f" unfolding m by (simp add: mkb_parts)
  have okf: "f \<Longrightarrow> head_private ?h = 32 \<and> cont_ok (slot_conts p off)" using ok m80 by (simp add: slot_ok_def)
  define linked where "linked \<longleftrightarrow> head_private ?h = 0 \<or> f \<and> \<not> has_room (slot_conts p off)"
  define old where "old = (if head_private ?h = 0 then [] else lru ?h)"
  define h2 where "h2 = ?h\<lparr>head_private := 32, lru := old @ (if linked then [page] else [])\<rparr>"
  define fl where "fl = (if head_private ?h = 0 then si_flags p OR 32 else si_flags p)"
  define q where "q = p\<lparr>si_flags := fl, map_pages := (map_pages p)[?i := h2]\<rparr>"
  have hp: "head_private ?h = 0 \<or> head_private ?h = 32 \<and> lru ?h \<noteq> []" using wf in_p(3) by (simp add: area_wf_def)
  have sa: "space_ahead K ?o (mkb 0x3e False f) old \<longleftrightarrow> \<not> linked"
  proof (cases "head_private ?h = 0")
    case False
    then have "old = lru ?h" "lru ?h \<noteq> []" using hp by (simp_all add: old_def)
    then show ?thesis
      using False space_ahead_room [OF K, of "mkb 0x3e False f" ?o "lru ?h"] cont K
      by (cases f; cases "lru ?h") (auto simp: linked_def slot_conts_def linux_counts)
  qed (simp add: old_def linked_def)
  have link: "link_continuation K p off (mkb 0x3e False f) page = Some (linked, q)"
  proof (cases "head_private ?h = 0")
    case True
    then have "\<not> f" using okf by auto
    then show ?thesis
      using True K get in_p cont sa
      by (simp add: link_continuation_def linux_swap_h_def arr_set_in Let_def q_def h2_def fl_def old_def linked_def)
  next
    case False
    then have "head_private ?h = 32" using hp by simp
    then have "h2 = (if linked then ?h\<lparr>lru := lru ?h @ [page]\<rparr> else ?h)" using False by (simp add: h2_def old_def)
    then show ?thesis
      using False K get in_p cont sa
      by (simp add: link_continuation_def linux_swap_h_def arr_set_in Let_def q_def fl_def old_def)
  qed
  have ne: "lru h2 \<noteq> []" using hp by (auto simp: h2_def old_def linked_def)
  have wfq: "area_wf q" using wf ne by (auto simp: q_def area_wf_def h2_def dest!: set_update_subset_insert [THEN subsetD])
  have "q = p\<lparr>swap_map := swap_map q, map_pages := map_pages q, si_flags := si_flags q\<rparr>" unfolding q_def by (cases p) simp
  moreover have "si_flags q \<in> {si_flags p, si_flags p OR 32}" by (simp add: q_def fl_def)
  ultimately have sq: "same_area p q" unfolding same_area_def by blast
  have hd: "slot_head q o' = (if o' div PAGE_SIZE = off div PAGE_SIZE then h2 else slot_head p o')" if "0 \<le> o'" for o'
  proof -
    have "0 \<le> o' div PAGE_SIZE" using that by (simp add: PAGE_SIZE_def)
    then show ?thesis using in_p by (auto simp: slot_head_def q_def nth_list_update nat_less_iff eq_nat_nat_iff)
  qed
  have kept: "slot_ok p o' \<longrightarrow> slot_ok q o' \<and> slot_refs q o' = slot_refs p o'" if "0 \<le> o'" for o'
  proof (rule slot_ok_cong)
    show "slot_byte q o' = slot_byte p o'" by (simp add: slot_byte_def q_def)
    assume "slot_ok p o'" "slot_byte p o' AND 0x80 \<noteq> 0"
    then have o': "head_private (slot_head p o') = 32" "cont_ok (slot_conts p o')" by (simp_all add: slot_ok_def)
    show "head_private (slot_head q o') = 32 \<and> cont_ok (slot_conts q o') \<and> cont_val (slot_conts q o') = cont_val (slot_conts p o')"
    proof (cases "o' div PAGE_SIZE = off div PAGE_SIZE")
      case True
      then have e: "slot_head p o' = ?h" by (simp add: slot_head_def)
      then have "head_private ?h \<noteq> 0" using o'(1) by simp
      then have "slot_conts q o' = slot_conts p o' @ (if linked then [unat (page (o' mod PAGE_SIZE))] else [])"
        using hd [OF that] True e by (simp add: slot_conts_def h2_def old_def column_def)
      then show ?thesis using hd [OF that] True cont_ok_append [OF o'(2)] by (simp add: h2_def)
    next
      case False
      then show ?thesis using hd [OF that] o' by (simp add: slot_conts_def)
    qed
  qed
  have "f \<Longrightarrow> has_room (slot_conts q off)"
  proof -
    assume f: f
    then have e: "slot_conts q off = slot_conts p off @ (if linked then [unat (page ?o)] else [])"
      using hd [OF off(1)] okf by (simp add: slot_conts_def h2_def old_def column_def)
    show "has_room (slot_conts q off)"
      unfolding e using okf f linked_room by (auto simp: linked_def)
  qed
  moreover have "slot_byte q off = slot_byte p off" by (simp add: slot_byte_def q_def)
  ultimately have "slot_room q off" unfolding slot_room_def using hd [OF off(1)] m80 by (simp add: h2_def)
  then show ?thesis using link wfq sq kept by (intro exI [of _ linked] exI [of _ q]) (simp add: q_def)
qed

end
