(* ===== verification/Swap_Refs.thy ===== *)
theory Swap_Refs
  imports Swap_Slots
begin

text \<open>
  The operations of \<open>swapfile.c\<close> on the references of a swap entry, against a slot that is a number of
  references and a flag: \<open>swap_duplicate\<close> and \<open>swap_free\<close> are plus and minus one however many
  continuation pages the count needs, \<open>swapcache_prepare\<close> and \<open>swapcache_free\<close> set and clear the flag,
  and no other slot of the area changes.
\<close>

section \<open>An entry of a swap area\<close>

text \<open>
  The entry names the slot at \<open>off\<close> of the area \<open>ty\<close>, which is in use, well formed and unlocked.
\<close>

definition entry_at :: "swap_h \<Rightarrow> entry \<Rightarrow> int \<Rightarrow> int \<Rightarrow> 'k swaps \<Rightarrow> swap_info_struct \<Rightarrow> bool" where
  "entry_at K e ty off s p \<longleftrightarrow>
     e \<noteq> 0 \<and> \<not> non_swap_entry K e \<and> uint (swp_type K e) = ty \<and> ty \<noteq> 8 \<and> ty \<noteq> 9 \<and> ty < nr_swapfiles s \<and>
     uint (swp_offset K e) = off \<and> si_get ty s = Some p \<and> si_flags p AND SWP_USED K \<noteq> 0 \<and> off < si_max p \<and>
     \<not> si_lock p \<and> si_type p = ty \<and> area_wf p \<and> slot_ok p off \<and>
     (highest_priority_index s \<noteq> -1 \<longrightarrow> si_get (highest_priority_index s) s \<noteq> None)"

text \<open>The state after an operation on that entry that leaves \<open>n\<close> references and the flag \<open>h\<close>.\<close>

definition slot_moved ::
  "swap_h \<Rightarrow> entry \<Rightarrow> int \<Rightarrow> int \<Rightarrow> swap_info_struct \<Rightarrow> nat \<Rightarrow> bool \<Rightarrow> 'k swaps \<Rightarrow> bool" where
  "slot_moved K e ty off p n h s' \<longleftrightarrow>
     (\<exists>q. entry_at K e ty off s' q \<and> slot_refs q off = n \<and> slot_cached q off = h \<and> others_kept off p q \<and> si_max q = si_max p)"

lemma slot_fields:
  assumes "swap_map q = swap_map p" "map_pages q = map_pages p"
  shows "slot_byte q = slot_byte p" "slot_head q = slot_head p" "slot_conts q = slot_conts p"
    "slot_refs q = slot_refs p" "slot_cached q = slot_cached p" "slot_ok q = slot_ok p"
  using assms by (auto simp: fun_eq_iff slot_byte_def slot_head_def slot_conts_def slot_refs_def slot_cached_def slot_ok_def)

lemma slot_step_same: "slot_step off p n h q \<Longrightarrow> si_lock q = si_lock p \<and> si_type q = si_type p \<and> si_max q = si_max p \<and>
    prio q = prio p \<and> lowest_bit q = lowest_bit p \<and> highest_bit q = highest_bit p \<and> inuse_pages q = inuse_pages p \<and> slot_notify q = slot_notify p"
  by (auto simp: slot_step_def same_area_def)

lemma others_kept_refl [simp]: "others_kept off p p"
  by (simp add: others_kept_def)

lemma others_kept_trans: "others_kept off p q \<Longrightarrow> others_kept off q r \<Longrightarrow> si_max q = si_max p \<Longrightarrow> others_kept off p r"
  by (auto simp: others_kept_def)

lemma slot_moved_trans:
  "slot_moved K e ty off p n h s \<Longrightarrow> (\<And>q. entry_at K e ty off s q \<Longrightarrow> slot_refs q off = n \<Longrightarrow> slot_cached q off = h \<Longrightarrow>
     slot_moved K e ty off q n' h' s') \<Longrightarrow> slot_moved K e ty off p n' h' s'"
  unfolding slot_moved_def by (metis others_kept_trans)

lemma used_byte:
  assumes "linux_swap_h K" "slot_ok p off" "0 < slot_refs p off \<or> slot_cached p off"
  shows "slot_byte p off \<noteq> 0"
  using assms(3) by (auto simp: slot_refs_def slot_cached_def refs_of_def split: if_splits)

text \<open>\<open>swap_info_get\<close> on a used slot takes the lock and nothing else.\<close>

definition locked :: "int \<Rightarrow> 'k swaps \<Rightarrow> 'k swaps" where
  "locked ty s = (case si_get ty s of Some p \<Rightarrow> si_put ty (p\<lparr>si_lock := True\<rparr>) s | None \<Rightarrow> s)"

lemma entry_off: "entry_at K e ty off s p \<Longrightarrow> 0 \<le> off \<and> 0 \<le> ty"
  by (auto simp: entry_at_def)

lemma info_get_used:
  assumes K: "linux_swap_h K" and e: "entry_at K e ty off s p" and u: "0 < slot_refs p off \<or> slot_cached p off"
  shows "swap_info_get K e s = Some (Some ty, si_put ty (p\<lparr>si_lock := True\<rparr>) s)"
proof -
  have "slot_ok p off" "area_wf p" "off < si_max p" using e by (simp_all add: entry_at_def)
  then have "arr_get (swap_map p) off = Some (slot_byte p off)" "slot_byte p off \<noteq> 0"
    using page_in_area(4) [of p off] entry_off [OF e] used_byte [OF K _ u] by (simp_all add: arr_get_in slot_byte_def)
  then show ?thesis
    using e by (auto simp: swap_info_get_def entry_at_def Let_def spin_lock_si_def)
qed

lemma entry_at_put:
  assumes "entry_at K e ty off s p" "area_wf q" "slot_ok q off" "\<not> si_lock q" "si_type q = ty" "si_max q = si_max p"
    "si_flags q AND SWP_USED K \<noteq> 0"
  shows "entry_at K e ty off (si_put ty q s) q"
proof -
  have g: "si_get ty s = Some p" "0 \<le> ty" using assms(1) entry_off [OF assms(1)] by (simp_all add: entry_at_def)
  have "si_get hp (si_put ty q s) \<noteq> None" if "si_get hp s \<noteq> None" for hp
    using that g by (cases "hp = ty") (auto simp: si_get_Some)
  then show ?thesis using assms g by (auto simp: entry_at_def)
qed

lemma used_flag_kept:
  assumes "linux_swap_h K" "same_area p q" "si_flags p AND SWP_USED K \<noteq> 0"
  shows "si_flags q AND SWP_USED K \<noteq> 0"
proof -
  have "(f OR 32) AND 1 = f AND (1 :: u64)" for f by (rule bit_word_eqI) (auto simp: bit_and_iff bit_or_iff bit_1_iff)
  then show ?thesis using assms by (auto simp: same_area_def linux_swap_h_def)
qed

lemma entry_at_step:
  assumes K: "linux_swap_h K" and e: "entry_at K e ty off s p" and st: "slot_step off p n h q"
  shows "entry_at K e ty off (si_put ty q s) q" "slot_moved K e ty off p n h (si_put ty q s)"
proof -
  show 1: "entry_at K e ty off (si_put ty q s) q"
    by (rule entry_at_put [OF e])
      (use st slot_step_same [OF st] e used_flag_kept [OF K] in \<open>auto simp: slot_step_def entry_at_def\<close>)
  show "slot_moved K e ty off p n h (si_put ty q s)"
    unfolding slot_moved_def using 1 st slot_step_same [OF st] by (auto simp: slot_step_def)
qed

section \<open>Adding references\<close>

lemma entry_lock:
  assumes "entry_at K e ty off s p"
  shows "spin_lock_si ty s = Some (si_put ty (p\<lparr>si_lock := True\<rparr>) s)"
    "spin_unlock_si ty (si_put ty q s) = Some (si_put ty (q\<lparr>si_lock := False\<rparr>) s)"
  using assms by (simp_all add: entry_at_def spin_lock_si_def spin_unlock_si_def)

text \<open>The operations on the count do not look at the lock.\<close>

lemma lock_blind:
  "swap_count_continued K (p\<lparr>si_lock := b\<rparr>) off c = map_option (\<lambda>(r, q). (r, q\<lparr>si_lock := b\<rparr>)) (swap_count_continued K p off c)"
  by (auto simp: swap_count_continued_def split: bind_splits option.splits)

lemma lock_map: "q\<lparr>si_lock := b, swap_map := m\<rparr> = q\<lparr>swap_map := m, si_lock := b\<rparr>"
  by simp

lemma add_usage_lock:
  "add_usage K (p\<lparr>si_lock := b\<rparr>) off u = map_option (\<lambda>(r, q). (r, q\<lparr>si_lock := b\<rparr>)) (add_usage K p off u)"
proof (cases "arr_get (swap_map p) off")
  case (Some m)
  show ?thesis
    by (cases "swap_count_continued K p off (m AND NOT (SWAP_HAS_CACHE K))")
      (auto simp: add_usage_def Let_def lock_blind Some arr_set_def)
qed (simp add: add_usage_def)

lemma drop_usage_lock:
  "drop_usage K (p\<lparr>si_lock := b\<rparr>) off u = map_option (\<lambda>(c, h, q). (c, h, q\<lparr>si_lock := b\<rparr>)) (drop_usage K p off u)"
proof (cases "arr_get (swap_map p) off")
  case (Some m)
  show ?thesis
    by (cases "swap_count_continued K p off (m AND NOT (SWAP_HAS_CACHE K))")
      (auto simp: drop_usage_def Let_def lock_blind Some)
qed (simp add: drop_usage_def)

lemma duplicate_by_usage:
  assumes e: "entry_at K e ty off s p" and a: "add_usage K p off u = Some (r, q)" and b: "\<not> si_lock q"
  shows "swap_duplicate_usage K e u s = Some (r, si_put ty q s)"
proof -
  have "add_usage K (p\<lparr>si_lock := True\<rparr>) off u = Some (r, q\<lparr>si_lock := True\<rparr>)"
    using a by (simp add: add_usage_lock)
  moreover have "q\<lparr>si_lock := False\<rparr> = q" using b by (cases q) simp
  moreover have "si_get ty s = Some p" using e by (simp add: entry_at_def)
  moreover have "spin_unlock_si ty (si_put ty (q\<lparr>si_lock := True\<rparr>) (si_put ty (p\<lparr>si_lock := True\<rparr>) s)) =
      Some (si_put ty (q\<lparr>si_lock := False\<rparr>) s)"
    using \<open>si_get ty s = Some p\<close> by (simp add: spin_unlock_si_def)
  ultimately show ?thesis
    using e entry_lock(1) [OF e] by (simp add: swap_duplicate_usage_def entry_at_def Let_def)
qed

text \<open>What the kernel hands out does not touch the areas; what the operations need of a state survives it.\<close>

lemma entry_at_kern: "entry_at K e ty off (s\<lparr>kern := k\<rparr>) p = entry_at K e ty off s p"
  by (simp add: entry_at_def si_get_def)

lemma entry_at_kern_do [simp]: "entry_at K e ty off (kern_do f s) p = entry_at K e ty off s p"
  by (simp add: kern_do_def entry_at_kern)

lemma slot_moved_kern_do [simp]: "slot_moved K e ty off p n h (kern_do f s) = slot_moved K e ty off p n h s"
  by (simp add: slot_moved_def)

lemma slot_moved_self: "entry_at K e ty off s p \<Longrightarrow> slot_moved K e ty off p (slot_refs p off) (slot_cached p off) s"
  by (auto simp: slot_moved_def)

lemma duplicate_once:
  assumes K: "linux_swap_h K" and e: "entry_at K e ty off s p" and u: "0 < slot_refs p off \<or> slot_cached p off"
    and full: "\<And>h f. slot_byte p off = mkb 0x3e h f \<Longrightarrow> \<exists>p'. swap_count_continued K p off (mkb 0x3e False f) = Some (True, p')"
  shows "\<exists>s'. swap_duplicate K X e s = Some (0, s') \<and> slot_moved K e ty off p (slot_refs p off + 1) (slot_cached p off) s'"
proof -
  have p: "area_wf p" "0 \<le> off" "off < si_max p" "slot_ok p off" "\<not> si_lock p"
    using e entry_off [OF e] by (simp_all add: entry_at_def)
  have "\<exists>q. add_usage K p off 1 = Some (0, q) \<and> slot_step off p (slot_refs p off + 1) (slot_cached p off) q"
    using add_usage_refs [OF K p(1-4) u] full by fastforce
  then obtain q where q: "add_usage K p off 1 = Some (0, q)" "slot_step off p (slot_refs p off + 1) (slot_cached p off) q" by blast
  have "\<not> si_lock q" using slot_step_same [OF q(2)] p(5) by simp
  then have "swap_duplicate_usage K e 1 s = Some (0, si_put ty q s)" by (rule duplicate_by_usage [OF e q(1)])
  then have "swap_duplicate K X e s = Some (0, si_put ty q s)"
    by (subst swap_duplicate.simps) (simp add: errnos)
  then show ?thesis using entry_at_step(2) [OF K e q(2)] by blast
qed

lemma link_continuation_lock:
  "link_continuation K (p\<lparr>si_lock := b\<rparr>) off c pg = map_option (\<lambda>(r, q). (r, q\<lparr>si_lock := b\<rparr>)) (link_continuation K p off c pg)"
proof (cases "arr_get (map_pages p) (off div PAGE_SIZE)")
  case (Some h)
  then show ?thesis by (cases "head_private h = 0") (auto simp: link_continuation_def arr_set_def Let_def)
qed (simp add: link_continuation_def)

text \<open>A continuation page is allocated for a count whose digit is full and cannot carry.\<close>

lemma add_continuation:
  assumes K: "linux_swap_h K" and e: "entry_at K e ty off s p" and u: "0 < slot_refs p off \<or> slot_cached p off"
    and m: "slot_byte p off = mkb 0x3e h f"
  shows "\<exists>r s'. add_swap_count_continuation K X e s = Some (r, s') \<and>
    (r = - ENOMEM \<and> fst (alloc_page X (kern s)) = None \<and> slot_moved K e ty off p (slot_refs p off) (slot_cached p off) s' \<or>
     r = 0 \<and> (\<exists>q. entry_at K e ty off s' q \<and> slot_refs q off = slot_refs p off \<and> slot_cached q off = slot_cached p off \<and>
       others_kept off p q \<and> si_max q = si_max p \<and> slot_byte q off = slot_byte p off \<and> slot_room q off))"
proof -
  obtain pg k where a: "alloc_page X (kern s) = (pg, k)" by fastforce
  let ?s = "s\<lparr>kern := k\<rparr>"
  have e': "entry_at K e ty off ?s p" using e by (simp add: entry_at_kern)
  have p: "area_wf p" "0 \<le> off" "off < si_max p" "slot_ok p off" "\<not> si_lock p"
    using e entry_off [OF e] by (simp_all add: entry_at_def)
  have get: "si_get ty ?s = Some p" "uint (swp_offset K e) = off" using e' by (simp_all add: entry_at_def)
  have pl: "p\<lparr>si_lock := False\<rparr> = p" using p(5) by (cases p) simp
  have mg: "arr_get (swap_map p) off = Some (mkb 0x3e h f)"
    using page_in_area(4) [OF p(1-3)] p(2) m by (simp add: arr_get_in slot_byte_def)
  note ig = info_get_used [OF K e' u]
  show ?thesis
  proof (cases pg)
    case None
    have "add_swap_count_continuation K X e s = Some (- ENOMEM, si_put ty p ?s)"
      using a ig get mg K None pl
      by (simp add: add_swap_count_continuation_def Let_def linux_counts mkb_ands spin_unlock_si_def)
    moreover have "si_put ty p ?s = ?s" using get(1) by (rule si_put_same)
    ultimately show ?thesis using None a slot_moved_self [OF e'] by auto
  next
    case (Some page)
    obtain linked q where l: "link_continuation K p off (mkb 0x3e False f) page = Some (linked, q)" "area_wf q" "same_area p q"
        "swap_map q = swap_map p" "\<forall>o'. 0 \<le> o' \<longrightarrow> slot_ok p o' \<longrightarrow> slot_ok q o' \<and> slot_refs q o' = slot_refs p o'" "slot_room q off"
      using link_slot [OF K p(1-3) m p(4)] by blast
    have sb: "slot_byte q o' = slot_byte p o'" for o' by (simp add: slot_byte_def l(4))
    have sm: "si_lock q = si_lock p \<and> si_type q = si_type p \<and> si_max q = si_max p" using l(3) by (auto simp: same_area_def)
    then have ql: "q\<lparr>si_lock := False\<rparr> = q" using p(5) by (cases q) simp
    have lk: "link_continuation K (p\<lparr>si_lock := True\<rparr>) off (mkb 0x3e False f) page = Some (linked, q\<lparr>si_lock := True\<rparr>)"
      by (simp add: link_continuation_lock l(1))
    define t where "t = si_put ty q ?s"
    define t' where "t' = (if linked then t else kern_do (free_page X) t)"
    have "add_swap_count_continuation K X e s = Some (0, t')"
      using a ig get mg K Some ql lk
      by (simp add: add_swap_count_continuation_def Let_def linux_counts mkb_ands spin_unlock_si_def t_def t'_def)
    moreover have tq: "entry_at K e ty off t q"
      unfolding t_def
      by (rule entry_at_put [OF e']) (use l sm p e' used_flag_kept [OF K l(3)] in \<open>auto simp: entry_at_def\<close>)
    moreover have "others_kept off p q" using l(5) sb by (auto simp: others_kept_def)
    moreover have "slot_cached q off = slot_cached p off" by (simp add: slot_cached_def sb)
    moreover have "entry_at K e ty off t' q" using tq by (simp add: t'_def)
    ultimately show ?thesis using l(5,6) p(2,4) sb sm by blast
  qed
qed

lemma duplicate_adds_one:
  assumes K: "linux_swap_h K" and e: "entry_at K e ty off s p" and u: "0 < slot_refs p off \<or> slot_cached p off"
  shows "\<exists>r s'. swap_duplicate K X e s = Some (r, s') \<and>
    (r = 0 \<and> slot_moved K e ty off p (slot_refs p off + 1) (slot_cached p off) s' \<or>
     r = - ENOMEM \<and> fst (alloc_page X (kern s)) = None \<and> slot_moved K e ty off p (slot_refs p off) (slot_cached p off) s')"
proof -
  have p: "area_wf p" "0 \<le> off" "off < si_max p" "slot_ok p off" "\<not> si_lock p" "si_get ty s = Some p"
    using e entry_off [OF e] by (simp_all add: entry_at_def)
  show ?thesis
  proof (cases "\<exists>h f. slot_byte p off = mkb 0x3e h f \<and> swap_count_continued K p off (mkb 0x3e False f) = Some (False, p)")
    case False
    then show ?thesis
      using duplicate_once [OF K e u, of X] add_usage_refs [OF K p(1-4) u] carried_into [OF K p(1-3) _ p(4)] by metis
  next
    case True
    then obtain h f where m: "slot_byte p off = mkb 0x3e h f"
      "swap_count_continued K p off (mkb 0x3e False f) = Some (False, p)" by blast
    have "add_usage K p off 1 = Some (- ENOMEM, p)"
      using add_usage_refs [OF K p(1-4) u] m
    proof (elim disjE exE conjE)
      fix q assume "add_usage K p off 1 = Some (0, q)"
      have "arr_get (swap_map p) off = Some (mkb 0x3e h f)"
        using page_in_area(4) [OF p(1-3)] p(2) m(1) by (simp add: arr_get_in slot_byte_def)
      then show ?thesis using \<open>add_usage K p off 1 = Some (0, q)\<close> m(2) K u mkb_eq [of "0x3e" False f]
        by (simp add: add_usage_def Let_def linux_counts mkb_ands errnos split: bind_splits)
    qed
    then have d: "swap_duplicate_usage K e 1 s = Some (- ENOMEM, s)"
      using duplicate_by_usage [OF e _ p(5)] si_put_same [OF p(6)] by simp
    obtain r s' where c: "add_swap_count_continuation K X e s = Some (r, s')"
      "r = - ENOMEM \<and> fst (alloc_page X (kern s)) = None \<and> slot_moved K e ty off p (slot_refs p off) (slot_cached p off) s' \<or>
       r = 0 \<and> (\<exists>q. entry_at K e ty off s' q \<and> slot_refs q off = slot_refs p off \<and> slot_cached q off = slot_cached p off \<and>
         others_kept off p q \<and> si_max q = si_max p \<and> slot_byte q off = slot_byte p off \<and> slot_room q off)"
      using add_continuation [OF K e u m(1), of X] by blast
    from c(2) show ?thesis
    proof (elim disjE conjE exE)
      assume "r = - ENOMEM" "fst (alloc_page X (kern s)) = None" "slot_moved K e ty off p (slot_refs p off) (slot_cached p off) s'"
      then show ?thesis using d c(1) by (subst swap_duplicate.simps) (simp add: errnos)
    next
      fix q assume r: "r = 0" and q: "entry_at K e ty off s' q" "slot_refs q off = slot_refs p off"
        "slot_cached q off = slot_cached p off" "others_kept off p q" "si_max q = si_max p"
        "slot_byte q off = slot_byte p off" "slot_room q off"
      have q': "area_wf q" "off < si_max q" "slot_ok q off" using q(1) by (simp_all add: entry_at_def)
      have uq: "0 < slot_refs q off \<or> slot_cached q off" using u q by simp
      obtain s'' where t: "swap_duplicate K X e s' = Some (0, s'')"
          "slot_moved K e ty off q (slot_refs q off + 1) (slot_cached q off) s''"
        using duplicate_once [OF K q(1) uq, of X] room_carries [OF K q'(1) p(2) q'(2) _ q'(3) q(7)] by blast
      have "swap_duplicate K X e s = Some (0, s'')"
        using d c(1) r t(1) by (subst swap_duplicate.simps) (simp add: errnos)
      moreover have "slot_moved K e ty off p (slot_refs p off + 1) (slot_cached p off) s''"
        using t(2) q(2-5) unfolding slot_moved_def by (metis others_kept_trans)
      ultimately show ?thesis by blast
    qed
  qed
qed

section \<open>Dropping references\<close>

definition hp_ok :: "'k swaps \<Rightarrow> bool" where
  "hp_ok s \<longleftrightarrow> (highest_priority_index s \<noteq> -1 \<longrightarrow> si_get (highest_priority_index s) s \<noteq> None)"

lemma hp_ok_put: "si_get ty s = Some p \<Longrightarrow> hp_ok s \<Longrightarrow> hp_ok (si_put ty q s)"
proof -
  assume a: "si_get ty s = Some p" "hp_ok s"
  have "si_get h (si_put ty q s) \<noteq> None" if "si_get h s \<noteq> None" for h
    using that a(1) by (cases "h = ty") (auto simp: si_get_Some)
  then show ?thesis using a(2) by (auto simp: hp_ok_def)
qed

lemma set_hp_ok:
  assumes "si_get ty s = Some p" "hp_ok s"
  shows "\<exists>h. set_highest_priority_index ty s = Some (s\<lparr>highest_priority_index := h\<rparr>) \<and> hp_ok (s\<lparr>highest_priority_index := h\<rparr>)"
proof (cases "highest_priority_index s = -1")
  case True
  then show ?thesis using assms by (intro exI [of _ ty]) (auto simp: set_highest_priority_index_def hp_ok_def si_get_def)
next
  case False
  then obtain q where q: "si_get (highest_priority_index s) s = Some q" using assms by (auto simp: hp_ok_def)
  have "s\<lparr>highest_priority_index := highest_priority_index s\<rparr> = s" by simp
  then show ?thesis
    using assms False q
    by (intro exI [of _ "if prio p \<le> prio q then highest_priority_index s else ty"])
      (auto simp: set_highest_priority_index_def hp_ok_def si_get_def)
qed

lemma slot_freed_ok:
  assumes g: "si_get ty s = Some p" and t: "si_type p = ty" and h: "hp_ok s"
  shows "\<exists>s' q. slot_freed K X ty off s = Some s' \<and> si_get ty s' = Some q \<and> hp_ok s' \<and>
    nr_swapfiles s' = nr_swapfiles s \<and> nr_swap_pages s' = nr_swap_pages s + 1 \<and>
    swap_map q = swap_map p \<and> map_pages q = map_pages p \<and> si_flags q = si_flags p \<and> si_type q = ty \<and>
    si_max q = si_max p \<and> si_lock q = si_lock p"
proof -
  define q where "q = p\<lparr>lowest_bit := (if uint off < lowest_bit p then uint off else lowest_bit p),
               highest_bit := (if highest_bit p < uint off then uint off else highest_bit p)\<rparr>"
  have g1: "si_get ty (si_put ty q s) = Some q" using g by simp
  obtain hh where hh: "set_highest_priority_index ty (si_put ty q s) = Some ((si_put ty q s)\<lparr>highest_priority_index := hh\<rparr>)"
      "hp_ok ((si_put ty q s)\<lparr>highest_priority_index := hh\<rparr>)"
    using set_hp_ok [OF g1 hp_ok_put [OF g h]] by blast
  define s0 where "s0 = (si_put ty q s)\<lparr>highest_priority_index := hh\<rparr>"
  define s1 where "s1 = s0\<lparr>nr_swap_pages := nr_swap_pages s0 + 1\<rparr>"
  define q2 where "q2 = q\<lparr>inuse_pages := u32 (inuse_pages q - 1)\<rparr>"
  define s2 where "s2 = kern_do (frontswap_invalidate_page X ty off) (si_put ty q2 s1)"
  have tq: "si_type q = ty" "si_type q2 = ty" using t by (simp_all add: q_def q2_def)
  define s3 where "s3 = (if si_flags q2 AND SWP_BLKDEV K \<noteq> 0 \<and> slot_notify q2 then kern_do (swap_slot_free_notify X ty off) s2 else s2)"
  have "slot_freed K X ty off s = Some s3"
    by (simp only: slot_freed_def g bind.bind_lunit Let_def q_def [symmetric] tq hh(1) s0_def [symmetric]
        s1_def [symmetric] q2_def [symmetric] s2_def [symmetric] s3_def)
  moreover have g2: "si_get ty s1 = Some q" using g1 by (simp add: s1_def s0_def si_get_def)
  then have "si_get ty s3 = Some q2" by (simp add: s3_def s2_def)
  moreover have "hp_ok s1" using hh(2) by (simp add: s1_def s0_def hp_ok_def si_get_def)
  then have "hp_ok (si_put ty q2 s1)" by (rule hp_ok_put [OF g2])
  then have "hp_ok s3" by (simp add: s3_def s2_def hp_ok_def kern_do_def si_get_def)
  moreover have "nr_swapfiles s3 = nr_swapfiles s" "nr_swap_pages s3 = nr_swap_pages s + 1"
    by (simp_all add: s3_def s2_def s1_def s0_def kern_do_def)
  moreover have "swap_map q2 = swap_map p" "map_pages q2 = map_pages p" "si_flags q2 = si_flags p"
    "si_max q2 = si_max p" "si_lock q2 = si_lock p"
    by (simp_all add: q2_def q_def)
  ultimately show ?thesis using tq(2) by (intro exI [of _ s3] exI [of _ q2]) simp
qed

text \<open>Any way of dropping, given what it does to the count byte.\<close>

lemma entry_free:
  assumes K: "linux_swap_h K" and e: "entry_at K e ty off s p" and u: "0 < slot_refs p off \<or> slot_cached p off"
    and d: "drop_usage K p off us = Some (v, h, p')" "swap_map p' = swap_map p"
    and st: "slot_step off p n c (p'\<lparr>swap_map := (swap_map p')[nat off := v OR h]\<rparr>)"
  shows "\<exists>s1 s'. swap_info_get K e s = Some (Some ty, s1) \<and> swap_entry_free K X ty e us s1 = Some (v OR h, s') \<and>
    (\<exists>q. si_get ty s' = Some q \<and> entry_at K e ty off (si_put ty (q\<lparr>si_lock := False\<rparr>) s') (q\<lparr>si_lock := False\<rparr>) \<and>
      slot_refs q off = n \<and> slot_cached q off = c \<and> others_kept off p q \<and> si_max q = si_max p) \<and>
    nr_swap_pages s' = nr_swap_pages s + (if v OR h = 0 then 1 else 0)"
proof -
  note ig = info_get_used [OF K e u]
  let ?s1 = "si_put ty (p\<lparr>si_lock := True\<rparr>) s"
  have p: "area_wf p" "0 \<le> off" "off < si_max p" "slot_ok p off" "\<not> si_lock p" "si_get ty s = Some p" "uint (swp_offset K e) = off"
      "si_type p = ty" "hp_ok s"
    using e entry_off [OF e] by (simp_all add: entry_at_def hp_ok_def)
  define q where "q = p'\<lparr>si_lock := True, swap_map := (swap_map p')[nat off := v OR h]\<rparr>"
  note sm = slot_step_same [OF st]
  have dl: "drop_usage K (p\<lparr>si_lock := True\<rparr>) off us = Some (v, h, p'\<lparr>si_lock := True\<rparr>)"
    using d(1) by (simp add: drop_usage_lock)
  have set: "arr_set (swap_map p') off (v OR h) = Some ((swap_map p')[nat off := v OR h])"
    using page_in_area(4) [OF p(1-3)] p(2) d(2) by (simp add: arr_set_in)
  define s2 where "s2 = si_put ty q (if v = 0 then kern_do (mem_cgroup_uncharge_swap X e) s else s)"
  have g1: "si_get ty (if v = 0 then kern_do (mem_cgroup_uncharge_swap X e) s else s) = Some p" using p(6) by simp
  then have g2: "si_get ty s2 = Some q" by (simp add: s2_def)
  have hs: "hp_ok (if v = 0 then kern_do (mem_cgroup_uncharge_swap X e) s else s)"
    using p(9) by (simp add: hp_ok_def kern_do_def si_get_def)
  have h2: "hp_ok s2" unfolding s2_def by (rule hp_ok_put [OF g1 hs])
  have n2: "nr_swapfiles s2 = nr_swapfiles s" "nr_swap_pages s2 = nr_swap_pages s"
    by (simp_all add: s2_def kern_do_def)
  have qf: "si_type q = ty" "si_max q = si_max p" using sm p(8) by (simp_all add: q_def)
  have fin: "\<exists>q'. si_get ty t = Some q' \<and> entry_at K e ty off (si_put ty (q'\<lparr>si_lock := False\<rparr>) t) (q'\<lparr>si_lock := False\<rparr>) \<and>
      slot_refs q' off = n \<and> slot_cached q' off = c \<and> others_kept off p q' \<and> si_max q' = si_max p"
    if t: "si_get ty t = Some q'" "hp_ok t" "nr_swapfiles t = nr_swapfiles s" "swap_map q' = swap_map q" "map_pages q' = map_pages q"
      "si_flags q' = si_flags q" "si_type q' = ty" "si_max q' = si_max q" for t q'
  proof -
    let ?q0 = "p'\<lparr>swap_map := (swap_map p')[nat off := v OR h]\<rparr>"
    have mm: "swap_map q' = swap_map ?q0" "map_pages q' = map_pages ?q0" using t by (simp_all add: q_def)
    note sf = slot_fields [OF mm]
    have sfl: "slot_ok (q'\<lparr>si_lock := False\<rparr>) = slot_ok q'" by (rule slot_fields) simp_all
    have "area_wf ?q0" "others_kept off p ?q0" "same_area p ?q0" "slot_ok ?q0 off" "slot_refs ?q0 off = n" "slot_cached ?q0 off = c"
      using st by (simp_all add: slot_step_def)
    moreover have "area_wf (q'\<lparr>si_lock := False\<rparr>) = area_wf ?q0"
      using mm t(8) qf(2) sm by (simp add: area_wf_def)
    moreover have "others_kept off p q' = others_kept off p ?q0" by (simp add: others_kept_def sf)
    moreover have "si_flags q' AND SWP_USED K \<noteq> 0"
      using used_flag_kept [OF K \<open>same_area p ?q0\<close>] e t(6) by (simp add: entry_at_def q_def)
    moreover have "hp_ok (si_put ty (q'\<lparr>si_lock := False\<rparr>) t)" by (rule hp_ok_put [OF t(1,2)])
    ultimately show ?thesis
      using e t qf sf sfl by (auto simp: entry_at_def hp_ok_def)
  qed
  have ef: "swap_entry_free K X ty e us ?s1 = do {
      s \<leftarrow> (if v OR h = 0 then slot_freed K X ty (swp_offset K e) s2 else Some s2); Some (v OR h, s) }"
    using p(6,7) dl set by (simp add: swap_entry_free_def Let_def s2_def q_def)
  show ?thesis
  proof (cases "v OR h = 0")
    case True
    obtain s' q' where f: "slot_freed K X ty (swp_offset K e) s2 = Some s'" "si_get ty s' = Some q'" "hp_ok s'"
        "nr_swapfiles s' = nr_swapfiles s2" "nr_swap_pages s' = nr_swap_pages s2 + 1"
        "swap_map q' = swap_map q" "map_pages q' = map_pages q" "si_flags q' = si_flags q" "si_type q' = ty"
        "si_max q' = si_max q" "si_lock q' = si_lock q"
      using slot_freed_ok [OF g2 qf(1) h2, of K X "swp_offset K e"] by blast
    have "swap_entry_free K X ty e us ?s1 = Some (v OR h, s')" using ef f(1) True by simp
    then show ?thesis using ig fin [OF f(2,3) _ f(6-10)] f(4,5) n2 True by (intro exI [of _ ?s1] exI [of _ s']) simp
  next
    case False
    have "swap_entry_free K X ty e us ?s1 = Some (v OR h, s2)" using ef False by simp
    then show ?thesis using ig fin [OF g2 h2 n2(1) refl refl refl qf(1) refl] n2 False by (intro exI [of _ ?s1] exI [of _ s2]) simp
  qed
qed

end
