(* ===== verification/Swap_History.thy ===== *)
theory Swap_History
  imports Swap_Refs
begin

text \<open>
  The reference counts over whole histories: any sequence of operations on a swap entry refines the
  same sequence on a number and a flag.  The interface of a counted slot is a locale, interpreted on
  the operations of \<open>swapfile.c\<close>; the entries of COMEX do not satisfy it, because they are not
  counted at all.
\<close>

section \<open>One operation\<close>

lemma free_drops_one:
  assumes K: "linux_swap_h K" and e: "entry_at K e ty off s p" and u: "0 < slot_refs p off"
  shows "\<exists>s'. swap_free K X e s = Some s' \<and> slot_moved K e ty off p (slot_refs p off - 1) (slot_cached p off) s' \<and>
    nr_swap_pages s' = nr_swap_pages s + (if slot_refs p off = 1 \<and> \<not> slot_cached p off then 1 else 0)"
proof -
  have p: "area_wf p" "0 \<le> off" "off < si_max p" "slot_ok p off" using e entry_off [OF e] by (simp_all add: entry_at_def)
  obtain v h p' where d: "drop_usage K p off 1 = Some (v, h, p')" "swap_map p' = swap_map p"
      "v OR h = 0 \<longleftrightarrow> slot_refs p off = 1 \<and> \<not> slot_cached p off"
      "slot_step off p (slot_refs p off - 1) (slot_cached p off) (p'\<lparr>swap_map := (swap_map p')[nat off := v OR h]\<rparr>)"
    using drop_usage_refs [OF K p u] by blast
  obtain s1 s' q where f: "swap_info_get K e s = Some (Some ty, s1)" "swap_entry_free K X ty e 1 s1 = Some (v OR h, s')"
      "si_get ty s' = Some q" "entry_at K e ty off (si_put ty (q\<lparr>si_lock := False\<rparr>) s') (q\<lparr>si_lock := False\<rparr>)"
      "slot_refs q off = slot_refs p off - 1" "slot_cached q off = slot_cached p off" "others_kept off p q" "si_max q = si_max p"
      "nr_swap_pages s' = nr_swap_pages s + (if v OR h = 0 then 1 else 0)"
    using entry_free [OF K e _ d(1,2,4), of X] u by blast
  let ?t = "si_put ty (q\<lparr>si_lock := False\<rparr>) s'"
  have "swap_free K X e s = Some ?t" using f by (simp add: swap_free_def spin_unlock_si_def)
  moreover have "slot_moved K e ty off p (slot_refs p off - 1) (slot_cached p off) ?t"
    unfolding slot_moved_def using f(4-8) slot_fields [of "q\<lparr>si_lock := False\<rparr>" q]
    by (intro exI [of _ "q\<lparr>si_lock := False\<rparr>"]) (simp add: others_kept_def)
  ultimately show ?thesis using f(9) d(3) by simp
qed

lemma cache_free_clears:
  assumes K: "linux_swap_h K" and e: "entry_at K e ty off s p" and u: "slot_cached p off"
  shows "\<exists>s'. swapcache_free K X e pg s = Some s' \<and> slot_moved K e ty off p (slot_refs p off) False s' \<and>
    nr_swap_pages s' = nr_swap_pages s + (if slot_refs p off = 0 then 1 else 0)"
proof -
  have p: "area_wf p" "0 \<le> off" "off < si_max p" "slot_ok p off" using e entry_off [OF e] by (simp_all add: entry_at_def)
  obtain v where d: "drop_usage K p off 0x40 = Some (v, 0, p)" "v = 0 \<longleftrightarrow> slot_refs p off = 0"
      "slot_step off p (slot_refs p off) False (p\<lparr>swap_map := (swap_map p)[nat off := v OR 0]\<rparr>)"
    using drop_usage_cache [OF K p u] by auto
  obtain s1 s' q where f: "swap_info_get K e s = Some (Some ty, s1)" "swap_entry_free K X ty e 0x40 s1 = Some (v OR 0, s')"
      "si_get ty s' = Some q" "entry_at K e ty off (si_put ty (q\<lparr>si_lock := False\<rparr>) s') (q\<lparr>si_lock := False\<rparr>)"
      "slot_refs q off = slot_refs p off" "\<not> slot_cached q off" "others_kept off p q" "si_max q = si_max p"
      "nr_swap_pages s' = nr_swap_pages s + (if v OR 0 = 0 then 1 else 0)"
    using entry_free [OF K e _ d(1) refl d(3), of X] u by blast
  define t where "t = (case pg of None \<Rightarrow> s' | Some x \<Rightarrow> kern_do (mem_cgroup_uncharge_swapcache X x e (v \<noteq> 0)) s')"
  have g: "si_get ty t = Some q" using f(3) by (simp add: t_def split: option.splits)
  let ?t = "si_put ty (q\<lparr>si_lock := False\<rparr>) t"
  have "swapcache_free K X e pg s = Some ?t"
    using f(1,2) K g by (simp add: swapcache_free_def spin_unlock_si_def linux_counts t_def)
  moreover have "entry_at K e ty off ?t (q\<lparr>si_lock := False\<rparr>)"
    using f(4) by (simp add: t_def split: option.splits flip: kern_do_si(2))
  then have "slot_moved K e ty off p (slot_refs p off) False ?t"
    unfolding slot_moved_def using f(5-8) slot_fields [of "q\<lparr>si_lock := False\<rparr>" q]
    by (intro exI [of _ "q\<lparr>si_lock := False\<rparr>"]) (simp add: others_kept_def)
  moreover have "nr_swap_pages ?t = nr_swap_pages s'" by (simp add: t_def kern_do_def split: option.splits)
  ultimately show ?thesis using f(9) d(2) by simp
qed

lemma prepare_sets:
  assumes K: "linux_swap_h K" and e: "entry_at K e ty off s p"
  shows "\<exists>r s'. swapcache_prepare K e s = Some (r, s') \<and>
    (if slot_cached p off then r = - EEXIST \<and> s' = s
     else if slot_refs p off = 0 then r = - ENOENT \<and> s' = s
     else r = 0 \<and> slot_moved K e ty off p (slot_refs p off) True s')"
proof -
  have p: "area_wf p" "0 \<le> off" "off < si_max p" "slot_ok p off" "\<not> si_lock p" "si_get ty s = Some p"
    using e entry_off [OF e] by (simp_all add: entry_at_def)
  note a = add_usage_cache [OF K p(1-4)]
  have c: "SWAP_HAS_CACHE K = 0x40" using K by (rule linux_counts)
  consider "slot_cached p off" | "\<not> slot_cached p off" "slot_refs p off = 0" | "\<not> slot_cached p off" "0 < slot_refs p off" by blast
  then show ?thesis
  proof cases
    case 1
    then show ?thesis using duplicate_by_usage [OF e a(1) p(5)] si_put_same [OF p(6)] c by (simp add: swapcache_prepare_def)
  next
    case 2
    then show ?thesis using duplicate_by_usage [OF e a(2) p(5)] si_put_same [OF p(6)] c by (simp add: swapcache_prepare_def)
  next
    case 3
    then obtain q where q: "add_usage K p off 0x40 = Some (0, q)" "slot_step off p (slot_refs p off) True q" using a(3) by blast
    have "\<not> si_lock q" using slot_step_same [OF q(2)] p(5) by simp
    then show ?thesis
      using 3 duplicate_by_usage [OF e q(1)] entry_at_step(2) [OF K e q(2)] c by (simp add: swapcache_prepare_def)
  qed
qed

section \<open>Histories\<close>

datatype slot_op = Duplicate | Free | Prepare | Cache_free

text \<open>
  The abstract slot: a history is valid when nobody drops what is not there or duplicates an entry
  that is not in use.
\<close>

fun slot_do :: "slot_op \<Rightarrow> nat \<times> bool \<Rightarrow> (nat \<times> bool) option" where
  "slot_do Duplicate (n, c) = (if n = 0 \<and> \<not> c then None else Some (n + 1, c))"
| "slot_do Free (n, c) = (if n = 0 then None else Some (n - 1, c))"
| "slot_do Prepare (n, c) = Some (n, c \<or> 0 < n)"
| "slot_do Cache_free (n, c) = (if c then Some (n, False) else None)"

fun swap_do :: "swap_h \<Rightarrow> 'k kserv \<Rightarrow> entry \<Rightarrow> slot_op \<Rightarrow> 'k swaps \<Rightarrow> 'k swaps option" where
  "swap_do K X e Duplicate s = map_option snd (swap_duplicate K X e s)"
| "swap_do K X e Free s = swap_free K X e s"
| "swap_do K X e Prepare s = map_option snd (swapcache_prepare K e s)"
| "swap_do K X e Cache_free s = swapcache_free K X e None s"

fun run_ops :: "('o \<Rightarrow> 's \<Rightarrow> 's option) \<Rightarrow> 'o list \<Rightarrow> 's \<Rightarrow> 's option" where
  "run_ops f [] s = Some s"
| "run_ops f (o' # os) s = do { s \<leftarrow> f o' s; run_ops f os s }"

lemma run_ops_append: "run_ops f (xs @ ys) s = do { s \<leftarrow> run_ops f xs s; run_ops f ys s }"
proof (induction xs arbitrary: s)
  case (Cons x xs)
  then show ?case by (cases "f x s") simp_all
qed simp

definition always_memory :: "'k kserv \<Rightarrow> bool" where
  "always_memory X \<longleftrightarrow> (\<forall>k. fst (alloc_page X k) \<noteq> None)"

lemma step_refines:
  assumes K: "linux_swap_h K" and X: "always_memory X" and e: "entry_at K e ty off s p"
    and a: "slot_do o' (slot_refs p off, slot_cached p off) = Some (n, c)"
  shows "\<exists>s'. swap_do K X e o' s = Some s' \<and> slot_moved K e ty off p n c s'"
proof (cases o')
  case Duplicate
  then have "0 < slot_refs p off \<or> slot_cached p off" "n = slot_refs p off + 1" "c = slot_cached p off"
    using a by (auto split: if_splits)
  moreover have "fst (alloc_page X (kern s)) \<noteq> None" using X by (simp add: always_memory_def)
  ultimately show ?thesis using duplicate_adds_one [OF K e, of X] Duplicate by auto
next
  case Free
  then show ?thesis using free_drops_one [OF K e, of X] a by (auto split: if_splits)
next
  case Prepare
  then show ?thesis using prepare_sets [OF K e] a slot_moved_self [OF e] by (auto split: if_splits)
next
  case Cache_free
  then show ?thesis using cache_free_clears [OF K e, of X None] a by (auto split: if_splits)
qed

lemma history_refines:
  assumes K: "linux_swap_h K" and X: "always_memory X" and e: "entry_at K e ty off s p"
    and a: "run_ops slot_do os (slot_refs p off, slot_cached p off) = Some (n, c)"
  shows "\<exists>s'. run_ops (swap_do K X e) os s = Some s' \<and> slot_moved K e ty off p n c s'"
  using e a
proof (induction os arbitrary: s p)
  case Nil
  then show ?case using slot_moved_self [OF Nil.prems(1)] by simp
next
  case (Cons o' os)
  obtain n1 c1 where a1: "slot_do o' (slot_refs p off, slot_cached p off) = Some (n1, c1)"
      "run_ops slot_do os (n1, c1) = Some (n, c)"
    using Cons.prems(2) by (auto split: bind_splits)
  obtain s1 where s1: "swap_do K X e o' s = Some s1" "slot_moved K e ty off p n1 c1 s1"
    using step_refines [OF K X Cons.prems(1) a1(1)] by blast
  then obtain q where q: "entry_at K e ty off s1 q" "slot_refs q off = n1" "slot_cached q off = c1"
      "others_kept off p q" "si_max q = si_max p" by (auto simp: slot_moved_def)
  obtain s' where s': "run_ops (swap_do K X e) os s1 = Some s'" "slot_moved K e ty off q n c s'"
    using Cons.IH [OF q(1)] a1(2) q(2,3) by auto
  have "slot_moved K e ty off p n c s'" using s'(2) q(4,5) unfolding slot_moved_def by (metis others_kept_trans)
  then show ?case using s1(1) s'(1) by simp
qed

section \<open>The interface of a counted slot\<close>

text \<open>
  What \<open>fork\<close> and \<open>exit\<close> need of a swap entry: a reference can be added to an entry in use, dropped
  while there is one, and the two are inverse on the count.
\<close>

locale counted_slot =
  fixes ok :: "'s \<Rightarrow> bool" and refs :: "'s \<Rightarrow> nat" and cached :: "'s \<Rightarrow> bool"
    and dup :: "'s \<Rightarrow> 's option" and drop_ref :: "'s \<Rightarrow> 's option"
  assumes dup_adds: "ok s \<Longrightarrow> 0 < refs s \<Longrightarrow> \<exists>t. dup s = Some t \<and> ok t \<and> refs t = refs s + 1 \<and> cached t = cached s"
    and drop_subtracts: "ok s \<Longrightarrow> 0 < refs s \<Longrightarrow> \<exists>t. drop_ref s = Some t \<and> ok t \<and> refs t = refs s - 1 \<and> cached t = cached s"
begin

lemma dups: "ok s \<Longrightarrow> 0 < refs s \<Longrightarrow>
    \<exists>t. run_ops (\<lambda>_. dup) (replicate n ()) s = Some t \<and> ok t \<and> refs t = refs s + n \<and> cached t = cached s"
proof (induction n arbitrary: s)
  case (Suc n)
  then show ?case using dup_adds [OF Suc.prems] by fastforce
qed simp

lemma drops: "ok s \<Longrightarrow> n \<le> refs s \<Longrightarrow>
    \<exists>t. run_ops (\<lambda>_. drop_ref) (replicate n ()) s = Some t \<and> ok t \<and> refs t = refs s - n \<and> cached t = cached s"
proof (induction n arbitrary: s)
  case (Suc n)
  then show ?case using drop_subtracts [of s] by fastforce
qed simp

lemma dups_drops:
  assumes "ok s" "0 < refs s" "m \<le> refs s + n"
  shows "\<exists>t u. run_ops (\<lambda>_. dup) (replicate n ()) s = Some t \<and> run_ops (\<lambda>_. drop_ref) (replicate m ()) t = Some u \<and>
    refs u = refs s + n - m \<and> cached u = cached s"
  using dups [OF assms(1,2), of n] drops [of _ m] assms(3) by force

end

definition refs_at :: "int \<Rightarrow> int \<Rightarrow> 'k swaps \<Rightarrow> nat" where
  "refs_at ty off s = (case si_get ty s of Some p \<Rightarrow> slot_refs p off | None \<Rightarrow> 0)"

definition cached_at :: "int \<Rightarrow> int \<Rightarrow> 'k swaps \<Rightarrow> bool" where
  "cached_at ty off s = (case si_get ty s of Some p \<Rightarrow> slot_cached p off | None \<Rightarrow> False)"

definition counted :: "swap_h \<Rightarrow> 'k kserv \<Rightarrow> entry \<Rightarrow> int \<Rightarrow> int \<Rightarrow> 'k swaps \<Rightarrow> bool" where
  "counted K X e ty off s \<longleftrightarrow> linux_swap_h K \<and> always_memory X \<and> (\<exists>p. entry_at K e ty off s p)"

lemma at_entry: "entry_at K e ty off s p \<Longrightarrow> refs_at ty off s = slot_refs p off \<and> cached_at ty off s = slot_cached p off"
  by (simp add: entry_at_def refs_at_def cached_at_def)

lemma counted_step:
  assumes "counted K X e ty off s" "slot_do o' (refs_at ty off s, cached_at ty off s) = Some (n, c)"
  shows "\<exists>s'. swap_do K X e o' s = Some s' \<and> counted K X e ty off s' \<and> refs_at ty off s' = n \<and> cached_at ty off s' = c"
proof -
  obtain p where p: "linux_swap_h K" "always_memory X" "entry_at K e ty off s p" using assms(1) by (auto simp: counted_def)
  have a: "slot_do o' (slot_refs p off, slot_cached p off) = Some (n, c)" using assms(2) at_entry [OF p(3)] by simp
  obtain s' where "swap_do K X e o' s = Some s'" "slot_moved K e ty off p n c s'"
    using step_refines [OF p a] by blast
  then show ?thesis using p at_entry unfolding slot_moved_def counted_def by (metis)
qed

interpretation swap_slot: counted_slot "counted K X e ty off" "refs_at ty off" "cached_at ty off"
  "swap_do K X e Duplicate" "swap_do K X e Free" for K X e ty off
proof (unfold_locales)
  fix s assume s: "counted K X e ty off s" "0 < refs_at ty off s"
  show "\<exists>t. swap_do K X e Duplicate s = Some t \<and> counted K X e ty off t \<and> refs_at ty off t = refs_at ty off s + 1 \<and>
      cached_at ty off t = cached_at ty off s"
    using counted_step [OF s(1), of Duplicate] s(2) by simp
  show "\<exists>t. swap_do K X e Free s = Some t \<and> counted K X e ty off t \<and> refs_at ty off t = refs_at ty off s - 1 \<and>
      cached_at ty off t = cached_at ty off s"
    using counted_step [OF s(1), of Free] s(2) by simp
qed

section \<open>Properties\<close>

text \<open>An area of four slots, for the concrete instances: the slot at 2 has 62 references.\<close>

definition small_area :: swap_info_struct where
  "small_area = \<lparr>si_flags = 3, prio = 0, si_type = 0, si_next = -1, si_max = 4, swap_map = [1, 1, 0x3e, 0x40],
     map_pages = [\<lparr>head_private = 0, lru = []\<rparr>], lowest_bit = 1, highest_bit = 3, si_pages = 3, inuse_pages = 3,
     cluster_next = 1, cluster_nr = 0, lowest_alloc = 0, highest_alloc = 0, extents = [], curr_extent = 0, slot_notify = False, si_lock = False\<rparr>"

definition plain_page :: page_t where
  "plain_page = \<lparr>PageLocked = True, PageUptodate = True, PageDirty = False, PageSwapCache = False, PageSwapBacked = True,
     PageWriteback = False, PageKsm = False, PageTransHuge = False, p_count = 2, p_mapcount = 1, page_private = 0\<rparr>"

definition small_swaps :: "unit swaps" where
  "small_swaps = \<lparr>swap_info = Some small_area # replicate 28 None, nr_swapfiles = 1, nr_swap_pages = 0, total_swap_pages = 3,
     swap_list_head = 0, swap_list_next = 0, highest_priority_index = -1, swap_lock = False, frames = (\<lambda>_. plain_page),
     swapper_spaces = replicate 29 \<lparr>page_tree = (\<lambda>_. None), nrpages = 0\<rparr>,
     swap_cache_info = \<lparr>add_total = 0, del_total = 0, find_success = 0, find_total = 0\<rparr>, kern = ()\<rparr>"

definition plain_kserv :: "unit kserv" where
  "plain_kserv = \<lparr>alloc_page = (\<lambda>k. (Some (\<lambda>_. 0x55), k)), free_page = id, mem_cgroup_uncharge_swap = (\<lambda>_. id),
     mem_cgroup_uncharge_swapcache = (\<lambda>_ _ _. id), frontswap_invalidate_page = (\<lambda>_ _. id),
     swap_slot_free_notify = (\<lambda>_ _. id), pm_suspended_storage = (\<lambda>_. False), kmalloc_extent = (\<lambda>k. (True, k)),
     blkdev_issue_discard = (\<lambda>_ _ _ k. (0, k)), swap_deactivate = (\<lambda>_. id), wait_on_discard = id, radix_tree_preload = (\<lambda>k. (0, k)),
     radix_tree_room = (\<lambda>k. (0, k))\<rparr>"

lemma small_entry: "entry_at std_h 2 0 2 small_swaps small_area" "slot_refs small_area 2 = 62" "\<not> slot_cached small_area 2"
proof -
  have t: "take_bit 57 (2 :: u64) = 2" "drop_bit 57 (2 :: u64) = 0" by simp_all
  show "entry_at std_h 2 0 2 small_swaps small_area"
    by (simp add: entry_at_def std_h_def t small_swaps_def small_area_def si_get_def arr_get_def area_wf_def PAGE_SIZE_def
        slot_ok_def slot_byte_def)
  show "slot_refs small_area 2 = 62" "\<not> slot_cached small_area 2"
    by (simp_all add: slot_refs_def refs_of_def slot_byte_def slot_cached_def small_area_def)
qed

text \<open>
  C11: the swap counts refine a number and a flag: over any history of \<open>swap_duplicate\<close>, \<open>swap_free\<close>,
  \<open>swapcache_prepare\<close> and \<open>swapcache_free\<close> on an entry that is valid for the abstract slot, and as
  long as memory for continuation pages can be had, the code completes, the slot holds the number of
  references and the flag of the abstract slot, however often the count went over the digits of its
  bytes, the area stays well formed and unlocked, and no other slot of the area changes.
\<close>

theorem swap_history_refines:
  assumes "linux_swap_h K" "always_memory X" "entry_at K e ty off s p"
    and "run_ops slot_do os (slot_refs p off, slot_cached p off) = Some (n, c)"
  shows "\<exists>s' q. run_ops (swap_do K X e) os s = Some s' \<and> entry_at K e ty off s' q \<and> slot_refs q off = n \<and>
    slot_cached q off = c \<and> others_kept off p q"
  using history_refines [OF assms] unfolding slot_moved_def by blast

theorem swap_history_refines_witness:
  "\<exists>s' q. run_ops (swap_do std_h plain_kserv 2) [Duplicate, Prepare, Duplicate, Free, Free, Free, Cache_free] small_swaps = Some s' \<and>
    slot_refs q 2 = 61 \<and> \<not> slot_cached q 2 \<and> si_get 0 s' = Some q"
proof -
  have "run_ops slot_do [Duplicate, Prepare, Duplicate, Free, Free, Free, Cache_free] (slot_refs small_area 2, slot_cached small_area 2) =
      Some (61, False)" using small_entry by simp
  moreover have "always_memory plain_kserv" by (simp add: always_memory_def plain_kserv_def)
  ultimately obtain s' q where "run_ops (swap_do std_h plain_kserv 2) [Duplicate, Prepare, Duplicate, Free, Free, Free, Cache_free] small_swaps = Some s'"
      "entry_at std_h 2 0 2 s' q" "slot_refs q 2 = 61" "slot_cached q 2 = False"
    using swap_history_refines [OF std_h_linux _ small_entry(1)] by blast
  then show ?thesis by (auto simp: entry_at_def)
qed

text \<open>
  \<open>swap_duplicate\<close> always returns: its loop ends after at most one new continuation page, either
  with 0 and one reference more, or, when the page cannot be allocated, with \<open>-ENOMEM\<close> and the slot as
  it was.
\<close>

theorem swap_duplicate_returns:
  assumes "linux_swap_h K" "entry_at K e ty off s p" "0 < slot_refs p off \<or> slot_cached p off"
  shows "\<exists>r s' q. swap_duplicate K X e s = Some (r, s') \<and> entry_at K e ty off s' q \<and> others_kept off p q \<and>
    slot_cached q off = slot_cached p off \<and>
    (r = 0 \<and> slot_refs q off = slot_refs p off + 1 \<or>
     r = - ENOMEM \<and> slot_refs q off = slot_refs p off \<and> fst (alloc_page X (kern s)) = None)"
  using duplicate_adds_one [OF assms, of X] unfolding slot_moved_def by blast

theorem swap_duplicate_returns_witness:
  "\<exists>s' q. swap_duplicate std_h (plain_kserv\<lparr>alloc_page := (\<lambda>k. (None, k))\<rparr>) 2 small_swaps = Some (- ENOMEM, s') \<and> slot_refs q 2 = 62
    \<or> (\<exists>s' q. swap_duplicate std_h (plain_kserv\<lparr>alloc_page := (\<lambda>k. (None, k))\<rparr>) 2 small_swaps = Some (0, s') \<and> slot_refs q 2 = 63)"
  using swap_duplicate_returns [OF std_h_linux small_entry(1), of "plain_kserv\<lparr>alloc_page := (\<lambda>k. (None, k))\<rparr>"] small_entry by auto

text \<open>
  \<open>fork\<close> and \<open>exit\<close> balance: after \<open>n\<close> duplications of an entry and \<open>m\<close> drops, \<open>m\<close> at most what
  it then has, the count is the first count plus \<open>n\<close> minus \<open>m\<close> and the flag of the cache is what it was.
\<close>

theorem fork_exit_balance:
  assumes "counted K X e ty off s" "0 < refs_at ty off s" "m \<le> refs_at ty off s + n"
  shows "\<exists>t u. run_ops (\<lambda>_. swap_do K X e Duplicate) (replicate n ()) s = Some t \<and>
    run_ops (\<lambda>_. swap_do K X e Free) (replicate m ()) t = Some u \<and>
    refs_at ty off u = refs_at ty off s + n - m \<and> cached_at ty off u = cached_at ty off s"
  by (rule swap_slot.dups_drops [OF assms])

theorem fork_exit_balance_witness:
  "\<exists>t u. run_ops (\<lambda>_. swap_do std_h plain_kserv 2 Duplicate) (replicate 10000 ()) small_swaps = Some t \<and>
    run_ops (\<lambda>_. swap_do std_h plain_kserv 2 Free) (replicate 10062 ()) t = Some u \<and> refs_at 0 2 u = 0"
proof -
  have "counted std_h plain_kserv 2 0 2 small_swaps"
    using small_entry std_h_linux by (auto simp: counted_def always_memory_def plain_kserv_def)
  moreover have "refs_at 0 2 small_swaps = 62" using at_entry [OF small_entry(1)] small_entry by simp
  ultimately show ?thesis using fork_exit_balance [of std_h plain_kserv 2 0 2 small_swaps 10062 10000] by auto
qed

text \<open>
  the last reference frees the slot: \<open>swap_free\<close> gives the slot back (one more free page) exactly
  when it drops the only reference and the page is not in the swap cache.
\<close>

theorem last_free_releases:
  assumes "linux_swap_h K" "entry_at K e ty off s p" "0 < slot_refs p off"
  shows "\<exists>s' q. swap_free K X e s = Some s' \<and> entry_at K e ty off s' q \<and> slot_refs q off = slot_refs p off - 1 \<and>
    slot_cached q off = slot_cached p off \<and> others_kept off p q \<and>
    nr_swap_pages s' = nr_swap_pages s + (if slot_refs p off = 1 \<and> \<not> slot_cached p off then 1 else 0)"
  using free_drops_one [OF assms, of X] unfolding slot_moved_def by blast

theorem last_free_releases_witness:
  "\<exists>s'. swap_free std_h plain_kserv 2 small_swaps = Some s' \<and> refs_at 0 2 s' = 61 \<and> nr_swap_pages s' = 0"
proof -
  obtain s' q where "swap_free std_h plain_kserv 2 small_swaps = Some s'" "entry_at std_h 2 0 2 s' q" "slot_refs q 2 = 61"
      "nr_swap_pages s' = nr_swap_pages small_swaps"
    using last_free_releases [OF std_h_linux small_entry(1), of plain_kserv] small_entry(2) by auto
  moreover have "nr_swap_pages small_swaps = 0" by (simp add: small_swaps_def)
  ultimately show ?thesis using at_entry [of std_h 2 0 2 s' q] by (intro exI [of _ s']) simp
qed

lemma comex_uncounted:
  assumes "swp_type K e = 8 \<or> swp_type K e = 9" and "\<not> non_swap_entry K e"
  shows "swap_duplicate_usage K e u s = Some (0, s)"
  using assms by (auto simp: swap_duplicate_usage_def Let_def)

text \<open>
  The entries of COMEX (types 8 and 9) are not counted: \<open>swap_duplicate\<close> reports success and
  \<open>swapcache_prepare\<close> reports that the cache flag was free, both without a change, and \<open>swap_free\<close>
  does nothing as long as no swap area of that number is in use.  Two page tables that share such an
  entry after a fork share a page that the first of them to read it back gives away.
\<close>

theorem comex_entries_uncounted:
  assumes "swp_type K e = 8 \<or> swp_type K e = 9" "\<not> non_swap_entry K e" "length (swap_info s) = 29"
    "swap_info s ! unat (swp_type K e) = None"
  shows "swap_duplicate K X e s = Some (0, s) \<and> swapcache_prepare K e s = Some (0, s) \<and> swap_free K X e s = Some s \<and>
    swapcache_free K X e pg s = Some s"
proof -
  note d = comex_uncounted [OF assms(1,2)]
  then have "swap_duplicate K X e s = Some (0, s)" "swapcache_prepare K e s = Some (0, s)"
    by (simp add: swap_duplicate.simps d errnos) (simp add: swapcache_prepare_def d)
  moreover have "swap_info_get K e s = Some (None, s)"
    using assms by (auto simp: swap_info_get_def Let_def arr_get_def)
  ultimately show ?thesis by (simp add: swap_free_def swapcache_free_def)
qed

theorem comex_entries_uncounted_witness:
  "swap_duplicate std_h plain_kserv (swp_entry std_h 8 5) small_swaps = Some (0, small_swaps) \<and>
   swap_free std_h plain_kserv (swp_entry std_h 8 5) small_swaps = Some small_swaps"
proof -
  have "swp_type std_h (swp_entry std_h 8 5) = 8" using std_h_linux by (simp add: linux_swap_h_def)
  then show ?thesis
    using comex_entries_uncounted [of std_h "swp_entry std_h 8 5" small_swaps plain_kserv None] std_h_linux
    by (simp add: linux_swap_h_def small_swaps_def)
qed

end
