(* ===== verification/Swap_Cache.thy ===== *)
theory Swap_Cache
  imports Swap_History
begin

text \<open>
  The swap cache: \<open>swap_state.c\<close> (62-155, 299-380) and the functions of \<open>swapfile.c\<close> that go through it
  (76-99, 681-778).  A page in the cache is found under its entry in the space of the entry's type,
  has the flag \<open>PageSwapCache\<close> and the entry in its private field, and the cache holds one reference
  on it.
\<close>

section \<open>Pages\<close>

definition frame_upd :: "int \<Rightarrow> (page_t \<Rightarrow> page_t) \<Rightarrow> 'k swaps \<Rightarrow> 'k swaps" where
  "frame_upd pg f s = s\<lparr>frames := (frames s)(pg := f (frames s pg))\<rparr>"

definition page_cache_get :: "int \<Rightarrow> 'k swaps \<Rightarrow> 'k swaps" where
  "page_cache_get pg = frame_upd pg (\<lambda>p. p\<lparr>p_count := p_count p + 1\<rparr>)"

definition page_cache_release :: "int \<Rightarrow> 'k swaps \<Rightarrow> 'k swaps" where
  "page_cache_release pg = frame_upd pg (\<lambda>p. p\<lparr>p_count := p_count p - 1\<rparr>)"

definition trylock_page :: "int \<Rightarrow> 'k swaps \<Rightarrow> bool \<times> 'k swaps" where
  "trylock_page pg s = (if PageLocked (frames s pg) then (False, s)
     else (True, frame_upd pg (\<lambda>p. p\<lparr>PageLocked := True\<rparr>) s))"

definition unlock_page :: "int \<Rightarrow> 'k swaps \<Rightarrow> 'k swaps" where
  "unlock_page pg = frame_upd pg (\<lambda>p. p\<lparr>PageLocked := False\<rparr>)"

definition SetPageDirty :: "int \<Rightarrow> 'k swaps \<Rightarrow> 'k swaps" where
  "SetPageDirty pg = frame_upd pg (\<lambda>p. p\<lparr>PageDirty := True\<rparr>)"

definition page_mapped :: "page_t \<Rightarrow> bool" where
  "page_mapped p \<longleftrightarrow> 0 < p_mapcount p"

section \<open>The caches\<close>

definition space_get :: "swap_h \<Rightarrow> entry \<Rightarrow> 'k swaps \<Rightarrow> address_space option" where
  "space_get K e s = arr_get (swapper_spaces s) (uint (swp_type K e))"

definition space_upd :: "swap_h \<Rightarrow> entry \<Rightarrow> (address_space \<Rightarrow> address_space) \<Rightarrow> 'k swaps \<Rightarrow> 'k swaps option" where
  "space_upd K e f s = do { xs \<leftarrow> arr_upd (swapper_spaces s) (uint (swp_type K e)) f; Some (s\<lparr>swapper_spaces := xs\<rparr>) }"

definition total_swapcache_pages :: "'k swaps \<Rightarrow> u64" where
  "total_swapcache_pages s = foldl (\<lambda>ret a. ret + nrpages a) 0 (swapper_spaces s)"

text \<open>\<open>find_get_page(swap_address_space(entry), entry.val)\<close>: the page comes with a reference.\<close>

definition find_get_page :: "swap_h \<Rightarrow> entry \<Rightarrow> 'k swaps \<Rightarrow> (int option \<times> 'k swaps) option" where
  "find_get_page K e s = do {
     a \<leftarrow> space_get K e s;
     Some (case page_tree a e of None \<Rightarrow> (None, s) | Some pg \<Rightarrow> (Some pg, page_cache_get pg s))
   }"

text \<open>
  \<open>radix_tree_insert\<close>: \<open>-EEXIST\<close> when the key is there, otherwise the error of the allocation of
  nodes, if any.
\<close>

definition radix_tree_insert :: "swap_h \<Rightarrow> 'k kserv \<Rightarrow> entry \<Rightarrow> int \<Rightarrow> 'k swaps \<Rightarrow> (int \<times> 'k swaps) option" where
  "radix_tree_insert K X e pg s = do {
     a \<leftarrow> space_get K e s;
     if page_tree a e \<noteq> None then Some (- EEXIST, s)
     else do {
       let (err, k) = radix_tree_room X (kern s);
       let s = s\<lparr>kern := k\<rparr>;
       if err \<noteq> 0 then Some (err, s)
       else do { s \<leftarrow> space_upd K e (\<lambda>a. a\<lparr>page_tree := (page_tree a)(e \<mapsto> pg)\<rparr>) s; Some (0, s) }
     }
   }"

definition info_upd :: "(swap_cache_info_t \<Rightarrow> swap_cache_info_t) \<Rightarrow> 'k swaps \<Rightarrow> 'k swaps" where
  "info_upd f s = s\<lparr>swap_cache_info := f (swap_cache_info s)\<rparr>"

definition u_add_to_swap_cache :: "swap_h \<Rightarrow> 'k kserv \<Rightarrow> int \<Rightarrow> entry \<Rightarrow> 'k swaps \<Rightarrow> (int \<times> 'k swaps) option" where
  "u_add_to_swap_cache K X pg e s =
     (if \<not> PageLocked (frames s pg) \<or> PageSwapCache (frames s pg) \<or> \<not> PageSwapBacked (frames s pg) then None
      else do {
        let s = page_cache_get pg s;
        let s = frame_upd pg (\<lambda>p. p\<lparr>PageSwapCache := True, page_private := e\<rparr>) s;
        (err, s) \<leftarrow> radix_tree_insert K X e pg s;
        if err = 0 then do {
          s \<leftarrow> space_upd K e (\<lambda>a. a\<lparr>nrpages := nrpages a + 1\<rparr>) s;
          Some (0, info_upd (\<lambda>i. i\<lparr>add_total := add_total i + 1\<rparr>) s)
        }
        else Some (err, page_cache_release pg
               (frame_upd pg (\<lambda>p. p\<lparr>PageSwapCache := False, page_private := 0\<rparr>) s))
      })"

definition add_to_swap_cache :: "swap_h \<Rightarrow> 'k kserv \<Rightarrow> int \<Rightarrow> entry \<Rightarrow> 'k swaps \<Rightarrow> (int \<times> 'k swaps) option" where
  "add_to_swap_cache K X pg e s = do {
     let (err, k) = radix_tree_preload X (kern s);
     let s = s\<lparr>kern := k\<rparr>;
     if err = 0 then u_add_to_swap_cache K X pg e s else Some (err, s)
   }"

definition u_delete_from_swap_cache :: "swap_h \<Rightarrow> int \<Rightarrow> 'k swaps \<Rightarrow> 'k swaps option" where
  "u_delete_from_swap_cache K pg s =
     (if \<not> PageLocked (frames s pg) \<or> \<not> PageSwapCache (frames s pg) \<or> PageWriteback (frames s pg) then None
      else do {
        let e = page_private (frames s pg);
        s \<leftarrow> space_upd K e (\<lambda>a. a\<lparr>page_tree := (page_tree a)(e := None)\<rparr>) s;
        let s = frame_upd pg (\<lambda>p. p\<lparr>page_private := 0, PageSwapCache := False\<rparr>) s;
        s \<leftarrow> space_upd K e (\<lambda>a. a\<lparr>nrpages := nrpages a - 1\<rparr>) s;
        Some (info_upd (\<lambda>i. i\<lparr>del_total := del_total i + 1\<rparr>) s)
      })"

definition delete_from_swap_cache :: "swap_h \<Rightarrow> 'k kserv \<Rightarrow> int \<Rightarrow> 'k swaps \<Rightarrow> 'k swaps option" where
  "delete_from_swap_cache K X pg s = do {
     let e = page_private (frames s pg);
     s \<leftarrow> u_delete_from_swap_cache K pg s;
     s \<leftarrow> swapcache_free K X e (Some pg) s;
     Some (page_cache_release pg s)
   }"

definition lookup_swap_cache :: "swap_h \<Rightarrow> entry \<Rightarrow> 'k swaps \<Rightarrow> (int option \<times> 'k swaps) option" where
  "lookup_swap_cache K e s = do {
     (pg, s) \<leftarrow> find_get_page K e s;
     let s = (if pg = None then s else info_upd (\<lambda>i. i\<lparr>find_success := find_success i + 1\<rparr>) s);
     Some (pg, info_upd (\<lambda>i. i\<lparr>find_total := find_total i + 1\<rparr>) s)
   }"

section \<open>Giving swap back\<close>

definition try_to_free_swap :: "swap_h \<Rightarrow> 'k kserv \<Rightarrow> int \<Rightarrow> 'k swaps \<Rightarrow> (int \<times> 'k swaps) option" where
  "try_to_free_swap K X pg s =
     (if \<not> PageLocked (frames s pg) then None
      else if \<not> PageSwapCache (frames s pg) then Some (0, s)
      else if PageWriteback (frames s pg) then Some (0, s)
      else do {
        (n, s) \<leftarrow> page_swapcount K pg s;
        if n \<noteq> 0 then Some (0, s)
        else if pm_suspended_storage X (kern s) then Some (0, s)
        else do { s \<leftarrow> delete_from_swap_cache K X pg s; Some (1, SetPageDirty pg s) }
      })"

definition reuse_swap_page :: "swap_h \<Rightarrow> 'k kserv \<Rightarrow> int \<Rightarrow> 'k swaps \<Rightarrow> (bool \<times> 'k swaps) option" where
  "reuse_swap_page K X pg s =
     (if \<not> PageLocked (frames s pg) then None
      else if PageKsm (frames s pg) then Some (False, s)
      else do {
        let count = p_mapcount (frames s pg);
        if count \<le> 1 \<and> PageSwapCache (frames s pg) then do {
          (n, s) \<leftarrow> page_swapcount K pg s;
          let count = count + n;
          s \<leftarrow> (if count = 1 \<and> \<not> PageWriteback (frames s pg)
                then map_option (SetPageDirty pg) (delete_from_swap_cache K X pg s) else Some s);
          Some (count \<le> 1, s)
        } else Some (count \<le> 1, s)
      })"

definition free_swap_cache :: "swap_h \<Rightarrow> 'k kserv \<Rightarrow> int \<Rightarrow> 'k swaps \<Rightarrow> 'k swaps option" where
  "free_swap_cache K X pg s =
     (if PageSwapCache (frames s pg) \<and> \<not> page_mapped (frames s pg) then do {
        let (got, s) = trylock_page pg s;
        if got then do { (_, s) \<leftarrow> try_to_free_swap K X pg s; Some (unlock_page pg s) } else Some s
      } else Some s)"

definition free_page_and_swap_cache :: "swap_h \<Rightarrow> 'k kserv \<Rightarrow> int \<Rightarrow> 'k swaps \<Rightarrow> 'k swaps option" where
  "free_page_and_swap_cache K X pg s = map_option (page_cache_release pg) (free_swap_cache K X pg s)"

text \<open>
  \<open>free_pages_and_swap_cache\<close> works in chunks of \<open>PAGEVEC_SIZE\<close> (14): the caches of a chunk first,
  then its references.
\<close>

fun free_swap_caches :: "swap_h \<Rightarrow> 'k kserv \<Rightarrow> int list \<Rightarrow> 'k swaps \<Rightarrow> 'k swaps option" where
  "free_swap_caches K X [] s = Some s"
| "free_swap_caches K X (pg # pgs) s = do { s \<leftarrow> free_swap_cache K X pg s; free_swap_caches K X pgs s }"

definition release_pages :: "int list \<Rightarrow> 'k swaps \<Rightarrow> 'k swaps" where
  "release_pages pgs s = fold page_cache_release pgs s"

function free_pages_and_swap_cache :: "swap_h \<Rightarrow> 'k kserv \<Rightarrow> nat \<Rightarrow> int list \<Rightarrow> 'k swaps \<Rightarrow> 'k swaps option" where
  "free_pages_and_swap_cache K X vec pgs s =
     (if pgs = [] \<or> vec = 0 then Some s
      else do {
        s \<leftarrow> free_swap_caches K X (take vec pgs) s;
        free_pages_and_swap_cache K X vec (drop vec pgs) (release_pages (take vec pgs) s)
      })"
  by pat_completeness auto
termination
  by (relation "measure (\<lambda>(K, X, vec, pgs, s). length pgs)") auto

declare free_pages_and_swap_cache.simps [simp del]

definition free_swap_and_cache :: "swap_h \<Rightarrow> 'k kserv \<Rightarrow> entry \<Rightarrow> 'k swaps \<Rightarrow> (bool \<times> 'k swaps) option" where
  "free_swap_and_cache K X e s =
     (if non_swap_entry K e then Some (True, s)
      else do {
        (p, s) \<leftarrow> swap_info_get K e s;
        case p of None \<Rightarrow> Some (False, s)
        | Some ty \<Rightarrow> do {
            (count, s) \<leftarrow> swap_entry_free K X ty e 1 s;
            (page, s) \<leftarrow> (if count = SWAP_HAS_CACHE K then do {
                (page, s) \<leftarrow> find_get_page K e s;
                case page of None \<Rightarrow> Some (None, s)
                | Some pg \<Rightarrow> (case trylock_page pg s of
                    (True, s) \<Rightarrow> Some (Some pg, s)
                  | (False, s) \<Rightarrow> Some (None, page_cache_release pg s))
              } else Some (None, s));
            s \<leftarrow> spin_unlock_si ty s;
            case page of None \<Rightarrow> Some (True, s)
            | Some pg \<Rightarrow> do {
                s \<leftarrow> (if PageSwapCache (frames s pg) \<and> \<not> PageWriteback (frames s pg) \<and>
                        (\<not> page_mapped (frames s pg) \<or> vm_swap_full K (nr_swap_pages s) (total_swap_pages s))
                      then map_option (SetPageDirty pg) (delete_from_swap_cache K X pg s) else Some s);
                Some (True, page_cache_release pg (unlock_page pg s))
              }
          }
      })"

text \<open>\<open>__try_to_reclaim_swap\<close>, called by the scan for a slot whose page is only in the cache.\<close>

definition try_to_reclaim_swap :: "swap_h \<Rightarrow> 'k kserv \<Rightarrow> u64 \<Rightarrow> u64 \<Rightarrow> 'k swaps \<Rightarrow> (int \<times> 'k swaps) option" where
  "try_to_reclaim_swap K X type offset s = do {
     let e = swp_entry K type offset;
     (page, s) \<leftarrow> find_get_page K e s;
     case page of None \<Rightarrow> Some (0, s)
     | Some pg \<Rightarrow> do {
         let (got, s) = trylock_page pg s;
         (ret, s) \<leftarrow> (if got then do { (r, s) \<leftarrow> try_to_free_swap K X pg s; Some (r, unlock_page pg s) } else Some (0, s));
         Some (ret, page_cache_release pg s)
       }
   }"

section \<open>The caches are what the pages say\<close>

text \<open>
  An entry is looked up in the space of its type; whatever is found there carries the flag and the
  entry, and a page with the flag is found under its entry.
\<close>

definition cached_page :: "swap_h \<Rightarrow> entry \<Rightarrow> 'k swaps \<Rightarrow> int option" where
  "cached_page K e s = (if unat (swp_type K e) < length (swapper_spaces s)
     then page_tree (swapper_spaces s ! unat (swp_type K e)) e else None)"

definition cache_inv :: "swap_h \<Rightarrow> 'k swaps \<Rightarrow> bool" where
  "cache_inv K s \<longleftrightarrow>
     (\<forall>t < length (swapper_spaces s). \<forall>e pg. page_tree (swapper_spaces s ! t) e = Some pg \<longrightarrow> unat (swp_type K e) = t) \<and>
     (\<forall>e pg. cached_page K e s = Some pg \<longleftrightarrow> PageSwapCache (frames s pg) \<and> page_private (frames s pg) = e)"

lemma type_index: "nat (uint (t :: u64)) = unat t" "uint (t :: u64) < int n \<longleftrightarrow> unat t < n"
proof -
  show 1: "nat (uint t) = unat t" by simp
  have "nat (uint t) < n \<longleftrightarrow> uint t < int n" by (rule nat_less_iff) simp
  then show "uint t < int n \<longleftrightarrow> unat t < n" by simp
qed

lemma space_get_eq: "space_get K e s = (if unat (swp_type K e) < length (swapper_spaces s)
    then Some (swapper_spaces s ! unat (swp_type K e)) else None)"
  by (simp add: space_get_def arr_get_def type_index)

lemma space_upd_eq: "space_upd K e f s = (if unat (swp_type K e) < length (swapper_spaces s)
    then Some (s\<lparr>swapper_spaces := (swapper_spaces s)[unat (swp_type K e) := f (swapper_spaces s ! unat (swp_type K e))]\<rparr>) else None)"
  by (simp add: space_upd_def arr_upd_def arr_get_def arr_set_def type_index)

lemma insert_result:
  assumes t: "unat (swp_type K e) < length (swapper_spaces s)" and n: "cached_page K e s = None"
  shows "radix_tree_insert K X e pg s = (let (err, k) = radix_tree_room X (kern s) in
    if err \<noteq> 0 then Some (err, s\<lparr>kern := k\<rparr>)
    else Some (0, s\<lparr>kern := k, swapper_spaces := (swapper_spaces s)[unat (swp_type K e) :=
      (swapper_spaces s ! unat (swp_type K e))\<lparr>page_tree := (page_tree (swapper_spaces s ! unat (swp_type K e)))(e \<mapsto> pg)\<rparr>]\<rparr>))"
  using t n by (simp add: radix_tree_insert_def space_get_eq space_upd_eq cached_page_def Let_def split: prod.split)

lemma cached_page_upd:
  assumes "unat (swp_type K e) < length (swapper_spaces s)"
    and "swapper_spaces s' = (swapper_spaces s)[unat (swp_type K e) := a]"
    and "page_tree a = (page_tree (swapper_spaces s ! unat (swp_type K e)))(e := v)"
  shows "cached_page K e' s' = (if e' = e then v else cached_page K e' s)"
  using assms by (auto simp: cached_page_def nth_list_update)

text \<open>The cache gains or loses one page; the pages agree.\<close>

lemma cache_inv_change:
  assumes inv: "cache_inv K s" and t: "unat (swp_type K e) < length (swapper_spaces s)"
    and sp: "swapper_spaces s' = (swapper_spaces s)[unat (swp_type K e) := a]"
    and a: "page_tree a = (page_tree (swapper_spaces s ! unat (swp_type K e)))(e := v)"
    and fr: "\<And>q. q \<noteq> pg \<Longrightarrow> frames s' q = frames s q"
    and old: "\<And>q. cached_page K e s = Some q \<Longrightarrow> q = pg" "PageSwapCache (frames s pg) \<Longrightarrow> page_private (frames s pg) = e"
    and new: "v = Some pg \<and> PageSwapCache (frames s' pg) \<and> page_private (frames s' pg) = e \<or> v = None \<and> \<not> PageSwapCache (frames s' pg)"
  shows "cache_inv K s'"
proof -
  have c: "cached_page K e' s' = (if e' = e then v else cached_page K e' s)" for e'
    using cached_page_upd [OF t sp a] .
  have k: "cached_page K e' s = Some q \<longleftrightarrow> PageSwapCache (frames s q) \<and> page_private (frames s q) = e'" for e' q
    using inv unfolding cache_inv_def by blast
  have "cached_page K e' s' = Some q \<longleftrightarrow> PageSwapCache (frames s' q) \<and> page_private (frames s' q) = e'" for e' q
  proof (cases "q = pg")
    case True
    have "e' \<noteq> e \<Longrightarrow> cached_page K e' s \<noteq> Some pg" using k [of e' pg] old(2) by blast
    then show ?thesis using c new True by auto
  next
    case False
    have "cached_page K e s \<noteq> Some q" using old(1) False by blast
    then show ?thesis using c [of e'] new False k [of e' q] fr [OF False] by (auto split: if_splits)
  qed
  moreover have "\<forall>t' < length (swapper_spaces s'). \<forall>e' q. page_tree (swapper_spaces s' ! t') e' = Some q \<longrightarrow> unat (swp_type K e') = t'"
    using inv sp a t unfolding cache_inv_def by (auto simp: nth_list_update split: if_splits)
  ultimately show ?thesis unfolding cache_inv_def by blast
qed

lemma add_to_cache:
  assumes inv: "cache_inv K s" and t: "unat (swp_type K e) < length (swapper_spaces s)" and n: "cached_page K e s = None"
    and pg: "PageLocked (frames s pg)" "\<not> PageSwapCache (frames s pg)" "PageSwapBacked (frames s pg)" "page_private (frames s pg) = 0"
    and room: "\<forall>k. fst (radix_tree_room X k) \<noteq> - EEXIST"
  shows "\<exists>r s'. u_add_to_swap_cache K X pg e s = Some (r, s') \<and> cache_inv K s' \<and> (\<forall>q. q \<noteq> pg \<longrightarrow> frames s' q = frames s q) \<and>
    swap_info s' = swap_info s \<and> length (swapper_spaces s') = length (swapper_spaces s) \<and>
    (\<forall>e'. e' \<noteq> e \<longrightarrow> cached_page K e' s' = cached_page K e' s) \<and>
    (r = 0 \<and> cached_page K e s' = Some pg \<and> frames s' pg = (frames s pg)\<lparr>p_count := p_count (frames s pg) + 1, PageSwapCache := True, page_private := e\<rparr> \<or>
     r \<noteq> 0 \<and> cached_page K e s' = None \<and> frames s' = frames s)"
proof -
  obtain err k where k: "radix_tree_room X (kern s) = (err, k)" by fastforce
  let ?t = "unat (swp_type K e)"
  define s1 where "s1 = frame_upd pg (\<lambda>p. p\<lparr>PageSwapCache := True, page_private := e\<rparr>) (page_cache_get pg s)"
  have s1: "swapper_spaces s1 = swapper_spaces s" "kern s1 = kern s" "swap_info s1 = swap_info s"
    by (simp_all add: s1_def page_cache_get_def frame_upd_def)
  have ins: "radix_tree_insert K X e pg s1 = (if err \<noteq> 0 then Some (err, s1\<lparr>kern := k\<rparr>)
    else Some (0, s1\<lparr>kern := k, swapper_spaces := (swapper_spaces s)[?t :=
      (swapper_spaces s ! ?t)\<lparr>page_tree := (page_tree (swapper_spaces s ! ?t))(e \<mapsto> pg)\<rparr>]\<rparr>))"
    using insert_result [of K e s1 X pg] t n s1 k by (simp add: cached_page_def)
  show ?thesis
  proof (cases "err = 0")
    case True
    define s2 where "s2 = s1\<lparr>kern := k, swapper_spaces := (swapper_spaces s)[?t :=
      (swapper_spaces s ! ?t)\<lparr>page_tree := (page_tree (swapper_spaces s ! ?t))(e \<mapsto> pg)\<rparr>]\<rparr>"
    define a where "a = (swapper_spaces s ! ?t)\<lparr>page_tree := (page_tree (swapper_spaces s ! ?t))(e \<mapsto> pg),
        nrpages := nrpages (swapper_spaces s ! ?t) + 1\<rparr>"
    define s3 where "s3 = info_upd (\<lambda>i. i\<lparr>add_total := add_total i + 1\<rparr>) (s2\<lparr>swapper_spaces := (swapper_spaces s)[?t := a]\<rparr>)"
    have u: "u_add_to_swap_cache K X pg e s = Some (0, s3)"
      using pg ins True t
      by (simp add: u_add_to_swap_cache_def s1_def [symmetric] Let_def space_upd_eq s2_def s3_def a_def)
    have fr: "frames s3 = (frames s)(pg := (frames s pg)\<lparr>p_count := p_count (frames s pg) + 1, PageSwapCache := True, page_private := e\<rparr>)"
      by (simp add: s3_def s2_def s1_def info_upd_def page_cache_get_def frame_upd_def)
    have sp: "swapper_spaces s3 = (swapper_spaces s)[?t := a]" "swap_info s3 = swap_info s"
      by (simp_all add: s3_def s2_def info_upd_def s1)
    have at: "page_tree a = (page_tree (swapper_spaces s ! ?t))(e := Some pg)" by (simp add: a_def)
    have "cache_inv K s3"
      by (rule cache_inv_change [OF inv t sp(1) at, of pg]) (use n pg fr in auto)
    moreover have "cached_page K e' s3 = (if e' = e then Some pg else cached_page K e' s)" for e'
      by (rule cached_page_upd [OF t sp(1) at])
    ultimately show ?thesis using u fr sp by simp
  next
    case False
    define s2 where "s2 = page_cache_release pg (frame_upd pg (\<lambda>p. p\<lparr>PageSwapCache := False, page_private := 0\<rparr>) (s1\<lparr>kern := k\<rparr>))"
    have "err \<noteq> - EEXIST" using room k by (metis fst_conv)
    then have u: "u_add_to_swap_cache K X pg e s = Some (err, s2)"
      using pg ins False by (simp add: u_add_to_swap_cache_def s1_def [symmetric] Let_def s2_def)
    have "frames s2 pg = frames s pg"
      using pg by (cases "frames s pg") (simp add: s2_def s1_def page_cache_release_def page_cache_get_def frame_upd_def)
    moreover have "q \<noteq> pg \<Longrightarrow> frames s2 q = frames s q" for q
      by (simp add: s2_def s1_def page_cache_release_def page_cache_get_def frame_upd_def)
    ultimately have fr: "frames s2 = frames s" by (metis ext)
    have sp: "swapper_spaces s2 = swapper_spaces s" "swap_info s2 = swap_info s"
      by (simp_all add: s2_def s1 page_cache_release_def frame_upd_def)
    then have cp: "cached_page K e' s2 = cached_page K e' s" for e' by (simp add: cached_page_def)
    have "cache_inv K s2" using inv sp fr cp by (simp add: cache_inv_def)
    then show ?thesis using u fr sp False n cp by (intro exI [of _ err] exI [of _ s2]) simp
  qed
qed

lemma remove_from_cache:
  assumes inv: "cache_inv K s" and pg: "PageLocked (frames s pg)" "PageSwapCache (frames s pg)" "\<not> PageWriteback (frames s pg)"
    and e: "e = page_private (frames s pg)"
  shows "\<exists>s'. u_delete_from_swap_cache K pg s = Some s' \<and> cache_inv K s' \<and> cached_page K e s' = None \<and>
    (\<forall>e'. e' \<noteq> e \<longrightarrow> cached_page K e' s' = cached_page K e' s) \<and> swap_info s' = swap_info s \<and>
    frames s' = (frames s)(pg := (frames s pg)\<lparr>page_private := 0, PageSwapCache := False\<rparr>)"
proof -
  let ?t = "unat (swp_type K e)"
  have c: "cached_page K e s = Some pg" using inv pg e unfolding cache_inv_def by blast
  then have t: "?t < length (swapper_spaces s)" by (auto simp: cached_page_def split: if_splits)
  define a where "a = (swapper_spaces s ! ?t)\<lparr>page_tree := (page_tree (swapper_spaces s ! ?t))(e := None),
      nrpages := nrpages (swapper_spaces s ! ?t) - 1\<rparr>"
  define s1 where "s1 = (frame_upd pg (\<lambda>p. p\<lparr>page_private := 0, PageSwapCache := False\<rparr>) s)\<lparr>swapper_spaces := (swapper_spaces s)[?t := a]\<rparr>"
  define s2 where "s2 = info_upd (\<lambda>i. i\<lparr>del_total := del_total i + 1\<rparr>) s1"
  have u: "u_delete_from_swap_cache K pg s = Some s2"
    using pg t by (simp add: u_delete_from_swap_cache_def Let_def space_upd_eq frame_upd_def info_upd_def s2_def s1_def a_def flip: e)
  have sp: "swapper_spaces s2 = (swapper_spaces s)[?t := a]" "swap_info s2 = swap_info s"
    by (simp_all add: s2_def s1_def info_upd_def frame_upd_def)
  have fr: "frames s2 = (frames s)(pg := (frames s pg)\<lparr>page_private := 0, PageSwapCache := False\<rparr>)"
    by (simp add: s2_def s1_def info_upd_def frame_upd_def)
  have at: "page_tree a = (page_tree (swapper_spaces s ! ?t))(e := None)" by (simp add: a_def)
  have "cache_inv K s2" by (rule cache_inv_change [OF inv t sp(1) at, of pg]) (use c e fr in auto)
  moreover have "cached_page K e' s2 = (if e' = e then None else cached_page K e' s)" for e'
    by (rule cached_page_upd [OF t sp(1) at])
  ultimately show ?thesis using u fr sp by simp
qed

text \<open>With memory for the nodes of the tree the page is added.\<close>

lemma add_succeeds:
  assumes "fst (radix_tree_room X (kern s)) = 0" and "unat (swp_type K e) < length (swapper_spaces s)" and "cached_page K e s = None"
    and "PageLocked (frames s pg)" "\<not> PageSwapCache (frames s pg)" "PageSwapBacked (frames s pg)"
  shows "\<exists>s'. u_add_to_swap_cache K X pg e s = Some (0, s')"
proof -
  obtain k where k: "radix_tree_room X (kern s) = (0, k)" using assms(1) by (cases "radix_tree_room X (kern s)") auto
  show ?thesis using assms k
    by (simp add: u_add_to_swap_cache_def radix_tree_insert_def space_get_eq space_upd_eq Let_def frame_upd_def page_cache_get_def cached_page_def)
qed

section \<open>Properties\<close>

text \<open>
  The swap cache is kept consistent: \<open>add_to_swap_cache\<close> on an entry that is not cached either
  succeeds, and then the entry is found to be this page, which holds one reference more, or fails and
  leaves the page as it was; no other entry or page is affected either way.
\<close>

theorem add_to_swap_cache_consistent:
  assumes "cache_inv K s" "unat (swp_type K e) < length (swapper_spaces s)" "cached_page K e s = None"
    and "PageLocked (frames s pg)" "\<not> PageSwapCache (frames s pg)" "PageSwapBacked (frames s pg)" "page_private (frames s pg) = 0"
    and "\<forall>k. fst (radix_tree_room X k) \<noteq> - EEXIST"
  shows "\<exists>r s'. add_to_swap_cache K X pg e s = Some (r, s') \<and> cache_inv K s' \<and>
    (\<forall>q. q \<noteq> pg \<longrightarrow> frames s' q = frames s q) \<and> (\<forall>e'. e' \<noteq> e \<longrightarrow> cached_page K e' s' = cached_page K e' s) \<and>
    (if r = 0 then cached_page K e s' = Some pg \<and> p_count (frames s' pg) = p_count (frames s pg) + 1
     else cached_page K e s' = None \<and> frames s' = frames s)"
proof -
  obtain err k where k: "radix_tree_preload X (kern s) = (err, k)" by fastforce
  let ?s = "s\<lparr>kern := k\<rparr>"
  have c: "cached_page K e' ?s = cached_page K e' s" for e' by (simp add: cached_page_def)
  have i: "cache_inv K ?s" using assms(1) by (simp add: cache_inv_def c)
  show ?thesis
  proof (cases "err = 0")
    case True
    have "\<exists>r s'. u_add_to_swap_cache K X pg e ?s = Some (r, s') \<and> cache_inv K s' \<and> (\<forall>q. q \<noteq> pg \<longrightarrow> frames s' q = frames ?s q) \<and>
        swap_info s' = swap_info ?s \<and> length (swapper_spaces s') = length (swapper_spaces ?s) \<and>
        (\<forall>e'. e' \<noteq> e \<longrightarrow> cached_page K e' s' = cached_page K e' ?s) \<and>
        (r = 0 \<and> cached_page K e s' = Some pg \<and> frames s' pg = (frames ?s pg)\<lparr>p_count := p_count (frames ?s pg) + 1, PageSwapCache := True, page_private := e\<rparr> \<or>
         r \<noteq> 0 \<and> cached_page K e s' = None \<and> frames s' = frames ?s)"
      by (rule add_to_cache [OF i]) (use assms c in simp_all)
    then obtain r s' where r: "u_add_to_swap_cache K X pg e ?s = Some (r, s')" "cache_inv K s'"
        "\<forall>q. q \<noteq> pg \<longrightarrow> frames s' q = frames s q" "\<forall>e'. e' \<noteq> e \<longrightarrow> cached_page K e' s' = cached_page K e' s"
        "r = 0 \<and> cached_page K e s' = Some pg \<and> p_count (frames s' pg) = p_count (frames s pg) + 1 \<or>
         r \<noteq> 0 \<and> cached_page K e s' = None \<and> frames s' = frames s" using c by auto
    have "add_to_swap_cache K X pg e s = Some (r, s')" using True k r(1) by (simp add: add_to_swap_cache_def)
    then show ?thesis using r(2-5) by (intro exI [of _ r] exI [of _ s']) auto
  next
    case False
    then show ?thesis using k c i assms(3) by (simp add: add_to_swap_cache_def)
  qed
qed

definition empty_swaps :: "unit swaps" where
  "empty_swaps = small_swaps\<lparr>frames := (\<lambda>_. plain_page)\<rparr>"

lemma empty_cache: "cache_inv K empty_swaps" "cached_page K e empty_swaps = None" "length (swapper_spaces empty_swaps) = 29"
  "frames empty_swaps q = plain_page"
proof -
  have p: "page_tree (replicate 29 \<lparr>page_tree = (\<lambda>_. None), nrpages = 0\<rparr> ! t) e = None" if "t < 29" for t e
    using that by simp
  then show c: "cached_page K e empty_swaps = None" for e by (simp add: cached_page_def empty_swaps_def small_swaps_def)
  show "cache_inv K empty_swaps"
    unfolding cache_inv_def c by (simp add: empty_swaps_def small_swaps_def plain_page_def)
qed (simp_all add: empty_swaps_def small_swaps_def)

theorem add_to_swap_cache_consistent_witness:
  "\<exists>r s'. add_to_swap_cache std_h plain_kserv 7 2 empty_swaps = Some (r, s') \<and> cache_inv std_h s'"
  using add_to_swap_cache_consistent [OF empty_cache(1), of std_h 2 7 plain_kserv] empty_cache
  by (auto simp: plain_page_def plain_kserv_def errnos std_h_def)

text \<open>
  Deleting a page from the swap cache undoes adding it: after both, no entry is cached that was
  not before, the page has the flags and the reference count it had, and its entry's flag in the swap
  area is cleared by the \<open>swapcache_free\<close> that follows.
\<close>

theorem swap_cache_roundtrip:
  assumes "cache_inv K s" "unat (swp_type K e) < length (swapper_spaces s)" "cached_page K e s = None"
    and "PageLocked (frames s pg)" "\<not> PageSwapCache (frames s pg)" "PageSwapBacked (frames s pg)" "page_private (frames s pg) = 0"
    and "\<not> PageWriteback (frames s pg)" "\<forall>k. fst (radix_tree_room X k) \<noteq> - EEXIST"
    and "u_add_to_swap_cache K X pg e s = Some (0, t)"
  shows "\<exists>u. u_delete_from_swap_cache K pg t = Some u \<and> cache_inv K u \<and> (\<forall>e'. cached_page K e' u = cached_page K e' s) \<and>
    frames (page_cache_release pg u) = frames s"
proof -
  have a: "cache_inv K t" "\<forall>q. q \<noteq> pg \<longrightarrow> frames t q = frames s q" "\<forall>e'. e' \<noteq> e \<longrightarrow> cached_page K e' t = cached_page K e' s"
      "cached_page K e t = Some pg"
      "frames t pg = (frames s pg)\<lparr>p_count := p_count (frames s pg) + 1, PageSwapCache := True, page_private := e\<rparr>"
    using add_to_cache [OF assms(1-7,9)] assms(10) by auto
  note ft = a(5)
  have l: "PageLocked (frames t pg)" "PageSwapCache (frames t pg)" "\<not> PageWriteback (frames t pg)" "e = page_private (frames t pg)"
    by (simp_all add: ft assms(4,8))
  obtain u where u: "u_delete_from_swap_cache K pg t = Some u" "cache_inv K u" "cached_page K e u = None"
      "\<forall>e'. e' \<noteq> e \<longrightarrow> cached_page K e' u = cached_page K e' t"
      "frames u = (frames t)(pg := (frames t pg)\<lparr>page_private := 0, PageSwapCache := False\<rparr>)"
    using remove_from_cache [OF a(1) l] by blast
  have "frames (page_cache_release pg u) pg = frames s pg"
    using u(5) ft assms(5,7) by (cases "frames s pg") (simp add: page_cache_release_def frame_upd_def)
  moreover have "q \<noteq> pg \<Longrightarrow> frames (page_cache_release pg u) q = frames s q" for q
    using u(5) a(2) by (simp add: page_cache_release_def frame_upd_def)
  ultimately have "frames (page_cache_release pg u) = frames s" by (metis ext)
  moreover have "cached_page K e' u = cached_page K e' s" for e'
    using u(3,4) a(3) assms(3) by (cases "e' = e") simp_all
  ultimately show ?thesis using u(1,2) by blast
qed

theorem swap_cache_roundtrip_witness:
  "\<exists>t u. u_add_to_swap_cache std_h plain_kserv 7 2 empty_swaps = Some (0, t) \<and> u_delete_from_swap_cache std_h 7 t = Some u \<and>
    frames (page_cache_release 7 u) = frames empty_swaps"
proof -
  have h: "unat (swp_type std_h 2) < length (swapper_spaces empty_swaps)" by (simp add: empty_cache std_h_def)
  have p: "\<forall>k. fst (radix_tree_room plain_kserv k) \<noteq> - EEXIST" by (simp add: plain_kserv_def errnos)
  have "radix_tree_room plain_kserv k = (0, k)" for k by (simp add: plain_kserv_def)
  then obtain t where t: "u_add_to_swap_cache std_h plain_kserv 7 2 empty_swaps = Some (0, t)"
    using h empty_cache(2) [of std_h 2] empty_cache(4) [of 7]
    by (simp add: u_add_to_swap_cache_def radix_tree_insert_def space_get_eq space_upd_eq Let_def plain_page_def
        frame_upd_def page_cache_get_def cached_page_def)
  then show ?thesis
    using swap_cache_roundtrip [OF empty_cache(1) h empty_cache(2) _ _ _ _ _ p t] empty_cache(4) [of 7]
    by (auto simp: plain_page_def)
qed

text \<open>
  A page whose entry is still referred to keeps its swap: \<open>try_to_free_swap\<close> on a cached page of a
  swap area with references returns 0 and changes nothing.
\<close>

theorem try_to_free_keeps_referenced:
  assumes "linux_swap_h K" "entry_at K (page_private (frames s pg)) ty off s p" "0 < slot_refs p off"
    and "PageLocked (frames s pg)"
  shows "try_to_free_swap K X pg s = Some (0, s)"
proof -
  let ?e = "page_private (frames s pg)"
  note ig = info_get_used [OF assms(1,2)]
  have p: "area_wf p" "0 \<le> off" "off < si_max p" "slot_ok p off" "si_get ty s = Some p" "uint (swp_offset K ?e) = off" "\<not> si_lock p"
    using assms(2) entry_off [OF assms(2)] by (simp_all add: entry_at_def)
  obtain l h f where m: "l < 0x40" "slot_byte p off = mkb l h f"
      "slot_refs p off = unat l + (if f then 63 * cont_val (slot_conts p off) else 0)"
      "f \<Longrightarrow> head_private (slot_head p off) = 32 \<and> cont_ok (slot_conts p off)" using slot_mkb [OF p(4)] low_le by metis
  have "mkb l False f \<noteq> 0" using mkb_eq(1) [OF m(1), of False f] slot_refs_zero [OF m(3,4)] assms(3) by simp
  moreover have "swap_count K (mkb l h f) = mkb l False f" using assms(1) m(1) by (simp add: swap_count_def linux_counts mkb_ands)
  ultimately have nz: "uint (swap_count K (mkb l h f)) \<noteq> 0" by (simp add: uint_0_iff)
  have "arr_get (swap_map p) off = Some (mkb l h f)"
    using page_in_area(4) [OF p(1-3)] p(2) m(2) by (simp add: arr_get_in slot_byte_def)
  moreover have "p\<lparr>si_lock := False\<rparr> = p" using p(7) by (cases p) simp
  ultimately have "page_swapcount K pg s = Some (uint (swap_count K (mkb l h f)), s)"
    using ig assms(3) p(5,6) si_put_same [OF p(5)] by (simp add: page_swapcount_def Let_def spin_unlock_si_def)
  then show ?thesis using assms(4) nz by (simp add: try_to_free_swap_def)
qed

theorem try_to_free_keeps_referenced_witness:
  "\<exists>s :: unit swaps. PageSwapCache (frames s 7) \<and> page_private (frames s 7) = 2 \<and> try_to_free_swap std_h plain_kserv 7 s = Some (0, s)"
proof -
  let ?s = "small_swaps\<lparr>frames := (\<lambda>_. plain_page\<lparr>PageSwapCache := True, page_private := 2\<rparr>)\<rparr>"
  have "entry_at std_h 2 0 2 ?s small_area" using small_entry(1) by (simp add: entry_at_def si_get_def)
  then show ?thesis
    using try_to_free_keeps_referenced [of std_h ?s 7 0 2 small_area plain_kserv] std_h_linux small_entry(2)
    by (intro exI [of _ ?s]) (simp add: plain_page_def)
qed

end
