(* ===== verification/Swap_Extents.thy ===== *)
theory Swap_Extents
  imports Swap_Base
begin

unbundle bit_operations_syntax

text \<open>
  Swap extents (\<open>swapfile.c\<close>, 103-176, 1345-1465): the list that says which blocks of the device hold
  the pages of a swap area, how it grows, how a page is looked up in it, and which blocks are told to
  the device as discarded.  It is shown to be a partial map from pages to blocks that \<open>add_swap_extent\<close>
  extends and \<open>map_swap_entry\<close> reads, whatever position the cached search starts from.

  Page and block numbers are far from the width of their types and are not wrapped.
\<close>

section \<open>The code\<close>

text \<open>\<open>list_entry(se->list.next)\<close> on the circular list.\<close>

definition next_extent :: "swap_info_struct \<Rightarrow> nat \<Rightarrow> nat" where
  "next_extent si i = (if Suc i = length (extents si) then 0 else Suc i)"

definition in_extent :: "swap_extent \<Rightarrow> int \<Rightarrow> bool" where
  "in_extent se offset \<longleftrightarrow> se_start_page se \<le> offset \<and> offset < se_start_page se + se_nr_pages se"

text \<open>The search of \<open>map_swap_entry\<close>; coming back to the start is a \<open>BUG_ON\<close>.\<close>

partial_function (option) search_extent :: "nat \<Rightarrow> nat \<Rightarrow> int \<Rightarrow> swap_info_struct \<Rightarrow> (int \<times> swap_info_struct) option" where
  "search_extent start i offset si =
     (if length (extents si) \<le> i then None
      else if in_extent (extents si ! i) offset
        then Some (se_start_block (extents si ! i) + (offset - se_start_page (extents si ! i)), si)
      else let i = next_extent si i; si = si\<lparr>curr_extent := i\<rparr> in
        if i = start then None else search_extent start i offset si)"

definition map_swap_entry :: "swap_h \<Rightarrow> entry \<Rightarrow> 'k swaps \<Rightarrow> (int \<times> 'k swaps) option" where
  "map_swap_entry K entry s = do {
     let type = uint (swp_type K entry);
     sis \<leftarrow> si_get type s;
     (block, sis) \<leftarrow> search_extent (curr_extent sis) (curr_extent sis) (uint (swp_offset K entry)) sis;
     Some (block, si_put type sis s)
   }"

definition map_swap_page :: "swap_h \<Rightarrow> int \<Rightarrow> 'k swaps \<Rightarrow> (int \<times> 'k swaps) option" where
  "map_swap_page K page s = map_swap_entry K (page_private (frames s page)) s"

definition destroy_swap_extents :: "swap_h \<Rightarrow> 'k kserv \<Rightarrow> swap_info_struct \<Rightarrow> 'k \<Rightarrow> swap_info_struct \<times> 'k" where
  "destroy_swap_extents K X sis k =
     (let sis = sis\<lparr>extents := take 1 (extents sis)\<rparr> in
      if si_flags sis AND SWP_FILE K \<noteq> 0
      then (sis\<lparr>si_flags := si_flags sis AND NOT (SWP_FILE K)\<rparr>, swap_deactivate X (si_type sis) k)
      else (sis, k))"

definition add_swap_extent ::
  "'k kserv \<Rightarrow> int \<Rightarrow> int \<Rightarrow> int \<Rightarrow> swap_info_struct \<times> 'k \<Rightarrow> (int \<times> swap_info_struct \<times> 'k) option" where
  "add_swap_extent X start_page nr_pages start_block = (\<lambda>(sis, k).
     if extents sis = [] then None
     else if start_page = 0 then
       Some (1, sis\<lparr>curr_extent := 0, extents := (extents sis)[0 := \<lparr>se_start_page = 0, se_nr_pages = nr_pages, se_start_block = start_block\<rparr>]\<rparr>, k)
     else
       let se = last (extents sis) in
       if se_start_page se + se_nr_pages se \<noteq> start_page then None
       else if se_start_block se + se_nr_pages se = start_block then
         Some (0, sis\<lparr>extents := butlast (extents sis) @ [se\<lparr>se_nr_pages := se_nr_pages se + nr_pages\<rparr>]\<rparr>, k)
       else let (got, k) = kmalloc_extent X k in
         if \<not> got then Some (- ENOMEM, sis, k)
         else Some (1, sis\<lparr>extents := extents sis @ [\<lparr>se_start_page = start_page, se_nr_pages = nr_pages, se_start_block = start_block\<rparr>]\<rparr>, k))"

text \<open>
  Discarding the whole area, the header page apart, and the pages of a cluster.  \<open>PAGE_SHIFT - 9\<close> is 3:
  the device counts in sectors.
\<close>

fun discard_rest :: "'k kserv \<Rightarrow> int \<Rightarrow> swap_extent list \<Rightarrow> 'k \<Rightarrow> int \<times> 'k" where
  "discard_rest X bdev [] k = (0, k)"
| "discard_rest X bdev (se # ses) k =
     (let (err, k) = blkdev_issue_discard X bdev (8 * se_start_block se) (8 * se_nr_pages se) k in
      if err \<noteq> 0 then (err, k) else discard_rest X bdev ses k)"

definition discard_swap :: "'k kserv \<Rightarrow> swap_info_struct \<Rightarrow> 'k \<Rightarrow> (int \<times> 'k) option" where
  "discard_swap X si k = (case extents si of [] \<Rightarrow> None
     | se # ses \<Rightarrow>
        let start_block = 8 * (se_start_block se + 1); nr_blocks = 8 * (se_nr_pages se - 1) in
        if nr_blocks \<noteq> 0 then
          (let (err, k) = blkdev_issue_discard X (si_type si) start_block nr_blocks k in
           if err \<noteq> 0 then Some (err, k) else Some (discard_rest X (si_type si) ses k))
        else Some (discard_rest X (si_type si) ses k))"

partial_function (option) discard_swap_cluster ::
  "'k kserv \<Rightarrow> nat \<Rightarrow> bool \<Rightarrow> int \<Rightarrow> int \<Rightarrow> swap_info_struct \<Rightarrow> 'k \<Rightarrow> (swap_info_struct \<times> 'k) option" where
  "discard_swap_cluster X i found start_page nr_pages si k =
     (if nr_pages = 0 then Some (si, k)
      else if length (extents si) \<le> i then None
      else let se = extents si ! i in
        if in_extent se start_page then
          let offset = start_page - se_start_page se;
              start_block = se_start_block se + offset;
              nr_blocks = min (se_nr_pages se - offset) nr_pages;
              si = (if found then si else si\<lparr>curr_extent := i\<rparr>);
              (err, k) = blkdev_issue_discard X (si_type si) (8 * start_block) (8 * nr_blocks) k
          in if err \<noteq> 0 then Some (si, k)
             else discard_swap_cluster X (next_extent si i) True (start_page + nr_blocks) (nr_pages - nr_blocks) si k
        else discard_swap_cluster X (next_extent si i) found start_page nr_pages si k)"

section \<open>The map of an extent list\<close>

text \<open>
  The list is sorted and without gaps from page 0 on, and no extent but the first may be empty; the
  block of a page is what its extent says.
\<close>

fun chained :: "int \<Rightarrow> swap_extent list \<Rightarrow> bool" where
  "chained p [] \<longleftrightarrow> True"
| "chained p (se # ses) \<longleftrightarrow> se_start_page se = p \<and> 0 < se_nr_pages se \<and> chained (p + se_nr_pages se) ses"

fun extents_end :: "int \<Rightarrow> swap_extent list \<Rightarrow> int" where
  "extents_end p [] = p"
| "extents_end p (se # ses) = extents_end (p + se_nr_pages se) ses"

fun block_of :: "swap_extent list \<Rightarrow> int \<Rightarrow> int option" where
  "block_of [] off = None"
| "block_of (se # ses) off = (if in_extent se off then Some (se_start_block se + (off - se_start_page se)) else block_of ses off)"

definition extents_ok :: "swap_info_struct \<Rightarrow> bool" where
  "extents_ok si \<longleftrightarrow> extents si \<noteq> [] \<and> chained 0 (extents si) \<and> curr_extent si < length (extents si)"

definition mapped_pages :: "swap_info_struct \<Rightarrow> int" where
  "mapped_pages si = extents_end 0 (extents si)"

lemma extents_end_mono: "chained p ses \<Longrightarrow> p \<le> extents_end p ses"
  by (induction p ses rule: chained.induct) auto

lemma chained_bounds:
  "chained p ses \<Longrightarrow> i < length ses \<Longrightarrow> p \<le> se_start_page (ses ! i) \<and> se_start_page (ses ! i) + se_nr_pages (ses ! i) \<le> extents_end p ses"
proof (induction p ses arbitrary: i rule: chained.induct)
  case (2 p se ses)
  then show ?case using extents_end_mono [of "p + se_nr_pages se" ses] by (cases i) fastforce+
qed simp

lemma chained_disjoint:
  "chained p ses \<Longrightarrow> a < b \<Longrightarrow> b < length ses \<Longrightarrow> in_extent (ses ! a) off \<Longrightarrow> in_extent (ses ! b) off \<Longrightarrow> False"
proof (induction p ses arbitrary: a b rule: chained.induct)
  case (2 p se ses)
  obtain c where c: "b = Suc c" using 2 by (cases b) auto
  show ?case
  proof (cases a)
    case 0
    have "p + se_nr_pages se \<le> se_start_page (ses ! c)" using 2 c chained_bounds [of "p + se_nr_pages se" ses c] by simp
    then show ?thesis using 2 c 0 by (simp add: in_extent_def)
  next
    case (Suc d)
    then show ?thesis using 2 c by auto
  qed
qed simp

text \<open>Only one extent holds a page, and every page below the end is held.\<close>

lemma chained_unique:
  "chained p ses \<Longrightarrow> i < length ses \<Longrightarrow> in_extent (ses ! i) off \<Longrightarrow> block_of ses off = Some (se_start_block (ses ! i) + (off - se_start_page (ses ! i)))"
proof (induction p ses arbitrary: i rule: chained.induct)
  case (2 p se ses)
  show ?case
  proof (cases i)
    case (Suc j)
    then have "p + se_nr_pages se \<le> se_start_page (ses ! j)" using 2 chained_bounds [of "p + se_nr_pages se" ses j] by simp
    then have "\<not> in_extent se off" using 2 Suc by (auto simp: in_extent_def)
    then show ?thesis using 2 Suc by simp
  qed (use 2 in simp)
qed simp

lemma chained_total: "chained p ses \<Longrightarrow> p \<le> off \<Longrightarrow> off < extents_end p ses \<Longrightarrow> \<exists>i < length ses. in_extent (ses ! i) off"
proof (induction p ses rule: chained.induct)
  case (2 p se ses)
  show ?case
  proof (cases "off < p + se_nr_pages se")
    case True
    then show ?thesis using 2 by (intro exI [of _ 0]) (simp add: in_extent_def)
  next
    case False
    then obtain i where "i < length ses" "in_extent (ses ! i) off" using 2 by auto
    then show ?thesis by (intro exI [of _ "Suc i"]) simp
  qed
qed simp

lemma chained_snoc:
  "chained p (ses @ [se]) \<longleftrightarrow> chained p ses \<and> se_start_page se = extents_end p ses \<and> 0 < se_nr_pages se"
  by (induction p ses rule: chained.induct) auto

lemma extents_end_snoc: "extents_end p (ses @ [se]) = extents_end p ses + se_nr_pages se"
  by (induction p ses rule: extents_end.induct) auto

lemma block_of_snoc: "block_of (ses @ [se]) off = (case block_of ses off of Some b \<Rightarrow> Some b | None \<Rightarrow>
    if in_extent se off then Some (se_start_block se + (off - se_start_page se)) else None)"
  by (induction ses) auto

lemma block_of_range: "chained p ses \<Longrightarrow> block_of ses off \<noteq> None \<longleftrightarrow> p \<le> off \<and> off < extents_end p ses"
proof (induction p ses rule: chained.induct)
  case (2 p se ses)
  then show ?case using extents_end_mono [of "p + se_nr_pages se" ses] by (auto simp: in_extent_def)
qed simp

section \<open>The search finds the extent from anywhere\<close>

text \<open>The steps from position \<open>i\<close> round the list of \<open>n\<close> to position \<open>j\<close>.\<close>

definition steps :: "nat \<Rightarrow> nat \<Rightarrow> nat \<Rightarrow> nat" where
  "steps n i j = (if i \<le> j then j - i else j + n - i)"

lemma steps_next:
  assumes "i < length (extents si)" "j < length (extents si)" "i \<noteq> j"
  shows "steps (length (extents si)) (next_extent si i) j + 1 = steps (length (extents si)) i j"
    "next_extent si i < length (extents si)"
  using assms by (auto simp: steps_def next_extent_def)

lemma search_finds:
  assumes ch: "chained 0 (extents si)" and j: "j < length (extents si)" "in_extent (extents si ! j) off"
    and i: "i < length (extents si)" "curr_extent si = i"
    and st: "steps (length (extents si)) i j \<le> steps (length (extents si)) start j" "start < length (extents si)"
  shows "\<exists>b. block_of (extents si) off = Some b \<and> search_extent start i off si = Some (b, si\<lparr>curr_extent := j\<rparr>)"
  using ch j i st
proof (induction "steps (length (extents si)) i j" arbitrary: i si)
  case 0
  then have ij: "i = j" by (auto simp: steps_def split: if_splits)
  moreover have "si\<lparr>curr_extent := j\<rparr> = si" using 0 ij by (cases si) simp
  moreover have "block_of (extents si) off = Some (se_start_block (extents si ! j) + (off - se_start_page (extents si ! j)))"
    by (rule chained_unique) (use 0 in simp_all)
  ultimately show ?case using 0 by (subst search_extent.simps) simp
next
  case (Suc d)
  let ?n = "length (extents si)"
  have ij: "i \<noteq> j" using Suc.hyps(2) by (auto simp: steps_def)
  have ne: "\<not> in_extent (extents si ! i) off"
    using chained_disjoint [OF Suc.prems(1), of i j off] chained_disjoint [OF Suc.prems(1), of j i off] Suc.prems(2-4) ij
    by (cases "i < j") auto
  let ?i = "next_extent si i" let ?si = "si\<lparr>curr_extent := ?i\<rparr>"
  note nx = steps_next [OF Suc.prems(4,2) ij]
  have "?i \<noteq> start" using nx Suc.prems(6) by auto
  then have step: "search_extent start i off si = search_extent start ?i off ?si"
    using ne Suc.prems(4) by (subst search_extent.simps) (simp add: Let_def)
  have "\<exists>b. block_of (extents ?si) off = Some b \<and> search_extent start ?i off ?si = Some (b, ?si\<lparr>curr_extent := j\<rparr>)"
    by (rule Suc.hyps(1)) (use Suc nx in simp_all)
  then show ?case using step by simp
qed

section \<open>Properties\<close>

text \<open>
  \<open>map_swap_entry\<close> always finds the block of a page of the area, from whatever position the last
  search left off: it returns the block that the extent list assigns to the page and changes nothing
  but that position; the \<open>BUG_ON\<close> in its endless loop is never reached.
\<close>

theorem map_swap_entry_finds:
  assumes "si_get (uint (swp_type K e)) s = Some si" "extents_ok si" "uint (swp_offset K e) < mapped_pages si"
  shows "\<exists>b c. block_of (extents si) (uint (swp_offset K e)) = Some b \<and> c < length (extents si) \<and>
    map_swap_entry K e s = Some (b, si_put (uint (swp_type K e)) (si\<lparr>curr_extent := c\<rparr>) s)"
proof -
  let ?off = "uint (swp_offset K e)" let ?c = "curr_extent si"
  have ok: "chained 0 (extents si)" "?c < length (extents si)" using assms(2) by (simp_all add: extents_ok_def)
  obtain j where j: "j < length (extents si)" "in_extent (extents si ! j) ?off"
    using chained_total [OF ok(1), of ?off] assms(3) by (auto simp: mapped_pages_def)
  obtain b where b: "block_of (extents si) ?off = Some b" "search_extent ?c ?c ?off si = Some (b, si\<lparr>curr_extent := j\<rparr>)"
    using search_finds [OF ok(1) j ok(2) refl order_refl ok(2)] by blast
  then have "map_swap_entry K e s = Some (b, si_put (uint (swp_type K e)) (si\<lparr>curr_extent := j\<rparr>) s)"
    using assms(1) by (simp add: map_swap_entry_def Let_def)
  then show ?thesis using j(1) b(1) by blast
qed

definition extent_area :: swap_info_struct where
  "extent_area = \<lparr>si_flags = 3, prio = 0, si_type = 0, si_next = -1, si_max = 8, swap_map = replicate 8 1,
     map_pages = [\<lparr>head_private = 0, lru = []\<rparr>], lowest_bit = 1, highest_bit = 7, si_pages = 7, inuse_pages = 7,
     cluster_next = 1, cluster_nr = 0, lowest_alloc = 0, highest_alloc = 0,
     extents = [\<lparr>se_start_page = 0, se_nr_pages = 3, se_start_block = 100\<rparr>, \<lparr>se_start_page = 3, se_nr_pages = 5, se_start_block = 40\<rparr>],
     curr_extent = 1, slot_notify = False, si_lock = False\<rparr>"

definition extent_swaps :: "unit swaps" where
  "extent_swaps = \<lparr>swap_info = [Some extent_area], nr_swapfiles = 1, nr_swap_pages = 0, total_swap_pages = 7,
     swap_list_head = 0, swap_list_next = 0, highest_priority_index = -1, swap_lock = False,
     frames = (\<lambda>_. \<lparr>PageLocked = True, PageUptodate = True, PageDirty = False, PageSwapCache = False, PageSwapBacked = True,
       PageWriteback = False, PageKsm = False, PageTransHuge = False, p_count = 2, p_mapcount = 1, page_private = 0\<rparr>),
     swapper_spaces = [], swap_cache_info = \<lparr>add_total = 0, del_total = 0, find_success = 0, find_total = 0\<rparr>, kern = ()\<rparr>"

lemma extent_area_ok: "extents_ok extent_area" "mapped_pages extent_area = 8" "si_get 0 extent_swaps = Some extent_area"
  by (simp_all add: extents_ok_def extent_area_def mapped_pages_def si_get_def arr_get_def extent_swaps_def)

theorem map_swap_entry_finds_witness:
  "\<exists>c. map_swap_entry std_h 2 extent_swaps = Some (102, si_put 0 (extent_area\<lparr>curr_extent := c\<rparr>) extent_swaps)"
proof -
  have e: "swp_type std_h 2 = 0" "swp_offset std_h 2 = 2" by (simp_all add: std_h_def)
  have "block_of (extents extent_area) 2 = Some 102" by (simp add: extent_area_def in_extent_def)
  then show ?thesis
    using map_swap_entry_finds [of std_h 2 extent_swaps extent_area] extent_area_ok by (auto simp: e)
qed

text \<open>
  C29: \<open>add_swap_extent\<close> extends the map of an area at its end: the pages from \<open>start_page\<close> on get the
  blocks from \<open>start_block\<close> on, whether the new extent is merged into the last one (result 0) or linked
  behind it (result 1), the blocks of the pages before stay, and without memory for a new extent
  nothing changes.
\<close>

theorem add_swap_extent_extends:
  assumes ok: "extents_ok si" and st: "start = mapped_pages si" and nr: "0 < nr"
  shows "\<exists>r si' k'. add_swap_extent X start nr block (si, k) = Some (r, si', k') \<and> extents_ok si' \<and>
    (if r = - ENOMEM then si' = si
     else (r = 0 \<or> r = 1) \<and> mapped_pages si' = start + nr \<and>
       (\<forall>off. block_of (extents si') off = (if start \<le> off \<and> off < start + nr then Some (block + (off - start)) else block_of (extents si) off)))"
proof -
  obtain ses se where x: "extents si = ses @ [se]" using ok by (auto simp: extents_ok_def) (metis append_butlast_last_id)
  have ch: "chained 0 ses" "se_start_page se = extents_end 0 ses" "0 < se_nr_pages se"
    using ok by (simp_all add: extents_ok_def x chained_snoc)
  have e: "start = se_start_page se + se_nr_pages se" by (simp add: st mapped_pages_def x extents_end_snoc ch(2))
  have s0: "start \<noteq> 0" using e ch extents_end_mono [OF ch(1)] by simp
  have rng: "block_of ses off \<noteq> None \<longleftrightarrow> 0 \<le> off \<and> off < extents_end 0 ses" for off by (rule block_of_range [OF ch(1)])
  show ?thesis
  proof (cases "se_start_block se + se_nr_pages se = block")
    case True
    let ?se = "se\<lparr>se_nr_pages := se_nr_pages se + nr\<rparr>" let ?si = "si\<lparr>extents := ses @ [?se]\<rparr>"
    have "add_swap_extent X start nr block (si, k) = Some (0, ?si, k)"
      using True s0 e x by (simp add: add_swap_extent_def Let_def)
    moreover have "extents_ok ?si" using ok ch nr by (simp add: extents_ok_def chained_snoc x)
    moreover have "mapped_pages ?si = start + nr" using e ch(2) by (simp add: mapped_pages_def extents_end_snoc)
    moreover have "block_of (extents ?si) off = (if start \<le> off \<and> off < start + nr then Some (block + (off - start)) else block_of (extents si) off)" for off
      using rng [of off] e ch(2,3) True nr extents_end_mono [OF ch(1)]
      by (auto simp: x block_of_snoc in_extent_def split: option.splits)
    ultimately show ?thesis by (intro exI [of _ 0] exI [of _ ?si] exI [of _ k]) (simp add: errnos)
  next
    case False
    obtain got k' where a: "kmalloc_extent X k = (got, k')" by fastforce
    show ?thesis
    proof (cases got)
      case False
      then have "add_swap_extent X start nr block (si, k) = Some (- ENOMEM, si, k')"
        using \<open>se_start_block se + se_nr_pages se \<noteq> block\<close> s0 e x a by (simp add: add_swap_extent_def Let_def)
      then show ?thesis using ok by simp
    next
      case True
      let ?n = "\<lparr>se_start_page = start, se_nr_pages = nr, se_start_block = block\<rparr>" let ?si = "si\<lparr>extents := extents si @ [?n]\<rparr>"
      have "add_swap_extent X start nr block (si, k) = Some (1, ?si, k')"
        using False True s0 e x a by (simp add: add_swap_extent_def Let_def)
      moreover have "extents_ok ?si" using ok nr by (simp add: extents_ok_def chained_snoc st mapped_pages_def)
      moreover have "mapped_pages ?si = start + nr" by (simp add: mapped_pages_def extents_end_snoc st)
      moreover have rg: "block_of (extents si) off \<noteq> None \<longleftrightarrow> 0 \<le> off \<and> off < start" for off
        using block_of_range [of 0 "extents si" off] ok by (simp add: extents_ok_def st mapped_pages_def)
      have "block_of (extents ?si) off = (if start \<le> off \<and> off < start + nr then Some (block + (off - start)) else block_of (extents si) off)" for off
        using rg [of off] by (auto simp: block_of_snoc in_extent_def split: option.splits)
      ultimately show ?thesis by (intro exI [of _ 1] exI [of _ ?si] exI [of _ k']) (simp add: errnos)
    qed
  qed
qed

definition extent_kserv :: "unit kserv" where
  "extent_kserv = \<lparr>alloc_page = (\<lambda>k. (None, k)), free_page = id, mem_cgroup_uncharge_swap = (\<lambda>_. id),
     mem_cgroup_uncharge_swapcache = (\<lambda>_ _ _. id), frontswap_invalidate_page = (\<lambda>_ _. id),
     swap_slot_free_notify = (\<lambda>_ _. id), pm_suspended_storage = (\<lambda>_. False), kmalloc_extent = (\<lambda>k. (True, k)),
     blkdev_issue_discard = (\<lambda>_ _ _ k. (0, k)), swap_deactivate = (\<lambda>_. id), wait_on_discard = id,
     radix_tree_preload = (\<lambda>k. (0, k)), radix_tree_room = (\<lambda>k. (0, k))\<rparr>"

theorem add_swap_extent_extends_witness:
  "\<exists>si'. add_swap_extent extent_kserv 8 4 900 (extent_area, ()) = Some (1, si', ()) \<and> block_of (extents si') 10 = Some 902 \<and>
    block_of (extents si') 4 = Some 41"
proof -
  define si' where "si' = extent_area\<lparr>extents := extents extent_area @ [\<lparr>se_start_page = 8, se_nr_pages = 4, se_start_block = 900\<rparr>]\<rparr>"
  have a: "add_swap_extent extent_kserv 8 4 900 (extent_area, ()) = Some (1, si', ())"
    by (simp add: add_swap_extent_def extent_area_def extent_kserv_def si'_def)
  have "\<forall>off. block_of (extents si') off = (if 8 \<le> off \<and> off < 8 + 4 then Some (900 + (off - 8)) else block_of (extents extent_area) off)"
    using add_swap_extent_extends [OF extent_area_ok(1), of 8 4 extent_kserv 900 "()"] extent_area_ok(2)
    unfolding a by (simp add: errnos)
  moreover have "block_of (extents extent_area) 4 = Some 41" by (simp add: extent_area_def in_extent_def)
  ultimately show ?thesis using a by (intro exI [of _ si']) simp
qed

end
