(* ===== verification/Swap_Alloc.thy ===== *)
theory Swap_Alloc
  imports Swap_Cache Swap_Extents
begin

text \<open>
  Allocation of swap slots (\<open>swapfile.c\<close>, 184-505): \<open>scan_swap_map\<close> looks for a free slot of one area,
  by clusters first, \<open>get_swap_page\<close> goes through the areas by priority.

  \<open>cond_resched\<close> and the countdown to it are left out, and so are the release and the taking again of
  the area's lock around searches that only read.
\<close>

section \<open>Searches in the map\<close>

definition SWAPFILE_CLUSTER :: int where "SWAPFILE_CLUSTER = 256"

text \<open>
  \<open>for (; last_in_cluster < bound; offset++)\<close>: the end of the first run of free slots as long as a
  cluster.  A slot outside the map has no value.
\<close>

function find_empty :: "byte list \<Rightarrow> int \<Rightarrow> int \<Rightarrow> int \<Rightarrow> int option option" where
  "find_empty m offset lst bound =
     (if lst < bound then
        if 0 \<le> offset \<and> offset < int (length m) then
          if m ! nat offset \<noteq> 0 then find_empty m (offset + 1) (offset + SWAPFILE_CLUSTER) bound
          else if offset = lst then Some (Some offset)
          else find_empty m (offset + 1) lst bound
        else None
      else Some None)"
  by pat_completeness auto
termination
  by (relation "measure (\<lambda>(m, offset, lst, bound). nat (int (length m) - offset))") auto

text \<open>\<open>while (++offset < bound)\<close>: the next slot that is free, or that can perhaps be reclaimed.\<close>

function scan_next :: "swap_h \<Rightarrow> bool \<Rightarrow> byte list \<Rightarrow> int \<Rightarrow> int \<Rightarrow> int option option" where
  "scan_next K full m offset bound =
     (if offset + 1 < bound then
        if 0 \<le> offset + 1 \<and> offset + 1 < int (length m) then
          if m ! nat (offset + 1) = 0 then Some (Some (offset + 1))
          else if full \<and> m ! nat (offset + 1) = SWAP_HAS_CACHE K then Some (Some (offset + 1))
          else scan_next K full m (offset + 1) bound
        else None
      else Some None)"
  by pat_completeness auto
termination
  by (relation "measure (\<lambda>(K, full, m, offset, bound). nat (int (length m) - offset))") auto

declare find_empty.simps [simp del] scan_next.simps [simp del]

section \<open>One area\<close>

text \<open>
  Where the scan starts: the structure, \<open>scan_base\<close>, \<open>offset\<close>, \<open>last_in_cluster\<close> and
  \<open>found_free_cluster\<close> at the label \<open>checks\<close>.
\<close>

definition new_cluster :: "swap_info_struct \<Rightarrow> int \<Rightarrow> (swap_info_struct \<times> int \<times> int \<times> int \<times> bool) option" where
  "new_cluster si base = do {
     r \<leftarrow> find_empty (swap_map si) base (base + SWAPFILE_CLUSTER - 1) (highest_bit si + 1);
     r \<leftarrow> (case r of Some _ \<Rightarrow> Some r
           | None \<Rightarrow> find_empty (swap_map si) (lowest_bit si) (lowest_bit si + SWAPFILE_CLUSTER - 1) base);
     case r of
       Some l \<Rightarrow> Some (si\<lparr>cluster_next := l - (SWAPFILE_CLUSTER - 1), cluster_nr := SWAPFILE_CLUSTER - 1\<rparr>,
                   base, l - (SWAPFILE_CLUSTER - 1), l, True)
     | None \<Rightarrow> Some (si\<lparr>cluster_nr := SWAPFILE_CLUSTER - 1, lowest_alloc := 0\<rparr>, base, base, 0, False)
   }"

definition choose_start :: "swap_h \<Rightarrow> swap_info_struct \<Rightarrow> (swap_info_struct \<times> int \<times> int \<times> int \<times> bool) option" where
  "choose_start K si =
     (let offset = cluster_next si; nr = cluster_nr si;
          si = si\<lparr>si_flags := si_flags si + SWP_SCANNING K, cluster_nr := u32 (nr - 1)\<rparr> in
      if nr \<noteq> 0 then Some (si, offset, offset, 0, False)
      else if u32 (si_pages si - inuse_pages si) < SWAPFILE_CLUSTER
        then Some (si\<lparr>cluster_nr := SWAPFILE_CLUSTER - 1\<rparr>, offset, offset, 0, False)
      else if si_flags si AND SWP_DISCARDABLE K \<noteq> 0 \<and> lowest_alloc si \<noteq> 0 then Some (si, offset, offset, 0, False)
      else let si = (if si_flags si AND SWP_DISCARDABLE K \<noteq> 0 then si\<lparr>lowest_alloc := si_max si, highest_alloc := 0\<rparr> else si)
        in new_cluster si (if si_flags si AND SWP_SOLIDSTATE K = 0 then lowest_bit si else offset))"

text \<open>The slot is taken; on a discardable device its cluster is discarded, or waited for.\<close>

definition take_slot :: "byte \<Rightarrow> int \<Rightarrow> swap_info_struct \<Rightarrow> swap_info_struct option" where
  "take_slot usage offset si = do {
     let si = (if offset = lowest_bit si then si\<lparr>lowest_bit := u32 (lowest_bit si + 1)\<rparr> else si);
     let si = (if offset = highest_bit si then si\<lparr>highest_bit := u32 (highest_bit si - 1)\<rparr> else si);
     let si = si\<lparr>inuse_pages := u32 (inuse_pages si + 1)\<rparr>;
     let si = (if inuse_pages si = si_pages si then si\<lparr>lowest_bit := si_max si, highest_bit := 0\<rparr> else si);
     m \<leftarrow> arr_set (swap_map si) offset usage;
     Some (si\<lparr>swap_map := m, cluster_next := u32 (offset + 1)\<rparr>)
   }"

definition note_alloc ::
  "swap_h \<Rightarrow> 'k kserv \<Rightarrow> bool \<Rightarrow> int \<Rightarrow> int \<Rightarrow> swap_info_struct \<Rightarrow> 'k \<Rightarrow> (swap_info_struct \<times> 'k) option" where
  "note_alloc K X found lst offset si k =
     (if lowest_alloc si = 0 then Some (si, k)
      else if found then do {
        let lst = (if offset < highest_alloc si \<and> lowest_alloc si \<le> lst then lowest_alloc si - 1 else lst);
        let si = si\<lparr>si_flags := si_flags si OR SWP_DISCARDING K\<rparr>;
        (si, k) \<leftarrow> (if offset < lst
           then discard_swap_cluster X (curr_extent si) False offset (lst - offset + 1) si k else Some (si, k));
        Some (si\<lparr>lowest_alloc := 0, si_flags := si_flags si AND NOT (SWP_DISCARDING K)\<rparr>, k)
      }
      else if si_flags si AND SWP_DISCARDING K \<noteq> 0 then Some (si, wait_on_discard X k)
      else Some (si\<lparr>lowest_alloc := (if offset < lowest_alloc si then offset else lowest_alloc si),
                    highest_alloc := (if highest_alloc si < offset then offset else highest_alloc si)\<rparr>, k))"

definition no_page :: "swap_h \<Rightarrow> int \<Rightarrow> 'k swaps \<Rightarrow> (int \<times> 'k swaps) option" where
  "no_page K ty s = do {
     si \<leftarrow> si_get ty s;
     Some (0, si_put ty (si\<lparr>si_flags := si_flags si - SWP_SCANNING K\<rparr>) s)
   }"

partial_function (option) scan_checks ::
  "swap_h \<Rightarrow> 'k kserv \<Rightarrow> int \<Rightarrow> byte \<Rightarrow> bool \<Rightarrow> int \<Rightarrow> int \<Rightarrow> int \<Rightarrow> 'k swaps \<Rightarrow> (int \<times> 'k swaps) option" where
  "scan_checks K X ty usage found lst scan_base offset s = do {
     si \<leftarrow> si_get ty s;
     if si_flags si AND SWP_WRITEOK K = 0 \<or> highest_bit si = 0 then no_page K ty s
     else do {
       let (scan_base, offset) = (if highest_bit si < offset then (lowest_bit si, lowest_bit si) else (scan_base, offset));
       m \<leftarrow> arr_get (swap_map si) offset;
       let full = vm_swap_full K (nr_swap_pages s) (total_swap_pages s);
       if m = 0 then do {
         si \<leftarrow> take_slot usage offset si;
         (si, k) \<leftarrow> note_alloc K X found lst offset (si\<lparr>si_flags := si_flags si - SWP_SCANNING K\<rparr>) (kern s);
         Some (offset, si_put ty si (s\<lparr>kern := k\<rparr>))
       }
       else do {
         (again, s) \<leftarrow> (if full \<and> m = SWAP_HAS_CACHE K then do {
             s \<leftarrow> spin_unlock_si ty s;
             (freed, s) \<leftarrow> try_to_reclaim_swap K X (word_of_int (si_type si)) (word_of_int offset) s;
             s \<leftarrow> spin_lock_si ty s;
             Some (freed \<noteq> 0, s)
           } else Some (False, s));
         if again then scan_checks K X ty usage found lst scan_base offset s
         else do {
           si \<leftarrow> si_get ty s;
           let full = vm_swap_full K (nr_swap_pages s) (total_swap_pages s);
           r \<leftarrow> scan_next K full (swap_map si) offset (highest_bit si + 1);
           r \<leftarrow> (case r of Some _ \<Rightarrow> Some r | None \<Rightarrow> scan_next K full (swap_map si) (lowest_bit si) scan_base);
           case r of None \<Rightarrow> no_page K ty s
           | Some l \<Rightarrow> scan_checks K X ty usage found lst scan_base l s
         }
       }
     }
   }"

definition scan_swap_map :: "swap_h \<Rightarrow> 'k kserv \<Rightarrow> int \<Rightarrow> byte \<Rightarrow> 'k swaps \<Rightarrow> (int \<times> 'k swaps) option" where
  "scan_swap_map K X ty usage s = do {
     si \<leftarrow> si_get ty s;
     (si, scan_base, offset, lst, found) \<leftarrow> choose_start K si;
     scan_checks K X ty usage found lst scan_base offset (si_put ty si s)
   }"

section \<open>All areas\<close>

definition spin_lock_swap :: "'k swaps \<Rightarrow> 'k swaps option" where
  "spin_lock_swap s = (if swap_lock s then None else Some (s\<lparr>swap_lock := True\<rparr>))"

partial_function (option) try_areas ::
  "swap_h \<Rightarrow> 'k kserv \<Rightarrow> int \<Rightarrow> int \<Rightarrow> 'k swaps \<Rightarrow> (entry \<times> 'k swaps) option" where
  "try_areas K X type wrapped s =
     (if type < 0 \<or> 2 \<le> wrapped then Some (0, s\<lparr>nr_swap_pages := nr_swap_pages s + 1, swap_lock := False\<rparr>)
      else do {
        let hp = highest_priority_index s;
        let s = s\<lparr>highest_priority_index := -1\<rparr>;
        (type, s) \<leftarrow> (if hp \<noteq> -1 \<and> hp \<noteq> type then do {
            a \<leftarrow> si_get type s;
            b \<leftarrow> si_get hp s;
            Some (if prio a < prio b \<and> si_flags b AND SWP_WRITEOK K \<noteq> 0 then (hp, s\<lparr>swap_list_next := hp\<rparr>) else (type, s))
          } else Some (type, s));
        si \<leftarrow> si_get type s;
        let nxt = si_next si;
        wrap \<leftarrow> (if nxt < 0 then Some True
                 else if wrapped = 0 then do { q \<leftarrow> si_get nxt s; Some (prio si \<noteq> prio q) } else Some False);
        let (nxt, wrapped) = (if wrap then (swap_list_head s, wrapped + 1) else (nxt, wrapped));
        s \<leftarrow> spin_lock_si type s;
        if highest_bit si = 0 \<or> si_flags si AND SWP_WRITEOK K = 0 then do {
          s \<leftarrow> spin_unlock_si type s;
          try_areas K X nxt wrapped s
        }
        else do {
          let s = s\<lparr>swap_list_next := nxt, swap_lock := False\<rparr>;
          (offset, s) \<leftarrow> scan_swap_map K X type (SWAP_HAS_CACHE K) s;
          s \<leftarrow> spin_unlock_si type s;
          if offset \<noteq> 0 then Some (swp_entry K (word_of_int type) (word_of_int offset), s)
          else do {
            s \<leftarrow> spin_lock_swap s;
            try_areas K X (swap_list_next s) wrapped s
          }
        }
      })"

definition get_swap_page :: "swap_h \<Rightarrow> 'k kserv \<Rightarrow> 'k swaps \<Rightarrow> (entry \<times> 'k swaps) option" where
  "get_swap_page K X s = do {
     s \<leftarrow> spin_lock_swap s;
     if nr_swap_pages s \<le> 0 then Some (0, s\<lparr>swap_lock := False\<rparr>)
     else try_areas K X (swap_list_next s) 0 (s\<lparr>nr_swap_pages := nr_swap_pages s - 1\<rparr>)
   }"

definition get_swap_page_of_type :: "swap_h \<Rightarrow> 'k kserv \<Rightarrow> int \<Rightarrow> 'k swaps \<Rightarrow> (entry \<times> 'k swaps) option" where
  "get_swap_page_of_type K X type s = do {
     s \<leftarrow> spin_lock_si type s;
     si \<leftarrow> si_get type s;
     if si_flags si AND SWP_WRITEOK K \<noteq> 0 then do {
       (offset, s) \<leftarrow> scan_swap_map K X type 1 (s\<lparr>nr_swap_pages := nr_swap_pages s - 1\<rparr>);
       s \<leftarrow> spin_unlock_si type s;
       if offset \<noteq> 0 then Some (swp_entry K (word_of_int type) (word_of_int offset), s)
       else Some (0, s\<lparr>nr_swap_pages := nr_swap_pages s + 1\<rparr>)
     }
     else do { s \<leftarrow> spin_unlock_si type s; Some (0, s) }
   }"

text \<open>\<open>count_swap_pages\<close> and \<open>si_swapinfo\<close>: what is free, and what there is.\<close>

definition count_swap_pages :: "swap_h \<Rightarrow> int \<Rightarrow> bool \<Rightarrow> 'k swaps \<Rightarrow> int option" where
  "count_swap_pages K type fre s =
     (if swap_lock s then None
      else if 0 \<le> type \<and> type < nr_swapfiles s then do {
        sis \<leftarrow> si_get type s;
        if si_lock sis then None
        else Some (if si_flags sis AND SWP_WRITEOK K \<noteq> 0
             then (if fre then u32 (si_pages sis - inuse_pages sis) else si_pages sis) else 0)
      } else Some 0)"

definition si_swapinfo :: "swap_h \<Rightarrow> 'k swaps \<Rightarrow> (int \<times> int) option" where
  "si_swapinfo K s =
     (if swap_lock s then None
      else do {
        unused \<leftarrow> for_up 0 (nr_swapfiles s) (\<lambda>type n. do {
            si \<leftarrow> si_get type s;
            Some (if si_flags si AND SWP_USED K \<noteq> 0 \<and> si_flags si AND SWP_WRITEOK K = 0 then n + inuse_pages si else n)
          }) 0;
        Some (nr_swap_pages s + unused, total_swap_pages s + unused)
      })"

section \<open>The searches are right\<close>

lemma find_empty_sound:
  assumes "0 \<le> offset" "offset \<le> lst" "bound \<le> int (length m)"
    and "\<forall>j. lst - (SWAPFILE_CLUSTER - 1) \<le> j \<and> j < offset \<longrightarrow> m ! nat j = 0" "lst - (SWAPFILE_CLUSTER - 1) \<le> offset"
  shows "\<exists>r. find_empty m offset lst bound = Some r \<and> (\<forall>l. r = Some l \<longrightarrow>
    lst \<le> l \<and> l < bound \<and> (\<forall>j. l - (SWAPFILE_CLUSTER - 1) \<le> j \<and> j \<le> l \<longrightarrow> m ! nat j = 0))"
  using assms
proof (induction m offset lst bound rule: find_empty.induct)
  case (1 m offset lst bound)
  show ?case
  proof (cases "lst < bound")
    case True
    then have il: "0 \<le> offset \<and> offset < int (length m)" using "1.prems" by linarith
    consider "m ! nat offset \<noteq> 0" | "m ! nat offset = 0" "offset = lst" | "m ! nat offset = 0" "offset \<noteq> lst" by blast
    then show ?thesis
    proof cases
      case 1
      have "\<exists>r. find_empty m (offset + 1) (offset + SWAPFILE_CLUSTER) bound = Some r \<and> (\<forall>l. r = Some l \<longrightarrow>
          offset + SWAPFILE_CLUSTER \<le> l \<and> l < bound \<and> (\<forall>j. l - (SWAPFILE_CLUSTER - 1) \<le> j \<and> j \<le> l \<longrightarrow> m ! nat j = 0))"
        by (rule "1.IH"(1) [OF True il 1]) (use "1.prems" il in \<open>auto simp: SWAPFILE_CLUSTER_def\<close>)
      then show ?thesis using True il 1 "1.prems"(5) by (subst find_empty.simps) (auto simp: SWAPFILE_CLUSTER_def)
    next
      case 2
      then have "\<forall>j. lst - (SWAPFILE_CLUSTER - 1) \<le> j \<and> j \<le> lst \<longrightarrow> m ! nat j = 0"
        using "1.prems"(4) by (metis order_le_less)
      then show ?thesis using True il 2 by (subst find_empty.simps) simp
    next
      case 3
      have "\<forall>j. lst - (SWAPFILE_CLUSTER - 1) \<le> j \<and> j < offset + 1 \<longrightarrow> m ! nat j = 0"
        using "1.prems"(4) 3(1) by (metis zle_add1_eq_le order_le_less)
      then have "\<exists>r. find_empty m (offset + 1) lst bound = Some r \<and> (\<forall>l. r = Some l \<longrightarrow>
          lst \<le> l \<and> l < bound \<and> (\<forall>j. l - (SWAPFILE_CLUSTER - 1) \<le> j \<and> j \<le> l \<longrightarrow> m ! nat j = 0))"
        by (intro "1.IH"(2) [OF True il _ 3(2)]) (use "1.prems" 3 il in auto)
      then show ?thesis using True il 3 by (subst find_empty.simps) simp
    qed
  next
    case False
    then show ?thesis by (subst find_empty.simps) simp
  qed
qed

lemma find_empty_from:
  assumes "0 \<le> base" "bound \<le> int (length m)"
  shows "\<exists>r. find_empty m base (base + SWAPFILE_CLUSTER - 1) bound = Some r \<and> (\<forall>l. r = Some l \<longrightarrow>
    base + SWAPFILE_CLUSTER - 1 \<le> l \<and> l < bound \<and> (\<forall>j. l - (SWAPFILE_CLUSTER - 1) \<le> j \<and> j \<le> l \<longrightarrow> m ! nat j = 0))"
  by (rule find_empty_sound) (use assms in \<open>auto simp: SWAPFILE_CLUSTER_def\<close>)

lemma scan_next_spec:
  assumes "-1 \<le> offset" "bound \<le> int (length m)"
  shows "\<exists>r. scan_next K False m offset bound = Some r \<and>
    (case r of Some l \<Rightarrow> offset < l \<and> l < bound \<and> m ! nat l = 0
     | None \<Rightarrow> \<forall>j. offset < j \<and> j < bound \<longrightarrow> m ! nat j \<noteq> 0)"
  using assms
proof (induction K False m offset bound rule: scan_next.induct)
  case (1 K m offset bound)
  show ?case
  proof (cases "offset + 1 < bound")
    case True
    then have il: "0 \<le> offset + 1 \<and> offset + 1 < int (length m)" using "1.prems" by linarith
    show ?thesis
    proof (cases "m ! nat (offset + 1) = 0")
      case False
      then obtain r where r: "scan_next K False m (offset + 1) bound = Some r"
          "case r of Some l \<Rightarrow> offset + 1 < l \<and> l < bound \<and> m ! nat l = 0
           | None \<Rightarrow> \<forall>j. offset + 1 < j \<and> j < bound \<longrightarrow> m ! nat j \<noteq> 0"
        using "1.hyps" [OF True il False] "1.prems" by auto
      have "case r of Some l \<Rightarrow> offset < l \<and> l < bound \<and> m ! nat l = 0
           | None \<Rightarrow> \<forall>j. offset < j \<and> j < bound \<longrightarrow> m ! nat j \<noteq> 0"
        using r(2) False by (auto split: option.splits) (metis zless_add1_eq linorder_neqE_linordered_idom not_less_iff_gr_or_eq)
      then show ?thesis using r(1) True il False by (subst scan_next.simps) simp
    qed (use True il in \<open>subst scan_next.simps, simp\<close>)
  next
    case False
    then show ?thesis by (subst scan_next.simps) auto
  qed
qed

section \<open>The scan of an area\<close>

text \<open>
  An area that is ready for allocation: its numbers are in range, and it is not a discardable device
  (there the slot is the same, but blocks are discarded on the way).
\<close>

definition area_ready :: "swap_h \<Rightarrow> swap_info_struct \<Rightarrow> bool" where
  "area_ready K si \<longleftrightarrow> int (length (swap_map si)) = si_max si \<and> 0 < lowest_bit si \<and> lowest_bit si \<le> si_max si \<and> highest_bit si < si_max si \<and> 0 \<le> highest_bit si \<and>
     (highest_bit si \<noteq> 0 \<longrightarrow> lowest_bit si \<le> highest_bit si) \<and> 0 \<le> cluster_next si \<and> cluster_next si \<le> si_max si \<and>
     si_max si < 2 ^ 32 \<and> 0 < cluster_next si \<and>
     si_flags si AND SWP_DISCARDABLE K = 0 \<and> lowest_alloc si = 0"

lemma flags_scanning:
  assumes K: "linux_swap_h K"
  shows "(f + SWP_SCANNING K) AND SWP_DISCARDABLE K = f AND SWP_DISCARDABLE K"
    "(f + SWP_SCANNING K) AND SWP_WRITEOK K = f AND SWP_WRITEOK K"
    "(f + SWP_SCANNING K) AND SWP_SOLIDSTATE K = f AND SWP_SOLIDSTATE K"
proof -
  have low: "(f + 256) AND m = f AND (m :: u64)" if "take_bit 8 m = m" for m
  proof -
    have "(uint f + 256) mod 2 ^ 64 mod 256 = uint f mod 256" by (simp add: mod_mod_cancel)
    moreover have "uint (take_bit 8 x) = uint x mod 256" for x :: u64
      by (subst unsigned_take_bit_eq) (simp add: take_bit_eq_mod)
    ultimately have "uint (take_bit 8 (f + 256)) = uint (take_bit 8 f)" by (simp only: uint_word_ariths) simp
    then have "take_bit 8 (f + 256) = take_bit 8 f" by (rule word_uint_eqI)
    then have "(f + 256) AND take_bit 8 m = f AND take_bit 8 m"
      by (metis take_bit_and and.left_commute and.commute take_bit_eq_mask)
    then show ?thesis by (simp only: that)
  qed
  show "(f + SWP_SCANNING K) AND SWP_DISCARDABLE K = f AND SWP_DISCARDABLE K"
    "(f + SWP_SCANNING K) AND SWP_WRITEOK K = f AND SWP_WRITEOK K"
    "(f + SWP_SCANNING K) AND SWP_SOLIDSTATE K = f AND SWP_SOLIDSTATE K"
    using K low [of 4] low [of 2] low [of 16] by (simp_all add: linux_swap_h_def)
qed

text \<open>What the choice of the start changes, and what it says about it.\<close>

definition started :: "swap_info_struct \<Rightarrow> swap_info_struct \<Rightarrow> int \<Rightarrow> int \<Rightarrow> bool \<Rightarrow> u64 \<Rightarrow> bool" where
  "started si si' base offset found f \<longleftrightarrow> 0 < base \<and> base \<le> si_max si \<and> 0 < offset \<and> offset \<le> si_max si \<and>
     (if found then swap_map si ! nat offset = 0 else base = offset) \<and>
     swap_map si' = swap_map si \<and> si_max si' = si_max si \<and> lowest_bit si' = lowest_bit si \<and> highest_bit si' = highest_bit si \<and>
     inuse_pages si' = inuse_pages si \<and> lowest_alloc si' = lowest_alloc si \<and> si_flags si' = f"

lemma new_cluster_ok:
  assumes m: "int (length (swap_map si)) = si_max si" "0 < lowest_bit si" "lowest_bit si \<le> si_max si" "highest_bit si < si_max si"
    and b: "0 < base" "base \<le> si_max si"
    and cn: "0 < cluster_next si" "cluster_next si \<le> si_max si" "lowest_alloc si = 0"
  shows "\<exists>si' offset lst found. new_cluster si base = Some (si', base, offset, lst, found) \<and> started si si' base offset found (si_flags si)"
proof -
  define hi where "hi = highest_bit si + 1"
  obtain r where r: "find_empty (swap_map si) base (base + SWAPFILE_CLUSTER - 1) hi = Some r"
      "\<And>l. r = Some l \<Longrightarrow> base + SWAPFILE_CLUSTER - 1 \<le> l \<and> l < hi \<and> (\<forall>j. l - (SWAPFILE_CLUSTER - 1) \<le> j \<and> j \<le> l \<longrightarrow> swap_map si ! nat j = 0)"
    using find_empty_from [of base hi "swap_map si"] m b by (auto simp: hi_def)
  obtain q where q: "find_empty (swap_map si) (lowest_bit si) (lowest_bit si + SWAPFILE_CLUSTER - 1) base = Some q"
      "\<And>l. q = Some l \<Longrightarrow> lowest_bit si + SWAPFILE_CLUSTER - 1 \<le> l \<and> l < base \<and> (\<forall>j. l - (SWAPFILE_CLUSTER - 1) \<le> j \<and> j \<le> l \<longrightarrow> swap_map si ! nat j = 0)"
    using find_empty_from [of "lowest_bit si" base "swap_map si"] m b by auto
  show ?thesis
  proof (cases "(case r of Some _ \<Rightarrow> r | None \<Rightarrow> q)")
    case None
    then have "r = None" "q = None" by (auto split: option.splits)
    then show ?thesis using r(1) q(1) b cn
      by (auto simp: new_cluster_def started_def hi_def)
  next
    case (Some l)
    have ge: "255 < l" "l \<le> si_max si" and fre: "swap_map si ! nat (l - 255) = 0"
      using Some r(2) [of l] q(2) [of l] b m by (auto simp: SWAPFILE_CLUSTER_def hi_def split: option.splits)
    have "new_cluster si base = Some (si\<lparr>cluster_next := l - 255, cluster_nr := 255\<rparr>, base, l - 255, l, True)"
      using Some r(1) q(1) by (auto simp: new_cluster_def SWAPFILE_CLUSTER_def hi_def split: option.splits)
    then show ?thesis using ge fre m b by (auto simp: started_def)
  qed
qed

lemma choose_start_ok:
  assumes K: "linux_swap_h K" and a: "area_ready K si"
  shows "\<exists>si' base offset lst found. choose_start K si = Some (si', base, offset, lst, found) \<and>
    started si si' base offset found (si_flags si + SWP_SCANNING K) \<and>
    (cluster_nr si \<noteq> 0 \<longrightarrow> base = cluster_next si \<and> offset = base)"
proof (cases "cluster_nr si \<noteq> 0 \<or> u32 (si_pages si - inuse_pages si) < SWAPFILE_CLUSTER")
  case True
  define p where "p = si\<lparr>si_flags := si_flags si + SWP_SCANNING K, cluster_next := cluster_next si,
    cluster_nr := (if cluster_nr si \<noteq> 0 then u32 (cluster_nr si - 1) else SWAPFILE_CLUSTER - 1)\<rparr>"
  have "choose_start K si = Some (p, cluster_next si, cluster_next si, 0, False)"
    using True by (auto simp: choose_start_def Let_def p_def)
  moreover have "started si p (cluster_next si) (cluster_next si) False (si_flags si + SWP_SCANNING K)"
    using a by (simp add: started_def p_def area_ready_def)
  ultimately show ?thesis by auto
next
  case False
  define p where "p = si\<lparr>si_flags := si_flags si + SWP_SCANNING K, cluster_nr := u32 (cluster_nr si - 1)\<rparr>"
  define b where "b = (if si_flags p AND SWP_SOLIDSTATE K = 0 then lowest_bit p else cluster_next si)"
  have "si_flags p AND SWP_DISCARDABLE K = 0" using a flags_scanning(1) [OF K] by (simp add: area_ready_def p_def)
  then have c: "choose_start K si = new_cluster p b"
    using False unfolding choose_start_def Let_def b_def p_def by simp
  have "\<exists>si' offset lst found. new_cluster p b = Some (si', b, offset, lst, found) \<and> started p si' b offset found (si_flags p)"
    by (rule new_cluster_ok) (use a in \<open>auto simp: area_ready_def p_def b_def\<close>)
  then obtain si' offset lst found where n: "new_cluster p b = Some (si', b, offset, lst, found)"
      "started p si' b offset found (si_flags p)" by blast
  have "started si si' b offset found (si_flags si + SWP_SCANNING K)"
    using n(2) by (simp add: started_def p_def split: if_splits)
  then show ?thesis using c n(1) False by auto
qed

lemma take_slot_fields:
  assumes "0 \<le> offset" "offset < int (length (swap_map si))"
  shows "\<exists>q. take_slot usage offset si = Some q \<and> swap_map q = (swap_map si)[nat offset := usage] \<and>
    inuse_pages q = u32 (inuse_pages si + 1) \<and> si_flags q = si_flags si \<and> lowest_alloc q = lowest_alloc si"
proof -
  define a where "a = (if offset = lowest_bit si then si\<lparr>lowest_bit := u32 (lowest_bit si + 1)\<rparr> else si)"
  define b where "b = (if offset = highest_bit a then a\<lparr>highest_bit := u32 (highest_bit a - 1)\<rparr> else a)"
  define c where "c = b\<lparr>inuse_pages := u32 (inuse_pages b + 1)\<rparr>"
  define d where "d = (if inuse_pages c = si_pages c then c\<lparr>lowest_bit := si_max c, highest_bit := 0\<rparr> else c)"
  have d: "swap_map d = swap_map si" "inuse_pages d = u32 (inuse_pages si + 1)" "si_flags d = si_flags si" "lowest_alloc d = lowest_alloc si"
    by (simp_all add: d_def c_def b_def a_def)
  have "take_slot usage offset si = Some (d\<lparr>swap_map := (swap_map si)[nat offset := usage], cluster_next := u32 (offset + 1)\<rparr>)"
    using assms d(1) unfolding take_slot_def Let_def a_def [symmetric] b_def [symmetric] c_def [symmetric] d_def [symmetric]
    by (simp add: arr_set_def)
  then show ?thesis using d by (auto intro!: exI)
qed

lemma scan_takes:
  assumes "si_get ty s = Some si" "si_flags si AND SWP_WRITEOK K \<noteq> 0" "0 < offset" "offset \<le> highest_bit si"
    "highest_bit si < int (length (swap_map si))" "swap_map si ! nat offset = 0" "lowest_alloc si = 0"
  shows "\<exists>q. scan_checks K X ty usage found lst base offset s = Some (offset, si_put ty q s) \<and>
    swap_map q = (swap_map si)[nat offset := usage] \<and> inuse_pages q = u32 (inuse_pages si + 1) \<and>
    si_flags q = si_flags si - SWP_SCANNING K"
proof -
  have highest_pos: "highest_bit si \<noteq> 0" using assms(3,4) by linarith
  obtain q where q: "take_slot usage offset si = Some q" "swap_map q = (swap_map si)[nat offset := usage]"
      "inuse_pages q = u32 (inuse_pages si + 1)" "si_flags q = si_flags si" "lowest_alloc q = 0"
    using take_slot_fields [of offset si usage] assms by auto
  have "scan_checks K X ty usage found lst base offset s = Some (offset, si_put ty (q\<lparr>si_flags := si_flags q - SWP_SCANNING K\<rparr>) s)"
    using assms q by (subst scan_checks.simps) (simp add: Let_def arr_get_def note_alloc_def not_less highest_pos)
  then show ?thesis using q by (intro exI [of _ "q\<lparr>si_flags := si_flags q - SWP_SCANNING K\<rparr>"]) simp
qed

text \<open>What a scan without reclaim ends with, from \<open>offset\<close> on.\<close>

definition scan_fields :: "swap_h \<Rightarrow> byte \<Rightarrow> swap_info_struct \<Rightarrow> int \<Rightarrow> swap_info_struct \<Rightarrow> bool" where
  "scan_fields K usage si off q \<longleftrightarrow> si_flags q = si_flags si - SWP_SCANNING K \<and>
     (if off = 0 then swap_map q = swap_map si \<and>
        (si_flags si AND SWP_WRITEOK K = 0 \<or> (\<forall>j. lowest_bit si < j \<and> j \<le> highest_bit si \<longrightarrow> swap_map si ! nat j \<noteq> 0))
      else 0 < off \<and> off \<le> highest_bit si \<and> swap_map si ! nat off = 0 \<and> swap_map q = (swap_map si)[nat off := usage] \<and>
        inuse_pages q = u32 (inuse_pages si + 1))"

definition scan_result :: "swap_h \<Rightarrow> byte \<Rightarrow> int \<Rightarrow> swap_info_struct \<Rightarrow> 'k swaps \<Rightarrow> int \<times> 'k swaps \<Rightarrow> bool" where
  "scan_result K usage ty si s r = (\<exists>off q. r = (off, si_put ty q s) \<and> scan_fields K usage si off q)"

lemma scan_checks_ends:
  assumes g: "si_get ty s = Some si" and nf: "\<not> vm_swap_full K (nr_swap_pages s) (total_swap_pages s)"
    and len: "int (length (swap_map si)) = si_max si" and bd: "0 < lowest_bit si" "0 \<le> highest_bit si" "highest_bit si < si_max si"
      "highest_bit si \<noteq> 0 \<longrightarrow> lowest_bit si \<le> highest_bit si" "lowest_alloc si = 0"
    and o: "0 < base" "base \<le> si_max si" "0 < offset" "if found then offset \<le> highest_bit si \<longrightarrow> swap_map si ! nat offset = 0 else base = offset"
  shows "\<exists>r. scan_checks K X ty usage found lst base offset s = Some r \<and> scan_result K usage ty si s r"
proof -
  let ?go = "scan_checks K X ty usage found lst"
  have take: "\<exists>r. ?go b l s = Some r \<and> scan_result K usage ty si s r"
    if "si_flags si AND SWP_WRITEOK K \<noteq> 0" "0 < l" "l \<le> highest_bit si" "swap_map si ! nat l = 0" for b l
    using scan_takes [OF g that(1-3) _ that(4) bd(5), of X usage found lst b] that len bd
    by (fastforce simp: scan_result_def scan_fields_def)
  have none: "no_page K ty s = Some (0, si_put ty (si\<lparr>si_flags := si_flags si - SWP_SCANNING K\<rparr>) s)"
    using g by (simp add: no_page_def)
  have give_up: "\<exists>r. no_page K ty s = Some r \<and> scan_result K usage ty si s r"
    if "si_flags si AND SWP_WRITEOK K = 0 \<or> (\<forall>j. lowest_bit si < j \<and> j \<le> highest_bit si \<longrightarrow> swap_map si ! nat j \<noteq> 0)"
    using that none by (auto simp: scan_result_def scan_fields_def intro!: exI [of _ "si\<lparr>si_flags := si_flags si - SWP_SCANNING K\<rparr>"])
  show ?thesis
  proof (cases "si_flags si AND SWP_WRITEOK K = 0 \<or> highest_bit si = 0")
    case True
    then have "?go base offset s = no_page K ty s" using g by (subst scan_checks.simps) auto
    then show ?thesis using give_up True bd by (metis not_le order.strict_trans)
  next
    case False
    define b where "b = (if highest_bit si < offset then lowest_bit si else base)"
    define off where "off = (if highest_bit si < offset then lowest_bit si else offset)"
    have off: "0 < off" "off < si_max si" "0 < b" "b \<le> si_max si" using bd o False by (auto simp: b_def off_def)
    have le: "off \<le> highest_bit si" using bd False by (auto simp: off_def)
    have m: "arr_get (swap_map si) off = Some (swap_map si ! nat off)" using off len by (simp add: arr_get_def)
    have start: "?go base offset s = ?go b off s"
    proof (cases "highest_bit si < offset")
      case True
      then show ?thesis using le g False by (subst (1 2) scan_checks.simps) (simp add: b_def off_def not_less)
    qed (simp add: b_def off_def)
    show ?thesis
    proof (cases "swap_map si ! nat off = 0")
      case True
      then show ?thesis using take [of off b] off le False start by auto
    next
      case used: False
      then have bo: "b = off" using o(4) by (auto simp: b_def off_def split: if_splits)
      obtain r where r: "scan_next K False (swap_map si) off (highest_bit si + 1) = Some r"
          "case r of Some l \<Rightarrow> off < l \<and> l < highest_bit si + 1 \<and> swap_map si ! nat l = 0
           | None \<Rightarrow> \<forall>j. off < j \<and> j < highest_bit si + 1 \<longrightarrow> swap_map si ! nat j \<noteq> 0"
        using scan_next_spec [of off "highest_bit si + 1" "swap_map si" K] off len bd by auto
      obtain q where q: "scan_next K False (swap_map si) (lowest_bit si) b = Some q"
          "case q of Some l \<Rightarrow> lowest_bit si < l \<and> l < b \<and> swap_map si ! nat l = 0
           | None \<Rightarrow> \<forall>j. lowest_bit si < j \<and> j < b \<longrightarrow> swap_map si ! nat j \<noteq> 0"
        using scan_next_spec [of "lowest_bit si" b "swap_map si" K] off len bd by auto
      have step: "?go b off s = (case (case r of Some _ \<Rightarrow> r | None \<Rightarrow> q) of None \<Rightarrow> no_page K ty s | Some l \<Rightarrow> ?go b l s)"
        using g False le m used nf r(1) q(1) by (subst scan_checks.simps) (simp add: Let_def not_less split: option.splits)
      show ?thesis
      proof (cases "(case r of Some _ \<Rightarrow> r | None \<Rightarrow> q)")
        case None
        then have "r = None" "q = None" by (auto split: option.splits)
        then have "swap_map si ! nat j \<noteq> 0" if "lowest_bit si < j" "j \<le> highest_bit si" for j
          using r(2) q(2) used that bo by (cases "j = off") (auto simp: not_less_iff_gr_or_eq linorder_neq_iff)
        then show ?thesis using give_up None step start by auto
      next
        case (Some l)
        then have "0 < l" "l \<le> highest_bit si" "swap_map si ! nat l = 0"
          using r(2) q(2) off le bo bd by (auto split: option.splits)
        then show ?thesis using take [of l b] Some step start False by auto
      qed
    qed
  qed
qed

section \<open>Properties\<close>

text \<open>
  C21: on an area that is ready, and while swap is not half full, \<open>scan_swap_map\<close> always returns: either
  with a slot that was free, inside the bounds of the area, which now holds \<open>usage\<close> while every other
  byte is as it was, or with 0 and an unchanged map; then every slot above \<open>lowest_bit\<close> is taken, or the
  area is not open for writing.
\<close>

theorem scan_allocates_free:
  assumes "linux_swap_h K" "si_get ty s = Some si" "area_ready K si" "\<not> vm_swap_full K (nr_swap_pages s) (total_swap_pages s)"
  shows "\<exists>off q. scan_swap_map K X ty usage s = Some (off, si_put ty q s) \<and> si_flags q = si_flags si \<and>
     (if off = 0 then swap_map q = swap_map si \<and>
        (si_flags si AND SWP_WRITEOK K = 0 \<or> (\<forall>j. lowest_bit si < j \<and> j \<le> highest_bit si \<longrightarrow> swap_map si ! nat j \<noteq> 0))
      else 0 < off \<and> off \<le> highest_bit si \<and> swap_map si ! nat off = 0 \<and> swap_map q = (swap_map si)[nat off := usage] \<and>
        inuse_pages q = u32 (inuse_pages si + 1))"
proof -
  obtain si' base offset lst found where c: "choose_start K si = Some (si', base, offset, lst, found)"
      "started si si' base offset found (si_flags si + SWP_SCANNING K)"
    using choose_start_ok [OF assms(1,3)] by blast
  then have "\<exists>r. scan_checks K X ty usage found lst base offset (si_put ty si' s) = Some r \<and>
      scan_result K usage ty si' (si_put ty si' s) r"
    by (intro scan_checks_ends) (use assms in \<open>auto simp: started_def area_ready_def split: if_splits\<close>)
  then obtain off q where q: "scan_checks K X ty usage found lst base offset (si_put ty si' s) = Some (off, si_put ty q (si_put ty si' s))"
      "scan_fields K usage si' off q"
    unfolding scan_result_def by blast
  have "scan_swap_map K X ty usage s = Some (off, si_put ty q s)"
    using assms(2) c(1) q(1) by (simp add: scan_swap_map_def)
  moreover have "scan_fields K usage si' off q" by (rule q(2))
  ultimately show ?thesis using c(2) flags_scanning(2) [OF assms(1), of "si_flags si"]
    by (intro exI [of _ off] exI [of _ q]) (auto simp: scan_fields_def started_def)
qed

definition fresh_area :: swap_info_struct where
  "fresh_area = small_area\<lparr>swap_map := [0x3f, 0, 1, 1], cluster_next := 2, cluster_nr := 9, highest_bit := 3, lowest_bit := 1\<rparr>"

definition fresh_swaps :: "unit swaps" where
  "fresh_swaps = small_swaps\<lparr>swap_info := [Some fresh_area], nr_swap_pages := 3\<rparr>"

lemma fresh: "si_get 0 fresh_swaps = Some fresh_area" "area_ready std_h fresh_area"
  "\<not> vm_swap_full std_h (nr_swap_pages fresh_swaps) (total_swap_pages fresh_swaps)"
  by (simp_all add: fresh_swaps_def fresh_area_def small_area_def small_swaps_def si_get_def arr_get_def area_ready_def std_h_def)

theorem scan_allocates_free_witness:
  "\<exists>off q. scan_swap_map std_h plain_kserv 0 0x40 fresh_swaps = Some (off, si_put 0 q fresh_swaps) \<and> si_flags q = 3"
  using scan_allocates_free [OF std_h_linux fresh, of plain_kserv "0x40"] by (auto simp: fresh_area_def small_area_def)

text \<open>
  The second search starts one slot too high: \<open>while (++offset < scan_base)\<close> with \<open>offset\<close> at
  \<open>lowest_bit\<close> never looks at \<open>lowest_bit\<close> itself.  When that is the only free slot, the allocation
  fails although the area has room.
\<close>

theorem scan_skips_lowest:
  assumes "linux_swap_h K" "si_get ty s = Some si" "area_ready K si" "\<not> vm_swap_full K (nr_swap_pages s) (total_swap_pages s)"
    and "si_flags si AND SWP_WRITEOK K \<noteq> 0" "cluster_nr si \<noteq> 0" "lowest_bit si < cluster_next si" "cluster_next si \<le> highest_bit si"
    and "swap_map si ! nat (lowest_bit si) = 0" "\<forall>j. lowest_bit si < j \<and> j \<le> highest_bit si \<longrightarrow> swap_map si ! nat j \<noteq> 0"
  shows "\<exists>q. scan_swap_map K X ty usage s = Some (0, si_put ty q s) \<and> swap_map q = swap_map si \<and>
    swap_map q ! nat (lowest_bit si) = 0"
proof -
  define p where "p = si\<lparr>si_flags := si_flags si + SWP_SCANNING K, cluster_nr := u32 (cluster_nr si - 1)\<rparr>"
  define t where "t = si_put ty p s"
  have g: "si_get ty t = Some p" "nr_swap_pages t = nr_swap_pages s" "total_swap_pages t = total_swap_pages s"
    using assms(2) by (simp_all add: t_def)
  let ?c = "cluster_next si"
  have len: "int (length (swap_map si)) = si_max si" "0 < lowest_bit si" "highest_bit si < si_max si" "highest_bit si \<noteq> 0"
    using assms(3,7,8) by (auto simp: area_ready_def)
  have w: "si_flags p AND SWP_WRITEOK K \<noteq> 0" using assms(5) flags_scanning(2) [OF assms(1)] by (simp add: p_def)
  have c: "swap_map si ! nat ?c \<noteq> 0" "arr_get (swap_map si) ?c = Some (swap_map si ! nat ?c)"
    using assms(7,8,10) len by (auto simp: arr_get_def)
  have r: "scan_next K False (swap_map si) ?c (highest_bit si + 1) = Some None"
    using scan_next_spec [of ?c "highest_bit si + 1" "swap_map si" K] assms(7,8,10) len by (force split: option.splits)
  have q: "scan_next K False (swap_map si) (lowest_bit si) ?c = Some None"
    using scan_next_spec [of "lowest_bit si" ?c "swap_map si" K] assms(7,8,10) len by (force split: option.splits)
  have e: "scan_swap_map K X ty usage s = scan_checks K X ty usage False 0 ?c ?c t"
    using assms(2,6) by (simp add: scan_swap_map_def choose_start_def Let_def t_def p_def)
  also have "\<dots> = no_page K ty t"
    using g w len c r q assms(4,8) by (subst scan_checks.simps) (simp add: Let_def p_def)
  also have "\<dots> = Some (0, si_put ty (p\<lparr>si_flags := si_flags p - SWP_SCANNING K\<rparr>) s)"
    using g by (simp add: no_page_def) (simp add: t_def)
  finally show ?thesis using assms(9) by (auto simp: p_def intro!: exI)
qed

theorem scan_skips_lowest_witness:
  "\<exists>q. scan_swap_map std_h plain_kserv 0 0x40 fresh_swaps = Some (0, si_put 0 q fresh_swaps) \<and> swap_map q ! 1 = 0"
proof -
  have "\<forall>j. lowest_bit fresh_area < j \<and> j \<le> highest_bit fresh_area \<longrightarrow> swap_map fresh_area ! nat j \<noteq> 0"
  proof (intro allI impI)
    fix j assume "lowest_bit fresh_area < j \<and> j \<le> highest_bit fresh_area"
    then have "j = 2 \<or> j = 3" by (auto simp: fresh_area_def)
    then show "swap_map fresh_area ! nat j \<noteq> 0" by (auto simp: fresh_area_def)
  qed
  then show ?thesis
    using scan_skips_lowest [OF std_h_linux fresh, of plain_kserv "0x40"] by (auto simp: fresh_area_def small_area_def std_h_def)
qed

end
