(* ===== verification/Comex_Swap.thy ===== *)
theory Comex_Swap
  imports Comex_Remote Swap_Alloc
begin

unbundle bit_operations_syntax

text \<open>
  Where COMEX hooks into the swap layer (\<open>swap_state.c\<close>, 174-290 and 387-569): \<open>add_to_swap\<close> sends
  the pages of one program to the node's own pool (an entry of type 9 with the page number) or to a
  lender (type 8 with the lender and its page number), \<open>read_swap_cache_async\<close> fetches them back.
\<close>

section \<open>The machine\<close>

text \<open>A node together with the swap layer of its kernel; both number the page frames alike.\<close>

record ('r, 'k) machine =
  nd :: "'r node"
  sw :: "'k swaps"

text \<open>
  What they use of the rest of the kernel: the names of the tasks, the split of a huge page, the
  allocation of a page for a user's area, the reading of a page from a swap area, and \<open>page_cluster\<close>.
\<close>

record ('r, 'k) host =
  hdr :: swap_h
  ext :: "'r ext"
  ksv :: "'k kserv"
  task_comm :: "int \<Rightarrow> string"
  split_huge_page_to_list :: "int \<Rightarrow> 'k swaps \<Rightarrow> int \<times> 'k swaps"
  alloc_page_vma :: "'k swaps \<Rightarrow> int option \<times> 'k swaps"
  swap_readpage :: "int \<Rightarrow> ('r, 'k) machine \<Rightarrow> ('r, 'k) machine"
  page_cluster :: nat

definition nd_do :: "('r node \<Rightarrow> 'r node option) \<Rightarrow> ('r, 'k) machine \<Rightarrow> ('r, 'k) machine option" where
  "nd_do f m = do { n \<leftarrow> f (nd m); Some (m\<lparr>nd := n\<rparr>) }"

definition sw_do :: "('k swaps \<Rightarrow> 'k swaps option) \<Rightarrow> ('r, 'k) machine \<Rightarrow> ('r, 'k) machine option" where
  "sw_do f m = do { s \<leftarrow> f (sw m); Some (m\<lparr>sw := s\<rparr>) }"

definition sw_get :: "('k swaps \<Rightarrow> ('a \<times> 'k swaps) option) \<Rightarrow> ('r, 'k) machine \<Rightarrow> ('a \<times> ('r, 'k) machine) option" where
  "sw_get f m = do { (r, s) \<leftarrow> f (sw m); Some (r, m\<lparr>sw := s\<rparr>) }"

definition stat_upd :: "(COMEX_stats \<Rightarrow> COMEX_stats) \<Rightarrow> ('r, 'k) machine \<Rightarrow> ('r, 'k) machine" where
  "stat_upd f m = m\<lparr>nd := (nd m)\<lparr>stats := f (stats (nd m))\<rparr>\<rparr>"

text \<open>The cast of an \<open>unsigned long\<close> to \<open>int\<close>.\<close>

definition c_int :: "u64 \<Rightarrow> int" where
  "c_int w = signed_take_bit 31 (uint w)"

section \<open>Swapping out\<close>

text \<open>The pages COMEX takes: mapped once, held by the page table and the reclaim only, of the chosen program.\<close>

definition comex_filter :: "('r, 'k) host \<Rightarrow> int \<Rightarrow> ('r, 'k) machine \<Rightarrow> bool" where
  "comex_filter H page m \<longleftrightarrow>
     (let COMEX_task = get_taskStruct (anon_tree (ext H) page); p = frames (sw m) page in
      COMEX_Ready (nd m) = 1 \<and> p_mapcount p = 1 \<and> p_count p = 2 \<and>
      (case COMEX_task of None \<Rightarrow> False | Some t \<Rightarrow> task_comm H t = proc_name (conf (nd m))))"

text \<open>The number of areas in the reverse map, where it can be locked.\<close>

definition Rmap_counter :: "('r, 'k) host \<Rightarrow> int \<Rightarrow> nat" where
  "Rmap_counter H page = (case anon_tree (ext H) page of None \<Rightarrow> 0 | Some tree \<Rightarrow> length tree)"

text \<open>
  The move of a page into COMEX, with its entry.  \<open>NodeID\<close> and \<open>PageNO\<close> are written by a call that
  returns 1; before that they hold whatever the stack held (0 here), and nobody reads them.
\<close>

definition comex_out :: "('r, 'k) host \<Rightarrow> int \<Rightarrow> ('r, 'k) machine \<Rightarrow> (entry option \<times> ('r, 'k) machine) option" where
  "comex_out H page m = do {
     (r, NodeID, PageNO, n) \<leftarrow> COMEX_move_to_COMEX (ext H) page 0 0 (nd m);
     let m = m\<lparr>nd := n\<rparr>;
     if r = 1 then
       Some (Some (swp_entry (hdr H) 9 (word_of_int PageNO)), stat_upd (\<lambda>c. c\<lparr>SWAP_to_COMEX := SWAP_to_COMEX c + 1\<rparr>) m)
     else do {
       (r, NodeID, PageNO, n) \<leftarrow> COMEX_move_to_Remote (ext H) page NodeID PageNO n;
       let m = m\<lparr>nd := n\<rparr>;
       if r = 1 then
         Some (Some (swp_entry (hdr H) 8 (word_of_int NodeID + push_bit 10 (word_of_int PageNO))),
               stat_upd (\<lambda>c. c\<lparr>SWAP_to_COMEX := SWAP_to_COMEX c + 1\<rparr>) m)
       else Some (None, m)
     }
   }"

definition choose_entry :: "('r, 'k) host \<Rightarrow> int \<Rightarrow> ('r, 'k) machine \<Rightarrow> (entry \<times> ('r, 'k) machine) option" where
  "choose_entry H page m = do {
     (e, m) \<leftarrow> (if comex_filter H page m \<and> Rmap_counter H page = 1 then comex_out H page m else Some (None, m));
     case e of Some entry \<Rightarrow> Some (entry, m)
     | None \<Rightarrow> sw_get (get_swap_page (hdr H) (ksv H)) (stat_upd (\<lambda>c. c\<lparr>SWAP_to_Disk := SWAP_to_Disk c + 1\<rparr>) m)
   }"

definition add_to_swap :: "('r, 'k) host \<Rightarrow> int \<Rightarrow> ('r, 'k) machine \<Rightarrow> (int \<times> ('r, 'k) machine) option" where
  "add_to_swap H page m =
     (if \<not> PageLocked (frames (sw m) page) \<or> \<not> PageUptodate (frames (sw m) page) then None
      else do {
        (entry, m) \<leftarrow> choose_entry H page m;
        if entry = 0 then Some (0, m)
        else do {
          let m = stat_upd (\<lambda>c. c\<lparr>SWAP_total := SWAP_total c + 1\<rparr>) m;
          let (err, s) = (if PageTransHuge (frames (sw m) page) then split_huge_page_to_list H page (sw m) else (0, sw m));
          let m = m\<lparr>sw := s\<rparr>;
          if err \<noteq> 0 then do { m \<leftarrow> sw_do (swapcache_free (hdr H) (ksv H) entry None) m; Some (0, m) }
          else do {
            (err, m) \<leftarrow> sw_get (add_to_swap_cache (hdr H) (ksv H) page entry) m;
            if err = 0 then Some (1, m\<lparr>sw := SetPageDirty page (sw m)\<rparr>)
            else do { m \<leftarrow> sw_do (swapcache_free (hdr H) (ksv H) entry None) m; Some (0, m) }
          }
        }
      })"

section \<open>Swapping in\<close>

text \<open>The node and the page number in an entry of type 8, as the readers take them apart.\<close>

definition entry_NodeID :: "swap_h \<Rightarrow> entry \<Rightarrow> int" where
  "entry_NodeID K entry = c_int (swp_offset K entry) AND 1023"

definition entry_pageNO :: "swap_h \<Rightarrow> entry \<Rightarrow> int" where
  "entry_pageNO K entry = c_int (drop_bit 10 (swp_offset K entry))"

definition set_page_read :: "int \<Rightarrow> 'k swaps \<Rightarrow> 'k swaps" where
  "set_page_read pg = frame_upd pg (\<lambda>p. p\<lparr>PageDirty := True, PageUptodate := True, PageLocked := False\<rparr>)"

text \<open>What is done with the new page once it is in the cache: by type, and for COMEX pages the store is given back.\<close>

definition fill_page :: "('r, 'k) host \<Rightarrow> entry \<Rightarrow> int \<Rightarrow> ('r, 'k) machine \<Rightarrow> ('r, 'k) machine option" where
  "fill_page H entry new_page m =
     (if swp_type (hdr H) entry = 8 then do {
        let NodeID = entry_NodeID (hdr H) entry;
        let COMEX_pageNO = entry_pageNO (hdr H) entry;
        let m = stat_upd (\<lambda>c. c\<lparr>COMEX_in_total := COMEX_in_total c + 1\<rparr>) m;
        m \<leftarrow> nd_do (swapin_read (ext H) new_page NodeID COMEX_pageNO) m;
        let m = m\<lparr>sw := set_page_read new_page (sw m)\<rparr>;
        nd_do (COMEX_free_to_remote (ext H) NodeID COMEX_pageNO) m
      }
      else if swp_type (hdr H) entry = 9 then do {
        let PageNO = c_int (swp_offset (hdr H) entry);
        let m = stat_upd (\<lambda>c. c\<lparr>COMEX_in_total := COMEX_in_total c + 1, COMEX_in_Local := COMEX_in_Local c + 1\<rparr>) m;
        m \<leftarrow> nd_do (COMEX_read_from_local (ext H) new_page PageNO) m;
        let m = m\<lparr>sw := set_page_read new_page (sw m)\<rparr>;
        nd_do (node_free PageNO 0) m
      }
      else Some (swap_readpage H new_page m))"

text \<open>
  The loop of \<open>read_swap_cache_async\<close>, with \<open>new_page\<close> from the round before.  The frame that
  \<open>alloc_page_vma\<close> returns is locked, marked and put into the cache; \<open>lru_cache_add_anon\<close> only
  files it for the reclaim.
\<close>

definition give_back :: "int option \<Rightarrow> ('r, 'k) machine \<Rightarrow> ('r, 'k) machine" where
  "give_back new_page m = (case new_page of None \<Rightarrow> m | Some pg \<Rightarrow> m\<lparr>sw := page_cache_release pg (sw m)\<rparr>)"

partial_function (option) read_loop ::
  "('r, 'k) host \<Rightarrow> entry \<Rightarrow> int option \<Rightarrow> ('r, 'k) machine \<Rightarrow> (int option \<times> ('r, 'k) machine) option" where
  "read_loop H entry new_page m = do {
     (found_page, m) \<leftarrow> sw_get (find_get_page (hdr H) entry) m;
     if found_page \<noteq> None then Some (found_page, give_back new_page m)
     else do {
       let (new_page, s) = (case new_page of Some pg \<Rightarrow> (Some pg, sw m) | None \<Rightarrow> alloc_page_vma H (sw m));
       let m = m\<lparr>sw := s\<rparr>;
       case new_page of None \<Rightarrow> Some (None, m)
       | Some pg \<Rightarrow> do {
           let (err, k) = radix_tree_preload (ksv H) (kern (sw m));
           let m = m\<lparr>sw := (sw m)\<lparr>kern := k\<rparr>\<rparr>;
           if err \<noteq> 0 then Some (None, give_back (Some pg) m)
           else do {
             (err, m) \<leftarrow> sw_get (swapcache_prepare (hdr H) entry) m;
             if err = - EEXIST then read_loop H entry (Some pg) m
             else if err \<noteq> 0 then Some (None, give_back (Some pg) m)
             else do {
               let m = m\<lparr>sw := frame_upd pg (\<lambda>p. p\<lparr>PageLocked := True, PageSwapBacked := True\<rparr>) (sw m)\<rparr>;
               (err, m) \<leftarrow> sw_get (u_add_to_swap_cache (hdr H) (ksv H) pg entry) m;
               if err = 0 then do { m \<leftarrow> fill_page H entry pg m; Some (Some pg, m) }
               else do {
                 let m = m\<lparr>sw := frame_upd pg (\<lambda>p. p\<lparr>PageSwapBacked := False, PageLocked := False\<rparr>) (sw m)\<rparr>;
                 m \<leftarrow> sw_do (swapcache_free (hdr H) (ksv H) entry None) m;
                 if err = - ENOMEM then Some (None, give_back (Some pg) m)
                 else read_loop H entry (Some pg) m
               }
             }
           }
         }
     }
   }"

definition read_swap_cache_async :: "('r, 'k) host \<Rightarrow> entry \<Rightarrow> ('r, 'k) machine \<Rightarrow> (int option \<times> ('r, 'k) machine) option" where
  "read_swap_cache_async H entry m = read_loop H entry None m"

text \<open>Reading ahead: an aligned block of \<open>2 ^ page_cluster\<close> entries of a swap area; a COMEX entry alone.\<close>

definition read_release :: "('r, 'k) host \<Rightarrow> entry \<Rightarrow> ('r, 'k) machine \<Rightarrow> ('r, 'k) machine option" where
  "read_release H entry m = do { (page, m) \<leftarrow> read_swap_cache_async H entry m; Some (give_back page m) }"

definition swapin_readahead :: "('r, 'k) host \<Rightarrow> entry \<Rightarrow> ('r, 'k) machine \<Rightarrow> (int option \<times> ('r, 'k) machine) option" where
  "swapin_readahead H entry m = do {
     let offset = swp_offset (hdr H) entry;
     let mask = push_bit (page_cluster H) 1 - 1;
     let start_offset = offset AND NOT mask;
     let end_offset = offset OR mask;
     let start_offset = (if start_offset = 0 then start_offset + 1 else start_offset);
     m \<leftarrow> (if swp_type (hdr H) entry = 8 \<or> swp_type (hdr H) entry = 9 then read_release H entry m
           else for_up (uint start_offset) (uint end_offset + 1)
                  (\<lambda>off m. read_release H (swp_entry (hdr H) (swp_type (hdr H) entry) (word_of_int off)) m) m);
     read_swap_cache_async H entry m
   }"

section \<open>The entries\<close>

lemma c_int_small: "0 \<le> p \<Longrightarrow> p < 2 ^ 31 \<Longrightarrow> c_int (word_of_int p) = p"
  by (simp add: c_int_def uint_word_of_int signed_take_bit_int_eq_self)

lemma c_int_low: "c_int w AND 1023 = uint w mod 1024"
proof -
  have "c_int w AND 1023 = take_bit 10 (signed_take_bit 31 (uint w))"
    by (simp add: c_int_def take_bit_eq_mask mask_eq_exp_minus_1)
  also have "\<dots> = take_bit 10 (uint w)" by (simp add: take_bit_signed_take_bit)
  finally show ?thesis by (simp add: take_bit_eq_mod)
qed

lemma offset_bits:
  assumes "0 \<le> n" "n < 1024" "0 \<le> p" "p < 2 ^ 31"
  shows "(word_of_int n + push_bit 10 (word_of_int p) :: u64) = word_of_int (n + p * 1024)"
    and "uint (word_of_int (n + p * 1024) :: u64) = n + p * 1024" and "(word_of_int (n + p * 1024) :: u64) < 2 ^ 57"
proof -
  show "(word_of_int n + push_bit 10 (word_of_int p) :: u64) = word_of_int (n + p * 1024)"
    by (simp add: push_bit_eq_mult wi_hom_syms)
  show u: "uint (word_of_int (n + p * 1024) :: u64) = n + p * 1024"
    by (subst uint_word_of_int) (use assms in simp)
  show "(word_of_int (n + p * 1024) :: u64) < 2 ^ 57"
    unfolding word_less_alt u using assms by simp
qed

lemma entry_9:
  assumes "linux_swap_h K" "0 \<le> p" "p < 2 ^ 31"
  shows "swp_type K (swp_entry K 9 (word_of_int p)) = 9" "c_int (swp_offset K (swp_entry K 9 (word_of_int p))) = p"
    "swp_entry K 9 (word_of_int p) \<noteq> 0" "\<not> non_swap_entry K (swp_entry K 9 (word_of_int p))"
proof -
  have u: "uint (word_of_int p :: u64) = p" using assms by (simp add: uint_word_of_int)
  have "(word_of_int p :: u64) < 2 ^ 57" unfolding word_less_alt u using assms by simp
  then have e: "swp_type K (swp_entry K 9 (word_of_int p)) = 9" "swp_offset K (swp_entry K 9 (word_of_int p)) = word_of_int p"
      "swp_entry K 9 (word_of_int p) \<noteq> 0"
    using assms(1) by (simp_all add: linux_swap_h_def)
  show "swp_type K (swp_entry K 9 (word_of_int p)) = 9" "swp_entry K 9 (word_of_int p) \<noteq> 0" using e by simp_all
  show "c_int (swp_offset K (swp_entry K 9 (word_of_int p))) = p" using e(2) c_int_small assms by simp
  show "\<not> non_swap_entry K (swp_entry K 9 (word_of_int p))" using e(1) assms(1) by (simp add: linux_swap_h_def)
qed

lemma entry_8:
  assumes "linux_swap_h K" "0 \<le> n" "n < 1024" "0 \<le> p" "p < 2 ^ 31"
    and "e = swp_entry K 8 (word_of_int n + push_bit 10 (word_of_int p))"
  shows "swp_type K e = 8 \<and> e \<noteq> 0 \<and> \<not> non_swap_entry K e \<and> entry_NodeID K e = n \<and> entry_pageNO K e = p"
proof -
  define off where "off = (word_of_int (n + p * 1024) :: u64)"
  have o: "(word_of_int n + push_bit 10 (word_of_int p) :: u64) = off" "uint off = n + p * 1024" "off < 2 ^ 57"
    unfolding off_def by (rule offset_bits [OF assms(2-5)])+
  have e: "swp_type K e = 8" "swp_offset K e = off" "e \<noteq> 0" "\<not> non_swap_entry K e"
    using assms(1,6) o(1,3) by (simp_all add: linux_swap_h_def)
  have "entry_NodeID K e = n" using assms(2,3) by (simp add: entry_NodeID_def c_int_low e(2) o(2))
  moreover have "uint (drop_bit 10 off) = p"
    using assms(2-5) by (subst unsigned_drop_bit_eq, subst o(2)) (simp add: drop_bit_eq_div take_bit_int_eq_self)
  then have "drop_bit 10 off = word_of_int p" by (metis word_of_int_uint)
  then have "entry_pageNO K e = p" using c_int_small assms(4,5) by (simp add: entry_pageNO_def e(2))
  ultimately show ?thesis using e by simp
qed

text \<open>
  What \<open>add_to_swap\<close> packs into an entry, \<open>read_swap_cache_async\<close> and \<open>zap_pte_range\<close> take out
  again: for a lender below 1024 and any page number that an \<open>int\<close> holds, the entry of type 8 fits the
  offset field, is not null, is no migration entry, and gives back both numbers.
\<close>

theorem remote_entry_codes:
  assumes "linux_swap_h K" "0 \<le> n" "n < 1024" "0 \<le> p" "p < 2 ^ 31"
    and "e = swp_entry K 8 (word_of_int n + push_bit 10 (word_of_int p))"
  shows "swp_type K e = 8 \<and> e \<noteq> 0 \<and> \<not> non_swap_entry K e \<and> entry_NodeID K e = n \<and> entry_pageNO K e = p"
  by (rule entry_8 [OF assms])

theorem remote_entry_codes_witness:
  "entry_NodeID std_h (swp_entry std_h 8 (5 + push_bit 10 77)) = 5 \<and> entry_pageNO std_h (swp_entry std_h 8 (5 + push_bit 10 77)) = 77"
  using remote_entry_codes [OF std_h_linux, of 5 77 "swp_entry std_h 8 (5 + push_bit 10 77)"] by simp

section \<open>Out and in again\<close>

text \<open>The kernel has memory for the nodes of the swap cache, and no swap area has the number 8 or 9.\<close>

definition roomy :: "'k kserv \<Rightarrow> bool" where
  "roomy X \<longleftrightarrow> (\<forall>k. fst (radix_tree_preload X k) = 0 \<and> fst (radix_tree_room X k) = 0)"

definition cache_ready :: "swap_h \<Rightarrow> entry \<Rightarrow> 'k swaps \<Rightarrow> bool" where
  "cache_ready K e s \<longleftrightarrow> cache_inv K s \<and> length (swapper_spaces s) = 29 \<and> cached_page K e s = None"

lemma cached_same: "swapper_spaces s = swapper_spaces t \<Longrightarrow> cached_page K e s = cached_page K e t"
  by (simp add: cached_page_def)

lemma cache_ready_kern [simp]: "cache_ready K e (s\<lparr>kern := k\<rparr>) = cache_ready K e s"
  by (simp add: cache_ready_def cache_inv_def cached_page_def)

text \<open>A page that the reclaim offers and COMEX takes.\<close>

definition out_ready :: "('r, 'k) host \<Rightarrow> int \<Rightarrow> ('r, 'k) machine \<Rightarrow> bool" where
  "out_ready H pg m \<longleftrightarrow> (let p = frames (sw m) pg in
     comex_filter H pg m \<and> Rmap_counter H pg = 1 \<and> PageLocked p \<and> PageUptodate p \<and> \<not> PageTransHuge p \<and>
     \<not> PageSwapCache p \<and> PageSwapBacked p \<and> page_private p = 0)"

text \<open>A page frame that is free for the page to come.\<close>

definition fresh_frame :: "('r, 'k) host \<Rightarrow> int \<Rightarrow> 'k swaps \<Rightarrow> bool" where
  "fresh_frame H pg s \<longleftrightarrow> (\<exists>s'. alloc_page_vma H s = (Some pg, s') \<and> swapper_spaces s' = swapper_spaces s \<and>
     cache_inv (hdr H) s' \<and> \<not> PageSwapCache (frames s' pg) \<and> page_private (frames s' pg) = 0)"

lemma add_9:
  assumes "roomy (ksv H)" "cache_ready (hdr H) e s" "unat (swp_type (hdr H) e) < 29"
    and "PageLocked (frames s pg)" "\<not> PageSwapCache (frames s pg)" "PageSwapBacked (frames s pg)" "page_private (frames s pg) = 0"
  shows "\<exists>t. u_add_to_swap_cache (hdr H) (ksv H) pg e s = Some (0, t) \<and> cached_page (hdr H) e t = Some pg \<and>
    cache_inv (hdr H) t \<and> length (swapper_spaces t) = 29 \<and> swap_info t = swap_info s \<and> (\<forall>q. q \<noteq> pg \<longrightarrow> frames t q = frames s q) \<and>
    frames t pg = (frames s pg)\<lparr>p_count := p_count (frames s pg) + 1, PageSwapCache := True, page_private := e\<rparr>"
proof -
  have u: "unat (swp_type (hdr H) e) < length (swapper_spaces s)" "cached_page (hdr H) e s = None" "cache_inv (hdr H) s"
    using assms(2,3) by (simp_all add: cache_ready_def)
  have r: "fst (radix_tree_room (ksv H) k) = 0" for k using assms(1) by (simp add: roomy_def)
  obtain t where t: "u_add_to_swap_cache (hdr H) (ksv H) pg e s = Some (0, t)"
    using add_succeeds [OF r u(1,2) assms(4-6)] by blast
  have "\<forall>k. fst (radix_tree_room (ksv H) k) \<noteq> - EEXIST" using r by (simp add: errnos)
  from add_to_cache [OF u(3,1,2) assms(4-7) this] t assms(2) show ?thesis by (auto simp: cache_ready_def)
qed

lemma nd_stat [simp]: "nd (stat_upd f m) = (nd m)\<lparr>stats := f (stats (nd m))\<rparr>" "sw (stat_upd f m) = sw m"
  by (simp_all add: stat_upd_def)

lemma own_small:
  assumes "own_ok virt s" and "p < pool_total s"
  shows "p < 2 ^ 31"
proof -
  have "0 \<le> total_writeOut s * total_nodes s" using assms(1) by (simp add: own_ok_def ready_def conf_ok_def)
  moreover have "0 < total_readIn s" "total_writeOut s * total_nodes s + total_readIn s + pool_total s < 2 ^ 31"
    using assms(1) by (simp_all add: own_ok_def ready_def conf_ok_def)
  ultimately show ?thesis using assms(2) by linarith
qed

lemma cache_inv_same:
  assumes "swapper_spaces t = swapper_spaces s" and "\<And>pg. PageSwapCache (frames t pg) = PageSwapCache (frames s pg)"
    and "\<And>pg. page_private (frames t pg) = page_private (frames s pg)"
  shows "cache_inv K t = cache_inv K s"
  using assms by (simp add: cache_inv_def cached_page_def)

text \<open>The swap layer \<open>s\<close> after \<open>add_to_swap\<close> of a page on \<open>t\<close>.\<close>

definition in_cache :: "('r, 'k) host \<Rightarrow> entry \<Rightarrow> int \<Rightarrow> 'k swaps \<Rightarrow> 'k swaps \<Rightarrow> bool" where
  "in_cache H e pg t s \<longleftrightarrow> cached_page (hdr H) e s = Some pg \<and> cache_inv (hdr H) s \<and> length (swapper_spaces s) = 29 \<and>
     swap_info s = swap_info t \<and>
     frames s pg = (frames t pg)\<lparr>PageDirty := True, p_count := p_count (frames t pg) + 1, PageSwapCache := True, page_private := e\<rparr>"

lemma add_chosen:
  assumes X: "roomy (ksv H)" and ch: "choose_entry H pg m = Some (e, m1)" "sw m1 = sw m" "e \<noteq> 0" "unat (swp_type (hdr H) e) < 29"
    and pg: "out_ready H pg m" and c: "cache_ready (hdr H) e (sw m)"
  shows "\<exists>st s. add_to_swap H pg m = Some (1, m1\<lparr>nd := (nd m1)\<lparr>stats := st\<rparr>, sw := s\<rparr>) \<and> in_cache H e pg (sw m) s"
proof -
  define m2 where "m2 = stat_upd (\<lambda>c. c\<lparr>SWAP_total := SWAP_total c + 1\<rparr>) m1"
  have s2: "sw m2 = sw m" by (simp add: m2_def ch(2))
  obtain k where k: "radix_tree_preload (ksv H) (kern (sw m)) = (0, k)"
    using X by (cases "radix_tree_preload (ksv H) (kern (sw m))") (auto simp: roomy_def dest: spec [of _ "kern (sw m)"])
  obtain t where t: "u_add_to_swap_cache (hdr H) (ksv H) pg e ((sw m)\<lparr>kern := k\<rparr>) = Some (0, t)" "cached_page (hdr H) e t = Some pg"
      "cache_inv (hdr H) t" "length (swapper_spaces t) = 29" "swap_info t = swap_info (sw m)"
      "frames t pg = (frames (sw m) pg)\<lparr>p_count := p_count (frames (sw m) pg) + 1, PageSwapCache := True, page_private := e\<rparr>"
    using add_9 [OF X _ ch(4), of "(sw m)\<lparr>kern := k\<rparr>" pg] pg c by (auto simp: out_ready_def Let_def)
  have "add_to_swap_cache (hdr H) (ksv H) pg e (sw m2) = Some (0, t)" using k t(1) by (simp add: add_to_swap_cache_def s2)
  then have "add_to_swap H pg m = Some (1, m2\<lparr>sw := SetPageDirty pg t\<rparr>)"
    using pg ch s2 by (simp add: add_to_swap_def out_ready_def Let_def sw_get_def m2_def)
  moreover have "m2\<lparr>sw := SetPageDirty pg t\<rparr> = m1\<lparr>nd := (nd m1)\<lparr>stats := stats (nd m2)\<rparr>, sw := SetPageDirty pg t\<rparr>"
    by (simp add: m2_def stat_upd_def)
  moreover have "cached_page (hdr H) e (SetPageDirty pg t) = Some pg"
    using t(2) cached_same [of "SetPageDirty pg t" t "hdr H" e] by (simp add: SetPageDirty_def frame_upd_def)
  moreover have "cache_inv (hdr H) (SetPageDirty pg t) = cache_inv (hdr H) t"
    by (rule cache_inv_same) (simp_all add: SetPageDirty_def frame_upd_def)
  ultimately have "in_cache H e pg (sw m) (SetPageDirty pg t)" using t
    by (simp add: in_cache_def) (simp add: SetPageDirty_def frame_upd_def)
  then show ?thesis using \<open>add_to_swap H pg m = _\<close> \<open>m2\<lparr>sw := _\<rparr> = _\<close> by metis
qed

lemma out_chosen: "out_ready H pg m \<Longrightarrow> comex_out H pg m = Some (Some e, m1) \<Longrightarrow> choose_entry H pg m = Some (e, m1)"
  by (simp add: choose_entry_def out_ready_def Let_def)

lemma swap_out_own:
  assumes K: "linux_swap_h (hdr H)" and X: "roomy (ksv H)" and own: "own_ok virt (nd m)" and free: "pool_free (nd m) \<noteq> {}"
    and pg: "out_ready H pg m" and c: "\<forall>p. cache_ready (hdr H) (swp_entry (hdr H) 9 (word_of_int p)) (sw m)"
  shows "\<exists>p b st s. add_to_swap H pg m = Some (1, m\<lparr>nd := (nd m)\<lparr>pool := b, stats := st,
        mem := memcpy (here_addr (pool_page p (nd m)) (nd m)) (kmap (ext H) pg) X86PageSize (mem (nd m))\<rparr>, sw := s\<rparr>) \<and>
    p \<in> pool_free (nd m) \<and> 0 \<le> p \<and> p < pool_total (nd m) \<and> buddy_inv b \<and> npages b = pool_total (nd m) \<and>
    free_set b = pool_free (nd m) - {p} \<and> in_cache H (swp_entry (hdr H) 9 (word_of_int p)) pg (sw m) s"
proof -
  obtain p b where p: "COMEX_move_to_COMEX (ext H) pg 0 0 (nd m) = Some (1, -11, p,
      (nd m)\<lparr>pool := b, mem := memcpy (here_addr (pool_page p (nd m)) (nd m)) (kmap (ext H) pg) X86PageSize (mem (nd m))\<rparr>)"
    "p \<in> pool_free (nd m)" "0 \<le> p" "p < pool_total (nd m)" "buddy_inv b" "npages b = pool_total (nd m)" "free_set b = pool_free (nd m) - {p}"
    using own_store [OF own free, of "ext H" pg 0 0] by blast
  let ?e = "swp_entry (hdr H) 9 (word_of_int p)"
  define m1 where "m1 = stat_upd (\<lambda>c. c\<lparr>SWAP_to_COMEX := SWAP_to_COMEX c + 1\<rparr>) (m\<lparr>nd := (nd m)\<lparr>pool := b,
    mem := memcpy (here_addr (pool_page p (nd m)) (nd m)) (kmap (ext H) pg) X86PageSize (mem (nd m))\<rparr>\<rparr>)"
  note E = entry_9 [OF K p(3) own_small [OF own p(4)]]
  have "comex_out H pg m = Some (Some ?e, m1)" using p(1) by (simp add: comex_out_def m1_def)
  then obtain st s where "add_to_swap H pg m = Some (1, m1\<lparr>nd := (nd m1)\<lparr>stats := st\<rparr>, sw := s\<rparr>)" "in_cache H ?e pg (sw m) s"
    using add_chosen [OF X out_chosen [OF pg] _ E(3) _ pg] c E(1) by (auto simp: m1_def)
  moreover have "m1\<lparr>nd := (nd m1)\<lparr>stats := st\<rparr>, sw := s\<rparr> = m\<lparr>nd := (nd m)\<lparr>pool := b, stats := st,
        mem := memcpy (here_addr (pool_page p (nd m)) (nd m)) (kmap (ext H) pg) X86PageSize (mem (nd m))\<rparr>, sw := s\<rparr>"
    by (simp add: m1_def stat_upd_def)
  ultimately show ?thesis using p(2-7) by metis
qed

text \<open>The read of an entry of the own pool.\<close>

lemma swap_in_own_full:
  assumes K: "linux_swap_h (hdr H)" and X: "roomy (ksv H)" and own: "own_ok virt (nd m)"
    and p: "0 \<le> p" "p < pool_total (nd m)" "p \<notin> pool_free (nd m)" and e: "e = swp_entry (hdr H) 9 (word_of_int p)"
    and c: "cache_ready (hdr H) e (sw m)" and f: "fresh_frame H new (sw m)"
  shows "\<exists>u. read_swap_cache_async H e m = Some (Some new, u) \<and>
    page_data (mem (nd u)) (kmap (ext H) new) = page_data (mem (nd m)) (here_addr (pool_page p (nd m)) (nd m)) \<and>
    own_ok virt (nd u) \<and> pool_free (nd u) = insert p (pool_free (nd m)) \<and> cached_page (hdr H) e (sw u) = Some new \<and>
    cache_inv (hdr H) (sw u) \<and> length (swapper_spaces (sw u)) = 29 \<and>
    (\<exists>b st d. nd u = (nd m)\<lparr>pool := b, stats := st, mem := d\<rparr>) \<and>
    (\<exists>s1. alloc_page_vma H (sw m) = (Some new, s1) \<and> swap_info (sw u) = swap_info s1 \<and> (\<forall>q. q \<noteq> new \<longrightarrow> frames (sw u) q = frames s1 q) \<and>
       frames (sw u) new = (frames s1 new)\<lparr>PageLocked := False, PageUptodate := True, PageDirty := True, PageSwapBacked := True,
         PageSwapCache := True, p_count := p_count (frames s1 new) + 1, page_private := e\<rparr>)"
proof -
  have pb: "p < 2 ^ 31" by (rule own_small [OF own p(2)])
  note E = entry_9 [OF K p(1) pb, folded e]
  obtain s1 where s1: "alloc_page_vma H (sw m) = (Some new, s1)" "swapper_spaces s1 = swapper_spaces (sw m)"
     "cache_inv (hdr H) s1" "\<not> PageSwapCache (frames s1 new)" "page_private (frames s1 new) = 0"
    using f by (auto simp: fresh_frame_def)
  obtain k where k: "radix_tree_preload (ksv H) (kern s1) = (0, k)"
    using X by (cases "radix_tree_preload (ksv H) (kern s1)") (auto simp: roomy_def dest: spec [of _ "kern s1"])
  define s2 where "s2 = frame_upd new (\<lambda>p. p\<lparr>PageLocked := True, PageSwapBacked := True\<rparr>) (s1\<lparr>kern := k\<rparr>)"
  have c2: "cached_page (hdr H) x s2 = cached_page (hdr H) x s1" for x by (simp add: s2_def frame_upd_def cached_page_def)
  have i2: "cache_inv (hdr H) s2"
    using s1(3,4) unfolding cache_inv_def c2 by (auto simp: s2_def frame_upd_def)
  have r2: "cache_ready (hdr H) e s2"
    using c i2 cached_same [OF s1(2), of "hdr H" e] s1(2) by (simp add: cache_ready_def c2) (simp add: s2_def frame_upd_def)
  obtain t where t: "u_add_to_swap_cache (hdr H) (ksv H) new e s2 = Some (0, t)" "cached_page (hdr H) e t = Some new"
      "cache_inv (hdr H) t" "length (swapper_spaces t) = 29" "swap_info t = swap_info s2"
      "frames t new = (frames s2 new)\<lparr>p_count := p_count (frames s2 new) + 1, PageSwapCache := True, page_private := e\<rparr>"
      "\<And>q. q \<noteq> new \<Longrightarrow> frames t q = frames s2 q"
    using add_9 [OF X r2, of new] E(1) s1(4,5) by (auto simp: s2_def frame_upd_def)
  have miss: "find_get_page (hdr H) e (sw m) = Some (None, sw m)"
    using c E(1) by (auto simp: find_get_page_def space_get_eq cache_ready_def cached_page_def)
  have prep: "swapcache_prepare (hdr H) e (s1\<lparr>kern := k\<rparr>) = Some (0, s1\<lparr>kern := k\<rparr>)"
    using comex_uncounted [of "hdr H" e] E(1,4) by (simp add: swapcache_prepare_def)
  define st where "st = (\<lambda>c. c\<lparr>COMEX_in_total := COMEX_in_total c + 1, COMEX_in_Local := COMEX_in_Local c + 1\<rparr>) (stats (nd m))"
  define n1 where "n1 = (nd m)\<lparr>stats := st\<rparr>"
  have n1: "own_ok virt n1" "pool_total n1 = pool_total (nd m)" "here_addr j n1 = here_addr j (nd m)" "pool_page i n1 = pool_page i (nd m)" for i j
    using own_same [OF own, of n1] own by (simp_all add: n1_def own_ok_def pool_ok_def pool_total_def)
  define n2 where "n2 = n1\<lparr>mem := memcpy (kmap (ext H) new) (here_addr (pool_page p (nd m)) (nd m)) X86PageSize (mem (nd m))\<rparr>"
  have rd: "COMEX_read_from_local (ext H) new p n1 = Some n2"
    using own_load [OF n1(1) p(1), of "ext H" new] p(2) n1 by (simp add: n2_def) (simp add: n1_def)
  have n2: "pool_ok n2" "pool_total n2 = pool_total (nd m)" "pool_free n2 = pool_free (nd m)"
    using own by (simp_all add: n2_def n1_def own_ok_def pool_ok_def pool_total_def pool_free_def)
  obtain n3 where n3: "node_free p 0 n2 = Some n3" "pool_ok n3" "pool_total n3 = pool_total n2" "pool_free n3 = pool_free n2 \<union> {p}"
    using npool.release [OF n2(1), of 0 p] p n2(2,3) by auto
  obtain b where b: "n3 = n2\<lparr>pool := b\<rparr>" using n3(1) by (auto simp: node_free_def split: bind_splits)
  have o3: "own_ok virt n3"
    using n3(2,3) n2(2) by (intro own_same(1) [OF own]) (simp_all add: b n2_def n1_def pool_ok_def pool_total_def)
  let ?u = "m\<lparr>nd := n3, sw := set_page_read new t\<rparr>"
  have "fill_page H e new (m\<lparr>sw := t\<rparr>) = Some ?u"
    using E(1,2) rd n3(1) by (simp add: fill_page_def Let_def nd_do_def stat_upd_def n1_def st_def)
  then have "read_swap_cache_async H e m = Some (Some new, ?u)"
    using miss s1(1) k prep t(1)
    by (simp add: read_swap_cache_async_def) (subst read_loop.simps, simp add: sw_get_def Let_def s2_def errnos)
  moreover have "cached_page (hdr H) e (sw ?u) = Some new"
    using t(2) cached_same [of "set_page_read new t" t "hdr H" e] by (simp add: set_page_read_def frame_upd_def)
  moreover have "mem n3 = mem n2" by (simp add: b)
  moreover have "cache_inv (hdr H) (sw ?u)"
    using t(3) cache_inv_same [of "set_page_read new t" t "hdr H"] by (simp add: set_page_read_def frame_upd_def)
  moreover have "length (swapper_spaces (sw ?u)) = 29" using t(4) by (simp add: set_page_read_def frame_upd_def)
  moreover have "swap_info (sw ?u) = swap_info s1" using t(5) by (simp add: set_page_read_def frame_upd_def s2_def)
  moreover have "frames (sw ?u) new = (frames s1 new)\<lparr>PageLocked := False, PageUptodate := True, PageDirty := True, PageSwapBacked := True,
         PageSwapCache := True, p_count := p_count (frames s1 new) + 1, page_private := e\<rparr>"
    using t(6) by (simp add: set_page_read_def frame_upd_def s2_def)
  moreover have "frames (sw ?u) q = frames s1 q" if "q \<noteq> new" for q
    using t(7) that by (simp add: set_page_read_def frame_upd_def s2_def)
  moreover have "\<exists>b st d. nd ?u = (nd m)\<lparr>pool := b, stats := st, mem := d\<rparr>"
    by (intro exI [of _ b] exI [of _ st] exI [of _ "mem n2"]) (simp add: b n2_def n1_def)
  ultimately show ?thesis using o3 n3(4) n2(3) s1(1) by (intro exI [of _ ?u]) (simp add: n2_def)
qed

lemma swap_in_own:
  assumes K: "linux_swap_h (hdr H)" and X: "roomy (ksv H)" and own: "own_ok virt (nd m)"
    and p: "0 \<le> p" "p < pool_total (nd m)" "p \<notin> pool_free (nd m)" and e: "e = swp_entry (hdr H) 9 (word_of_int p)"
    and c: "cache_ready (hdr H) e (sw m)" and f: "fresh_frame H new (sw m)"
  shows "\<exists>u. read_swap_cache_async H e m = Some (Some new, u) \<and>
    page_data (mem (nd u)) (kmap (ext H) new) = page_data (mem (nd m)) (here_addr (pool_page p (nd m)) (nd m)) \<and>
    own_ok virt (nd u) \<and> pool_free (nd u) = insert p (pool_free (nd m)) \<and> cached_page (hdr H) e (sw u) = Some new"
  using swap_in_own_full [OF assms] by blast

definition ideal_host :: "(int \<Rightarrow> mem, unit) host" where
  "ideal_host = \<lparr>hdr = std_h, ext = ideal_ext, ksv = plain_kserv, task_comm = (\<lambda>_. ''app''),
     split_huge_page_to_list = (\<lambda>_ s. (0, s)), alloc_page_vma = (\<lambda>s. (Some 9, s)), swap_readpage = (\<lambda>_ m. m), page_cluster = 3\<rparr>"

lemma ideal_host [simp]: "hdr ideal_host = std_h" "ext ideal_host = ideal_ext" "ksv ideal_host = plain_kserv"
  "roomy plain_kserv" "task_comm ideal_host = (\<lambda>_. ''app'')" "alloc_page_vma ideal_host s = (Some 9, s)"
  by (simp_all add: ideal_host_def roomy_def plain_kserv_def)

lemma ideal_cache: "cache_ready std_h e empty_swaps" "fresh_frame ideal_host 9 empty_swaps"
  using empty_cache by (simp_all add: cache_ready_def fresh_frame_def plain_page_def)

lemma ideal_out: "ext H = ideal_ext \<Longrightarrow> task_comm H = (\<lambda>_. ''app'') \<Longrightarrow> out_ready H 3 \<lparr>nd = (ideal_node r)\<lparr>pool := b\<rparr>, sw = empty_swaps\<rparr>"
  using empty_cache(4) [of 3]
  by (simp add: out_ready_def comex_filter_def Rmap_counter_def plain_page_def Let_def ideal_ext_def get_taskStruct_def
      ideal_node_def plain_node_def plain_conf_def)

text \<open>The swap cache already has the entry: nothing of the page or the cache changes (\<open>VM_BUG_ON\<close> is empty in the built kernel).\<close>

lemma add_taken:
  assumes "cached_page K e s = Some q" and "PageLocked (frames s pg)" "\<not> PageSwapCache (frames s pg)" "PageSwapBacked (frames s pg)" "page_private (frames s pg) = 0"
  shows "u_add_to_swap_cache K X pg e s = Some (- EEXIST, s)"
proof -
  have t: "unat (swp_type K e) < length (swapper_spaces s)" "page_tree (swapper_spaces s ! unat (swp_type K e)) e = Some q"
    using assms(1) by (simp_all add: cached_page_def split: if_splits)
  have "p\<lparr>p_count := p_count p, PageSwapCache := PageSwapCache p, page_private := page_private p\<rparr> = p" for p :: page_t by simp
  then have "(frames s pg)\<lparr>p_count := p_count (frames s pg), PageSwapCache := False, page_private := 0\<rparr> = frames s pg" using assms(3,5) by metis
  then have "page_cache_release pg (frame_upd pg (\<lambda>p. p\<lparr>PageSwapCache := False, page_private := 0\<rparr>)
      (frame_upd pg (\<lambda>p. p\<lparr>PageSwapCache := True, page_private := e\<rparr>) (page_cache_get pg s))) = s"
    by (simp add: page_cache_release_def page_cache_get_def frame_upd_def)
  then show ?thesis using assms(2-4) t
    by (simp add: u_add_to_swap_cache_def radix_tree_insert_def space_get_eq Let_def) (simp add: frame_upd_def page_cache_get_def errnos)
qed

text \<open>
  C34: the entry is given away while the page is still in the swap cache: after \<open>read_swap_cache_async\<close>
  of an entry of type 9 the page of the pool is free again, but the cache still maps the entry to the
  new page.  When the pool hands out the same page to the next page that is swapped out, that page gets
  the same entry, which \<open>__add_to_swap_cache\<close> refuses with \<open>-EEXIST\<close>, against its comment: \<open>add_to_swap\<close> fails,
  the page stays in memory outside the cache, and the page of the pool is lost: it is taken, but no entry of a table and
  no page in the cache stands for what was copied to it, and \<open>swapcache_free\<close> gives back nothing of type 9.
\<close>

theorem swap_in_frees_cached_entry:
  assumes "linux_swap_h (hdr H)" "roomy (ksv H)" "own_ok virt (nd m)" "0 \<le> p" "p < pool_total (nd m)" "pool_free (nd m) = {}"
    and "e = swp_entry (hdr H) 9 (word_of_int p)" "cache_ready (hdr H) e (sw m)" "fresh_frame H new (sw m)"
    and "alloc_page_vma H (sw m) = (Some new, s1)" "length (swap_info s1) = 29" "swap_info s1 ! 9 = None"
  shows "\<exists>u. read_swap_cache_async H e m = Some (Some new, u) \<and> cached_page (hdr H) e (sw u) = Some new \<and>
    pool_free (nd u) = {p} \<and>
    (\<forall>pg. pg \<noteq> new \<longrightarrow> out_ready H pg (m\<lparr>sw := s1\<rparr>) \<longrightarrow>
      (\<exists>v. add_to_swap H pg u = Some (0, v) \<and> pool_free (nd v) = {} \<and> cached_page (hdr H) e (sw v) = Some new \<and> frames (sw v) = frames (sw u)))"
proof -
  note E = entry_9 [OF assms(1,4) own_small [OF assms(3,5)], folded assms(7)]
  obtain u b st d where u: "read_swap_cache_async H e m = Some (Some new, u)" "own_ok virt (nd u)"
      "pool_free (nd u) = {p}" "cached_page (hdr H) e (sw u) = Some new" "nd u = (nd m)\<lparr>pool := b, stats := st, mem := d\<rparr>"
      "swap_info (sw u) = swap_info s1" "\<And>q. q \<noteq> new \<Longrightarrow> frames (sw u) q = frames s1 q"
    using swap_in_own_full [OF assms(1-5) _ assms(7-9)] assms(6,10) by auto
  have "\<exists>v. add_to_swap H pg u = Some (0, v) \<and> pool_free (nd v) = {} \<and> cached_page (hdr H) e (sw v) = Some new \<and> frames (sw v) = frames (sw u)"
    if pg: "pg \<noteq> new" "out_ready H pg (m\<lparr>sw := s1\<rparr>)" for pg
  proof -
    have o: "out_ready H pg u" using pg(2) u(5) u(7) [OF pg(1)] by (simp add: out_ready_def comex_filter_def Let_def split: option.splits)
    obtain b where b: "COMEX_move_to_COMEX (ext H) pg 0 0 (nd u) = Some (1, -11, p,
        (nd u)\<lparr>pool := b, mem := memcpy (here_addr (pool_page p (nd u)) (nd u)) (kmap (ext H) pg) X86PageSize (mem (nd u))\<rparr>)" "free_set b = {}"
      using own_store [OF u(2), of "ext H" pg 0 0] u(3) by auto
    obtain m1 where m1: "choose_entry H pg u = Some (e, m1)" "sw m1 = sw u" "pool (nd m1) = b"
      using out_chosen [OF o, of e] b(1) by (simp add: comex_out_def assms(7))
    obtain k where k: "radix_tree_preload (ksv H) (kern (sw u)) = (0, k)"
      using assms(2) by (cases "radix_tree_preload (ksv H) (kern (sw u))") (auto simp: roomy_def dest: spec [of _ "kern (sw u)"])
    have c: "cached_page (hdr H) e ((sw u)\<lparr>kern := k\<rparr>) = Some new" using u(4) by (simp add: cached_page_def split: if_splits)
    have add: "add_to_swap_cache (hdr H) (ksv H) pg e (sw u) = Some (- EEXIST, (sw u)\<lparr>kern := k\<rparr>)"
      using add_taken [OF c, of pg "ksv H"] o k by (simp add: add_to_swap_cache_def out_ready_def Let_def)
    have fr: "swapcache_free (hdr H) (ksv H) e None ((sw u)\<lparr>kern := k\<rparr>) = Some ((sw u)\<lparr>kern := k\<rparr>)"
      using E(1) assms(11,12) u(6) by (simp add: swapcache_free_def swap_info_get_def Let_def arr_get_def)
    let ?v = "(stat_upd (\<lambda>c. c\<lparr>SWAP_total := SWAP_total c + 1\<rparr>) m1)\<lparr>sw := (sw u)\<lparr>kern := k\<rparr>\<rparr>"
    have "add_to_swap H pg u = Some (0, ?v)"
      using o m1 add fr E(3) by (simp add: add_to_swap_def out_ready_def Let_def sw_get_def sw_do_def stat_upd_def errnos)
    then show ?thesis using b(2) m1(3) c by (intro exI [of _ ?v]) (simp add: pool_free_def)
  qed
  then show ?thesis using u(1,3,4) by blast
qed

theorem swap_in_frees_cached_entry_witness:
  "\<exists>m u v. pool_free (nd m) = {} \<and> read_swap_cache_async ideal_host (swp_entry std_h 9 900) m = Some (Some 9, u) \<and> pool_free (nd u) = {900} \<and>
     add_to_swap ideal_host 3 u = Some (0, v) \<and> pool_free (nd v) = {} \<and> cached_page std_h (swp_entry std_h 9 900) (sw v) = Some 9"
proof -
  have u: "buddy_inv (pool_used 1024)" "free_set (pool_used 1024) = {}" "npages (pool_used 1024) = 1024"
    using pool_used [of 1024] by simp_all
  let ?n = "(ideal_node (\<lambda>_ _. 0))\<lparr>pool := pool_used 1024\<rparr>"
  let ?m = "\<lparr>nd = ?n, sw = empty_swaps\<rparr>"
  have "ready id ?n" using ideal_ready [of "\<lambda>_ _. 0"] env_cong(1) [of ?n "ideal_node (\<lambda>_ _. 0)"] by simp
  moreover have "length (bufferpages (bigspace ?n)) = 2" by (simp add: ideal_node_def plain_node_def)
  ultimately have n: "own_ok id ?n" "pool_free ?n = {}" "pool_total ?n = 1024"
    using u by (simp_all add: own_ok_def pool_ok_def pool_total_def pool_free_def plain_conf_def)
  have o: "out_ready ideal_host 3 (?m\<lparr>sw := empty_swaps\<rparr>)" using ideal_out [of ideal_host] by simp
  have s: "length (swap_info empty_swaps) = 29" "swap_info empty_swaps ! 9 = None" by (simp_all add: empty_swaps_def small_swaps_def)
  have a: "alloc_page_vma ideal_host (sw ?m) = (Some 9, empty_swaps)" "swp_entry std_h 9 900 = swp_entry (hdr ideal_host) 9 (word_of_int 900)" by simp_all
  have h: "linux_swap_h (hdr ideal_host)" "cache_ready (hdr ideal_host) (swp_entry std_h 9 900) (sw ?m)" "fresh_frame ideal_host 9 (sw ?m)"
    "own_ok id (nd ?m)" "900 < pool_total (nd ?m)" "pool_free (nd ?m) = {}"
    using std_h_linux ideal_cache n by simp_all
  have z: "(0 :: int) \<le> 900" "roomy (ksv ideal_host)" by simp_all
  obtain u where u: "read_swap_cache_async ideal_host (swp_entry std_h 9 900) ?m = Some (Some 9, u)"
    "cached_page (hdr ideal_host) (swp_entry std_h 9 900) (sw u) = Some 9" "pool_free (nd u) = {900}"
    "\<forall>pg. pg \<noteq> 9 \<longrightarrow> out_ready ideal_host pg (?m\<lparr>sw := empty_swaps\<rparr>) \<longrightarrow> (\<exists>v. add_to_swap ideal_host pg u = Some (0, v) \<and> pool_free (nd v) = {} \<and>
      cached_page (hdr ideal_host) (swp_entry std_h 9 900) (sw v) = Some 9 \<and> frames (sw v) = frames (sw u))"
    using swap_in_frees_cached_entry [OF h(1) z(2) h(4) z(1) h(5,6) a(2) h(2,3) a(1) s] by (elim exE conjE) (rule that)
  obtain v where v: "add_to_swap ideal_host 3 u = Some (0, v)" "pool_free (nd v) = {}" "cached_page (hdr ideal_host) (swp_entry std_h 9 900) (sw v) = Some 9"
    using u(4) [rule_format, OF _ o] by force
  show ?thesis using u(1,3) v n(2) by (intro exI [of _ ?m] exI [of _ u] exI [of _ v]) simp
qed

text \<open>
  C40: a page that the swap cache has no memory for loses its place in COMEX: \<open>add_to_swap\<close> returns 0 and
  the page stays in memory, but the page of the pool it was copied to is not given back
  (\<open>swapcache_free\<close> does nothing for an entry of type 9), although no entry refers to it.
\<close>

theorem failed_add_leaks_page:
  assumes "linux_swap_h (hdr H)" "own_ok virt (nd m)" "pool_free (nd m) \<noteq> {}" "out_ready H pg m"
    and "\<forall>k. fst (radix_tree_preload (ksv H) k) \<noteq> 0" "length (swap_info (sw m)) = 29" "swap_info (sw m) ! 9 = None"
  shows "\<exists>p m1. add_to_swap H pg m = Some (0, m1) \<and> p \<in> pool_free (nd m) \<and> pool_free (nd m1) = pool_free (nd m) - {p} \<and>
    frames (sw m1) = frames (sw m) \<and> swapper_spaces (sw m1) = swapper_spaces (sw m)"
proof -
  obtain p b where p: "COMEX_move_to_COMEX (ext H) pg 0 0 (nd m) = Some (1, -11, p,
      (nd m)\<lparr>pool := b, mem := memcpy (here_addr (pool_page p (nd m)) (nd m)) (kmap (ext H) pg) X86PageSize (mem (nd m))\<rparr>)"
    "p \<in> pool_free (nd m)" "0 \<le> p" "p < pool_total (nd m)" "free_set b = pool_free (nd m) - {p}"
    using own_store [OF assms(2,3), of "ext H" pg 0 0] by blast
  let ?e = "swp_entry (hdr H) 9 (word_of_int p)"
  note E = entry_9 [OF assms(1) p(3) own_small [OF assms(2) p(4)]]
  obtain m1 where m1: "choose_entry H pg m = Some (?e, m1)" "sw m1 = sw m" "pool (nd m1) = b"
    using out_chosen [OF assms(4), of ?e] p(1) by (simp add: comex_out_def)
  obtain err k where k: "radix_tree_preload (ksv H) (kern (sw m)) = (err, k)" "err \<noteq> 0"
    using assms(5) by (cases "radix_tree_preload (ksv H) (kern (sw m))") (auto dest: spec [of _ "kern (sw m)"])
  have "swapcache_free (hdr H) (ksv H) ?e None ((sw m)\<lparr>kern := k\<rparr>) = Some ((sw m)\<lparr>kern := k\<rparr>)"
    using E(1) assms(6,7) by (simp add: swapcache_free_def swap_info_get_def Let_def arr_get_def)
  then have "add_to_swap H pg m = Some (0, (stat_upd (\<lambda>c. c\<lparr>SWAP_total := SWAP_total c + 1\<rparr>) m1)\<lparr>sw := (sw m)\<lparr>kern := k\<rparr>\<rparr>)"
    using assms(4) m1(1,2) k E(3)
    by (simp add: add_to_swap_def out_ready_def Let_def sw_get_def sw_do_def add_to_swap_cache_def stat_upd_def)
  then show ?thesis using p(2,5) m1(3) by (auto simp: pool_free_def)
qed

theorem failed_add_leaks_page_witness:
  "\<exists>m m1. pool_free (nd m) = {900} \<and>
     add_to_swap (ideal_host\<lparr>ksv := plain_kserv\<lparr>radix_tree_preload := (\<lambda>k. (- ENOMEM, k))\<rparr>\<rparr>) 3 m = Some (0, m1) \<and> pool_free (nd m1) = {}"
proof -
  obtain b where b: "own_ok id ((ideal_node (\<lambda>_ _. 0))\<lparr>pool := b\<rparr>)"
    "pool_free ((ideal_node (\<lambda>_ _. 0))\<lparr>pool := b\<rparr>) = {900}" using ideal_own_exists .
  let ?m = "\<lparr>nd = (ideal_node (\<lambda>_ _. 0))\<lparr>pool := b\<rparr>, sw = empty_swaps\<rparr>"
  let ?H = "ideal_host\<lparr>ksv := plain_kserv\<lparr>radix_tree_preload := (\<lambda>k. (- ENOMEM, k))\<rparr>\<rparr>"
  have h: "linux_swap_h (hdr ?H)" "own_ok id (nd ?m)" "pool_free (nd ?m) \<noteq> {}"
    "\<forall>k. fst (radix_tree_preload (ksv ?H) k) \<noteq> 0" "length (swap_info (sw ?m)) = 29" "swap_info (sw ?m) ! 9 = None"
    using b std_h_linux by (auto simp: errnos empty_swaps_def small_swaps_def)
  have "out_ready ?H 3 ?m" by (rule ideal_out) simp_all
  from failed_add_leaks_page [OF h(1-3) this h(4-6)] obtain m1 where "add_to_swap ?H 3 ?m = Some (0, m1)" "pool_free (nd m1) = {}"
    using b(2) by auto
  moreover have "pool_free (nd ?m) = {900}" using b(2) by simp
  ultimately show ?thesis by blast
qed



end
