(* ===== verification/Comex_Reclaim.thy ===== *)
theory Comex_Reclaim
  imports Comex_Swap
begin

unbundle bit_operations_syntax

text \<open>
  Where COMEX hooks into the reclaim of pages: \<open>pageout\<close> and \<open>remove_mapping\<close> (\<open>vmscan.c\<close>, 320-536),
  \<open>set_page_dirty\<close> and \<open>clear_page_dirty_for_io\<close> (\<open>page-writeback.c\<close>, 2099-2226).  A page of COMEX has
  been copied when its entry was made, so \<open>pageout\<close> only takes its dirty flag away.
\<close>

section \<open>Pages and mappings\<close>

text \<open>The rest of what these functions read and write of a page; mappings are numbered.\<close>

record page_x =
  PageReclaim :: bool
  PageReferenced :: bool
  PageActive :: bool
  PageAnon :: bool
  page_has_private :: bool

record ('r, 'k) vm =
  mc :: "('r, 'k) machine"
  px :: "int \<Rightarrow> page_x"

text \<open>
  What they use of the file systems, of the block layer and of the reverse map: the mapping of a page
  (that of the swap cache for a page in it), the operations of a mapping (null pointers are
  \<^term>\<open>None\<close>), and the state of its backing device.
\<close>

record ('r, 'k) aops =
  page_mapping :: "int \<Rightarrow> ('r, 'k) vm \<Rightarrow> int option"
  writepage :: "int \<Rightarrow> (int \<Rightarrow> ('r, 'k) vm \<Rightarrow> int \<times> ('r, 'k) vm) option"
  spd_op :: "int \<Rightarrow> (int \<Rightarrow> ('r, 'k) vm \<Rightarrow> int \<times> ('r, 'k) vm) option"
  u_set_page_dirty_buffers :: "int \<Rightarrow> ('r, 'k) vm \<Rightarrow> int \<times> ('r, 'k) vm"
  freepage :: "int \<Rightarrow> (int \<Rightarrow> ('r, 'k) vm \<Rightarrow> ('r, 'k) vm) option"
  mapping_cap_account_dirty :: "int \<Rightarrow> bool"
  pf_swapwrite :: bool
  bdi_write_congested :: "int \<Rightarrow> bool"
  own_bdi :: "int \<Rightarrow> bool"
  try_to_free_buffers :: "int \<Rightarrow> ('r, 'k) vm \<Rightarrow> bool \<times> ('r, 'k) vm"
  page_mkclean :: "int \<Rightarrow> ('r, 'k) vm \<Rightarrow> bool \<times> ('r, 'k) vm"
  mapping_set_error :: "int \<Rightarrow> int \<Rightarrow> ('r, 'k) vm \<Rightarrow> ('r, 'k) vm"
  u_delete_from_page_cache :: "int \<Rightarrow> ('r, 'k) vm \<Rightarrow> ('r, 'k) vm"
  mem_cgroup_uncharge_cache_page :: "int \<Rightarrow> ('r, 'k) vm \<Rightarrow> ('r, 'k) vm"

definition v_frame :: "int \<Rightarrow> (page_t \<Rightarrow> page_t) \<Rightarrow> ('r, 'k) vm \<Rightarrow> ('r, 'k) vm" where
  "v_frame pg f v = v\<lparr>mc := (mc v)\<lparr>sw := frame_upd pg f (sw (mc v))\<rparr>\<rparr>"

definition v_page :: "int \<Rightarrow> ('r, 'k) vm \<Rightarrow> page_t" where
  "v_page pg v = frames (sw (mc v)) pg"

definition ClearPageReclaim :: "int \<Rightarrow> ('r, 'k) vm \<Rightarrow> ('r, 'k) vm" where
  "ClearPageReclaim pg v = v\<lparr>px := (px v)(pg := (px v pg)\<lparr>PageReclaim := False\<rparr>)\<rparr>"

definition SetPageReclaim :: "int \<Rightarrow> ('r, 'k) vm \<Rightarrow> ('r, 'k) vm" where
  "SetPageReclaim pg v = v\<lparr>px := (px v)(pg := (px v pg)\<lparr>PageReclaim := True\<rparr>)\<rparr>"

section \<open>Dirty pages\<close>

definition comex_entry :: "swap_h \<Rightarrow> entry \<Rightarrow> bool" where
  "comex_entry K e \<longleftrightarrow> swp_type K e = 8 \<or> swp_type K e = 9"

definition set_page_dirty :: "swap_h \<Rightarrow> ('r, 'k) aops \<Rightarrow> int \<Rightarrow> ('r, 'k) vm \<Rightarrow> int \<times> ('r, 'k) vm" where
  "set_page_dirty K A page v =
     (case page_mapping A page v of
        Some mapping \<Rightarrow>
          (let v = ClearPageReclaim page v; entry = page_private (v_page page v) in
           if comex_entry K entry then (0, v_frame page (\<lambda>p. p\<lparr>PageDirty := True\<rparr>) v)
           else (case spd_op A mapping of None \<Rightarrow> u_set_page_dirty_buffers A page v | Some spd \<Rightarrow> spd page v))
      | None \<Rightarrow>
          if \<not> PageDirty (v_page page v) then (1, v_frame page (\<lambda>p. p\<lparr>PageDirty := True\<rparr>) v) else (0, v))"

text \<open>The counters of dirty pages are left out.\<close>

definition TestClearPageDirty :: "int \<Rightarrow> ('r, 'k) vm \<Rightarrow> bool \<times> ('r, 'k) vm" where
  "TestClearPageDirty page v = (PageDirty (v_page page v), v_frame page (\<lambda>p. p\<lparr>PageDirty := False\<rparr>) v)"

definition clear_page_dirty_for_io :: "swap_h \<Rightarrow> ('r, 'k) aops \<Rightarrow> int \<Rightarrow> ('r, 'k) vm \<Rightarrow> (bool \<times> ('r, 'k) vm) option" where
  "clear_page_dirty_for_io K A page v =
     (if \<not> PageLocked (v_page page v) then None
      else case page_mapping A page v of
        Some mapping \<Rightarrow>
          if mapping_cap_account_dirty A mapping then
            (let (mk, v) = page_mkclean A page v;
                 v = (if mk then snd (set_page_dirty K A page v) else v)
             in Some (TestClearPageDirty page v))
          else Some (TestClearPageDirty page v)
      | None \<Rightarrow> Some (TestClearPageDirty page v))"

section \<open>Writing a page out\<close>

datatype pageout_t = PAGE_KEEP | PAGE_ACTIVATE | PAGE_SUCCESS | PAGE_CLEAN

definition AOP_WRITEPAGE_ACTIVATE :: int where "AOP_WRITEPAGE_ACTIVATE = 0x80000"

definition is_page_cache_freeable :: "int \<Rightarrow> ('r, 'k) vm \<Rightarrow> bool" where
  "is_page_cache_freeable page v \<longleftrightarrow>
     p_count (v_page page v) - (if page_has_private (px v page) then 1 else 0) = 2"

definition may_write_to_queue :: "('r, 'k) aops \<Rightarrow> int \<Rightarrow> bool" where
  "may_write_to_queue A mapping \<longleftrightarrow> pf_swapwrite A \<or> \<not> bdi_write_congested A mapping \<or> own_bdi A mapping"

text \<open>\<open>lock_page\<close> of a page that stays locked would wait for ever.\<close>

definition handle_write_error :: "('r, 'k) aops \<Rightarrow> int \<Rightarrow> int \<Rightarrow> int \<Rightarrow> ('r, 'k) vm \<Rightarrow> ('r, 'k) vm option" where
  "handle_write_error A mapping page err v =
     (if PageLocked (v_page page v) then None
      else let v = v_frame page (\<lambda>p. p\<lparr>PageLocked := True\<rparr>) v;
               v = (if page_mapping A page v = Some mapping then mapping_set_error A mapping err v else v)
           in Some (v_frame page (\<lambda>p. p\<lparr>PageLocked := False\<rparr>) v))"

text \<open>From the label \<open>COMEX_pageout\<close> on; the vm counters and the trace are left out.\<close>

definition COMEX_pageout :: "int \<Rightarrow> ('r, 'k) vm \<Rightarrow> pageout_t \<times> ('r, 'k) vm" where
  "COMEX_pageout page v =
     (PAGE_SUCCESS, if \<not> PageWriteback (v_page page v) then ClearPageReclaim page v else v)"

definition pageout :: "swap_h \<Rightarrow> ('r, 'k) aops \<Rightarrow> int \<Rightarrow> int option \<Rightarrow> ('r, 'k) vm \<Rightarrow> (pageout_t \<times> ('r, 'k) vm) option" where
  "pageout K A page mapping v =
     (if \<not> is_page_cache_freeable page v then Some (PAGE_KEEP, v)
      else case mapping of
        None \<Rightarrow>
          if page_has_private (px v page) then
            (let (freed, v) = try_to_free_buffers A page v in
             if freed then Some (PAGE_CLEAN, v_frame page (\<lambda>p. p\<lparr>PageDirty := False\<rparr>) v) else Some (PAGE_KEEP, v))
          else Some (PAGE_KEEP, v)
      | Some mp \<Rightarrow>
          if comex_entry K (page_private (v_page page v)) then
            Some (COMEX_pageout page (v_frame page (\<lambda>p. p\<lparr>PageLocked := False\<rparr>)
              (ClearPageReclaim page (v_frame page (\<lambda>p. p\<lparr>PageWriteback := False, PageDirty := False\<rparr>) v))))
          else (case writepage A mp of
            None \<Rightarrow> Some (PAGE_ACTIVATE, v)
          | Some wp \<Rightarrow>
              if \<not> may_write_to_queue A mp then Some (PAGE_KEEP, v)
              else do {
                (dirty, v) \<leftarrow> clear_page_dirty_for_io K A page v;
                if dirty then do {
                  let (res, v) = wp page (SetPageReclaim page v);
                  v \<leftarrow> (if res < 0 then handle_write_error A mp page res v else Some v);
                  if res = AOP_WRITEPAGE_ACTIVATE then Some (PAGE_ACTIVATE, ClearPageReclaim page v)
                  else Some (COMEX_pageout page v)
                }
                else Some (PAGE_CLEAN, v)
              }))"

section \<open>Taking a page off its mapping\<close>

definition page_freeze_refs :: "int \<Rightarrow> int \<Rightarrow> ('r, 'k) vm \<Rightarrow> bool \<times> ('r, 'k) vm" where
  "page_freeze_refs page n v =
     (if p_count (v_page page v) = n then (True, v_frame page (\<lambda>p. p\<lparr>p_count := 0\<rparr>) v) else (False, v))"

definition page_unfreeze_refs :: "int \<Rightarrow> int \<Rightarrow> ('r, 'k) vm \<Rightarrow> ('r, 'k) vm" where
  "page_unfreeze_refs page n = v_frame page (\<lambda>p. p\<lparr>p_count := n\<rparr>)"

definition u_remove_mapping :: "swap_h \<Rightarrow> 'k kserv \<Rightarrow> ('r, 'k) aops \<Rightarrow> int \<Rightarrow> int \<Rightarrow> ('r, 'k) vm \<Rightarrow> (bool \<times> ('r, 'k) vm) option" where
  "u_remove_mapping K X A mapping page v =
     (if \<not> PageLocked (v_page page v) \<or> page_mapping A page v \<noteq> Some mapping then None
      else let (frozen, v) = page_freeze_refs page 2 v in
        if \<not> frozen then Some (False, v)
        else if PageDirty (v_page page v) then Some (False, page_unfreeze_refs page 2 v)
        else if PageSwapCache (v_page page v) then do {
          let swap = page_private (v_page page v);
          s \<leftarrow> u_delete_from_swap_cache K page (sw (mc v));
          s \<leftarrow> swapcache_free K X swap (Some page) s;
          Some (True, v\<lparr>mc := (mc v)\<lparr>sw := s\<rparr>\<rparr>)
        }
        else do {
          let v = mem_cgroup_uncharge_cache_page A page (u_delete_from_page_cache A page v);
          Some (True, case freepage A mapping of None \<Rightarrow> v | Some f \<Rightarrow> f page v)
        })"

definition remove_mapping :: "swap_h \<Rightarrow> 'k kserv \<Rightarrow> ('r, 'k) aops \<Rightarrow> int \<Rightarrow> int \<Rightarrow> ('r, 'k) vm \<Rightarrow> (int \<times> ('r, 'k) vm) option" where
  "remove_mapping K X A mapping page v = do {
     (gone, v) \<leftarrow> u_remove_mapping K X A mapping page v;
     if gone then Some (1, page_unfreeze_refs page 1 v) else Some (0, v)
   }"

section \<open>The reclaim of a COMEX page\<close>

lemma v_frame_simps [simp]:
  "v_page pg (v_frame q f v) = (if pg = q then f (v_page pg v) else v_page pg v)" "px (v_frame q f v) = px v"
  "px (ClearPageReclaim q v) = (px v)(q := (px v q)\<lparr>PageReclaim := False\<rparr>)" "mc (ClearPageReclaim q v) = mc v" "nd (mc (v_frame q f v)) = nd (mc v)"
  "v_page pg (ClearPageReclaim q v) = v_page pg v" "sw (mc (ClearPageReclaim q v)) = sw (mc v)"
  "swapper_spaces (sw (mc (v_frame q f v))) = swapper_spaces (sw (mc v))" "swap_info (sw (mc (v_frame q f v))) = swap_info (sw (mc v))"
  by (simp_all add: v_frame_def v_page_def frame_upd_def ClearPageReclaim_def)

text \<open>
  A page of the swap cache under a COMEX entry that the reclaim holds: no page table maps it, its two
  references are those of the cache and of the reclaim.
\<close>

definition no_areas :: "'k swaps \<Rightarrow> bool" where
  "no_areas s \<longleftrightarrow> length (swap_info s) = 29 \<and> swap_info s ! 8 = None \<and> swap_info s ! 9 = None"

definition reclaimable :: "swap_h \<Rightarrow> ('r, 'k) aops \<Rightarrow> int \<Rightarrow> entry \<Rightarrow> int \<Rightarrow> ('r, 'k) vm \<Rightarrow> bool" where
  "reclaimable K A mp e pg v \<longleftrightarrow> PageSwapCache (v_page pg v) \<and> page_private (v_page pg v) = e \<and> comex_entry K e \<and>
     p_count (v_page pg v) = 2 \<and> \<not> page_has_private (px v pg) \<and> \<not> PageWriteback (v_page pg v) \<and>
     cache_inv K (sw (mc v)) \<and> length (swapper_spaces (sw (mc v))) = 29 \<and> no_areas (sw (mc v)) \<and>
     (\<forall>w. PageSwapCache (v_page pg w) \<longrightarrow> page_mapping A pg w = Some mp)"

lemma comex_free_nothing:
  assumes "comex_entry K e" and "no_areas s"
  shows "swapcache_free K X e pg s = Some s"
  using assms by (auto simp: swapcache_free_def swap_info_get_def Let_def arr_get_def comex_entry_def no_areas_def)

lemma pageout_comex:
  assumes "reclaimable K A mp e pg v"
  shows "\<exists>w. pageout K A pg (Some mp) v = Some (PAGE_SUCCESS, w) \<and> reclaimable K A mp e pg w \<and> nd (mc w) = nd (mc v) \<and>
    \<not> PageDirty (v_page pg w) \<and> \<not> PageLocked (v_page pg w)"
proof -
  define w where "w = snd (COMEX_pageout pg (v_frame pg (\<lambda>p. p\<lparr>PageLocked := False\<rparr>)
      (ClearPageReclaim pg (v_frame pg (\<lambda>p. p\<lparr>PageWriteback := False, PageDirty := False\<rparr>) v))))"
  have p: "pageout K A pg (Some mp) v = Some (PAGE_SUCCESS, w)"
    using assms by (simp add: pageout_def reclaimable_def is_page_cache_freeable_def w_def COMEX_pageout_def)
  have s: "swapper_spaces (sw (mc w)) = swapper_spaces (sw (mc v))" "swap_info (sw (mc w)) = swap_info (sw (mc v))" "nd (mc w) = nd (mc v)"
    by (simp_all add: w_def COMEX_pageout_def)
  have q: "v_page pg w = (v_page pg v)\<lparr>PageWriteback := False, PageDirty := False, PageLocked := False\<rparr>" "\<not> page_has_private (px w pg)"
    using assms by (simp_all add: w_def COMEX_pageout_def reclaimable_def)
  have fr: "frames (sw (mc w)) = (frames (sw (mc v)))(pg := v_page pg w)"
    by (rule ext) (simp add: w_def COMEX_pageout_def v_frame_def frame_upd_def v_page_def)
  then have fr: "frames (sw (mc w)) = (frames (sw (mc v)))(pg := (v_page pg v)\<lparr>PageWriteback := False, PageDirty := False, PageLocked := False\<rparr>)"
    by (simp only: q(1))
  have "cache_inv K (sw (mc w)) = cache_inv K (sw (mc v))"
    by (rule cache_inv_same [OF s(1)]) (simp_all add: fr, simp_all add: v_page_def)
  then have "cache_inv K (sw (mc w))" using assms by (simp add: reclaimable_def)
  then have "reclaimable K A mp e pg w" using assms s q by (simp add: reclaimable_def no_areas_def)
  then show ?thesis using p s(3) q(1) by auto
qed

lemma delete_spaces: "u_delete_from_swap_cache K pg s = Some t \<Longrightarrow> length (swapper_spaces t) = length (swapper_spaces s)"
  by (auto simp: u_delete_from_swap_cache_def space_upd_eq Let_def info_upd_def frame_upd_def split: if_splits)

lemma remove_comex:
  assumes "reclaimable K A mp e pg v" and "PageLocked (v_page pg v)" and "\<not> PageDirty (v_page pg v)"
  shows "\<exists>w. u_remove_mapping K X A mp pg v = Some (True, w) \<and> nd (mc w) = nd (mc v) \<and> cache_inv K (sw (mc w)) \<and>
    length (swapper_spaces (sw (mc w))) = 29 \<and> cached_page K e (sw (mc w)) = None"
proof -
  define v1 where "v1 = v_frame pg (\<lambda>p. p\<lparr>p_count := 0\<rparr>) v"
  have fz: "page_freeze_refs pg 2 v = (True, v1)" using assms(1) by (simp add: page_freeze_refs_def reclaimable_def v1_def)
  have v1: "v_page pg v1 = (v_page pg v)\<lparr>p_count := 0\<rparr>" "nd (mc v1) = nd (mc v)" "swapper_spaces (sw (mc v1)) = swapper_spaces (sw (mc v))"
    "swap_info (sw (mc v1)) = swap_info (sw (mc v))" by (simp_all add: v1_def)
  have "cache_inv K (sw (mc v1)) = cache_inv K (sw (mc v))"
    by (rule cache_inv_same [OF v1(3)]) (simp_all add: v1_def v_frame_def frame_upd_def)
  then have inv: "cache_inv K (sw (mc v1))" using assms(1) by (simp add: reclaimable_def)
  have pg: "PageLocked (frames (sw (mc v1)) pg)" "PageSwapCache (frames (sw (mc v1)) pg)" "\<not> PageWriteback (frames (sw (mc v1)) pg)"
      "e = page_private (frames (sw (mc v1)) pg)"
    using assms v1(1) by (simp_all add: v_page_def reclaimable_def)
  obtain s where s: "u_delete_from_swap_cache K pg (sw (mc v1)) = Some s" "cache_inv K s" "cached_page K e s = None"
      "swap_info s = swap_info (sw (mc v1))"
    using remove_from_cache [OF inv pg] by blast
  note ln = delete_spaces [OF s(1)]
  have "swapcache_free K X e (Some pg) s = Some s"
    by (rule comex_free_nothing) (use assms(1) s(4) v1(4) in \<open>simp_all add: reclaimable_def no_areas_def\<close>)
  then have "u_remove_mapping K X A mp pg v = Some (True, v1\<lparr>mc := (mc v1)\<lparr>sw := s\<rparr>\<rparr>)"
    using assms v1(1) fz s(1) by (simp add: u_remove_mapping_def reclaimable_def)
  then show ?thesis using s v1 ln assms(1) by (simp add: reclaimable_def)
qed

end
