(* ===== verification/Comex_Tables.thy ===== *)
theory Comex_Tables
  imports Comex_Reclaim
begin

unbundle bit_operations_syntax

text \<open>
  Page tables and COMEX entries (\<open>memory.c\<close>): the batches of pages whose mappings have been removed, the
  copy of a table at a fork, and the removal of a range at an exit, where COMEX hooks in to give the page
  behind an entry of type 8 or 9 back.

  The last level of a page table is a map from page numbers (an address without its low 12 bits) to
  entries; of the upper levels this theory needs only whether there is a table behind an entry
  (\<open>Comex_Walk\<close> walks down them).  The locks on the tables and the flushes of the hardware are left out.
\<close>

section \<open>Tables and counters\<close>

record pte_t =
  pte_pfn :: int
  pte_special :: bool
  pte_write :: bool
  pte_dirty :: bool
  pte_young :: bool

datatype pte = Pte_none | Pte_present pte_t | Pte_file | Pte_swap entry

text \<open>
  An entry of an upper level: nothing, something that makes no sense, a table of the next level, or (for the
  level above the last one) a huge page.  The entries of a level are numbered through the whole address
  space; those below an entry that is not a table mean nothing.
\<close>

datatype px = Px_none | Px_bad | Px_table | Px_huge

record mm_struct =
  pgds :: "int \<Rightarrow> px"
  puds :: "int \<Rightarrow> px"
  pmds :: "int \<Rightarrow> px"
  nr_ptes :: int
  ptes :: "int \<Rightarrow> pte"
  mm_anonpages :: int
  mm_filepages :: int
  mm_swapents :: int
  on_mmlist :: bool

record rss_vec =
  r_anonpages :: int
  r_filepages :: int
  r_swapents :: int

definition set_pte_at :: "int \<Rightarrow> pte \<Rightarrow> mm_struct \<Rightarrow> mm_struct" where
  "set_pte_at addr p mm = mm\<lparr>ptes := (ptes mm)(addr := p)\<rparr>"

definition init_rss_vec :: rss_vec where
  "init_rss_vec = \<lparr>r_anonpages = 0, r_filepages = 0, r_swapents = 0\<rparr>"

definition add_mm_rss_vec :: "rss_vec \<Rightarrow> mm_struct \<Rightarrow> mm_struct" where
  "add_mm_rss_vec rss mm = mm\<lparr>mm_anonpages := mm_anonpages mm + r_anonpages rss,
     mm_filepages := mm_filepages mm + r_filepages rss, mm_swapents := mm_swapents mm + r_swapents rss\<rparr>"

definition add_anon :: "int \<Rightarrow> rss_vec \<Rightarrow> rss_vec" where
  "add_anon n rss = rss\<lparr>r_anonpages := r_anonpages rss + n\<rparr>"

definition add_file :: "int \<Rightarrow> rss_vec \<Rightarrow> rss_vec" where
  "add_file n rss = rss\<lparr>r_filepages := r_filepages rss + n\<rparr>"

definition add_swapents :: "int \<Rightarrow> rss_vec \<Rightarrow> rss_vec" where
  "add_swapents n rss = rss\<lparr>r_swapents := r_swapents rss + n\<rparr>"

text \<open>The flags of an area, one by one.\<close>

record vma_flags =
  VM_SHARED :: bool
  VM_WRITE :: bool
  VM_MAYWRITE :: bool
  VM_PFNMAP :: bool
  VM_MIXEDMAP :: bool
  VM_SequentialReadHint :: bool

text \<open>An area of a task, in bytes; the flags that matter only to whole areas are here.\<close>

record vma_struct =
  vm_start :: u64
  vm_end :: u64
  area_flags :: vma_flags
  vm_file :: bool
  anon_vma :: bool
  VM_HUGETLB :: bool
  VM_NONLINEAR :: bool

definition is_cow_mapping :: "vma_flags \<Rightarrow> bool" where
  "is_cow_mapping vf \<longleftrightarrow> \<not> VM_SHARED vf \<and> VM_MAYWRITE vf"

record zap_details =
  check_mapping :: "int option"
  nonlinear_vma :: bool
  first_index :: int
  last_index :: int

text \<open>The pages whose mappings are gone but whose references are still held: batches of limited size.\<close>

record mmu_gather =
  need_flush :: bool
  batches :: "(int list \<times> nat) list"
  active :: nat

text \<open>
  What these functions use of the rest of the kernel: the geometry of the tables (the number of address bits
  below an entry of each level), the reverse map, the entries of pages under migration, the allocation of a batch and of a table, and the wish of another task for the processor.
\<close>

record ('r, 'k) tables =
  PMD_SHIFT :: nat
  PUD_SHIFT :: nat
  PGDIR_SHIFT :: nat
  host_of :: "('r, 'k) host"
  aops_of :: "('r, 'k) aops"
  highest_memmap_pfn :: int
  is_migration_entry :: "entry \<Rightarrow> bool"
  is_write_migration_entry :: "entry \<Rightarrow> bool"
  migration_entry_to_page :: "entry \<Rightarrow> int"
  make_migration_entry_read :: "entry \<Rightarrow> entry"
  raw_mapping :: "int \<Rightarrow> int option"
  page_index :: "int \<Rightarrow> int"
  linear_page_index :: "int \<Rightarrow> int"
  page_dup_rmap :: "int \<Rightarrow> ('r, 'k) vm \<Rightarrow> ('r, 'k) vm"
  page_remove_rmap :: "int \<Rightarrow> ('r, 'k) vm \<Rightarrow> ('r, 'k) vm"
  mark_page_accessed :: "int \<Rightarrow> ('r, 'k) vm \<Rightarrow> ('r, 'k) vm"
  get_batch :: "('r, 'k) vm \<Rightarrow> bool \<times> ('r, 'k) vm"
  MAX_GATHER_BATCH :: nat
  LOCAL_GATHER :: nat
  MAX_GATHER_BATCH_COUNT :: nat
  PAGEVEC_SIZE :: nat
  pte_alloc_one :: "('r, 'k) vm \<Rightarrow> bool \<times> ('r, 'k) vm"
  need_resched :: "('r, 'k) vm \<Rightarrow> bool"

text \<open>The number of pages below an entry.\<close>

definition PAGE_SHIFT :: nat where "PAGE_SHIFT = 12"

definition pmd_pages :: "('r, 'k) tables \<Rightarrow> int" where "pmd_pages T = 2 ^ (PMD_SHIFT T - PAGE_SHIFT)"
definition pud_pages :: "('r, 'k) tables \<Rightarrow> int" where "pud_pages T = 2 ^ (PUD_SHIFT T - PAGE_SHIFT)"
definition pgdir_pages :: "('r, 'k) tables \<Rightarrow> int" where "pgdir_pages T = 2 ^ (PGDIR_SHIFT T - PAGE_SHIFT)"

text \<open>An operation of the swap layer, and one of the node, on the whole.\<close>

definition on_sw :: "('k swaps \<Rightarrow> ('a \<times> 'k swaps) option) \<Rightarrow> ('r, 'k) vm \<Rightarrow> ('a \<times> ('r, 'k) vm) option" where
  "on_sw f v = do { (r, m) \<leftarrow> sw_get f (mc v); Some (r, v\<lparr>mc := m\<rparr>) }"

definition on_nd :: "('r node \<Rightarrow> 'r node option) \<Rightarrow> ('r, 'k) vm \<Rightarrow> ('r, 'k) vm option" where
  "on_nd f v = do { m \<leftarrow> nd_do f (mc v); Some (v\<lparr>mc := m\<rparr>) }"

text \<open>The page behind a present entry (the architecture has special entries).\<close>

definition vm_normal_page :: "('r, 'k) tables \<Rightarrow> vma_flags \<Rightarrow> pte_t \<Rightarrow> int option" where
  "vm_normal_page T vf p =
     (if pte_special p then None
      else if highest_memmap_pfn T < pte_pfn p then None
      else Some (pte_pfn p))"

section \<open>Gathering pages\<close>

definition tlb_gather_mmu :: "('r, 'k) tables \<Rightarrow> mmu_gather" where
  "tlb_gather_mmu T = \<lparr>need_flush = False, batches = [([], LOCAL_GATHER T)], active = 0\<rparr>"

definition tlb_next_batch :: "('r, 'k) tables \<Rightarrow> mmu_gather \<Rightarrow> ('r, 'k) vm \<Rightarrow> int \<times> mmu_gather \<times> ('r, 'k) vm" where
  "tlb_next_batch T tlb v =
     (if active tlb + 1 < length (batches tlb) then (1, tlb\<lparr>active := active tlb + 1\<rparr>, v)
      else if length (batches tlb) - 1 = MAX_GATHER_BATCH_COUNT T then (0, tlb, v)
      else (case get_batch T v of
          (False, v) \<Rightarrow> (0, tlb, v)
        | (True, v) \<Rightarrow> (1, tlb\<lparr>batches := batches tlb @ [([], MAX_GATHER_BATCH T)], active := active tlb + 1\<rparr>, v)))"

fun free_batches :: "('r, 'k) tables \<Rightarrow> (int list \<times> nat) list \<Rightarrow> ('r, 'k) vm \<Rightarrow> ('r, 'k) vm option" where
  "free_batches T [] v = Some v"
| "free_batches T ((pgs, m) # bs) v = do {
     s \<leftarrow> free_pages_and_swap_cache (hdr (host_of T)) (ksv (host_of T)) (PAGEVEC_SIZE T) pgs (sw (mc v));
     free_batches T bs (v\<lparr>mc := (mc v)\<lparr>sw := s\<rparr>\<rparr>)
   }"

definition tlb_flush_mmu :: "('r, 'k) tables \<Rightarrow> mmu_gather \<Rightarrow> ('r, 'k) vm \<Rightarrow> (mmu_gather \<times> ('r, 'k) vm) option" where
  "tlb_flush_mmu T tlb v =
     (if \<not> need_flush tlb then Some (tlb, v)
      else do {
        v \<leftarrow> free_batches T (batches tlb) v;
        Some (tlb\<lparr>need_flush := False, batches := map (\<lambda>(pgs, m). ([], m)) (batches tlb), active := 0\<rparr>, v)
      })"

definition tlb_finish_mmu :: "('r, 'k) tables \<Rightarrow> mmu_gather \<Rightarrow> ('r, 'k) vm \<Rightarrow> (mmu_gather \<times> ('r, 'k) vm) option" where
  "tlb_finish_mmu T tlb v = do {
     (tlb, v) \<leftarrow> tlb_flush_mmu T tlb v;
     Some (tlb\<lparr>batches := take 1 (batches tlb)\<rparr>, v)
   }"

text \<open>The number of free places left in the batch, 0 when no further batch can be had.\<close>

definition tlb_remove_page :: "('r, 'k) tables \<Rightarrow> int \<Rightarrow> mmu_gather \<Rightarrow> ('r, 'k) vm \<Rightarrow> (int \<times> mmu_gather \<times> ('r, 'k) vm) option" where
  "tlb_remove_page T page tlb v =
     (if \<not> need_flush tlb then None
      else do {
        (pgs, m) \<leftarrow> arr_get (batches tlb) (int (active tlb));
        let pgs = pgs @ [page];
        bs \<leftarrow> arr_set (batches tlb) (int (active tlb)) (pgs, m);
        let tlb = tlb\<lparr>batches := bs\<rparr>;
        if length pgs = m then
          (case tlb_next_batch T tlb v of
             (r, tlb, v) \<Rightarrow>
               if r = 0 then Some (0, tlb, v)
               else do {
                 (pgs, m) \<leftarrow> arr_get (batches tlb) (int (active tlb));
                 if m < length pgs then None else Some (int m - int (length pgs), tlb, v)
               })
        else if m < length pgs then None
        else Some (int m - int (length pgs), tlb, v)
      })"

section \<open>Exit: removing a range\<close>

record ('r, 'k) zap =
  z_mm :: mm_struct
  z_rss :: rss_vec
  z_tlb :: mmu_gather
  z_vm :: "('r, 'k) vm"

definition z_set :: "int \<Rightarrow> pte \<Rightarrow> ('r, 'k) zap \<Rightarrow> ('r, 'k) zap" where
  "z_set addr p z = z\<lparr>z_mm := set_pte_at addr p (z_mm z)\<rparr>"

text \<open>The pages that the details of an unmapping leave where they are.\<close>

definition zap_skips :: "('r, 'k) tables \<Rightarrow> zap_details \<Rightarrow> int \<Rightarrow> bool" where
  "zap_skips T d page \<longleftrightarrow>
     (check_mapping d \<noteq> None \<and> check_mapping d \<noteq> raw_mapping T page) \<or>
     (nonlinear_vma d \<and> (page_index T page < first_index d \<or> last_index d < page_index T page))"

text \<open>A present entry; the result says whether the gathered pages have to be flushed first.\<close>

definition zap_present ::
  "('r, 'k) tables \<Rightarrow> vma_flags \<Rightarrow> zap_details option \<Rightarrow> int \<Rightarrow> pte_t \<Rightarrow> ('r, 'k) zap \<Rightarrow> (bool \<times> ('r, 'k) zap) option" where
  "zap_present T vf details addr p z = do {
     let page = vm_normal_page T vf p;
     if (case (details, page) of (Some d, Some pg) \<Rightarrow> zap_skips T d pg | _ \<Rightarrow> False) then Some (False, z)
     else do {
       let z = z_set addr Pte_none z;
       let z = z\<lparr>z_tlb := (z_tlb z)\<lparr>need_flush := True\<rparr>\<rparr>;
       case page of
         None \<Rightarrow> Some (False, z)
       | Some pg \<Rightarrow> do {
           let z = (case details of
               None \<Rightarrow> z
             | Some d \<Rightarrow> if nonlinear_vma d \<and> linear_page_index T addr \<noteq> page_index T pg then z_set addr Pte_file z else z);
           let z = (if PageAnon (px (z_vm z) pg) then z\<lparr>z_rss := add_anon (-1) (z_rss z)\<rparr>
             else (let v = z_vm z;
                       v = (if pte_dirty p then snd (set_page_dirty (hdr (host_of T)) (aops_of T) pg v) else v);
                       v = (if pte_young p \<and> \<not> VM_SequentialReadHint vf then mark_page_accessed T pg v else v)
                   in z\<lparr>z_vm := v, z_rss := add_file (-1) (z_rss z)\<rparr>));
           let v = page_remove_rmap T pg (z_vm z);
           (room, tlb, v) \<leftarrow> tlb_remove_page T pg (z_tlb z) v;
           Some (room = 0, z\<lparr>z_tlb := tlb, z_vm := v\<rparr>)
         }
     }
   }"

text \<open>An entry that is not present; a bad one is only printed.\<close>

definition zap_entry :: "('r, 'k) tables \<Rightarrow> entry \<Rightarrow> ('r, 'k) zap \<Rightarrow> ('r, 'k) zap option" where
  "zap_entry T entry z = do {
     let K = hdr (host_of T);
     let X = ext (host_of T);
     if swp_type K entry = 8 then do {
       v \<leftarrow> on_nd (COMEX_free_to_remote X (entry_NodeID K entry) (entry_pageNO K entry)) (z_vm z);
       Some (z\<lparr>z_vm := v\<rparr>)
     }
     else if swp_type K entry = 9 then do {
       v \<leftarrow> on_nd (node_free (c_int (swp_offset K entry)) 0) (z_vm z);
       Some (z\<lparr>z_vm := v\<rparr>)
     }
     else do {
       let z = (if \<not> non_swap_entry K entry then z\<lparr>z_rss := add_swapents (-1) (z_rss z)\<rparr>
         else if is_migration_entry T entry then
           (if PageAnon (px (z_vm z) (migration_entry_to_page T entry)) then z\<lparr>z_rss := add_anon (-1) (z_rss z)\<rparr>
            else z\<lparr>z_rss := add_file (-1) (z_rss z)\<rparr>)
         else z);
       (ok, v) \<leftarrow> on_sw (free_swap_and_cache K (ksv (host_of T)) entry) (z_vm z);
       Some (z\<lparr>z_vm := v\<rparr>)
     }
   }"

definition zap_one ::
  "('r, 'k) tables \<Rightarrow> vma_flags \<Rightarrow> zap_details option \<Rightarrow> int \<Rightarrow> ('r, 'k) zap \<Rightarrow> (bool \<times> ('r, 'k) zap) option" where
  "zap_one T vf details addr z =
     (case ptes (z_mm z) addr of
        Pte_none \<Rightarrow> Some (False, z)
      | Pte_present p \<Rightarrow> zap_present T vf details addr p z
      | Pte_file \<Rightarrow> Some (False, if details = None then z_set addr Pte_none z else z)
      | Pte_swap entry \<Rightarrow>
          if details \<noteq> None then Some (False, z)
          else do { z \<leftarrow> zap_entry T entry z; Some (False, z_set addr Pte_none z) })"

text \<open>
  The loop over the addresses; a flush breaks it off before the address moves on.  \<open>again\<close> then takes the
  loop up at the same address, whose entry is gone by now.
\<close>

partial_function (option) zap_loop ::
  "('r, 'k) tables \<Rightarrow> vma_flags \<Rightarrow> zap_details option \<Rightarrow> int \<Rightarrow> int \<Rightarrow> ('r, 'k) zap \<Rightarrow> (bool \<times> int \<times> ('r, 'k) zap) option" where
  "zap_loop T vf details addr till z = do {
     (force_flush, z) \<leftarrow> zap_one T vf details addr z;
     if force_flush then Some (True, addr, z)
     else if addr + 1 \<noteq> till then zap_loop T vf details (addr + 1) till z
     else Some (False, addr + 1, z)
   }"

partial_function (option) zap_pte_range ::
  "('r, 'k) tables \<Rightarrow> vma_flags \<Rightarrow> zap_details option \<Rightarrow> int \<Rightarrow> int \<Rightarrow> mmu_gather \<Rightarrow> mm_struct \<Rightarrow> ('r, 'k) vm \<Rightarrow>
     (int \<times> mmu_gather \<times> mm_struct \<times> ('r, 'k) vm) option" where
  "zap_pte_range T vf details addr till tlb mm v = do {
     (force_flush, addr, z) \<leftarrow> zap_loop T vf details addr till \<lparr>z_mm = mm, z_rss = init_rss_vec, z_tlb = tlb, z_vm = v\<rparr>;
     let mm = add_mm_rss_vec (z_rss z) (z_mm z);
     if force_flush then do {
       (tlb, v) \<leftarrow> tlb_flush_mmu T (z_tlb z) (z_vm z);
       if addr \<noteq> till then zap_pte_range T vf details addr till tlb mm v else Some (addr, tlb, mm, v)
     }
     else Some (addr, z_tlb z, mm, z_vm z)
   }"

section \<open>Fork: copying a range\<close>

record ('r, 'k) copy =
  c_dst :: mm_struct
  c_src :: mm_struct
  c_rss :: rss_vec
  c_vm :: "('r, 'k) vm"

text \<open>An entry that is not present; the result is \<^term>\<open>False\<close> when its count needs a continuation page.\<close>

definition copy_entry ::
  "('r, 'k) tables \<Rightarrow> vma_flags \<Rightarrow> int \<Rightarrow> entry \<Rightarrow> ('r, 'k) copy \<Rightarrow> (bool \<times> entry \<times> ('r, 'k) copy) option" where
  "copy_entry T vf addr entry c = do {
     let K = hdr (host_of T);
     if \<not> non_swap_entry K entry then do {
       (r, v) \<leftarrow> on_sw (swap_duplicate K (ksv (host_of T)) entry) (c_vm c);
       let c = c\<lparr>c_vm := v\<rparr>;
       if r < 0 then Some (False, entry, c)
       else Some (True, entry, c\<lparr>c_dst := (c_dst c)\<lparr>on_mmlist := True\<rparr>, c_rss := add_swapents 1 (c_rss c)\<rparr>)
     }
     else if is_migration_entry T entry then do {
       let c = (if PageAnon (px (c_vm c) (migration_entry_to_page T entry)) then c\<lparr>c_rss := add_anon 1 (c_rss c)\<rparr>
                else c\<lparr>c_rss := add_file 1 (c_rss c)\<rparr>);
       if is_write_migration_entry T entry \<and> is_cow_mapping vf then do {
         let entry = make_migration_entry_read T entry;
         Some (True, entry, c\<lparr>c_src := set_pte_at addr (Pte_swap entry) (c_src c)\<rparr>)
       }
       else Some (True, entry, c)
     }
     else Some (True, entry, c)
   }"

definition copy_present :: "('r, 'k) tables \<Rightarrow> vma_flags \<Rightarrow> int \<Rightarrow> pte_t \<Rightarrow> ('r, 'k) copy \<Rightarrow> ('r, 'k) copy" where
  "copy_present T vf addr p c =
     (let (p, c) = (if is_cow_mapping vf
            then (p\<lparr>pte_write := False\<rparr>, c\<lparr>c_src := set_pte_at addr (Pte_present (p\<lparr>pte_write := False\<rparr>)) (c_src c)\<rparr>) else (p, c));
          p = (if VM_SHARED vf then p\<lparr>pte_dirty := False\<rparr> else p);
          p = p\<lparr>pte_young := False\<rparr>;
          c = (case vm_normal_page T vf p of
              None \<Rightarrow> c
            | Some pg \<Rightarrow>
                (let v = v_frame pg (\<lambda>q. q\<lparr>p_count := p_count q + 1\<rparr>) (c_vm c);
                     v = page_dup_rmap T pg v
                 in if PageAnon (px v pg) then c\<lparr>c_vm := v, c_rss := add_anon 1 (c_rss c)\<rparr>
                    else c\<lparr>c_vm := v, c_rss := add_file 1 (c_rss c)\<rparr>))
      in c\<lparr>c_dst := set_pte_at addr (Pte_present p) (c_dst c)\<rparr>)"

definition copy_one_pte :: "('r, 'k) tables \<Rightarrow> vma_flags \<Rightarrow> int \<Rightarrow> ('r, 'k) copy \<Rightarrow> (entry \<times> ('r, 'k) copy) option" where
  "copy_one_pte T vf addr c =
     (case ptes (c_src c) addr of
        Pte_swap entry \<Rightarrow> do {
          (ok, entry, c) \<leftarrow> copy_entry T vf addr entry c;
          if \<not> ok then Some (entry, c)
          else Some (0, c\<lparr>c_dst := set_pte_at addr (Pte_swap entry) (c_dst c)\<rparr>)
        }
      | Pte_present p \<Rightarrow> Some (0, copy_present T vf addr p c)
      | p \<Rightarrow> Some (0, c\<lparr>c_dst := set_pte_at addr p (c_dst c)\<rparr>))"

text \<open>The loop of \<open>copy_pte_range\<close> up to its end, a break for another task, or an entry to continue.\<close>

partial_function (option) copy_loop ::
  "('r, 'k) tables \<Rightarrow> vma_flags \<Rightarrow> int \<Rightarrow> int \<Rightarrow> nat \<Rightarrow> ('r, 'k) copy \<Rightarrow> (entry \<times> int \<times> nat \<times> ('r, 'k) copy) option" where
  "copy_loop T vf addr till progress c =
     (if 32 \<le> progress \<and> need_resched T (c_vm c) then Some (0, addr, 0, c)
      else do {
        let progress = (if 32 \<le> progress then 0 else progress);
        (e, progress, c) \<leftarrow> (if ptes (c_src c) addr = Pte_none then Some (0, progress + 1, c)
            else do { (e, c) \<leftarrow> copy_one_pte T vf addr c; Some (e, if e = 0 then progress + 8 else progress, c) });
        if e \<noteq> 0 then Some (e, addr, progress, c)
        else if addr + 1 \<noteq> till then copy_loop T vf (addr + 1) till progress c
        else Some (0, addr + 1, progress, c)
      })"

text \<open>The table behind an entry of the level above; an empty one is made when there is none.\<close>

definition pmd_populate :: "('r, 'k) tables \<Rightarrow> int \<Rightarrow> mm_struct \<Rightarrow> mm_struct" where
  "pmd_populate T pmd mm = mm\<lparr>pmds := (pmds mm)(pmd := Px_table), ptes := (\<lambda>x. if x div pmd_pages T = pmd then Pte_none else ptes mm x)\<rparr>"

definition u_pte_alloc :: "('r, 'k) tables \<Rightarrow> int \<Rightarrow> mm_struct \<Rightarrow> ('r, 'k) vm \<Rightarrow> int \<times> mm_struct \<times> ('r, 'k) vm" where
  "u_pte_alloc T pmd mm v = (case pte_alloc_one T v of
     (False, v) \<Rightarrow> (- ENOMEM, mm, v)
   | (True, v) \<Rightarrow> (0, if pmds mm pmd = Px_none then pmd_populate T pmd (mm\<lparr>nr_ptes := nr_ptes mm + 1\<rparr>) else mm, v))"

definition pte_alloc_map :: "('r, 'k) tables \<Rightarrow> int \<Rightarrow> mm_struct \<Rightarrow> ('r, 'k) vm \<Rightarrow> int \<times> mm_struct \<times> ('r, 'k) vm" where
  "pte_alloc_map T pmd mm v = (if pmds mm pmd = Px_none then u_pte_alloc T pmd mm v else (0, mm, v))"

partial_function (option) copy_pte_range ::
  "('r, 'k) tables \<Rightarrow> vma_flags \<Rightarrow> int \<Rightarrow> int \<Rightarrow> int \<Rightarrow> nat \<Rightarrow> mm_struct \<Rightarrow> mm_struct \<Rightarrow> ('r, 'k) vm \<Rightarrow>
     (int \<times> mm_struct \<times> mm_struct \<times> ('r, 'k) vm) option" where
  "copy_pte_range T vf pmd addr till progress dst src v = do {
     let (r, dst, v) = pte_alloc_map T pmd dst v;
     if r \<noteq> 0 then Some (- ENOMEM, dst, src, v)
     else do {
       (e, addr, progress, c) \<leftarrow> copy_loop T vf addr till progress \<lparr>c_dst = dst, c_src = src, c_rss = init_rss_vec, c_vm = v\<rparr>;
       let dst = add_mm_rss_vec (c_rss c) (c_dst c);
       let src = c_src c;
       (r, v) \<leftarrow> (if e \<noteq> 0 then on_sw (add_swap_count_continuation (hdr (host_of T)) (ksv (host_of T)) e) (c_vm c) else Some (0, c_vm c));
       if r < 0 then Some (- ENOMEM, dst, src, v)
       else do {
         let progress = (if e \<noteq> 0 then 0 else progress);
         if addr \<noteq> till then copy_pte_range T vf pmd addr till progress dst src v else Some (0, dst, src, v)
       }
     }
   }"

end
