(* ===== verification/Comex_Shrink.thy ===== *)
theory Comex_Shrink
  imports Comex_Reclaim
begin

text \<open>
  The reclaim of a list of pages (\<open>vmscan.c\<close>, 620-971): every page is locked, given swap space if it
  needs it (\<open>add_to_swap\<close>, and so COMEX), unmapped, written out, and taken off its mapping.
\<close>

section \<open>What the reclaim looks at\<close>

datatype page_references = PAGEREF_RECLAIM | PAGEREF_RECLAIM_CLEAN | PAGEREF_KEEP | PAGEREF_ACTIVATE

datatype swap_result = SWAP_SUCCESS | SWAP_AGAIN | SWAP_FAIL | SWAP_MLOCK

definition DEF_PRIORITY :: int where "DEF_PRIORITY = 12"

text \<open>
  The scan control, with the bits of \<open>gfp_mask\<close> one by one, and what the reclaim calls outside these
  files: \<open>page_referenced\<close> answers the number of references, and whether some area of the page is
  locked or executable.
\<close>

record ('r, 'k) scan_control =
  gfp_fs :: bool
  gfp_io :: bool
  may_unmap :: bool
  may_writepage :: bool
  sc_priority :: int
  global_reclaim :: bool
  current_is_kswapd :: bool
  page_evictable :: "int \<Rightarrow> ('r, 'k) vm \<Rightarrow> bool"
  page_is_file_cache :: "int \<Rightarrow> ('r, 'k) vm \<Rightarrow> bool"
  page_referenced :: "int \<Rightarrow> ('r, 'k) vm \<Rightarrow> (int \<times> bool \<times> bool) \<times> ('r, 'k) vm"
  wait_on_page_writeback :: "int \<Rightarrow> ('r, 'k) vm \<Rightarrow> ('r, 'k) vm"
  try_to_unmap :: "int \<Rightarrow> ('r, 'k) vm \<Rightarrow> swap_result \<times> ('r, 'k) vm"
  try_to_release_page :: "int \<Rightarrow> ('r, 'k) vm \<Rightarrow> bool \<times> ('r, 'k) vm"

definition px_upd :: "int \<Rightarrow> (page_x \<Rightarrow> page_x) \<Rightarrow> ('r, 'k) vm \<Rightarrow> ('r, 'k) vm" where
  "px_upd pg f v = v\<lparr>px := (px v)(pg := f (px v pg))\<rparr>"

definition page_check_references ::
  "('r, 'k) scan_control \<Rightarrow> int \<Rightarrow> ('r, 'k) vm \<Rightarrow> page_references \<times> ('r, 'k) vm" where
  "page_check_references sc page v =
     (let ((referenced_ptes, vm_locked, vm_exec), v) = page_referenced sc page v;
          referenced_page = PageReferenced (px v page);
          v = px_upd page (\<lambda>x. x\<lparr>PageReferenced := False\<rparr>) v in
      if vm_locked then (PAGEREF_RECLAIM, v)
      else if referenced_ptes \<noteq> 0 then
        if PageSwapBacked (v_page page v) then (PAGEREF_ACTIVATE, v)
        else (let v = px_upd page (\<lambda>x. x\<lparr>PageReferenced := True\<rparr>) v in
          if referenced_page \<or> 1 < referenced_ptes then (PAGEREF_ACTIVATE, v)
          else if vm_exec then (PAGEREF_ACTIVATE, v)
          else (PAGEREF_KEEP, v))
      else if referenced_page \<and> \<not> PageSwapBacked (v_page page v) then (PAGEREF_RECLAIM_CLEAN, v)
      else (PAGEREF_RECLAIM, v))"

section \<open>One page\<close>

text \<open>
  The labels a page can leave the loop by: on the list of pages to free (\<open>free_it\<close>), counted but on no
  list (\<open>continue\<close>), back to the list (\<open>keep_locked\<close>, \<open>keep\<close>), activated, or moved off as unevictable.
  The loop body is cut where its steps are, each step answers a label or goes on (\<^term>\<open>None\<close>).
\<close>

datatype fate = free_it | gone | keep_locked | keep | activate_locked | cull_mlocked

record shrink_t =
  nr_scanned :: int
  nr_dirty :: int
  nr_congested :: int
  nr_reclaimed :: int
  nr_writeback :: int
  pgactivate :: int

type_synonym ('r, 'k) step = "(fate option \<times> shrink_t \<times> ('r, 'k) vm) option"

definition sw_opt :: "('k swaps \<Rightarrow> (int \<times> 'k swaps) option) \<Rightarrow> ('r, 'k) vm \<Rightarrow> (int \<times> ('r, 'k) vm) option" where
  "sw_opt f v = do { (r, m) \<leftarrow> sw_get f (mc v); Some (r, v\<lparr>mc := m\<rparr>) }"

text \<open>Up to the references of the page.\<close>

definition check_page ::
  "('r, 'k) scan_control \<Rightarrow> bool \<Rightarrow> int \<Rightarrow> shrink_t \<Rightarrow> ('r, 'k) vm \<Rightarrow> fate option \<times> page_references \<times> bool \<times> shrink_t \<times> ('r, 'k) vm" where
  "check_page sc force_reclaim page c v =
     (let c = c\<lparr>nr_scanned := nr_scanned c + 1\<rparr>; clean = PAGEREF_RECLAIM_CLEAN in
      if \<not> page_evictable sc page v then (Some cull_mlocked, clean, False, c, v)
      else if \<not> may_unmap sc \<and> page_mapped (v_page page v) then (Some keep_locked, clean, False, c, v)
      else let c = (if page_mapped (v_page page v) \<or> PageSwapCache (v_page page v) then c\<lparr>nr_scanned := nr_scanned c + 1\<rparr> else c);
               may_enter_fs = (gfp_fs sc \<or> PageSwapCache (v_page page v) \<and> gfp_io sc) in
        if PageWriteback (v_page page v) \<and> (global_reclaim sc \<or> \<not> PageReclaim (px v page) \<or> \<not> may_enter_fs)
        then (Some keep_locked, clean, may_enter_fs, c\<lparr>nr_writeback := nr_writeback c + 1\<rparr>, SetPageReclaim page v)
        else let v = (if PageWriteback (v_page page v) then wait_on_page_writeback sc page v else v);
                 (references, v) = (if force_reclaim then (clean, v) else page_check_references sc page v) in
          case references of
            PAGEREF_ACTIVATE \<Rightarrow> (Some activate_locked, references, may_enter_fs, c, v)
          | PAGEREF_KEEP \<Rightarrow> (Some keep_locked, references, may_enter_fs, c, v)
          | _ \<Rightarrow> (None, references, may_enter_fs, c, v))"

text \<open>Swap space for an anonymous page, and the unmapping; with what \<open>may_enter_fs\<close> is then.\<close>

definition unmap_page ::
  "('r, 'k) host \<Rightarrow> ('r, 'k) aops \<Rightarrow> ('r, 'k) scan_control \<Rightarrow> int \<Rightarrow> bool \<Rightarrow> ('r, 'k) vm \<Rightarrow> (fate option \<times> bool \<times> int option \<times> ('r, 'k) vm) option" where
  "unmap_page H A sc page may_enter_fs v = do {
     (stop, may_enter_fs, v) \<leftarrow>
       (if PageAnon (px v page) \<and> \<not> PageSwapCache (v_page page v) then
          if \<not> gfp_io sc then Some (Some keep_locked, may_enter_fs, v)
          else do {
            (r, m) \<leftarrow> add_to_swap H page (mc v);
            Some (if r = 0 then Some activate_locked else None, r \<noteq> 0 \<or> may_enter_fs, v\<lparr>mc := m\<rparr>)
          }
        else Some (None, may_enter_fs, v));
     let mapping = page_mapping A page v;
     if stop \<noteq> None then Some (stop, may_enter_fs, mapping, v)
     else if page_mapped (v_page page v) \<and> mapping \<noteq> None then
       (let (r, v) = try_to_unmap sc page v in
        Some (case r of SWAP_FAIL \<Rightarrow> Some activate_locked | SWAP_AGAIN \<Rightarrow> Some keep_locked
          | SWAP_MLOCK \<Rightarrow> Some cull_mlocked | SWAP_SUCCESS \<Rightarrow> None, may_enter_fs, mapping, v))
     else Some (None, may_enter_fs, mapping, v)
   }"

text \<open>A dirty page is written out; the mapping is looked up again after a write.\<close>

definition write_page ::
  "('r, 'k) host \<Rightarrow> ('r, 'k) aops \<Rightarrow> ('r, 'k) scan_control \<Rightarrow> int \<Rightarrow> page_references \<Rightarrow> bool \<Rightarrow> int option \<Rightarrow> shrink_t \<Rightarrow> ('r, 'k) vm \<Rightarrow>
    (fate option \<times> int option \<times> shrink_t \<times> ('r, 'k) vm) option" where
  "write_page H A sc page references may_enter_fs mapping c v =
     (if \<not> PageDirty (v_page page v) then Some (None, mapping, c, v)
      else let c = c\<lparr>nr_dirty := nr_dirty c + 1\<rparr> in
        if page_is_file_cache sc page v \<and> (\<not> current_is_kswapd sc \<or> DEF_PRIORITY - 2 \<le> sc_priority sc)
        then Some (Some keep_locked, mapping, c, SetPageReclaim page v)
        else if references = PAGEREF_RECLAIM_CLEAN \<or> \<not> may_enter_fs \<or> \<not> may_writepage sc
        then Some (Some keep_locked, mapping, c, v)
        else do {
          (r, v) \<leftarrow> pageout (hdr H) A page mapping v;
          case r of
            PAGE_KEEP \<Rightarrow> Some (Some keep_locked, mapping, c\<lparr>nr_congested := nr_congested c + 1\<rparr>, v)
          | PAGE_ACTIVATE \<Rightarrow> Some (Some activate_locked, mapping, c, v)
          | PAGE_SUCCESS \<Rightarrow>
              if PageWriteback (v_page page v) \<or> PageDirty (v_page page v) \<or> PageLocked (v_page page v)
              then Some (Some keep, mapping, c, v)
              else Some (None, page_mapping A page v, c, v_frame page (\<lambda>p. p\<lparr>PageLocked := True\<rparr>) v)
          | PAGE_CLEAN \<Rightarrow> Some (None, mapping, c, v)
        })"

text \<open>Buffers are released, then the page leaves its mapping.\<close>

definition free_page_of ::
  "('r, 'k) host \<Rightarrow> ('r, 'k) aops \<Rightarrow> ('r, 'k) scan_control \<Rightarrow> int \<Rightarrow> int option \<Rightarrow> shrink_t \<Rightarrow> ('r, 'k) vm \<Rightarrow> (fate \<times> shrink_t \<times> ('r, 'k) vm) option" where
  "free_page_of H A sc page mapping c v = do {
     let had_private = page_has_private (px v page);
     let (ok, v) = (if had_private then try_to_release_page sc page v else (True, v));
     if \<not> ok then Some (activate_locked, c, v)
     else if had_private \<and> mapping = None \<and> p_count (v_page page v) = 1 then
       (let v = v_frame page (\<lambda>p. p\<lparr>PageLocked := False, p_count := p_count p - 1\<rparr>) v in
        Some (if p_count (v_page page v) = 0 then (free_it, c, v) else (gone, c\<lparr>nr_reclaimed := nr_reclaimed c + 1\<rparr>, v)))
     else case mapping of None \<Rightarrow> Some (keep_locked, c, v)
     | Some mp \<Rightarrow> do {
         (removed, v) \<leftarrow> u_remove_mapping (hdr H) (ksv H) A mp page v;
         if removed then Some (free_it, c, v_frame page (\<lambda>p. p\<lparr>PageLocked := False\<rparr>) v) else Some (keep_locked, c, v)
       }
   }"

text \<open>The steps in their order; a step that answers a label ends the body.\<close>

definition reclaim_page ::
  "('r, 'k) host \<Rightarrow> ('r, 'k) aops \<Rightarrow> ('r, 'k) scan_control \<Rightarrow> bool \<Rightarrow> int \<Rightarrow> shrink_t \<Rightarrow> ('r, 'k) vm \<Rightarrow> (fate \<times> shrink_t \<times> ('r, 'k) vm) option" where
  "reclaim_page H A sc force_reclaim page c v =
     (if PageLocked (v_page page v) then Some (keep, c, v)
      else if PageActive (px v page) then None
      else let v = v_frame page (\<lambda>p. p\<lparr>PageLocked := True\<rparr>) v;
               (stop, references, may_enter_fs, c, v) = check_page sc force_reclaim page c v in
        case stop of Some l \<Rightarrow> Some (l, c, v)
        | None \<Rightarrow> do {
            (stop, may_enter_fs, mapping, v) \<leftarrow> unmap_page H A sc page may_enter_fs v;
            case stop of Some l \<Rightarrow> Some (l, c, v)
            | None \<Rightarrow> do {
                (stop, mapping, c, v) \<leftarrow> write_page H A sc page references may_enter_fs mapping c v;
                case stop of Some l \<Rightarrow> Some (l, c, v)
                | None \<Rightarrow> free_page_of H A sc page mapping c v
              }
          })"

text \<open>
  The labels at the end of the body: whether the page goes to \<open>free_pages\<close> or back to \<open>ret_pages\<close>.
  \<open>putback_lru_page\<close> files an unevictable page elsewhere.
\<close>

definition leave_page ::
  "('r, 'k) host \<Rightarrow> int \<Rightarrow> fate \<Rightarrow> shrink_t \<Rightarrow> ('r, 'k) vm \<Rightarrow> (int list \<times> int list \<times> shrink_t \<times> ('r, 'k) vm) option" where
  "leave_page H page l c v = (let unlocked = v_frame page (\<lambda>p. p\<lparr>PageLocked := False\<rparr>) in
     case l of
       free_it \<Rightarrow> Some ([page], [], c\<lparr>nr_reclaimed := nr_reclaimed c + 1\<rparr>, v)
     | gone \<Rightarrow> Some ([], [], c, v)
     | keep \<Rightarrow> Some ([], [page], c, v)
     | keep_locked \<Rightarrow> Some ([], [page], c, unlocked v)
     | cull_mlocked \<Rightarrow> do {
         (_, v) \<leftarrow> (if PageSwapCache (v_page page v) then sw_opt (try_to_free_swap (hdr H) (ksv H) page) v else Some (0, v));
         Some ([], [], c, unlocked v)
       }
     | activate_locked \<Rightarrow> do {
         let s = sw (mc v);
         (_, v) \<leftarrow> (if PageSwapCache (v_page page v) \<and> vm_swap_full (hdr H) (nr_swap_pages s) (total_swap_pages s)
                  then sw_opt (try_to_free_swap (hdr H) (ksv H) page) v else Some (0, v));
         if PageActive (px v page) then None
         else Some ([], [page], c\<lparr>pgactivate := pgactivate c + 1\<rparr>, unlocked (px_upd page (\<lambda>x. x\<lparr>PageActive := True\<rparr>) v))
       })"

text \<open>
  The loop takes the pages from the tail of the list and puts them at the front of the other two.  The
  result is \<open>nr_reclaimed\<close> in the counters, the pages to free, and the pages that stay.  What a split of
  a huge page adds to the list is left out.
\<close>

fun shrink_loop ::
  "('r, 'k) host \<Rightarrow> ('r, 'k) aops \<Rightarrow> ('r, 'k) scan_control \<Rightarrow> bool \<Rightarrow> int list \<Rightarrow> int list \<Rightarrow> int list \<Rightarrow> shrink_t \<Rightarrow> ('r, 'k) vm \<Rightarrow>
    (int list \<times> int list \<times> shrink_t \<times> ('r, 'k) vm) option" where
  "shrink_loop H A sc force_reclaim [] frees rets c v = Some (frees, rets, c, v)"
| "shrink_loop H A sc force_reclaim (page # rest) frees rets c v = do {
     (l, c, v) \<leftarrow> reclaim_page H A sc force_reclaim page c v;
     (fs, rs, c, v) \<leftarrow> leave_page H page l c v;
     shrink_loop H A sc force_reclaim rest (fs @ frees) (rs @ rets) c v
   }"

definition shrink_page_list ::
  "('r, 'k) host \<Rightarrow> ('r, 'k) aops \<Rightarrow> ('r, 'k) scan_control \<Rightarrow> bool \<Rightarrow> int list \<Rightarrow> int \<Rightarrow> ('r, 'k) vm \<Rightarrow>
    (bool \<times> int list \<times> int list \<times> shrink_t \<times> ('r, 'k) vm) option" where
  "shrink_page_list H A sc force_reclaim page_list scanned v = do {
     (frees, rets, c, v) \<leftarrow> shrink_loop H A sc force_reclaim (rev page_list) [] []
       \<lparr>nr_scanned = scanned, nr_dirty = 0, nr_congested = 0, nr_reclaimed = 0, nr_writeback = 0, pgactivate = 0\<rparr> v;
     let congested = (nr_dirty c \<noteq> 0 \<and> nr_dirty c = nr_congested c \<and> global_reclaim sc);
     Some (congested, frees, rets, c, v)
   }"

section \<open>Reclaim under a COMEX entry\<close>

text \<open>A scan that may write and do I/O, on pages nobody uses.\<close>

definition idle_scan :: "('r, 'k) scan_control \<Rightarrow> int \<Rightarrow> bool" where
  "idle_scan sc pg \<longleftrightarrow> gfp_io sc \<and> may_unmap sc \<and> may_writepage sc \<and>
     (\<forall>v. page_evictable sc pg v \<and> \<not> page_is_file_cache sc pg v \<and> page_referenced sc pg v = ((0, False, False), v))"

lemma comex_tail:
  assumes r: "reclaimable (hdr H) A mp e pg v" and sc: "idle_scan sc pg" and ref: "references \<noteq> PAGEREF_RECLAIM_CLEAN"
    and d: "PageDirty (v_page pg v)"
  shows "\<exists>w c1 c2 u. write_page H A sc pg references True (Some mp) c v = Some (None, Some mp, c1, w) \<and>
    free_page_of H A sc pg (Some mp) c1 w = Some (free_it, c2, u) \<and> nd (mc u) = nd (mc v) \<and>
    cache_inv (hdr H) (sw (mc u)) \<and> length (swapper_spaces (sw (mc u))) = 29 \<and> cached_page (hdr H) e (sw (mc u)) = None"
proof -
  obtain w where w: "pageout (hdr H) A pg (Some mp) v = Some (PAGE_SUCCESS, w)" "reclaimable (hdr H) A mp e pg w"
      "nd (mc w) = nd (mc v)" "\<not> PageDirty (v_page pg w)" "\<not> PageLocked (v_page pg w)"
    using pageout_comex [OF r] by blast
  define w1 where "w1 = v_frame pg (\<lambda>p. p\<lparr>PageLocked := True\<rparr>) w"
  have w1: "PageLocked (v_page pg w1)" "\<not> PageDirty (v_page pg w1)" "nd (mc w1) = nd (mc v)" "\<not> page_has_private (px w1 pg)"
    using w by (simp_all add: w1_def reclaimable_def)
  have "cache_inv (hdr H) (sw (mc w1)) = cache_inv (hdr H) (sw (mc w))"
    by (rule cache_inv_same) (simp_all add: w1_def v_frame_def frame_upd_def)
  then have r1: "reclaimable (hdr H) A mp e pg w1" using w(2) by (simp add: reclaimable_def no_areas_def) (simp add: w1_def)
  obtain u where u: "u_remove_mapping (hdr H) (ksv H) A mp pg w1 = Some (True, u)" "nd (mc u) = nd (mc w1)"
      "cache_inv (hdr H) (sw (mc u))" "length (swapper_spaces (sw (mc u))) = 29" "cached_page (hdr H) e (sw (mc u)) = None"
    using remove_comex [OF r1 w1(1,2), of "ksv H"] by blast
  let ?c = "c\<lparr>nr_dirty := nr_dirty c + 1\<rparr>" and ?u = "v_frame pg (\<lambda>p. p\<lparr>PageLocked := False\<rparr>) u"
  have "write_page H A sc pg references True (Some mp) c v = Some (None, Some mp, ?c, w1)"
    using d sc ref w by (simp add: write_page_def idle_scan_def reclaimable_def w1_def)
  moreover have "free_page_of H A sc pg (Some mp) ?c w1 = Some (free_it, ?c, ?u)"
    using u(1) w1(4) by (simp add: free_page_of_def)
  moreover have "cache_inv (hdr H) (sw (mc ?u)) = cache_inv (hdr H) (sw (mc u))"
    by (rule cache_inv_same) (simp_all add: v_frame_def frame_upd_def)
  moreover have "cached_page (hdr H) e (sw (mc ?u)) = cached_page (hdr H) e (sw (mc u))" by (rule cached_same) simp
  ultimately show ?thesis using u w1(3) by (intro exI [of _ w1] exI [of _ ?c] exI [of _ ?u]) simp
qed

lemma checked_idle:
  assumes "idle_scan sc pg" and "\<not> PageWriteback (v_page pg v)" and "PageSwapBacked (v_page pg v)"
  shows "\<exists>fs c1 w. check_page sc False pg c v = (None, PAGEREF_RECLAIM, fs, c1, w) \<and> mc w = mc v \<and>
    (\<forall>q. page_has_private (px w q) = page_has_private (px v q) \<and> PageAnon (px w q) = PageAnon (px v q)) \<and>
    (PageSwapCache (v_page pg v) \<longrightarrow> fs)"
  using assms by (auto simp: check_page_def idle_scan_def page_check_references_def px_upd_def v_page_def Let_def)

text \<open>The reverse map unmaps the page from its only page table.\<close>

definition unmaps :: "('r, 'k) scan_control \<Rightarrow> int \<Rightarrow> bool" where
  "unmaps sc pg \<longleftrightarrow> (\<forall>w. try_to_unmap sc pg w = (SWAP_SUCCESS, v_frame pg (\<lambda>p. p\<lparr>p_mapcount := 0, p_count := p_count p - 1\<rparr>) w))"

section \<open>Properties\<close>

text \<open>
  C35: the reclaim of a page under a COMEX entry throws the page away without writing it: a dirty page
  that is only in the swap cache is freed and its entry leaves the cache, while the node (its pool, its
  rings, its lenders, its memory) stays exactly as it was.  For a page that was just copied to COMEX that
  is right; for a page that was read back, whose place has been given away, these were the only contents.
\<close>

theorem reclaim_writes_nothing:
  assumes "reclaimable (hdr H) A mp e pg v" "idle_scan sc pg" "PageDirty (v_page pg v)" "\<not> PageLocked (v_page pg v)"
    and "\<not> page_mapped (v_page pg v)" "\<not> PageActive (px v pg)"
    and "PageSwapBacked (v_page pg v)"
  shows "\<exists>c' w. reclaim_page H A sc False pg c v = Some (free_it, c', w) \<and> nd (mc w) = nd (mc v) \<and>
    cached_page (hdr H) e (sw (mc w)) = None"
proof -
  define v1 where "v1 = v_frame pg (\<lambda>p. p\<lparr>PageLocked := True\<rparr>) v"
  have p1: "v_page pg v1 = (v_page pg v)\<lparr>PageLocked := True\<rparr>" "nd (mc v1) = nd (mc v)" by (simp_all add: v1_def)
  obtain fs c1 w where k: "check_page sc False pg c v1 = (None, PAGEREF_RECLAIM, fs, c1, w)" "mc w = mc v1"
      "page_has_private (px w pg) = page_has_private (px v1 pg)" fs
    using checked_idle [OF assms(2), of v1 c] p1 assms(1,7) by (auto simp: reclaimable_def)
  have "cache_inv (hdr H) (sw (mc v1)) = cache_inv (hdr H) (sw (mc v))"
    by (rule cache_inv_same) (simp_all add: v1_def v_frame_def frame_upd_def)
  then have r: "reclaimable (hdr H) A mp e pg w"
    using assms(1) k(2,3) p1 by (simp add: reclaimable_def no_areas_def v_page_def) (simp add: v1_def)
  have q: "v_page pg w = v_page pg v1" using k(2) by (simp add: v_page_def)
  have m: "unmap_page H A sc pg True w = Some (None, True, Some mp, w)"
    using r assms(5) q p1 by (simp add: unmap_page_def reclaimable_def page_mapped_def)
  have "PageDirty (v_page pg w)" using q p1 assms(3) by simp
  from comex_tail [OF r assms(2) _ this, of PAGEREF_RECLAIM c1]
  obtain w1 c2 c3 u where t: "write_page H A sc pg PAGEREF_RECLAIM True (Some mp) c1 w = Some (None, Some mp, c2, w1)"
      "free_page_of H A sc pg (Some mp) c2 w1 = Some (free_it, c3, u)" "nd (mc u) = nd (mc w)" "cached_page (hdr H) e (sw (mc u)) = None"
    by auto
  have "reclaim_page H A sc False pg c v = Some (free_it, c3, u)"
    using assms(4,6) k(1,4) m t(1,2) by (simp add: reclaim_page_def v1_def [symmetric])
  then show ?thesis using t(3,4) k(2) p1(2) by auto
qed

definition ideal_aops :: "(int \<Rightarrow> mem, unit) aops" where
  "ideal_aops = \<lparr>page_mapping = (\<lambda>pg v. if PageSwapCache (v_page pg v) then Some 0 else None), writepage = (\<lambda>_. None),
     spd_op = (\<lambda>_. None), u_set_page_dirty_buffers = (\<lambda>_ v. (0, v)), freepage = (\<lambda>_. None), mapping_cap_account_dirty = (\<lambda>_. False),
     pf_swapwrite = False, bdi_write_congested = (\<lambda>_. False), own_bdi = (\<lambda>_. False), try_to_free_buffers = (\<lambda>_ v. (False, v)),
     page_mkclean = (\<lambda>_ v. (False, v)), mapping_set_error = (\<lambda>_ _ v. v), u_delete_from_page_cache = (\<lambda>_ v. v),
     mem_cgroup_uncharge_cache_page = (\<lambda>_ v. v)\<rparr>"

definition ideal_scan :: "(int \<Rightarrow> mem, unit) scan_control" where
  "ideal_scan = \<lparr>gfp_fs = True, gfp_io = True, may_unmap = True, may_writepage = True, sc_priority = 5, global_reclaim = True,
     current_is_kswapd = True, page_evictable = (\<lambda>_ _. True), page_is_file_cache = (\<lambda>_ _. False),
     page_referenced = (\<lambda>_ v. ((0, False, False), v)), wait_on_page_writeback = (\<lambda>_ v. v),
     try_to_unmap = (\<lambda>pg v. (SWAP_SUCCESS, v_frame pg (\<lambda>p. p\<lparr>p_mapcount := 0, p_count := p_count p - 1\<rparr>) v)),
     try_to_release_page = (\<lambda>_ v. (True, v))\<rparr>"

definition no_counts :: shrink_t where
  "no_counts = \<lparr>nr_scanned = 0, nr_dirty = 0, nr_congested = 0, nr_reclaimed = 0, nr_writeback = 0, pgactivate = 0\<rparr>"

definition anon_px :: "int \<Rightarrow> page_x" where
  "anon_px = (\<lambda>_. \<lparr>PageReclaim = False, PageReferenced = False, PageActive = False, PageAnon = True, page_has_private = False\<rparr>)"

lemma ideal_scan: "idle_scan ideal_scan pg" "unmaps ideal_scan pg" "PageSwapCache (v_page pg w) \<Longrightarrow> page_mapping ideal_aops pg w = Some 0"
  by (simp_all add: idle_scan_def unmaps_def ideal_scan_def ideal_aops_def)

theorem reclaim_writes_nothing_witness:
  "\<exists>v c' w. PageDirty (v_page 3 v) \<and> cached_page std_h (swp_entry std_h 9 900) (sw (mc v)) = Some 3 \<and>
     reclaim_page ideal_host ideal_aops ideal_scan False 3 no_counts v = Some (free_it, c', w) \<and> nd (mc w) = nd (mc v)"
proof -
  let ?e = "swp_entry std_h 9 900"
  have t9: "swp_type std_h ?e = 9" using std_h_linux by (simp add: linux_swap_h_def)
  obtain t :: "unit swaps" where t: "cached_page std_h ?e t = Some 3" "cache_inv std_h t" "length (swapper_spaces t) = 29" "swap_info t = swap_info empty_swaps"
      "frames t 3 = (frames empty_swaps 3)\<lparr>p_count := p_count (frames empty_swaps 3) + 1, PageSwapCache := True, page_private := ?e\<rparr>"
    using add_9 [of ideal_host ?e empty_swaps 3] ideal_cache(1) [of ?e] t9 empty_cache(4) by (auto simp: plain_page_def)
  define s where "s = frame_upd 3 (\<lambda>p. p\<lparr>PageLocked := False, PageDirty := True, p_count := 2, p_mapcount := 0\<rparr>) t"
  define v where "v = \<lparr>mc = \<lparr>nd = ideal_node (\<lambda>_ _. 0), sw = s\<rparr>, px = anon_px\<rparr>"
  have fs: "frames s 3 = \<lparr>PageLocked = False, PageUptodate = True, PageDirty = True, PageSwapCache = True, PageSwapBacked = True,
     PageWriteback = False, PageKsm = False, PageTransHuge = False, p_count = 2, p_mapcount = 0, page_private = ?e\<rparr>"
    using t(5) empty_cache(4) by (simp add: s_def frame_upd_def plain_page_def)
  have "cache_inv std_h s = cache_inv std_h t" by (rule cache_inv_same) (simp_all add: s_def frame_upd_def)
  moreover have c: "cached_page std_h x s = cached_page std_h x t" for x by (rule cached_same) (simp add: s_def frame_upd_def)
  moreover have "no_areas s" using t(4) by (simp add: no_areas_def s_def frame_upd_def empty_swaps_def small_swaps_def)
  moreover have "length (swapper_spaces s) = 29" using t(3) by (simp add: s_def frame_upd_def)
  ultimately have r: "reclaimable (hdr ideal_host) ideal_aops 0 ?e 3 v"
    using t(2) fs t9 ideal_scan(3) by (simp add: reclaimable_def v_def v_page_def comex_entry_def anon_px_def)
  have p: "PageDirty (v_page 3 v)" "\<not> PageLocked (v_page 3 v)" "\<not> page_mapped (v_page 3 v)" "\<not> PageActive (px v 3)" "PageSwapBacked (v_page 3 v)"
    using fs by (simp_all add: v_def v_page_def page_mapped_def anon_px_def)
  obtain c' w where "reclaim_page ideal_host ideal_aops ideal_scan False 3 no_counts v = Some (free_it, c', w)" "nd (mc w) = nd (mc v)"
    using reclaim_writes_nothing [OF r ideal_scan(1) p] by blast
  then show ?thesis using p(1) t(1) c by (intro exI [of _ v]) (simp add: v_def)
qed

text \<open>
  C3: reclaim and fault, end to end: while the own pool has a free page, the reclaim of an anonymous page
  of the chosen program ends with the page on the list of pages to free, its contents in one page of the
  pool, and nothing in the swap cache; a later read of its entry fills any new page with the same contents
  and gives the page of the pool back.
\<close>

theorem reclaim_then_read:
  assumes "linux_swap_h (hdr H)" "roomy (ksv H)" "own_ok virt (nd (mc v))" "pool_free (nd (mc v)) \<noteq> {}" "no_areas (sw (mc v))"
    and "out_ready H pg (mc (v_frame pg (\<lambda>p. p\<lparr>PageLocked := True\<rparr>) v))"
    and "\<forall>p. cache_ready (hdr H) (swp_entry (hdr H) 9 (word_of_int p)) (sw (mc v))"
    and "\<not> PageLocked (v_page pg v)" "\<not> PageWriteback (v_page pg v)" "PageAnon (px v pg)" "\<not> PageActive (px v pg)" "\<not> page_has_private (px v pg)"
    and "idle_scan sc pg" "unmaps sc pg" "\<forall>w. PageSwapCache (v_page pg w) \<longrightarrow> page_mapping A pg w = Some mp"
  shows "\<exists>c' w p e. reclaim_page H A sc False pg c v = Some (free_it, c', w) \<and> p \<in> pool_free (nd (mc v)) \<and>
    pool_free (nd (mc w)) = pool_free (nd (mc v)) - {p} \<and> swp_type (hdr H) e = 9 \<and>
    (\<forall>new. fresh_frame H new (sw (mc w)) \<longrightarrow> (\<exists>u. read_swap_cache_async H e (mc w) = Some (Some new, u) \<and>
       page_data (mem (nd u)) (kmap (ext H) new) = page_data (mem (nd (mc v))) (kmap (ext H) pg) \<and>
       pool_free (nd u) = pool_free (nd (mc v))))"
proof -
  define v1 where "v1 = v_frame pg (\<lambda>p. p\<lparr>PageLocked := True\<rparr>) v"
  have p1: "v_page pg v1 = (v_page pg v)\<lparr>PageLocked := True\<rparr>" "nd (mc v1) = nd (mc v)" "px v1 = px v" by (simp_all add: v1_def)
  have fv: "p_count (v_page pg v1) = 2" "p_mapcount (v_page pg v1) = 1" "PageSwapBacked (v_page pg v1)" "\<not> PageSwapCache (v_page pg v1)"
    using assms(6) by (simp_all add: v1_def [symmetric] out_ready_def comex_filter_def Let_def v_page_def)
  obtain fs c1 w where k: "check_page sc False pg c v1 = (None, PAGEREF_RECLAIM, fs, c1, w)" "mc w = mc v1"
      "page_has_private (px w pg) = page_has_private (px v1 pg)" "PageAnon (px w pg) = PageAnon (px v1 pg)"
    using checked_idle [OF assms(13), of v1 c] p1 assms(9) fv(3) by auto
  have q: "v_page pg w = v_page pg v1" using k(2) by (simp add: v_page_def)
  have "cache_inv (hdr H) (sw (mc v1)) = cache_inv (hdr H) (sw (mc v))"
    by (rule cache_inv_same) (simp_all add: v1_def v_frame_def frame_upd_def)
  moreover have "cached_page (hdr H) x (sw (mc v1)) = cached_page (hdr H) x (sw (mc v))" for x by (rule cached_same) (simp add: v1_def)
  ultimately have cr: "\<forall>p. cache_ready (hdr H) (swp_entry (hdr H) 9 (word_of_int p)) (sw (mc v1))"
    using assms(7) by (simp add: cache_ready_def) (simp add: v1_def)
  have own: "own_ok virt (nd (mc v1))" "pool_free (nd (mc v1)) \<noteq> {}" "out_ready H pg (mc v1)"
    using assms(3,4,6) p1(2) by (simp_all add: v1_def)
  let ?n = "nd (mc v)"
  let ?A = "\<lambda>p. here_addr (pool_page p ?n) ?n"
  obtain p b st s where o: "add_to_swap H pg (mc v1) = Some (1, (mc v1)\<lparr>nd := ?n\<lparr>pool := b, stats := st,
        mem := memcpy (?A p) (kmap (ext H) pg) X86PageSize (mem ?n)\<rparr>, sw := s\<rparr>)"
      "p \<in> pool_free ?n" "0 \<le> p" "p < pool_total ?n" "buddy_inv b" "npages b = pool_total ?n"
      "free_set b = pool_free ?n - {p}" "in_cache H (swp_entry (hdr H) 9 (word_of_int p)) pg (sw (mc v1)) s"
    using swap_out_own [OF assms(1,2) own cr] p1(2) by auto
  let ?e = "swp_entry (hdr H) 9 (word_of_int p)"
  let ?n1 = "?n\<lparr>pool := b, stats := st, mem := memcpy (?A p) (kmap (ext H) pg) X86PageSize (mem ?n)\<rparr>"
  define w1 where "w1 = w\<lparr>mc := (mc v1)\<lparr>nd := ?n1, sw := s\<rparr>\<rparr>"
  define w2 where "w2 = v_frame pg (\<lambda>p. p\<lparr>p_mapcount := 0, p_count := p_count p - 1\<rparr>) w1"
  have fr: "v_page pg w1 = (v_page pg v1)\<lparr>PageDirty := True, p_count := p_count (v_page pg v1) + 1, PageSwapCache := True, page_private := ?e\<rparr>"
    using o(8) by (simp add: w1_def v_page_def in_cache_def)
  have un: "unmap_page H A sc pg fs w = Some (None, True, Some mp, w2)"
  proof -
    have "\<not> PageSwapCache (v_page pg w)" "gfp_io sc" "page_mapped (v_page pg w1)" "PageAnon (px w pg)"
      using q fr fv assms(13) k(4) p1(3) assms(10) by (simp_all add: idle_scan_def page_mapped_def)
    then show ?thesis using o(1) k(2) assms(14,15) fr
      by (simp add: unmap_page_def w1_def [symmetric] w2_def unmaps_def)
  qed
  have e9: "swp_type (hdr H) ?e = 9" using entry_9(1) [OF assms(1) o(3) own_small [OF assms(3) o(4)]] .
  have "cache_inv (hdr H) (sw (mc w2)) = cache_inv (hdr H) (sw (mc w1))"
    by (rule cache_inv_same) (simp_all add: w2_def v_frame_def frame_upd_def)
  moreover have "v_page pg w2 = (v_page pg w1)\<lparr>p_mapcount := 0, p_count := 2\<rparr>" using fr fv(1) by (simp add: w2_def)
  moreover have "swap_info (sw (mc w2)) = swap_info (sw (mc v))" "swapper_spaces (sw (mc w2)) = swapper_spaces s" "px w2 = px w"
    using o(8) by (simp_all add: w2_def w1_def in_cache_def) (simp add: v1_def)
  moreover have "cache_inv (hdr H) (sw (mc w1))" "length (swapper_spaces s) = 29"
    using o(8) by (simp_all add: w1_def in_cache_def)
  ultimately have r: "reclaimable (hdr H) A mp ?e pg w2"
    using fr p1 k(3) e9 assms(5,9,12,15) by (simp add: reclaimable_def comex_entry_def no_areas_def)
  have "PageDirty (v_page pg w2)" using fr by (simp add: w2_def)
  from comex_tail [OF r assms(13) _ this, of PAGEREF_RECLAIM c1]
  obtain w3 c2 c3 u where t: "write_page H A sc pg PAGEREF_RECLAIM True (Some mp) c1 w2 = Some (None, Some mp, c2, w3)"
      "free_page_of H A sc pg (Some mp) c2 w3 = Some (free_it, c3, u)" "nd (mc u) = nd (mc w2)"
      "cache_inv (hdr H) (sw (mc u))" "length (swapper_spaces (sw (mc u))) = 29" "cached_page (hdr H) ?e (sw (mc u)) = None"
    by auto
  have rp: "reclaim_page H A sc False pg c v = Some (free_it, c3, u)"
    using assms(8,11) k(1) un t(1,2) by (simp add: reclaim_page_def v1_def [symmetric])
  have nu: "nd (mc u) = ?n1" using t(3) by (simp add: w2_def w1_def)
  have n: "own_ok virt ?n1" "pool_total ?n1 = pool_total ?n" "here_addr j ?n1 = here_addr j ?n" "pool_page p ?n1 = pool_page p ?n" for j
    using own_same [OF assms(3), of ?n1] o(5,6) by simp_all
  have fr1: "pool_free ?n1 = pool_free ?n - {p}" using o(7) by (simp add: pool_free_def)
  have cu: "cache_ready (hdr H) ?e (sw (mc u))" using t(4-6) by (simp add: cache_ready_def)
  have again: "\<exists>x. read_swap_cache_async H ?e (mc u) = Some (Some new, x) \<and>
       page_data (mem (nd x)) (kmap (ext H) new) = page_data (mem ?n) (kmap (ext H) pg) \<and> pool_free (nd x) = pool_free ?n"
    if "fresh_frame H new (sw (mc u))" for new
    using swap_in_own [OF assms(1,2), of virt "mc u" p ?e new] n o(2-4) fr1 cu that nu by auto
  then show ?thesis using rp o(2) fr1 nu e9 by (intro exI [of _ c3] exI [of _ u] exI [of _ p] exI [of _ ?e]) simp
qed

theorem reclaim_then_read_witness:
  "\<exists>v c' w e. pool_free (nd (mc v)) = {900} \<and> reclaim_page ideal_host ideal_aops ideal_scan False 3 no_counts v = Some (free_it, c', w) \<and>
     pool_free (nd (mc w)) = {} \<and> (fresh_frame ideal_host 9 (sw (mc w)) \<longrightarrow> (\<exists>u. read_swap_cache_async ideal_host e (mc w) = Some (Some 9, u)))"
proof -
  obtain b where b: "own_ok id ((ideal_node (\<lambda>_ _. 0))\<lparr>pool := b\<rparr>)"
    "pool_free ((ideal_node (\<lambda>_ _. 0))\<lparr>pool := b\<rparr>) = {900}" using ideal_own_exists .
  define s where "s = frame_upd 3 (\<lambda>p. p\<lparr>PageLocked := False\<rparr>) empty_swaps"
  define v where "v = \<lparr>mc = \<lparr>nd = (ideal_node (\<lambda>_ _. 0))\<lparr>pool := b\<rparr>, sw = s\<rparr>, px = anon_px\<rparr>"
  have "frame_upd 3 (\<lambda>p. p\<lparr>PageLocked := True\<rparr>) s = empty_swaps"
  proof -
    have l: "(frames empty_swaps 3)\<lparr>PageLocked := True\<rparr> = frames empty_swaps 3" using empty_cache(4) [of 3] by (simp add: plain_page_def)
    have "frame_upd 3 (\<lambda>p. p\<lparr>PageLocked := True\<rparr>) s = empty_swaps\<lparr>frames := (frames empty_swaps)(3 := (frames empty_swaps 3)\<lparr>PageLocked := True\<rparr>)\<rparr>"
      by (simp add: s_def frame_upd_def)
    then show ?thesis by (simp only: l fun_upd_triv) simp
  qed
  then have "mc (v_frame 3 (\<lambda>p. p\<lparr>PageLocked := True\<rparr>) v) = \<lparr>nd = (ideal_node (\<lambda>_ _. 0))\<lparr>pool := b\<rparr>, sw = empty_swaps\<rparr>"
    by (simp add: v_def v_frame_def)
  then have o: "out_ready ideal_host 3 (mc (v_frame 3 (\<lambda>p. p\<lparr>PageLocked := True\<rparr>) v))"
    using ideal_out [OF ideal_host(2,5), of b "\<lambda>_ _. 0"] by simp
  have "cache_inv std_h s = cache_inv std_h empty_swaps" by (rule cache_inv_same) (simp_all add: s_def frame_upd_def)
  moreover have "cached_page std_h x s = cached_page std_h x empty_swaps" for x by (rule cached_same) (simp add: s_def frame_upd_def)
  ultimately have c: "cache_ready std_h x s" for x using ideal_cache(1) [of x] by (simp add: cache_ready_def) (simp add: s_def frame_upd_def)
  have a: "no_areas (sw (mc v))" by (simp add: v_def no_areas_def s_def frame_upd_def empty_swaps_def small_swaps_def)
  have p: "\<not> PageLocked (v_page 3 v)" "\<not> PageWriteback (v_page 3 v)" "PageAnon (px v 3)" "\<not> PageActive (px v 3)" "\<not> page_has_private (px v 3)"
    using empty_cache(4) [of 3] by (simp_all add: v_def v_page_def s_def frame_upd_def anon_px_def plain_page_def)
  have n: "own_ok id (nd (mc v))" "pool_free (nd (mc v)) = {900}" "pool_free (nd (mc v)) \<noteq> {}" using b by (simp_all add: v_def)
  have h: "linux_swap_h (hdr ideal_host)" "roomy (ksv ideal_host)" using std_h_linux by simp_all
  have cs: "\<forall>p. cache_ready (hdr ideal_host) (swp_entry (hdr ideal_host) 9 (word_of_int p)) (sw (mc v))" using c by (simp add: v_def)
  have mp: "\<forall>w. PageSwapCache (v_page 3 w) \<longrightarrow> page_mapping ideal_aops 3 w = Some 0" using ideal_scan(3) by blast
  from reclaim_then_read [OF h n(1,3) a o cs p ideal_scan(1,2) mp, of no_counts]
  obtain c' w e where "reclaim_page ideal_host ideal_aops ideal_scan False 3 no_counts v = Some (free_it, c', w)" "pool_free (nd (mc w)) = {}"
      "fresh_frame ideal_host 9 (sw (mc w)) \<longrightarrow> (\<exists>u. read_swap_cache_async ideal_host e (mc w) = Some (Some 9, u))"
    using n(2) by auto blast
  then show ?thesis using n(2) by blast
qed

end
