(* ===== verification/Comex_Exit.thy ===== *)
theory Comex_Exit
  imports Comex_Tables Comex_Shrink
begin

text \<open>
  Page tables whose entries name pages of the node's own pool: what an exit gives back, and what a fork
  makes of it.
\<close>

section \<open>Ranges of own entries\<close>

text \<open>\<open>f x\<close> is the page of the pool behind address \<open>x\<close>, if there is one.\<close>

fun own_pte :: "swap_h \<Rightarrow> int option \<Rightarrow> pte" where
  "own_pte K None = Pte_none"
| "own_pte K (Some p) = Pte_swap (swp_entry K 9 (word_of_int p))"

definition own_range :: "swap_h \<Rightarrow> (int \<Rightarrow> int option) \<Rightarrow> int \<Rightarrow> int \<Rightarrow> mm_struct \<Rightarrow> bool" where
  "own_range K f a till mm \<longleftrightarrow> (\<forall>x. a \<le> x \<longrightarrow> x < till \<longrightarrow> ptes mm x = own_pte K (f x))"

definition held :: "(int \<Rightarrow> int option) \<Rightarrow> int \<Rightarrow> int \<Rightarrow> int set" where
  "held f a till = (\<Union>x\<in>{a..<till}. set_option (f x))"

text \<open>The pages named in a range are lent out, and no two addresses name the same.\<close>

definition held_ok :: "(int \<Rightarrow> int option) \<Rightarrow> int \<Rightarrow> int \<Rightarrow> 'r node \<Rightarrow> bool" where
  "held_ok f a till s \<longleftrightarrow> (\<forall>x p. a \<le> x \<longrightarrow> x < till \<longrightarrow> f x = Some p \<longrightarrow> 0 \<le> p \<and> p < pool_total s \<and> p \<notin> pool_free s \<and>
     (\<forall>y. a \<le> y \<longrightarrow> y < till \<longrightarrow> f y = Some p \<longrightarrow> y = x))"

definition with_pool :: "comex_buddy \<Rightarrow> ('r, 'k) vm \<Rightarrow> ('r, 'k) vm" where
  "with_pool b v = v\<lparr>mc := (mc v)\<lparr>nd := (nd (mc v))\<lparr>pool := b\<rparr>\<rparr>\<rparr>"

definition cleared :: "int \<Rightarrow> int \<Rightarrow> mm_struct \<Rightarrow> mm_struct" where
  "cleared a till mm = mm\<lparr>ptes := (\<lambda>x. if a \<le> x \<and> x < till then Pte_none else ptes mm x)\<rparr>"

lemma with_pool [simp]:
  "with_pool b (with_pool c v) = with_pool b v" "nd (mc (with_pool b v)) = (nd (mc v))\<lparr>pool := b\<rparr>" "with_pool (pool (nd (mc v))) v = v"
  by (simp_all add: with_pool_def)

lemma rss_none [simp]: "add_mm_rss_vec init_rss_vec mm = mm"
  by (simp add: add_mm_rss_vec_def init_rss_vec_def)

lemma held_empty [simp]: "held f a a = {}"
  by (simp add: held_def)

lemma range_step: "a < till \<Longrightarrow> {a..<till} = insert a {a + 1..<till :: int}"
  by auto

lemma held_step: "a < till \<Longrightarrow> held f a till = set_option (f a) \<union> held f (a + 1) till"
  by (simp add: held_def range_step)

lemma held_ok_next:
  assumes "held_ok f a till s" and "a < till" and "pool_total t = pool_total s" and "pool_free t = pool_free s \<union> set_option (f a)"
  shows "held_ok f (a + 1) till t"
proof -
  have "0 \<le> p \<and> p < pool_total t \<and> p \<notin> pool_free t \<and> (\<forall>y. a + 1 \<le> y \<longrightarrow> y < till \<longrightarrow> f y = Some p \<longrightarrow> y = x)"
    if x: "a + 1 \<le> x" "x < till" "f x = Some p" for x p
  proof -
    have ax: "a \<le> x" using x by simp
    note * = assms(1) [unfolded held_ok_def, rule_format, OF ax x(2,3)]
    have same: "y = x" if "a \<le> y" "y < till" "f y = Some p" for y using * that by blast
    have p: "0 \<le> p" "p < pool_total s" "p \<notin> pool_free s" using * by blast+
    have "f a \<noteq> Some p" using same [of a] x(1) assms(2) by linarith
    then have "p \<notin> pool_free t" using p(3) assms(4) by (cases "f a") simp_all
    moreover have "\<forall>y. a + 1 \<le> y \<longrightarrow> y < till \<longrightarrow> f y = Some p \<longrightarrow> y = x"
    proof (intro allI impI)
      fix y assume "a + 1 \<le> y" "y < till" "f y = Some p"
      then show "y = x" by (intro same) linarith
    qed
    moreover have "p < pool_total t" using p(2) assms(3) by simp
    ultimately show ?thesis using p(1) by (intro conjI)
  qed
  then show ?thesis unfolding held_ok_def by blast
qed

section \<open>Exit\<close>

lemma zap_own_entry:
  assumes "linux_swap_h (hdr (host_of T))" and "pool_ok (nd (mc (z_vm z)))" and "0 \<le> p" and "p < pool_total (nd (mc (z_vm z)))"
    and "pool_total (nd (mc (z_vm z))) \<le> 2 ^ 31" and "p \<notin> pool_free (nd (mc (z_vm z)))"
  shows "\<exists>b. zap_entry T (swp_entry (hdr (host_of T)) 9 (word_of_int p)) z = Some (z\<lparr>z_vm := with_pool b (z_vm z)\<rparr>) \<and>
    pool_ok ((nd (mc (z_vm z)))\<lparr>pool := b\<rparr>) \<and> pool_total ((nd (mc (z_vm z)))\<lparr>pool := b\<rparr>) = pool_total (nd (mc (z_vm z))) \<and>
    pool_free ((nd (mc (z_vm z)))\<lparr>pool := b\<rparr>) = insert p (pool_free (nd (mc (z_vm z))))"
proof -
  have pb: "p < 2 ^ 31" using assms by simp
  note E = entry_9 [OF assms(1,3) pb]
  let ?s = "nd (mc (z_vm z))"
  obtain s' where s': "node_free p 0 ?s = Some s'" "pool_ok s'" "pool_total s' = pool_total ?s" "pool_free s' = pool_free ?s \<union> {p}"
    using npool.release [OF assms(2), of 0 p] assms by auto
  obtain b where b: "s' = ?s\<lparr>pool := b\<rparr>" using s'(1) by (auto simp: node_free_def split: bind_splits)
  have "zap_entry T (swp_entry (hdr (host_of T)) 9 (word_of_int p)) z = Some (z\<lparr>z_vm := with_pool b (z_vm z)\<rparr>)"
    using s'(1) E by (simp add: zap_entry_def Let_def on_nd_def nd_do_def b with_pool_def)
  then show ?thesis using s' b by (intro exI [of _ b]) simp
qed

lemma zap_own_loop:
  assumes K: "linux_swap_h (hdr (host_of T))" and "a < till"
    and "pool_ok (nd (mc (z_vm z)))" and "pool_total (nd (mc (z_vm z))) \<le> 2 ^ 31"
    and "own_range (hdr (host_of T)) f a till (z_mm z)" and "held_ok f a till (nd (mc (z_vm z)))"
  shows "\<exists>b. zap_loop T vf None a till z = Some (False, till, z\<lparr>z_mm := cleared a till (z_mm z), z_vm := with_pool b (z_vm z)\<rparr>) \<and>
    pool_ok ((nd (mc (z_vm z)))\<lparr>pool := b\<rparr>) \<and> pool_total ((nd (mc (z_vm z)))\<lparr>pool := b\<rparr>) = pool_total (nd (mc (z_vm z))) \<and>
    pool_free ((nd (mc (z_vm z)))\<lparr>pool := b\<rparr>) = pool_free (nd (mc (z_vm z))) \<union> held f a till"
  using assms(2-)
proof (induction "nat (till - a)" arbitrary: a z rule: less_induct)
  case less
  let ?s = "nd (mc (z_vm z))"
  have at: "ptes (z_mm z) a = own_pte (hdr (host_of T)) (f a)" using less.prems by (simp add: own_range_def)
  obtain b where b: "zap_one T vf None a z = Some (False, z\<lparr>z_mm := cleared a (a + 1) (z_mm z), z_vm := with_pool b (z_vm z)\<rparr>)"
    "pool_ok (?s\<lparr>pool := b\<rparr>)" "pool_total (?s\<lparr>pool := b\<rparr>) = pool_total ?s"
    "pool_free (?s\<lparr>pool := b\<rparr>) = pool_free ?s \<union> set_option (f a)"
  proof (cases "f a")
    case None
    have "(\<lambda>x. if a \<le> x \<and> x < a + 1 then Pte_none else ptes (z_mm z) x) = ptes (z_mm z)"
      using at None by (auto simp: fun_eq_iff)
    then have "zap_one T vf None a z = Some (False, z\<lparr>z_mm := cleared a (a + 1) (z_mm z), z_vm := with_pool (pool ?s) (z_vm z)\<rparr>)"
      using at None by (simp add: zap_one_def cleared_def)
    then show thesis using that [of "pool ?s"] None less.prems by simp
  next
    case (Some p)
    have p: "0 \<le> p" "p < pool_total ?s" "p \<notin> pool_free ?s" using less.prems Some by (auto simp: held_ok_def)
    obtain b where b: "zap_entry T (swp_entry (hdr (host_of T)) 9 (word_of_int p)) z = Some (z\<lparr>z_vm := with_pool b (z_vm z)\<rparr>)"
      "pool_ok (?s\<lparr>pool := b\<rparr>)" "pool_total (?s\<lparr>pool := b\<rparr>) = pool_total ?s" "pool_free (?s\<lparr>pool := b\<rparr>) = insert p (pool_free ?s)"
      using zap_own_entry [OF K less.prems(2) p(1,2) less.prems(3) p(3)] by blast
    have "(\<lambda>x. if a \<le> x \<and> x < a + 1 then Pte_none else ptes (z_mm z) x) = (ptes (z_mm z))(a := Pte_none)"
      by (auto simp: fun_eq_iff)
    then show thesis using that [of b] b at Some by (simp add: zap_one_def z_set_def set_pte_at_def cleared_def)
  qed
  let ?z = "z\<lparr>z_mm := cleared a (a + 1) (z_mm z), z_vm := with_pool b (z_vm z)\<rparr>"
  show ?case
  proof (cases "a + 1 = till")
    case True
    then show ?thesis using b held_step [of a till f] less.prems(1)
      by (intro exI [of _ b]) (subst zap_loop.simps, simp)
  next
    case False
    have own: "own_range (hdr (host_of T)) f (a + 1) till (z_mm ?z)"
      using less.prems(4) by (simp add: own_range_def cleared_def)
    have ok: "held_ok f (a + 1) till (nd (mc (z_vm ?z)))"
      using held_ok_next [OF less.prems(5,1) b(3,4)] by simp
    obtain c where c: "zap_loop T vf None (a + 1) till ?z =
        Some (False, till, ?z\<lparr>z_mm := cleared (a + 1) till (z_mm ?z), z_vm := with_pool c (z_vm ?z)\<rparr>)"
      "pool_ok ((nd (mc (z_vm ?z)))\<lparr>pool := c\<rparr>)" "pool_total ((nd (mc (z_vm ?z)))\<lparr>pool := c\<rparr>) = pool_total (nd (mc (z_vm ?z)))"
      "pool_free ((nd (mc (z_vm ?z)))\<lparr>pool := c\<rparr>) = pool_free (nd (mc (z_vm ?z))) \<union> held f (a + 1) till"
      using less.hyps [of "a + 1" ?z] False less.prems(1,3) b(2,3) own ok by auto
    have "cleared (a + 1) till (cleared a (a + 1) (z_mm z)) = cleared a till (z_mm z)"
      using False less.prems(1) by (auto simp: cleared_def fun_eq_iff)
    moreover have "zap_loop T vf None a till z = zap_loop T vf None (a + 1) till ?z"
      by (subst zap_loop.simps) (simp add: b(1) False)
    moreover have "held f a till = set_option (f a) \<union> held f (a + 1) till" by (rule held_step [OF less.prems(1)])
    ultimately show ?thesis using c b(3,4) by (intro exI [of _ c]) (simp add: Un_assoc)
  qed
qed

lemma zap_own_range:
  assumes "linux_swap_h (hdr (host_of T))" and "a < till"
    and "pool_ok (nd (mc v))" and "pool_total (nd (mc v)) \<le> 2 ^ 31"
    and "own_range (hdr (host_of T)) f a till mm" and "held_ok f a till (nd (mc v))"
  obtains b where "zap_pte_range T vf None a till tlb mm v = Some (till, tlb, cleared a till mm, with_pool b v)"
    and "pool_ok ((nd (mc v))\<lparr>pool := b\<rparr>)" and "pool_total ((nd (mc v))\<lparr>pool := b\<rparr>) = pool_total (nd (mc v))"
    and "pool_free ((nd (mc v))\<lparr>pool := b\<rparr>) = pool_free (nd (mc v)) \<union> held f a till"
proof -
  let ?z = "\<lparr>z_mm = mm, z_rss = init_rss_vec, z_tlb = tlb, z_vm = v\<rparr>"
  obtain b where "zap_loop T vf None a till ?z = Some (False, till, ?z\<lparr>z_mm := cleared a till mm, z_vm := with_pool b v\<rparr>)"
    "pool_ok ((nd (mc v))\<lparr>pool := b\<rparr>)" "pool_total ((nd (mc v))\<lparr>pool := b\<rparr>) = pool_total (nd (mc v))"
    "pool_free ((nd (mc v))\<lparr>pool := b\<rparr>) = pool_free (nd (mc v)) \<union> held f a till"
    using zap_own_loop [of T a till ?z f vf] assms by auto
  then show thesis by (intro that [of b]) (subst zap_pte_range.simps, simp_all)
qed

section \<open>Fork\<close>

definition named :: "(int \<Rightarrow> int option) \<Rightarrow> int \<Rightarrow> int \<Rightarrow> int" where
  "named f a till = (\<Sum>x\<in>{a..<till}. if f x = None then 0 else 1)"

definition over :: "swap_h \<Rightarrow> int option \<Rightarrow> pte \<Rightarrow> pte" where
  "over K p old = (if p = None then old else own_pte K p)"

definition filled :: "swap_h \<Rightarrow> (int \<Rightarrow> int option) \<Rightarrow> int \<Rightarrow> int \<Rightarrow> mm_struct \<Rightarrow> mm_struct" where
  "filled K f a till mm = mm\<lparr>ptes := (\<lambda>x. if a \<le> x \<and> x < till then over K (f x) (ptes mm x) else ptes mm x),
     on_mmlist := on_mmlist mm \<or> named f a till > 0\<rparr>"

lemma named_pos: "0 \<le> named f a b"
  by (simp add: named_def sum_nonneg)

lemma named_empty [simp]: "named f a a = 0"
  by (simp add: named_def)

lemma named_one: "named f a (a + 1) = (if f a = None then 0 else 1)"
  by (simp add: named_def range_step)

lemma named_split:
  assumes "a \<le> b" and "b \<le> c"
  shows "named f a c = named f a b + named f b c"
proof -
  have "{a..<c} = {a..<b} \<union> {b..<c}" using assms by auto
  then show ?thesis by (simp add: named_def sum.union_disjoint)
qed

lemma filled_empty [simp]: "filled K f a a mm = mm"
proof -
  have "(\<lambda>x. if a \<le> x \<and> x < a then over K (f x) (ptes mm x) else ptes mm x) = ptes mm" by (auto simp: fun_eq_iff)
  then show ?thesis by (simp add: filled_def)
qed

lemma filled_split:
  assumes "a \<le> b" and "b \<le> c"
  shows "filled K f b c (filled K f a b mm) = filled K f a c mm"
  using assms named_split [OF assms, of f] named_pos [of f a b] named_pos [of f b c]
  by (intro mm_struct.equality) (auto simp: filled_def fun_eq_iff)

lemma filled_swapents [simp]:
  "filled K f a b (mm\<lparr>mm_swapents := n\<rparr>) = (filled K f a b mm)\<lparr>mm_swapents := n\<rparr>" "mm_swapents (filled K f a b mm) = mm_swapents mm"
  by (simp_all add: filled_def cong: if_cong)

lemma dup_own:
  assumes "linux_swap_h K" and "0 \<le> p" and "p < 2 ^ 31"
  shows "swap_duplicate K X (swp_entry K 9 (word_of_int p)) s = Some (0, s)"
proof -
  note E = entry_9 [OF assms]
  have "swap_duplicate_usage K (swp_entry K 9 (word_of_int p)) 1 s = Some (0, s)"
    using E by (intro comex_uncounted) simp_all
  then show ?thesis by (subst swap_duplicate.simps) (simp add: errnos)
qed

lemma copy_own_entry:
  assumes "linux_swap_h (hdr (host_of T))" and "0 \<le> p" and "p < 2 ^ 31"
  shows "copy_entry T vf x (swp_entry (hdr (host_of T)) 9 (word_of_int p)) c =
    Some (True, swp_entry (hdr (host_of T)) 9 (word_of_int p), c\<lparr>c_dst := (c_dst c)\<lparr>on_mmlist := True\<rparr>, c_rss := add_swapents 1 (c_rss c)\<rparr>)"
  using entry_9 [OF assms] dup_own [OF assms, of "ksv (host_of T)" "sw (mc (c_vm c))"]
  by (simp add: copy_entry_def Let_def on_sw_def sw_get_def)

definition pages_small :: "(int \<Rightarrow> int option) \<Rightarrow> bool" where
  "pages_small f \<longleftrightarrow> (\<forall>x p. f x = Some p \<longrightarrow> 0 \<le> p \<and> p < 2 ^ 31)"

lemma add_swapents_simps [simp]: "add_swapents 0 r = r" "add_swapents i (add_swapents j r) = add_swapents (j + i) r"
  by (simp_all add: add_swapents_def)

lemma add_swapents_init: "add_mm_rss_vec (add_swapents n init_rss_vec) mm = mm\<lparr>mm_swapents := mm_swapents mm + n\<rparr>"
  by (simp add: add_swapents_def init_rss_vec_def add_mm_rss_vec_def)

lemma copy_own_step:
  assumes "linux_swap_h (hdr (host_of T))" and "pages_small f" and "f a = Some p" and "ptes (c_src c) a = own_pte (hdr (host_of T)) (f a)"
  shows "copy_one_pte T vf a c = Some (0, c\<lparr>c_dst := filled (hdr (host_of T)) f a (a + 1) (c_dst c), c_rss := add_swapents (named f a (a + 1)) (c_rss c)\<rparr>)"
proof -
  have p: "0 \<le> p" "p < 2 ^ 31" using assms(2,3) by (auto simp: pages_small_def)
  have "(c_dst c)\<lparr>on_mmlist := True, ptes := (ptes (c_dst c))(a := own_pte (hdr (host_of T)) (Some p))\<rparr> =
      filled (hdr (host_of T)) f a (a + 1) (c_dst c)"
    using assms(3) by (intro mm_struct.equality) (auto simp: filled_def over_def named_one fun_eq_iff)
  then show ?thesis using assms(3,4) copy_own_entry [OF assms(1) p]
    by (simp add: copy_one_pte_def named_one set_pte_at_def)
qed

lemma copy_own_loop:
  assumes "linux_swap_h (hdr (host_of T))" and "pages_small f" and "a < till" and "own_range (hdr (host_of T)) f a till (c_src c)"
  shows "\<exists>a' r. copy_loop T vf a till progress c = Some (0, a', r, c\<lparr>c_dst := filled (hdr (host_of T)) f a a' (c_dst c),
      c_rss := add_swapents (named f a a') (c_rss c)\<rparr>) \<and> a \<le> a' \<and> a' \<le> till \<and> (progress < 32 \<longrightarrow> a < a') \<and> (a' < till \<longrightarrow> r = 0)"
  using assms(3-)
proof (induction "nat (till - a)" arbitrary: a progress c rule: less_induct)
  case less
  let ?K = "hdr (host_of T)"
  let ?to = "\<lambda>b c. c\<lparr>c_dst := filled ?K f a b (c_dst c), c_rss := add_swapents (named f a b) (c_rss c)\<rparr>"
  have at: "ptes (c_src c) a = own_pte ?K (f a)" using less.prems by (simp add: own_range_def)
  have stay: "?to a c = c" by simp
  show ?case
  proof (cases "32 \<le> progress \<and> need_resched T (c_vm c)")
    case True
    then show ?thesis using stay less.prems(1) by (intro exI [of _ a] exI [of _ 0]) (subst copy_loop.simps, simp)
  next
    case False
    define r where "r = (if 32 \<le> progress then 0 else progress) + (if f a = None then 1 else 8)"
    have step: "copy_loop T vf a till progress c =
        (if a + 1 \<noteq> till then copy_loop T vf (a + 1) till r (?to (a + 1) c) else Some (0, a + 1, r, ?to (a + 1) c))"
    proof (cases "f a")
      case None
      then have "filled ?K f a (a + 1) (c_dst c) = c_dst c"
        by (intro mm_struct.equality) (auto simp: filled_def over_def named_one fun_eq_iff)
      then have "?to (a + 1) c = c" using None by (simp add: named_one)
      moreover have "ptes (c_src c) a = Pte_none" using None at by simp
      ultimately show ?thesis
        by (subst copy_loop.simps, subst if_not_P [OF False]) (simp add: None r_def Let_def split del: if_split cong: if_cong)
    next
      case (Some p)
      then have "ptes (c_src c) a \<noteq> Pte_none" using at by simp
      then show ?thesis using copy_own_step [OF assms(1,2) Some at, of vf]
        by (subst copy_loop.simps, subst if_not_P [OF False]) (simp add: Some r_def Let_def split del: if_split cong: if_cong)
    qed
    show ?thesis
    proof (cases "a + 1 = till")
      case True
      then show ?thesis using step by (intro exI [of _ till] exI [of _ r]) simp
    next
      case more: False
      have "own_range ?K f (a + 1) till (c_src (?to (a + 1) c))" using less.prems(2) by (simp add: own_range_def)
      then obtain b q where "copy_loop T vf (a + 1) till r (?to (a + 1) c) = Some (0, b, q, (?to (a + 1) c)\<lparr>
          c_dst := filled ?K f (a + 1) b (c_dst (?to (a + 1) c)), c_rss := add_swapents (named f (a + 1) b) (c_rss (?to (a + 1) c))\<rparr>)"
        "a + 1 \<le> b" "b \<le> till" "b < till \<longrightarrow> q = 0"
        using less.hyps [of "a + 1" "?to (a + 1) c" r] more less.prems(1) by auto
      then show ?thesis using step more named_split [of a "a + 1" b f] filled_split [of a "a + 1" b]
        by (intro exI [of _ b] exI [of _ q]) simp
    qed
  qed
qed

text \<open>The table of the child is made when it is not there; for that there has to be memory.\<close>

definition with_table :: "('r, 'k) tables \<Rightarrow> int \<Rightarrow> mm_struct \<Rightarrow> mm_struct" where
  "with_table T pmd mm = (if pmds mm pmd = Px_none then pmd_populate T pmd (mm\<lparr>nr_ptes := nr_ptes mm + 1\<rparr>) else mm)"

lemma with_table_simps [simp]: "pmds (with_table T i mm) i \<noteq> Px_none" "pmds mm i \<noteq> Px_none \<Longrightarrow> with_table T i mm = mm"
  "ptes mm x = Pte_none \<Longrightarrow> ptes (with_table T i mm) x = Pte_none" "mm_swapents (with_table T i mm) = mm_swapents mm"
  by (simp_all add: with_table_def pmd_populate_def)

lemma pte_alloc_map_ok: "pte_alloc_one T v = (True, v) \<Longrightarrow> pte_alloc_map T i mm v = (0, with_table T i mm, v)"
  by (simp add: pte_alloc_map_def u_pte_alloc_def with_table_def)

lemma copy_own_made:
  assumes K: "linux_swap_h (hdr (host_of T))" and "pages_small f" and "pmds dst i \<noteq> Px_none"
    and "a < till" and "own_range (hdr (host_of T)) f a till src"
  shows "copy_pte_range T vf i a till 0 dst src v = Some (0, (filled (hdr (host_of T)) f a till dst)
    \<lparr>mm_swapents := mm_swapents dst + named f a till\<rparr>, src, v)"
  using assms(3-)
proof (induction "nat (till - a)" arbitrary: a dst rule: less_induct)
  case less
  let ?K = "hdr (host_of T)" and ?c = "\<lparr>c_dst = dst, c_src = src, c_rss = init_rss_vec, c_vm = v\<rparr>"
  have "own_range ?K f a till (c_src ?c)" using less.prems(3) by simp
  then obtain b r where b: "copy_loop T vf a till 0 ?c = Some (0, b, r, ?c\<lparr>c_dst := filled ?K f a b dst,
      c_rss := add_swapents (named f a b) init_rss_vec\<rparr>)" "b \<le> till" "a < b" "b < till \<longrightarrow> r = 0"
    using copy_own_loop [OF K assms(2) less.prems(2), of ?c vf 0] by auto
  let ?d = "(filled ?K f a b dst)\<lparr>mm_swapents := mm_swapents dst + named f a b\<rparr>"
  have step: "copy_pte_range T vf i a till 0 dst src v = (if b \<noteq> till then copy_pte_range T vf i b till r ?d src v else Some (0, ?d, src, v))"
    using less.prems(1) b(1) by (subst copy_pte_range.simps) (simp add: pte_alloc_map_def add_swapents_init Let_def cong: if_cong)
  show ?case
  proof (cases "b = till")
    case True
    then show ?thesis using step by simp
  next
    case False
    then have "copy_pte_range T vf i b till 0 ?d src v = Some (0, (filled ?K f b till ?d)\<lparr>mm_swapents := mm_swapents ?d + named f b till\<rparr>, src, v)"
      using less.hyps [of b ?d] less.prems b by (auto simp: own_range_def filled_def)
    moreover have "(filled ?K f b till ?d)\<lparr>mm_swapents := mm_swapents ?d + named f b till\<rparr> =
        (filled ?K f a till dst)\<lparr>mm_swapents := mm_swapents dst + named f a till\<rparr>"
      using filled_split [of a b till ?K f dst] named_split [of a b till f] b False by simp
    ultimately show ?thesis using step False b by simp
  qed
qed

lemma copy_own_range:
  assumes K: "linux_swap_h (hdr (host_of T))" and "pages_small f" and "pte_alloc_one T v = (True, v)"
    and "a < till" and "own_range (hdr (host_of T)) f a till src"
  shows "copy_pte_range T vf i a till 0 dst src v = Some (0, (filled (hdr (host_of T)) f a till (with_table T i dst))
    \<lparr>mm_swapents := mm_swapents dst + named f a till\<rparr>, src, v)"
proof -
  have "copy_pte_range T vf i a till 0 dst src v = copy_pte_range T vf i a till 0 (with_table T i dst) src v"
    by (subst (1 2) copy_pte_range.simps) (simp add: pte_alloc_map_ok [OF assms(3)])
  then show ?thesis using copy_own_made [of T f "with_table T i dst" i a till src vf v] assms by simp
qed

section \<open>Together\<close>

text \<open>
  An exit gives back every page of the own pool that the range names, exactly once, clears the range and
  touches nothing else; in particular the number of swap entries of the task, which a fork and a fault
  count, is not lowered.
\<close>

theorem exit_frees_own_pages:
  assumes "linux_swap_h (hdr (host_of T))" and "a < till"
    and "pool_ok (nd (mc v))" and "pool_total (nd (mc v)) \<le> 2 ^ 31"
    and "own_range (hdr (host_of T)) f a till mm" and "held_ok f a till (nd (mc v))"
  shows "\<exists>b. zap_pte_range T vf None a till tlb mm v = Some (till, tlb, cleared a till mm, with_pool b v) \<and>
    pool_ok ((nd (mc v))\<lparr>pool := b\<rparr>) \<and> pool_total ((nd (mc v))\<lparr>pool := b\<rparr>) = pool_total (nd (mc v)) \<and>
    pool_free ((nd (mc v))\<lparr>pool := b\<rparr>) = pool_free (nd (mc v)) \<union> held f a till"
proof -
  obtain b where "zap_pte_range T vf None a till tlb mm v = Some (till, tlb, cleared a till mm, with_pool b v)"
    "pool_ok ((nd (mc v))\<lparr>pool := b\<rparr>)" "pool_total ((nd (mc v))\<lparr>pool := b\<rparr>) = pool_total (nd (mc v))"
    "pool_free ((nd (mc v))\<lparr>pool := b\<rparr>) = pool_free (nd (mc v)) \<union> held f a till"
    by (rule zap_own_range [OF assms])
  then show ?thesis by (intro exI [of _ b]) simp
qed

lemma exit_twice:
  assumes "linux_swap_h (hdr (host_of T))" and "pool_ok (nd (mc v))" and "pool_total (nd (mc v)) \<le> 2 ^ 31"
    and "ptes mm x = own_pte (hdr (host_of T)) (Some p)" and "p \<in> pool_free (nd (mc v))"
  shows "\<exists>c. zap_pte_range T vf None x (x + 1) tlb mm v = Some (x + 1, tlb, set_pte_at x Pte_none mm, with_pool c v) \<and>
    CMX_cntr (pages c p) = -1 \<and> \<not> pool_ok (nd (mc (with_pool c v)))"
proof -
  have p: "0 \<le> p" "p < pool_total (nd (mc v))" using npool.range [OF assms(2)] assms(5) by auto
  then have pb: "p < 2 ^ 31" using assms(3) by simp
  note E = entry_9 [OF assms(1) p(1) pb]
  have i: "buddy_inv (pool (nd (mc v)))" "p \<in> free_set (pool (nd (mc v)))"
    using assms(2,5) by (simp_all add: pool_ok_def pool_free_def)
  obtain c where c: "COMEX_free_page p 0 (pool (nd (mc v))) = Some c" "CMX_cntr (pages c p) = -1" "\<not> buddy_inv c"
    using free_twice [OF i] by blast
  let ?z = "\<lparr>z_mm = mm, z_rss = init_rss_vec, z_tlb = tlb, z_vm = v\<rparr>"
  have "zap_entry T (swp_entry (hdr (host_of T)) 9 (word_of_int p)) ?z = Some (?z\<lparr>z_vm := with_pool c v\<rparr>)"
    using c(1) E by (simp add: zap_entry_def Let_def on_nd_def nd_do_def node_free_def with_pool_def)
  then have "zap_loop T vf None x (x + 1) ?z = Some (False, x + 1, ?z\<lparr>z_mm := set_pte_at x Pte_none mm, z_vm := with_pool c v\<rparr>)"
    using assms(4) by (subst zap_loop.simps) (simp add: zap_one_def z_set_def)
  then have "zap_pte_range T vf None x (x + 1) tlb mm v = Some (x + 1, tlb, set_pte_at x Pte_none mm, with_pool c v)"
    by (subst zap_pte_range.simps) simp
  then show ?thesis using c(2,3) by (intro exI [of _ c]) (simp add: pool_ok_def)
qed

lemma filled_own:
  assumes "\<And>x. a \<le> x \<Longrightarrow> x < till \<Longrightarrow> ptes mm x = Pte_none"
  shows "own_range K f a till (filled K f a till mm)"
proof -
  have "over K (f x) Pte_none = own_pte K (f x)" for x by (cases "f x") (simp_all add: over_def)
  then show ?thesis using assms by (simp add: own_range_def filled_def)
qed

text \<open>
  A fork copies the entries of COMEX without counting them.  When the child exits, every page of the pool
  that the range of the parent still names is free; the exit of the parent then gives such a page back a
  second time, which leaves its counter at \<open>-1\<close> and the pool ill-formed.
\<close>

theorem fork_then_exits:
  assumes "linux_swap_h (hdr (host_of T))" and "pages_small f" and "pte_alloc_one T v = (True, v)"
    and "pool_ok (nd (mc v))" and "pool_total (nd (mc v)) \<le> 2 ^ 31" and "held_ok f a till (nd (mc v))"
    and "own_range (hdr (host_of T)) f a till src" and "\<And>y. a \<le> y \<Longrightarrow> y < till \<Longrightarrow> ptes dst y = Pte_none"
    and "a \<le> x" and "x < till" and "f x = Some p"
  shows "\<exists>dst' dst'' b c. copy_pte_range T vf i a till 0 dst src v = Some (0, dst', src, v) \<and>
    zap_pte_range T vf None a till tlb dst' v = Some (till, tlb, dst'', with_pool b v) \<and>
    pool_ok (nd (mc (with_pool b v))) \<and> held f a till \<subseteq> pool_free (nd (mc (with_pool b v))) \<and>
    zap_pte_range T vf None x (x + 1) tlb src (with_pool b v) = Some (x + 1, tlb, set_pte_at x Pte_none src, with_pool c v) \<and>
    CMX_cntr (pages c p) = -1 \<and> \<not> pool_ok (nd (mc (with_pool c v)))"
proof -
  let ?K = "hdr (host_of T)"
  define dst' where "dst' = (filled ?K f a till (with_table T i dst))\<lparr>mm_swapents := mm_swapents dst + named f a till\<rparr>"
  have at: "a < till" using assms(9,10) by simp
  have copy: "copy_pte_range T vf i a till 0 dst src v = Some (0, dst', src, v)"
    unfolding dst'_def by (rule copy_own_range [OF assms(1,2,3) at assms(7)])
  have own: "own_range ?K f a till dst'" using filled_own [of a till "with_table T i dst" ?K f] assms(8) by (simp add: own_range_def dst'_def)
  obtain b where b: "zap_pte_range T vf None a till tlb dst' v = Some (till, tlb, cleared a till dst', with_pool b v)"
    "pool_ok ((nd (mc v))\<lparr>pool := b\<rparr>)" "pool_total ((nd (mc v))\<lparr>pool := b\<rparr>) = pool_total (nd (mc v))"
    "pool_free ((nd (mc v))\<lparr>pool := b\<rparr>) = pool_free (nd (mc v)) \<union> held f a till"
    by (rule zap_own_range [OF assms(1) at assms(4,5) own assms(6)])
  have "p \<in> held f a till" using assms(9-11) by (auto simp: held_def intro: bexI [of _ x])
  then have "p \<in> pool_free (nd (mc (with_pool b v)))" using b(4) by simp
  moreover have "ptes src x = own_pte ?K (Some p)" using assms(7,9-11) by (simp add: own_range_def)
  ultimately obtain c where "zap_pte_range T vf None x (x + 1) tlb src (with_pool b v) = Some (x + 1, tlb, set_pte_at x Pte_none src, with_pool c v)"
    "CMX_cntr (pages c p) = -1" "\<not> pool_ok (nd (mc (with_pool c v)))"
    using exit_twice [OF assms(1), of "with_pool b v" src x p vf tlb] b(2,3) assms(5) by auto
  then show ?thesis using copy b by (intro exI [of _ dst'] exI [of _ "cleared a till dst'"] exI [of _ b] exI [of _ c]) simp
qed

section \<open>Witnesses\<close>

definition ideal_tables :: "(int \<Rightarrow> mem, unit) tables" where
  "ideal_tables = \<lparr>PMD_SHIFT = 21, PUD_SHIFT = 30, PGDIR_SHIFT = 39, host_of = ideal_host, aops_of = ideal_aops, highest_memmap_pfn = 4095, is_migration_entry = (\<lambda>_. False),
     is_write_migration_entry = (\<lambda>_. False), migration_entry_to_page = (\<lambda>_. 0), make_migration_entry_read = (\<lambda>e. e),
     raw_mapping = (\<lambda>_. None), page_index = (\<lambda>_. 0), linear_page_index = (\<lambda>x. x), page_dup_rmap = (\<lambda>_ v. v),
     page_remove_rmap = (\<lambda>_ v. v), mark_page_accessed = (\<lambda>_ v. v), get_batch = (\<lambda>v. (True, v)), MAX_GATHER_BATCH = 510,
     LOCAL_GATHER = 8, MAX_GATHER_BATCH_COUNT = 20, PAGEVEC_SIZE = 14, pte_alloc_one = (\<lambda>v. (True, v)), need_resched = (\<lambda>_. True)\<rparr>"

definition private_area :: vma_flags where
  "private_area = \<lparr>VM_SHARED = False, VM_WRITE = True, VM_MAYWRITE = True, VM_PFNMAP = False, VM_MIXEDMAP = False, VM_SequentialReadHint = False\<rparr>"

definition no_mm :: mm_struct where
  "no_mm = \<lparr>pgds = (\<lambda>_. Px_none), puds = (\<lambda>_. Px_none), pmds = (\<lambda>_. Px_none), nr_ptes = 0, ptes = (\<lambda>_. Pte_none), mm_anonpages = 0, mm_filepages = 0, mm_swapents = 0, on_mmlist = False\<rparr>"

definition two_pages :: "int \<Rightarrow> int option" where
  "two_pages x = (if x = 10 then Some 3 else if x = 12 then Some 7 else None)"

definition two_mm :: mm_struct where
  "two_mm = no_mm\<lparr>ptes := (\<lambda>x. own_pte std_h (two_pages x)), mm_swapents := 2\<rparr>"

lemma two_held: "held two_pages 10 14 = {3, 7}"
proof -
  have "{10..<14 :: int} = {10, 11, 12, 13}" by auto
  then show ?thesis by (auto simp: held_def two_pages_def)
qed

lemma ideal_held:
  obtains v :: "(int \<Rightarrow> mem, unit) vm" where "pool_ok (nd (mc v))" and "pool_total (nd (mc v)) \<le> 2 ^ 31" and "pool_free (nd (mc v)) = {900}"
    and "held_ok two_pages 10 14 (nd (mc v))"
proof -
  obtain b where b: "own_ok id ((ideal_node (\<lambda>_ _. 0))\<lparr>pool := b\<rparr>)" "pool_free ((ideal_node (\<lambda>_ _. 0))\<lparr>pool := b\<rparr>) = {900}"
    using ideal_own_exists .
  define v where "v = \<lparr>mc = \<lparr>nd = (ideal_node (\<lambda>_ _. 0))\<lparr>pool := b\<rparr>, sw = empty_swaps\<rparr>, px = anon_px\<rparr>"
  have t: "pool_total (nd (mc v)) = 1024" using b(1) by (simp add: v_def own_ok_def plain_conf_def)
  moreover have "held_ok two_pages 10 14 (nd (mc v))"
    using b(2) t by (auto simp: held_ok_def two_pages_def v_def split: if_splits)
  ultimately show thesis using that [of v] b by (simp add: v_def own_ok_def)
qed

theorem exit_frees_own_pages_witness:
  "\<exists>v b. pool_free (nd (mc v)) = {900} \<and>
     zap_pte_range ideal_tables private_area None 10 14 (tlb_gather_mmu ideal_tables) two_mm v =
       Some (14, tlb_gather_mmu ideal_tables, cleared 10 14 two_mm, with_pool b v) \<and>
     pool_free ((nd (mc v))\<lparr>pool := b\<rparr>) = {900, 3, 7}"
proof -
  obtain v :: "(int \<Rightarrow> mem, unit) vm" where v: "pool_ok (nd (mc v))" "pool_total (nd (mc v)) \<le> 2 ^ 31" "pool_free (nd (mc v)) = {900}"
      "held_ok two_pages 10 14 (nd (mc v))" by (rule ideal_held)
  have K: "linux_swap_h (hdr (host_of ideal_tables))" and o: "own_range (hdr (host_of ideal_tables)) two_pages 10 14 two_mm"
    using std_h_linux by (simp_all add: ideal_tables_def own_range_def two_mm_def)
  have "(10 :: int) < 14" by simp
  from exit_frees_own_pages [OF K this v(1,2) o v(4), of private_area "tlb_gather_mmu ideal_tables"]
  obtain b where "zap_pte_range ideal_tables private_area None 10 14 (tlb_gather_mmu ideal_tables) two_mm v =
       Some (14, tlb_gather_mmu ideal_tables, cleared 10 14 two_mm, with_pool b v)"
    "pool_free ((nd (mc v))\<lparr>pool := b\<rparr>) = {900} \<union> {3, 7}"
    unfolding v(3) two_held by blast
  then show ?thesis using v(3) by (intro exI [of _ v] exI [of _ b]) auto
qed

theorem fork_then_exits_witness:
  "\<exists>v dst' dst'' b c. copy_pte_range ideal_tables private_area 0 10 14 0 no_mm two_mm v = Some (0, dst', two_mm, v) \<and>
     zap_pte_range ideal_tables private_area None 10 14 (tlb_gather_mmu ideal_tables) dst' v =
       Some (14, tlb_gather_mmu ideal_tables, dst'', with_pool b v) \<and>
     {3, 7} \<subseteq> pool_free (nd (mc (with_pool b v))) \<and>
     zap_pte_range ideal_tables private_area None 12 (12 + 1) (tlb_gather_mmu ideal_tables) two_mm (with_pool b v) =
       Some (12 + 1, tlb_gather_mmu ideal_tables, set_pte_at 12 Pte_none two_mm, with_pool c v) \<and>
     CMX_cntr (pages c 7) = -1"
proof -
  obtain v :: "(int \<Rightarrow> mem, unit) vm" where v: "pool_ok (nd (mc v))" "pool_total (nd (mc v)) \<le> 2 ^ 31" "held_ok two_pages 10 14 (nd (mc v))" by (rule ideal_held)
  have K: "linux_swap_h (hdr (host_of ideal_tables))" and o: "own_range (hdr (host_of ideal_tables)) two_pages 10 14 two_mm"
    and a: "pte_alloc_one ideal_tables v = (True, v)"
    using std_h_linux by (simp_all add: ideal_tables_def own_range_def two_mm_def)
  have s: "pages_small two_pages" by (simp add: pages_small_def two_pages_def)
  have n: "ptes no_mm y = Pte_none" for y by (simp add: no_mm_def)
  have x: "(10 :: int) \<le> 12" "(12 :: int) < 14" "two_pages 12 = Some 7" by (simp_all add: two_pages_def)
  from fork_then_exits [OF K s a v o n x, of private_area 0 "tlb_gather_mmu ideal_tables"]
  obtain dst' dst'' b c where "copy_pte_range ideal_tables private_area 0 10 14 0 no_mm two_mm v = Some (0, dst', two_mm, v)"
      "zap_pte_range ideal_tables private_area None 10 14 (tlb_gather_mmu ideal_tables) dst' v =
         Some (14, tlb_gather_mmu ideal_tables, dst'', with_pool b v)"
      "{3, 7} \<subseteq> pool_free (nd (mc (with_pool b v)))"
      "zap_pte_range ideal_tables private_area None 12 (12 + 1) (tlb_gather_mmu ideal_tables) two_mm (with_pool b v) =
         Some (12 + 1, tlb_gather_mmu ideal_tables, set_pte_at 12 Pte_none two_mm, with_pool c v)"
      "CMX_cntr (pages c 7) = -1"
    unfolding two_held by (elim exE conjE) (rule that, assumption+)
  then show ?thesis by (intro exI conjI)
qed

end
