(* ===== verification/Comex_Write.thy ===== *)
theory Comex_Write
  imports Comex_Exit
begin

unbundle bit_operations_syntax

text \<open>
  Writes to pages that are present but write-protected (\<open>do_wp_page\<close> of \<open>memory.c\<close>): an anonymous page that
  nobody else refers to is made writable, a page of a shared file mapping is announced to its owner, and
  every other page is copied.  The first part is what all kinds of faults have in common: the task, the codes
  they return, and what they use of the rest of the kernel.
\<close>

section \<open>Tasks and faults\<close>

definition VM_FAULT_OOM :: int where "VM_FAULT_OOM = 0x0001"
definition VM_FAULT_SIGBUS :: int where "VM_FAULT_SIGBUS = 0x0002"
definition VM_FAULT_MAJOR :: int where "VM_FAULT_MAJOR = 0x0004"
definition VM_FAULT_WRITE :: int where "VM_FAULT_WRITE = 0x0008"
definition VM_FAULT_HWPOISON :: int where "VM_FAULT_HWPOISON = 0x0010"
definition VM_FAULT_HWPOISON_LARGE :: int where "VM_FAULT_HWPOISON_LARGE = 0x0020"
definition VM_FAULT_SIGSEGV :: int where "VM_FAULT_SIGSEGV = 0x0040"
definition VM_FAULT_NOPAGE :: int where "VM_FAULT_NOPAGE = 0x0100"
definition VM_FAULT_LOCKED :: int where "VM_FAULT_LOCKED = 0x0200"
definition VM_FAULT_RETRY :: int where "VM_FAULT_RETRY = 0x0400"

definition VM_FAULT_ERROR :: int where
  "VM_FAULT_ERROR = (VM_FAULT_OOM OR VM_FAULT_SIGBUS OR VM_FAULT_SIGSEGV OR VM_FAULT_HWPOISON OR VM_FAULT_HWPOISON_LARGE)"

lemmas vm_faults = VM_FAULT_OOM_def VM_FAULT_SIGBUS_def VM_FAULT_MAJOR_def VM_FAULT_WRITE_def VM_FAULT_HWPOISON_def
  VM_FAULT_HWPOISON_LARGE_def VM_FAULT_SIGSEGV_def VM_FAULT_NOPAGE_def VM_FAULT_LOCKED_def VM_FAULT_RETRY_def VM_FAULT_ERROR_def

definition FAULT_FLAG_WRITE :: int where "FAULT_FLAG_WRITE = 0x01"
definition FAULT_FLAG_NONLINEAR :: int where "FAULT_FLAG_NONLINEAR = 0x02"
definition FAULT_FLAG_MKWRITE :: int where "FAULT_FLAG_MKWRITE = 0x04"

text \<open>A task: its tables and the rest of the node, which a fault that sleeps lets others change.\<close>

record ('r, 'k) task =
  t_mm :: mm_struct
  t_vm :: "('r, 'k) vm"

text \<open>
  The operations of an area that a file system or a driver gives it (\<open>vm_ops\<close>): \<open>fault\<close> gets the offset in
  the file and the flags and returns a code and a page; \<open>page_mkwrite\<close> gets the page and the flags.  The
  rest of an area that a fault looks at: its neighbours, with their flag to grow.
\<close>

record ('r, 'k) vm_operations =
  op_fault :: "(u64 \<Rightarrow> int \<Rightarrow> ('r, 'k) task \<Rightarrow> int \<times> int \<times> ('r, 'k) task) option"
  op_page_mkwrite :: "(int \<Rightarrow> int \<Rightarrow> ('r, 'k) task \<Rightarrow> int \<times> ('r, 'k) task) option"

record ('r, 'k) vm_area = vma_struct +
  vm_ops :: "('r, 'k) vm_operations option"
  vm_pgoff :: u64
  VM_LOCKED :: bool
  VM_GROWSDOWN :: bool
  VM_GROWSUP :: bool
  vm_prev :: "(u64 \<times> bool) option"
  vm_next :: "(u64 \<times> bool) option"

text \<open>
  What the faults use of the rest of the kernel: poisoned pages, the lock of a page, the copy of a merged
  page, the charge of a memory control group, the making and the updating of a present entry, new and zeroed pages, the
  copy of a page, the reverse map, and the book-keeping of dirty files.
\<close>

record ('r, 'k) fault =
  tables_of :: "('r, 'k) tables"
  is_hwpoison_entry :: "entry \<Rightarrow> bool"
  PageHWPoison :: "int \<Rightarrow> bool"
  migration_entry_wait :: "int \<Rightarrow> ('r, 'k) task \<Rightarrow> ('r, 'k) task"
  lock_page_or_retry :: "int \<Rightarrow> ('r, 'k) task \<Rightarrow> bool \<times> ('r, 'k) task"
  lock_page :: "int \<Rightarrow> ('r, 'k) task \<Rightarrow> ('r, 'k) task"
  wait_on_page_locked :: "int \<Rightarrow> ('r, 'k) task \<Rightarrow> ('r, 'k) task"
  ksm_might_need_to_copy :: "int \<Rightarrow> int \<Rightarrow> ('r, 'k) task \<Rightarrow> int option \<times> ('r, 'k) task"
  mem_cgroup_try_charge_swapin :: "int \<Rightarrow> ('r, 'k) task \<Rightarrow> bool \<times> ('r, 'k) task"
  mem_cgroup_commit_charge_swapin :: "int \<Rightarrow> ('r, 'k) task \<Rightarrow> ('r, 'k) task"
  mem_cgroup_cancel_charge_swapin :: "('r, 'k) task \<Rightarrow> ('r, 'k) task"
  mem_cgroup_newpage_charge :: "int \<Rightarrow> ('r, 'k) task \<Rightarrow> bool \<times> ('r, 'k) task"
  mem_cgroup_uncharge_page :: "int \<Rightarrow> ('r, 'k) task \<Rightarrow> ('r, 'k) task"
  mk_pte :: "int \<Rightarrow> vma_flags \<Rightarrow> pte_t"
  ptep_set_access_flags :: "int \<Rightarrow> pte_t \<Rightarrow> bool \<Rightarrow> mm_struct \<Rightarrow> bool \<times> mm_struct"
  do_page_add_anon_rmap :: "int \<Rightarrow> int \<Rightarrow> bool \<Rightarrow> ('r, 'k) vm \<Rightarrow> ('r, 'k) vm"
  page_add_new_anon_rmap :: "int \<Rightarrow> int \<Rightarrow> ('r, 'k) vm \<Rightarrow> ('r, 'k) vm"
  page_move_anon_rmap :: "int \<Rightarrow> int \<Rightarrow> ('r, 'k) vm \<Rightarrow> ('r, 'k) vm"
  page_add_file_rmap :: "int \<Rightarrow> ('r, 'k) vm \<Rightarrow> ('r, 'k) vm"
  anon_vma_prepare :: "('r, 'k) task \<Rightarrow> bool \<times> ('r, 'k) task"
  my_zero_pfn :: "int \<Rightarrow> int"
  is_zero_pfn :: "int \<Rightarrow> bool"
  alloc_zeroed_page :: "int \<Rightarrow> ('r, 'k) task \<Rightarrow> int option \<times> ('r, 'k) task"
  copy_user_highpage :: "int \<Rightarrow> int \<Rightarrow> ('r, 'k) task \<Rightarrow> ('r, 'k) task"
  copy_from_user_inatomic :: "int \<Rightarrow> int \<Rightarrow> ('r, 'k) task \<Rightarrow> bool \<times> ('r, 'k) task"
  clear_page :: "int \<Rightarrow> ('r, 'k) task \<Rightarrow> ('r, 'k) task"
  munlock_vma_page :: "int \<Rightarrow> ('r, 'k) task \<Rightarrow> ('r, 'k) task"
  file_mapping :: "int \<Rightarrow> ('r, 'k) vm \<Rightarrow> int option"
  balance_dirty_pages_ratelimited :: "int \<Rightarrow> ('r, 'k) task \<Rightarrow> ('r, 'k) task"
  file_update_time :: "('r, 'k) task \<Rightarrow> ('r, 'k) task"

definition host_at :: "('r, 'k) fault \<Rightarrow> ('r, 'k) host" where
  "host_at F = host_of (tables_of F)"

definition maybe_mkwrite :: "pte_t \<Rightarrow> vma_flags \<Rightarrow> pte_t" where
  "maybe_mkwrite p vf = (if VM_WRITE vf then p\<lparr>pte_write := True\<rparr> else p)"

text \<open>An operation of the swap layer, and one of node and swap layer, on a task.\<close>

definition t_sw :: "('k swaps \<Rightarrow> 'k swaps) \<Rightarrow> ('r, 'k) task \<Rightarrow> ('r, 'k) task" where
  "t_sw f t = t\<lparr>t_vm := (t_vm t)\<lparr>mc := (mc (t_vm t))\<lparr>sw := f (sw (mc (t_vm t)))\<rparr>\<rparr>\<rparr>"

definition t_get :: "('k swaps \<Rightarrow> ('a \<times> 'k swaps) option) \<Rightarrow> ('r, 'k) task \<Rightarrow> ('a \<times> ('r, 'k) task) option" where
  "t_get f t = do { (r, v) \<leftarrow> on_sw f (t_vm t); Some (r, t\<lparr>t_vm := v\<rparr>) }"

definition t_mc :: "(('r, 'k) machine \<Rightarrow> ('a \<times> ('r, 'k) machine) option) \<Rightarrow> ('r, 'k) task \<Rightarrow> ('a \<times> ('r, 'k) task) option" where
  "t_mc f t = do { (r, m) \<leftarrow> f (mc (t_vm t)); Some (r, t\<lparr>t_vm := (t_vm t)\<lparr>mc := m\<rparr>\<rparr>) }"

definition frame_of :: "int \<Rightarrow> ('r, 'k) task \<Rightarrow> page_t" where
  "frame_of page t = frames (sw (mc (t_vm t))) page"

definition t_vmf :: "(('r, 'k) vm \<Rightarrow> ('r, 'k) vm) \<Rightarrow> ('r, 'k) task \<Rightarrow> ('r, 'k) task" where
  "t_vmf f t = t\<lparr>t_vm := f (t_vm t)\<rparr>"

text \<open>What the entry of an address is, and whether it still is a given present one.\<close>

definition pte_same :: "int \<Rightarrow> pte_t \<Rightarrow> ('r, 'k) task \<Rightarrow> bool" where
  "pte_same address p t \<longleftrightarrow> ptes (t_mm t) address = Pte_present p"

definition t_pte :: "int \<Rightarrow> pte \<Rightarrow> ('r, 'k) task \<Rightarrow> ('r, 'k) task" where
  "t_pte address p t = t\<lparr>t_mm := set_pte_at address p (t_mm t)\<rparr>"

section \<open>Dirty pages of files\<close>

text \<open>\<open>set_page_dirty_balance\<close> of \<open>page-writeback.c\<close>.\<close>

definition t_dirty :: "('r, 'k) fault \<Rightarrow> int \<Rightarrow> ('r, 'k) task \<Rightarrow> int \<times> ('r, 'k) task" where
  "t_dirty F page t = (case set_page_dirty (hdr (host_at F)) (aops_of (tables_of F)) page (t_vm t) of (r, v) \<Rightarrow> (r, t\<lparr>t_vm := v\<rparr>))"

definition set_page_dirty_balance :: "('r, 'k) fault \<Rightarrow> int \<Rightarrow> bool \<Rightarrow> ('r, 'k) task \<Rightarrow> ('r, 'k) task" where
  "set_page_dirty_balance F page page_mkwrite t =
     (case t_dirty F page t of (dirtied, t) \<Rightarrow>
        if dirtied \<noteq> 0 \<or> page_mkwrite then
          (case page_mapping (aops_of (tables_of F)) page (t_vm t) of None \<Rightarrow> t | Some mapping \<Rightarrow> balance_dirty_pages_ratelimited F mapping t)
        else t)"

section \<open>A write to a protected page\<close>

text \<open>A source without a page (foreign memory) is read through its address; where that fails, the copy is zeroed.\<close>

definition cow_user_page :: "('r, 'k) fault \<Rightarrow> int \<Rightarrow> int option \<Rightarrow> int \<Rightarrow> ('r, 'k) task \<Rightarrow> ('r, 'k) task" where
  "cow_user_page F dst src address t =
     (case src of
        None \<Rightarrow> (case copy_from_user_inatomic F dst address t of (failed, t) \<Rightarrow> if failed then clear_page F dst t else t)
      | Some page \<Rightarrow> copy_user_highpage F dst page t)"

text \<open>The label \<open>reuse\<close>: the entry becomes young, dirty and (where the area allows it) writable.\<close>

definition wp_reuse :: "('r, 'k) fault \<Rightarrow> ('r, 'k) vm_area \<Rightarrow> int \<Rightarrow> pte_t \<Rightarrow> int option \<Rightarrow> bool \<Rightarrow> ('r, 'k) task \<Rightarrow> int \<times> ('r, 'k) task" where
  "wp_reuse F A address orig dirty_page page_mkwrite t =
     (let entry = maybe_mkwrite (orig\<lparr>pte_young := True, pte_dirty := True\<rparr>) (area_flags A);
          t = t\<lparr>t_mm := snd (ptep_set_access_flags F address entry True (t_mm t))\<rparr>
      in (VM_FAULT_WRITE, case dirty_page of None \<Rightarrow> t
          | Some page \<Rightarrow>
              (let t = (if page_mkwrite then t
                     else (let t = set_page_dirty_balance F page page_mkwrite (wait_on_page_locked F page t)
                           in if vm_file A then file_update_time F t else t));
                   t = t_sw (page_cache_release page) t
               in if page_mkwrite then
                    (let mapping = file_mapping F page (t_vm t);
                         t = t_sw (\<lambda>s. page_cache_release page (unlock_page page s)) (snd (t_dirty F page t))
                     in case mapping of None \<Rightarrow> t | Some mapping \<Rightarrow> balance_dirty_pages_ratelimited F mapping t)
                  else t)))"

text \<open>The label \<open>unlock\<close>: a page that has been replaced is unlocked from memory, and the own reference to it is given up.\<close>

definition wp_unlock :: "('r, 'k) fault \<Rightarrow> ('r, 'k) vm_area \<Rightarrow> int option \<Rightarrow> int \<Rightarrow> ('r, 'k) task \<Rightarrow> int \<times> ('r, 'k) task" where
  "wp_unlock F A old_page ret t =
     (ret, case old_page of None \<Rightarrow> t
      | Some old \<Rightarrow>
          (let t = (if ret AND VM_FAULT_WRITE \<noteq> 0 \<and> VM_LOCKED A
                 then t_sw (unlock_page old) (munlock_vma_page F old (lock_page F old t)) else t)
           in t_sw (page_cache_release old) t))"

text \<open>
  The label \<open>gotten\<close>: a new page with the contents of the old one.  The table was unlocked meanwhile; when
  the entry is another one by now, the new page is thrown away and the fault will be taken again.
\<close>

definition wp_new_page :: "('r, 'k) fault \<Rightarrow> int \<Rightarrow> pte_t \<Rightarrow> int option \<Rightarrow> ('r, 'k) task \<Rightarrow> int option \<times> ('r, 'k) task" where
  "wp_new_page F address orig old_page t =
     (if is_zero_pfn F (pte_pfn orig) then alloc_zeroed_page F address t
      else (case alloc_page_vma (host_at F) (sw (mc (t_vm t))) of
          (None, s) \<Rightarrow> (None, t_sw (\<lambda>_. s) t)
        | (Some new, s) \<Rightarrow> (Some new, cow_user_page F new old_page address (t_sw (\<lambda>_. s) t))))"

definition wp_counts :: "('r, 'k) fault \<Rightarrow> int option \<Rightarrow> ('r, 'k) task \<Rightarrow> ('r, 'k) task" where
  "wp_counts F old_page t =
     (case old_page of
        None \<Rightarrow> t\<lparr>t_mm := (t_mm t)\<lparr>mm_anonpages := mm_anonpages (t_mm t) + 1\<rparr>\<rparr>
      | Some old \<Rightarrow>
          if PageAnon (px (t_vm t) old) then t
          else t\<lparr>t_mm := (t_mm t)\<lparr>mm_filepages := mm_filepages (t_mm t) - 1, mm_anonpages := mm_anonpages (t_mm t) + 1\<rparr>\<rparr>)"

definition wp_replace :: "('r, 'k) fault \<Rightarrow> ('r, 'k) vm_area \<Rightarrow> int \<Rightarrow> int option \<Rightarrow> int \<Rightarrow> ('r, 'k) task \<Rightarrow> ('r, 'k) task" where
  "wp_replace F A address old_page new t =
     (let t = wp_counts F old_page t;
          entry = maybe_mkwrite ((mk_pte F new (area_flags A))\<lparr>pte_dirty := True\<rparr>) (area_flags A);
          t = t_pte address Pte_none t;
          t = t_vmf (page_add_new_anon_rmap F new address) t;
          t = t_pte address (Pte_present entry) t
      in case old_page of None \<Rightarrow> t
         | Some old \<Rightarrow> t_sw (page_cache_release old) (t_vmf (page_remove_rmap (tables_of F) old) t))"

definition wp_copy :: "('r, 'k) fault \<Rightarrow> ('r, 'k) vm_area \<Rightarrow> int \<Rightarrow> pte_t \<Rightarrow> int option \<Rightarrow> ('r, 'k) task \<Rightarrow> int \<times> ('r, 'k) task" where
  "wp_copy F A address orig old_page t =
     (let oom = (\<lambda>t. (VM_FAULT_OOM, case old_page of None \<Rightarrow> t | Some old \<Rightarrow> t_sw (page_cache_release old) t));
          (failed, t) = anon_vma_prepare F t
      in if failed then oom t
         else (case wp_new_page F address orig old_page t of
             (None, t) \<Rightarrow> oom t
           | (Some new, t) \<Rightarrow>
               (let t = t_sw (frame_upd new (\<lambda>p. p\<lparr>PageUptodate := True\<rparr>)) t;
                    (failed, t) = mem_cgroup_newpage_charge F new t
                in if failed then oom (t_sw (page_cache_release new) t)
                   else if pte_same address orig t then wp_unlock F A old_page VM_FAULT_WRITE (wp_replace F A address old_page new t)
                   else wp_unlock F A old_page 0 (t_sw (page_cache_release new) (mem_cgroup_uncharge_page F new t)))))"

text \<open>
  A page of a shared writable mapping with an owner that wants to know: either the fault is over, or the page
  comes back locked and is still the one in the table.
\<close>

definition wp_mkwrite ::
  "('r, 'k) fault \<Rightarrow> ('r, 'k) vm_area \<Rightarrow> (int \<Rightarrow> int \<Rightarrow> ('r, 'k) task \<Rightarrow> int \<times> ('r, 'k) task) \<Rightarrow> int \<Rightarrow> pte_t \<Rightarrow> int \<Rightarrow> ('r, 'k) task \<Rightarrow>
     ((int \<times> ('r, 'k) task) + ('r, 'k) task) option" where
  "wp_mkwrite F A mkwrite address orig old t = do {
     let (tmp, t) = mkwrite old (FAULT_FLAG_WRITE OR FAULT_FLAG_MKWRITE) (t_sw (page_cache_get old) t);
     if tmp AND (VM_FAULT_ERROR OR VM_FAULT_NOPAGE) \<noteq> 0 then Some (Inl (tmp, t_sw (page_cache_release old) t))
     else do {
       let locked = (tmp AND VM_FAULT_LOCKED \<noteq> 0);
       let t = (if locked then t else lock_page F old t);
       if \<not> locked \<and> file_mapping F old (t_vm t) = None then
         Some (Inl (0, t_sw (\<lambda>s. page_cache_release old (unlock_page old s)) t))
       else if locked \<and> \<not> PageLocked (frame_of old t) then None
       else if \<not> pte_same address orig t then Some (Inl (wp_unlock F A (Some old) 0 (t_sw (unlock_page old) t)))
       else Some (Inr t)
     }
   }"

text \<open>The lock of an anonymous page; the result is whether the entry is still the same.\<close>

definition wp_lock :: "('r, 'k) fault \<Rightarrow> int \<Rightarrow> pte_t \<Rightarrow> int \<Rightarrow> ('r, 'k) task \<Rightarrow> bool \<times> ('r, 'k) task" where
  "wp_lock F address orig old t =
     (case trylock_page old (sw (mc (t_vm t))) of
        (True, s) \<Rightarrow> (True, t_sw (\<lambda>_. s) t)
      | (False, _) \<Rightarrow>
          (let t = lock_page F old (t_sw (page_cache_get old) t)
           in if pte_same address orig t then (True, t_sw (page_cache_release old) t) else (False, t_sw (unlock_page old) t)))"

definition do_wp_page :: "('r, 'k) fault \<Rightarrow> ('r, 'k) vm_area \<Rightarrow> int \<Rightarrow> pte_t \<Rightarrow> ('r, 'k) task \<Rightarrow> (int \<times> ('r, 'k) task) option" where
  "do_wp_page F A address orig t =
     (let vf = area_flags A; shared = (VM_WRITE vf \<and> VM_SHARED vf) in
      case vm_normal_page (tables_of F) vf orig of
        None \<Rightarrow> Some (if shared then wp_reuse F A address orig None False t else wp_copy F A address orig None t)
      | Some old \<Rightarrow>
          if PageAnon (px (t_vm t) old) \<and> \<not> PageKsm (frame_of old t) then do {
            let (same, t) = wp_lock F address orig old t;
            if \<not> same then Some (wp_unlock F A (Some old) 0 t)
            else do {
              (reuse, t) \<leftarrow> t_get (reuse_swap_page (hdr (host_at F)) (ksv (host_at F)) old) t;
              if reuse then Some (wp_reuse F A address orig None False (t_sw (unlock_page old) (t_vmf (page_move_anon_rmap F old address) t)))
              else Some (wp_copy F A address orig (Some old) (t_sw (\<lambda>s. page_cache_get old (unlock_page old s)) t))
            }
          }
          else if shared then
            (case Option.bind (vm_ops A) op_page_mkwrite of
               None \<Rightarrow> Some (wp_reuse F A address orig (Some old) False (t_sw (page_cache_get old) t))
             | Some mkwrite \<Rightarrow> do {
                 r \<leftarrow> wp_mkwrite F A mkwrite address orig old t;
                 case r of Inl res \<Rightarrow> Some res
                 | Inr t \<Rightarrow> Some (wp_reuse F A address orig (Some old) True (t_sw (page_cache_get old) t))
               })
          else Some (wp_copy F A address orig (Some old) (t_sw (page_cache_get old) t)))"

section \<open>What a write does\<close>

text \<open>
  The rest of the kernel when nothing fails: the reverse map counts the mappings, a new page gets one mapping
  and is anonymous, a copy copies, an entry is made of the page it is made for, and the update of an entry
  stores it.
\<close>

definition mapped_new :: "int \<Rightarrow> ('r, 'k) vm \<Rightarrow> ('r, 'k) vm" where
  "mapped_new pg v = (let v = v_frame pg (\<lambda>p. p\<lparr>p_mapcount := 1, PageSwapBacked := True\<rparr>) v
     in v\<lparr>px := (px v)(pg := (px v pg)\<lparr>PageAnon := True\<rparr>)\<rparr>)"

definition t_mem :: "(mem \<Rightarrow> mem) \<Rightarrow> ('r, 'k) task \<Rightarrow> ('r, 'k) task" where
  "t_mem f t = t\<lparr>t_vm := (t_vm t)\<lparr>mc := (mc (t_vm t))\<lparr>nd := (nd (mc (t_vm t)))\<lparr>mem := f (mem (nd (mc (t_vm t))))\<rparr>\<rparr>\<rparr>\<rparr>"

definition rmap_counts :: "('r, 'k) tables \<Rightarrow> bool" where
  "rmap_counts T \<longleftrightarrow> (\<forall>pg v. page_remove_rmap T pg v = v_frame pg (\<lambda>p. p\<lparr>p_mapcount := p_mapcount p - 1\<rparr>) v) \<and>
     (\<forall>pg v. page_dup_rmap T pg v = v_frame pg (\<lambda>p. p\<lparr>p_mapcount := p_mapcount p + 1\<rparr>) v)"

definition quiet_write :: "('r, 'k) fault \<Rightarrow> bool" where
  "quiet_write F \<longleftrightarrow> rmap_counts (tables_of F) \<and> (\<forall>t. anon_vma_prepare F t = (False, t)) \<and>
     (\<forall>pg t. mem_cgroup_newpage_charge F pg t = (False, t)) \<and>
     (\<forall>pg a v. page_move_anon_rmap F pg a v = v) \<and> (\<forall>pg a v. page_add_new_anon_rmap F pg a v = mapped_new pg v) \<and>
     (\<forall>a p mm. snd (ptep_set_access_flags F a p True mm) = set_pte_at a (Pte_present p) mm) \<and>
     (\<forall>pg vf. pte_pfn (mk_pte F pg vf) = pg \<and> \<not> pte_special (mk_pte F pg vf)) \<and>
     (\<forall>d s t. copy_user_highpage F d s t = t_mem (memcpy (kmap (ext (host_at F)) d) (kmap (ext (host_at F)) s) X86PageSize) t)"

text \<open>A new frame, and an allocator whose next frame is a given one that is in no use.\<close>

definition new_page :: page_t where
  "new_page = \<lparr>PageLocked = False, PageUptodate = False, PageDirty = False, PageSwapCache = False, PageSwapBacked = False,
     PageWriteback = False, PageKsm = False, PageTransHuge = False, p_count = 1, p_mapcount = 0, page_private = 0\<rparr>"

definition next_frame :: "('r, 'k) host \<Rightarrow> int \<Rightarrow> bool" where
  "next_frame H new \<longleftrightarrow> (\<forall>s. p_count (frames s new) = 0 \<longrightarrow> alloc_page_vma H s = (Some new, frame_upd new (\<lambda>_. new_page) s))"

text \<open>The entry is write-protected and names an ordinary anonymous page outside the swap cache.\<close>

definition plain_anon :: "('r, 'k) fault \<Rightarrow> ('r, 'k) vm_area \<Rightarrow> pte_t \<Rightarrow> int \<Rightarrow> ('r, 'k) task \<Rightarrow> bool" where
  "plain_anon F A orig old t \<longleftrightarrow> vm_normal_page (tables_of F) (area_flags A) orig = Some old \<and> \<not> is_zero_pfn F (pte_pfn orig) \<and>
     PageAnon (px (t_vm t) old) \<and> \<not> PageKsm (frame_of old t) \<and> \<not> PageLocked (frame_of old t) \<and> \<not> PageSwapCache (frame_of old t)"

definition writable_copy :: "('r, 'k) fault \<Rightarrow> ('r, 'k) vm_area \<Rightarrow> int \<Rightarrow> pte_t" where
  "writable_copy F A new = maybe_mkwrite ((mk_pte F new (area_flags A))\<lparr>pte_dirty := True\<rparr>) (area_flags A)"

definition made_writable :: "('r, 'k) vm_area \<Rightarrow> pte_t \<Rightarrow> pte_t" where
  "made_writable A orig = maybe_mkwrite (orig\<lparr>pte_young := True, pte_dirty := True\<rparr>) (area_flags A)"

lemma t_sw_simps [simp]:
  "t_mm (t_sw f t) = t_mm t" "mc (t_vm (t_sw f t)) = (mc (t_vm t))\<lparr>sw := f (sw (mc (t_vm t)))\<rparr>" "px (t_vm (t_sw f t)) = px (t_vm t)"
  by (simp_all add: t_sw_def)

text \<open>A page that others map too is copied; what the task gave up is its own mapping and reference.\<close>

lemma shared_page_copied:
  assumes "quiet_write F" and "next_frame (host_at F) new" and "plain_anon F A orig old t" and "pte_same a orig t"
    and "1 < p_mapcount (frame_of old t)" and "p_count (frame_of new t) = 0" and "new \<noteq> old" and "\<not> VM_LOCKED A"
  shows "\<exists>u. do_wp_page F A a orig t = Some (VM_FAULT_WRITE, u) \<and>
    t_mm u = set_pte_at a (Pte_present (writable_copy F A new)) (t_mm t) \<and>
    mem (nd (mc (t_vm u))) = memcpy (kmap (ext (host_at F)) new) (kmap (ext (host_at F)) old) X86PageSize (mem (nd (mc (t_vm t)))) \<and>
    frames (sw (mc (t_vm u))) = (frames (sw (mc (t_vm t))))
      (old := (frame_of old t)\<lparr>p_count := p_count (frame_of old t) - 1, p_mapcount := p_mapcount (frame_of old t) - 1\<rparr>,
       new := new_page\<lparr>PageUptodate := True, PageSwapBacked := True, p_mapcount := 1\<rparr>) \<and>
    px (t_vm u) = (px (t_vm t))(new := (px (t_vm t) new)\<lparr>PageAnon := True\<rparr>)"
proof -
  note q = assms(1) [unfolded quiet_write_def rmap_counts_def] and p = assms(3) [unfolded plain_anon_def frame_of_def]
  define t1 where "t1 = t_sw (\<lambda>s. page_cache_get old (unlock_page old (frame_upd old (\<lambda>p. p\<lparr>PageLocked := True\<rparr>) s))) t"
  have c: "do_wp_page F A a orig t = Some (wp_copy F A a orig (Some old) t1)"
    using p assms(5) by (simp add: do_wp_page_def wp_lock_def trylock_page_def t_get_def on_sw_def sw_get_def reuse_swap_page_def
        frame_upd_def frame_of_def t_sw_def t1_def Let_def page_cache_get_def unlock_page_def)
  have z: "\<not> is_zero_pfn F (pte_pfn orig)" "PageAnon (px (t_vm t) old)" using p by simp_all
  have n: "alloc_page_vma (host_at F) (sw (mc (t_vm t1))) = (Some new, frame_upd new (\<lambda>_. new_page) (sw (mc (t_vm t1))))"
    using assms(2,6,7) by (simp add: next_frame_def t1_def frame_of_def page_cache_get_def unlock_page_def frame_upd_def)
  have same: "t_mm t1 = t_mm t" "px (t_vm t1) = px (t_vm t)" by (simp_all add: t1_def t_sw_def)
  show ?thesis unfolding c using q n z assms(4,7,8) p
    by (simp add: wp_copy_def wp_new_page_def cow_user_page_def wp_replace_def wp_counts_def wp_unlock_def same pte_same_def Let_def
        t_sw_def t_vmf_def t_pte_def t_mem_def mapped_new_def v_frame_def writable_copy_def vm_faults)
      (simp add: t1_def t_sw_def frame_of_def page_cache_get_def page_cache_release_def unlock_page_def frame_upd_def set_pte_at_def fun_eq_iff)
qed

text \<open>A page that nobody else maps is taken over as it is: only the entry changes.\<close>

lemma own_page_reused:
  assumes "quiet_write F" and "plain_anon F A orig old t" and "p_mapcount (frame_of old t) \<le> 1"
  shows "do_wp_page F A a orig t = Some (VM_FAULT_WRITE, t\<lparr>t_mm := set_pte_at a (Pte_present (made_writable A orig)) (t_mm t)\<rparr>)"
proof -
  note q = assms(1) [unfolded quiet_write_def] and p = assms(2) [unfolded plain_anon_def frame_of_def]
  have u: "(frames (sw (mc (t_vm t))))(old := (frames (sw (mc (t_vm t))) old)\<lparr>PageLocked := False\<rparr>) = frames (sw (mc (t_vm t)))"
    using p by (simp add: fun_upd_idem_iff)
  show ?thesis using q p assms(3) u
    by (simp add: do_wp_page_def wp_lock_def trylock_page_def t_get_def on_sw_def sw_get_def reuse_swap_page_def
        frame_upd_def frame_of_def t_sw_def t_vmf_def Let_def unlock_page_def wp_reuse_def made_writable_def)
qed

section \<open>Fork and write\<close>

text \<open>A fork protects a private page in both tables and counts the second mapping.\<close>

definition forked :: "pte_t \<Rightarrow> int \<Rightarrow> int \<Rightarrow> ('r, 'k) copy \<Rightarrow> ('r, 'k) copy" where
  "forked p pg a c = \<lparr>c_dst = set_pte_at a (Pte_present (p\<lparr>pte_write := False, pte_young := False\<rparr>)) (c_dst c),
     c_src = set_pte_at a (Pte_present (p\<lparr>pte_write := False\<rparr>)) (c_src c), c_rss = add_anon 1 (c_rss c),
     c_vm = v_frame pg (\<lambda>q. q\<lparr>p_count := p_count q + 1, p_mapcount := p_mapcount q + 1\<rparr>) (c_vm c)\<rparr>"

lemma fork_protects:
  assumes "rmap_counts T" and "is_cow_mapping vf" and "ptes (c_src c) a = Pte_present p" and "vm_normal_page T vf p = Some pg"
    and "PageAnon (px (c_vm c) pg)"
  shows "copy_one_pte T vf a c = Some (0, forked p pg a c)"
proof -
  have "vm_normal_page T vf (p\<lparr>pte_write := x, pte_young := y\<rparr>) = vm_normal_page T vf p" for x y by (simp add: vm_normal_page_def)
  from this [of _ "pte_young p"] this show ?thesis using assms
    by (simp add: copy_one_pte_def copy_present_def is_cow_mapping_def rmap_counts_def Let_def v_frame_def frame_upd_def forked_def)
qed

text \<open>
  C5: after a fork parent and child share a page under protected entries.  The first write, of the child, gives it a copy
  with the same contents; the parent's write then finds the page its own again and keeps it.  Both entries
  are writable in the end, they name different pages with equal contents, the page of the parent was not touched
  and has the one mapping and the references it had before the fork.
\<close>

theorem fork_then_both_write:
  assumes "quiet_write F" and "next_frame (host_at F) new" and "is_cow_mapping (area_flags A)" and "VM_WRITE (area_flags A)" and "\<not> VM_LOCKED A"
    and "ptes (c_src c) a = Pte_present p" and "plain_anon F A p old \<lparr>t_mm = c_src c, t_vm = c_vm c\<rparr>" and "p_mapcount (v_page old (c_vm c)) = 1"
    and "p_count (v_page new (c_vm c)) = 0" and "new \<noteq> old" and "disj_pages (kmap (ext (host_at F)) old) (kmap (ext (host_at F)) new)"
  shows "\<exists>d p1 p2 u w q1 q2. copy_one_pte (tables_of F) (area_flags A) a c = Some (0, d) \<and>
    ptes (c_src d) a = Pte_present p1 \<and> ptes (c_dst d) a = Pte_present p2 \<and> \<not> pte_write p1 \<and> \<not> pte_write p2 \<and>
    do_wp_page F A a p2 \<lparr>t_mm = c_dst d, t_vm = c_vm d\<rparr> = Some (VM_FAULT_WRITE, u) \<and>
    do_wp_page F A a p1 \<lparr>t_mm = c_src d, t_vm = t_vm u\<rparr> = Some (VM_FAULT_WRITE, w) \<and>
    ptes (t_mm u) a = Pte_present q2 \<and> pte_pfn q2 = new \<and> pte_write q2 \<and> ptes (t_mm w) a = Pte_present q1 \<and> pte_pfn q1 = old \<and> pte_write q1 \<and>
    page_data (mem (nd (mc (t_vm w)))) (kmap (ext (host_at F)) new) = page_data (mem (nd (mc (c_vm c)))) (kmap (ext (host_at F)) old) \<and>
    page_data (mem (nd (mc (t_vm w)))) (kmap (ext (host_at F)) old) = page_data (mem (nd (mc (c_vm c)))) (kmap (ext (host_at F)) old) \<and>
    v_page old (t_vm w) = v_page old (c_vm c)"
proof -
  let ?d = "forked p old a c"
  let ?p1 = "p\<lparr>pte_write := False\<rparr>" and ?p2 = "p\<lparr>pte_write := False, pte_young := False\<rparr>"
  have rc: "rmap_counts (tables_of F)" and mk: "pte_pfn (mk_pte F new vf) = new" for vf using assms(1) by (simp_all add: quiet_write_def)
  note p = assms(7) [unfolded plain_anon_def]
  have copy: "copy_one_pte (tables_of F) (area_flags A) a c = Some (0, ?d)"
    by (rule fork_protects [OF rc assms(3,6)]) (use p in simp_all)
  have fr: "frame_of pg \<lparr>t_mm = m, t_vm = v\<rparr> = v_page pg v" for pg m and v :: "('a, 'b) vm" by (simp add: frame_of_def v_page_def)
  have vp: "v_page old (c_vm ?d) = (v_page old (c_vm c))\<lparr>p_count := p_count (v_page old (c_vm c)) + 1, p_mapcount := 2\<rparr>" "v_page new (c_vm ?d) = v_page new (c_vm c)"
    using assms(8,10) by (simp_all add: forked_def v_page_def v_frame_def frame_upd_def)
  have px: "px (c_vm ?d) = px (c_vm c)" "mem (nd (mc (c_vm ?d))) = mem (nd (mc (c_vm c)))" by (simp_all add: forked_def v_frame_def)
  have plain: "plain_anon F A (p\<lparr>pte_write := x, pte_young := y\<rparr>) old \<lparr>t_mm = m, t_vm = v\<rparr>"
    if "px v old = px (c_vm c) old" "\<not> PageKsm (v_page old v)" "\<not> PageLocked (v_page old v)" "\<not> PageSwapCache (v_page old v)" for x y m v
    using p that by (auto simp: plain_anon_def vm_normal_page_def fr split: if_splits)
  have d2: "plain_anon F A ?p2 old \<lparr>t_mm = c_dst ?d, t_vm = c_vm ?d\<rparr>" by (rule plain) (use p vp px in \<open>simp_all add: fr\<close>)
  obtain u where u: "do_wp_page F A a ?p2 \<lparr>t_mm = c_dst ?d, t_vm = c_vm ?d\<rparr> = Some (VM_FAULT_WRITE, u)"
    "t_mm u = set_pte_at a (Pte_present (writable_copy F A new)) (c_dst ?d)"
    "mem (nd (mc (t_vm u))) = memcpy (kmap (ext (host_at F)) new) (kmap (ext (host_at F)) old) X86PageSize (mem (nd (mc (c_vm c))))"
    "v_page old (t_vm u) = v_page old (c_vm c)" "px (t_vm u) old = px (c_vm c) old"
    using shared_page_copied [OF assms(1,2) d2 _ _ _ assms(10,5), of a] assms(8,9,10) vp px
    by (auto simp: fr pte_same_def v_page_def forked_def set_pte_at_def)
  have d1: "plain_anon F A ?p1 old \<lparr>t_mm = c_src ?d, t_vm = t_vm u\<rparr>"
    using plain [of "t_vm u" "pte_young p" False "c_src ?d"] p u(4,5) by (cases p) (simp add: fr)
  have w: "do_wp_page F A a ?p1 \<lparr>t_mm = c_src ?d, t_vm = t_vm u\<rparr> =
      Some (VM_FAULT_WRITE, \<lparr>t_mm = set_pte_at a (Pte_present (made_writable A ?p1)) (c_src ?d), t_vm = t_vm u\<rparr>)"
    using own_page_reused [OF assms(1) d1, of a] u(4) assms(8) by (simp add: fr)
  have "pte_pfn p = old" using p by (simp add: vm_normal_page_def split: if_splits)
  then have q: "pte_write (made_writable A ?p1)" "pte_pfn (made_writable A ?p1) = old" "pte_write (writable_copy F A new)" "pte_pfn (writable_copy F A new) = new"
    using assms(4) mk by (simp_all add: made_writable_def writable_copy_def maybe_mkwrite_def)
  have e: "ptes (c_src ?d) a = Pte_present ?p1" "ptes (c_dst ?d) a = Pte_present ?p2" by (simp_all add: forked_def set_pte_at_def)
  let ?w = "\<lparr>t_mm = set_pte_at a (Pte_present (made_writable A ?p1)) (c_src ?d), t_vm = t_vm u\<rparr>"
  have m: "page_data (mem (nd (mc (t_vm ?w)))) (kmap (ext (host_at F)) new) = page_data (mem (nd (mc (c_vm c)))) (kmap (ext (host_at F)) old)"
      "page_data (mem (nd (mc (t_vm ?w)))) (kmap (ext (host_at F)) old) = page_data (mem (nd (mc (c_vm c)))) (kmap (ext (host_at F)) old)"
    using u(3) page_data_memcpy_frame [OF assms(11)] by simp_all
  have v: "ptes (t_mm u) a = Pte_present (writable_copy F A new)" "ptes (t_mm ?w) a = Pte_present (made_writable A ?p1)" "v_page old (t_vm ?w) = v_page old (c_vm c)"
    using u(2,4) by (simp_all add: set_pte_at_def)
  show ?thesis
    by (rule exI [of _ ?d], rule exI [of _ ?p1], rule exI [of _ ?p2], rule exI [of _ u], rule exI [of _ ?w],
        rule exI [of _ "made_writable A ?p1"], rule exI [of _ "writable_copy F A new"])
      (intro conjI copy e u(1) w q v m, simp_all)
qed

section \<open>Witnesses\<close>

definition ideal_fault :: "bool \<Rightarrow> (int \<Rightarrow> mem, unit) fault" where
  "ideal_fault full = \<lparr>tables_of = ideal_tables, is_hwpoison_entry = (\<lambda>_. False), PageHWPoison = (\<lambda>_. False),
     migration_entry_wait = (\<lambda>_ t. t),
     lock_page_or_retry = (\<lambda>pg t. if PageLocked (frame_of pg t) then (False, t) else (True, t_sw (frame_upd pg (\<lambda>p. p\<lparr>PageLocked := True\<rparr>)) t)),
     lock_page = (\<lambda>pg. t_sw (frame_upd pg (\<lambda>p. p\<lparr>PageLocked := True\<rparr>))), wait_on_page_locked = (\<lambda>pg t. t),
     ksm_might_need_to_copy = (\<lambda>pg a t. (Some pg, t)), mem_cgroup_try_charge_swapin = (\<lambda>_ t. (full, t)),
     mem_cgroup_commit_charge_swapin = (\<lambda>_ t. t), mem_cgroup_cancel_charge_swapin = (\<lambda>t. t),
     mem_cgroup_newpage_charge = (\<lambda>_ t. (full, t)), mem_cgroup_uncharge_page = (\<lambda>_ t. t),
     mk_pte = (\<lambda>pg vf. \<lparr>pte_pfn = pg, pte_special = False, pte_write = False, pte_dirty = False, pte_young = True\<rparr>),
     ptep_set_access_flags = (\<lambda>a p dirty mm. if dirty \<and> ptes mm a \<noteq> Pte_present p then (True, set_pte_at a (Pte_present p) mm)
        else (ptes mm a \<noteq> Pte_present p, mm)),
     do_page_add_anon_rmap = (\<lambda>pg a x v. v_frame pg (\<lambda>p. p\<lparr>p_mapcount := p_mapcount p + 1\<rparr>) v),
     page_add_new_anon_rmap = (\<lambda>pg a. mapped_new pg), page_move_anon_rmap = (\<lambda>pg a v. v),
     page_add_file_rmap = (\<lambda>pg. v_frame pg (\<lambda>p. p\<lparr>p_mapcount := p_mapcount p + 1\<rparr>)),
     anon_vma_prepare = (\<lambda>t. (False, t)), my_zero_pfn = (\<lambda>_. 0), is_zero_pfn = (\<lambda>p. p = 0),
     alloc_zeroed_page = (\<lambda>a t. (Some 8, t_mem (\<lambda>m x. if x - kmap ideal_ext 8 < X86PageSize then 0 else m x) (t_sw (frame_upd 8 (\<lambda>_. new_page)) t))),
     copy_user_highpage = (\<lambda>d s. t_mem (memcpy (kmap ideal_ext d) (kmap ideal_ext s) X86PageSize)),
     copy_from_user_inatomic = (\<lambda>d a t. (True, t)), clear_page = (\<lambda>d. t_mem (\<lambda>m x. if x - kmap ideal_ext d < X86PageSize then 0 else m x)),
     munlock_vma_page = (\<lambda>_ t. t), file_mapping = (\<lambda>_ _. None), balance_dirty_pages_ratelimited = (\<lambda>_ t. t), file_update_time = (\<lambda>t. t)\<rparr>"

definition anon_area :: "(int \<Rightarrow> mem, unit) vm_area" where
  "anon_area = \<lparr>vm_start = 0, vm_end = 0x100000, area_flags = private_area, vm_file = False, anon_vma = True, VM_HUGETLB = False,
     VM_NONLINEAR = False, vm_ops = None, vm_pgoff = 0, VM_LOCKED = False, VM_GROWSDOWN = False, VM_GROWSUP = False, vm_prev = None, vm_next = None\<rparr>"

lemma anon_area_flags [simp]: "area_flags anon_area = private_area" by (simp add: anon_area_def)

text \<open>The same with mappings counted, and with an allocator whose next frame is 9.\<close>

definition counting_fault :: "(int \<Rightarrow> mem, unit) fault" where
  "counting_fault = (ideal_fault False)\<lparr>tables_of := ideal_tables\<lparr>host_of := ideal_host\<lparr>alloc_page_vma := (\<lambda>s. (Some 9, frame_upd 9 (\<lambda>_. new_page) s))\<rparr>,
     page_remove_rmap := (\<lambda>pg. v_frame pg (\<lambda>p. p\<lparr>p_mapcount := p_mapcount p - 1\<rparr>)),
     page_dup_rmap := (\<lambda>pg. v_frame pg (\<lambda>p. p\<lparr>p_mapcount := p_mapcount p + 1\<rparr>))\<rparr>\<rparr>"

lemma counting_fault: "quiet_write counting_fault" "next_frame (host_at counting_fault) 9"
proof -
  have s: "(if Q then (True, set_pte_at a p mm) else (ptes mm a \<noteq> p, mm)) = (Q, set_pte_at a p mm)" if "Q \<longleftrightarrow> ptes mm a \<noteq> p" for Q a p mm
    using that by (auto simp: set_pte_at_def)
  show "quiet_write counting_fault"
    by (simp add: quiet_write_def rmap_counts_def counting_fault_def ideal_fault_def s host_at_def)
  show "next_frame (host_at counting_fault) 9"
    by (simp add: next_frame_def counting_fault_def host_at_def ideal_fault_def)
qed

theorem fork_then_both_write_witness:
  "\<exists>c d p1 p2 u w q1 q2. ptes (c_src c) 10 = Pte_present \<lparr>pte_pfn = 5, pte_special = False, pte_write = True, pte_dirty = True, pte_young = True\<rparr> \<and>
     copy_one_pte (tables_of counting_fault) private_area 10 c = Some (0, d) \<and>
     do_wp_page counting_fault anon_area 10 p2 \<lparr>t_mm = c_dst d, t_vm = c_vm d\<rparr> = Some (VM_FAULT_WRITE, u) \<and>
     do_wp_page counting_fault anon_area 10 p1 \<lparr>t_mm = c_src d, t_vm = t_vm u\<rparr> = Some (VM_FAULT_WRITE, w) \<and>
     ptes (t_mm u) 10 = Pte_present q2 \<and> pte_pfn q2 = 9 \<and> ptes (t_mm w) 10 = Pte_present q1 \<and> pte_pfn q1 = 5"
proof -
  let ?p = "\<lparr>pte_pfn = 5, pte_special = False, pte_write = True, pte_dirty = True, pte_young = True\<rparr>"
  define c :: "(int \<Rightarrow> mem, unit) copy" where "c = \<lparr>c_dst = no_mm, c_src = no_mm\<lparr>ptes := (\<lambda>_. Pte_none)(10 := Pte_present ?p)\<rparr>, c_rss = init_rss_vec,
    c_vm = \<lparr>mc = \<lparr>nd = ideal_node (\<lambda>_ _. 0), sw = empty_swaps\<lparr>frames := (\<lambda>_. plain_page)(5 := new_page\<lparr>p_mapcount := 1\<rparr>, 9 := new_page\<lparr>p_count := 0\<rparr>)\<rparr>\<rparr>,
      px = anon_px\<rparr>\<rparr>"
  have src: "ptes (c_src c) 10 = Pte_present ?p" by (simp add: c_def)
  have h: "is_cow_mapping (area_flags anon_area)" "VM_WRITE (area_flags anon_area)" "\<not> VM_LOCKED anon_area"
    by (simp_all add: is_cow_mapping_def private_area_def anon_area_def)
  have pl: "plain_anon counting_fault anon_area ?p 5 \<lparr>t_mm = c_src c, t_vm = c_vm c\<rparr>"
    by (simp add: plain_anon_def frame_of_def c_def new_page_def counting_fault_def ideal_fault_def ideal_tables_def vm_normal_page_def anon_px_def)
  have m: "p_mapcount (v_page 5 (c_vm c)) = 1" "p_count (v_page 9 (c_vm c)) = 0" by (simp_all add: v_page_def c_def)
  have d: "disj_pages (kmap (ext (host_at counting_fault)) 5) (kmap (ext (host_at counting_fault)) 9)"
    by (simp add: host_at_def counting_fault_def ideal_fault_def ideal_ext_def disj_pages_def page_off_def X86PageSize_def)
  from fork_then_both_write [OF counting_fault h src pl m _ d] show ?thesis using src by simp blast
qed

end
