(* ===== verification/Comex_Fault.thy ===== *)
theory Comex_Fault
  imports Comex_Write
begin

unbundle bit_operations_syntax

text \<open>
  The fault on an entry that is not present (\<open>do_swap_page\<close> of \<open>memory.c\<close>): the page is looked up in the
  swap cache or read in, mapped, and its entry is given up.  What happens when the fault fails after COMEX
  has read the page is the second half.
\<close>

section \<open>The fault\<close>

text \<open>The ways out: \<open>out_release\<close> and \<open>out_page\<close>, with the page of the cache where it is another.\<close>

definition out_release :: "int \<Rightarrow> int \<Rightarrow> ('r, 'k) task \<Rightarrow> ('r, 'k) task" where
  "out_release page swapcache t =
     (let t = t_sw (page_cache_release page) t
      in if page \<noteq> swapcache then t_sw (\<lambda>s. page_cache_release swapcache (unlock_page swapcache s)) t else t)"

definition out_page :: "int \<Rightarrow> int \<Rightarrow> ('r, 'k) task \<Rightarrow> ('r, 'k) task" where
  "out_page page swapcache t = out_release page swapcache (t_sw (unlock_page page) t)"

definition count_fault :: "mm_struct \<Rightarrow> mm_struct" where
  "count_fault mm = mm\<lparr>mm_anonpages := mm_anonpages mm + 1, mm_swapents := mm_swapents mm - 1\<rparr>"

text \<open>
  The page is mapped (all under the lock of the table): the entry is written, the store behind the old entry
  is given up, and a write that is still open goes to the treatment of write-protected pages.
\<close>

definition map_page_in ::
  "('r, 'k) fault \<Rightarrow> ('r, 'k) vm_area \<Rightarrow> int \<Rightarrow> bool \<Rightarrow> entry \<Rightarrow> int \<Rightarrow> int \<Rightarrow> int \<Rightarrow> ('r, 'k) task \<Rightarrow> (int \<times> ('r, 'k) task) option" where
  "map_page_in F A address wr entry page swapcache ret t = do {
     let K = hdr (host_at F);
     let X = ksv (host_at F);
     let t = t\<lparr>t_mm := count_fault (t_mm t)\<rparr>;
     let pte = mk_pte F page (area_flags A);
     (reuse, t) \<leftarrow> (if wr then t_get (reuse_swap_page K X page) t else Some (False, t));
     let (pte, wr, ret, exclusive) =
       (if reuse then (maybe_mkwrite (pte\<lparr>pte_dirty := True\<rparr>) (area_flags A), False, ret OR VM_FAULT_WRITE, True) else (pte, wr, ret, False));
     let t = t\<lparr>t_mm := set_pte_at address (Pte_present pte) (t_mm t)\<rparr>;
     let t = t\<lparr>t_vm := (if page = swapcache then do_page_add_anon_rmap F page address exclusive (t_vm t)
                        else page_add_new_anon_rmap F page address (t_vm t))\<rparr>;
     let t = mem_cgroup_commit_charge_swapin F page t;
     (_, t) \<leftarrow> t_get (\<lambda>s. map_option (Pair ()) (swap_free K X entry s)) t;
     (_, t) \<leftarrow> t_get (try_to_free_swap K X page) t;
     let t = t_sw (unlock_page page) t;
     let t = (if page \<noteq> swapcache then t_sw (\<lambda>s. page_cache_release swapcache (unlock_page swapcache s)) t else t);
     if wr then do {
       (r, t) \<leftarrow> do_wp_page F A address pte t;
       let ret = ret OR r;
       Some (if ret AND VM_FAULT_ERROR \<noteq> 0 then ret AND VM_FAULT_ERROR else ret, t)
     }
     else Some (ret, t)
   }"

text \<open>From the lock of the page on; \<open>ret\<close> is what the fault has found so far.\<close>

definition take_swap_page ::
  "('r, 'k) fault \<Rightarrow> ('r, 'k) vm_area \<Rightarrow> int \<Rightarrow> bool \<Rightarrow> entry \<Rightarrow> int \<Rightarrow> int \<Rightarrow> ('r, 'k) task \<Rightarrow> (int \<times> ('r, 'k) task) option" where
  "take_swap_page F A address wr entry swapcache ret t = do {
     let (locked, t) = lock_page_or_retry F swapcache t;
     if \<not> locked then Some (ret OR VM_FAULT_RETRY, out_release swapcache swapcache t)
     else if \<not> PageSwapCache (frame_of swapcache t) \<or> page_private (frame_of swapcache t) \<noteq> entry then
       Some (ret, out_page swapcache swapcache t)
     else do {
       let (copy, t) = ksm_might_need_to_copy F swapcache address t;
       case copy of None \<Rightarrow> Some (VM_FAULT_OOM, out_page swapcache swapcache t)
       | Some page \<Rightarrow> do {
           let (failed, t) = mem_cgroup_try_charge_swapin F page t;
           if failed then Some (VM_FAULT_OOM, out_page page swapcache t)
           else if ptes (t_mm t) address \<noteq> Pte_swap entry then
             Some (ret, out_page page swapcache (mem_cgroup_cancel_charge_swapin F t))
           else if \<not> PageUptodate (frame_of page t) then
             Some (VM_FAULT_SIGBUS, out_page page swapcache (mem_cgroup_cancel_charge_swapin F t))
           else map_page_in F A address wr entry page swapcache ret t
         }
     }
   }"

text \<open>\<open>pte_unmap_same\<close> is true where an entry of the table is one word.\<close>

definition do_swap_page ::
  "('r, 'k) fault \<Rightarrow> ('r, 'k) vm_area \<Rightarrow> int \<Rightarrow> bool \<Rightarrow> entry \<Rightarrow> ('r, 'k) task \<Rightarrow> (int \<times> ('r, 'k) task) option" where
  "do_swap_page F A address wr entry t = do {
     let K = hdr (host_at F);
     if non_swap_entry K entry then
       Some (if is_migration_entry (tables_of F) entry then (0, migration_entry_wait F address t)
             else if is_hwpoison_entry F entry then (VM_FAULT_HWPOISON, t) else (VM_FAULT_SIGBUS, t))
     else do {
       (found, t) \<leftarrow> t_get (lookup_swap_cache K entry) t;
       case found of
         Some page \<Rightarrow>
           if PageHWPoison F page then Some (VM_FAULT_HWPOISON, out_release page page t)
           else take_swap_page F A address wr entry page 0 t
       | None \<Rightarrow> do {
           (got, t) \<leftarrow> t_mc (swapin_readahead (host_at F) entry) t;
           case got of None \<Rightarrow> Some (if ptes (t_mm t) address = Pte_swap entry then VM_FAULT_OOM else 0, t)
           | Some page \<Rightarrow> take_swap_page F A address wr entry page VM_FAULT_MAJOR t
         }
     }
   }"

section \<open>The read of a page of the own pool\<close>

text \<open>The frame that the kernel hands out for the page is in no use, and nothing else has changed.\<close>

definition blank_frame :: "('r, 'k) host \<Rightarrow> int \<Rightarrow> 'k swaps \<Rightarrow> bool" where
  "blank_frame H pg s \<longleftrightarrow> (\<exists>s'. alloc_page_vma H s = (Some pg, s') \<and> swapper_spaces s' = swapper_spaces s \<and> swap_info s' = swap_info s \<and>
     cache_inv (hdr H) s' \<and> \<not> PageSwapCache (frames s' pg) \<and> page_private (frames s' pg) = 0 \<and>
     \<not> PageWriteback (frames s' pg) \<and> \<not> PageKsm (frames s' pg) \<and> p_mapcount (frames s' pg) = 0)"

definition filed :: "swap_h \<Rightarrow> entry \<Rightarrow> int \<Rightarrow> 'k swaps \<Rightarrow> bool" where
  "filed K e pg s \<longleftrightarrow> cache_inv K s \<and> no_areas s \<and> PageSwapCache (frames s pg) \<and> page_private (frames s pg) = e \<and>
     PageUptodate (frames s pg) \<and> \<not> PageWriteback (frames s pg) \<and> \<not> PageKsm (frames s pg) \<and> p_mapcount (frames s pg) = 0"

lemma blank_fresh: "blank_frame H pg s \<Longrightarrow> fresh_frame H pg s"
  by (auto simp: blank_frame_def fresh_frame_def)

lemma filed_frame:
  assumes "filed K e pg s" and "\<And>p. PageSwapCache (f p) = PageSwapCache p" and "\<And>p. page_private (f p) = page_private p"
    and "\<And>p. PageUptodate (f p) = PageUptodate p" and "\<And>p. PageWriteback (f p) = PageWriteback p" and "\<And>p. PageKsm (f p) = PageKsm p"
    and "\<And>p. p_mapcount (f p) = p_mapcount p"
  shows "filed K e pg (frame_upd pg f s)"
proof -
  have "cache_inv K (frame_upd pg f s) = cache_inv K s" by (rule cache_inv_same) (simp_all add: frame_upd_def assms)
  then show ?thesis using assms by (simp add: filed_def no_areas_def) (simp add: frame_upd_def)
qed

lemma find_filed: "cached_page K e s = Some pg \<Longrightarrow> find_get_page K e s = Some (Some pg, page_cache_get pg s)"
  by (auto simp: find_get_page_def space_get_eq cached_page_def split: if_splits)

lemma cached_frame [simp]: "cached_page K e (frame_upd pg f s) = cached_page K e s"
  by (simp add: cached_page_def frame_upd_def)

lemma filed_cached: "filed K e pg s \<Longrightarrow> cached_page K e s = Some pg"
  by (simp add: filed_def cache_inv_def)

text \<open>The read ahead of a single entry, and the read proper, which finds the page in the cache.\<close>

lemma readahead_own:
  assumes K: "linux_swap_h (hdr H)" and X: "roomy (ksv H)" and own: "own_ok virt (nd m)"
    and p: "0 \<le> p" "p < pool_total (nd m)" "p \<notin> pool_free (nd m)" and e: "e = swp_entry (hdr H) 9 (word_of_int p)"
    and c: "cache_ready (hdr H) e (sw m)" and f: "blank_frame H new (sw m)" and a: "no_areas (sw m)"
  shows "\<exists>u. swapin_readahead H e m = Some (Some new, u) \<and>
    page_data (mem (nd u)) (kmap (ext H) new) = page_data (mem (nd m)) (here_addr (pool_page p (nd m)) (nd m)) \<and>
    own_ok virt (nd u) \<and> pool_free (nd u) = insert p (pool_free (nd m)) \<and> filed (hdr H) e new (sw u) \<and>
    \<not> PageLocked (frames (sw u) new)"
proof -
  have pb: "p < 2 ^ 31" by (rule own_small [OF own p(2)])
  note E = entry_9 [OF K p(1) pb, folded e]
  obtain u s1 where u: "read_swap_cache_async H e m = Some (Some new, u)"
      "page_data (mem (nd u)) (kmap (ext H) new) = page_data (mem (nd m)) (here_addr (pool_page p (nd m)) (nd m))"
      "own_ok virt (nd u)" "pool_free (nd u) = insert p (pool_free (nd m))" "cached_page (hdr H) e (sw u) = Some new"
      "cache_inv (hdr H) (sw u)" "alloc_page_vma H (sw m) = (Some new, s1)" "swap_info (sw u) = swap_info s1"
      "frames (sw u) new = (frames s1 new)\<lparr>PageLocked := False, PageUptodate := True, PageDirty := True, PageSwapBacked := True,
         PageSwapCache := True, p_count := p_count (frames s1 new) + 1, page_private := e\<rparr>"
    using swap_in_own_full [OF K X own p e c blank_fresh [OF f]] by blast
  have g: "filed (hdr H) e new (sw u)" "\<not> PageLocked (frames (sw u) new)"
    using u(6-9) f a by (auto simp: filed_def blank_frame_def no_areas_def)
  let ?u = "u\<lparr>sw := page_cache_get new (page_cache_release new (sw u))\<rparr>"
  have "filed (hdr H) e new (page_cache_release new (sw u))" unfolding page_cache_release_def by (rule filed_frame [OF g(1)]) simp_all
  then have "filed (hdr H) e new (sw ?u)" unfolding page_cache_get_def by simp (rule filed_frame, simp_all)
  moreover have "read_swap_cache_async H e (u\<lparr>sw := page_cache_release new (sw u)\<rparr>) = Some (Some new, ?u)"
    using find_filed [of "hdr H" e "page_cache_release new (sw u)" new] u(5)
    by (simp add: read_swap_cache_async_def page_cache_release_def) (subst read_loop.simps, simp add: sw_get_def give_back_def)
  then have "swapin_readahead H e m = Some (Some new, ?u)"
    using E(1) u(1) by (simp add: swapin_readahead_def Let_def read_release_def give_back_def)
  moreover have "\<not> PageLocked (frames (sw ?u) new)" using g(2) by (simp add: page_cache_get_def page_cache_release_def frame_upd_def)
  ultimately show ?thesis using u(2-4) by (intro exI [of _ ?u]) simp
qed

section \<open>The fault on an entry of the own pool\<close>

text \<open>
  The rest of the kernel on a quiet node: a free page lock is taken, a page that is not merged need not be
  copied, the charge is only book-keeping, and the reverse map counts the new mapping.
\<close>

definition calm :: "('r, 'k) fault \<Rightarrow> bool" where
  "calm F \<longleftrightarrow> (\<forall>pg t. \<not> PageLocked (frame_of pg t) \<longrightarrow> lock_page_or_retry F pg t = (True, t_sw (frame_upd pg (\<lambda>p. p\<lparr>PageLocked := True\<rparr>)) t)) \<and>
     (\<forall>pg a t. \<not> PageKsm (frame_of pg t) \<longrightarrow> ksm_might_need_to_copy F pg a t = (Some pg, t)) \<and>
     (\<forall>pg t. mem_cgroup_commit_charge_swapin F pg t = t) \<and>
     (\<forall>pg a x v. mc (do_page_add_anon_rmap F pg a x v) = mc (v_frame pg (\<lambda>p. p\<lparr>p_mapcount := p_mapcount p + 1\<rparr>) v)) \<and>
     (\<forall>k. \<not> pm_suspended_storage (ksv (host_at F)) k)"

definition looked_up :: "'k swaps \<Rightarrow> 'k swaps" where
  "looked_up = info_upd (\<lambda>i. i\<lparr>find_total := find_total i + 1\<rparr>)"

text \<open>Page \<open>p\<close> of the pool is behind \<open>e\<close>, is not in the swap cache, and \<open>new\<close> is the frame it will get.\<close>

definition own_fault :: "('r, 'k) fault \<Rightarrow> (u64 \<Rightarrow> u64) \<Rightarrow> entry \<Rightarrow> int \<Rightarrow> int \<Rightarrow> ('r, 'k) machine \<Rightarrow> bool" where
  "own_fault F virt e p new m \<longleftrightarrow> linux_swap_h (hdr (host_at F)) \<and> roomy (ksv (host_at F)) \<and> calm F \<and> own_ok virt (nd m) \<and>
     0 \<le> p \<and> p < pool_total (nd m) \<and> p \<notin> pool_free (nd m) \<and> e = swp_entry (hdr (host_at F)) 9 (word_of_int p) \<and>
     cache_ready (hdr (host_at F)) e (sw m) \<and> no_areas (sw m) \<and> blank_frame (host_at F) new (looked_up (sw m))"

lemma lookup_miss:
  assumes "cached_page K e s = None" and "unat (swp_type K e) < length (swapper_spaces s)"
  shows "lookup_swap_cache K e s = Some (None, looked_up s)"
  using assms by (simp add: lookup_swap_cache_def find_get_page_def space_get_eq cached_page_def looked_up_def)

lemma fault_reads:
  assumes "own_fault F virt e p new (mc (t_vm t))"
  shows "\<exists>u. do_swap_page F A a wr e t = take_swap_page F A a wr e new VM_FAULT_MAJOR (t\<lparr>t_vm := (t_vm t)\<lparr>mc := u\<rparr>\<rparr>) \<and>
    page_data (mem (nd u)) (kmap (ext (host_at F)) new) =
      page_data (mem (nd (mc (t_vm t)))) (here_addr (pool_page p (nd (mc (t_vm t)))) (nd (mc (t_vm t)))) \<and>
    own_ok virt (nd u) \<and> pool_free (nd u) = insert p (pool_free (nd (mc (t_vm t)))) \<and> filed (hdr (host_at F)) e new (sw u) \<and>
    \<not> PageLocked (frames (sw u) new)"
proof -
  let ?H = "host_at F" and ?m = "mc (t_vm t)"
  have A: "linux_swap_h (hdr ?H)" "roomy (ksv ?H)" "own_ok virt (nd ?m)" "0 \<le> p" "p < pool_total (nd ?m)" "p \<notin> pool_free (nd ?m)"
    "e = swp_entry (hdr ?H) 9 (word_of_int p)" "cache_ready (hdr ?H) e (sw ?m)" "no_areas (sw ?m)" "blank_frame ?H new (looked_up (sw ?m))"
    using assms unfolding own_fault_def by blast+
  let ?l = "?m\<lparr>sw := looked_up (sw ?m)\<rparr>"
  have pb: "p < 2 ^ 31" by (rule own_small [OF A(3,5)])
  note E = entry_9 [OF A(1,4) pb, folded A(7)]
  have l: "swapper_spaces (looked_up (sw ?m)) = swapper_spaces (sw ?m)" "frames (looked_up (sw ?m)) = frames (sw ?m)"
    "swap_info (looked_up (sw ?m)) = swap_info (sw ?m)"
    by (simp_all add: looked_up_def info_upd_def)
  have "cache_inv (hdr ?H) (looked_up (sw ?m)) = cache_inv (hdr ?H) (sw ?m)" by (rule cache_inv_same) (simp_all add: l)
  then have c: "cache_ready (hdr ?H) e (sw ?l)" using A(8) l cached_same [OF l(1)] by (simp add: cache_ready_def)
  have n: "no_areas (sw ?l)" using A(9) l by (simp add: no_areas_def)
  obtain u where u: "swapin_readahead ?H e ?l = Some (Some new, u)"
    "page_data (mem (nd u)) (kmap (ext ?H) new) = page_data (mem (nd ?m)) (here_addr (pool_page p (nd ?m)) (nd ?m))"
    "own_ok virt (nd u)" "pool_free (nd u) = insert p (pool_free (nd ?m))" "filed (hdr ?H) e new (sw u)" "\<not> PageLocked (frames (sw u) new)"
    using readahead_own [OF A(1,2), of virt ?l p e new] A(3-7,10) c n by auto
  have "lookup_swap_cache (hdr ?H) e (sw ?m) = Some (None, looked_up (sw ?m))"
    by (rule lookup_miss) (use A(8) E(1) in \<open>simp_all add: cache_ready_def\<close>)
  then have "do_swap_page F A a wr e t = take_swap_page F A a wr e new VM_FAULT_MAJOR (t\<lparr>t_vm := (t_vm t)\<lparr>mc := u\<rparr>\<rparr>)"
    using E(4) u(1) by (simp add: do_swap_page_def Let_def t_get_def on_sw_def sw_get_def t_mc_def)
  then show ?thesis using u by (intro exI [of _ u]) simp
qed

text \<open>The lock is taken and the page is still the right one: what remains is the charge and the table.\<close>

lemma take_locked:
  assumes "calm F" and "filed (hdr (host_at F)) e new (sw (mc (t_vm t)))" and "\<not> PageLocked (frame_of new t)"
    and "lk = t_sw (frame_upd new (\<lambda>p. p\<lparr>PageLocked := True\<rparr>)) t"
  shows "take_swap_page F A a wr e new ret t = (let (failed, t) = mem_cgroup_try_charge_swapin F new lk in
      if failed then Some (VM_FAULT_OOM, out_page new new t)
      else if ptes (t_mm t) a \<noteq> Pte_swap e then Some (ret, out_page new new (mem_cgroup_cancel_charge_swapin F t))
      else if \<not> PageUptodate (frame_of new t) then Some (VM_FAULT_SIGBUS, out_page new new (mem_cgroup_cancel_charge_swapin F t))
      else map_page_in F A a wr e new new ret t)"
    and "filed (hdr (host_at F)) e new (sw (mc (t_vm lk)))" and "PageLocked (frame_of new lk)"
proof -
  show f: "filed (hdr (host_at F)) e new (sw (mc (t_vm lk)))" using filed_frame [OF assms(2)] by (simp add: assms(4))
  show "PageLocked (frame_of new lk)" by (simp add: assms(4) frame_of_def frame_upd_def)
  have "lock_page_or_retry F new t = (True, lk)" using assms(1,3,4) by (simp add: calm_def)
  moreover have "ksm_might_need_to_copy F new a lk = (Some new, lk)" using assms(1) f by (simp add: calm_def filed_def frame_of_def)
  moreover have "PageSwapCache (frame_of new lk)" "page_private (frame_of new lk) = e" using f by (simp_all add: filed_def frame_of_def)
  ultimately show "take_swap_page F A a wr e new ret t = (let (failed, t) = mem_cgroup_try_charge_swapin F new lk in
      if failed then Some (VM_FAULT_OOM, out_page new new t)
      else if ptes (t_mm t) a \<noteq> Pte_swap e then Some (ret, out_page new new (mem_cgroup_cancel_charge_swapin F t))
      else if \<not> PageUptodate (frame_of new t) then Some (VM_FAULT_SIGBUS, out_page new new (mem_cgroup_cancel_charge_swapin F t))
      else map_page_in F A a wr e new new ret t)"
    by (simp add: take_swap_page_def Let_def)
qed

lemma own_total: "own_ok virt s \<Longrightarrow> pool_total s \<le> 2 ^ 31"
  using own_small [of virt s "pool_total s - 1"] by simp

lemma uncounted_free:
  assumes "comex_entry K e" and "no_areas s"
  shows "swap_info_get K e s = Some (None, s)" and "swap_free K X e s = Some s"
proof -
  show "swap_info_get K e s = Some (None, s)"
    using assms by (auto simp: swap_info_get_def Let_def arr_get_def comex_entry_def no_areas_def)
  then show "swap_free K X e s = Some s" by (simp add: swap_free_def)
qed

lemma try_to_free_filed:
  assumes "cache_inv K s" and "no_areas s" and "PageSwapCache (frames s pg)" and "page_private (frames s pg) = e"
    and "\<not> PageWriteback (frames s pg)" and "comex_entry K e" and "PageLocked (frames s pg)" and "\<And>k. \<not> pm_suspended_storage X k"
  shows "\<exists>u. try_to_free_swap K X pg s = Some (1, u) \<and> cached_page K e u = None"
proof -
  obtain t where t: "u_delete_from_swap_cache K pg s = Some t" "cached_page K e t = None" "swap_info t = swap_info s"
    using remove_from_cache [OF assms(1,7,3,5) assms(4) [symmetric]] by blast
  have "no_areas t" using assms(2) t(3) by (simp add: no_areas_def)
  then have "swapcache_free K X e (Some pg) t = Some t" by (rule comex_free_nothing [OF assms(6)])
  then have d: "delete_from_swap_cache K X pg s = Some (page_cache_release pg t)" using t(1) assms(4) by (simp add: delete_from_swap_cache_def)
  have "page_swapcount K pg s = Some (0, s)" using uncounted_free(1) [OF assms(6,2)] assms(4) by (simp add: page_swapcount_def)
  then show ?thesis using d assms(3,5,7,8) t(2)
    by (simp add: try_to_free_swap_def SetPageDirty_def page_cache_release_def)
qed

text \<open>A page under a COMEX entry that nobody maps belongs to whoever writes to it.\<close>

lemma reuse_filed:
  assumes "filed K e pg s" and "comex_entry K e" and "PageLocked (frames s pg)"
  shows "reuse_swap_page K X pg s = Some (True, s)"
proof -
  have n: "no_areas s" "page_private (frames s pg) = e" using assms(1) by (simp_all add: filed_def)
  have "page_swapcount K pg s = Some (0, s)" using uncounted_free(1) [OF assms(2) n(1)] n(2) by (simp add: page_swapcount_def)
  then show ?thesis using assms(1,3) by (simp add: reuse_swap_page_def filed_def)
qed

definition mapped_pte :: "('r, 'k) fault \<Rightarrow> vma_flags \<Rightarrow> bool \<Rightarrow> int \<Rightarrow> pte_t" where
  "mapped_pte F vf wr pg = (if wr then maybe_mkwrite ((mk_pte F pg vf)\<lparr>pte_dirty := True\<rparr>) vf else mk_pte F pg vf)"

lemma map_own:
  assumes "calm F" and "filed (hdr (host_at F)) e pg (sw (mc (t_vm t)))" and "comex_entry (hdr (host_at F)) e"
    and "PageLocked (frame_of pg t)"
  shows "\<exists>u. map_page_in F A a wr e pg pg ret t = Some (if wr then ret OR VM_FAULT_WRITE else ret, u) \<and>
    t_mm u = set_pte_at a (Pte_present (mapped_pte F (area_flags A) wr pg)) (count_fault (t_mm t)) \<and>
    nd (mc (t_vm u)) = nd (mc (t_vm t)) \<and> cached_page (hdr (host_at F)) e (sw (mc (t_vm u))) = None"
proof -
  let ?K = "hdr (host_at F)" and ?X = "ksv (host_at F)"
  let ?mm = "set_pte_at a (Pte_present (mapped_pte F (area_flags A) wr pg)) (count_fault (t_mm t))"
  let ?v = "do_page_add_anon_rmap F pg a wr (t_vm t)"
  have "mc ?v = mc (v_frame pg (\<lambda>p. p\<lparr>p_mapcount := p_mapcount p + 1\<rparr>) (t_vm t))" using assms(1) by (simp add: calm_def)
  then have s: "sw (mc ?v) = frame_upd pg (\<lambda>p. p\<lparr>p_mapcount := p_mapcount p + 1\<rparr>) (sw (mc (t_vm t)))" "nd (mc ?v) = nd (mc (t_vm t))"
    by (simp_all add: v_frame_def)
  have ci: "cache_inv ?K (sw (mc ?v)) = cache_inv ?K (sw (mc (t_vm t)))" by (rule cache_inv_same) (simp_all add: s frame_upd_def)
  have na: "no_areas (sw (mc ?v))" using assms(2) by (simp add: s filed_def no_areas_def) (simp add: frame_upd_def)
  have fr: "PageSwapCache (frames (sw (mc ?v)) pg)" "page_private (frames (sw (mc ?v)) pg) = e" "\<not> PageWriteback (frames (sw (mc ?v)) pg)"
      "PageLocked (frames (sw (mc ?v)) pg)"
    using assms(2,4) by (simp_all add: s filed_def frame_of_def frame_upd_def)
  have lk: "PageLocked (frames (sw (mc (t_vm t))) pg)" using assms(4) by (simp add: frame_of_def)
  have "\<And>k. \<not> pm_suspended_storage ?X k" using assms(1) by (simp add: calm_def)
  then obtain w where w: "try_to_free_swap ?K ?X pg (sw (mc ?v)) = Some (1, w)" "cached_page ?K e w = None"
    using try_to_free_filed [OF _ na fr(1-3) assms(3) fr(4)] ci assms(2) by (auto simp: filed_def)
  have cm: "mem_cgroup_commit_charge_swapin F pg x = x" for x using assms(1) by (simp add: calm_def)
  have "map_page_in F A a wr e pg pg ret t = Some (if wr then ret OR VM_FAULT_WRITE else ret,
      t_sw (unlock_page pg) \<lparr>t_mm = ?mm, t_vm = ?v\<lparr>mc := (mc ?v)\<lparr>sw := w\<rparr>\<rparr>\<rparr>)"
    using uncounted_free(2) [OF assms(3) na, of ?X] w(1) reuse_filed [OF assms(2,3) lk, of ?X] cm
    by (cases t, cases "wr") (simp_all add: map_page_in_def Let_def t_get_def on_sw_def sw_get_def mapped_pte_def)
  then show ?thesis using w(2) s(2) by (simp add: unlock_page_def)
qed

text \<open>
  A fault on an entry of type 9, for a read or a write, maps a frame that holds what was stored under the
  entry, moves one page from the swap entries of the task to its anonymous pages, gives the page of the pool
  back and leaves the swap cache without the entry; a write gets its page at once, writable where the area
  is, and never comes to \<open>do_wp_page\<close>.
\<close>

theorem fault_reads_back:
  assumes "own_fault F virt e p new (mc (t_vm t))" and "ptes (t_mm t) a = Pte_swap e"
    and "\<And>x. mem_cgroup_try_charge_swapin F new x = (False, x)"
  shows "\<exists>u. do_swap_page F A a wr e t = Some (if wr then VM_FAULT_MAJOR OR VM_FAULT_WRITE else VM_FAULT_MAJOR, u) \<and>
    t_mm u = set_pte_at a (Pte_present (mapped_pte F (area_flags A) wr new)) (count_fault (t_mm t)) \<and>
    page_data (mem (nd (mc (t_vm u)))) (kmap (ext (host_at F)) new) =
      page_data (mem (nd (mc (t_vm t)))) (here_addr (pool_page p (nd (mc (t_vm t)))) (nd (mc (t_vm t)))) \<and>
    pool_free (nd (mc (t_vm u))) = insert p (pool_free (nd (mc (t_vm t)))) \<and>
    cached_page (hdr (host_at F)) e (sw (mc (t_vm u))) = None"
proof -
  have cl: "calm F" and K: "linux_swap_h (hdr (host_at F))" "0 \<le> p" "p < 2 ^ 31" "e = swp_entry (hdr (host_at F)) 9 (word_of_int p)"
    using assms(1) own_small by (auto simp: own_fault_def)
  have ce: "comex_entry (hdr (host_at F)) e" using entry_9(1) [OF K(1-3)] by (simp add: comex_entry_def K(4))
  obtain m where m: "do_swap_page F A a wr e t = take_swap_page F A a wr e new VM_FAULT_MAJOR (t\<lparr>t_vm := (t_vm t)\<lparr>mc := m\<rparr>\<rparr>)"
    "page_data (mem (nd m)) (kmap (ext (host_at F)) new) =
      page_data (mem (nd (mc (t_vm t)))) (here_addr (pool_page p (nd (mc (t_vm t)))) (nd (mc (t_vm t))))"
    "pool_free (nd m) = insert p (pool_free (nd (mc (t_vm t))))" "filed (hdr (host_at F)) e new (sw m)" "\<not> PageLocked (frames (sw m) new)"
    using fault_reads [OF assms(1)] by blast
  define t1 where "t1 = t\<lparr>t_vm := (t_vm t)\<lparr>mc := m\<rparr>\<rparr>"
  define lk where "lk = t_sw (frame_upd new (\<lambda>p. p\<lparr>PageLocked := True\<rparr>)) t1"
  have "filed (hdr (host_at F)) e new (sw (mc (t_vm t1)))" "\<not> PageLocked (frame_of new t1)"
    using m(4,5) by (simp_all add: t1_def frame_of_def)
  note L = take_locked [OF cl this lk_def]
  have "t_mm lk = t_mm t" "nd (mc (t_vm lk)) = nd m" by (simp_all add: lk_def t1_def)
  moreover have "PageUptodate (frame_of new lk)" using L(2) by (simp add: filed_def frame_of_def)
  moreover from map_own [OF cl L(2) ce L(3)] obtain u where "map_page_in F A a wr e new new VM_FAULT_MAJOR lk =
        Some (if wr then VM_FAULT_MAJOR OR VM_FAULT_WRITE else VM_FAULT_MAJOR, u)"
    "t_mm u = set_pte_at a (Pte_present (mapped_pte F (area_flags A) wr new)) (count_fault (t_mm lk))" "nd (mc (t_vm u)) = nd (mc (t_vm lk))"
    "cached_page (hdr (host_at F)) e (sw (mc (t_vm u))) = None" by blast
  ultimately show ?thesis using m(1-3) assms(2,3) L(1) by (intro exI [of _ u]) (simp add: t1_def [symmetric])
qed

text \<open>
  C39: when the fault fails after the read, because the memory control group has no room, the table still
  names the page of the pool, which is free by now.  The exit of the task, which is what a task in want of
  memory is driven to, then gives the page back again and the pool is ill-formed.
\<close>

theorem failed_fault_then_exit:
  assumes "own_fault F virt e p new (mc (t_vm t))" and "ptes (t_mm t) a = Pte_swap e"
    and "\<And>x. mem_cgroup_try_charge_swapin F new x = (True, x)"
  shows "\<exists>u c. do_swap_page F A a wr e t = Some (VM_FAULT_OOM, u) \<and> t_mm u = t_mm t \<and> p \<in> pool_free (nd (mc (t_vm u))) \<and>
    zap_pte_range (tables_of F) (area_flags A) None a (a + 1) tlb (t_mm u) (t_vm u) =
      Some (a + 1, tlb, set_pte_at a Pte_none (t_mm t), with_pool c (t_vm u)) \<and>
    CMX_cntr (pages c p) = -1 \<and> \<not> pool_ok (nd (mc (with_pool c (t_vm u))))"
proof -
  have cl: "calm F" and K: "linux_swap_h (hdr (host_of (tables_of F)))" and e: "e = swp_entry (hdr (host_of (tables_of F))) 9 (word_of_int p)"
    using assms(1) by (simp_all add: own_fault_def host_at_def)
  obtain m where m: "do_swap_page F A a wr e t = take_swap_page F A a wr e new VM_FAULT_MAJOR (t\<lparr>t_vm := (t_vm t)\<lparr>mc := m\<rparr>\<rparr>)"
    "own_ok virt (nd m)" "pool_free (nd m) = insert p (pool_free (nd (mc (t_vm t))))" "filed (hdr (host_at F)) e new (sw m)"
    "\<not> PageLocked (frames (sw m) new)"
    using fault_reads [OF assms(1)] by blast
  define t1 where "t1 = t\<lparr>t_vm := (t_vm t)\<lparr>mc := m\<rparr>\<rparr>"
  define lk where "lk = t_sw (frame_upd new (\<lambda>p. p\<lparr>PageLocked := True\<rparr>)) t1"
  have "filed (hdr (host_at F)) e new (sw (mc (t_vm t1)))" "\<not> PageLocked (frame_of new t1)"
    using m(4,5) by (simp_all add: t1_def frame_of_def)
  note L = take_locked [OF cl this lk_def]
  define u where "u = out_page new new lk"
  have u: "t_mm u = t_mm t" "nd (mc (t_vm u)) = nd m" by (simp_all add: u_def out_page_def out_release_def Let_def lk_def t1_def)
  have d: "do_swap_page F A a wr e t = Some (VM_FAULT_OOM, u)"
    using m(1) assms(3) L(1) by (simp add: t1_def [symmetric] u_def)
  have o: "pool_ok (nd (mc (t_vm u)))" "pool_total (nd (mc (t_vm u))) \<le> 2 ^ 31" "p \<in> pool_free (nd (mc (t_vm u)))"
    using m(2,3) own_total [OF m(2)] by (simp_all add: u own_ok_def)
  have "ptes (t_mm u) a = own_pte (hdr (host_of (tables_of F))) (Some p)" using assms(2) e u(1) by simp
  from exit_twice [OF K o(1,2) this o(3), of "area_flags A" tlb] show ?thesis using d u(1) o(3) by auto
qed

section \<open>Witnesses\<close>

lemma ideal_fault_parts: "tables_of (ideal_fault b) = ideal_tables" "host_at (ideal_fault b) = ideal_host" "calm (ideal_fault b)"
  "mem_cgroup_try_charge_swapin (ideal_fault b) = (\<lambda>_ t. (b, t))"
  by (simp_all add: ideal_fault_def host_at_def ideal_tables_def calm_def plain_kserv_def)

lemma ideal_faulting:
  obtains t :: "(int \<Rightarrow> mem, unit) task" and e where "\<forall>b. own_fault (ideal_fault b) id e 3 9 (mc (t_vm t))" and "ptes (t_mm t) 10 = Pte_swap e"
    and "mm_swapents (t_mm t) = 1" and "mm_anonpages (t_mm t) = 0" and "pool_free (nd (mc (t_vm t))) = {900}"
proof -
  obtain b where b: "own_ok id ((ideal_node (\<lambda>_ _. 0))\<lparr>pool := b\<rparr>)" "pool_free ((ideal_node (\<lambda>_ _. 0))\<lparr>pool := b\<rparr>) = {900}"
    using ideal_own_exists .
  define e where "e = swp_entry std_h 9 (word_of_int 3)"
  define sz where "sz = frame_upd 9 (\<lambda>p. p\<lparr>p_mapcount := 0\<rparr>) empty_swaps"
  define t where "t = \<lparr>t_mm = no_mm\<lparr>ptes := (\<lambda>_. Pte_none)(10 := Pte_swap e), mm_swapents := 1\<rparr>,
    t_vm = \<lparr>mc = \<lparr>nd = (ideal_node (\<lambda>_ _. 0))\<lparr>pool := b\<rparr>, sw = sz\<rparr>, px = anon_px\<rparr>\<rparr>"
  have tot: "pool_total (nd (mc (t_vm t))) = 1024" using b(1) by (simp add: t_def own_ok_def plain_conf_def)
  have l: "swapper_spaces (looked_up sz) = swapper_spaces sz" "frames (looked_up sz) = frames sz"
    by (simp_all add: looked_up_def info_upd_def)
  have ci: "cache_inv std_h sz = cache_inv std_h empty_swaps" by (rule cache_inv_same) (simp_all add: sz_def frame_upd_def)
  have "cache_inv std_h (looked_up sz) = cache_inv std_h sz" by (rule cache_inv_same) (simp_all add: l)
  then have bf: "blank_frame ideal_host 9 (looked_up sz)"
    using ci ideal_cache(1) [of e] by (simp add: blank_frame_def cache_ready_def l)
      (simp add: ideal_host_def sz_def frame_upd_def empty_cache plain_page_def)
  have cr: "cache_ready std_h e sz" using ideal_cache(1) [of e] ci by (simp add: cache_ready_def sz_def) (simp add: frame_upd_def)
  have rm: "roomy (plain_kserv :: unit kserv)" by (simp add: roomy_def plain_kserv_def)
  have na: "no_areas sz" by (simp add: no_areas_def sz_def frame_upd_def empty_swaps_def small_swaps_def)
  have "own_fault (ideal_fault c) id e 3 9 (mc (t_vm t))" for c
    unfolding own_fault_def ideal_fault_parts
    using b tot bf rm na cr ideal_fault_parts(3) [of c] std_h_linux by (simp add: t_def e_def)
  then have "\<forall>b. own_fault (ideal_fault b) id e 3 9 (mc (t_vm t))" ..
  then show thesis by (rule that [of e t]) (use b in \<open>simp_all add: t_def no_mm_def\<close>)
qed

theorem fault_reads_back_witness:
  "\<exists>t e u. ptes (t_mm t) 10 = Pte_swap e \<and> do_swap_page (ideal_fault False) anon_area 10 True e t = Some (0xC, u) \<and>
     (\<exists>q. ptes (t_mm u) 10 = Pte_present q \<and> pte_pfn q = 9 \<and> pte_write q) \<and> mm_swapents (t_mm u) = 0 \<and> mm_anonpages (t_mm u) = 1 \<and>
     pool_free (nd (mc (t_vm u))) = {3, 900}"
proof -
  obtain t :: "(int \<Rightarrow> mem, unit) task" and e where t: "\<forall>b. own_fault (ideal_fault b) id e 3 9 (mc (t_vm t))"
    "ptes (t_mm t) 10 = Pte_swap e" "mm_swapents (t_mm t) = 1" "mm_anonpages (t_mm t) = 0" "pool_free (nd (mc (t_vm t))) = {900}"
    by (rule ideal_faulting)
  have "mem_cgroup_try_charge_swapin (ideal_fault False) 9 x = (False, x)" for x by (simp add: ideal_fault_parts)
  from fault_reads_back [OF t(1) [rule_format] t(2) this, of anon_area True]
  obtain u where u: "do_swap_page (ideal_fault False) anon_area 10 True e t = Some (0xC, u)"
    "t_mm u = set_pte_at 10 (Pte_present (mapped_pte (ideal_fault False) private_area True 9)) (count_fault (t_mm t))"
    "pool_free (nd (mc (t_vm u))) = insert 3 (pool_free (nd (mc (t_vm t))))"
    by (auto simp: vm_faults)
  have "pte_pfn (mapped_pte (ideal_fault False) private_area True 9) = 9" "pte_write (mapped_pte (ideal_fault False) private_area True 9)"
    by (simp_all add: mapped_pte_def maybe_mkwrite_def ideal_fault_def private_area_def)
  then show ?thesis using t u by (intro exI [of _ t] exI [of _ e] exI [of _ u]) (simp add: set_pte_at_def count_fault_def)
qed

theorem failed_fault_then_exit_witness:
  "\<exists>t e u c. do_swap_page (ideal_fault True) anon_area 10 True e t = Some (VM_FAULT_OOM, u) \<and>
     zap_pte_range ideal_tables private_area None 10 (10 + 1) (tlb_gather_mmu ideal_tables) (t_mm u) (t_vm u) =
       Some (10 + 1, tlb_gather_mmu ideal_tables, set_pte_at 10 Pte_none (t_mm t), with_pool c (t_vm u)) \<and>
     CMX_cntr (pages c 3) = -1"
proof -
  obtain t :: "(int \<Rightarrow> mem, unit) task" and e where t: "\<forall>b. own_fault (ideal_fault b) id e 3 9 (mc (t_vm t))"
    "ptes (t_mm t) 10 = Pte_swap e"
    by (rule ideal_faulting)
  have "mem_cgroup_try_charge_swapin (ideal_fault True) 9 x = (True, x)" for x by (simp add: ideal_fault_parts)
  from failed_fault_then_exit [OF t(1) [rule_format] t(2) this, of anon_area True "tlb_gather_mmu ideal_tables", unfolded anon_area_flags]
  show ?thesis unfolding ideal_fault_parts by blast
qed

end
