(* ===== verification/Comex_Walk.thy ===== *)
theory Comex_Walk
  imports Comex_Exit
begin

unbundle bit_operations_syntax

text \<open>
  The walk down the four levels of the page tables (\<open>memory.c\<close>): the removal of a range of a task's
  addresses or of all of them, and the copy of an area at a fork.  Every level is the same loop over the
  pieces of the range that lie under one entry; the locale \<open>ranges\<close> carries a property of the last level up
  through all of them.
\<close>

section \<open>Loops over pieces\<close>

text \<open>
  \<open>do \<dots> while (addr = next, addr != end)\<close>, for any kind of address; the second one breaks off at the
  first result that is not 0.
\<close>

partial_function (option) walk ::
  "('i \<Rightarrow> 'i \<Rightarrow> 'i) \<Rightarrow> ('i \<Rightarrow> 'i \<Rightarrow> 's \<Rightarrow> ('i \<times> 's) option) \<Rightarrow> 'i \<Rightarrow> 'i \<Rightarrow> 's \<Rightarrow> ('i \<times> 's) option" where
  "walk addr_end f addr till s = do {
     (addr, s) \<leftarrow> f addr (addr_end addr till) s;
     if addr \<noteq> till then walk addr_end f addr till s else Some (addr, s)
   }"

partial_function (option) walk_err ::
  "('i \<Rightarrow> 'i \<Rightarrow> 'i) \<Rightarrow> ('i \<Rightarrow> 'i \<Rightarrow> 's \<Rightarrow> (int \<times> 's) option) \<Rightarrow> 'i \<Rightarrow> 'i \<Rightarrow> 's \<Rightarrow> (int \<times> 's) option" where
  "walk_err addr_end f addr till s = do {
     let next = addr_end addr till;
     (r, s) \<leftarrow> f addr next s;
     if r \<noteq> 0 then Some (r, s)
     else if next \<noteq> till then walk_err addr_end f next till s else Some (0, s)
   }"

text \<open>The end of the piece that begins at an address: the macros \<open>p?d_addr_end\<close>, in pages.\<close>

definition piece_end :: "int \<Rightarrow> int \<Rightarrow> int \<Rightarrow> int" where
  "piece_end n addr till = min till ((addr div n + 1) * n)"

text \<open>
  What an operation promises on a range: \<open>P\<close> is what it needs and \<open>R\<close> what it does.  When both are made of
  what they say of the parts of a range that is cut at certain places, an operation that does \<open>R\<close> on each
  piece does it on the whole.
\<close>

locale ranges =
  fixes P :: "'i :: linorder \<Rightarrow> 'i \<Rightarrow> 's \<Rightarrow> bool" and R :: "'i \<Rightarrow> 'i \<Rightarrow> 's \<Rightarrow> 's \<Rightarrow> bool" and dist :: "'i \<Rightarrow> 'i \<Rightarrow> nat"
    and cut :: "'i \<Rightarrow> bool"
  assumes first: "P a c s \<Longrightarrow> a < b \<Longrightarrow> b \<le> c \<Longrightarrow> P a b s"
    and rest: "P a c s \<Longrightarrow> R a b s t \<Longrightarrow> a < b \<Longrightarrow> b < c \<Longrightarrow> cut b \<Longrightarrow> P b c t"
    and join: "P a c s \<Longrightarrow> R a b s t \<Longrightarrow> R b c t u \<Longrightarrow> a < b \<Longrightarrow> b < c \<Longrightarrow> cut b \<Longrightarrow> R a c s u"
    and closer: "a < b \<Longrightarrow> b \<le> c \<Longrightarrow> dist b c < dist a c"
begin

lemma walk_correct:
  assumes "\<And>a c. a < c \<Longrightarrow> a < addr_end a c \<and> addr_end a c \<le> c \<and> (addr_end a c = c \<or> cut (addr_end a c))"
    and "\<And>a c s. a < c \<Longrightarrow> P a c s \<Longrightarrow> addr_end a c = c \<Longrightarrow> \<exists>t. f a c s = Some (c, t) \<and> R a c s t"
    and "\<And>a c. a < c \<Longrightarrow> addr_end a (addr_end a c) = addr_end a c"
    and "a < c" and "P a c s"
  shows "\<exists>t. walk addr_end f a c s = Some (c, t) \<and> R a c s t"
  using assms(4,5)
proof (induction "dist a c" arbitrary: a s rule: less_induct)
  case less
  define b where "b = addr_end a c"
  have b: "a < b" "b \<le> c" "b = c \<or> cut b" using assms(1) less.prems(1) by (auto simp: b_def)
  have "P a b s" by (rule first [OF less.prems(2) b(1,2)])
  then obtain t where t: "f a b s = Some (b, t)" "R a b s t"
    using assms(2) [OF b(1)] assms(3) [OF less.prems(1)] by (auto simp: b_def)
  show ?case
  proof (cases "b = c")
    case True
    then show ?thesis using t by (subst walk.simps) (simp add: b_def [symmetric])
  next
    case False
    then have bc: "b < c" "cut b" using b(2,3) by simp_all
    obtain u where "walk addr_end f b c t = Some (c, u)" "R b c t u"
      using less.hyps [OF closer [OF b(1,2)] bc(1) rest [OF less.prems(2) t(2) b(1) bc]] by blast
    then show ?thesis using t(1) False join [OF less.prems(2) t(2) _ b(1) bc]
      by (intro exI [of _ u]) (subst walk.simps, simp add: b_def [symmetric])
  qed
qed

lemma walk_err_correct:
  assumes "\<And>a c. a < c \<Longrightarrow> a < addr_end a c \<and> addr_end a c \<le> c \<and> (addr_end a c = c \<or> cut (addr_end a c))"
    and "\<And>a c s. a < c \<Longrightarrow> P a c s \<Longrightarrow> addr_end a c = c \<Longrightarrow> \<exists>t. f a c s = Some (0, t) \<and> R a c s t"
    and "\<And>a c. a < c \<Longrightarrow> addr_end a (addr_end a c) = addr_end a c"
    and "a < c" and "P a c s"
  shows "\<exists>t. walk_err addr_end f a c s = Some (0, t) \<and> R a c s t"
  using assms(4,5)
proof (induction "dist a c" arbitrary: a s rule: less_induct)
  case less
  define b where "b = addr_end a c"
  have b: "a < b" "b \<le> c" "b = c \<or> cut b" using assms(1) less.prems(1) by (auto simp: b_def)
  have "P a b s" by (rule first [OF less.prems(2) b(1,2)])
  then obtain t where t: "f a b s = Some (0, t)" "R a b s t"
    using assms(2) [OF b(1)] assms(3) [OF less.prems(1)] by (auto simp: b_def)
  show ?case
  proof (cases "b = c")
    case True
    then show ?thesis using t by (subst walk_err.simps) (simp add: b_def [symmetric])
  next
    case False
    then have bc: "b < c" "cut b" using b(2,3) by simp_all
    obtain u where "walk_err addr_end f b c t = Some (0, u)" "R b c t u"
      using less.hyps [OF closer [OF b(1,2)] bc(1) rest [OF less.prems(2) t(2) b(1) bc]] by blast
    then show ?thesis using t(1) False join [OF less.prems(2) t(2) _ b(1) bc]
      by (intro exI [of _ u]) (subst walk_err.simps, simp add: b_def [symmetric])
  qed
qed

end

section \<open>Areas and levels\<close>

text \<open>What the removal and the copy of a range change.\<close>

record ('r, 'k) unmap =
  u_tlb :: mmu_gather
  u_mm :: mm_struct
  u_vm :: "('r, 'k) vm"

record ('r, 'k) fork =
  f_dst :: mm_struct
  f_src :: mm_struct
  f_vm :: "('r, 'k) vm"

text \<open>
  What the walk uses of the rest of the kernel: huge pages and the areas of \<open>hugetlbfs\<close>, the page attributes of foreign memory, pages for
  the tables, and the lists of pages that are not in the LRU yet.
\<close>

record ('r, 'k) levels =
  zap_huge_pmd :: "int \<Rightarrow> ('r, 'k) unmap \<Rightarrow> bool \<times> ('r, 'k) unmap"
  split_huge_page_pmd :: "int \<Rightarrow> ('r, 'k) unmap \<Rightarrow> ('r, 'k) unmap"
  copy_huge_pmd :: "int \<Rightarrow> ('r, 'k) fork \<Rightarrow> int \<times> ('r, 'k) fork"
  unmap_hugepage_range_final :: "vma_struct \<Rightarrow> u64 \<Rightarrow> u64 \<Rightarrow> ('r, 'k) unmap \<Rightarrow> ('r, 'k) unmap"
  copy_hugetlb_page_range :: "vma_struct \<Rightarrow> ('r, 'k) fork \<Rightarrow> int \<times> ('r, 'k) fork"
  track_pfn_copy :: "vma_struct \<Rightarrow> ('r, 'k) fork \<Rightarrow> int \<times> ('r, 'k) fork"
  pud_alloc_one :: "('r, 'k) vm \<Rightarrow> bool \<times> ('r, 'k) vm"
  pmd_alloc_one :: "('r, 'k) vm \<Rightarrow> bool \<times> ('r, 'k) vm"
  hugetlb_free_pgd_range :: "u64 \<Rightarrow> u64 \<Rightarrow> u64 \<Rightarrow> u64 \<Rightarrow> mm_struct \<Rightarrow> mm_struct"
  lru_add_drain :: "('r, 'k) vm \<Rightarrow> ('r, 'k) vm"

definition pgd_clear :: "int \<Rightarrow> mm_struct \<Rightarrow> mm_struct" where "pgd_clear i mm = mm\<lparr>pgds := (pgds mm)(i := Px_none)\<rparr>"
definition pud_clear :: "int \<Rightarrow> mm_struct \<Rightarrow> mm_struct" where "pud_clear i mm = mm\<lparr>puds := (puds mm)(i := Px_none)\<rparr>"
definition pmd_clear :: "int \<Rightarrow> mm_struct \<Rightarrow> mm_struct" where "pmd_clear i mm = mm\<lparr>pmds := (pmds mm)(i := Px_none)\<rparr>"

text \<open>A bad entry is reported and cleared.\<close>

definition pgd_clear_bad :: "int \<Rightarrow> mm_struct \<Rightarrow> mm_struct" where "pgd_clear_bad i mm = pgd_clear i mm"
definition pud_clear_bad :: "int \<Rightarrow> mm_struct \<Rightarrow> mm_struct" where "pud_clear_bad i mm = pud_clear i mm"
definition pmd_clear_bad :: "int \<Rightarrow> mm_struct \<Rightarrow> mm_struct" where "pmd_clear_bad i mm = pmd_clear i mm"

definition none_or_clear_bad :: "px \<Rightarrow> (mm_struct \<Rightarrow> mm_struct) \<Rightarrow> mm_struct \<Rightarrow> bool \<times> mm_struct" where
  "none_or_clear_bad x clear mm = (case x of Px_none \<Rightarrow> (True, mm) | Px_table \<Rightarrow> (False, mm) | _ \<Rightarrow> (True, clear mm))"

definition pgd_none_or_clear_bad :: "int \<Rightarrow> mm_struct \<Rightarrow> bool \<times> mm_struct" where
  "pgd_none_or_clear_bad i mm = none_or_clear_bad (pgds mm i) (pgd_clear_bad i) mm"

definition pud_none_or_clear_bad :: "int \<Rightarrow> mm_struct \<Rightarrow> bool \<times> mm_struct" where
  "pud_none_or_clear_bad i mm = none_or_clear_bad (puds mm i) (pud_clear_bad i) mm"

definition pmd_none_or_clear_bad :: "int \<Rightarrow> mm_struct \<Rightarrow> bool \<times> mm_struct" where
  "pmd_none_or_clear_bad i mm = none_or_clear_bad (pmds mm i) (pmd_clear_bad i) mm"

text \<open>A huge page is left alone.\<close>

definition pmd_none_or_trans_huge_or_clear_bad :: "int \<Rightarrow> mm_struct \<Rightarrow> bool \<times> mm_struct" where
  "pmd_none_or_trans_huge_or_clear_bad i mm = (if pmds mm i = Px_huge then (True, mm) else pmd_none_or_clear_bad i mm)"

text \<open>
  The number of the page at an address; an address within a page has none, since a loop that goes on in steps
  of a page would pass its end.
\<close>

definition page_no :: "u64 \<Rightarrow> int option" where
  "page_no a = (if take_bit PAGE_SHIFT a = 0 then Some (uint (drop_bit PAGE_SHIFT a)) else None)"

section \<open>Removal\<close>

definition zap_pmd ::
  "('r, 'k) tables \<Rightarrow> ('r, 'k) levels \<Rightarrow> vma_flags \<Rightarrow> zap_details option \<Rightarrow> int \<Rightarrow> int \<Rightarrow> ('r, 'k) unmap \<Rightarrow> (int \<times> ('r, 'k) unmap) option" where
  "zap_pmd T L vf details addr next u = do {
     let i = addr div pmd_pages T;
     let (zapped, u) = (if pmds (u_mm u) i = Px_huge then
         if next - addr \<noteq> pmd_pages T then (False, split_huge_page_pmd L i u) else zap_huge_pmd L i u
       else (False, u));
     if zapped then Some (next, u)
     else do {
       let (skip, mm) = pmd_none_or_trans_huge_or_clear_bad i (u_mm u);
       if skip then Some (next, u\<lparr>u_mm := mm\<rparr>)
       else do {
         (next, tlb, mm, v) \<leftarrow> zap_pte_range T vf details addr next (u_tlb u) mm (u_vm u);
         Some (next, \<lparr>u_tlb = tlb, u_mm = mm, u_vm = v\<rparr>)
       }
     }
   }"

definition zap_pmd_range ::
  "('r, 'k) tables \<Rightarrow> ('r, 'k) levels \<Rightarrow> vma_flags \<Rightarrow> zap_details option \<Rightarrow> int \<Rightarrow> int \<Rightarrow> ('r, 'k) unmap \<Rightarrow> (int \<times> ('r, 'k) unmap) option" where
  "zap_pmd_range T L vf details = walk (piece_end (pmd_pages T)) (zap_pmd T L vf details)"

definition zap_pud ::
  "('r, 'k) tables \<Rightarrow> ('r, 'k) levels \<Rightarrow> vma_flags \<Rightarrow> zap_details option \<Rightarrow> int \<Rightarrow> int \<Rightarrow> ('r, 'k) unmap \<Rightarrow> (int \<times> ('r, 'k) unmap) option" where
  "zap_pud T L vf details addr next u = do {
     let (skip, mm) = pud_none_or_clear_bad (addr div pud_pages T) (u_mm u);
     let u = u\<lparr>u_mm := mm\<rparr>;
     if skip then Some (next, u) else zap_pmd_range T L vf details addr next u
   }"

definition zap_pud_range ::
  "('r, 'k) tables \<Rightarrow> ('r, 'k) levels \<Rightarrow> vma_flags \<Rightarrow> zap_details option \<Rightarrow> int \<Rightarrow> int \<Rightarrow> ('r, 'k) unmap \<Rightarrow> (int \<times> ('r, 'k) unmap) option" where
  "zap_pud_range T L vf details = walk (piece_end (pud_pages T)) (zap_pud T L vf details)"

definition zap_pgd ::
  "('r, 'k) tables \<Rightarrow> ('r, 'k) levels \<Rightarrow> vma_flags \<Rightarrow> zap_details option \<Rightarrow> int \<Rightarrow> int \<Rightarrow> ('r, 'k) unmap \<Rightarrow> (int \<times> ('r, 'k) unmap) option" where
  "zap_pgd T L vf details addr next u = do {
     let (skip, mm) = pgd_none_or_clear_bad (addr div pgdir_pages T) (u_mm u);
     let u = u\<lparr>u_mm := mm\<rparr>;
     if skip then Some (next, u) else zap_pud_range T L vf details addr next u
   }"

text \<open>Details that restrict nothing count as none; an empty range is a bug.\<close>

definition unmap_page_range ::
  "('r, 'k) tables \<Rightarrow> ('r, 'k) levels \<Rightarrow> vma_flags \<Rightarrow> int \<Rightarrow> int \<Rightarrow> zap_details option \<Rightarrow> ('r, 'k) unmap \<Rightarrow> ('r, 'k) unmap option" where
  "unmap_page_range T L vf addr till details u = do {
     let details = (case details of
         Some d \<Rightarrow> if check_mapping d = None \<and> \<not> nonlinear_vma d then None else details | None \<Rightarrow> None);
     if till \<le> addr then None
     else do { (_, u) \<leftarrow> walk (piece_end (pgdir_pages T)) (zap_pgd T L vf details) addr till u; Some u }
   }"

text \<open>
  \<open>uprobe_munmap\<close> (for an area of a file) and \<open>untrack_pfn\<close> (for foreign memory) are left out: they act on the
  probes of the file and on the page attributes only.
\<close>

definition unmap_single_vma ::
  "('r, 'k) tables \<Rightarrow> ('r, 'k) levels \<Rightarrow> vma_struct \<Rightarrow> u64 \<Rightarrow> u64 \<Rightarrow> zap_details option \<Rightarrow> ('r, 'k) unmap \<Rightarrow> ('r, 'k) unmap option" where
  "unmap_single_vma T L area start_addr end_addr details u =
     (let start = max (vm_start area) start_addr; till = min (vm_end area) end_addr
      in if vm_end area \<le> start \<or> till \<le> vm_start area \<or> start = till then Some u
         else if VM_HUGETLB area then Some (if vm_file area then unmap_hugepage_range_final L area start till u else u)
         else do {
           a \<leftarrow> page_no start;
           b \<leftarrow> page_no till;
           unmap_page_range T L (area_flags area) a b details u
         })"

text \<open>From the area \<open>area\<close> on, as the areas of the task are linked.\<close>

fun unmap_areas ::
  "('r, 'k) tables \<Rightarrow> ('r, 'k) levels \<Rightarrow> vma_struct list \<Rightarrow> u64 \<Rightarrow> u64 \<Rightarrow> zap_details option \<Rightarrow> ('r, 'k) unmap \<Rightarrow> ('r, 'k) unmap option" where
  "unmap_areas T L [] start till details u = Some u"
| "unmap_areas T L (area # vs) start till details u =
     (if vm_start area < till then do {
        u \<leftarrow> unmap_single_vma T L area start till details u;
        unmap_areas T L vs start till details u
      }
      else Some u)"

definition unmap_vmas ::
  "('r, 'k) tables \<Rightarrow> ('r, 'k) levels \<Rightarrow> vma_struct list \<Rightarrow> u64 \<Rightarrow> u64 \<Rightarrow> ('r, 'k) unmap \<Rightarrow> ('r, 'k) unmap option" where
  "unmap_vmas T L vs start_addr end_addr u = unmap_areas T L vs start_addr end_addr None u"

definition zap_page_range ::
  "('r, 'k) tables \<Rightarrow> ('r, 'k) levels \<Rightarrow> vma_struct list \<Rightarrow> u64 \<Rightarrow> u64 \<Rightarrow> zap_details option \<Rightarrow> mm_struct \<Rightarrow> ('r, 'k) vm \<Rightarrow>
     (mm_struct \<times> ('r, 'k) vm) option" where
  "zap_page_range T L vs start len details mm v = do {
     u \<leftarrow> unmap_areas T L vs start (start + len) details \<lparr>u_tlb = tlb_gather_mmu T, u_mm = mm, u_vm = lru_add_drain L v\<rparr>;
     (_, v) \<leftarrow> tlb_finish_mmu T (u_tlb u) (u_vm u);
     Some (u_mm u, v)
   }"

definition zap_page_range_single ::
  "('r, 'k) tables \<Rightarrow> ('r, 'k) levels \<Rightarrow> vma_struct \<Rightarrow> u64 \<Rightarrow> u64 \<Rightarrow> zap_details option \<Rightarrow> mm_struct \<Rightarrow> ('r, 'k) vm \<Rightarrow>
     (mm_struct \<times> ('r, 'k) vm) option" where
  "zap_page_range_single T L area address len details mm v = do {
     u \<leftarrow> unmap_single_vma T L area address (address + len) details \<lparr>u_tlb = tlb_gather_mmu T, u_mm = mm, u_vm = lru_add_drain L v\<rparr>;
     (_, v) \<leftarrow> tlb_finish_mmu T (u_tlb u) (u_vm u);
     Some (u_mm u, v)
   }"

definition zap_vma_ptes ::
  "('r, 'k) tables \<Rightarrow> ('r, 'k) levels \<Rightarrow> vma_struct \<Rightarrow> u64 \<Rightarrow> u64 \<Rightarrow> mm_struct \<Rightarrow> ('r, 'k) vm \<Rightarrow> (int \<times> mm_struct \<times> ('r, 'k) vm) option" where
  "zap_vma_ptes T L area address len mm v =
     (if address < vm_start area \<or> vm_end area < address + len \<or> \<not> VM_PFNMAP (area_flags area) then Some (-1, mm, v)
      else do { (mm, v) \<leftarrow> zap_page_range_single T L area address len None mm v; Some (0, mm, v) })"

section \<open>Copy\<close>

text \<open>
  The table behind an entry of the first and of the second level, made when it is not there: all its entries
  are empty then.
\<close>

definition u_pud_alloc :: "('r, 'k) tables \<Rightarrow> ('r, 'k) levels \<Rightarrow> int \<Rightarrow> mm_struct \<Rightarrow> ('r, 'k) vm \<Rightarrow> int \<times> mm_struct \<times> ('r, 'k) vm" where
  "u_pud_alloc T L pgd mm v = (case pud_alloc_one L v of
     (False, v) \<Rightarrow> (- ENOMEM, mm, v)
   | (True, v) \<Rightarrow> (0, if pgds mm pgd = Px_none
        then mm\<lparr>pgds := (pgds mm)(pgd := Px_table),
                puds := (\<lambda>i. if i * pud_pages T div pgdir_pages T = pgd then Px_none else puds mm i)\<rparr> else mm, v))"

definition u_pmd_alloc :: "('r, 'k) tables \<Rightarrow> ('r, 'k) levels \<Rightarrow> int \<Rightarrow> mm_struct \<Rightarrow> ('r, 'k) vm \<Rightarrow> int \<times> mm_struct \<times> ('r, 'k) vm" where
  "u_pmd_alloc T L pud mm v = (case pmd_alloc_one L v of
     (False, v) \<Rightarrow> (- ENOMEM, mm, v)
   | (True, v) \<Rightarrow> (0, if puds mm pud = Px_none
        then mm\<lparr>puds := (puds mm)(pud := Px_table),
                pmds := (\<lambda>i. if i * pmd_pages T div pud_pages T = pud then Px_none else pmds mm i)\<rparr> else mm, v))"

definition pud_alloc :: "('r, 'k) tables \<Rightarrow> ('r, 'k) levels \<Rightarrow> int \<Rightarrow> mm_struct \<Rightarrow> ('r, 'k) vm \<Rightarrow> int \<times> mm_struct \<times> ('r, 'k) vm" where
  "pud_alloc T L pgd mm v = (if pgds mm pgd = Px_none then u_pud_alloc T L pgd mm v else (0, mm, v))"

definition pmd_alloc :: "('r, 'k) tables \<Rightarrow> ('r, 'k) levels \<Rightarrow> int \<Rightarrow> mm_struct \<Rightarrow> ('r, 'k) vm \<Rightarrow> int \<times> mm_struct \<times> ('r, 'k) vm" where
  "pmd_alloc T L pud mm v = (if puds mm pud = Px_none then u_pmd_alloc T L pud mm v else (0, mm, v))"

definition copy_pmd :: "('r, 'k) tables \<Rightarrow> ('r, 'k) levels \<Rightarrow> vma_flags \<Rightarrow> int \<Rightarrow> int \<Rightarrow> ('r, 'k) fork \<Rightarrow> (int \<times> ('r, 'k) fork) option" where
  "copy_pmd T L vf addr next c = do {
     let i = addr div pmd_pages T;
     (err, c) \<leftarrow> (if pmds (f_src c) i = Px_huge then
         if next - addr \<noteq> pmd_pages T then None else Some (copy_huge_pmd L i c)
       else Some (1, c));
     if err = - ENOMEM then Some (- ENOMEM, c)
     else if err = 0 then Some (0, c)
     else do {
       let (skip, src) = pmd_none_or_clear_bad i (f_src c);
       if skip then Some (0, c\<lparr>f_src := src\<rparr>)
       else do {
         (r, dst, src, v) \<leftarrow> copy_pte_range T vf i addr next 0 (f_dst c) src (f_vm c);
         Some (if r \<noteq> 0 then - ENOMEM else 0, \<lparr>f_dst = dst, f_src = src, f_vm = v\<rparr>)
       }
     }
   }"

definition copy_pmd_range ::
  "('r, 'k) tables \<Rightarrow> ('r, 'k) levels \<Rightarrow> vma_flags \<Rightarrow> int \<Rightarrow> int \<Rightarrow> ('r, 'k) fork \<Rightarrow> (int \<times> ('r, 'k) fork) option" where
  "copy_pmd_range T L vf addr till c = (case pmd_alloc T L (addr div pud_pages T) (f_dst c) (f_vm c) of
     (r, dst, v) \<Rightarrow>
       if r \<noteq> 0 then Some (- ENOMEM, c\<lparr>f_vm := v\<rparr>)
       else walk_err (piece_end (pmd_pages T)) (copy_pmd T L vf) addr till (c\<lparr>f_dst := dst, f_vm := v\<rparr>))"

definition copy_pud :: "('r, 'k) tables \<Rightarrow> ('r, 'k) levels \<Rightarrow> vma_flags \<Rightarrow> int \<Rightarrow> int \<Rightarrow> ('r, 'k) fork \<Rightarrow> (int \<times> ('r, 'k) fork) option" where
  "copy_pud T L vf addr next c = do {
     let (skip, src) = pud_none_or_clear_bad (addr div pud_pages T) (f_src c);
     let c = c\<lparr>f_src := src\<rparr>;
     if skip then Some (0, c)
     else do { (r, c) \<leftarrow> copy_pmd_range T L vf addr next c; Some (if r \<noteq> 0 then - ENOMEM else 0, c) }
   }"

definition copy_pud_range ::
  "('r, 'k) tables \<Rightarrow> ('r, 'k) levels \<Rightarrow> vma_flags \<Rightarrow> int \<Rightarrow> int \<Rightarrow> ('r, 'k) fork \<Rightarrow> (int \<times> ('r, 'k) fork) option" where
  "copy_pud_range T L vf addr till c = (case pud_alloc T L (addr div pgdir_pages T) (f_dst c) (f_vm c) of
     (r, dst, v) \<Rightarrow>
       if r \<noteq> 0 then Some (- ENOMEM, c\<lparr>f_vm := v\<rparr>)
       else walk_err (piece_end (pud_pages T)) (copy_pud T L vf) addr till (c\<lparr>f_dst := dst, f_vm := v\<rparr>))"

definition copy_pgd :: "('r, 'k) tables \<Rightarrow> ('r, 'k) levels \<Rightarrow> vma_flags \<Rightarrow> int \<Rightarrow> int \<Rightarrow> ('r, 'k) fork \<Rightarrow> (int \<times> ('r, 'k) fork) option" where
  "copy_pgd T L vf addr next c = do {
     let (skip, src) = pgd_none_or_clear_bad (addr div pgdir_pages T) (f_src c);
     let c = c\<lparr>f_src := src\<rparr>;
     if skip then Some (0, c)
     else do { (r, c) \<leftarrow> copy_pud_range T L vf addr next c; Some (if r \<noteq> 0 then - ENOMEM else 0, c) }
   }"

text \<open>An area without anonymous pages is left to the faults.\<close>

definition copy_page_range :: "('r, 'k) tables \<Rightarrow> ('r, 'k) levels \<Rightarrow> vma_struct \<Rightarrow> ('r, 'k) fork \<Rightarrow> (int \<times> ('r, 'k) fork) option" where
  "copy_page_range T L area c = do {
     let vf = area_flags area;
     if \<not> (VM_HUGETLB area \<or> VM_NONLINEAR area \<or> VM_PFNMAP vf \<or> VM_MIXEDMAP vf) \<and> \<not> anon_vma area then Some (0, c)
     else if VM_HUGETLB area then Some (copy_hugetlb_page_range L area c)
     else do {
       let (r, c) = (if VM_PFNMAP vf then track_pfn_copy L area c else (0, c));
       if r \<noteq> 0 then Some (r, c)
       else do {
         a \<leftarrow> page_no (vm_start area);
         b \<leftarrow> page_no (vm_end area);
         walk_err (piece_end (pgdir_pages T)) (copy_pgd T L vf) a b c
       }
     }
   }"

end
