(* ===== verification/Comex_Span.thy ===== *)
theory Comex_Span
  imports Comex_Walk
begin

unbundle bit_operations_syntax

text \<open>
  The removal of all areas of a task: the locale \<open>removing\<close> carries what the last level of the tables promises
  (\<open>zap_pte_range\<close>) up through the levels and along the list of areas.  Its first instance are tasks with
  nothing but pages of the own pool (\<open>Comex_Exit\<close>), such as a child that has not run since the fork.
\<close>

section \<open>Pieces\<close>

lemma pages_pos [simp]: "0 < pmd_pages T" "0 < pud_pages T" "0 < pgdir_pages T"
  by (simp_all add: pmd_pages_def pud_pages_def pgdir_pages_def)

lemma next_piece: "0 < n \<Longrightarrow> (a :: int) < (a div n + 1) * n"
proof -
  assume n: "0 < n"
  have "a = a div n * n + a mod n" by simp
  also have "\<dots> < a div n * n + n" using pos_mod_bound [OF n, of a] by linarith
  finally show ?thesis by (simp add: algebra_simps)
qed

lemma piece_end_bounds: "0 < n \<Longrightarrow> a < c \<Longrightarrow> a < piece_end n a c \<and> piece_end n a c \<le> c"
  using next_piece [of n a] by (simp add: piece_end_def)

lemma piece_end_twice: "piece_end n a (piece_end n a c) = piece_end n a c"
  by (simp add: piece_end_def)

text \<open>All pages of a piece lie under the same entry.\<close>

lemma piece_same:
  assumes "0 < n" and "piece_end n a c = c" and "a \<le> x" and "x < c"
  shows "x div n = a div n"
proof (rule antisym)
  have "x < (a div n + 1) * n" using assms(2,4) by (simp add: piece_end_def min_def split: if_splits)
  moreover have "x div n * n \<le> x" using assms(1) div_mult_mod_eq [of x n] pos_mod_sign [OF assms(1), of x] by linarith
  ultimately have "x div n * n < (a div n + 1) * n" by linarith
  then have "x div n < a div n + 1" using assms(1) by (simp only: mult_less_cancel_right_pos)
  then show "x div n \<le> a div n" by simp
  show "a div n \<le> x div n" using assms(1,3) by (simp add: zdiv_mono1)
qed

section \<open>Ordinary tables\<close>

text \<open>There is a last level behind an address; an entry with a table below it lies in a table itself.\<close>

definition has_table :: "('r, 'k) tables \<Rightarrow> mm_struct \<Rightarrow> int \<Rightarrow> bool" where
  "has_table T mm x \<longleftrightarrow> pmds mm (x div pmd_pages T) = Px_table"

definition plain_at :: "('r, 'k) tables \<Rightarrow> mm_struct \<Rightarrow> int \<Rightarrow> bool" where
  "plain_at T mm x \<longleftrightarrow> pgds mm (x div pgdir_pages T) \<in> {Px_none, Px_table} \<and> puds mm (x div pud_pages T) \<in> {Px_none, Px_table} \<and>
     pmds mm (x div pmd_pages T) \<in> {Px_none, Px_table} \<and>
     (puds mm (x div pud_pages T) = Px_table \<longrightarrow> pgds mm (x div pgdir_pages T) = Px_table) \<and>
     (pmds mm (x div pmd_pages T) = Px_table \<longrightarrow> puds mm (x div pud_pages T) = Px_table)"

section \<open>The areas of a task\<close>

definition first_page :: "vma_struct \<Rightarrow> int" where "first_page w = uint (drop_bit PAGE_SHIFT (vm_start w))"
definition past_page :: "vma_struct \<Rightarrow> int" where "past_page w = uint (drop_bit PAGE_SHIFT (vm_end w))"

definition area_ok :: "vma_struct \<Rightarrow> bool" where
  "area_ok w \<longleftrightarrow> take_bit PAGE_SHIFT (vm_start w) = 0 \<and> take_bit PAGE_SHIFT (vm_end w) = 0 \<and> vm_start w < vm_end w \<and> \<not> VM_HUGETLB w"

text \<open>The list of areas ascends without overlaps.\<close>

fun areas_from :: "int \<Rightarrow> vma_struct list \<Rightarrow> int \<Rightarrow> bool" where
  "areas_from lo [] hi \<longleftrightarrow> lo \<le> hi"
| "areas_from lo (w # ws) hi \<longleftrightarrow> area_ok w \<and> lo \<le> first_page w \<and> areas_from (past_page w) ws hi"

definition in_areas :: "vma_struct list \<Rightarrow> int \<Rightarrow> bool" where
  "in_areas ws x \<longleftrightarrow> (\<exists>w\<in>set ws. first_page w \<le> x \<and> x < past_page w)"

lemma page_no_uint:
  fixes a :: u64
  assumes "take_bit PAGE_SHIFT a = 0"
  shows "uint a = uint (drop_bit PAGE_SHIFT a) * 2 ^ PAGE_SHIFT"
proof -
  have "take_bit PAGE_SHIFT (uint a) = 0" using assms unsigned_take_bit_eq [of PAGE_SHIFT a] by simp
  then have "uint a mod 2 ^ PAGE_SHIFT = 0" by (simp add: take_bit_eq_mod)
  moreover have "uint (drop_bit PAGE_SHIFT a) = uint a div 2 ^ PAGE_SHIFT"
    by (simp add: PAGE_SHIFT_def drop_bit_eq_div uint_div)
  ultimately show ?thesis using div_mult_mod_eq [of "uint a" "2 ^ PAGE_SHIFT"] by simp
qed

lemma area_pages: "area_ok w \<Longrightarrow> first_page w < past_page w"
proof -
  assume w: "area_ok w"
  then have "uint (vm_start w) < uint (vm_end w)" by (simp add: area_ok_def word_less_alt)
  then show ?thesis using w page_no_uint [of "vm_start w"] page_no_uint [of "vm_end w"]
    by (simp add: area_ok_def first_page_def past_page_def)
qed

lemma areas_from_bounds: "areas_from lo ws hi \<Longrightarrow> lo \<le> hi \<and> (\<forall>w\<in>set ws. lo \<le> first_page w \<and> past_page w \<le> hi)"
proof (induction ws arbitrary: lo)
  case (Cons w ws)
  then show ?case using area_pages [of w] by fastforce
qed simp

section \<open>Removal, level by level\<close>

text \<open>
  What the removal of a range promises.  \<open>P\<close> is what it needs and \<open>R\<close> what it does, made of what they say of
  the parts of the range; \<open>busy x\<close> says that there is something to remove at address \<open>x\<close>.  When the last
  level keeps the promise, so do all the levels above it, and the loop over the areas of a task.
\<close>

locale removing =
  fixes P :: "int \<Rightarrow> int \<Rightarrow> ('r, 'k) unmap \<Rightarrow> bool" and R :: "int \<Rightarrow> int \<Rightarrow> ('r, 'k) unmap \<Rightarrow> ('r, 'k) unmap \<Rightarrow> bool"
    and T :: "('r, 'k) tables" and busy :: "int \<Rightarrow> ('r, 'k) unmap \<Rightarrow> bool"
  assumes part: "P a c u \<Longrightarrow> a \<le> b \<Longrightarrow> d \<le> c \<Longrightarrow> P b d u"
    and remaining: "P a c u \<Longrightarrow> R a b u t \<Longrightarrow> a \<le> b \<Longrightarrow> b \<le> c \<Longrightarrow> P b c t"
    and joined: "P a c u \<Longrightarrow> R a b u t \<Longrightarrow> R b c t v \<Longrightarrow> a \<le> b \<Longrightarrow> b \<le> c \<Longrightarrow> R a c u v"
    and elsewhere: "R a b u t \<Longrightarrow> b \<le> x \<Longrightarrow> busy x t \<longleftrightarrow> busy x u"
    and idle: "P a c u \<Longrightarrow> a \<le> c \<Longrightarrow> (\<And>x. a \<le> x \<Longrightarrow> x < c \<Longrightarrow> \<not> busy x u) \<Longrightarrow> R a c u u"
    and plain: "P a c u \<Longrightarrow> a \<le> x \<Longrightarrow> x < c \<Longrightarrow> plain_at T (u_mm u) x"
    and bare: "P a c u \<Longrightarrow> a \<le> x \<Longrightarrow> x < c \<Longrightarrow> \<not> has_table T (u_mm u) x \<Longrightarrow> \<not> busy x u"
    and last_level: "a < c \<Longrightarrow> P a c u \<Longrightarrow> (\<And>x. a \<le> x \<Longrightarrow> x < c \<Longrightarrow> has_table T (u_mm u) x) \<Longrightarrow>
      \<exists>t. zap_pte_range T vf None a c (u_tlb u) (u_mm u) (u_vm u) = Some (c, u_tlb t, u_mm t, u_vm t) \<and> R a c u t"

sublocale removing \<subseteq> ranges P R "\<lambda>a c. nat (c - a)" "\<lambda>_. True"
  by unfold_locales (auto intro: part remaining joined)

context removing
begin

lemma zap_pmd_removes:
  assumes "a < c" and pre: "P a c u" and p: "piece_end (pmd_pages T) a c = c"
  shows "\<exists>t. zap_pmd T L vf None a c u = Some (c, t) \<and> R a c u t"
proof -
  have same: "x div pmd_pages T = a div pmd_pages T" if "a \<le> x" "x < c" for x using piece_same [OF _ p that] by simp
  have "plain_at T (u_mm u) a" using plain [OF pre _ assms(1)] by simp
  then consider "pmds (u_mm u) (a div pmd_pages T) = Px_none" | "pmds (u_mm u) (a div pmd_pages T) = Px_table"
    by (auto simp: plain_at_def)
  then show ?thesis
  proof cases
    case 1
    have "R a c u u"
    proof (rule idle [OF pre])
      show "\<not> busy x u" if "a \<le> x" "x < c" for x using bare [OF pre that] 1 same [OF that] by (simp add: has_table_def)
    qed (use assms(1) in simp)
    moreover have "zap_pmd T L vf None a c u = Some (c, u)"
      using 1 by (simp add: zap_pmd_def pmd_none_or_trans_huge_or_clear_bad_def pmd_none_or_clear_bad_def none_or_clear_bad_def)
    ultimately show ?thesis by blast
  next
    case 2
    then have "has_table T (u_mm u) x" if "a \<le> x" "x < c" for x using same [OF that] by (simp add: has_table_def)
    from last_level [OF assms(1) pre this, of vf] obtain t where
      "zap_pte_range T vf None a c (u_tlb u) (u_mm u) (u_vm u) = Some (c, u_tlb t, u_mm t, u_vm t)" "R a c u t" by blast
    then show ?thesis
      using 2 by (simp add: zap_pmd_def pmd_none_or_trans_huge_or_clear_bad_def pmd_none_or_clear_bad_def none_or_clear_bad_def) (cases t, simp)
  qed
qed

lemma zap_pud_removes:
  assumes "a < c" and pre: "P a c u" and p: "piece_end (pud_pages T) a c = c"
  shows "\<exists>t. zap_pud T L vf None a c u = Some (c, t) \<and> R a c u t"
proof -
  have same: "x div pud_pages T = a div pud_pages T" if "a \<le> x" "x < c" for x using piece_same [OF _ p that] by simp
  consider "puds (u_mm u) (a div pud_pages T) = Px_none" | "puds (u_mm u) (a div pud_pages T) = Px_table"
    using plain [OF pre _ assms(1)] by (auto simp: plain_at_def)
  then show ?thesis
  proof cases
    case 1
    have "R a c u u"
    proof (rule idle [OF pre])
      show "\<not> busy x u" if "a \<le> x" "x < c" for x
        using bare [OF pre that] 1 same [OF that] plain [OF pre that] by (auto simp: has_table_def plain_at_def)
    qed (use assms(1) in simp)
    then show ?thesis using 1 by (simp add: zap_pud_def pud_none_or_clear_bad_def none_or_clear_bad_def)
  next
    case 2
    have "\<exists>t. walk (piece_end (pmd_pages T)) (zap_pmd T L vf None) a c u = Some (c, t) \<and> R a c u t"
      by (rule walk_correct [OF _ zap_pmd_removes]) (use assms(1) pre in \<open>auto simp: piece_end_bounds piece_end_twice\<close>)
    then show ?thesis using 2 by (simp add: zap_pud_def pud_none_or_clear_bad_def none_or_clear_bad_def zap_pmd_range_def)
  qed
qed

lemma zap_pgd_removes:
  assumes "a < c" and pre: "P a c u" and p: "piece_end (pgdir_pages T) a c = c"
  shows "\<exists>t. zap_pgd T L vf None a c u = Some (c, t) \<and> R a c u t"
proof -
  have same: "x div pgdir_pages T = a div pgdir_pages T" if "a \<le> x" "x < c" for x using piece_same [OF _ p that] by simp
  consider "pgds (u_mm u) (a div pgdir_pages T) = Px_none" | "pgds (u_mm u) (a div pgdir_pages T) = Px_table"
    using plain [OF pre _ assms(1)] by (auto simp: plain_at_def)
  then show ?thesis
  proof cases
    case 1
    have "R a c u u"
    proof (rule idle [OF pre])
      show "\<not> busy x u" if "a \<le> x" "x < c" for x
        using bare [OF pre that] 1 same [OF that] plain [OF pre that] by (auto simp: has_table_def plain_at_def)
    qed (use assms(1) in simp)
    then show ?thesis using 1 by (simp add: zap_pgd_def pgd_none_or_clear_bad_def none_or_clear_bad_def)
  next
    case 2
    have "\<exists>t. walk (piece_end (pud_pages T)) (zap_pud T L vf None) a c u = Some (c, t) \<and> R a c u t"
      by (rule walk_correct [OF _ zap_pud_removes]) (use assms(1) pre in \<open>auto simp: piece_end_bounds piece_end_twice\<close>)
    then show ?thesis using 2 by (simp add: zap_pgd_def pgd_none_or_clear_bad_def none_or_clear_bad_def zap_pud_range_def)
  qed
qed

lemma unmap_page_range_removes:
  assumes "a < c" and pre: "P a c u"
  shows "\<exists>t. unmap_page_range T L vf a c None u = Some t \<and> R a c u t"
proof -
  have "\<exists>t. walk (piece_end (pgdir_pages T)) (zap_pgd T L vf None) a c u = Some (c, t) \<and> R a c u t"
    by (rule walk_correct [OF _ zap_pgd_removes]) (use assms(1) pre in \<open>auto simp: piece_end_bounds piece_end_twice\<close>)
  then show ?thesis using assms(1) by (auto simp: unmap_page_range_def)
qed

lemma unmap_single_removes:
  assumes w: "area_ok w" and "P (first_page w) (past_page w) u"
  shows "\<exists>t. unmap_single_vma T L w 0 (- 1) None u = Some t \<and> R (first_page w) (past_page w) u t"
proof -
  have "max (vm_start w) 0 = vm_start w" "min (vm_end w) (- 1) = vm_end w" by (simp_all add: max_def min_def)
  then have "unmap_single_vma T L w 0 (- 1) None u = unmap_page_range T L (area_flags w) (first_page w) (past_page w) None u"
    using w by (auto simp: unmap_single_vma_def area_ok_def Let_def page_no_def first_page_def past_page_def)
  then show ?thesis using unmap_page_range_removes [OF area_pages [OF w] assms(2)] by simp
qed

lemma unmap_areas_removes:
  assumes "areas_from lo ws hi" and "P lo hi u"
    and "\<And>x. lo \<le> x \<Longrightarrow> x < hi \<Longrightarrow> \<not> in_areas ws x \<Longrightarrow> \<not> busy x u"
  shows "\<exists>t. unmap_areas T L ws 0 (- 1) None u = Some t \<and> R lo hi u t"
  using assms
proof (induction ws arbitrary: lo u)
  case Nil
  then show ?case using idle [OF Nil.prems(2)] by (auto simp: in_areas_def)
next
  case (Cons w ws)
  let ?p = "first_page w" and ?q = "past_page w"
  have w: "area_ok w" "lo \<le> ?p" "areas_from ?q ws hi" "?p < ?q" using Cons.prems(1) area_pages [of w] by auto
  have hi: "?q \<le> hi" "\<And>v. v \<in> set ws \<Longrightarrow> ?q \<le> first_page v" using areas_from_bounds [OF w(3)] by auto
  have pre: "P lo ?q u" "P lo ?p u" "P ?p ?q u" using part [OF Cons.prems(2)] w(2,4) hi(1) by auto
  have "R lo ?p u u"
  proof (rule idle [OF pre(2) w(2)])
    show "\<not> busy x u" if x: "lo \<le> x" "x < ?p" for x
      using x w hi by (intro Cons.prems(3)) (fastforce simp: in_areas_def)+
  qed
  moreover obtain t where t: "unmap_single_vma T L w 0 (- 1) None u = Some t" "R ?p ?q u t"
    using unmap_single_removes [OF w(1) pre(3)] by blast
  ultimately have lq: "R lo ?q u t" using joined [OF pre(1)] w by simp
  have "P ?q hi t" by (rule remaining [OF Cons.prems(2) lq]) (use w hi in auto)
  moreover have "\<not> busy x t" if "?q \<le> x" "x < hi" "\<not> in_areas ws x" for x
    using that w Cons.prems(3) [of x] elsewhere [OF lq, of x] by (fastforce simp: in_areas_def)
  ultimately obtain v where v: "unmap_areas T L ws 0 (- 1) None t = Some v" "R ?q hi t v"
    using Cons.IH [OF w(3)] by blast
  have "vm_start w < - 1" using w(1) by (metis area_ok_def order_less_le_trans word_n1_ge)
  then show ?case using t(1) v(1) joined [OF Cons.prems(2) lq v(2)] w hi by simp
qed

end

section \<open>Tasks with nothing but pages of the pool\<close>

text \<open>
  The range has ordinary tables only, and \<open>f x\<close> is the page of the pool behind address \<open>x\<close>, if there is one.
\<close>

definition own_tree :: "swap_h \<Rightarrow> ('r, 'k) tables \<Rightarrow> (int \<Rightarrow> int option) \<Rightarrow> int \<Rightarrow> int \<Rightarrow> mm_struct \<Rightarrow> bool" where
  "own_tree K T f a till mm \<longleftrightarrow> (\<forall>x. a \<le> x \<longrightarrow> x < till \<longrightarrow>
     plain_at T mm x \<and> (if has_table T mm x then ptes mm x = own_pte K (f x) else f x = None))"

definition emptied :: "('r, 'k) tables \<Rightarrow> int \<Rightarrow> int \<Rightarrow> mm_struct \<Rightarrow> mm_struct" where
  "emptied T a till mm = mm\<lparr>ptes := (\<lambda>x. if a \<le> x \<and> x < till \<and> has_table T mm x then Pte_none else ptes mm x)\<rparr>"

definition exit_pre :: "('r, 'k) tables \<Rightarrow> (int \<Rightarrow> int option) \<Rightarrow> int \<Rightarrow> int \<Rightarrow> ('r, 'k) unmap \<Rightarrow> bool" where
  "exit_pre T f a till u \<longleftrightarrow> pool_ok (nd (mc (u_vm u))) \<and> pool_total (nd (mc (u_vm u))) \<le> 2 ^ 31 \<and>
     own_tree (hdr (host_of T)) T f a till (u_mm u) \<and> held_ok f a till (nd (mc (u_vm u)))"

definition exit_post :: "('r, 'k) tables \<Rightarrow> (int \<Rightarrow> int option) \<Rightarrow> int \<Rightarrow> int \<Rightarrow> ('r, 'k) unmap \<Rightarrow> ('r, 'k) unmap \<Rightarrow> bool" where
  "exit_post T f a till u t \<longleftrightarrow> (\<exists>b. t = u\<lparr>u_mm := emptied T a till (u_mm u), u_vm := with_pool b (u_vm u)\<rparr>) \<and>
     pool_ok (nd (mc (u_vm t))) \<and> pool_total (nd (mc (u_vm t))) = pool_total (nd (mc (u_vm u))) \<and>
     pool_free (nd (mc (u_vm t))) = pool_free (nd (mc (u_vm u))) \<union> held f a till"

lemma has_table_emptied [simp]: "has_table T (emptied T' a till mm) x = has_table T mm x" "plain_at T (emptied T' a till mm) x = plain_at T mm x"
  by (simp_all add: has_table_def plain_at_def emptied_def)

lemma held_split: "a \<le> b \<Longrightarrow> b \<le> c \<Longrightarrow> held f a c = held f a b \<union> held f b c"
proof -
  assume "a \<le> b" "b \<le> c"
  then have "{a..<c} = {a..<b} \<union> {b..<c}" by auto
  then show ?thesis by (simp add: held_def)
qed

lemma held_ok_part: "held_ok f a c s \<Longrightarrow> a \<le> b \<Longrightarrow> d \<le> c \<Longrightarrow> held_ok f b d s"
  unfolding held_ok_def by (meson order_trans order_less_le_trans)

lemma held_ok_rest:
  assumes "held_ok f a c s" and "a \<le> b" and "pool_total t = pool_total s" and "pool_free t = pool_free s \<union> held f a b"
  shows "held_ok f b c t"
proof -
  have "p \<notin> held f a b" if x: "b \<le> x" "x < c" "f x = Some p" for x p
  proof
    assume "p \<in> held f a b"
    then obtain y where y: "a \<le> y" "y < b" "f y = Some p" by (auto simp: held_def)
    have "a \<le> x" "y < c" using x y assms(2) by linarith+
    then have "y = x" using assms(1) x y unfolding held_ok_def by blast
    then show False using x y by simp
  qed
  moreover have "held_ok f b c s" by (rule held_ok_part [OF assms(1,2) order_refl])
  ultimately show ?thesis using assms(3,4) unfolding held_ok_def by (metis Un_iff)
qed

lemma exit_pre_part: "exit_pre T f a c u \<Longrightarrow> a \<le> b \<Longrightarrow> d \<le> c \<Longrightarrow> exit_pre T f b d u"
  using held_ok_part [of f a c _ b d] by (auto simp: exit_pre_def own_tree_def)

lemma exit_pre_plain: "exit_pre T f a c u \<Longrightarrow> a \<le> x \<Longrightarrow> x < c \<Longrightarrow> plain_at T (u_mm u) x"
  by (simp add: exit_pre_def own_tree_def)

lemma exit_pre_bare: "exit_pre T f a c u \<Longrightarrow> a \<le> x \<Longrightarrow> x < c \<Longrightarrow> \<not> has_table T (u_mm u) x \<Longrightarrow> f x = None"
  by (simp add: exit_pre_def own_tree_def)

lemma exit_pre_rest:
  assumes "exit_pre T f a c s" and "exit_post T f a b s t" and "a \<le> b"
  shows "exit_pre T f b c t"
proof -
  have "own_tree (hdr (host_of T)) T f b c (u_mm t)"
    using assms by (auto simp: exit_pre_def exit_post_def own_tree_def) (auto simp: emptied_def)
  then show ?thesis
    using assms held_ok_rest [of f a c "nd (mc (u_vm s))" b "nd (mc (u_vm t))"] by (auto simp: exit_pre_def exit_post_def)
qed

lemma exit_post_join:
  assumes "exit_post T f a b s t" and "exit_post T f b c t u" and "a \<le> b" and "b \<le> c"
  shows "exit_post T f a c s u"
proof -
  have "emptied T b c (emptied T a b mm) = emptied T a c mm" for mm
    using assms(3,4) by (auto simp: emptied_def has_table_def fun_eq_iff)
  then show ?thesis using assms held_split [of a b c f] by (auto simp: exit_post_def)
qed

text \<open>Where no address has a page, there is nothing to do.\<close>

lemma exit_nothing:
  assumes "exit_pre T f a c u" and "\<And>x. a \<le> x \<Longrightarrow> x < c \<Longrightarrow> f x = None"
  shows "exit_post T f a c u u"
proof -
  have "held f a c = {}" using assms(2) by (auto simp: held_def)
  moreover have "(\<lambda>x. if a \<le> x \<and> x < c \<and> has_table T (u_mm u) x then Pte_none else ptes (u_mm u) x) = ptes (u_mm u)"
    using assms by (auto simp: fun_eq_iff exit_pre_def own_tree_def)
  then have "emptied T a c (u_mm u) = u_mm u" by (simp add: emptied_def)
  ultimately show ?thesis using assms(1) by (auto simp: exit_post_def exit_pre_def intro!: exI [of _ "pool (nd (mc (u_vm u)))"])
qed

lemma zap_table_own:
  assumes K: "linux_swap_h (hdr (host_of T))" and "a < c" and pre: "exit_pre T f a c u"
    and t: "\<And>x. a \<le> x \<Longrightarrow> x < c \<Longrightarrow> has_table T (u_mm u) x"
  shows "\<exists>t. zap_pte_range T vf None a c (u_tlb u) (u_mm u) (u_vm u) = Some (c, u_tlb t, u_mm t, u_vm t) \<and> exit_post T f a c u t"
proof -
  have own: "own_range (hdr (host_of T)) f a c (u_mm u)" using pre t by (auto simp: exit_pre_def own_tree_def own_range_def)
  have pool: "pool_ok (nd (mc (u_vm u)))" "pool_total (nd (mc (u_vm u))) \<le> 2 ^ 31" and own_held: "held_ok f a c (nd (mc (u_vm u)))"
    using pre by (simp_all add: exit_pre_def)
  obtain b where b: "zap_pte_range T vf None a c (u_tlb u) (u_mm u) (u_vm u) = Some (c, u_tlb u, cleared a c (u_mm u), with_pool b (u_vm u))"
    "pool_ok ((nd (mc (u_vm u)))\<lparr>pool := b\<rparr>)" "pool_total ((nd (mc (u_vm u)))\<lparr>pool := b\<rparr>) = pool_total (nd (mc (u_vm u)))"
    "pool_free ((nd (mc (u_vm u)))\<lparr>pool := b\<rparr>) = pool_free (nd (mc (u_vm u))) \<union> held f a c"
    by (rule zap_own_range [OF K assms(2) pool own own_held])
  have e: "cleared a c (u_mm u) = emptied T a c (u_mm u)" using t by (auto simp: cleared_def emptied_def intro!: mm_struct.equality)
  show ?thesis using b e by (intro exI [of _ "\<lparr>u_tlb = u_tlb u, u_mm = emptied T a c (u_mm u), u_vm = with_pool b (u_vm u)\<rparr>"])
      (auto simp: exit_post_def intro!: exI [of _ b] unmap.equality)
qed

interpretation exiting: removing "\<lambda>a c u. linux_swap_h (hdr (host_of T)) \<and> exit_pre T f a c u" "exit_post T f" T "\<lambda>x u. f x \<noteq> None"
  for T :: "('r, 'k) tables" and f
proof unfold_locales
  fix a c u vf assume a: "a < c" "linux_swap_h (hdr (host_of T)) \<and> exit_pre T f a c u"
    and t: "\<And>x. a \<le> x \<Longrightarrow> x < c \<Longrightarrow> has_table T (u_mm u) x"
  then show "\<exists>t. zap_pte_range T vf None a c (u_tlb u) (u_mm u) (u_vm u) = Some (c, u_tlb t, u_mm t, u_vm t) \<and> exit_post T f a c u t"
    using zap_table_own by blast
qed (auto intro: exit_pre_part exit_pre_rest exit_post_join exit_nothing dest: exit_pre_plain exit_pre_bare)

lemma unmap_areas_own:
  assumes K: "linux_swap_h (hdr (host_of T))" and "areas_from lo ws hi" and "exit_pre T f lo hi u"
    and "\<And>x. lo \<le> x \<Longrightarrow> x < hi \<Longrightarrow> \<not> in_areas ws x \<Longrightarrow> f x = None"
  shows "\<exists>t. unmap_areas T L ws 0 (- 1) None u = Some t \<and> exit_post T f lo hi u t"
  using assms by (intro exiting.unmap_areas_removes) auto

section \<open>Levels and areas for examples\<close>

definition ideal_levels :: "(int \<Rightarrow> mem, unit) levels" where
  "ideal_levels = \<lparr>zap_huge_pmd = (\<lambda>_ u. (True, u)), split_huge_page_pmd = (\<lambda>_ u. u),
     copy_huge_pmd = (\<lambda>_ c. (0, c)), unmap_hugepage_range_final = (\<lambda>_ _ _ u. u), copy_hugetlb_page_range = (\<lambda>_ c. (0, c)),
     track_pfn_copy = (\<lambda>_ c. (0, c)), pud_alloc_one = (\<lambda>v. (True, v)), pmd_alloc_one = (\<lambda>v. (True, v)),
     hugetlb_free_pgd_range = (\<lambda>_ _ _ _ mm. mm), lru_add_drain = (\<lambda>v. v)\<rparr>"

definition area_at :: "u64 \<Rightarrow> u64 \<Rightarrow> vma_struct" where
  "area_at a b = \<lparr>vm_start = a, vm_end = b, area_flags = private_area, vm_file = False, anon_vma = True, VM_HUGETLB = False, VM_NONLINEAR = False\<rparr>"

text \<open>Two areas under two entries of the second last level.\<close>

definition three_pages :: "int \<Rightarrow> int option" where
  "three_pages x = (if x = 10 then Some 3 else if x = 12 then Some 7 else if x = 600 then Some 9 else None)"

definition three_mm :: mm_struct where
  "three_mm = no_mm\<lparr>pgds := (\<lambda>i. if i = 0 then Px_table else Px_none), puds := (\<lambda>i. if i = 0 then Px_table else Px_none),
     pmds := (\<lambda>i. if i = 0 \<or> i = 1 then Px_table else Px_none), nr_ptes := 2, ptes := (\<lambda>x. own_pte std_h (three_pages x)), mm_swapents := 3\<rparr>"

lemma three_tree: "own_tree std_h ideal_tables three_pages 0 (2 ^ 52) three_mm"
proof -
  have l: "pmd_pages ideal_tables = 512" "pud_pages ideal_tables = 262144" "pgdir_pages ideal_tables = 134217728"
    by (simp_all add: pmd_pages_def pud_pages_def pgdir_pages_def ideal_tables_def PAGE_SHIFT_def)
  have "plain_at ideal_tables three_mm x" if "0 \<le> x" for x
  proof -
    have "x div 512 \<in> {0, 1} \<Longrightarrow> x div 262144 = 0" "x div 262144 = 0 \<Longrightarrow> x div 134217728 = 0" using that by auto
    then show ?thesis by (auto simp: plain_at_def l three_mm_def no_mm_def)
  qed
  moreover have "if has_table ideal_tables three_mm x then ptes three_mm x = own_pte std_h (three_pages x) else three_pages x = None" for x
    by (auto simp: has_table_def l three_mm_def three_pages_def)
  ultimately show ?thesis by (simp add: own_tree_def)
qed

end
