(* ===== verification/Comex_Fork.thy ===== *)
theory Comex_Fork
  imports Comex_Span
begin

unbundle bit_operations_syntax

text \<open>
  The fork of a whole area: the tables of the child are made level by level, and every entry of the own pool
  is copied.  Then the end of parent and child one after the other.
\<close>

section \<open>The tables of the child\<close>

definition levels_ok :: "('r, 'k) tables \<Rightarrow> bool" where
  "levels_ok T \<longleftrightarrow> PMD_SHIFT T \<le> PUD_SHIFT T \<and> PUD_SHIFT T \<le> PGDIR_SHIFT T"

lemma nested_div:
  assumes "0 < m" and "0 < n" and "m dvd n" and "x div m = y div m"
  shows "(x :: int) div n = y div n"
proof -
  obtain k where k: "n = m * k" using assms(3) by (elim dvdE)
  then have "0 \<le> k" using assms(1,2) zero_less_mult_pos [of m k] by simp
  then have "z div n = z div m div k" for z by (simp add: k zdiv_zmult2_eq)
  then show ?thesis using assms(4) by simp
qed

lemma nested_start: "0 < m \<Longrightarrow> 0 < n \<Longrightarrow> m dvd n \<Longrightarrow> (x div m) * m div n = (x :: int) div n"
  by (rule nested_div) auto

lemma levels_dvd: "levels_ok T \<Longrightarrow> pmd_pages T dvd pud_pages T" "levels_ok T \<Longrightarrow> pud_pages T dvd pgdir_pages T"
  by (simp_all add: levels_ok_def pmd_pages_def pud_pages_def pgdir_pages_def le_imp_power_dvd diff_le_mono)

text \<open>Tables are only added, and what lies behind an address that has one stays.\<close>

definition grows :: "('r, 'k) tables \<Rightarrow> mm_struct \<Rightarrow> mm_struct \<Rightarrow> bool" where
  "grows T m n \<longleftrightarrow> (\<forall>x. plain_at T m x \<longrightarrow> plain_at T n x \<and>
     (pgds m (x div pgdir_pages T) = Px_table \<longrightarrow> pgds n (x div pgdir_pages T) = Px_table) \<and>
     (puds m (x div pud_pages T) = Px_table \<longrightarrow> puds n (x div pud_pages T) = Px_table) \<and>
     (has_table T m x \<longrightarrow> has_table T n x))"

definition keeps_pte :: "('r, 'k) tables \<Rightarrow> mm_struct \<Rightarrow> mm_struct \<Rightarrow> int \<Rightarrow> bool" where
  "keeps_pte T m n x \<longleftrightarrow> (plain_at T m x \<longrightarrow> ptes n x = ptes m x \<or> \<not> has_table T m x \<and> ptes n x = Pte_none)"

lemma grows_refl [simp]: "grows T m m" and keeps_refl [simp]: "keeps_pte T m m x"
  by (simp_all add: grows_def keeps_pte_def)

lemma grows_trans: "grows T l m \<Longrightarrow> grows T m n \<Longrightarrow> grows T l n"
  unfolding grows_def by blast

lemma keeps_pte_trans: "grows T l m \<Longrightarrow> keeps_pte T l m x \<Longrightarrow> keeps_pte T m n x \<Longrightarrow> keeps_pte T l n x"
  unfolding grows_def keeps_pte_def by metis

lemma grown_pud:
  assumes "levels_ok T" and "pgds m g = Px_none"
  defines "n \<equiv> m\<lparr>pgds := (pgds m)(g := Px_table), puds := (\<lambda>i. if i * pud_pages T div pgdir_pages T = g then Px_none else puds m i)\<rparr>"
  shows "grows T m n"
  unfolding grows_def
proof (intro allI impI)
  fix x assume p: "plain_at T m x"
  have i: "(x div pud_pages T) * pud_pages T div pgdir_pages T = x div pgdir_pages T"
    using nested_start [OF _ _ levels_dvd(2) [OF assms(1)]] by simp
  show "plain_at T n x \<and> (pgds m (x div pgdir_pages T) = Px_table \<longrightarrow> pgds n (x div pgdir_pages T) = Px_table) \<and>
     (puds m (x div pud_pages T) = Px_table \<longrightarrow> puds n (x div pud_pages T) = Px_table) \<and> (has_table T m x \<longrightarrow> has_table T n x)"
    using p assms(2) i by (auto simp: plain_at_def has_table_def n_def)
qed

lemma grown_pmd:
  assumes "levels_ok T" and "puds m w = Px_none" and "pgds m (w * pud_pages T div pgdir_pages T) = Px_table"
  defines "n \<equiv> m\<lparr>puds := (puds m)(w := Px_table), pmds := (\<lambda>i. if i * pmd_pages T div pud_pages T = w then Px_none else pmds m i)\<rparr>"
  shows "grows T m n"
  unfolding grows_def
proof (intro allI impI)
  fix x assume p: "plain_at T m x"
  have i: "(x div pmd_pages T) * pmd_pages T div pud_pages T = x div pud_pages T"
    "(x div pud_pages T) * pud_pages T div pgdir_pages T = x div pgdir_pages T"
    using nested_start [OF _ _ levels_dvd(1) [OF assms(1)]] nested_start [OF _ _ levels_dvd(2) [OF assms(1)]] by simp_all
  show "plain_at T n x \<and> (pgds m (x div pgdir_pages T) = Px_table \<longrightarrow> pgds n (x div pgdir_pages T) = Px_table) \<and>
     (puds m (x div pud_pages T) = Px_table \<longrightarrow> puds n (x div pud_pages T) = Px_table) \<and> (has_table T m x \<longrightarrow> has_table T n x)"
    using p assms(2,3) i by (auto simp: plain_at_def has_table_def n_def)
qed

lemma grown_pte:
  assumes "levels_ok T" and "puds m (i * pmd_pages T div pud_pages T) = Px_table" and "pgds m (i * pmd_pages T div pgdir_pages T) = Px_table"
  shows "grows T m (with_table T i m)" and "keeps_pte T m (with_table T i m) x"
proof -
  have d: "pmd_pages T dvd pgdir_pages T" using levels_dvd [OF assms(1)] by (rule dvd_trans)
  have i: "(x div pmd_pages T) * pmd_pages T div pud_pages T = x div pud_pages T"
    "(x div pmd_pages T) * pmd_pages T div pgdir_pages T = x div pgdir_pages T" for x
    using nested_start [OF _ _ levels_dvd(1) [OF assms(1)]] nested_start [OF _ _ d] by simp_all
  show "grows T m (with_table T i m)"
    using assms(2,3) i by (auto simp: grows_def plain_at_def has_table_def with_table_def pmd_populate_def)
  show "keeps_pte T m (with_table T i m) x"
    by (auto simp: keeps_pte_def has_table_def with_table_def pmd_populate_def)
qed

section \<open>The copy\<close>

text \<open>The tables of the first \<open>k\<close> levels are there.\<close>

definition below_at :: "('r, 'k) tables \<Rightarrow> nat \<Rightarrow> mm_struct \<Rightarrow> int \<Rightarrow> bool" where
  "below_at T k mm x \<longleftrightarrow> plain_at T mm x \<and> (1 \<le> k \<longrightarrow> pgds mm (x div pgdir_pages T) = Px_table) \<and>
     (2 \<le> k \<longrightarrow> puds mm (x div pud_pages T) = Px_table)"

definition pages_for_tables :: "('r, 'k) tables \<Rightarrow> ('r, 'k) levels \<Rightarrow> ('r, 'k) vm \<Rightarrow> bool" where
  "pages_for_tables T L v \<longleftrightarrow> pte_alloc_one T v = (True, v) \<and> pmd_alloc_one L v = (True, v) \<and> pud_alloc_one L v = (True, v)"

definition fork_pre :: "('r, 'k) tables \<Rightarrow> ('r, 'k) levels \<Rightarrow> (int \<Rightarrow> int option) \<Rightarrow> nat \<Rightarrow> int \<Rightarrow> int \<Rightarrow> ('r, 'k) fork \<Rightarrow> bool" where
  "fork_pre T L f k a till c \<longleftrightarrow> own_tree (hdr (host_of T)) T f a till (f_src c) \<and> pages_for_tables T L (f_vm c) \<and>
     (\<forall>x. a \<le> x \<longrightarrow> x < till \<longrightarrow> below_at T k (f_dst c) x \<and> ptes (f_dst c) x = Pte_none)"

definition fork_post :: "('r, 'k) tables \<Rightarrow> (int \<Rightarrow> int option) \<Rightarrow> int \<Rightarrow> int \<Rightarrow> ('r, 'k) fork \<Rightarrow> ('r, 'k) fork \<Rightarrow> bool" where
  "fork_post T f a till c t \<longleftrightarrow> f_src t = f_src c \<and> f_vm t = f_vm c \<and> grows T (f_dst c) (f_dst t) \<and>
     mm_swapents (f_dst t) = mm_swapents (f_dst c) + named f a till \<and>
     (\<forall>x. \<not> (a \<le> x \<and> x < till) \<longrightarrow> keeps_pte T (f_dst c) (f_dst t) x) \<and> own_tree (hdr (host_of T)) T f a till (f_src c) \<and>
     (\<forall>x. a \<le> x \<longrightarrow> x < till \<longrightarrow> plain_at T (f_dst t) x \<and> ptes (f_dst t) x = own_pte (hdr (host_of T)) (f x) \<and>
        (has_table T (f_src c) x \<longrightarrow> has_table T (f_dst t) x))"

lemma grows_below: "grows T m n \<Longrightarrow> below_at T k m x \<Longrightarrow> below_at T k n x"
  unfolding grows_def below_at_def by blast

lemma fork_pre_part: "fork_pre T L f k a c s \<Longrightarrow> a \<le> b \<Longrightarrow> d \<le> c \<Longrightarrow> fork_pre T L f k b d s"
  by (auto simp: fork_pre_def own_tree_def)

lemma fork_pre_rest:
  assumes pre: "fork_pre T L f k a c s" and post: "fork_post T f a b s t" and "a \<le> b"
  shows "fork_pre T L f k b c t"
proof -
  have "below_at T k (f_dst t) x \<and> ptes (f_dst t) x = Pte_none" if "b \<le> x" "x < c" for x
  proof -
    have x: "below_at T k (f_dst s) x" "ptes (f_dst s) x = Pte_none" using pre that assms(3) by (auto simp: fork_pre_def)
    moreover have "grows T (f_dst s) (f_dst t)" "keeps_pte T (f_dst s) (f_dst t) x" using post that by (auto simp: fork_post_def)
    ultimately show ?thesis using grows_below [of T "f_dst s" "f_dst t" k x] by (auto simp: keeps_pte_def below_at_def)
  qed
  then show ?thesis using pre post assms(3) by (auto simp: fork_pre_def fork_post_def own_tree_def)
qed

lemma own_tree_join: "own_tree K T f a b mm \<Longrightarrow> own_tree K T f b c mm \<Longrightarrow> own_tree K T f a c mm"
  unfolding own_tree_def
proof (intro allI impI)
  fix x
  assume l: "\<forall>x. a \<le> x \<longrightarrow> x < b \<longrightarrow> plain_at T mm x \<and> (if has_table T mm x then ptes mm x = own_pte K (f x) else f x = None)"
    and r: "\<forall>x. b \<le> x \<longrightarrow> x < c \<longrightarrow> plain_at T mm x \<and> (if has_table T mm x then ptes mm x = own_pte K (f x) else f x = None)"
    and x: "a \<le> x" "x < c"
  show "plain_at T mm x \<and> (if has_table T mm x then ptes mm x = own_pte K (f x) else f x = None)"
  proof (cases "x < b")
    case True
    then show ?thesis using l x by blast
  next
    case False
    then have "b \<le> x" by simp
    then show ?thesis using r x by blast
  qed
qed

lemma fork_post_join:
  assumes one: "fork_post T f a b s t" and two: "fork_post T f b c t u" and "a \<le> b" and "b \<le> c"
  shows "fork_post T f a c s u"
proof -
  let ?K = "hdr (host_of T)"
  have g: "grows T (f_dst s) (f_dst t)" "grows T (f_dst t) (f_dst u)" and src: "f_src t = f_src s"
    using one two by (simp_all add: fork_post_def)
  have left: "plain_at T (f_dst u) x \<and> ptes (f_dst u) x = own_pte ?K (f x) \<and> (has_table T (f_src s) x \<longrightarrow> has_table T (f_dst u) x)"
    if x: "a \<le> x" "x < b" for x
  proof -
    have t: "plain_at T (f_dst t) x" "ptes (f_dst t) x = own_pte ?K (f x)" "has_table T (f_src s) x \<longrightarrow> has_table T (f_dst t) x"
      using one x by (auto simp: fork_post_def)
    have "\<not> has_table T (f_src s) x \<Longrightarrow> f x = None" using one x by (auto simp: fork_post_def own_tree_def)
    moreover have "keeps_pte T (f_dst t) (f_dst u) x" using two x by (auto simp: fork_post_def)
    ultimately show ?thesis using t g(2) unfolding grows_def keeps_pte_def by (metis own_pte.simps(1))
  qed
  have "own_tree ?K T f a c (f_src s)"
    by (rule own_tree_join [of _ T f a b]) (use one two src in \<open>simp_all add: fork_post_def\<close>)
  moreover have "keeps_pte T (f_dst s) (f_dst u) x" if "\<not> (a \<le> x \<and> x < c)" for x
  proof (rule keeps_pte_trans [OF g(1)])
    show "keeps_pte T (f_dst s) (f_dst t) x" "keeps_pte T (f_dst t) (f_dst u) x"
      using one two that assms(3,4) by (auto simp: fork_post_def)
  qed
  moreover have "plain_at T (f_dst u) x \<and> ptes (f_dst u) x = own_pte ?K (f x) \<and> (has_table T (f_src s) x \<longrightarrow> has_table T (f_dst u) x)"
    if "a \<le> x" "x < c" for x
  proof (cases "x < b")
    case False
    then have "b \<le> x" by simp
    then show ?thesis using two that(2) src by (simp add: fork_post_def)
  qed (use left that in blast)
  ultimately show ?thesis using one two grows_trans [OF g] named_split [OF assms(3,4), of f] unfolding fork_post_def by auto
qed

interpretation forking: ranges "fork_pre T L f k" "fork_post T f" "\<lambda>a c. nat (c - a)" "\<lambda>_. True" for T :: "('r, 'k) tables" and L and f and k
  by unfold_locales (auto intro: fork_pre_part fork_pre_rest fork_post_join)

lemma fork_nothing:
  assumes "fork_pre T L f k a c s" and "\<And>x. a \<le> x \<Longrightarrow> x < c \<Longrightarrow> \<not> has_table T (f_src s) x"
  shows "fork_post T f a c s s"
proof -
  have n: "f x = None" if "a \<le> x" "x < c" for x using assms that by (auto simp: fork_pre_def own_tree_def)
  then have "named f a c = 0" by (simp add: named_def)
  then show ?thesis using assms n by (auto simp: fork_post_def fork_pre_def below_at_def)
qed

lemma copy_pmd_own:
  assumes K: "linux_swap_h (hdr (host_of T))" and lv: "levels_ok T" and sm: "pages_small f" and "a < c"
    and pre: "fork_pre T L f 2 a c s" and p: "piece_end (pmd_pages T) a c = c"
  shows "\<exists>t. copy_pmd T L vf a c s = Some (0, t) \<and> fork_post T f a c s t"
proof -
  let ?i = "a div pmd_pages T" and ?K = "hdr (host_of T)"
  have same: "x div pmd_pages T = ?i" if "a \<le> x" "x < c" for x using piece_same [OF _ p that] by simp
  have "plain_at T (f_src s) a" using pre assms(4) by (simp add: fork_pre_def own_tree_def)
  then consider "pmds (f_src s) ?i = Px_none" | "pmds (f_src s) ?i = Px_table" by (auto simp: plain_at_def)
  then show ?thesis
  proof cases
    case 1
    have "fork_post T f a c s s"
    proof (rule fork_nothing [OF pre])
      show "\<not> has_table T (f_src s) x" if "a \<le> x" "x < c" for x using 1 same [OF that] by (simp add: has_table_def)
    qed
    then show ?thesis using 1 by (simp add: copy_pmd_def pmd_none_or_clear_bad_def none_or_clear_bad_def ENOMEM_def)
  next
    case 2
    have "has_table T (f_src s) x" if "a \<le> x" "x < c" for x using 2 same [OF that] by (simp add: has_table_def)
    then have own: "own_range ?K f a c (f_src s)" using pre by (auto simp: fork_pre_def own_tree_def own_range_def)
    have pa: "pte_alloc_one T (f_vm s) = (True, f_vm s)" using pre by (simp add: fork_pre_def pages_for_tables_def)
    let ?w = "with_table T ?i (f_dst s)"
    let ?t = "s\<lparr>f_dst := (filled ?K f a c ?w)\<lparr>mm_swapents := mm_swapents (f_dst s) + named f a c\<rparr>\<rparr>"
    have "copy_pmd T L vf a c s = Some (0, ?t)"
      using 2 copy_own_range [OF K sm pa assms(4) own, of vf ?i "f_dst s"]
      by (simp add: copy_pmd_def pmd_none_or_clear_bad_def none_or_clear_bad_def ENOMEM_def)
    moreover have "fork_post T f a c s ?t"
    proof -
      have at: "below_at T 2 (f_dst s) a" using pre assms(4) by (simp add: fork_pre_def)
      have d: "pmd_pages T dvd pgdir_pages T" using levels_dvd [OF lv] by (rule dvd_trans)
      have "puds (f_dst s) (?i * pmd_pages T div pud_pages T) = Px_table" "pgds (f_dst s) (?i * pmd_pages T div pgdir_pages T) = Px_table"
        using at nested_start [OF _ _ levels_dvd(1) [OF lv], of a] nested_start [OF _ _ d, of a] by (simp_all add: below_at_def)
      note g = grown_pte [OF lv this]
      have same_levels: "plain_at T (f_dst ?t) x = plain_at T ?w x" "has_table T (f_dst ?t) x = has_table T ?w x" for x
        by (simp_all add: plain_at_def has_table_def filled_def)
      have "grows T (f_dst s) (f_dst ?t)" using g(1) unfolding grows_def same_levels by (simp add: filled_def)
      moreover have "keeps_pte T (f_dst s) (f_dst ?t) x" if "\<not> (a \<le> x \<and> x < c)" for x
        using g(2) [of x] that by (auto simp: keeps_pte_def filled_def)
      moreover have "plain_at T (f_dst ?t) x \<and> ptes (f_dst ?t) x = own_pte ?K (f x) \<and> (has_table T (f_src s) x \<longrightarrow> has_table T (f_dst ?t) x)"
        if x: "a \<le> x" "x < c" for x
      proof -
        have b: "below_at T 2 (f_dst s) x" "ptes (f_dst s) x = Pte_none" using pre x by (simp_all add: fork_pre_def)
        then have "plain_at T ?w x" using g(1) by (auto simp: grows_def below_at_def)
        moreover have "has_table T ?w x" using b(1) same [OF x] by (auto simp: has_table_def with_table_def pmd_populate_def below_at_def plain_at_def)
        moreover have "ptes (f_dst ?t) x = own_pte ?K (f x)" using b(2) x by (cases "f x") (simp_all add: filled_def over_def)
        ultimately show ?thesis unfolding same_levels by simp
      qed
      moreover have "own_tree ?K T f a c (f_src s)" using pre by (simp add: fork_pre_def)
      ultimately show ?thesis unfolding fork_post_def by simp
    qed
    ultimately show ?thesis by blast
  qed
qed

text \<open>A step that only adds tables can come first.\<close>

lemma fork_post_after:
  assumes "fork_post T f a c (s\<lparr>f_dst := n\<rparr>) t" and "grows T (f_dst s) n" and "ptes n = ptes (f_dst s)" and "mm_swapents n = mm_swapents (f_dst s)"
  shows "fork_post T f a c s t"
proof -
  have "keeps_pte T (f_dst s) (f_dst t) x" if "\<not> (a \<le> x \<and> x < c)" for x
  proof (rule keeps_pte_trans [OF assms(2)])
    show "keeps_pte T (f_dst s) n x" by (simp add: keeps_pte_def assms(3))
    show "keeps_pte T n (f_dst t) x" using assms(1) that by (simp add: fork_post_def)
  qed
  moreover have "grows T (f_dst s) (f_dst t)" using assms(1,2) grows_trans [of T "f_dst s" n] by (auto simp: fork_post_def)
  ultimately show ?thesis using assms(1,4) by (simp add: fork_post_def)
qed

lemma fork_pre_deeper:
  assumes "fork_pre T L f k a c s" and "grows T (f_dst s) n" and "ptes n = ptes (f_dst s)"
    and "\<And>x. a \<le> x \<Longrightarrow> x < c \<Longrightarrow> below_at T k n x \<Longrightarrow> below_at T j n x"
  shows "fork_pre T L f j a c (s\<lparr>f_dst := n\<rparr>)"
  using assms grows_below [OF assms(2)] by (auto simp: fork_pre_def)

lemma pmd_alloc_ok:
  assumes lv: "levels_ok T" and pre: "fork_pre T L f 1 a c s" and "a < c"
  shows "\<exists>n. pmd_alloc T L (a div pud_pages T) (f_dst s) (f_vm s) = (0, n, f_vm s) \<and> grows T (f_dst s) n \<and> ptes n = ptes (f_dst s) \<and>
    mm_swapents n = mm_swapents (f_dst s) \<and> puds n (a div pud_pages T) = Px_table"
proof -
  let ?w = "a div pud_pages T"
  have at: "below_at T 1 (f_dst s) a" and pg: "pmd_alloc_one L (f_vm s) = (True, f_vm s)"
    using pre assms(3) by (simp_all add: fork_pre_def pages_for_tables_def)
  then consider "puds (f_dst s) ?w = Px_none" | "puds (f_dst s) ?w = Px_table" by (auto simp: below_at_def plain_at_def)
  then show ?thesis
  proof cases
    case 1
    have "pgds (f_dst s) (?w * pud_pages T div pgdir_pages T) = Px_table"
      using at nested_start [OF _ _ levels_dvd(2) [OF lv], of a] by (simp add: below_at_def)
    from grown_pmd [OF lv 1 this] show ?thesis using 1 pg
      by (auto simp: pmd_alloc_def u_pmd_alloc_def)
  next
    case 2
    then show ?thesis by (auto simp: pmd_alloc_def)
  qed
qed

lemma pud_alloc_ok:
  assumes lv: "levels_ok T" and pre: "fork_pre T L f 0 a c s" and "a < c"
  shows "\<exists>n. pud_alloc T L (a div pgdir_pages T) (f_dst s) (f_vm s) = (0, n, f_vm s) \<and> grows T (f_dst s) n \<and> ptes n = ptes (f_dst s) \<and>
    mm_swapents n = mm_swapents (f_dst s) \<and> pgds n (a div pgdir_pages T) = Px_table"
proof -
  let ?g = "a div pgdir_pages T"
  have at: "below_at T 0 (f_dst s) a" and pg: "pud_alloc_one L (f_vm s) = (True, f_vm s)"
    using pre assms(3) by (simp_all add: fork_pre_def pages_for_tables_def)
  then consider "pgds (f_dst s) ?g = Px_none" | "pgds (f_dst s) ?g = Px_table" by (auto simp: below_at_def plain_at_def)
  then show ?thesis
  proof cases
    case 1
    from grown_pud [OF lv 1] show ?thesis using 1 pg by (auto simp: pud_alloc_def u_pud_alloc_def)
  next
    case 2
    then show ?thesis by (auto simp: pud_alloc_def)
  qed
qed

text \<open>What every level asks of the swap entries, the tables and the pages.\<close>

definition fork_env :: "('r, 'k) tables \<Rightarrow> (int \<Rightarrow> int option) \<Rightarrow> bool" where
  "fork_env T f \<longleftrightarrow> linux_swap_h (hdr (host_of T)) \<and> levels_ok T \<and> pages_small f"

lemma copy_pmd_range_own:
  assumes env: "fork_env T f" and "a < c" and pre: "fork_pre T L f 1 a c s" and p: "piece_end (pud_pages T) a c = c"
  shows "\<exists>t. copy_pmd_range T L vf a c s = Some (0, t) \<and> fork_post T f a c s t"
proof -
  obtain n where n: "pmd_alloc T L (a div pud_pages T) (f_dst s) (f_vm s) = (0, n, f_vm s)" "grows T (f_dst s) n" "ptes n = ptes (f_dst s)"
    "mm_swapents n = mm_swapents (f_dst s)" "puds n (a div pud_pages T) = Px_table" using pmd_alloc_ok [OF _ pre assms(2)] env unfolding fork_env_def by blast
  have "fork_pre T L f 2 a c (s\<lparr>f_dst := n\<rparr>)"
  proof (rule fork_pre_deeper [OF pre n(2,3)])
    show "below_at T 2 n x" if "a \<le> x" "x < c" "below_at T 1 n x" for x
      using that(3) n(5) piece_same [OF _ p that(1,2)] by (simp add: below_at_def)
  qed
  then have "\<exists>t. walk_err (piece_end (pmd_pages T)) (copy_pmd T L vf) a c (s\<lparr>f_dst := n\<rparr>) = Some (0, t) \<and> fork_post T f a c (s\<lparr>f_dst := n\<rparr>) t"
    by (intro forking.walk_err_correct [OF _ copy_pmd_own]) (use assms(2) env in \<open>auto simp: fork_env_def piece_end_bounds piece_end_twice\<close>)
  then show ?thesis using n fork_post_after [OF _ n(2-4)] by (auto simp: copy_pmd_range_def)
qed

lemma copy_pud_own:
  assumes env: "fork_env T f" and "a < c" and pre: "fork_pre T L f 1 a c s" and p: "piece_end (pud_pages T) a c = c"
  shows "\<exists>t. copy_pud T L vf a c s = Some (0, t) \<and> fork_post T f a c s t"
proof -
  have pl: "plain_at T (f_src s) x" if "a \<le> x" "x < c" for x using pre that by (simp add: fork_pre_def own_tree_def)
  then consider "puds (f_src s) (a div pud_pages T) = Px_none" | "puds (f_src s) (a div pud_pages T) = Px_table"
    using assms(2) by (force simp: plain_at_def)
  then show ?thesis
  proof cases
    case 1
    have "fork_post T f a c s s"
    proof (rule fork_nothing [OF pre])
      show "\<not> has_table T (f_src s) x" if "a \<le> x" "x < c" for x
        using 1 piece_same [OF _ p that] pl [OF that] by (auto simp: has_table_def plain_at_def)
    qed
    then show ?thesis using 1 by (simp add: copy_pud_def pud_none_or_clear_bad_def none_or_clear_bad_def)
  next
    case 2
    then show ?thesis using copy_pmd_range_own [OF assms, of vf] by (fastforce simp: copy_pud_def pud_none_or_clear_bad_def none_or_clear_bad_def)
  qed
qed

lemma copy_pud_range_own:
  assumes env: "fork_env T f" and "a < c" and pre: "fork_pre T L f 0 a c s" and p: "piece_end (pgdir_pages T) a c = c"
  shows "\<exists>t. copy_pud_range T L vf a c s = Some (0, t) \<and> fork_post T f a c s t"
proof -
  obtain n where n: "pud_alloc T L (a div pgdir_pages T) (f_dst s) (f_vm s) = (0, n, f_vm s)" "grows T (f_dst s) n" "ptes n = ptes (f_dst s)"
    "mm_swapents n = mm_swapents (f_dst s)" "pgds n (a div pgdir_pages T) = Px_table" using pud_alloc_ok [OF _ pre assms(2)] env unfolding fork_env_def by blast
  have "fork_pre T L f 1 a c (s\<lparr>f_dst := n\<rparr>)"
  proof (rule fork_pre_deeper [OF pre n(2,3)])
    show "below_at T 1 n x" if "a \<le> x" "x < c" "below_at T 0 n x" for x
      using that(3) n(5) piece_same [OF _ p that(1,2)] by (simp add: below_at_def)
  qed
  then have "\<exists>t. walk_err (piece_end (pud_pages T)) (copy_pud T L vf) a c (s\<lparr>f_dst := n\<rparr>) = Some (0, t) \<and> fork_post T f a c (s\<lparr>f_dst := n\<rparr>) t"
    by (intro forking.walk_err_correct [OF _ copy_pud_own [OF env]]) (use assms(2) in \<open>auto simp: piece_end_bounds piece_end_twice\<close>)
  then show ?thesis using n fork_post_after [OF _ n(2-4)] by (auto simp: copy_pud_range_def)
qed

lemma copy_pgd_own:
  assumes env: "fork_env T f" and "a < c" and pre: "fork_pre T L f 0 a c s" and p: "piece_end (pgdir_pages T) a c = c"
  shows "\<exists>t. copy_pgd T L vf a c s = Some (0, t) \<and> fork_post T f a c s t"
proof -
  have pl: "plain_at T (f_src s) x" if "a \<le> x" "x < c" for x using pre that by (simp add: fork_pre_def own_tree_def)
  then consider "pgds (f_src s) (a div pgdir_pages T) = Px_none" | "pgds (f_src s) (a div pgdir_pages T) = Px_table"
    using assms(2) by (force simp: plain_at_def)
  then show ?thesis
  proof cases
    case 1
    have "fork_post T f a c s s"
    proof (rule fork_nothing [OF pre])
      show "\<not> has_table T (f_src s) x" if "a \<le> x" "x < c" for x
        using 1 piece_same [OF _ p that] pl [OF that] by (auto simp: has_table_def plain_at_def)
    qed
    then show ?thesis using 1 by (simp add: copy_pgd_def pgd_none_or_clear_bad_def none_or_clear_bad_def)
  next
    case 2
    then show ?thesis using copy_pud_range_own [OF assms, of vf] by (fastforce simp: copy_pgd_def pgd_none_or_clear_bad_def none_or_clear_bad_def)
  qed
qed

lemma copy_page_range_own:
  assumes env: "fork_env T f" and w: "area_ok w" and "anon_vma w" and "\<not> VM_PFNMAP (area_flags w)" and pre: "fork_pre T L f 0 (first_page w) (past_page w) s"
  shows "\<exists>t. copy_page_range T L w s = Some (0, t) \<and> fork_post T f (first_page w) (past_page w) s t"
proof -
  have "\<exists>t. walk_err (piece_end (pgdir_pages T)) (copy_pgd T L (area_flags w)) (first_page w) (past_page w) s = Some (0, t) \<and>
      fork_post T f (first_page w) (past_page w) s t"
    by (rule forking.walk_err_correct [OF _ copy_pgd_own [OF env]]) (use area_pages [OF w] pre in \<open>auto simp: piece_end_bounds piece_end_twice\<close>)
  then show ?thesis using assms by (simp add: copy_page_range_def area_ok_def page_no_def first_page_def past_page_def)
qed

section \<open>Fork and exit of the child\<close>

text \<open>The tables of a new task.\<close>

definition fresh_mm :: "('r, 'k) tables \<Rightarrow> mm_struct \<Rightarrow> bool" where
  "fresh_mm T mm \<longleftrightarrow> (\<forall>x. plain_at T mm x \<and> \<not> has_table T mm x \<and> ptes mm x = Pte_none)"

lemma child_tree:
  assumes "fork_post T f a c s t" and "fresh_mm T (f_dst s)" and "\<And>x. \<not> (a \<le> x \<and> x < c) \<Longrightarrow> f x = None"
  shows "own_tree (hdr (host_of T)) T f lo hi (f_dst t)"
  unfolding own_tree_def
proof (intro allI impI)
  fix x
  have fresh: "plain_at T (f_dst s) x" "ptes (f_dst s) x = Pte_none" using assms(2) by (simp_all add: fresh_mm_def)
  show "plain_at T (f_dst t) x \<and> (if has_table T (f_dst t) x then ptes (f_dst t) x = own_pte (hdr (host_of T)) (f x) else f x = None)"
  proof (cases "a \<le> x \<and> x < c")
    case True
    then have "plain_at T (f_dst t) x" "ptes (f_dst t) x = own_pte (hdr (host_of T)) (f x)"
      "has_table T (f_src s) x \<longrightarrow> has_table T (f_dst t) x" "\<not> has_table T (f_src s) x \<longrightarrow> f x = None"
      using assms(1) by (auto simp: fork_post_def own_tree_def)
    then show ?thesis by auto
  next
    case False
    then have "plain_at T (f_dst t) x" "ptes (f_dst t) x = Pte_none"
      using assms(1) fresh by (auto simp: fork_post_def grows_def keeps_pte_def)
    then show ?thesis using assms(3) [OF False] by simp
  qed
qed

lemma page_range: "0 \<le> first_page w" "past_page w \<le> 2 ^ 52"
proof -
  show "0 \<le> first_page w" by (simp add: first_page_def)
  have "uint (vm_end w) < 2 ^ 64" using uint_lt2p [of "vm_end w"] by simp
  then show "past_page w \<le> 2 ^ 52" by (simp add: past_page_def PAGE_SHIFT_def drop_bit_eq_div uint_div)
qed

text \<open>
  C38: a fork copies every own page of an area into the tables it makes for the child, at the same address and
  without a count; when the child ends, all these pages are free, while the parent still names every one of
  them.
\<close>

theorem child_exit_frees_parents_pages:
  assumes "fork_env T f" and "area_ok w" and "anon_vma w" and "\<not> VM_PFNMAP (area_flags w)"
    and "own_tree (hdr (host_of T)) T f (first_page w) (past_page w) src" and "fresh_mm T dst" and "pages_for_tables T L v"
    and "pool_ok (nd (mc v))" and "pool_total (nd (mc v)) \<le> 2 ^ 31" and "held_ok f (first_page w) (past_page w) (nd (mc v))"
    and "\<And>x. \<not> (first_page w \<le> x \<and> x < past_page w) \<Longrightarrow> f x = None"
  shows "\<exists>child b. copy_page_range T L w \<lparr>f_dst = dst, f_src = src, f_vm = v\<rparr> = Some (0, \<lparr>f_dst = child, f_src = src, f_vm = v\<rparr>) \<and>
    (\<forall>x. first_page w \<le> x \<and> x < past_page w \<longrightarrow> ptes child x = own_pte (hdr (host_of T)) (f x)) \<and>
    mm_swapents child = mm_swapents dst + named f (first_page w) (past_page w) \<and>
    unmap_vmas T L [w] 0 (- 1) \<lparr>u_tlb = tlb, u_mm = child, u_vm = v\<rparr> =
      Some \<lparr>u_tlb = tlb, u_mm = emptied T 0 (2 ^ 52) child, u_vm = with_pool b v\<rparr> \<and>
    (\<forall>x p. f x = Some p \<longrightarrow> ptes src x = own_pte (hdr (host_of T)) (Some p) \<and> p \<in> pool_free (nd (mc (with_pool b v))))"
proof -
  let ?K = "hdr (host_of T)" and ?a = "first_page w" and ?c = "past_page w"
  let ?s = "\<lparr>f_dst = dst, f_src = src, f_vm = v\<rparr>"
  have range: "0 \<le> ?a" "?a < ?c" "?c \<le> 2 ^ 52"
    by (rule page_range area_pages [OF assms(2)])+
  have pre: "fork_pre T L f 0 ?a ?c ?s" using assms(5-7) by (simp add: fork_pre_def below_at_def fresh_mm_def)
  obtain t where t: "copy_page_range T L w ?s = Some (0, t)" "fork_post T f ?a ?c ?s t"
    using copy_page_range_own [OF assms(1-4) pre] by blast
  obtain child where child: "t = \<lparr>f_dst = child, f_src = src, f_vm = v\<rparr>" using t(2) by (cases t) (simp add: fork_post_def)
  have tree: "own_tree ?K T f 0 (2 ^ 52) child" using child_tree [OF t(2) _ assms(11), of 0 "2 ^ 52"] assms(6) by (simp add: child)
  have "held_ok f 0 (2 ^ 52) (nd (mc v))"
    using assms(10,11) unfolding held_ok_def by (metis option.discI)
  then have epre: "exit_pre T f 0 (2 ^ 52) \<lparr>u_tlb = tlb, u_mm = child, u_vm = v\<rparr>" using tree assms(8,9) by (simp add: exit_pre_def)
  have list: "areas_from 0 [w] (2 ^ 52)" using range assms(2) by simp
  have "f x = None" if "\<not> in_areas [w] x" for x using that assms(11) by (simp add: in_areas_def)
  then obtain u where u: "unmap_areas T L [w] 0 (- 1) None \<lparr>u_tlb = tlb, u_mm = child, u_vm = v\<rparr> = Some u"
    "exit_post T f 0 (2 ^ 52) \<lparr>u_tlb = tlb, u_mm = child, u_vm = v\<rparr> u"
    using unmap_areas_own [OF _ list epre] assms(1) unfolding fork_env_def by blast
  from u(2) obtain b where b: "u = \<lparr>u_tlb = tlb, u_mm = emptied T 0 (2 ^ 52) child, u_vm = with_pool b v\<rparr>"
    by (auto simp: exit_post_def)
  have named_free: "ptes src x = own_pte ?K (Some p) \<and> p \<in> pool_free (nd (mc (with_pool b v)))" if "f x = Some p" for x p
  proof -
    have x: "?a \<le> x" "x < ?c" using assms(11) [of x] that by auto
    then have "ptes src x = own_pte ?K (Some p)" using assms(5) that by (auto simp: own_tree_def split: if_splits)
    moreover have "p \<in> held f 0 (2 ^ 52)" using that x range by (auto simp: held_def intro!: bexI [of _ x])
    ultimately show ?thesis using u(2) b by (simp add: exit_post_def)
  qed
  have "\<forall>x. ?a \<le> x \<and> x < ?c \<longrightarrow> ptes child x = own_pte ?K (f x)" "mm_swapents child = mm_swapents dst + named f ?a ?c"
    using t(2) by (simp_all add: fork_post_def child)
  then show ?thesis using t(1) child u(1) b named_free by (intro exI [of _ child] exI [of _ b]) (simp add: unmap_vmas_def)
qed

text \<open>The area of the second half of the witness in \<open>Comex_Span\<close>.\<close>

definition one_page :: "int \<Rightarrow> int option" where
  "one_page x = (if x = 600 then Some 9 else None)"

definition one_mm :: mm_struct where
  "one_mm = three_mm\<lparr>ptes := (\<lambda>x. own_pte std_h (one_page x))\<rparr>"

theorem child_exit_frees_parents_pages_witness:
  "\<exists>v child b. copy_page_range ideal_tables ideal_levels (area_at 0x200000 0x300000) \<lparr>f_dst = no_mm, f_src = one_mm, f_vm = v\<rparr> =
       Some (0, \<lparr>f_dst = child, f_src = one_mm, f_vm = v\<rparr>) \<and>
     ptes child 600 = own_pte std_h (Some 9) \<and> mm_swapents child = named one_page 512 768 \<and>
     unmap_vmas ideal_tables ideal_levels [area_at 0x200000 0x300000] 0 (- 1) \<lparr>u_tlb = tlb_gather_mmu ideal_tables, u_mm = child, u_vm = v\<rparr> =
       Some \<lparr>u_tlb = tlb_gather_mmu ideal_tables, u_mm = emptied ideal_tables 0 (2 ^ 52) child, u_vm = with_pool b v\<rparr> \<and>
     ptes one_mm 600 = own_pte std_h (Some 9) \<and> 9 \<in> pool_free (nd (mc (with_pool b v)))"
proof -
  let ?w = "area_at 0x200000 0x300000"
  obtain b where b: "own_ok id ((ideal_node (\<lambda>_ _. 0))\<lparr>pool := b\<rparr>)" "pool_free ((ideal_node (\<lambda>_ _. 0))\<lparr>pool := b\<rparr>) = {900}"
    using ideal_own_exists .
  define v :: "(int \<Rightarrow> mem, unit) vm" where "v = \<lparr>mc = \<lparr>nd = (ideal_node (\<lambda>_ _. 0))\<lparr>pool := b\<rparr>, sw = empty_swaps\<rparr>, px = anon_px\<rparr>"
  have K: "hdr (host_of ideal_tables) = std_h" by (simp add: ideal_tables_def)
  have env: "fork_env ideal_tables one_page"
    using std_h_linux by (simp add: fork_env_def levels_ok_def ideal_tables_def pages_small_def one_page_def)
  have w: "area_ok ?w" "anon_vma ?w" "\<not> VM_PFNMAP (area_flags ?w)" "first_page ?w = 512" "past_page ?w = 768"
    by (simp_all add: area_ok_def area_at_def PAGE_SHIFT_def first_page_def past_page_def private_area_def)
  have "plain_at ideal_tables one_mm x = plain_at ideal_tables three_mm x" "has_table ideal_tables one_mm x = has_table ideal_tables three_mm x" for x
    by (simp_all add: one_mm_def plain_at_def has_table_def)
  then have tree: "own_tree (hdr (host_of ideal_tables)) ideal_tables one_page (first_page ?w) (past_page ?w) one_mm"
    using three_tree unfolding K w own_tree_def by (auto simp: one_mm_def one_page_def three_pages_def split: if_splits)
  have fresh: "fresh_mm ideal_tables no_mm" by (simp add: fresh_mm_def plain_at_def has_table_def no_mm_def)
  have pg: "pages_for_tables ideal_tables ideal_levels v" by (simp add: pages_for_tables_def ideal_tables_def ideal_levels_def)
  have t: "pool_total (nd (mc v)) = 1024" using b(1) by (simp add: v_def own_ok_def plain_conf_def)
  then have pool: "pool_ok (nd (mc v))" "pool_total (nd (mc v)) \<le> 2 ^ 31" using b(1) by (simp_all add: v_def own_ok_def)
  have held: "held_ok one_page (first_page ?w) (past_page ?w) (nd (mc v))"
    using b(2) t by (auto simp: held_ok_def one_page_def v_def split: if_splits)
  have out: "one_page x = None" if "\<not> (first_page ?w \<le> x \<and> x < past_page ?w)" for x using that by (auto simp: w one_page_def)
  from child_exit_frees_parents_pages [OF env w(1-3) tree fresh pg pool held out, of "tlb_gather_mmu ideal_tables"]
  obtain child c where r: "copy_page_range ideal_tables ideal_levels ?w \<lparr>f_dst = no_mm, f_src = one_mm, f_vm = v\<rparr> =
       Some (0, \<lparr>f_dst = child, f_src = one_mm, f_vm = v\<rparr>)"
     "\<forall>x. first_page ?w \<le> x \<and> x < past_page ?w \<longrightarrow> ptes child x = own_pte std_h (one_page x)"
     "mm_swapents child = mm_swapents no_mm + named one_page (first_page ?w) (past_page ?w)"
     "unmap_vmas ideal_tables ideal_levels [?w] 0 (- 1) \<lparr>u_tlb = tlb_gather_mmu ideal_tables, u_mm = child, u_vm = v\<rparr> =
       Some \<lparr>u_tlb = tlb_gather_mmu ideal_tables, u_mm = emptied ideal_tables 0 (2 ^ 52) child, u_vm = with_pool c v\<rparr>"
     "\<forall>x p. one_page x = Some p \<longrightarrow> ptes one_mm x = own_pte std_h (Some p) \<and> p \<in> pool_free (nd (mc (with_pool c v)))"
    unfolding K by blast
  have n: "one_page 600 = Some 9" by (simp add: one_page_def)
  then have "ptes one_mm 600 = own_pte std_h (Some 9) \<and> 9 \<in> pool_free (nd (mc (with_pool c v)))" using r(5) by blast
  moreover have "ptes child 600 = own_pte std_h (Some 9)" using r(2) n w(4,5) by simp
  moreover have "mm_swapents child = named one_page 512 768" using r(3) w(4,5) by (simp add: no_mm_def)
  ultimately show ?thesis using r(1,4) by (intro exI [of _ v] exI [of _ child] exI [of _ c]) simp
qed

end
