(* ===== verification/Comex_Handle.thy ===== *)
theory Comex_Handle
  imports Comex_Fault Comex_Fork
begin

unbundle bit_operations_syntax

text \<open>
  All faults of a task (\<open>memory.c\<close>): \<open>handle_mm_fault\<close> walks down the page tables, makes those that are not
  there, and hands the last level to the fault on an empty entry of an anonymous area or of a file, on a swap
  entry, or on a protected page.  An access to a page that COMEX holds is followed from its first step to
  the last one.
\<close>

section \<open>What the faults use\<close>

text \<open>
  Of the rest of the kernel: the growth of a stack, huge pages, the offset in a file that an entry stores, and
  what a memory control group does when it runs out of memory.
\<close>

record ('r, 'k) handling =
  fault_of :: "('r, 'k) fault"
  levels_of :: "('r, 'k) levels"
  expand_downwards :: "('r, 'k) vm_area \<Rightarrow> u64 \<Rightarrow> ('r, 'k) task \<Rightarrow> int \<times> ('r, 'k) task"
  expand_upwards :: "('r, 'k) vm_area \<Rightarrow> u64 \<Rightarrow> ('r, 'k) task \<Rightarrow> int \<times> ('r, 'k) task"
  pte_to_pgoff :: "int \<Rightarrow> ('r, 'k) task \<Rightarrow> u64"
  hugetlb_fault :: "('r, 'k) vm_area \<Rightarrow> int \<Rightarrow> int \<Rightarrow> ('r, 'k) task \<Rightarrow> int \<times> ('r, 'k) task"
  transparent_hugepage_enabled :: "('r, 'k) vm_area \<Rightarrow> bool"
  do_huge_pmd_anonymous_page :: "('r, 'k) vm_area \<Rightarrow> int \<Rightarrow> int \<Rightarrow> ('r, 'k) task \<Rightarrow> int \<times> ('r, 'k) task"
  pmd_trans_splitting :: "int \<Rightarrow> ('r, 'k) task \<Rightarrow> bool"
  pmd_write :: "int \<Rightarrow> ('r, 'k) task \<Rightarrow> bool"
  do_huge_pmd_wp_page :: "('r, 'k) vm_area \<Rightarrow> int \<Rightarrow> ('r, 'k) task \<Rightarrow> int \<times> ('r, 'k) task"
  huge_pmd_set_accessed :: "('r, 'k) vm_area \<Rightarrow> int \<Rightarrow> bool \<Rightarrow> ('r, 'k) task \<Rightarrow> ('r, 'k) task"
  mem_cgroup_oom_enable :: "('r, 'k) task \<Rightarrow> ('r, 'k) task"
  mem_cgroup_oom_disable :: "('r, 'k) task \<Rightarrow> ('r, 'k) task"
  task_in_memcg_oom :: "('r, 'k) task \<Rightarrow> bool"
  mem_cgroup_oom_synchronize :: "('r, 'k) task \<Rightarrow> ('r, 'k) task"

definition FAULT_FLAG_USER :: int where "FAULT_FLAG_USER = 0x80"

text \<open>The first address of a page.\<close>

definition byte_of :: "int \<Rightarrow> u64" where "byte_of address = push_bit PAGE_SHIFT (word_of_int address)"

definition PAGE_SIZE :: u64 where "PAGE_SIZE = 0x1000"

section \<open>An empty entry of an anonymous area\<close>

text \<open>A page at the edge of a stack makes the stack grow, unless it would touch the area next to it.\<close>

definition check_stack_guard_page ::
  "('r, 'k) handling \<Rightarrow> ('r, 'k) vm_area \<Rightarrow> int \<Rightarrow> ('r, 'k) task \<Rightarrow> int \<times> ('r, 'k) task" where
  "check_stack_guard_page G A address t =
     (let a = byte_of address in
      if VM_GROWSDOWN A \<and> a = vm_start A then
        (case vm_prev A of
           Some (till, stack) \<Rightarrow> if till = a then (if stack then 0 else - ENOMEM, t) else expand_downwards G A (a - PAGE_SIZE) t
         | None \<Rightarrow> expand_downwards G A (a - PAGE_SIZE) t)
      else if VM_GROWSUP A \<and> a + PAGE_SIZE = vm_end A then
        (case vm_next A of
           Some (start, stack) \<Rightarrow> if start = a + PAGE_SIZE then (if stack then 0 else - ENOMEM, t) else expand_upwards G A (a + PAGE_SIZE) t
         | None \<Rightarrow> expand_upwards G A (a + PAGE_SIZE) t)
      else (0, t))"

text \<open>A read gets the zero page, which is not counted; a write gets a page of zeros of its own.\<close>

definition zero_entry :: "('r, 'k) fault \<Rightarrow> ('r, 'k) vm_area \<Rightarrow> int \<Rightarrow> pte_t" where
  "zero_entry F A address = (mk_pte F (my_zero_pfn F address) (area_flags A))\<lparr>pte_special := True\<rparr>"

definition own_entry :: "('r, 'k) fault \<Rightarrow> ('r, 'k) vm_area \<Rightarrow> int \<Rightarrow> pte_t" where
  "own_entry F A page = (let p = mk_pte F page (area_flags A)
     in if VM_WRITE (area_flags A) then p\<lparr>pte_dirty := True, pte_write := True\<rparr> else p)"

definition map_anonymous :: "('r, 'k) fault \<Rightarrow> ('r, 'k) vm_area \<Rightarrow> int \<Rightarrow> int \<Rightarrow> ('r, 'k) task \<Rightarrow> int \<times> ('r, 'k) task" where
  "map_anonymous F A address page t =
     (if ptes (t_mm t) address \<noteq> Pte_none then (0, t_sw (page_cache_release page) (mem_cgroup_uncharge_page F page t))
      else (0, t_pte address (Pte_present (own_entry F A page))
             (t_vmf (page_add_new_anon_rmap F page address) (t\<lparr>t_mm := (t_mm t)\<lparr>mm_anonpages := mm_anonpages (t_mm t) + 1\<rparr>\<rparr>))))"

definition do_anonymous_page ::
  "('r, 'k) handling \<Rightarrow> ('r, 'k) vm_area \<Rightarrow> int \<Rightarrow> int \<Rightarrow> ('r, 'k) task \<Rightarrow> int \<times> ('r, 'k) task" where
  "do_anonymous_page G A address flags t =
     (let F = fault_of G in
      if VM_SHARED (area_flags A) then (VM_FAULT_SIGBUS, t)
      else (case check_stack_guard_page G A address t of (r, t) \<Rightarrow>
        if r < 0 then (VM_FAULT_SIGSEGV, t)
        else if flags AND FAULT_FLAG_WRITE = 0 then
          (0, if ptes (t_mm t) address \<noteq> Pte_none then t else t_pte address (Pte_present (zero_entry F A address)) t)
        else (case anon_vma_prepare F t of (failed, t) \<Rightarrow>
          if failed then (VM_FAULT_OOM, t)
          else (case alloc_zeroed_page F address t of
              (None, t) \<Rightarrow> (VM_FAULT_OOM, t)
            | (Some page, t) \<Rightarrow>
                (case mem_cgroup_newpage_charge F page (t_sw (frame_upd page (\<lambda>p. p\<lparr>PageUptodate := True\<rparr>)) t) of (failed, t) \<Rightarrow>
                   if failed then (VM_FAULT_OOM, t_sw (page_cache_release page) t)
                   else map_anonymous F A address page t)))))"

section \<open>A page of a file\<close>

text \<open>A write to a private area gets a page for its copy before the file system is asked.\<close>

definition cow_page_for ::
  "('r, 'k) fault \<Rightarrow> ('r, 'k) vm_area \<Rightarrow> int \<Rightarrow> ('r, 'k) task \<Rightarrow> (bool \<times> int option) \<times> ('r, 'k) task" where
  "cow_page_for F A flags t =
     (if flags AND FAULT_FLAG_WRITE \<noteq> 0 \<and> \<not> VM_SHARED (area_flags A) then
        (case anon_vma_prepare F t of (failed, t) \<Rightarrow>
           if failed then ((False, None), t)
           else (case alloc_page_vma (host_at F) (sw (mc (t_vm t))) of
               (None, s) \<Rightarrow> ((False, None), t_sw (\<lambda>_. s) t)
             | (Some page, s) \<Rightarrow>
                 (case mem_cgroup_newpage_charge F page (t_sw (\<lambda>_. s) t) of (failed, t) \<Rightarrow>
                    if failed then ((False, None), t_sw (page_cache_release page) t) else ((True, Some page), t))))
      else ((True, None), t))"

definition uncharge_out :: "('r, 'k) fault \<Rightarrow> int option \<Rightarrow> ('r, 'k) task \<Rightarrow> ('r, 'k) task" where
  "uncharge_out F cow_page t =
     (case cow_page of None \<Rightarrow> t | Some page \<Rightarrow> t_sw (page_cache_release page) (mem_cgroup_uncharge_page F page t))"

text \<open>The announcement that a shared page will be written to; the page comes back locked.\<close>

definition fault_mkwrite ::
  "('r, 'k) fault \<Rightarrow> (int \<Rightarrow> int \<Rightarrow> ('r, 'k) task \<Rightarrow> int \<times> ('r, 'k) task) \<Rightarrow> int \<Rightarrow> ('r, 'k) task \<Rightarrow>
     ((int \<times> ('r, 'k) task) + ('r, 'k) task) option" where
  "fault_mkwrite F mkwrite page t = do {
     let (tmp, t) = mkwrite page (FAULT_FLAG_WRITE OR FAULT_FLAG_MKWRITE) (t_sw (unlock_page page) t);
     if tmp AND (VM_FAULT_ERROR OR VM_FAULT_NOPAGE) \<noteq> 0 then Some (Inl (tmp, t_sw (page_cache_release page) t))
     else if tmp AND VM_FAULT_LOCKED = 0 then
       (let t = lock_page F page t
        in Some (if file_mapping F page (t_vm t) = None then Inl (0, t_sw (\<lambda>s. page_cache_release page (unlock_page page s)) t) else Inr t))
     else if \<not> PageLocked (frame_of page t) then None
     else Some (Inr t)
   }"

text \<open>
  The page goes into the table if the entry is still the old one.  \<open>page\<close> is the page of the file or its copy;
  the results say whether a page of the file has become dirty and whether the reference to the page of the
  file has to be given up.
\<close>

definition fault_map ::
  "('r, 'k) fault \<Rightarrow> ('r, 'k) vm_area \<Rightarrow> int \<Rightarrow> int \<Rightarrow> pte \<Rightarrow> int \<Rightarrow> int option \<Rightarrow> ('r, 'k) task \<Rightarrow> (bool \<times> bool) \<times> ('r, 'k) task" where
  "fault_map F A address flags orig page cow_page t =
     (let wr = (flags AND FAULT_FLAG_WRITE \<noteq> 0); anon = (cow_page \<noteq> None) in
      if ptes (t_mm t) address = orig then
        (let entry = mk_pte F page (area_flags A);
             entry = (if wr then maybe_mkwrite (entry\<lparr>pte_dirty := True\<rparr>) (area_flags A) else entry);
             t = (if anon then t_vmf (page_add_new_anon_rmap F page address) (t\<lparr>t_mm := (t_mm t)\<lparr>mm_anonpages := mm_anonpages (t_mm t) + 1\<rparr>\<rparr>)
                  else t_vmf (page_add_file_rmap F page) (t\<lparr>t_mm := (t_mm t)\<lparr>mm_filepages := mm_filepages (t_mm t) + 1\<rparr>\<rparr>));
             t = (if \<not> anon \<and> wr then t_sw (page_cache_get page) t else t)
         in ((\<not> anon \<and> wr, anon), t_pte address (Pte_present entry) t))
      else
        (let t = (case cow_page of None \<Rightarrow> t | Some cow \<Rightarrow> mem_cgroup_uncharge_page F cow t)
         in ((False, True), if anon then t_sw (page_cache_release page) t else t)))"

text \<open>What is left to do with the page of the file, locked so far.\<close>

definition fault_done ::
  "('r, 'k) fault \<Rightarrow> ('r, 'k) vm_area \<Rightarrow> int \<Rightarrow> bool \<Rightarrow> bool \<Rightarrow> bool \<Rightarrow> ('r, 'k) task \<Rightarrow> ('r, 'k) task" where
  "fault_done F A page page_mkwrite dirty release t =
     (if dirty then
        (let mapping = file_mapping F page (t_vm t);
             (dirtied, t) = t_dirty F page t;
             t = t_sw (\<lambda>s. page_cache_release page (unlock_page page s)) t;
             t = (case mapping of Some m \<Rightarrow> if dirtied \<noteq> 0 \<or> page_mkwrite then balance_dirty_pages_ratelimited F m t else t | None \<Rightarrow> t)
         in if vm_file A \<and> \<not> page_mkwrite then file_update_time F t else t)
      else
        (let t = t_sw (unlock_page page) t
         in if release then t_sw (page_cache_release page) t else t))"

text \<open>From the page that the file system returned on, locked.\<close>

definition fault_with ::
  "('r, 'k) fault \<Rightarrow> ('r, 'k) vm_area \<Rightarrow> int \<Rightarrow> int \<Rightarrow> pte \<Rightarrow> int option \<Rightarrow> int \<Rightarrow> int \<Rightarrow> ('r, 'k) task \<Rightarrow> (int \<times> ('r, 'k) task) option" where
  "fault_with F A address flags orig cow_page ret file_page t = do {
     let finish = (\<lambda>page page_mkwrite t. case fault_map F A address flags orig page cow_page t of
         ((dirty, release), t) \<Rightarrow> (ret, fault_done F A file_page page_mkwrite dirty release t));
     case cow_page of
       Some cow \<Rightarrow> Some (finish cow False (t_sw (frame_upd cow (\<lambda>p. p\<lparr>PageUptodate := True\<rparr>)) (copy_user_highpage F cow file_page t)))
     | None \<Rightarrow>
         (case (flags AND FAULT_FLAG_WRITE \<noteq> 0, Option.bind (vm_ops A) op_page_mkwrite) of
            (True, Some mkwrite) \<Rightarrow> do {
              r \<leftarrow> fault_mkwrite F mkwrite file_page t;
              Some (case r of Inl res \<Rightarrow> res | Inr t \<Rightarrow> finish file_page True t)
            }
          | _ \<Rightarrow> Some (finish file_page False t))
   }"

text \<open>\<open>__do_fault\<close>; an area without the operation \<open>fault\<close> has no value here.\<close>

definition u_do_fault ::
  "('r, 'k) fault \<Rightarrow> ('r, 'k) vm_area \<Rightarrow> int \<Rightarrow> u64 \<Rightarrow> int \<Rightarrow> pte \<Rightarrow> ('r, 'k) task \<Rightarrow> (int \<times> ('r, 'k) task) option" where
  "u_do_fault F A address pgoff flags orig t = (case cow_page_for F A flags t of
     ((False, _), t) \<Rightarrow> Some (VM_FAULT_OOM, t)
   | ((True, cow_page), t) \<Rightarrow> do {
       f \<leftarrow> Option.bind (vm_ops A) op_fault;
       let (ret, page, t) = f pgoff flags t;
       if ret AND (VM_FAULT_ERROR OR VM_FAULT_NOPAGE OR VM_FAULT_RETRY) \<noteq> 0 then Some (ret, uncharge_out F cow_page t)
       else if PageHWPoison F page then
         Some (VM_FAULT_HWPOISON, uncharge_out F cow_page (if ret AND VM_FAULT_LOCKED \<noteq> 0 then t_sw (unlock_page page) t else t))
       else if ret AND VM_FAULT_LOCKED = 0 then fault_with F A address flags orig cow_page ret page (lock_page F page t)
       else if \<not> PageLocked (frame_of page t) then None
       else fault_with F A address flags orig cow_page ret page t
     })"

definition do_linear_fault ::
  "('r, 'k) fault \<Rightarrow> ('r, 'k) vm_area \<Rightarrow> int \<Rightarrow> int \<Rightarrow> pte \<Rightarrow> ('r, 'k) task \<Rightarrow> (int \<times> ('r, 'k) task) option" where
  "do_linear_fault F A address flags orig t =
     (let pgoff = drop_bit PAGE_SHIFT (byte_of address - vm_start A) + vm_pgoff A in
      if Option.bind (vm_ops A) op_fault = None then Some (VM_FAULT_SIGBUS, t)
      else u_do_fault F A address pgoff flags orig t)"

definition do_nonlinear_fault ::
  "('r, 'k) handling \<Rightarrow> ('r, 'k) vm_area \<Rightarrow> int \<Rightarrow> int \<Rightarrow> pte \<Rightarrow> ('r, 'k) task \<Rightarrow> (int \<times> ('r, 'k) task) option" where
  "do_nonlinear_fault G A address flags orig t =
     (if \<not> VM_NONLINEAR A then Some (VM_FAULT_SIGBUS, t)
      else u_do_fault (fault_of G) A address (pte_to_pgoff G address t) (flags OR FAULT_FLAG_NONLINEAR) orig t)"

section \<open>All faults\<close>

text \<open>An entry that is there and may be used for the access only has its marks renewed.\<close>

definition handle_pte_fault ::
  "('r, 'k) handling \<Rightarrow> ('r, 'k) vm_area \<Rightarrow> int \<Rightarrow> int \<Rightarrow> ('r, 'k) task \<Rightarrow> (int \<times> ('r, 'k) task) option" where
  "handle_pte_fault G A address flags t =
     (let F = fault_of G; wr = (flags AND FAULT_FLAG_WRITE \<noteq> 0) in
      case ptes (t_mm t) address of
        Pte_none \<Rightarrow> if vm_ops A \<noteq> None then do_linear_fault F A address flags Pte_none t else Some (do_anonymous_page G A address flags t)
      | Pte_file \<Rightarrow> do_nonlinear_fault G A address flags Pte_file t
      | Pte_swap entry \<Rightarrow> do_swap_page F A address wr entry t
      | Pte_present p \<Rightarrow>
          if wr \<and> \<not> pte_write p then do_wp_page F A address p t
          else (let p = (if wr then p\<lparr>pte_dirty := True\<rparr> else p); p = p\<lparr>pte_young := True\<rparr>
                in Some (0, t\<lparr>t_mm := snd (ptep_set_access_flags F address p wr (t_mm t))\<rparr>)))"

text \<open>
  The walk down; after a huge page could not be copied for want of memory it has been split, and the walk is
  taken up again.
\<close>

partial_function (option) u_handle_mm_fault ::
  "('r, 'k) handling \<Rightarrow> ('r, 'k) vm_area \<Rightarrow> int \<Rightarrow> int \<Rightarrow> ('r, 'k) task \<Rightarrow> (int \<times> ('r, 'k) task) option" where
  "u_handle_mm_fault G A address flags t =
     (let T = tables_of (fault_of G); L = levels_of G; i = address div pmd_pages T; wr = (flags AND FAULT_FLAG_WRITE \<noteq> 0) in
      if VM_HUGETLB A then Some (hugetlb_fault G A address flags t)
      else (case pud_alloc T L (address div pgdir_pages T) (t_mm t) (t_vm t) of (r, mm, v) \<Rightarrow>
        if r \<noteq> 0 then Some (VM_FAULT_OOM, \<lparr>t_mm = mm, t_vm = v\<rparr>)
        else (case pmd_alloc T L (address div pud_pages T) mm v of (r, mm, v) \<Rightarrow>
          let t = \<lparr>t_mm = mm, t_vm = v\<rparr> in
          if r \<noteq> 0 then Some (VM_FAULT_OOM, t)
          else if pmds mm i = Px_none \<and> transparent_hugepage_enabled G A \<and> vm_ops A = None then
            Some (do_huge_pmd_anonymous_page G A address flags t)
          else if pmds mm i = Px_huge then
            (if pmd_trans_splitting G i t then Some (0, t)
             else if wr \<and> \<not> pmd_write G i t then
               (case do_huge_pmd_wp_page G A address t of (ret, t) \<Rightarrow>
                  if ret AND VM_FAULT_OOM \<noteq> 0 then u_handle_mm_fault G A address flags t else Some (ret, t))
             else Some (0, huge_pmd_set_accessed G A address wr t))
          else (case (if pmds mm i = Px_none then u_pte_alloc T i mm v else (0, mm, v)) of (r, mm, v) \<Rightarrow>
            let t = \<lparr>t_mm = mm, t_vm = v\<rparr> in
            if r \<noteq> 0 then Some (VM_FAULT_OOM, t)
            else if pmds mm i = Px_huge then Some (0, t)
            else handle_pte_fault G A address flags t))))"

definition handle_mm_fault ::
  "('r, 'k) handling \<Rightarrow> ('r, 'k) vm_area \<Rightarrow> u64 \<Rightarrow> int \<Rightarrow> ('r, 'k) task \<Rightarrow> (int \<times> ('r, 'k) task) option" where
  "handle_mm_fault G A address flags t = do {
     let user = (flags AND FAULT_FLAG_USER \<noteq> 0);
     let t = (if user then mem_cgroup_oom_enable G t else t);
     (ret, t) \<leftarrow> u_handle_mm_fault G A (uint (drop_bit PAGE_SHIFT address)) flags t;
     let t = (if user then (let t = mem_cgroup_oom_disable G t
         in if task_in_memcg_oom G t \<and> ret AND VM_FAULT_OOM = 0 then mem_cgroup_oom_synchronize G t else t) else t);
     Some (ret, t)
   }"

section \<open>Down to the last level\<close>

text \<open>The same account of pages.\<close>

definition same_counts :: "mm_struct \<Rightarrow> mm_struct \<Rightarrow> bool" where
  "same_counts m n \<longleftrightarrow> mm_anonpages n = mm_anonpages m \<and> mm_filepages n = mm_filepages m \<and> mm_swapents n = mm_swapents m"

text \<open>An ordinary area on a kernel with pages for tables to give.\<close>

definition walkable :: "('r, 'k) handling \<Rightarrow> ('r, 'k) vm_area \<Rightarrow> int \<Rightarrow> ('r, 'k) task \<Rightarrow> bool" where
  "walkable G A a t \<longleftrightarrow> levels_ok (tables_of (fault_of G)) \<and> plain_at (tables_of (fault_of G)) (t_mm t) a \<and>
     pages_for_tables (tables_of (fault_of G)) (levels_of G) (t_vm t) \<and> \<not> VM_HUGETLB A \<and> \<not> transparent_hugepage_enabled G A"

lemma pud_alloc_at:
  assumes "levels_ok T" and "plain_at T mm a" and "pages_for_tables T L v"
  shows "\<exists>n. pud_alloc T L (a div pgdir_pages T) mm v = (0, n, v) \<and> grows T mm n \<and> same_counts mm n \<and> ptes n = ptes mm \<and>
    pgds n (a div pgdir_pages T) = Px_table \<and> (has_table T n a \<longrightarrow> has_table T mm a) \<and> (has_table T mm a \<longrightarrow> n = mm)"
proof -
  from assms(2) consider "pgds mm (a div pgdir_pages T) = Px_none" | "pgds mm (a div pgdir_pages T) = Px_table" by (auto simp: plain_at_def)
  then show ?thesis
  proof cases
    case 1
    then have "\<not> has_table T mm a" using assms(2) by (auto simp: plain_at_def has_table_def)
    with grown_pud [OF assms(1) 1] show ?thesis using 1 assms(3)
      by (auto simp: pud_alloc_def u_pud_alloc_def pages_for_tables_def same_counts_def has_table_def)
  qed (auto simp: pud_alloc_def same_counts_def)
qed

lemma pmd_alloc_at:
  assumes "levels_ok T" and "plain_at T mm a" and "pages_for_tables T L v" and "pgds mm (a div pgdir_pages T) = Px_table"
  shows "\<exists>n. pmd_alloc T L (a div pud_pages T) mm v = (0, n, v) \<and> grows T mm n \<and> same_counts mm n \<and> ptes n = ptes mm \<and>
    pgds n (a div pgdir_pages T) = Px_table \<and> puds n (a div pud_pages T) = Px_table \<and> (has_table T n a \<longrightarrow> has_table T mm a) \<and>
    (has_table T mm a \<longrightarrow> n = mm)"
proof -
  from assms(2) consider "puds mm (a div pud_pages T) = Px_none" | "puds mm (a div pud_pages T) = Px_table" by (auto simp: plain_at_def)
  then show ?thesis
  proof cases
    case 1
    have "pgds mm (a div pud_pages T * pud_pages T div pgdir_pages T) = Px_table"
      using assms(4) nested_start [OF _ _ levels_dvd(2) [OF assms(1)], of a] by simp
    note g = grown_pmd [OF assms(1) 1 this]
    have "\<not> has_table T mm a" using 1 assms(2) by (auto simp: plain_at_def has_table_def)
    with g show ?thesis using 1 assms(3,4)
      by (auto simp: pmd_alloc_def u_pmd_alloc_def pages_for_tables_def same_counts_def has_table_def)
  qed (use assms(4) in \<open>auto simp: pmd_alloc_def same_counts_def\<close>)
qed

text \<open>
  The fault comes to the entry of the address, whatever part of the tables had to be made first: an entry
  that was there is found, and one that was not is empty.
\<close>

lemma walk_down:
  assumes "walkable G A a t"
  shows "\<exists>mm. (\<forall>flags. u_handle_mm_fault G A a flags t = handle_pte_fault G A a flags (t\<lparr>t_mm := mm\<rparr>)) \<and> same_counts (t_mm t) mm \<and>
    has_table (tables_of (fault_of G)) mm a \<and> plain_at (tables_of (fault_of G)) mm a \<and>
    ptes mm a = (if has_table (tables_of (fault_of G)) (t_mm t) a then ptes (t_mm t) a else Pte_none) \<and>
    (has_table (tables_of (fault_of G)) (t_mm t) a \<longrightarrow> mm = t_mm t)"
proof -
  let ?T = "tables_of (fault_of G)" and ?L = "levels_of G" and ?i = "a div pmd_pages (tables_of (fault_of G))"
  have w: "levels_ok ?T" "plain_at ?T (t_mm t) a" "pages_for_tables ?T ?L (t_vm t)" "\<not> VM_HUGETLB A" "\<not> transparent_hugepage_enabled G A"
    using assms unfolding walkable_def by blast+
  obtain m where m: "pud_alloc ?T ?L (a div pgdir_pages ?T) (t_mm t) (t_vm t) = (0, m, t_vm t)" "grows ?T (t_mm t) m" "same_counts (t_mm t) m"
    "ptes m = ptes (t_mm t)" "pgds m (a div pgdir_pages ?T) = Px_table" "has_table ?T m a \<longrightarrow> has_table ?T (t_mm t) a"
    "has_table ?T (t_mm t) a \<longrightarrow> m = t_mm t"
    using pud_alloc_at [OF w(1-3)] by blast
  have pm: "plain_at ?T m a" using m(2) [unfolded grows_def, rule_format, OF w(2)] by blast
  obtain n where n: "pmd_alloc ?T ?L (a div pud_pages ?T) m (t_vm t) = (0, n, t_vm t)" "grows ?T m n" "same_counts m n" "ptes n = ptes m"
    "pgds n (a div pgdir_pages ?T) = Px_table" "puds n (a div pud_pages ?T) = Px_table" "has_table ?T n a \<longrightarrow> has_table ?T m a"
    "has_table ?T m a \<longrightarrow> n = m"
    using pmd_alloc_at [OF w(1) pm w(3) m(5)] by blast
  have pn: "plain_at ?T n a" using n(2) [unfolded grows_def, rule_format, OF pm] by blast
  have e: "has_table ?T n a \<longleftrightarrow> has_table ?T (t_mm t) a" 
    using m(2) [unfolded grows_def, rule_format, OF w(2)] n(2) [unfolded grows_def, rule_format, OF pm] m(6) n(7) by blast
  have tt: "\<lparr>t_mm = x, t_vm = t_vm t\<rparr> = t\<lparr>t_mm := x\<rparr>" for x by (cases t) simp
  from pn consider "pmds n ?i = Px_none" | "pmds n ?i = Px_table" by (auto simp: plain_at_def)
  then show ?thesis
  proof cases
    case 1
    let ?n = "pmd_populate ?T ?i (n\<lparr>nr_ptes := nr_ptes n + 1\<rparr>)"
    have p: "u_pte_alloc ?T ?i n (t_vm t) = (0, ?n, t_vm t)" "pmds ?n ?i \<noteq> Px_huge"
      using 1 w(3) by (simp_all add: u_pte_alloc_def pages_for_tables_def pmd_populate_def)
    have "u_handle_mm_fault G A a flags t = handle_pte_fault G A a flags (t\<lparr>t_mm := ?n\<rparr>)" for flags
      by (subst u_handle_mm_fault.simps) (simp add: Let_def w(4,5) m(1) n(1) 1 p tt)
    then show ?thesis using e 1 m(3) n(3,5,6) by (intro exI [of _ ?n]) (simp add: same_counts_def has_table_def plain_at_def pmd_populate_def)
  next
    case 2
    have "u_handle_mm_fault G A a flags t = handle_pte_fault G A a flags (t\<lparr>t_mm := n\<rparr>)" for flags
      by (subst u_handle_mm_fault.simps) (simp add: Let_def w(4,5) m(1) n(1) 2 tt)
    then show ?thesis using e 2 m(3,4,6,7) n(3,4,7,8) pn by (intro exI [of _ n]) (simp add: same_counts_def has_table_def)
  qed
qed

section \<open>An access to a page that COMEX holds\<close>

definition calm_oom :: "('r, 'k) handling \<Rightarrow> bool" where
  "calm_oom G \<longleftrightarrow> (\<forall>t. mem_cgroup_oom_enable G t = t \<and> mem_cgroup_oom_disable G t = t \<and> \<not> task_in_memcg_oom G t)"

lemma calm_handle:
  "calm_oom G \<Longrightarrow> handle_mm_fault G A address flags t = u_handle_mm_fault G A (uint (drop_bit PAGE_SHIFT address)) flags t"
  by (cases "u_handle_mm_fault G A (uint (drop_bit PAGE_SHIFT address)) flags t") (auto simp: handle_mm_fault_def calm_oom_def Let_def)

text \<open>
  C4: an access of a task to an address whose page is in the own pool goes down the page tables to the entry
  and brings the stored contents back into a frame of the task, whatever the access was.  The table changes only at
  this address, one page moves from the swap entries to the anonymous pages of the task, the page of the
  pool is free again and the swap cache no longer knows the entry.
\<close>

theorem access_reads_back:
  assumes "calm_oom G" and "fault_of G = F" and "a = uint (drop_bit PAGE_SHIFT address)" and "walkable G A a t"
    and "has_table (tables_of F) (t_mm t) a" and "own_fault F virt e p new (mc (t_vm t))" and "ptes (t_mm t) a = Pte_swap e"
    and "\<And>x. mem_cgroup_try_charge_swapin F new x = (False, x)" and "wr \<longleftrightarrow> flags AND FAULT_FLAG_WRITE \<noteq> 0"
  shows "\<exists>u. handle_mm_fault G A address flags t = Some (if wr then VM_FAULT_MAJOR OR VM_FAULT_WRITE else VM_FAULT_MAJOR, u) \<and>
    t_mm u = set_pte_at a (Pte_present (mapped_pte F (area_flags A) wr new)) (count_fault (t_mm t)) \<and>
    page_data (mem (nd (mc (t_vm u)))) (kmap (ext (host_at F)) new) =
      page_data (mem (nd (mc (t_vm t)))) (here_addr (pool_page p (nd (mc (t_vm t)))) (nd (mc (t_vm t)))) \<and>
    pool_free (nd (mc (t_vm u))) = insert p (pool_free (nd (mc (t_vm t)))) \<and>
    cached_page (hdr (host_at F)) e (sw (mc (t_vm u))) = None"
proof -
  have "u_handle_mm_fault G A a flags t = handle_pte_fault G A a flags t"
    using walk_down [OF assms(4)] assms(2,5) by auto
  also have "\<dots> = do_swap_page F A a wr e t" using assms(2,7,9) by (simp add: handle_pte_fault_def Let_def)
  finally show ?thesis using fault_reads_back [OF assms(6-8), of A wr] calm_handle [OF assms(1)] assms(3) by simp
qed

section \<open>The first accesses to a page\<close>

text \<open>
  An ordinary private area in which pages may be written; the zero page is told by its number, the entries of
  the area are made without the right to write, and the next page of zeros is a given frame in no use.
\<close>

definition private_anon :: "('r, 'k) fault \<Rightarrow> ('r, 'k) vm_area \<Rightarrow> int \<Rightarrow> bool" where
  "private_anon F A a \<longleftrightarrow> vm_ops A = None \<and> \<not> VM_SHARED (area_flags A) \<and> VM_WRITE (area_flags A) \<and> \<not> VM_GROWSDOWN A \<and> \<not> VM_GROWSUP A \<and>
     is_zero_pfn F (my_zero_pfn F a) \<and> (\<forall>pg. \<not> pte_write (mk_pte F pg (area_flags A)))"

definition zeroed :: "u64 \<Rightarrow> mem \<Rightarrow> mem" where
  "zeroed b m = (\<lambda>x. if x - b < X86PageSize then 0 else m x)"

definition next_zeroed :: "('r, 'k) fault \<Rightarrow> int \<Rightarrow> bool" where
  "next_zeroed F new \<longleftrightarrow> (\<forall>x t. p_count (frame_of new t) = 0 \<longrightarrow>
     alloc_zeroed_page F x t = (Some new, t_mem (zeroed (kmap (ext (host_at F)) new)) (t_sw (frame_upd new (\<lambda>_. new_page)) t)))"

definition touched :: "('r, 'k) fault \<Rightarrow> ('r, 'k) vm_area \<Rightarrow> int \<Rightarrow> int \<Rightarrow> ('r, 'k) task \<Rightarrow> ('r, 'k) task" where
  "touched F A a new t = t_pte a (Pte_present (own_entry F A new)) (t_vmf (mapped_new new) (t_sw (frame_upd new (\<lambda>p. p\<lparr>PageUptodate := True\<rparr>))
     (t_mem (zeroed (kmap (ext (host_at F)) new)) (t_sw (frame_upd new (\<lambda>_. new_page)) (t\<lparr>t_mm := (t_mm t)\<lparr>mm_anonpages := mm_anonpages (t_mm t) + 1\<rparr>\<rparr>)))))"

text \<open>The three faults on the last level.\<close>

lemma read_maps_zero:
  assumes "private_anon F A a" and "fault_of G = F" and "ptes (t_mm t) a = Pte_none" and "flags AND FAULT_FLAG_WRITE = 0"
  shows "handle_pte_fault G A a flags t = Some (0, t_pte a (Pte_present (zero_entry F A a)) t)"
  using assms by (simp add: handle_pte_fault_def do_anonymous_page_def check_stack_guard_page_def private_anon_def Let_def)

lemma write_touches:
  assumes "private_anon F A a" and "quiet_write F" and "next_zeroed F new" and "p_count (frame_of new t) = 0" and "fault_of G = F"
    and "ptes (t_mm t) a = Pte_none" and "flags AND FAULT_FLAG_WRITE \<noteq> 0"
  shows "handle_pte_fault G A a flags t = Some (0, touched F A a new t)"
  using assms by (simp add: handle_pte_fault_def do_anonymous_page_def check_stack_guard_page_def private_anon_def Let_def quiet_write_def next_zeroed_def
      map_anonymous_def touched_def) (simp add: t_vmf_def t_sw_def t_mem_def t_pte_def)

lemma write_after_read:
  assumes "private_anon F A a" and "quiet_write F" and "next_zeroed F new" and "p_count (frame_of new t) = 0" and "fault_of G = F"
    and "flags AND FAULT_FLAG_WRITE \<noteq> 0"
  shows "handle_pte_fault G A a flags (t_pte a (Pte_present (zero_entry F A a)) t) = Some (VM_FAULT_WRITE, touched F A a new t)"
proof -
  let ?z = "zero_entry F A a" and ?t = "t_pte a (Pte_present (zero_entry F A a)) t"
  have z: "pte_special ?z" "pte_pfn ?z = my_zero_pfn F a" "\<not> pte_write ?z" "is_zero_pfn F (my_zero_pfn F a)" "\<not> VM_SHARED (area_flags A)" "VM_WRITE (area_flags A)"
    using assms(1,2) by (simp_all add: zero_entry_def private_anon_def quiet_write_def)
  have e: "writable_copy F A new = own_entry F A new" using z(6) by (simp add: writable_copy_def own_entry_def maybe_mkwrite_def)
  have t: "ptes (t_mm ?t) a = Pte_present ?z" "frame_of new ?t = frame_of new t" by (simp_all add: t_pte_def set_pte_at_def frame_of_def)
  have "handle_pte_fault G A a flags ?t = do_wp_page F A a ?z ?t" using assms(5,6) t(1) z(3) by (simp add: handle_pte_fault_def Let_def)
  also have "\<dots> = Some (wp_copy F A a ?z None ?t)" using z by (simp add: do_wp_page_def vm_normal_page_def Let_def)
  also have "\<dots> = Some (VM_FAULT_WRITE, touched F A a new t)"
    using assms(2-4) z(2,4) t e
    by (simp add: wp_copy_def wp_new_page_def wp_replace_def wp_counts_def wp_unlock_def quiet_write_def next_zeroed_def touched_def Let_def
        writable_copy_def) (simp add: t_vmf_def t_sw_def t_mem_def t_pte_def pte_same_def set_pte_at_def)
  finally show ?thesis .
qed

lemma page_data_zeroed: "page_data (zeroed b m) b = (\<lambda>_. 0)"
  by (auto simp: page_data_def zeroed_def)

text \<open>
  C31: the first read of a page maps the zero page and costs nothing: no frame is taken and no counter moves.
  A write after it ends in exactly the same state of the whole node as a write to the untouched page would: one
  anonymous page more, all zeros, writable, with one mapping and one reference.
\<close>

theorem read_then_write_is_write:
  assumes "calm_oom G" and "fault_of G = F" and "a = uint (drop_bit PAGE_SHIFT address)" and "walkable G A a t"
    and "private_anon F A a" and "quiet_write F" and "next_zeroed F new" and "p_count (frame_of new t) = 0"
    and "has_table (tables_of F) (t_mm t) a \<Longrightarrow> ptes (t_mm t) a = Pte_none"
    and "rd AND FAULT_FLAG_WRITE = 0" and "wr AND FAULT_FLAG_WRITE \<noteq> 0"
  shows "\<exists>u v. handle_mm_fault G A address rd t = Some (0, u) \<and> handle_mm_fault G A address wr u = Some (VM_FAULT_WRITE, v) \<and>
    handle_mm_fault G A address wr t = Some (0, v) \<and> t_vm u = t_vm t \<and> same_counts (t_mm t) (t_mm u) \<and>
    ptes (t_mm u) a = Pte_present (zero_entry F A a) \<and> ptes (t_mm v) a = Pte_present (own_entry F A new) \<and> pte_write (own_entry F A new) \<and>
    mm_anonpages (t_mm v) = mm_anonpages (t_mm t) + 1 \<and> mm_filepages (t_mm v) = mm_filepages (t_mm t) \<and> mm_swapents (t_mm v) = mm_swapents (t_mm t) \<and>
    page_data (mem (nd (mc (t_vm v)))) (kmap (ext (host_at F)) new) = (\<lambda>_. 0) \<and>
    p_mapcount (frame_of new v) = 1 \<and> p_count (frame_of new v) = 1"
proof -
  obtain mm where mm0: "\<forall>flags. u_handle_mm_fault G A a flags t = handle_pte_fault G A a flags (t\<lparr>t_mm := mm\<rparr>)" "same_counts (t_mm t) mm"
    "has_table (tables_of F) mm a" "plain_at (tables_of F) mm a"
    "ptes mm a = (if has_table (tables_of F) (t_mm t) a then ptes (t_mm t) a else Pte_none)"
    using walk_down [OF assms(4)] unfolding assms(2) by blast
  note mm = mm0(1) [rule_format] mm0(2-4)
  have empty: "ptes mm a = Pte_none" using mm0(5) assms(9) by (auto split: if_splits)
  let ?t = "t\<lparr>t_mm := mm\<rparr>" and ?u = "t_pte a (Pte_present (zero_entry F A a)) (t\<lparr>t_mm := mm\<rparr>)"
  have f: "p_count (frame_of new ?t) = 0" "ptes (t_mm ?t) a = Pte_none" using assms(8) empty by (simp_all add: frame_of_def)
  have tt: "has_table (tables_of F) (t_mm ?u) a" "plain_at (tables_of F) (t_mm ?u) a" "t_vm ?u = t_vm t"
    using mm(3,4) by (simp_all add: t_pte_def set_pte_at_def has_table_def plain_at_def)
  then have "walkable G A a ?u" using assms(2,4) by (simp add: walkable_def)
  from walk_down [OF this] have w2: "u_handle_mm_fault G A a flags ?u = handle_pte_fault G A a flags ?u" for flags
    using tt(1) assms(2) by auto
  note h = calm_handle [OF assms(1), of A address, folded assms(3)]
  have r: "handle_mm_fault G A address rd t = Some (0, ?u)" using read_maps_zero [OF assms(5,2) f(2) assms(10)] by (simp add: h mm(1))
  have w: "handle_mm_fault G A address wr ?u = Some (VM_FAULT_WRITE, touched F A a new ?t)"
    using write_after_read [OF assms(5-7) f(1) assms(2,11)] by (simp add: h w2)
  have d: "handle_mm_fault G A address wr t = Some (0, touched F A a new ?t)"
    using write_touches [OF assms(5-7) f(1) assms(2) f(2) assms(11)] by (simp add: h mm(1))
  have "VM_WRITE (area_flags A)" using assms(5) by (simp add: private_anon_def)
  then show ?thesis using r w d mm(2) tt(3)
    by (intro exI [of _ ?u] exI [of _ "touched F A a new ?t"])
      (simp add: touched_def t_pte_def t_vmf_def t_sw_def t_mem_def mapped_new_def v_frame_def frame_upd_def frame_of_def set_pte_at_def same_counts_def
        page_data_zeroed own_entry_def Let_def new_page_def)
qed

section \<open>Witnesses\<close>

definition ideal_handling :: "(int \<Rightarrow> mem, unit) fault \<Rightarrow> (int \<Rightarrow> mem, unit) handling" where
  "ideal_handling F = \<lparr>fault_of = F, levels_of = ideal_levels, expand_downwards = (\<lambda>_ _ t. (0, t)), expand_upwards = (\<lambda>_ _ t. (0, t)),
     pte_to_pgoff = (\<lambda>_ _. 0), hugetlb_fault = (\<lambda>_ _ _ t. (0, t)), transparent_hugepage_enabled = (\<lambda>_. False),
     do_huge_pmd_anonymous_page = (\<lambda>_ _ _ t. (0, t)), pmd_trans_splitting = (\<lambda>_ _. False), pmd_write = (\<lambda>_ _. True),
     do_huge_pmd_wp_page = (\<lambda>_ _ t. (0, t)), huge_pmd_set_accessed = (\<lambda>_ _ _ t. t), mem_cgroup_oom_enable = (\<lambda>t. t),
     mem_cgroup_oom_disable = (\<lambda>t. t), task_in_memcg_oom = (\<lambda>_. False), mem_cgroup_oom_synchronize = (\<lambda>t. t)\<rparr>"

lemma ideal_handling: "calm_oom (ideal_handling F)" "fault_of (ideal_handling F) = F"
  by (simp_all add: calm_oom_def ideal_handling_def)

lemma ideal_walkable: "tables_of F = ideal_tables \<or> F = counting_fault \<Longrightarrow> plain_at (tables_of F) (t_mm t) a \<Longrightarrow> walkable (ideal_handling F) anon_area a t"
  by (auto simp: walkable_def ideal_handling_def counting_fault_def ideal_fault_def levels_ok_def ideal_tables_def pages_for_tables_def ideal_levels_def anon_area_def)

theorem read_then_write_is_write_witness:
  "\<exists>t u v. t_mm t = no_mm \<and> handle_mm_fault (ideal_handling counting_fault) anon_area 0xA123 0 t = Some (0, u) \<and>
     handle_mm_fault (ideal_handling counting_fault) anon_area 0xA123 1 u = Some (VM_FAULT_WRITE, v) \<and>
     handle_mm_fault (ideal_handling counting_fault) anon_area 0xA123 1 t = Some (0, v) \<and> mm_anonpages (t_mm v) = 1"
proof -
  define t :: "(int \<Rightarrow> mem, unit) task" where "t = \<lparr>t_mm = no_mm,
    t_vm = \<lparr>mc = \<lparr>nd = ideal_node (\<lambda>_ _. 0), sw = empty_swaps\<lparr>frames := (\<lambda>_. plain_page)(8 := new_page\<lparr>p_count := 0\<rparr>)\<rparr>\<rparr>, px = anon_px\<rparr>\<rparr>"
  have a: "10 = uint (drop_bit PAGE_SHIFT (0xA123 :: u64))" by (simp add: PAGE_SHIFT_def)
  have w: "walkable (ideal_handling counting_fault) anon_area 10 t"
    by (rule ideal_walkable) (simp_all add: plain_at_def t_def no_mm_def)
  have p: "private_anon counting_fault anon_area 10" by (simp add: private_anon_def anon_area_def private_area_def counting_fault_def ideal_fault_def)
  have z: "next_zeroed counting_fault 8" by (simp add: next_zeroed_def counting_fault_def ideal_fault_def host_at_def zeroed_def [abs_def])
  have f: "p_count (frame_of 8 t) = 0" by (simp add: frame_of_def t_def)
  have e: "has_table (tables_of counting_fault) (t_mm t) 10 \<Longrightarrow> ptes (t_mm t) 10 = Pte_none" by (simp add: t_def no_mm_def)
  have fl: "(0 :: int) AND FAULT_FLAG_WRITE = 0" "(1 :: int) AND FAULT_FLAG_WRITE \<noteq> 0" by (simp_all add: FAULT_FLAG_WRITE_def)
  have n: "t_mm t = no_mm" "mm_anonpages no_mm = 0" by (simp_all add: t_def no_mm_def)
  from read_then_write_is_write [OF ideal_handling a w p counting_fault(1) z f e fl] show ?thesis using n by auto
qed

theorem access_reads_back_witness:
  "\<exists>t e u. ptes (t_mm t) 10 = Pte_swap e \<and> handle_mm_fault (ideal_handling (ideal_fault False)) anon_area 0xA123 1 t = Some (0xC, u) \<and>
     (\<exists>q. ptes (t_mm u) 10 = Pte_present q \<and> pte_pfn q = 9 \<and> pte_write q) \<and> mm_swapents (t_mm u) = 0 \<and> mm_anonpages (t_mm u) = 1 \<and>
     pool_free (nd (mc (t_vm u))) = {3, 900}"
proof -
  obtain t0 :: "(int \<Rightarrow> mem, unit) task" and e where t0: "\<forall>b. own_fault (ideal_fault b) id e 3 9 (mc (t_vm t0))"
    "ptes (t_mm t0) 10 = Pte_swap e" "mm_swapents (t_mm t0) = 1" "mm_anonpages (t_mm t0) = 0" "pool_free (nd (mc (t_vm t0))) = {900}"
    by (rule ideal_faulting)
  define t where "t = t0\<lparr>t_mm := (t_mm t0)\<lparr>pgds := (\<lambda>_. Px_table), puds := (\<lambda>_. Px_table), pmds := (\<lambda>_. Px_table)\<rparr>\<rparr>"
  have t: "own_fault (ideal_fault False) id e 3 9 (mc (t_vm t))" "ptes (t_mm t) 10 = Pte_swap e" "mm_swapents (t_mm t) = 1" "mm_anonpages (t_mm t) = 0"
    "pool_free (nd (mc (t_vm t))) = {900}" using t0 by (simp_all add: t_def)
  have a: "10 = uint (drop_bit PAGE_SHIFT (0xA123 :: u64))" by (simp add: PAGE_SHIFT_def)
  have w: "walkable (ideal_handling (ideal_fault False)) anon_area 10 t"
    by (rule ideal_walkable) (simp_all add: plain_at_def t_def ideal_fault_parts)
  have h: "has_table (tables_of (ideal_fault False)) (t_mm t) 10" by (simp add: has_table_def t_def)
  have c: "mem_cgroup_try_charge_swapin (ideal_fault False) 9 x = (False, x)" for x by (simp add: ideal_fault_parts)
  have fl: "True \<longleftrightarrow> (1 :: int) AND FAULT_FLAG_WRITE \<noteq> 0" by (simp add: FAULT_FLAG_WRITE_def)
  from access_reads_back [OF ideal_handling a w h t(1,2) c fl]
  obtain u where u: "handle_mm_fault (ideal_handling (ideal_fault False)) anon_area 0xA123 1 t = Some (0xC, u)"
    "t_mm u = set_pte_at 10 (Pte_present (mapped_pte (ideal_fault False) private_area True 9)) (count_fault (t_mm t))"
    "pool_free (nd (mc (t_vm u))) = insert 3 (pool_free (nd (mc (t_vm t))))"
    by (auto simp: vm_faults)
  have "pte_pfn (mapped_pte (ideal_fault False) private_area True 9) = 9" "pte_write (mapped_pte (ideal_fault False) private_area True 9)"
    by (simp_all add: mapped_pte_def maybe_mkwrite_def ideal_fault_def private_area_def)
  then show ?thesis using t u by (intro exI [of _ t] exI [of _ e] exI [of _ u]) (simp add: set_pte_at_def count_fault_def)
qed

end
