(* ===== verification/Comex_Pgtables.thy ===== *)
theory Comex_Pgtables
  imports Comex_Span
begin

unbundle bit_operations_syntax

text \<open>
  The page tables themselves are given back (\<open>memory.c\<close>, 405-576) after the pages have gone.  A table may
  serve the neighbouring areas too, so it goes only when all it spans lies between \<open>floor\<close> and \<open>ceiling\<close>.
  Addresses are words here, because 0 stands for the bottom as an address or a floor and for the top as an
  end or a ceiling.
\<close>

section \<open>Operations\<close>

text \<open>The tables that were handed to the gather, with their level (1 is the last one) and number.\<close>

record pgt =
  g_mm :: mm_struct
  g_tables :: "(nat \<times> int) list"

text \<open>The macros \<open>p?d_addr_end\<close> and the number of the entry for an address, for a level with \<open>sh\<close> bits below it.\<close>

definition addr_end :: "nat \<Rightarrow> u64 \<Rightarrow> u64 \<Rightarrow> u64" where
  "addr_end sh addr till =
     (let boundary = (addr + 2 ^ sh) AND NOT (mask sh) in if boundary - 1 < till - 1 then boundary else till)"

definition px_no :: "nat \<Rightarrow> u64 \<Rightarrow> int" where
  "px_no sh addr = uint (drop_bit sh addr)"

definition free_pte_range :: "int \<Rightarrow> pgt \<Rightarrow> pgt" where
  "free_pte_range pmd g = g\<lparr>g_mm := (pmd_clear pmd (g_mm g))\<lparr>nr_ptes := nr_ptes (g_mm g) - 1\<rparr>, g_tables := g_tables g @ [(1, pmd)]\<rparr>"

definition free_pmd :: "('r, 'k) tables \<Rightarrow> u64 \<Rightarrow> u64 \<Rightarrow> pgt \<Rightarrow> (u64 \<times> pgt) option" where
  "free_pmd T addr next g =
     (let i = px_no (PMD_SHIFT T) addr; (skip, mm) = pmd_none_or_clear_bad i (g_mm g); g = g\<lparr>g_mm := mm\<rparr>
      in Some (next, if skip then g else free_pte_range i g))"

text \<open>
  No other area has addresses under the entry: what it spans begins at the floor or above and ends at the
  ceiling or below.
\<close>

definition spans_only :: "nat \<Rightarrow> u64 \<Rightarrow> u64 \<Rightarrow> u64 \<Rightarrow> u64 \<Rightarrow> bool" where
  "spans_only sh start till floor ceiling \<longleftrightarrow>
     (let start = start AND NOT (mask sh); top = (if ceiling \<noteq> 0 then ceiling AND NOT (mask sh) else ceiling)
      in \<not> start < floor \<and> \<not> (ceiling \<noteq> 0 \<and> top = 0) \<and> \<not> top - 1 < till - 1)"

definition free_pmd_range :: "('r, 'k) tables \<Rightarrow> u64 \<Rightarrow> u64 \<Rightarrow> u64 \<Rightarrow> u64 \<Rightarrow> pgt \<Rightarrow> pgt option" where
  "free_pmd_range T floor ceiling addr till g = do {
     (_, g) \<leftarrow> walk (addr_end (PMD_SHIFT T)) (free_pmd T) addr till g;
     let w = px_no (PUD_SHIFT T) addr;
     Some (if spans_only (PUD_SHIFT T) addr till floor ceiling
           then g\<lparr>g_mm := pud_clear w (g_mm g), g_tables := g_tables g @ [(2, w)]\<rparr> else g)
   }"

definition free_pud :: "('r, 'k) tables \<Rightarrow> u64 \<Rightarrow> u64 \<Rightarrow> u64 \<Rightarrow> u64 \<Rightarrow> pgt \<Rightarrow> (u64 \<times> pgt) option" where
  "free_pud T floor ceiling addr next g = do {
     let (skip, mm) = pud_none_or_clear_bad (px_no (PUD_SHIFT T) addr) (g_mm g);
     let g = g\<lparr>g_mm := mm\<rparr>;
     g \<leftarrow> (if skip then Some g else free_pmd_range T floor ceiling addr next g);
     Some (next, g)
   }"

definition free_pud_range :: "('r, 'k) tables \<Rightarrow> u64 \<Rightarrow> u64 \<Rightarrow> u64 \<Rightarrow> u64 \<Rightarrow> pgt \<Rightarrow> pgt option" where
  "free_pud_range T floor ceiling addr till g = do {
     (_, g) \<leftarrow> walk (addr_end (PUD_SHIFT T)) (free_pud T floor ceiling) addr till g;
     let w = px_no (PGDIR_SHIFT T) addr;
     Some (if spans_only (PGDIR_SHIFT T) addr till floor ceiling
           then g\<lparr>g_mm := pgd_clear w (g_mm g), g_tables := g_tables g @ [(3, w)]\<rparr> else g)
   }"

definition free_pgd :: "('r, 'k) tables \<Rightarrow> u64 \<Rightarrow> u64 \<Rightarrow> u64 \<Rightarrow> u64 \<Rightarrow> pgt \<Rightarrow> (u64 \<times> pgt) option" where
  "free_pgd T floor ceiling addr next g = do {
     let (skip, mm) = pgd_none_or_clear_bad (px_no (PGDIR_SHIFT T) addr) (g_mm g);
     let g = g\<lparr>g_mm := mm\<rparr>;
     g \<leftarrow> (if skip then Some g else free_pud_range T floor ceiling addr next g);
     Some (next, g)
   }"

definition free_pgd_range :: "('r, 'k) tables \<Rightarrow> u64 \<Rightarrow> u64 \<Rightarrow> u64 \<Rightarrow> u64 \<Rightarrow> pgt \<Rightarrow> pgt option" where
  "free_pgd_range T addr till floor ceiling g =
     (let PMD_SIZE = 2 ^ PMD_SHIFT T; PMD_MASK = NOT (mask (PMD_SHIFT T));
          addr = addr AND PMD_MASK; low = addr < floor; addr = (if low then addr + PMD_SIZE else addr);
          top = (if ceiling \<noteq> 0 then ceiling AND PMD_MASK else ceiling)
      in if low \<and> addr = 0 then Some g
         else if ceiling \<noteq> 0 \<and> top = 0 then Some g
         else (let till = (if top - 1 < till - 1 then till - PMD_SIZE else till)
               in if till - 1 < addr then Some g
                  else do { (_, g) \<leftarrow> walk (addr_end (PGDIR_SHIFT T)) (free_pgd T floor top) addr till g; Some g }))"

text \<open>Areas close to one another are treated as one: the last of them, and the areas behind it.\<close>

fun gather_areas :: "('r, 'k) tables \<Rightarrow> vma_struct \<Rightarrow> vma_struct list \<Rightarrow> vma_struct \<times> vma_struct list" where
  "gather_areas T w [] = (w, [])"
| "gather_areas T w (n # ns) =
     (if vm_start n \<le> vm_end w + 2 ^ PMD_SHIFT T \<and> \<not> VM_HUGETLB n then gather_areas T n ns else (w, n # ns))"

lemma gather_areas_length: "gather_areas T w ws = (v, rest) \<Longrightarrow> length rest \<le> length ws"
  by (induction ws arbitrary: w) (auto split: if_splits intro: le_SucI)

function free_pgtables :: "('r, 'k) tables \<Rightarrow> ('r, 'k) levels \<Rightarrow> vma_struct list \<Rightarrow> u64 \<Rightarrow> u64 \<Rightarrow> pgt \<Rightarrow> pgt option" where
  "free_pgtables T L [] floor ceiling g = Some g"
| "free_pgtables T L (w # ws) floor ceiling g =
     (if VM_HUGETLB w then
        free_pgtables T L ws floor ceiling
          (g\<lparr>g_mm := hugetlb_free_pgd_range L (vm_start w) (vm_end w) floor (case ws of [] \<Rightarrow> ceiling | n # _ \<Rightarrow> vm_start n) (g_mm g)\<rparr>)
      else (case gather_areas T w ws of
          (v, rest) \<Rightarrow> do {
            g \<leftarrow> free_pgd_range T (vm_start w) (vm_end v) floor (case rest of [] \<Rightarrow> ceiling | n # _ \<Rightarrow> vm_start n) g;
            free_pgtables T L rest floor ceiling g
          }))"
  by pat_completeness auto
termination
  by (relation "measure (\<lambda>(T, L, ws, x). length ws)") (auto dest!: gather_areas_length [OF sym])

section \<open>Words as numbers\<close>

lemma uint_and_not_mask: "uint (a AND NOT (mask n) :: u64) = uint a div 2 ^ n * 2 ^ n"
proof -
  have "push_bit n (drop_bit n a) = a AND NOT (mask n)" by (rule bit_word_eqI) (auto simp: bit_simps)
  then have a: "a AND NOT (mask n) = a - take_bit n a" using bits_ident [of n a] by (simp add: algebra_simps)
  have t: "uint (take_bit n a) = uint a mod 2 ^ n" by (subst unsigned_take_bit_eq) (rule take_bit_eq_mod)
  have "uint (take_bit n a) \<le> uint a" unfolding t by (simp add: zmod_le_nonneg_dividend)
  then have "uint (a - take_bit n a) = uint a - uint (take_bit n a)" by (simp add: uint_sub_lem)
  then show ?thesis unfolding a t by (simp add: minus_mod_eq_div_mult)
qed

lemma px_no_div: "px_no sh a = uint a div 2 ^ sh"
proof -
  have "take_bit 64 (uint a) = uint a" using uint_lt2p [of a] by (intro take_bit_int_eq_self) simp_all
  then show ?thesis unfolding px_no_def by (subst unsigned_drop_bit_eq) (simp add: drop_bit_eq_div)
qed

lemma uint_minus_1: "c \<noteq> 0 \<Longrightarrow> uint (c - 1 :: u64) = uint c - 1"
proof -
  assume "c \<noteq> 0"
  then have "0 < uint c" by (simp add: order_less_le uint_0_iff)
  then show ?thesis using uint_sub_lem [of 1 c] by simp
qed

lemma pow_dvd_64: "sh \<le> 64 \<Longrightarrow> (2 :: int) ^ sh dvd 2 ^ 64"
  by (rule le_imp_power_dvd)

lemma addr_end_piece:
  assumes "sh < 64" and "a < c"
  shows "uint (addr_end sh a c) = piece_end (2 ^ sh) (uint a) (uint c)"
proof -
  let ?S = "2 ^ sh :: int" and ?M = "2 ^ 64 :: int"
  let ?B = "(uint a div ?S + 1) * ?S"
  define b where "b = (a + 2 ^ sh) AND NOT (mask sh)"
  have S: "0 < ?S" "?S < ?M" using power_strict_increasing [OF assms(1), of "2 :: int"] by simp_all
  have ac: "uint a < uint c" "uint c < ?M" using assms(2) uint_lt2p [of c] by (simp_all add: word_less_alt)
  have us: "uint ((2 :: u64) ^ sh) = ?S" 
  proof -
    have "(2 :: u64) ^ sh = word_of_int ?S" by simp
    then have "uint ((2 :: u64) ^ sh) = ?S mod ?M" by (simp only: uint_word_of_int) simp
    then show ?thesis using S by simp
  qed
  have ub: "uint b = (uint a + ?S) mod ?M div ?S * ?S" unfolding b_def uint_and_not_mask by (simp add: uint_word_ariths us)
  have c1: "uint (c - 1) = uint c - 1"
  proof -
    have "c \<noteq> 0" using ac uint_ge_0 [of a] by auto
    then show ?thesis by (rule uint_minus_1)
  qed
  show ?thesis
  proof (cases "uint a + ?S < ?M")
    case True
    then have "(uint a + ?S) mod ?M = uint a + ?S" using S(1) uint_ge_0 [of a] by (intro mod_pos_pos_trivial) linarith+
    moreover have "(uint a + ?S) div ?S = uint a div ?S + 1" using S(1) by (intro div_add_self2) simp
    ultimately have b: "uint b = ?B" unfolding ub by simp
    have "0 < uint b" unfolding b using S(1) uint_ge_0 [of a] by (simp add: pos_imp_zdiv_nonneg_iff add_pos_nonneg)
    then have "b \<noteq> 0" by auto
    then have "uint (b - 1) = ?B - 1" using uint_minus_1 [of b] b by simp
    then have "b - 1 < c - 1 \<longleftrightarrow> ?B < uint c" by (simp add: word_less_alt c1)
    then show ?thesis using b by (simp add: addr_end_def b_def [symmetric] Let_def piece_end_def)
  next
    case False
    have d: "?S dvd ?M" using pow_dvd_64 assms(1) by simp
    then obtain k where k: "?M = k * ?S" by (metis dvdE mult.commute)
    have "uint a + ?S - ?M < ?S" "0 \<le> uint a + ?S - ?M" using False uint_lt2p [of a] by simp_all
    moreover from this have "(uint a + ?S) mod ?M = uint a + ?S - ?M"
      using S(2) by (metis (no_types, lifting) minus_mod_self2 mod_pos_pos_trivial order_less_trans)
    ultimately have "uint b = 0" unfolding ub by (simp add: div_pos_pos_trivial)
    then have "b = 0" by (simp add: uint_0_iff)
    then have "\<not> b - 1 < c - 1" by simp
    moreover have "uint c \<le> ?B"
    proof -
      have "k * ?S - ?S \<le> uint a" using False k by linarith
      then have "k - 1 \<le> uint a div ?S" 
        using zdiv_mono1 [of "(k - 1) * ?S" "uint a" ?S] S(1) by (simp add: algebra_simps)
      then have "k * ?S \<le> ?B" using S(1) by (intro mult_right_mono) auto
      then show ?thesis using ac(2) k by linarith
    qed
    ultimately show ?thesis by (simp add: addr_end_def b_def [symmetric] Let_def piece_end_def)
  qed
qed

section \<open>What goes\<close>

text \<open>The entry \<open>i\<close> of a level spans \<open>S\<close> bytes; it is met by a range, and it lies between floor and ceiling.\<close>

definition met :: "int \<Rightarrow> u64 \<Rightarrow> u64 \<Rightarrow> int \<Rightarrow> bool" where
  "met S a c i \<longleftrightarrow> i * S < uint c \<and> uint a < (i + 1) * S"

definition top_of :: "u64 \<Rightarrow> int" where
  "top_of ceiling = (if ceiling = 0 then 2 ^ 64 else uint ceiling)"

definition inside :: "int \<Rightarrow> u64 \<Rightarrow> u64 \<Rightarrow> int \<Rightarrow> bool" where
  "inside S floor ceiling i \<longleftrightarrow> uint floor \<le> i * S \<and> (i + 1) * S \<le> top_of ceiling"

lemma div_piece: "0 < S \<Longrightarrow> (x :: int) div S = q \<longleftrightarrow> q * S \<le> x \<and> x < (q + 1) * S"
proof
  assume S: "0 < S" and q: "x div S = q"
  have "q * S + x mod S = x" using q by auto
  moreover have "0 \<le> x mod S" "x mod S < S" using S by simp_all
  ultimately show "q * S \<le> x \<and> x < (q + 1) * S" by (simp add: distrib_right)
next
  assume S: "0 < S" and q: "q * S \<le> x \<and> x < (q + 1) * S"
  then show "x div S = q" by (intro int_div_pos_eq [of _ _ _ "x - q * S"]) (simp_all add: algebra_simps)
qed

lemma met_one:
  assumes "0 < S" and "a < c" and "uint c \<le> (uint a div S + 1) * S"
  shows "met S a c i \<longleftrightarrow> i = uint a div S"
proof
  have ac: "uint a < uint c" using assms(2) by (simp add: word_less_alt)
  have q: "uint a div S * S \<le> uint a" "uint a < (uint a div S + 1) * S" using div_piece [OF assms(1), of "uint a"] by blast+
  show "met S a c i" if "i = uint a div S" using q ac by (simp add: met_def that)
  show "i = uint a div S" if m: "met S a c i"
  proof (rule ccontr)
    assume "i \<noteq> uint a div S"
    then consider "i + 1 \<le> uint a div S" | "uint a div S + 1 \<le> i" by linarith
    then show False
    proof cases
      case 1
      then have "(i + 1) * S \<le> uint a div S * S" using assms(1) by (intro mult_right_mono) simp_all
      then show False using m q by (simp add: met_def)
    next
      case 2
      then have "(uint a div S + 1) * S \<le> i * S" using assms(1) by (intro mult_right_mono) simp_all
      then show False using m assms(3) by (simp add: met_def)
    qed
  qed
qed

lemma met_join: "a \<le> b \<Longrightarrow> b \<le> c \<Longrightarrow> 0 < S \<Longrightarrow> a < b \<Longrightarrow> b < c \<Longrightarrow> met S a c i \<longleftrightarrow> met S a b i \<or> met S b c i"
  unfolding met_def word_less_alt word_le_def
  by (cases "i * S < uint b"; cases "uint b < (i + 1) * S") (auto simp: distrib_right)

lemma met_byte:
  assumes "0 < S" and "a < c" and "met S a c i"
  obtains x where "uint a \<le> x" and "x < uint c" and "x div S = i"
proof -
  define x where "x = max (uint a) (i * S)"
  have "uint a \<le> x" "x < uint c" "x div S = i"
    using assms div_piece [of S x i] by (auto simp: x_def met_def word_less_alt distrib_right)
  then show thesis by (rule that)
qed

lemma in_piece:
  assumes "0 < S" and "uint a \<le> x" and "x < uint c" and "uint c \<le> (uint a div S + 1) * S"
  shows "x div S = uint a div S"
  using assms div_piece [of S x "uint a div S"] div_piece [of S "uint a" "uint a div S"] by simp

lemma spans_only_inside:
  assumes sh: "sh < 64" and ac: "a < c" and p: "uint c \<le> (uint a div 2 ^ sh + 1) * 2 ^ sh"
  shows "spans_only sh a c floor ceiling \<longleftrightarrow> inside (2 ^ sh) floor ceiling (uint a div 2 ^ sh)"
proof -
  let ?S = "2 ^ sh :: int" and ?w = "uint a div 2 ^ sh"
  have S: "0 < ?S" by simp
  have lt: "uint a < uint c" using ac by (simp add: word_less_alt)
  then have "c \<noteq> 0" using uint_ge_0 [of a] by auto
  note c1 = uint_minus_1 [OF this]
  have fl: "a AND NOT (mask sh) < floor \<longleftrightarrow> \<not> uint floor \<le> ?w * ?S" by (simp add: word_less_alt uint_and_not_mask not_le)
  have wS: "?w * ?S \<le> uint a" using div_piece [OF S, of "uint a"] by blast
  show ?thesis
  proof (cases "ceiling = 0")
    case True
    have "?S dvd 2 ^ 64" using pow_dvd_64 sh by simp
    then obtain k where k: "2 ^ 64 = k * ?S" by (metis dvdE mult.commute)
    have "uint a < 2 ^ 64" using uint_lt2p [of a] by simp
    then have "?w * ?S < k * ?S" using wS k by linarith
    then have "?w + 1 \<le> k" using S by (simp only: mult_less_cancel_right_pos)
    then have "(?w + 1) * ?S \<le> k * ?S" using S by (intro mult_right_mono) simp_all
    then have "(?w + 1) * ?S \<le> 2 ^ 64" using k by linarith
    moreover have "\<not> (- 1 :: u64) < c - 1" by simp
    ultimately show ?thesis using True fl unfolding spans_only_def inside_def top_of_def Let_def by simp
  next
    case False
    let ?t = "ceiling AND NOT (mask sh)"
    have t: "uint ?t = uint ceiling div ?S * ?S" by (rule uint_and_not_mask)
    have q: "uint ceiling div ?S * ?S \<le> uint ceiling" "uint ceiling < (uint ceiling div ?S + 1) * ?S"
      using div_piece [OF S, of "uint ceiling"] by blast+
    have "\<not> (?t = 0) \<and> \<not> ?t - 1 < c - 1 \<longleftrightarrow> (?w + 1) * ?S \<le> uint ceiling"
    proof
      assume r: "(?w + 1) * ?S \<le> uint ceiling"
      then have "(?w + 1) * ?S < (uint ceiling div ?S + 1) * ?S" using q(2) by linarith
      then have "?w + 1 \<le> uint ceiling div ?S" using S by (simp only: mult_less_cancel_right_pos)
      then have "(?w + 1) * ?S \<le> uint ?t" unfolding t using S by (intro mult_right_mono) simp_all
      then have "uint c \<le> uint ?t" using p by linarith
      moreover from this have "?t \<noteq> 0" using lt uint_ge_0 [of a] by auto
      ultimately show "\<not> (?t = 0) \<and> \<not> ?t - 1 < c - 1" using c1 by (simp add: word_less_alt uint_minus_1)
    next
      assume l: "\<not> (?t = 0) \<and> \<not> ?t - 1 < c - 1"
      then have "uint (?t - 1) = uint ?t - 1" by (intro uint_minus_1) simp
      then have "uint c \<le> uint ?t" using l c1 by (simp add: word_less_alt)
      then have "?w * ?S < uint ceiling div ?S * ?S" using wS lt unfolding t by linarith
      then have "?w + 1 \<le> uint ceiling div ?S" using S by (simp only: mult_less_cancel_right_pos)
      then have "(?w + 1) * ?S \<le> uint ceiling div ?S * ?S" using S by (intro mult_right_mono) simp_all
      then show "(?w + 1) * ?S \<le> uint ceiling" using q(1) by linarith
    qed
    then show ?thesis using False fl by (auto simp: spans_only_def inside_def top_of_def Let_def)
  qed
qed

text \<open>The entries of the sets \<open>X\<close>, \<open>Y\<close> and \<open>Z\<close> of the three levels are cleared, and each table behind them is handed over once.\<close>

definition freed :: "int set \<Rightarrow> int set \<Rightarrow> int set \<Rightarrow> pgt \<Rightarrow> pgt \<Rightarrow> bool" where
  "freed X Y Z g t \<longleftrightarrow> finite X \<and>
     g_mm t = (g_mm g)\<lparr>pmds := (\<lambda>i. if i \<in> X then Px_none else pmds (g_mm g) i), puds := (\<lambda>i. if i \<in> Y then Px_none else puds (g_mm g) i),
       pgds := (\<lambda>i. if i \<in> Z then Px_none else pgds (g_mm g) i), nr_ptes := nr_ptes (g_mm g) - int (card X)\<rparr> \<and>
     (\<exists>ls. g_tables t = g_tables g @ ls \<and> distinct ls \<and> set ls = {1} \<times> X \<union> {2} \<times> Y \<union> {3} \<times> Z)"

lemma freed_none: "freed {} {} {} g g"
  by (simp add: freed_def)

lemma freed_trans:
  assumes "freed X Y Z g t" and "freed X' Y' Z' t u" and "X \<inter> X' = {}" and "Y \<inter> Y' = {}" and "Z \<inter> Z' = {}"
  shows "freed (X \<union> X') (Y \<union> Y') (Z \<union> Z') g u"
proof -
  have "int (card (X \<union> X')) = int (card X) + int (card X')" using assms by (simp add: freed_def card_Un_disjoint)
  then have "g_mm u = (g_mm g)\<lparr>pmds := (\<lambda>i. if i \<in> X \<union> X' then Px_none else pmds (g_mm g) i),
      puds := (\<lambda>i. if i \<in> Y \<union> Y' then Px_none else puds (g_mm g) i),
      pgds := (\<lambda>i. if i \<in> Z \<union> Z' then Px_none else pgds (g_mm g) i), nr_ptes := nr_ptes (g_mm g) - int (card (X \<union> X'))\<rparr>"
    using assms(1,2) by (simp add: freed_def fun_eq_iff cong: if_cong)
  moreover obtain ls ms where ls: "g_tables t = g_tables g @ ls" "distinct ls" "set ls = {1} \<times> X \<union> {2} \<times> Y \<union> {3} \<times> Z"
    and ms: "g_tables u = g_tables t @ ms" "distinct ms" "set ms = {1} \<times> X' \<union> {2} \<times> Y' \<union> {3} \<times> Z'"
    using assms(1,2) by (auto simp: freed_def)
  have "set ls \<inter> set ms = {}" using assms(3-5) unfolding ls ms by auto
  then have "distinct (ls @ ms)" using ls ms by simp
  moreover have "set (ls @ ms) = {1} \<times> (X \<union> X') \<union> {2} \<times> (Y \<union> Y') \<union> {3} \<times> (Z \<union> Z')" unfolding set_append ls ms by auto
  moreover have "g_tables u = g_tables g @ (ls @ ms)" using ls ms by simp
  moreover have "finite (X \<union> X')" using assms by (simp add: freed_def)
  ultimately show ?thesis unfolding freed_def by blast
qed

text \<open>The tables of the three levels that a range meets; the upper ones only where nobody else needs them.\<close>

definition met_pmds :: "('r, 'k) tables \<Rightarrow> pgt \<Rightarrow> u64 \<Rightarrow> u64 \<Rightarrow> int set" where
  "met_pmds T g a c = {i. pmds (g_mm g) i = Px_table \<and> met (2 ^ PMD_SHIFT T) a c i}"

definition met_puds :: "('r, 'k) tables \<Rightarrow> u64 \<Rightarrow> u64 \<Rightarrow> pgt \<Rightarrow> u64 \<Rightarrow> u64 \<Rightarrow> int set" where
  "met_puds T F C g a c = {i. puds (g_mm g) i = Px_table \<and> met (2 ^ PUD_SHIFT T) a c i \<and> inside (2 ^ PUD_SHIFT T) F C i}"

definition met_pgds :: "('r, 'k) tables \<Rightarrow> u64 \<Rightarrow> u64 \<Rightarrow> pgt \<Rightarrow> u64 \<Rightarrow> u64 \<Rightarrow> int set" where
  "met_pgds T F C g a c = {i. pgds (g_mm g) i = Px_table \<and> met (2 ^ PGDIR_SHIFT T) a c i \<and> inside (2 ^ PGDIR_SHIFT T) F C i}"

text \<open>The tables above the byte \<open>x\<close> are ordinary ones.\<close>

definition plain_byte :: "('r, 'k) tables \<Rightarrow> mm_struct \<Rightarrow> int \<Rightarrow> bool" where
  "plain_byte T mm x \<longleftrightarrow> pgds mm (x div 2 ^ PGDIR_SHIFT T) \<in> {Px_none, Px_table} \<and> puds mm (x div 2 ^ PUD_SHIFT T) \<in> {Px_none, Px_table} \<and>
     pmds mm (x div 2 ^ PMD_SHIFT T) \<in> {Px_none, Px_table} \<and>
     (puds mm (x div 2 ^ PUD_SHIFT T) = Px_table \<longrightarrow> pgds mm (x div 2 ^ PGDIR_SHIFT T) = Px_table) \<and>
     (pmds mm (x div 2 ^ PMD_SHIFT T) = Px_table \<longrightarrow> puds mm (x div 2 ^ PUD_SHIFT T) = Px_table)"

definition free_pre :: "('r, 'k) tables \<Rightarrow> u64 \<Rightarrow> u64 \<Rightarrow> pgt \<Rightarrow> bool" where
  "free_pre T a c g \<longleftrightarrow> (\<forall>x. uint a \<le> x \<longrightarrow> x < uint c \<longrightarrow> plain_byte T (g_mm g) x)"

text \<open>What a walk over entries of level \<open>k\<close> does.\<close>

definition free_post :: "('r, 'k) tables \<Rightarrow> u64 \<Rightarrow> u64 \<Rightarrow> nat \<Rightarrow> u64 \<Rightarrow> u64 \<Rightarrow> pgt \<Rightarrow> pgt \<Rightarrow> bool" where
  "free_post T F C k a c g t \<longleftrightarrow> freed (met_pmds T g a c) (if 2 \<le> k then met_puds T F C g a c else {}) (if 3 \<le> k then met_pgds T F C g a c else {}) g t"

definition geometry_ok :: "('r, 'k) tables \<Rightarrow> bool" where
  "geometry_ok T \<longleftrightarrow> PAGE_SHIFT \<le> PMD_SHIFT T \<and> PMD_SHIFT T \<le> PUD_SHIFT T \<and> PUD_SHIFT T \<le> PGDIR_SHIFT T \<and> PGDIR_SHIFT T < 64"

definition level_shift :: "('r, 'k) tables \<Rightarrow> nat \<Rightarrow> nat" where
  "level_shift T k = (if k = 1 then PMD_SHIFT T else if k = 2 then PUD_SHIFT T else PGDIR_SHIFT T)"

lemma cut_not_met: "0 < S \<Longrightarrow> S dvd uint b \<Longrightarrow> met S a b i \<Longrightarrow> uint b \<le> x \<Longrightarrow> x div S \<noteq> i"
proof
  assume S: "0 < S" and d: "S dvd uint b" and m: "met S a b i" and x: "uint b \<le> x" and q: "x div S = i"
  obtain k where k: "uint b = k * S" using d by (metis dvdE mult.commute)
  have "i * S < k * S" using m k by (simp add: met_def)
  then have "i + 1 \<le> k" using S by (simp only: mult_less_cancel_right_pos)
  then have "(i + 1) * S \<le> k * S" using S by (intro mult_right_mono) simp_all
  moreover have "x < (i + 1) * S" using div_piece [OF S, of x i] q by blast
  ultimately show False using x k by linarith
qed

lemma free_post_join:
  assumes one: "free_post T F C k a b s t" and two: "free_post T F C k b c t u" and "a < b" and "b < c"
  shows "free_post T F C k a c s u"
proof -
  note j = met_join [OF less_imp_le [OF assms(3)] less_imp_le [OF assms(4)] _ assms(3,4)]
  have t: "g_mm t = (g_mm s)\<lparr>pmds := (\<lambda>i. if i \<in> met_pmds T s a b then Px_none else pmds (g_mm s) i),
      puds := (\<lambda>i. if i \<in> (if 2 \<le> k then met_puds T F C s a b else {}) then Px_none else puds (g_mm s) i),
      pgds := (\<lambda>i. if i \<in> (if 3 \<le> k then met_pgds T F C s a b else {}) then Px_none else pgds (g_mm s) i),
      nr_ptes := nr_ptes (g_mm s) - int (card (met_pmds T s a b))\<rparr>"
    using one by (simp add: free_post_def freed_def)
  have X: "met_pmds T s a b \<union> met_pmds T t b c = met_pmds T s a c" "met_pmds T s a b \<inter> met_pmds T t b c = {}"
    unfolding met_pmds_def t by (auto simp: j)
  have Y: "met_puds T F C s a b \<union> met_puds T F C t b c = met_puds T F C s a c" "met_puds T F C s a b \<inter> met_puds T F C t b c = {}"
    if "2 \<le> k" using that unfolding met_puds_def t by (auto simp: j met_puds_def)
  have Z: "met_pgds T F C s a b \<union> met_pgds T F C t b c = met_pgds T F C s a c" "met_pgds T F C s a b \<inter> met_pgds T F C t b c = {}"
    if "3 \<le> k" using that unfolding met_pgds_def t by (auto simp: j met_pgds_def)
  let ?Y = "\<lambda>g a b. if 2 \<le> k then met_puds T F C g a b else {}" and ?Z = "\<lambda>g a b. if 3 \<le> k then met_pgds T F C g a b else {}"
  have Y': "?Y s a b \<union> ?Y t b c = ?Y s a c" "?Y s a b \<inter> ?Y t b c = {}" using Y by simp_all
  have Z': "?Z s a b \<union> ?Z t b c = ?Z s a c" "?Z s a b \<inter> ?Z t b c = {}" using Z by simp_all
  have "freed (met_pmds T s a b \<union> met_pmds T t b c) (?Y s a b \<union> ?Y t b c) (?Z s a b \<union> ?Z t b c) s u"
    by (rule freed_trans [OF one [unfolded free_post_def] two [unfolded free_post_def] X(2) Y'(2) Z'(2)])
  then show ?thesis unfolding X(1) Y'(1) Z'(1) free_post_def .
qed

lemma free_pre_rest:
  assumes geo: "geometry_ok T" and pre: "free_pre T a c s" and post: "free_post T F C k a b s t" and cut: "2 ^ level_shift T k dvd uint b"
    and ab: "a < b" and k: "1 \<le> k"
  shows "free_pre T b c t"
  unfolding free_pre_def
proof (intro allI impI)
  fix x assume x: "uint b \<le> x" "x < uint c"
  have "uint a \<le> x" using ab x by (simp add: word_less_alt)
  then have p: "plain_byte T (g_mm s) x" using pre x by (simp add: free_pre_def)
  have d: "2 ^ PUD_SHIFT T dvd uint b" if "2 \<le> k"
  proof -
    have "PUD_SHIFT T \<le> level_shift T k" using that geo by (simp add: level_shift_def geometry_ok_def)
    from dvd_trans [OF le_imp_power_dvd [OF this] cut] show ?thesis .
  qed
  have e: "2 ^ PGDIR_SHIFT T dvd uint b" if "3 \<le> k" using that cut by (simp add: level_shift_def)
  have puds: "puds (g_mm t) (x div 2 ^ PUD_SHIFT T) = puds (g_mm s) (x div 2 ^ PUD_SHIFT T)"
    using post cut_not_met [OF _ d _ x(1)] by (auto simp: free_post_def freed_def met_puds_def)
  have pgds: "pgds (g_mm t) (x div 2 ^ PGDIR_SHIFT T) = pgds (g_mm s) (x div 2 ^ PGDIR_SHIFT T)"
    using post cut_not_met [OF _ e _ x(1)] by (auto simp: free_post_def freed_def met_pgds_def)
  have pmds: "pmds (g_mm t) (x div 2 ^ PMD_SHIFT T) \<in> {Px_none, pmds (g_mm s) (x div 2 ^ PMD_SHIFT T)}"
    using post by (auto simp: free_post_def freed_def)
  show "plain_byte T (g_mm t) x" using p pmds unfolding plain_byte_def puds pgds by auto
qed


interpretation freeing: ranges "free_pre T" "free_post T F C k" "\<lambda>a c. unat c - unat a"
    "\<lambda>b. geometry_ok T \<and> 1 \<le> k \<and> 2 ^ level_shift T k dvd uint b" for T :: "('r, 'k) tables" and F C and k
proof
  fix a b c :: u64 and s t u
  show "free_pre T a b s" if "free_pre T a c s" "b \<le> c" using that by (simp add: free_pre_def word_le_def)
  show "free_pre T b c t" if "free_pre T a c s" "free_post T F C k a b s t" "a < b" "geometry_ok T \<and> 1 \<le> k \<and> 2 ^ level_shift T k dvd uint b"
    using that free_pre_rest [of T a c s F C k b t] by blast
  show "free_post T F C k a c s u" if "free_post T F C k a b s t" "free_post T F C k b c t u" "a < b" "b < c"
    by (rule free_post_join [OF that])
  show "unat c - unat b < unat c - unat a" if "a < b" "b \<le> c" using that by (simp add: word_less_nat_alt word_le_nat_alt)
qed

section \<open>The levels\<close>

lemma addr_end_props:
  assumes "sh < 64" and "a < c"
  shows "a < addr_end sh a c" "addr_end sh a c \<le> c" "addr_end sh a c = c \<or> 2 ^ sh dvd uint (addr_end sh a c)"
    "addr_end sh a c = c \<Longrightarrow> uint c \<le> (uint a div 2 ^ sh + 1) * 2 ^ sh" "addr_end sh a (addr_end sh a c) = addr_end sh a c"
proof -
  have e: "uint (addr_end sh a c) = piece_end (2 ^ sh) (uint a) (uint c)" by (rule addr_end_piece [OF assms])
  have "uint a < uint c" using assms(2) by (simp add: word_less_alt)
  from piece_end_bounds [OF _ this, of "2 ^ sh"] show l: "a < addr_end sh a c" "addr_end sh a c \<le> c"
    by (simp_all add: word_less_alt word_le_def e)
  show "addr_end sh a c = c \<or> 2 ^ sh dvd uint (addr_end sh a c)"
  proof (cases "uint c \<le> (uint a div 2 ^ sh + 1) * 2 ^ sh")
    case True
    then have "uint (addr_end sh a c) = uint c" unfolding e piece_end_def by simp
    then show ?thesis by (simp add: word_uint_eq_iff)
  qed (simp add: e piece_end_def)
  show "uint c \<le> (uint a div 2 ^ sh + 1) * 2 ^ sh" if "addr_end sh a c = c"
    using e unfolding that piece_end_def by linarith
  have "uint (addr_end sh a (addr_end sh a c)) = uint (addr_end sh a c)"
    unfolding addr_end_piece [OF assms(1) l(1)] unfolding e by (rule piece_end_twice)
  then show "addr_end sh a (addr_end sh a c) = addr_end sh a c" by (simp add: word_uint_eq_iff)
qed

lemma level_shift_less: "geometry_ok T \<Longrightarrow> level_shift T k < 64"
  by (simp add: geometry_ok_def level_shift_def)

lemma freeing_walk:
  assumes geo: "geometry_ok T" and k: "1 \<le> k"
    and step: "\<And>a c s. a < c \<Longrightarrow> free_pre T a c s \<Longrightarrow> uint c \<le> (uint a div 2 ^ level_shift T k + 1) * 2 ^ level_shift T k \<Longrightarrow>
      \<exists>t. f a c s = Some (c, t) \<and> free_post T F C k a c s t"
    and ac: "a < c" and pre: "free_pre T a c g"
  shows "\<exists>t. walk (addr_end (level_shift T k)) f a c g = Some (c, t) \<and> free_post T F C k a c g t"
proof (rule freeing.walk_correct [OF _ _ _ ac pre])
  note p = addr_end_props [OF level_shift_less [OF geo]]
  show "a < addr_end (level_shift T k) a c \<and> addr_end (level_shift T k) a c \<le> c \<and> (addr_end (level_shift T k) a c = c \<or>
      (geometry_ok T \<and> 1 \<le> k \<and> 2 ^ level_shift T k dvd uint (addr_end (level_shift T k) a c)))" if "a < c" for a c
    using p(1-3) [OF that] geo k by blast
  show "\<exists>t. f a c s = Some (c, t) \<and> free_post T F C k a c s t" if "a < c" "free_pre T a c s" "addr_end (level_shift T k) a c = c" for a c s
    by (rule step [OF that(1,2) p(4) [OF that(1,3)]])
  show "addr_end (level_shift T k) a (addr_end (level_shift T k) a c) = addr_end (level_shift T k) a c" if "a < c" for a c
    by (rule p(5) [OF that])
qed

lemma free_pre_at: "free_pre T a c g \<Longrightarrow> a < c \<Longrightarrow> plain_byte T (g_mm g) (uint a)"
  by (simp add: free_pre_def word_less_alt)

lemma free_pmd_ok:
  assumes geo: "geometry_ok T" and ac: "a < c" and pre: "free_pre T a c g" and p: "uint c \<le> (uint a div 2 ^ PMD_SHIFT T + 1) * 2 ^ PMD_SHIFT T"
  shows "\<exists>t. free_pmd T a c g = Some (c, t) \<and> free_post T F C 1 a c g t"
proof -
  let ?i = "uint a div 2 ^ PMD_SHIFT T"
  have m: "met_pmds T g a c = {i. i = ?i \<and> pmds (g_mm g) ?i = Px_table}"
    using met_one [OF _ ac p] by (auto simp: met_pmds_def)
  have "pmds (g_mm g) ?i \<in> {Px_none, Px_table}" using free_pre_at [OF pre ac] by (simp add: plain_byte_def)
  then consider "pmds (g_mm g) ?i = Px_none" | "pmds (g_mm g) ?i = Px_table" by auto
  then show ?thesis
  proof cases
    case 1
    then have "free_pmd T a c g = Some (c, g)" by (simp add: free_pmd_def px_no_div pmd_none_or_clear_bad_def none_or_clear_bad_def Let_def)
    moreover have "met_pmds T g a c = {}" using 1 by (simp add: m)
    ultimately show ?thesis by (simp add: free_post_def freed_none)
  next
    case 2
    then have "free_pmd T a c g = Some (c, free_pte_range ?i g)"
      by (simp add: free_pmd_def px_no_div pmd_none_or_clear_bad_def none_or_clear_bad_def Let_def)
    moreover have "met_pmds T g a c = {?i}" using 2 by (simp add: m)
    moreover have "freed {?i} {} {} g (free_pte_range ?i g)"
      by (auto simp: freed_def free_pte_range_def pmd_clear_def fun_eq_iff intro!: mm_struct.equality)
    ultimately show ?thesis by (simp add: free_post_def)
  qed
qed

lemma freed_one:
  assumes "freed X Y Z g t"
  shows "w \<notin> Y \<Longrightarrow> freed X (insert w Y) Z g (t\<lparr>g_mm := pud_clear w (g_mm t), g_tables := g_tables t @ [(2, w)]\<rparr>)"
    and "w \<notin> Z \<Longrightarrow> freed X Y (insert w Z) g (t\<lparr>g_mm := pgd_clear w (g_mm t), g_tables := g_tables t @ [(3, w)]\<rparr>)"
proof -
  have "w \<notin> Y \<Longrightarrow> freed {} {w} {} t (t\<lparr>g_mm := pud_clear w (g_mm t), g_tables := g_tables t @ [(2, w)]\<rparr>)"
    "w \<notin> Z \<Longrightarrow> freed {} {} {w} t (t\<lparr>g_mm := pgd_clear w (g_mm t), g_tables := g_tables t @ [(3, w)]\<rparr>)"
    by (auto simp: freed_def pud_clear_def pgd_clear_def fun_eq_iff intro!: mm_struct.equality)
  then show "w \<notin> Y \<Longrightarrow> freed X (insert w Y) Z g (t\<lparr>g_mm := pud_clear w (g_mm t), g_tables := g_tables t @ [(2, w)]\<rparr>)"
    and "w \<notin> Z \<Longrightarrow> freed X Y (insert w Z) g (t\<lparr>g_mm := pgd_clear w (g_mm t), g_tables := g_tables t @ [(3, w)]\<rparr>)"
    using freed_trans [OF assms, of "{}" "{w}" "{}"] freed_trans [OF assms, of "{}" "{}" "{w}"] by auto
qed

lemma free_pmd_range_ok:
  assumes geo: "geometry_ok T" and ac: "a < c" and pre: "free_pre T a c g" and p: "uint c \<le> (uint a div 2 ^ PUD_SHIFT T + 1) * 2 ^ PUD_SHIFT T"
    and table: "puds (g_mm g) (uint a div 2 ^ PUD_SHIFT T) = Px_table"
  shows "\<exists>t. free_pmd_range T F C a c g = Some t \<and> free_post T F C 2 a c g t"
proof -
  let ?w = "uint a div 2 ^ PUD_SHIFT T"
  have sh: "PUD_SHIFT T < 64" using level_shift_less [OF geo, of 2] by (simp add: level_shift_def)
  have "\<exists>t. walk (addr_end (level_shift T 1)) (free_pmd T) a c g = Some (c, t) \<and> free_post T F C 1 a c g t"
    by (rule freeing_walk [OF geo _ free_pmd_ok [OF geo] ac pre]) (simp_all add: level_shift_def)
  then obtain t where t: "walk (addr_end (PMD_SHIFT T)) (free_pmd T) a c g = Some (c, t)" "freed (met_pmds T g a c) {} {} g t"
    by (auto simp: level_shift_def free_post_def)
  have m: "met_puds T F C g a c = (if inside (2 ^ PUD_SHIFT T) F C ?w then {?w} else {})"
    using met_one [OF _ ac p] table by (auto simp: met_puds_def)
  show ?thesis
  proof (cases "inside (2 ^ PUD_SHIFT T) F C ?w")
    case True
    let ?t = "t\<lparr>g_mm := pud_clear ?w (g_mm t), g_tables := g_tables t @ [(2, ?w)]\<rparr>"
    have "free_pmd_range T F C a c g = Some ?t" using True t(1) spans_only_inside [OF sh ac p] by (simp add: free_pmd_range_def px_no_div Let_def)
    moreover have "free_post T F C 2 a c g ?t" using freed_one(1) [OF t(2), of ?w] True m by (simp add: free_post_def)
    ultimately show ?thesis by blast
  next
    case False
    then have "free_pmd_range T F C a c g = Some t" using t(1) spans_only_inside [OF sh ac p] by (simp add: free_pmd_range_def px_no_div Let_def)
    then show ?thesis using False t(2) m by (simp add: free_post_def)
  qed
qed

lemma free_pud_ok:
  assumes geo: "geometry_ok T" and ac: "a < c" and pre: "free_pre T a c g" and p: "uint c \<le> (uint a div 2 ^ PUD_SHIFT T + 1) * 2 ^ PUD_SHIFT T"
  shows "\<exists>t. free_pud T F C a c g = Some (c, t) \<and> free_post T F C 2 a c g t"
proof -
  let ?w = "uint a div 2 ^ PUD_SHIFT T"
  have "puds (g_mm g) ?w \<in> {Px_none, Px_table}" using free_pre_at [OF pre ac] by (simp add: plain_byte_def)
  then consider "puds (g_mm g) ?w = Px_none" | "puds (g_mm g) ?w = Px_table" by auto
  then show ?thesis
  proof cases
    case 1
    have "met_puds T F C g a c = {}" using met_one [OF _ ac p] 1 by (auto simp: met_puds_def)
    moreover have "met_pmds T g a c = {}"
    proof -
      have "pmds (g_mm g) i \<noteq> Px_table" if m: "met (2 ^ PMD_SHIFT T) a c i" for i
      proof -
        obtain x where x: "uint a \<le> x" "x < uint c" "x div 2 ^ PMD_SHIFT T = i" using met_byte [OF _ ac m] by auto
        have "plain_byte T (g_mm g) x" using pre x by (simp add: free_pre_def)
        then show ?thesis using 1 x(3) in_piece [OF _ x(1,2) p] by (auto simp: plain_byte_def)
      qed
      then show ?thesis by (auto simp: met_pmds_def)
    qed
    ultimately show ?thesis using 1
      by (simp add: free_pud_def px_no_div pud_none_or_clear_bad_def none_or_clear_bad_def free_post_def freed_none)
  next
    case 2
    then show ?thesis using free_pmd_range_ok [OF assms 2, of F C]
      by (auto simp: free_pud_def px_no_div pud_none_or_clear_bad_def none_or_clear_bad_def)
  qed
qed

lemma free_pud_range_ok:
  assumes geo: "geometry_ok T" and ac: "a < c" and pre: "free_pre T a c g" and p: "uint c \<le> (uint a div 2 ^ PGDIR_SHIFT T + 1) * 2 ^ PGDIR_SHIFT T"
    and table: "pgds (g_mm g) (uint a div 2 ^ PGDIR_SHIFT T) = Px_table"
  shows "\<exists>t. free_pud_range T F C a c g = Some t \<and> free_post T F C 3 a c g t"
proof -
  let ?w = "uint a div 2 ^ PGDIR_SHIFT T"
  have sh: "PGDIR_SHIFT T < 64" using geo by (simp add: geometry_ok_def)
  have "\<exists>t. walk (addr_end (level_shift T 2)) (free_pud T F C) a c g = Some (c, t) \<and> free_post T F C 2 a c g t"
    by (rule freeing_walk [OF geo _ free_pud_ok [OF geo] ac pre]) (simp_all add: level_shift_def)
  then obtain t where t: "walk (addr_end (PUD_SHIFT T)) (free_pud T F C) a c g = Some (c, t)" "freed (met_pmds T g a c) (met_puds T F C g a c) {} g t"
    by (auto simp: level_shift_def free_post_def)
  have m: "met_pgds T F C g a c = (if inside (2 ^ PGDIR_SHIFT T) F C ?w then {?w} else {})"
    using met_one [OF _ ac p] table by (auto simp: met_pgds_def)
  show ?thesis
  proof (cases "inside (2 ^ PGDIR_SHIFT T) F C ?w")
    case True
    let ?t = "t\<lparr>g_mm := pgd_clear ?w (g_mm t), g_tables := g_tables t @ [(3, ?w)]\<rparr>"
    have "free_pud_range T F C a c g = Some ?t" using True t(1) spans_only_inside [OF sh ac p] by (simp add: free_pud_range_def px_no_div Let_def)
    moreover have "free_post T F C 3 a c g ?t" using freed_one(2) [OF t(2), of ?w] True m by (simp add: free_post_def)
    ultimately show ?thesis by blast
  next
    case False
    then have "free_pud_range T F C a c g = Some t" using t(1) spans_only_inside [OF sh ac p] by (simp add: free_pud_range_def px_no_div Let_def)
    then show ?thesis using False t(2) m by (simp add: free_post_def)
  qed
qed

lemma free_pgd_ok:
  assumes geo: "geometry_ok T" and ac: "a < c" and pre: "free_pre T a c g" and p: "uint c \<le> (uint a div 2 ^ PGDIR_SHIFT T + 1) * 2 ^ PGDIR_SHIFT T"
  shows "\<exists>t. free_pgd T F C a c g = Some (c, t) \<and> free_post T F C 3 a c g t"
proof -
  let ?w = "uint a div 2 ^ PGDIR_SHIFT T"
  have "pgds (g_mm g) ?w \<in> {Px_none, Px_table}" using free_pre_at [OF pre ac] by (simp add: plain_byte_def)
  then consider "pgds (g_mm g) ?w = Px_none" | "pgds (g_mm g) ?w = Px_table" by auto
  then show ?thesis
  proof cases
    case 1
    have pl: "plain_byte T (g_mm g) x" "x div 2 ^ PGDIR_SHIFT T = ?w" if "uint a \<le> x" "x < uint c" for x
      using pre that in_piece [OF _ that p] by (simp_all add: free_pre_def)
    have "puds (g_mm g) i \<noteq> Px_table" if m: "met (2 ^ PUD_SHIFT T) a c i" for i
    proof -
      obtain x where "uint a \<le> x" "x < uint c" "x div 2 ^ PUD_SHIFT T = i" using met_byte [OF _ ac m] by auto
      then show ?thesis using pl [of x] 1 by (auto simp: plain_byte_def)
    qed
    then have "met_puds T F C g a c = {}" by (auto simp: met_puds_def)
    moreover have "pmds (g_mm g) i \<noteq> Px_table" if m: "met (2 ^ PMD_SHIFT T) a c i" for i
    proof -
      obtain x where "uint a \<le> x" "x < uint c" "x div 2 ^ PMD_SHIFT T = i" using met_byte [OF _ ac m] by auto
      then show ?thesis using pl [of x] 1 by (auto simp: plain_byte_def)
    qed
    then have "met_pmds T g a c = {}" by (auto simp: met_pmds_def)
    moreover have "met_pgds T F C g a c = {}" using met_one [OF _ ac p] 1 by (auto simp: met_pgds_def)
    ultimately show ?thesis using 1
      by (simp add: free_pgd_def px_no_div pgd_none_or_clear_bad_def none_or_clear_bad_def free_post_def freed_none)
  next
    case 2
    then show ?thesis using free_pud_range_ok [OF assms 2, of F C]
      by (auto simp: free_pgd_def px_no_div pgd_none_or_clear_bad_def none_or_clear_bad_def)
  qed
qed

lemma free_walk_ok:
  assumes geo: "geometry_ok T" and ac: "a < c" and pre: "free_pre T a c g"
  shows "\<exists>t. walk (addr_end (PGDIR_SHIFT T)) (free_pgd T F C) a c g = Some (c, t) \<and> free_post T F C 3 a c g t"
proof -
  have "\<exists>t. walk (addr_end (level_shift T 3)) (free_pgd T F C) a c g = Some (c, t) \<and> free_post T F C 3 a c g t"
    by (rule freeing_walk [OF geo _ free_pgd_ok [OF geo] ac pre]) (simp_all add: level_shift_def)
  then show ?thesis by (simp add: level_shift_def)
qed

section \<open>Floor and ceiling\<close>

lemma nested_piece:
  assumes "0 < S" and "0 < S'" and "S dvd S'" and "x div S = (y :: int) div S"
  shows "x div S' = y div S'"
proof -
  obtain k where k: "S' = S * k" using assms(3) by (elim dvdE)
  then have "0 \<le> k" using assms(1,2) zero_less_mult_pos [of S k] by simp
  then have "z div S' = z div S div k" for z by (simp add: k zdiv_zmult2_eq)
  then show ?thesis using assms(4) by simp
qed

lemma met_up:
  assumes "0 < S" and "0 < S'" and "S dvd S'" and "a < c"
  shows "met S' a c w \<longleftrightarrow> (\<exists>i. met S a c i \<and> i * S div S' = w)"
proof
  have up: "x div S * S div S' = x div S'" for x
    by (rule nested_piece [OF assms(1-3)]) (use assms(1) in simp)
  have byte: "met R a c (x div R)" if "0 < R" "uint a \<le> x" "x < uint c" for R x
    using that div_piece [of R x "x div R"] by (simp add: met_def)
  show "\<exists>i. met S a c i \<and> i * S div S' = w" if m: "met S' a c w"
  proof -
    obtain x where x: "uint a \<le> x" "x < uint c" "x div S' = w" using met_byte [OF assms(2,4) m] by auto
    then show ?thesis using byte [OF assms(1) x(1,2)] up [of x] by blast
  qed
  show "met S' a c w" if ex: "\<exists>i. met S a c i \<and> i * S div S' = w"
  proof -
    obtain i where i: "met S a c i" "i * S div S' = w" using ex by blast
    obtain x where x: "uint a \<le> x" "x < uint c" "x div S = i" using met_byte [OF assms(1,4) i(1)] by auto
    then show ?thesis using byte [OF assms(2) x(1,2)] up [of x] i(2) by simp
  qed
qed

lemma inside_down:
  assumes "0 < S" and "0 < S'" and "S dvd S'" and "i * S div S' = w" and "inside S' F C w"
  shows "inside S F C i"
proof -
  obtain k where k: "S' = k * S" using assms(3) by (metis dvdE mult.commute)
  have p: "w * S' \<le> i * S" "i * S < (w + 1) * S'" using div_piece [OF assms(2), of "i * S" w] assms(4) by blast+
  then have "i * S < (w + 1) * k * S" by (simp add: k mult.assoc)
  then have "i + 1 \<le> (w + 1) * k" using assms(1) by (simp only: mult_less_cancel_right_pos)
  then have "(i + 1) * S \<le> (w + 1) * k * S" using assms(1) by (intro mult_right_mono) simp_all
  then have "(i + 1) * S \<le> (w + 1) * S'" by (simp add: k mult.assoc)
  then show ?thesis using p(1) assms(5) unfolding inside_def by linarith
qed

lemma round_down: "0 < S \<Longrightarrow> j * S \<le> C \<longleftrightarrow> j * S \<le> (C :: int) div S * S"
proof
  assume S: "0 < S" and j: "j * S \<le> C"
  have "C < (C div S + 1) * S" using div_piece [OF S, of C] by blast
  then have "j * S < (C div S + 1) * S" using j by linarith
  then have "j \<le> C div S" using S by (simp only: mult_less_cancel_right_pos)
  then show "j * S \<le> C div S * S" using S by (intro mult_right_mono) simp_all
next
  assume S: "0 < S" and j: "j * S \<le> C div S * S"
  have "C div S * S \<le> C" using div_piece [OF S, of C] by blast
  then show "j * S \<le> C" using j by linarith
qed

lemma freed_empty: "X = {} \<Longrightarrow> Y = {} \<Longrightarrow> Z = {} \<Longrightarrow> freed X Y Z g g"
  by (simp add: freed_none)

text \<open>The range as it is trimmed meets exactly the tables of the last level that lie inside.\<close>

lemma trimmed:
  fixes S :: int
  assumes S: "0 < S" and q: "q = uint a div S" and F: "F \<le> uint a" and C: "uint c \<le> C" and C1: "C1 = C div S * S" and ac: "uint a < uint c"
    and a1: "uint a' = (if q * S < F then (q + 1) * S else q * S)" and c1: "uint c' = (if C1 < uint c then uint c - S else uint c)"
  shows "met S a' c' i \<longleftrightarrow> met S a c i \<and> F \<le> i * S \<and> (i + 1) * S \<le> C"
proof -
  have qa: "q * S \<le> uint a" "uint a < (q + 1) * S" using div_piece [OF S, of "uint a" q] q by blast+
  have mono: "x * S < y * S \<longleftrightarrow> x < y" "x * S \<le> y * S \<longleftrightarrow> x \<le> y" for x y using S by simp_all
  have i1: "(i + 1) * S = i * S + S" "(q + 1) * S = q * S + S" by (simp_all add: distrib_right)
  have up: "(i + 1) * S \<le> C \<longleftrightarrow> (i + 1) * S \<le> C1" unfolding C1 by (rule round_down [OF S])
  have lt: "i * S < C1 \<longleftrightarrow> (i + 1) * S \<le> C1" unfolding C1 mono by linarith
  have iq: "uint a < (i + 1) * S \<longleftrightarrow> q \<le> i" 
  proof
    assume "uint a < (i + 1) * S"
    then have "q * S < (i + 1) * S" using qa by linarith
    then show "q \<le> i" unfolding mono by simp
  next
    assume "q \<le> i"
    then have "(q + 1) * S \<le> (i + 1) * S" unfolding mono by simp
    then show "uint a < (i + 1) * S" using qa by linarith
  qed
  have left: "uint a' < (i + 1) * S \<and> \<not> (q * S < F \<and> i < q + 1) \<longleftrightarrow> uint a < (i + 1) * S \<and> F \<le> i * S"
  proof (cases "q * S < F")
    case True
    have "q + 1 < i + 1 \<Longrightarrow> F \<le> i * S"
    proof -
      assume "q + 1 < i + 1"
      then have "(q + 1) * S \<le> i * S" unfolding mono by simp
      then show "F \<le> i * S" using F qa by linarith
    qed
    moreover have "F \<le> i * S \<Longrightarrow> q + 1 \<le> i"
    proof -
      assume "F \<le> i * S"
      then have "q * S < i * S" using True by linarith
      then show "q + 1 \<le> i" unfolding mono by simp
    qed
    ultimately show ?thesis using True iq a1 unfolding i1(2) [symmetric] by (auto simp: mono)
  next
    case False
    have "q \<le> i \<Longrightarrow> F \<le> i * S"
    proof -
      assume "q \<le> i"
      then have "q * S \<le> i * S" unfolding mono .
      then show "F \<le> i * S" using False by linarith
    qed
    moreover have "uint a' < (i + 1) * S \<longleftrightarrow> q \<le> i" using False a1 by (simp add: mono)
    ultimately show ?thesis using False iq by auto
  qed
  have low: "uint a' < (i + 1) * S \<Longrightarrow> \<not> (q * S < F \<and> i < q + 1)" using a1 by (auto simp: mono)
  have right: "i * S < uint c' \<longleftrightarrow> i * S < uint c \<and> (i + 1) * S \<le> C"
  proof (cases "C1 < uint c")
    case True
    have "(i + 1) * S < uint c \<longleftrightarrow> i * S < uint c \<and> (i + 1) * S \<le> C" using True up C S i1 by auto
    then show ?thesis using True c1 i1 by auto
  next
    case False
    then show ?thesis using c1 up lt by auto
  qed
  show ?thesis unfolding met_def using left low right by blast
qed


lemma met_inside:
  assumes "0 < S" and "0 < S'" and "S dvd S'" and "a < c"
  shows "met S' a c w \<and> inside S' F C w \<longleftrightarrow> (\<exists>i. met S a c i \<and> inside S F C i \<and> i * S div S' = w) \<and> inside S' F C w"
  using met_up [OF assms, of w] inside_down [OF assms(1-3)] by blast

text \<open>What a range gives back: the tables it meets that lie inside.\<close>

definition unshared :: "('r, 'k) tables \<Rightarrow> u64 \<Rightarrow> u64 \<Rightarrow> u64 \<Rightarrow> u64 \<Rightarrow> pgt \<Rightarrow> pgt \<Rightarrow> bool" where
  "unshared T a c F C g t \<longleftrightarrow>
     freed (met_pmds T g a c \<inter> {i. inside (2 ^ PMD_SHIFT T) F C i}) (met_puds T F C g a c) (met_pgds T F C g a c) g t"

lemma geometry_dvd:
  assumes "geometry_ok T"
  shows "(2 :: int) ^ PMD_SHIFT T dvd 2 ^ PUD_SHIFT T" "(2 :: int) ^ PMD_SHIFT T dvd 2 ^ PGDIR_SHIFT T" "PMD_SHIFT T < 64"
  using assms by (auto simp: geometry_ok_def intro!: le_imp_power_dvd)

lemma unshared_nothing:
  assumes "geometry_ok T" and "a < c" and "\<And>i. met (2 ^ PMD_SHIFT T) a c i \<Longrightarrow> \<not> inside (2 ^ PMD_SHIFT T) F C i"
  shows "unshared T a c F C g g"
proof -
  have "met_puds T F C g a c = {}" "met_pgds T F C g a c = {}"
    using met_inside [OF _ _ geometry_dvd(1) [OF assms(1)] assms(2), of _ F C] met_inside [OF _ _ geometry_dvd(2) [OF assms(1)] assms(2), of _ F C]
      assms(3) by (auto simp: met_puds_def met_pgds_def)
  moreover have "met_pmds T g a c \<inter> {i. inside (2 ^ PMD_SHIFT T) F C i} = {}" using assms(3) by (auto simp: met_pmds_def)
  ultimately show ?thesis by (simp add: unshared_def freed_none)
qed

lemma uint_pow2:
  assumes "sh < 64"
  shows "uint ((2 :: u64) ^ sh) = 2 ^ sh"
proof -
  have "(2 :: u64) ^ sh = word_of_int (2 ^ sh)" by simp
  then have "uint ((2 :: u64) ^ sh) = 2 ^ sh mod 2 ^ 64" by (simp only: uint_word_of_int) simp
  then show ?thesis using power_strict_increasing [OF assms, of "2 :: int"] by simp
qed

text \<open>The trimmed ends as numbers.\<close>

definition low_end :: "nat \<Rightarrow> u64 \<Rightarrow> u64 \<Rightarrow> u64" where
  "low_end sh a F = (let a0 = a AND NOT (mask sh) in if a0 < F then a0 + 2 ^ sh else a0)"

definition masked_top :: "nat \<Rightarrow> u64 \<Rightarrow> u64" where
  "masked_top sh C = (if C \<noteq> 0 then C AND NOT (mask sh) else C)"

definition high_end :: "nat \<Rightarrow> u64 \<Rightarrow> u64 \<Rightarrow> u64" where
  "high_end sh c C = (if masked_top sh C - 1 < c - 1 then c - 2 ^ sh else c)"

lemma free_pgd_range_trimmed:
  "free_pgd_range T a c F C g =
     (if a AND NOT (mask (PMD_SHIFT T)) < F \<and> low_end (PMD_SHIFT T) a F = 0 then Some g
      else if C \<noteq> 0 \<and> masked_top (PMD_SHIFT T) C = 0 then Some g
      else if high_end (PMD_SHIFT T) c C - 1 < low_end (PMD_SHIFT T) a F then Some g
      else do { (_, g) \<leftarrow> walk (addr_end (PGDIR_SHIFT T)) (free_pgd T F (masked_top (PMD_SHIFT T) C)) (low_end (PMD_SHIFT T) a F) (high_end (PMD_SHIFT T) c C) g; Some g })"
  by (simp add: free_pgd_range_def Let_def low_end_def masked_top_def high_end_def)

lemma low_end_number:
  assumes sh: "sh < 64" and q: "q = uint a div 2 ^ sh"
  shows "a AND NOT (mask sh) < F \<longleftrightarrow> q * 2 ^ sh < uint F"
    and "\<not> (a AND NOT (mask sh) < F \<and> low_end sh a F = 0) \<Longrightarrow> uint (low_end sh a F) = (if q * 2 ^ sh < uint F then (q + 1) * 2 ^ sh else q * 2 ^ sh)"
    and "a AND NOT (mask sh) < F \<Longrightarrow> low_end sh a F = 0 \<Longrightarrow> (q + 1) * 2 ^ sh = 2 ^ 64"
proof -
  let ?S = "2 ^ sh :: int" and ?a = "a AND NOT (mask sh)"
  have S: "0 < ?S" by simp
  have u: "uint ?a = q * ?S" unfolding q by (rule uint_and_not_mask)
  show l: "?a < F \<longleftrightarrow> q * ?S < uint F" by (simp add: word_less_alt u)
  have "q * ?S < 2 ^ 64" using u uint_lt2p [of ?a] by simp
  moreover obtain k where k: "2 ^ 64 = k * ?S" using pow_dvd_64 [of sh] sh by (metis dvdE less_imp_le mult.commute)
  ultimately have "q * ?S < k * ?S" by linarith
  then have "q + 1 \<le> k" using S by simp
  then have le: "(q + 1) * ?S \<le> 2 ^ 64" unfolding k using S by (intro mult_right_mono) simp_all
  have pos: "0 < (q + 1) * ?S" using uint_ge_0 [of ?a] u S unfolding distrib_right by linarith
  have up: "uint (low_end sh a F) = ((q + 1) * ?S) mod 2 ^ 64" if "?a < F"
    using that by (simp add: low_end_def Let_def uint_word_ariths uint_pow2 [OF sh] u distrib_right)
  show "uint (low_end sh a F) = (if q * ?S < uint F then (q + 1) * ?S else q * ?S)" if ok: "\<not> (?a < F \<and> low_end sh a F = 0)"
  proof (cases "?a < F")
    case True
    then have "(q + 1) * ?S \<noteq> 2 ^ 64" using ok up by (auto simp: uint_0_iff)
    then show ?thesis using up [OF True] True l le pos by simp
  qed (simp add: low_end_def Let_def u l)
  show "(q + 1) * ?S = 2 ^ 64" if "?a < F" "low_end sh a F = 0"
  proof (rule ccontr)
    assume "(q + 1) * ?S \<noteq> 2 ^ 64"
    then have "uint (low_end sh a F) = (q + 1) * ?S" using up [OF that(1)] le pos by simp
    then show False using that(2) pos by simp
  qed
qed

lemma high_end_number:
  assumes sh: "sh < 64" and c: "c \<noteq> 0" and C1: "C1 = top_of C div 2 ^ sh * 2 ^ sh" and ok: "\<not> (C \<noteq> 0 \<and> masked_top sh C = 0)"
  shows "top_of (masked_top sh C) = C1" and "uint (high_end sh c C) = (if C1 < uint c then uint c - 2 ^ sh else uint c)" and "high_end sh c C \<noteq> 0"
proof -
  let ?S = "2 ^ sh :: int" and ?top = "masked_top sh C"
  have S: "0 < ?S" by simp
  have d: "?S dvd 2 ^ 64" using pow_dvd_64 sh by simp
  show t: "top_of ?top = C1"
  proof (cases "C = 0")
    case True
    have "2 ^ 64 div ?S * ?S = 2 ^ 64" using d by simp
    then show ?thesis using True by (simp add: masked_top_def top_of_def C1)
  next
    case False
    then show ?thesis using ok uint_and_not_mask [of C sh] by (auto simp: masked_top_def top_of_def C1)
  qed
  have trim: "?top - 1 < c - 1 \<longleftrightarrow> C1 < uint c"
  proof (cases "?top = 0")
    case True
    then have "C1 = 2 ^ 64" using t by (simp add: top_of_def)
    then show ?thesis using True uint_lt2p [of c] by simp
  next
    case False
    then have "uint ?top = C1" using t by (simp add: top_of_def)
    then show ?thesis using uint_minus_1 [OF False] uint_minus_1 [OF c] by (simp add: word_less_alt)
  qed
  have big: "?S < uint c" if "C1 < uint c"
  proof -
    have "?top \<noteq> 0" using t that uint_lt2p [of c] by (auto simp: top_of_def)
    then have "0 < C1" using t uint_ge_0 [of ?top] by (auto simp: top_of_def order_less_le uint_0_iff)
    then have "0 < top_of C div ?S" using S by (simp add: C1 zero_less_mult_iff)
    then have "1 * ?S \<le> C1" unfolding C1 using S by (intro mult_right_mono) simp_all
    then show ?thesis using that by linarith
  qed
  show u: "uint (high_end sh c C) = (if C1 < uint c then uint c - ?S else uint c)"
  proof (cases "C1 < uint c")
    case True
    then have "uint (c - 2 ^ sh) = uint c - ?S" using big uint_pow2 [OF sh] uint_sub_lem [of "2 ^ sh" c] by simp
    then show ?thesis using True by (simp add: high_end_def trim)
  qed (simp add: high_end_def trim)
  show "high_end sh c C \<noteq> 0" using u big c by (auto simp: uint_0_iff split: if_splits)
qed

lemma inside_masked:
  assumes "0 < S" and "S dvd S'" and "top_of C' = top_of C div S * S"
  shows "inside S' F C' w \<longleftrightarrow> inside S' F C w"
proof -
  obtain k where "S' = k * S" using assms(2) by (metis dvdE mult.commute)
  then show ?thesis using round_down [OF assms(1), of "(w + 1) * k" "top_of C"] assms(3) by (simp add: inside_def mult.assoc)
qed

lemma free_pgd_range_unshared:
  assumes geo: "geometry_ok T" and range: "a < c" "F \<le> a" "uint c \<le> top_of C"
    and plain: "\<And>x. 0 \<le> x \<Longrightarrow> x < 2 ^ 64 \<Longrightarrow> plain_byte T (g_mm g) x"
  shows "\<exists>t. free_pgd_range T a c F C g = Some t \<and> unshared T a c F C g t"
proof -
  let ?sh = "PMD_SHIFT T" and ?S = "2 ^ PMD_SHIFT T :: int"
  let ?a = "low_end ?sh a F" and ?c = "high_end ?sh c C" and ?top = "masked_top ?sh C"
  note geo_dvd = geometry_dvd [OF geo]
  have sh: "?sh < 64" and S: "0 < ?S" using geo_dvd(3) by simp_all
  define q where "q = uint a div ?S"
  define C1 where "C1 = top_of C div ?S * ?S"
  note lo = low_end_number [OF sh q_def, of F]
  have ac: "uint a < uint c" "uint F \<le> uint a" "c \<noteq> 0" using range uint_ge_0 [of a] by (auto simp: word_less_alt word_le_def)
  consider (over) "a AND NOT (mask ?sh) < F" "?a = 0" | (low) "C \<noteq> 0" "?top = 0"
    | (fits) "\<not> (a AND NOT (mask ?sh) < F \<and> ?a = 0)" "\<not> (C \<noteq> 0 \<and> ?top = 0)" by blast
  then show ?thesis
  proof cases
    case over
    have "\<not> inside ?S F C i" if m: "met ?S a c i" for i
    proof
      assume "inside ?S F C i"
      then have "q * ?S < i * ?S" using lo(1) over(1) unfolding inside_def by linarith
      then have "q + 1 \<le> i" using S by simp
      then have "(q + 1) * ?S \<le> i * ?S" using S by (intro mult_right_mono) simp_all
      then show False using lo(3) [OF over] m uint_lt2p [of c] by (simp add: met_def)
    qed
    from unshared_nothing [OF geo range(1) this] show ?thesis using over by (auto simp: free_pgd_range_trimmed)
  next
    case low
    have z: "top_of C div ?S * ?S = 0" using low uint_and_not_mask [of C ?sh] by (simp add: masked_top_def top_of_def)
    have "\<not> inside ?S F C i" for i
    proof
      assume i: "inside ?S F C i"
      then have "(i + 1) * ?S \<le> 0" using round_down [OF S, of "i + 1" "top_of C"] z by (simp add: inside_def)
      moreover have "0 \<le> i * ?S" using i uint_ge_0 [of F] unfolding inside_def by linarith
      ultimately show False using S by (simp add: distrib_right)
    qed
    from unshared_nothing [OF geo range(1) this] show ?thesis using low by (auto simp: free_pgd_range_trimmed)
  next
    case fits
    note hi = high_end_number [OF sh ac(3) C1_def fits(2)]
    have A: "met ?S ?a ?c i \<longleftrightarrow> met ?S a c i \<and> inside ?S F C i" for i
      using trimmed [OF S q_def ac(2) range(3) C1_def ac(1) lo(2) [OF fits(1)] hi(2), of i] by (simp add: inside_def)
    show ?thesis
    proof (cases "?c - 1 < ?a")
      case True
      then have le: "uint ?c \<le> uint ?a" using uint_minus_1 [OF hi(3)] by (simp add: word_less_alt)
      obtain p where p: "uint ?a = p * ?S" using lo(2) [OF fits(1)] by (auto split: if_splits)
      have "\<not> met ?S ?a ?c i" for i
      proof
        assume "met ?S ?a ?c i"
        then have "i * ?S < p * ?S" "p * ?S < (i + 1) * ?S" using le p unfolding met_def by linarith+
        then have "i < p" "p < i + 1" using S by (simp_all only: mult_less_cancel_right_pos)
        then show False by simp
      qed
      with A have "\<not> inside ?S F C i" if "met ?S a c i" for i using that by blast
      from unshared_nothing [OF geo range(1) this] show ?thesis using True by (auto simp: free_pgd_range_trimmed)
    next
      case False
      then have ac1: "?a < ?c" using uint_minus_1 [OF hi(3)] by (simp add: word_less_alt)
      have "free_pre T ?a ?c g" unfolding free_pre_def
      proof (intro allI impI)
        fix x assume "uint ?a \<le> x" "x < uint ?c"
        moreover have "uint ?c < 2 ^ 64" using uint_lt2p [of ?c] by simp
        ultimately show "plain_byte T (g_mm g) x" using uint_ge_0 [of ?a] by (intro plain) linarith+
      qed
      then obtain t where t: "walk (addr_end (PGDIR_SHIFT T)) (free_pgd T F ?top) ?a ?c g = Some (?c, t)" "free_post T F ?top 3 ?a ?c g t"
        using free_walk_ok [OF geo ac1, of g F ?top] by blast
      have up: "met S' ?a ?c w \<and> inside S' F ?top w \<longleftrightarrow> met S' a c w \<and> inside S' F C w" if d: "?S dvd S'" "0 < S'" for S' w
        using met_up [OF S d(2,1) ac1, of w] met_inside [OF S d(2,1) range(1), of w F C] A
          inside_masked [OF S d(1) hi(1) [unfolded C1_def], of F w] by auto
      have "met_pmds T g ?a ?c = met_pmds T g a c \<inter> {i. inside ?S F C i}" using A by (auto simp: met_pmds_def)
      moreover have "met_puds T F ?top g ?a ?c = met_puds T F C g a c" "met_pgds T F ?top g ?a ?c = met_pgds T F C g a c"
        using up [OF geo_dvd(1)] up [OF geo_dvd(2)] by (simp_all add: met_puds_def met_pgds_def)
      ultimately show ?thesis using t False fits by (intro exI [of _ t]) (auto simp: free_pgd_range_trimmed free_post_def unshared_def)
    qed
  qed
qed

text \<open>
  C25: the tables that the removal of a range gives back are exactly those that the range meets and that lie
  wholly between floor and ceiling, where no other area can have an address; every one of them is handed
  over once and counted, and no other table or entry is touched.
\<close>

theorem free_pgd_range_frees_unshared:
  assumes "geometry_ok T" and "a < c" and "F \<le> a" and "uint c \<le> top_of C" and "\<And>x. 0 \<le> x \<Longrightarrow> x < 2 ^ 64 \<Longrightarrow> plain_byte T (g_mm g) x"
  shows "\<exists>t. free_pgd_range T a c F C g = Some t \<and> unshared T a c F C g t"
  by (rule free_pgd_range_unshared [OF assms])

section \<open>All tables of a task\<close>

fun areas_asc :: "u64 \<Rightarrow> vma_struct list \<Rightarrow> bool" where
  "areas_asc lo [] \<longleftrightarrow> True"
| "areas_asc lo (w # ws) \<longleftrightarrow> lo \<le> vm_start w \<and> vm_start w < vm_end w \<and> \<not> VM_HUGETLB w \<and> areas_asc (vm_end w) ws"

definition area_met :: "int \<Rightarrow> vma_struct list \<Rightarrow> int \<Rightarrow> bool" where
  "area_met S ws i \<longleftrightarrow> (\<exists>w\<in>set ws. met S (vm_start w) (vm_end w) i)"

text \<open>Every table serves an area, those of the last level are counted, and the tables above them are ordinary ones.\<close>

definition tables_needed :: "('r, 'k) tables \<Rightarrow> vma_struct list \<Rightarrow> pgt \<Rightarrow> bool" where
  "tables_needed T ws g \<longleftrightarrow> (\<forall>i. (pmds (g_mm g) i = Px_table \<longrightarrow> area_met (2 ^ PMD_SHIFT T) ws i) \<and>
     (puds (g_mm g) i = Px_table \<longrightarrow> area_met (2 ^ PUD_SHIFT T) ws i) \<and> (pgds (g_mm g) i = Px_table \<longrightarrow> area_met (2 ^ PGDIR_SHIFT T) ws i))"

definition tree_ok :: "('r, 'k) tables \<Rightarrow> pgt \<Rightarrow> bool" where
  "tree_ok T g \<longleftrightarrow> (\<forall>x. 0 \<le> x \<longrightarrow> x < 2 ^ 64 \<longrightarrow> plain_byte T (g_mm g) x) \<and> finite {i. pmds (g_mm g) i = Px_table} \<and>
     nr_ptes (g_mm g) = int (card {i. pmds (g_mm g) i = Px_table})"

lemma areas_asc_start: "areas_asc lo ws \<Longrightarrow> w \<in> set ws \<Longrightarrow> lo \<le> vm_start w \<and> vm_start w < vm_end w"
proof (induction ws arbitrary: lo)
  case (Cons v vs)
  then show ?case
  proof (cases "w = v")
    case False
    then have "vm_end v \<le> vm_start w \<and> vm_start w < vm_end w" using Cons by auto
    then show ?thesis using Cons.prems(1) by (auto intro: order_trans less_imp_le)
  qed auto
qed simp

text \<open>Areas that are treated as one.\<close>

definition group :: "vma_struct list \<Rightarrow> u64 \<Rightarrow> u64 \<Rightarrow> vma_struct list \<Rightarrow> bool" where
  "group ms a c rest \<longleftrightarrow> a < c \<and> (\<forall>w\<in>set ms. a \<le> vm_start w \<and> vm_end w \<le> c) \<and> areas_asc c rest"

lemma gather_areas_group:
  assumes "gather_areas T w ws = (v, rest)" and "areas_asc lo (w # ws)"
  shows "\<exists>ms. w # ws = ms @ rest \<and> group ms (vm_start w) (vm_end v) rest"
  using assms
proof (induction ws arbitrary: w lo)
  case Nil
  then show ?case by (intro exI [of _ "[w]"]) (simp add: group_def)
next
  case (Cons n ns)
  show ?case
  proof (cases "vm_start n \<le> vm_end w + 2 ^ PMD_SHIFT T \<and> \<not> VM_HUGETLB n")
    case True
    then have "gather_areas T n ns = (v, rest)" "areas_asc (vm_end w) (n # ns)" using Cons.prems by simp_all
    from Cons.IH [OF this] obtain ms where ms: "n # ns = ms @ rest" "group ms (vm_start n) (vm_end v) rest" by blast
    have "vm_start w < vm_end w" "vm_end w \<le> vm_start n" using Cons.prems(2) by simp_all
    then have "group (w # ms) (vm_start w) (vm_end v) rest" using ms(2) unfolding group_def by auto
    then show ?thesis using ms(1) by (intro exI [of _ "w # ms"]) simp
  next
    case False
    then show ?thesis using Cons.prems by (intro exI [of _ "[w]"]) (auto simp: group_def)
  qed
qed

definition next_start :: "vma_struct list \<Rightarrow> u64" where
  "next_start rest = (case rest of [] \<Rightarrow> 0 | n # _ \<Rightarrow> vm_start n)"

lemma next_start_top:
  assumes "group ms a c rest"
  shows "uint c \<le> top_of (next_start rest)" and "w \<in> set rest \<Longrightarrow> top_of (next_start rest) \<le> uint (vm_start w)"
proof -
  have "c \<noteq> 0" using assms uint_ge_0 [of a] by (auto simp: group_def word_less_alt)
  have n: "c \<le> vm_start n" if "n \<in> set rest" for n using areas_asc_start that assms by (auto simp: group_def)
  show "uint c \<le> top_of (next_start rest)"
  proof (cases rest)
    case Nil
    then show ?thesis using uint_lt2p [of c] by (simp add: next_start_def top_of_def)
  next
    case (Cons n ns)
    then have "c \<le> vm_start n" using n by simp
    moreover from this have "vm_start n \<noteq> 0" using \<open>c \<noteq> 0\<close> by auto
    ultimately show ?thesis using Cons by (simp add: next_start_def top_of_def word_le_def)
  qed
  show "top_of (next_start rest) \<le> uint (vm_start w)" if w: "w \<in> set rest"
  proof (cases rest)
    case (Cons n ns)
    have "vm_start n \<noteq> 0" using n [of n] Cons \<open>c \<noteq> 0\<close> by auto
    moreover have "vm_start n \<le> vm_start w"
    proof (cases "w = n")
      case False
      then have "w \<in> set ns" using w Cons by simp
      then have "vm_end n \<le> vm_start w" "vm_start n < vm_end n" using assms Cons areas_asc_start [of "vm_end n" ns w] by (auto simp: group_def)
      then show ?thesis by (auto intro: order_trans less_imp_le)
    qed simp
    ultimately show ?thesis using Cons by (simp add: next_start_def top_of_def word_le_def)
  qed (use w in simp)
qed

lemma group_cleared:
  assumes g: "group ms a c rest" and m: "area_met S (ms @ rest) i" and ins: "inside S 0 (next_start rest) i" and S: "0 < S"
  shows "met S a c i"
proof -
  obtain w where w: "w \<in> set ms \<or> w \<in> set rest" "met S (vm_start w) (vm_end w) i" using m by (auto simp: area_met_def)
  then show ?thesis
  proof (cases "w \<in> set ms")
    case True
    then have "uint a \<le> uint (vm_start w)" "uint (vm_end w) \<le> uint c" using g by (auto simp: group_def word_le_def)
    then show ?thesis using w(2) unfolding met_def by linarith
  next
    case False
    then have "top_of (next_start rest) \<le> uint (vm_start w)" using next_start_top(2) [OF g] w(1) by blast
    then show ?thesis using w(2) ins unfolding met_def inside_def by linarith
  qed
qed

lemma group_left:
  assumes g: "group ms a c rest" and m: "area_met S (ms @ rest) i" and keep: "\<not> (met S a c i \<and> inside S 0 (next_start rest) i)"
    and S: "0 < S" "S dvd 2 ^ 64"
  shows "area_met S rest i"
proof -
  obtain w where w: "w \<in> set ms \<or> w \<in> set rest" "met S (vm_start w) (vm_end w) i" using m by (auto simp: area_met_def)
  show ?thesis
  proof (cases "w \<in> set rest")
    case True
    then show ?thesis using w(2) by (auto simp: area_met_def)
  next
    case False
    then have "uint a \<le> uint (vm_start w)" "uint (vm_end w) \<le> uint c" using g w(1) by (auto simp: group_def word_le_def)
    then have ac: "met S a c i" using w(2) unfolding met_def by linarith
    have "0 < (i + 1) * S" using ac uint_ge_0 [of a] unfolding met_def by linarith
    then have "0 \<le> i" using S(1) by (simp add: zero_less_mult_iff)
    then have "0 \<le> i * S" using S(1) by simp
    then have over: "top_of (next_start rest) < (i + 1) * S" using keep ac by (auto simp: inside_def)
    show ?thesis
    proof (cases rest)
      case Nil
      obtain k where k: "2 ^ 64 = k * S" using S(2) by (metis dvdE mult.commute)
      have "uint c < 2 ^ 64" using uint_lt2p [of c] by simp
      then have "i * S < k * S" using ac k unfolding met_def by linarith
      then have "(i + 1) * S \<le> k * S" using S(1) by (intro mult_right_mono) simp_all
      then show ?thesis using over Nil k by (simp add: next_start_def top_of_def)
    next
      case (Cons n ns)
      have n: "c \<le> vm_start n" "vm_start n < vm_end n" using g Cons by (auto simp: group_def)
      have "top_of (next_start rest) = uint (vm_start n)"
        using next_start_top [OF g] n Cons uint_ge_0 [of a] g by (auto simp: next_start_def top_of_def group_def word_less_alt word_le_def)
      then have "met S (vm_start n) (vm_end n) i" using over ac n unfolding met_def word_less_alt word_le_def by linarith
      then show ?thesis using Cons by (auto simp: area_met_def)
    qed
  qed
qed

lemma unshared_levels:
  assumes "unshared T a c F C g t"
  shows "pmds (g_mm t) i = (if pmds (g_mm g) i = Px_table \<and> met (2 ^ PMD_SHIFT T) a c i \<and> inside (2 ^ PMD_SHIFT T) F C i then Px_none else pmds (g_mm g) i)"
    and "puds (g_mm t) i = (if puds (g_mm g) i = Px_table \<and> met (2 ^ PUD_SHIFT T) a c i \<and> inside (2 ^ PUD_SHIFT T) F C i then Px_none else puds (g_mm g) i)"
    and "pgds (g_mm t) i = (if pgds (g_mm g) i = Px_table \<and> met (2 ^ PGDIR_SHIFT T) a c i \<and> inside (2 ^ PGDIR_SHIFT T) F C i then Px_none else pgds (g_mm g) i)"
  using assms by (auto simp: unshared_def freed_def met_pmds_def met_puds_def met_pgds_def)

lemma geometry_dvd64:
  assumes "geometry_ok T"
  shows "(2 :: int) ^ PMD_SHIFT T dvd 2 ^ 64" "(2 :: int) ^ PUD_SHIFT T dvd 2 ^ 64" "(2 :: int) ^ PGDIR_SHIFT T dvd 2 ^ 64"
    "(2 :: int) ^ PUD_SHIFT T dvd 2 ^ PGDIR_SHIFT T"
proof -
  have "PMD_SHIFT T \<le> 64" "PUD_SHIFT T \<le> 64" "PGDIR_SHIFT T \<le> 64" "PUD_SHIFT T \<le> PGDIR_SHIFT T" using assms by (simp_all add: geometry_ok_def)
  then show "(2 :: int) ^ PMD_SHIFT T dvd 2 ^ 64" "(2 :: int) ^ PUD_SHIFT T dvd 2 ^ 64" "(2 :: int) ^ PGDIR_SHIFT T dvd 2 ^ 64"
    "(2 :: int) ^ PUD_SHIFT T dvd 2 ^ PGDIR_SHIFT T" by (auto intro!: le_imp_power_dvd simp del: power_numeral)
qed

lemma group_needed:
  assumes geo: "geometry_ok T" and g: "group ms a c rest" and need: "tables_needed T (ms @ rest) g" and t: "unshared T a c 0 (next_start rest) g t"
  shows "tables_needed T rest t"
  using need group_left [OF g _ _ _ geometry_dvd64(1) [OF geo]] group_left [OF g _ _ _ geometry_dvd64(2) [OF geo]]
    group_left [OF g _ _ _ geometry_dvd64(3) [OF geo]]
  unfolding tables_needed_def unshared_levels [OF t] by (auto split: if_splits)

lemma group_plain:
  assumes geo: "geometry_ok T" and g: "group ms a c rest" and need: "tables_needed T (ms @ rest) g" and t: "unshared T a c 0 (next_start rest) g t"
    and p: "plain_byte T (g_mm g) x"
  shows "plain_byte T (g_mm t) x"
proof -
  let ?C = "next_start rest"
  define i j k where "i = x div 2 ^ PMD_SHIFT T" and "j = x div 2 ^ PUD_SHIFT T" and "k = x div 2 ^ PGDIR_SHIFT T"
  note d = geometry_dvd [OF geo] geometry_dvd64(4) [OF geo]
  have up: "i * 2 ^ PMD_SHIFT T div 2 ^ PUD_SHIFT T = j" "j * 2 ^ PUD_SHIFT T div 2 ^ PGDIR_SHIFT T = k"
    unfolding i_def j_def k_def by (rule nested_piece [OF _ _ d(1)] nested_piece [OF _ _ d(4)]; simp)+
  have one: "pmds (g_mm t) i \<noteq> Px_table" if "puds (g_mm g) j = Px_table" "puds (g_mm t) j \<noteq> Px_table"
  proof
    assume m: "pmds (g_mm t) i = Px_table"
    then have i: "pmds (g_mm g) i = Px_table" unfolding unshared_levels [OF t] by (simp split: if_splits)
    have "inside (2 ^ PUD_SHIFT T) 0 ?C j" using that unfolding unshared_levels [OF t] by (simp split: if_splits)
    then have ins: "inside (2 ^ PMD_SHIFT T) 0 ?C i" by (rule inside_down [OF _ _ d(1) up(1), rotated 2]) simp_all
    have "area_met (2 ^ PMD_SHIFT T) (ms @ rest) i" using need i by (simp add: tables_needed_def)
    then have "met (2 ^ PMD_SHIFT T) a c i" by (rule group_cleared [OF g _ ins]) simp
    then show False using m i ins unfolding unshared_levels [OF t] by simp
  qed
  have two: "puds (g_mm t) j \<noteq> Px_table" if "pgds (g_mm g) k = Px_table" "pgds (g_mm t) k \<noteq> Px_table"
  proof
    assume m: "puds (g_mm t) j = Px_table"
    then have j: "puds (g_mm g) j = Px_table" unfolding unshared_levels [OF t] by (simp split: if_splits)
    have "inside (2 ^ PGDIR_SHIFT T) 0 ?C k" using that unfolding unshared_levels [OF t] by (simp split: if_splits)
    then have ins: "inside (2 ^ PUD_SHIFT T) 0 ?C j" by (rule inside_down [OF _ _ d(4) up(2), rotated 2]) simp_all
    have "area_met (2 ^ PUD_SHIFT T) (ms @ rest) j" using need j by (simp add: tables_needed_def)
    then have "met (2 ^ PUD_SHIFT T) a c j" by (rule group_cleared [OF g _ ins]) simp
    then show False using m j ins unfolding unshared_levels [OF t] by simp
  qed
  have same: "pmds (g_mm t) i \<in> {Px_none, pmds (g_mm g) i}" "puds (g_mm t) j \<in> {Px_none, puds (g_mm g) j}" "pgds (g_mm t) k \<in> {Px_none, pgds (g_mm g) k}"
    unfolding unshared_levels [OF t] by simp_all
  show ?thesis using p one two same unfolding plain_byte_def i_def [symmetric] j_def [symmetric] k_def [symmetric] by auto
qed

text \<open>Tables of \<open>g\<close> have been handed over, each once and none that was not one of its own.\<close>

definition gave :: "pgt \<Rightarrow> pgt \<Rightarrow> bool" where
  "gave g t \<longleftrightarrow> (\<exists>X Y Z. freed X Y Z g t \<and> X \<subseteq> {i. pmds (g_mm g) i = Px_table} \<and> Y \<subseteq> {i. puds (g_mm g) i = Px_table} \<and> Z \<subseteq> {i. pgds (g_mm g) i = Px_table})"

lemma gave_refl: "gave g g"
  unfolding gave_def using freed_none by blast

lemma gave_trans:
  assumes "gave g t" and "gave t u"
  shows "gave g u"
proof -
  obtain X Y Z where t: "freed X Y Z g t" "X \<subseteq> {i. pmds (g_mm g) i = Px_table}" "Y \<subseteq> {i. puds (g_mm g) i = Px_table}" "Z \<subseteq> {i. pgds (g_mm g) i = Px_table}"
    using assms(1) by (auto simp: gave_def)
  obtain X' Y' Z' where u: "freed X' Y' Z' t u" "X' \<subseteq> {i. pmds (g_mm t) i = Px_table}" "Y' \<subseteq> {i. puds (g_mm t) i = Px_table}" "Z' \<subseteq> {i. pgds (g_mm t) i = Px_table}"
    using assms(2) by (auto simp: gave_def)
  have left: "{i. pmds (g_mm t) i = Px_table} = {i. pmds (g_mm g) i = Px_table} - X" "{i. puds (g_mm t) i = Px_table} = {i. puds (g_mm g) i = Px_table} - Y"
    "{i. pgds (g_mm t) i = Px_table} = {i. pgds (g_mm g) i = Px_table} - Z" using t(1) by (auto simp: freed_def)
  have "freed (X \<union> X') (Y \<union> Y') (Z \<union> Z') g u" by (rule freed_trans [OF t(1) u(1)]) (use u left in auto)
  then show ?thesis unfolding gave_def using t u left by (intro exI [of _ "X \<union> X'"] exI [of _ "Y \<union> Y'"] exI [of _ "Z \<union> Z'"]) auto
qed

lemma unshared_gave: "unshared T a c F C g t \<Longrightarrow> gave g t"
  unfolding unshared_def gave_def met_pmds_def met_puds_def met_pgds_def by (intro exI conjI, assumption) auto

lemma gave_all:
  assumes "gave g t" and "\<And>i. pmds (g_mm t) i \<noteq> Px_table \<and> puds (g_mm t) i \<noteq> Px_table \<and> pgds (g_mm t) i \<noteq> Px_table"
  shows "\<exists>ls. g_tables t = g_tables g @ ls \<and> distinct ls \<and> set ls = {1} \<times> {i. pmds (g_mm g) i = Px_table} \<union>
    {2} \<times> {i. puds (g_mm g) i = Px_table} \<union> {3} \<times> {i. pgds (g_mm g) i = Px_table}"
proof -
  obtain X Y Z where t: "freed X Y Z g t" "X \<subseteq> {i. pmds (g_mm g) i = Px_table}" "Y \<subseteq> {i. puds (g_mm g) i = Px_table}" "Z \<subseteq> {i. pgds (g_mm g) i = Px_table}"
    using assms(1) by (auto simp: gave_def)
  have m: "pmds (g_mm t) i = (if i \<in> X then Px_none else pmds (g_mm g) i)" "puds (g_mm t) i = (if i \<in> Y then Px_none else puds (g_mm g) i)"
    "pgds (g_mm t) i = (if i \<in> Z then Px_none else pgds (g_mm g) i)" for i using t(1) by (simp_all add: freed_def)
  have e: "pmds (g_mm g) i = Px_table \<Longrightarrow> i \<in> X" "puds (g_mm g) i = Px_table \<Longrightarrow> i \<in> Y" "pgds (g_mm g) i = Px_table \<Longrightarrow> i \<in> Z" for i
    using assms(2) [of i] unfolding m by (auto split: if_splits)
  have "X = {i. pmds (g_mm g) i = Px_table}" "Y = {i. puds (g_mm g) i = Px_table}" "Z = {i. pgds (g_mm g) i = Px_table}"
    using t(2-4) e by blast+
  then show ?thesis using t(1) by (simp add: freed_def)
qed

lemma group_step:
  assumes geo: "geometry_ok T" and g: "group ms a c rest" and need: "tables_needed T (ms @ rest) g" and ok: "tree_ok T g"
  shows "\<exists>t. free_pgd_range T a c 0 (next_start rest) g = Some t \<and> tree_ok T t \<and> tables_needed T rest t \<and> ptes (g_mm t) = ptes (g_mm g) \<and> gave g t"
proof -
  have "\<exists>t. free_pgd_range T a c 0 (next_start rest) g = Some t \<and> unshared T a c 0 (next_start rest) g t"
    by (rule free_pgd_range_unshared [OF geo]) (use g ok next_start_top(1) [OF g] in \<open>auto simp: group_def tree_ok_def\<close>)
  then obtain t where t: "free_pgd_range T a c 0 (next_start rest) g = Some t" "unshared T a c 0 (next_start rest) g t" by blast
  define X where "X = met_pmds T g a c \<inter> {i. inside (2 ^ PMD_SHIFT T) 0 (next_start rest) i}"
  let ?P = "{i. pmds (g_mm g) i = Px_table}"
  have X: "X \<subseteq> ?P" "finite ?P" using ok by (auto simp: X_def met_pmds_def tree_ok_def)
  have "{i. pmds (g_mm t) i = Px_table} = ?P - X" using unshared_levels(1) [OF t(2)] by (auto simp: X_def met_pmds_def split: if_splits)
  moreover have "nr_ptes (g_mm t) = int (card ?P) - int (card X)" "ptes (g_mm t) = ptes (g_mm g)"
    using t(2) ok by (simp_all add: unshared_def freed_def tree_ok_def X_def)
  moreover have "int (card (?P - X)) = int (card ?P) - int (card X)"
    using X by (simp add: card_Diff_subset finite_subset card_mono of_nat_diff)
  moreover have "plain_byte T (g_mm t) x" if "0 \<le> x" "x < 2 ^ 64" for x
    using group_plain [OF geo g need t(2)] ok that by (simp add: tree_ok_def)
  ultimately have "tree_ok T t" using X by (simp add: tree_ok_def)
  then show ?thesis using t group_needed [OF geo g need t(2)] \<open>ptes (g_mm t) = ptes (g_mm g)\<close> unshared_gave [OF t(2)] by blast
qed

lemma free_pgtables_none_left:
  assumes geo: "geometry_ok T" and "areas_asc lo ws" and "tables_needed T ws g" and "tree_ok T g"
  shows "\<exists>t. free_pgtables T L ws 0 0 g = Some t \<and> tree_ok T t \<and> tables_needed T [] t \<and> ptes (g_mm t) = ptes (g_mm g) \<and> gave g t"
  using assms(2-)
proof (induction "length ws" arbitrary: ws lo g rule: less_induct)
  case less
  show ?case
  proof (cases ws)
    case Nil
    then show ?thesis using less.prems gave_refl by auto
  next
    case (Cons w vs)
    obtain v rest where gr: "gather_areas T w vs = (v, rest)" by (cases "gather_areas T w vs")
    obtain ms where ms: "ws = ms @ rest" "group ms (vm_start w) (vm_end v) rest" using gather_areas_group [OF gr] less.prems(1) Cons by blast
    obtain t where t: "free_pgd_range T (vm_start w) (vm_end v) 0 (next_start rest) g = Some t" "tree_ok T t" "tables_needed T rest t"
      "ptes (g_mm t) = ptes (g_mm g)" "gave g t" using group_step [OF geo ms(2)] less.prems(2,3) ms(1) by blast
    have "length rest < length ws" using gather_areas_length [OF gr] Cons by simp
    moreover have "areas_asc (vm_end v) rest" using ms(2) by (simp add: group_def)
    ultimately obtain u where "free_pgtables T L rest 0 0 t = Some u" "tree_ok T u" "tables_needed T [] u" "ptes (g_mm u) = ptes (g_mm t)" "gave t u"
      using less.hyps t(2,3) by blast
    then show ?thesis using t(1,4) gave_trans [OF t(5)] gr less.prems(1) Cons by (auto simp: next_start_def)
  qed
qed

text \<open>
  C26: at the end of a task, when the areas are gone through with no floor and no ceiling, the tables that are handed to the
  gather are exactly all the page tables of the task at every level, each of them once, however the areas share
  their tables; no entry names a table any more and the count of the tables is 0.
\<close>

theorem exit_frees_all_tables:
  assumes "geometry_ok T" and "areas_asc 0 ws" and "tables_needed T ws g" and "tree_ok T g"
  shows "\<exists>t ls. free_pgtables T L ws 0 0 g = Some t \<and> nr_ptes (g_mm t) = 0 \<and>
    (\<forall>i. pmds (g_mm t) i \<noteq> Px_table \<and> puds (g_mm t) i \<noteq> Px_table \<and> pgds (g_mm t) i \<noteq> Px_table) \<and>
    g_tables t = g_tables g @ ls \<and> distinct ls \<and> set ls = {1} \<times> {i. pmds (g_mm g) i = Px_table} \<union>
      {2} \<times> {i. puds (g_mm g) i = Px_table} \<union> {3} \<times> {i. pgds (g_mm g) i = Px_table}"
proof -
  obtain t where t: "free_pgtables T L ws 0 0 g = Some t" "tree_ok T t" "tables_needed T [] t" "gave g t" using free_pgtables_none_left [OF assms] by blast
  then have n: "pmds (g_mm t) i \<noteq> Px_table \<and> puds (g_mm t) i \<noteq> Px_table \<and> pgds (g_mm t) i \<noteq> Px_table" for i
    by (auto simp: tables_needed_def area_met_def)
  then have "nr_ptes (g_mm t) = 0" using t(2) by (simp add: tree_ok_def)
  then show ?thesis using t(1) n gave_all [OF t(4) n] by blast
qed

section \<open>Witnesses\<close>

text \<open>The tables of the two areas of \<open>Comex_Span\<close>.\<close>

definition three_pgt :: pgt where
  "three_pgt = \<lparr>g_mm = three_mm, g_tables = []\<rparr>"

lemma three_geometry: "geometry_ok ideal_tables"
  by (simp add: geometry_ok_def ideal_tables_def PAGE_SHIFT_def)

lemma three_plain: "0 \<le> x \<Longrightarrow> plain_byte ideal_tables three_mm x"
proof -
  assume x: "0 \<le> x"
  have l: "PMD_SHIFT ideal_tables = 21" "PUD_SHIFT ideal_tables = 30" "PGDIR_SHIFT ideal_tables = 39" by (simp_all add: ideal_tables_def)
  have "x div 2097152 \<in> {0, 1} \<Longrightarrow> x div 1073741824 = 0" "x div 1073741824 = 0 \<Longrightarrow> x div 549755813888 = 0" using x by auto
  then show ?thesis by (auto simp: plain_byte_def l three_mm_def no_mm_def)
qed

theorem free_pgd_range_frees_unshared_witness:
  "\<exists>t. free_pgd_range ideal_tables 0x200000 0x300000 0 0x80000000 three_pgt = Some t \<and> pmds (g_mm t) 1 = Px_none \<and> pmds (g_mm t) 0 = Px_table"
proof -
  have r: "(0x200000 :: u64) < 0x300000" "(0 :: u64) \<le> 0x200000" "uint (0x300000 :: u64) \<le> top_of 0x80000000" by (simp_all add: top_of_def)
  have p: "plain_byte ideal_tables (g_mm three_pgt) x" if "0 \<le> x" "x < 2 ^ 64" for x using three_plain that by (simp add: three_pgt_def)
  from free_pgd_range_frees_unshared [OF three_geometry r p]
  obtain t where t: "free_pgd_range ideal_tables 0x200000 0x300000 0 0x80000000 three_pgt = Some t"
    "unshared ideal_tables 0x200000 0x300000 0 0x80000000 three_pgt t" by blast
  have "pmds (g_mm t) 1 = Px_none" "pmds (g_mm t) 0 = Px_table" unfolding unshared_levels [OF t(2)]
    by (simp_all add: three_pgt_def three_mm_def ideal_tables_def met_def inside_def top_of_def)
  then show ?thesis using t(1) by blast
qed

theorem exit_frees_all_tables_witness:
  "\<exists>t. free_pgtables ideal_tables ideal_levels [area_at 0xA000 0xE000, area_at 0x200000 0x300000] 0 0 three_pgt = Some t \<and>
     nr_ptes (g_mm t) = 0 \<and> distinct (g_tables t) \<and> set (g_tables t) = {(1, 0), (1, 1), (2, 0), (3, 0)}"
proof -
  let ?ws = "[area_at 0xA000 0xE000, area_at 0x200000 0x300000]"
  have a: "areas_asc 0 ?ws" by (simp add: area_at_def)
  have n: "tables_needed ideal_tables ?ws three_pgt"
    by (auto simp: tables_needed_def area_met_def met_def area_at_def three_pgt_def three_mm_def no_mm_def ideal_tables_def)
  have l: "{i. pmds (g_mm three_pgt) i = Px_table} = {0, 1}" "{i. puds (g_mm three_pgt) i = Px_table} = {0}" "{i. pgds (g_mm three_pgt) i = Px_table} = {0}"
    by (auto simp: three_pgt_def three_mm_def)
  then have ok: "tree_ok ideal_tables three_pgt" using three_plain by (simp add: tree_ok_def three_pgt_def three_mm_def)
  have "g_tables three_pgt = []" by (simp add: three_pgt_def)
  then show ?thesis using exit_frees_all_tables [OF three_geometry a n ok, of ideal_levels] unfolding l by fastforce
qed

end
