(* ===== verification/Comex_Return.thy ===== *)
theory Comex_Return
  imports Comex_Span
begin

unbundle bit_operations_syntax

text \<open>
  What a node gives back when a task ends: its own pages to its pool, borrowed pages to their lenders.  The
  pages are named by addresses; the facts below say what is given back for a range of addresses.
\<close>

section \<open>Messages\<close>

text \<open>The sets in a list have nothing in common.\<close>

fun disjoint_list :: "'a set list \<Rightarrow> bool" where
  "disjoint_list [] \<longleftrightarrow> True"
| "disjoint_list (A # As) \<longleftrightarrow> A \<inter> \<Union>(set As) = {} \<and> disjoint_list As"

lemma disjoint_list_append: "disjoint_list (As @ Bs) \<longleftrightarrow> disjoint_list As \<and> disjoint_list Bs \<and> \<Union>(set As) \<inter> \<Union>(set Bs) = {}"
  by (induction As) auto

text \<open>
  The messages that have gone out between two states, each with the control block it was sent on: the calls
  of \<open>universal_send\<close> that made the links what they are.
\<close>

inductive mailed :: "'r ext \<Rightarrow> (int \<times> free_struct_t) list \<Rightarrow> 'r node \<Rightarrow> 'r node \<Rightarrow> bool" for X where
  quiet: "cbs t = cbs s \<Longrightarrow> io t = io s \<Longrightarrow> mailed X [] s t"
| sent: "mailed X ms s u \<Longrightarrow> cbs u' = cbs u \<Longrightarrow> io u' = io u \<Longrightarrow>
    universal_send X n CODE_COMEX_PAGE_FREE (Free_runs fs) 96 u' = Some (0, v) \<Longrightarrow> cbs t = cbs v \<Longrightarrow> io t = io v \<Longrightarrow>
    mailed X (ms @ [(n, fs)]) s t"

lemma mailed_trans:
  assumes "mailed X ns t u" and "mailed X ms s t"
  shows "mailed X (ms @ ns) s u"
  using assms
proof (induction rule: mailed.induct)
  case (quiet u t)
  from quiet(3) quiet(1,2) show ?case by (cases rule: mailed.cases) (auto intro: mailed.intros)
next
  case (sent ns t u u' n fs v w)
  then show ?case using mailed.sent [of X "ms @ ns" s u u' n fs v w] by simp
qed

text \<open>The pages in the messages to a lender, message by message, and the record that waits for the next one.\<close>

definition handed :: "int \<Rightarrow> (int \<times> free_struct_t) list \<Rightarrow> int set list" where
  "handed n ms = map (\<lambda>m. runs (snd m)) (filter (\<lambda>m. fst m = n) ms)"

lemma handed_simps [simp]: "handed n [] = []" "handed n (ms @ ns) = handed n ms @ handed n ns"
  "handed n [(k, fs)] = (if k = n then [runs fs] else [])"
  by (simp_all add: handed_def)

section \<open>What is named in a range of addresses\<close>

definition lent :: "(int \<Rightarrow> (int \<times> int) option) \<Rightarrow> int \<Rightarrow> int \<Rightarrow> int \<Rightarrow> int set" where
  "lent g n a till = {p. \<exists>x\<in>{a..<till}. g x = Some (n, p)}"

text \<open>The links to the lenders work, and their records are in order.\<close>

definition lenders_ok :: "'r node \<Rightarrow> bool" where
  "lenders_ok s \<longleftrightarrow> hooked s \<and> \<not> freePage_spin s \<and> length (COMEX_free_struct s) \<le> length (cbs s) \<and>
     (\<forall>i < length (COMEX_free_struct s). fs_ok (COMEX_free_struct s ! i) \<and> send_ok (cbs s ! i))"

text \<open>The borrowed pages of a range have not been given back, and no two addresses name the same.\<close>

definition lent_ok :: "(int \<Rightarrow> (int \<times> int) option) \<Rightarrow> int \<Rightarrow> int \<Rightarrow> 'r node \<Rightarrow> bool" where
  "lent_ok g a till s \<longleftrightarrow> (\<forall>x n p. a \<le> x \<longrightarrow> x < till \<longrightarrow> g x = Some (n, p) \<longrightarrow>
     0 \<le> n \<and> n < int (length (COMEX_free_struct s)) \<and> 0 \<le> p \<and> p \<notin> runs (fs_at n s) \<and>
     (\<forall>y. a \<le> y \<longrightarrow> y < till \<longrightarrow> g y = Some (n, p) \<longrightarrow> y = x))"

definition same_rest :: "'r node \<Rightarrow> 'r node \<Rightarrow> bool" where
  "same_rest s t \<longleftrightarrow> t = s\<lparr>pool := pool t, COMEX_free_struct := COMEX_free_struct t, cbs := cbs t, io := io t\<rparr>"

lemma same_rest_refl [simp]: "same_rest s s"
  by (simp add: same_rest_def)

lemma same_rest_trans: "same_rest s t \<Longrightarrow> same_rest t u \<Longrightarrow> same_rest s u"
  by (cases s; cases t; cases u) (simp add: same_rest_def)

text \<open>Every borrowed page of the range is in one message to its lender, or in the record for the next one.\<close>

definition all_handed :: "(int \<Rightarrow> (int \<times> int) option) \<Rightarrow> int \<Rightarrow> int \<Rightarrow> (int \<times> free_struct_t) list \<Rightarrow> 'r node \<Rightarrow> 'r node \<Rightarrow> bool" where
  "all_handed g a till ms s t \<longleftrightarrow> (\<forall>n. 0 \<le> n \<longrightarrow> n < int (length (COMEX_free_struct s)) \<longrightarrow>
     disjoint_list (handed n ms @ [runs (fs_at n t)]) \<and> \<Union>(set (handed n ms)) \<union> runs (fs_at n t) = runs (fs_at n s) \<union> lent g n a till)"

definition back_pre :: "(int \<Rightarrow> int option) \<Rightarrow> (int \<Rightarrow> (int \<times> int) option) \<Rightarrow> int \<Rightarrow> int \<Rightarrow> 'r node \<Rightarrow> bool" where
  "back_pre f g a till s \<longleftrightarrow> pool_ok s \<and> held_ok f a till s \<and> lenders_ok s \<and> lent_ok g a till s"

definition back_post :: "'r ext \<Rightarrow> (int \<Rightarrow> int option) \<Rightarrow> (int \<Rightarrow> (int \<times> int) option) \<Rightarrow> int \<Rightarrow> int \<Rightarrow> 'r node \<Rightarrow> 'r node \<Rightarrow> bool" where
  "back_post X f g a till s t \<longleftrightarrow> same_rest s t \<and> pool_ok t \<and> pool_total t = pool_total s \<and> pool_free t = pool_free s \<union> held f a till \<and>
     lenders_ok t \<and> length (COMEX_free_struct t) = length (COMEX_free_struct s) \<and>
     (\<exists>ms. mailed X ms s t \<and> all_handed g a till ms s t)"

section \<open>Ranges\<close>

lemma lent_split:
  assumes "a \<le> b" and "b \<le> c"
  shows "lent g n a c = lent g n a b \<union> lent g n b c"
proof -
  have "{a..<c} = {a..<b} \<union> {b..<c}" using assms by auto
  then show ?thesis by (auto simp: lent_def)
qed

lemma lent_one: "lent g n a (a + 1) = {p. g a = Some (n, p)}"
  by (simp add: lent_def range_step)

lemma lent_none: "(\<And>x. a \<le> x \<Longrightarrow> x < c \<Longrightarrow> g x = None) \<Longrightarrow> lent g n a c = {}"
  by (force simp: lent_def)

lemma held_none: "(\<And>x. a \<le> x \<Longrightarrow> x < c \<Longrightarrow> f x = None) \<Longrightarrow> held f a c = {}"
  by (auto simp: held_def)

lemma lent_okD:
  assumes "lent_ok g a c s" and "a \<le> x" and "x < c" and "g x = Some (n, p)"
  shows "0 \<le> n" "n < int (length (COMEX_free_struct s))" "0 \<le> p" "p \<notin> runs (fs_at n s)"
    "a \<le> y \<Longrightarrow> y < c \<Longrightarrow> g y = Some (n, p) \<Longrightarrow> y = x"
  using assms unfolding lent_ok_def by blast+

lemma lent_apart:
  assumes "lent_ok g a c s" and "a \<le> b" and "b \<le> c"
  shows "(runs (fs_at n s) \<union> lent g n a b) \<inter> lent g n b c = {}"
proof (rule equals0I)
  fix p assume p: "p \<in> (runs (fs_at n s) \<union> lent g n a b) \<inter> lent g n b c"
  then obtain x where x: "b \<le> x" "x < c" "g x = Some (n, p)" by (auto simp: lent_def)
  have ax: "a \<le> x" using x assms(2) by simp
  note * = lent_okD [OF assms(1) ax x(2,3)]
  have "p \<notin> runs (fs_at n s)" by (rule *(4))
  with p obtain y where y: "a \<le> y" "y < b" "g y = Some (n, p)" by (auto simp: lent_def)
  have "y = x" using *(5) [OF y(1) _ y(3)] y(2) assms(3) by simp
  then show False using x y by simp
qed

lemma lent_ok_part: "lent_ok g a c s \<Longrightarrow> a \<le> b \<Longrightarrow> d \<le> c \<Longrightarrow> lent_ok g b d s"
  unfolding lent_ok_def by (meson order_trans order_less_le_trans)

lemma back_pre_part: "back_pre f g a c s \<Longrightarrow> a \<le> b \<Longrightarrow> d \<le> c \<Longrightarrow> back_pre f g b d s"
  unfolding back_pre_def using held_ok_part lent_ok_part by blast

lemma all_handed_at:
  assumes "all_handed g a b ms s t" and "0 \<le> n" and "n < int (length (COMEX_free_struct s))"
  shows "disjoint_list (handed n ms @ [runs (fs_at n t)])" "\<Union>(set (handed n ms)) \<union> runs (fs_at n t) = runs (fs_at n s) \<union> lent g n a b"
  using assms unfolding all_handed_def by blast+

lemma back_pre_rest:
  assumes pre: "back_pre f g a c s" and post: "back_post X f g a b s t" and "a \<le> b" and "b \<le> c"
  shows "back_pre f g b c t"
proof -
  obtain ms where ms: "all_handed g a b ms s t" using post by (auto simp: back_post_def)
  have len: "length (COMEX_free_struct t) = length (COMEX_free_struct s)" using post by (simp add: back_post_def)
  have l: "lent_ok g a c s" using pre by (simp add: back_pre_def)
  have "lent_ok g b c t"
    unfolding lent_ok_def
  proof (intro allI impI)
    fix x n p assume x: "b \<le> x" "x < c" "g x = Some (n, p)"
    then have ax: "a \<le> x" using assms(3) by simp
    note * = lent_okD [OF l ax x(2,3)]
    have "p \<in> lent g n b c" using x by (auto simp: lent_def)
    then have "p \<notin> runs (fs_at n t)" using all_handed_at(2) [OF ms *(1,2)] lent_apart [OF l assms(3,4), of n] by blast
    moreover have "\<forall>y. b \<le> y \<longrightarrow> y < c \<longrightarrow> g y = Some (n, p) \<longrightarrow> y = x" using *(5) assms(3) by auto
    ultimately show "0 \<le> n \<and> n < int (length (COMEX_free_struct t)) \<and> 0 \<le> p \<and> p \<notin> runs (fs_at n t) \<and>
        (\<forall>y. b \<le> y \<longrightarrow> y < c \<longrightarrow> g y = Some (n, p) \<longrightarrow> y = x)" using *(1-3) len by simp
  qed
  moreover have "held_ok f b c t" using held_ok_rest [of f a c s b t] pre post assms(3) by (simp add: back_pre_def back_post_def)
  ultimately show ?thesis using post by (simp add: back_pre_def back_post_def)
qed

lemma back_post_join:
  assumes pre: "back_pre f g a c s" and st: "back_post X f g a b s t" and tu: "back_post X f g b c t u" and "a \<le> b" and "b \<le> c"
  shows "back_post X f g a c s u"
proof -
  obtain ms where ms: "mailed X ms s t" "all_handed g a b ms s t" using st by (auto simp: back_post_def)
  obtain ns where ns: "mailed X ns t u" "all_handed g b c ns t u" using tu by (auto simp: back_post_def)
  have len: "length (COMEX_free_struct t) = length (COMEX_free_struct s)" using st by (simp add: back_post_def)
  have l: "lent_ok g a c s" using pre by (simp add: back_pre_def)
  have "all_handed g a c (ms @ ns) s u"
    unfolding all_handed_def
  proof (intro allI impI)
    fix n assume n: "0 \<le> n" "n < int (length (COMEX_free_struct s))"
    note m = all_handed_at [OF ms(2) n] and k = all_handed_at [OF ns(2) n(1), unfolded len, OF n(2)]
    have "\<Union>(set (handed n ms)) \<inter> runs (fs_at n t) = {}" using m(1) by (auto simp: disjoint_list_append)
    moreover have "\<Union>(set (handed n ms)) \<inter> lent g n b c = {}" using m(2) lent_apart [OF l assms(4,5), of n] by blast
    ultimately have "\<Union>(set (handed n ms)) \<inter> (\<Union>(set (handed n ns)) \<union> runs (fs_at n u)) = {}" unfolding k(2) by blast
    moreover have "disjoint_list (handed n ms)" using m(1) by (simp add: disjoint_list_append)
    ultimately have "disjoint_list (handed n (ms @ ns) @ [runs (fs_at n u)])" using k(1) by (auto simp: disjoint_list_append)
    moreover have "\<Union>(set (handed n (ms @ ns))) \<union> runs (fs_at n u) = runs (fs_at n s) \<union> lent g n a c"
      using m(2) k(2) lent_split [OF assms(4,5), of g n] by auto
    ultimately show "disjoint_list (handed n (ms @ ns) @ [runs (fs_at n u)]) \<and>
        \<Union>(set (handed n (ms @ ns))) \<union> runs (fs_at n u) = runs (fs_at n s) \<union> lent g n a c" by blast
  qed
  moreover have "mailed X (ms @ ns) s u" by (rule mailed_trans [OF ns(1) ms(1)])
  moreover have "same_rest s u" using st tu same_rest_trans by (auto simp: back_post_def)
  ultimately show ?thesis using st tu held_split [OF assms(4,5), of f] by (auto simp: back_post_def)
qed

lemma back_nothing:
  assumes "back_pre f g a c s" and "\<And>x. a \<le> x \<Longrightarrow> x < c \<Longrightarrow> f x = None \<and> g x = None"
  shows "back_post X f g a c s s"
proof -
  have "mailed X [] s s" by (auto intro: mailed.quiet)
  moreover have "all_handed g a c [] s s" using assms(2) lent_none [of a c g] by (simp add: all_handed_def)
  ultimately show ?thesis using assms held_none [of a c f] by (auto simp: back_post_def back_pre_def)
qed

lemma back_pre_none:
  assumes pre: "back_pre f g (b + 1) c s" and f: "f b = None" and g: "g b = None"
  shows "back_pre f g b c s"
proof -
  have fx: "b + 1 \<le> x" if "b \<le> x" "f x = Some p" for x p using that f by (cases "x = b") auto
  have gx: "b + 1 \<le> x" if "b \<le> x" "g x = Some p" for x p using that g by (cases "x = b") auto
  have h: "held_ok f (b + 1) c s" and l: "lent_ok g (b + 1) c s" using pre by (simp_all add: back_pre_def)
  have "held_ok f b c s"
    unfolding held_ok_def
  proof (intro allI impI)
    fix x p assume x: "b \<le> x" "x < c" "f x = Some p"
    from h [unfolded held_ok_def, rule_format, OF fx [OF x(1,3)] x(2,3)]
    show "0 \<le> p \<and> p < pool_total s \<and> p \<notin> pool_free s \<and> (\<forall>y. b \<le> y \<longrightarrow> y < c \<longrightarrow> f y = Some p \<longrightarrow> y = x)"
      using fx by blast
  qed
  moreover have "lent_ok g b c s"
    unfolding lent_ok_def
  proof (intro allI impI)
    fix x n p assume x: "b \<le> x" "x < c" "g x = Some (n, p)"
    from l [unfolded lent_ok_def, rule_format, OF gx [OF x(1,3)] x(2,3)]
    show "0 \<le> n \<and> n < int (length (COMEX_free_struct s)) \<and> 0 \<le> p \<and> p \<notin> runs (fs_at n s) \<and>
        (\<forall>y. b \<le> y \<longrightarrow> y < c \<longrightarrow> g y = Some (n, p) \<longrightarrow> y = x)"
      using gx by blast
  qed
  ultimately show ?thesis using pre by (simp add: back_pre_def)
qed

section \<open>One page\<close>

lemma back_own:
  assumes "back_pre f g a c s" and "a < c" and "f a = Some p" and "g a = None"
  shows "\<exists>t. node_free p 0 s = Some t \<and> back_post X f g a (a + 1) s t"
proof -
  have p: "pool_ok s" "0 \<le> p" "p < pool_total s" "p \<notin> pool_free s" using assms by (auto simp: back_pre_def held_ok_def)
  obtain t where t: "node_free p 0 s = Some t" "pool_ok t" "pool_total t = pool_total s" "pool_free t = pool_free s \<union> {p}"
    using npool.release [OF p(1), of 0 p] p by auto
  obtain b where b: "t = s\<lparr>pool := b\<rparr>" using t(1) by (auto simp: node_free_def split: bind_splits)
  have "held f a (a + 1) = {p}" using assms(3) by (simp add: held_def range_step)
  moreover have "mailed X [] s t" by (rule mailed.quiet) (simp_all add: b)
  moreover have "all_handed g a (a + 1) [] s t" using assms(4) by (simp add: all_handed_def lent_one b)
  moreover have "same_rest s t" by (cases s) (simp add: same_rest_def b)
  moreover have "lenders_ok t" using assms(1) by (simp add: back_pre_def lenders_ok_def b)
  ultimately show ?thesis using t by (intro exI [of _ t]) (auto simp: back_post_def b)
qed

lemma back_lent:
  assumes X: "rdma_messages X rem up" and "back_pre f g a c s" and "a < c" and "f a = None" and "g a = Some (n, p)"
  shows "\<exists>t. COMEX_free_to_remote X n p s = Some t \<and> back_post X f g a (a + 1) s t"
proof -
  have l: "lent_ok g a c s" and L: "lenders_ok s" using assms(2) by (simp_all add: back_pre_def)
  note p = lent_okD [OF l order_refl assms(3,5)]
  let ?i = "nat n"
  have i: "?i < length (COMEX_free_struct s)" "length (COMEX_free_struct s) \<le> length (cbs s)" using p(1,2) L by (auto simp: lenders_ok_def)
  have ok: "n < int (length (cbs s))" "send_ok (cbs s ! ?i)" "hooked s" "\<not> freePage_spin s" "fs_ok (fs_at n s)"
    using i L p(1) by (auto simp: lenders_ok_def)
  obtain fs' cs r where t: "COMEX_free_to_remote X n p s = Some ((set_fs n fs' s)\<lparr>cbs := cs, io := r\<rparr>)" "fs_ok fs'" "same_links (cbs s) cs"
    "runs fs' = insert p (runs (fs_at n s)) \<and> cs = cbs s \<and> r = io s \<or>
     runs fs' = {p} \<and> (\<forall>j < 16. run_of (fs_at n s) j \<noteq> {}) \<and>
       universal_send X n CODE_COMEX_PAGE_FREE (Free_runs (fs_at n s)) 96 (s\<lparr>freePage_spin := True\<rparr>) =
         Some (0, s\<lparr>freePage_spin := True, cbs := cs, io := r\<rparr>)"
    using free_to_remote_form [OF X p(1,2) ok(1-5) p(3,4)] by blast
  let ?t = "(set_fs n fs' s)\<lparr>cbs := cs, io := r\<rparr>"
  have at: "fs_at k ?t = (if k = n then fs' else fs_at k s)" if "0 \<le> k" for k
    using that p(1) i(1) by (auto simp: nth_list_update eq_nat_nat_iff)
  have at': "(COMEX_free_struct s)[nat n := fs'] ! nat k = (if k = n then fs' else fs_at k s)" if "0 \<le> k" for k
    using at [OF that] by simp
  have lent: "lent g k a (a + 1) = (if k = n then {p} else {})" for k using assms(5) by (auto simp: lent_one)
  obtain ms where ms: "mailed X ms s ?t" "all_handed g a (a + 1) ms s ?t"
    using t(4)
  proof
    assume q: "runs fs' = insert p (runs (fs_at n s)) \<and> cs = cbs s \<and> r = io s"
    have "mailed X [] s ?t" by (rule mailed.quiet) (simp_all add: q)
    moreover have "all_handed g a (a + 1) [] s ?t" unfolding all_handed_def using q by (simp add: at' lent)
    ultimately show thesis by (rule that)
  next
    let ?u = "s\<lparr>freePage_spin := True\<rparr>" and ?v = "s\<lparr>freePage_spin := True, cbs := cs, io := r\<rparr>"
    assume q: "runs fs' = {p} \<and> (\<forall>j < 16. run_of (fs_at n s) j \<noteq> {}) \<and>
       universal_send X n CODE_COMEX_PAGE_FREE (Free_runs (fs_at n s)) 96 ?u = Some (0, ?v)"
    have "mailed X [] s s" by (simp add: mailed.quiet)
    then have "mailed X ([] @ [(n, fs_at n s)]) s ?t" by (rule mailed.sent [where u' = ?u and v = ?v]) (use q in simp_all)
    moreover have "all_handed g a (a + 1) ([] @ [(n, fs_at n s)]) s ?t" unfolding all_handed_def using q p(4) by (simp add: at' lent)
    ultimately show thesis by (rule that)
  qed
  have "hooked ?t = hooked s" "freePage_spin ?t = freePage_spin s" by (simp_all add: set_fs_def)
  then have "lenders_ok ?t" using L t(2,3) i by (auto simp: lenders_ok_def same_links_def nth_list_update)
  moreover have "same_rest s ?t" by (cases s) (simp add: same_rest_def set_fs_def)
  moreover have "held f a (a + 1) = {}" using assms(4) by (simp add: held_def range_step)
  moreover have "pool_ok s" using assms(2) by (simp add: back_pre_def)
  ultimately have "back_post X f g a (a + 1) s ?t"
    using ms by (auto simp: back_post_def pool_ok_def pool_free_def pool_total_def)
  then show ?thesis using t(1) by blast
qed

end
