(* ===== verification/Comex_Gather.thy ===== *)
theory Comex_Gather
  imports Comex_Return
begin

text \<open>
  Frames behind present entries: their way into the gather and, at a flush, out of the swap cache.  None of
  this touches the node, and it always runs to its end where the frames that are in the swap cache are there
  for COMEX.
\<close>

section \<open>What is left alone\<close>

text \<open>The areas, the number of the caches, and which frames are cached for what (a frame may leave its cache).\<close>

definition quiet_sw :: "'k swaps \<Rightarrow> 'k swaps \<Rightarrow> bool" where
  "quiet_sw s t \<longleftrightarrow> swap_info t = swap_info s \<and> length (swapper_spaces t) = length (swapper_spaces s) \<and>
     (\<forall>pg. PageSwapCache (frames t pg) \<longrightarrow> PageSwapCache (frames s pg) \<and> page_private (frames t pg) = page_private (frames s pg))"

definition quiet_vm :: "('r, 'k) vm \<Rightarrow> ('r, 'k) vm \<Rightarrow> bool" where
  "quiet_vm v w \<longleftrightarrow> nd (mc w) = nd (mc v) \<and> quiet_sw (sw (mc v)) (sw (mc w))"

lemma quiet_refl [simp]: "quiet_sw s s" "quiet_vm v v"
  by (simp_all add: quiet_sw_def quiet_vm_def)

lemma quiet_sw_trans: "quiet_sw s t \<Longrightarrow> quiet_sw t u \<Longrightarrow> quiet_sw s u"
  unfolding quiet_sw_def by auto

lemma quiet_vm_trans: "quiet_vm v w \<Longrightarrow> quiet_vm w x \<Longrightarrow> quiet_vm v x"
  unfolding quiet_vm_def using quiet_sw_trans by auto

text \<open>No area has a number of COMEX, and a frame of \<open>G\<close> that is in the swap cache is there under an entry of COMEX.\<close>

definition cached_for_comex :: "swap_h \<Rightarrow> int set \<Rightarrow> 'k swaps \<Rightarrow> bool" where
  "cached_for_comex K G s \<longleftrightarrow> 9 < length (swap_info s) \<and> swap_info s ! 8 = None \<and> swap_info s ! 9 = None \<and> 9 < length (swapper_spaces s) \<and>
     (\<forall>pg\<in>G. PageSwapCache (frames s pg) \<longrightarrow> comex_entry K (page_private (frames s pg)))"

lemma quiet_cached: "quiet_sw s t \<Longrightarrow> cached_for_comex K G s \<Longrightarrow> cached_for_comex K G t"
  unfolding quiet_sw_def cached_for_comex_def by auto

section \<open>Out of the swap cache\<close>

lemma comex_no_area:
  assumes "cached_for_comex K G s" and "comex_entry K e"
  shows "swap_info_get K e s = Some (None, s)"
  using assms by (auto simp: swap_info_get_def comex_entry_def cached_for_comex_def arr_get_def)

lemma comex_space:
  assumes "cached_for_comex K G s" and "comex_entry K e"
  shows "unat (swp_type K e) < length (swapper_spaces s)"
  using assms by (auto simp: comex_entry_def cached_for_comex_def)

lemma delete_comex_quiet:
  assumes c: "cached_for_comex K G s" and "pg \<in> G" and p: "PageLocked (frames s pg)" "PageSwapCache (frames s pg)" "\<not> PageWriteback (frames s pg)"
  shows "\<exists>t. delete_from_swap_cache K X pg s = Some t \<and> quiet_sw s t"
proof -
  let ?e = "page_private (frames s pg)"
  have e: "comex_entry K ?e" using c assms(2) p(2) by (simp add: cached_for_comex_def)
  note l = comex_space [OF c e]
  obtain t where t: "u_delete_from_swap_cache K pg s = Some t" "quiet_sw s t"
    using p l by (auto simp: u_delete_from_swap_cache_def Let_def space_upd_eq frame_upd_def info_upd_def quiet_sw_def)
  have "swapcache_free K X ?e (Some pg) t = Some t"
    using comex_no_area [OF quiet_cached [OF t(2) c] e] by (simp add: swapcache_free_def)
  moreover have "quiet_sw s (page_cache_release pg t)"
    using t(2) by (simp add: quiet_sw_def page_cache_release_def frame_upd_def)
  ultimately show ?thesis using t(1) by (simp add: delete_from_swap_cache_def)
qed

lemma free_swap_cache_quiet:
  assumes c: "cached_for_comex K G s" and "pg \<in> G"
  shows "\<exists>t. free_swap_cache K X pg s = Some t \<and> quiet_sw s t"
proof (cases "PageSwapCache (frames s pg) \<and> \<not> page_mapped (frames s pg) \<and> \<not> PageLocked (frames s pg)")
  case False
  then show ?thesis by (auto simp: free_swap_cache_def trylock_page_def)
next
  case True
  define u where "u = frame_upd pg (\<lambda>p. p\<lparr>PageLocked := True\<rparr>) s"
  have q: "quiet_sw s u" by (simp add: u_def quiet_sw_def frame_upd_def)
  have f: "frames u pg = (frames s pg)\<lparr>PageLocked := True\<rparr>" by (simp add: u_def frame_upd_def)
  have e: "comex_entry K (page_private (frames u pg))" using c assms(2) True by (simp add: f cached_for_comex_def)
  note cu = quiet_cached [OF q c]
  have n: "page_swapcount K pg u = Some (0, u)" using comex_no_area [OF cu e] by (simp add: page_swapcount_def)
  obtain r t where t: "try_to_free_swap K X pg u = Some (r, t)" "quiet_sw u t"
  proof (cases "PageWriteback (frames u pg) \<or> pm_suspended_storage X (kern u)")
    case True
    then have "try_to_free_swap K X pg u = Some (0, u)" using f n by (auto simp: try_to_free_swap_def)
    then show thesis by (rule that) simp
  next
    case False
    obtain t where t: "delete_from_swap_cache K X pg u = Some t" "quiet_sw u t"
      using delete_comex_quiet [OF cu assms(2), of X] f True False by auto
    have "try_to_free_swap K X pg u = Some (1, SetPageDirty pg t)" using f n t(1) True False by (simp add: try_to_free_swap_def)
    moreover have "quiet_sw u (SetPageDirty pg t)" using t(2) by (simp add: quiet_sw_def SetPageDirty_def frame_upd_def)
    ultimately show thesis by (rule that)
  qed
  have "free_swap_cache K X pg s = Some (unlock_page pg t)" using True t(1) by (simp add: free_swap_cache_def trylock_page_def u_def [symmetric])
  moreover have "quiet_sw s (unlock_page pg t)"
    using quiet_sw_trans [OF q t(2)] by (simp add: quiet_sw_def unlock_page_def frame_upd_def)
  ultimately show ?thesis by blast
qed

lemma free_swap_caches_quiet:
  assumes "cached_for_comex K G s" and "set pgs \<subseteq> G"
  shows "\<exists>t. free_swap_caches K X pgs s = Some t \<and> quiet_sw s t"
  using assms
proof (induction pgs arbitrary: s)
  case (Cons pg pgs)
  obtain t where t: "free_swap_cache K X pg s = Some t" "quiet_sw s t" using free_swap_cache_quiet [OF Cons.prems(1), of pg X] Cons.prems(2) by auto
  then obtain u where "free_swap_caches K X pgs t = Some u" "quiet_sw t u"
    using Cons.IH [OF quiet_cached [OF t(2) Cons.prems(1)]] Cons.prems(2) by auto
  then show ?case using t quiet_sw_trans by auto
qed simp

lemma release_quiet: "quiet_sw s (release_pages pgs s)"
proof (induction pgs arbitrary: s)
  case (Cons pg pgs)
  have "quiet_sw s (page_cache_release pg s)" by (simp add: quiet_sw_def page_cache_release_def frame_upd_def)
  then have "quiet_sw s (release_pages pgs (page_cache_release pg s))" using Cons.IH quiet_sw_trans by blast
  then show ?case by (simp add: release_pages_def)
qed (simp add: release_pages_def)

lemma free_pages_quiet:
  assumes "cached_for_comex K G s" and "set pgs \<subseteq> G"
  shows "\<exists>t. free_pages_and_swap_cache K X vec pgs s = Some t \<and> quiet_sw s t"
  using assms
proof (induction "length pgs" arbitrary: pgs s rule: less_induct)
  case less
  show ?case
  proof (cases "pgs = [] \<or> vec = 0")
    case True
    then show ?thesis by (subst free_pages_and_swap_cache.simps) simp
  next
    case False
    have G: "set (take vec pgs) \<subseteq> G" "set (drop vec pgs) \<subseteq> G" using less.prems(2) set_take_subset set_drop_subset by fast+
    obtain t where t: "free_swap_caches K X (take vec pgs) s = Some t" "quiet_sw s t"
      using free_swap_caches_quiet [OF less.prems(1) G(1)] by blast
    let ?t = "release_pages (take vec pgs) t"
    have q: "quiet_sw s ?t" using t(2) release_quiet quiet_sw_trans by blast
    then obtain u where "free_pages_and_swap_cache K X vec (drop vec pgs) ?t = Some u" "quiet_sw ?t u"
      using less.hyps [OF _ quiet_cached [OF q less.prems(1)] G(2)] False by auto
    then show ?thesis using False t(1) quiet_sw_trans [OF q] by (subst free_pages_and_swap_cache.simps) auto
  qed
qed

section \<open>The gather\<close>

text \<open>The batches hold frames of \<open>G\<close>, and none is over-full.\<close>

definition gathers :: "int set \<Rightarrow> mmu_gather \<Rightarrow> bool" where
  "gathers G tlb \<longleftrightarrow> active tlb < length (batches tlb) \<and>
     (\<forall>(pgs, m)\<in>set (batches tlb). set pgs \<subseteq> G \<and> length pgs \<le> m \<and> 0 < m) \<and>
     (\<forall>i. active tlb < i \<longrightarrow> i < length (batches tlb) \<longrightarrow> fst (batches tlb ! i) = [])"

definition batch_room :: "mmu_gather \<Rightarrow> bool" where
  "batch_room tlb \<longleftrightarrow> length (fst (batches tlb ! active tlb)) < snd (batches tlb ! active tlb)"

lemma gathers_at:
  assumes "gathers G tlb" and "i < length (batches tlb)"
  shows "0 < snd (batches tlb ! i)" "set (fst (batches tlb ! i)) \<subseteq> G"
  using assms nth_mem [OF assms(2)] unfolding gathers_def by (cases "batches tlb ! i", force)+

lemma gather_mmu_ok: "0 < LOCAL_GATHER T \<Longrightarrow> gathers G (tlb_gather_mmu T) \<and> batch_room (tlb_gather_mmu T)"
  by (simp add: gathers_def batch_room_def tlb_gather_mmu_def)

lemma free_batches_quiet:
  assumes "cached_for_comex (hdr (host_of T)) G (sw (mc v))" and "\<forall>(pgs, m)\<in>set bs. set pgs \<subseteq> G"
  shows "\<exists>w. free_batches T bs v = Some w \<and> quiet_vm v w"
  using assms
proof (induction bs arbitrary: v)
  case (Cons b bs)
  obtain pgs m where b: "b = (pgs, m)" by (cases b)
  obtain t where t: "free_pages_and_swap_cache (hdr (host_of T)) (ksv (host_of T)) (PAGEVEC_SIZE T) pgs (sw (mc v)) = Some t"
      "quiet_sw (sw (mc v)) t"
    using free_pages_quiet [OF Cons.prems(1), of pgs "ksv (host_of T)" "PAGEVEC_SIZE T"] Cons.prems(2) b by auto
  let ?v = "v\<lparr>mc := (mc v)\<lparr>sw := t\<rparr>\<rparr>"
  have q: "quiet_vm v ?v" using t(2) by (simp add: quiet_vm_def)
  have c: "cached_for_comex (hdr (host_of T)) G (sw (mc ?v))" using quiet_cached [OF t(2) Cons.prems(1)] by simp
  obtain w where "free_batches T bs ?v = Some w" "quiet_vm ?v w" using Cons.IH [OF c] Cons.prems(2) by auto
  then show ?case using t(1) b quiet_vm_trans [OF q] by auto
qed simp

lemma tlb_flush_quiet:
  assumes "cached_for_comex (hdr (host_of T)) G (sw (mc v))" and "gathers G tlb" and "need_flush tlb"
  shows "\<exists>t w. tlb_flush_mmu T tlb v = Some (t, w) \<and> gathers G t \<and> batch_room t \<and> quiet_vm v w"
proof -
  have "\<forall>(pgs, m)\<in>set (batches tlb). set pgs \<subseteq> G" using assms(2) by (auto simp: gathers_def)
  then obtain w where w: "free_batches T (batches tlb) v = Some w" "quiet_vm v w" using free_batches_quiet [OF assms(1)] by blast
  let ?t = "tlb\<lparr>need_flush := False, batches := map (\<lambda>(pgs, m). ([], m)) (batches tlb), active := 0\<rparr>"
  have "length (batches tlb) \<noteq> 0" using assms(2) by (auto simp: gathers_def)
  then have n: "0 < length (batches tlb)" by simp
  have "\<forall>b\<in>set (batches ?t). fst b = [] \<and> 0 < snd b" using assms(2) by (auto simp: gathers_def)
  then have "gathers G ?t" using n nth_mem [of _ "batches ?t"] unfolding gathers_def by (intro conjI allI impI ballI) (fastforce+)
  moreover have "0 < snd (batches tlb ! 0)" by (rule gathers_at [OF assms(2) n])
  then have "batch_room ?t" using n by (cases "batches tlb ! 0") (simp add: batch_room_def)
  moreover have "tlb_flush_mmu T tlb v = Some (?t, w)" using assms(3) w(1) by (simp add: tlb_flush_mmu_def)
  ultimately show ?thesis using w(2) by blast
qed

lemma gathers_add:
  assumes "gathers G tlb" and "batch_room tlb" and "pg \<in> G" and "batches tlb ! active tlb = (pgs, m)"
  shows "gathers G (tlb\<lparr>batches := (batches tlb)[active tlb := (pgs @ [pg], m)]\<rparr>)"
proof -
  have a: "active tlb < length (batches tlb)" using assms(1) by (simp add: gathers_def)
  have "set pgs \<subseteq> G \<and> 0 < m" using assms(1,4) nth_mem [OF a] by (auto simp: gathers_def)
  moreover have "length pgs < m" using assms(2,4) by (simp add: batch_room_def)
  ultimately have new: "set (pgs @ [pg]) \<subseteq> G \<and> length (pgs @ [pg]) \<le> m \<and> 0 < m" using assms(3) by simp
  have "\<forall>(qs, k)\<in>set ((batches tlb)[active tlb := (pgs @ [pg], m)]). set qs \<subseteq> G \<and> length qs \<le> k \<and> 0 < k"
  proof
    fix b assume "b \<in> set ((batches tlb)[active tlb := (pgs @ [pg], m)])"
    then have "b \<in> set (batches tlb) \<or> b = (pgs @ [pg], m)" using set_update_subset_insert by fast
    then show "case b of (qs, k) \<Rightarrow> set qs \<subseteq> G \<and> length qs \<le> k \<and> 0 < k"
      using assms(1) new unfolding gathers_def by (elim disjE conjE) (drule (1) bspec, simp, simp)
  qed
  then show ?thesis using assms(1) by (simp add: gathers_def)
qed

lemma next_batch_ok:
  assumes "gathers G tlb" and "0 < MAX_GATHER_BATCH T" and "\<And>v. quiet_vm v (snd (get_batch T v))"
  shows "\<exists>r t w. tlb_next_batch T tlb v = (r, t, w) \<and> need_flush t = need_flush tlb \<and> gathers G t \<and> quiet_vm v w \<and>
    (r = 0 \<or> r = 1 \<and> batch_room t \<and> fst (batches t ! active t) = [])"
proof -
  have a: "active tlb < length (batches tlb)" using assms(1) by (simp add: gathers_def)
  consider (there) "active tlb + 1 < length (batches tlb)"
    | (enough) "\<not> active tlb + 1 < length (batches tlb)" "length (batches tlb) - 1 = MAX_GATHER_BATCH_COUNT T"
    | (refused) w where "\<not> active tlb + 1 < length (batches tlb)" "length (batches tlb) - 1 \<noteq> MAX_GATHER_BATCH_COUNT T" "get_batch T v = (False, w)"
    | (got) w where "\<not> active tlb + 1 < length (batches tlb)" "length (batches tlb) - 1 \<noteq> MAX_GATHER_BATCH_COUNT T" "get_batch T v = (True, w)"
    by (metis (full_types) surj_pair)
  then show ?thesis
  proof cases
    case there
    let ?t = "tlb\<lparr>active := active tlb + 1\<rparr>"
    have e: "fst (batches tlb ! (active tlb + 1)) = []" using assms(1) there by (simp add: gathers_def)
    have "0 < snd (batches tlb ! (active tlb + 1))" by (rule gathers_at [OF assms(1) there])
    then show ?thesis using there assms(1) e by (intro exI [of _ 1] exI [of _ ?t] exI [of _ v]) (simp add: tlb_next_batch_def gathers_def batch_room_def)
  next
    case enough
    then show ?thesis using assms(1) by (intro exI [of _ 0] exI [of _ tlb] exI [of _ v]) (simp add: tlb_next_batch_def)
  next
    case refused
    then show ?thesis using assms(1) assms(3) [of v] by (intro exI [of _ 0] exI [of _ tlb] exI [of _ w]) (simp add: tlb_next_batch_def)
  next
    case got
    let ?t = "tlb\<lparr>batches := batches tlb @ [([], MAX_GATHER_BATCH T)], active := active tlb + 1\<rparr>"
    have l: "active tlb + 1 = length (batches tlb)" using a got(1) by simp
    have "gathers G ?t" using assms(1,2) l by (auto simp: gathers_def)
    moreover have "batch_room ?t" "fst (batches ?t ! active ?t) = []" using assms(2) l by (simp_all add: batch_room_def nth_append)
    ultimately show ?thesis using got assms(3) [of v] by (intro exI [of _ 1] exI [of _ ?t] exI [of _ w]) (simp add: tlb_next_batch_def)
  qed
qed

lemma tlb_remove_page_ok:
  assumes g: "gathers G tlb" and r: "batch_room tlb" and "pg \<in> G" and "need_flush tlb"
    and "0 < MAX_GATHER_BATCH T" and "\<And>v. quiet_vm v (snd (get_batch T v))"
  shows "\<exists>room t w. tlb_remove_page T pg tlb v = Some (room, t, w) \<and> need_flush t \<and> gathers G t \<and> quiet_vm v w \<and> (room \<noteq> 0 \<longrightarrow> batch_room t)"
proof -
  obtain pgs m where b: "batches tlb ! active tlb = (pgs, m)" by fastforce
  have a: "active tlb < length (batches tlb)" using g by (simp add: gathers_def)
  let ?tlb = "tlb\<lparr>batches := (batches tlb)[active tlb := (pgs @ [pg], m)]\<rparr>"
  have g': "gathers G ?tlb" by (rule gathers_add [OF g r assms(3) b])
  have m: "length pgs < m" using r b by (simp add: batch_room_def)
  have at: "arr_get (batches tlb) (int (active tlb)) = Some (pgs, m)"
    "arr_set (batches tlb) (int (active tlb)) (pgs @ [pg], m) = Some (batches ?tlb)" using a b by (simp_all add: arr_get_def arr_set_def)
  show ?thesis
  proof (cases "length pgs + 1 = m")
    case False
    then show ?thesis using at m assms(4) g' a b
      by (intro exI [of _ "int m - int (length (pgs @ [pg]))"] exI [of _ ?tlb] exI [of _ v]) (simp add: tlb_remove_page_def batch_room_def)
  next
    case True
    obtain r t w where n: "tlb_next_batch T ?tlb v = (r, t, w)" "need_flush t = need_flush ?tlb" "gathers G t" "quiet_vm v w"
        "r = 0 \<or> r = 1 \<and> batch_room t \<and> fst (batches t ! active t) = []"
      using next_batch_ok [OF g' assms(5,6)] by blast
    from n(5) show ?thesis
    proof
      assume "r = 0"
      then show ?thesis using at True assms(4) n by (intro exI [of _ 0] exI [of _ t] exI [of _ w]) (simp add: tlb_remove_page_def)
    next
      assume h: "r = 1 \<and> batch_room t \<and> fst (batches t ! active t) = []"
      obtain k where k: "batches t ! active t = ([], k)" using h by (cases "batches t ! active t") simp
      have "active t < length (batches t)" using n(3) by (simp add: gathers_def)
      then have "arr_get (batches t) (int (active t)) = Some ([], k)" using k by (simp add: arr_get_def)
      then show ?thesis using at True assms(4) n h by (intro exI [of _ "int k"] exI [of _ t] exI [of _ w]) (simp add: tlb_remove_page_def)
    qed
  qed
qed

end
