(* ===== verification/Comex_End.thy ===== *)
theory Comex_End
  imports Comex_Gather
begin

unbundle bit_operations_syntax

text \<open>
  The end of a task: its areas are removed with everything that is in them, frames, pages of the own pool and
  pages of other nodes.
\<close>

section \<open>What an address space names\<close>

text \<open>An entry below something that is no table means nothing.\<close>

definition pte_of :: "('r, 'k) tables \<Rightarrow> mm_struct \<Rightarrow> int \<Rightarrow> pte" where
  "pte_of T mm x = (if has_table T mm x then ptes mm x else Pte_none)"

text \<open>The page of the own pool, the page of another node (with its control block), and the frame behind an address.\<close>

definition owned :: "('r, 'k) tables \<Rightarrow> mm_struct \<Rightarrow> int \<Rightarrow> int option" where
  "owned T mm x = (let K = hdr (host_of T) in case pte_of T mm x of
     Pte_swap e \<Rightarrow> if swp_type K e = 9 then Some (c_int (swp_offset K e)) else None | _ \<Rightarrow> None)"

definition borrowed :: "('r, 'k) tables \<Rightarrow> mm_struct \<Rightarrow> int \<Rightarrow> (int \<times> int) option" where
  "borrowed T mm x = (let K = hdr (host_of T) in case pte_of T mm x of
     Pte_swap e \<Rightarrow> if swp_type K e = 8 then Some (entry_NodeID K e, entry_pageNO K e) else None | _ \<Rightarrow> None)"

definition resident :: "('r, 'k) tables \<Rightarrow> mm_struct \<Rightarrow> int \<Rightarrow> int option" where
  "resident T mm x = (case pte_of T mm x of
     Pte_present p \<Rightarrow> if pte_special p \<or> highest_memmap_pfn T < pte_pfn p then None else Some (pte_pfn p) | _ \<Rightarrow> None)"

lemma normal_page: "vm_normal_page T vf p = (if pte_special p \<or> highest_memmap_pfn T < pte_pfn p then None else Some (pte_pfn p))"
  by (simp add: vm_normal_page_def)

lemmas named_defs = owned_def borrowed_def resident_def Let_def

text \<open>Ordinary tables, no entry of a swap area or of a page under migration, and only frames of \<open>G\<close>.\<close>

definition comex_at :: "('r, 'k) tables \<Rightarrow> int set \<Rightarrow> mm_struct \<Rightarrow> int \<Rightarrow> bool" where
  "comex_at T G mm x \<longleftrightarrow> plain_at T mm x \<and> (\<forall>e. pte_of T mm x = Pte_swap e \<longrightarrow> comex_entry (hdr (host_of T)) e) \<and>
     (\<forall>pg. resident T mm x = Some pg \<longrightarrow> pg \<in> G)"

definition comex_range :: "('r, 'k) tables \<Rightarrow> int set \<Rightarrow> int \<Rightarrow> int \<Rightarrow> mm_struct \<Rightarrow> bool" where
  "comex_range T G a till mm \<longleftrightarrow> (\<forall>x. a \<le> x \<longrightarrow> x < till \<longrightarrow> comex_at T G mm x)"

text \<open>
  The reverse map, the file systems and the allocation of a batch leave the node and the swap cache alone;
  messages can be sent.
\<close>

definition hands_off :: "('r, 'k) tables \<Rightarrow> bool" where
  "hands_off T \<longleftrightarrow> 0 < MAX_GATHER_BATCH T \<and> (\<exists>rem up. rdma_messages (ext (host_of T)) rem up) \<and>
     (\<forall>pg v. quiet_vm v (page_remove_rmap T pg v) \<and> quiet_vm v (mark_page_accessed T pg v) \<and> quiet_vm v (snd (get_batch T v)) \<and>
        quiet_vm v (snd (u_set_page_dirty_buffers (aops_of T) pg v)) \<and>
        (\<forall>m f. spd_op (aops_of T) m = Some f \<longrightarrow> quiet_vm v (snd (f pg v))))"

definition end_pre :: "('r, 'k) tables \<Rightarrow> int set \<Rightarrow> int \<Rightarrow> int \<Rightarrow> ('r, 'k) unmap \<Rightarrow> bool" where
  "end_pre T G a till u \<longleftrightarrow> comex_range T G a till (u_mm u) \<and>
     back_pre (owned T (u_mm u)) (borrowed T (u_mm u)) a till (nd (mc (u_vm u))) \<and>
     cached_for_comex (hdr (host_of T)) G (sw (mc (u_vm u))) \<and> gathers G (u_tlb u)"

definition removed :: "('r, 'k) tables \<Rightarrow> int set \<Rightarrow> int \<Rightarrow> int \<Rightarrow> ('r, 'k) unmap \<Rightarrow> ('r, 'k) unmap \<Rightarrow> bool" where
  "removed T G a till u t \<longleftrightarrow>
     back_post (ext (host_of T)) (owned T (u_mm u)) (borrowed T (u_mm u)) a till (nd (mc (u_vm u))) (nd (mc (u_vm t))) \<and>
     quiet_sw (sw (mc (u_vm u))) (sw (mc (u_vm t))) \<and> gathers G (u_tlb t) \<and>
     (\<exists>m k. u_mm t = (emptied T a till (u_mm u))\<lparr>mm_anonpages := m, mm_filepages := k\<rparr> \<and>
        m + k = mm_anonpages (u_mm u) + mm_filepages (u_mm u) - named (resident T (u_mm u)) a till)"

lemma pte_of_emptied: "pte_of T (emptied T a c mm) x = (if a \<le> x \<and> x < c then Pte_none else pte_of T mm x)"
  by (simp add: pte_of_def) (simp add: emptied_def)

lemma pte_of_counts [simp]:
  "pte_of T (mm\<lparr>mm_anonpages := m\<rparr>) x = pte_of T mm x" "pte_of T (mm\<lparr>mm_filepages := m\<rparr>) x = pte_of T mm x"
  "plain_at T (mm\<lparr>mm_anonpages := m\<rparr>) x = plain_at T mm x" "plain_at T (mm\<lparr>mm_filepages := m\<rparr>) x = plain_at T mm x"
  "has_table T (mm\<lparr>mm_anonpages := m\<rparr>) x = has_table T mm x" "has_table T (mm\<lparr>mm_filepages := m\<rparr>) x = has_table T mm x"
  by (simp_all add: pte_of_def has_table_def plain_at_def)

lemma removed_entries:
  assumes "removed T G a b u t"
  shows "pte_of T (u_mm t) x = (if a \<le> x \<and> x < b then Pte_none else pte_of T (u_mm u) x)"
    "plain_at T (u_mm t) x = plain_at T (u_mm u) x" "has_table T (u_mm t) x = has_table T (u_mm u) x"
  using assms by (auto simp: removed_def pte_of_emptied)

lemma named_at:
  assumes "pte_of T mm x = pte_of T mm' x"
  shows "owned T mm x = owned T mm' x" "borrowed T mm x = borrowed T mm' x" "resident T mm x = resident T mm' x"
  using assms by (simp_all add: named_defs)

lemma nothing_at:
  assumes "pte_of T mm x = Pte_none"
  shows "owned T mm x = None" "borrowed T mm x = None" "resident T mm x = None"
  using assms by (simp_all add: named_defs)

section \<open>Ranges\<close>

lemma named_cong:
  assumes "\<And>x. a \<le> x \<Longrightarrow> x < c \<Longrightarrow> f x = f' x"
  shows "named f a c = named f' a c"
  using assms by (simp add: named_def)

lemma back_pre_cong:
  assumes "\<And>x. a \<le> x \<Longrightarrow> x < c \<Longrightarrow> f x = f' x \<and> g x = g' x"
  shows "back_pre f g a c s \<longleftrightarrow> back_pre f' g' a c s"
proof -
  have "held_ok f a c s \<longleftrightarrow> held_ok f' a c s" "lent_ok g a c s \<longleftrightarrow> lent_ok g' a c s"
    using assms unfolding held_ok_def lent_ok_def by auto
  then show ?thesis by (simp add: back_pre_def)
qed

lemma back_post_cong:
  assumes "\<And>x. a \<le> x \<Longrightarrow> x < c \<Longrightarrow> f x = f' x \<and> g x = g' x"
  shows "back_post X f g a c s t \<longleftrightarrow> back_post X f' g' a c s t"
proof -
  have "held f a c = held f' a c" "lent g n a c = lent g' n a c" for n using assms by (auto simp: held_def lent_def)
  then show ?thesis by (simp add: back_post_def all_handed_def)
qed

lemma end_pre_part: "end_pre T G a c u \<Longrightarrow> a \<le> b \<Longrightarrow> d \<le> c \<Longrightarrow> end_pre T G b d u"
  unfolding end_pre_def comex_range_def by (auto intro: back_pre_part)

lemma end_pre_rest:
  assumes pre: "end_pre T G a c u" and r: "removed T G a b u t" and "a \<le> b" and "b \<le> c"
  shows "end_pre T G b c t"
proof -
  note e = removed_entries [OF r]
  have n: "owned T (u_mm u) x = owned T (u_mm t) x \<and> borrowed T (u_mm u) x = borrowed T (u_mm t) x" "resident T (u_mm u) x = resident T (u_mm t) x"
    if "b \<le> x" for x using that e(1) [of x] named_at [of T "u_mm u" x "u_mm t"] by auto
  have "back_pre (owned T (u_mm u)) (borrowed T (u_mm u)) b c (nd (mc (u_vm t)))"
    using pre r assms(3,4) back_pre_rest unfolding end_pre_def removed_def by blast
  then have "back_pre (owned T (u_mm t)) (borrowed T (u_mm t)) b c (nd (mc (u_vm t)))"
    using back_pre_cong [of b c "owned T (u_mm u)" "owned T (u_mm t)" "borrowed T (u_mm u)" "borrowed T (u_mm t)"] n(1) by blast
  moreover have "comex_range T G b c (u_mm t)"
    unfolding comex_range_def
  proof (intro allI impI)
    fix x assume x: "b \<le> x" "x < c"
    then have "comex_at T G (u_mm u) x" using pre assms(3) unfolding end_pre_def comex_range_def by auto
    then show "comex_at T G (u_mm t) x" using e(1,2) [of x] n(2) [OF x(1)] x by (auto simp: comex_at_def)
  qed
  ultimately show ?thesis using pre r quiet_cached unfolding end_pre_def removed_def by blast
qed

lemma removed_join:
  assumes pre: "end_pre T G a c u" and ut: "removed T G a b u t" and tv: "removed T G b c t v" and "a \<le> b" and "b \<le> c"
  shows "removed T G a c u v"
proof -
  note e = removed_entries [OF ut]
  have n: "owned T (u_mm t) x = owned T (u_mm u) x \<and> borrowed T (u_mm t) x = borrowed T (u_mm u) x" "resident T (u_mm t) x = resident T (u_mm u) x"
    if "b \<le> x" for x using that e(1) [of x] named_at [of T "u_mm t" x "u_mm u"] by auto
  have "back_post (ext (host_of T)) (owned T (u_mm u)) (borrowed T (u_mm u)) b c (nd (mc (u_vm t))) (nd (mc (u_vm v)))"
    using tv back_post_cong [of b c "owned T (u_mm t)" "owned T (u_mm u)" "borrowed T (u_mm t)" "borrowed T (u_mm u)"] n(1)
    unfolding removed_def by blast
  then have "back_post (ext (host_of T)) (owned T (u_mm u)) (borrowed T (u_mm u)) a c (nd (mc (u_vm u))) (nd (mc (u_vm v)))"
    using pre ut assms(4,5) back_post_join unfolding end_pre_def removed_def by blast
  moreover have "quiet_sw (sw (mc (u_vm u))) (sw (mc (u_vm v)))" using ut tv quiet_sw_trans unfolding removed_def by blast
  moreover obtain m k where mk: "u_mm t = (emptied T a b (u_mm u))\<lparr>mm_anonpages := m, mm_filepages := k\<rparr>"
      "m + k = mm_anonpages (u_mm u) + mm_filepages (u_mm u) - named (resident T (u_mm u)) a b" using ut unfolding removed_def by blast
  moreover obtain m' k' where mk': "u_mm v = (emptied T b c (u_mm t))\<lparr>mm_anonpages := m', mm_filepages := k'\<rparr>"
      "m' + k' = mm_anonpages (u_mm t) + mm_filepages (u_mm t) - named (resident T (u_mm t)) b c" using tv unfolding removed_def by blast
  moreover have "named (resident T (u_mm t)) b c = named (resident T (u_mm u)) b c" by (rule named_cong) (rule n(2))
  moreover have "u_mm v = (emptied T a c (u_mm u))\<lparr>mm_anonpages := m', mm_filepages := k'\<rparr>"
    using assms(4,5) unfolding mk' mk by (intro mm_struct.equality) (auto simp: emptied_def has_table_def fun_eq_iff)
  ultimately show ?thesis using tv named_split [OF assms(4,5), of "resident T (u_mm u)"] unfolding removed_def
    by (intro conjI exI [of _ m'] exI [of _ k']) simp_all
qed

lemma removed_nothing:
  assumes pre: "end_pre T G a c u" and n: "\<And>x. a \<le> x \<Longrightarrow> x < c \<Longrightarrow> pte_of T (u_mm u) x = Pte_none"
  shows "removed T G a c u u"
proof -
  have "(\<lambda>x. if a \<le> x \<and> x < c \<and> has_table T (u_mm u) x then Pte_none else ptes (u_mm u) x) = ptes (u_mm u)"
  proof
    fix x show "(if a \<le> x \<and> x < c \<and> has_table T (u_mm u) x then Pte_none else ptes (u_mm u) x) = ptes (u_mm u) x"
      using n [of x] by (auto simp: pte_of_def)
  qed
  then have "u_mm u = (emptied T a c (u_mm u))\<lparr>mm_anonpages := mm_anonpages (u_mm u), mm_filepages := mm_filepages (u_mm u)\<rparr>"
    by (simp add: emptied_def)
  moreover have "named (resident T (u_mm u)) a c = 0" using nothing_at [OF n] by (simp add: named_def)
  moreover have "back_post (ext (host_of T)) (owned T (u_mm u)) (borrowed T (u_mm u)) a c (nd (mc (u_vm u))) (nd (mc (u_vm u)))"
    using pre nothing_at [OF n] by (intro back_nothing) (auto simp: end_pre_def)
  ultimately show ?thesis using pre unfolding removed_def end_pre_def by (intro conjI exI) auto
qed

section \<open>One entry\<close>

text \<open>The state of a removal in the middle of a table, the counts up to date.\<close>

definition view :: "('r, 'k) zap \<Rightarrow> ('r, 'k) unmap" where
  "view z = \<lparr>u_tlb = z_tlb z, u_mm = add_mm_rss_vec (z_rss z) (z_mm z), u_vm = z_vm z\<rparr>"

lemma view_simps [simp]: "u_tlb (view z) = z_tlb z" "u_vm (view z) = z_vm z" "u_mm (view z) = add_mm_rss_vec (z_rss z) (z_mm z)"
  by (simp_all add: view_def)

lemma rss_entries [simp]: "has_table T (add_mm_rss_vec r mm) x = has_table T mm x" "pte_of T (add_mm_rss_vec r mm) x = pte_of T mm x"
  by (simp_all add: has_table_def pte_of_def add_mm_rss_vec_def)

lemma removed_step:
  assumes "has_table T (z_mm z) a" and "z_mm z' = set_pte_at a Pte_none (z_mm z)" and "r_swapents (z_rss z') = r_swapents (z_rss z)"
    and "r_anonpages (z_rss z') + r_filepages (z_rss z') = r_anonpages (z_rss z) + r_filepages (z_rss z) - (if resident T (z_mm z) a = None then 0 else 1)"
    and "back_post (ext (host_of T)) (owned T (u_mm (view z))) (borrowed T (u_mm (view z))) a (a + 1) (nd (mc (z_vm z))) (nd (mc (z_vm z')))"
    and "quiet_sw (sw (mc (z_vm z))) (sw (mc (z_vm z')))" and "gathers G (z_tlb z')"
  shows "removed T G a (a + 1) (view z) (view z')"
proof -
  let ?m = "mm_anonpages (z_mm z) + r_anonpages (z_rss z')" and ?k = "mm_filepages (z_mm z) + r_filepages (z_rss z')"
  have r: "resident T (add_mm_rss_vec (z_rss z) (z_mm z)) a = resident T (z_mm z) a" by (rule named_at) simp
  have "u_mm (view z') = (emptied T a (a + 1) (u_mm (view z)))\<lparr>mm_anonpages := ?m, mm_filepages := ?k\<rparr>"
    using assms(1-3) by (intro mm_struct.equality) (auto simp: add_mm_rss_vec_def set_pte_at_def emptied_def has_table_def fun_eq_iff)
  moreover have "?m + ?k = mm_anonpages (u_mm (view z)) + mm_filepages (u_mm (view z)) - named (resident T (u_mm (view z))) a (a + 1)"
    using assms(4) by (simp add: named_one r) (simp add: add_mm_rss_vec_def)
  ultimately show ?thesis using assms(5-7) unfolding removed_def by auto
qed

lemma set_page_dirty_quiet: "hands_off T \<Longrightarrow> quiet_vm v (snd (set_page_dirty (hdr (host_of T)) (aops_of T) pg v))"
proof -
  assume c: "hands_off T"
  have 1: "quiet_vm v (ClearPageReclaim pg v)" by (simp add: ClearPageReclaim_def quiet_vm_def)
  have 2: "quiet_vm v (v_frame pg (\<lambda>p. p\<lparr>PageDirty := True\<rparr>) v)" for v :: "('a, 'b) vm"
    by (simp add: v_frame_def quiet_vm_def quiet_sw_def frame_upd_def)
  have 3: "quiet_vm v (snd (u_set_page_dirty_buffers (aops_of T) pg v))" "spd_op (aops_of T) m = Some f \<Longrightarrow> quiet_vm v (snd (f pg v))" for m f v
    using c unfolding hands_off_def by blast+
  show ?thesis
    using quiet_vm_trans [OF 1 2] quiet_vm_trans [OF 1 3(1)] quiet_vm_trans [OF 1 3(2)] 2
    by (auto simp: set_page_dirty_def Let_def split: option.splits)
qed

lemma zap_present_removes:
  assumes c: "hands_off T" and pre: "end_pre T G a till (view z)" and "a < till" and room: "batch_room (z_tlb z)"
    and h: "has_table T (z_mm z) a" and p: "ptes (z_mm z) a = Pte_present p"
  shows "\<exists>ff z'. zap_present T vf None a p z = Some (ff, z') \<and> removed T G a (a + 1) (view z) (view z') \<and>
    (if ff then need_flush (z_tlb z') else batch_room (z_tlb z'))"
proof -
  have at: "pte_of T (z_mm z) a = Pte_present p" using h p by (simp add: pte_of_def)
  have at': "pte_of T (u_mm (view z)) a = Pte_present p" using at by simp
  have pa: "end_pre T G a (a + 1) (view z)" using end_pre_part [OF pre order_refl] assms(3) by simp
  then have g: "gathers G (z_tlb z)" by (simp add: end_pre_def)
  have r: "resident T (z_mm z) a = vm_normal_page T vf p" using at by (simp add: resident_def normal_page)
  have same: "back_post (ext (host_of T)) (owned T (u_mm (view z))) (borrowed T (u_mm (view z))) a (a + 1) (nd (mc (z_vm z))) (nd (mc (z_vm z)))"
  proof (rule back_nothing)
    show "back_pre (owned T (u_mm (view z))) (borrowed T (u_mm (view z))) a (a + 1) (nd (mc (z_vm z)))" using pa by (simp add: end_pre_def)
    show "owned T (u_mm (view z)) x = None \<and> borrowed T (u_mm (view z)) x = None" if "a \<le> x" "x < a + 1" for x
    proof -
      have "x = a" using that by simp
      then show ?thesis using at' by (simp add: owned_def borrowed_def Let_def)
    qed
  qed
  define z1 where "z1 = z\<lparr>z_mm := set_pte_at a Pte_none (z_mm z), z_tlb := (z_tlb z)\<lparr>need_flush := True\<rparr>\<rparr>"
  have t1: "gathers G (z_tlb z1)" "batch_room (z_tlb z1)" "need_flush (z_tlb z1)" using g room by (simp_all add: z1_def gathers_def batch_room_def)
  show ?thesis
  proof (cases "vm_normal_page T vf p")
    case None
    then have "zap_present T vf None a p z = Some (False, z1)" by (simp add: zap_present_def z_set_def z1_def)
    moreover have "removed T G a (a + 1) (view z) (view z1)"
      by (rule removed_step [OF h]) (use same t1 r None in \<open>simp_all add: z1_def\<close>)
    ultimately show ?thesis using t1 by (intro exI [of _ False] exI [of _ z1]) simp
  next
    case (Some pg)
    have "resident T (u_mm (view z)) a = Some pg" using named_at(3) [of T "u_mm (view z)" a "z_mm z"] r Some by simp
    then have pg: "pg \<in> G" using pa by (auto simp: end_pre_def comex_range_def comex_at_def)
    define z2 where "z2 = (if PageAnon (px (z_vm z1) pg) then z1\<lparr>z_rss := add_anon (-1) (z_rss z1)\<rparr>
             else (let v = z_vm z1;
                       v = (if pte_dirty p then snd (set_page_dirty (hdr (host_of T)) (aops_of T) pg v) else v);
                       v = (if pte_young p \<and> \<not> VM_SequentialReadHint vf then mark_page_accessed T pg v else v)
                   in z1\<lparr>z_vm := v, z_rss := add_file (-1) (z_rss z1)\<rparr>))"
    have marked: "quiet_vm v (mark_page_accessed T pg v)" "quiet_vm v (page_remove_rmap T pg v)" "quiet_vm v (snd (get_batch T v))" for v
      using c unfolding hands_off_def by blast+
    have z2: "z_mm z2 = set_pte_at a Pte_none (z_mm z)" "z_tlb z2 = z_tlb z1" "r_swapents (z_rss z2) = r_swapents (z_rss z)"
        "r_anonpages (z_rss z2) + r_filepages (z_rss z2) = r_anonpages (z_rss z) + r_filepages (z_rss z) - 1"
      by (simp_all add: z2_def z1_def Let_def add_anon_def add_file_def)
    have q2: "quiet_vm (z_vm z) (z_vm z2)"
      using set_page_dirty_quiet [OF c, of "z_vm z" pg] marked(1) quiet_vm_trans [OF set_page_dirty_quiet [OF c] marked(1)]
      by (simp add: z2_def z1_def Let_def)
    let ?v = "page_remove_rmap T pg (z_vm z2)"
    have M: "0 < MAX_GATHER_BATCH T" using c by (simp add: hands_off_def)
    obtain room t w where w: "tlb_remove_page T pg (z_tlb z1) ?v = Some (room, t, w)" "need_flush t" "gathers G t" "quiet_vm ?v w" "room \<noteq> 0 \<longrightarrow> batch_room t"
      using tlb_remove_page_ok [OF t1(1,2) pg t1(3) M marked(3)] by blast
    let ?z = "z2\<lparr>z_tlb := t, z_vm := w\<rparr>"
    have "zap_present T vf None a p z = do {
        (room, tlb, v) \<leftarrow> tlb_remove_page T pg (z_tlb z2) ?v;
        Some (room = 0, z2\<lparr>z_tlb := tlb, z_vm := v\<rparr>) }"
      using Some by (simp add: zap_present_def z_set_def Let_def z2_def z1_def)
    then have "zap_present T vf None a p z = Some (room = 0, ?z)" using w(1) z2(2) by simp
    moreover have q: "quiet_vm (z_vm z) w" using quiet_vm_trans [OF quiet_vm_trans [OF q2 marked(2)] w(4)] .
    have "removed T G a (a + 1) (view z) (view ?z)"
      by (rule removed_step [OF h]) (use same z2 w(3) q r Some in \<open>simp_all add: quiet_vm_def\<close>)
    ultimately show ?thesis using w(2,5) by (intro exI [of _ "room = 0"] exI [of _ ?z]) simp
  qed
qed

lemma zap_entry_removes:
  assumes c: "hands_off T" and pre: "end_pre T G a till (view z)" and "a < till" and h: "has_table T (z_mm z) a" and p: "ptes (z_mm z) a = Pte_swap e"
  shows "\<exists>z'. zap_entry T e z = Some z' \<and> z_tlb z' = z_tlb z \<and> removed T G a (a + 1) (view z) (view (z_set a Pte_none z'))"
proof -
  let ?K = "hdr (host_of T)" and ?s = "nd (mc (z_vm z))"
  have at': "pte_of T (z_mm z) a = Pte_swap e" using h p by (simp add: pte_of_def)
  then have at: "pte_of T (u_mm (view z)) a = Pte_swap e" "pte_of T (z_mm z) a = Pte_swap e" by simp_all
  have pa: "end_pre T G a (a + 1) (view z)" using end_pre_part [OF pre order_refl] assms(3) by simp
  have bp: "back_pre (owned T (u_mm (view z))) (borrowed T (u_mm (view z))) a (a + 1) ?s" using pa by (simp add: end_pre_def)
  have ce: "swp_type ?K e = 8 \<or> swp_type ?K e = 9" using pa at(1) by (auto simp: end_pre_def comex_range_def comex_at_def comex_entry_def)
  obtain t where t: "zap_entry T e z = Some (z\<lparr>z_vm := (z_vm z)\<lparr>mc := (mc (z_vm z))\<lparr>nd := t\<rparr>\<rparr>\<rparr>)"
    "back_post (ext (host_of T)) (owned T (u_mm (view z))) (borrowed T (u_mm (view z))) a (a + 1) ?s t"
    using ce
  proof
    assume k: "swp_type ?K e = 8"
    obtain rem up where X: "rdma_messages (ext (host_of T)) rem up" using c by (auto simp: hands_off_def)
    obtain t where "COMEX_free_to_remote (ext (host_of T)) (entry_NodeID ?K e) (entry_pageNO ?K e) ?s = Some t"
      "back_post (ext (host_of T)) (owned T (u_mm (view z))) (borrowed T (u_mm (view z))) a (a + 1) ?s t"
      using back_lent [OF X bp] at(1) k by (auto simp: owned_def borrowed_def Let_def)
    then show thesis using k by (intro that [of t]) (simp_all add: zap_entry_def on_nd_def nd_do_def)
  next
    assume k: "swp_type ?K e = 9"
    obtain t where "node_free (c_int (swp_offset ?K e)) 0 ?s = Some t"
      "back_post (ext (host_of T)) (owned T (u_mm (view z))) (borrowed T (u_mm (view z))) a (a + 1) ?s t"
      using back_own [OF bp] at(1) k by (auto simp: owned_def borrowed_def Let_def)
    then show thesis using k by (intro that [of t]) (simp_all add: zap_entry_def on_nd_def nd_do_def)
  qed
  let ?z = "z\<lparr>z_vm := (z_vm z)\<lparr>mc := (mc (z_vm z))\<lparr>nd := t\<rparr>\<rparr>\<rparr>"
  have "resident T (z_mm z) a = None" using at(2) by (simp add: resident_def)
  then have "removed T G a (a + 1) (view z) (view (z_set a Pte_none ?z))"
    by (intro removed_step [OF h]) (use t(2) pa in \<open>simp_all add: z_set_def end_pre_def\<close>)
  then show ?thesis using t(1) by (intro exI [of _ ?z]) simp
qed

lemma zap_one_removes:
  assumes c: "hands_off T" and pre: "end_pre T G a till (view z)" and "a < till" and room: "batch_room (z_tlb z)" and h: "has_table T (z_mm z) a"
  shows "\<exists>ff z'. zap_one T vf None a z = Some (ff, z') \<and> removed T G a (a + 1) (view z) (view z') \<and>
    (if ff then need_flush (z_tlb z') else batch_room (z_tlb z'))"
proof -
  have pa: "end_pre T G a (a + 1) (view z)" using end_pre_part [OF pre order_refl] assms(3) by simp
  have empty: "removed T G a (a + 1) (view z) (view (z_set a Pte_none z))" if "ptes (z_mm z) a = Pte_none \<or> ptes (z_mm z) a = Pte_file"
  proof (rule removed_step [OF h])
    have at: "pte_of T (z_mm z) a \<in> {Pte_none, Pte_file}" using that h by (auto simp: pte_of_def)
    then have n: "owned T (u_mm (view z)) a = None" "borrowed T (u_mm (view z)) a = None" "resident T (z_mm z) a = None" by (auto simp: named_defs)
    show "back_post (ext (host_of T)) (owned T (u_mm (view z))) (borrowed T (u_mm (view z))) a (a + 1) (nd (mc (z_vm z)))
        (nd (mc (z_vm (z_set a Pte_none z))))"
      using pa n by (simp add: z_set_def end_pre_def) (rule back_nothing, auto dest!: antisym)
    show "r_anonpages (z_rss (z_set a Pte_none z)) + r_filepages (z_rss (z_set a Pte_none z)) =
        r_anonpages (z_rss z) + r_filepages (z_rss z) - (if resident T (z_mm z) a = None then 0 else 1)" using n by (simp add: z_set_def)
  qed (use pa in \<open>simp_all add: z_set_def end_pre_def\<close>)
  show ?thesis
  proof (cases "ptes (z_mm z) a")
    case Pte_none
    then have "z_set a Pte_none z = z" by (simp add: z_set_def set_pte_at_def fun_upd_idem)
    then show ?thesis using Pte_none empty room by (intro exI [of _ False] exI [of _ z]) (simp add: zap_one_def)
  next
    case Pte_file
    then show ?thesis using empty room by (intro exI [of _ False] exI [of _ "z_set a Pte_none z"]) (simp add: zap_one_def z_set_def)
  next
    case (Pte_present p)
    then show ?thesis using zap_present_removes [OF c pre assms(3) room h Pte_present, of vf] by (simp add: zap_one_def)
  next
    case (Pte_swap e)
    obtain z' where "zap_entry T e z = Some z'" "z_tlb z' = z_tlb z" "removed T G a (a + 1) (view z) (view (z_set a Pte_none z'))"
      using zap_entry_removes [OF c pre assms(3) h Pte_swap] by blast
    then show ?thesis using Pte_swap room by (intro exI [of _ False] exI [of _ "z_set a Pte_none z'"]) (simp add: zap_one_def z_set_def)
  qed
qed

section \<open>A table\<close>

lemma zap_loop_removes:
  assumes "hands_off T" and "end_pre T G a till (view z)" and "a < till" and "batch_room (z_tlb z)"
    and "\<And>x. a \<le> x \<Longrightarrow> x < till \<Longrightarrow> has_table T (z_mm z) x"
  shows "\<exists>ff b z'. zap_loop T vf None a till z = Some (ff, b, z') \<and>
    (if ff then a \<le> b \<and> b < till \<and> removed T G a (b + 1) (view z) (view z') \<and> need_flush (z_tlb z') \<and> (b = a \<longrightarrow> ptes (z_mm z) a \<noteq> Pte_none)
     else b = till \<and> removed T G a till (view z) (view z') \<and> batch_room (z_tlb z'))"
  using assms(2-)
proof (induction "nat (till - a)" arbitrary: a z rule: less_induct)
  case less
  have h: "has_table T (z_mm z) a" using less.prems(2,4) by simp
  obtain ff y where y: "zap_one T vf None a z = Some (ff, y)" "removed T G a (a + 1) (view z) (view y)"
    "if ff then need_flush (z_tlb y) else batch_room (z_tlb y)"
    using zap_one_removes [OF assms(1) less.prems(1-3) h] by blast
  consider (flush) "ff" | (last_one) "\<not> ff" "a + 1 = till" | (more) "\<not> ff" "a + 1 \<noteq> till" by blast
  then show ?case
  proof cases
    case flush
    have "ptes (z_mm z) a \<noteq> Pte_none" using y(1) flush by (auto simp: zap_one_def)
    moreover have "zap_loop T vf None a till z = Some (True, a, y)" using y(1) flush by (subst zap_loop.simps) simp
    ultimately show ?thesis using y(2,3) flush less.prems(2) by (intro exI [of _ True] exI [of _ a] exI [of _ y]) simp
  next
    case last_one
    then have "zap_loop T vf None a till z = Some (False, till, y)" using y(1) by (subst zap_loop.simps) simp
    then show ?thesis using y(2,3) last_one by (intro exI [of _ False] exI [of _ till] exI [of _ y]) simp
  next
    case more
    have a1: "a + 1 < till" "a \<le> a + 1" "a + 1 \<le> till" using less.prems(2) more(2) by auto
    have pre: "end_pre T G (a + 1) till (view y)" by (rule end_pre_rest [OF less.prems(1) y(2) a1(2,3)])
    have tables: "has_table T (z_mm y) x" if "a + 1 \<le> x" "x < till" for x
      using removed_entries(3) [OF y(2), of x] less.prems(4) [of x] that by simp
    have lt: "nat (till - (a + 1)) < nat (till - a)" using a1(1) by simp
    have yr: "batch_room (z_tlb y)" using y(3) more(1) by simp
    have "\<exists>gg b z'. zap_loop T vf None (a + 1) till y = Some (gg, b, z') \<and>
      (if gg then a + 1 \<le> b \<and> b < till \<and> removed T G (a + 1) (b + 1) (view y) (view z') \<and> need_flush (z_tlb z') \<and>
         (b = a + 1 \<longrightarrow> ptes (z_mm y) (a + 1) \<noteq> Pte_none)
       else b = till \<and> removed T G (a + 1) till (view y) (view z') \<and> batch_room (z_tlb z'))"
      by (rule less.hyps [OF lt pre a1(1) yr]) (rule tables)
    then obtain gg b z' where z': "zap_loop T vf None (a + 1) till y = Some (gg, b, z')"
      "if gg then a + 1 \<le> b \<and> b < till \<and> removed T G (a + 1) (b + 1) (view y) (view z') \<and> need_flush (z_tlb z') \<and>
         (b = a + 1 \<longrightarrow> ptes (z_mm y) (a + 1) \<noteq> Pte_none)
       else b = till \<and> removed T G (a + 1) till (view y) (view z') \<and> batch_room (z_tlb z')"
      by (elim exE conjE) (rule that)
    have eq: "zap_loop T vf None a till z = Some (gg, b, z')" using y(1) z'(1) more by (subst zap_loop.simps) simp
    have j: "removed T G a d (view z) (view z')" if "removed T G (a + 1) d (view y) (view z')" "a + 1 \<le> d" "d \<le> till" for d
      by (rule removed_join [OF end_pre_part [OF less.prems(1) order_refl that(3)] y(2) that(1) a1(2) that(2)])
    show ?thesis
    proof (cases gg)
      case True
      note z = z'(2) [unfolded if_P [OF True]]
      have b: "a \<le> b" "b < till" "b \<noteq> a" "a + 1 \<le> b + 1" "b + 1 \<le> till" using z by auto
      have "removed T G a (b + 1) (view z) (view z')" using j z b(4,5) by blast
      then show ?thesis using eq True z b(1-3) by (intro exI [of _ True] exI [of _ b] exI [of _ z']) simp
    next
      case False
      note z = z'(2) [unfolded if_not_P [OF False]]
      have "removed T G a till (view z) (view z')" using j z a1(3) by blast
      then show ?thesis using eq False z by (intro exI [of _ False] exI [of _ till] exI [of _ z']) simp
    qed
  qed
qed

text \<open>After a flush the loop begins again at an address that is empty by now.\<close>

lemma end_pre_empty:
  assumes "end_pre T G (b + 1) c u" and "plain_at T (u_mm u) b" and "pte_of T (u_mm u) b = Pte_none"
  shows "end_pre T G b c u"
proof -
  have n: "owned T (u_mm u) b = None" "borrowed T (u_mm u) b = None" "resident T (u_mm u) b = None" using nothing_at [OF assms(3)] .
  have "back_pre (owned T (u_mm u)) (borrowed T (u_mm u)) b c (nd (mc (u_vm u)))"
    by (rule back_pre_none) (use assms(1) n(1,2) in \<open>simp_all add: end_pre_def\<close>)
  moreover have "comex_range T G b c (u_mm u)"
    unfolding comex_range_def
  proof (intro allI impI)
    fix x assume x: "b \<le> x" "x < c"
    show "comex_at T G (u_mm u) x"
    proof (cases "x = b")
      case True
      then show ?thesis using assms(2,3) n(3) by (simp add: comex_at_def)
    next
      case False
      then show ?thesis using assms(1) x by (simp add: end_pre_def comex_range_def)
    qed
  qed
  ultimately show ?thesis using assms(1) by (simp add: end_pre_def)
qed

lemma removed_empty:
  assumes r: "removed T G b c u t" and "b < c" and e: "pte_of T (u_mm u) b = Pte_none"
  shows "removed T G (b + 1) c u t"
proof -
  have n: "owned T (u_mm u) b = None" "borrowed T (u_mm u) b = None" "resident T (u_mm u) b = None" using nothing_at [OF e] .
  have b: "b \<le> b + 1" "b + 1 \<le> c" using assms(2) by auto
  have "held (owned T (u_mm u)) b c = held (owned T (u_mm u)) (b + 1) c" using held_step [OF assms(2)] n(1) by simp
  moreover have "lent (borrowed T (u_mm u)) k b c = lent (borrowed T (u_mm u)) k (b + 1) c" for k
    using lent_split [OF b, of "borrowed T (u_mm u)" k] n(2) by (simp add: lent_one)
  moreover have "named (resident T (u_mm u)) b c = named (resident T (u_mm u)) (b + 1) c"
    using named_split [OF b, of "resident T (u_mm u)"] n(3) by (simp add: named_one)
  moreover have "emptied T b c (u_mm u) = emptied T (b + 1) c (u_mm u)"
  proof -
    have "(if b \<le> x \<and> x < c \<and> has_table T (u_mm u) x then Pte_none else ptes (u_mm u) x) =
        (if b + 1 \<le> x \<and> x < c \<and> has_table T (u_mm u) x then Pte_none else ptes (u_mm u) x)" for x
      using e by (cases "x = b") (auto simp: pte_of_def)
    then show ?thesis by (simp add: emptied_def)
  qed
  ultimately show ?thesis using r by (simp add: removed_def back_post_def all_handed_def)
qed

lemma zap_range_removes:
  assumes c: "hands_off T" and "end_pre T G a till u" and "batch_room (u_tlb u)" and "a < till"
    and "\<And>x. a \<le> x \<Longrightarrow> x < till \<Longrightarrow> has_table T (u_mm u) x"
  shows "\<exists>t. zap_pte_range T vf None a till (u_tlb u) (u_mm u) (u_vm u) = Some (till, u_tlb t, u_mm t, u_vm t) \<and>
    removed T G a till u t \<and> batch_room (u_tlb t)"
  using assms(2-)
proof (induction "2 * nat (till - a) + (if ptes (u_mm u) a = Pte_none then 0 else 1)" arbitrary: a u rule: less_induct)
  case less
  let ?z = "\<lparr>z_mm = u_mm u, z_rss = init_rss_vec, z_tlb = u_tlb u, z_vm = u_vm u\<rparr>"
  have v: "view ?z = u" by (simp add: view_def)
  obtain ff b z where z: "zap_loop T vf None a till ?z = Some (ff, b, z)"
    "if ff then a \<le> b \<and> b < till \<and> removed T G a (b + 1) u (view z) \<and> need_flush (z_tlb z) \<and> (b = a \<longrightarrow> ptes (z_mm ?z) a \<noteq> Pte_none)
     else b = till \<and> removed T G a till u (view z) \<and> batch_room (z_tlb z)"
    using zap_loop_removes [OF c, of G a till ?z vf] less.prems unfolding v by (simp only: zap.simps) blast
  show ?case
  proof (cases ff)
    case False
    then have "zap_pte_range T vf None a till (u_tlb u) (u_mm u) (u_vm u) = Some (till, u_tlb (view z), u_mm (view z), u_vm (view z))"
      using z by (subst zap_pte_range.simps) simp
    then show ?thesis using z(2) False by (intro exI [of _ "view z"]) simp
  next
    case True
    have b: "a \<le> b" "b < till" "a \<le> b + 1" "b + 1 \<le> till" and r: "removed T G a (b + 1) u (view z)" and f: "need_flush (z_tlb z)"
      and m: "b = a \<Longrightarrow> ptes (u_mm u) a \<noteq> Pte_none" using z(2) True by auto
    have ca: "cached_for_comex (hdr (host_of T)) G (sw (mc (z_vm z)))"
      using end_pre_rest [OF less.prems(1) r b(3,4)] by (simp add: end_pre_def)
    have "gathers G (z_tlb z)" using r by (simp add: removed_def)
    from tlb_flush_quiet [OF ca this f] obtain tlb w where w: "tlb_flush_mmu T (z_tlb z) (z_vm z) = Some (tlb, w)" "gathers G tlb" "batch_room tlb"
        "quiet_vm (z_vm z) w" by blast
    define y where "y = \<lparr>u_tlb = tlb, u_mm = u_mm (view z), u_vm = w\<rparr>"
    have ry: "removed T G a (b + 1) u y"
      using r w(2,4) quiet_sw_trans unfolding removed_def y_def quiet_vm_def by auto
    note e = removed_entries [OF ry]
    have eb: "pte_of T (u_mm y) b = Pte_none" using e(1) b by simp
    have "plain_at T (u_mm y) b" using less.prems(1) b e(2) by (simp add: end_pre_def comex_range_def comex_at_def)
    then have pre: "end_pre T G b till y" by (rule end_pre_empty [OF end_pre_rest [OF less.prems(1) ry b(3,4)] _ eb])
    have tables: "has_table T (u_mm y) x" if "b \<le> x" "x < till" for x using less.prems(4) e(3) that b by simp
    have "ptes (u_mm y) b = Pte_none" using eb tables [OF order_refl b(2)] by (simp add: pte_of_def)
    then have less_left: "2 * nat (till - b) + (if ptes (u_mm y) b = Pte_none then 0 else 1) <
        2 * nat (till - a) + (if ptes (u_mm u) a = Pte_none then 0 else 1)"
      using m b by (cases "b = a") auto
    obtain t where t: "zap_pte_range T vf None b till (u_tlb y) (u_mm y) (u_vm y) = Some (till, u_tlb t, u_mm t, u_vm t)"
        "removed T G b till y t" "batch_room (u_tlb t)"
      using less.hyps [OF less_left pre _ b(2) tables] w(3) by (auto simp: y_def)
    have "removed T G a till u t"
      by (rule removed_join [OF less.prems(1) ry removed_empty [OF t(2) b(2) eb] b(3,4)])
    moreover have "zap_pte_range T vf None a till (u_tlb u) (u_mm u) (u_vm u) = Some (till, u_tlb t, u_mm t, u_vm t)"
      using z(1) True w(1) t(1) b(2) by (subst zap_pte_range.simps) (simp add: y_def)
    ultimately show ?thesis using t(3) by blast
  qed
qed

section \<open>The whole\<close>

interpretation ending: removing "\<lambda>a c u. hands_off T \<and> end_pre T G a c u \<and> batch_room (u_tlb u)" "\<lambda>a c u t. removed T G a c u t \<and> batch_room (u_tlb t)"
  T "\<lambda>x u. pte_of T (u_mm u) x \<noteq> Pte_none" for T :: "('r, 'k) tables" and G
proof unfold_locales
  fix a c u vf assume "a < c" "hands_off T \<and> end_pre T G a c u \<and> batch_room (u_tlb u)" "\<And>x. a \<le> x \<Longrightarrow> x < c \<Longrightarrow> has_table T (u_mm u) x"
  then show "\<exists>t. zap_pte_range T vf None a c (u_tlb u) (u_mm u) (u_vm u) = Some (c, u_tlb t, u_mm t, u_vm t) \<and>
      (removed T G a c u t \<and> batch_room (u_tlb t))"
    using zap_range_removes by blast
next
  fix a c u x assume "hands_off T \<and> end_pre T G a c u \<and> batch_room (u_tlb u)" "a \<le> x" "x < c"
  then show "plain_at T (u_mm u) x" by (simp add: end_pre_def comex_range_def comex_at_def)
next
  fix a c u x assume "\<not> has_table T (u_mm u) x"
  then show "\<not> pte_of T (u_mm u) x \<noteq> Pte_none" by (simp add: pte_of_def)
next
  fix a b u t x assume "removed T G a b u t \<and> batch_room (u_tlb t)" "b \<le> x"
  then show "pte_of T (u_mm t) x \<noteq> Pte_none \<longleftrightarrow> pte_of T (u_mm u) x \<noteq> Pte_none" using removed_entries(1) [of T G a b u t x] by auto
qed (auto intro: end_pre_part end_pre_rest removed_join removed_nothing)

text \<open>
  C6: the end of a task gives back what it holds of COMEX, each page exactly once, whatever tables lie above
  the entries: the walk down the levels leaves out no table and visits none twice, also where the gather is
  full and the loop begins again.  Every page of the own pool that an address names is free afterwards; every page of
  another node that one names is in exactly one message to that node or in the record that waits for the next
  one.  All entries are gone, the frames are no longer counted (the swap entries still are), and nothing else of the
  node has changed.  The task may have frames, also such as were read in and are in the swap cache under their
  entry of COMEX, entries of both types of COMEX and of nonlinear mappings, and holes; it must have no
  entry of an ordinary swap area or of a page under migration, no huge page and no frame that is in the cache
  for an ordinary area, no two addresses may name the same page of COMEX (as they do after a fork), and no
  area is one of \<open>hugetlbfs\<close>.
\<close>

theorem exit_frees_address_space:
  assumes "hands_off T" and "areas_from 0 ws (2 ^ 52)" and "end_pre T G 0 (2 ^ 52) u" and "batch_room (u_tlb u)"
    and "\<And>x. 0 \<le> x \<Longrightarrow> x < 2 ^ 52 \<Longrightarrow> \<not> in_areas ws x \<Longrightarrow> pte_of T (u_mm u) x = Pte_none"
    and s: "s = nd (mc (u_vm u))"
  shows "\<exists>t m k ms r. unmap_vmas T L ws 0 (- 1) u = Some t \<and> r = nd (mc (u_vm t)) \<and>
    u_mm t = (emptied T 0 (2 ^ 52) (u_mm u))\<lparr>mm_anonpages := m, mm_filepages := k\<rparr> \<and>
    m + k = mm_anonpages (u_mm u) + mm_filepages (u_mm u) - named (resident T (u_mm u)) 0 (2 ^ 52) \<and>
    pool_ok r \<and> pool_total r = pool_total s \<and>
    pool_free r = pool_free s \<union> {p. \<exists>x. 0 \<le> x \<and> x < 2 ^ 52 \<and> owned T (u_mm u) x = Some p} \<and>
    mailed (ext (host_of T)) ms s r \<and>
    (\<forall>n. 0 \<le> n \<longrightarrow> n < int (length (COMEX_free_struct s)) \<longrightarrow> disjoint_list (handed n ms @ [runs (fs_at n r)]) \<and>
       \<Union>(set (handed n ms)) \<union> runs (fs_at n r) =
         runs (fs_at n s) \<union> {p. \<exists>x. 0 \<le> x \<and> x < 2 ^ 52 \<and> borrowed T (u_mm u) x = Some (n, p)}) \<and>
    same_rest s r"
proof -
  have pre: "hands_off T \<and> end_pre T G 0 (2 ^ 52) u \<and> batch_room (u_tlb u)" using assms(1,3,4) by simp
  have out: "\<not> pte_of T (u_mm u) x \<noteq> Pte_none" if "0 \<le> x" "x < 2 ^ 52" "\<not> in_areas ws x" for x using assms(5) [OF that] by simp
  obtain t where t: "unmap_areas T L ws 0 (- 1) None u = Some t" "removed T G 0 (2 ^ 52) u t"
    using ending.unmap_areas_removes [OF assms(2) pre out] by blast
  obtain m k where mk: "u_mm t = (emptied T 0 (2 ^ 52) (u_mm u))\<lparr>mm_anonpages := m, mm_filepages := k\<rparr>"
    "m + k = mm_anonpages (u_mm u) + mm_filepages (u_mm u) - named (resident T (u_mm u)) 0 (2 ^ 52)"
    using t(2) unfolding removed_def by blast
  have b: "back_post (ext (host_of T)) (owned T (u_mm u)) (borrowed T (u_mm u)) 0 (2 ^ 52) s (nd (mc (u_vm t)))"
    using t(2) unfolding removed_def s by blast
  obtain ms where ms: "mailed (ext (host_of T)) ms s (nd (mc (u_vm t)))" "all_handed (borrowed T (u_mm u)) 0 (2 ^ 52) ms s (nd (mc (u_vm t)))"
    using b unfolding back_post_def by blast
  have "held (owned T (u_mm u)) 0 (2 ^ 52) = {p. \<exists>x. 0 \<le> x \<and> x < 2 ^ 52 \<and> owned T (u_mm u) x = Some p}"
    "lent (borrowed T (u_mm u)) n 0 (2 ^ 52) = {p. \<exists>x. 0 \<le> x \<and> x < 2 ^ 52 \<and> borrowed T (u_mm u) x = Some (n, p)}" for n
    by (auto simp: held_def lent_def)
  note sets = this
  show ?thesis
    unfolding sets [symmetric]
    by (rule exI [of _ t], rule exI [of _ m], rule exI [of _ k], rule exI [of _ ms], rule exI [of _ "nd (mc (u_vm t))"])
      (use t(1) mk ms b in \<open>simp add: unmap_vmas_def back_post_def all_handed_def\<close>)
qed

section \<open>Witness\<close>

text \<open>
  Two pages of the own pool, one of another node, and a frame that was read in from the own pool and still is in the swap
  cache; the node has an ordinary swap area too.
\<close>

definition mixed_pte :: "int \<Rightarrow> pte" where
  "mixed_pte x = (if x = 10 then Pte_swap (swp_entry std_h 9 (word_of_int 3)) else if x = 12 then Pte_swap (swp_entry std_h 9 (word_of_int 7))
     else if x = 600 then Pte_swap (swp_entry std_h 8 (word_of_int 0 + push_bit 10 (word_of_int 5)))
     else if x = 601 then Pte_present \<lparr>pte_pfn = 40, pte_special = False, pte_write = True, pte_dirty = True, pte_young = True\<rparr> else Pte_none)"

definition mixed_mm :: mm_struct where
  "mixed_mm = three_mm\<lparr>ptes := mixed_pte, mm_anonpages := 1\<rparr>"

definition mixed_swaps :: "unit swaps" where
  "mixed_swaps = frame_upd 40 (\<lambda>p. p\<lparr>PageSwapCache := True, page_private := swp_entry std_h 9 (word_of_int 4)\<rparr>) empty_swaps"

lemma mixed_pte_of: "pte_of ideal_tables mixed_mm x = mixed_pte x"
proof -
  have "has_table ideal_tables mixed_mm x" if "mixed_pte x \<noteq> Pte_none"
    using that by (auto simp: mixed_pte_def has_table_def mixed_mm_def three_mm_def pmd_pages_def ideal_tables_def PAGE_SHIFT_def split: if_splits)
  then show ?thesis by (cases "mixed_pte x = Pte_none") (simp_all add: pte_of_def, simp_all add: mixed_mm_def)
qed

lemma mixed_named:
  "owned ideal_tables mixed_mm x = (if x = 10 then Some 3 else if x = 12 then Some 7 else None)"
  "borrowed ideal_tables mixed_mm x = (if x = 600 then Some (0, 5) else None)"
  "resident ideal_tables mixed_mm x = (if x = 601 then Some 40 else None)"
proof -
  have h: "hdr (host_of ideal_tables) = std_h" "highest_memmap_pfn ideal_tables = 4095" by (simp_all add: ideal_tables_def)
  have e: "swp_type std_h (swp_entry std_h 8 (word_of_int 0 + push_bit 10 (word_of_int 5))) = 8 \<and>
      entry_NodeID std_h (swp_entry std_h 8 (word_of_int 0 + push_bit 10 (word_of_int 5))) = 0 \<and>
      entry_pageNO std_h (swp_entry std_h 8 (word_of_int 0 + push_bit 10 (word_of_int 5))) = 5"
    using entry_8 [OF std_h_linux, of 0 5] by simp
  show "owned ideal_tables mixed_mm x = (if x = 10 then Some 3 else if x = 12 then Some 7 else None)"
    "borrowed ideal_tables mixed_mm x = (if x = 600 then Some (0, 5) else None)"
    "resident ideal_tables mixed_mm x = (if x = 601 then Some 40 else None)"
    unfolding named_defs mixed_pte_of h using e entry_9 [OF std_h_linux, of 3] entry_9 [OF std_h_linux, of 7]
    by (simp_all add: mixed_pte_def del: push_bit_of_int)
qed

theorem exit_frees_address_space_witness:
  "\<exists>u t ms. pool_free (nd (mc (u_vm u))) = {900} \<and> u_mm u = mixed_mm \<and>
     unmap_vmas ideal_tables ideal_levels [area_at 0xA000 0xE000, area_at 0x200000 0x300000] 0 (- 1) u = Some t \<and>
     pool_free (nd (mc (u_vm t))) = {900, 3, 7} \<and> mailed ideal_ext ms (nd (mc (u_vm u))) (nd (mc (u_vm t))) \<and>
     \<Union>(set (handed 0 ms)) \<union> runs (fs_at 0 (nd (mc (u_vm t)))) = {5} \<and>
     mm_anonpages (u_mm t) + mm_filepages (u_mm t) = 0 \<and> ptes (u_mm t) 12 = Pte_none \<and> ptes (u_mm t) 601 = Pte_none"
proof -
  let ?ws = "[area_at 0xA000 0xE000, area_at 0x200000 0x300000]" and ?T = ideal_tables and ?G = "{40 :: int}"
  obtain b where b: "own_ok id ((ideal_node (\<lambda>_ _. 0))\<lparr>pool := b\<rparr>)" "pool_free ((ideal_node (\<lambda>_ _. 0))\<lparr>pool := b\<rparr>) = {900}"
    using ideal_own_exists .
  define s where "s = (ideal_node (\<lambda>_ _. 0))\<lparr>pool := b\<rparr>"
  define u :: "(int \<Rightarrow> mem, unit) unmap" where "u = \<lparr>u_tlb = tlb_gather_mmu ?T, u_mm = mixed_mm, u_vm = \<lparr>mc = \<lparr>nd = s, sw = mixed_swaps\<rparr>, px = anon_px\<rparr>\<rparr>"
  have "send_ok ideal_cb" by (simp add: ideal_cb_def send_ok_def)
  then have L: "lenders_ok s" using blank_ok by (simp add: lenders_ok_def s_def ideal_node_def plain_node_def less_Suc_eq nth_Cons blank_def split: nat.splits)
  have fs: "COMEX_free_struct s = [blank, blank]" by (simp add: s_def ideal_node_def plain_node_def blank_def numeral_2_eq_2)
  have ho: "hands_off ?T"
    using ideal_messages by (auto simp: hands_off_def ideal_tables_def ideal_aops_def)
  have t: "pool_total s = 1024" "pool_ok s" using b(1) by (simp_all add: s_def own_ok_def plain_conf_def)
  have "back_pre (owned ?T mixed_mm) (borrowed ?T mixed_mm) 0 (2 ^ 52) s"
    using t b(2) L blank_ok(2) by (auto simp: back_pre_def held_ok_def lent_ok_def mixed_named fs s_def [symmetric] split: if_splits)
  moreover have "comex_range ?T ?G 0 (2 ^ 52) mixed_mm"
    unfolding comex_range_def
  proof (intro allI impI)
    fix x :: int assume x: "0 \<le> x" "x < 2 ^ 52"
    have "plain_at ?T mixed_mm x = plain_at ?T three_mm x" by (simp add: plain_at_def mixed_mm_def)
    then have "plain_at ?T mixed_mm x" using three_tree x by (simp add: own_tree_def)
    moreover have "comex_entry std_h e" if "mixed_pte x = Pte_swap e" for e
      using that entry_9(1) [OF std_h_linux, of 3] entry_9(1) [OF std_h_linux, of 7] entry_8 [OF std_h_linux, of 0 5]
      by (auto simp: mixed_pte_def comex_entry_def split: if_splits)
    moreover have "hdr (host_of ?T) = std_h" by (simp add: ideal_tables_def)
    ultimately show "comex_at ?T ?G mixed_mm x" unfolding comex_at_def mixed_pte_of by (auto simp: mixed_named split: if_splits)
  qed
  moreover have "cached_for_comex (hdr (host_of ?T)) ?G mixed_swaps"
    using entry_9(1) [OF std_h_linux, of 4]
    by (simp add: cached_for_comex_def mixed_swaps_def frame_upd_def empty_swaps_def small_swaps_def comex_entry_def ideal_tables_def)
  moreover have g: "gathers ?G (tlb_gather_mmu ?T)" "batch_room (tlb_gather_mmu ?T)" using gather_mmu_ok [of ?T ?G] by (simp_all add: ideal_tables_def)
  ultimately have pre: "end_pre ?T ?G 0 (2 ^ 52) u" by (simp add: end_pre_def u_def)
  have ws: "areas_from 0 ?ws (2 ^ 52)"
    by (simp add: area_ok_def area_at_def PAGE_SHIFT_def first_page_def past_page_def)
  have out: "pte_of ?T (u_mm u) x = Pte_none" if "0 \<le> x" "x < 2 ^ 52" "\<not> in_areas ?ws x" for x
    using that by (auto simp: u_def mixed_pte_of mixed_pte_def in_areas_def area_at_def first_page_def past_page_def PAGE_SHIFT_def)
  have r: "batch_room (u_tlb u)" using g by (simp add: u_def)
  have s': "s = nd (mc (u_vm u))" by (simp add: u_def)
  obtain t m k ms r where e: "unmap_vmas ?T ideal_levels ?ws 0 (- 1) u = Some t" "r = nd (mc (u_vm t))"
    "u_mm t = (emptied ?T 0 (2 ^ 52) (u_mm u))\<lparr>mm_anonpages := m, mm_filepages := k\<rparr>"
    "m + k = mm_anonpages (u_mm u) + mm_filepages (u_mm u) - named (resident ?T (u_mm u)) 0 (2 ^ 52)"
    "pool_free r = pool_free s \<union> {p. \<exists>x. 0 \<le> x \<and> x < 2 ^ 52 \<and> owned ?T (u_mm u) x = Some p}" "mailed (ext (host_of ?T)) ms s r"
    "\<forall>n. 0 \<le> n \<longrightarrow> n < int (length (COMEX_free_struct s)) \<longrightarrow> disjoint_list (handed n ms @ [runs (fs_at n r)]) \<and>
       \<Union>(set (handed n ms)) \<union> runs (fs_at n r) =
         runs (fs_at n s) \<union> {p. \<exists>x. 0 \<le> x \<and> x < 2 ^ 52 \<and> borrowed ?T (u_mm u) x = Some (n, p)}"
    by (rule exE [OF exit_frees_address_space [OF ho ws pre r _ s', of ideal_levels]], rule out, assumption, assumption, assumption,
      elim exE conjE, rule that, assumption+)
  have m: "u_mm u = mixed_mm" by (simp add: u_def)
  have "owned ?T (u_mm u) x = Some p \<longleftrightarrow> x = 10 \<and> p = 3 \<or> x = 12 \<and> p = 7" for x p by (auto simp: m mixed_named)
  then have "{p. \<exists>x. 0 \<le> x \<and> x < 2 ^ 52 \<and> owned ?T (u_mm u) x = Some p} = {3, 7}" by auto
  moreover have "{p. \<exists>x. 0 \<le> x \<and> x < 2 ^ 52 \<and> borrowed ?T (u_mm u) x = Some (0, p)} = {5}" by (auto simp: m mixed_named split: if_splits)
  ultimately have "pool_free r = {900, 3, 7}" "\<Union>(set (handed 0 ms)) \<union> runs (fs_at 0 r) = {5}"
    using e(5) e(7) [rule_format, of 0] b(2) blank_ok(2) by (auto simp: fs s_def [symmetric])
  moreover have "named (resident ?T (u_mm u)) 0 (2 ^ 52) = 1"
  proof -
    have z: "named (resident ?T mixed_mm) a c = 0" if "c \<le> 601 \<or> 602 \<le> a" for a c
      unfolding named_def using that by (intro sum.neutral) (auto simp: mixed_named)
    have "named (resident ?T mixed_mm) 0 (2 ^ 52) = named (resident ?T mixed_mm) 0 601 + (named (resident ?T mixed_mm) 601 (601 + 1) + named (resident ?T mixed_mm) 602 (2 ^ 52))"
      using named_split [of 0 601 "2 ^ 52"] named_split [of 601 602 "2 ^ 52"] by simp
    then show ?thesis unfolding m named_one using z [of 601 0] z [of "2 ^ 52" 602] by (simp add: mixed_named)
  qed
  then have "m + k = 0" using e(4) by (simp add: m) (simp add: mixed_mm_def three_mm_def no_mm_def)
  then have "mm_anonpages (u_mm t) + mm_filepages (u_mm t) = 0" using e(3) by simp
  moreover have "ptes (u_mm t) 12 = Pte_none" "ptes (u_mm t) 601 = Pte_none" unfolding e(3) m
    by (simp_all add: emptied_def has_table_def pmd_pages_def ideal_tables_def PAGE_SHIFT_def mixed_mm_def three_mm_def)
  moreover have "ext (host_of ?T) = ideal_ext" by (simp add: ideal_tables_def)
  ultimately show ?thesis using e(1,2,6) m b(2) unfolding s' [symmetric]
    by (intro exI [of _ u] exI [of _ t] exI [of _ ms]) (simp add: u_def s_def)
qed

end
