(* ===== verification/Krping_Conn.thy ===== *)
theory Krping_Conn
  imports Krping_Verbs
begin

text \<open>
  The resources of a connection (\<open>krping.c\<close>): the order of its states, the set-up of the queue pair and
  of the buffers and work requests, and the release of all of them when the node is wound down.

  The answer of each call of the verbs layer is an argument: 0 where the call succeeds, its error
  otherwise.  An error path of the set-up stores and destroys what the code does, so that a handle that
  is used after it was destroyed, or was never created, shows as a run without a value.
\<close>

section \<open>The order of the states\<close>

fun state_no :: "test_state \<Rightarrow> int" where
  "state_no IDLE = 1"
| "state_no CONNECT_REQUEST = 2"
| "state_no ADDR_RESOLVED = 3"
| "state_no ROUTE_RESOLVED = 4"
| "state_no CONNECTED = 5"
| "state_no RECV_INFO = 6"
| "state_no RDMA_READY = 7"
| "state_no ERROR = 8"

lemma state_no_inj: "state_no a = state_no b \<Longrightarrow> a = b"
  by (cases a; cases b) simp_all

instantiation test_state :: linorder
begin

definition less_eq_test_state :: "test_state \<Rightarrow> test_state \<Rightarrow> bool" where
  "a \<le> b \<longleftrightarrow> state_no a \<le> state_no b"

definition less_test_state :: "test_state \<Rightarrow> test_state \<Rightarrow> bool" where
  "a < b \<longleftrightarrow> state_no a < state_no b"

instance
  by standard (auto simp: less_eq_test_state_def less_test_state_def intro: state_no_inj)

end

lemmas state_order = less_eq_test_state_def less_test_state_def

section \<open>The control block with its resources\<close>

text \<open>\<open>Bad\<close> is an error pointer (\<open>IS_ERR\<close>), \<open>Gone\<close> a pointer to an object that has been destroyed.\<close>

datatype handle = Null | Live | Bad | Gone

fun destroy :: "handle \<Rightarrow> handle option" where
  "destroy Live = Some Gone"
| "destroy _ = None"

fun created :: "int \<Rightarrow> handle" where
  "created ret = (if ret = 0 then Live else Bad)"

record ib_recv_wr =
  rq_id :: u64
  rq_addr :: u64
  rq_length :: u64
  rq_lkey :: u64

text \<open>
  The fields of \<open>struct krping_cb\<close> that the connection adds to those of the data path.  A mapping that has
  been made, and not been removed, is true.  \<open>delivered\<close> lists what was given to \<open>COMEX_do_verb\<close>, the command
  and the slot; the counting semaphores are numbers.
\<close>

record krping_conn = krping_cb +
  pd :: handle
  cq_recv :: handle
  cq_send :: handle
  qp :: handle
  dma_mr :: handle
  cm_id :: handle
  child_cm_id :: handle
  recv_mapping :: bool
  send_mapping :: bool
  ptable_mapping :: bool
  dmabuf_mapping :: bool
  recv_dma_addr :: u64
  rq_wr :: "ib_recv_wr list"
  posted :: "int list"
  sem_read :: int
  sem_read_able :: int
  sem_verb_ack :: int
  sem_ready :: int
  delivered :: "(int \<times> int) list"

text \<open>
  The control block as \<open>krping_doit\<close> makes it: zeroed memory, the numbers of the configuration, the
  initial values of the semaphores.
\<close>

definition zero_send_wr :: ib_send_wr where
  "zero_send_wr = \<lparr>wr_op = IB_WR_RDMA_WRITE, wr_id = Wr_no 0, wr_signaled = False, wr_inline = False, wr_rkey = 0,
     wr_remote_addr = 0, wr_imm = 0, sge_addr = 0, sge_length = 0, sge_lkey = 0\<rparr>"

definition init_cb :: "int \<Rightarrow> int \<Rightarrow> int \<Rightarrow> krping_conn" where
  "init_cb i CONF_nodeID isServer =
     \<lparr>cb_server = isServer, cb_state = IDLE, exitstatus = 4, cbindex = i, mynodeID = CONF_nodeID, remotenodeID = 0,
      remote_rkey = 0, remote_pcount = 0, remote_dmabuf_ptr = 0, remote_dmabuf_addr = 0, ptable_dma_addr = 0, dma_rkey = 0,
      remote_addr = [], vslotusing = 0, sq_wr = replicate (nat VERB_SEND_SLOT) zero_send_wr,
      send_buf = replicate (nat VERB_SEND_SLOT) Unset, recv_buf = replicate (nat VERB_RECV_SLOT) Unset,
      pd = Null, cq_recv = Null, cq_send = Null, qp = Null, dma_mr = Null, cm_id = Null, child_cm_id = Null,
      recv_mapping = False, send_mapping = False, ptable_mapping = False, dmabuf_mapping = False, recv_dma_addr = 0,
      rq_wr = replicate (nat VERB_RECV_SLOT) \<lparr>rq_id = 0, rq_addr = 0, rq_length = 0, rq_lkey = 0\<rparr>, posted = [],
      sem_read = 0, sem_read_able = 1, sem_verb_ack = 0, sem_ready = 0, delivered = []\<rparr>"

text \<open>The loop over \<open>rdma_create_id\<close>, which stops at the first error.\<close>

fun create_ids :: "(int \<Rightarrow> int) \<Rightarrow> krping_conn list \<Rightarrow> int \<times> krping_conn list" where
  "create_ids ans [] = (0, [])"
| "create_ids ans (cb # rest) =
     (let cb = cb\<lparr>cm_id := created (ans (cbindex cb))\<rparr> in
      if cm_id cb = Bad then (ans (cbindex cb), cb # rest)
      else (let (ret, rest) = create_ids ans rest in (ret, cb # rest)))"

section \<open>The queue pair\<close>

record qp_answers =
  a_pd :: int
  a_cq_recv :: int
  a_cq_send :: int
  a_notify_send :: int
  a_notify_recv :: int
  a_qp :: int

definition krping_create_qp :: "qp_answers \<Rightarrow> krping_conn \<Rightarrow> (int \<times> krping_conn) option" where
  "krping_create_qp a cb = do {
     let cmid = (if cb_server cb \<noteq> 0 then child_cm_id cb else cm_id cb);
     if cmid \<noteq> Live then None
     else if a_qp a = 0 then Some (0, cb\<lparr>qp := Live\<rparr>)
     else Some (a_qp a, cb)
   }"

text \<open>The labels \<open>err3\<close>, \<open>err2\<close> and \<open>err1\<close>: the pointers keep what they pointed to.\<close>

definition setup_qp_err1 :: "krping_conn \<Rightarrow> krping_conn option" where
  "setup_qp_err1 cb = do { h \<leftarrow> destroy (pd cb); Some (cb\<lparr>pd := h\<rparr>) }"

definition setup_qp_err2 :: "krping_conn \<Rightarrow> krping_conn option" where
  "setup_qp_err2 cb = do { h \<leftarrow> destroy (cq_send cb); setup_qp_err1 (cb\<lparr>cq_send := h\<rparr>) }"

definition setup_qp_err3 :: "krping_conn \<Rightarrow> krping_conn option" where
  "setup_qp_err3 cb = do { h \<leftarrow> destroy (cq_recv cb); setup_qp_err2 (cb\<lparr>cq_recv := h\<rparr>) }"

definition krping_setup_qp :: "qp_answers \<Rightarrow> handle \<Rightarrow> krping_conn \<Rightarrow> (int \<times> krping_conn) option" where
  "krping_setup_qp a cmid cb =
     (if cmid \<noteq> Live then None
      else do {
        let cb = cb\<lparr>pd := created (a_pd a)\<rparr>;
        if pd cb = Bad then Some (a_pd a, cb)
        else do {
          let cb = cb\<lparr>cq_recv := created (a_cq_recv a)\<rparr>;
          let cb = cb\<lparr>cq_send := created (a_cq_send a)\<rparr>;
          if cq_send cb = Bad then do { cb \<leftarrow> setup_qp_err1 cb; Some (a_cq_send a, cb) }
          else if cq_recv cb = Bad then do { cb \<leftarrow> setup_qp_err1 cb; Some (a_cq_recv a, cb) }
          else if a_notify_send a \<noteq> 0 then do { cb \<leftarrow> setup_qp_err2 cb; Some (a_notify_send a, cb) }
          else if a_notify_recv a \<noteq> 0 then do { cb \<leftarrow> setup_qp_err3 cb; Some (a_notify_recv a, cb) }
          else do {
            (ret, cb) \<leftarrow> krping_create_qp a cb;
            if ret \<noteq> 0 then do { cb \<leftarrow> setup_qp_err3 cb; Some (ret, cb) }
            else Some (0, cb)
          }
        }
      })"

definition krping_free_qp :: "krping_conn \<Rightarrow> krping_conn option" where
  "krping_free_qp cb = do {
     h \<leftarrow> destroy (qp cb);
     let cb = cb\<lparr>qp := h\<rparr>;
     h \<leftarrow> destroy (cq_send cb);
     let cb = cb\<lparr>cq_send := h\<rparr>;
     h \<leftarrow> destroy (cq_recv cb);
     let cb = cb\<lparr>cq_recv := h\<rparr>;
     h \<leftarrow> destroy (pd cb);
     Some (cb\<lparr>pd := h\<rparr>)
   }"

section \<open>Buffers and work requests\<close>

text \<open>
  What the host side supplies: the addresses of the buffers and of the table as the device sees them, the address of the
  send buffers, the keys of the memory region, and the answer of \<open>ib_get_dma_mr\<close>.
\<close>

record buffer_answers =
  a_recv_addr :: u64
  a_send_buf :: u64
  a_ptable_addr :: u64
  a_lkey :: u64
  a_rkey :: u64
  a_mr :: int

definition recv_request :: "buffer_answers \<Rightarrow> krping_conn \<Rightarrow> nat \<Rightarrow> ib_recv_wr" where
  "recv_request a cb i =
     \<lparr>rq_id = of_nat i, rq_addr = recv_dma_addr cb + of_nat i * of_int sizeof_bufferx,
      rq_length = of_int sizeof_bufferx, rq_lkey = a_lkey a\<rparr>"

text \<open>Every fourth send asks for a completion; the address is that of the buffer itself, as the data is sent inline.\<close>

definition send_request :: "buffer_answers \<Rightarrow> nat \<Rightarrow> ib_send_wr \<Rightarrow> ib_send_wr" where
  "send_request a i wr = wr\<lparr>wr_op := IB_WR_SEND_WITH_IMM, wr_inline := True, wr_signaled := (i mod 4 = 0),
     wr_id := Wr_no (of_nat i + 1), sge_addr := a_send_buf a + of_nat i * of_int sizeof_bufferx, sge_lkey := a_lkey a\<rparr>"

definition krping_setup_wr :: "buffer_answers \<Rightarrow> krping_conn \<Rightarrow> krping_conn" where
  "krping_setup_wr a cb = cb\<lparr>rq_wr := map (recv_request a cb) [0..<nat VERB_RECV_SLOT],
     sq_wr := map (\<lambda>i. send_request a i (sq_wr cb ! i)) [0..<nat VERB_SEND_SLOT]\<rparr>"

text \<open>
  The big pages are mapped by the first connection that comes here (their first bus address is still 0);
  \<open>map_sg\<close> answers the bus addresses.
\<close>

definition map_bigspace :: "(u64 list \<Rightarrow> u64 list) \<Rightarrow> krping_sharedspace \<Rightarrow> krping_sharedspace option" where
  "map_bigspace map_sg b = do {
     first \<leftarrow> arr_get (sg_dma b) 0;
     if first = 0 then do {
       let b = b\<lparr>sg_dma := map_sg (sg b)\<rparr>;
       for_up 0 (numbigpages b) (\<lambda>i b. do {
         v \<leftarrow> arr_get (sg_dma b) i;
         dp \<leftarrow> arr_set (dmapages b) i v;
         Some (b\<lparr>dmapages := dp\<rparr>) }) b
     } else Some b
   }"

definition krping_setup_buffers ::
  "(u64 list \<Rightarrow> u64 list) \<Rightarrow> buffer_answers \<Rightarrow> krping_sharedspace \<Rightarrow> krping_conn \<Rightarrow> (int \<times> krping_sharedspace \<times> krping_conn) option" where
  "krping_setup_buffers map_sg a b cb =
     (if pd cb \<noteq> Live then None
      else do {
        let cb = cb\<lparr>recv_dma_addr := a_recv_addr a, recv_mapping := True\<rparr>;
        let cb = cb\<lparr>send_mapping := True\<rparr>;
        let cb = cb\<lparr>dma_mr := created (a_mr a)\<rparr>;
        if dma_mr cb = Bad then Some (a_mr a, b, cb)
        else do {
          let cb = cb\<lparr>dma_rkey := a_rkey a\<rparr>;
          b \<leftarrow> map_bigspace map_sg b;
          let cb = cb\<lparr>ptable_dma_addr := a_ptable_addr a, ptable_mapping := True\<rparr>;
          Some (0, b, krping_setup_wr a cb)
        }
      })"

text \<open>\<open>send_mr\<close>, \<open>recv_mr\<close> and \<open>rdma_buf\<close> stay null pointers in this version of the code.\<close>

fun unmap :: "bool \<Rightarrow> unit option" where
  "unmap m = (if m then Some () else None)"

definition krping_free_buffers :: "krping_conn \<Rightarrow> krping_conn option" where
  "krping_free_buffers cb = do {
     cb \<leftarrow> (if dma_mr cb = Null then Some cb else do { h \<leftarrow> destroy (dma_mr cb); Some (cb\<lparr>dma_mr := h\<rparr>) });
     if pd cb \<noteq> Live then None
     else do {
       _ \<leftarrow> unmap (recv_mapping cb);
       _ \<leftarrow> unmap (send_mapping cb);
       _ \<leftarrow> unmap (ptable_mapping cb);
       _ \<leftarrow> unmap (dmabuf_mapping cb);
       Some (cb\<lparr>recv_mapping := False, send_mapping := False, ptable_mapping := False, dmabuf_mapping := False\<rparr>)
     }
   }"

section \<open>The end of a connection\<close>

definition disconnect_cb :: "krping_conn \<Rightarrow> krping_conn option" where
  "disconnect_cb cb = (if (if cb_server cb \<noteq> 0 then child_cm_id cb else cm_id cb) = Live then Some cb else None)"

definition destroy_ids :: "krping_conn \<Rightarrow> krping_conn option" where
  "destroy_ids cb = do {
     cb \<leftarrow> (if cb_server cb \<noteq> 0 then do { h \<leftarrow> destroy (child_cm_id cb); Some (cb\<lparr>child_cm_id := h\<rparr>) } else Some cb);
     h \<leftarrow> destroy (cm_id cb);
     Some (cb\<lparr>cm_id := h\<rparr>)
   }"

text \<open>The cases fall through; no case is left for a starting point of 4.\<close>

definition winddown_cb :: "int \<Rightarrow> krping_conn \<Rightarrow> krping_conn option" where
  "winddown_cb startingpoint cb =
     (if startingpoint = 0 then do { cb \<leftarrow> krping_free_buffers cb; cb \<leftarrow> krping_free_qp cb; destroy_ids cb }
      else if startingpoint = 1 then do { cb \<leftarrow> krping_free_qp cb; destroy_ids cb }
      else if startingpoint = 2 then destroy_ids cb
      else Some cb)"

lemmas conn_setup_defs = krping_create_qp_def setup_qp_err1_def setup_qp_err2_def setup_qp_err3_def krping_setup_qp_def

section \<open>Resources\<close>

text \<open>What a connection that is set up owns, and that it owns nothing.\<close>

definition has_qp :: "krping_conn \<Rightarrow> bool" where
  "has_qp cb \<longleftrightarrow> pd cb = Live \<and> cq_recv cb = Live \<and> cq_send cb = Live \<and> qp cb = Live"

definition has_buffers :: "krping_conn \<Rightarrow> bool" where
  "has_buffers cb \<longleftrightarrow> dma_mr cb = Live \<and> recv_mapping cb \<and> send_mapping cb \<and> ptable_mapping cb"

definition has_ids :: "krping_conn \<Rightarrow> bool" where
  "has_ids cb \<longleftrightarrow> cm_id cb = Live \<and> (cb_server cb \<noteq> 0 \<longrightarrow> child_cm_id cb = Live)"

definition owns_nothing :: "krping_conn \<Rightarrow> bool" where
  "owns_nothing cb \<longleftrightarrow> Live \<notin> {pd cb, cq_recv cb, cq_send cb, qp cb, dma_mr cb, cm_id cb, child_cm_id cb} \<and>
     \<not> recv_mapping cb \<and> \<not> send_mapping cb \<and> \<not> ptable_mapping cb \<and> \<not> dmabuf_mapping cb"

definition id_of :: "krping_conn \<Rightarrow> handle" where
  "id_of cb = (if cb_server cb \<noteq> 0 then child_cm_id cb else cm_id cb)"

text \<open>
  A set-up that succeeds has made the queue pair; one that fails has destroyed the protection domain it
  made, and leaves no queue pair.
\<close>

lemma setup_qp_ok:
  assumes "krping_setup_qp a (id_of cb) cb = Some (0, cb')"
  shows "\<exists>h. cb' = cb\<lparr>pd := Live, cq_recv := Live, cq_send := Live, qp := Live\<rparr>"
  using assms by (auto simp: conn_setup_defs Let_def id_of_def split: if_splits bind_splits)

lemma setup_qp_succeeds:
  assumes "id_of cb = Live" and "a_pd a = 0" and "a_cq_recv a = 0" and "a_cq_send a = 0"
    and "a_notify_send a = 0" and "a_notify_recv a = 0" and "a_qp a = 0"
  shows "krping_setup_qp a (id_of cb) cb
    = Some (0, cb\<lparr>pd := Live, cq_recv := Live, cq_send := Live, qp := Live\<rparr>)"
  using assms by (auto simp: conn_setup_defs Let_def id_of_def)

lemma setup_qp_fails:
  assumes "krping_setup_qp a (id_of cb) cb = Some (ret, cb')" and "ret \<noteq> 0"
  shows "pd cb' \<in> {Bad, Gone} \<and> qp cb' = qp cb"
  using assms by (auto simp: conn_setup_defs Let_def split: if_splits bind_splits)

lemma setup_qp_has_value:
  assumes "id_of cb = Live"
  shows "krping_setup_qp a (id_of cb) cb \<noteq> None"
  using assms by (auto simp: conn_setup_defs Let_def id_of_def split: if_splits bind_splits)

lemma setup_qp_leaks:
  assumes "id_of cb = Live" and "a_pd a = 0" and "a_cq_recv a = 0" and "a_cq_send a = 0" and "a_notify_send a \<noteq> 0"
  shows "\<exists>cb'. krping_setup_qp a (id_of cb) cb = Some (a_notify_send a, cb') \<and> cq_recv cb' = Live"
  using assms by (auto simp: conn_setup_defs Let_def id_of_def)

lemma map_bigspace_done:
  assumes "sg_dma b \<noteq> []" and "sg_dma b ! 0 \<noteq> 0"
  shows "map_bigspace map_sg b = Some b"
  using assms by (simp add: map_bigspace_def arr_simps)

lemma setup_buffers_ok:
  assumes "krping_setup_buffers map_sg a b cb = Some (0, b', cb')"
  shows "has_buffers cb' \<and> has_qp cb' = has_qp cb \<and> has_ids cb' = has_ids cb \<and> dmabuf_mapping cb' = dmabuf_mapping cb"
  using assms
  by (auto simp: krping_setup_buffers_def krping_setup_wr_def Let_def has_buffers_def has_qp_def has_ids_def
      split: if_splits bind_splits)

text \<open>
  A connection that has its queue pair, its buffers, its identifiers and the mapping of the remote
  table is wound down from starting point 0 without touching anything twice, and owns nothing afterwards.
\<close>

lemma winddown_releases_all:
  assumes "has_qp cb" and "has_buffers cb" and "has_ids cb" and "dmabuf_mapping cb"
    and "cb_server cb = 0 \<Longrightarrow> child_cm_id cb \<noteq> Live"
  shows "\<exists>cb'. winddown_cb 0 cb = Some cb' \<and> owns_nothing cb'"
  using assms
  by (auto simp: winddown_cb_def krping_free_buffers_def krping_free_qp_def destroy_ids_def has_qp_def has_buffers_def
      has_ids_def owns_nothing_def Let_def)

end
