(* ===== verification/Krping_Run.thy ===== *)
theory Krping_Run
  imports Krping_Conn
begin

text \<open>
  The life of one connection (\<open>krping.c\<close>): the handlers that the connection manager and the two
  completion queues call, the thread \<open>krping_run_all\<close> from its start to the exchange of the tables of big
  pages, and both together as a state machine over events.

  The thread sleeps at fixed places; what it does between two of them is one step, and a handler runs
  between the steps.  A step is a function to an optional configuration: \<^term>\<open>None\<close> is a run that C gives no
  meaning to, and an event that cannot happen in a configuration leaves it as it is.
\<close>

section \<open>Handlers\<close>

datatype cm_event =
    ADDR_RESOLVED_EV | ROUTE_RESOLVED_EV | CONNECT_REQUEST_EV | ESTABLISHED_EV
  | ADDR_ERROR_EV | ROUTE_ERROR_EV | CONNECT_ERROR_EV | UNREACHABLE_EV | REJECTED_EV | DISCONNECTED_EV
  | DEVICE_REMOVAL_EV | OTHER_EV

text \<open>
  The answer of \<open>rdma_resolve_route\<close> only decides what is printed: a thread that is woken looks at
  the state again, so that a wake-up is no part of the state.
\<close>

fun krping_cma_event_handler :: "cm_event \<Rightarrow> krping_conn \<Rightarrow> krping_conn" where
  "krping_cma_event_handler ADDR_RESOLVED_EV cb = cb\<lparr>cb_state := ADDR_RESOLVED\<rparr>"
| "krping_cma_event_handler ROUTE_RESOLVED_EV cb = cb\<lparr>cb_state := ROUTE_RESOLVED\<rparr>"
| "krping_cma_event_handler CONNECT_REQUEST_EV cb = cb\<lparr>cb_state := CONNECT_REQUEST, child_cm_id := Live\<rparr>"
| "krping_cma_event_handler ESTABLISHED_EV cb = cb\<lparr>cb_state := CONNECTED\<rparr>"
| "krping_cma_event_handler DEVICE_REMOVAL_EV cb = cb"
| "krping_cma_event_handler OTHER_EV cb = cb"
| "krping_cma_event_handler _ cb = cb\<lparr>cb_state := ERROR\<rparr>"

text \<open>A message that was received: \<open>repost\<close> answers \<open>ib_post_recv\<close> of a slot.\<close>

definition set_buffer_info :: "int \<Rightarrow> krping_conn \<Rightarrow> krping_conn option" where
  "set_buffer_info slot cb = do {
     b \<leftarrow> arr_get (recv_buf cb) slot;
     case b of
       Buffer_info info \<Rightarrow> Some (cb\<lparr>remote_pcount := bi_size info, remote_rkey := bi_rkey info,
         remotenodeID := bi_instanceno info, remote_dmabuf_ptr := bi_buf info, cb_state := RECV_INFO\<rparr>)
     | _ \<Rightarrow> None
   }"

definition universal_recv_handler :: "(int \<Rightarrow> int) \<Rightarrow> int \<Rightarrow> int \<Rightarrow> krping_conn \<Rightarrow> krping_conn option" where
  "universal_recv_handler repost imm slot cb = do {
     cb \<leftarrow> (if imm = 2 then set_buffer_info slot cb
           else if imm = 4 \<or> imm = 5 \<or> imm = 99 then Some cb
           else Some (cb\<lparr>delivered := delivered cb @ [(imm, slot)]\<rparr>));
     wr \<leftarrow> arr_get (rq_wr cb) slot;
     if qp cb \<noteq> Live then None
     else if repost slot \<noteq> 0 then Some cb
     else Some (cb\<lparr>posted := posted cb @ [slot]\<rparr>)
   }"

datatype wc_opcode = IB_WC_SEND | IB_WC_RDMA_WRITE | IB_WC_RDMA_READ | IB_WC_RECV | IB_WC_RECV_RDMA_WITH_IMM | IB_WC_OTHER

record ib_wc =
  wc_status :: int
  wc_opcode :: wc_opcode
  wc_wr_id :: wr_id
  wc_imm :: "int option"

definition IB_WC_WR_FLUSH_ERR :: int where "IB_WC_WR_FLUSH_ERR = 5"

definition cq_error :: "krping_conn \<Rightarrow> krping_conn" where
  "cq_error cb = cb\<lparr>cb_state := ERROR\<rparr>"

text \<open>
  \<open>up((struct semaphore *) wc.wr_id)\<close>: the semaphore of a write is on the stack of its thread and no part
  of the control block; a number other than 0 is no semaphore.
\<close>

fun up_wr :: "wr_id \<Rightarrow> krping_conn \<Rightarrow> krping_conn option" where
  "up_wr (Wr_no n) cb = (if n = 0 then Some cb else None)"
| "up_wr (Wr_sem (Sem_read _)) cb = Some (cb\<lparr>sem_read := sem_read cb + 1\<rparr>)"
| "up_wr (Wr_sem (Sem_read_able _)) cb = Some (cb\<lparr>sem_read_able := sem_read_able cb + 1\<rparr>)"
| "up_wr (Wr_sem (Sem_verb_ack _)) cb = Some (cb\<lparr>sem_verb_ack := sem_verb_ack cb + 1\<rparr>)"
| "up_wr (Wr_sem (Sem_ready _)) cb = Some (cb\<lparr>sem_ready := sem_ready cb + 1\<rparr>)"
| "up_wr (Wr_sem (Sem_write _)) cb = Some cb"
| "up_wr (Wr_sem (Sem_verb_mutex _)) cb = Some cb"

text \<open>The loops over the completions; \<open>ret\<close> is the answer of \<open>ib_poll_cq\<close> that ends the loop.\<close>

fun send_completions :: "ib_wc list \<Rightarrow> int \<Rightarrow> krping_conn \<Rightarrow> krping_conn option" where
  "send_completions [] ret cb = Some (if ret \<noteq> 0 then cq_error cb else cb)"
| "send_completions (wc # wcs) ret cb =
     (if wc_status wc \<noteq> 0 then
        if wc_status wc = IB_WC_WR_FLUSH_ERR then send_completions wcs ret cb else Some (cq_error cb)
      else case wc_opcode wc of
        IB_WC_SEND \<Rightarrow> send_completions wcs ret (cb\<lparr>sem_verb_ack := sem_verb_ack cb + 1\<rparr>)
      | IB_WC_RDMA_WRITE \<Rightarrow> do { cb \<leftarrow> up_wr (wc_wr_id wc) cb; send_completions wcs ret cb }
      | IB_WC_RDMA_READ \<Rightarrow> do { cb \<leftarrow> up_wr (wc_wr_id wc) cb; send_completions wcs ret cb }
      | _ \<Rightarrow> Some (cq_error cb))"

definition krping_cq_event_handler_send :: "ib_wc list \<Rightarrow> int \<Rightarrow> krping_conn \<Rightarrow> krping_conn option" where
  "krping_cq_event_handler_send wcs ret cb = (if cb_state cb = ERROR then Some cb else send_completions wcs ret cb)"

fun recv_slot :: "wr_id \<Rightarrow> int option" where
  "recv_slot (Wr_no n) = Some (uint n)"
| "recv_slot (Wr_sem _) = None"

fun recv_completions :: "(int \<Rightarrow> int) \<Rightarrow> ib_wc list \<Rightarrow> int \<Rightarrow> krping_conn \<Rightarrow> krping_conn option" where
  "recv_completions repost [] ret cb = Some (if ret \<noteq> 0 then cq_error cb else cb)"
| "recv_completions repost (wc # wcs) ret cb =
     (if wc_status wc \<noteq> 0 then
        if wc_status wc = IB_WC_WR_FLUSH_ERR then recv_completions repost wcs ret cb else Some (cq_error cb)
      else case wc_opcode wc of
        IB_WC_RECV \<Rightarrow> do {
          cb \<leftarrow> (case wc_imm wc of
                  Some imm \<Rightarrow> do { slot \<leftarrow> recv_slot (wc_wr_id wc); universal_recv_handler repost imm slot cb }
                | None \<Rightarrow> Some cb);
          recv_completions repost wcs ret cb
        }
      | IB_WC_RECV_RDMA_WITH_IMM \<Rightarrow> recv_completions repost wcs ret cb
      | _ \<Rightarrow> Some (cq_error cb))"

definition krping_cq_event_handler_recv :: "(int \<Rightarrow> int) \<Rightarrow> ib_wc list \<Rightarrow> int \<Rightarrow> krping_conn \<Rightarrow> krping_conn option" where
  "krping_cq_event_handler_recv repost wcs ret cb =
     (if cb_state cb = ERROR then Some cb else recv_completions repost wcs ret cb)"

section \<open>The thread\<close>

text \<open>The calls before the wait, and the test after it.\<close>

definition krping_bind_server :: "int \<Rightarrow> int \<Rightarrow> int" where
  "krping_bind_server bind_addr listen = (if bind_addr \<noteq> 0 then bind_addr else listen)"

definition bind_server_woken :: "krping_conn \<Rightarrow> int" where
  "bind_server_woken cb = (if cb_state cb \<noteq> CONNECT_REQUEST then -1 else 0)"

definition EINTR :: int where "EINTR = 4"

definition bind_client_woken :: "krping_conn \<Rightarrow> int" where
  "bind_client_woken cb = (if cb_state cb \<noteq> ROUTE_RESOLVED then - EINTR else 0)"

text \<open>\<open>krping_accept\<close> and \<open>krping_connect_client\<close> end with the same test.\<close>

definition connect_woken :: "krping_conn \<Rightarrow> int" where
  "connect_woken cb = (if cb_state cb = ERROR then -1 else 0)"

fun post_receives :: "(int \<Rightarrow> int) \<Rightarrow> int list \<Rightarrow> krping_conn \<Rightarrow> (int \<times> krping_conn) option" where
  "post_receives post [] cb = Some (0, cb)"
| "post_receives post (i # is) cb = do {
     wr \<leftarrow> arr_get (rq_wr cb) i;
     if qp cb \<noteq> Live then None
     else if post i \<noteq> 0 then Some (post i, cb)
     else post_receives post is (cb\<lparr>posted := posted cb @ [i]\<rparr>)
   }"

datatype pc = Start | Wait_request | Wait_route | Bound | Wait_connected | Linked | Wait_info | Wait_read | Ready | Stopped

text \<open>What the world answers to the thread between the wait for the peer and the wait for the connection.\<close>

record setup_answers =
  s_qp :: qp_answers
  s_buffers :: buffer_answers
  s_map_sg :: "u64 list \<Rightarrow> u64 list"
  s_post :: "int \<Rightarrow> int"
  s_connect :: int

definition run_setup :: "setup_answers \<Rightarrow> krping_sharedspace \<Rightarrow> krping_conn \<Rightarrow> (pc \<times> krping_sharedspace \<times> krping_conn) option" where
  "run_setup a b cb = do {
     (ret, cb) \<leftarrow> krping_setup_qp (s_qp a) (id_of cb) cb;
     let cb = cb\<lparr>exitstatus := 1\<rparr>;
     if ret \<noteq> 0 then Some (Stopped, b, cb)
     else do {
       (ret, b, cb) \<leftarrow> krping_setup_buffers (s_map_sg a) (s_buffers a) b cb;
       let cb = cb\<lparr>exitstatus := 0\<rparr>;
       if ret \<noteq> 0 then Some (Stopped, b, cb)
       else do {
         (ret, cb) \<leftarrow> post_receives (s_post a) (map int [0..<nat VERB_RECV_SLOT]) cb;
         if ret \<noteq> 0 then Some (Stopped, b, cb)
         else if s_connect a \<noteq> 0 then do { cb \<leftarrow> disconnect_cb cb; Some (Stopped, b, cb) }
         else Some (Wait_connected, b, cb)
       }
     }
   }"

definition run_connected :: "krping_conn \<Rightarrow> (pc \<times> krping_conn) option" where
  "run_connected cb =
     (if connect_woken cb \<noteq> 0 then do { cb \<leftarrow> disconnect_cb cb; Some (Stopped, cb) } else Some (Linked, cb))"

text \<open>\<open>send_buffer_info\<close> up to its wait; a failed send is only printed.\<close>

definition own_info :: "int \<Rightarrow> krping_conn \<Rightarrow> buffer_info" where
  "own_info CONF_localpagecount cb =
     \<lparr>bi_buf = ptable_dma_addr cb, bi_rkey = dma_rkey cb, bi_size = CONF_localpagecount, bi_instanceno = mynodeID cb\<rparr>"

definition send_own_info :: "int \<Rightarrow> krping_conn \<Rightarrow> krping_conn option" where
  "send_own_info CONF_localpagecount cb = do {
     let slot = vslotusing cb;
     let cb = cb\<lparr>vslotusing := (vslotusing cb + 1) smod VERB_SEND_SLOT\<rparr>;
     if dma_mr cb \<noteq> Live then None
     else do {
       sb \<leftarrow> arr_set (send_buf cb) slot (Buffer_info (own_info CONF_localpagecount cb));
       wrs \<leftarrow> arr_upd (sq_wr cb) slot (\<lambda>wr. wr\<lparr>wr_imm := 2, sge_length := of_int (sizeof (Buffer_info (own_info CONF_localpagecount cb)))\<rparr>);
       if qp cb \<noteq> Live then None else Some (cb\<lparr>send_buf := sb, sq_wr := wrs\<rparr>)
     }
   }"

text \<open>
  \<open>send_buffer_info\<close> after its wait, with the start of \<open>do_read_bufferptr\<close>: the address \<open>kmalloc\<close> and
  \<open>dma_map_single\<close> answer, and the answer of \<open>ib_post_send\<close>.  A read that cannot be posted is only printed,
  and so is a table without memory: the device then writes through the mapping of a null pointer.
\<close>

definition read_bufferptr :: "u64 \<Rightarrow> u64 \<Rightarrow> int \<Rightarrow> krping_conn \<Rightarrow> (pc \<times> krping_conn) option" where
  "read_bufferptr table dma post cb = do {
     let cb = cb\<lparr>remote_addr := (if table = 0 then [] else replicate (nat (remote_pcount cb)) 0)\<rparr>;
     let cb = cb\<lparr>remote_dmabuf_addr := dma, dmabuf_mapping := True\<rparr>;
     if qp cb \<noteq> Live \<or> dma_mr cb \<noteq> Live \<or> sem_read_able cb \<le> 0 then None
     else do {
       let cb = cb\<lparr>sem_read_able := sem_read_able cb - 1\<rparr>;
       if post \<noteq> 0 then Some (Ready, cb\<lparr>sem_ready := sem_ready cb + 1\<rparr>)
       else if table = 0 then None
       else Some (Wait_read, cb)
     }
   }"

definition bufferptr_read :: "krping_conn \<Rightarrow> krping_conn" where
  "bufferptr_read cb = cb\<lparr>sem_read := sem_read cb - 1, sem_read_able := sem_read_able cb + 1, cb_state := RDMA_READY,
     sem_ready := sem_ready cb + 1\<rparr>"

end
