(* ===== verification/Krping_Handshake.thy ===== *)
theory Krping_Handshake
  imports Krping_Run
begin

text \<open>
  A connection as a state machine: the configurations are the place of the thread, the shared space and
  the control block; the events are the steps of the thread, with what the calls of the step answer, and
  the calls of the handlers.  Every event can come at any time; \<open>orderly\<close> picks those of a run in which
  nothing fails and the messages of the connection manager come in their order.
\<close>

section \<open>Events\<close>

type_synonym config = "pc \<times> krping_sharedspace \<times> krping_conn"

text \<open>The peer: what its \<open>send_buffer_info\<close> sends, and its table of big pages.\<close>

record peer =
  p_info :: buffer_info
  p_table :: "u64 list"

datatype event =
    Bind int int
  | Wake
  | Setup setup_answers
  | Send_info int
  | Read_table u64 u64 int
  | Table_done
  | Cm cm_event
  | Info_arrives int int
  | Message_arrives int int payload int
  | Receive_fails int
  | Sent
  | Read_completes int
  | Poll_fails

definition arrive :: "int \<Rightarrow> int \<Rightarrow> payload \<Rightarrow> int \<Rightarrow> krping_conn \<Rightarrow> krping_conn option" where
  "arrive slot imm data repost cb =
     (if slot \<in> set (posted cb) then
        krping_cq_event_handler_recv (\<lambda>_. repost)
          [\<lparr>wc_status = 0, wc_opcode = IB_WC_RECV, wc_wr_id = Wr_no (of_int slot), wc_imm = Some imm\<rparr>] 0
          (cb\<lparr>recv_buf := (recv_buf cb)[nat slot := data], posted := remove1 slot (posted cb)\<rparr>)
      else Some cb)"

definition read_done :: "u64 list \<Rightarrow> int \<Rightarrow> krping_conn \<Rightarrow> krping_conn option" where
  "read_done table st cb =
     krping_cq_event_handler_send
       [\<lparr>wc_status = st, wc_opcode = IB_WC_RDMA_READ, wc_wr_id = Wr_sem (Sem_read (cbindex cb)), wc_imm = None\<rparr>] 0
       (if st = 0 then cb\<lparr>remote_addr := take (length (remote_addr cb)) table\<rparr> else cb)"

fun thread_wake :: "pc \<Rightarrow> krping_conn \<Rightarrow> (pc \<times> krping_conn) option" where
  "thread_wake Wait_request cb =
     Some (if CONNECT_REQUEST \<le> cb_state cb then if bind_server_woken cb = 0 then Bound else Stopped else Wait_request, cb)"
| "thread_wake Wait_route cb =
     Some (if ROUTE_RESOLVED \<le> cb_state cb then if bind_client_woken cb = 0 then Bound else Stopped else Wait_route, cb)"
| "thread_wake Wait_connected cb = (if CONNECTED \<le> cb_state cb then run_connected cb else Some (Wait_connected, cb))"
| "thread_wake q cb = Some (q, cb)"

fun thread_next :: "event \<Rightarrow> config \<Rightarrow> config option" where
  "thread_next (Bind x y) (q, b, cb) =
     Some (if q \<noteq> Start then q
           else if cb_server cb \<noteq> 0 then if krping_bind_server x y = 0 then Wait_request else Stopped
           else if x = 0 then Wait_route else Stopped, b, cb)"
| "thread_next Wake (q, b, cb) = do { (q, cb) \<leftarrow> thread_wake q cb; Some (q, b, cb) }"
| "thread_next (Setup a) (q, b, cb) = (if q = Bound then run_setup a b cb else Some (q, b, cb))"
| "thread_next (Send_info n) (q, b, cb) =
     (if q = Linked then do { cb \<leftarrow> send_own_info n cb; Some (Wait_info, b, cb) } else Some (q, b, cb))"
| "thread_next (Read_table table dma post) (q, b, cb) =
     (if q = Wait_info \<and> RECV_INFO \<le> cb_state cb then do { (q, cb) \<leftarrow> read_bufferptr table dma post cb; Some (q, b, cb) }
      else Some (q, b, cb))"
| "thread_next Table_done (q, b, cb) =
     Some (if q = Wait_read \<and> 0 < sem_read cb then (Ready, b, bufferptr_read cb) else (q, b, cb))"
| "thread_next _ c = Some c"

fun handler_next :: "peer \<Rightarrow> event \<Rightarrow> pc \<Rightarrow> krping_conn \<Rightarrow> krping_conn option" where
  "handler_next p (Cm e) q cb = Some (krping_cma_event_handler e cb)"
| "handler_next p (Info_arrives slot repost) q cb = arrive slot 2 (Buffer_info (p_info p)) repost cb"
| "handler_next p (Message_arrives slot imm data repost) q cb = (if imm = 2 then Some cb else arrive slot imm data repost cb)"
| "handler_next p (Receive_fails st) q cb =
     krping_cq_event_handler_recv (\<lambda>_. 0)
       [\<lparr>wc_status = (if st = 0 then 1 else st), wc_opcode = IB_WC_RECV, wc_wr_id = Wr_no 0, wc_imm = None\<rparr>] 0 cb"
| "handler_next p Sent q cb =
     krping_cq_event_handler_send [\<lparr>wc_status = 0, wc_opcode = IB_WC_SEND, wc_wr_id = Wr_no 1, wc_imm = None\<rparr>] 0 cb"
| "handler_next p (Read_completes st) q cb =
     (if q = Wait_read \<and> sem_read cb = 0 then read_done (p_table p) st cb else Some cb)"
| "handler_next p Poll_fails q cb = krping_cq_event_handler_send [] (-1) cb"
| "handler_next p _ q cb = Some cb"

definition conn_next :: "peer \<Rightarrow> event \<Rightarrow> config \<Rightarrow> config option" where
  "conn_next p e c = do {
     (q, b, cb) \<leftarrow> thread_next e c;
     cb \<leftarrow> handler_next p e q cb;
     Some (q, b, cb)
   }"

inductive conn_step :: "(event \<Rightarrow> config \<Rightarrow> bool) \<Rightarrow> peer \<Rightarrow> config \<Rightarrow> config \<Rightarrow> bool" for allowed p where
  conn_step: "allowed e c \<Longrightarrow> conn_next p e c = Some c' \<Longrightarrow> conn_step allowed p c c'"

inductive_cases conn_stepE: "conn_step allowed p c c'"

inductive reaches :: "(event \<Rightarrow> config \<Rightarrow> bool) \<Rightarrow> peer \<Rightarrow> config \<Rightarrow> config \<Rightarrow> bool" for allowed p c where
  start: "reaches allowed p c c"
| step: "reaches allowed p c c' \<Longrightarrow> conn_step allowed p c' c'' \<Longrightarrow> reaches allowed p c c''"

section \<open>Every event has a meaning\<close>

definition space_ok :: "krping_sharedspace \<Rightarrow> bool" where
  "space_ok b \<longleftrightarrow> 0 < numbigpages b \<and> length (sg b) = nat (numbigpages b) \<and> length (sg_dma b) = nat (numbigpages b) \<and>
     length (dmapages b) = nat (numbigpages b)"

definition slots_ok :: "krping_conn \<Rightarrow> bool" where
  "slots_ok cb \<longleftrightarrow> 0 \<le> vslotusing cb \<and> vslotusing cb < 24 \<and> length (send_buf cb) = 24 \<and> length (sq_wr cb) = 24 \<and>
     length (recv_buf cb) = 64 \<and> set (posted cb) \<subseteq> {0..<64} \<and> (posted cb \<noteq> [] \<longrightarrow> qp cb = Live \<and> length (rq_wr cb) = 64)"

definition ids_ok :: "krping_conn \<Rightarrow> bool" where
  "ids_ok cb \<longleftrightarrow> cm_id cb = Live \<and> (cb_state cb = CONNECT_REQUEST \<longrightarrow> child_cm_id cb = Live)"

text \<open>What the thread has made at each of its places.\<close>

definition is_bound :: "pc \<Rightarrow> bool" where
  "is_bound q \<longleftrightarrow> q \<in> {Bound, Wait_connected, Linked, Wait_info, Wait_read, Ready}"

definition is_set_up :: "pc \<Rightarrow> bool" where
  "is_set_up q \<longleftrightarrow> q \<in> {Wait_connected, Linked, Wait_info, Wait_read, Ready}"

definition before_setup :: "pc \<Rightarrow> bool" where
  "before_setup q \<longleftrightarrow> q \<in> {Start, Wait_request, Wait_route, Bound}"

definition before_read :: "pc \<Rightarrow> bool" where
  "before_read q \<longleftrightarrow> q \<in> {Start, Wait_request, Wait_route, Bound, Wait_connected, Linked, Wait_info}"

lemmas places = is_bound_def is_set_up_def before_setup_def before_read_def

definition made :: "pc \<Rightarrow> krping_conn \<Rightarrow> bool" where
  "made q cb \<longleftrightarrow>
     (is_bound q \<longrightarrow> id_of cb = Live) \<and>
     (is_set_up q \<longrightarrow> has_qp cb \<and> has_buffers cb \<and> length (rq_wr cb) = 64) \<and>
     (before_setup q \<longrightarrow> posted cb = []) \<and>
     (before_read q \<longrightarrow> sem_read_able cb = 1) \<and>
     (q = Wait_route \<longrightarrow> cb_server cb = 0)"

lemmas ok_defs = slots_ok_def ids_ok_def made_def

definition handler_ok :: "pc \<Rightarrow> krping_conn \<Rightarrow> bool" where
  "handler_ok q cb \<longleftrightarrow> slots_ok cb \<and> ids_ok cb \<and> made q cb"

fun conn_ok :: "config \<Rightarrow> bool" where
  "conn_ok (q, b, cb) \<longleftrightarrow> space_ok b \<and> handler_ok q cb"

text \<open>
  What is asked of the device: it maps as many addresses as there are big pages.  The event without a
  value: the allocation of the table of the peer fails, and the read into the null pointer is posted.
\<close>

fun mapped_event :: "event \<Rightarrow> config \<Rightarrow> bool" where
  "mapped_event (Setup a) c \<longleftrightarrow> (\<forall>xs. length (s_map_sg a xs) = length xs)"
| "mapped_event _ c \<longleftrightarrow> True"

fun table_lost :: "event \<Rightarrow> config \<Rightarrow> bool" where
  "table_lost (Read_table table dma post) (q, b, cb) \<longleftrightarrow> q = Wait_info \<and> RECV_INFO \<le> cb_state cb \<and> table = 0 \<and> post = 0"
| "table_lost _ c \<longleftrightarrow> False"

text \<open>What no handler writes.\<close>

definition frame :: "krping_conn \<Rightarrow> krping_conn \<Rightarrow> bool" where
  "frame cb cb' \<longleftrightarrow> cb_server cb' = cb_server cb \<and> cm_id cb' = cm_id cb \<and> has_qp cb' = has_qp cb \<and> qp cb' = qp cb \<and>
     has_buffers cb' = has_buffers cb \<and> rq_wr cb' = rq_wr cb \<and> vslotusing cb' = vslotusing cb \<and> send_buf cb' = send_buf cb \<and>
     sq_wr cb' = sq_wr cb \<and> sem_read_able cb' = sem_read_able cb \<and> length (recv_buf cb') = length (recv_buf cb)"

text \<open>A handler that adds no posted receive, and leaves the identifier of the child alone.\<close>

lemma frame_posted:
  assumes ok: "handler_ok q cb" and f: "frame cb cb'" and p: "set (posted cb') \<subseteq> set (posted cb)"
    and c: "child_cm_id cb' = child_cm_id cb" and st: "cb_state cb' = CONNECT_REQUEST \<Longrightarrow> cb_state cb = CONNECT_REQUEST"
  shows "handler_ok q cb'"
proof -
  have e: "posted cb = [] \<Longrightarrow> posted cb' = []"
    using p by simp
  have "slots_ok cb'"
    using ok f p e by (auto simp: handler_ok_def slots_ok_def frame_def)
  moreover have "ids_ok cb'"
    using ok f c st by (simp add: handler_ok_def ids_ok_def frame_def)
  moreover have "id_of cb' = id_of cb"
    using f c by (simp add: frame_def id_of_def)
  with ok f e have "made q cb'"
    by (simp add: handler_ok_def made_def frame_def)
  ultimately show ?thesis
    by (simp add: handler_ok_def)
qed

lemma frame_ok:
  assumes "handler_ok q cb" and "frame cb cb'" and "posted cb' = posted cb" and "child_cm_id cb' = child_cm_id cb"
    and "cb_state cb' = CONNECT_REQUEST \<Longrightarrow> cb_state cb = CONNECT_REQUEST"
  shows "handler_ok q cb'"
  using assms by (intro frame_posted [OF assms(1,2)]) simp_all

lemma cm_event_ok:
  assumes "handler_ok q cb"
  shows "handler_ok q (krping_cma_event_handler e cb)"
proof (cases "e = CONNECT_REQUEST_EV")
  case True
  with assms show ?thesis
    by (simp add: handler_ok_def ok_defs id_of_def has_qp_def has_buffers_def)
next
  case False
  show ?thesis
    by (rule frame_ok [OF assms]; use False in \<open>cases e; simp add: frame_def has_qp_def has_buffers_def\<close>)
qed

lemma slot_uint: "0 \<le> slot \<Longrightarrow> slot < 64 \<Longrightarrow> uint (of_int slot :: u64) = slot"
  by (rule uint_of_int64) auto

lemma set_buffer_info_ok:
  assumes "0 \<le> slot" and "slot < int (length (recv_buf cb))" and "recv_buf cb ! nat slot = Buffer_info i"
  shows "set_buffer_info slot cb = Some (cb\<lparr>remote_pcount := bi_size i, remote_rkey := bi_rkey i,
         remotenodeID := bi_instanceno i, remote_dmabuf_ptr := bi_buf i, cb_state := RECV_INFO\<rparr>)"
  using assms by (simp add: set_buffer_info_def arr_simps)

text \<open>The handler of a message posts the slot again, or leaves it out.\<close>

lemma universal_recv_ok:
  assumes "0 \<le> slot" and "slot < 64" and "length (recv_buf cb) = 64" and "length (rq_wr cb) = 64" and "qp cb = Live"
    and "imm = 2 \<Longrightarrow> \<exists>i. recv_buf cb ! nat slot = Buffer_info i"
  shows "\<exists>cb'. universal_recv_handler repost imm slot cb = Some cb' \<and> frame cb cb' \<and>
    posted cb' = (if repost slot = 0 then posted cb @ [slot] else posted cb) \<and> child_cm_id cb' = child_cm_id cb \<and>
    (cb_state cb' = CONNECT_REQUEST \<longrightarrow> cb_state cb = CONNECT_REQUEST)"
proof (cases "imm = 2")
  case True
  with assms obtain i where "recv_buf cb ! nat slot = Buffer_info i"
    by blast
  with True assms show ?thesis
    by (simp add: universal_recv_handler_def set_buffer_info_ok arr_simps frame_def has_qp_def has_buffers_def)
next
  case False
  with assms show ?thesis
    by (simp add: universal_recv_handler_def arr_simps frame_def has_qp_def has_buffers_def)
qed

lemma frame_trans: "frame a b \<Longrightarrow> frame b c \<Longrightarrow> frame a c"
  by (simp add: frame_def)

lemma arrive_ok:
  assumes ok: "handler_ok q cb" and d: "imm = 2 \<Longrightarrow> \<exists>i. data = Buffer_info i"
  shows "\<exists>cb'. arrive slot imm data repost cb = Some cb' \<and> handler_ok q cb'"
proof (cases "slot \<in> set (posted cb)")
  case True
  define c where "c = cb\<lparr>recv_buf := (recv_buf cb)[nat slot := data], posted := remove1 slot (posted cb)\<rparr>"
  have p: "0 \<le> slot" "slot < 64" "length (recv_buf cb) = 64" "length (rq_wr cb) = 64" "qp cb = Live"
    using True ok by (auto simp: handler_ok_def slots_ok_def)
  have f: "frame cb c" "child_cm_id c = child_cm_id cb" "cb_state c = cb_state cb" "posted c = remove1 slot (posted cb)"
    by (simp_all add: c_def frame_def has_qp_def has_buffers_def)
  have c: "length (recv_buf c) = 64" "length (rq_wr c) = 64" "qp c = Live" "imm = 2 \<Longrightarrow> \<exists>i. recv_buf c ! nat slot = Buffer_info i"
    using p d by (simp_all add: c_def)
  obtain cb' where u: "universal_recv_handler (\<lambda>_. repost) imm slot c = Some cb'" "frame c cb'"
    "posted cb' = (if repost = 0 then posted c @ [slot] else posted c)" "child_cm_id cb' = child_cm_id c"
    "cb_state cb' = CONNECT_REQUEST \<longrightarrow> cb_state c = CONNECT_REQUEST"
    using universal_recv_ok [OF p(1,2) c, of imm "\<lambda>_. repost"] by blast
  have s: "set (remove1 slot (posted cb)) \<subseteq> set (posted cb)"
    by (rule set_remove1_subset)
  have "handler_ok q c"
    using s by (intro frame_posted [OF ok f(1)]) (simp_all add: f)
  moreover have "handler_ok q cb'"
  proof (rule frame_posted [OF ok frame_trans [OF f(1) u(2)]])
    show "set (posted cb') \<subseteq> set (posted cb)"
      using s True by (auto simp: u f)
  qed (use u f in auto)
  ultimately show ?thesis
    using True u(1) p by (simp add: arrive_def krping_cq_event_handler_recv_def c_def slot_uint)
next
  case False
  with ok show ?thesis
    by (simp add: arrive_def)
qed

lemma cq_error_ok: "handler_ok q cb \<Longrightarrow> handler_ok q (cq_error cb)"
  by (erule frame_ok) (simp_all add: cq_error_def frame_def has_qp_def has_buffers_def)

lemma ack_ok: "handler_ok q cb \<Longrightarrow> handler_ok q (cb\<lparr>sem_verb_ack := n\<rparr>)"
  by (erule frame_ok) (simp_all add: frame_def has_qp_def has_buffers_def)

lemma table_ok: "handler_ok q cb \<Longrightarrow> handler_ok q (cb\<lparr>remote_addr := xs\<rparr>)"
  by (erule frame_ok) (simp_all add: frame_def has_qp_def has_buffers_def)

lemma read_ok: "handler_ok q cb \<Longrightarrow> handler_ok q (cb\<lparr>remote_addr := xs, sem_read := n\<rparr>)"
  by (erule frame_ok) (simp_all add: frame_def has_qp_def has_buffers_def)

lemma read_done_ok:
  assumes "handler_ok q cb" and "sem_read cb = 0"
  shows "\<exists>cb'. read_done table st cb = Some cb' \<and> handler_ok q cb'"
proof (cases "cb_state cb = ERROR")
  case True
  with assms show ?thesis
    by (simp add: read_done_def krping_cq_event_handler_send_def table_ok)
next
  case False
  with assms show ?thesis
    by (cases "st = 0") (simp_all add: read_done_def krping_cq_event_handler_send_def cq_error_ok read_ok)
qed

lemma handler_next_ok:
  assumes "handler_ok q cb"
  shows "\<exists>cb'. handler_next p e q cb = Some cb' \<and> handler_ok q cb'"
  using assms read_done_ok [OF assms] arrive_ok [OF assms]
  by (cases e)
    (auto simp: cm_event_ok krping_cq_event_handler_send_def krping_cq_event_handler_recv_def cq_error_ok ack_ok)

lemma place_ok:
  assumes "handler_ok q cb" and "is_bound q' \<Longrightarrow> id_of cb = Live" and "is_set_up q' \<Longrightarrow> is_set_up q"
    and "before_setup q' \<Longrightarrow> before_setup q" and "before_read q' \<Longrightarrow> before_read q" and "q' = Wait_route \<Longrightarrow> cb_server cb = 0"
  shows "handler_ok q' cb"
  using assms by (auto simp: handler_ok_def made_def)

lemma wake_ok:
  assumes "handler_ok q cb"
  shows "\<exists>q' cb'. thread_wake q cb = Some (q', cb') \<and> handler_ok q' cb'"
proof -
  have i: "ids_ok cb" "is_bound q \<Longrightarrow> id_of cb = Live" "q = Wait_route \<Longrightarrow> cb_server cb = 0"
    using assms by (simp_all add: handler_ok_def made_def)
  have d: "id_of cb = Live \<Longrightarrow> disconnect_cb cb = Some cb"
    by (simp add: disconnect_cb_def id_of_def)
  show ?thesis
  proof (cases q)
    case Wait_request
    have "handler_ok Stopped cb"
      using assms by (rule place_ok) (simp_all add: places)
    moreover have "handler_ok Bound cb" if "cb_state cb = CONNECT_REQUEST"
      using assms by (rule place_ok) (use that i Wait_request in \<open>simp_all add: places ids_ok_def id_of_def\<close>)
    ultimately show ?thesis
      using Wait_request assms by (auto simp: bind_server_woken_def)
  next
    case Wait_route
    have "handler_ok Stopped cb"
      using assms by (rule place_ok) (simp_all add: places)
    moreover have "handler_ok Bound cb"
      using assms by (rule place_ok) (use i Wait_route in \<open>simp_all add: places ids_ok_def id_of_def\<close>)
    ultimately show ?thesis
      using Wait_route assms by auto
  next
    case Wait_connected
    have "handler_ok Stopped cb"
      using assms by (rule place_ok) (simp_all add: places)
    moreover have "handler_ok Linked cb"
      using assms by (rule place_ok) (use i Wait_connected in \<open>simp_all add: places\<close>)
    moreover have "id_of cb = Live"
      using i Wait_connected by (simp add: places)
    ultimately show ?thesis
      using Wait_connected assms d by (auto simp: run_connected_def)
  qed (use assms in auto)
qed

lemma post_receives_ok:
  assumes "qp cb = Live" and "length (rq_wr cb) = 64" and "set is \<subseteq> {0..<64}"
  shows "\<exists>ret ps. post_receives post is cb = Some (ret, cb\<lparr>posted := posted cb @ ps\<rparr>) \<and> set ps \<subseteq> set is \<and>
    (ret = 0 \<longrightarrow> ps = is)"
  using assms
proof (induction "is" arbitrary: cb)
  case Nil
  show ?case
    by (intro exI [of _ 0] exI [of _ "[]"]) simp
next
  case (Cons i "is")
  have w: "0 \<le> i" "i < int (length (rq_wr cb))"
    using Cons.prems by auto
  show ?case
  proof (cases "post i = 0")
    case True
    obtain ret ps where "post_receives post is (cb\<lparr>posted := posted cb @ [i]\<rparr>)
        = Some (ret, cb\<lparr>posted := posted cb @ [i] @ ps\<rparr>)" "set ps \<subseteq> set is" "ret = 0 \<longrightarrow> ps = is"
      using Cons.IH [of "cb\<lparr>posted := posted cb @ [i]\<rparr>"] Cons.prems by auto
    then show ?thesis
      using True w Cons.prems by (intro exI [of _ ret] exI [of _ "i # ps"]) (auto simp: arr_simps)
  next
    case False
    then show ?thesis
      using w Cons.prems by (intro exI [of _ "post i"] exI [of _ "[]"]) (simp add: arr_simps)
  qed
qed

lemma map_bigspace_ok:
  assumes b: "space_ok b" and m: "\<And>xs. length (map_sg xs) = length xs"
  shows "\<exists>b'. map_bigspace map_sg b = Some b' \<and> space_ok b'"
proof (cases "sg_dma b ! 0 = 0")
  case True
  define b1 where "b1 = b\<lparr>sg_dma := map_sg (sg b)\<rparr>"
  define P where "P = (\<lambda>(i :: int) b'. space_ok b' \<and> numbigpages b' = numbigpages b)"
  have "\<exists>b'. for_up 0 (numbigpages b) (\<lambda>i b. do {
         v \<leftarrow> arr_get (sg_dma b) i;
         dp \<leftarrow> arr_set (dmapages b) i v;
         Some (b\<lparr>dmapages := dp\<rparr>) }) b1 = Some b' \<and> P (numbigpages b) b'"
  proof (rule for_up_rule)
    show "P 0 b1"
      using b m by (simp add: P_def b1_def space_ok_def)
    show "0 \<le> numbigpages b"
      using b by (simp add: space_ok_def)
    show "\<exists>b3. do { v \<leftarrow> arr_get (sg_dma b2) i; dp \<leftarrow> arr_set (dmapages b2) i v; Some (b2\<lparr>dmapages := dp\<rparr>) } = Some b3 \<and> P (i + 1) b3"
      if "0 \<le> i" "i < numbigpages b" "P i b2" for i b2
      using that by (simp add: P_def space_ok_def arr_simps)
  qed
  then show ?thesis
    using True b by (auto simp: map_bigspace_def space_ok_def arr_simps b1_def P_def)
next
  case False
  with b show ?thesis
    by (simp add: map_bigspace_def space_ok_def arr_simps)
qed

text \<open>The set-up of a bound connection: it stops, or it has made everything.\<close>

lemma setup_buffers_value:
  assumes "pd cb = Live" and "space_ok b" and "\<And>xs. length (map_sg xs) = length xs"
  shows "\<exists>ret b' cb'. krping_setup_buffers map_sg a b cb = Some (ret, b', cb') \<and> space_ok b'"
  using assms map_bigspace_ok [of b map_sg] by (auto simp: krping_setup_buffers_def Let_def)

lemma setup_buffers_ok':
  assumes "krping_setup_buffers map_sg a b cb = Some (ret, b', cb')"
  shows "posted cb' = posted cb \<and> sem_read_able cb' = sem_read_able cb \<and> ids_ok cb' = ids_ok cb \<and> id_of cb' = id_of cb \<and>
    pd cb' = pd cb \<and> qp cb' = qp cb \<and> has_qp cb' = has_qp cb \<and> vslotusing cb' = vslotusing cb \<and>
    send_buf cb' = send_buf cb \<and> recv_buf cb' = recv_buf cb \<and>
    (length (sq_wr cb) = 24 \<longrightarrow> length (sq_wr cb') = 24) \<and>
    (ret = 0 \<longrightarrow> has_buffers cb' \<and> length (rq_wr cb') = 64)"
  using assms
  by (auto simp: krping_setup_buffers_def krping_setup_wr_def Let_def ids_ok_def id_of_def has_qp_def has_buffers_def
      VERB_RECV_SLOT_def VERB_SEND_SLOT_def split: if_splits bind_splits)

lemma setup_qp_keeps:
  assumes "krping_setup_qp a (id_of cb) cb = Some (ret, cb')"
  shows "posted cb' = posted cb \<and> sem_read_able cb' = sem_read_able cb \<and> ids_ok cb' = ids_ok cb \<and> id_of cb' = id_of cb \<and>
    vslotusing cb' = vslotusing cb \<and> send_buf cb' = send_buf cb \<and> recv_buf cb' = recv_buf cb \<and> sq_wr cb' = sq_wr cb \<and>
    (ret = 0 \<longrightarrow> has_qp cb')"
  using assms
  by (auto simp: conn_setup_defs Let_def ids_ok_def id_of_def has_qp_def split: if_splits bind_splits)

lemma recv_slots_in: "set (map int [0..<nat VERB_RECV_SLOT]) \<subseteq> {0..<64}"
  by (auto simp: VERB_RECV_SLOT_def)

lemma stopped_ok:
  assumes "slots_ok cb" and "ids_ok cb"
  shows "handler_ok Stopped cb"
  using assms by (simp add: handler_ok_def made_def places)

lemma run_setup_ok:
  assumes b: "space_ok b" and h: "handler_ok Bound cb" and m: "\<And>xs. length (s_map_sg a xs) = length xs"
  shows "\<exists>c'. run_setup a b cb = Some c' \<and> conn_ok c'"
proof -
  have cb: "slots_ok cb" "ids_ok cb" "id_of cb = Live" "posted cb = []" "sem_read_able cb = 1"
    using h by (auto simp: handler_ok_def made_def places)
  obtain r1 c1 where q: "krping_setup_qp (s_qp a) (id_of cb) cb = Some (r1, c1)"
    using setup_qp_has_value [OF cb(3), of "s_qp a"] by auto
  note k1 = setup_qp_keeps [OF q]
  define d1 where "d1 = c1\<lparr>exitstatus := 1\<rparr>"
  have d1: "slots_ok d1" "ids_ok d1" "id_of d1 = Live" "posted d1 = []" "sem_read_able d1 = 1" "r1 = 0 \<longrightarrow> has_qp d1"
    using k1 cb by (auto simp: d1_def slots_ok_def ids_ok_def id_of_def has_qp_def)
  show ?thesis
  proof (cases "r1 = 0")
    case False
    then show ?thesis
      using b stopped_ok [OF d1(1,2)] q by (simp add: run_setup_def d1_def)
  next
    case True
    then have p: "has_qp d1" "pd d1 = Live" "qp d1 = Live"
      using d1 by (auto simp: has_qp_def)
    obtain r2 b2 c2 where s: "krping_setup_buffers (s_map_sg a) (s_buffers a) b d1 = Some (r2, b2, c2)" "space_ok b2"
      using setup_buffers_value [OF p(2) b m] by blast
    note k2 = setup_buffers_ok' [OF s(1)]
    define d2 where "d2 = c2\<lparr>exitstatus := 0\<rparr>"
    have d2: "slots_ok d2" "ids_ok d2" "id_of d2 = Live" "posted d2 = []" "sem_read_able d2 = 1" "has_qp d2" "qp d2 = Live"
      "r2 = 0 \<longrightarrow> has_buffers d2 \<and> length (rq_wr d2) = 64"
      using k2 d1 p by (auto simp: d2_def slots_ok_def ids_ok_def id_of_def has_qp_def has_buffers_def)
    show ?thesis
    proof (cases "r2 = 0")
      case False
      then show ?thesis
        using True q s stopped_ok [OF d2(1,2)] by (simp add: run_setup_def d1_def d2_def)
    next
      case r2: True
      have w: "length (rq_wr d2) = 64" "has_buffers d2"
        using d2 r2 by simp_all
      obtain r3 ps where t: "post_receives (s_post a) (map int [0..<nat VERB_RECV_SLOT]) d2
          = Some (r3, d2\<lparr>posted := posted d2 @ ps\<rparr>)" "set ps \<subseteq> set (map int [0..<nat VERB_RECV_SLOT])"
        using post_receives_ok [OF d2(7) w(1) recv_slots_in, of "s_post a"] by blast
      define d3 where "d3 = d2\<lparr>posted := posted d2 @ ps\<rparr>"
      have d3: "slots_ok d3" "ids_ok d3" "id_of d3 = Live" "has_qp d3" "has_buffers d3" "length (rq_wr d3) = 64" "sem_read_able d3 = 1"
        using d2 w t(2) by (auto simp: d3_def slots_ok_def ids_ok_def id_of_def has_qp_def has_buffers_def VERB_RECV_SLOT_def)
      have "handler_ok Wait_connected d3"
        using d3 by (simp add: handler_ok_def made_def places)
      moreover have "disconnect_cb d3 = Some d3"
        using d3(3) by (simp add: disconnect_cb_def id_of_def)
      ultimately show ?thesis
        using True r2 q s t stopped_ok [OF d3(1,2)]
        by (simp add: run_setup_def flip: d1_def d2_def d3_def)
    qed
  qed
qed

lemma send_own_info_ok:
  assumes "handler_ok Linked cb"
  shows "\<exists>cb'. send_own_info n cb = Some cb' \<and> handler_ok Wait_info cb'"
proof -
  have h: "slots_ok cb" "has_qp cb" "has_buffers cb" "made Linked cb" "ids_ok cb"
    using assms by (simp_all add: handler_ok_def made_def places)
  have v: "0 \<le> (vslotusing cb + 1) smod 24" "(vslotusing cb + 1) smod 24 < 24"
    using h(1) smod_bounds [of "vslotusing cb + 1" 24] by (simp_all add: slots_ok_def)
  show ?thesis
    using h v
    by (auto simp: send_own_info_def Let_def arr_simps slots_ok_def has_qp_def has_buffers_def handler_ok_def made_def places
        ids_ok_def id_of_def VERB_SEND_SLOT_def)
qed

lemma read_bufferptr_ok:
  assumes "handler_ok Wait_info cb" and "table \<noteq> 0 \<or> post \<noteq> 0"
  shows "\<exists>q cb'. read_bufferptr table dma post cb = Some (q, cb') \<and> handler_ok q cb'"
  using assms
  by (auto simp: read_bufferptr_def Let_def slots_ok_def has_qp_def has_buffers_def handler_ok_def made_def places
      ids_ok_def id_of_def)

lemma bufferptr_read_ok:
  assumes "handler_ok Wait_read cb"
  shows "handler_ok Ready (bufferptr_read cb)"
  using assms
  by (auto simp: bufferptr_read_def slots_ok_def has_qp_def has_buffers_def handler_ok_def made_def places ids_ok_def id_of_def)

lemma bind_ok:
  assumes "handler_ok Start cb"
  shows "handler_ok Stopped cb \<and> handler_ok Wait_request cb \<and> (cb_server cb = 0 \<longrightarrow> handler_ok Wait_route cb)"
  using assms by (auto intro: place_ok [OF assms] simp: places)

lemma thread_next_ok:
  assumes "conn_ok (q, b, cb)" and "mapped_event e (q, b, cb)" and "\<not> table_lost e (q, b, cb)"
  shows "\<exists>c'. thread_next e (q, b, cb) = Some c' \<and> conn_ok c'"
proof (cases e)
  case (Send_info n)
  then show ?thesis
    using assms send_own_info_ok [of cb n] by auto
next
  case (Read_table table dma post)
  then show ?thesis
    using assms read_bufferptr_ok [of cb table post dma] by (cases "q = Wait_info") auto
next
  case (Setup a)
  then show ?thesis
    using assms run_setup_ok [of b cb a] by auto
next
  case (Bind x y)
  then show ?thesis
    using assms bind_ok [of cb] by auto
next
  case Wake
  then show ?thesis
    using assms wake_ok [of q cb] by auto
qed (use assms bufferptr_read_ok [of cb] in auto)

lemma conn_next_ok:
  assumes "conn_ok c" and "mapped_event e c" and "\<not> table_lost e c"
  shows "\<exists>c'. conn_next p e c = Some c' \<and> conn_ok c'"
proof -
  obtain q b cb where c: "c = (q, b, cb)"
    by (cases c)
  obtain q1 b1 cb1 where t: "thread_next e c = Some (q1, b1, cb1)" "conn_ok (q1, b1, cb1)"
    using thread_next_ok [of q b cb e] assms c by auto
  then obtain cb2 where "handler_next p e q1 cb1 = Some cb2" "handler_ok q1 cb2"
    using handler_next_ok [of q1 cb1 p e] by auto
  with t show ?thesis
    by (simp add: conn_next_def)
qed

lemma conn_next_lost: "table_lost e c \<Longrightarrow> conn_next p e c = None"
  by (cases e; cases c) (auto simp: conn_next_def read_bufferptr_def Let_def)

end
