(* ===== verification/Krping_Ready.thy ===== *)
theory Krping_Ready
  imports Krping_Handshake
begin

text \<open>
  What the state machine of a connection promises: every event has a meaning, an orderly run ends with
  both tables known, and the ways in which a run that is not orderly goes wrong.
\<close>

section \<open>Orderly runs\<close>

text \<open>No call fails, and the messages of the connection manager and of the peer come in their order.\<close>

fun no_failure :: "setup_answers \<Rightarrow> bool" where
  "no_failure a \<longleftrightarrow> a_pd (s_qp a) = 0 \<and> a_cq_recv (s_qp a) = 0 \<and> a_cq_send (s_qp a) = 0 \<and> a_notify_send (s_qp a) = 0 \<and>
     a_notify_recv (s_qp a) = 0 \<and> a_qp (s_qp a) = 0 \<and> a_mr (s_buffers a) = 0 \<and> (\<forall>i. s_post a i = 0) \<and> s_connect a = 0 \<and>
     (\<forall>xs. length (s_map_sg a xs) = length xs)"

fun in_order :: "cm_event \<Rightarrow> pc \<Rightarrow> krping_conn \<Rightarrow> bool" where
  "in_order ADDR_RESOLVED_EV q cb \<longleftrightarrow> q = Wait_route \<and> cb_state cb = IDLE"
| "in_order ROUTE_RESOLVED_EV q cb \<longleftrightarrow> q = Wait_route \<and> cb_state cb = ADDR_RESOLVED"
| "in_order CONNECT_REQUEST_EV q cb \<longleftrightarrow> q = Wait_request \<and> cb_state cb = IDLE"
| "in_order ESTABLISHED_EV q cb \<longleftrightarrow> q = Wait_connected \<and> cb_state cb \<in> {ROUTE_RESOLVED, CONNECT_REQUEST}"
| "in_order _ q cb \<longleftrightarrow> False"

fun orderly :: "event \<Rightarrow> config \<Rightarrow> bool" where
  "orderly (Bind x y) c \<longleftrightarrow> x = 0 \<and> y = 0"
| "orderly (Setup a) c \<longleftrightarrow> no_failure a"
| "orderly (Read_table table dma post) c \<longleftrightarrow> table \<noteq> 0 \<and> post = 0"
| "orderly (Cm e) (q, b, cb) \<longleftrightarrow> in_order e q cb"
| "orderly (Info_arrives slot repost) (q, b, cb) \<longleftrightarrow> repost = 0 \<and> cb_state cb = CONNECTED"
| "orderly (Message_arrives slot imm data repost) c \<longleftrightarrow> repost = 0"
| "orderly (Receive_fails st) c \<longleftrightarrow> False"
| "orderly (Read_completes st) c \<longleftrightarrow> st = 0"
| "orderly Poll_fails c \<longleftrightarrow> False"
| "orderly _ c \<longleftrightarrow> True"

section \<open>Where a run can be\<close>

fun states_at :: "bool \<Rightarrow> pc \<Rightarrow> test_state set" where
  "states_at server Start = {IDLE}"
| "states_at server Wait_request = (if server then {IDLE, CONNECT_REQUEST} else {})"
| "states_at server Wait_route = (if server then {} else {IDLE, ADDR_RESOLVED, ROUTE_RESOLVED})"
| "states_at server Bound = {if server then CONNECT_REQUEST else ROUTE_RESOLVED}"
| "states_at server Wait_connected = {if server then CONNECT_REQUEST else ROUTE_RESOLVED, CONNECTED, RECV_INFO}"
| "states_at server Linked = {CONNECTED, RECV_INFO}"
| "states_at server Wait_info = {CONNECTED, RECV_INFO}"
| "states_at server Wait_read = {RECV_INFO}"
| "states_at server Ready = {RDMA_READY}"
| "states_at server Stopped = {}"

definition knows :: "peer \<Rightarrow> krping_conn \<Rightarrow> bool" where
  "knows p cb \<longleftrightarrow> remote_pcount cb = bi_size (p_info p) \<and> remote_rkey cb = bi_rkey (p_info p) \<and>
     remotenodeID cb = bi_instanceno (p_info p) \<and> remote_dmabuf_ptr cb = bi_buf (p_info p)"

definition reading :: "peer \<Rightarrow> pc \<Rightarrow> krping_conn \<Rightarrow> bool" where
  "reading p q cb \<longleftrightarrow>
     sem_ready cb = (if q = Ready then 1 else 0) \<and>
     (if q = Wait_read then dmabuf_mapping cb \<and> (sem_read cb = 0 \<and> length (remote_addr cb) = length (p_table p) \<or>
        sem_read cb = 1 \<and> remote_addr cb = p_table p)
      else sem_read cb = 0 \<and> (q = Ready \<longrightarrow> dmabuf_mapping cb \<and> remote_addr cb = p_table p))"

definition tracked :: "peer \<Rightarrow> pc \<Rightarrow> krping_conn \<Rightarrow> bool" where
  "tracked p q cb \<longleftrightarrow> cb_state cb \<in> states_at (cb_server cb \<noteq> 0) q \<and>
     (RECV_INFO \<le> cb_state cb \<longrightarrow> knows p cb) \<and> reading p q cb \<and>
     (is_set_up q \<longrightarrow> exitstatus cb = 0 \<and> posted cb \<noteq> []) \<and>
     (cb_server cb = 0 \<longrightarrow> child_cm_id cb \<noteq> Live)"

fun on_track :: "peer \<Rightarrow> config \<Rightarrow> bool" where
  "on_track p (q, b, cb) \<longleftrightarrow> conn_ok (q, b, cb) \<and> tracked p q cb"

definition table_sent :: "peer \<Rightarrow> bool" where
  "table_sent p \<longleftrightarrow> bi_size (p_info p) = int (length (p_table p))"

lemma info_order: "RECV_INFO \<le> st \<longleftrightarrow> st \<in> {RECV_INFO, RDMA_READY, ERROR}"
  by (cases st) (simp_all add: state_order)

lemma request_order: "CONNECT_REQUEST \<le> st \<longleftrightarrow> st \<noteq> IDLE"
  by (cases st) (simp_all add: state_order)

lemma route_order: "ROUTE_RESOLVED \<le> st \<longleftrightarrow> st \<notin> {IDLE, CONNECT_REQUEST, ADDR_RESOLVED}"
  by (cases st) (simp_all add: state_order)

lemma connected_order: "CONNECTED \<le> st \<longleftrightarrow> st \<in> {CONNECTED, RECV_INFO, RDMA_READY, ERROR}"
  by (cases st) (simp_all add: state_order)

lemmas orders = info_order request_order route_order connected_order

text \<open>Handlers of an orderly run.\<close>

lemma cm_tracked:
  assumes "tracked p q cb" and "in_order e q cb"
  shows "tracked p q (krping_cma_event_handler e cb)"
  using assms by (cases e) (auto simp: tracked_def orders reading_def knows_def split: if_split_asm)

lemma arrive_tracked:
  assumes t: "tracked p q cb" and ok: "handler_ok q cb" and r: "imm = 2 \<Longrightarrow> data = Buffer_info (p_info p) \<and> cb_state cb = CONNECTED"
    and a: "arrive slot imm data 0 cb = Some cb'"
  shows "tracked p q cb'"
proof (cases "slot \<in> set (posted cb)")
  case True
  define c where "c = cb\<lparr>recv_buf := (recv_buf cb)[nat slot := data], posted := remove1 slot (posted cb)\<rparr>"
  have p: "0 \<le> slot" "slot < 64" "length (recv_buf cb) = 64" "length (rq_wr cb) = 64" "qp cb = Live"
    using True ok by (auto simp: handler_ok_def slots_ok_def)
  have e: "cb_state cb \<noteq> ERROR"
    using t by (cases q) (auto simp: tracked_def split: if_split_asm)
  have u: "universal_recv_handler (\<lambda>_. 0) imm slot c = Some cb'"
    using a True e p by (simp add: arrive_def krping_cq_event_handler_recv_def slot_uint c_def split: bind_splits)
  show ?thesis
  proof (cases "imm = 2")
    case i: True
    have "cb' = c\<lparr>remote_pcount := bi_size (p_info p), remote_rkey := bi_rkey (p_info p),
        remotenodeID := bi_instanceno (p_info p), remote_dmabuf_ptr := bi_buf (p_info p), cb_state := RECV_INFO,
        posted := posted c @ [slot]\<rparr>"
      using u i r p by (simp add: universal_recv_handler_def set_buffer_info_def arr_simps c_def)
    moreover have "RECV_INFO \<in> states_at (cb_server cb \<noteq> 0) q" "q \<noteq> Wait_read" "q \<noteq> Ready"
      using t r [OF i] by (cases q; auto simp: tracked_def split: if_split_asm)+
    ultimately show ?thesis
      using t by (simp add: tracked_def c_def knows_def reading_def)
  next
    case False
    then have "cb' = c\<lparr>delivered := delivered cb', posted := posted c @ [slot]\<rparr>"
      using u p by (auto simp: universal_recv_handler_def arr_simps c_def split: if_split_asm)
    then obtain d where "cb' = c\<lparr>delivered := d, posted := posted c @ [slot]\<rparr>"
      by blast
    with t show ?thesis
      by (simp add: tracked_def c_def knows_def reading_def)
  qed
next
  case False
  with a t show ?thesis
    by (simp add: arrive_def)
qed

lemma not_error: "tracked p q cb \<Longrightarrow> cb_state cb \<noteq> ERROR"
  by (cases q) (auto simp: tracked_def split: if_split_asm)

lemma handler_tracked:
  assumes t: "tracked p q cb" and ok: "handler_ok q cb" and o: "orderly e (q, b, cb)" and n: "handler_next p e q cb = Some cb'"
  shows "tracked p q cb'"
proof (cases e)
  case (Cm x)
  then show ?thesis
    using n o cm_tracked [OF t] by auto
next
  case (Info_arrives slot repost)
  then show ?thesis
    using n o arrive_tracked [OF t ok, of 2 _ slot cb'] by auto
next
  case (Message_arrives slot imm data repost)
  then show ?thesis
    using n o t arrive_tracked [OF t ok, of imm data slot cb'] by (auto split: if_split_asm)
next
  case (Read_completes st)
  show ?thesis
  proof (cases "q = Wait_read \<and> sem_read cb = 0")
    case True
    then have "length (remote_addr cb) = length (p_table p)"
      using t by (simp add: tracked_def reading_def)
    then have "cb' = cb\<lparr>remote_addr := p_table p, sem_read := 1\<rparr>"
      using n o Read_completes True not_error [OF t]
      by (simp add: read_done_def krping_cq_event_handler_send_def)
    then show ?thesis
      using True t by (simp add: tracked_def reading_def knows_def)
  next
    case False
    then show ?thesis
      using n Read_completes t by (auto split: if_split_asm)
  qed
next
  case Sent
  then show ?thesis
    using n t not_error [OF t]
    by (auto simp: krping_cq_event_handler_send_def tracked_def reading_def knows_def)
qed (use assms in auto)

section \<open>The thread of an orderly run\<close>

text \<open>What the set-up leaves alone.\<close>

definition same_link :: "krping_conn \<Rightarrow> krping_conn \<Rightarrow> bool" where
  "same_link cb cb' \<longleftrightarrow> cb_state cb' = cb_state cb \<and> cb_server cb' = cb_server cb \<and> 
     (\<forall>p. knows p cb' = knows p cb) \<and> sem_ready cb' = sem_ready cb \<and> sem_read cb' = sem_read cb \<and>
     child_cm_id cb' = child_cm_id cb"

lemma setup_orderly:
  assumes b: "space_ok b" and h: "handler_ok Bound cb" and a: "no_failure a"
  shows "\<exists>b' cb'. run_setup a b cb = Some (Wait_connected, b', cb') \<and> same_link cb cb' \<and> exitstatus cb' = 0 \<and> posted cb' \<noteq> []"
proof -
  have cb: "id_of cb = Live" "posted cb = []"
    using h by (auto simp: handler_ok_def made_def places)
  define d1 where "d1 = cb\<lparr>pd := Live, cq_recv := Live, cq_send := Live, qp := Live, exitstatus := 1\<rparr>"
  have q: "krping_setup_qp (s_qp a) (id_of cb) cb = Some (0, cb\<lparr>pd := Live, cq_recv := Live, cq_send := Live, qp := Live\<rparr>)"
    using a cb by (intro setup_qp_succeeds) auto
  have d1: "pd d1 = Live" "qp d1 = Live" "posted d1 = []" "same_link cb d1"
    using cb by (simp_all add: d1_def same_link_def knows_def)
  obtain b2 where m: "map_bigspace (s_map_sg a) b = Some b2"
    using map_bigspace_ok [OF b, of "s_map_sg a"] a by auto
  define d2 where "d2 = krping_setup_wr (s_buffers a) (d1\<lparr>recv_dma_addr := a_recv_addr (s_buffers a), recv_mapping := True,
     send_mapping := True, dma_mr := Live, dma_rkey := a_rkey (s_buffers a), ptable_dma_addr := a_ptable_addr (s_buffers a),
     ptable_mapping := True\<rparr>)\<lparr>exitstatus := 0\<rparr>"
  have s: "krping_setup_buffers (s_map_sg a) (s_buffers a) b d1 =
      Some (0, b2, krping_setup_wr (s_buffers a) (d1\<lparr>recv_dma_addr := a_recv_addr (s_buffers a), recv_mapping := True,
     send_mapping := True, dma_mr := Live, dma_rkey := a_rkey (s_buffers a), ptable_dma_addr := a_ptable_addr (s_buffers a),
     ptable_mapping := True\<rparr>))"
    using a d1 m by (simp add: krping_setup_buffers_def)
  have d2: "qp d2 = Live" "posted d2 = []" "same_link d1 d2" "exitstatus d2 = 0" "length (rq_wr d2) = 64"
    using d1 by (simp_all add: d2_def krping_setup_wr_def same_link_def knows_def VERB_RECV_SLOT_def)
  obtain r3 ps where t: "post_receives (s_post a) (map int [0..<nat VERB_RECV_SLOT]) d2
      = Some (r3, d2\<lparr>posted := posted d2 @ ps\<rparr>)" "r3 = 0 \<longrightarrow> ps = map int [0..<nat VERB_RECV_SLOT]"
    using post_receives_ok [OF d2(1,5) recv_slots_in, of "s_post a"] by blast
  have z: "ret = 0" if "post_receives post is c = Some (ret, c')" "\<forall>i. post i = 0" for post "is" c ret c'
    using that by (induction "is" arbitrary: c) (auto split: bind_splits if_split_asm)
  have r3: "r3 = 0"
    using z [OF t(1)] a by simp
  have "run_setup a b cb = Some (Wait_connected, b2, d2\<lparr>posted := posted d2 @ ps\<rparr>)"
    using q s t(1) r3 a by (simp add: run_setup_def d1_def [symmetric] d2_def [symmetric])
  moreover have "posted (d2\<lparr>posted := posted d2 @ ps\<rparr>) \<noteq> []"
    using t(2) r3 by (simp add: VERB_RECV_SLOT_def)
  moreover have "same_link cb (d2\<lparr>posted := posted d2 @ ps\<rparr>)"
    using d1(4) d2(3) by (simp add: same_link_def knows_def)
  ultimately show ?thesis
    using d2(4) by (intro exI [of _ b2] exI [of _ "d2\<lparr>posted := posted d2 @ ps\<rparr>"]) simp
qed

lemma wake_tracked:
  assumes t: "tracked p q cb" and n: "thread_wake q cb = Some (q', cb')"
  shows "tracked p q' cb'"
proof (cases q)
  case Wait_request
  then show ?thesis
    using assms by (auto simp: tracked_def reading_def bind_server_woken_def orders places split: if_split_asm)
next
  case Wait_route
  then show ?thesis
    using assms by (auto simp: tracked_def reading_def bind_client_woken_def orders places split: if_split_asm)
next
  case Wait_connected
  then show ?thesis
    using assms by (auto simp: tracked_def reading_def run_connected_def connect_woken_def orders places split: if_split_asm)
qed (use assms in auto)

lemma thread_tracked:
  assumes t: "tracked p q cb" and ok: "conn_ok (q, b, cb)" and o: "orderly e (q, b, cb)" and p: "table_sent p"
    and n: "thread_next e (q, b, cb) = Some (q', b', cb')"
  shows "tracked p q' cb'"
proof (cases e)
  case Wake
  then show ?thesis
    using n wake_tracked [OF t] by (auto split: bind_splits)
next
  case (Bind x y)
  then show ?thesis
    using n o t by (auto simp: tracked_def reading_def krping_bind_server_def places orders split: if_split_asm)
next
  case (Setup a)
  show ?thesis
  proof (cases "q = Bound")
    case True
    have "space_ok b" "handler_ok Bound cb" "no_failure a"
      using ok o Setup True by simp_all
    then obtain b2 c2 where r: "run_setup a b cb = Some (Wait_connected, b2, c2)" "same_link cb c2" "exitstatus c2 = 0" "posted c2 \<noteq> []"
      using setup_orderly by blast
    have "q' = Wait_connected" "cb' = c2"
      using n r(1) Setup True by simp_all
    then show ?thesis
      using t r True by (auto simp: tracked_def reading_def same_link_def split: if_split_asm)
  next
    case False
    then show ?thesis
      using n Setup t by simp
  qed
next
  case (Send_info k)
  then show ?thesis
    using n t by (auto simp: tracked_def reading_def knows_def send_own_info_def Let_def places split: if_split_asm bind_splits)
next
  case (Read_table table dma post)
  show ?thesis
  proof (cases "q = Wait_info \<and> RECV_INFO \<le> cb_state cb")
    case True
    then have k: "cb_state cb = RECV_INFO" "knows p cb" "sem_ready cb = 0" "sem_read cb = 0" "exitstatus cb = 0" "posted cb \<noteq> []"
      "cb_server cb = 0 \<longrightarrow> child_cm_id cb \<noteq> Live"
      using t by (auto simp: tracked_def orders reading_def places)
    have r: "q' = Wait_read" "cb' = cb\<lparr>remote_addr := replicate (nat (remote_pcount cb)) 0, remote_dmabuf_addr := dma,
        dmabuf_mapping := True, sem_read_able := sem_read_able cb - 1\<rparr>"
      using n o True Read_table by (auto simp: read_bufferptr_def Let_def split: if_split_asm)
    have "nat (remote_pcount cb) = length (p_table p)"
      using k(2) p by (simp add: knows_def table_sent_def)
    then show ?thesis
      using k unfolding r by (simp add: tracked_def reading_def knows_def places)
  next
    case False
    then show ?thesis
      using n t Read_table by (auto split: if_split_asm)
  qed
next
  case Table_done
  then show ?thesis
    using n t by (auto simp: tracked_def reading_def knows_def bufferptr_read_def places orders split: if_split_asm)
qed (use n t in auto)

lemma orderly_sound: "orderly e c \<Longrightarrow> mapped_event e c \<and> \<not> table_lost e c"
  by (cases e; cases c) auto

lemma on_track_next:
  assumes t: "on_track p c" and o: "orderly e c" and p: "table_sent p"
  shows "\<exists>c'. conn_next p e c = Some c' \<and> on_track p c'"
proof -
  obtain q b cb where c: "c = (q, b, cb)"
    by (cases c)
  obtain q1 b1 cb1 where n: "thread_next e c = Some (q1, b1, cb1)" "conn_ok (q1, b1, cb1)"
    using thread_next_ok [of q b cb e] t orderly_sound [OF o] c by auto
  have t1: "tracked p q1 cb1"
    using thread_tracked [of p q cb b e] t o p n(1) c by simp
  obtain cb2 where h: "handler_next p e q1 cb1 = Some cb2" "handler_ok q1 cb2"
    using handler_next_ok [of q1 cb1 p e] n(2) by auto
  have "tracked p q1 cb2"
  proof (cases "thread_next e c = Some c")
    case True
    then show ?thesis
      using handler_tracked [of p q cb e b cb2] t o n h c by simp
  next
    case False
    then have "cb2 = cb1"
      using h c by (cases e) simp_all
    with t1 show ?thesis
      by simp
  qed
  with n h show ?thesis
    by (simp add: conn_next_def)
qed

section \<open>Every event has a meaning\<close>

definition conn_start :: "krping_sharedspace \<Rightarrow> int \<Rightarrow> int \<Rightarrow> int \<Rightarrow> config" where
  "conn_start b i node server = (Start, b, (init_cb i node server)\<lparr>cm_id := Live\<rparr>)"

lemma start_on_track: "space_ok b \<Longrightarrow> on_track p (conn_start b i node server)"
  by (simp add: conn_start_def init_cb_def handler_ok_def slots_ok_def ids_ok_def made_def places tracked_def reading_def orders
      VERB_RECV_SLOT_def VERB_SEND_SLOT_def)

lemma reaches_ok:
  assumes "reaches allowed p c c'" and "conn_ok c" and "\<And>e c. allowed e c \<Longrightarrow> mapped_event e c"
  shows "conn_ok c'"
  using assms
proof (induction rule: reaches.induct)
  case (step c' c'')
  then obtain e where "allowed e c'" "conn_next p e c' = Some c''"
    by (auto elim: conn_stepE)
  with step show ?case
    using conn_next_ok [of c' e p] conn_next_lost [of e c' p] by auto
qed simp

lemma reaches_on_track:
  assumes "reaches orderly p c c'" and "on_track p c" and "table_sent p"
  shows "on_track p c'"
  using assms
proof (induction rule: reaches.induct)
  case (step c' c'')
  then obtain e where "orderly e c'" "conn_next p e c' = Some c''"
    by (auto elim: conn_stepE)
  with step show ?case
    using on_track_next [of p c' e] by auto
qed simp

text \<open>
  C13: whatever a connection goes through, refused calls, errors, messages of the connection manager out
  of order, lost receives, there is exactly one event without a value: the thread has waited for the info
  message, the memory for the table of the peer is not given, which is only printed, and the read into the
  null pointer is posted.  Every other event has a value in every configuration that can be reached: no
  handler and no step of the thread uses an object that was not made or is already destroyed, or reads
  outside an array.  Of the device it is asked that it maps as many addresses as there are big pages.
\<close>

theorem connection_well_defined:
  assumes "space_ok b" and "reaches mapped_event p (conn_start b i node server) c" and "mapped_event e c"
  shows "(conn_next p e c = None \<longleftrightarrow> table_lost e c) \<and> (\<forall>c'. conn_next p e c = Some c' \<longrightarrow> conn_ok c')"
proof -
  have "conn_ok (conn_start b i node server)"
    using start_on_track [OF assms(1), of p i node server] by (cases "conn_start b i node server") simp
  with assms(2) have "conn_ok c"
    by (rule reaches_ok)
  then show ?thesis
    using conn_next_ok [of c e p] conn_next_lost [of e c p] assms(3) by fastforce
qed

section \<open>An orderly run\<close>

definition connected_to :: "peer \<Rightarrow> krping_conn \<Rightarrow> bool" where
  "connected_to p cb \<longleftrightarrow> knows p cb \<and> remote_addr cb = p_table p \<and> linked_up (krping_cb.truncate cb) \<and>
     has_qp cb \<and> has_buffers cb \<and> posted cb \<noteq> [] \<and> exitstatus cb = 0 \<and> sem_ready cb = 1"

lemma ready_on_track:
  assumes "on_track p (Ready, b, cb)" and "table_sent p"
  shows "connected_to p cb \<and> (\<exists>cb'. winddown_cb (exitstatus cb) cb = Some cb' \<and> owns_nothing cb')"
proof -
  have h: "handler_ok Ready cb" and t: "tracked p Ready cb"
    using assms(1) by simp_all
  have t': "knows p cb" "remote_addr cb = p_table p" "exitstatus cb = 0" "posted cb \<noteq> []" "sem_ready cb = 1" "dmabuf_mapping cb"
    "cb_server cb = 0 \<Longrightarrow> child_cm_id cb \<noteq> Live"
    using t by (auto simp: tracked_def reading_def orders places)
  have h': "has_qp cb" "has_buffers cb" "has_ids cb"
    using h by (auto simp: handler_ok_def made_def places ids_ok_def id_of_def has_ids_def)
  have "linked_up (krping_cb.truncate cb)"
    using t'(1,2) assms(2) by (simp add: linked_up_def knows_def table_sent_def krping_cb.truncate_def)
  with t' h' winddown_releases_all [OF h' t'(6,7)] show ?thesis
    by (simp add: connected_to_def)
qed

text \<open>
  C7: when the thread of an orderly run reports the connection ready, the control block holds what the
  peer sent: its key, its number, the size of its space and all of its table of big pages, so that the
  transfers of pages may use it (\<^const>\<open>linked_up\<close>); and winding it down from the point it has noted gives
  everything back exactly once.
\<close>

theorem ready_is_connected:
  assumes "space_ok b" and "table_sent p" and "reaches orderly p (conn_start b i node server) (Ready, b', cb)"
  shows "connected_to p cb \<and> (\<exists>cb'. winddown_cb (exitstatus cb) cb = Some cb' \<and> owns_nothing cb')"
  using ready_on_track [OF reaches_on_track [OF assms(3) start_on_track [OF assms(1)] assms(2)] assms(2)] .

text \<open>The steps left, as a number that some orderly event makes smaller.\<close>

fun place_no :: "pc \<Rightarrow> nat" where
  "place_no Start = 90"
| "place_no Wait_request = 80"
| "place_no Wait_route = 80"
| "place_no Bound = 70"
| "place_no Wait_connected = 60"
| "place_no Linked = 50"
| "place_no Wait_info = 40"
| "place_no Wait_read = 30"
| "place_no Ready = 0"
| "place_no Stopped = 0"

fun steps_left :: "config \<Rightarrow> nat" where
  "steps_left (q, b, cb) = place_no q + nat (8 - state_no (cb_state cb)) + (if q = Wait_read \<and> sem_read cb = 0 then 1 else 0)"

definition good_setup :: setup_answers where
  "good_setup = \<lparr>s_qp = \<lparr>a_pd = 0, a_cq_recv = 0, a_cq_send = 0, a_notify_send = 0, a_notify_recv = 0, a_qp = 0\<rparr>,
     s_buffers = \<lparr>a_recv_addr = 0, a_send_buf = 0, a_ptable_addr = 0, a_lkey = 0, a_rkey = 0, a_mr = 0\<rparr>,
     s_map_sg = (\<lambda>xs. xs), s_post = (\<lambda>_. 0), s_connect = 0\<rparr>"

lemma good_setup_ok: "no_failure good_setup"
  by (simp add: good_setup_def)

lemma steps_bound: "place_no q \<le> steps_left (q, b, cb) \<and> steps_left (q, b, cb) < place_no q + 9"
  by (cases "cb_state cb") simp_all

lemma info_arrives_state:
  assumes ok: "handler_ok q cb" and s: "slot \<in> set (posted cb)" and e: "cb_state cb \<noteq> ERROR"
    and a: "arrive slot 2 (Buffer_info i) 0 cb = Some cb'"
  shows "cb_state cb' = RECV_INFO"
proof -
  have p: "0 \<le> slot" "slot < 64" "length (recv_buf cb) = 64" "length (rq_wr cb) = 64" "qp cb = Live"
    using s ok by (auto simp: handler_ok_def slots_ok_def)
  then show ?thesis
    using a s e by (auto simp: arrive_def krping_cq_event_handler_recv_def slot_uint universal_recv_handler_def
        set_buffer_info_def arr_simps)
qed

text \<open>An event that moves the thread to a later place is progress, as is one of the events below at its place.\<close>

definition moves :: "peer \<Rightarrow> event \<Rightarrow> config \<Rightarrow> bool" where
  "moves p e c \<longleftrightarrow> orderly e c \<and> (\<forall>c'. conn_next p e c = Some c' \<longrightarrow> steps_left c' < steps_left c)"

lemma thread_moves:
  assumes "orderly e (q, b, cb)" and "\<And>q cb. handler_next p e q cb = Some cb"
    and "\<And>q' b' cb'. thread_next e (q, b, cb) = Some (q', b', cb') \<Longrightarrow> place_no q' + 9 \<le> place_no q"
  shows "moves p e (q, b, cb)"
  unfolding moves_def
proof (intro conjI allI impI)
  fix c' assume n: "conn_next p e (q, b, cb) = Some c'"
  obtain q' b' cb' where c': "c' = (q', b', cb')"
    by (cases c')
  have "thread_next e (q, b, cb) = Some (q', b', cb')"
    using n assms(2) c' by (auto simp: conn_next_def split: bind_splits)
  then have "place_no q' + 9 \<le> place_no q"
    by (rule assms(3))
  then show "steps_left c' < steps_left (q, b, cb)"
    using steps_bound [of q b cb] steps_bound [of q' b' cb'] unfolding c' by linarith
qed (rule assms(1))

lemma wake_moves:
  assumes t: "tracked p q cb"
    and s: "(q, cb_state cb) \<in> {(Wait_request, CONNECT_REQUEST), (Wait_route, ROUTE_RESOLVED), (Wait_connected, CONNECTED), (Wait_connected, RECV_INFO)}"
  shows "moves p Wake (q, b, cb)"
proof (rule thread_moves)
  show "handler_next p Wake q cb = Some cb" for q cb
    by simp
  show "place_no q' + 9 \<le> place_no q" if "thread_next Wake (q, b, cb) = Some (q', b', cb')" for q' b' cb'
    using that s by (auto simp: orders bind_server_woken_def bind_client_woken_def run_connected_def connect_woken_def)
qed auto

lemma cm_moves:
  assumes "in_order x q cb"
  shows "moves p (Cm x) (q, b, cb)"
  using assms by (cases x) (auto simp: moves_def conn_next_def)

lemma on_track_moves:
  assumes c: "on_track p (q, b, cb)" and r: "q \<noteq> Ready" and p: "table_sent p"
  shows "\<exists>e. moves p e (q, b, cb)"
proof -
  have t: "tracked p q cb" and h: "handler_ok q cb"
    using c by simp_all
  have st: "cb_state cb \<in> states_at (cb_server cb \<noteq> 0) q"
    using t by (simp add: tracked_def)
  show ?thesis
  proof (cases q)
    case Start
    have "moves p (Bind 0 0) (q, b, cb)"
      by (rule thread_moves) (use Start in \<open>auto simp: krping_bind_server_def split: if_split_asm\<close>)
    then show ?thesis ..
  next
    case Wait_request
    then show ?thesis
      using st wake_moves [OF t, of b] cm_moves [of CONNECT_REQUEST_EV q cb p b] by (auto split: if_split_asm)
  next
    case Wait_route
    then show ?thesis
      using st wake_moves [OF t, of b] cm_moves [of ADDR_RESOLVED_EV q cb p b] cm_moves [of ROUTE_RESOLVED_EV q cb p b]
      by (auto split: if_split_asm)
  next
    case Bound
    obtain b2 c2 where s: "run_setup good_setup b cb = Some (Wait_connected, b2, c2)"
      using setup_orderly [of b cb good_setup] c Bound good_setup_ok by auto
    have "moves p (Setup good_setup) (q, b, cb)"
      by (rule thread_moves) (use Bound s good_setup_ok in auto)
    then show ?thesis ..
  next
    case Wait_connected
    then show ?thesis
      using st wake_moves [OF t, of b] cm_moves [of ESTABLISHED_EV q cb p b] by (auto split: if_split_asm)
  next
    case Linked
    have "moves p (Send_info 0) (q, b, cb)"
      by (rule thread_moves) (use Linked in \<open>auto split: bind_splits\<close>)
    then show ?thesis ..
  next
    case Wait_info
    show ?thesis
    proof (cases "cb_state cb = RECV_INFO")
      case True
      have "moves p (Read_table 1 0 0) (q, b, cb)"
        by (rule thread_moves) (use Wait_info True in \<open>auto simp: orders read_bufferptr_def Let_def split: if_split_asm\<close>)
      then show ?thesis ..
    next
      case False
      then have s: "cb_state cb = CONNECTED"
        using st Wait_info by simp
      have "posted cb \<noteq> []"
        using t Wait_info by (simp add: tracked_def places)
      then obtain slot where slot: "slot \<in> set (posted cb)"
        by (meson list.set_sel(1))
      have "moves p (Info_arrives slot 0) (q, b, cb)"
        using s Wait_info info_arrives_state [OF h slot]
        by (auto simp: moves_def conn_next_def split: bind_splits)
      then show ?thesis ..
    qed
  next
    case Wait_read
    show ?thesis
    proof (cases "sem_read cb = 0")
      case True
      have "moves p (Read_completes 0) (q, b, cb)"
        using True Wait_read not_error [OF t]
        by (auto simp: moves_def conn_next_def read_done_def krping_cq_event_handler_send_def)
      then show ?thesis ..
    next
      case False
      then have "sem_read cb = 1"
        using t Wait_read by (auto simp: tracked_def reading_def)
      then have "moves p Table_done (q, b, cb)"
        by (intro thread_moves) (use Wait_read in auto)
      then show ?thesis ..
    qed
  qed (use r st in auto)
qed

lemma reaches_trans:
  assumes "reaches allowed p c' c''" and "reaches allowed p c c'"
  shows "reaches allowed p c c''"
  using assms by (induction rule: reaches.induct) (auto intro: reaches.step)

lemma on_track_ready:
  assumes "on_track p c" and "table_sent p"
  shows "\<exists>b cb. reaches orderly p c (Ready, b, cb)"
  using assms
proof (induction "steps_left c" arbitrary: c rule: less_induct)
  case less
  obtain q b cb where c: "c = (q, b, cb)"
    by (cases c)
  show ?case
  proof (cases "q = Ready")
    case True
    with c show ?thesis
      by (auto intro: reaches.start)
  next
    case False
    then obtain e where m: "moves p e c"
      using on_track_moves [of p q b cb] less.prems c by auto
    then obtain c' where n: "conn_next p e c = Some c'" "on_track p c'"
      using on_track_next [of p c e] less.prems by (auto simp: moves_def)
    then obtain b' cb' where "reaches orderly p c' (Ready, b', cb')"
      using less.hyps [of c'] m less.prems by (auto simp: moves_def)
    moreover have "reaches orderly p c c'"
      using m n by (auto simp: moves_def intro: reaches.step reaches.start conn_step.intros)
    ultimately show ?thesis
      using reaches_trans by blast
  qed
qed

text \<open>
  C12: a connection whose run has been orderly so far can always be completed: from every configuration
  it can be in, server or client, some events lead on to a thread that is ready.
\<close>

theorem handshake_can_finish:
  assumes "space_ok b" and "table_sent p" and "reaches orderly p (conn_start b i node server) c"
  shows "\<exists>b' cb. reaches orderly p c (Ready, b', cb)"
  using on_track_ready [OF reaches_on_track [OF assms(3) start_on_track [OF assms(1)] assms(2)] assms(2)] .

section \<open>Runs that are not orderly\<close>

definition no_info :: "event \<Rightarrow> config \<Rightarrow> bool" where
  "no_info e c \<longleftrightarrow> orderly e c \<and> (\<forall>slot repost. e \<noteq> Info_arrives slot repost)"

definition lost :: "config \<Rightarrow> bool" where
  "lost c \<longleftrightarrow> fst c \<in> {Wait_connected, Linked, Wait_info} \<and> cb_state (snd (snd c)) = CONNECTED"

lemma arrive_other_state:
  assumes "arrive slot imm data repost cb = Some cb'" and "imm \<noteq> 2"
  shows "cb_state cb' = cb_state cb"
  using assms
  by (auto simp: arrive_def krping_cq_event_handler_recv_def universal_recv_handler_def split: if_split_asm bind_splits)

lemma lost_next:
  assumes l: "lost c" and o: "no_info e c" and n: "conn_next p e c = Some c'"
  shows "lost c'"
proof -
  obtain q b cb where c: "c = (q, b, cb)"
    by (cases c)
  have s: "q \<in> {Wait_connected, Linked, Wait_info}" "cb_state cb = CONNECTED"
    using l c by (simp_all add: lost_def)
  show ?thesis
  proof (cases e)
    case (Cm x)
    then show ?thesis
      using o s c by (cases x) (auto simp: no_info_def)
  next
    case (Message_arrives slot imm data repost)
    then show ?thesis
      using n s c arrive_other_state [of slot imm data repost cb]
      by (auto simp: conn_next_def lost_def split: bind_splits if_split_asm)
  next
    case Wake
    then show ?thesis
      using n s c by (auto simp: conn_next_def lost_def run_connected_def connect_woken_def orders)
  next
    case (Send_info k)
    then show ?thesis
      using n s c
      by (auto simp: conn_next_def lost_def send_own_info_def Let_def split: bind_splits if_split_asm)
  qed (use n o s c in \<open>auto simp: conn_next_def lost_def no_info_def orders krping_cq_event_handler_send_def
      split: if_split_asm\<close>)
qed

lemma lost_forever: "reaches no_info p c c' \<Longrightarrow> lost c \<Longrightarrow> lost c'"
proof (induction rule: reaches.induct)
  case (step c' c'')
  then show ?case
    by (auto elim!: conn_stepE intro: lost_next)
qed

text \<open>
  C36: a message of the connection manager that is late loses a connection: where the table of the peer
  arrives before \<open>RDMA_CM_EVENT_ESTABLISHED\<close>, the handler of the event sets the state back to
  \<open>CONNECTED\<close>, and the thread waits for a state that no orderly event but a second message of the peer,
  which sends only one, brings about: it is never ready.
\<close>

theorem late_established_never_ready:
  assumes "cb_state cb = RECV_INFO" and "conn_next p (Cm ESTABLISHED_EV) (Wait_connected, b, cb) = Some c"
    and "reaches no_info p c (q, b', cb')"
  shows "q \<noteq> Ready"
proof -
  have "lost c"
    using assms(2) by (auto simp: conn_next_def lost_def)
  then have "lost (q, b', cb')"
    by (rule lost_forever [OF assms(3)])
  then show ?thesis
    by (auto simp: lost_def)
qed

lemma failed_setup_run:
  assumes "id_of cb = Live" and "qp cb = Null" and "a_qp (s_qp a) \<noteq> 0"
    and "run_setup a b cb = Some (q, b', cb')"
  shows "q = Stopped \<and> exitstatus cb' = 1 \<and> winddown_cb (exitstatus cb') cb' = None"
proof -
  obtain r c where q: "krping_setup_qp (s_qp a) (id_of cb) cb = Some (r, c)"
    using assms(4) by (auto simp: run_setup_def split: bind_splits)
  have "r \<noteq> 0"
    using q assms(3) by (auto simp: conn_setup_defs Let_def split: if_splits bind_splits)
  moreover have "qp c = Null"
    using setup_qp_fails [OF q calculation] assms(2) by simp
  ultimately show ?thesis
    using assms(4) q by (auto simp: run_setup_def winddown_cb_def krping_free_qp_def)
qed

text \<open>
  C37: when the set-up of the queue pair fails the thread has already noted 1 as the point to wind down
  from, although nothing was left to free: the release of the connection then destroys a queue pair that
  was never made.
\<close>

theorem failed_setup_breaks_winddown:
  assumes "id_of cb = Live" and "qp cb = Null" and "a_qp (s_qp a) \<noteq> 0"
    and "conn_next p (Setup a) (Bound, b, cb) = Some (q, b', cb')"
  shows "q = Stopped \<and> winddown_cb (exitstatus cb') cb' = None"
  using failed_setup_run [of cb a b q b' cb'] assms by (auto simp: conn_next_def split: bind_splits)

text \<open>
  A connection that fails while its thread waits for the peer still comes out as ready: \<open>ERROR\<close> is the
  greatest of the states, so the wait ends, the read that cannot be posted is only printed, and the thread
  raises \<open>sem_ready\<close> with nothing known of the peer.
\<close>

lemma error_counts_as_ready:
  assumes "handler_ok Wait_info cb" and "cb_state cb = ERROR" and "r \<noteq> 0"
  shows "\<exists>cb'. conn_next p (Read_table table dma r) (Wait_info, b, cb) = Some (Ready, b, cb') \<and>
    cb_state cb' = ERROR \<and> sem_ready cb' = sem_ready cb + 1 \<and> remote_pcount cb' = remote_pcount cb"
  using assms
  by (auto simp: conn_next_def read_bufferptr_def Let_def orders handler_ok_def made_def places has_qp_def has_buffers_def)

text \<open>A failure to resolve the route leaves the thread of a client waiting: the handler wakes it in a state it does not wait for.\<close>

lemma route_not_resolved_waits:
  assumes "cb_state cb = ADDR_RESOLVED"
  shows "conn_next p Wake (Wait_route, b, cb) = Some (Wait_route, b, cb)"
  using assms by (simp add: conn_next_def orders)

section \<open>Witnesses\<close>

definition one_page :: krping_sharedspace where
  "one_page = \<lparr>sg = [0x1000], sg_dma = [0], bufferpages = [0x1000], dmapages = [0], numbigpages = 1\<rparr>"

definition the_peer :: peer where
  "the_peer = \<lparr>p_info = \<lparr>bi_buf = 7, bi_rkey = 8, bi_size = 2, bi_instanceno = 1\<rparr>, p_table = [0x400000, 0x800000]\<rparr>"

lemma one_page_ok: "space_ok one_page"
  by (simp add: space_ok_def one_page_def)

lemma the_peer_ok: "table_sent the_peer"
  by (simp add: table_sent_def the_peer_def)

lemma reaches_weaken:
  assumes "reaches allowed p c c'" and "\<And>e c. allowed e c \<Longrightarrow> also_allowed e c"
  shows "reaches also_allowed p c c'"
  using assms(1)
proof (induction rule: reaches.induct)
  case (step c' c'')
  then obtain e where "allowed e c'" "conn_next p e c' = Some c''"
    by (auto elim: conn_stepE)
  then have "conn_step also_allowed p c' c''"
    using assms(2) by (blast intro: conn_step.intros)
  with step.IH show ?case
    by (rule reaches.step)
qed (rule reaches.start)

text \<open>A thread that is ready has waited for the info message.\<close>

lemma wake_not_ready:
  "thread_wake q cb = Some (q', cb') \<Longrightarrow> q \<notin> {Wait_read, Ready} \<Longrightarrow> q' \<notin> {Wait_read, Ready}"
  by (cases q) (auto simp: run_connected_def split: if_split_asm bind_splits)

lemma setup_not_ready: "run_setup a b cb = Some (q', b', cb') \<Longrightarrow> q' \<notin> {Wait_read, Ready}"
  by (auto simp: run_setup_def Let_def split: if_split_asm bind_splits)

lemma next_not_ready:
  assumes "conn_next p e (q, b, cb) = Some (q', b', cb')" and "q \<notin> {Wait_read, Ready}" and "q' \<in> {Wait_read, Ready}"
  shows "q = Wait_info \<and> RECV_INFO \<le> cb_state cb"
  using assms wake_not_ready [of q cb] setup_not_ready [of _ b cb]
  by (cases e) (auto simp: conn_next_def split: if_split_asm bind_splits)

lemma ready_waited:
  assumes "reaches allowed p c c'" and "fst c \<notin> {Wait_read, Ready}" and "fst c' \<in> {Wait_read, Ready}"
  shows "\<exists>b cb. reaches allowed p c (Wait_info, b, cb) \<and> RECV_INFO \<le> cb_state cb"
  using assms
proof (induction rule: reaches.induct)
  case (step c' c'')
  show ?case
  proof (cases "fst c' \<in> {Wait_read, Ready}")
    case False
    with step show ?thesis
      using next_not_ready by (cases c'; cases c'') (fastforce elim!: conn_stepE)
  qed (use step in blast)
qed simp

theorem connection_well_defined_witness:
  "\<exists>c. reaches mapped_event the_peer (conn_start one_page 0 2 1) c \<and> conn_next the_peer (Read_table 0 7 0) c = None \<and>
     (\<exists>c'. conn_next the_peer (Read_table 9 7 0) c = Some c' \<and> conn_ok c') \<and>
     (\<exists>c'. conn_next the_peer (Cm DISCONNECTED_EV) c = Some c' \<and> conn_ok c')"
proof -
  obtain b cb where "reaches orderly the_peer (conn_start one_page 0 2 1) (Ready, b, cb)"
    using on_track_ready [OF start_on_track [OF one_page_ok] the_peer_ok, of 0 2 1] by blast
  then obtain b cb where r: "reaches orderly the_peer (conn_start one_page 0 2 1) (Wait_info, b, cb)" "RECV_INFO \<le> cb_state cb"
    using ready_waited by (fastforce simp: conn_start_def)
  have m: "reaches mapped_event the_peer (conn_start one_page 0 2 1) (Wait_info, b, cb)"
    by (rule reaches_weaken [OF r(1)]) (simp add: orderly_sound)
  note w = connection_well_defined [OF one_page_ok m]
  show ?thesis
    by (rule exI [of _ "(Wait_info, b, cb)"], intro conjI)
      (use m r(2) w [of "Read_table 0 7 0"] w [of "Read_table 9 7 0"] w [of "Cm DISCONNECTED_EV"] in auto)
qed

theorem ready_is_connected_witness:
  "\<exists>b cb. reaches orderly the_peer (conn_start one_page 0 2 1) (Ready, b, cb) \<and> connected_to the_peer cb"
proof -
  obtain b cb where r: "reaches orderly the_peer (conn_start one_page 0 2 1) (Ready, b, cb)"
    using on_track_ready [OF start_on_track [OF one_page_ok] the_peer_ok, of 0 2 1] by blast
  then have "connected_to the_peer cb"
    using ready_is_connected [OF one_page_ok the_peer_ok r] by simp
  with r show ?thesis
    by blast
qed

theorem handshake_can_finish_witness:
  "\<exists>b cb. reaches orderly the_peer (conn_start one_page 0 2 0) (Ready, b, cb)"
  by (rule handshake_can_finish [OF one_page_ok the_peer_ok reaches.start])

definition early_cb :: krping_conn where
  "early_cb = (init_cb 0 2 1)\<lparr>cb_state := RECV_INFO, qp := Live, dma_mr := Live\<rparr>"

theorem late_established_never_ready_witness:
  "\<exists>q b' cb'. reaches no_info the_peer (Wait_connected, one_page, early_cb\<lparr>cb_state := CONNECTED\<rparr>) (q, b', cb') \<and>
     q \<noteq> Ready \<and> q = Wait_info"
proof -
  let ?c = "early_cb\<lparr>cb_state := CONNECTED\<rparr>"
  obtain cb' where s: "send_own_info 2 ?c = Some cb'"
    by (simp add: send_own_info_def Let_def early_cb_def init_cb_def VERB_SEND_SLOT_def arr_simps)
  have "conn_step no_info the_peer (Wait_connected, one_page, ?c) (Linked, one_page, ?c)"
    by (rule conn_step.intros [of _ Wake]) (simp_all add: no_info_def conn_next_def run_connected_def connect_woken_def orders)
  moreover have "conn_step no_info the_peer (Linked, one_page, ?c) (Wait_info, one_page, cb')"
    by (rule conn_step.intros [of _ "Send_info 2"]) (simp_all add: no_info_def conn_next_def s)
  ultimately have r: "reaches no_info the_peer (Wait_connected, one_page, ?c) (Wait_info, one_page, cb')"
    by (blast intro: reaches.intros)
  have "Wait_info \<noteq> Ready"
    by (rule late_established_never_ready [OF _ _ r, of early_cb]) (simp_all add: conn_next_def early_cb_def)
  with r show ?thesis
    by blast
qed

theorem failed_setup_breaks_winddown_witness:
  "\<exists>q b' cb'. conn_next the_peer (Setup (good_setup\<lparr>s_qp := (s_qp good_setup)\<lparr>a_qp := -12\<rparr>\<rparr>))
     (Bound, one_page, (init_cb 0 2 0)\<lparr>cm_id := Live\<rparr>) = Some (q, b', cb') \<and> winddown_cb (exitstatus cb') cb' = None"
proof -
  let ?a = "good_setup\<lparr>s_qp := (s_qp good_setup)\<lparr>a_qp := -12\<rparr>\<rparr>" and ?cb = "(init_cb 0 2 0)\<lparr>cm_id := Live\<rparr>"
  have i: "id_of ?cb = Live" "qp ?cb = Null" "a_qp (s_qp ?a) \<noteq> 0"
    by (simp_all add: id_of_def init_cb_def)
  obtain r c where "krping_setup_qp (s_qp ?a) (id_of ?cb) ?cb = Some (r, c)" "r \<noteq> 0"
    by (simp add: conn_setup_defs id_of_def init_cb_def good_setup_def)
  then have n: "conn_next the_peer (Setup ?a) (Bound, one_page, ?cb) = Some (Stopped, one_page, c\<lparr>exitstatus := 1\<rparr>)"
    by (simp add: conn_next_def run_setup_def)
  from failed_setup_breaks_winddown [OF i n] n show ?thesis
    by blast
qed

end
