(* ===== verification/Krping_Doit.thy ===== *)
theory Krping_Doit
  imports Krping_Ready
begin

text \<open>
  All connections of a node together: what \<open>krping_doit\<close> does with the array of control blocks before the
  threads run, and the wind-down after the kill switch.
\<close>

section \<open>Start\<close>

text \<open>One control block per connection of the configuration, with the first failed \<open>kzalloc\<close> ending the start.\<close>

fun make_cbs :: "(int \<Rightarrow> u64) \<Rightarrow> int \<Rightarrow> int list \<Rightarrow> int \<Rightarrow> int \<times> krping_conn list" where
  "make_cbs kzalloc CONF_nodeID [] i = (0, [])"
| "make_cbs kzalloc CONF_nodeID (server # CONF_isServer) i =
     (if kzalloc i = 0 then (- 12, [])
      else (let (ret, rest) = make_cbs kzalloc CONF_nodeID CONF_isServer (i + 1)
            in (ret, init_cb i CONF_nodeID server # rest)))"

text \<open>The place of the thread of each connection: the servers are started first, then the clients.\<close>

definition started :: "krping_sharedspace \<Rightarrow> krping_conn list \<Rightarrow> config list" where
  "started b conns = map (\<lambda>cb. (Start, b, cb)) (filter (\<lambda>cb. cb_server cb \<noteq> 0) conns @ filter (\<lambda>cb. cb_server cb = 0) conns)"

section \<open>Wind-down\<close>

fun for_all :: "('a \<Rightarrow> 'a option) \<Rightarrow> 'a list \<Rightarrow> 'a list option" where
  "for_all f [] = Some []"
| "for_all f (x # xs) = do { y \<leftarrow> f x; ys \<leftarrow> for_all f xs; Some (y # ys) }"

text \<open>\<open>kfree\<close> of every big page; a null pointer is no page.\<close>

definition free_bigpages :: "krping_sharedspace \<Rightarrow> u64 list \<times> krping_sharedspace" where
  "free_bigpages b = (filter (\<lambda>p. p \<noteq> 0) (bufferpages b), b\<lparr>bufferpages := map (\<lambda>_. 0) (bufferpages b)\<rparr>)"

definition wind_down :: "krping_sharedspace \<Rightarrow> krping_conn list \<Rightarrow> (u64 list \<times> krping_sharedspace \<times> krping_conn list) option" where
  "wind_down b conns = do {
     conns \<leftarrow> for_all disconnect_cb conns;
     first \<leftarrow> arr_get conns 0;
     if pd first \<noteq> Live then None
     else do {
       let (freed, b) = free_bigpages b;
       conns \<leftarrow> for_all (\<lambda>cb. winddown_cb (exitstatus cb) cb) conns;
       Some (freed, b, conns)
     }
   }"

lemma for_all_ok:
  assumes "\<And>x. x \<in> set xs \<Longrightarrow> \<exists>y. f x = Some y \<and> Q y"
  shows "\<exists>ys. for_all f xs = Some ys \<and> (\<forall>y\<in>set ys. Q y) \<and> length ys = length xs"
  using assms
proof (induction xs)
  case (Cons x xs)
  then obtain y ys where "f x = Some y" "Q y" "for_all f xs = Some ys" "\<forall>y\<in>set ys. Q y" "length ys = length xs"
    by (metis list.set_intros)
  then show ?case
    by simp
qed simp

lemma for_all_same:
  assumes "\<And>x. x \<in> set xs \<Longrightarrow> f x = Some x"
  shows "for_all f xs = Some xs"
  using assms by (induction xs) simp_all

text \<open>
  When every thread is ready after an orderly run, the wind-down takes all connections apart, gives every big
  page back once, and nothing is left.
\<close>

lemma wind_down_all:
  assumes p: "\<And>i. i < length conns \<Longrightarrow> on_track (peers i) (Ready, b, conns ! i) \<and> table_sent (peers i)" and n: "conns \<noteq> []"
  shows "\<exists>b' conns'. wind_down b conns = Some (filter (\<lambda>p. p \<noteq> 0) (bufferpages b), b', conns') \<and>
    (\<forall>cb\<in>set conns'. owns_nothing cb) \<and> length conns' = length conns"
proof -
  have ok: "\<exists>i. on_track (peers i) (Ready, b, cb) \<and> table_sent (peers i)" if "cb \<in> set conns" for cb
    using that p by (metis in_set_conv_nth)
  have d: "disconnect_cb cb = Some cb" if "cb \<in> set conns" for cb
    using ok [OF that] by (auto simp: disconnect_cb_def handler_ok_def made_def places id_of_def)
  have w: "\<exists>cb'. winddown_cb (exitstatus cb) cb = Some cb' \<and> owns_nothing cb'" if "cb \<in> set conns" for cb
    using ok [OF that] ready_on_track by blast
  have "pd (conns ! 0) = Live"
    using ok [of "conns ! 0"] n by (auto simp: handler_ok_def made_def places has_qp_def)
  then show ?thesis
    using for_all_same [of conns disconnect_cb] d n
      for_all_ok [of conns "\<lambda>cb. winddown_cb (exitstatus cb) cb" owns_nothing] w
    by (auto simp: wind_down_def free_bigpages_def arr_simps)
qed

end
