(* ===== verification/Krping_Options.thy ===== *)
theory Krping_Options
  imports Comex_Prelude
begin

unbundle bit_operations_syntax

text \<open>
  The command line of \<open>/proc/krping\<close>: the option parser (\<open>getopt.c\<close>), the table of options and the
  loop that applies them (\<open>krping.c\<close>, 94-116 and 1338-1393).  A C string is a list of characters, a null
  pointer \<^term>\<open>None\<close>.
\<close>

section \<open>The parser\<close>

record krping_option =
  name :: string
  has_arg :: "32 word"
  val :: int

definition OPT_NOPARAM :: "32 word" where "OPT_NOPARAM = 1"
definition OPT_INT :: "32 word" where "OPT_INT = 2"
definition OPT_STRING :: "32 word" where "OPT_STRING = 4"

lemmas opt_flags = OPT_NOPARAM_def OPT_INT_def OPT_STRING_def

definition EINVAL_OPT :: int where "EINVAL_OPT = 22"
definition EDOM :: int where "EDOM = 33"
definition EOPNOTSUPP :: int where "EOPNOTSUPP = 95"

lemmas opt_errors = EINVAL_OPT_def EDOM_def EOPNOTSUPP_def

text \<open>\<open>strsep(options, ",")\<close>: the token, and where the pointer is left.\<close>

definition left :: "string option \<Rightarrow> nat" where
  "left r = (case r of None \<Rightarrow> 0 | Some s \<Rightarrow> Suc (length s))"

lemma left_simps [simp]: "left None = 0" "left (Some s) = Suc (length s)"
  by (simp_all add: left_def)

fun strsep :: "string option \<Rightarrow> string option \<times> string option" where
  "strsep None = (None, None)"
| "strsep (Some s) = (Some (takeWhile (\<lambda>c. c \<noteq> CHR '','') s),
     case dropWhile (\<lambda>c. c \<noteq> CHR '','') s of [] \<Rightarrow> None | c # r \<Rightarrow> Some r)"

lemma strsep_left:
  assumes "strsep options = (Some token, r)"
  shows "left r < left options"
proof (cases options)
  case (Some s)
  have "length (dropWhile (\<lambda>c. c \<noteq> CHR '','') s) \<le> length s"
    by (rule length_dropWhile_le)
  with Some assms show ?thesis
    by (auto split: list.splits)
qed (use assms in simp)

text \<open>\<open>do ... while (*token == 0)\<close>\<close>

function next_token :: "string option \<Rightarrow> string option \<times> string option" where
  "next_token options =
     (case strsep options of
        (None, r) \<Rightarrow> (None, r)
      | (Some token, r) \<Rightarrow> if token = [] then next_token r else (Some token, r))"
  by pat_completeness auto
termination
  by (relation "measure left") (auto dest: strsep_left [OF sym])

declare next_token.simps [simp del]

text \<open>\<open>strchr(token, '=')\<close> cuts the token in two.\<close>

definition cut_arg :: "string \<Rightarrow> string \<times> string option" where
  "cut_arg token = (takeWhile (\<lambda>c. c \<noteq> CHR ''='') token,
     case dropWhile (\<lambda>c. c \<noteq> CHR ''='') token of [] \<Rightarrow> None | c # v \<Rightarrow> Some v)"

text \<open>
  The search in the table.  The parameter \<open>simple_strtoul\<close> answers the number and the rest of the string.
  The result is what the function returns, and the integer value where one was stored.
\<close>

fun find_option ::
  "(string \<Rightarrow> u64 \<times> string) \<Rightarrow> krping_option list \<Rightarrow> string \<Rightarrow> string option \<Rightarrow> int \<times> u64 option" where
  "find_option simple_strtoul [] token optval = (- EOPNOTSUPP, None)"
| "find_option simple_strtoul (opt # opts) token optval =
     (if name opt = token then
        case optval of
          None \<Rightarrow> (if has_arg opt AND OPT_NOPARAM \<noteq> 0 then val opt else - EINVAL_OPT, None)
        | Some v \<Rightarrow>
            if has_arg opt AND OPT_INT \<noteq> 0 then
              (let (n, rest) = simple_strtoul v in (if rest = [] then val opt else - EDOM, Some n))
            else if has_arg opt AND OPT_STRING \<noteq> 0 then (val opt, None)
            else (- EINVAL_OPT, None)
      else find_option simple_strtoul opts token optval)"

text \<open>
  What a call answers: the option or the error (0 at the end), the pointer \<open>options\<close> afterwards, and
  what it stored in \<open>*optarg\<close> and \<open>*value\<close>.
\<close>

definition krping_getopt ::
  "(string \<Rightarrow> u64 \<times> string) \<Rightarrow> krping_option list \<Rightarrow> string option \<Rightarrow> int \<times> string option \<times> string option \<times> u64 option" where
  "krping_getopt simple_strtoul opts options =
     (case next_token options of
        (None, r) \<Rightarrow> (0, r, None, None)
      | (Some token, r) \<Rightarrow>
          (let (token, optval) = cut_arg token; (ret, value) = find_option simple_strtoul opts token optval
           in (ret, r, optval, value)))"

section \<open>The options of krping\<close>

text \<open>A character constant of C is an \<open>int\<close>.\<close>

definition opt_char :: "char \<Rightarrow> int" where
  "opt_char c = int (of_char c)"

definition krping_opts :: "krping_option list" where
  "krping_opts = [
     \<lparr>name = ''count'', has_arg = OPT_INT, val = opt_char CHR ''C''\<rparr>, \<lparr>name = ''size'', has_arg = OPT_INT, val = opt_char CHR ''S''\<rparr>,
     \<lparr>name = ''addr'', has_arg = OPT_STRING, val = opt_char CHR ''a''\<rparr>, \<lparr>name = ''addr6'', has_arg = OPT_STRING, val = opt_char CHR ''A''\<rparr>,
     \<lparr>name = ''port'', has_arg = OPT_INT, val = opt_char CHR ''p''\<rparr>, \<lparr>name = ''verbose'', has_arg = OPT_NOPARAM, val = opt_char CHR ''v''\<rparr>,
     \<lparr>name = ''server'', has_arg = OPT_NOPARAM, val = opt_char CHR ''s''\<rparr>, \<lparr>name = ''client'', has_arg = OPT_NOPARAM, val = opt_char CHR ''c''\<rparr>,
     \<lparr>name = ''server_inv'', has_arg = OPT_NOPARAM, val = opt_char CHR ''I''\<rparr>, \<lparr>name = ''bw'', has_arg = OPT_NOPARAM, val = opt_char CHR ''B''\<rparr>,
     \<lparr>name = ''txdepth'', has_arg = OPT_INT, val = opt_char CHR ''T''\<rparr>, \<lparr>name = ''poll'', has_arg = OPT_NOPARAM, val = opt_char CHR ''P''\<rparr>,
     \<lparr>name = ''local_dma_lkey'', has_arg = OPT_NOPARAM, val = opt_char CHR ''Z''\<rparr>, \<lparr>name = ''read_inv'', has_arg = OPT_NOPARAM, val = opt_char CHR ''R''\<rparr>,
     \<lparr>name = ''node_ID'', has_arg = OPT_INT, val = opt_char CHR ''i''\<rparr>, \<lparr>name = ''n_nodes'', has_arg = OPT_INT, val = opt_char CHR ''n''\<rparr>,
     \<lparr>name = ''total_pages'', has_arg = OPT_INT, val = opt_char CHR ''t''\<rparr>, \<lparr>name = ''writeOut_buff'', has_arg = OPT_INT, val = opt_char CHR ''w''\<rparr>,
     \<lparr>name = ''readIn_buff'', has_arg = OPT_INT, val = opt_char CHR ''r''\<rparr>, \<lparr>name = ''proc_name'', has_arg = OPT_STRING, val = opt_char CHR ''o''\<rparr>]"

datatype addr_family = AF_INET | AF_INET6

text \<open>What the options set: fields of the first control block, the parameters of the pool, and \<open>ret\<close>.\<close>

record krping_args =
  a_addr_str :: string
  a_addr :: "byte list"
  a_addr_type :: addr_family
  a_port :: "16 word"
  a_server :: int
  a_verbose :: int
  a_total_pages :: int
  a_writeOut_buff :: int
  a_readIn_buff :: int
  a_proc_name :: string
  a_ret :: int

text \<open>Little endian: \<open>htons\<close> swaps the two bytes.\<close>

definition htons :: "u64 \<Rightarrow> 16 word" where
  "htons x = word_rotl 8 (ucast x)"

definition to_int :: "u64 \<Rightarrow> int" where
  "to_int w = signed_take_bit 31 (uint w)"

text \<open>
  One round of the loop.  \<open>in_pton\<close> stands for \<open>in4_pton\<close> and \<open>in6_pton\<close>.  \<open>strcpy\<close> of more than the 100
  bytes of \<open>proc_name\<close> has no value; \<open>optint\<close> is the last value stored.
\<close>

definition apply_option ::
  "(addr_family \<Rightarrow> string \<Rightarrow> byte list \<Rightarrow> byte list) \<Rightarrow> int \<Rightarrow> string option \<Rightarrow> u64 \<Rightarrow> krping_args \<Rightarrow> krping_args option" where
  "apply_option in_pton op optarg optint a =
     (if op = opt_char CHR ''a'' then
        map_option (\<lambda>s. a\<lparr>a_addr_str := s, a_addr := in_pton AF_INET s (a_addr a), a_addr_type := AF_INET\<rparr>) optarg
      else if op = opt_char CHR ''A'' then
        map_option (\<lambda>s. a\<lparr>a_addr_str := s, a_addr := in_pton AF_INET6 s (a_addr a), a_addr_type := AF_INET6\<rparr>) optarg
      else if op = opt_char CHR ''p'' then Some (a\<lparr>a_port := htons optint\<rparr>)
      else if op = opt_char CHR ''s'' then Some (a\<lparr>a_server := 1\<rparr>)
      else if op = opt_char CHR ''c'' then Some (a\<lparr>a_server := 0\<rparr>)
      else if op = opt_char CHR ''v'' then Some (a\<lparr>a_verbose := a_verbose a + 1\<rparr>)
      else if op = opt_char CHR ''t'' then Some (a\<lparr>a_total_pages := to_int optint\<rparr>)
      else if op = opt_char CHR ''w'' then Some (a\<lparr>a_writeOut_buff := to_int optint\<rparr>)
      else if op = opt_char CHR ''r'' then Some (a\<lparr>a_readIn_buff := to_int optint\<rparr>)
      else if op = opt_char CHR ''o'' then
        (case optarg of Some s \<Rightarrow> if length s < 100 then Some (a\<lparr>a_proc_name := s\<rparr>) else None | None \<Rightarrow> None)
      else Some (a\<lparr>a_ret := - EINVAL_OPT\<rparr>))"

text \<open>The loop; a call that stores no integer leaves \<open>optint\<close> as it was.\<close>

lemma next_token_left:
  "next_token options = (Some token, r) \<Longrightarrow> left r < left options"
proof (induction options rule: next_token.induct)
  case (1 options)
  obtain t r' where t: "strsep options = (t, r')"
    by fastforce
  show ?case
  proof (cases t)
    case None
    with 1 (2) t show ?thesis
      by (simp add: next_token.simps [of options])
  next
    case (Some u)
    have l: "left r' < left options"
      using t Some by (simp add: strsep_left)
    show ?thesis
    proof (cases "u = []")
      case True
      with 1 (2) t Some have "next_token r' = (Some token, r)"
        by (simp add: next_token.simps [of options])
      with 1 (1) [OF t [symmetric] Some True] l show ?thesis
        by simp
    next
      case False
      with 1 (2) t Some l show ?thesis
        by (simp add: next_token.simps [of options])
    qed
  qed
qed

lemma getopt_left:
  assumes "krping_getopt strtoul opts options = (op, r, v)" "op \<noteq> 0"
  shows "left r < left options"
  using assms next_token_left [of options]
  by (auto simp: krping_getopt_def split: prod.splits option.splits)

function option_loop ::
  "(string \<Rightarrow> u64 \<times> string) \<Rightarrow> (addr_family \<Rightarrow> string \<Rightarrow> byte list \<Rightarrow> byte list) \<Rightarrow> krping_option list \<Rightarrow> string option \<Rightarrow> u64 \<Rightarrow>
    krping_args \<Rightarrow> krping_args option" where
  "option_loop strtoul pton opts cmd optint a =
     (let (op, cmd', optarg, value) = krping_getopt strtoul opts cmd; optint = (case value of Some n \<Rightarrow> n | None \<Rightarrow> optint) in
      if op = 0 then Some a
      else do {
        a \<leftarrow> apply_option pton op optarg optint a;
        option_loop strtoul pton opts cmd' optint a
      })"
  by pat_completeness auto
termination
  by (relation "measure (\<lambda>(strtoul, pton, opts, cmd, optint, a). left cmd)") (auto dest: getopt_left [OF sym])

declare option_loop.simps [simp del]

text \<open>\<open>fill_sockaddr\<close>: the address in network order, 4 bytes of it or 16.\<close>

record sockaddr =
  sin_family :: addr_family
  sin_addr :: "byte list"
  sin_port :: "16 word"

definition fill_sockaddr :: "krping_args \<Rightarrow> sockaddr" where
  "fill_sockaddr a =
     (case a_addr_type a of
        AF_INET \<Rightarrow> \<lparr>sin_family = AF_INET, sin_addr = take 4 (a_addr a), sin_port = a_port a\<rparr>
      | AF_INET6 \<Rightarrow> \<lparr>sin_family = AF_INET6, sin_addr = take 16 (a_addr a), sin_port = a_port a\<rparr>)"

section \<open>The option string as a list of options\<close>

text \<open>The reference: the string cut at its commas, the empty pieces left out, each piece applied in turn.\<close>

fun commas :: "string \<Rightarrow> string list" where
  "commas [] = [[]]"
| "commas (c # s) = (if c = CHR '','' then [] # commas s else (c # hd (commas s)) # tl (commas s))"

definition one_option ::
  "(string \<Rightarrow> u64 \<times> string) \<Rightarrow> (addr_family \<Rightarrow> string \<Rightarrow> byte list \<Rightarrow> byte list) \<Rightarrow> string \<Rightarrow>
    (krping_args \<times> u64) option \<Rightarrow> (krping_args \<times> u64) option" where
  "one_option strtoul pton token st = do {
     (a, optint) \<leftarrow> st;
     let (key, optarg) = cut_arg token;
     let (op, value) = find_option strtoul krping_opts key optarg;
     let optint = (case value of Some n \<Rightarrow> n | None \<Rightarrow> optint);
     a \<leftarrow> apply_option pton op optarg optint a;
     Some (a, optint)
   }"

lemma commas_not_Nil [simp]: "commas s \<noteq> []"
  by (cases s) auto

lemma commas_strsep:
  "commas s = takeWhile (\<lambda>c. c \<noteq> CHR '','') s #
     (case dropWhile (\<lambda>c. c \<noteq> CHR '','') s of [] \<Rightarrow> [] | c # r \<Rightarrow> commas r)"
  by (induction s) auto

fun pieces :: "string option \<Rightarrow> string list" where
  "pieces None = []"
| "pieces (Some s) = filter (\<lambda>t. t \<noteq> []) (commas s)"

lemma pieces_strsep:
  "pieces options = (case strsep options of
     (None, r) \<Rightarrow> [] | (Some t, r) \<Rightarrow> if t = [] then pieces r else t # pieces r)"
proof (cases options)
  case (Some s)
  show ?thesis
  proof (cases "dropWhile (\<lambda>c. c \<noteq> CHR '','') s")
    case Nil
    show ?thesis
      unfolding Some pieces.simps strsep.simps by (subst commas_strsep, unfold Nil) simp
  next
    case (Cons c r)
    then show ?thesis
      unfolding Some pieces.simps strsep.simps by (subst commas_strsep) simp
  qed
qed simp

lemma pieces_next:
  "pieces options = (case next_token options of (None, r) \<Rightarrow> [] | (Some t, r) \<Rightarrow> t # pieces r)"
proof (induction options rule: next_token.induct)
  case (1 options)
  show ?case
  proof (cases "\<exists>r. strsep options = (Some [], r)")
    case True
    then obtain r where r: "strsep options = (Some [], r)"
      by blast
    then show ?thesis
      using 1 [OF r [symmetric] refl refl] by (subst pieces_strsep, subst next_token.simps) simp
  next
    case False
    then show ?thesis
      by (subst pieces_strsep, subst next_token.simps) (auto split: prod.split option.split)
  qed
qed

lemma find_option_chosen:
  "\<forall>opt\<in>set opts. val opt \<noteq> 0 \<Longrightarrow> fst (find_option strtoul opts key optarg) \<noteq> 0"
  by (induction opts) (auto simp: opt_errors split: option.split prod.split)

lemma krping_opt_chosen: "fst (find_option strtoul krping_opts key optarg) \<noteq> 0"
  by (rule find_option_chosen) (simp add: krping_opts_def opt_char_def)

definition options_of ::
  "(string \<Rightarrow> u64 \<times> string) \<Rightarrow> (addr_family \<Rightarrow> string \<Rightarrow> byte list \<Rightarrow> byte list) \<Rightarrow> string list \<Rightarrow> u64 \<Rightarrow>
    krping_args \<Rightarrow> krping_args option" where
  "options_of strtoul pton tokens optint a =
     map_option fst (fold (one_option strtoul pton) tokens (Some (a, optint)))"

lemma one_option_None [simp]: "one_option strtoul pton t None = None"
  by (simp add: one_option_def)

lemma fold_one_option_None [simp]: "fold (one_option strtoul pton) ts None = None"
  by (induction ts) simp_all

lemma option_loop_pieces:
  "option_loop strtoul pton krping_opts cmd optint a = options_of strtoul pton (pieces cmd) optint a"
proof (induction "left cmd" arbitrary: cmd optint a rule: less_induct)
  case less
  obtain t r where n: "next_token cmd = (t, r)"
    by fastforce
  show ?case
  proof (cases t)
    case None
    with n have "pieces cmd = []"
      by (subst pieces_next) simp
    with n None show ?thesis
      by (subst option_loop.simps) (simp add: krping_getopt_def options_of_def)
  next
    case (Some token)
    obtain key optarg where k: "cut_arg token = (key, optarg)"
      by fastforce
    obtain op v where f: "find_option strtoul krping_opts key optarg = (op, v)"
      by fastforce
    have op: "op \<noteq> 0"
      using krping_opt_chosen [of strtoul key optarg] f by simp
    have p: "pieces cmd = token # pieces r"
      using n Some by (subst pieces_next) simp
    have l: "left r < left cmd"
      using n Some by (simp add: next_token_left)
    show ?thesis
      using n Some k f op
      by (subst option_loop.simps)
        (simp add: krping_getopt_def p options_of_def one_option_def Let_def less [OF l] split: bind_split)
  qed
qed

text \<open>
  C30: the option loop of the start of the module, with \<open>krping_getopt\<close> and its moving pointer, does what
  its reference does: it cuts the command at every comma, leaves the empty pieces out, and applies the
  options in their order.  So it reads every option and always comes
  to an end; where both have no value the name given to \<open>proc_name\<close> is too long for its array.
\<close>

theorem options_as_list:
  "option_loop strtoul pton krping_opts (Some cmd) optint a =
   options_of strtoul pton (filter (\<lambda>t. t \<noteq> []) (commas cmd)) optint a"
  using option_loop_pieces [of strtoul pton "Some cmd" optint a] by simp

lemma options_example:
  "option_loop (\<lambda>s. (7, [])) (\<lambda>f s d. d) krping_opts (Some '',server,,port=7,total_pages=7'') 0
     \<lparr>a_addr_str = [], a_addr = [], a_addr_type = AF_INET, a_port = 0, a_server = 0, a_verbose = 0,
      a_total_pages = 0, a_writeOut_buff = 0, a_readIn_buff = 0, a_proc_name = [], a_ret = 0\<rparr>
   = Some \<lparr>a_addr_str = [], a_addr = [], a_addr_type = AF_INET, a_port = 0x0700, a_server = 1, a_verbose = 0,
      a_total_pages = 7, a_writeOut_buff = 0, a_readIn_buff = 0, a_proc_name = [], a_ret = 0\<rparr>"
  by code_simp

lemma long_proc_name_overflows:
  assumes "100 \<le> length s"
  shows "apply_option pton (opt_char CHR ''o'') (Some s) optint a = None"
  using assms by (simp add: apply_option_def opt_char_def)

lemma count_is_unknown:
  "find_option strtoul krping_opts ''count'' (Some v) = (67, Some n) \<Longrightarrow>
   apply_option pton 67 (Some v) n a = Some (a\<lparr>a_ret := - EINVAL_OPT\<rparr>)"
  by (simp add: apply_option_def opt_char_def)

end
