(* ===== verification/Krping_Proc.thy ===== *)
theory Krping_Proc
  imports Krping_Doit Krping_Options "HOL-Library.Multiset"
begin

text \<open>
  The module from its start to its end: a write to the file \<open>/proc/krping\<close> (\<open>krping_write_proc\<close>) runs
  \<open>krping_doit\<close>, which makes the shared space and the control blocks, reads the options, lets the threads of
  the connections run until the kill switch, and takes everything apart.  What is allocated and not freed is
  part of the state, so that the early returns show what they leave behind.
\<close>

section \<open>The state and the surroundings\<close>

text \<open>
  References to the module, copies of commands, big pages, control blocks, and entries of the list
  \<open>krping_cbs\<close>.  Memory that the code never frees, on any path, is not counted: the descriptor of the shared
  space with its arrays, and the task structures that \<open>kthread_run\<close> then replaces by its own.
\<close>

record krping_mod =
  module_refs :: int
  cmd_bufs :: nat
  big_pages :: "u64 multiset"
  cb_blocks :: nat
  cbs_listed :: nat

text \<open>
  The answers of the kernel, the configuration of the node, and the parsers of numbers and addresses.  \<open>serve\<close>
  is the time in which the threads run: from the connections as they are started to those at the kill
  switch, with the result of the wait for it.
\<close>

record 'r doit_env =
  ext_of :: "'r ext"
  kzalloc_space :: u64
  kmalloc_cbs :: u64
  kzalloc_cb :: "int \<Rightarrow> u64"
  rdma_create_id :: "int \<Rightarrow> int"
  CONF_localpagecount :: int
  CONF_nodeID :: int
  CONF_isServer :: "int list"
  conf_args :: krping_args
  strtoul :: "string \<Rightarrow> u64 \<times> string"
  in_pton :: "addr_family \<Rightarrow> string \<Rightarrow> byte list \<Rightarrow> byte list"
  serve :: "krping_args \<Rightarrow> krping_sharedspace \<Rightarrow> krping_conn list \<Rightarrow> int \<times> krping_sharedspace \<times> krping_conn list"
  try_module_get :: bool
  kmalloc_cmd :: u64
  copy_from_user :: "u64 \<Rightarrow> string option"

section \<open>The code\<close>

definition ENODEV :: int where "ENODEV = 19"
definition EFAULT :: int where "EFAULT = 14"

text \<open>
  The start: \<open>Inl\<close> is an early return.  The result of \<open>regis_bigspace\<close> is thrown away; an option that is not
  known sets \<open>ret\<close>, and the start goes on.
\<close>

definition doit_start :: "'r doit_env \<Rightarrow> string \<Rightarrow> 'r \<Rightarrow> krping_mod \<Rightarrow>
    ((int + krping_args \<times> krping_sharedspace \<times> krping_conn list) \<times> krping_mod) option" where
  "doit_start E cmd r s =
     (if kzalloc_space E = 0 then Some (Inl (- 12), s)
      else do {
        (err, b, r) \<leftarrow> regis_bigspace (ext_of E) (CONF_localpagecount E) r;
        let s = s\<lparr>big_pages := big_pages s + mset (filter (\<lambda>p. p \<noteq> 0) (bufferpages b))\<rparr>;
        if kmalloc_cbs E = 0 then None
        else do {
          let (ret, conns) = make_cbs (kzalloc_cb E) (CONF_nodeID E) (CONF_isServer E) 0;
          let s = s\<lparr>cb_blocks := cb_blocks s + length conns\<rparr>;
          if ret \<noteq> 0 then Some (Inl (- 12), s)
          else do {
            first \<leftarrow> arr_get conns 0;
            a \<leftarrow> option_loop (strtoul E) (in_pton E) krping_opts (Some cmd) 0 (conf_args E);
            let conns = conns[0 := first\<lparr>cb_server := a_server a\<rparr>];
            let (ret, conns) = create_ids (rdma_create_id E) conns;
            if ret \<noteq> 0 then Some (Inl ret, s\<lparr>cb_blocks := cb_blocks s - length conns\<rparr>)
            else Some (Inr (a, b, conns), s\<lparr>cbs_listed := cbs_listed s + 1\<rparr>)
          }
        }
      })"

text \<open>The end, after the kill switch: the connections, the big pages and the control blocks are given back.\<close>

definition doit_end :: "krping_sharedspace \<Rightarrow> krping_conn list \<Rightarrow> krping_mod \<Rightarrow> krping_mod option" where
  "doit_end b conns s = do {
     (freed, b, conns) \<leftarrow> wind_down b conns;
     Some (s\<lparr>big_pages := big_pages s - mset freed, cb_blocks := cb_blocks s - length conns, cbs_listed := cbs_listed s - 1\<rparr>)
   }"

definition krping_doit :: "'r doit_env \<Rightarrow> string \<Rightarrow> 'r \<Rightarrow> krping_mod \<Rightarrow> (int \<times> krping_mod) option" where
  "krping_doit E cmd r s = do {
     (started, s) \<leftarrow> doit_start E cmd r s;
     case started of
       Inl ret \<Rightarrow> Some (ret, s)
     | Inr (a, b, conns) \<Rightarrow> (case serve E a b conns of (ret, b, conns) \<Rightarrow> do { s \<leftarrow> doit_end b conns s; Some (ret, s) })
   }"

text \<open>
  The last character of the command, its newline, is overwritten by the end of the string; a command of no
  characters has no value, since the byte before the buffer would be overwritten.
\<close>

definition cstring :: "string \<Rightarrow> string" where
  "cstring s = takeWhile (\<lambda>c. c \<noteq> CHR 0x00) s"

definition krping_write_proc :: "'r doit_env \<Rightarrow> u64 \<Rightarrow> 'r \<Rightarrow> krping_mod \<Rightarrow> (int \<times> krping_mod) option" where
  "krping_write_proc E n r s =
     (if \<not> try_module_get E then Some (- ENODEV, s)
      else (let s = s\<lparr>module_refs := module_refs s + 1\<rparr> in
        if kmalloc_cmd E = 0 then Some (- 12, s)
        else (let s = s\<lparr>cmd_bufs := cmd_bufs s + 1\<rparr> in
          case copy_from_user E n of
            None \<Rightarrow> Some (- EFAULT, s)
          | Some buffer \<Rightarrow>
              if n = 0 then None
              else do {
                (rc, s) \<leftarrow> krping_doit E (cstring (take (unat n - 1) buffer)) r s;
                let s = s\<lparr>cmd_bufs := cmd_bufs s - 1, module_refs := module_refs s - 1\<rparr>;
                Some (if rc \<noteq> 0 then rc else to_int n, s)
              })))"

section \<open>A whole life\<close>

lemma make_cbs_length: "make_cbs kz n servers i = (0, conns) \<Longrightarrow> length conns = length servers"
  by (induction servers arbitrary: i conns) (auto split: if_splits prod.splits)

lemma create_ids_length: "create_ids ans conns = (ret, conns') \<Longrightarrow> length conns' = length conns"
  by (induction conns arbitrary: ret conns') (auto simp: Let_def split: if_splits prod.splits)

text \<open>What a start that is not broken off has allocated.\<close>

lemma doit_start_serves:
  assumes "doit_start E cmd r s = Some (Inr (a, b, conns), t)"
  shows "t = s\<lparr>big_pages := big_pages s + mset (filter (\<lambda>p. p \<noteq> 0) (bufferpages b)), cb_blocks := cb_blocks s + length conns,
      cbs_listed := cbs_listed s + 1\<rparr>"
  using assms
  by (auto simp: doit_start_def Let_def split: if_splits Option.bind_splits prod.splits dest!: make_cbs_length create_ids_length)

text \<open>
  When every thread is ready after an orderly run, the write ends with the big pages, the control blocks, the
  copy of the command and the reference to the module given back, each exactly once.
\<close>

theorem life_gives_all_back:
  assumes "try_module_get E" and "kmalloc_cmd E \<noteq> 0" and "copy_from_user E n = Some buffer" and "n \<noteq> 0"
    and "doit_start E (cstring (take (unat n - 1) buffer)) r (s\<lparr>module_refs := module_refs s + 1, cmd_bufs := cmd_bufs s + 1\<rparr>) = Some (Inr (a, b, conns), t)"
    and "serve E a b conns = (ret, b', conns')" and "bufferpages b' = bufferpages b" and "length conns' = length conns" and "conns \<noteq> []"
    and "\<And>i. i < length conns' \<Longrightarrow> on_track (peers i) (Ready, b', conns' ! i) \<and> table_sent (peers i)"
  shows "krping_write_proc E n r s = Some (if ret \<noteq> 0 then ret else to_int n, s)"
proof -
  have "conns' \<noteq> []" using assms(8,9) by auto
  then obtain c d where w: "wind_down b' conns' = Some (filter (\<lambda>p. p \<noteq> 0) (bufferpages b), c, d)" "length d = length conns"
    using wind_down_all [of conns' peers b'] assms(7,8,10) by auto
  note t = doit_start_serves [OF assms(5)]
  have "doit_end b' conns' t = Some (s\<lparr>module_refs := module_refs s + 1, cmd_bufs := cmd_bufs s + 1\<rparr>)"
    using w by (simp add: doit_end_def t)
  then have "krping_doit E (cstring (take (unat n - 1) buffer)) r (s\<lparr>module_refs := module_refs s + 1, cmd_bufs := cmd_bufs s + 1\<rparr>)
      = Some (ret, s\<lparr>module_refs := module_refs s + 1, cmd_bufs := cmd_bufs s + 1\<rparr>)"
    using assms(5,6) by (simp add: krping_doit_def)
  then show ?thesis using assms(1-4) by (simp add: krping_write_proc_def Let_def)
qed

text \<open>
  The early returns: a command that cannot be copied leaves its buffer and a reference to the module behind,
  so that the module can never be unloaded; one without a buffer leaves the reference.
\<close>

theorem failed_command_keeps_module:
  assumes "try_module_get E"
  shows "kmalloc_cmd E = 0 \<Longrightarrow> krping_write_proc E n r s = Some (- 12, s\<lparr>module_refs := module_refs s + 1\<rparr>)"
    and "kmalloc_cmd E \<noteq> 0 \<Longrightarrow> copy_from_user E n = None \<Longrightarrow>
      krping_write_proc E n r s = Some (- EFAULT, s\<lparr>module_refs := module_refs s + 1, cmd_bufs := cmd_bufs s + 1\<rparr>)"
  using assms by (simp_all add: krping_write_proc_def Let_def)

text \<open>
  A start that is broken off, for want of a control block or of an identifier, keeps every big page it had
  allocated; nothing but the next boot gives them back.
\<close>

theorem failed_start_keeps_pages:
  assumes "doit_start E cmd r s = Some (Inl ret, t)" and "kzalloc_space E \<noteq> 0"
  shows "\<exists>err b r'. regis_bigspace (ext_of E) (CONF_localpagecount E) r = Some (err, b, r') \<and> krping_doit E cmd r s = Some (ret, t) \<and>
    big_pages t = big_pages s + mset (filter (\<lambda>p. p \<noteq> 0) (bufferpages b))"
proof -
  have "krping_doit E cmd r s = Some (ret, t)" using assms(1) by (simp add: krping_doit_def)
  then show ?thesis using assms by (auto simp: doit_start_def Let_def split: if_splits Option.bind_splits prod.splits)
qed

end
