(* ===== verification/Swap_On.thy ===== *)
theory Swap_On
  imports Swap_Alloc Swap_Extents Swap_History
begin

unbundle bit_operations_syntax

text \<open>
  Putting a swap area into use (\<open>swapfile.c\<close>, 1489-1562 and 1836-2186): its number, its header, its map, its
  place in the list by priority.
\<close>

section \<open>State\<close>

definition EPERM :: int where "EPERM = 1"
definition EBUSY :: int where "EBUSY = 16"

text \<open>\<open>swap_file\<close> is, for each type, the mapping of its file, if it has one.\<close>

record 'k areas =
  sws :: "'k swaps"
  least_priority :: int
  swap_file :: "int \<Rightarrow> int option"

text \<open>
  The first page of the area as \<open>union swap_header\<close> lays it out: what follows the fields are the bad pages,
  as many as the page has room for.
\<close>

type_synonym w32 = "32 word"

record swap_header =
  magic :: string
  version :: w32
  last_page :: w32
  nr_badpages :: w32
  badpages :: "w32 list"

text \<open>The file behind a name: the number of its mapping, what it is, whether its file system lies on a device, its length.\<close>

record swap_inode =
  f_mapping :: int
  is_blk :: bool
  is_reg :: bool
  fs_bdev :: bool
  size_pages :: u64
  has_readpage :: bool

text \<open>
  What \<open>swapon\<close> uses of the rest of the kernel: headers, names and files, block devices, the control groups,
  frontswap, and the extents of a regular file.
\<close>

record 'k onserv =
  SWAP_MAP_BAD :: byte
  MAX_SWAP_BADPAGES :: int
  SWAP_FLAGS_VALID :: u64
  SWAP_FLAG_PREFER :: u64
  SWAP_FLAG_PRIO_MASK :: u64
  SWAP_FLAG_PRIO_SHIFT :: nat
  SWAP_FLAG_DISCARD :: u64
  largest_offset :: u64
  capable :: "'k \<Rightarrow> bool"
  kzalloc_info :: "'k \<Rightarrow> bool \<times> 'k"
  getname :: "'k \<Rightarrow> int \<times> 'k"
  file_open_name :: "'k \<Rightarrow> (int + swap_inode) \<times> 'k"
  blkdev_get :: "int \<Rightarrow> 'k \<Rightarrow> int \<times> 'k"
  set_blocksize :: "int \<Rightarrow> 'k \<Rightarrow> int \<times> 'k"
  blkdev_put :: "int \<Rightarrow> 'k \<Rightarrow> 'k"
  IS_SWAPFILE :: "int \<Rightarrow> 'k \<Rightarrow> bool"
  mark_swapfile :: "int \<Rightarrow> 'k \<Rightarrow> 'k"
  read_mapping_page :: "int \<Rightarrow> 'k \<Rightarrow> (int + swap_header) \<times> 'k"
  vzalloc :: "u64 \<Rightarrow> 'k \<Rightarrow> bool \<times> 'k"
  swap_cgroup_swapon :: "int \<Rightarrow> u64 \<Rightarrow> 'k \<Rightarrow> int \<times> 'k"
  swap_cgroup_swapoff :: "int \<Rightarrow> 'k \<Rightarrow> 'k"
  frontswap_init :: "int \<Rightarrow> 'k \<Rightarrow> 'k"
  swap_activate :: "(swap_info_struct \<times> 'k \<Rightarrow> (int \<times> swap_info_struct \<times> 'k) option) option"
  generic_swapfile_activate :: "swap_info_struct \<times> 'k \<Rightarrow> (int \<times> swap_info_struct \<times> 'k) option"
  nonrot :: "int \<Rightarrow> 'k \<Rightarrow> bool"
  prandom_u32 :: "'k \<Rightarrow> int \<times> 'k"
  filp_close :: "'k \<Rightarrow> 'k"

section \<open>The list of areas\<close>

text \<open>The first area of the list whose priority is not higher, and the one before it (-1 for none).\<close>

partial_function (option) find_place :: "int \<Rightarrow> int \<Rightarrow> int \<Rightarrow> 'k swaps \<Rightarrow> (int \<times> int) option" where
  "find_place pr prev i s =
     (if i < 0 then Some (prev, i)
      else do {
        q \<leftarrow> si_get i s;
        if prio q \<le> pr then Some (prev, i) else find_place pr i (si_next q) s
      })"

definition insert_area :: "int \<Rightarrow> 'k swaps \<Rightarrow> 'k swaps option" where
  "insert_area type s = do {
     p \<leftarrow> si_get type s;
     (prev, i) \<leftarrow> find_place (prio p) (-1) (swap_list_head s) s;
     let s = si_put type (p\<lparr>si_next := i\<rparr>) s;
     if prev < 0 then Some (s\<lparr>swap_list_head := si_type p, swap_list_next := si_type p\<rparr>)
     else do { q \<leftarrow> si_get prev s; Some (si_put prev (q\<lparr>si_next := si_type p\<rparr>) s) }
   }"

text \<open>The priority an area gets: the one asked for, or one below all that were given out so far.\<close>

definition given_prio :: "int \<Rightarrow> 'k areas \<Rightarrow> int" where
  "given_prio pr a = (if 0 \<le> pr then pr else least_priority a - 1)"

definition u_enable_swap_info :: "swap_h \<Rightarrow> int \<Rightarrow> int \<Rightarrow> byte list \<Rightarrow> 'k areas \<Rightarrow> 'k areas option" where
  "u_enable_swap_info K type pr m a = do {
     p \<leftarrow> si_get type (sws a);
     let s = si_put type (p\<lparr>prio := given_prio pr a, swap_map := m, si_flags := si_flags p OR SWP_WRITEOK K\<rparr>) (sws a);
     let s = s\<lparr>nr_swap_pages := nr_swap_pages s + si_pages p, total_swap_pages := total_swap_pages s + si_pages p\<rparr>;
     s \<leftarrow> insert_area type s;
     Some (a\<lparr>sws := s, least_priority := if 0 \<le> pr then least_priority a else least_priority a - 1\<rparr>)
   }"

text \<open>With both locks, which nobody else holds.\<close>

definition locked_enable :: "swap_h \<Rightarrow> int \<Rightarrow> int \<Rightarrow> byte list \<Rightarrow> 'k areas \<Rightarrow> 'k areas option" where
  "locked_enable K type pr m a = do {
     s \<leftarrow> spin_lock_swap (sws a);
     s \<leftarrow> spin_lock_si type s;
     a \<leftarrow> u_enable_swap_info K type pr m (a\<lparr>sws := s\<rparr>);
     s \<leftarrow> spin_unlock_si type (sws a);
     Some (a\<lparr>sws := s\<lparr>swap_lock := False\<rparr>\<rparr>)
   }"

definition enable_swap_info :: "swap_h \<Rightarrow> 'k onserv \<Rightarrow> int \<Rightarrow> int \<Rightarrow> byte list \<Rightarrow> 'k areas \<Rightarrow> 'k areas option" where
  "enable_swap_info K E type pr m a =
     locked_enable K type pr m (a\<lparr>sws := kern_do (frontswap_init E type) (sws a)\<rparr>)"

definition reinsert_swap_info :: "swap_h \<Rightarrow> int \<Rightarrow> 'k areas \<Rightarrow> 'k areas option" where
  "reinsert_swap_info K type a = do { p \<leftarrow> si_get type (sws a); locked_enable K type (prio p) (swap_map p) a }"

section \<open>The number of an area\<close>

text \<open>The first number below \<open>n\<close> whose area is not in use.\<close>

partial_function (option) free_type :: "swap_h \<Rightarrow> int \<Rightarrow> int \<Rightarrow> 'k swaps \<Rightarrow> int option" where
  "free_type K type n s =
     (if n \<le> type then Some type
      else do { p \<leftarrow> si_get type s; if si_flags p AND SWP_USED K = 0 then Some type else free_type K (type + 1) n s })"

definition zero_info :: "int \<Rightarrow> swap_info_struct" where
  "zero_info type = \<lparr>si_flags = 0, prio = 0, si_type = type, si_next = 0, si_max = 0, swap_map = [], map_pages = [], lowest_bit = 0,
     highest_bit = 0, si_pages = 0, inuse_pages = 0, cluster_next = 0, cluster_nr = 0, lowest_alloc = 0, highest_alloc = 0,
     extents = [\<lparr>se_start_page = 0, se_nr_pages = 0, se_start_block = 0\<rparr>], curr_extent = 0, slot_notify = False, si_lock = False\<rparr>"

text \<open>A number below 0 is an error.\<close>

definition alloc_swap_info :: "swap_h \<Rightarrow> 'k onserv \<Rightarrow> 'k swaps \<Rightarrow> (int \<times> 'k swaps) option" where
  "alloc_swap_info K E s = do {
     let (got, k) = kzalloc_info E (kern s);
     let s = s\<lparr>kern := k\<rparr>;
     if \<not> got then Some (- ENOMEM, s)
     else do {
       s \<leftarrow> spin_lock_swap s;
       type \<leftarrow> free_type K 0 (nr_swapfiles s) s;
       if MAX_SWAPFILES K \<le> type then Some (- EPERM, s\<lparr>swap_lock := False\<rparr>)
       else do {
         s \<leftarrow> (if nr_swapfiles s \<le> type then do {
                xs \<leftarrow> arr_set (swap_info s) type (Some (zero_info type));
                Some (s\<lparr>swap_info := xs, nr_swapfiles := nr_swapfiles s + 1\<rparr>)
              } else Some s);
         p \<leftarrow> si_get type s;
         Some (type, (si_put type (p\<lparr>extents := take 1 (extents p), si_flags := SWP_USED K, si_next := -1, si_lock := False\<rparr>) s)\<lparr>swap_lock := False\<rparr>)
       }
     }
   }"

section \<open>The header\<close>

definition swab32 :: "w32 \<Rightarrow> w32" where
  "swab32 x = (push_bit 24 (x AND 0xff) OR push_bit 8 (x AND 0xff00) OR drop_bit 8 (x AND 0xff0000) OR drop_bit 24 (x AND 0xff000000))"

text \<open>A header in the other byte order is turned round in place; the number of bad pages is not tested yet.\<close>

definition swab_header :: "swap_header \<Rightarrow> swap_header option" where
  "swab_header h =
     (if swab32 (version h) = 1 then do {
        let h = h\<lparr>version := swab32 (version h), last_page := swab32 (last_page h), nr_badpages := swab32 (nr_badpages h)\<rparr>;
        for_up 0 (uint (nr_badpages h)) (\<lambda>i h. do { xs \<leftarrow> arr_upd (badpages h) i swab32; Some (h\<lparr>badpages := xs\<rparr>) }) h
      }
      else Some h)"

text \<open>The number of pages of the area, 0 for a header that is refused.  The sums are those of 32 bits.\<close>

definition read_swap_header ::
  "'k onserv \<Rightarrow> swap_inode \<Rightarrow> swap_header \<Rightarrow> swap_info_struct \<Rightarrow> (u64 \<times> swap_header \<times> swap_info_struct) option" where
  "read_swap_header E inode h p =
     (if magic h \<noteq> ''SWAPSPACE2'' then Some (0, h, p)
      else do {
        h \<leftarrow> swab_header h;
        if version h \<noteq> 1 then Some (0, h, p)
        else do {
          let p = p\<lparr>lowest_bit := 1, cluster_next := 1, cluster_nr := 0\<rparr>;
          let maxpages = largest_offset E + 1;
          let maxpages = (if ucast (last_page h) < maxpages
              then (let m = (ucast (last_page h + 1) :: u64) in if m = 0 then 0xffffffff else m) else maxpages);
          let p = p\<lparr>highest_bit := u32 (uint maxpages - 1)\<rparr>;
          if maxpages = 0 then Some (0, h, p)
          else if size_pages inode \<noteq> 0 \<and> size_pages inode < maxpages then Some (0, h, p)
          else if nr_badpages h \<noteq> 0 \<and> is_reg inode then Some (0, h, p)
          else if MAX_SWAP_BADPAGES E < uint (nr_badpages h) then Some (0, h, p)
          else Some (maxpages, h, p)
        }
      })"

section \<open>The map\<close>

definition setup_swap_extents ::
  "'k kserv \<Rightarrow> 'k onserv \<Rightarrow> swap_h \<Rightarrow> swap_inode \<Rightarrow> swap_info_struct \<times> 'k \<Rightarrow> (int \<times> swap_info_struct \<times> 'k) option" where
  "setup_swap_extents X E K inode = (\<lambda>(sis, k).
     if is_blk inode then add_swap_extent X 0 (si_max sis) 0 (sis, k)
     else (case swap_activate E of
         Some activate \<Rightarrow> do {
           (ret, sis, k) \<leftarrow> activate (sis, k);
           if ret \<noteq> 0 then Some (ret, sis, k)
           else add_swap_extent X 0 (si_max sis) 0 (sis\<lparr>si_flags := si_flags sis OR SWP_FILE K\<rparr>, k)
         }
       | None \<Rightarrow> generic_swapfile_activate E (sis, k)))"

text \<open>The bad pages from index \<open>i\<close> on: 0 and the map with the number of good pages, or an error.\<close>

function mark_bad ::
  "'k onserv \<Rightarrow> swap_header \<Rightarrow> u64 \<Rightarrow> int \<Rightarrow> byte list \<times> w32 \<Rightarrow> (int \<times> byte list \<times> w32) option" where
  "mark_bad E h maxpages i (m, good) =
     (if i < uint (nr_badpages h) then do {
        page_nr \<leftarrow> arr_get (badpages h) i;
        if page_nr = 0 \<or> last_page h < page_nr then Some (- EINVAL, m, good)
        else if ucast page_nr < maxpages then do {
          m \<leftarrow> arr_set m (uint page_nr) (SWAP_MAP_BAD E);
          mark_bad E h maxpages (i + 1) (m, good - 1)
        }
        else mark_bad E h maxpages (i + 1) (m, good)
      }
      else Some (0, m, good))"
  by pat_completeness auto
termination
  by (relation "measure (\<lambda>(E, h, maxpages, i, x). nat (uint (nr_badpages h) - i))") auto

declare mark_bad.simps [simp del]

definition setup_swap_map_and_extents ::
  "'k kserv \<Rightarrow> 'k onserv \<Rightarrow> swap_h \<Rightarrow> swap_inode \<Rightarrow> swap_header \<Rightarrow> byte list \<Rightarrow> u64 \<Rightarrow> swap_info_struct \<Rightarrow> 'k \<Rightarrow>
     (int \<times> byte list \<times> swap_info_struct \<times> 'k) option" where
  "setup_swap_map_and_extents X E K inode h m maxpages p k = do {
     (err, m, good) \<leftarrow> mark_bad E h maxpages 0 (m, ucast (maxpages - 1));
     if err \<noteq> 0 then Some (err, m, p, k)
     else if good = 0 then Some (- EINVAL, m, p, k)
     else do {
       m \<leftarrow> arr_set m 0 (SWAP_MAP_BAD E);
       (nr_extents, p, k) \<leftarrow> setup_swap_extents X E K inode (p\<lparr>si_max := u32 (uint maxpages), si_pages := uint good\<rparr>, k);
       if nr_extents < 0 then Some (nr_extents, m, p, k)
       else if u32 (si_pages p) = 0 then Some (- EINVAL, m, p, k)
       else Some (nr_extents, m, p, k)
     }
   }"

section \<open>\<open>swapon\<close>\<close>

definition put_info :: "int \<Rightarrow> swap_info_struct \<Rightarrow> 'k \<Rightarrow> 'k areas \<Rightarrow> 'k areas" where
  "put_info type p k a = a\<lparr>sws := (si_put type p (sws a))\<lparr>kern := k\<rparr>\<rparr>"

definition a_kern :: "('k \<Rightarrow> 'k) \<Rightarrow> 'k areas \<Rightarrow> 'k areas" where
  "a_kern f a = a\<lparr>sws := kern_do f (sws a)\<rparr>"

definition a_call :: "('k \<Rightarrow> 'b \<times> 'k) \<Rightarrow> 'k areas \<Rightarrow> 'b \<times> 'k areas" where
  "a_call f a = (case f (kern (sws a)) of (r, k) \<Rightarrow> (r, a_kern (\<lambda>_. k) a))"

text \<open>The way out of a failed \<open>swapon\<close>: \<open>inode\<close> and the open device as far as it got.\<close>

definition bad_swap ::
  "swap_h \<Rightarrow> 'k kserv \<Rightarrow> 'k onserv \<Rightarrow> int \<Rightarrow> bool \<Rightarrow> swap_inode option \<Rightarrow> bool \<Rightarrow> int \<Rightarrow> 'k areas \<Rightarrow> (int \<times> 'k areas) option" where
  "bad_swap K X E type opened inode bdev error a = do {
     let a = (case inode of Some n \<Rightarrow>
                if is_blk n \<and> bdev then a_kern (blkdev_put E type) (snd (a_call (set_blocksize E type) a)) else a | None \<Rightarrow> a);
     p \<leftarrow> si_get type (sws a);
     let (p, k) = destroy_swap_extents K X p (kern (sws a));
     let a = a_kern (swap_cgroup_swapoff E type) (put_info type p k a);
     s \<leftarrow> spin_lock_swap (sws a);
     let a = a\<lparr>sws := (si_put type (p\<lparr>si_flags := 0\<rparr>) s)\<lparr>swap_lock := False\<rparr>, swap_file := (swap_file a)(type := None)\<rparr>;
     Some (error, if opened then a_kern (filp_close E) a else a)
   }"

text \<open>\<open>claim_swapfile\<close>: the error, and whether the device is open.\<close>

definition claim_swapfile :: "swap_h \<Rightarrow> 'k onserv \<Rightarrow> int \<Rightarrow> swap_inode \<Rightarrow> 'k areas \<Rightarrow> (int \<times> bool \<times> 'k areas) option" where
  "claim_swapfile K E type inode a =
     (if is_blk inode then do {
        let (error, a) = a_call (blkdev_get E type) a;
        if error < 0 then Some (- EINVAL, False, a)
        else do {
          let (error, a) = a_call (set_blocksize E type) a;
          if error < 0 then Some (error, True, a)
          else do {
            p \<leftarrow> si_get type (sws a);
            Some (0, True, a\<lparr>sws := si_put type (p\<lparr>si_flags := si_flags p OR SWP_BLKDEV K\<rparr>) (sws a)\<rparr>)
          }
        }
      }
      else if is_reg inode then
        (if IS_SWAPFILE E (f_mapping inode) (kern (sws a)) then Some (- EBUSY, False, a) else Some (0, False, a))
      else Some (- EINVAL, False, a))"

text \<open>The tuning of an area on a device, and its priority.\<close>

definition tune_area :: "swap_h \<Rightarrow> 'k kserv \<Rightarrow> 'k onserv \<Rightarrow> u64 \<Rightarrow> int \<Rightarrow> swap_inode \<Rightarrow> 'k areas \<Rightarrow> 'k areas option" where
  "tune_area K X E swap_flags type inode a =
     (if \<not> is_blk inode \<and> \<not> fs_bdev inode then Some a
      else do {
        p \<leftarrow> si_get type (sws a);
        (p, k) \<leftarrow> (if nonrot E type (kern (sws a)) then
             (if highest_bit p = 0 then None
              else (let (r, k) = prandom_u32 E (kern (sws a))
                    in Some (p\<lparr>si_flags := si_flags p OR SWP_SOLIDSTATE K, cluster_next := u32 (1 + r mod highest_bit p)\<rparr>, k)))
           else Some (p, kern (sws a)));
        (p, k) \<leftarrow> (if swap_flags AND SWAP_FLAG_DISCARD E \<noteq> 0 then do {
             (err, k) \<leftarrow> discard_swap X p k;
             Some (if err = 0 then p\<lparr>si_flags := si_flags p OR SWP_DISCARDABLE K\<rparr> else p, k)
           } else Some (p, k));
        Some (put_info type p k a)
      })"

definition swapon_prio :: "'k onserv \<Rightarrow> u64 \<Rightarrow> int" where
  "swapon_prio E swap_flags =
     (if swap_flags AND SWAP_FLAG_PREFER E \<noteq> 0
      then uint (drop_bit (SWAP_FLAG_PRIO_SHIFT E) (swap_flags AND SWAP_FLAG_PRIO_MASK E)) else -1)"

text \<open>The page structures of the memory that holds a new map.\<close>

definition fresh_pages :: "u64 \<Rightarrow> map_page list" where
  "fresh_pages maxpages = replicate (nat ((uint maxpages + PAGE_SIZE - 1) div PAGE_SIZE)) \<lparr>head_private = 0, lru = []\<rparr>"

text \<open>From the header on.\<close>

definition swapon_area ::
  "swap_h \<Rightarrow> 'k kserv \<Rightarrow> 'k onserv \<Rightarrow> u64 \<Rightarrow> int \<Rightarrow> swap_inode \<Rightarrow> bool \<Rightarrow> swap_header \<Rightarrow> 'k areas \<Rightarrow> (int \<times> 'k areas) option" where
  "swapon_area K X E swap_flags type inode bdev header a = do {
     let bad = bad_swap K X E type True (Some inode) bdev;
     p \<leftarrow> si_get type (sws a);
     (maxpages, header, p) \<leftarrow> read_swap_header E inode header p;
     let a = put_info type p (kern (sws a)) a;
     if maxpages = 0 then bad (- EINVAL) a
     else do {
       let (got, a) = a_call (vzalloc E maxpages) a;
       if \<not> got then bad (- ENOMEM) a
       else do {
         let (error, a) = a_call (swap_cgroup_swapon E type maxpages) a;
         if error \<noteq> 0 then bad error a
         else do {
           (nr_extents, m, p, k) \<leftarrow> setup_swap_map_and_extents X E K inode header (replicate (unat maxpages) 0) maxpages p (kern (sws a));
           let a = put_info type (p\<lparr>map_pages := fresh_pages maxpages\<rparr>) k a;
           if nr_extents < 0 then bad nr_extents a
           else do {
             a \<leftarrow> tune_area K X E swap_flags type inode a;
             a \<leftarrow> enable_swap_info K E type (swapon_prio E swap_flags) m a;
             Some (0, if is_reg inode then a_kern (mark_swapfile E (f_mapping inode)) a else a)
           }
         }
       }
     }
   }"

definition swapon :: "swap_h \<Rightarrow> 'k kserv \<Rightarrow> 'k onserv \<Rightarrow> u64 \<Rightarrow> 'k areas \<Rightarrow> (int \<times> 'k areas) option" where
  "swapon K X E swap_flags a =
     (if swap_flags AND NOT (SWAP_FLAGS_VALID E) \<noteq> 0 then Some (- EINVAL, a)
      else if \<not> capable E (kern (sws a)) then Some (- EPERM, a)
      else do {
        (type, s) \<leftarrow> alloc_swap_info K E (sws a);
        let a = a\<lparr>sws := s\<rparr>;
        if type < 0 then Some (type, a)
        else do {
          let (error, a) = a_call (getname E) a;
          if error < 0 then bad_swap K X E type False None False error a
          else (case a_call (file_open_name E) a of
              (Inl error, a) \<Rightarrow> bad_swap K X E type False None False error a
            | (Inr inode, a) \<Rightarrow> do {
                let a = a\<lparr>swap_file := (swap_file a)(type := Some (f_mapping inode))\<rparr>;
                if (\<exists>i\<in>{0..<nr_swapfiles (sws a)} - {type}. swap_file a i = Some (f_mapping inode))
                then bad_swap K X E type True None False (- EBUSY) a
                else do {
                  (error, bdev, a) \<leftarrow> claim_swapfile K E type inode a;
                  if error \<noteq> 0 then bad_swap K X E type True (Some inode) bdev error a
                  else if \<not> has_readpage inode then bad_swap K X E type True (Some inode) bdev (- EINVAL) a
                  else (case a_call (read_mapping_page E (f_mapping inode)) a of
                      (Inl error, a) \<Rightarrow> bad_swap K X E type True (Some inode) bdev error a
                    | (Inr header, a) \<Rightarrow> swapon_area K X E swap_flags type inode bdev header a)
                }
              })
        }
      })"

section \<open>The list stays sorted\<close>

text \<open>The areas of the list from \<open>i\<close> on, and a list in descending order of the priorities.\<close>

fun linked :: "'k swaps \<Rightarrow> int \<Rightarrow> int list \<Rightarrow> bool" where
  "linked s i [] \<longleftrightarrow> i < 0"
| "linked s i (x # xs) \<longleftrightarrow> i = x \<and> (\<exists>p. si_get x s = Some p \<and> si_type p = x \<and> linked s (si_next p) xs)"

definition prio_at :: "'k swaps \<Rightarrow> int \<Rightarrow> int" where
  "prio_at s x = (case si_get x s of Some p \<Rightarrow> prio p | None \<Rightarrow> 0)"

definition list_ok :: "'k swaps \<Rightarrow> int list \<Rightarrow> bool" where
  "list_ok s xs \<longleftrightarrow> linked s (swap_list_head s) xs \<and> distinct xs \<and> sorted_wrt (\<lambda>x y. prio_at s y \<le> prio_at s x) xs"

definition link_same :: "'k swaps \<Rightarrow> 'k swaps \<Rightarrow> int \<Rightarrow> bool" where
  "link_same s t x \<longleftrightarrow> (\<forall>p. si_get x s = Some p \<longrightarrow> (\<exists>q. si_get x t = Some q \<and> si_type q = si_type p \<and> si_next q = si_next p))"

lemma linked_cong: "linked s i xs \<Longrightarrow> (\<And>x. x \<in> set xs \<Longrightarrow> link_same s t x) \<Longrightarrow> linked t i xs"
proof (induction xs arbitrary: i)
  case (Cons x xs)
  then obtain p where p: "i = x" "si_get x s = Some p" "si_type p = x" "linked s (si_next p) xs" by auto
  moreover obtain q where "si_get x t = Some q" "si_type q = x" "si_next q = si_next p"
    using Cons.prems(2) [of x] p by (auto simp: link_same_def)
  ultimately show ?case using Cons.IH [of "si_next p"] Cons.prems(2) by auto
qed simp

lemma linked_valid: "linked s i xs \<Longrightarrow> x \<in> set xs \<Longrightarrow> \<exists>p. si_get x s = Some p \<and> si_type p = x"
  by (induction xs arbitrary: i) auto

lemma linked_split: "linked s i (ys @ zs) \<Longrightarrow> \<exists>j. linked s j zs"
  by (induction ys arbitrary: i) auto

text \<open>The place found splits the list: before it the higher priorities, from it on the others.\<close>

lemma find_place_correct:
  assumes "linked s i xs" and "\<And>x. x \<in> set xs \<Longrightarrow> 0 \<le> x"
  shows "\<exists>ys zs j. xs = ys @ zs \<and> find_place pr prev i s = Some (if ys = [] then prev else last ys, j) \<and> linked s j zs \<and>
    (\<forall>y\<in>set ys. pr < prio_at s y) \<and> (zs = [] \<or> prio_at s (hd zs) \<le> pr)"
  using assms
proof (induction xs arbitrary: i prev)
  case Nil
  then show ?case by (intro exI [of _ "[]"] exI [of _ i]) (subst find_place.simps, simp)
next
  case (Cons x xs)
  then obtain p where p: "i = x" "si_get x s = Some p" "si_type p = x" "linked s (si_next p) xs" "0 \<le> x" by auto
  show ?case
  proof (cases "prio p \<le> pr")
    case True
    then have "find_place pr prev i s = Some (prev, i)" using p by (subst find_place.simps) simp
    then show ?thesis using Cons.prems(1) True p(2)
      by (intro exI [of _ "[]"] exI [of _ "x # xs"] exI [of _ i]) (simp add: prio_at_def)
  next
    case False
    then have step: "find_place pr prev i s = find_place pr x (si_next p) s" using p by (subst find_place.simps) simp
    obtain ys zs j where "xs = ys @ zs" "find_place pr x (si_next p) s = Some (if ys = [] then x else last ys, j)" "linked s j zs"
      "\<forall>y\<in>set ys. pr < prio_at s y" "zs = [] \<or> prio_at s (hd zs) \<le> pr"
      using Cons.IH [OF p(4), of x] Cons.prems(2) by auto
    then show ?thesis using step False p(2)
      by (intro exI [of _ "x # ys"] exI [of _ zs] exI [of _ j]) (auto simp: prio_at_def)
  qed
qed

lemma linked_insert:
  assumes "linked s i (ys @ zs)" and "linked s j zs" and "si_get type t = Some p" and "si_type p = type" and "si_next p = j"
    and "\<And>x. x \<in> set zs \<Longrightarrow> link_same s t x" and "\<And>x. x \<in> set (butlast ys) \<Longrightarrow> link_same s t x"
    and "ys \<noteq> [] \<Longrightarrow> \<exists>q. si_get (last ys) t = Some q \<and> si_type q = last ys \<and> si_next q = type"
  shows "linked t (if ys = [] then type else i) (ys @ type # zs)"
  using assms(1,7,8)
proof (induction ys arbitrary: i)
  case Nil
  then show ?case using assms(2-6) linked_cong [of s j zs t] by simp
next
  case (Cons y ys)
  obtain q where q: "i = y" "si_get y s = Some q" "si_type q = y" "linked s (si_next q) (ys @ zs)" using Cons.prems(1) by auto
  show ?case
  proof (cases "ys = []")
    case True
    then show ?thesis using q(1) Cons.prems(3) assms(2-6) linked_cong [of s j zs t] by auto
  next
    case False
    then have "linked t (si_next q) (ys @ type # zs)"
      using Cons.IH [OF q(4)] Cons.prems(2,3) by simp
    moreover obtain r where "si_get y t = Some r" "si_type r = y" "si_next r = si_next q"
      using Cons.prems(2) [of y] False q(2,3) by (auto simp: link_same_def)
    ultimately show ?thesis using q(1) by simp
  qed
qed

lemma sorted_insert:
  assumes "sorted_wrt (\<lambda>x y. f y \<le> f x) (ys @ zs)" and "\<And>y. y \<in> set ys \<Longrightarrow> pr < f y" and "zs = [] \<or> f (hd zs) \<le> pr"
    and "g k = (pr :: int)" and "\<And>x. x \<in> set (ys @ zs) \<Longrightarrow> g x = f x"
  shows "sorted_wrt (\<lambda>x y. g y \<le> g x) (ys @ k # zs)"
proof -
  have "sorted_wrt (\<lambda>x y. g y \<le> g x) (ys @ zs)" 
    by (rule sorted_wrt_mono_rel [OF _ assms(1)]) (use assms(5) in simp)
  moreover have "g z \<le> pr" if "z \<in> set zs" for z
  proof -
    have "f z \<le> f (hd zs)" using assms(1) that by (cases zs) (auto simp: sorted_wrt_append)
    then show ?thesis using assms(3,5) that by (cases zs) (auto intro: order_trans)
  qed
  ultimately show ?thesis using assms(2,4,5) by (fastforce simp: sorted_wrt_append)
qed

lemma si_get_fields [simp]:
  "si_get x (s\<lparr>nr_swap_pages := n\<rparr>) = si_get x s" "si_get x (s\<lparr>total_swap_pages := n\<rparr>) = si_get x s"
  "si_get x (s\<lparr>swap_list_head := n\<rparr>) = si_get x s" "si_get x (s\<lparr>swap_list_next := n\<rparr>) = si_get x s"
  "si_get x (s\<lparr>swap_lock := b\<rparr>) = si_get x s" "si_get x (s\<lparr>kern := k\<rparr>) = si_get x s"
  by (simp_all add: si_get_def)

text \<open>What else becomes of the area and of the others: these keep all but their links.\<close>

definition entered :: "swap_h \<Rightarrow> int \<Rightarrow> int \<Rightarrow> byte list \<Rightarrow> swap_info_struct \<Rightarrow> 'k areas \<Rightarrow> 'k areas \<Rightarrow> bool" where
  "entered K type pr m p a b \<longleftrightarrow>
     total_swap_pages (sws b) = total_swap_pages (sws a) + si_pages p \<and> nr_swap_pages (sws b) = nr_swap_pages (sws a) + si_pages p \<and>
     swap_lock (sws b) = swap_lock (sws a) \<and> swap_file b = swap_file a \<and>
     least_priority b = (if 0 \<le> pr then least_priority a else least_priority a - 1) \<and>
     (\<exists>i. si_get type (sws b) = Some (p\<lparr>prio := given_prio pr a, swap_map := m, si_flags := si_flags p OR SWP_WRITEOK K, si_next := i\<rparr>)) \<and>
     (\<forall>x q. x \<noteq> type \<longrightarrow> si_get x (sws a) = Some q \<longrightarrow> (\<exists>i. si_get x (sws b) = Some (q\<lparr>si_next := i\<rparr>)))"

lemma enable_sorted:
  assumes l: "list_ok (sws a) xs" and t: "type \<notin> set xs" "si_get type (sws a) = Some p" "si_type p = type"
  shows "\<exists>a' ys zs. u_enable_swap_info K type pr m a = Some a' \<and> xs = ys @ zs \<and> list_ok (sws a') (ys @ type # zs) \<and>
    prio_at (sws a') type = given_prio pr a \<and> (\<forall>x\<in>set xs. prio_at (sws a') x = prio_at (sws a) x) \<and>
    entered K type pr m p a a'"
proof -
  let ?s = "sws a" and ?pr = "given_prio pr a"
  define p1 where "p1 = p\<lparr>prio := ?pr, swap_map := m, si_flags := si_flags p OR SWP_WRITEOK K\<rparr>"
  define s1 where "s1 = (si_put type p1 ?s)\<lparr>nr_swap_pages := nr_swap_pages ?s + si_pages p, total_swap_pages := total_swap_pages ?s + si_pages p\<rparr>"
  have type0: "0 \<le> type" using t(2) by (simp add: si_get_Some)
  have other: "si_get x s1 = si_get x ?s" if "x \<in> set xs" for x
  proof -
    have "0 \<le> x" using linked_valid [of ?s "swap_list_head ?s" xs x] l that by (auto simp: list_ok_def si_get_Some)
    moreover have "type \<noteq> x" using t(1) that by auto
    ultimately show ?thesis using t(2) by (simp add: s1_def)
  qed
  have self: "si_get type s1 = Some p1" using t(2) by (simp add: s1_def)
  have ln: "linked s1 (swap_list_head ?s) xs"
  proof (rule linked_cong)
    show "linked ?s (swap_list_head ?s) xs" using l by (simp add: list_ok_def)
    show "link_same ?s s1 x" if "x \<in> set xs" for x using other [OF that] by (simp add: link_same_def)
  qed
  have pos: "0 \<le> x" if "x \<in> set xs" for x using linked_valid [OF ln that] by (auto simp: si_get_Some)
  obtain ys zs j where f: "xs = ys @ zs" "find_place ?pr (-1) (swap_list_head ?s) s1 = Some (if ys = [] then -1 else last ys, j)"
    "linked s1 j zs" "\<forall>y\<in>set ys. ?pr < prio_at s1 y" "zs = [] \<or> prio_at s1 (hd zs) \<le> ?pr"
    using find_place_correct [OF ln pos, of ?pr "-1"] by blast
  define s2 where "s2 = si_put type (p1\<lparr>si_next := j\<rparr>) s1"
  have self2: "si_get type s2 = Some (p1\<lparr>si_next := j\<rparr>)" using self by (simp add: s2_def)
  have other2: "si_get x s2 = si_get x s1" if "x \<in> set xs" for x
  proof -
    have "type \<noteq> x" using t(1) that by auto
    then show ?thesis using self pos [OF that] by (simp add: s2_def)
  qed
  have T: "si_type p1 = type" by (simp add: p1_def t(3))
  define s3 where "s3 = (if ys = [] then s2\<lparr>swap_list_head := type, swap_list_next := type\<rparr>
    else si_put (last ys) ((the (si_get (last ys) s2))\<lparr>si_next := type\<rparr>) s2)"
  have ly: "\<exists>q. si_get (last ys) s2 = Some q \<and> si_type q = last ys \<and> 0 \<le> last ys \<and> last ys \<noteq> type" if "ys \<noteq> []"
    using linked_valid [OF ln, of "last ys"] other2 [of "last ys"] pos [of "last ys"] t(1) f(1) that by auto
  have h: "swap_list_head s1 = swap_list_head ?s" "prio p1 = ?pr" by (simp_all add: s1_def p1_def)
  have ins: "insert_area type s1 = Some s3"
  proof (cases "ys = []")
    case True
    then show ?thesis using f(2) T self h by (simp add: insert_area_def Let_def s2_def s3_def)
  next
    case False
    then obtain q where "si_get (last ys) s2 = Some q" "0 \<le> last ys" using ly by auto
    then show ?thesis using f(2) False T self h by (simp add: insert_area_def Let_def s2_def s3_def)
  qed
  have run: "u_enable_swap_info K type pr m a = Some (a\<lparr>sws := s3, least_priority := if 0 \<le> pr then least_priority a else least_priority a - 1\<rparr>)"
    using t(2) ins by (simp add: u_enable_swap_info_def Let_def p1_def [symmetric] s1_def [symmetric])
  have last3: "\<exists>q. si_get (last ys) s3 = Some q \<and> si_type q = last ys \<and> si_next q = type" if "ys \<noteq> []"
    using ly [OF that] that by (auto simp: s3_def)
  have self3: "si_get type s3 = Some (p1\<lparr>si_next := j\<rparr>)"
    using self2 ly type0 by (cases "ys = []") (auto simp: s3_def)
  have get3: "si_get x s3 = si_get x s1" if "x \<in> set xs" "ys = [] \<or> x \<noteq> last ys" for x
    using that other2 [OF that(1)] ly pos [OF that(1)] by (cases "ys = []") (auto simp: s3_def)
  have dis: "distinct (ys @ zs)" using l f(1) by (simp add: list_ok_def)
  have zs3: "link_same s1 s3 x" if "x \<in> set zs" for x
  proof -
    have "ys = [] \<or> x \<noteq> last ys" using that dis last_in_set [of ys] unfolding distinct_append by blast
    then show ?thesis using get3 [of x] that f(1) by (simp add: link_same_def)
  qed
  have ys3: "link_same s1 s3 x" if "x \<in> set (butlast ys)" for x
  proof -
    have ne: "ys \<noteq> []" using that by auto
    then have "ys = butlast ys @ [last ys]" by simp
    then have "distinct (butlast ys @ [last ys])" using dis by (metis distinct_append)
    then have "x \<noteq> last ys" using that by auto
    then show ?thesis using get3 [of x] that f(1) by (auto simp: link_same_def dest: in_set_butlastD)
  qed
  have pr3: "prio_at s3 x = prio_at ?s x" if "x \<in> set xs" for x
  proof (cases "ys = [] \<or> x \<noteq> last ys")
    case True
    then show ?thesis using get3 [OF that] other [OF that] by (simp add: prio_at_def)
  next
    case False
    then obtain q where "si_get x s2 = Some q" using ly by auto
    then show ?thesis using False other2 [OF that] other [OF that] by (simp add: prio_at_def s3_def)
  qed
  have pt: "prio_at s3 type = ?pr" using self3 by (simp add: prio_at_def p1_def)
  have p1s: "prio_at s1 x = prio_at ?s x" if "x \<in> set xs" for x using other [OF that] by (simp add: prio_at_def)
  have "linked s3 (swap_list_head s3) (ys @ type # zs)"
  proof -
    have "swap_list_head s3 = (if ys = [] then type else swap_list_head ?s)" by (simp add: s3_def s2_def s1_def)
    moreover have "linked s1 (swap_list_head ?s) (ys @ zs)" using ln f(1) by simp
    ultimately show ?thesis using linked_insert [OF _ f(3) self3 _ _ zs3 ys3 last3] T by simp
  qed
  moreover have "sorted_wrt (\<lambda>x y. prio_at s3 y \<le> prio_at s3 x) (ys @ type # zs)"
  proof (rule sorted_insert [where f = "prio_at ?s" and pr = ?pr])
    show "prio_at s3 type = ?pr" by (rule pt)
    show "sorted_wrt (\<lambda>x y. prio_at ?s y \<le> prio_at ?s x) (ys @ zs)" using l f(1) by (simp add: list_ok_def)
    show "?pr < prio_at ?s y" if "y \<in> set ys" for y using f(1,4) p1s that by auto
    show "zs = [] \<or> prio_at ?s (hd zs) \<le> ?pr" using f(1,5) p1s [of "hd zs"] by (cases zs) auto
    show "prio_at s3 x = prio_at ?s x" if "x \<in> set (ys @ zs)" for x using pr3 that f(1) by simp
  qed
  moreover have "distinct (ys @ type # zs)" using dis t(1) f(1) by auto
  moreover have "\<exists>i. si_get x s3 = Some (q\<lparr>si_next := i\<rparr>)" if "x \<noteq> type" "si_get x ?s = Some q" for x q
  proof -
    have "0 \<le> x" using that(2) by (simp add: si_get_Some)
    then have g: "si_get x s2 = Some q" using t(2) self that by (simp add: s2_def s1_def)
    show ?thesis
    proof (cases "ys \<noteq> [] \<and> x = last ys")
      case True
      then show ?thesis using g by (auto simp: s3_def)
    next
      case False
      then have "si_get x s3 = Some q" using g ly \<open>0 \<le> x\<close> by (auto simp: s3_def)
      then show ?thesis by (intro exI [of _ "si_next q"]) simp
    qed
  qed
  moreover define b where "b = a\<lparr>sws := s3, least_priority := if 0 \<le> pr then least_priority a else least_priority a - 1\<rparr>"
  moreover have "total_swap_pages s3 = total_swap_pages ?s + si_pages p" "nr_swap_pages s3 = nr_swap_pages ?s + si_pages p" "swap_lock s3 = swap_lock ?s"
    by (simp_all add: s3_def s2_def s1_def)
  ultimately have "list_ok (sws b) (ys @ type # zs)" "prio_at (sws b) type = ?pr" "\<forall>x\<in>set xs. prio_at (sws b) x = prio_at ?s x"
    "entered K type pr m p a b"
    using pt pr3 self3 by (auto simp: list_ok_def entered_def p1_def)
  then show ?thesis using run f(1) by (intro exI [of _ b] exI [of _ ys] exI [of _ zs]) (simp add: b_def)
qed

lemma list_ok_put:
  assumes "list_ok s xs" and "si_get x s = Some p" and "si_type q = si_type p" and "si_next q = si_next p" and "prio q = prio p"
  shows "list_ok (si_put x q s) xs"
proof -
  have g: "si_get y (si_put x q s) = (if y = x then Some q else si_get y s)" if "y \<in> set xs" for y
  proof -
    have "0 \<le> y" using linked_valid [of s "swap_list_head s" xs y] assms(1) that by (auto simp: list_ok_def si_get_Some)
    then show ?thesis using assms(2) by (cases "y = x") auto
  qed
  have lk: "linked (si_put x q s) (swap_list_head s) xs"
  proof (rule linked_cong)
    show "linked s (swap_list_head s) xs" using assms(1) by (simp add: list_ok_def)
    show "link_same s (si_put x q s) y" if "y \<in> set xs" for y
      unfolding link_same_def g [OF that] using assms(2-4) by (cases "y = x") simp_all
  qed
  have pr: "prio_at (si_put x q s) y = prio_at s y" if "y \<in> set xs" for y
    unfolding prio_at_def g [OF that] using assms(2,5) by (cases "y = x") simp_all
  have "sorted_wrt (\<lambda>y z. prio_at (si_put x q s) z \<le> prio_at (si_put x q s) y) xs"
  proof (rule sorted_wrt_mono_rel)
    show "sorted_wrt (\<lambda>y z. prio_at s z \<le> prio_at s y) xs" using assms(1) by (simp add: list_ok_def)
    show "prio_at (si_put x q s) z \<le> prio_at (si_put x q s) y" if "y \<in> set xs" "z \<in> set xs" "prio_at s z \<le> prio_at s y" for y z
      unfolding pr [OF that(1)] pr [OF that(2)] by (rule that(3))
  qed
  with lk show ?thesis using assms(1) by (simp add: list_ok_def)
qed

lemma linked_fields [simp]:
  "linked (s\<lparr>swap_lock := b\<rparr>) i xs = linked s i xs" "linked (s\<lparr>kern := k\<rparr>) i xs = linked s i xs"
  by (induction xs arbitrary: i) simp_all

lemma list_ok_fields [simp]: "list_ok (s\<lparr>swap_lock := b\<rparr>) xs = list_ok s xs" "list_ok (s\<lparr>kern := k\<rparr>) xs = list_ok s xs"
  by (simp_all add: list_ok_def prio_at_def)

lemma prio_at_fields [simp]: "prio_at (s\<lparr>swap_lock := b\<rparr>) x = prio_at s x" "prio_at (s\<lparr>kern := k\<rparr>) x = prio_at s x"
  by (simp_all add: prio_at_def)

lemma locked_enable_sorted:
  assumes "list_ok (sws a) xs" and "type \<notin> set xs" and "si_get type (sws a) = Some p" and "si_type p = type"
    and "\<not> swap_lock (sws a)" and "\<not> si_lock p"
  shows "\<exists>a' ys zs. locked_enable K type pr m a = Some a' \<and> xs = ys @ zs \<and> list_ok (sws a') (ys @ type # zs) \<and>
    prio_at (sws a') type = given_prio pr a \<and> (\<forall>x\<in>set xs. prio_at (sws a') x = prio_at (sws a) x) \<and> entered K type pr m p a a'"
proof -
  define q where "q = p\<lparr>si_lock := True\<rparr>"
  define s where "s = si_put type q ((sws a)\<lparr>swap_lock := True\<rparr>)"
  define b where "b = a\<lparr>sws := s\<rparr>"
  have g0: "si_get type ((sws a)\<lparr>swap_lock := True\<rparr>) = Some p" using assms(3) by simp
  have l: "list_ok (sws b) xs"
    unfolding b_def s_def using assms(1) by simp (rule list_ok_put [OF _ g0], simp_all add: q_def)
  have g: "si_get type (sws b) = Some q" using si_get_put [OF g0] by (simp add: b_def s_def)
  have T: "si_type q = type" by (simp add: q_def assms(4))
  obtain c ys zs where c: "u_enable_swap_info K type pr m b = Some c" "xs = ys @ zs" "list_ok (sws c) (ys @ type # zs)"
    "prio_at (sws c) type = given_prio pr b" "\<forall>x\<in>set xs. prio_at (sws c) x = prio_at (sws b) x" "entered K type pr m q b c"
    using enable_sorted [OF l assms(2) g T, of K pr m] by blast
  obtain i where i: "si_get type (sws c) = Some (q\<lparr>prio := given_prio pr b, swap_map := m, si_flags := si_flags q OR SWP_WRITEOK K, si_next := i\<rparr>)"
    using c(6) by (auto simp: entered_def)
  define r where "r = q\<lparr>prio := given_prio pr b, swap_map := m, si_flags := si_flags q OR SWP_WRITEOK K, si_next := i\<rparr>"
  have r: "si_get type (sws c) = Some r" using i by (simp add: r_def)
  define d where "d = si_put type (r\<lparr>si_lock := False\<rparr>) (sws c)"
  let ?e = "c\<lparr>sws := d\<lparr>swap_lock := False\<rparr>\<rparr>"
  have o: "si_get x (sws b) = si_get x (sws a) \<and> si_get x d = si_get x (sws c)" if "x \<noteq> type" "0 \<le> x" for x
    using that r g0 by (simp add: b_def s_def d_def)
  have "list_ok d (ys @ type # zs)" unfolding d_def by (rule list_ok_put [OF c(3) r]) simp_all
  moreover have "prio_at d type = given_prio pr a" using r c(4) by (simp add: d_def prio_at_def given_prio_def b_def)
  moreover have "prio_at d x = prio_at (sws a) x" if "x \<in> set xs" for x
  proof -
    have "type \<noteq> x" "0 \<le> x" using assms(1,2) linked_valid [of "sws a" _ xs x] that by (auto simp: list_ok_def si_get_Some)
    then have "prio_at d x = prio_at (sws c) x" "prio_at (sws b) x = prio_at (sws a) x" using o [of x] by (simp_all add: prio_at_def)
    then show ?thesis using c(5) that by simp
  qed
  moreover have "entered K type pr m p a ?e"
  proof -
    have "r\<lparr>si_lock := False\<rparr> = p\<lparr>prio := given_prio pr a, swap_map := m, si_flags := si_flags p OR SWP_WRITEOK K, si_next := i\<rparr>"
      using assms(6) by (simp add: r_def q_def b_def given_prio_def)
    then have "\<exists>i. si_get type d = Some (p\<lparr>prio := given_prio pr a, swap_map := m, si_flags := si_flags p OR SWP_WRITEOK K, si_next := i\<rparr>)"
      using si_get_put [OF r] by (auto simp: d_def)
    moreover have "\<exists>i. si_get x d = Some (y\<lparr>si_next := i\<rparr>)" if "x \<noteq> type" "si_get x (sws a) = Some y" for x y
    proof -
      have "0 \<le> x" using that(2) by (simp add: si_get_Some)
      then show ?thesis using c(6) o [of x] that by (auto simp: entered_def)
    qed
    ultimately show ?thesis using c(6) assms(5) by (simp add: entered_def b_def s_def q_def d_def)
  qed
  moreover have "locked_enable K type pr m a = Some ?e"
  proof -
    have l1: "spin_lock_swap (sws a) = Some ((sws a)\<lparr>swap_lock := True\<rparr>)" using assms(5) by (simp add: spin_lock_swap_def)
    have l2: "spin_lock_si type ((sws a)\<lparr>swap_lock := True\<rparr>) = Some s" unfolding spin_lock_si_def g0 Option.bind.simps using assms(6) by (simp add: s_def q_def)
    have l3: "spin_unlock_si type (sws c) = Some d" unfolding spin_unlock_si_def r Option.bind.simps d_def ..
    note lk = l1 l2 l3
    show ?thesis unfolding locked_enable_def lk(1,2) Option.bind.simps b_def [symmetric] c(1) lk(3) by simp
  qed
  ultimately show ?thesis using c(2) by (intro exI [of _ ?e] exI [of _ ys] exI [of _ zs]) simp
qed

text \<open>
  C27: an area that is put into use enters the list of areas behind those of higher priority and before the
  others, so that the list stays in descending order without repetitions, and its pages enter the total; an
  area without a priority of its own gets one below all that were given out before.
\<close>

theorem enable_keeps_sorted:
  assumes "list_ok (sws a) xs" and "type \<notin> set xs" and "si_get type (sws a) = Some p" and "si_type p = type"
    and "\<not> swap_lock (sws a)" and "\<not> si_lock p"
  shows "\<exists>a' ys zs. enable_swap_info K E type pr m a = Some a' \<and> xs = ys @ zs \<and> list_ok (sws a') (ys @ type # zs) \<and>
    prio_at (sws a') type = given_prio pr a \<and> (\<forall>x\<in>set xs. prio_at (sws a') x = prio_at (sws a) x) \<and> \<not> swap_lock (sws a') \<and>
    total_swap_pages (sws a') = total_swap_pages (sws a) + si_pages p"
proof -
  let ?b = "a\<lparr>sws := kern_do (frontswap_init E type) (sws a)\<rparr>"
  have b: "list_ok (sws ?b) xs" "si_get type (sws ?b) = Some p" "\<not> swap_lock (sws ?b)" using assms by (simp_all add: kern_do_def)
  obtain c ys zs where c: "locked_enable K type pr m ?b = Some c" "xs = ys @ zs" "list_ok (sws c) (ys @ type # zs)"
    "prio_at (sws c) type = given_prio pr ?b" "\<forall>x\<in>set xs. prio_at (sws c) x = prio_at (sws ?b) x" "entered K type pr m p ?b c"
    using locked_enable_sorted [OF b(1) assms(2) b(2) assms(4) b(3) assms(6)] by blast
  moreover have "given_prio pr ?b = given_prio pr a" "prio_at (sws ?b) x = prio_at (sws a) x" "total_swap_pages (sws ?b) = total_swap_pages (sws a)" for x
    by (simp_all add: given_prio_def kern_do_def)
  moreover have "total_swap_pages (sws c) = total_swap_pages (sws ?b) + si_pages p" "\<not> swap_lock (sws c)"
    using c(6) b(3) by (simp_all only: entered_def) auto
  ultimately show ?thesis unfolding enable_swap_info_def by (intro exI [of _ c] exI [of _ ys] exI [of _ zs]) simp
qed

section \<open>The ninth area\<close>

lemma free_type_full:
  assumes "\<And>i. type \<le> i \<Longrightarrow> i < n \<Longrightarrow> \<exists>p. si_get i s = Some p \<and> si_flags p AND SWP_USED K \<noteq> 0" and "type \<le> n"
  shows "free_type K type n s = Some n"
  using assms
proof (induction "nat (n - type)" arbitrary: type)
  case 0
  then show ?case by (subst free_type.simps) simp
next
  case (Suc d)
  then have "type < n" by simp
  moreover from this obtain p where "si_get type s = Some p" "si_flags p AND SWP_USED K \<noteq> 0" using Suc.prems(1) [of type] by auto
  moreover have "free_type K (type + 1) n s = Some n" using Suc by (intro Suc.hyps(1)) auto
  ultimately show ?case by (subst free_type.simps) simp
qed

text \<open>
  C32: \<open>alloc_swap_info\<close> does not know that COMEX has taken the types 8 and 9: the ninth swap area gets the
  number 8.  From then on every entry of that area is taken for one of COMEX, and its references are not
  counted.
\<close>

theorem ninth_area_is_comex:
  assumes "linux_swap_h K" and "nr_swapfiles s = 8" and "length (swap_info s) = 29"
    and "\<And>i. 0 \<le> i \<Longrightarrow> i < 8 \<Longrightarrow> \<exists>p. si_get i s = Some p \<and> si_flags p AND SWP_USED K \<noteq> 0"
    and "\<not> swap_lock s" and "fst (kzalloc_info E (kern s))" and "off < 2 ^ 57"
  shows "\<exists>s' p. alloc_swap_info K E s = Some (8, s') \<and> nr_swapfiles s' = 9 \<and> si_get 8 s' = Some p \<and> si_flags p = SWP_USED K \<and>
    swap_duplicate K X (swp_entry K 8 off) t = Some (0, t) \<and> swapcache_prepare K (swp_entry K 8 off) t = Some (0, t)"
proof -
  obtain k where k: "kzalloc_info E (kern s) = (True, k)" using assms(6) by (cases "kzalloc_info E (kern s)") simp
  define s1 where "s1 = s\<lparr>kern := k, swap_lock := True\<rparr>"
  have f: "free_type K 0 8 s1 = Some 8"
    by (rule free_type_full) (use assms(4) in \<open>simp_all add: s1_def\<close>)
  let ?q = "(zero_info 8)\<lparr>extents := take 1 (extents (zero_info 8)), si_flags := SWP_USED K, si_next := -1, si_lock := False\<rparr>"
  define s2 where "s2 = s1\<lparr>swap_info := (swap_info s1)[8 := Some (zero_info 8)], nr_swapfiles := 9\<rparr>"
  have g: "si_get 8 s2 = Some (zero_info 8)" using assms(3) by (simp add: si_get_Some s2_def s1_def)
  have "MAX_SWAPFILES K = 29" using assms(1) by (simp add: linux_swap_h_def)
  then have "alloc_swap_info K E s = Some (8, (si_put 8 ?q s2)\<lparr>swap_lock := False\<rparr>)"
    using k f g assms(2,3,5) by (simp add: alloc_swap_info_def Let_def spin_lock_swap_def arr_set_def s1_def s2_def)
  moreover have "swp_type K (swp_entry K 8 off) = 8" "\<not> non_swap_entry K (swp_entry K 8 off)"
    using assms(1,7) by (simp_all add: linux_swap_h_def)
  then have u: "swap_duplicate_usage K (swp_entry K 8 off) x t = Some (0, t)" for x by (intro comex_uncounted) simp_all
  then have "swap_duplicate K X (swp_entry K 8 off) t = Some (0, t)" by (subst swap_duplicate.simps) (simp add: errnos)
  moreover have "swapcache_prepare K (swp_entry K 8 off) t = Some (0, t)" using u by (simp add: swapcache_prepare_def)
  moreover have "si_get 8 ((si_put 8 ?q s2)\<lparr>swap_lock := False\<rparr>) = Some ?q" using si_get_put [OF g] by simp
  moreover have "nr_swapfiles ((si_put 8 ?q s2)\<lparr>swap_lock := False\<rparr>) = 9" by (simp add: s2_def)
  ultimately show ?thesis by (intro exI [of _ "(si_put 8 ?q s2)\<lparr>swap_lock := False\<rparr>"] exI [of _ ?q]) simp
qed

section \<open>A header in the other byte order\<close>

lemma swab_overrun:
  assumes "0 \<le> i" and "i \<le> int (length (badpages h))" and "int (length (badpages h)) < n"
  shows "for_up i n (\<lambda>i h. do { xs \<leftarrow> arr_upd (badpages h) i swab32; Some (h\<lparr>badpages := xs\<rparr>) }) h = None"
  using assms
proof (induction "nat (int (length (badpages h)) - i)" arbitrary: i h)
  case 0
  then show ?case by (subst for_up.simps) (simp add: arr_upd_def arr_get_out)
next
  case (Suc d)
  then have "i < int (length (badpages h))" by simp
  moreover from this have "for_up (i + 1) n (\<lambda>i h. do { xs \<leftarrow> arr_upd (badpages h) i swab32; Some (h\<lparr>badpages := xs\<rparr>) })
      (h\<lparr>badpages := (badpages h)[nat i := swab32 (badpages h ! nat i)]\<rparr>) = None"
    using Suc by (intro Suc.hyps(1)) auto
  ultimately show ?case using Suc.prems by (subst for_up.simps) (simp add: arr_simps)
qed

text \<open>
  A header in the other byte order is turned round before its number of bad pages is tested: one that
  names more of them than the page holds makes the kernel write behind the page.
\<close>

theorem foreign_header_overruns:
  assumes "magic h = ''SWAPSPACE2''" and "swab32 (version h) = 1" and "int (length (badpages h)) < uint (swab32 (nr_badpages h))"
  shows "read_swap_header E inode h p = None"
  using assms swab_overrun [of 0 "h\<lparr>version := 1, last_page := swab32 (last_page h), nr_badpages := swab32 (nr_badpages h)\<rparr>"
    "uint (swab32 (nr_badpages h))"]
  by (simp add: read_swap_header_def swab_header_def Let_def)

section \<open>The map of a new area\<close>

definition bad_list :: "swap_header \<Rightarrow> int list" where
  "bad_list h = map uint (take (unat (nr_badpages h)) (badpages h))"

definition marked :: "byte \<Rightarrow> int list \<Rightarrow> byte list \<Rightarrow> byte list" where
  "marked v bs m = map (\<lambda>j. if int j \<in> set bs then v else m ! j) [0..<length m]"

lemma marked_step: "0 \<le> b \<Longrightarrow> b < int (length m) \<Longrightarrow> marked v bs (m[nat b := v]) = marked v (b # bs) m"
  by (rule nth_equalityI) (auto simp: marked_def nth_list_update)

lemma marked_skip: "\<not> b < int (length m) \<Longrightarrow> marked v (b # bs) m = marked v bs m"
  by (rule nth_equalityI) (auto simp: marked_def)

lemma mark_bad_correct:
  assumes "unat (nr_badpages h) \<le> length (badpages h)" and "\<And>b. b \<in> set (bad_list h) \<Longrightarrow> 0 < b \<and> b \<le> uint (last_page h)"
    and "length m = unat maxpages" and "i \<le> unat (nr_badpages h)"
  shows "mark_bad E h maxpages (int i) (m, good) = Some (0, marked (SWAP_MAP_BAD E) (drop i (bad_list h)) m,
    good - of_nat (length (filter (\<lambda>b. b < uint maxpages) (drop i (bad_list h)))))"
  using assms(3,4)
proof (induction "unat (nr_badpages h) - i" arbitrary: i m good)
  case 0
  then have i: "i = unat (nr_badpages h)" by simp
  have "drop i (bad_list h) = []" "\<not> int i < uint (nr_badpages h)" using assms(1) by (simp_all add: bad_list_def i)
  moreover have "map ((!) m) [0..<length m] = m" by (rule map_nth)
  ultimately show ?case by (subst mark_bad.simps) (simp add: marked_def)
next
  case (Suc d)
  then have lt: "i < unat (nr_badpages h)" "d = unat (nr_badpages h) - Suc i" by simp_all
  have un: "int (unat w) = uint w" for w :: w32 by simp
  define b where "b = badpages h ! i"
  have len: "i < length (bad_list h)" "bad_list h ! i = uint b" using lt assms(1) by (simp_all add: bad_list_def b_def)
  have dr: "drop i (bad_list h) = uint b # drop (Suc i) (bad_list h)" using Cons_nth_drop_Suc [OF len(1)] len(2) by simp
  have "uint b \<in> set (bad_list h)" using nth_mem [OF len(1)] len(2) by simp
  then have b: "0 < uint b" "uint b \<le> uint (last_page h)" using assms(2) by blast+
  then have "b \<noteq> 0" "\<not> last_page h < b" by (auto simp: word_less_alt)
  moreover have "arr_get (badpages h) (int i) = Some b" using lt assms(1) by (simp add: arr_get_def b_def)
  moreover have "int i < uint (nr_badpages h)" using lt(1) un [of "nr_badpages h"] by linarith
  ultimately have step: "mark_bad E h maxpages (int i) (m, good) = (if (ucast b :: u64) < maxpages
      then do { m \<leftarrow> arr_set m (uint b) (SWAP_MAP_BAD E); mark_bad E h maxpages (int (Suc i)) (m, good - 1) }
      else mark_bad E h maxpages (int (Suc i)) (m, good))"
    by (subst mark_bad.simps) (simp add: add.commute)
  have uc: "(ucast b :: u64) < maxpages \<longleftrightarrow> uint b < uint maxpages" by (simp add: word_less_alt uint_up_ucast is_up)
  have ln: "int (length m) = uint maxpages" using Suc.prems(1) by simp
  show ?case
  proof (cases "uint b < uint maxpages")
    case True
    have "mark_bad E h maxpages (int (Suc i)) (m[nat (uint b) := SWAP_MAP_BAD E], good - 1) =
        Some (0, marked (SWAP_MAP_BAD E) (drop (Suc i) (bad_list h)) (m[nat (uint b) := SWAP_MAP_BAD E]),
          good - 1 - of_nat (length (filter (\<lambda>b. b < uint maxpages) (drop (Suc i) (bad_list h)))))"
      using Suc.hyps(1) [OF lt(2)] Suc.prems(1) lt(1) by simp
    then show ?thesis using step True uc ln b(1) marked_step [of "uint b" m "SWAP_MAP_BAD E" "drop (Suc i) (bad_list h)"]
      by (simp add: dr arr_set_def)
  next
    case False
    have "mark_bad E h maxpages (int (Suc i)) (m, good) = Some (0, marked (SWAP_MAP_BAD E) (drop (Suc i) (bad_list h)) m,
          good - of_nat (length (filter (\<lambda>b. b < uint maxpages) (drop (Suc i) (bad_list h)))))"
      using Suc.hyps(1) [OF lt(2)] Suc.prems(1) lt(1) by simp
    then show ?thesis using step False uc ln by (simp add: dr marked_skip)
  qed
qed

text \<open>
  The map of a new area on a device has exactly the header page and the bad pages of the header marked;
  every other slot is free, and the number of pages is that of the area less the header and the bad pages.
\<close>

theorem new_map_marks_bad:
  assumes "is_blk inode" and "extents p \<noteq> []" and "unat (nr_badpages h) \<le> length (badpages h)"
    and "\<And>b. b \<in> set (bad_list h) \<Longrightarrow> 0 < b \<and> b \<le> uint (last_page h)"
    and "maxpages < 2 ^ 32" and "g = uint maxpages - 1 - int (length (filter (\<lambda>b. b < uint maxpages) (bad_list h)))" and "0 < g"
  shows "\<exists>m p'. setup_swap_map_and_extents X E K inode h (replicate (unat maxpages) 0) maxpages p k = Some (1, m, p', k) \<and>
    length m = unat maxpages \<and> si_pages p' = g \<and> si_max p' = uint maxpages \<and>
    m = map (\<lambda>j. if j = 0 \<or> int j \<in> set (bad_list h) then SWAP_MAP_BAD E else 0) [0..<unat maxpages]"
proof -
  let ?n = "length (filter (\<lambda>b. b < uint maxpages) (bad_list h))"
  let ?m = "replicate (unat maxpages) (0 :: byte)" and ?v = "SWAP_MAP_BAD E"
  have mx: "uint maxpages < 2 ^ 32" using assms(5) by (simp add: word_less_alt)
  have pos: "1 < uint maxpages" using assms(6,7) by linarith
  have mb: "mark_bad E h maxpages 0 (?m, ucast (maxpages - 1)) = Some (0, marked ?v (bad_list h) ?m, ucast (maxpages - 1) - of_nat ?n)"
    using mark_bad_correct [OF assms(3,4), of ?m maxpages 0 E "ucast (maxpages - 1)"] by simp
  have "uint (maxpages - 1) = (uint maxpages - 1) mod 2 ^ 64" by (simp add: uint_word_ariths)
  also have "\<dots> = uint maxpages - 1" using mx pos by simp
  finally have u: "uint (maxpages - 1) = uint maxpages - 1" .
  have "(ucast (maxpages - 1) :: w32) = word_of_int (uint (maxpages - 1))" by (rule ucast_eq)
  then have "(ucast (maxpages - 1) :: w32) = word_of_int (uint maxpages - 1)" unfolding u .
  then have g: "ucast (maxpages - 1) - of_nat ?n = (word_of_int g :: w32)"
    unfolding assms(6) by (simp only: of_int_diff of_int_of_nat_eq)
  have gb: "0 \<le> g" "g < 2 ^ 32" using assms(6,7) mx by linarith+
  have ug: "uint (word_of_int g :: w32) = g" using gb by (simp add: uint_word_of_int)
  have g0: "(word_of_int g :: w32) \<noteq> 0" using ug assms(7) by auto
  have len: "length (marked ?v (bad_list h) ?m) = unat maxpages" by (simp add: marked_def)
  have st: "arr_set (marked ?v (bad_list h) ?m) 0 ?v = Some ((marked ?v (bad_list h) ?m)[0 := ?v])"
    using pos len by (simp add: arr_set_def)
  have fin: "(marked ?v (bad_list h) ?m)[0 := ?v] = map (\<lambda>j. if j = 0 \<or> int j \<in> set (bad_list h) then ?v else 0) [0..<unat maxpages]"
    by (rule nth_equalityI) (auto simp: marked_def nth_list_update)
  let ?p = "p\<lparr>si_max := uint maxpages, si_pages := g, curr_extent := 0,
    extents := (extents p)[0 := \<lparr>se_start_page = 0, se_nr_pages = uint maxpages, se_start_block = 0\<rparr>]\<rparr>"
  have "u32 g = g" "u32 (uint maxpages) = uint maxpages" using mx pos gb by simp_all
  then have "setup_swap_map_and_extents X E K inode h ?m maxpages p k = Some (1, (marked ?v (bad_list h) ?m)[0 := ?v], ?p, k)"
    using mb g g0 ug st assms(1,2,7)
    by (simp add: setup_swap_map_and_extents_def setup_swap_extents_def add_swap_extent_def)
  then show ?thesis unfolding fin by (intro exI [of _ "map (\<lambda>j. if j = 0 \<or> int j \<in> set (bad_list h) then ?v else 0) [0..<unat maxpages]"] exI [of _ ?p]) simp
qed

section \<open>Witnesses\<close>

definition plain_on :: "unit onserv" where
  "plain_on = \<lparr>SWAP_MAP_BAD = 0x3f, MAX_SWAP_BADPAGES = 637, SWAP_FLAGS_VALID = 0x1ffff, SWAP_FLAG_PREFER = 0x8000, SWAP_FLAG_PRIO_MASK = 0x7fff,
     SWAP_FLAG_PRIO_SHIFT = 0, SWAP_FLAG_DISCARD = 0x10000, largest_offset = 2 ^ 50 - 1, capable = (\<lambda>_. True), kzalloc_info = (\<lambda>k. (True, k)),
     getname = (\<lambda>k. (0, k)), file_open_name = (\<lambda>k. (Inl (-2), k)), blkdev_get = (\<lambda>_ k. (0, k)), set_blocksize = (\<lambda>_ k. (0, k)),
     blkdev_put = (\<lambda>_ k. k), IS_SWAPFILE = (\<lambda>_ _. False), mark_swapfile = (\<lambda>_ k. k), read_mapping_page = (\<lambda>_ k. (Inl (-5), k)),
     vzalloc = (\<lambda>_ k. (True, k)), swap_cgroup_swapon = (\<lambda>_ _ k. (0, k)), swap_cgroup_swapoff = (\<lambda>_ k. k), frontswap_init = (\<lambda>_ k. k),
     swap_activate = None, generic_swapfile_activate = (\<lambda>_. None), nonrot = (\<lambda>_ _. False), prandom_u32 = (\<lambda>k. (4, k)), filp_close = (\<lambda>k. k)\<rparr>"

definition two_areas :: "unit swaps" where
  "two_areas = small_swaps\<lparr>swap_info := [Some ((zero_info 0)\<lparr>prio := 5, si_next := -1\<rparr>), Some ((zero_info 1)\<lparr>si_pages := 7\<rparr>)], nr_swapfiles := 2,
     swap_list_head := 0\<rparr>"

definition eight_areas :: "unit swaps" where
  "eight_areas = small_swaps\<lparr>swap_info := replicate 8 (Some ((zero_info 0)\<lparr>si_flags := 1\<rparr>)) @ replicate 21 None, nr_swapfiles := 8\<rparr>"

theorem enable_keeps_sorted_witness:
  "\<exists>a' ys zs. enable_swap_info std_h plain_on 1 9 [0x3f, 0] \<lparr>sws = two_areas, least_priority = 0, swap_file = (\<lambda>_. None)\<rparr> = Some a' \<and>
     [0] = ys @ zs \<and> list_ok (sws a') (ys @ 1 # zs) \<and> prio_at (sws a') 1 = 9 \<and> prio_at (sws a') 0 = 5"
proof -
  let ?a = "\<lparr>sws = two_areas, least_priority = 0, swap_file = (\<lambda>_. None)\<rparr>"
  have l: "list_ok (sws ?a) [0]" and p: "prio_at (sws ?a) 0 = 5" and g: "si_get 1 (sws ?a) = Some ((zero_info 1)\<lparr>si_pages := 7\<rparr>)"
    by (simp_all add: list_ok_def two_areas_def si_get_def arr_get_def prio_at_def zero_info_def)
  have n: "(1 :: int) \<notin> set [0]" and t: "si_type ((zero_info 1)\<lparr>si_pages := 7\<rparr>) = 1" and k: "\<not> swap_lock (sws ?a)" "\<not> si_lock ((zero_info 1)\<lparr>si_pages := 7\<rparr>)"
    by (simp_all add: zero_info_def two_areas_def small_swaps_def)
  have pr: "given_prio 9 ?a = 9" by (simp add: given_prio_def)
  from enable_keeps_sorted [OF l n g t k, of std_h plain_on 9 "[0x3f, 0]"]
  obtain a' ys zs where w: "enable_swap_info std_h plain_on 1 9 [0x3f, 0] ?a = Some a'" "[0] = ys @ zs" "list_ok (sws a') (ys @ 1 # zs)"
    "prio_at (sws a') 1 = 9" "\<forall>x\<in>set [0]. prio_at (sws a') x = prio_at (sws ?a) x" unfolding pr by blast
  have "prio_at (sws a') 0 = prio_at (sws ?a) 0" using w(5) by (rule bspec) simp
  then show ?thesis using w(1-4) p by (intro exI [of _ a'] exI [of _ ys] exI [of _ zs]) simp
qed

theorem ninth_area_is_comex_witness:
  "\<exists>s'. alloc_swap_info std_h plain_on eight_areas = Some (8, s') \<and> swap_duplicate std_h plain_kserv (swp_entry std_h 8 77) s' = Some (0, s')"
proof -
  have a: "nr_swapfiles eight_areas = 8" "length (swap_info eight_areas) = 29" "\<not> swap_lock eight_areas" "fst (kzalloc_info plain_on (kern eight_areas))"
    "(77 :: u64) < 2 ^ 57" by (simp_all add: eight_areas_def small_swaps_def plain_on_def)
  have u: "\<exists>p. si_get i eight_areas = Some p \<and> si_flags p AND SWP_USED std_h \<noteq> 0" if "0 \<le> i" "i < 8" for i
    using that by (simp add: si_get_Some eight_areas_def nth_append std_h_def)
  have k: "swap_duplicate std_h plain_kserv (swp_entry std_h 8 77) t = Some (0, t)" if "alloc_swap_info std_h plain_on eight_areas = Some (8, t)" for t
    using ninth_area_is_comex [OF std_h_linux a(1,2) u a(3-5), of plain_kserv t] by blast
  have "\<exists>s'. alloc_swap_info std_h plain_on eight_areas = Some (8, s')"
    using ninth_area_is_comex [OF std_h_linux a(1,2) u a(3-5), of plain_kserv eight_areas] by blast
  then show ?thesis using k by blast
qed

theorem foreign_header_overruns_witness:
  "read_swap_header plain_on \<lparr>f_mapping = 1, is_blk = True, is_reg = False, fs_bdev = False, size_pages = 100, has_readpage = True\<rparr>
     \<lparr>magic = ''SWAPSPACE2'', version = 0x01000000, last_page = 0x09000000, nr_badpages = 0xff, badpages = replicate 640 0\<rparr> (zero_info 0) = None"
  by (rule foreign_header_overruns) (simp_all add: swab32_def)

theorem new_map_marks_bad_witness:
  "\<exists>p'. setup_swap_map_and_extents plain_kserv plain_on std_h
      \<lparr>f_mapping = 1, is_blk = True, is_reg = False, fs_bdev = False, size_pages = 10, has_readpage = True\<rparr>
      \<lparr>magic = ''SWAPSPACE2'', version = 1, last_page = 9, nr_badpages = 2, badpages = 3 # 5 # replicate 638 0\<rparr>
      (replicate 10 0) 10 (zero_info 0) () = Some (1, [0x3f, 0, 0, 0x3f, 0, 0x3f, 0, 0, 0, 0], p', ()) \<and> si_pages p' = 7"
proof -
  let ?n = "\<lparr>f_mapping = 1, is_blk = True, is_reg = False, fs_bdev = False, size_pages = 10, has_readpage = True\<rparr>"
  let ?h = "\<lparr>magic = ''SWAPSPACE2'', version = 1, last_page = 9, nr_badpages = 2, badpages = 3 # 5 # replicate 638 0\<rparr>"
  have b: "bad_list ?h = [3, 5]" by (simp add: bad_list_def)
  have n: "is_blk ?n" "extents (zero_info 0) \<noteq> []" "unat (nr_badpages ?h) \<le> length (badpages ?h)" "(10 :: u64) < 2 ^ 32"
    "7 = uint (10 :: u64) - 1 - int (length (filter (\<lambda>b. b < uint (10 :: u64)) (bad_list ?h)))" "(0 :: int) < 7"
    by (simp_all add: b zero_info_def)
  have ok: "0 < x \<and> x \<le> uint (last_page ?h)" if "x \<in> set (bad_list ?h)" for x using that by (auto simp: b)
  have v: "map (\<lambda>j. if j = 0 \<or> int j \<in> set (bad_list ?h) then SWAP_MAP_BAD plain_on else 0) [0..<unat (10 :: u64)] =
      [0x3f, 0, 0, 0x3f, 0, 0x3f, 0, 0, 0, 0]"
    unfolding b by (simp add: plain_on_def upt_rec)
  from new_map_marks_bad [OF n(1-3) ok n(4-6), of plain_kserv plain_on std_h "()"]
  show ?thesis unfolding v by auto
qed

end
