(* ===== verification/Swap_Unuse.thy ===== *)
theory Swap_Unuse
  imports Comex_Handle Swap_On
begin

unbundle bit_operations_syntax

text \<open>
  The search of a task for the entries of a swap slot (\<open>swapfile.c\<close>, 878-1110): area by area and down the four
  levels of the page tables.  It stops at the first entry it finds, which it replaces by the page; the locale
  \<open>search\<close> carries this up the levels.  Then the search of a map for the next slot in use.
\<close>

section \<open>An entry is replaced\<close>

text \<open>What the search uses of the rest of the kernel beside what faults use.\<close>

record ('r, 'k) unusing =
  in_fault :: "('r, 'k) fault"
  activate_page :: "int \<Rightarrow> ('r, 'k) task \<Rightarrow> ('r, 'k) task"
  page_anon_vma :: "int \<Rightarrow> ('r, 'k) task \<Rightarrow> bool"
  page_address_in_vma :: "int \<Rightarrow> vma_struct \<Rightarrow> ('r, 'k) task \<Rightarrow> int option"
  down_read_trylock :: "('r, 'k) task \<Rightarrow> bool"

text \<open>1 when the entry was replaced, 0 when it is another one by now.\<close>

definition put_copy :: "int \<Rightarrow> int \<Rightarrow> ('r, 'k) task \<Rightarrow> ('r, 'k) task" where
  "put_copy page swapcache t = (if page \<noteq> swapcache then t_sw (\<lambda>s. page_cache_release page (unlock_page page s)) t else t)"

definition unuse_pte ::
  "('r, 'k) unusing \<Rightarrow> vma_flags \<Rightarrow> int \<Rightarrow> entry \<Rightarrow> int \<Rightarrow> ('r, 'k) task \<Rightarrow> (int \<times> ('r, 'k) task) option" where
  "unuse_pte U vf addr entry swapcache t = (let F = in_fault U; K = hdr (host_at F); X = ksv (host_at F) in
     case ksm_might_need_to_copy F swapcache addr t of
       (None, t) \<Rightarrow> Some (- ENOMEM, t)
     | (Some page, t) \<Rightarrow> (case mem_cgroup_try_charge_swapin F page t of (failed, t) \<Rightarrow>
         if failed then Some (- ENOMEM, put_copy page swapcache t)
         else if ptes (t_mm t) addr \<noteq> Pte_swap entry then Some (0, put_copy page swapcache (mem_cgroup_cancel_charge_swapin F t))
         else do {
           let t = t_sw (page_cache_get page) (t\<lparr>t_mm := count_fault (t_mm t)\<rparr>);
           let t = t_pte addr (Pte_present ((mk_pte F page vf)\<lparr>pte_young := False\<rparr>)) t;
           let t = t_vmf (if page = swapcache then do_page_add_anon_rmap F page addr False else page_add_new_anon_rmap F page addr) t;
           let t = mem_cgroup_commit_charge_swapin F page t;
           (_, t) \<leftarrow> t_get (\<lambda>s. map_option (Pair ()) (swap_free K X entry s)) t;
           Some (1, put_copy page swapcache (activate_page U page t))
         }))"

section \<open>The search of a task\<close>

text \<open>The loops over pages and over the entries of the upper levels; a result other than 0 ends them.\<close>

definition unuse_one ::
  "('r, 'k) unusing \<Rightarrow> vma_flags \<Rightarrow> entry \<Rightarrow> int \<Rightarrow> int \<Rightarrow> int \<Rightarrow> ('r, 'k) task \<Rightarrow> (int \<times> ('r, 'k) task) option" where
  "unuse_one U vf entry page addr next t =
     (if ptes (t_mm t) addr = Pte_swap entry then unuse_pte U vf addr entry page t else Some (0, t))"

definition unuse_pte_range ::
  "('r, 'k) unusing \<Rightarrow> vma_flags \<Rightarrow> entry \<Rightarrow> int \<Rightarrow> int \<Rightarrow> int \<Rightarrow> ('r, 'k) task \<Rightarrow> (int \<times> ('r, 'k) task) option" where
  "unuse_pte_range U vf entry page = walk_err (\<lambda>addr till. addr + 1) (unuse_one U vf entry page)"

definition unuse_pmd ::
  "('r, 'k) unusing \<Rightarrow> vma_flags \<Rightarrow> entry \<Rightarrow> int \<Rightarrow> int \<Rightarrow> int \<Rightarrow> ('r, 'k) task \<Rightarrow> (int \<times> ('r, 'k) task) option" where
  "unuse_pmd U vf entry page addr next t =
     (case pmd_none_or_trans_huge_or_clear_bad (addr div pmd_pages (tables_of (in_fault U))) (t_mm t) of (skip, mm) \<Rightarrow>
        let t = t\<lparr>t_mm := mm\<rparr> in if skip then Some (0, t) else unuse_pte_range U vf entry page addr next t)"

definition unuse_pmd_range ::
  "('r, 'k) unusing \<Rightarrow> vma_flags \<Rightarrow> entry \<Rightarrow> int \<Rightarrow> int \<Rightarrow> int \<Rightarrow> ('r, 'k) task \<Rightarrow> (int \<times> ('r, 'k) task) option" where
  "unuse_pmd_range U vf entry page = walk_err (piece_end (pmd_pages (tables_of (in_fault U)))) (unuse_pmd U vf entry page)"

definition unuse_pud ::
  "('r, 'k) unusing \<Rightarrow> vma_flags \<Rightarrow> entry \<Rightarrow> int \<Rightarrow> int \<Rightarrow> int \<Rightarrow> ('r, 'k) task \<Rightarrow> (int \<times> ('r, 'k) task) option" where
  "unuse_pud U vf entry page addr next t =
     (case pud_none_or_clear_bad (addr div pud_pages (tables_of (in_fault U))) (t_mm t) of (skip, mm) \<Rightarrow>
        let t = t\<lparr>t_mm := mm\<rparr> in if skip then Some (0, t) else unuse_pmd_range U vf entry page addr next t)"

definition unuse_pud_range ::
  "('r, 'k) unusing \<Rightarrow> vma_flags \<Rightarrow> entry \<Rightarrow> int \<Rightarrow> int \<Rightarrow> int \<Rightarrow> ('r, 'k) task \<Rightarrow> (int \<times> ('r, 'k) task) option" where
  "unuse_pud_range U vf entry page = walk_err (piece_end (pud_pages (tables_of (in_fault U)))) (unuse_pud U vf entry page)"

definition unuse_pgd ::
  "('r, 'k) unusing \<Rightarrow> vma_flags \<Rightarrow> entry \<Rightarrow> int \<Rightarrow> int \<Rightarrow> int \<Rightarrow> ('r, 'k) task \<Rightarrow> (int \<times> ('r, 'k) task) option" where
  "unuse_pgd U vf entry page addr next t =
     (case pgd_none_or_clear_bad (addr div pgdir_pages (tables_of (in_fault U))) (t_mm t) of (skip, mm) \<Rightarrow>
        let t = t\<lparr>t_mm := mm\<rparr> in if skip then Some (0, t) else unuse_pud_range U vf entry page addr next t)"

text \<open>A page that has been mapped before can only be at one address of an area.\<close>

definition unuse_vma ::
  "('r, 'k) unusing \<Rightarrow> vma_struct \<Rightarrow> entry \<Rightarrow> int \<Rightarrow> ('r, 'k) task \<Rightarrow> (int \<times> ('r, 'k) task) option" where
  "unuse_vma U area entry page t = do {
     let search = (\<lambda>addr till. walk_err (piece_end (pgdir_pages (tables_of (in_fault U)))) (unuse_pgd U (area_flags area) entry page) addr till t);
     if page_anon_vma U page t then
       (case page_address_in_vma U page area t of None \<Rightarrow> Some (0, t) | Some addr \<Rightarrow> search addr (addr + 1))
     else do {
       a \<leftarrow> page_no (vm_start area);
       b \<leftarrow> page_no (vm_end area);
       search a b
     }
   }"

fun unuse_areas ::
  "('r, 'k) unusing \<Rightarrow> vma_struct list \<Rightarrow> entry \<Rightarrow> int \<Rightarrow> ('r, 'k) task \<Rightarrow> (int \<times> ('r, 'k) task) option" where
  "unuse_areas U [] entry page t = Some (0, t)"
| "unuse_areas U (w # ws) entry page t = do {
     (ret, t) \<leftarrow> (if anon_vma w then unuse_vma U w entry page t else Some (0, t));
     if ret \<noteq> 0 then Some (ret, t) else unuse_areas U ws entry page t
   }"

definition unuse_mm ::
  "('r, 'k) unusing \<Rightarrow> vma_struct list \<Rightarrow> entry \<Rightarrow> int \<Rightarrow> ('r, 'k) task \<Rightarrow> (int \<times> ('r, 'k) task) option" where
  "unuse_mm U ws entry page t = do {
     let t = (if down_read_trylock U t then t else lock_page (in_fault U) page (t_sw (unlock_page page) (activate_page U page t)));
     (ret, t) \<leftarrow> unuse_areas U ws entry page t;
     Some (if ret < 0 then ret else 0, t)
   }"

section \<open>The slots in use\<close>

text \<open>
  The next slot in use behind \<open>prev\<close>, from the end round to the start once, 0 when there is none (without
  frontswap, which \<open>src/myConfig\<close> does not build).  \<open>bad\<close> is \<open>SWAP_MAP_BAD\<close>.
\<close>

partial_function (option) next_used :: "swap_h \<Rightarrow> byte \<Rightarrow> byte list \<Rightarrow> int \<Rightarrow> int \<Rightarrow> int \<Rightarrow> int option" where
  "next_used K bad m limit prev i =
     (let i = i + 1 in
      if limit \<le> i \<and> prev = 0 then Some 0
      else (case (if limit \<le> i then (prev + 1, 0, 1) else (limit, prev, i)) of (limit, prev, i) \<Rightarrow> do {
        count \<leftarrow> arr_get m i;
        if count \<noteq> 0 \<and> swap_count K count \<noteq> bad then Some i else next_used K bad m limit prev i
      }))"

definition find_next_to_unuse :: "swap_h \<Rightarrow> byte \<Rightarrow> swap_info_struct \<Rightarrow> int \<Rightarrow> int option" where
  "find_next_to_unuse K bad si prev = next_used K bad (swap_map si) (si_max si) prev prev"

section \<open>The first hit\<close>

text \<open>
  What a search of the addresses from \<open>a\<close> to \<open>c\<close> gives: 0 and no change when there is no hit, and otherwise
  what is done at the first one.
\<close>

definition finds :: "(int \<Rightarrow> 's \<Rightarrow> bool) \<Rightarrow> (int \<Rightarrow> 's \<Rightarrow> (int \<times> 's) option) \<Rightarrow> 's \<Rightarrow> int \<Rightarrow> int \<Rightarrow> (int \<times> 's) option \<Rightarrow> bool" where
  "finds hit act s a c r \<longleftrightarrow> (\<forall>x. a \<le> x \<longrightarrow> x < c \<longrightarrow> \<not> hit x s) \<and> r = Some (0, s) \<or>
     (\<exists>x. a \<le> x \<and> x < c \<and> hit x s \<and> (\<forall>y. a \<le> y \<longrightarrow> y < x \<longrightarrow> \<not> hit y s) \<and> r = act x s)"

lemma finds_none: "(\<And>x. a \<le> x \<Longrightarrow> x < c \<Longrightarrow> \<not> hit x s) \<Longrightarrow> finds hit act s a c (Some (0, s))"
  by (simp add: finds_def)

lemma finds_later: "finds hit act s b c r \<Longrightarrow> a \<le> b \<Longrightarrow> (\<And>x. a \<le> x \<Longrightarrow> x < b \<Longrightarrow> \<not> hit x s) \<Longrightarrow> finds hit act s a c r"
  unfolding finds_def
proof (elim disjE exE conjE)
  fix x assume "a \<le> b" "b \<le> x" "x < c" "hit x s" and low: "\<forall>y. b \<le> y \<longrightarrow> y < x \<longrightarrow> \<not> hit y s" and r: "r = act x s"
    and none: "\<And>x. a \<le> x \<Longrightarrow> x < b \<Longrightarrow> \<not> hit x s"
  moreover have "\<not> hit y s" if "a \<le> y" "y < x" for y using none [of y] low that by (cases "y < b") auto
  ultimately show "(\<forall>x. a \<le> x \<longrightarrow> x < c \<longrightarrow> \<not> hit x s) \<and> r = Some (0, s) \<or>
      (\<exists>x. a \<le> x \<and> x < c \<and> hit x s \<and> (\<forall>y. a \<le> y \<longrightarrow> y < x \<longrightarrow> \<not> hit y s) \<and> r = act x s)" by (intro disjI2 exI [of _ x]) auto
next
  assume none: "\<And>x. a \<le> x \<Longrightarrow> x < b \<Longrightarrow> \<not> hit x s" and "\<forall>x. b \<le> x \<longrightarrow> x < c \<longrightarrow> \<not> hit x s" and "r = Some (0, s)"
  then show "(\<forall>x. a \<le> x \<longrightarrow> x < c \<longrightarrow> \<not> hit x s) \<and> r = Some (0, s) \<or>
      (\<exists>x. a \<le> x \<and> x < c \<and> hit x s \<and> (\<forall>y. a \<le> y \<longrightarrow> y < x \<longrightarrow> \<not> hit y s) \<and> r = act x s)" by (intro disjI1) (meson linorder_not_le)
qed

text \<open>A search that stops at a hit, in a state in which \<open>ok\<close> holds, stops wherever it is started.\<close>

locale search =
  fixes hit :: "int \<Rightarrow> 's \<Rightarrow> bool" and act :: "int \<Rightarrow> 's \<Rightarrow> (int \<times> 's) option" and ok :: "'s \<Rightarrow> bool"
  assumes stops: "ok s \<Longrightarrow> hit x s \<Longrightarrow> act x s = Some (r, t) \<Longrightarrow> r \<noteq> 0"
begin

lemma finds_append:
  assumes "ok s" and "finds hit act s a b r" and "b \<le> c" and "finds hit act s b c r'" and "a \<le> b"
  shows "finds hit act s a c (Option.bind r (\<lambda>(k, t). if k \<noteq> 0 then Some (k, t) else if t = s then r' else None))"
proof (cases "\<exists>x. a \<le> x \<and> x < b \<and> hit x s")
  case True
  then obtain x where x: "a \<le> x" "x < b" "hit x s" "\<forall>y. a \<le> y \<longrightarrow> y < x \<longrightarrow> \<not> hit y s" "r = act x s"
    using assms(2) by (auto simp: finds_def)
  then have "Option.bind r (\<lambda>(k, t). if k \<noteq> 0 then Some (k, t) else if t = s then r' else None) = act x s"
    using stops [OF assms(1) x(3)] by (cases "act x s") auto
  then show ?thesis using x assms(3) by (auto simp: finds_def intro!: exI [of _ x])
next
  case False
  then have "r = Some (0, s)" using assms(2) by (auto simp: finds_def)
  then show ?thesis using finds_later [OF assms(4,5)] False by auto
qed

lemma walk_finds:
  assumes "ok s" and "\<And>a c. a < c \<Longrightarrow> a < addr_end a c \<and> addr_end a c \<le> c" and "\<And>a c. a < c \<Longrightarrow> addr_end a (addr_end a c) = addr_end a c"
    and "\<And>a c. lo \<le> a \<Longrightarrow> a < c \<Longrightarrow> c \<le> hi \<Longrightarrow> addr_end a c = c \<Longrightarrow> finds hit act s a c (f a c s)"
    and "lo \<le> a" and "a < hi"
  shows "finds hit act s a hi (walk_err addr_end f a hi s)"
  using assms(5,6)
proof (induction "nat (hi - a)" arbitrary: a rule: less_induct)
  case less
  define b where "b = addr_end a hi"
  have b: "a < b" "b \<le> hi" "addr_end a b = b" using assms(2,3) [OF less.prems(2)] by (simp_all add: b_def)
  have f: "finds hit act s a b (f a b s)" by (rule assms(4)) (use b less.prems in auto)
  show ?case
  proof (cases "\<exists>x. a \<le> x \<and> x < b \<and> hit x s")
    case True
    then obtain x where x: "a \<le> x" "x < b" "hit x s" "\<forall>y. a \<le> y \<longrightarrow> y < x \<longrightarrow> \<not> hit y s" "f a b s = act x s"
      using f by (auto simp: finds_def)
    have "walk_err addr_end f a hi s = act x s"
      by (subst walk_err.simps) (use x(5) stops [OF assms(1) x(3)] in \<open>cases "act x s"; auto simp: b_def [symmetric] Let_def\<close>)
    then show ?thesis using x b(2) by (auto simp: finds_def intro!: exI [of _ x])
  next
    case False
    then have z: "f a b s = Some (0, s)" using f by (auto simp: finds_def)
    show ?thesis
    proof (cases "b = hi")
      case True
      then have "walk_err addr_end f a hi s = Some (0, s)" using z by (subst walk_err.simps) (simp add: b_def [symmetric])
      then show ?thesis using False True by (auto simp: finds_def)
    next
      case neq: False
      then have "finds hit act s b hi (walk_err addr_end f b hi s)" using less.hyps [of b] b less.prems by auto
      moreover have "walk_err addr_end f a hi s = walk_err addr_end f b hi s" using z neq by (subst walk_err.simps) (simp add: b_def [symmetric])
      ultimately show ?thesis using finds_later [of hit act s b hi _ a] False b(1) by auto
    qed
  qed
qed

end

section \<open>The first entry of a task\<close>

text \<open>An address whose entry names the slot; the kernel's other parts leave the tables alone while the page is made ready.\<close>

definition names_entry :: "('r, 'k) tables \<Rightarrow> entry \<Rightarrow> int \<Rightarrow> ('r, 'k) task \<Rightarrow> bool" where
  "names_entry T e x t \<longleftrightarrow> has_table T (t_mm t) x \<and> ptes (t_mm t) x = Pte_swap e"

definition still :: "('r, 'k) unusing \<Rightarrow> bool" where
  "still U \<longleftrightarrow> (\<forall>p a t. t_mm (snd (ksm_might_need_to_copy (in_fault U) p a t)) = t_mm t) \<and>
     (\<forall>p t. t_mm (snd (mem_cgroup_try_charge_swapin (in_fault U) p t)) = t_mm t)"

lemma unuse_pte_stops:
  assumes "still U" and "ptes (t_mm t) x = Pte_swap e" and "unuse_pte U vf x e page t = Some (r, u)"
  shows "r \<noteq> 0"
proof -
  obtain c t1 where k: "ksm_might_need_to_copy (in_fault U) page x t = (c, t1)" by fastforce
  then have t1: "t_mm t1 = t_mm t" using assms(1) by (metis snd_conv still_def)
  show ?thesis
  proof (cases c)
    case None
    then show ?thesis using assms(3) k by (simp add: unuse_pte_def Let_def ENOMEM_def)
  next
    case (Some pg)
    obtain b t2 where c: "mem_cgroup_try_charge_swapin (in_fault U) pg t1 = (b, t2)" by fastforce
    then have "t_mm t2 = t_mm t" using assms(1) t1 by (metis snd_conv still_def)
    then show ?thesis using assms(2,3) k c Some by (auto simp: unuse_pte_def Let_def ENOMEM_def split: if_splits bind_splits)
  qed
qed

interpretation unuse: search "names_entry (tables_of (in_fault U)) e" "\<lambda>x. unuse_pte U vf x e page" "\<lambda>_. still U"
  for U :: "('r, 'k) unusing" and vf e page
  by unfold_locales (rule unuse_pte_stops, simp_all add: names_entry_def)

lemma unuse_pte_range_finds:
  assumes "still U" and "a < c" and "\<And>x. a \<le> x \<Longrightarrow> x < c \<Longrightarrow> has_table (tables_of (in_fault U)) (t_mm t) x"
  shows "finds (names_entry (tables_of (in_fault U)) e) (\<lambda>x. unuse_pte U vf x e page) t a c (unuse_pte_range U vf e page a c t)"
  unfolding unuse_pte_range_def
proof (rule unuse.walk_finds [OF assms(1), where lo = a])
  show "finds (names_entry (tables_of (in_fault U)) e) (\<lambda>x. unuse_pte U vf x e page) t b d (unuse_one U vf e page b d t)"
    if "a \<le> b" "b < d" "d \<le> c" "b + 1 = d" for b d
  proof -
    have "has_table (tables_of (in_fault U)) (t_mm t) b" by (rule assms(3)) (use that in auto)
    then show ?thesis using that(4) by (auto simp: finds_def unuse_one_def names_entry_def)
  qed
qed (use assms(2) in auto)

lemma unuse_pmd_finds:
  fixes U :: "('r, 'k) unusing"
  defines "T \<equiv> tables_of (in_fault U)"
  assumes "still U" and "a < c" and "piece_end (pmd_pages T) a c = c" and "\<And>x. a \<le> x \<Longrightarrow> x < c \<Longrightarrow> plain_at T (t_mm t) x"
  shows "finds (names_entry T e) (\<lambda>x. unuse_pte U vf x e page) t a c (unuse_pmd U vf e page a c t)"
proof -
  have same: "x div pmd_pages T = a div pmd_pages T" if "a \<le> x" "x < c" for x using piece_same [OF _ assms(4) that] by simp
  consider "pmds (t_mm t) (a div pmd_pages T) = Px_none" | "pmds (t_mm t) (a div pmd_pages T) = Px_table"
    using assms(5) [of a] assms(3) by (auto simp: plain_at_def)
  then show ?thesis
  proof cases
    case 1
    then have "unuse_pmd U vf e page a c t = Some (0, t)"
      by (simp add: unuse_pmd_def pmd_none_or_trans_huge_or_clear_bad_def pmd_none_or_clear_bad_def none_or_clear_bad_def T_def)
    moreover have "\<not> names_entry T e x t" if "a \<le> x" "x < c" for x using 1 same [OF that] by (simp add: names_entry_def has_table_def)
    ultimately show ?thesis by (simp add: finds_none)
  next
    case 2
    then have "unuse_pmd U vf e page a c t = unuse_pte_range U vf e page a c t"
      by (simp add: unuse_pmd_def pmd_none_or_trans_huge_or_clear_bad_def pmd_none_or_clear_bad_def none_or_clear_bad_def T_def)
    moreover have "has_table (tables_of (in_fault U)) (t_mm t) x" if "a \<le> x" "x < c" for x
      using 2 same [OF that] by (simp add: has_table_def T_def)
    ultimately show ?thesis using unuse_pte_range_finds [OF assms(2,3), of t e vf page] by (simp add: T_def)
  qed
qed

lemma unuse_pud_finds:
  fixes U :: "('r, 'k) unusing"
  defines "T \<equiv> tables_of (in_fault U)"
  assumes "still U" and "a < c" and "piece_end (pud_pages T) a c = c" and "\<And>x. a \<le> x \<Longrightarrow> x < c \<Longrightarrow> plain_at T (t_mm t) x"
  shows "finds (names_entry T e) (\<lambda>x. unuse_pte U vf x e page) t a c (unuse_pud U vf e page a c t)"
proof -
  have same: "x div pud_pages T = a div pud_pages T" if "a \<le> x" "x < c" for x using piece_same [OF _ assms(4) that] by simp
  consider "puds (t_mm t) (a div pud_pages T) = Px_none" | "puds (t_mm t) (a div pud_pages T) = Px_table"
    using assms(5) [of a] assms(3) by (auto simp: plain_at_def)
  then show ?thesis
  proof cases
    case 1
    then have "unuse_pud U vf e page a c t = Some (0, t)" by (simp add: unuse_pud_def pud_none_or_clear_bad_def none_or_clear_bad_def T_def)
    moreover have "\<not> names_entry T e x t" if "a \<le> x" "x < c" for x
      using 1 same [OF that] assms(5) [OF that] by (auto simp: names_entry_def has_table_def plain_at_def)
    ultimately show ?thesis by (simp add: finds_none)
  next
    case 2
    have "finds (names_entry T e) (\<lambda>x. unuse_pte U vf x e page) t a c (unuse_pmd_range U vf e page a c t)"
      unfolding unuse_pmd_range_def T_def
    proof (rule unuse.walk_finds [OF assms(2), where lo = a])
      show "finds (names_entry (tables_of (in_fault U)) e) (\<lambda>x. unuse_pte U vf x e page) t b d (unuse_pmd U vf e page b d t)"
        if "a \<le> b" "b < d" "d \<le> c" "piece_end (pmd_pages (tables_of (in_fault U))) b d = d" for b d
        by (rule unuse_pmd_finds [OF assms(2) that(2,4)]) (use that assms(5) in \<open>auto simp: T_def\<close>)
    qed (use assms(3) in \<open>simp_all add: piece_end_bounds piece_end_twice\<close>)
    then show ?thesis using 2 by (simp add: unuse_pud_def pud_none_or_clear_bad_def none_or_clear_bad_def T_def)
  qed
qed

lemma unuse_pgd_finds:
  fixes U :: "('r, 'k) unusing"
  defines "T \<equiv> tables_of (in_fault U)"
  assumes "still U" and "a < c" and "piece_end (pgdir_pages T) a c = c" and "\<And>x. a \<le> x \<Longrightarrow> x < c \<Longrightarrow> plain_at T (t_mm t) x"
  shows "finds (names_entry T e) (\<lambda>x. unuse_pte U vf x e page) t a c (unuse_pgd U vf e page a c t)"
proof -
  have same: "x div pgdir_pages T = a div pgdir_pages T" if "a \<le> x" "x < c" for x using piece_same [OF _ assms(4) that] by simp
  consider "pgds (t_mm t) (a div pgdir_pages T) = Px_none" | "pgds (t_mm t) (a div pgdir_pages T) = Px_table"
    using assms(5) [of a] assms(3) by (auto simp: plain_at_def)
  then show ?thesis
  proof cases
    case 1
    then have "unuse_pgd U vf e page a c t = Some (0, t)" by (simp add: unuse_pgd_def pgd_none_or_clear_bad_def none_or_clear_bad_def T_def)
    moreover have "\<not> names_entry T e x t" if "a \<le> x" "x < c" for x
      using 1 same [OF that] assms(5) [OF that] by (auto simp: names_entry_def has_table_def plain_at_def)
    ultimately show ?thesis by (simp add: finds_none)
  next
    case 2
    have "finds (names_entry T e) (\<lambda>x. unuse_pte U vf x e page) t a c (unuse_pud_range U vf e page a c t)"
      unfolding unuse_pud_range_def T_def
    proof (rule unuse.walk_finds [OF assms(2), where lo = a])
      show "finds (names_entry (tables_of (in_fault U)) e) (\<lambda>x. unuse_pte U vf x e page) t b d (unuse_pud U vf e page b d t)"
        if "a \<le> b" "b < d" "d \<le> c" "piece_end (pud_pages (tables_of (in_fault U))) b d = d" for b d
        by (rule unuse_pud_finds [OF assms(2) that(2,4)]) (use that assms(5) in \<open>auto simp: T_def\<close>)
    qed (use assms(3) in \<open>simp_all add: piece_end_bounds piece_end_twice\<close>)
    then show ?thesis using 2 by (simp add: unuse_pgd_def pgd_none_or_clear_bad_def none_or_clear_bad_def T_def)
  qed
qed

text \<open>Over all areas: an entry counts when it lies in an area that may have anonymous pages.\<close>

definition home :: "vma_struct list \<Rightarrow> int \<Rightarrow> vma_struct option" where
  "home ws x = find (\<lambda>w. first_page w \<le> x \<and> x < past_page w) ws"

definition area_hit :: "('r, 'k) tables \<Rightarrow> entry \<Rightarrow> vma_struct list \<Rightarrow> int \<Rightarrow> ('r, 'k) task \<Rightarrow> bool" where
  "area_hit T e ws x t \<longleftrightarrow> (case home ws x of Some w \<Rightarrow> anon_vma w | None \<Rightarrow> False) \<and> names_entry T e x t"

definition area_act ::
  "('r, 'k) unusing \<Rightarrow> entry \<Rightarrow> int \<Rightarrow> vma_struct list \<Rightarrow> int \<Rightarrow> ('r, 'k) task \<Rightarrow> (int \<times> ('r, 'k) task) option" where
  "area_act U e page ws x t = (case home ws x of Some w \<Rightarrow> unuse_pte U (area_flags w) x e page t | None \<Rightarrow> None)"

interpretation unuse_areas: search "area_hit (tables_of (in_fault U)) e ws" "area_act U e page ws" "\<lambda>_. still U"
  for U :: "('r, 'k) unusing" and e page ws
  by unfold_locales (auto simp: area_hit_def area_act_def names_entry_def dest: unuse_pte_stops split: option.splits)

lemma home_part: "areas_from lo (w # ws) hi \<Longrightarrow> past_page w \<le> x \<Longrightarrow> home (w # ws) x = home ws x"
  by (simp add: home_def)

lemma home_before: "areas_from lo ws hi \<Longrightarrow> x < lo \<Longrightarrow> home ws x = None"
  using areas_from_bounds [of lo ws hi] by (force simp: home_def find_None_iff)

lemma finds_cong:
  assumes "\<And>x. a \<le> x \<Longrightarrow> x < c \<Longrightarrow> hit' x s = hit x s \<and> act' x s = act x s"
  shows "finds hit' act' s a c r = finds hit act s a c r"
proof -
  have "(\<forall>x. a \<le> x \<longrightarrow> x < c \<longrightarrow> \<not> hit' x s) = (\<forall>x. a \<le> x \<longrightarrow> x < c \<longrightarrow> \<not> hit x s)" using assms by blast
  moreover have "(a \<le> x \<and> x < c \<and> hit' x s \<and> (\<forall>y. a \<le> y \<longrightarrow> y < x \<longrightarrow> \<not> hit' y s) \<and> r = act' x s) =
      (a \<le> x \<and> x < c \<and> hit x s \<and> (\<forall>y. a \<le> y \<longrightarrow> y < x \<longrightarrow> \<not> hit y s) \<and> r = act x s)" for x
    using assms by (metis order.strict_trans)
  ultimately show ?thesis by (simp add: finds_def)
qed

lemma finds_early: "finds hit act s a b r \<Longrightarrow> b \<le> c \<Longrightarrow> (\<And>x. b \<le> x \<Longrightarrow> x < c \<Longrightarrow> \<not> hit x s) \<Longrightarrow> finds hit act s a c r"
  unfolding finds_def
proof (elim disjE exE conjE)
  fix x assume "a \<le> x" "x < b" "b \<le> c" "hit x s" "\<forall>y. a \<le> y \<longrightarrow> y < x \<longrightarrow> \<not> hit y s" "r = act x s"
  then show "(\<forall>x. a \<le> x \<longrightarrow> x < c \<longrightarrow> \<not> hit x s) \<and> r = Some (0, s) \<or>
      (\<exists>x. a \<le> x \<and> x < c \<and> hit x s \<and> (\<forall>y. a \<le> y \<longrightarrow> y < x \<longrightarrow> \<not> hit y s) \<and> r = act x s)" by (intro disjI2 exI [of _ x]) auto
next
  assume "\<And>x. b \<le> x \<Longrightarrow> x < c \<Longrightarrow> \<not> hit x s" and "\<forall>x. a \<le> x \<longrightarrow> x < b \<longrightarrow> \<not> hit x s" and "r = Some (0, s)"
  then show "(\<forall>x. a \<le> x \<longrightarrow> x < c \<longrightarrow> \<not> hit x s) \<and> r = Some (0, s) \<or>
      (\<exists>x. a \<le> x \<and> x < c \<and> hit x s \<and> (\<forall>y. a \<le> y \<longrightarrow> y < x \<longrightarrow> \<not> hit y s) \<and> r = act x s)" by (intro disjI1) (meson linorder_not_le)
qed

text \<open>
  What the reverse map promises of a page that has been mapped before: it finds the one address of an area at
  which an entry for the page can be, if there is one.
\<close>

definition located :: "('r, 'k) unusing \<Rightarrow> entry \<Rightarrow> int \<Rightarrow> vma_struct \<Rightarrow> ('r, 'k) task \<Rightarrow> bool" where
  "located U e page w t \<longleftrightarrow> (page_anon_vma U page t \<longrightarrow>
     (case page_address_in_vma U page w t of
        None \<Rightarrow> \<forall>x. first_page w \<le> x \<longrightarrow> x < past_page w \<longrightarrow> \<not> names_entry (tables_of (in_fault U)) e x t
      | Some a \<Rightarrow> first_page w \<le> a \<and> a < past_page w \<and>
          (\<forall>x. first_page w \<le> x \<longrightarrow> x < past_page w \<longrightarrow> x \<noteq> a \<longrightarrow> \<not> names_entry (tables_of (in_fault U)) e x t)))"

lemma unuse_vma_finds:
  fixes U :: "('r, 'k) unusing"
  defines "T \<equiv> tables_of (in_fault U)"
  assumes "still U" and w: "area_ok w" and l: "located U e page w t" and "\<And>x. first_page w \<le> x \<Longrightarrow> x < past_page w \<Longrightarrow> plain_at T (t_mm t) x"
  shows "finds (names_entry T e) (\<lambda>x. unuse_pte U (area_flags w) x e page) t (first_page w) (past_page w) (unuse_vma U w e page t)"
proof -
  let ?search = "\<lambda>a c. walk_err (piece_end (pgdir_pages T)) (unuse_pgd U (area_flags w) e page) a c t"
  have fs: "finds (names_entry T e) (\<lambda>x. unuse_pte U (area_flags w) x e page) t a c (?search a c)"
    if "first_page w \<le> a" "a < c" "c \<le> past_page w" for a c
    unfolding T_def
  proof (rule unuse.walk_finds [OF assms(2), where lo = a])
    show "finds (names_entry (tables_of (in_fault U)) e) (\<lambda>x. unuse_pte U (area_flags w) x e page) t b d (unuse_pgd U (area_flags w) e page b d t)"
      if "a \<le> b" "b < d" "d \<le> c" "piece_end (pgdir_pages (tables_of (in_fault U))) b d = d" for b d
      by (rule unuse_pgd_finds [OF assms(2) that(2,4)]) (use that assms(5) \<open>first_page w \<le> a\<close> \<open>c \<le> past_page w\<close> in \<open>auto simp: T_def\<close>)
  qed (use that in \<open>simp_all add: piece_end_bounds piece_end_twice\<close>)
  show ?thesis
  proof (cases "page_anon_vma U page t")
    case False
    then have "unuse_vma U w e page t = ?search (first_page w) (past_page w)"
      using w by (simp add: unuse_vma_def Let_def area_ok_def page_no_def first_page_def past_page_def T_def)
    then show ?thesis using fs area_pages [OF w] by simp
  next
    case True
    show ?thesis
    proof (cases "page_address_in_vma U page w t")
      case None
      then show ?thesis using True l by (simp add: unuse_vma_def Let_def located_def finds_none T_def)
    next
      case (Some a)
      have a: "first_page w \<le> a" "a < past_page w" "\<And>x. first_page w \<le> x \<Longrightarrow> x < past_page w \<Longrightarrow> x \<noteq> a \<Longrightarrow> \<not> names_entry T e x t"
        using l True Some by (auto simp: located_def T_def)
      have "unuse_vma U w e page t = ?search a (a + 1)" using True Some by (simp add: unuse_vma_def Let_def T_def)
      moreover have "finds (names_entry T e) (\<lambda>x. unuse_pte U (area_flags w) x e page) t a (past_page w) (?search a (a + 1))"
        by (rule finds_early [OF fs]) (use a in auto)
      then have "finds (names_entry T e) (\<lambda>x. unuse_pte U (area_flags w) x e page) t (first_page w) (past_page w) (?search a (a + 1))"
        by (rule finds_later) (use a in auto)
      ultimately show ?thesis by simp
    qed
  qed
qed

lemma unuse_areas_finds:
  fixes U :: "('r, 'k) unusing"
  defines "T \<equiv> tables_of (in_fault U)"
  assumes "still U" and "areas_from lo ws hi" and "\<And>w. w \<in> set ws \<Longrightarrow> located U e page w t" and "\<And>x. plain_at T (t_mm t) x"
  shows "finds (area_hit T e ws) (area_act U e page ws) t lo hi (unuse_areas U ws e page t)"
  using assms(3,4)
proof (induction ws arbitrary: lo)
  case Nil
  then show ?case by (simp add: finds_none area_hit_def home_def)
next
  case (Cons w ws)
  let ?p = "first_page w" and ?q = "past_page w" and ?ws = "w # ws"
  have w: "area_ok w" "lo \<le> ?p" "areas_from ?q ws hi" "?p < ?q" using Cons.prems(1) area_pages [of w] by auto
  have hi: "?q \<le> hi" using areas_from_bounds [OF w(3)] by simp
  have homes: "home ?ws x = (if x < ?p then None else if x < ?q then Some w else home ws x)" if "lo \<le> x" for x
    using home_before [OF w(3), of x] w(4) by (auto simp: home_def)
  define r where "r = (if anon_vma w then unuse_vma U w e page t else Some (0, t))"
  have "finds (area_hit T e ?ws) (area_act U e page ?ws) t ?p ?q r"
  proof (cases "anon_vma w")
    case True
    have "finds (names_entry T e) (\<lambda>x. unuse_pte U (area_flags w) x e page) t ?p ?q r"
      using unuse_vma_finds [OF assms(2) w(1) Cons.prems(2)] assms(5) True by (simp add: T_def r_def)
    moreover have "area_hit T e ?ws x t = names_entry T e x t \<and> area_act U e page ?ws x t = unuse_pte U (area_flags w) x e page t"
      if "?p \<le> x" "x < ?q" for x using homes [of x] that w(2) True by (simp add: area_hit_def area_act_def)
    ultimately show ?thesis
      using finds_cong [of ?p ?q "area_hit T e ?ws" t "names_entry T e" "area_act U e page ?ws" "\<lambda>x. unuse_pte U (area_flags w) x e page"] by blast
  next
    case False
    have "\<not> area_hit T e ?ws x t" if "?p \<le> x" "x < ?q" for x using homes [of x] that w(2) False by (simp add: area_hit_def)
    then show ?thesis using False by (simp add: finds_none r_def)
  qed
  then have lq: "finds (area_hit T e ?ws) (area_act U e page ?ws) t lo ?q r"
    by (rule finds_later [OF _ w(2)]) (simp add: homes area_hit_def)
  have "area_hit T e ?ws x t = area_hit T e ws x t \<and> area_act U e page ?ws x t = area_act U e page ws x t" if "?q \<le> x" "x < hi" for x
    using homes [of x] that w(2,4) by (simp add: area_hit_def area_act_def)
  moreover have "finds (area_hit T e ws) (area_act U e page ws) t ?q hi (unuse_areas U ws e page t)"
    by (rule Cons.IH [OF w(3)]) (simp add: Cons.prems(2))
  ultimately have qh: "finds (area_hit T e ?ws) (area_act U e page ?ws) t ?q hi (unuse_areas U ws e page t)"
    using finds_cong [of ?q hi "area_hit T e ?ws" t "area_hit T e ws" "area_act U e page ?ws" "area_act U e page ws"] by blast
  have "unuse_areas U ?ws e page t = Option.bind r (\<lambda>(k, u). if k \<noteq> 0 then Some (k, u) else if u = t then unuse_areas U ws e page t else None)"
  proof (cases "\<exists>u. r = Some (0, u)")
    case True
    then obtain u where u: "r = Some (0, u)" by blast
    have "u = t"
    proof (rule ccontr)
      assume "u \<noteq> t"
      then obtain x where "area_hit T e ?ws x t" "area_act U e page ?ws x t = Some (0, u)" using lq u by (auto simp: finds_def)
      then have "(0 :: int) \<noteq> 0" by (rule unuse_areas.stops [OF assms(2), folded T_def])
      then show False by simp
    qed
    then show ?thesis using u by (simp add: r_def)
  next
    case False
    then show ?thesis by (cases r) (auto simp: r_def)
  qed
  moreover have "lo \<le> ?q" using w by simp
  ultimately show ?case using unuse_areas.finds_append [OF assms(2), folded T_def, OF lq hi qh] by simp
qed

section \<open>One entry less, one reference less\<close>

lemma frames_only [simp]:
  "entry_at K e ty off (s\<lparr>frames := f\<rparr>) p = entry_at K e ty off s p" "entry_at K e ty off (s\<lparr>kern := k\<rparr>) p = entry_at K e ty off s p"
  "slot_moved K e ty off p n h (s\<lparr>kern := k\<rparr>) = slot_moved K e ty off p n h s"
  by (simp_all add: entry_at_def slot_moved_def si_get_def)

text \<open>
  The page is no merged one, the control group has room for it, and moving it between the lists of pages
  concerns none of the parts that are modelled.
\<close>

definition ready_page :: "('r, 'k) unusing \<Rightarrow> int \<Rightarrow> ('r, 'k) task \<Rightarrow> bool" where
  "ready_page U page t \<longleftrightarrow> calm (in_fault U) \<and> still U \<and> \<not> PageKsm (frame_of page t) \<and>
     mem_cgroup_try_charge_swapin (in_fault U) page t = (False, t) \<and> (\<forall>u. \<exists>k. activate_page U page u = t_sw (\<lambda>s. s\<lparr>kern := k\<rparr>) u)"

definition unused_pte :: "('r, 'k) unusing \<Rightarrow> vma_flags \<Rightarrow> int \<Rightarrow> pte_t" where
  "unused_pte U vf page = (mk_pte (in_fault U) page vf)\<lparr>pte_young := False\<rparr>"

lemma unuse_pte_takes:
  fixes U :: "('r, 'k) unusing"
  defines "K \<equiv> hdr (host_at (in_fault U))"
  assumes "linux_swap_h K" and e: "entry_at K e ty off (sw (mc (t_vm t))) p" and "0 < slot_refs p off" and "ptes (t_mm t) x = Pte_swap e"
    and "ready_page U page t"
  shows "\<exists>u. unuse_pte U vf x e page t = Some (1, u) \<and> t_mm u = set_pte_at x (Pte_present (unused_pte U vf page)) (count_fault (t_mm t)) \<and>
    slot_moved K e ty off p (slot_refs p off - 1) (slot_cached p off) (sw (mc (t_vm u)))"
proof -
  let ?F = "in_fault U" and ?X = "ksv (host_at (in_fault U))"
  let ?mm = "set_pte_at x (Pte_present (unused_pte U vf page)) (count_fault (t_mm t))"
  have c: "calm ?F" "\<not> PageKsm (frame_of page t)" "mem_cgroup_try_charge_swapin ?F page t = (False, t)" using assms(6) by (simp_all add: ready_page_def)
  let ?t1 = "t_sw (page_cache_get page) (t\<lparr>t_mm := count_fault (t_mm t)\<rparr>)"
  let ?t2 = "t_vmf (do_page_add_anon_rmap ?F page x False) (t_pte x (Pte_present (unused_pte U vf page)) ?t1)"
  have "sw (mc (t_vm ?t2)) = (sw (mc (t_vm t)))\<lparr>frames := frames (sw (mc (t_vm ?t2)))\<rparr>"
    using c(1) by (simp add: calm_def t_vmf_def t_pte_def t_sw_def v_frame_def frame_upd_def page_cache_get_def)
  then have "entry_at K e ty off (sw (mc (t_vm ?t2))) p" using e by (metis frames_only(1))
  then obtain s where s: "swap_free K ?X e (sw (mc (t_vm ?t2))) = Some s" "slot_moved K e ty off p (slot_refs p off - 1) (slot_cached p off) s"
    using free_drops_one [OF assms(2) _ assms(4), of e ty _ ?X] by blast
  let ?t3 = "t_sw (\<lambda>_. s) ?t2"
  obtain k where f: "activate_page U page ?t3 = t_sw (\<lambda>s. s\<lparr>kern := k\<rparr>) ?t3" using assms(6) unfolding ready_page_def by blast
  have "ksm_might_need_to_copy ?F page x t = (Some page, t)" "mem_cgroup_commit_charge_swapin ?F page v = v" for v
    using c by (simp_all add: calm_def)
  moreover have "t_get (\<lambda>s. map_option (Pair ()) (swap_free K ?X e s)) ?t2 = Some ((), ?t3)"
    using s(1) by (simp add: t_get_def on_sw_def sw_get_def t_sw_def)
  ultimately have "unuse_pte U vf x e page t = Some (1, t_sw (\<lambda>s. s\<lparr>kern := k\<rparr>) ?t3)"
    using c(3) assms(5) f by (simp add: unuse_pte_def Let_def put_copy_def K_def unused_pte_def)
  moreover have "t_mm (t_sw (\<lambda>s. s\<lparr>kern := k\<rparr>) ?t3) = ?mm" by (simp add: t_sw_def t_vmf_def t_pte_def)
  moreover have "sw (mc (t_vm (t_sw (\<lambda>s. s\<lparr>kern := k\<rparr>) ?t3))) = s\<lparr>kern := k\<rparr>" by (simp add: t_sw_def)
  ultimately show ?thesis using s(2) by simp
qed

text \<open>
  C28: a search of a task whose page is ready changes nothing when no entry names the slot.  Otherwise the one at
  the lowest address becomes a present entry for the page, old so that a use will show, one page moves from
  the swap entries of the task to its anonymous pages, every other entry stays, and the slot loses exactly
  one reference.
\<close>

theorem unuse_mm_takes_lowest:
  fixes U :: "('r, 'k) unusing"
  defines "T \<equiv> tables_of (in_fault U)" and "K \<equiv> hdr (host_at (in_fault U))"
  assumes "linux_swap_h K" and "areas_from 0 ws hi" and "\<And>x. plain_at T (t_mm t) x" and "ready_page U page t" and "down_read_trylock U t"
    and "\<And>w. w \<in> set ws \<Longrightarrow> located U e page w t"
    and e: "entry_at K e ty off (sw (mc (t_vm t))) p" and "0 < slot_refs p off"
  shows "if \<forall>x. \<not> area_hit T e ws x t then unuse_mm U ws e page t = Some (0, t)
    else \<exists>x w u. area_hit T e ws x t \<and> (\<forall>y<x. \<not> area_hit T e ws y t) \<and> home ws x = Some w \<and> unuse_mm U ws e page t = Some (0, u) \<and>
      t_mm u = set_pte_at x (Pte_present (unused_pte U (area_flags w) page)) (count_fault (t_mm t)) \<and>
      {y. area_hit T e ws y u} = {y. area_hit T e ws y t} - {x} \<and>
      slot_moved K e ty off p (slot_refs p off - 1) (slot_cached p off) (sw (mc (t_vm u)))"
proof -
  let ?r = "unuse_areas U ws e page t"
  have r: "ready_page U page t" "still U" using assms(6) by (simp_all add: ready_page_def)
  have fs: "finds (area_hit T e ws) (area_act U e page ws) t 0 hi ?r"
    using unuse_areas_finds [OF r(2) assms(4,8)] assms(5) by (simp add: T_def)
  have mm: "unuse_mm U ws e page t = map_option (\<lambda>(ret, t). (if ret < 0 then ret else 0, t)) ?r"
    using assms(7) by (simp add: unuse_mm_def map_option_case split: option.splits prod.splits)
  have inside: "0 \<le> x \<and> x < hi" if h: "area_hit T e ws x u" for x u
  proof -
    obtain w where "home ws x = Some w" using h by (auto simp: area_hit_def split: option.splits)
    then have "w \<in> set ws" "first_page w \<le> x" "x < past_page w" by (auto simp: home_def find_Some_iff)
    then show ?thesis using areas_from_bounds [OF assms(4)] by fastforce
  qed
  show ?thesis
  proof (cases "\<forall>x. \<not> area_hit T e ws x t")
    case True
    then have "?r = Some (0, t)" using fs by (simp add: finds_def)
    then show ?thesis using True mm by simp
  next
    case False
    then obtain x where x: "area_hit T e ws x t" "\<forall>y. 0 \<le> y \<longrightarrow> y < x \<longrightarrow> \<not> area_hit T e ws y t" "?r = area_act U e page ws x t"
      using fs inside by (auto simp: finds_def)
    obtain w where w: "home ws x = Some w" "anon_vma w" "names_entry T e x t" using x(1) by (auto simp: area_hit_def split: option.splits)
    obtain u where u: "unuse_pte U (area_flags w) x e page t = Some (1, u)"
      "t_mm u = set_pte_at x (Pte_present (unused_pte U (area_flags w) page)) (count_fault (t_mm t))"
      "slot_moved K e ty off p (slot_refs p off - 1) (slot_cached p off) (sw (mc (t_vm u)))"
      using unuse_pte_takes [OF assms(3) [unfolded K_def] e [unfolded K_def] assms(10) _ r(1)] w(3) by (auto simp: names_entry_def K_def)
    have "unuse_mm U ws e page t = Some (0, u)" using mm x(3) w(1) u(1) by (simp add: area_act_def)
    moreover have "area_hit T e ws y u \<longleftrightarrow> area_hit T e ws y t \<and> y \<noteq> x" for y
      using u(2) by (auto simp: area_hit_def names_entry_def has_table_def set_pte_at_def count_fault_def)
    moreover have "\<not> area_hit T e ws y t" if "y < x" for y using x(2) inside that by blast
    ultimately show ?thesis using False x(1) w(1) u(2,3) by auto
  qed
qed

section \<open>The next slot in use\<close>

definition used_slot :: "swap_h \<Rightarrow> byte \<Rightarrow> byte list \<Rightarrow> int \<Rightarrow> bool" where
  "used_slot K bad m i \<longleftrightarrow> m ! nat i \<noteq> 0 \<and> swap_count K (m ! nat i) \<noteq> bad"

text \<open>\<open>j\<close> is the first slot in use behind \<open>i\<close> and before \<open>limit\<close>.\<close>

definition first_used :: "swap_h \<Rightarrow> byte \<Rightarrow> byte list \<Rightarrow> int \<Rightarrow> int \<Rightarrow> int \<Rightarrow> bool" where
  "first_used K bad m i limit j \<longleftrightarrow> i < j \<and> j < limit \<and> used_slot K bad m j \<and> (\<forall>k. i < k \<longrightarrow> k < j \<longrightarrow> \<not> used_slot K bad m k)"

definition none_used :: "swap_h \<Rightarrow> byte \<Rightarrow> byte list \<Rightarrow> int \<Rightarrow> int \<Rightarrow> bool" where
  "none_used K bad m i limit \<longleftrightarrow> (\<forall>k. i < k \<longrightarrow> k < limit \<longrightarrow> \<not> used_slot K bad m k)"

lemma next_used_here:
  assumes "0 \<le> i" and "i + 1 < limit" and "limit \<le> int (length m)"
  shows "next_used K bad m limit prev i = (if used_slot K bad m (i + 1) then Some (i + 1) else next_used K bad m limit prev (i + 1))"
  using assms by (subst next_used.simps) (simp add: Let_def arr_get_def used_slot_def)

lemma used_step:
  "used_slot K bad m (i + 1) \<Longrightarrow> i + 1 < limit \<Longrightarrow> first_used K bad m i limit (i + 1)"
  "\<not> used_slot K bad m (i + 1) \<Longrightarrow> first_used K bad m (i + 1) limit j \<Longrightarrow> first_used K bad m i limit j"
  "\<not> used_slot K bad m (i + 1) \<Longrightarrow> none_used K bad m (i + 1) limit \<Longrightarrow> none_used K bad m i limit"
  unfolding first_used_def none_used_def by (auto, (metis add1_zle_eq order_le_less)+)

lemma next_used_last:
  assumes "0 \<le> i" and "limit \<le> int (length m)"
  shows "\<exists>j. next_used K bad m limit 0 i = Some j \<and> (j = 0 \<and> none_used K bad m i limit \<or> first_used K bad m i limit j)"
  using assms(1)
proof (induction "nat (limit - i)" arbitrary: i rule: less_induct)
  case less
  show ?case
  proof (cases "i + 1 < limit")
    case True
    note step = next_used_here [OF less.prems True assms(2), of K bad 0]
    show ?thesis
    proof (cases "used_slot K bad m (i + 1)")
      case True
      then show ?thesis using step used_step(1) \<open>i + 1 < limit\<close> by auto
    next
      case False
      then show ?thesis using step less.hyps [of "i + 1"] less.prems \<open>i + 1 < limit\<close> used_step(2,3) by force
    qed
  next
    case False
    then have "next_used K bad m limit 0 i = Some 0" by (subst next_used.simps) simp
    then show ?thesis using False by (simp add: none_used_def)
  qed
qed

lemma next_used_round:
  assumes "0 < prev" and "prev \<le> i" and "prev < int (length m)" and "limit \<le> int (length m)"
  shows "\<exists>j. next_used K bad m limit prev i = Some j \<and> (first_used K bad m i limit j \<or>
    none_used K bad m i limit \<and> (j = 0 \<and> none_used K bad m 0 (prev + 1) \<or> first_used K bad m 0 (prev + 1) j))"
  using assms(2)
proof (induction "nat (limit - i)" arbitrary: i rule: less_induct)
  case less
  show ?case
  proof (cases "i + 1 < limit")
    case True
    have "0 \<le> i" using less.prems assms(1) by simp
    note step = next_used_here [OF this True assms(4), of K bad prev]
    show ?thesis
    proof (cases "used_slot K bad m (i + 1)")
      case True
      then show ?thesis using step used_step(1) \<open>i + 1 < limit\<close> by auto
    next
      case False
      obtain j where "next_used K bad m limit prev (i + 1) = Some j" "first_used K bad m (i + 1) limit j \<or>
        none_used K bad m (i + 1) limit \<and> (j = 0 \<and> none_used K bad m 0 (prev + 1) \<or> first_used K bad m 0 (prev + 1) j)"
        using less.hyps [of "i + 1"] less.prems \<open>i + 1 < limit\<close> by auto
      then show ?thesis using step False used_step(2,3) [OF False] by auto
    qed
  next
    case False
    have "next_used K bad m limit prev i = next_used K bad m (prev + 1) 0 0"
      using False assms(1,3) by (subst (1 2) next_used.simps) (simp add: Let_def arr_get_def)
    then show ?thesis using next_used_last [of 0 "prev + 1" m K bad] assms(3) False by (auto simp: none_used_def)
  qed
qed

text \<open>
  The search for work ends on every map.  It gives the first slot in use behind the last one, or else the
  first one from the start of the map up to the last one itself, and 0 only if no slot of the map is in use.
\<close>

theorem next_to_unuse_cyclic:
  assumes "int (length (swap_map si)) = si_max si" and "0 \<le> prev" and "prev < si_max si"
  shows "\<exists>j. find_next_to_unuse K bad si prev = Some j \<and> (first_used K bad (swap_map si) prev (si_max si) j \<or>
    none_used K bad (swap_map si) prev (si_max si) \<and> (first_used K bad (swap_map si) 0 (prev + 1) j \<or>
      j = 0 \<and> none_used K bad (swap_map si) 0 (si_max si)))"
proof (cases "prev = 0")
  case True
  then show ?thesis using next_used_last [of 0 "si_max si" "swap_map si" K bad] assms(1) by (auto simp: find_next_to_unuse_def)
next
  case False
  have "none_used K bad m prev (si_max si) \<Longrightarrow> none_used K bad m 0 (prev + 1) \<Longrightarrow> none_used K bad m 0 (si_max si)" for m
    unfolding none_used_def by (metis add1_zle_eq not_less zle_add1_eq_le)
  then show ?thesis using next_used_round [of prev prev "swap_map si" "si_max si" K bad] assms False
    by (auto simp: find_next_to_unuse_def)
qed

section \<open>Witnesses\<close>

definition ideal_search :: "(int \<Rightarrow> mem, unit) unusing" where
  "ideal_search = \<lparr>in_fault = ideal_fault False, activate_page = (\<lambda>_ t. t), page_anon_vma = (\<lambda>_ _. False),
     page_address_in_vma = (\<lambda>_ _ _. None), down_read_trylock = (\<lambda>_. True)\<rparr>"

text \<open>A task with two entries for the slot that \<open>small_area\<close> counts.\<close>

definition twice_mm :: mm_struct where
  "twice_mm = no_mm\<lparr>pgds := (\<lambda>_. Px_table), puds := (\<lambda>_. Px_table), pmds := (\<lambda>_. Px_table),
     ptes := (\<lambda>x. if x = 10 \<or> x = 20 then Pte_swap 2 else Pte_none), mm_swapents := 2\<rparr>"

definition twice_task :: "(int \<Rightarrow> mem, unit) task" where
  "twice_task = \<lparr>t_mm = twice_mm, t_vm = \<lparr>mc = \<lparr>nd = ideal_node (\<lambda>_ _. 0), sw = small_swaps\<rparr>, px = anon_px\<rparr>\<rparr>"

lemma ideal_search_ready: "ready_page ideal_search page twice_task"
proof -
  have "t_sw (\<lambda>s. s\<lparr>kern := ()\<rparr>) t = t" for t :: "(int \<Rightarrow> mem, unit) task" by (simp add: t_sw_def)
  then show ?thesis
    by (auto simp: ready_page_def still_def ideal_search_def ideal_fault_parts frame_of_def twice_task_def small_swaps_def plain_page_def)
      (simp_all add: ideal_fault_def)
qed

theorem unuse_mm_takes_lowest_witness:
  "\<exists>u q. unuse_mm ideal_search [area_at 0 0x100000] 2 9 twice_task = Some (0, u) \<and> ptes (t_mm u) 10 = Pte_present q \<and> pte_pfn q = 9 \<and>
     ptes (t_mm u) 20 = Pte_swap 2 \<and> mm_swapents (t_mm u) = 1 \<and> mm_anonpages (t_mm u) = 1 \<and> refs_at 0 2 (sw (mc (t_vm u))) = 61"
proof -
  let ?U = ideal_search and ?w = "area_at 0 0x100000" and ?t = twice_task
  have p: "hdr (host_at (in_fault ?U)) = std_h" "tables_of (in_fault ?U) = ideal_tables" by (simp_all add: ideal_search_def ideal_fault_parts)
  have ar: "areas_from 0 [?w] (2 ^ 52)" "first_page ?w = 0" "past_page ?w = 256"
    by (simp_all add: area_ok_def area_at_def PAGE_SHIFT_def first_page_def past_page_def)
  have pl: "plain_at ideal_tables (t_mm ?t) x" for x by (simp add: plain_at_def twice_task_def twice_mm_def)
  have h: "area_hit ideal_tables 2 [?w] y ?t \<longleftrightarrow> y = 10 \<or> y = 20" for y
    using ar(2,3) by (auto simp: area_hit_def home_def names_entry_def has_table_def twice_task_def twice_mm_def area_at_def)
  have e: "entry_at std_h 2 0 2 (sw (mc (t_vm ?t))) small_area" "0 < slot_refs small_area 2" using small_entry by (simp_all add: twice_task_def)
  have l: "down_read_trylock ?U ?t" "\<And>w. w \<in> set [?w] \<Longrightarrow> located ?U 2 9 w ?t" by (simp_all add: ideal_search_def located_def)
  have ex: "\<not> (\<forall>x. \<not> area_hit ideal_tables 2 [?w] x ?t)" using h by auto
  obtain x w u where u: "area_hit ideal_tables 2 [?w] x ?t" "\<forall>y<x. \<not> area_hit ideal_tables 2 [?w] y ?t" "home [?w] x = Some w"
      "unuse_mm ?U [?w] 2 9 ?t = Some (0, u)" "t_mm u = set_pte_at x (Pte_present (unused_pte ?U (area_flags w) 9)) (count_fault (t_mm ?t))"
      "slot_moved std_h 2 0 2 small_area (slot_refs small_area 2 - 1) (slot_cached small_area 2) (sw (mc (t_vm u)))"
    using unuse_mm_takes_lowest [of ?U "[?w]" "2 ^ 52" ?t 9 2 0 2 small_area, unfolded p, OF std_h_linux ar(1) pl ideal_search_ready l e, unfolded if_not_P [OF ex]] by blast
  have "x = 10" using u(1,2) h by force
  moreover have "refs_at 0 2 (sw (mc (t_vm u))) = 61"
    using u(6) small_entry(2) at_entry [of std_h 2 0 2] by (force simp: slot_moved_def)
  ultimately show ?thesis using u(4,5)
    by (simp add: set_pte_at_def count_fault_def twice_task_def twice_mm_def no_mm_def unused_pte_def ideal_search_def ideal_fault_def)
qed

theorem next_to_unuse_cyclic_witness:
  "find_next_to_unuse std_h 0x3f (small_area\<lparr>swap_map := [0x3f, 0, 1, 0x3f], si_max := 4\<rparr>) 2 = Some 2"
proof -
  let ?p = "small_area\<lparr>swap_map := [0x3f, 0, 1, 0x3f], si_max := 4\<rparr>"
  have u: "\<not> used_slot std_h 0x3f [0x3f, 0, 1, 0x3f] 1" "used_slot std_h 0x3f [0x3f, 0, 1, 0x3f] 2" "\<not> used_slot std_h 0x3f [0x3f, 0, 1, 0x3f] 3"
    by (simp_all add: used_slot_def swap_count_def std_h_def)
  obtain j where j: "find_next_to_unuse std_h 0x3f ?p 2 = Some j" "first_used std_h 0x3f (swap_map ?p) 2 (si_max ?p) j \<or>
    none_used std_h 0x3f (swap_map ?p) 2 (si_max ?p) \<and> (first_used std_h 0x3f (swap_map ?p) 0 3 j \<or> j = 0 \<and> none_used std_h 0x3f (swap_map ?p) 0 (si_max ?p))"
    using next_to_unuse_cyclic [where si = ?p and prev = 2 and K = std_h and bad = "0x3f"] by auto
  have "\<not> first_used std_h 0x3f (swap_map ?p) 2 (si_max ?p) j" 
  proof
    assume "first_used std_h 0x3f (swap_map ?p) 2 (si_max ?p) j"
    then have "2 < j" "j < 4" "used_slot std_h 0x3f [0x3f, 0, 1, 0x3f] j" by (simp_all add: first_used_def)
    moreover from this have "j = 3" by simp
    ultimately show False using u(3) by simp
  qed
  moreover have "\<not> none_used std_h 0x3f (swap_map ?p) 0 (si_max ?p)" using u(2) by (auto simp: none_used_def intro!: exI [of _ 2])
  moreover have "first_used std_h 0x3f (swap_map ?p) 0 3 j \<Longrightarrow> j = 2"
  proof -
    assume "first_used std_h 0x3f (swap_map ?p) 0 3 j"
    then have "0 < j" "j < 3" "used_slot std_h 0x3f [0x3f, 0, 1, 0x3f] j" by (simp_all add: first_used_def)
    moreover from this have "j = 1 \<or> j = 2" by auto
    ultimately show "j = 2" using u(1) by auto
  qed
  ultimately show ?thesis using j by auto
qed

end
