(* ===== verification/Swap_Off.thy ===== *)
theory Swap_Off
  imports Swap_Unuse
begin

unbundle bit_operations_syntax

text \<open>
  Taking a swap area out of use (\<open>swapfile.c\<close>, 1106-1343 and 1564-1699): the area leaves the list,
  every slot in use is emptied by a search of all tasks, and the map is given back; when that fails the area
  enters the list again.
\<close>

section \<open>State\<close>

text \<open>
  All tasks of the node by the number of their \<open>mm\<close>, each with its tables, its areas and its users;
  \<open>mmlist\<close> is the circular list of those that may have swap entries, from \<open>init_mm\<close> on.  \<open>lowest\<close> and
  \<open>files\<close> are \<open>least_priority\<close> and the \<open>swap_file\<close> of each type.
\<close>

record ('r, 'k) tasks =
  mm_of :: "int \<Rightarrow> mm_struct"
  mmap_of :: "int \<Rightarrow> vma_struct list"
  mm_users :: "int \<Rightarrow> int"
  mmlist :: "int list"
  vm_of :: "('r, 'k) vm"
  lowest :: int
  files :: "int \<Rightarrow> int option"

definition init_mm :: int where "init_mm = 0"

definition EINTR :: int where "EINTR = 4"

text \<open>
  What \<open>swapoff\<close> uses of the rest of the kernel beside what \<open>swapon\<close> and the search use.  Whatever sleeps lets
  other tasks run.
\<close>

record ('r, 'k) offing =
  in_search :: "('r, 'k) unusing"
  in_on :: "'k onserv"
  signal_pending :: "('r, 'k) tasks \<Rightarrow> bool"
  mmput :: "int \<Rightarrow> ('r, 'k) tasks \<Rightarrow> ('r, 'k) tasks"
  wait_page_locked :: "int \<Rightarrow> ('r, 'k) tasks \<Rightarrow> ('r, 'k) tasks"
  wait_page_writeback :: "int \<Rightarrow> ('r, 'k) tasks \<Rightarrow> ('r, 'k) tasks"
  lock_swap_page :: "int \<Rightarrow> ('r, 'k) tasks \<Rightarrow> ('r, 'k) tasks"
  shmem_unuse :: "entry \<Rightarrow> int \<Rightarrow> ('r, 'k) tasks \<Rightarrow> int \<times> ('r, 'k) tasks"
  swap_writepage :: "int \<Rightarrow> ('r, 'k) tasks \<Rightarrow> ('r, 'k) tasks"
  cond_resched :: "('r, 'k) tasks \<Rightarrow> ('r, 'k) tasks"
  vm_enough_memory :: "int \<Rightarrow> ('r, 'k) tasks \<Rightarrow> int \<times> ('r, 'k) tasks"
  vm_unacct_memory :: "int \<Rightarrow> ('r, 'k) tasks \<Rightarrow> ('r, 'k) tasks"
  set_oom_origin :: "bool \<Rightarrow> ('r, 'k) tasks \<Rightarrow> ('r, 'k) tasks"
  schedule_timeout :: "('r, 'k) tasks \<Rightarrow> ('r, 'k) tasks"
  clear_swapfile :: "int \<Rightarrow> 'k \<Rightarrow> 'k"
  frontswap_invalidate_area :: "int \<Rightarrow> 'k \<Rightarrow> 'k"

definition off_host :: "('r, 'k) offing \<Rightarrow> ('r, 'k) host" where "off_host Q = host_at (in_fault (in_search Q))"

definition swaps_of :: "('r, 'k) tasks \<Rightarrow> 'k swaps" where "swaps_of s = sw (mc (vm_of s))"

definition put_swaps :: "'k swaps \<Rightarrow> ('r, 'k) tasks \<Rightarrow> ('r, 'k) tasks" where
  "put_swaps w s = s\<lparr>vm_of := (vm_of s)\<lparr>mc := (mc (vm_of s))\<lparr>sw := w\<rparr>\<rparr>\<rparr>"

definition inc_users :: "int \<Rightarrow> ('r, 'k) tasks \<Rightarrow> ('r, 'k) tasks" where
  "inc_users m s = s\<lparr>mm_users := (mm_users s)(m := mm_users s m + 1)\<rparr>"

text \<open>An operation on the swap areas, and one on one task.\<close>

definition areas_of :: "('r, 'k) tasks \<Rightarrow> 'k areas" where
  "areas_of s = \<lparr>sws = swaps_of s, least_priority = lowest s, swap_file = files s\<rparr>"

definition put_areas :: "'k areas \<Rightarrow> ('r, 'k) tasks \<Rightarrow> ('r, 'k) tasks" where
  "put_areas a s = (put_swaps (sws a) s)\<lparr>lowest := least_priority a, files := swap_file a\<rparr>"

definition do_areas :: "('k areas \<Rightarrow> 'k areas option) \<Rightarrow> ('r, 'k) tasks \<Rightarrow> ('r, 'k) tasks option" where
  "do_areas f s = do { a \<leftarrow> f (areas_of s); Some (put_areas a s) }"

definition on_task :: "int \<Rightarrow> (('r, 'k) task \<Rightarrow> ('a \<times> ('r, 'k) task) option) \<Rightarrow> ('r, 'k) tasks \<Rightarrow> ('a \<times> ('r, 'k) tasks) option" where
  "on_task m f s = do {
     (r, t) \<leftarrow> f \<lparr>t_mm = mm_of s m, t_vm = vm_of s\<rparr>;
     Some (r, s\<lparr>mm_of := (mm_of s)(m := t_mm t), vm_of := t_vm t\<rparr>)
   }"

section \<open>One slot\<close>

definition map_byte :: "int \<Rightarrow> int \<Rightarrow> ('r, 'k) tasks \<Rightarrow> byte option" where
  "map_byte type i s = do { p \<leftarrow> si_get type (swaps_of s); arr_get (swap_map p) i }"

definition off_mm :: "('r, 'k) offing \<Rightarrow> int \<Rightarrow> entry \<Rightarrow> int \<Rightarrow> ('r, 'k) tasks \<Rightarrow> (int \<times> ('r, 'k) tasks) option" where
  "off_mm Q m entry page s = on_task m (unuse_mm (in_search Q) (mmap_of s m) entry page) s"

text \<open>The \<open>mm\<close> behind another one in the circular list.\<close>

definition next_mm :: "int \<Rightarrow> ('r, 'k) tasks \<Rightarrow> int option" where
  "next_mm m s = (case dropWhile (\<lambda>x. x \<noteq> m) (mmlist s) of
     [] \<Rightarrow> None | [_] \<Rightarrow> Some (hd (mmlist s)) | _ # n # _ \<Rightarrow> Some n)"

text \<open>
  What the walk over the list keeps: the \<open>mm\<close> it is at, the one it holds, the one the next walk will begin
  with and whether that is still to be found.
\<close>

record mm_walk =
  w_at :: int
  w_prev :: int
  w_new :: int
  w_set :: bool

definition visit_mm ::
  "('r, 'k) offing \<Rightarrow> int \<Rightarrow> int \<Rightarrow> entry \<Rightarrow> int \<Rightarrow> mm_walk \<Rightarrow> ('r, 'k) tasks \<Rightarrow> ((int \<times> mm_walk) \<times> ('r, 'k) tasks) option" where
  "visit_mm Q type i entry page w s =
     (let m = w_at w; K = hdr (off_host Q) in
      if mm_users s m = 0 then Some ((0, w), s)
      else do {
        let s = cond_resched Q (mmput Q (w_prev w) (inc_users m s));
        let w = w\<lparr>w_prev := m\<rparr>;
        swcount \<leftarrow> map_byte type i s;
        (retval, w, s) \<leftarrow> (if swap_count K swcount = 0 then Some (0, w, s)
           else if m = init_mm then Some (0, w\<lparr>w_set := True\<rparr>, s)
           else do { (r, s) \<leftarrow> off_mm Q m entry page s; Some (r, w, s) });
        now \<leftarrow> map_byte type i s;
        Some (if w_set w \<and> now < swcount then ((retval, w\<lparr>w_new := m, w_set := False\<rparr>), inc_users m (mmput Q (w_new w) s))
              else ((retval, w), s))
      })"

text \<open>Round the list until nothing names the slot, there is an error, or the walk is back at its start.\<close>

partial_function (option) walk_mms ::
  "('r, 'k) offing \<Rightarrow> int \<Rightarrow> int \<Rightarrow> entry \<Rightarrow> int \<Rightarrow> int \<Rightarrow> int \<Rightarrow> mm_walk \<Rightarrow> ('r, 'k) tasks \<Rightarrow> ((int \<times> mm_walk) \<times> ('r, 'k) tasks) option" where
  "walk_mms Q type i entry page start retval w s = do {
     count \<leftarrow> map_byte type i s;
     if swap_count (hdr (off_host Q)) count = 0 \<or> retval \<noteq> 0 then Some ((retval, w), s)
     else do {
       p \<leftarrow> next_mm (w_at w) s;
       if p = start then Some ((retval, w\<lparr>w_at := p\<rparr>), s)
       else do {
         ((retval, w), s) \<leftarrow> visit_mm Q type i entry page (w\<lparr>w_at := p\<rparr>) s;
         walk_mms Q type i entry page start retval w s
       }
     }
   }"

definition unuse_others ::
  "('r, 'k) offing \<Rightarrow> int \<Rightarrow> int \<Rightarrow> entry \<Rightarrow> int \<Rightarrow> byte \<Rightarrow> int \<Rightarrow> int \<Rightarrow> ('r, 'k) tasks \<Rightarrow> (int \<times> int \<times> ('r, 'k) tasks) option" where
  "unuse_others Q type i entry page swcount start retval s = do {
     now \<leftarrow> map_byte type i s;
     let w = \<lparr>w_at = start, w_prev = start, w_new = start, w_set = (swcount \<le> now)\<rparr>;
     ((retval, w), s) \<leftarrow> walk_mms Q type i entry page start retval w (inc_users start (inc_users start s));
     Some (retval, w_new w, mmput Q start (mmput Q (w_prev w) s))
   }"

text \<open>The page is dirty afterwards: the entries that were replaced are not, and the slot is going away.\<close>

definition drop_slot :: "('r, 'k) offing \<Rightarrow> int \<Rightarrow> int \<Rightarrow> entry \<Rightarrow> int \<Rightarrow> ('r, 'k) tasks \<Rightarrow> ('r, 'k) tasks option" where
  "drop_slot Q type i entry page s = do {
     let K = hdr (off_host Q);
     let mark = (\<lambda>s. frames (swaps_of s) page);
     count \<leftarrow> map_byte type i s;
     let s = (if swap_count K count \<noteq> 0 \<and> PageDirty (mark s) \<and> PageSwapCache (mark s)
              then wait_page_writeback Q page (lock_swap_page Q page (swap_writepage Q page s)) else s);
     w \<leftarrow> (if PageSwapCache (mark s) \<and> page_private (mark s) = entry then delete_from_swap_cache K (ksv (off_host Q)) page (swaps_of s)
           else Some (swaps_of s));
     Some (cond_resched Q (put_swaps (page_cache_release page (unlock_page page (SetPageDirty page w))) s))
   }"

text \<open>One round: whether the loop ends, the result so far, and the \<open>mm\<close> to begin with.\<close>

definition unuse_page ::
  "('r, 'k) offing \<Rightarrow> int \<Rightarrow> int \<Rightarrow> entry \<Rightarrow> int \<Rightarrow> int \<Rightarrow> int \<Rightarrow> ('r, 'k) tasks \<Rightarrow> (bool \<times> int \<times> int \<times> ('r, 'k) tasks) option" where
  "unuse_page Q type i entry page start retval s = do {
     let K = hdr (off_host Q);
     swcount \<leftarrow> map_byte type i s;
     if swap_count K swcount = SWAP_MAP_SHMEM K then
       (case shmem_unuse Q entry page s of (r, s) \<Rightarrow> Some (r < 0, r, start, s))
     else do {
       (retval, s) \<leftarrow> (if swap_count K swcount \<noteq> 0 \<and> start \<noteq> init_mm then off_mm Q start entry page s else Some (retval, s));
       c \<leftarrow> map_byte type i s;
       (retval, start, s) \<leftarrow> (if swap_count K c \<noteq> 0 then unuse_others Q type i entry page swcount start retval s
          else Some (retval, start, s));
       if retval \<noteq> 0 then Some (True, retval, start, put_swaps (page_cache_release page (unlock_page page (swaps_of s))) s)
       else do { s \<leftarrow> drop_slot Q type i entry page s; Some (False, 0, start, s) }
     }
   }"

definition unuse_slot ::
  "('r, 'k) offing \<Rightarrow> int \<Rightarrow> int \<Rightarrow> int \<Rightarrow> int \<Rightarrow> ('r, 'k) tasks \<Rightarrow> (bool \<times> int \<times> int \<times> ('r, 'k) tasks) option" where
  "unuse_slot Q type i start retval s = do {
     let entry = swp_entry (hdr (off_host Q)) (word_of_int type) (word_of_int i);
     (page, m) \<leftarrow> read_swap_cache_async (off_host Q) entry (mc (vm_of s));
     let s = s\<lparr>vm_of := (vm_of s)\<lparr>mc := m\<rparr>\<rparr>;
     case page of
       None \<Rightarrow> do { c \<leftarrow> map_byte type i s; Some (if c = 0 then (False, retval, start, s) else (True, - ENOMEM, start, s)) }
     | Some page \<Rightarrow> do {
         let (start, s) = (if mm_users s start = 1 then (init_mm, inc_users init_mm (mmput Q start s)) else (start, s));
         unuse_page Q type i entry page start retval
           (wait_page_writeback Q page (lock_swap_page Q page (wait_page_writeback Q page (wait_page_locked Q page s))))
       }
   }"

section \<open>All slots\<close>

partial_function (option) unuse_slots ::
  "('r, 'k) offing \<Rightarrow> int \<Rightarrow> int \<Rightarrow> int \<Rightarrow> int \<Rightarrow> ('r, 'k) tasks \<Rightarrow> (int \<times> int \<times> ('r, 'k) tasks) option" where
  "unuse_slots Q type i start retval s = do {
     si \<leftarrow> si_get type (swaps_of s);
     i \<leftarrow> find_next_to_unuse (hdr (off_host Q)) (SWAP_MAP_BAD (in_on Q)) si i;
     if i = 0 then Some (retval, start, s)
     else if signal_pending Q s then Some (- EINTR, start, s)
     else do {
       (stop, retval, start, s) \<leftarrow> unuse_slot Q type i start retval s;
       if stop then Some (retval, start, s) else unuse_slots Q type i start retval s
     }
   }"

definition try_to_unuse :: "('r, 'k) offing \<Rightarrow> int \<Rightarrow> ('r, 'k) tasks \<Rightarrow> (int \<times> ('r, 'k) tasks) option" where
  "try_to_unuse Q type s = do {
     (retval, start, s) \<leftarrow> unuse_slots Q type 0 init_mm 0 (inc_users init_mm s);
     Some (retval, mmput Q start s)
   }"

text \<open>No area has a slot in use: no task needs to be on the list.\<close>

definition drain_mmlist :: "('r, 'k) tasks \<Rightarrow> ('r, 'k) tasks option" where
  "drain_mmlist s = (let w = swaps_of s; infos = map (\<lambda>type. si_get (int type) w) [0..<nat (nr_swapfiles w)] in
     if None \<in> set infos then None
     else Some (if \<exists>p\<in>set infos. inuse_pages (the p) \<noteq> 0 then s else s\<lparr>mmlist := [init_mm]\<rparr>))"

section \<open>\<open>swapoff\<close>\<close>

text \<open>The writable area of a file, and the one before it in the list (-1 for none); a type below 0 when there is none.\<close>

partial_function (option) find_area :: "swap_h \<Rightarrow> int \<Rightarrow> int \<Rightarrow> int \<Rightarrow> 'k areas \<Rightarrow> (int \<times> int) option" where
  "find_area K mapping prev type a =
     (if type < 0 then Some (prev, type)
      else do {
        p \<leftarrow> si_get type (sws a);
        if si_flags p AND SWP_WRITEOK K \<noteq> 0 \<and> swap_file a type = Some mapping then Some (prev, type)
        else find_area K mapping type (si_next p) a
      })"

text \<open>
  The areas behind one of those that got their priority in turn move up by one.  The result is the
  priority that is left for the area itself.
\<close>

partial_function (option) move_up :: "int \<Rightarrow> int \<Rightarrow> 'k swaps \<Rightarrow> (int \<times> 'k swaps) option" where
  "move_up pr i s =
     (if i < 0 then Some (pr, s)
      else do { q \<leftarrow> si_get i s; move_up (pr - 1) (si_next q) (si_put i (q\<lparr>prio := pr\<rparr>) s) })"

definition unlink_area :: "int \<Rightarrow> int \<Rightarrow> 'k swaps \<Rightarrow> 'k swaps option" where
  "unlink_area prev type s = do {
     p \<leftarrow> si_get type s;
     s \<leftarrow> (if prev < 0 then Some (s\<lparr>swap_list_head := si_next p\<rparr>)
           else do { q \<leftarrow> si_get prev s; Some (si_put prev (q\<lparr>si_next := si_next p\<rparr>) s) });
     Some (if type = swap_list_next s then s\<lparr>swap_list_next := swap_list_head s\<rparr> else s)
   }"

definition delist_area :: "swap_h \<Rightarrow> int \<Rightarrow> int \<Rightarrow> 'k areas \<Rightarrow> 'k areas option" where
  "delist_area K prev type a = do {
     s \<leftarrow> unlink_area prev type (sws a);
     s \<leftarrow> spin_lock_si type s;
     p \<leftarrow> si_get type s;
     (pr, s) \<leftarrow> (if prio p < 0 then move_up (prio p) (si_next p) s else Some (prio p, s));
     let s = s\<lparr>nr_swap_pages := nr_swap_pages s - si_pages p, total_swap_pages := total_swap_pages s - si_pages p\<rparr>;
     let s = si_put type (p\<lparr>prio := pr, si_flags := si_flags p AND NOT (SWP_WRITEOK K)\<rparr>) s;
     s \<leftarrow> spin_unlock_si type s;
     Some (a\<lparr>sws := s, least_priority := if prio p < 0 then least_priority a + 1 else least_priority a\<rparr>)
   }"

text \<open>Both locks are given up while somebody still scans the map.\<close>

definition lock_both :: "int \<Rightarrow> ('r, 'k) tasks \<Rightarrow> ('r, 'k) tasks option" where
  "lock_both type s = do { w \<leftarrow> spin_lock_swap (swaps_of s); w \<leftarrow> spin_lock_si type w; Some (put_swaps w s) }"

definition unlock_both :: "int \<Rightarrow> ('r, 'k) tasks \<Rightarrow> ('r, 'k) tasks option" where
  "unlock_both type s = do { w \<leftarrow> spin_unlock_si type (swaps_of s); Some (put_swaps (w\<lparr>swap_lock := False\<rparr>) s) }"

partial_function (option) wait_scanners :: "('r, 'k) offing \<Rightarrow> int \<Rightarrow> ('r, 'k) tasks \<Rightarrow> ('r, 'k) tasks option" where
  "wait_scanners Q type s = do {
     p \<leftarrow> si_get type (swaps_of s);
     if si_flags p < SWP_SCANNING (hdr (off_host Q)) then Some s
     else do {
       s \<leftarrow> unlock_both type s;
       s \<leftarrow> lock_both type (schedule_timeout Q s);
       wait_scanners Q type s
     }
   }"

definition put_area :: "int \<Rightarrow> swap_info_struct \<times> 'k \<Rightarrow> ('r, 'k) tasks \<Rightarrow> ('r, 'k) tasks" where
  "put_area type pk s = put_swaps ((si_put type (fst pk) (swaps_of s))\<lparr>kern := snd pk\<rparr>) s"

definition t_kern :: "('k \<Rightarrow> 'k) \<Rightarrow> ('r, 'k) tasks \<Rightarrow> ('r, 'k) tasks" where
  "t_kern f s = put_swaps (kern_do f (swaps_of s)) s"

text \<open>From an area whose slots are all free on.\<close>

definition close_area :: "('r, 'k) offing \<Rightarrow> int \<Rightarrow> swap_inode \<Rightarrow> ('r, 'k) tasks \<Rightarrow> ('r, 'k) tasks option" where
  "close_area Q type inode s = do {
     let K = hdr (off_host Q);
     let X = ksv (off_host Q);
     let E = in_on Q;
     p \<leftarrow> si_get type (swaps_of s);
     let (p, k) = destroy_swap_extents K X p (kern (swaps_of s));
     pk \<leftarrow> (if si_flags p AND SWP_CONTINUED K \<noteq> 0 then free_swap_count_continuations X p k else Some (p, k));
     s \<leftarrow> lock_both type (put_area type pk s);
     s \<leftarrow> drain_mmlist s;
     p \<leftarrow> si_get type (swaps_of s);
     s \<leftarrow> wait_scanners Q type (put_area type (p\<lparr>highest_bit := 0\<rparr>, kern (swaps_of s)) s);
     p \<leftarrow> si_get type (swaps_of s);
     let s = put_area type (p\<lparr>si_max := 0, swap_map := [], map_pages := [], si_flags := 0\<rparr>, kern (swaps_of s)) (s\<lparr>files := (files s)(type := None)\<rparr>);
     s \<leftarrow> unlock_both type s;
     let s = t_kern (swap_cgroup_swapoff E type) (t_kern (frontswap_invalidate_area Q type) s);
     let s = (if is_blk inode then t_kern (\<lambda>k. blkdev_put E type (snd (set_blocksize E type k))) s
              else t_kern (clear_swapfile Q (f_mapping inode)) s);
     Some (t_kern (filp_close E) s)
   }"

text \<open>
  From the open file on: nothing has changed when there is no area for it or not enough memory without it.
\<close>

definition swapoff_file :: "('r, 'k) offing \<Rightarrow> swap_inode \<Rightarrow> ('r, 'k) tasks \<Rightarrow> (int \<times> ('r, 'k) tasks) option" where
  "swapoff_file Q inode s = do {
     let K = hdr (off_host Q);
     w \<leftarrow> spin_lock_swap (swaps_of s);
     let s = put_swaps w s;
     (prev, type) \<leftarrow> find_area K (f_mapping inode) (-1) (swap_list_head w) (areas_of s);
     if type < 0 then Some (- EINVAL, put_swaps ((swaps_of s)\<lparr>swap_lock := False\<rparr>) s)
     else do {
       p \<leftarrow> si_get type (swaps_of s);
       let (short, s) = vm_enough_memory Q (si_pages p) s;
       if short \<noteq> 0 then Some (- ENOMEM, put_swaps ((swaps_of s)\<lparr>swap_lock := False\<rparr>) s)
       else do {
         s \<leftarrow> do_areas (delist_area K prev type) (vm_unacct_memory Q (si_pages p) s);
         (err, s) \<leftarrow> try_to_unuse Q type (set_oom_origin Q True (put_swaps ((swaps_of s)\<lparr>swap_lock := False\<rparr>) s));
         let s = set_oom_origin Q False s;
         if err \<noteq> 0 then do { s \<leftarrow> do_areas (reinsert_swap_info K type) s; Some (err, s) }
         else do { s \<leftarrow> close_area Q type inode s; Some (0, s) }
       }
     }
   }"

definition s_call :: "('k \<Rightarrow> 'a \<times> 'k) \<Rightarrow> ('r, 'k) tasks \<Rightarrow> 'a \<times> ('r, 'k) tasks" where
  "s_call f s = (case f (kern (swaps_of s)) of (r, k) \<Rightarrow> (r, t_kern (\<lambda>_. k) s))"

definition swapoff :: "('r, 'k) offing \<Rightarrow> ('r, 'k) tasks \<Rightarrow> (int \<times> ('r, 'k) tasks) option" where
  "swapoff Q s =
     (if \<not> capable (in_on Q) (kern (swaps_of s)) then Some (- EPERM, s)
      else (case s_call (getname (in_on Q)) s of (error, s) \<Rightarrow>
        if error < 0 then Some (error, s)
        else (case s_call (file_open_name (in_on Q)) s of
            (Inl error, s) \<Rightarrow> Some (error, s)
          | (Inr inode, s) \<Rightarrow> do { (err, s) \<leftarrow> swapoff_file Q inode s; Some (err, t_kern (filp_close (in_on Q)) s) })))"

section \<open>Success means empty\<close>

lemma next_used_zero:
  assumes "next_used K bad m limit prev i = Some j" and "0 \<le> prev" and "0 \<le> i"
  shows "0 \<le> j \<and> (j = 0 \<longrightarrow> none_used K bad m i limit \<and> (prev \<noteq> 0 \<longrightarrow> none_used K bad m 0 (prev + 1)))"
proof -
  let ?P = "\<lambda>K bad m limit prev i j. 0 \<le> prev \<longrightarrow> 0 \<le> i \<longrightarrow> 0 \<le> j \<and> (j = 0 \<longrightarrow> none_used K bad m i limit \<and> (prev \<noteq> 0 \<longrightarrow> none_used K bad m 0 (prev + 1)))"
  have "?P K bad m limit prev i j"
  proof (rule next_used.raw_induct [where P = ?P, OF _ assms(1)], intro impI)
    fix go K and bad :: byte and m limit prev i j
    assume ih: "\<And>K bad m limit prev i j. go K bad m limit prev i = Some j \<Longrightarrow> ?P K bad m limit prev i j"
      and st: "(let i = i + 1 in if limit \<le> i \<and> prev = 0 then Some 0
        else (case if limit \<le> i then (prev + 1, 0, 1) else (limit, prev, i) of (limit, prev, i) \<Rightarrow>
          Option.bind (arr_get m i) (\<lambda>count. if count \<noteq> 0 \<and> swap_count K count \<noteq> bad then Some i else go K bad m limit prev i))) = Some j"
      and pos: "0 \<le> prev" "0 \<le> i"
    consider "limit \<le> i + 1" "prev = 0" | "limit \<le> i + 1" "prev \<noteq> 0" | "i + 1 < limit" by linarith
    then show "0 \<le> j \<and> (j = 0 \<longrightarrow> none_used K bad m i limit \<and> (prev \<noteq> 0 \<longrightarrow> none_used K bad m 0 (prev + 1)))"
    proof cases
      case 1
      then show ?thesis using st by (auto simp: none_used_def)
    next
      case 2
      then obtain c where c: "arr_get m 1 = Some c" "(if c \<noteq> 0 \<and> swap_count K c \<noteq> bad then Some 1 else go K bad m (prev + 1) 0 1) = Some j"
        using st by (auto simp: Let_def bind_eq_Some_conv)
      show ?thesis
      proof (cases "c \<noteq> 0 \<and> swap_count K c \<noteq> bad")
        case True
        then show ?thesis using c(2) by simp
      next
        case False
        then have "?P K bad m (prev + 1) 0 1 j" using c(2) ih by (metis (full_types))
        moreover have "\<not> used_slot K bad m 1" using False c(1) by (auto simp: used_slot_def arr_get_def split: if_splits)
        moreover have "none_used K bad m i limit" using 2(1) by (simp add: none_used_def)
        ultimately show ?thesis using pos used_step(3) [of K bad m 0 "prev + 1"] by auto
      qed
    next
      case 3
      then obtain c where c: "arr_get m (i + 1) = Some c" "(if c \<noteq> 0 \<and> swap_count K c \<noteq> bad then Some (i + 1) else go K bad m limit prev (i + 1)) = Some j"
        using st by (auto simp: Let_def bind_eq_Some_conv)
      show ?thesis
      proof (cases "c \<noteq> 0 \<and> swap_count K c \<noteq> bad")
        case True
        then show ?thesis using c(2) pos by auto
      next
        case False
        then have "?P K bad m limit prev (i + 1) j" using c(2) ih by (metis (full_types))
        moreover have "\<not> used_slot K bad m (i + 1)" using False c(1) by (auto simp: used_slot_def arr_get_def split: if_splits)
        ultimately show ?thesis using pos used_step(3) [of K bad m i] by auto
      qed
    qed
  qed
  then show ?thesis using assms by blast
qed

lemma find_next_zero:
  assumes "find_next_to_unuse K bad si prev = Some j" and "0 \<le> prev"
  shows "0 \<le> j" and "j = 0 \<Longrightarrow> none_used K bad (swap_map si) 0 (si_max si)"
proof -
  note z = next_used_zero [OF assms(1) [unfolded find_next_to_unuse_def] assms(2,2)]
  then show "0 \<le> j" by simp
  assume "j = 0"
  then have "none_used K bad (swap_map si) prev (si_max si)" "prev \<noteq> 0 \<Longrightarrow> none_used K bad (swap_map si) 0 (prev + 1)" using z by auto
  then show "none_used K bad (swap_map si) 0 (si_max si)"
    unfolding none_used_def by (cases "prev = 0") (simp, metis linorder_not_le zle_add1_eq_le)
qed

lemma unuse_page_result:
  assumes "unuse_page Q type i e page start 0 s = Some (stop, r, start', s')" and "\<And>e pg x. fst (shmem_unuse Q e pg x) \<le> 0"
  shows "stop \<longleftrightarrow> r \<noteq> 0"
proof -
  obtain c where c: "map_byte type i s = Some c" using assms(1) by (auto simp: unuse_page_def Let_def bind_eq_Some_conv)
  show ?thesis
  proof (cases "swap_count (hdr (off_host Q)) c = SWAP_MAP_SHMEM (hdr (off_host Q))")
    case True
    then show ?thesis using assms(1) assms(2) [of e page s] c by (auto simp: unuse_page_def Let_def split: prod.splits)
  next
    case False
    then show ?thesis using assms(1) c by (auto simp: unuse_page_def Let_def bind_eq_Some_conv split: if_splits)
  qed
qed

lemma unuse_slot_result:
  assumes "unuse_slot Q type i start 0 s = Some (stop, r, start', s')" and "\<And>e pg x. fst (shmem_unuse Q e pg x) \<le> 0"
  shows "stop \<longleftrightarrow> r \<noteq> 0"
  using assms(1)
  by (auto simp: unuse_slot_def Let_def ENOMEM_def bind_eq_Some_conv split: option.splits if_splits dest!: unuse_page_result [OF _ assms(2)])

text \<open>The loop over the slots ends without an error only when none is left.\<close>

lemma unuse_slots_empty:
  fixes Q :: "('r, 'k) offing"
  assumes "unuse_slots Q type i start 0 s = Some (0, start', t)" and "0 \<le> i"
    and "\<And>e pg x. fst (shmem_unuse Q e pg x) \<le> 0"
  shows "\<exists>p. si_get type (swaps_of t) = Some p \<and> none_used (hdr (off_host Q)) (SWAP_MAP_BAD (in_on Q)) (swap_map p) 0 (si_max p)"
proof -
  let ?P = "\<lambda>(Q :: ('r, 'k) offing) type (i :: int) (start :: int) (retval :: int) s (res :: int \<times> int \<times> ('r, 'k) tasks). retval = 0 \<longrightarrow> 0 \<le> i \<longrightarrow> (\<forall>e pg x. fst (shmem_unuse Q e pg x) \<le> 0) \<longrightarrow> fst res = (0 :: int) \<longrightarrow>
    (\<exists>p. si_get type (swaps_of (snd (snd res))) = Some p \<and> none_used (hdr (off_host Q)) (SWAP_MAP_BAD (in_on Q)) (swap_map p) 0 (si_max p))"
  have "?P Q type i start 0 s (0, start', t)"
  proof (rule unuse_slots.raw_induct [where P = ?P, OF _ assms(1)])
    fix go Q type i start retval and s :: "('r, 'k) tasks" and res
    assume ih: "\<And>Q type i start retval s res. go Q type i start retval s = Some res \<Longrightarrow> ?P Q type i start retval s res"
      and st: "Option.bind (si_get type (swaps_of s)) (\<lambda>si. Option.bind (find_next_to_unuse (hdr (off_host Q)) (SWAP_MAP_BAD (in_on Q)) si i)
        (\<lambda>i. if i = 0 then Some (retval, start, s) else if signal_pending Q s then Some (- EINTR, start, s)
          else Option.bind (unuse_slot Q type i start retval s) (\<lambda>(stop, retval, start, s).
            if stop then Some (retval, start, s) else go Q type i start retval s))) = Some res"
    obtain r start' t where res: "res = (r, start', t)" by (cases res)
    show "?P Q type i start retval s res"
      unfolding res fst_conv snd_conv
    proof (intro impI)
      assume h: "retval = 0" "0 \<le> i" "\<forall>e pg x. fst (shmem_unuse Q e pg x) \<le> 0" "r = 0"
      obtain si j where j: "si_get type (swaps_of s) = Some si" "find_next_to_unuse (hdr (off_host Q)) (SWAP_MAP_BAD (in_on Q)) si i = Some j"
        using st by (auto simp: bind_eq_Some_conv)
      note z = find_next_zero [OF j(2) h(2)]
      show "\<exists>p. si_get type (swaps_of t) = Some p \<and> none_used (hdr (off_host Q)) (SWAP_MAP_BAD (in_on Q)) (swap_map p) 0 (si_max p)"
      proof (cases "j = 0")
        case True
        then show ?thesis using st j z(2) by (auto simp: res)
      next
        case False
        then obtain stop r1 start1 s1 where u: "\<not> signal_pending Q s" "unuse_slot Q type j start 0 s = Some (stop, r1, start1, s1)"
          "(if stop then Some (r1, start1, s1) else go Q type j start1 r1 s1) = Some res"
          using st j h(1,4) by (auto simp: bind_eq_Some_conv res EINTR_def split: if_splits)
        have "stop \<longleftrightarrow> r1 \<noteq> 0" by (rule unuse_slot_result [OF u(2)]) (use h(3) in simp)
        then have "\<not> stop" "r1 = 0" using u(3) h(4) by (auto simp: res split: if_splits)
        then have "?P Q type j start1 0 s1 (r, start', t)" using ih [of Q type j start1 0 s1] u(3) by (simp add: res)
        then show ?thesis using z(1) h by simp
      qed
    qed
  qed
  then show ?thesis using assms(2,3) by simp
qed

text \<open>
  \<open>try_to_unuse\<close> answers 0 only with the area empty: whatever the tasks did while it waited, the map that the last
  search of the map saw, just before the last task is let go, names no slot in use.
\<close>

theorem try_to_unuse_empties:
  fixes Q :: "('r, 'k) offing"
  assumes "try_to_unuse Q type s = Some (0, t)" and "\<And>e pg x. fst (shmem_unuse Q e pg x) \<le> 0"
  shows "\<exists>m u p. t = mmput Q m u \<and> si_get type (swaps_of u) = Some p \<and>
    none_used (hdr (off_host Q)) (SWAP_MAP_BAD (in_on Q)) (swap_map p) 0 (si_max p)"
proof -
  obtain m u where m: "unuse_slots Q type 0 init_mm 0 (inc_users init_mm s) = Some (0, m, u)" "t = mmput Q m u"
    using assms(1) by (auto simp: try_to_unuse_def bind_eq_Some_conv)
  then show ?thesis using unuse_slots_empty [OF m(1) order_refl assms(2)] by blast
qed

end
