(* ===== verification/Swap_Delist.thy ===== *)
theory Swap_Delist
  imports Swap_Off
begin

unbundle bit_operations_syntax

text \<open>
  An area leaves the list of areas and, when it cannot be emptied, enters it again (\<open>swapfile.c\<close>, 1555-1626):
  the list stays sorted and the priorities that are given in turn stay without gaps.
\<close>

section \<open>Out of the list and back\<close>

text \<open>
  The areas that got their priority in turn have -1, -2 and so on in the order of the list, and
  \<open>least_priority\<close> is the last of these numbers.
\<close>

definition in_turn :: "'k areas \<Rightarrow> int list \<Rightarrow> bool" where
  "in_turn a xs \<longleftrightarrow> (\<exists>n. map (prio_at (sws a)) (filter (\<lambda>x. prio_at (sws a) x < 0) xs) = map (\<lambda>k. - 1 - int k) [0..<n] \<and>
     least_priority a = - int n)"

lemma linked_pos: "Swap_On.linked s i xs \<Longrightarrow> x \<in> set xs \<Longrightarrow> 0 \<le> x"
  using Swap_On.linked_valid [of s i xs x] by (auto simp: si_get_Some)

lemma linked_change:
  fixes s t :: "'k swaps"
  assumes "Swap_On.linked s i xs" and "\<And>x. x \<in> set xs \<Longrightarrow> si_get x t = si_get x s"
  shows "Swap_On.linked t i xs"
  by (rule Swap_On.linked_cong [OF assms(1)]) (simp add: link_same_def assms(2))

lemma move_up_correct:
  assumes "Swap_On.linked s i xs" and "distinct xs"
  shows "\<exists>t. move_up pr i s = Some (pr - int (length xs), t) \<and> Swap_On.linked t i xs \<and> map (prio_at t) xs = map (\<lambda>k. pr - int k) [0..<length xs] \<and>
    (\<forall>x. x \<notin> set xs \<longrightarrow> 0 \<le> x \<longrightarrow> si_get x t = si_get x s) \<and> t = s\<lparr>swap_info := swap_info t\<rparr> \<and>
    (\<forall>x p. si_get x s = Some p \<longrightarrow> (\<exists>k. si_get x t = Some (p\<lparr>prio := k\<rparr>)))"
  using assms
proof (induction xs arbitrary: i s pr)
  case Nil
  have "p\<lparr>prio := prio p\<rparr> = p" for p :: swap_info_struct by simp
  then have "\<exists>k. p = p\<lparr>prio := k\<rparr>" for p :: swap_info_struct by metis
  then show ?case using Nil by (intro exI [of _ s]) (subst move_up.simps, simp)
next
  case (Cons x xs)
  then obtain p where p: "i = x" "si_get x s = Some p" "si_type p = x" "Swap_On.linked s (si_next p) xs" "0 \<le> x" by (auto simp: si_get_Some)
  let ?u = "si_put x (p\<lparr>prio := pr\<rparr>) s"
  have o: "si_get y ?u = si_get y s" if "y \<noteq> x" "0 \<le> y" for y using p(2) that by simp
  have "Swap_On.linked ?u (si_next p) xs"
  proof (rule linked_change [OF p(4)])
    show "si_get y ?u = si_get y s" if "y \<in> set xs" for y
      using o [of y] Cons.prems(2) linked_pos [OF p(4) that] that by auto
  qed
  then obtain t where t: "move_up (pr - 1) (si_next p) ?u = Some (pr - 1 - int (length xs), t)" "Swap_On.linked t (si_next p) xs"
    "map (prio_at t) xs = map (\<lambda>k. pr - 1 - int k) [0..<length xs]" "\<And>y. y \<notin> set xs \<Longrightarrow> 0 \<le> y \<Longrightarrow> si_get y t = si_get y ?u"
    "t = ?u\<lparr>swap_info := swap_info t\<rparr>" "\<And>y q. si_get y ?u = Some q \<Longrightarrow> \<exists>k. si_get y t = Some (q\<lparr>prio := k\<rparr>)"
    using Cons.IH [of ?u "si_next p" "pr - 1"] Cons.prems(2) by auto
  have g: "si_get x t = Some (p\<lparr>prio := pr\<rparr>)" using t(4) [of x] Cons.prems(2) p(2,5) by simp
  have "move_up pr i s = Some (pr - int (length (x # xs)), t)"
    using t(1) p by (subst move_up.simps) (simp add: algebra_simps)
  moreover have "Swap_On.linked t i (x # xs)" using g p t(2) by simp
  moreover have "map (prio_at t) (x # xs) = map (\<lambda>k. pr - int k) [0..<length (x # xs)]"
  proof -
    have "[0..<length (x # xs)] = 0 # map Suc [0..<length xs]" by (simp add: upt_conv_Cons map_Suc_upt del: upt_Suc)
    moreover have "pr - 1 - int k = pr - int (Suc k)" for k by simp
    ultimately show ?thesis using g t(3) by (simp add: prio_at_def comp_def)
  qed
  moreover have "si_get y t = si_get y s" if "y \<notin> set (x # xs)" "0 \<le> y" for y using t(4) o that by simp
  moreover have "t = s\<lparr>swap_info := swap_info t\<rparr>" using t(5) by (simp add: si_put_def)
  moreover have "\<exists>k. si_get y t = Some (q\<lparr>prio := k\<rparr>)" if "si_get y s = Some q" for y q
  proof (cases "y = x")
    case True
    then show ?thesis using g p(2) that by auto
  next
    case False
    then show ?thesis using t(6) o that by (metis si_get_Some)
  qed
  ultimately show ?case by blast
qed

lemma linked_unlink:
  fixes s t :: "'k swaps"
  assumes "Swap_On.linked s i (ys @ type # zs)" and "distinct (ys @ type # zs)" and "si_get type s = Some p"
    and "ys \<noteq> [] \<Longrightarrow> si_get (last ys) s = Some q"
    and "\<And>x. x \<in> set (ys @ zs) \<Longrightarrow> si_get x t = (if ys \<noteq> [] \<and> x = last ys then Some (q\<lparr>si_next := si_next p\<rparr>) else si_get x s)"
  shows "Swap_On.linked t (if ys = [] then si_next p else i) (ys @ zs)"
  using assms
proof (induction ys arbitrary: i)
  case Nil
  then show ?case using linked_change [where s = s and i = "si_next p" and xs = zs and t = t] by simp
next
  case (Cons y ys)
  obtain r where r: "i = y" "si_get y s = Some r" "si_type r = y" "Swap_On.linked s (si_next r) (ys @ type # zs)" using Cons.prems(1) by auto
  show ?case
  proof (cases "ys = []")
    case True
    have g: "si_get y t = Some (q\<lparr>si_next := si_next p\<rparr>)" "q = r" using Cons.prems(4) Cons.prems(5) [of y] r(2) True by auto
    have "Swap_On.linked s (si_next p) zs" using r(4) True Cons.prems(3) by auto
    then have "Swap_On.linked t (si_next p) zs" by (rule linked_change) (use Cons.prems(2,5) True in auto)
    then show ?thesis using g r True by simp
  next
    case False
    have "y \<noteq> last ys" using Cons.prems(2) False by auto
    then have g: "si_get y t = Some r" using Cons.prems(5) [of y] r(2) False by simp
    have "Swap_On.linked t (if ys = [] then si_next p else si_next r) (ys @ zs)"
      by (rule Cons.IH [OF r(4) _ Cons.prems(3)]) (use Cons.prems(2,4,5) False in auto)
    then show ?thesis using g r False by simp
  qed
qed

lemma turns:
  assumes "ms @ p # ks = map (\<lambda>k. - 1 - int k) [0..<n]"
  shows "n = Suc (length ms + length ks)" and "p = - 1 - int (length ms)"
    and "ms @ map (\<lambda>k. p - int k) [0..<length ks] = map (\<lambda>k. - 1 - int k) [0..<length ms + length ks]"
proof -
  show n: "n = Suc (length ms + length ks)" using arg_cong [OF assms, of length] by simp
  have at: "(ms @ p # ks) ! k = - 1 - int k" if "k < n" for k using that by (simp add: assms)
  show p: "p = - 1 - int (length ms)" using at [of "length ms"] n by simp
  show "ms @ map (\<lambda>k. p - int k) [0..<length ks] = map (\<lambda>k. - 1 - int k) [0..<length ms + length ks]"
  proof (rule nth_equalityI)
    fix i assume i: "i < length (ms @ map (\<lambda>k. p - int k) [0..<length ks])"
    show "(ms @ map (\<lambda>k. p - int k) [0..<length ks]) ! i = map (\<lambda>k. - 1 - int k) [0..<length ms + length ks] ! i"
    proof (cases "i < length ms")
      case True
      then show ?thesis using at [of i] n by (simp add: nth_append)
    next
      case False
      then show ?thesis using i p by (simp add: nth_append)
    qed
  qed simp
qed

lemma sorted_down: "map f xs = map (\<lambda>k. pr - int k) [0..<length xs] \<Longrightarrow> sorted_wrt (\<lambda>x y. f y \<le> (f x :: int)) xs"
proof -
  assume "map f xs = map (\<lambda>k. pr - int k) [0..<length xs]"
  moreover have "sorted_wrt (\<lambda>u v. v \<le> u) (map (\<lambda>k. pr - int k) [0..<length xs])"
    unfolding sorted_wrt_map by (rule sorted_wrt_mono_rel [OF _ sorted_wrt_upt]) simp
  ultimately have "sorted_wrt (\<lambda>u v. v \<le> u) (map f xs)" by simp
  then show ?thesis by (simp add: sorted_wrt_map)
qed

text \<open>What the list keeps of its areas: all but links, priorities, flags and locks.\<close>

definition same_maps :: "'k swaps \<Rightarrow> 'k swaps \<Rightarrow> bool" where
  "same_maps s t \<longleftrightarrow> (\<forall>x p. si_get x s = Some p \<longrightarrow> (\<exists>q. si_get x t = Some q \<and> swap_map q = swap_map p \<and> map_pages q = map_pages p \<and>
     si_max q = si_max p \<and> si_pages q = si_pages p \<and> inuse_pages q = inuse_pages p))"

lemma same_maps_at:
  assumes "same_maps s t" and "si_get x s = Some p" and "si_get x t = Some q"
  shows "swap_map q = swap_map p" "map_pages q = map_pages p" "si_max q = si_max p" "si_pages q = si_pages p" "inuse_pages q = inuse_pages p"
  using assms(1) [unfolded same_maps_def, rule_format, OF assms(2)] assms(3) by auto

lemma same_maps_refl [simp]: "same_maps s s" by (simp add: same_maps_def)

lemma same_maps_trans: "same_maps s t \<Longrightarrow> same_maps t u \<Longrightarrow> same_maps s u"
proof (unfold same_maps_def, intro allI impI)
  fix x p
  assume su: "\<forall>x p. si_get x s = Some p \<longrightarrow> (\<exists>q. si_get x t = Some q \<and> swap_map q = swap_map p \<and> map_pages q = map_pages p \<and>
      si_max q = si_max p \<and> si_pages q = si_pages p \<and> inuse_pages q = inuse_pages p)"
    and tu: "\<forall>x p. si_get x t = Some p \<longrightarrow> (\<exists>q. si_get x u = Some q \<and> swap_map q = swap_map p \<and> map_pages q = map_pages p \<and>
      si_max q = si_max p \<and> si_pages q = si_pages p \<and> inuse_pages q = inuse_pages p)" and p: "si_get x s = Some p"
  obtain q where q: "si_get x t = Some q" "swap_map q = swap_map p" "map_pages q = map_pages p" "si_max q = si_max p" "si_pages q = si_pages p"
    "inuse_pages q = inuse_pages p" using su p by blast
  then show "\<exists>q. si_get x u = Some q \<and> swap_map q = swap_map p \<and> map_pages q = map_pages p \<and> si_max q = si_max p \<and>
      si_pages q = si_pages p \<and> inuse_pages q = inuse_pages p" using tu by fastforce
qed

lemma same_maps_info: "swap_info t = swap_info s \<Longrightarrow> same_maps s t"
  by (simp add: same_maps_def si_get_def)

lemma same_maps_put:
  assumes "si_get x s = Some p" and "swap_map q = swap_map p" "map_pages q = map_pages p" "si_max q = si_max p" "si_pages q = si_pages p"
    "inuse_pages q = inuse_pages p"
  shows "same_maps s (si_put x q s)"
  unfolding same_maps_def
proof (intro allI impI)
  fix y r assume r: "si_get y s = Some r"
  then have "0 \<le> y" by (simp add: si_get_Some)
  then have "si_get y (si_put x q s) = (if y = x then Some q else Some r)" using assms(1) r by auto
  then show "\<exists>q'. si_get y (si_put x q s) = Some q' \<and> swap_map q' = swap_map r \<and> map_pages q' = map_pages r \<and> si_max q' = si_max r \<and>
      si_pages q' = si_pages r \<and> inuse_pages q' = inuse_pages r" using assms r by auto
qed

lemma linked_behind: "Swap_On.linked s i (ys @ x # zs) \<Longrightarrow> si_get x s = Some p \<Longrightarrow> Swap_On.linked s (si_next p) zs"
  by (induction ys arbitrary: i) auto

lemma unlink_correct:
  fixes s :: "'k swaps"
  assumes l: "Swap_On.linked s (swap_list_head s) (ys @ type # zs)" and d: "distinct (ys @ type # zs)" and p: "si_get type s = Some p"
  shows "\<exists>t. unlink_area (if ys = [] then - 1 else last ys) type s = Some t \<and> Swap_On.linked t (swap_list_head t) (ys @ zs) \<and>
    Swap_On.linked t (si_next p) zs \<and> si_get type t = Some p \<and> (\<forall>x. prio_at t x = prio_at s x) \<and> same_maps s t \<and>
    t = s\<lparr>swap_info := swap_info t, swap_list_head := swap_list_head t, swap_list_next := swap_list_next t\<rparr>"
proof -
  define u where "u = (if ys = [] then s\<lparr>swap_list_head := si_next p\<rparr>
    else si_put (last ys) ((the (si_get (last ys) s))\<lparr>si_next := si_next p\<rparr>) s)"
  have pos: "0 \<le> x" if "x \<in> set (ys @ type # zs)" for x by (rule linked_pos [OF l that])
  have q: "\<exists>q. si_get (last ys) s = Some q" if "ys \<noteq> []" using Swap_On.linked_valid [OF l, of "last ys"] that by auto
  have g: "si_get x u = (if ys \<noteq> [] \<and> x = last ys then Some ((the (si_get (last ys) s))\<lparr>si_next := si_next p\<rparr>) else si_get x s)"
    if "0 \<le> x" for x using q that by (cases "ys = []") (auto simp: u_def)
  have un: "unlink_area (if ys = [] then - 1 else last ys) type s = Some (if type = swap_list_next u then u\<lparr>swap_list_next := swap_list_head u\<rparr> else u)"
    using p q pos [of "last ys"] by (cases "ys = []") (auto simp: unlink_area_def u_def)
  obtain sn where "(if type = swap_list_next u then u\<lparr>swap_list_next := swap_list_head u\<rparr> else u) = u\<lparr>swap_list_next := sn\<rparr>"
  proof (cases "type = swap_list_next u")
    case False
    then show ?thesis using that [of "swap_list_next u"] by simp
  qed simp
  then have sn: "unlink_area (if ys = [] then - 1 else last ys) type s = Some (u\<lparr>swap_list_next := sn\<rparr>)" using un by (rule trans [OF _ arg_cong, rotated])
  let ?t = "u\<lparr>swap_list_next := sn\<rparr>"
  have lk: "Swap_On.linked ?t (if ys = [] then si_next p else swap_list_head s) (ys @ zs)"
    by (rule linked_unlink [OF l d p, where q = "the (si_get (last ys) s)"]) (use q g pos in auto)
  have nl: "ys \<noteq> [] \<Longrightarrow> last ys \<noteq> type \<and> last ys \<notin> set zs" using d by (metis Un_iff disjoint_iff distinct_append last_in_set list.set_intros(1,2))
  have ty: "si_get type ?t = Some p" using g [of type] nl p pos [of type] by auto
  have zs: "Swap_On.linked s (si_next p) zs" by (rule linked_behind [OF l p])
  have "Swap_On.linked ?t (si_next p) zs"
  proof (rule linked_change [OF zs])
    show "si_get x ?t = si_get x s" if "x \<in> set zs" for x using g [of x] nl pos [of x] that by auto
  qed
  moreover have "prio_at ?t x = prio_at s x" for x
  proof (cases "0 \<le> x")
    case True
    then show ?thesis using g [OF True] q by (auto simp: prio_at_def)
  next
    case False
    then show ?thesis by (simp add: prio_at_def si_get_def arr_get_def)
  qed
  moreover have "same_maps s ?t"
  proof (cases "ys = []")
    case True
    then show ?thesis by (intro same_maps_info) (simp add: u_def)
  next
    case False
    then obtain r where "si_get (last ys) s = Some r" using q by blast
    then have "same_maps s u" using False same_maps_put [of "last ys" s r "r\<lparr>si_next := si_next p\<rparr>"] by (simp add: u_def)
    then show ?thesis by (rule same_maps_trans) (simp add: same_maps_info)
  qed
  moreover have "swap_list_head ?t = (if ys = [] then si_next p else swap_list_head s)" by (simp add: u_def)
  moreover have "?t = s\<lparr>swap_info := swap_info ?t, swap_list_head := swap_list_head ?t, swap_list_next := swap_list_next ?t\<rparr>"
    by (simp add: u_def si_put_def)
  ultimately show ?thesis using sn lk ty by (intro exI [of _ ?t]) simp
qed

text \<open>The new priorities of the areas behind, if there are any to give.\<close>

definition next_prios :: "int \<Rightarrow> (int \<Rightarrow> int) \<Rightarrow> int list \<Rightarrow> int list" where
  "next_prios pr f zs = (if pr < 0 then map (\<lambda>k. pr - int k) [0..<length zs] else map f zs)"

lemma next_prios_correct:
  fixes s :: "'k swaps"
  assumes "Swap_On.linked s i zs" and "distinct zs"
  shows "\<exists>t. (if pr < 0 then move_up pr i s else Some (pr, s)) = Some (if pr < 0 then pr - int (length zs) else pr, t) \<and>
    map (prio_at t) zs = next_prios pr (prio_at s) zs \<and> (\<forall>x. x \<notin> set zs \<longrightarrow> 0 \<le> x \<longrightarrow> si_get x t = si_get x s) \<and>
    t = s\<lparr>swap_info := swap_info t\<rparr> \<and> (\<forall>x p. si_get x s = Some p \<longrightarrow> (\<exists>k. si_get x t = Some (p\<lparr>prio := k\<rparr>)))"
proof (cases "pr < 0")
  case True
  then show ?thesis using move_up_correct [OF assms, of pr] by (auto simp: next_prios_def)
next
  case False
  have "\<exists>k. p = p\<lparr>prio := k\<rparr>" for p :: swap_info_struct by (intro exI [of _ "prio p"]) simp
  then show ?thesis using False by (intro exI [of _ s]) (simp add: next_prios_def)
qed

lemma next_prios_sorted:
  assumes "sorted_wrt (\<lambda>x y. f y \<le> f x) (ys @ x # zs)" and "map g zs = next_prios (f x) f zs" and "\<And>y. y \<in> set ys \<Longrightarrow> g y = (f y :: int)"
  shows "sorted_wrt (\<lambda>x y. g y \<le> g x) (ys @ zs)"
proof -
  have "g z \<le> f x" if "z \<in> set zs" for z
  proof -
    have "g z \<in> set (next_prios (f x) f zs)" using that assms(2) by (metis image_eqI list.set_map)
    then show ?thesis using assms(1) by (auto simp: next_prios_def sorted_wrt_append split: if_splits)
  qed
  moreover have "sorted_wrt (\<lambda>x y. g y \<le> g x) zs"
  proof (cases "f x < 0")
    case True
    then show ?thesis using assms(2) by (intro sorted_down [of _ _ "f x"]) (simp add: next_prios_def)
  next
    case False
    then have "\<And>z. z \<in> set zs \<Longrightarrow> g z = f z" using assms(2) by (simp add: next_prios_def)
    moreover have "sorted_wrt (\<lambda>x y. f y \<le> f x) zs" using assms(1) by (simp add: sorted_wrt_append)
    ultimately show ?thesis by (auto intro: sorted_wrt_mono_rel [rotated])
  qed
  moreover have "sorted_wrt (\<lambda>x y. g y \<le> g x) ys"
    by (rule sorted_wrt_mono_rel [of _ "\<lambda>x y. f y \<le> f x"]) (use assms(1,3) in \<open>auto simp: sorted_wrt_append\<close>)
  moreover have "f x \<le> g y" if "y \<in> set ys" for y using assms(1,3) that by (simp add: sorted_wrt_append)
  ultimately show ?thesis by (fastforce simp: sorted_wrt_append)
qed

lemma next_prios_turn:
  assumes "sorted_wrt (\<lambda>x y. f y \<le> f x) (ys @ x # zs)" and "map g zs = next_prios (f x) f zs" and "\<And>y. y \<in> set ys \<Longrightarrow> g y = (f y :: int)"
    and "map f (filter (\<lambda>x. f x < 0) (ys @ x # zs)) = map (\<lambda>k. - 1 - int k) [0..<n]"
  shows "map g (filter (\<lambda>x. g x < 0) (ys @ zs)) = map (\<lambda>k. - 1 - int k) [0..<if f x < 0 then n - 1 else n] \<and> (f x < 0 \<longrightarrow> 0 < n)"
proof -
  have ys: "map g (filter (\<lambda>x. g x < 0) ys) = map f (filter (\<lambda>x. f x < 0) ys)" using assms(3) by (simp cong: filter_cong)
  show ?thesis
  proof (cases "f x < 0")
    case False
    then have "\<And>z. z \<in> set zs \<Longrightarrow> g z = f z" using assms(2) by (simp add: next_prios_def)
    then have "map g (filter (\<lambda>x. g x < 0) zs) = map f (filter (\<lambda>x. f x < 0) zs)" by (simp cong: filter_cong)
    then show ?thesis using assms(4) ys False by simp
  next
    case True
    have z: "map g zs = map (\<lambda>k. f x - int k) [0..<length zs]" using assms(2) True by (simp add: next_prios_def)
    have "f z < 0" if "z \<in> set zs" for z using assms(1) that True by (fastforce simp: sorted_wrt_append)
    then have fz: "filter (\<lambda>x. f x < 0) zs = zs" by (simp add: filter_id_conv)
    have "g z < 0" if "z \<in> set zs" for z
    proof -
      have "g z \<in> set (map (\<lambda>k. f x - int k) [0..<length zs])" using that z by (metis image_eqI list.set_map)
      then show ?thesis using True by auto
    qed
    then have gz: "filter (\<lambda>x. g x < 0) zs = zs" by (simp add: filter_id_conv)
    have m: "map f (filter (\<lambda>x. f x < 0) ys) @ f x # map f zs = map (\<lambda>k. - 1 - int k) [0..<n]" using assms(4) True fz by simp
    show ?thesis using turns [OF m] ys gz z True by simp
  qed
qed

text \<open>An area that leaves the list: the order of the others stays, and so do the turns.\<close>

definition left :: "swap_h \<Rightarrow> int \<Rightarrow> int list \<Rightarrow> 'k areas \<Rightarrow> 'k areas \<Rightarrow> bool" where
  "left K type xs a b \<longleftrightarrow> list_ok (sws b) xs \<and> in_turn b xs \<and> same_maps (sws a) (sws b) \<and> swap_file b = swap_file a \<and>
     swap_lock (sws b) = swap_lock (sws a) \<and> nr_swapfiles (sws b) = nr_swapfiles (sws a) \<and> prio_at (sws b) type < 0 = (prio_at (sws a) type < 0) \<and>
     (0 \<le> prio_at (sws a) type \<longrightarrow> prio_at (sws b) type = prio_at (sws a) type) \<and>
     (\<exists>p q. si_get type (sws a) = Some p \<and> si_get type (sws b) = Some q \<and> si_type q = si_type p \<and> \<not> si_lock q \<and> si_flags q = si_flags p AND NOT (SWP_WRITEOK K) \<and>
        nr_swap_pages (sws b) = nr_swap_pages (sws a) - si_pages p \<and> total_swap_pages (sws b) = total_swap_pages (sws a) - si_pages p)"

lemma delist_correct:
  fixes a :: "'k areas"
  assumes l: "list_ok (sws a) (ys @ type # zs)" and turn: "in_turn a (ys @ type # zs)" and p: "si_get type (sws a) = Some p" and "\<not> si_lock p"
  shows "\<exists>b. delist_area K (if ys = [] then - 1 else last ys) type a = Some b \<and> left K type (ys @ zs) a b"
proof -
  let ?s = "sws a" and ?f = "prio_at (sws a)"
  have lk: "Swap_On.linked ?s (swap_list_head ?s) (ys @ type # zs)" and d: "distinct (ys @ type # zs)"
    and so: "sorted_wrt (\<lambda>x y. ?f y \<le> ?f x) (ys @ type # zs)" using l by (simp_all add: list_ok_def)
  obtain t where t: "unlink_area (if ys = [] then - 1 else last ys) type ?s = Some t" "Swap_On.linked t (swap_list_head t) (ys @ zs)"
    "Swap_On.linked t (si_next p) zs" "si_get type t = Some p" "\<And>x. prio_at t x = ?f x" "same_maps ?s t"
    "t = ?s\<lparr>swap_info := swap_info t, swap_list_head := swap_list_head t, swap_list_next := swap_list_next t\<rparr>"
    using unlink_correct [OF lk d p] by blast
  have pos: "0 \<le> x" if "x \<in> set (ys @ type # zs)" for x by (rule linked_pos [OF lk that])
  define u where "u = si_put type (p\<lparr>si_lock := True\<rparr>) t"
  have gu: "si_get x u = si_get x t" if "x \<noteq> type" "0 \<le> x" for x using t(4) that by (simp add: u_def)
  have ty: "si_get type u = Some (p\<lparr>si_lock := True\<rparr>)" using t(4) by (simp add: u_def)
  have fu: "prio_at u x = ?f x" for x
  proof (cases "x \<noteq> type \<and> 0 \<le> x")
    case True
    then show ?thesis using gu t(5) [of x] by (simp add: prio_at_def)
  next
    case False
    then show ?thesis using ty t(4) t(5) [of x] by (auto simp: prio_at_def si_get_def arr_get_def)
  qed
  have lu: "Swap_On.linked u (si_next p) zs" 
  proof (rule linked_change [OF t(3)])
    show "si_get x u = si_get x t" if "x \<in> set zs" for x using gu [of x] pos [of x] that d by auto
  qed
  have pp: "?f type = prio p" using p by (simp add: prio_at_def)
  obtain v where v: "(if prio p < 0 then move_up (prio p) (si_next p) u else Some (prio p, u)) =
      Some (if prio p < 0 then prio p - int (length zs) else prio p, v)"
    "map (prio_at v) zs = next_prios (prio p) (prio_at u) zs" "\<And>x. x \<notin> set zs \<Longrightarrow> 0 \<le> x \<Longrightarrow> si_get x v = si_get x u"
    "v = u\<lparr>swap_info := swap_info v\<rparr>" "\<And>x q. si_get x u = Some q \<Longrightarrow> \<exists>k. si_get x v = Some (q\<lparr>prio := k\<rparr>)"
    using next_prios_correct [OF lu, of "prio p"] d by auto
  let ?pr = "if prio p < 0 then prio p - int (length zs) else prio p"
  define q where "q = p\<lparr>prio := ?pr, si_flags := si_flags p AND NOT (SWP_WRITEOK K), si_lock := False\<rparr>"
  define w where "w = v\<lparr>nr_swap_pages := nr_swap_pages ?s - si_pages p, total_swap_pages := total_swap_pages ?s - si_pages p\<rparr>"
  define z where "z = si_put type q w"
  define b where "b = a\<lparr>sws := z, least_priority := if prio p < 0 then least_priority a + 1 else least_priority a\<rparr>"
  have v0: "si_get type v = Some (p\<lparr>si_lock := True\<rparr>)" using v(3) [of type] ty pos [of type] d by simp
  have u0: "nr_swap_pages v = nr_swap_pages ?s" "total_swap_pages v = total_swap_pages ?s" "swap_lock v = swap_lock ?s" "nr_swapfiles v = nr_swapfiles ?s"
    by (subst v(4), simp add: u_def, subst t(7), simp)+
  have hd: "swap_list_head v = swap_list_head t" by (subst v(4)) (simp add: u_def)
  have st: "spin_lock_si type t = Some u" using t(4) assms(4) by (simp add: spin_lock_si_def u_def)
  have run: "delist_area K (if ys = [] then - 1 else last ys) type a = Some b"
  proof -
    let ?p = "p\<lparr>si_lock := True\<rparr>"
    have m: "(if prio ?p < 0 then move_up (prio ?p) (si_next ?p) u else Some (prio ?p, u)) = Some (?pr, v)"
      unfolding swap_info_struct.select_convs swap_info_struct.update_convs using v(1) by (cases "prio p < 0") simp_all
    have n: "v\<lparr>nr_swap_pages := nr_swap_pages v - si_pages ?p, total_swap_pages := total_swap_pages v - si_pages ?p\<rparr> = w"
      by (simp add: w_def u0)
    have "si_get type w = Some ?p" using v0 by (simp add: w_def)
    then have k: "spin_unlock_si type (si_put type (?p\<lparr>prio := ?pr, si_flags := si_flags ?p AND NOT (SWP_WRITEOK K)\<rparr>) w) = Some z"
      by (simp add: spin_unlock_si_def z_def q_def)
    show ?thesis
      unfolding delist_area_def t(1) Option.bind.simps st ty m prod.case Let_def n k by (simp add: b_def)
  qed
  have z0: "si_get type z = Some q" using v0 by (simp add: z_def w_def)
  have zv: "si_get x z = si_get x v" if "x \<noteq> type" "0 \<le> x" for x using v0 that by (simp add: z_def w_def)
  have ne: "x \<noteq> type \<and> 0 \<le> x" if "x \<in> set (ys @ zs)" for x using that d pos [of x] by auto
  have "Swap_On.linked z (swap_list_head z) (ys @ zs)"
  proof -
    have "Swap_On.linked z (swap_list_head t) (ys @ zs)"
    proof (rule Swap_On.linked_cong [OF t(2)])
      show "link_same t z x" if "x \<in> set (ys @ zs)" for x
      proof -
        have "si_get x z = si_get x v" "si_get x u = si_get x t" using zv [of x] gu [of x] ne [OF that] by auto
        then show ?thesis using v(5) [of x] by (auto simp: link_same_def)
      qed
    qed
    then show ?thesis using hd by (simp add: z_def w_def)
  qed
  moreover have fz: "prio_at z x = prio_at v x" if "x \<in> set (ys @ zs)" for x using zv [of x] ne [OF that] by (simp add: prio_at_def)
  have mz: "map (prio_at z) zs = next_prios (?f type) ?f zs"
  proof -
    have "map (prio_at z) zs = map (prio_at v) zs" using fz by simp
    moreover have "prio_at u = ?f" using fu by (rule ext)
    ultimately show ?thesis using v(2) pp by (simp only:)
  qed
  have my: "prio_at z y = ?f y" if "y \<in> set ys" for y
  proof -
    have "y \<notin> set zs" using that d by auto
    then have "prio_at v y = prio_at u y" using v(3) [of y] ne [of y] that by (simp add: prio_at_def)
    then show ?thesis using fz [of y] fu [of y] that by simp
  qed
  ultimately have "list_ok z (ys @ zs)" using next_prios_sorted [OF so mz my] d by (simp add: list_ok_def)
  moreover obtain n where n: "map ?f (filter (\<lambda>x. ?f x < 0) (ys @ type # zs)) = map (\<lambda>k. - 1 - int k) [0..<n]" "least_priority a = - int n"
    using turn by (auto simp: in_turn_def)
  have "in_turn b (ys @ zs)"
    using next_prios_turn [OF so mz my n(1)] n(2) pp unfolding in_turn_def
    by (intro exI [of _ "if ?f type < 0 then n - 1 else n"]) (auto simp: b_def)
  moreover have "same_maps ?s z"
  proof -
    have "same_maps t u" unfolding u_def by (rule same_maps_put [OF t(4)]) simp_all
    moreover have "same_maps u v" using v(5) by (fastforce simp: same_maps_def)
    moreover have "same_maps v w" by (rule same_maps_info) (simp add: w_def)
    moreover have "si_get type w = Some (p\<lparr>si_lock := True\<rparr>)" using v0 by (simp add: w_def)
    then have "same_maps w z" unfolding z_def by (rule same_maps_put) (simp_all add: q_def)
    ultimately show ?thesis using t(6) same_maps_trans by blast
  qed
  moreover have "prio_at z type = ?pr" using z0 by (simp add: prio_at_def q_def)
  moreover have "swap_lock z = swap_lock ?s" "nr_swapfiles z = nr_swapfiles ?s" "nr_swap_pages z = nr_swap_pages ?s - si_pages p" "total_swap_pages z = total_swap_pages ?s - si_pages p"
    using u0 by (simp_all add: z_def w_def)
  ultimately have "left K type (ys @ zs) a b" using p z0 pp by (auto simp: left_def b_def q_def)
  then show ?thesis using run by blast
qed

lemma entered_maps:
  assumes "entered K type pr (swap_map p) p a b" and "si_get type (sws a) = Some p"
  shows "same_maps (sws a) (sws b)"
proof (unfold same_maps_def, intro allI impI)
  fix x r assume r: "si_get x (sws a) = Some r"
  show "\<exists>q. si_get x (sws b) = Some q \<and> swap_map q = swap_map r \<and> map_pages q = map_pages r \<and> si_max q = si_max r \<and>
      si_pages q = si_pages r \<and> inuse_pages q = inuse_pages r"
  proof (cases "x = type")
    case True
    then show ?thesis using assms r by (auto simp: entered_def)
  next
    case False
    then obtain i where "si_get x (sws b) = Some (r\<lparr>si_next := i\<rparr>)" using assms(1) r by (auto simp: entered_def)
    then show ?thesis by simp
  qed
qed

text \<open>A new area keeps the turns as well: one without a priority of its own comes last.\<close>

lemma in_turn_entered:
  assumes "in_turn a (ys @ zs)" and l: "list_ok (sws b) (ys @ type # zs)" and pr: "prio_at (sws b) type = given_prio pr a"
    and f: "\<And>x. x \<in> set (ys @ zs) \<Longrightarrow> prio_at (sws b) x = prio_at (sws a) x"
    and le: "least_priority b = (if 0 \<le> pr then least_priority a else least_priority a - 1)"
  shows "in_turn b (ys @ type # zs)"
proof -
  let ?f = "prio_at (sws a)" and ?g = "prio_at (sws b)"
  obtain n where n: "map ?f (filter (\<lambda>x. ?f x < 0) (ys @ zs)) = map (\<lambda>k. - 1 - int k) [0..<n]" "least_priority a = - int n"
    using assms(1) by (auto simp: in_turn_def)
  have "filter (\<lambda>x. ?g x < 0) (ys @ zs) = filter (\<lambda>x. ?f x < 0) (ys @ zs)" by (rule filter_cong) (simp_all add: f)
  moreover have "map ?g (filter (\<lambda>x. ?f x < 0) (ys @ zs)) = map ?f (filter (\<lambda>x. ?f x < 0) (ys @ zs))" by (rule map_cong) (use f in auto)
  ultimately have g: "map ?g (filter (\<lambda>x. ?g x < 0) (ys @ zs)) = map (\<lambda>k. - 1 - int k) [0..<n]" using n(1) by (simp only:)
  show ?thesis
  proof (cases "0 \<le> pr")
    case True
    then have "filter (\<lambda>x. ?g x < 0) (ys @ type # zs) = filter (\<lambda>x. ?g x < 0) (ys @ zs)" using pr by (simp add: given_prio_def)
    then show ?thesis using g n(2) le True unfolding in_turn_def by (intro exI [of _ n]) simp
  next
    case False
    then have t: "?g type = - 1 - int n" using pr n(2) by (simp add: given_prio_def)
    have "zs = []"
    proof (rule ccontr)
      assume "zs \<noteq> []"
      then obtain z where z: "z \<in> set zs" by (cases zs) auto
      then have low: "?g z \<le> - 1 - int n" using l t by (simp add: list_ok_def sorted_wrt_append)
      then have "?g z \<in> set (map ?g (filter (\<lambda>x. ?g x < 0) (ys @ zs)))" using z by auto
      then have "?g z \<in> set (map (\<lambda>k. - 1 - int k) [0..<n])" using g by (simp only:)
      then show False using low by auto
    qed
    then show ?thesis using g t n(2) le False unfolding in_turn_def by (intro exI [of _ "Suc n"]) simp
  qed
qed

lemma reinsert_correct:
  assumes "list_ok (sws b) xs" and turn: "in_turn b xs" and "type \<notin> set xs" and q: "si_get type (sws b) = Some q" and "si_type q = type"
    and "\<not> swap_lock (sws b)" and "\<not> si_lock q"
  shows "\<exists>c ys zs. reinsert_swap_info K type b = Some c \<and> xs = ys @ zs \<and> list_ok (sws c) (ys @ type # zs) \<and> in_turn c (ys @ type # zs) \<and>
    entered K type (prio q) (swap_map q) q b c"
proof -
  obtain c ys zs where c: "locked_enable K type (prio q) (swap_map q) b = Some c" "xs = ys @ zs" "list_ok (sws c) (ys @ type # zs)"
    "prio_at (sws c) type = given_prio (prio q) b" "\<forall>x\<in>set xs. prio_at (sws c) x = prio_at (sws b) x"
    "entered K type (prio q) (swap_map q) q b c"
    using locked_enable_sorted [OF assms(1,3) q assms(5-7)] by blast
  have "in_turn c (ys @ type # zs)"
    by (rule in_turn_entered [OF turn [unfolded c(2)] c(3,4)]) (use c(2,5,6) in \<open>auto simp: entered_def\<close>)
  then show ?thesis using c q by (intro exI [of _ c] exI [of _ ys] exI [of _ zs]) (simp add: reinsert_swap_info_def)
qed

lemma find_area_correct:
  fixes a :: "'k areas"
  assumes "Swap_On.linked (sws a) i (ys @ type # zs)" and "si_get type (sws a) = Some p" and "si_flags p AND SWP_WRITEOK K \<noteq> 0"
    and "swap_file a type = Some file" and "\<And>y. y \<in> set ys \<Longrightarrow> swap_file a y \<noteq> Some file"
  shows "find_area K file prev i a = Some (if ys = [] then prev else last ys, type)"
  using assms(1,5)
proof (induction ys arbitrary: i prev)
  case Nil
  then have "i = type" "0 \<le> type" using assms(2) by (simp_all add: si_get_Some)
  then show ?case using assms(2-4) by (subst find_area.simps) simp
next
  case (Cons y ys)
  then obtain r where r: "i = y" "si_get y (sws a) = Some r" "Swap_On.linked (sws a) (si_next r) (ys @ type # zs)" "0 \<le> y"
    by (auto simp: si_get_Some)
  have "find_area K file prev i a = find_area K file y (si_next r) a"
    using r Cons.prems(2) [of y] by (subst find_area.simps) simp
  then show ?case using Cons.IH [OF r(3), of y] Cons.prems(2) by simp
qed

section \<open>An interrupted \<open>swapoff\<close>\<close>

text \<open>
  There is enough memory without the area; the accounting of memory and the mark of the task that asks concern
  none of the parts that are modelled, and \<open>mmput\<close> only counts as long as somebody else holds the task.
\<close>

definition orderly_off :: "('r, 'k) offing \<Rightarrow> bool" where
  "orderly_off Q \<longleftrightarrow> (\<forall>n s. \<exists>f. vm_enough_memory Q n s = (0, t_kern f s)) \<and> (\<forall>n s. \<exists>f. vm_unacct_memory Q n s = t_kern f s) \<and>
     (\<forall>b s. \<exists>f. set_oom_origin Q b s = t_kern f s) \<and>
     (\<forall>m s. 2 \<le> mm_users s m \<longrightarrow> mmput Q m s = s\<lparr>mm_users := (mm_users s)(m := mm_users s m - 1)\<rparr>)"

lemma put_areas_simps [simp]:
  "areas_of (put_areas a s) = a" "put_areas a (put_areas b s) = put_areas a s" "swaps_of (put_areas a s) = sws a"
  "mm_of (put_areas a s) = mm_of s" "mm_users (put_areas a s) = mm_users s" "mmap_of (put_areas a s) = mmap_of s" "files (put_areas a s) = swap_file a"
  "put_swaps w s = put_areas ((areas_of s)\<lparr>sws := w\<rparr>) s" "t_kern f s = put_areas ((areas_of s)\<lparr>sws := kern_do f (sws (areas_of s))\<rparr>) s"
  by (simp_all add: areas_of_def put_areas_def put_swaps_def swaps_of_def t_kern_def)

lemma in_turn_cong:
  assumes "\<And>x. prio_at (sws b) x = prio_at (sws a) x" and "least_priority b = least_priority a"
  shows "in_turn b xs = in_turn a xs"
proof -
  have "prio_at (sws b) = prio_at (sws a)" using assms(1) by (rule ext)
  then show ?thesis using assms(2) by (simp add: in_turn_def)
qed

lemma try_begins:
  assumes "orderly_off Q" and "si_get type (swaps_of s) = Some p" and "int (length (swap_map p)) = si_max p" and "1 \<le> mm_users s init_mm" and "0 < si_max p"
  shows "if none_used (hdr (off_host Q)) (SWAP_MAP_BAD (in_on Q)) (swap_map p) 0 (si_max p) then try_to_unuse Q type s = Some (0, s)
    else signal_pending Q (inc_users init_mm s) \<longrightarrow> try_to_unuse Q type s = Some (- EINTR, s)"
proof -
  let ?K = "hdr (off_host Q)" and ?bad = "SWAP_MAP_BAD (in_on Q)" and ?s = "inc_users init_mm s"
  have sw: "swaps_of ?s = swaps_of s" by (simp add: inc_users_def swaps_of_def)
  have "2 \<le> mm_users ?s init_mm" using assms(4) by (simp add: inc_users_def)
  then have "mmput Q init_mm ?s = ?s\<lparr>mm_users := (mm_users ?s)(init_mm := mm_users ?s init_mm - 1)\<rparr>" using assms(1) by (simp add: orderly_off_def)
  then have put: "mmput Q init_mm ?s = s" by (simp add: inc_users_def)
  obtain j where j: "find_next_to_unuse ?K ?bad p 0 = Some j" "first_used ?K ?bad (swap_map p) 0 (si_max p) j \<or>
      first_used ?K ?bad (swap_map p) 0 1 j \<or> j = 0 \<and> none_used ?K ?bad (swap_map p) 0 (si_max p)"
    using next_to_unuse_cyclic [OF assms(3), of 0 ?K ?bad] assms(5) by auto
  show ?thesis
  proof (cases "none_used ?K ?bad (swap_map p) 0 (si_max p)")
    case True
    then have "j = 0" using j(2) assms(5) by (auto simp: first_used_def none_used_def)
    then have "unuse_slots Q type 0 init_mm 0 ?s = Some (0, init_mm, ?s)" using assms(2) j(1) sw by (subst unuse_slots.simps) simp
    then show ?thesis using True put by (simp add: try_to_unuse_def)
  next
    case False
    then have "j \<noteq> 0" using j(2) by (auto simp: first_used_def)
    then have "signal_pending Q ?s \<longrightarrow> unuse_slots Q type 0 init_mm 0 ?s = Some (- EINTR, init_mm, ?s)"
      using assms(2) j(1) sw by (subst unuse_slots.simps) simp
    then show ?thesis using False put by (simp add: try_to_unuse_def)
  qed
qed

text \<open>
  The areas behind the list \<open>ys\<close>, an area for the file, and those behind it; the list is in order, no
  lock is held, and no other area is for the file.
\<close>

definition listed :: "('r, 'k) offing \<Rightarrow> swap_inode \<Rightarrow> int list \<Rightarrow> int \<Rightarrow> int list \<Rightarrow> swap_info_struct \<Rightarrow> ('r, 'k) tasks \<Rightarrow> bool" where
  "listed Q inode ys type zs p s \<longleftrightarrow> list_ok (swaps_of s) (ys @ type # zs) \<and> in_turn (areas_of s) (ys @ type # zs) \<and>
     si_get type (swaps_of s) = Some p \<and> \<not> si_lock p \<and> si_flags p AND SWP_WRITEOK (hdr (off_host Q)) \<noteq> 0 \<and>
     int (length (swap_map p)) = si_max p \<and> 0 < si_max p \<and> files s type = Some (f_mapping inode) \<and>
     (\<forall>y\<in>set ys. files s y \<noteq> Some (f_mapping inode)) \<and> \<not> swap_lock (swaps_of s) \<and> 1 \<le> mm_users s init_mm"

definition same_tasks :: "('r, 'k) tasks \<Rightarrow> ('r, 'k) tasks \<Rightarrow> bool" where
  "same_tasks s t \<longleftrightarrow> mm_of t = mm_of s \<and> mmap_of t = mmap_of s \<and> mm_users t = mm_users s"

lemma put_areas_tasks [simp]: "same_tasks s (put_areas a t) = same_tasks s t" "same_tasks s s"
  by (simp_all add: same_tasks_def)

lemma left_fields:
  assumes "left K type xs (a\<lparr>sws := (sws a)\<lparr>swap_lock := x, kern := k\<rparr>\<rparr>) b"
  shows "left K type xs a (b\<lparr>sws := (sws b)\<lparr>swap_lock := swap_lock (sws a), kern := k'\<rparr>\<rparr>)"
proof -
  have "same_maps ((sws a)\<lparr>swap_lock := x, kern := k\<rparr>) (sws b)" using assms by (simp add: left_def)
  then have "same_maps (sws a) (sws b)" by (rule same_maps_trans [rotated]) (simp add: same_maps_info)
  then have "same_maps (sws a) ((sws b)\<lparr>swap_lock := swap_lock (sws a), kern := k'\<rparr>)"
    by (rule same_maps_trans) (simp add: same_maps_info)
  moreover have "in_turn (b\<lparr>sws := (sws b)\<lparr>swap_lock := swap_lock (sws a), kern := k'\<rparr>\<rparr>) xs = in_turn b xs" by (rule in_turn_cong) simp_all
  ultimately show ?thesis using assms by (simp add: left_def)
qed

text \<open>Up to the search for the slots in use the area leaves the list, and nothing else happens.\<close>

lemma swapoff_until_search:
  assumes Q: "orderly_off Q" and "listed Q inode ys type zs p s"
  shows "\<exists>u. left (hdr (off_host Q)) type (ys @ zs) (areas_of s) (areas_of u) \<and> same_tasks s u \<and>
    swapoff_file Q inode s = do {
      (err, v) \<leftarrow> try_to_unuse Q type u;
      let v = set_oom_origin Q False v;
      if err \<noteq> 0 then do { v \<leftarrow> do_areas (reinsert_swap_info (hdr (off_host Q)) type) v; Some (err, v) }
      else do { v \<leftarrow> close_area Q type inode v; Some (0, v) } }"
proof -
  let ?K = "hdr (off_host Q)" and ?a = "areas_of s" and ?prev = "if ys = [] then - 1 else last ys"
  have l: "list_ok (swaps_of s) (ys @ type # zs)" "in_turn ?a (ys @ type # zs)" "si_get type (swaps_of s) = Some p" "\<not> si_lock p"
    "si_flags p AND SWP_WRITEOK ?K \<noteq> 0" "files s type = Some (f_mapping inode)" "\<And>y. y \<in> set ys \<Longrightarrow> files s y \<noteq> Some (f_mapping inode)"
    "\<not> swap_lock (swaps_of s)" using assms(2) by (auto simp: listed_def)
  have a: "sws ?a = swaps_of s" "swap_file ?a = files s" by (simp_all add: areas_of_def)
  define s1 where "s1 = put_swaps ((swaps_of s)\<lparr>swap_lock := True\<rparr>) s"
  have lk: "spin_lock_swap (swaps_of s) = Some ((swaps_of s)\<lparr>swap_lock := True\<rparr>)" using l(8) by (simp add: spin_lock_swap_def)
  have w1: "swaps_of s1 = (swaps_of s)\<lparr>swap_lock := True\<rparr>" "areas_of s1 = ?a\<lparr>sws := (swaps_of s)\<lparr>swap_lock := True\<rparr>\<rparr>" "same_tasks s s1"
    by (simp_all add: s1_def)
  have fd: "find_area ?K (f_mapping inode) (- 1) (swap_list_head ((swaps_of s)\<lparr>swap_lock := True\<rparr>)) (areas_of s1) = Some (?prev, type)"
    by (rule find_area_correct [where zs = zs and p = p]) (use l(1,3,5,6,7) a in \<open>simp_all add: w1 list_ok_def\<close>)
  have ty: "\<not> type < 0" "\<not> (0 :: int) \<noteq> 0" using l(3) by (simp_all add: si_get_Some)
  obtain f1 where f1: "vm_enough_memory Q (si_pages p) s1 = (0, t_kern f1 s1)" using Q unfolding orderly_off_def by blast
  obtain f2 where f2: "vm_unacct_memory Q (si_pages p) (t_kern f1 s1) = t_kern f2 (t_kern f1 s1)" using Q unfolding orderly_off_def by blast
  define s3 where "s3 = t_kern f2 (t_kern f1 s1)"
  define k where "k = f2 (f1 (kern (swaps_of s)))"
  have w3: "areas_of s3 = ?a\<lparr>sws := (sws ?a)\<lparr>swap_lock := True, kern := k\<rparr>\<rparr>" "same_tasks s s3"
    by (simp_all add: s3_def w1 k_def kern_do_def a)
  have g3: "si_get type (sws (areas_of s3)) = Some p" "list_ok (sws (areas_of s3)) (ys @ type # zs)" "in_turn (areas_of s3) (ys @ type # zs)"
    using l(1-3) in_turn_cong [of ?a "areas_of s3"] a by (simp_all add: w3)
  obtain b where b: "delist_area ?K ?prev type (areas_of s3) = Some b" "left ?K type (ys @ zs) (areas_of s3) b"
    using delist_correct [OF g3(2,3,1) l(4)] by blast
  define s4 where "s4 = put_swaps ((swaps_of (put_areas b s3))\<lparr>swap_lock := False\<rparr>) (put_areas b s3)"
  obtain f3 where f3: "set_oom_origin Q True s4 = t_kern f3 s4" using Q unfolding orderly_off_def by blast
  let ?u = "t_kern f3 s4"
  have d: "do_areas (delist_area ?K ?prev type) (t_kern f2 (t_kern f1 s1)) = Some (put_areas b s3)"
    using b(1) unfolding do_areas_def s3_def [symmetric] by simp
  have g1: "si_get type (swaps_of s1) = Some p" using l(3) by (simp add: w1)
  have "swapoff_file Q inode s = do {
      (err, v) \<leftarrow> try_to_unuse Q type ?u;
      let v = set_oom_origin Q False v;
      if err \<noteq> 0 then do { v \<leftarrow> do_areas (reinsert_swap_info ?K type) v; Some (err, v) }
      else do { v \<leftarrow> close_area Q type inode v; Some (0, v) } }"
    unfolding swapoff_file_def Let_def lk Option.bind.simps s1_def [symmetric] fd prod.case if_not_P [OF ty(1)] g1 f1 if_not_P [OF ty(2)] f2 d
      s4_def [symmetric] f3 ..
  moreover have "areas_of ?u = b\<lparr>sws := (sws b)\<lparr>swap_lock := swap_lock (sws ?a), kern := f3 (kern (sws b))\<rparr>\<rparr>"
    using l(8) a by (simp add: s4_def kern_do_def)
  then have "left ?K type (ys @ zs) ?a (areas_of ?u)" using left_fields [OF b(2) [unfolded w3(1)]] by simp
  moreover have "same_tasks s ?u" using w3(2) by (simp add: s4_def)
  ultimately show ?thesis by blast
qed

lemma left_kern:
  assumes "left K type xs (areas_of s) (areas_of u)"
  shows "left K type xs (areas_of s) (areas_of (t_kern f u))"
proof -
  have "areas_of (t_kern f u) = (areas_of u)\<lparr>sws := (sws (areas_of u))\<lparr>swap_lock := swap_lock (sws (areas_of s)), kern := f (kern (sws (areas_of u)))\<rparr>\<rparr>"
    using assms by (simp add: left_def kern_do_def)
  then show ?thesis
    using left_fields [where a = "areas_of s" and x = "swap_lock (sws (areas_of s))" and k = "kern (sws (areas_of s))" and b = "areas_of u"] assms by simp
qed

text \<open>
  C22: a \<open>swapoff\<close> by a task that has a signal pending when the search for used slots begins, while slots of
  the area are in use, so that it gives up at the first of them, before any slot is emptied: it reports
  \<open>EINTR\<close> and changes nothing but the place of the area in the list.  The list still is in descending
  order with the same areas, the priorities that are given in turn still run from -1 on without a gap, all
  maps, all tasks and the numbers of pages are as before, the area can be written to, and no lock is held.
  (A signal that arrives later, between two slots, is not covered: by then pages have been given back to
  tasks and their slots are free.)
\<close>

theorem interrupted_swapoff:
  fixes s :: "('r, 'k) tasks"
  assumes Q: "orderly_off Q" "\<And>t. same_tasks s t \<Longrightarrow> signal_pending Q (inc_users init_mm t)"
    and l: "listed Q inode ys type zs p s"
    and "\<not> none_used (hdr (off_host Q)) (SWAP_MAP_BAD (in_on Q)) (swap_map p) 0 (si_max p)"
  shows "\<exists>t us vs q. swapoff_file Q inode s = Some (- EINTR, t) \<and> ys @ zs = us @ vs \<and> list_ok (swaps_of t) (us @ type # vs) \<and>
    in_turn (areas_of t) (us @ type # vs) \<and> same_maps (swaps_of s) (swaps_of t) \<and> same_tasks s t \<and> files t = files s \<and>
    nr_swap_pages (swaps_of t) = nr_swap_pages (swaps_of s) \<and> total_swap_pages (swaps_of t) = total_swap_pages (swaps_of s) \<and>
    si_get type (swaps_of t) = Some q \<and> si_flags q AND SWP_WRITEOK (hdr (off_host Q)) \<noteq> 0 \<and> \<not> si_lock q \<and> \<not> swap_lock (swaps_of t)"
proof -
  let ?K = "hdr (off_host Q)"
  have a: "sws (areas_of t) = swaps_of t" "swap_file (areas_of t) = files t" for t :: "('r, 'k) tasks" by (simp_all add: areas_of_def)
  have p: "si_get type (swaps_of s) = Some p" "\<not> swap_lock (swaps_of s)" "si_flags p AND SWP_WRITEOK ?K \<noteq> 0" "1 \<le> mm_users s init_mm"
    "int (length (swap_map p)) = si_max p" "0 < si_max p" "list_ok (swaps_of s) (ys @ type # zs)" using l by (auto simp: listed_def)
  obtain u where u: "left ?K type (ys @ zs) (areas_of s) (areas_of u)" "same_tasks s u" "swapoff_file Q inode s = do {
      (err, v) \<leftarrow> try_to_unuse Q type u;
      let v = set_oom_origin Q False v;
      if err \<noteq> 0 then do { v \<leftarrow> do_areas (reinsert_swap_info ?K type) v; Some (err, v) }
      else do { v \<leftarrow> close_area Q type inode v; Some (0, v) } }"
    using swapoff_until_search [OF Q(1) l] by blast
  obtain f where f: "set_oom_origin Q False u = t_kern f u" using Q(1) unfolding orderly_off_def by blast
  define v where "v = t_kern f u"
  have lv: "left ?K type (ys @ zs) (areas_of s) (areas_of v)" unfolding v_def by (rule left_kern [OF u(1)])
  obtain q where q: "si_get type (swaps_of v) = Some q" "si_type q = si_type p" "\<not> si_lock q"
      "nr_swap_pages (swaps_of v) = nr_swap_pages (swaps_of s) - si_pages p" "total_swap_pages (swaps_of v) = total_swap_pages (swaps_of s) - si_pages p"
    using lv p(1) by (auto simp: left_def a)
  have vu: "swaps_of v = kern_do f (swaps_of u)" by (simp add: v_def a)
  have qu: "si_get type (swaps_of u) = Some q" using q(1) by (simp add: vu kern_do_def)
  have mv: "same_maps (swaps_of s) (swaps_of v)" "files v = files s" "list_ok (swaps_of v) (ys @ zs)" "in_turn (areas_of v) (ys @ zs)"
    "\<not> swap_lock (swaps_of v)" using lv p(2) by (auto simp: left_def a)
  note pq = same_maps_at [OF mv(1) p(1) q(1)]
  have tr: "try_to_unuse Q type u = Some (- EINTR, u)"
  proof -
    have "1 \<le> mm_users u init_mm" using u(2) p(4) by (simp add: same_tasks_def)
    from try_begins [OF Q(1) qu _ this] show ?thesis using p(5,6) pq assms(4) Q(2) [OF u(2)] by simp
  qed
  have tn: "type \<notin> set (ys @ zs)" "si_type q = type"
    using p(1,7) q(2) Swap_On.linked_valid [of "swaps_of s" _ "ys @ type # zs" type] by (auto simp: list_ok_def)
  obtain c us vs where c: "reinsert_swap_info ?K type (areas_of v) = Some c" "ys @ zs = us @ vs" "list_ok (sws c) (us @ type # vs)"
    "in_turn c (us @ type # vs)" "entered ?K type (prio q) (swap_map q) q (areas_of v) c"
    using reinsert_correct [of "areas_of v" "ys @ zs" type q ?K] mv(3-5) tn q(1,3) by (auto simp: a)
  let ?t = "put_areas c v"
  have run: "swapoff_file Q inode s = Some (- EINTR, ?t)"
  proof -
    have r: "do_areas (reinsert_swap_info ?K type) v = Some ?t" using c(1) unfolding do_areas_def by simp
    have e: "- EINTR \<noteq> 0" by (simp add: EINTR_def)
    show ?thesis unfolding u(3) tr Option.bind.simps prod.case Let_def f v_def [symmetric] if_P [OF e] r ..
  qed
  have "same_maps (swaps_of v) (sws c)" using entered_maps [OF c(5)] q(1) by (simp add: a)
  then have mt: "same_maps (swaps_of s) (sws c)" using mv(1) same_maps_trans by blast
  obtain i where "si_get type (sws c) = Some (q\<lparr>prio := given_prio (prio q) (areas_of v), swap_map := swap_map q,
      si_flags := si_flags q OR SWP_WRITEOK ?K, si_next := i\<rparr>)" using c(5) by (auto simp: entered_def)
  then obtain r where r: "si_get type (sws c) = Some r" "si_flags r = si_flags q OR SWP_WRITEOK ?K" "\<not> si_lock r" using q(3) by simp
  have "(si_flags q OR SWP_WRITEOK ?K) AND SWP_WRITEOK ?K = SWP_WRITEOK ?K" by (simp add: bit_eq_iff bit_simps)
  then have "si_flags r AND SWP_WRITEOK ?K \<noteq> 0" using p(3) r(2) by auto
  moreover have "\<not> swap_lock (sws c)" "swap_file c = files s" "nr_swap_pages (sws c) = nr_swap_pages (swaps_of s)"
      "total_swap_pages (sws c) = total_swap_pages (swaps_of s)" using c(5) mv(2,5) q(4,5) pq(4) by (simp_all add: entered_def a)
  moreover have "same_tasks s ?t" using u(2) by (simp add: v_def)
  ultimately show ?thesis using run c(2-4) mt r(1,3)
    by - (rule exI [of _ ?t], rule exI [of _ us], rule exI [of _ vs], rule exI [of _ r], simp)
qed

end
