(* ===== verification/Swap_Close.thy ===== *)
theory Swap_Close
  imports Swap_Delist
begin

unbundle bit_operations_syntax

text \<open>
  The end of \<open>swapoff\<close> for an area whose slots are all free (\<open>swapfile.c\<close>, 1325-1343 and 1643-1692): the area
  has no map and no flags afterwards and can be given out again.
\<close>

section \<open>Closing an area\<close>

declare put_areas_simps(8,9) [simp del]

lemma swaps_put [simp]:
  "swaps_of (put_swaps w s) = w" "swaps_of (s\<lparr>mmlist := m\<rparr>) = swaps_of s" "swaps_of (s\<lparr>files := f\<rparr>) = swaps_of s"
  "mm_of (put_swaps w s) = mm_of s" "mmap_of (put_swaps w s) = mmap_of s" "mm_users (put_swaps w s) = mm_users s" "files (put_swaps w s) = files s"
  "lowest (put_swaps w s) = lowest s"
  by (simp_all add: put_swaps_def swaps_of_def)

lemma destroy_keeps:
  assumes "destroy_swap_extents K X p k = (q, k')"
  shows "si_type q = si_type p \<and> si_lock q = si_lock p \<and> si_next q = si_next p \<and> prio q = prio p \<and> si_flags q \<le> si_flags p \<and>
    map_pages q = map_pages p \<and> si_max q = si_max p"
  using assms by (auto simp: destroy_swap_extents_def Let_def word_and_le2 split: if_splits)

text \<open>A page of the map for every page full of slots: then there are heads for all continuation pages.\<close>

definition map_paged :: "swap_info_struct \<Rightarrow> bool" where
  "map_paged p \<longleftrightarrow> 0 \<le> si_max p \<and> int (length (map_pages p)) = (si_max p + Swap_Base.PAGE_SIZE - 1) div Swap_Base.PAGE_SIZE"

lemma continuations_keep:
  assumes "map_paged p"
  shows "\<exists>h k'. free_swap_count_continuations X p k = Some (p\<lparr>map_pages := h\<rparr>, k')"
proof -
  let ?n = "(si_max p + Swap_Base.PAGE_SIZE - 1) div Swap_Base.PAGE_SIZE"
  let ?P = "\<lambda>(_ :: int) s. \<exists>h (k' :: 'a). s = (p\<lparr>map_pages := h\<rparr>, k') \<and> length h = length (map_pages p)"
  have "\<exists>r. free_swap_count_continuations X p k = Some r \<and> ?P ?n r"
    unfolding free_swap_count_continuations_def
  proof (rule for_up_rule)
    show "0 \<le> ?n" using assms unfolding map_paged_def by linarith
    show "?P 0 (p, k)" by (intro exI [of _ "map_pages p"]) simp
  next
    fix i and s :: "swap_info_struct \<times> 'a"
    assume i: "0 \<le> i" "i < ?n" "?P i s"
    then obtain h k where s: "s = (p\<lparr>map_pages := h\<rparr>, k)" "length h = length (map_pages p)" by blast
    then have "i < int (length h)" using i(2) assms by (simp add: map_paged_def)
    then show "\<exists>s'. (\<lambda>(si, k). do {
        head \<leftarrow> arr_get (map_pages si) i;
        if head_private head \<noteq> 0 then do {
          hs \<leftarrow> arr_set (map_pages si) i (head\<lparr>lru := []\<rparr>);
          Some (si\<lparr>map_pages := hs\<rparr>, ((free_page X) ^^ length (lru head)) k)
        } else Some (si, k) }) s = Some s' \<and> ?P (i + 1) s'"
      using i(1) s by (auto simp: arr_get_def arr_set_def)
  qed
  then show ?thesis by blast
qed

text \<open>The list of tasks is emptied when no area has slots left, and kept otherwise.\<close>

definition drained :: "'k swaps \<Rightarrow> int list \<Rightarrow> int list" where
  "drained w m = (if \<forall>i. 0 \<le> i \<longrightarrow> i < nr_swapfiles w \<longrightarrow> (\<forall>p. si_get i w = Some p \<longrightarrow> inuse_pages p = 0) then [init_mm] else m)"

lemma drain_correct:
  assumes "\<And>i. 0 \<le> i \<Longrightarrow> i < nr_swapfiles (swaps_of s) \<Longrightarrow> \<exists>p. si_get i (swaps_of s) = Some p"
  shows "drain_mmlist s = Some (s\<lparr>mmlist := drained (swaps_of s) (mmlist s)\<rparr>)"
proof -
  let ?w = "swaps_of s" and ?n = "nat (nr_swapfiles (swaps_of s))"
  have lt: "k < ?n \<Longrightarrow> \<exists>p. si_get (int k) ?w = Some p" for k using assms [of "int k"] by simp
  then have none: "None \<notin> set (map (\<lambda>type. si_get (int type) ?w) [0..<?n])" by force
  have "(\<exists>p\<in>set (map (\<lambda>type. si_get (int type) ?w) [0..<?n]). inuse_pages (the p) \<noteq> 0) \<longleftrightarrow>
      \<not> (\<forall>i. 0 \<le> i \<longrightarrow> i < nr_swapfiles ?w \<longrightarrow> (\<forall>p. si_get i ?w = Some p \<longrightarrow> inuse_pages p = 0))"
  proof
    assume "\<exists>p\<in>set (map (\<lambda>type. si_get (int type) ?w) [0..<?n]). inuse_pages (the p) \<noteq> 0"
    then obtain k where "k < ?n" "inuse_pages (the (si_get (int k) ?w)) \<noteq> 0" by auto
    moreover from this obtain p where "si_get (int k) ?w = Some p" using lt by blast
    ultimately show "\<not> (\<forall>i. 0 \<le> i \<longrightarrow> i < nr_swapfiles ?w \<longrightarrow> (\<forall>p. si_get i ?w = Some p \<longrightarrow> inuse_pages p = 0))"
      by (auto intro!: exI [of _ "int k"])
  next
    assume "\<not> (\<forall>i. 0 \<le> i \<longrightarrow> i < nr_swapfiles ?w \<longrightarrow> (\<forall>p. si_get i ?w = Some p \<longrightarrow> inuse_pages p = 0))"
    then obtain i p where i: "0 \<le> i" "i < nr_swapfiles ?w" "si_get i ?w = Some p" "inuse_pages p \<noteq> 0" by auto
    then have "nat i \<in> set [0..<?n]" "si_get (int (nat i)) ?w = Some p" by auto
    then show "\<exists>p\<in>set (map (\<lambda>type. si_get (int type) ?w) [0..<?n]). inuse_pages (the p) \<noteq> 0"
      using i by (intro bexI [of _ "Some p"]) (auto intro!: image_eqI [of _ _ "nat i"])
  qed
  note ex = this
  have h: "(if \<not> P then s else s\<lparr>mmlist := [init_mm]\<rparr>) = s\<lparr>mmlist := if P then [init_mm] else mmlist s\<rparr>" for P by simp
  show ?thesis unfolding drain_mmlist_def Let_def drained_def if_not_P [OF none] ex by (rule arg_cong [OF h])
qed

text \<open>The state \<open>s\<close> but for the area and the swap lock, the list of tasks, the files and the rest of the kernel.\<close>

definition in_form :: "int \<Rightarrow> swap_info_struct \<Rightarrow> bool \<Rightarrow> (int \<Rightarrow> int option) \<Rightarrow> ('r, 'k) tasks \<Rightarrow> ('r, 'k) tasks \<Rightarrow> bool" where
  "in_form type r b f s t \<longleftrightarrow> (\<exists>k. swaps_of t = (si_put type r (swaps_of s))\<lparr>swap_lock := b, kern := k\<rparr>) \<and> same_tasks s t \<and> lowest t = lowest s \<and> files t = f"

lemma si_put_with:
  "si_put x p (w\<lparr>kern := k\<rparr>) = (si_put x p w)\<lparr>kern := k\<rparr>" "si_put x p (w\<lparr>swap_lock := b\<rparr>) = (si_put x p w)\<lparr>swap_lock := b\<rparr>"
  by (simp_all add: si_put_def)

lemma in_form_refl:
  assumes "si_get type (swaps_of s) = Some p"
  shows "in_form type p (swap_lock (swaps_of s)) (files s) s s"
  unfolding in_form_def si_put_same [OF assms] by (simp add: exI [of _ "kern (swaps_of s)"])

lemma in_form_get: "in_form type r b f s t \<Longrightarrow> si_get type (swaps_of s) = Some q \<Longrightarrow> si_get type (swaps_of t) = Some r"
  by (auto simp: in_form_def)

lemma in_form_put: "in_form type r b f s t \<Longrightarrow> in_form type r' b f s (put_area type (r', k) t)"
  unfolding in_form_def put_area_def same_tasks_def by (auto simp: si_put_with)

lemma in_form_kern: "in_form type r b f s t \<Longrightarrow> in_form type r b f s (t_kern g t)"
  unfolding in_form_def t_kern_def kern_do_def same_tasks_def by auto

lemma in_form_lock:
  assumes "in_form type r False f s t" and "si_get type (swaps_of s) = Some q" and "\<not> si_lock r"
  shows "\<exists>u. lock_both type t = Some u \<and> in_form type (r\<lparr>si_lock := True\<rparr>) True f s u"
proof -
  obtain k where k: "swaps_of t = (si_put type r (swaps_of s))\<lparr>swap_lock := False, kern := k\<rparr>" using assms(1) by (auto simp: in_form_def)
  let ?w = "(si_put type (r\<lparr>si_lock := True\<rparr>) (swaps_of s))\<lparr>kern := k, swap_lock := True\<rparr>"
  have "lock_both type t = Some (put_swaps ?w t)"
    using assms(2,3) by (simp add: lock_both_def spin_lock_swap_def spin_lock_si_def k si_put_with)
  moreover have "in_form type (r\<lparr>si_lock := True\<rparr>) True f s (put_swaps ?w t)" using assms(1) by (auto simp: in_form_def same_tasks_def intro!: exI [of _ k])
  ultimately show ?thesis by blast
qed

lemma in_form_unlock:
  assumes "in_form type r True f s t" and "si_get type (swaps_of s) = Some q"
  shows "\<exists>u. unlock_both type t = Some u \<and> in_form type (r\<lparr>si_lock := False\<rparr>) False f s u"
proof -
  obtain k where k: "swaps_of t = (si_put type r (swaps_of s))\<lparr>swap_lock := True, kern := k\<rparr>" using assms(1) by (auto simp: in_form_def)
  let ?w = "(si_put type (r\<lparr>si_lock := False\<rparr>) (swaps_of s))\<lparr>kern := k, swap_lock := False\<rparr>"
  have "unlock_both type t = Some (put_swaps ?w t)"
    using assms(2) by (simp add: unlock_both_def spin_unlock_si_def k si_put_with)
  moreover have "in_form type (r\<lparr>si_lock := False\<rparr>) False f s (put_swaps ?w t)" using assms(1) by (auto simp: in_form_def same_tasks_def intro!: exI [of _ k])
  ultimately show ?thesis by blast
qed

lemma in_form_mmlist: "in_form type r b f s t \<Longrightarrow> in_form type r b f s (t\<lparr>mmlist := m\<rparr>)"
  by (auto simp: in_form_def same_tasks_def)

lemma in_form_files: "in_form type r b f s t \<Longrightarrow> in_form type r b f' s (t\<lparr>files := f'\<rparr>)"
  by (auto simp: in_form_def same_tasks_def)

lemma prio_at_put:
  assumes "si_get x s = Some q" and "prio r = prio q"
  shows "prio_at (si_put x r s) y = prio_at s y"
proof (cases "y \<noteq> x \<and> 0 \<le> y")
  case True
  then show ?thesis using assms(1) by (simp add: prio_at_def)
next
  case False
  then consider "y = x" | "y < 0" by linarith
  then show ?thesis
    using assms by cases (simp_all add: prio_at_def, simp add: si_get_def arr_get_def)
qed

lemma close_correct:
  assumes "si_get type (swaps_of s) = Some p" and "\<not> si_lock p" and "\<not> swap_lock (swaps_of s)" and "si_flags p < SWP_SCANNING (hdr (off_host Q))"
    and "\<And>i. 0 \<le> i \<Longrightarrow> i < nr_swapfiles (swaps_of s) \<Longrightarrow> \<exists>q. si_get i (swaps_of s) = Some q" and "map_paged p"
  shows "\<exists>t r. close_area Q type inode s = Some t \<and> in_form type r False ((files s)(type := None)) s t \<and> si_type r = si_type p \<and> si_next r = si_next p \<and>
    prio r = prio p \<and> swap_map r = [] \<and> map_pages r = [] \<and> si_max r = 0 \<and> si_flags r = 0 \<and> highest_bit r = 0 \<and> \<not> si_lock r"
proof -
  let ?K = "hdr (off_host Q)" and ?X = "ksv (off_host Q)" and ?F = "(files s)(type := None)"
  obtain p1 k1 where d: "destroy_swap_extents ?K ?X p (kern (swaps_of s)) = (p1, k1)" by fastforce
  obtain p2 k2 where c: "(if si_flags p1 AND SWP_CONTINUED ?K \<noteq> 0 then free_swap_count_continuations ?X p1 k1 else Some (p1, k1)) = Some (p2, k2)"
    and m: "\<exists>h. p2 = p1\<lparr>map_pages := h\<rparr>"
  proof (cases "si_flags p1 AND SWP_CONTINUED ?K \<noteq> 0")
    case True
    have "map_paged p1" using destroy_keeps [OF d] assms(6) by (simp add: map_paged_def)
    from continuations_keep [OF this, of ?X k1] show ?thesis using that True by auto
  next
    case False
    have "\<exists>h. p1 = p1\<lparr>map_pages := h\<rparr>" by (rule exI [of _ "map_pages p1"]) simp
    then show ?thesis using that [of p1 k1] False by simp
  qed
  have p2: "si_type p2 = si_type p" "si_next p2 = si_next p" "prio p2 = prio p" "\<not> si_lock p2" "si_flags p2 < SWP_SCANNING ?K"
    using destroy_keeps [OF d] m assms(2,4) by auto
  have f2: "in_form type p2 False (files s) s (put_area type (p2, k2) s)" using in_form_put [OF in_form_refl [OF assms(1)]] assms(3) by simp
  obtain s3 where s3: "lock_both type (put_area type (p2, k2) s) = Some s3" "in_form type (p2\<lparr>si_lock := True\<rparr>) True (files s) s s3"
    using in_form_lock [OF f2 assms(1) p2(4)] by blast
  have all: "\<exists>q. si_get i (swaps_of s3) = Some q" if "0 \<le> i" "i < nr_swapfiles (swaps_of s3)" for i
  proof -
    have "nr_swapfiles (swaps_of s3) = nr_swapfiles (swaps_of s)" using s3(2) by (auto simp: in_form_def)
    then have "\<exists>q. si_get i (swaps_of s) = Some q" using assms(5) [OF that(1)] that(2) by simp
    then obtain q where "si_get i (swaps_of s) = Some q" by blast
    then show ?thesis using s3(2) assms(1) that(1) by (cases "i = type") (auto simp: in_form_def)
  qed
  let ?m = "drained (swaps_of s3) (mmlist s3)"
  have dr: "drain_mmlist s3 = Some (s3\<lparr>mmlist := ?m\<rparr>)" by (rule drain_correct) (rule all)
  have s4: "in_form type (p2\<lparr>si_lock := True\<rparr>) True (files s) s (s3\<lparr>mmlist := ?m\<rparr>)" by (rule in_form_mmlist [OF s3(2)])
  let ?p5 = "p2\<lparr>si_lock := True, highest_bit := 0\<rparr>"
  define s5 where "s5 = put_area type (?p5, kern (swaps_of (s3\<lparr>mmlist := ?m\<rparr>))) (s3\<lparr>mmlist := ?m\<rparr>)"
  have f5: "in_form type ?p5 True (files s) s s5" unfolding s5_def by (rule in_form_put [OF s4])
  have w5: "wait_scanners Q type s5 = Some s5" using in_form_get [OF f5 assms(1)] p2(5) by (subst wait_scanners.simps) simp
  let ?p6 = "?p5\<lparr>si_max := 0, swap_map := [], map_pages := [], si_flags := 0\<rparr>"
  define s6 where "s6 = put_area type (?p6, kern (swaps_of s5)) (s5\<lparr>files := (files s5)(type := None)\<rparr>)"
  have "files s5 = files s" using f5 by (simp add: in_form_def)
  then have f6: "in_form type ?p6 True ?F s s6" unfolding s6_def by (simp add: in_form_put [OF in_form_files [OF f5]])
  obtain s7 where s7: "unlock_both type s6 = Some s7" "in_form type (?p6\<lparr>si_lock := False\<rparr>) False ?F s s7"
    using in_form_unlock [OF f6 assms(1)] by blast
  let ?t = "\<lambda>s. t_kern (filp_close (in_on Q)) (if is_blk inode then t_kern (\<lambda>k. blkdev_put (in_on Q) type (snd (set_blocksize (in_on Q) type k))) s
    else t_kern (clear_swapfile Q (f_mapping inode)) s)"
  let ?s8 = "t_kern (swap_cgroup_swapoff (in_on Q) type) (t_kern (frontswap_invalidate_area Q type) s7)"
  have run: "close_area Q type inode s = Some (?t ?s8)"
    unfolding close_area_def Let_def assms(1) Option.bind.simps d prod.case c s3(1) dr in_form_get [OF s4 assms(1)]
    using w5 in_form_get [OF f5 assms(1)] s7(1) unfolding s5_def s6_def by simp
  have f8: "in_form type (?p6\<lparr>si_lock := False\<rparr>) False ?F s (?t ?s8)" using s7(2) by (auto intro!: in_form_kern)
  show ?thesis by (rule exI [of _ "?t ?s8"], rule exI [of _ "?p6\<lparr>si_lock := False\<rparr>"]) (use run f8 p2 in simp)
qed

text \<open>
  C23: a \<open>swapoff\<close> of an area with no slot in use, a head for every page of its map and nobody scanning it always succeeds: the area is out
  of the list, the other areas and all tasks are as before but for the priorities that are given in turn, which
  still run from -1 on without a gap; its pages are no longer counted, it has neither map nor file nor flags,
  and no lock is held.
\<close>

theorem swapoff_of_unused:
  fixes s :: "('r, 'k) tasks"
  assumes Q: "orderly_off Q" and l: "listed Q inode ys type zs p s" and n: "none_used (hdr (off_host Q)) (SWAP_MAP_BAD (in_on Q)) (swap_map p) 0 (si_max p)"
    and "si_flags p < SWP_SCANNING (hdr (off_host Q))" and "\<And>i. 0 \<le> i \<Longrightarrow> i < nr_swapfiles (swaps_of s) \<Longrightarrow> \<exists>q. si_get i (swaps_of s) = Some q"
    and "map_paged p"
  shows "\<exists>t r. swapoff_file Q inode s = Some (0, t) \<and> list_ok (swaps_of t) (ys @ zs) \<and> in_turn (areas_of t) (ys @ zs) \<and>
    (\<forall>x q. x \<noteq> type \<longrightarrow> si_get x (swaps_of s) = Some q \<longrightarrow> (\<exists>q'. si_get x (swaps_of t) = Some q' \<and> swap_map q' = swap_map q \<and>
      map_pages q' = map_pages q \<and> si_max q' = si_max q \<and> inuse_pages q' = inuse_pages q)) \<and> same_tasks s t \<and> files t = (files s)(type := None) \<and>
    nr_swap_pages (swaps_of t) = nr_swap_pages (swaps_of s) - si_pages p \<and> total_swap_pages (swaps_of t) = total_swap_pages (swaps_of s) - si_pages p \<and>
    si_get type (swaps_of t) = Some r \<and> swap_map r = [] \<and> si_max r = 0 \<and> si_flags r = 0 \<and> \<not> si_lock r \<and> \<not> swap_lock (swaps_of t)"
proof -
  let ?K = "hdr (off_host Q)"
  have a: "sws (areas_of t) = swaps_of t" "swap_file (areas_of t) = files t" for t :: "('r, 'k) tasks" by (simp_all add: areas_of_def)
  have p: "si_get type (swaps_of s) = Some p" "\<not> swap_lock (swaps_of s)" "1 \<le> mm_users s init_mm"
    "int (length (swap_map p)) = si_max p" "0 < si_max p" "list_ok (swaps_of s) (ys @ type # zs)" using l by (auto simp: listed_def)
  obtain u where u: "left ?K type (ys @ zs) (areas_of s) (areas_of u)" "same_tasks s u" "swapoff_file Q inode s = do {
      (err, v) \<leftarrow> try_to_unuse Q type u;
      let v = set_oom_origin Q False v;
      if err \<noteq> 0 then do { v \<leftarrow> do_areas (reinsert_swap_info ?K type) v; Some (err, v) }
      else do { v \<leftarrow> close_area Q type inode v; Some (0, v) } }"
    using swapoff_until_search [OF Q l] by blast
  obtain f where f: "set_oom_origin Q False u = t_kern f u" using Q unfolding orderly_off_def by blast
  define v where "v = t_kern f u"
  have lv: "left ?K type (ys @ zs) (areas_of s) (areas_of v)" unfolding v_def by (rule left_kern [OF u(1)])
  obtain q where q: "si_get type (swaps_of v) = Some q" "\<not> si_lock q" "si_flags q = si_flags p AND NOT (SWP_WRITEOK ?K)"
      "nr_swap_pages (swaps_of v) = nr_swap_pages (swaps_of s) - si_pages p" "total_swap_pages (swaps_of v) = total_swap_pages (swaps_of s) - si_pages p"
    using lv p(1) by (auto simp: left_def a)
  have mv: "same_maps (swaps_of s) (swaps_of v)" "files v = files s" "list_ok (swaps_of v) (ys @ zs)" "in_turn (areas_of v) (ys @ zs)"
    "\<not> swap_lock (swaps_of v)" "nr_swapfiles (swaps_of v) = nr_swapfiles (swaps_of s)" using lv p(2) by (auto simp: left_def a)
  have qu: "si_get type (swaps_of u) = Some q" using q(1) by (simp add: v_def t_kern_def kern_do_def)
  note pq = same_maps_at [OF mv(1) p(1) q(1)]
  have tr: "try_to_unuse Q type u = Some (0, u)"
  proof -
    have "1 \<le> mm_users u init_mm" using u(2) p(3) by (simp add: same_tasks_def)
    from try_begins [OF Q qu _ this] show ?thesis using p(4,5) pq n by simp
  qed
  have "si_flags q \<le> si_flags p" using q(3) by (simp add: word_and_le2)
  then have fl: "si_flags q < SWP_SCANNING ?K" using assms(4) by simp
  have al: "\<exists>q. si_get i (swaps_of v) = Some q" if "0 \<le> i" "i < nr_swapfiles (swaps_of v)" for i
    using assms(5) [OF that(1)] that(2) mv(1,6) by (auto simp: same_maps_def)
  have mp: "map_paged q" using assms(6) pq by (simp add: map_paged_def)
  obtain t r where t: "close_area Q type inode v = Some t" "in_form type r False ((files v)(type := None)) v t" "si_type r = si_type q" "si_next r = si_next q"
    "prio r = prio q" "swap_map r = []" "map_pages r = []" "si_max r = 0" "si_flags r = 0" "\<not> si_lock r"
    using close_correct [OF q(1,2) mv(5) fl al mp, of inode] by blast
  have run: "swapoff_file Q inode s = Some (0, t)" unfolding u(3) tr Option.bind.simps prod.case Let_def f v_def [symmetric] t(1) by simp
  obtain k where k: "swaps_of t = (si_put type r (swaps_of v))\<lparr>swap_lock := False, kern := k\<rparr>" using t(2) by (auto simp: in_form_def)
  have "list_ok (swaps_of t) (ys @ zs)" using list_ok_put [OF mv(3) q(1) t(3-5)] by (simp add: k)
  moreover have "in_turn (areas_of t) (ys @ zs) = in_turn (areas_of v) (ys @ zs)"
    by (rule in_turn_cong) (use prio_at_put [OF q(1) t(5)] t(2) in \<open>auto simp: k areas_of_def in_form_def\<close>)
  moreover have "\<exists>q'. si_get x (swaps_of t) = Some q' \<and> swap_map q' = swap_map q \<and> map_pages q' = map_pages q \<and> si_max q' = si_max q \<and> inuse_pages q' = inuse_pages q"
    if x: "x \<noteq> type" "si_get x (swaps_of s) = Some q" for x q
  proof -
    obtain q' where "si_get x (swaps_of v) = Some q'" "swap_map q' = swap_map q \<and> map_pages q' = map_pages q \<and> si_max q' = si_max q \<and> inuse_pages q' = inuse_pages q"
      using mv(1) x(2) by (auto simp: same_maps_def)
    then show ?thesis using x(1) q(1) si_get_put_other [of type "swaps_of v" q x r] by (auto simp: k si_get_Some)
  qed
  moreover have "same_tasks s t" "files t = (files s)(type := None)" using t(2) u(2) mv(2) by (auto simp: in_form_def v_def same_tasks_def t_kern_def)
  moreover have "si_get type (swaps_of t) = Some r" using q(1) by (simp add: k)
  ultimately show ?thesis using run mv(4) t(6,8-10) q(4,5) by - (rule exI [of _ t], rule exI [of _ r], simp add: k)
qed

section \<open>Witnesses\<close>

definition ideal_off :: "(int \<Rightarrow> mem, unit) offing" where
  "ideal_off = \<lparr>in_search = ideal_search, in_on = plain_on, signal_pending = (\<lambda>_. True),
     mmput = (\<lambda>m s. s\<lparr>mm_users := (mm_users s)(m := mm_users s m - 1)\<rparr>), wait_page_locked = (\<lambda>_ s. s), wait_page_writeback = (\<lambda>_ s. s),
     lock_swap_page = (\<lambda>_ s. s), shmem_unuse = (\<lambda>_ _ s. (0, s)), swap_writepage = (\<lambda>_ s. s), cond_resched = (\<lambda>s. s),
     vm_enough_memory = (\<lambda>_ s. (0, s)), vm_unacct_memory = (\<lambda>_ s. s), set_oom_origin = (\<lambda>_ s. s), schedule_timeout = (\<lambda>s. s),
     clear_swapfile = (\<lambda>_ k. k), frontswap_invalidate_area = (\<lambda>_ k. k)\<rparr>"

text \<open>Two areas that got their priority in turn; the slot of the first one has \<open>n\<close> references.\<close>

definition turn_area :: "int \<Rightarrow> int \<Rightarrow> int \<Rightarrow> byte \<Rightarrow> swap_info_struct" where
  "turn_area type pr i n = (zero_info type)\<lparr>si_flags := 3, prio := pr, si_next := i, si_max := 2, swap_map := [0x3f, n], si_pages := 1,
     map_pages := [\<lparr>head_private = 0, lru = []\<rparr>]\<rparr>"

definition turn_swaps :: "byte \<Rightarrow> unit swaps" where
  "turn_swaps n = small_swaps\<lparr>swap_info := [Some (turn_area 0 (-1) 1 n), Some (turn_area 1 (-2) (-1) 0)], nr_swapfiles := 2, nr_swap_pages := 2,
     total_swap_pages := 2\<rparr>"

definition turn_tasks :: "byte \<Rightarrow> (int \<Rightarrow> mem, unit) tasks" where
  "turn_tasks n = \<lparr>mm_of = (\<lambda>_. twice_mm), mmap_of = (\<lambda>_. []), mm_users = (\<lambda>_. 1), mmlist = [0],
     vm_of = \<lparr>mc = \<lparr>nd = ideal_node (\<lambda>_ _. 0), sw = turn_swaps n\<rparr>, px = anon_px\<rparr>, lowest = -2, files = [0 \<mapsto> 70, 1 \<mapsto> 71]\<rparr>"

definition swap_disk :: "int \<Rightarrow> swap_inode" where
  "swap_disk m = \<lparr>f_mapping = m, is_blk = True, is_reg = False, fs_bdev = True, size_pages = 2, has_readpage = True\<rparr>"

lemma ideal_off_parts: "off_host ideal_off = ideal_host" "hdr (off_host ideal_off) = std_h" "SWAP_MAP_BAD (in_on ideal_off) = 0x3f" "signal_pending ideal_off t"
  by (simp_all add: off_host_def ideal_off_def ideal_search_def ideal_fault_parts plain_on_def)

lemma ideal_orderly: "orderly_off ideal_off"
proof -
  have "t_kern (\<lambda>k. k) s = s" for s :: "(int \<Rightarrow> mem, unit) tasks" by (simp add: t_kern_def kern_do_def put_swaps_def swaps_of_def)
  then show ?thesis by (auto simp: orderly_off_def ideal_off_def intro!: exI [of _ "\<lambda>k. k"])
qed

lemma turn_listed: "listed ideal_off (swap_disk 70) [] 0 [1] (turn_area 0 (-1) 1 n) (turn_tasks n)"
proof -
  have g: "si_get 0 (turn_swaps n) = Some (turn_area 0 (-1) 1 n)" "si_get 1 (turn_swaps n) = Some (turn_area 1 (-2) (-1) 0)"
    by (simp_all add: si_get_def arr_get_def turn_swaps_def)
  have f: "prio_at (turn_swaps n) 0 = -1" "prio_at (turn_swaps n) 1 = -2" by (simp_all add: prio_at_def g turn_area_def)
  have w: "swaps_of (turn_tasks n) = turn_swaps n" "lowest (turn_tasks n) = -2" by (simp_all add: swaps_of_def turn_tasks_def)
  have "in_turn (areas_of (turn_tasks n)) [0, 1]"
    unfolding in_turn_def by (rule exI [of _ 2]) (simp add: areas_of_def w f numeral_2_eq_2)
  moreover have "list_ok (turn_swaps n) [0, 1]"
    by (simp add: list_ok_def f g) (simp add: turn_swaps_def small_swaps_def turn_area_def zero_info_def)
  ultimately show ?thesis
    by (simp add: listed_def w g ideal_off_parts) (simp add: turn_tasks_def turn_area_def zero_info_def swap_disk_def turn_swaps_def small_swaps_def std_h_def)
qed

theorem swapoff_of_unused_witness:
  "\<exists>t r. swapoff_file ideal_off (swap_disk 70) (turn_tasks 0) = Some (0, t) \<and> list_ok (swaps_of t) [1] \<and> in_turn (areas_of t) [1] \<and>
     total_swap_pages (swaps_of t) = 1 \<and> files t = [1 \<mapsto> 71] \<and> si_get 0 (swaps_of t) = Some r \<and> si_flags r = 0"
proof -
  let ?p = "turn_area 0 (-1) 1 0"
  have n: "none_used (hdr (off_host ideal_off)) (SWAP_MAP_BAD (in_on ideal_off)) (swap_map ?p) 0 (si_max ?p)"
    by (auto simp: none_used_def used_slot_def turn_area_def)
  have fl: "si_flags ?p < SWP_SCANNING (hdr (off_host ideal_off))" by (simp add: ideal_off_parts turn_area_def std_h_def)
  have al: "\<exists>q. si_get i (swaps_of (turn_tasks 0)) = Some q" if "0 \<le> i" "i < nr_swapfiles (swaps_of (turn_tasks 0))" for i
  proof -
    have "i = 0 \<or> i = 1" using that by (auto simp: swaps_of_def turn_tasks_def turn_swaps_def)
    then show ?thesis by (auto simp: swaps_of_def turn_tasks_def turn_swaps_def si_get_def arr_get_def)
  qed
  have mp: "map_paged ?p" by (simp add: map_paged_def turn_area_def Swap_Base.PAGE_SIZE_def)
  have v: "total_swap_pages (swaps_of (turn_tasks 0)) = 2" "files (turn_tasks 0) = [0 \<mapsto> 70, 1 \<mapsto> 71]" "si_pages ?p = 1"
    by (simp_all add: swaps_of_def turn_tasks_def turn_swaps_def turn_area_def)
  have "[0 \<mapsto> (70 :: int), 1 \<mapsto> 71](0 := None) = [(1 :: int) \<mapsto> 71]" by (rule ext) (simp add: fun_upd_def)
  then show ?thesis using swapoff_of_unused [OF ideal_orderly turn_listed n fl al mp] v by auto
qed

theorem interrupted_swapoff_witness:
  "\<exists>t us vs. swapoff_file ideal_off (swap_disk 70) (turn_tasks 1) = Some (- 4, t) \<and> [1] = us @ vs \<and> list_ok (swaps_of t) (us @ 0 # vs) \<and>
     in_turn (areas_of t) (us @ 0 # vs) \<and> total_swap_pages (swaps_of t) = 2 \<and> files t = [0 \<mapsto> 70, 1 \<mapsto> 71]"
proof -
  let ?p = "turn_area 0 (-1) 1 1"
  have n: "\<not> none_used (hdr (off_host ideal_off)) (SWAP_MAP_BAD (in_on ideal_off)) (swap_map ?p) 0 (si_max ?p)"
  proof -
    have "used_slot (hdr (off_host ideal_off)) (SWAP_MAP_BAD (in_on ideal_off)) (swap_map ?p) 1"
      by (simp add: used_slot_def turn_area_def ideal_off_parts swap_count_def std_h_def)
    then show ?thesis unfolding none_used_def by (auto intro!: exI [of _ 1] simp: turn_area_def)
  qed
  have v: "total_swap_pages (swaps_of (turn_tasks 1)) = 2" "files (turn_tasks 1) = [0 \<mapsto> 70, 1 \<mapsto> 71]"
    by (simp_all add: swaps_of_def turn_tasks_def turn_swaps_def)
  show ?thesis using interrupted_swapoff [OF ideal_orderly ideal_off_parts(4) turn_listed n] v unfolding EINTR_def by auto
qed

end
