(* ===== verification/Spec2Isabelle.thy ===== *)
theory Spec2Isabelle
  imports Comex_Handle Comex_Pgtables Comex_End Krping_Proc Swap_Close
begin

text \<open>
  COMEX2: the memory of the nodes of a cluster as swap space of one another.

  The program.  COMEX2 is a patched Linux kernel (\<open>src/Kernel Modification\<close>) and a kernel module
  (\<open>src/krpingTrimmed\<close>) that connects it to RDMA hardware.  A page that the kernel reclaims goes to one of
  three places: the pool of the node's own COMEX pages (swap entry type 9), the memory of another node
  (type 8, with the lender and the page in the offset), or the ordinary swap areas.  Each node lends pages
  of its pool on request, collects what it stores with a lender in a ring of write-out slots, reads back
  through the ring, a read-in buffer or the network, and tells the lender in batches which pages it no
  longer needs.  The module allocates the memory, registers it with the hardware, connects to every other
  node, exchanges the tables of addresses, and then carries the reads, the writes and the messages.

  Conventions (\<open>Comex_Prelude\<close>).  A function of the code that touches global state takes the state and
  returns it with its result; \<^term>\<open>None\<close> is a run that C gives no meaning to or that never comes back (an
  access outside an array, a dereferenced null pointer, a failed \<open>BUG_ON\<close>, a lock taken twice by its
  holder, a loop without end), and every theorem about a result also states that there is one.  A failed
  \<open>VM_BUG_ON\<close> counts as such a run too, although \<open>src/myConfig\<close> leaves \<open>CONFIG_DEBUG_VM\<close> unset and so compiles it
  out: that a result is there shows that none fails on the way.  The one on \<open>-EEXIST\<close> in
  \<open>__add_to_swap_cache\<close>, which COMEX makes fail, is left out as in the kernel that is built: the error is returned.  Machine
  integers that the code lets wrap are words; C \<open>int\<close>s that stay in range are \<^typ>\<open>int\<close>, with the range as a
  hypothesis.  Code that is not in the repository (verbs layer, block device, reverse map, memory control
  groups, architecture headers) is a record of functions, and what a property relies on of it is a named
  predicate with a concrete instance in the witness (\<open>Comex_Ideal\<close> for the verbs and the other nodes).

  The page pool (\<open>comex_buddy.h\<close>).  \<open>Comex_Dlist\<close>: the circular lists, with the locale \<open>list_family\<close>.
  \<open>Comex_Buddy\<close>: allocation, splitting, merging and release over lists, order tags, counters and the lock,
  and the representation relation to the blocks of \<open>Buddy_Blocks\<close>.  \<open>Comex_Pool\<close>: the locale
  \<open>page_allocator\<close>, interpreted on the code, and the contract of the pool: an allocation takes exactly one
  free aligned block and fails only when there is none, a release gives exactly the block back.

  The node (\<open>comex_structure.h\<close>, \<open>comex_remote.h\<close>, \<open>comex_util.h\<close>, \<open>comex_lib.h\<close>, \<open>COMEX_module_lib.h\<close>).
  \<open>Comex_State\<close> holds all globals in one record, \<open>Comex_Memory\<close> byte memory, page copies and checksums,
  \<open>Comex_Rdma\<close> the commands on the wire, \<open>Comex_Lend\<close> requests, replies and the queue of borrowed pages
  (locale \<open>page_queues\<close>), \<open>Comex_WriteOut\<close> the ring and the store, \<open>Comex_Flush\<close>, \<open>Comex_Store\<close> and
  \<open>Comex_Move\<close> the proofs about flush, store and the choice of a lender, \<open>Comex_ReadIn\<close> the readers,
  \<open>Comex_Remote\<close> the composition: what was stored remotely is read back unchanged, and a flush or another
  store changes no stored page.  \<open>Comex_Free\<close> records freed runs and returns them to the lender's pool,
  \<open>Comex_Lib\<close> sets the node up and handles its own pages.

  The swap layer (\<open>swapfile.c\<close>, \<open>swap_state.c\<close>).  \<open>Swap_Base\<close> is its state; \<open>Swap_Count\<close> the count bytes and
  continuation pages; \<open>Swap_Map\<close> the operations on references; \<open>Swap_Slots\<close>, \<open>Swap_Refs\<close> and
  \<open>Swap_History\<close> the refinement of any sequence of them to a number and a flag (locale \<open>counted_slot\<close>);
  \<open>Swap_Cache\<close> the swap cache; \<open>Swap_Extents\<close> the extents; \<open>Swap_Alloc\<close> the allocation of slots;
  \<open>Swap_On\<close> \<open>swapon\<close> and the list of areas by priority; \<open>Swap_Unuse\<close> the search of a task for a slot
  that has to be emptied (locale \<open>search\<close>, interpreted as \<open>unuse\<close> and \<open>unuse_areas\<close>), and of a map for the next one.
  \<open>Swap_Off\<close>: \<open>swapoff\<close> over all tasks, with \<open>try_to_unuse\<close>; whatever sleeps in it is a parameter that may change
  the state of all tasks.  \<open>Swap_Delist\<close>: an area leaves the list, and a \<open>swapoff\<close> that a signal
  stops before its first slot puts it back with the priorities that are given in turn without gaps; \<open>Swap_Close\<close>: an area without slots in use is closed.

  COMEX in the kernel's paths (\<open>swap_state.c\<close>, \<open>vmscan.c\<close>, \<open>page-writeback.c\<close>, \<open>memory.c\<close>).  \<open>Comex_Swap\<close>:
  \<open>add_to_swap\<close> and \<open>read_swap_cache_async\<close> with the entries of types 8 and 9.  \<open>Comex_Reclaim\<close> and
  \<open>Comex_Shrink\<close>: a page on its way through \<open>shrink_page_list\<close>.  \<open>Comex_Tables\<close>: the last level of the page
  tables, copied by a fork and removed by an exit; \<open>Comex_Exit\<close>: what an exit gives back; \<open>Comex_Write\<close>:
  tasks and \<open>do_wp_page\<close>, the copy on write; \<open>Comex_Fault\<close>: \<open>do_swap_page\<close>; \<open>Comex_Handle\<close>: all other faults
  and \<open>handle_mm_fault\<close>, which makes the tables an address needs and chooses among them.  Together they
  follow a page out of a task's table and back into it.

  The page tables as a whole (\<open>memory.c\<close>).  \<open>Comex_Walk\<close>: the loops over the pieces of a range at each of
  the four levels, from \<open>unmap_vmas\<close>, \<open>zap_page_range\<close> and \<open>copy_page_range\<close> down to the last level, and
  the allocation of tables on the way.  Its locale \<open>ranges\<close> says when a property of the parts of a range is
  one of the whole, and proves that a walk which has it on each piece has it on the range.  \<open>Comex_Span\<close>:
  the locale \<open>removing\<close>, a \<open>ranges\<close> whose last level is \<open>zap_pte_range\<close>, carries the promise of the last level
  up to all areas of a task; interpreted as \<open>exiting\<close> for tasks with nothing but pages of the own pool, and in
  \<open>Comex_End\<close> as \<open>ending\<close> for tasks with frames and pages of COMEX of both types, which rests on
  \<open>Comex_Return\<close> (what the node gives back to its pool, its records and its lenders) and \<open>Comex_Gather\<close> (the
  frames, on their way through the gather and out of the swap cache).  \<open>Comex_Fork\<close>
  (\<open>forking\<close>): the copy of an area into new tables, and what the end of the child does to the parent.
  \<open>Comex_Pgtables\<close> (\<open>freeing\<close>): \<open>free_pgtables\<close>, which gives the tables themselves back, on addresses as 64
  bit words, whose wrap-around at the top the code uses (a ceiling of 0).  \<open>unmap_single_vma\<close> is without
  \<open>uprobe_munmap\<close> and \<open>untrack_pfn\<close>, which touch only the probes of a file and the page attributes of foreign
  memory, neither of which the model has.

  The connections (\<open>krping.c\<close>, \<open>getopt.c\<close>).  \<open>Krping_Options\<close>: the command line, equivalent to the list of
  its non-empty pieces.  \<open>Krping_Space\<close>: the registered memory.  \<open>Krping_Verbs\<close>: reads, writes and messages
  down to the work request.  \<open>Krping_Conn\<close>: the resources of a connection with their error paths.
  \<open>Krping_Run\<close>: the handlers and the steps of the thread between its waits.  \<open>Krping_Handshake\<close>: these as an
  inductive step relation with its invariant; \<open>Krping_Ready\<close>: the one event that has no value (the read of the
  peer's table into memory that was not given), what a run that ends in the ready state has
  established, that it can always get there, and how it goes wrong out of order.  \<open>Krping_Doit\<close>: all
  connections of the node.  \<open>Krping_Proc\<close>: the life of the module from a write to its proc file to the
  end, with what the early returns leave behind.

  Bounds and fuel.  There is no fuel: loops that may not end are \<open>partial_function (option)\<close>, and the
  theorems state that they end.  Page tables have four levels with any shifts that \<open>geometry_ok\<close> allows.  Sizes that the code fixes are fixed here (orders 0 to 10, 16 freed runs, 29
  swap types, 1024 nodes, blocks of 1024 pages); node counts, ring sizes and the pool are arbitrary within
  \<open>conf_ok\<close>, which says that page numbers fit an \<open>int\<close>.

  One thread.  Every operation runs by itself: the model takes and releases the locks of the code (so a
  missing release is seen) but does not interleave two processors, except for the handlers and the thread of
  a connection, which interleave freely.

  Not modelled.  \<open>krpinga.c\<close>: an older variant of the module that no rule of the Makefile builds.  The
  parts of \<open>memory.c\<close>, \<open>vmscan.c\<close>, \<open>page-writeback.c\<close>, \<open>swapfile.c\<close>, \<open>linux/mm.h\<close> and \<open>linux/mm_types.h\<close> that
  are unchanged Linux without COMEX in them: the access to the memory of
  other tasks, the mapping of foreign memory, the faults of NUMA balancing (which \<open>src/myConfig\<close> does not build), the LRU lists, zones and \<open>kswapd\<close>, the throttling of dirty pages,
  the proc files of the swap areas; they rest on most of the rest of the kernel, which is not in the
  repository.  \<open>COMEX_init_FS\<close> and the counters in debugfs, the reading of the proc file of the module (\<open>krping_read_proc\<close>), the waits on semaphores, and everything that only prints.  The build scripts, kernel
  configurations and patches for other kernels hold no program logic of their own.
\<close>

end
